(* ===== verification/JsPrelude.thy ===== *)
theory JsPrelude
  imports Main "HOL-Library.Word" "HOL-Library.AList"
begin

text \<open>
  What the components share of JavaScript and of Node's standard library: strings as lists
  of UTF-16 code units, \<open>Map\<close> as an association list in insertion order, \<open>Buffer\<close> as a
  list of bytes with big-endian reads and writes, slices, and the generic lemmas about them.
  The collections \<open>js_simps\<close> and \<open>buffer_simps\<close> carry the facts the component proofs use.
\<close>

unbundle bit_operations_syntax

named_theorems js_simps \<open>facts about the JavaScript library model\<close>
named_theorems buffer_simps \<open>facts about byte buffers\<close>

section \<open>Strings\<close>

text \<open>
  A JavaScript string is a sequence of 16-bit code units. \<open>js\<close> embeds an ASCII literal; it is
  injective, so literals are compared as they are written.
\<close>

type_synonym jstring = "16 word list"

definition js_char :: "char \<Rightarrow> 16 word" where
  "js_char c = word_of_nat (of_char c)"

definition js :: "string \<Rightarrow> jstring" where
  "js s = map js_char s"

lemma of_char_lt_256: "of_char c < (256 :: nat)"
  by (metis of_char_mod_256 mod_less_divisor zero_less_numeral)

lemma js_char_eq_iff [simp]: "js_char a = js_char b \<longleftrightarrow> a = b"
proof
  assume "js_char a = js_char b"
  then have "unat (js_char a) = unat (js_char b)"
    by simp
  moreover have "unat (js_char c) = of_char c" for c
  proof -
    have "of_char c < (65536 :: nat)"
      using of_char_lt_256 [of c] by linarith
    then show ?thesis by (simp add: js_char_def unat_of_nat)
  qed
  ultimately show "a = b"
    by (simp add: of_char_eq_iff)
qed simp

lemma js_eq_iff [simp]: "js s = js t \<longleftrightarrow> s = t"
  unfolding js_def by (rule inj_eq [OF inj_mapI]) (simp add: inj_def)

lemma js_append [js_simps]: "js (s @ t) = js s @ js t"
  by (simp add: js_def)

lemma js_eq_Nil_iff [simp]: "js s = [] \<longleftrightarrow> s = []"
  by (simp add: js_def)

lemma js_length [js_simps]: "length (js s) = length s"
  by (simp add: js_def)

text \<open>JavaScript's \<open>||\<close>-style default: the value unless it is absent or the empty string.\<close>

definition or_default :: "jstring option \<Rightarrow> jstring \<Rightarrow> jstring" where
  "or_default x d = (case x of None \<Rightarrow> d | Some s \<Rightarrow> if s = [] then d else s)"

text \<open>Decimal notation of a number, as template literals write it.\<close>

fun digits :: "nat \<Rightarrow> nat list" where
  "digits n = (if n < 10 then [n] else digits (n div 10) @ [n mod 10])"

declare digits.simps [simp del]

definition js_nat :: "nat \<Rightarrow> jstring" where
  "js_nat n = map (\<lambda>d. word_of_nat (48 + d)) (digits n)"

lemma digits_range: "d \<in> set (digits n) \<Longrightarrow> d < 10"
proof (induction n arbitrary: d rule: digits.induct)
  case (1 n)
  then show ?case
    by (cases "n < 10") (auto simp: digits.simps [of n])
qed

lemma digits_value: "foldl (\<lambda>a d. a * 10 + d) 0 (digits n) = n"
proof (induction n rule: digits.induct)
  case (1 n)
  then show ?case
    by (cases "n < 10") (simp_all add: digits.simps [of n])
qed

lemma js_nat_eq_iff [simp]: "js_nat m = js_nat n \<longleftrightarrow> m = n"
proof
  have digit: "unat (word_of_nat (48 + d) :: 16 word) - 48 = d" if "d < 10" for d
    using that by (simp only: unat_of_nat) (simp add: take_bit_nat_eq_self)
  have undo: "map (\<lambda>w. unat w - 48) (js_nat k) = digits k" for k
    unfolding js_nat_def map_map comp_def by (rule map_idI) (rule digit, rule digits_range)
  assume "js_nat m = js_nat n"
  then have "digits m = digits n"
    using undo [of m] undo [of n] by simp
  then show "m = n"
    using digits_value by metis
qed simp

section \<open>Arrays\<close>

text \<open>\<open>splice(i, 1)\<close> takes one element out.\<close>

definition splice_out :: "nat \<Rightarrow> 'a list \<Rightarrow> 'a list" where
  "splice_out i xs = take i xs @ drop (Suc i) xs"

lemma splice_out_append: "splice_out (length xs) (xs @ x # ys) = xs @ ys"
  by (simp add: splice_out_def)

lemma sorted_wrt_filter_tail: "sorted_wrt P (xs @ map f ws) \<Longrightarrow> sorted_wrt P (xs @ map f (filter Q ws))"
  by (induction xs) (auto simp: sorted_wrt_map sorted_wrt_filter)

section \<open>Map\<close>

text \<open>
  A \<open>Map\<close> keeps its entries in insertion order: \<open>set\<close> on a present key keeps its place,
  \<open>delete\<close> removes the entry, iteration goes through the list.
\<close>

type_synonym ('k, 'v) jmap = "('k \<times> 'v) list"

definition jmap_empty :: "('k, 'v) jmap" where
  "jmap_empty = []"

definition jmap_get :: "('k, 'v) jmap \<Rightarrow> 'k \<Rightarrow> 'v option" where
  "jmap_get m k = map_of m k"

definition jmap_set :: "'k \<Rightarrow> 'v \<Rightarrow> ('k, 'v) jmap \<Rightarrow> ('k, 'v) jmap" where
  "jmap_set k v m = AList.update k v m"

definition jmap_delete :: "'k \<Rightarrow> ('k, 'v) jmap \<Rightarrow> ('k, 'v) jmap" where
  "jmap_delete k m = AList.delete k m"

definition jmap_has :: "('k, 'v) jmap \<Rightarrow> 'k \<Rightarrow> bool" where
  "jmap_has m k \<longleftrightarrow> jmap_get m k \<noteq> None"

definition jmap_keys :: "('k, 'v) jmap \<Rightarrow> 'k list" where
  "jmap_keys m = map fst m"

definition jmap_values :: "('k, 'v) jmap \<Rightarrow> 'v list" where
  "jmap_values m = map snd m"

definition jmap_wf :: "('k, 'v) jmap \<Rightarrow> bool" where
  "jmap_wf m \<longleftrightarrow> distinct (jmap_keys m)"

lemma jmap_get_empty [simp]: "jmap_get jmap_empty k = None"
  by (simp add: jmap_get_def jmap_empty_def)

lemma jmap_get_set: "jmap_get (jmap_set k v m) k' = (if k' = k then Some v else jmap_get m k')"
  by (simp add: jmap_get_def jmap_set_def update_conv)

lemma jmap_get_set_same [simp]: "jmap_get (jmap_set k v m) k = Some v"
  by (simp add: jmap_get_set)

lemma jmap_get_set_other [simp]: "k' \<noteq> k \<Longrightarrow> jmap_get (jmap_set k v m) k' = jmap_get m k'"
  by (simp add: jmap_get_set)

lemma jmap_get_delete: "jmap_get (jmap_delete k m) k' = (if k' = k then None else jmap_get m k')"
  by (simp add: jmap_get_def jmap_delete_def delete_conv)

lemma jmap_get_delete_same [simp]: "jmap_get (jmap_delete k m) k = None"
  by (simp add: jmap_get_delete)

lemma jmap_wf_empty [simp]: "jmap_wf jmap_empty"
  by (simp add: jmap_wf_def jmap_keys_def jmap_empty_def)

lemma jmap_wf_set [simp]: "jmap_wf m \<Longrightarrow> jmap_wf (jmap_set k v m)"
  by (simp add: jmap_wf_def jmap_keys_def jmap_set_def distinct_update)

lemma jmap_wf_delete [simp]: "jmap_wf m \<Longrightarrow> jmap_wf (jmap_delete k m)"
  by (simp add: jmap_wf_def jmap_keys_def jmap_delete_def distinct_delete)

lemma jmap_get_iff: "distinct (map fst m) \<Longrightarrow> jmap_get m k = Some v \<longleftrightarrow> (k, v) \<in> set m"
  by (simp add: jmap_get_def)

lemma set_jmap_keys: "set (jmap_keys m) = {k. jmap_has m k}"
  by (auto simp: jmap_keys_def jmap_has_def jmap_get_def map_of_eq_None_iff)

lemma jmap_keys_set:
  "jmap_keys (jmap_set k v m) = (if jmap_has m k then jmap_keys m else jmap_keys m @ [k])"
  by (induction m) (auto simp: jmap_keys_def jmap_set_def jmap_has_def jmap_get_def)

lemma length_jmap_set: "length (jmap_set k v m) = (if jmap_has m k then length m else length m + 1)"
  using arg_cong [OF jmap_keys_set [of k v m], of length] by (simp add: jmap_keys_def split: if_splits)

lemma length_jmap_delete_le: "length (jmap_delete k m) \<le> length m"
  by (simp add: jmap_delete_def AList.delete_eq)

lemma length_jmap_dom: "jmap_wf m \<Longrightarrow> length m = card {k. jmap_get m k \<noteq> None}"
  using distinct_card [of "jmap_keys m"] set_jmap_keys [of m]
  by (simp add: jmap_wf_def jmap_has_def) (simp add: jmap_keys_def)

lemma jmap_set_members: "x \<in> set (jmap_set k v m) \<Longrightarrow> x = (k, v) \<or> x \<in> set m"
  by (induction m) (auto simp: jmap_set_def split: if_splits)

lemma jmap_get_map: "jmap_get (map (\<lambda>(k, v). (k, f v)) m) k = map_option f (jmap_get m k)"
  by (simp add: jmap_get_def map_of_map)

lemma jmap_set_all: "P (k, v) \<Longrightarrow> \<forall>x \<in> set m. P x \<Longrightarrow> \<forall>x \<in> set (jmap_set k v m). P x"
  by (induction m) (auto simp: jmap_set_def split: if_splits)

section \<open>Set\<close>

text \<open>A \<open>Set\<close> keeps its elements in insertion order, without repetition.\<close>

type_synonym 'a jset = "'a list"

definition jset_has :: "'a jset \<Rightarrow> 'a \<Rightarrow> bool" where
  "jset_has s x \<longleftrightarrow> x \<in> set s"

definition jset_add :: "'a \<Rightarrow> 'a jset \<Rightarrow> 'a jset" where
  "jset_add x s = (if jset_has s x then s else s @ [x])"

definition jset_delete :: "'a \<Rightarrow> 'a jset \<Rightarrow> 'a jset" where
  "jset_delete x s = filter (\<lambda>y. y \<noteq> x) s"

lemma set_jset_add [simp]: "set (jset_add x s) = insert x (set s)"
  by (auto simp: jset_add_def jset_has_def)

lemma jset_add_not_Nil [simp]: "jset_add x s \<noteq> []"
  by (auto simp: jset_add_def jset_has_def)

lemma distinct_jset_add [simp]: "distinct s \<Longrightarrow> distinct (jset_add x s)"
  by (simp add: jset_add_def jset_has_def)

lemma set_jset_delete [simp]: "set (jset_delete x s) = set s - {x}"
  by (auto simp: jset_delete_def)

lemma distinct_jset_delete [simp]: "distinct s \<Longrightarrow> distinct (jset_delete x s)"
  by (simp add: jset_delete_def)

lemma length_jset_delete_le: "length (jset_delete x s) \<le> length s"
  by (simp add: jset_delete_def)

section \<open>Buffers\<close>

type_synonym byte = "8 word"

definition slice :: "nat \<Rightarrow> nat \<Rightarrow> 'a list \<Rightarrow> 'a list" where
  "slice off n xs = take n (drop off xs)"

lemma slice_append [buffer_simps]: "off + n \<le> length xs \<Longrightarrow> slice off n (xs @ ys) = slice off n xs"
  by (simp add: slice_def)

lemma length_slice [buffer_simps]: "off + n \<le> length xs \<Longrightarrow> length (slice off n xs) = n"
  by (simp add: slice_def)

lemma nth_append_left [buffer_simps]: "i < length xs \<Longrightarrow> (xs @ ys) ! i = xs ! i"
  by (simp add: nth_append)

text \<open>\<open>writeUIntBE\<close> and \<open>readUIntBE\<close> for an \<open>n\<close>-byte field.\<close>

fun be_bytes :: "nat \<Rightarrow> nat \<Rightarrow> byte list" where
  "be_bytes 0 v = []"
| "be_bytes (Suc n) v = word_of_nat (v div 256 ^ n) # be_bytes n v"

definition be_val :: "byte list \<Rightarrow> nat" where
  "be_val bs = foldl (\<lambda>a b. a * 256 + unat b) 0 bs"

lemma length_be_bytes [simp]: "length (be_bytes n v) = n"
  by (induction n) auto

lemma be_val_foldl: "foldl (\<lambda>a b. a * 256 + unat b) a (be_bytes n v) = a * 256 ^ n + v mod 256 ^ n"
proof (induction n arbitrary: a)
  case 0
  then show ?case by simp
next
  case (Suc n)
  have u: "unat (word_of_nat x :: byte) = x mod 256" for x
    by (simp add: unat_of_nat take_bit_eq_mod)
  have "v mod 256 ^ Suc n = 256 ^ n * (v div 256 ^ n mod 256) + v mod 256 ^ n"
    by (simp only: power_Suc2 mod_mult2_eq)
  with Suc show ?case
    by (simp add: u algebra_simps)
qed

lemma be_val_be_bytes: "be_val (be_bytes n v) = v mod 256 ^ n"
  by (simp add: be_val_def be_val_foldl)

lemma be_val_be_bytes_small [buffer_simps]: "v < 256 ^ n \<Longrightarrow> be_val (be_bytes n v) = v"
  by (simp add: be_val_be_bytes)

lemma be_val_foldl_bound: "foldl (\<lambda>a b. a * 256 + unat b) a bs < (a + 1) * 256 ^ length bs"
  for bs :: "byte list"
proof (induction bs arbitrary: a)
  case Nil
  then show ?case by simp
next
  case (Cons b bs)
  have "unat b < 256"
    using unsigned_less [of b] by simp
  then have "a * 256 + unat b + 1 \<le> (a + 1) * 256"
    by simp
  then have "(a * 256 + unat b + 1) * 256 ^ length bs \<le> (a + 1) * 256 * 256 ^ length bs"
    by (rule mult_le_mono1)
  with Cons [of "a * 256 + unat b"]
  have "foldl (\<lambda>a b. a * 256 + unat b) (a * 256 + unat b) bs < (a + 1) * 256 * 256 ^ length bs"
    by (rule less_le_trans)
  then show ?case
    by (simp only: foldl.simps list.size(4) add_Suc_right add_0_right power_Suc mult.assoc)
qed

lemma be_val_bound: "be_val bs < 256 ^ length bs"
  using be_val_foldl_bound [of 0 bs] by (simp add: be_val_def)

text \<open>Writing back the value read from a field gives its bytes.\<close>

lemma be_bytes_mod: "be_bytes n (a * 256 ^ n + v) = be_bytes n v"
proof (induction n arbitrary: a)
  case (Suc n)
  have "(a * 256 ^ Suc n + v) div 256 ^ n = a * 256 + v div 256 ^ n"
    by (simp add: mult.assoc [symmetric])
  moreover have "(word_of_nat (a * 256 + k) :: byte) = word_of_nat k" for k
    by (simp only: word_of_nat_eq_iff take_bit_eq_mod) simp
  moreover have "be_bytes n (a * 256 ^ Suc n + v) = be_bytes n v"
    using Suc [of "a * 256"] by (simp add: mult.assoc)
  ultimately show ?case by simp
qed simp

lemma be_val_Cons: "be_val (b # bs) = unat b * 256 ^ length bs + be_val bs"
proof -
  have "foldl (\<lambda>a b. a * 256 + unat b) a bs = a * 256 ^ length bs + be_val bs" for a and bs :: "byte list"
  proof (induction bs rule: rev_induct)
    case (snoc b bs)
    have "be_val (bs @ [b]) = be_val bs * 256 + unat b"
      by (simp add: be_val_def)
    with snoc show ?case
      by (simp add: distrib_right)
  qed (simp add: be_val_def)
  from this [of "unat b" bs] show ?thesis
    by (simp add: be_val_def)
qed

lemma be_bytes_be_val: "be_bytes (length bs) (be_val bs) = bs"
proof (induction bs)
  case (Cons b bs)
  have "(unat b * 256 ^ length bs + be_val bs) div 256 ^ length bs = unat b"
    using be_val_bound [of bs] by simp
  with Cons show ?case
    by (simp add: be_val_Cons be_bytes_mod)
qed simp

end
