(* ===== verification/Utf8.thy ===== *)
theory Utf8
  imports JsPrelude
begin

text \<open>
  UTF-8 as Node implements it: \<open>Buffer.from(text, 'utf8')\<close> and \<open>TextDecoder('utf-8', {fatal:
  true}).decode\<close>. A text is a list of Unicode scalar values (a string without lone surrogates).
  The decoder accepts exactly the well-formed sequences of the Unicode standard's table 3-7 and
  fails (\<open>None\<close>) on everything else; \<open>TextDecoder\<close> also drops a leading byte order mark.
\<close>

type_synonym codepoint = nat

definition is_scalar :: "codepoint \<Rightarrow> bool" where
  "is_scalar c \<longleftrightarrow> c < 0xD800 \<or> (0xE000 \<le> c \<and> c < 0x110000)"

definition utf8_encode1 :: "codepoint \<Rightarrow> nat list" where
  "utf8_encode1 c =
     (if c < 0x80 then [c]
      else if c < 0x800 then [0xC0 + c div 64, 0x80 + c mod 64]
      else if c < 0x10000 then [0xE0 + c div 4096, 0x80 + c div 64 mod 64, 0x80 + c mod 64]
      else [0xF0 + c div 262144, 0x80 + c div 4096 mod 64, 0x80 + c div 64 mod 64, 0x80 + c mod 64])"

definition in_range :: "nat \<Rightarrow> nat \<Rightarrow> nat \<Rightarrow> bool" where
  "in_range lo hi b \<longleftrightarrow> lo \<le> b \<and> b \<le> hi"

text \<open>The bounds of the second byte depend on the first (no overlong form, no surrogate).\<close>

fun utf8_decode_nat :: "nat list \<Rightarrow> codepoint list option" where
  "utf8_decode_nat [] = Some []"
| "utf8_decode_nat (b0 # bs) =
     (if b0 < 0x80 then map_option ((#) b0) (utf8_decode_nat bs)
      else if in_range 0xC2 0xDF b0 then
        (case bs of
           b1 # bs' \<Rightarrow>
             if in_range 0x80 0xBF b1
             then map_option ((#) ((b0 - 0xC0) * 64 + (b1 - 0x80))) (utf8_decode_nat bs')
             else None
         | _ \<Rightarrow> None)
      else if in_range 0xE0 0xEF b0 then
        (case bs of
           b1 # b2 # bs' \<Rightarrow>
             if in_range (if b0 = 0xE0 then 0xA0 else 0x80) (if b0 = 0xED then 0x9F else 0xBF) b1
                \<and> in_range 0x80 0xBF b2
             then map_option ((#) ((b0 - 0xE0) * 4096 + (b1 - 0x80) * 64 + (b2 - 0x80))) (utf8_decode_nat bs')
             else None
         | _ \<Rightarrow> None)
      else if in_range 0xF0 0xF4 b0 then
        (case bs of
           b1 # b2 # b3 # bs' \<Rightarrow>
             if in_range (if b0 = 0xF0 then 0x90 else 0x80) (if b0 = 0xF4 then 0x8F else 0xBF) b1
                \<and> in_range 0x80 0xBF b2 \<and> in_range 0x80 0xBF b3
             then map_option ((#) ((b0 - 0xF0) * 262144 + (b1 - 0x80) * 4096 + (b2 - 0x80) * 64 + (b3 - 0x80)))
                    (utf8_decode_nat bs')
             else None
         | _ \<Rightarrow> None)
      else None)"

definition utf8_encode :: "codepoint list \<Rightarrow> byte list" where
  "utf8_encode cs = map word_of_nat (concat (map utf8_encode1 cs))"

definition utf8_decode :: "byte list \<Rightarrow> codepoint list option" where
  "utf8_decode bs = utf8_decode_nat (map unat bs)"

definition utf8_valid :: "byte list \<Rightarrow> bool" where
  "utf8_valid bs \<longleftrightarrow> utf8_decode bs \<noteq> None"

text \<open>\<open>TextDecoder.decode\<close>: the decoded text without a leading U+FEFF.\<close>

definition text_decode :: "byte list \<Rightarrow> codepoint list option" where
  "text_decode bs =
     (case utf8_decode bs of
        None \<Rightarrow> None
      | Some cs \<Rightarrow> Some (case cs of c # cs' \<Rightarrow> if c = 0xFEFF then cs' else cs | [] \<Rightarrow> []))"

declare utf8_decode_nat.simps(2) [simp del]

lemma base64_digits2: "c = c div 4096 * 4096 + c div 64 mod 64 * 64 + c mod (64 :: nat)"
proof -
  have "c div 4096 = c div 64 div 64"
    by (simp add: div_mult2_eq [symmetric])
  then show ?thesis
    using div_mult_mod_eq [of c 64] div_mult_mod_eq [of "c div 64" 64] by linarith
qed

lemma base64_digits3:
  "c = c div 262144 * 262144 + c div 4096 mod 64 * 4096 + c div 64 mod 64 * 64 + c mod (64 :: nat)"
proof -
  have "c div 262144 = c div 4096 div 64"
    by (simp add: div_mult2_eq [symmetric])
  then show ?thesis
    using base64_digits2 [of c] div_mult_mod_eq [of "c div 4096" 64] by linarith
qed

lemma decode_encode1:
  assumes "is_scalar c"
  shows "utf8_decode_nat (utf8_encode1 c @ bs) = map_option ((#) c) (utf8_decode_nat bs)"
proof -
  consider "c < 0x80" | "0x80 \<le> c" "c < 0x800" | "0x800 \<le> c" "c < 0x10000" | "0x10000 \<le> c" "c < 0x110000"
    using assms by (fastforce simp: is_scalar_def)
  then show ?thesis
  proof cases
    case 1
    then show ?thesis by (simp add: utf8_encode1_def utf8_decode_nat.simps(2))
  next
    case 2
    define p q where "p = c div 64" and "q = c mod 64"
    have c: "c = p * 64 + q"
      unfolding p_def q_def by presburger
    have bounds: "2 \<le> p" "p < 32" "q < 64"
      using 2 by (auto simp: p_def q_def)
    moreover have "utf8_encode1 c = [0xC0 + p, 0x80 + q]"
      using 2 by (simp add: utf8_encode1_def p_def q_def)
    ultimately show ?thesis
      using c by (auto simp: utf8_decode_nat.simps(2) in_range_def)
  next
    case 3
    define p q r where "p = c div 4096" and "q = c div 64 mod 64" and "r = c mod 64"
    have c: "c = p * 4096 + q * 64 + r"
      unfolding p_def q_def r_def by (rule base64_digits2)
    have bounds: "p < 16" "q < 64" "r < 64"
      using 3 by (auto simp: p_def q_def r_def)
    have "p = 0 \<Longrightarrow> 32 \<le> q" "p = 13 \<Longrightarrow> q < 32"
      using 3 assms c bounds by (auto simp: is_scalar_def)
    moreover have "utf8_encode1 c = [0xE0 + p, 0x80 + q, 0x80 + r]"
      using 3 by (simp add: utf8_encode1_def p_def q_def r_def)
    ultimately show ?thesis
      using bounds c by (auto simp: utf8_decode_nat.simps(2) in_range_def)
  next
    case 4
    define o' p q r where "o' = c div 262144" and "p = c div 4096 mod 64" and "q = c div 64 mod 64"
      and "r = c mod 64"
    have c: "c = o' * 262144 + p * 4096 + q * 64 + r"
      unfolding o'_def p_def q_def r_def by (rule base64_digits3)
    have bounds: "o' < 5" "p < 64" "q < 64" "r < 64"
      using 4 by (auto simp: o'_def p_def q_def r_def)
    have "o' = 0 \<Longrightarrow> 16 \<le> p" "o' = 4 \<Longrightarrow> p < 16"
      using 4 c bounds by auto
    moreover have "utf8_encode1 c = [0xF0 + o', 0x80 + p, 0x80 + q, 0x80 + r]"
      using 4 by (simp add: utf8_encode1_def o'_def p_def q_def r_def)
    ultimately show ?thesis
      using bounds c by (auto simp: utf8_decode_nat.simps(2) in_range_def)
  qed
qed

lemma encode1_bytes: "is_scalar c \<Longrightarrow> \<forall>b \<in> set (utf8_encode1 c). b < 256"
  by (auto simp: utf8_encode1_def is_scalar_def)

lemma map_unat_of_nat: "\<forall>n \<in> set ns. n < 256 \<Longrightarrow> map unat (map word_of_nat ns :: byte list) = ns"
  by (induction ns) (auto simp: unat_of_nat)

lemma decode_nat_encode:
  "\<forall>c \<in> set cs. is_scalar c \<Longrightarrow> utf8_decode_nat (concat (map utf8_encode1 cs)) = Some cs"
  by (induction cs) (simp_all add: decode_encode1)

text \<open>Decoding the encoding of a text of scalar values gives the text back.\<close>

lemma utf8_decode_encode: "\<forall>c \<in> set cs. is_scalar c \<Longrightarrow> utf8_decode (utf8_encode cs) = Some cs"
proof -
  assume sc: "\<forall>c \<in> set cs. is_scalar c"
  then have "\<forall>b \<in> set (concat (map utf8_encode1 cs)). b < 256"
    using encode1_bytes by fastforce
  then show ?thesis
    using sc unfolding utf8_decode_def utf8_encode_def
    by (simp only: map_unat_of_nat decode_nat_encode)
qed

lemma utf8_valid_encode: "\<forall>c \<in> set cs. is_scalar c \<Longrightarrow> utf8_valid (utf8_encode cs)"
  by (simp add: utf8_valid_def utf8_decode_encode)

lemma utf8_valid_Nil [simp]: "utf8_valid []"
  by (simp add: utf8_valid_def utf8_decode_def)

lemma text_decode_Nil [simp]: "text_decode [] = Some []"
  by (simp add: text_decode_def utf8_decode_def)

lemma text_decode_encode:
  "\<forall>c \<in> set cs. is_scalar c \<Longrightarrow> take 1 cs \<noteq> [0xFEFF] \<Longrightarrow> text_decode (utf8_encode cs) = Some cs"
  by (auto simp: text_decode_def utf8_decode_encode split: list.split)

lemma text_decode_None_iff: "text_decode bs = None \<longleftrightarrow> \<not> utf8_valid bs"
  by (simp add: text_decode_def utf8_valid_def split: option.split)

end
