(* ===== verification/WsTypes.thy ===== *)
theory WsTypes
  imports Utf8
begin

text \<open>
  The types of the WebSocket protocol layer (\<open>websocket/protocol/types.ts\<close>): opcodes, close
  codes, frames, protocol errors, messages, close bodies and session states. An error's message
  is a value naming the throw site and what the message quotes; its close code is the number the
  code attaches.
\<close>

section \<open>Opcodes\<close>

datatype ws_opcode = CONTINUATION | TEXT | BINARY | CLOSE | PING | PONG

fun opcode_num :: "ws_opcode \<Rightarrow> nat" where
  "opcode_num CONTINUATION = 0x0"
| "opcode_num TEXT = 0x1"
| "opcode_num BINARY = 0x2"
| "opcode_num CLOSE = 0x8"
| "opcode_num PING = 0x9"
| "opcode_num PONG = 0xa"

definition isDataOpcode :: "nat \<Rightarrow> bool" where
  "isDataOpcode op \<longleftrightarrow> op = opcode_num TEXT \<or> op = opcode_num BINARY \<or> op = opcode_num CONTINUATION"

definition isControlOpcode :: "nat \<Rightarrow> bool" where
  "isControlOpcode op \<longleftrightarrow> op \<ge> 0x8"

definition isKnownOpcode :: "nat \<Rightarrow> bool" where
  "isKnownOpcode op \<longleftrightarrow>
     op = opcode_num CONTINUATION \<or> op = opcode_num TEXT \<or> op = opcode_num BINARY \<or>
     op = opcode_num CLOSE \<or> op = opcode_num PING \<or> op = opcode_num PONG"

text \<open>The cast \<open>opcode as WsOpcode\<close>, applied to known opcodes only.\<close>

definition opcode_of :: "nat \<Rightarrow> ws_opcode" where
  "opcode_of n =
     (if n = 0 then CONTINUATION else if n = 1 then TEXT else if n = 2 then BINARY
      else if n = 8 then CLOSE else if n = 9 then PING else PONG)"

lemma opcode_of_num [simp]: "opcode_of (opcode_num op) = op"
  by (cases op) (simp_all add: opcode_of_def)

lemma isKnownOpcode_num [simp]: "isKnownOpcode (opcode_num op)"
  by (cases op) (simp_all add: isKnownOpcode_def)

lemma isKnownOpcode_iff: "isKnownOpcode n \<longleftrightarrow> (\<exists>op. n = opcode_num op)"
proof
  assume "isKnownOpcode n"
  then show "\<exists>op. n = opcode_num op"
    unfolding isKnownOpcode_def by (elim disjE) (rule exI, assumption)+
next
  assume "\<exists>op. n = opcode_num op"
  then show "isKnownOpcode n" by auto
qed

lemma opcode_num_inject [simp]: "opcode_num a = opcode_num b \<longleftrightarrow> a = b"
  by (metis opcode_of_num)

lemma isControlOpcode_num: "isControlOpcode (opcode_num op) \<longleftrightarrow> op \<in> {CLOSE, PING, PONG}"
  by (cases op) (simp_all add: isControlOpcode_def)

lemma data_or_control: "isKnownOpcode n \<Longrightarrow> isDataOpcode n \<longleftrightarrow> \<not> isControlOpcode n"
  by (auto simp: isKnownOpcode_def isDataOpcode_def isControlOpcode_def)

section \<open>Close codes\<close>

datatype ws_close_code =
    NORMAL | GOING_AWAY | PROTOCOL_ERROR | UNSUPPORTED_DATA | NO_STATUS_RECEIVED | ABNORMAL
  | INVALID_PAYLOAD | POLICY_VIOLATION | MESSAGE_TOO_BIG | MANDATORY_EXTENSION | INTERNAL_ERROR
  | TLS_HANDSHAKE

fun close_num :: "ws_close_code \<Rightarrow> nat" where
  "close_num NORMAL = 1000"
| "close_num GOING_AWAY = 1001"
| "close_num PROTOCOL_ERROR = 1002"
| "close_num UNSUPPORTED_DATA = 1003"
| "close_num NO_STATUS_RECEIVED = 1005"
| "close_num ABNORMAL = 1006"
| "close_num INVALID_PAYLOAD = 1007"
| "close_num POLICY_VIOLATION = 1008"
| "close_num MESSAGE_TOO_BIG = 1009"
| "close_num MANDATORY_EXTENSION = 1010"
| "close_num INTERNAL_ERROR = 1011"
| "close_num TLS_HANDSHAKE = 1015"

definition isValidCloseCode :: "nat \<Rightarrow> bool" where
  "isValidCloseCode code =
     (if code = close_num NO_STATUS_RECEIVED \<or> code = close_num ABNORMAL \<or> code = close_num TLS_HANDSHAKE
      then False
      else if code \<ge> 1000 \<and> code \<le> 1011 then True
      else if code \<ge> 3000 \<and> code \<le> 4999 then True
      else False)"

lemma isValidCloseCode_bound: "isValidCloseCode c \<Longrightarrow> c < 65536"
  by (simp add: isValidCloseCode_def split: if_splits)

section \<open>Frames, errors, messages\<close>

record ws_frame =
  f_fin :: bool
  f_rsv1 :: bool
  f_rsv2 :: bool
  f_rsv3 :: bool
  f_opcode :: ws_opcode
  f_masked :: bool
  f_maskingKey :: "byte list option"
  f_payloadLength :: nat
  f_payload :: "byte list"
  f_wireBytes :: nat

datatype ws_violation =
    BadMaskingKey
  | RsvBitsSet byte
  | UnknownOpcode nat
  | ClientFrameUnmasked
  | MaskedFrameForbidden
  | PayloadTooLong nat nat
  | ControlFragmented
  | ControlTooLong nat
  | BadFragmentSize
  | ContinuationWithoutMessage
  | NewMessageInProgress ws_opcode
  | TooManyFragments nat
  | MessageTooLong nat
  | InvalidUtf8Text
  | CloseBodyOneByte
  | InvalidCloseCode nat
  | InvalidUtf8Reason
  | CannotOpenIn
  | PongTimeout

datatype ws_protocol_error = WsProtocolError (message: ws_violation) (closeCode: nat)

text \<open>The constructor's default close code.\<close>

definition protocol_error :: "ws_violation \<Rightarrow> ws_protocol_error" where
  "protocol_error v = WsProtocolError v (close_num PROTOCOL_ERROR)"

lemma closeCode_protocol_error [simp]: "closeCode (protocol_error v) = 1002"
  by (simp add: protocol_error_def)

record ws_message =
  m_opcode :: ws_opcode
  m_payload :: "byte list"
  m_fragmentCount :: nat

record ws_close_body =
  cb_code :: nat
  cb_reason :: "codepoint list"

section \<open>Session states\<close>

text \<open>The lifecycle, in the order a connection goes through it.\<close>

datatype ws_session_state = CONNECTING | OPEN | CLOSING | CLOSED

fun state_rank :: "ws_session_state \<Rightarrow> nat" where
  "state_rank CONNECTING = 0"
| "state_rank OPEN = 1"
| "state_rank CLOSING = 2"
| "state_rank CLOSED = 3"

lemma state_rank_inject: "state_rank a = state_rank b \<Longrightarrow> a = b"
  by (cases a; cases b) simp_all

instantiation ws_session_state :: linorder
begin

definition less_eq_ws_session_state :: "ws_session_state \<Rightarrow> ws_session_state \<Rightarrow> bool" where
  "less_eq_ws_session_state a b \<longleftrightarrow> state_rank a \<le> state_rank b"

definition less_ws_session_state :: "ws_session_state \<Rightarrow> ws_session_state \<Rightarrow> bool" where
  "less_ws_session_state a b \<longleftrightarrow> state_rank a < state_rank b"

instance
  by standard (auto simp: less_eq_ws_session_state_def less_ws_session_state_def dest: state_rank_inject)

end

lemma le_CLOSED [simp]: "s \<le> CLOSED" for s :: ws_session_state
  by (cases s) (simp_all add: less_eq_ws_session_state_def)

lemma CONNECTING_le [simp]: "CONNECTING \<le> s" for s :: ws_session_state
  by (simp add: less_eq_ws_session_state_def)

lemma CLOSED_le_iff [simp]: "CLOSED \<le> s \<longleftrightarrow> s = CLOSED" for s :: ws_session_state
  by (cases s) (simp_all add: less_eq_ws_session_state_def)

lemma ws_state_order [simp]:
  "OPEN \<le> CLOSING" "\<not> CLOSING \<le> OPEN" "\<not> CLOSING \<le> CONNECTING" "\<not> OPEN \<le> CONNECTING"
  by (simp_all add: less_eq_ws_session_state_def)

lemma le_CLOSING_iff [simp]: "s \<le> CLOSING \<longleftrightarrow> s \<noteq> CLOSED" for s :: ws_session_state
  by (cases s) (simp_all add: less_eq_ws_session_state_def)

end
