(* ===== verification/Interfaces.thy ===== *)
theory Interfaces
  imports JsPrelude
begin

text \<open>
  The contracts components rely on, as locales: a keyed store (the JavaScript \<open>Map\<close> behind
  every registry), a state machine whose operations keep an invariant, one whose lifecycle
  only moves forward, and an incremental frame decoder fed by a byte stream. Each is
  interpreted on the model's own definitions in the theory of the component that provides it.
\<close>

section \<open>Keyed stores\<close>

locale keyed_store =
  fixes empty :: "'m"
    and lookup :: "'m \<Rightarrow> 'k \<Rightarrow> 'v option"
    and insert :: "'k \<Rightarrow> 'v \<Rightarrow> 'm \<Rightarrow> 'm"
    and remove :: "'k \<Rightarrow> 'm \<Rightarrow> 'm"
  assumes lookup_empty: "lookup empty k = None"
    and lookup_insert: "lookup (insert k v m) k' = (if k' = k then Some v else lookup m k')"
    and lookup_remove: "lookup (remove k m) k' = (if k' = k then None else lookup m k')"
begin

lemma lookup_insert_many:
  "lookup (foldl (\<lambda>m (k, v). insert k v m) m kvs) k =
     (case map_of (rev kvs) k of Some v \<Rightarrow> Some v | None \<Rightarrow> lookup m k)"
proof (induction kvs rule: rev_induct)
  case Nil
  then show ?case by simp
next
  case (snoc kv kvs)
  then show ?case by (cases kv) (simp add: lookup_insert)
qed

lemma lookup_registered:
  "distinct (map fst kvs) \<Longrightarrow> (k, v) \<in> set kvs \<Longrightarrow>
     lookup (foldl (\<lambda>m (k, v). insert k v m) empty kvs) k = Some v"
  by (simp add: lookup_insert_many map_of_is_SomeI rev_map [symmetric])

lemma lookup_unregistered:
  "k \<notin> fst ` set kvs \<Longrightarrow> lookup (foldl (\<lambda>m (k, v). insert k v m) empty kvs) k = None"
  by (simp add: lookup_insert_many lookup_empty map_of_eq_None_iff split: option.split)

lemma insert_overwrites: "lookup (insert k v (insert k w m)) = lookup (insert k v m)"
  by (auto simp: lookup_insert)

lemma remove_insert: "lookup m k = None \<Longrightarrow> lookup (remove k (insert k v m)) = lookup m"
  by (auto simp: lookup_insert lookup_remove)

end

interpretation js_map: keyed_store jmap_empty jmap_get jmap_set jmap_delete
  by unfold_locales (simp_all add: jmap_get_set jmap_get_delete)

section \<open>State machines with an invariant\<close>

locale invariant_machine =
  fixes step :: "'s \<Rightarrow> 'e \<Rightarrow> 's"
    and inv :: "'s \<Rightarrow> bool"
  assumes inv_step: "inv s \<Longrightarrow> inv (step s e)"
begin

lemma inv_run: "inv s \<Longrightarrow> inv (foldl step s es)"
  by (induction es arbitrary: s) (simp_all add: inv_step)

lemma inv_prefix: "inv s \<Longrightarrow> inv (foldl step s (take n es))"
  by (rule inv_run)

end

text \<open>
  A registry: entries are added under their own key, an addition may be refused, an entry is
  never overwritten, and removal touches one key at most.
\<close>

locale registry =
  fixes inv :: "'s \<Rightarrow> bool"
    and lookup :: "'s \<Rightarrow> 'k \<Rightarrow> 'v option"
    and key :: "'v \<Rightarrow> 'k"
    and add :: "'s \<Rightarrow> 'v \<Rightarrow> 's"
  assumes inv_add: "inv s \<Longrightarrow> inv (add s v)"
    and lookup_add: "inv s \<Longrightarrow>
      lookup (add s v) = lookup s \<or> lookup s (key v) = None \<and> lookup (add s v) = (lookup s)(key v \<mapsto> v)"
begin

lemma inv_adds: "inv s \<Longrightarrow> inv (foldl add s vs)"
  by (induction vs arbitrary: s) (simp_all add: inv_add)

lemma add_keeps: "inv s \<Longrightarrow> lookup s k = Some v \<Longrightarrow> lookup (add s w) k = Some v"
  using lookup_add [of s w] by auto

lemma adds_keep: "inv s \<Longrightarrow> lookup s k = Some v \<Longrightarrow> lookup (foldl add s vs) k = Some v"
  by (induction vs arbitrary: s) (simp_all add: add_keeps inv_add)

lemma adds_from:
  "inv s \<Longrightarrow> lookup (foldl add s vs) k = Some v \<Longrightarrow> lookup s k = Some v \<or> v \<in> set vs \<and> key v = k"
proof (induction vs arbitrary: s)
  case Nil
  then show ?case by simp
next
  case (Cons w vs)
  then show ?case
    using lookup_add [of s w] inv_add [of s w] by (fastforce split: if_splits)
qed

end

text \<open>A lifecycle: a measure of progress that no operation decreases.\<close>

locale lifecycle = invariant_machine step inv
  for step :: "'s \<Rightarrow> 'e \<Rightarrow> 's" and inv :: "'s \<Rightarrow> bool" +
  fixes phase :: "'s \<Rightarrow> 'p :: linorder"
  assumes phase_step: "inv s \<Longrightarrow> phase s \<le> phase (step s e)"
begin

lemma phase_run: "inv s \<Longrightarrow> phase s \<le> phase (foldl step s es)"
proof (induction es arbitrary: s)
  case Nil
  then show ?case by simp
next
  case (Cons e es)
  then have "phase s \<le> phase (step s e)" and "phase (step s e) \<le> phase (foldl step (step s e) es)"
    by (simp_all add: phase_step inv_step)
  then show ?case by simp
qed

lemma phase_top_stays:
  assumes "inv s" and top: "\<And>p. p \<le> phase s"
  shows "phase (foldl step s es) = phase s"
  using phase_run [OF assms(1), of es] top [of "phase (foldl step s es)"] by simp

end

section \<open>Queues\<close>

text \<open>
  A first-in first-out queue, by the list of its items: push appends, \<open>peek\<close> shows the oldest item and
  \<open>shift\<close> takes it out.
\<close>

locale fifo_queue =
  fixes inv :: "'q \<Rightarrow> bool"
    and items :: "'q \<Rightarrow> 'a list"
    and empty :: "'q"
    and push :: "'a \<Rightarrow> 'q \<Rightarrow> 'q"
    and peek :: "'q \<Rightarrow> 'a option"
    and shift :: "'q \<Rightarrow> 'q \<times> 'a option"
    and count :: "'q \<Rightarrow> nat"
  assumes inv_empty: "inv empty" and items_empty: "items empty = []"
    and inv_push: "inv q \<Longrightarrow> inv (push x q)" and items_push: "inv q \<Longrightarrow> items (push x q) = items q @ [x]"
    and peek_items: "inv q \<Longrightarrow> peek q = (case items q of [] \<Rightarrow> None | x # _ \<Rightarrow> Some x)"
    and inv_shift: "inv q \<Longrightarrow> inv (fst (shift q))"
    and items_shift: "inv q \<Longrightarrow> items (fst (shift q)) = tl (items q)"
    and shift_items: "inv q \<Longrightarrow> snd (shift q) = (case items q of [] \<Rightarrow> None | x # _ \<Rightarrow> Some x)"
    and count_items: "inv q \<Longrightarrow> count q = length (items q)"
begin

lemma push_all: "inv q \<Longrightarrow> inv (foldl (\<lambda>q x. push x q) q xs) \<and> items (foldl (\<lambda>q x. push x q) q xs) = items q @ xs"
  by (induction xs arbitrary: q) (simp_all add: inv_push items_push)

fun shift_many :: "nat \<Rightarrow> 'q \<Rightarrow> 'q \<times> 'a option list" where
  "shift_many 0 q = (q, [])"
| "shift_many (Suc n) q = (let (q, x) = shift q; (q, xs) = shift_many n q in (q, x # xs))"

text \<open>What is pushed comes out again, once and in the same order.\<close>

lemma shift_many_items:
  "inv q \<Longrightarrow> n \<le> length (items q) \<Longrightarrow>
     snd (shift_many n q) = map Some (take n (items q)) \<and> items (fst (shift_many n q)) = drop n (items q)"
proof (induction n arbitrary: q)
  case (Suc n)
  then obtain x xs where "items q = x # xs"
    by (cases "items q") auto
  with Suc show ?case
    using Suc.IH [of "fst (shift q)"] by (simp add: case_prod_beta Let_def inv_shift items_shift shift_items)
qed simp

lemma fifo: "items (foldl (\<lambda>q x. push x q) empty xs) = xs
    \<and> snd (shift_many (length xs) (foldl (\<lambda>q x. push x q) empty xs)) = map Some xs"
  using push_all [OF inv_empty, of xs] shift_many_items [of "foldl (\<lambda>q x. push x q) empty xs" "length xs"]
  by (simp add: items_empty)

end

section \<open>Incremental decoders\<close>

text \<open>
  One attempt on the buffered bytes: more bytes are needed, the bytes are malformed, or a
  frame was decoded that took \<open>n\<close> bytes, with the decoder's next state.
\<close>

datatype ('s, 'f, 'e) attempt = NeedMore | Malformed 'e | Decoded 's 'f nat

text \<open>
  \<open>drain_with\<close> is a decoder's loop: it decodes frames until an attempt needs more bytes or finds
  an error, and returns the state, the frames, the bytes left and the error, if any. The guard
  on \<open>n\<close> is always true for a decoder that meets the contract below; it makes the loop total.
\<close>

function drain_with ::
  "('s \<Rightarrow> 'b list \<Rightarrow> ('s, 'f, 'e) attempt) \<Rightarrow> 's \<Rightarrow> 'b list \<Rightarrow> 's \<times> 'f list \<times> 'b list \<times> 'e option" where
  "drain_with attempt s buf =
     (case attempt s buf of
        NeedMore \<Rightarrow> (s, [], buf, None)
      | Malformed e \<Rightarrow> (s, [], buf, Some e)
      | Decoded s' f n \<Rightarrow>
          if 0 < n \<and> n \<le> length buf
          then let (s'', fs, rest, err) = drain_with attempt s' (drop n buf) in (s'', f # fs, rest, err)
          else (s, [], buf, None))"
  by pat_completeness auto
termination
  by (relation "measure (\<lambda>(attempt, s, buf). length buf)") auto

declare drain_with.simps [simp del]

text \<open>
  The laws say that an attempt's outcome does not change when more bytes arrive, which is what
  makes the frames independent of how the transport cuts the stream.
\<close>

locale incremental_decoder =
  fixes attempt :: "'s \<Rightarrow> 'b list \<Rightarrow> ('s, 'f, 'e) attempt"
  assumes decoded_bounds: "attempt s buf = Decoded s' f n \<Longrightarrow> 0 < n \<and> n \<le> length buf"
    and decoded_stable: "attempt s buf = Decoded s' f n \<Longrightarrow> attempt s (buf @ more) = Decoded s' f n"
    and malformed_stable: "attempt s buf = Malformed e \<Longrightarrow> attempt s (buf @ more) = Malformed e"
begin

abbreviation drain :: "'s \<Rightarrow> 'b list \<Rightarrow> 's \<times> 'f list \<times> 'b list \<times> 'e option" where
  "drain \<equiv> drain_with attempt"

lemma drain_NeedMore: "attempt s buf = NeedMore \<Longrightarrow> drain s buf = (s, [], buf, None)"
  by (subst drain_with.simps) simp

lemma drain_Malformed: "attempt s buf = Malformed e \<Longrightarrow> drain s buf = (s, [], buf, Some e)"
  by (subst drain_with.simps) simp

lemma drain_Decoded:
  "attempt s buf = Decoded s' f n \<Longrightarrow>
     drain s buf = (let (s'', fs, rest, err) = drain s' (drop n buf) in (s'', f # fs, rest, err))"
  using decoded_bounds by (subst drain_with.simps) simp

lemma drain_induct [case_names NeedMore Malformed Decoded]:
  assumes "\<And>s buf. attempt s buf = NeedMore \<Longrightarrow> P s buf"
    and "\<And>s buf e. attempt s buf = Malformed e \<Longrightarrow> P s buf"
    and "\<And>s buf s' f n. attempt s buf = Decoded s' f n \<Longrightarrow> P s' (drop n buf) \<Longrightarrow> P s buf"
  shows "P s buf"
proof (induction "length buf" arbitrary: s buf rule: less_induct)
  case less
  show ?case
  proof (cases "attempt s buf")
    case (Decoded s' f n)
    with decoded_bounds [OF Decoded] have "length (drop n buf) < length buf"
      by auto
    then show ?thesis
      using assms(3) [OF Decoded] less by blast
  qed (use assms in auto)
qed

text \<open>Feeding a stream in two parts decodes what feeding it at once decodes.\<close>

lemma drain_append:
  assumes "drain s a = (s1, fs1, rest1, None)"
  shows "drain s (a @ b) = (let (s2, fs2, rest2, err) = drain s1 (rest1 @ b) in (s2, fs1 @ fs2, rest2, err))"
  using assms
proof (induction s a arbitrary: s1 fs1 rest1 rule: drain_induct)
  case (NeedMore s buf)
  then show ?case by (simp add: drain_NeedMore split: prod.split)
next
  case (Malformed s buf e)
  then show ?case by (simp add: drain_Malformed)
next
  case (Decoded s buf s' f n)
  obtain fs1' where d: "drain s' (drop n buf) = (s1, fs1', rest1, None)" and fs1: "fs1 = f # fs1'"
    using Decoded.prems by (auto simp: drain_Decoded [OF Decoded.hyps] split: prod.splits)
  have "drop n (buf @ b) = drop n buf @ b"
    using decoded_bounds [OF Decoded.hyps] by simp
  then show ?case
    using Decoded.IH [OF d] by (simp add: drain_Decoded [OF decoded_stable [OF Decoded.hyps]] fs1 split: prod.split)
qed

text \<open>After an error the frames decoded before it and the error stay the same, whatever follows.\<close>

lemma drain_append_error:
  assumes "drain s a = (s1, fs1, rest1, Some e)"
  shows "drain s (a @ b) = (s1, fs1, rest1 @ b, Some e)"
  using assms
proof (induction s a arbitrary: s1 fs1 rest1 rule: drain_induct)
  case (NeedMore s buf)
  then show ?case by (simp add: drain_NeedMore)
next
  case (Malformed s buf e')
  then show ?case by (simp add: drain_Malformed malformed_stable)
next
  case (Decoded s buf s' f n)
  obtain fs1' where d: "drain s' (drop n buf) = (s1, fs1', rest1, Some e)" and fs1: "fs1 = f # fs1'"
    using Decoded.prems by (auto simp: drain_Decoded [OF Decoded.hyps] split: prod.splits)
  have "drop n (buf @ b) = drop n buf @ b"
    using decoded_bounds [OF Decoded.hyps] by simp
  then show ?case
    using Decoded.IH [OF d] by (simp add: drain_Decoded [OF decoded_stable [OF Decoded.hyps]] fs1)
qed

lemma drain_settled: "drain s buf = (s', fs, rest, None) \<Longrightarrow> attempt s' rest = NeedMore"
proof (induction s buf arbitrary: fs rule: drain_induct)
  case (Decoded s buf s1 f n)
  then show ?case by (auto simp: drain_Decoded split: prod.splits)
qed (auto simp: drain_NeedMore drain_Malformed)

lemma drain_rest_suffix: "drain s buf = (s', fs, rest, err) \<Longrightarrow> \<exists>used. buf = used @ rest"
proof (induction s buf arbitrary: s' fs rest err rule: drain_induct)
  case (Decoded s buf s1 f n)
  then obtain fs' where "drain s1 (drop n buf) = (s', fs', rest, err)"
    by (auto simp: drain_Decoded split: prod.splits)
  then obtain used where "drop n buf = used @ rest"
    using Decoded.IH by blast
  then have "buf = (take n buf @ used) @ rest"
    by (metis append_assoc append_take_drop_id)
  then show ?case by blast
qed (simp_all add: drain_NeedMore drain_Malformed)

lemma drain_idle: "attempt s [] = NeedMore \<Longrightarrow> drain s [] = (s, [], [], None)"
  by (rule drain_NeedMore)

end

text \<open>
  A framing: an encoder whose output the decoder takes back. \<open>seen\<close> is the frame as the receiver
  reports it and \<open>after\<close> the receiver's state once it has it; \<open>ok\<close> says when the receiver accepts.
\<close>

fun chain_ok :: "('s \<Rightarrow> 'g \<Rightarrow> bool) \<Rightarrow> ('s \<Rightarrow> 'g \<Rightarrow> 's) \<Rightarrow> 's \<Rightarrow> 'g list \<Rightarrow> bool" where
  "chain_ok ok after s [] = True"
| "chain_ok ok after s (g # gs) = (ok s g \<and> chain_ok ok after (after s g) gs)"

lemma chain_ok_stateless [simp]: "chain_ok (\<lambda>_. P) after s gs \<longleftrightarrow> (\<forall>g \<in> set gs. P g)"
  by (induction gs arbitrary: s) simp_all

locale framing = incremental_decoder attempt
  for attempt :: "'s \<Rightarrow> 'b list \<Rightarrow> ('s, 'f, 'e) attempt" +
  fixes encode :: "'g \<Rightarrow> 'b list"
    and ok :: "'s \<Rightarrow> 'g \<Rightarrow> bool"
    and seen :: "'g \<Rightarrow> 'f"
    and after :: "'s \<Rightarrow> 'g \<Rightarrow> 's"
  assumes attempt_encode: "ok s g \<Longrightarrow> attempt s (encode g @ more) = Decoded (after s g) (seen g) (length (encode g))"
    and attempt_nil: "attempt s [] = NeedMore"
begin

lemma drain_encode:
  "chain_ok ok after s gs \<Longrightarrow> drain s (concat (map encode gs)) = (foldl after s gs, map seen gs, [], None)"
proof (induction gs arbitrary: s)
  case Nil
  then show ?case by (simp add: drain_idle attempt_nil)
next
  case (Cons g gs)
  then have "drain s (encode g @ concat (map encode gs)) =
      (let (s'', fs, rest, err) = drain (after s g) (concat (map encode gs)) in (s'', seen g # fs, rest, err))"
    by (subst drain_Decoded [OF attempt_encode]) simp_all
  with Cons show ?case by simp
qed

text \<open>However the encoded stream is cut in two, the two parts decode to all the frames.\<close>

lemma drain_encode_split:
  assumes chain: "chain_ok ok after s gs" and cut: "concat (map encode gs) = a @ b"
    and first: "drain s a = (s1, fs1, rest1, err1)"
  shows "err1 = None \<and> (\<exists>fs2. drain s1 (rest1 @ b) = (foldl after s gs, fs2, [], None) \<and> map seen gs = fs1 @ fs2)"
proof -
  have whole: "drain s (a @ b) = (foldl after s gs, map seen gs, [], None)"
    using drain_encode [OF chain] cut by simp
  have "err1 = None"
    using whole drain_append_error [of s a s1 fs1 rest1 _ b] first by (cases err1) auto
  then show ?thesis
    using drain_append [of s a s1 fs1 rest1 b] first whole by (auto split: prod.splits)
qed

end

section \<open>Streams fed in segments\<close>

text \<open>
  A parser that delivers what it can as soon as it can: a call takes a segment of the stream and gives the
  next state, the outputs and the error, if any. \<open>feed_all\<close> feeds segment after segment, up to an error.
\<close>

fun feed_all :: "('b list \<Rightarrow> 's \<Rightarrow> 's \<times> 'o list \<times> 'e option) \<Rightarrow> 'b list list \<Rightarrow> 's \<Rightarrow> 's \<times> 'o list \<times> 'e option" where
  "feed_all feed [] s = (s, [], None)"
| "feed_all feed (seg # segs) s =
     (case feed seg s of
        (s, out, Some e) \<Rightarrow> (s, out, Some e)
      | (s, out, None) \<Rightarrow> let (s, more, err) = feed_all feed segs s in (s, out @ more, err))"

text \<open>
  The outputs may be cut differently with the stream; \<open>view\<close> is what of them must not depend on the cuts,
  and \<open>final\<close> what of the state. The law cuts one segment off a stream accepted at once.
\<close>

locale segmented_feed =
  fixes whole parts :: "'b list \<Rightarrow> 's \<Rightarrow> 's \<times> 'o list \<times> 'e option"
    and settled :: "'s \<Rightarrow> bool"
    and final :: "'s \<Rightarrow> 't"
    and view :: "'o list \<Rightarrow> 'v"
  assumes cut: "settled s \<Longrightarrow> whole (a @ b) s = (s', out, None) \<Longrightarrow>
      \<exists>s1 out1 s2 out2. parts a s = (s1, out1, None) \<and> settled s1 \<and> whole b s1 = (s2, out2, None)
        \<and> final s2 = final s' \<and> view (out1 @ out2) = view out"
    and pause: "settled s \<Longrightarrow> whole [] s = (s', out, None) \<Longrightarrow> final s' = final s \<and> view out = view []"
    and view_append: "view ys = view zs \<Longrightarrow> view (xs @ ys) = view (xs @ zs)"
begin

text \<open>A stream accepted at once is accepted in every segmentation, with the same outcome.\<close>

lemma any_segmentation:
  "settled s \<Longrightarrow> whole (concat segs) s = (s', out, None) \<Longrightarrow>
     \<exists>t out'. feed_all parts segs s = (t, out', None) \<and> final t = final s' \<and> view out' = view out"
proof (induction segs arbitrary: s s' out)
  case Nil
  then show ?case
    using pause [of s s' out] by simp
next
  case (Cons seg segs)
  obtain s1 out1 s2 out2 where one: "parts seg s = (s1, out1, None)" "settled s1"
      and rest: "whole (concat segs) s1 = (s2, out2, None)" "final s2 = final s'" "view (out1 @ out2) = view out"
    using cut [OF Cons.prems(1), of seg "concat segs"] Cons.prems(2) by auto
  obtain t out' where "feed_all parts segs s1 = (t, out', None)" "final t = final s2" "view out' = view out2"
    using Cons.IH [OF one(2) rest(1)] by blast
  then show ?case
    using one(1) rest view_append [of out' out2 out1] by simp
qed

end

end
