(* ===== verification/WsFrameCodec.thy ===== *)
theory WsFrameCodec
  imports WsTypes Interfaces
begin

text \<open>
  The RFC 6455 frame codec (\<open>websocket/protocol/FrameCodec.ts\<close>): masking, the streaming parser
  \<open>feed\<close>/\<open>_tryParseFrame\<close>, the serializer \<open>encode\<close> with its convenience forms, and
  \<open>fragment\<close>. The random masking key of \<open>randomMaskKey\<close> is an argument. The parser and the
  serializer are an instance of the \<open>framing\<close> contract.
\<close>

section \<open>Masking\<close>

definition applyMask :: "byte list \<Rightarrow> byte list \<Rightarrow> ws_protocol_error + byte list" where
  "applyMask payload maskingKey =
     (if length maskingKey \<noteq> 4 then Inl (protocol_error BadMaskingKey)
      else Inr (map (\<lambda>i. payload ! i XOR maskingKey ! (i AND 3)) [0..<length payload]))"

section \<open>The decoder\<close>

record codec_options =
  requireMask :: bool
  forbidMask :: bool
  rejectRsv :: bool
  maxPayload :: nat
  enforceControl :: bool

definition default_codec_options :: codec_options where
  "default_codec_options =
     \<lparr>requireMask = False, forbidMask = False, rejectRsv = True, maxPayload = 16 * 1024 * 1024,
      enforceControl = True\<rparr>"

record frame_codec =
  fc_options :: codec_options
  fc_pending :: "byte list"
  fc_framesDecoded :: nat
  fc_bytesConsumed :: nat

definition new_frame_codec :: "codec_options \<Rightarrow> frame_codec" where
  "new_frame_codec opts = \<lparr>fc_options = opts, fc_pending = [], fc_framesDecoded = 0, fc_bytesConsumed = 0\<rparr>"

definition MAX_CONTROL_PAYLOAD :: nat where
  "MAX_CONTROL_PAYLOAD = 125"

text \<open>
  The extended payload length: \<open>None\<close> when its bytes are not there yet, otherwise the length
  and the offset behind it. A 64-bit length is checked against the limit before it is used.
\<close>

definition parse_length ::
  "codec_options \<Rightarrow> byte list \<Rightarrow> nat \<Rightarrow> (nat, unit, ws_protocol_error) attempt" where
  "parse_length opts buf payloadLength =
     (let offset = 2 in
      if payloadLength = 126 then
        (if length buf < offset + 2 then NeedMore
         else Decoded (be_val (slice offset 2 buf)) () (offset + 2))
      else if payloadLength = 127 then
        (if length buf < offset + 8 then NeedMore
         else
           let big = be_val (slice offset 8 buf) in
           if big > maxPayload opts
           then Malformed (WsProtocolError (PayloadTooLong big (maxPayload opts)) (close_num MESSAGE_TOO_BIG))
           else Decoded big () (offset + 8))
      else Decoded payloadLength () offset)"

text \<open>
  From the masking key on: the header's fields are in the frame so far, with \<open>f_wireBytes\<close> the
  offset reached; the payload is taken and unmasked.
\<close>

definition parse_payload :: "byte list \<Rightarrow> ws_frame \<Rightarrow> (unit, ws_frame, ws_protocol_error) attempt" where
  "parse_payload buf header =
     (let masked = f_masked header; payloadLength = f_payloadLength header; offset = f_wireBytes header in
      if masked \<and> length buf < offset + 4 then NeedMore
      else
        let maskingKey = (if masked then Some (slice offset 4 buf) else None);
            offset' = (if masked then offset + 4 else offset)
        in
        if length buf < offset' + payloadLength then NeedMore
        else
          let rawPayload = slice offset' payloadLength buf in
          case (case maskingKey of Some key \<Rightarrow> applyMask rawPayload key | None \<Rightarrow> Inr rawPayload) of
            Inl e \<Rightarrow> Malformed e
          | Inr payload \<Rightarrow>
              Decoded ()
                (header\<lparr>f_maskingKey := maskingKey, f_payload := payload,
                        f_wireBytes := offset' + payloadLength\<rparr>)
                (offset' + payloadLength))"

text \<open>The checks on the first two bytes: reserved bits, opcode, mask direction.\<close>

definition check_first_bytes :: "codec_options \<Rightarrow> byte \<Rightarrow> byte \<Rightarrow> ws_protocol_error option" where
  "check_first_bytes opts b0 b1 =
     (let rsv1 = (b0 AND 0x40 \<noteq> 0);
          rsv2 = (b0 AND 0x20 \<noteq> 0);
          rsv3 = (b0 AND 0x10 \<noteq> 0);
          opcode = unat (b0 AND 0x0f);
          masked = (b1 AND 0x80 \<noteq> 0)
      in
      if rejectRsv opts \<and> (rsv1 \<or> rsv2 \<or> rsv3) then Some (protocol_error (RsvBitsSet (b0 AND 0x70)))
      else if \<not> isKnownOpcode opcode then Some (protocol_error (UnknownOpcode opcode))
      else if requireMask opts \<and> \<not> masked then Some (protocol_error ClientFrameUnmasked)
      else if forbidMask opts \<and> masked then Some (protocol_error MaskedFrameForbidden)
      else None)"

text \<open>The checks once the payload length is known: the size limit and the control-frame rules.\<close>

definition check_length :: "codec_options \<Rightarrow> bool \<Rightarrow> nat \<Rightarrow> nat \<Rightarrow> ws_protocol_error option" where
  "check_length opts fin opcode payloadLength =
     (if payloadLength > maxPayload opts
      then Some (WsProtocolError (PayloadTooLong payloadLength (maxPayload opts)) (close_num MESSAGE_TOO_BIG))
      else if enforceControl opts \<and> isControlOpcode opcode \<and> \<not> fin
      then Some (protocol_error ControlFragmented)
      else if enforceControl opts \<and> isControlOpcode opcode \<and> payloadLength > MAX_CONTROL_PAYLOAD
      then Some (protocol_error (ControlTooLong payloadLength))
      else None)"

definition tryParseFrame ::
  "codec_options \<Rightarrow> byte list \<Rightarrow> (unit, ws_frame, ws_protocol_error) attempt" where
  "tryParseFrame opts buf =
     (if length buf < 2 then NeedMore
      else
        let b0 = buf ! 0;
            b1 = buf ! 1;
            fin = (b0 AND 0x80 \<noteq> 0);
            opcode = unat (b0 AND 0x0f)
        in
        case check_first_bytes opts b0 b1 of
          Some e \<Rightarrow> Malformed e
        | None \<Rightarrow>
            (case parse_length opts buf (unat (b1 AND 0x7f)) of
               NeedMore \<Rightarrow> NeedMore
             | Malformed e \<Rightarrow> Malformed e
             | Decoded payloadLength _ offset \<Rightarrow>
                 (case check_length opts fin opcode payloadLength of
                    Some e \<Rightarrow> Malformed e
                  | None \<Rightarrow>
                      parse_payload buf
                        \<lparr>f_fin = fin, f_rsv1 = (b0 AND 0x40 \<noteq> 0), f_rsv2 = (b0 AND 0x20 \<noteq> 0),
                         f_rsv3 = (b0 AND 0x10 \<noteq> 0), f_opcode = opcode_of opcode,
                         f_masked = (b1 AND 0x80 \<noteq> 0), f_maskingKey = None,
                         f_payloadLength = payloadLength, f_payload = [], f_wireBytes = offset\<rparr>)))"

section \<open>An attempt depends on the bytes it reads only\<close>

lemma parse_length_offset:
  "parse_length opts buf l = Decoded len u off \<Longrightarrow> 2 \<le> off \<and> (2 \<le> length buf \<longrightarrow> off \<le> length buf)"
  by (auto simp: parse_length_def Let_def split: if_splits)

lemma parse_length_stable:
  "parse_length opts buf l \<noteq> NeedMore \<Longrightarrow> parse_length opts (buf @ bs) l = parse_length opts buf l"
  by (auto simp: parse_length_def Let_def buffer_simps split: if_splits)

lemma length_applyMask: "applyMask p k = Inr q \<Longrightarrow> length q = length p"
  by (auto simp: applyMask_def split: if_splits)

lemma applyMask_slice [simp]:
  "off + 4 \<le> length buf \<Longrightarrow> applyMask p (slice off 4 buf) =
     Inr (map (\<lambda>i. p ! i XOR slice off 4 buf ! (i AND 3)) [0..<length p])"
  by (simp add: applyMask_def buffer_simps)

lemma parse_payload_stable:
  "parse_payload buf h \<noteq> NeedMore \<Longrightarrow> parse_payload (buf @ bs) h = parse_payload buf h"
  by (auto simp: parse_payload_def Let_def buffer_simps split: if_splits)

lemma parse_payload_Decoded:
  "parse_payload buf h = Decoded u f n \<Longrightarrow> f_wireBytes h \<le> n \<and> n \<le> length buf \<and> f_wireBytes f = n"
  by (auto simp: parse_payload_def Let_def split: if_splits sum.splits option.splits)

lemma tryParseFrame_stable:
  assumes "tryParseFrame opts buf \<noteq> NeedMore"
  shows "tryParseFrame opts (buf @ bs) = tryParseFrame opts buf"
proof -
  from assms have len: "2 \<le> length buf"
    by (auto simp: tryParseFrame_def split: if_splits)
  then have "0 < length buf" and "1 < length buf"
    by linarith+
  then have "(buf @ bs) ! 0 = buf ! 0" "(buf @ bs) ! 1 = buf ! 1"
    by (auto simp: nth_append)
  with assms len show ?thesis
    unfolding tryParseFrame_def Let_def
    by (cases "check_first_bytes opts (buf ! 0) (buf ! 1)")
      (auto simp: parse_length_stable parse_payload_stable split: attempt.splits option.splits)
qed

lemma tryParseFrame_Decoded:
  assumes "tryParseFrame opts buf = Decoded u f n"
  shows "0 < n \<and> n \<le> length buf \<and> f_wireBytes f = n"
proof -
  from assms obtain h l pl v off where "parse_length opts buf l = Decoded pl v off"
    and p: "parse_payload buf h = Decoded u f n" and "f_wireBytes h = off"
    by (fastforce simp: tryParseFrame_def Let_def split: attempt.splits if_splits option.splits)
  then show ?thesis
    using parse_payload_Decoded [OF p] parse_length_offset by fastforce
qed

interpretation ws_decoder: incremental_decoder "\<lambda>_. tryParseFrame opts" for opts
  using tryParseFrame_Decoded tryParseFrame_stable by unfold_locales (fastforce, (metis attempt.distinct)+)

section \<open>feed\<close>

text \<open>
  The \<open>for (;;)\<close> loop over \<open>_pending\<close>: each decoded frame is pushed and counted and its bytes
  are dropped. A throw leaves the object as the loop left it and loses the local \<open>frames\<close>.
\<close>

function feed_loop ::
  "frame_codec \<Rightarrow> ws_frame list \<Rightarrow> frame_codec \<times> (ws_protocol_error + ws_frame list)" where
  "feed_loop c frames =
     (case tryParseFrame (fc_options c) (fc_pending c) of
        NeedMore \<Rightarrow> (c, Inr frames)
      | Malformed e \<Rightarrow> (c, Inl e)
      | Decoded _ frame _ \<Rightarrow>
          feed_loop
            (c\<lparr>fc_framesDecoded := fc_framesDecoded c + 1,
               fc_bytesConsumed := fc_bytesConsumed c + f_wireBytes frame,
               fc_pending := drop (f_wireBytes frame) (fc_pending c)\<rparr>)
            (frames @ [frame]))"
  by pat_completeness auto
termination
  by (relation "measure (\<lambda>(c, frames). length (fc_pending c))") (auto dest: tryParseFrame_Decoded)

declare feed_loop.simps [simp del]

definition feed :: "frame_codec \<Rightarrow> byte list \<Rightarrow> frame_codec \<times> (ws_protocol_error + ws_frame list)" where
  "feed c chunk =
     (if length chunk = 0 \<and> length (fc_pending c) = 0 then (c, Inr [])
      else feed_loop (c\<lparr>fc_pending := (if length (fc_pending c) = 0 then chunk else fc_pending c @ chunk)\<rparr>) [])"

definition reset_codec :: "frame_codec \<Rightarrow> frame_codec" where
  "reset_codec c = c\<lparr>fc_pending := []\<rparr>"

abbreviation ws_drain ::
  "codec_options \<Rightarrow> byte list \<Rightarrow> unit \<times> ws_frame list \<times> byte list \<times> ws_protocol_error option" where
  "ws_drain opts \<equiv> drain_with (\<lambda>_. tryParseFrame opts) ()"

definition wire_total :: "ws_frame list \<Rightarrow> nat" where
  "wire_total fs = sum_list (map f_wireBytes fs)"

lemma wire_total_simps [simp]:
  "wire_total [] = 0" "wire_total (f # fs) = f_wireBytes f + wire_total fs"
  "wire_total (fs @ gs) = wire_total fs + wire_total gs"
  by (simp_all add: wire_total_def)

lemma feed_loop_drain:
  "ws_drain (fc_options c) (fc_pending c) = ((), fs, rest, err) \<Longrightarrow>
   feed_loop c acc =
     (c\<lparr>fc_framesDecoded := fc_framesDecoded c + length fs,
        fc_bytesConsumed := fc_bytesConsumed c + wire_total fs, fc_pending := rest\<rparr>,
      case err of None \<Rightarrow> Inr (acc @ fs) | Some e \<Rightarrow> Inl e)"
proof (induction c acc arbitrary: fs rule: feed_loop.induct)
  case (1 c acc)
  show ?case
  proof (cases "tryParseFrame (fc_options c) (fc_pending c)")
    case NeedMore
    then show ?thesis
      using "1.prems" ws_decoder.drain_NeedMore [of "fc_options c" "fc_pending c" "()"]
      by (simp add: feed_loop.simps)
  next
    case (Malformed e)
    then show ?thesis
      using "1.prems" ws_decoder.drain_Malformed [of "fc_options c" "fc_pending c" e "()"]
      by (auto simp: feed_loop.simps)
  next
    case (Decoded u f n)
    have n: "f_wireBytes f = n"
      using tryParseFrame_Decoded [OF Decoded] by simp
    obtain fs' where d: "ws_drain (fc_options c) (drop n (fc_pending c)) = ((), fs', rest, err)"
      and fs: "fs = f # fs'"
      using "1.prems" ws_decoder.drain_Decoded [of "fc_options c" "fc_pending c" u f n "()"] Decoded
      by (auto split: prod.splits)
    show ?thesis
      by (subst feed_loop.simps)
        (use "1.IH" [OF Decoded, of fs'] d n Decoded in \<open>simp add: fs split: option.splits\<close>)
  qed
qed

lemma feed_drain:
  assumes "ws_drain (fc_options c) (fc_pending c @ chunk) = ((), fs, rest, err)"
  shows "feed c chunk =
     (c\<lparr>fc_framesDecoded := fc_framesDecoded c + length fs,
        fc_bytesConsumed := fc_bytesConsumed c + wire_total fs, fc_pending := rest\<rparr>,
      case err of None \<Rightarrow> Inr fs | Some e \<Rightarrow> Inl e)"
proof (cases "length chunk = 0 \<and> length (fc_pending c) = 0")
  case True
  then have "ws_drain (fc_options c) (fc_pending c @ chunk) = ((), [], [], None)"
    by (simp add: ws_decoder.drain_idle tryParseFrame_def)
  with True assms show ?thesis
    by (auto simp: feed_def)
next
  case False
  then show ?thesis
    using feed_loop_drain [of "c\<lparr>fc_pending := fc_pending c @ chunk\<rparr>" fs rest err "[]"] assms
    by (auto simp: feed_def split: option.split)
qed

section \<open>The encoder\<close>

record encode_options =
  eo_fin :: bool
  eo_mask :: bool
  eo_maskingKey :: "byte list option"
  eo_rsv1 :: bool

definition default_encode :: encode_options where
  "default_encode = \<lparr>eo_fin = True, eo_mask = False, eo_maskingKey = None, eo_rsv1 = False\<rparr>"

definition masking :: "bool \<Rightarrow> encode_options" where
  "masking m = default_encode\<lparr>eo_mask := m\<rparr>"

definition header_byte0 :: "ws_opcode \<Rightarrow> encode_options \<Rightarrow> byte" where
  "header_byte0 opcode options =
     (word_of_nat (opcode_num opcode) AND 0x0f) OR (if eo_fin options then 0x80 else 0)
       OR (if eo_rsv1 options then 0x40 else 0)"

definition length_bytes :: "bool \<Rightarrow> nat \<Rightarrow> byte list" where
  "length_bytes doMask len =
     (let extLen = (if len \<ge> 126 \<and> len \<le> 0xffff then 2 else if len > 0xffff then 8 else 0 :: nat);
          m = (if doMask then 0x80 else 0)
      in
      if extLen = 0 then [m OR word_of_nat len]
      else if extLen = 2 then (m OR 126) # be_bytes 2 len
      else (m OR 127) # be_bytes 8 len)"

definition encode ::
  "ws_opcode \<Rightarrow> byte list \<Rightarrow> encode_options \<Rightarrow> byte list \<Rightarrow> ws_protocol_error + byte list" where
  "encode opcode payload options randomMaskKey =
     (let header = header_byte0 opcode options # length_bytes (eo_mask options) (length payload) in
      if eo_mask options then
        let key = (case eo_maskingKey options of Some k \<Rightarrow> k | None \<Rightarrow> randomMaskKey) in
        case applyMask payload key of
          Inl e \<Rightarrow> Inl e
        | Inr maskedPayload \<Rightarrow> Inr (header @ key @ maskedPayload)
      else Inr (header @ payload))"

definition encodeText :: "codepoint list \<Rightarrow> bool \<Rightarrow> byte list \<Rightarrow> ws_protocol_error + byte list" where
  "encodeText text doMask key = encode TEXT (utf8_encode text) (masking doMask) key"

definition encodeBinary :: "byte list \<Rightarrow> bool \<Rightarrow> byte list \<Rightarrow> ws_protocol_error + byte list" where
  "encodeBinary data doMask key = encode BINARY data (masking doMask) key"

definition encodePing :: "byte list \<Rightarrow> bool \<Rightarrow> byte list \<Rightarrow> ws_protocol_error + byte list" where
  "encodePing body doMask key = encode PING body (masking doMask) key"

definition encodePong :: "byte list \<Rightarrow> bool \<Rightarrow> byte list \<Rightarrow> ws_protocol_error + byte list" where
  "encodePong body doMask key = encode PONG body (masking doMask) key"

text \<open>
  \<open>writeUInt16BE\<close> throws a \<open>RangeError\<close> on a code above 65535; callers pass close codes.
\<close>

definition close_payload :: "nat \<Rightarrow> codepoint list \<Rightarrow> byte list" where
  "close_payload code reason = be_bytes 2 code @ utf8_encode reason"

definition encodeClose :: "nat \<Rightarrow> codepoint list \<Rightarrow> bool \<Rightarrow> byte list \<Rightarrow> ws_protocol_error + byte list" where
  "encodeClose code reason doMask key = encode CLOSE (close_payload code reason) (masking doMask) key"

text \<open>
  \<open>fragment\<close>: the loop over \<open>offset\<close>, with the frame number choosing the frame's random key.
\<close>

function fragment_loop ::
  "ws_opcode \<Rightarrow> byte list \<Rightarrow> nat \<Rightarrow> bool \<Rightarrow> (nat \<Rightarrow> byte list) \<Rightarrow> nat \<Rightarrow> nat \<Rightarrow> ws_protocol_error + byte list list"
where
  "fragment_loop opcode payload fragmentSize doMask keys i offset =
     (if offset < length payload \<and> 0 < fragmentSize then
        let slc = slice offset fragmentSize payload;
            isLast = (offset + fragmentSize \<ge> length payload)
        in
        case encode (if i = 0 then opcode else CONTINUATION) slc ((masking doMask)\<lparr>eo_fin := isLast\<rparr>) (keys i) of
          Inl e \<Rightarrow> Inl e
        | Inr w \<Rightarrow>
            (case fragment_loop opcode payload fragmentSize doMask keys (Suc i) (offset + fragmentSize) of
               Inl e \<Rightarrow> Inl e
             | Inr ws \<Rightarrow> Inr (w # ws))
      else Inr [])"
  by pat_completeness auto
termination
  by (relation "measure (\<lambda>(opcode, payload, fragmentSize, doMask, keys, i, offset). length payload - offset)") auto

declare fragment_loop.simps [simp del]

definition fragment ::
  "ws_opcode \<Rightarrow> byte list \<Rightarrow> nat \<Rightarrow> bool \<Rightarrow> (nat \<Rightarrow> byte list) \<Rightarrow> ws_protocol_error + byte list list" where
  "fragment opcode payload fragmentSize doMask keys =
     (if fragmentSize \<le> 0 then Inl (protocol_error BadFragmentSize)
      else if length payload = 0 then
        (case encode opcode payload (masking doMask) (keys 0) of Inl e \<Rightarrow> Inl e | Inr w \<Rightarrow> Inr [w])
      else fragment_loop opcode payload fragmentSize doMask keys 0 0)"

section \<open>The decoder takes back what the encoder wrote\<close>

lemma mask_index [simp]: "i AND 3 = i mod (4 :: nat)"
  using take_bit_eq_mask [of 2 i] by (simp add: take_bit_eq_mod mask_eq_exp_minus_1)

lemma applyMask_involution: "applyMask p k = Inr q \<Longrightarrow> applyMask q k = Inr p"
  by (auto simp: applyMask_def xor.assoc intro!: nth_equalityI split: if_splits)

lemma header_byte0_bits:
  "unat (header_byte0 op eo AND 0x0f) = opcode_num op"
  "header_byte0 op eo AND 0x80 \<noteq> 0 \<longleftrightarrow> eo_fin eo"
  "header_byte0 op eo AND 0x40 \<noteq> 0 \<longleftrightarrow> eo_rsv1 eo"
  "header_byte0 op eo AND 0x20 = 0"
  "header_byte0 op eo AND 0x10 = 0"
  by (cases op; simp add: header_byte0_def)+

lemma length_byte_bits:
  assumes "len < 128"
  shows "unat (((if m then 0x80 else 0) OR word_of_nat len :: byte) AND 0x7f) = len"
    and "((if m then 0x80 else 0) OR word_of_nat len :: byte) AND 0x80 \<noteq> 0 \<longleftrightarrow> m"
proof -
  have "(word_of_nat len :: byte) AND Bit_Operations.mask 7 = word_of_nat len"
    using assms by (simp only: take_bit_eq_mask [symmetric] take_bit_of_nat) (simp add: take_bit_nat_eq_self)
  moreover have "\<not> bit len 7"
    using assms by (simp add: bit_iff_odd)
  then have "(word_of_nat len :: byte) AND 2 ^ 7 = 0"
    by (subst and_exp_eq_0_iff_not_bit) (simp add: bit_of_nat_iff)
  ultimately have x: "(word_of_nat len :: byte) AND 0x7f = word_of_nat len" "(word_of_nat len :: byte) AND 0x80 = 0"
    by (simp_all add: mask_eq_exp_minus_1)
  show "unat (((if m then 0x80 else 0) OR word_of_nat len :: byte) AND 0x7f) = len"
    using assms by (simp add: bit.conj_disj_distrib2 x unat_of_nat)
  show "((if m then 0x80 else 0) OR word_of_nat len :: byte) AND 0x80 \<noteq> 0 \<longleftrightarrow> m"
    by (simp add: bit.conj_disj_distrib2 x)
qed

text \<open>When a decoder accepts a frame the encoder writes, and the frame it then reports.\<close>

definition accepts :: "codec_options \<Rightarrow> ws_opcode \<Rightarrow> nat \<Rightarrow> encode_options \<Rightarrow> bool" where
  "accepts opts op len eo \<longleftrightarrow>
     (requireMask opts \<longrightarrow> eo_mask eo) \<and> (forbidMask opts \<longrightarrow> \<not> eo_mask eo) \<and>
     (rejectRsv opts \<longrightarrow> \<not> eo_rsv1 eo) \<and> len \<le> maxPayload opts \<and>
     (enforceControl opts \<and> op \<in> {CLOSE, PING, PONG} \<longrightarrow> eo_fin eo \<and> len \<le> MAX_CONTROL_PAYLOAD)"

definition reported_frame ::
  "ws_opcode \<Rightarrow> byte list \<Rightarrow> encode_options \<Rightarrow> byte list \<Rightarrow> nat \<Rightarrow> ws_frame" where
  "reported_frame op payload eo key wire =
     \<lparr>f_fin = eo_fin eo, f_rsv1 = eo_rsv1 eo, f_rsv2 = False, f_rsv3 = False, f_opcode = op,
      f_masked = eo_mask eo,
      f_maskingKey = (if eo_mask eo then Some (case eo_maskingKey eo of Some k \<Rightarrow> k | None \<Rightarrow> key) else None),
      f_payloadLength = length payload, f_payload = payload, f_wireBytes = wire\<rparr>"

lemma length_bytes_cases:
  obtains h t where "length_bytes m len = h # t" and "h AND 0x80 \<noteq> 0 \<longleftrightarrow> m"
    and "len < 126 \<Longrightarrow> unat (h AND 0x7f) = len \<and> t = []"
    and "126 \<le> len \<Longrightarrow> len \<le> 0xffff \<Longrightarrow> unat (h AND 0x7f) = 126 \<and> t = be_bytes 2 len"
    and "0xffff < len \<Longrightarrow> unat (h AND 0x7f) = 127 \<and> t = be_bytes 8 len"
proof -
  consider "len < 126" | "126 \<le> len" "len \<le> 0xffff" | "0xffff < len"
    by linarith
  then show thesis
  proof cases
    case 1
    with length_byte_bits [of len m] show thesis
      by (intro that [of "(if m then 0x80 else 0) OR word_of_nat len" "[]"]) (simp_all add: length_bytes_def)
  next
    case 2
    with length_byte_bits [of 126 m] show thesis
      by (intro that [of "(if m then 0x80 else 0) OR 126" "be_bytes 2 len"]) (simp_all add: length_bytes_def)
  next
    case 3
    with length_byte_bits [of 127 m] show thesis
      by (intro that [of "(if m then 0x80 else 0) OR 127" "be_bytes 8 len"]) (simp_all add: length_bytes_def)
  qed
qed

lemma slice_middle: "length a = off \<Longrightarrow> length b = n \<Longrightarrow> slice off n (a @ b @ c) = b"
  by (simp add: slice_def)

lemma parse_length_encoded:
  assumes "len \<le> maxPayload opts" and "len < 2 ^ 64"
  shows "parse_length opts (b0 # length_bytes m len @ bs) (unat (hd (length_bytes m len) AND 0x7f)) =
     Decoded len () (1 + length (length_bytes m len))"
proof (cases rule: length_bytes_cases [of m len])
  case (1 h t)
  have sl: "slice 2 (length t) (b0 # h # t @ bs) = t"
    using slice_middle [of "[b0, h]" 2 t "length t" bs] by simp
  consider "len < 126" | "126 \<le> len" "len \<le> 0xffff" | "0xffff < len"
    by linarith
  then show ?thesis
  proof cases
    case 1
    with \<open>len < 126 \<Longrightarrow> _\<close> show ?thesis
      by (simp add: parse_length_def \<open>length_bytes m len = h # t\<close>)
  next
    case 2
    with \<open>126 \<le> len \<Longrightarrow> len \<le> 0xffff \<Longrightarrow> _\<close> sl show ?thesis
      by (simp add: parse_length_def \<open>length_bytes m len = h # t\<close> buffer_simps)
  next
    case 3
    with \<open>0xffff < len \<Longrightarrow> _\<close> sl assms show ?thesis
      by (simp add: parse_length_def Let_def \<open>length_bytes m len = h # t\<close> buffer_simps)
  qed
qed

lemma parse_payload_unmasked:
  "length a = f_wireBytes h \<Longrightarrow> length p = f_payloadLength h \<Longrightarrow> \<not> f_masked h \<Longrightarrow>
   parse_payload (a @ p @ bs) h =
     Decoded () (h\<lparr>f_maskingKey := None, f_payload := p, f_wireBytes := length a + length p\<rparr>) (length a + length p)"
  by (simp add: parse_payload_def Let_def slice_middle)

lemma parse_payload_masked:
  assumes "length a = f_wireBytes h" "length p = f_payloadLength h" "f_masked h" and q: "applyMask p key = Inr q"
  shows "parse_payload (a @ key @ q @ bs) h =
     Decoded () (h\<lparr>f_maskingKey := Some key, f_payload := p, f_wireBytes := length a + 4 + length p\<rparr>)
       (length a + 4 + length p)"
proof -
  have key: "length key = 4" and len: "length q = length p"
    using q by (auto simp: applyMask_def split: if_splits)
  have "slice (length a) 4 (a @ key @ q @ bs) = key"
    by (simp add: slice_middle key)
  moreover have "slice (length a + 4) (length p) (a @ key @ q @ bs) = q"
    using slice_middle [of "a @ key" "length a + 4" q "length p" bs] by (simp add: key len)
  ultimately show ?thesis
    using assms by (simp add: parse_payload_def Let_def key len applyMask_involution [OF q] del: applyMask_slice)
qed

lemma encode_shape:
  assumes "encode op p eo key = Inr w"
  shows "w = header_byte0 op eo # length_bytes (eo_mask eo) (length p) @
     (if eo_mask eo then
        (let k = (case eo_maskingKey eo of Some k \<Rightarrow> k | None \<Rightarrow> key) in k @ projr (applyMask p k))
      else p)"
  using assms by (auto simp: encode_def Let_def split: if_splits sum.splits)

lemma tryParseFrame_encode:
  assumes enc: "encode op p eo key = Inr w" and ok: "accepts opts op (length p) eo" and small: "length p < 2 ^ 64"
  shows "tryParseFrame opts (w @ bs) = Decoded () (reported_frame op p eo key (length w)) (length w)"
proof -
  let ?b0 = "header_byte0 op eo" and ?lb = "length_bytes (eo_mask eo) (length p)"
  let ?hd = "?b0 # ?lb"
  let ?k = "case eo_maskingKey eo of Some k \<Rightarrow> k | None \<Rightarrow> key"
  let ?rest = "if eo_mask eo then ?k @ projr (applyMask p ?k) else p"
  obtain h t where lb: "?lb = h # t" and m: "h AND 0x80 \<noteq> 0 \<longleftrightarrow> eo_mask eo"
    by (rule length_bytes_cases [of "eo_mask eo" "length p"]) blast
  have w: "w = ?hd @ ?rest"
    using encode_shape [OF enc] by (simp add: Let_def)
  have first: "check_first_bytes opts ?b0 h = None"
    using ok by (simp add: check_first_bytes_def Let_def header_byte0_bits m accepts_def)
  have len: "parse_length opts (?hd @ ?rest @ bs) (unat (h AND 0x7f)) = Decoded (length p) () (length ?hd)"
    using parse_length_encoded [of "length p" opts ?b0 "eo_mask eo" "?rest @ bs"] ok small
    by (simp add: lb accepts_def)
  have chk: "check_length opts (eo_fin eo) (opcode_num op) (length p) = None"
    using ok by (auto simp: check_length_def accepts_def isControlOpcode_num)
  let ?h = "\<lparr>f_fin = eo_fin eo, f_rsv1 = eo_rsv1 eo, f_rsv2 = False, f_rsv3 = False, f_opcode = op,
      f_masked = eo_mask eo, f_maskingKey = None, f_payloadLength = length p, f_payload = [],
      f_wireBytes = length ?hd\<rparr>"
  have "parse_payload (?hd @ ?rest @ bs) ?h = Decoded () (reported_frame op p eo key (length w)) (length w)"
  proof (cases "eo_mask eo")
    case True
    then obtain q where q: "applyMask p ?k = Inr q"
      using enc by (auto simp: encode_def Let_def split: sum.splits)
    then have "length ?k = 4" "length q = length p"
      by (auto simp: applyMask_def split: if_splits)
    with True q parse_payload_masked [of ?hd ?h p ?k q bs] show ?thesis
      by (simp add: w reported_frame_def)
  next
    case False
    with parse_payload_unmasked [of ?hd ?h p bs] show ?thesis
      by (simp add: w reported_frame_def)
  qed
  then show ?thesis
    using first len chk unfolding w append_assoc
    by (simp add: tryParseFrame_def Let_def lb header_byte0_bits m)
qed

section \<open>The codec as a framing\<close>

record ws_send =
  s_opcode :: ws_opcode
  s_payload :: "byte list"
  s_options :: encode_options
  s_key :: "byte list"

definition ws_wire :: "ws_send \<Rightarrow> byte list" where
  "ws_wire g = (case encode (s_opcode g) (s_payload g) (s_options g) (s_key g) of Inr w \<Rightarrow> w | Inl _ \<Rightarrow> [])"

definition ws_sendable :: "codec_options \<Rightarrow> ws_send \<Rightarrow> bool" where
  "ws_sendable opts g \<longleftrightarrow>
     (\<exists>w. encode (s_opcode g) (s_payload g) (s_options g) (s_key g) = Inr w) \<and>
     accepts opts (s_opcode g) (length (s_payload g)) (s_options g) \<and> length (s_payload g) < 2 ^ 64"

definition ws_reported :: "ws_send \<Rightarrow> ws_frame" where
  "ws_reported g = reported_frame (s_opcode g) (s_payload g) (s_options g) (s_key g) (length (ws_wire g))"

interpretation ws_framing: framing "\<lambda>_. tryParseFrame opts" ws_wire "\<lambda>_. ws_sendable opts" ws_reported "\<lambda>s _. s"
  for opts
proof
  fix s g bs
  assume "ws_sendable opts g"
  then show "tryParseFrame opts (ws_wire g @ bs) = Decoded s (ws_reported g) (length (ws_wire g))"
    by (auto simp: ws_sendable_def ws_wire_def ws_reported_def tryParseFrame_encode)
qed (simp add: tryParseFrame_def)

lemma encode_succeeds:
  "\<not> eo_mask eo \<or> length (case eo_maskingKey eo of Some k \<Rightarrow> k | None \<Rightarrow> key) = 4 \<Longrightarrow>
   \<exists>w. encode op p eo key = Inr w"
  by (auto simp: encode_def Let_def applyMask_def)

text \<open>Feeding a list of chunks one after the other, up to the first error.\<close>

fun feed_chunks :: "frame_codec \<Rightarrow> byte list list \<Rightarrow> frame_codec \<times> (ws_protocol_error + ws_frame list)" where
  "feed_chunks c [] = (c, Inr [])"
| "feed_chunks c (b # bs) =
     (case feed c b of
        (c', Inl e) \<Rightarrow> (c', Inl e)
      | (c', Inr fs) \<Rightarrow>
          (case feed_chunks c' bs of (c'', Inl e) \<Rightarrow> (c'', Inl e) | (c'', Inr gs) \<Rightarrow> (c'', Inr (fs @ gs))))"

lemma feed_options: "fc_options (fst (feed c chunk)) = fc_options c"
  using feed_drain [of c chunk] by (cases "ws_drain (fc_options c) (fc_pending c @ chunk)") auto

lemma feed_append:
  assumes "feed c a = (c1, Inr fs1)"
  shows "feed c (a @ b) = (case feed c1 b of (c2, Inl e) \<Rightarrow> (c2, Inl e) | (c2, Inr fs2) \<Rightarrow> (c2, Inr (fs1 @ fs2)))"
proof -
  obtain fs rest err where d: "ws_drain (fc_options c) (fc_pending c @ a) = ((), fs, rest, err)"
    by (cases "ws_drain (fc_options c) (fc_pending c @ a)") auto
  from feed_drain [OF d] assms have err: "err = None" and fs: "fs = fs1" and
    c1: "c1 = c\<lparr>fc_framesDecoded := fc_framesDecoded c + length fs1,
           fc_bytesConsumed := fc_bytesConsumed c + wire_total fs1, fc_pending := rest\<rparr>"
    by (auto split: option.splits)
  obtain fs2 rest2 err2 where d2: "ws_drain (fc_options c) (rest @ b) = ((), fs2, rest2, err2)"
    by (cases "ws_drain (fc_options c) (rest @ b)") auto
  have "ws_drain (fc_options c) (fc_pending c @ (a @ b)) = ((), fs1 @ fs2, rest2, err2)"
    using ws_decoder.drain_append [of "fc_options c" "()" "fc_pending c @ a" _ _ _ b] d d2
    by (simp add: err fs)
  from feed_drain [OF this] feed_drain [of c1 b fs2 rest2 err2] d2 show ?thesis
    by (auto simp: c1 split: option.split)
qed

text \<open>A codec between two calls of \<open>feed\<close> holds no complete frame.\<close>

definition settled :: "frame_codec \<Rightarrow> bool" where
  "settled c \<longleftrightarrow> tryParseFrame (fc_options c) (fc_pending c) = NeedMore"

lemma settled_new [simp]: "settled (new_frame_codec opts)"
  by (simp add: settled_def new_frame_codec_def tryParseFrame_def)

lemma settled_reset [simp]: "settled (reset_codec c)"
  by (simp add: settled_def reset_codec_def tryParseFrame_def)

lemma feed_result:
  obtains fs rest err where "ws_drain (fc_options c) (fc_pending c @ chunk) = ((), fs, rest, err)"
    and "feed c chunk = (c\<lparr>fc_framesDecoded := fc_framesDecoded c + length fs,
        fc_bytesConsumed := fc_bytesConsumed c + wire_total fs, fc_pending := rest\<rparr>,
      case err of None \<Rightarrow> Inr fs | Some e \<Rightarrow> Inl e)"
  using feed_drain [of c chunk] by (cases "ws_drain (fc_options c) (fc_pending c @ chunk)") auto

lemma feed_settled: "feed c chunk = (c', Inr fs) \<Longrightarrow> settled c'"
  by (rule feed_result [of c chunk])
    (auto simp: settled_def split: option.splits dest: ws_decoder.drain_settled)

lemma feed_Nil: "settled c \<Longrightarrow> feed c [] = (c, Inr [])"
  using feed_drain [of c "[]"] by (simp add: settled_def ws_decoder.drain_NeedMore)

lemma feed_prefix:
  assumes "feed c (a @ b) = (c', Inr fs)"
  obtains c1 fs1 where "feed c a = (c1, Inr fs1)"
proof (rule feed_result [of c a])
  fix fs1 rest err
  assume d: "ws_drain (fc_options c) (fc_pending c @ a) = ((), fs1, rest, err)"
    and f: "feed c a = (c\<lparr>fc_framesDecoded := fc_framesDecoded c + length fs1,
        fc_bytesConsumed := fc_bytesConsumed c + wire_total fs1, fc_pending := rest\<rparr>,
      case err of None \<Rightarrow> Inr fs1 | Some e \<Rightarrow> Inl e)"
  show thesis
  proof (cases err)
    case None
    with f that show thesis by simp
  next
    case (Some e)
    with d have "ws_drain (fc_options c) (fc_pending c @ a @ b) = ((), fs1, rest @ b, Some e)"
      using ws_decoder.drain_append_error [of "fc_options c" "()" "fc_pending c @ a"] by simp
    from feed_drain [OF this] assms show thesis by simp
  qed
qed

lemma tryParseFrame_NeedMore_bound:
  assumes "tryParseFrame opts buf = NeedMore"
  shows "length buf < 14 + maxPayload opts"
  using assms
  by (auto simp: tryParseFrame_def parse_length_def parse_payload_def check_length_def Let_def
      split: if_splits option.splits attempt.splits sum.splits)

text \<open>Cutting a stream that decodes without error changes nothing.\<close>

lemma feed_chunks_concat:
  assumes "settled c" and "feed c (concat chunks) = (c', Inr fs)"
  shows "feed_chunks c chunks = (c', Inr fs)"
  using assms
proof (induction chunks arbitrary: c fs)
  case Nil
  then show ?case by (simp add: feed_Nil)
next
  case (Cons b bs)
  obtain c1 fs1 where b: "feed c b = (c1, Inr fs1)"
    using feed_prefix [of c b "concat bs"] Cons.prems(2) by auto
  then obtain fs2 where "feed c1 (concat bs) = (c', Inr fs2)" and fs: "fs = fs1 @ fs2"
    using feed_append [OF b, of "concat bs"] Cons.prems(2) by (auto split: prod.splits sum.splits)
  then have "feed_chunks c1 bs = (c', Inr fs2)"
    using Cons.IH feed_settled [OF b] by blast
  then show ?case
    by (simp add: b fs)
qed

lemma feed_chunks_wires:
  assumes "\<forall>g \<in> set gs. ws_sendable opts g" and "concat chunks = concat (map ws_wire gs)"
  shows "\<exists>c. feed_chunks (new_frame_codec opts) chunks = (c, Inr (map ws_reported gs)) \<and> fc_pending c = []"
proof -
  have "ws_drain opts (concat chunks) = ((), map ws_reported gs, [], None)"
    using ws_framing.drain_encode [of opts "()" gs] assms by simp
  then have "feed (new_frame_codec opts) (concat chunks) =
      ((new_frame_codec opts)\<lparr>fc_framesDecoded := length gs,
         fc_bytesConsumed := wire_total (map ws_reported gs), fc_pending := []\<rparr>, Inr (map ws_reported gs))"
    using feed_drain [of "new_frame_codec opts" "concat chunks"] by (simp add: new_frame_codec_def)
  from feed_chunks_concat [OF settled_new this] show ?thesis
    by (intro exI conjI) (assumption, simp)
qed

text \<open>A configuration with a small payload limit, for the examples.\<close>

definition sample_options :: codec_options where
  "sample_options =
     \<lparr>requireMask = False, forbidMask = False, rejectRsv = True, maxPayload = 64, enforceControl = True\<rparr>"

lemma not_isl_result: "\<not> isl (snd r) \<Longrightarrow> \<exists>c x. r = (c, Inr x)"
  by (cases r; cases "snd r") auto

section \<open>Properties\<close>

text \<open>
  C14: a stream that decodes without error decodes to the same frames, and leaves the codec in
  the same state, however the transport cuts it into chunks.
\<close>

theorem feed_any_chunking:
  assumes "settled c" and "feed c (concat chunks) = (c', Inr fs)"
  shows "feed_chunks c chunks = (c', Inr fs)"
  using assms by (rule feed_chunks_concat)

theorem feed_any_chunking_witness:
  "snd (feed_chunks (new_frame_codec sample_options) [[0x81], [], [1, 0x41, 0x8a], [0]]) =
     snd (feed (new_frame_codec sample_options) [0x81, 1, 0x41, 0x8a, 0])"
proof -
  let ?c = "new_frame_codec sample_options"
  have "\<not> isl (snd (feed ?c (concat [[0x81], [], [1, 0x41, 0x8a], [0]])))"
    by code_simp
  from not_isl_result [OF this] obtain c' fs where "feed ?c (concat [[0x81], [], [1, 0x41, 0x8a], [0]]) = (c', Inr fs)"
    by blast
  with feed_any_chunking [OF settled_new this] show ?thesis by simp
qed

text \<open>
  C3: frames written by \<open>encode\<close>, with any of its options, arrive as they were sent: whatever
  chunks the receiver gets, a decoder that accepts them reports exactly these frames, unmasked,
  in order, and keeps no byte.
\<close>

theorem encode_feed_roundtrip:
  assumes "\<forall>g \<in> set gs. ws_sendable opts g" and "concat chunks = concat (map ws_wire gs)"
  shows "\<exists>c. feed_chunks (new_frame_codec opts) chunks = (c, Inr (map ws_reported gs)) \<and> fc_pending c = []"
  using assms by (rule feed_chunks_wires)

definition sample_send :: ws_send where
  "sample_send = \<lparr>s_opcode = TEXT, s_payload = [0x48, 0x69], s_options = masking True, s_key = [1, 2, 3, 4]\<rparr>"

lemma sample_send_encode: "encode TEXT [0x48, 0x69] (masking True) [1, 2, 3, 4] = Inr [0x81, 0x82, 1, 2, 3, 4, 0x49, 0x6b]"
  by (simp add: encode_def applyMask_def Let_def masking_def default_encode_def header_byte0_def length_bytes_def)

theorem encode_feed_roundtrip_witness:
  "\<exists>c. feed_chunks (new_frame_codec sample_options) [[0x81, 0x82, 1, 2], [3, 4, 0x49, 0x6b]] =
      (c, Inr [ws_reported sample_send]) \<and> fc_pending c = []"
proof -
  have "ws_wire sample_send = [0x81, 0x82, 1, 2, 3, 4, 0x49, 0x6b]"
    by (simp add: ws_wire_def sample_send_def sample_send_encode)
  moreover have "ws_sendable sample_options sample_send"
  proof -
    have "accepts sample_options TEXT 2 (masking True)"
      by code_simp
    then show ?thesis
      by (simp add: ws_sendable_def sample_send_def sample_send_encode flip: numeral_2_eq_2)
  qed
  ultimately show ?thesis
    using encode_feed_roundtrip [of "[sample_send]" sample_options "[[0x81, 0x82, 1, 2], [3, 4, 0x49, 0x6b]]"]
    by simp
qed

text \<open>
  Between calls the decoder buffers less than one maximal frame (14 header bytes and the
  payload limit), whatever bytes a peer sends.
\<close>

theorem feed_buffer_bound:
  assumes "feed c chunk = (c', Inr fs)"
  shows "length (fc_pending c') < 14 + maxPayload (fc_options c)"
  using feed_settled [OF assms] feed_options [of c chunk] assms
  by (simp add: settled_def tryParseFrame_NeedMore_bound)

theorem feed_buffer_bound_witness:
  "length (fc_pending (fst (feed (new_frame_codec sample_options) [0x81, 5, 0x41]))) < 78"
proof -
  have "\<not> isl (snd (feed (new_frame_codec sample_options) [0x81, 5, 0x41]))"
    by code_simp
  from not_isl_result [OF this] obtain c' fs where "feed (new_frame_codec sample_options) [0x81, 5, 0x41] = (c', Inr fs)"
    by blast
  with feed_buffer_bound [OF this] show ?thesis
    by (simp add: new_frame_codec_def sample_options_def)
qed

end
