(* ===== verification/WsReassembler.thy ===== *)
theory WsReassembler
  imports WsFrameCodec
begin

text \<open>
  Message reassembly (\<open>websocket/protocol/MessageReassembler.ts\<close>): \<open>push\<close> with its private
  helpers, the close-body parser, the invariant of the in-flight message, and the round trip of
  \<open>FrameCodec.fragment\<close> through decoder and reassembler.
\<close>

section \<open>The reassembler\<close>

datatype reassembler_event =
    MessageEvent ws_message
  | PingEvent "byte list"
  | PongEvent "byte list"
  | CloseEvent ws_close_body

record reassembler =
  ra_maxMessage :: nat
  ra_maxFragments :: nat
  ra_validateUtf8 :: bool
  ra_messageOpcode :: "ws_opcode option"
  ra_chunks :: "byte list list"
  ra_bufferedBytes :: nat
  ra_fragmentCount :: nat

definition new_reassembler :: "nat option \<Rightarrow> nat option \<Rightarrow> bool option \<Rightarrow> reassembler" where
  "new_reassembler maxMessageBytes maxFragments validateUtf8 =
     \<lparr>ra_maxMessage = (case maxMessageBytes of Some n \<Rightarrow> n | None \<Rightarrow> 16 * 1024 * 1024),
      ra_maxFragments = (case maxFragments of Some n \<Rightarrow> n | None \<Rightarrow> 1024),
      ra_validateUtf8 = (case validateUtf8 of Some b \<Rightarrow> b | None \<Rightarrow> True),
      ra_messageOpcode = None, ra_chunks = [], ra_bufferedBytes = 0, ra_fragmentCount = 0\<rparr>"

definition reset_reassembler :: "reassembler \<Rightarrow> reassembler" where
  "reset_reassembler r =
     r\<lparr>ra_messageOpcode := None, ra_chunks := [], ra_bufferedBytes := 0, ra_fragmentCount := 0\<rparr>"

text \<open>\<open>Buffer.concat(list, totalLength)\<close> cuts or zero-fills to the given length.\<close>

definition buffer_concat :: "byte list list \<Rightarrow> nat \<Rightarrow> byte list" where
  "buffer_concat list totalLength = take totalLength (concat list @ replicate totalLength 0)"

definition checkSize :: "reassembler \<Rightarrow> reassembler \<times> (ws_protocol_error + unit)" where
  "checkSize r =
     (if ra_bufferedBytes r > ra_maxMessage r
      then (reset_reassembler r, Inl (WsProtocolError (MessageTooLong (ra_maxMessage r)) (close_num MESSAGE_TOO_BIG)))
      else (r, Inr ()))"

definition validateMessage :: "reassembler \<Rightarrow> ws_message \<Rightarrow> ws_protocol_error + unit" where
  "validateMessage r msg =
     (if m_opcode msg = TEXT \<and> ra_validateUtf8 r \<and> \<not> utf8_valid (m_payload msg)
      then Inl (WsProtocolError InvalidUtf8Text (close_num INVALID_PAYLOAD))
      else Inr ())"

definition parseCloseBody :: "byte list \<Rightarrow> ws_protocol_error + ws_close_body" where
  "parseCloseBody payload =
     (if length payload = 0 then Inr \<lparr>cb_code = close_num NO_STATUS_RECEIVED, cb_reason = []\<rparr>
      else if length payload = 1 then Inl (WsProtocolError CloseBodyOneByte (close_num PROTOCOL_ERROR))
      else
        let code = be_val (slice 0 2 payload) in
        if \<not> isValidCloseCode code then Inl (WsProtocolError (InvalidCloseCode code) (close_num PROTOCOL_ERROR))
        else
          case text_decode (drop 2 payload) of
            Some reason \<Rightarrow> Inr \<lparr>cb_code = code, cb_reason = reason\<rparr>
          | None \<Rightarrow> Inl (WsProtocolError InvalidUtf8Reason (close_num INVALID_PAYLOAD)))"

text \<open>The last branch of the code's \<open>switch\<close> is not reached: the other opcodes are data.\<close>

definition handleControl :: "ws_frame \<Rightarrow> ws_protocol_error + reassembler_event" where
  "handleControl frame =
     (case f_opcode frame of
        PING \<Rightarrow> Inr (PingEvent (f_payload frame))
      | PONG \<Rightarrow> Inr (PongEvent (f_payload frame))
      | CLOSE \<Rightarrow> (case parseCloseBody (f_payload frame) of Inl e \<Rightarrow> Inl e | Inr b \<Rightarrow> Inr (CloseEvent b))
      | op \<Rightarrow> Inl (protocol_error (UnknownOpcode (opcode_num op))))"

definition accumulate ::
  "reassembler \<Rightarrow> ws_frame \<Rightarrow> reassembler \<times> (ws_protocol_error + reassembler_event option)" where
  "accumulate r0 frame =
     (let r = r0\<lparr>ra_fragmentCount := ra_fragmentCount r0 + 1\<rparr> in
      if ra_fragmentCount r > ra_maxFragments r
      then (reset_reassembler r, Inl (WsProtocolError (TooManyFragments (ra_maxFragments r)) (close_num MESSAGE_TOO_BIG)))
      else
        case checkSize (r\<lparr>ra_chunks := ra_chunks r @ [f_payload frame],
                          ra_bufferedBytes := ra_bufferedBytes r + length (f_payload frame)\<rparr>) of
          (r, Inl e) \<Rightarrow> (r, Inl e)
        | (r, Inr _) \<Rightarrow>
            if \<not> f_fin frame then (r, Inr None)
            else
              let msg = \<lparr>m_opcode = (case ra_messageOpcode r of Some op \<Rightarrow> op | None \<Rightarrow> TEXT),
                         m_payload = buffer_concat (ra_chunks r) (ra_bufferedBytes r),
                         m_fragmentCount = ra_fragmentCount r\<rparr>;
                  r' = reset_reassembler r
              in
              case validateMessage r' msg of
                Inl e \<Rightarrow> (r', Inl e)
              | Inr _ \<Rightarrow> (r', Inr (Some (MessageEvent msg))))"

definition push ::
  "reassembler \<Rightarrow> ws_frame \<Rightarrow> reassembler \<times> (ws_protocol_error + reassembler_event option)" where
  "push r frame =
     (if isControlOpcode (opcode_num (f_opcode frame)) then
        (r, case handleControl frame of Inl e \<Rightarrow> Inl e | Inr ev \<Rightarrow> Inr (Some ev))
      else if f_opcode frame = CONTINUATION then
        (if ra_messageOpcode r = None then (r, Inl (protocol_error ContinuationWithoutMessage))
         else accumulate r frame)
      else if ra_messageOpcode r \<noteq> None then
        (r, Inl (protocol_error (NewMessageInProgress (f_opcode frame))))
      else if f_fin frame then
        (let msg = \<lparr>m_opcode = f_opcode frame, m_payload = f_payload frame, m_fragmentCount = 1\<rparr> in
         case validateMessage r msg of
           Inl e \<Rightarrow> (r, Inl e)
         | Inr _ \<Rightarrow> (r, Inr (Some (MessageEvent msg))))
      else
        case checkSize (r\<lparr>ra_messageOpcode := Some (f_opcode frame), ra_chunks := [f_payload frame],
                          ra_bufferedBytes := length (f_payload frame), ra_fragmentCount := 1\<rparr>) of
          (r, Inl e) \<Rightarrow> (r, Inl e)
        | (r, Inr _) \<Rightarrow> (r, Inr None))"

text \<open>A run of frames: the events so far and the first error, as the receiving loop sees them.\<close>

fun push_all ::
  "reassembler \<Rightarrow> ws_frame list \<Rightarrow> reassembler \<times> reassembler_event list \<times> ws_protocol_error option" where
  "push_all r [] = (r, [], None)"
| "push_all r (f # fs) =
     (case push r f of
        (r', Inl e) \<Rightarrow> (r', [], Some e)
      | (r', Inr ev) \<Rightarrow>
          (let (r'', evs, err) = push_all r' fs
           in (r'', (case ev of Some x \<Rightarrow> x # evs | None \<Rightarrow> evs), err)))"

section \<open>The invariant of the in-flight message\<close>

definition reassembler_inv :: "reassembler \<Rightarrow> bool" where
  "reassembler_inv r \<longleftrightarrow>
     (case ra_messageOpcode r of
        None \<Rightarrow> ra_chunks r = [] \<and> ra_bufferedBytes r = 0 \<and> ra_fragmentCount r = 0
      | Some op \<Rightarrow>
          op \<in> {TEXT, BINARY} \<and> ra_fragmentCount r = length (ra_chunks r) \<and> 0 < ra_fragmentCount r \<and>
          ra_fragmentCount r \<le> max 1 (ra_maxFragments r) \<and>
          ra_bufferedBytes r = length (concat (ra_chunks r)) \<and> ra_bufferedBytes r \<le> ra_maxMessage r)"

lemma reassembler_inv_reset [simp]: "reassembler_inv (reset_reassembler r)"
  by (simp add: reassembler_inv_def reset_reassembler_def)

lemma reassembler_inv_new [simp]: "reassembler_inv (new_reassembler m f u)"
  by (simp add: reassembler_inv_def new_reassembler_def)

lemma new_reassembler_sel [simp]:
  "ra_maxMessage (new_reassembler m f u) = (case m of Some n \<Rightarrow> n | None \<Rightarrow> 16 * 1024 * 1024)"
  "ra_maxFragments (new_reassembler m f u) = (case f of Some n \<Rightarrow> n | None \<Rightarrow> 1024)"
  "ra_messageOpcode (new_reassembler m f u) = None"
  by (simp_all add: new_reassembler_def)

lemma limits_reset [simp]:
  "ra_maxMessage (reset_reassembler r) = ra_maxMessage r"
  "ra_maxFragments (reset_reassembler r) = ra_maxFragments r"
  "ra_validateUtf8 (reset_reassembler r) = ra_validateUtf8 r"
  "ra_messageOpcode (reset_reassembler r) = None"
  "ra_chunks (reset_reassembler r) = []"
  "ra_bufferedBytes (reset_reassembler r) = 0"
  "ra_fragmentCount (reset_reassembler r) = 0"
  by (simp_all add: reset_reassembler_def)

lemma data_opcode_cases: "\<not> isControlOpcode (opcode_num op) \<Longrightarrow> op = CONTINUATION \<or> op = TEXT \<or> op = BINARY"
  by (cases op) (simp_all add: isControlOpcode_def)

lemma accumulate_state:
  "(\<exists>r'. fst (accumulate r f) = reset_reassembler r') \<or>
   (fst (accumulate r f) =
      r\<lparr>ra_fragmentCount := ra_fragmentCount r + 1, ra_chunks := ra_chunks r @ [f_payload f],
        ra_bufferedBytes := ra_bufferedBytes r + length (f_payload f)\<rparr> \<and>
    ra_fragmentCount r + 1 \<le> ra_maxFragments r \<and>
    ra_bufferedBytes r + length (f_payload f) \<le> ra_maxMessage r)"
  by (auto simp: accumulate_def checkSize_def Let_def split: sum.splits)

lemma accumulate_inv:
  assumes "reassembler_inv r" and "ra_messageOpcode r = Some op"
  shows "reassembler_inv (fst (accumulate r f))"
  using accumulate_state [of r f] assms
  by (elim disjE exE conjE) (simp_all add: reassembler_inv_def)

lemma push_state:
  "fst (push r f) = r \<or> (\<exists>r'. fst (push r f) = reset_reassembler r') \<or>
   (\<exists>op. ra_messageOpcode r = Some op \<and> fst (push r f) = fst (accumulate r f)) \<or>
   (fst (push r f) =
      r\<lparr>ra_messageOpcode := Some (f_opcode f), ra_chunks := [f_payload f],
        ra_bufferedBytes := length (f_payload f), ra_fragmentCount := 1\<rparr> \<and>
    f_opcode f \<in> {TEXT, BINARY} \<and> length (f_payload f) \<le> ra_maxMessage r)"
  using data_opcode_cases [of "f_opcode f"]
  by (auto simp: push_def checkSize_def Let_def split: sum.split)

lemma push_inv: "reassembler_inv r \<Longrightarrow> reassembler_inv (fst (push r f))"
  using push_state [of r f]
proof (elim disjE exE conjE, goal_cases)
  case (3 op)
  then show ?case by (simp add: accumulate_inv)
qed (auto simp: reassembler_inv_def reset_reassembler_def)

interpretation reassembling: invariant_machine "\<lambda>r f. fst (push r f)" reassembler_inv
  by unfold_locales (rule push_inv)

lemma push_limits:
  "ra_maxMessage (fst (push r f)) = ra_maxMessage r \<and> ra_maxFragments (fst (push r f)) = ra_maxFragments r"
  by (auto simp: push_def accumulate_def checkSize_def Let_def split: sum.splits)

lemma push_run_limits:
  "ra_maxMessage (foldl (\<lambda>r f. fst (push r f)) r fs) = ra_maxMessage r \<and>
   ra_maxFragments (foldl (\<lambda>r f. fst (push r f)) r fs) = ra_maxFragments r"
  by (induction fs arbitrary: r) (simp_all add: push_limits)

lemma push_control:
  "isControlOpcode (opcode_num (f_opcode f)) \<Longrightarrow> fst (push r f) = r"
  by (simp add: push_def)

section \<open>Properties\<close>

text \<open>
  Whatever frames arrive, the reassembler never holds more than \<open>maxMessageBytes\<close> bytes or
  more than \<open>maxFragments\<close> fragments, also after errors.
\<close>

theorem reassembler_memory_bound:
  "ra_bufferedBytes (foldl (\<lambda>r f. fst (push r f)) (new_reassembler (Some m) (Some n) u) fs) \<le> m \<and>
   length (ra_chunks (foldl (\<lambda>r f. fst (push r f)) (new_reassembler (Some m) (Some n) u) fs)) \<le> max 1 n \<and>
   ra_bufferedBytes (foldl (\<lambda>r f. fst (push r f)) (new_reassembler (Some m) (Some n) u) fs) =
     length (concat (ra_chunks (foldl (\<lambda>r f. fst (push r f)) (new_reassembler (Some m) (Some n) u) fs)))"
proof -
  let ?r = "foldl (\<lambda>r f. fst (push r f)) (new_reassembler (Some m) (Some n) u) fs"
  have "reassembler_inv ?r"
    by (rule reassembling.inv_run) simp
  moreover have "ra_maxMessage ?r = m" "ra_maxFragments ?r = n"
    by (simp_all add: push_run_limits new_reassembler_def)
  ultimately show ?thesis
    by (auto simp: reassembler_inv_def split: option.splits)
qed

section \<open>Fragmented messages\<close>

text \<open>The frames of one message: the first carries the opcode, only the last has FIN.\<close>

fun frame_chain :: "ws_opcode \<Rightarrow> ws_frame list \<Rightarrow> bool" where
  "frame_chain op [] = False"
| "frame_chain op [f] = (f_opcode f = op \<and> f_fin f)"
| "frame_chain op (f # g # fs) = (f_opcode f = op \<and> \<not> f_fin f \<and> frame_chain CONTINUATION (g # fs))"

definition payload_of :: "ws_frame list \<Rightarrow> byte list" where
  "payload_of fs = concat (map f_payload fs)"

lemma payload_of_simps [simp]: "payload_of [] = []" "payload_of (f # fs) = f_payload f @ payload_of fs"
  by (simp_all add: payload_of_def)

lemma buffer_concat_exact: "n = length (concat bs) \<Longrightarrow> buffer_concat bs n = concat bs"
  by (simp add: buffer_concat_def)

definition text_ok :: "reassembler \<Rightarrow> ws_opcode \<Rightarrow> byte list \<Rightarrow> bool" where
  "text_ok r op payload \<longleftrightarrow> (op = TEXT \<and> ra_validateUtf8 r \<longrightarrow> utf8_valid payload)"

lemma push_continuation:
  assumes inv: "reassembler_inv r" and op: "ra_messageOpcode r = Some op" and "f_opcode f = CONTINUATION"
    and "ra_fragmentCount r < ra_maxFragments r"
    and size: "ra_bufferedBytes r + length (f_payload f) \<le> ra_maxMessage r"
  shows "\<not> f_fin f \<Longrightarrow> push r f =
      (r\<lparr>ra_fragmentCount := ra_fragmentCount r + 1, ra_chunks := ra_chunks r @ [f_payload f],
         ra_bufferedBytes := ra_bufferedBytes r + length (f_payload f)\<rparr>, Inr None)"
    and "f_fin f \<Longrightarrow> text_ok r op (concat (ra_chunks r) @ f_payload f) \<Longrightarrow> \<exists>r'. push r f = (r',
      Inr (Some (MessageEvent \<lparr>m_opcode = op, m_payload = concat (ra_chunks r) @ f_payload f,
        m_fragmentCount = ra_fragmentCount r + 1\<rparr>))) \<and> ra_messageOpcode r' = None"
proof -
  have "ra_bufferedBytes r + length (f_payload f) = length (concat (ra_chunks r @ [f_payload f]))"
    using inv op by (simp add: reassembler_inv_def)
  note concat = buffer_concat_exact [OF this]
  show "\<not> f_fin f \<Longrightarrow> push r f =
      (r\<lparr>ra_fragmentCount := ra_fragmentCount r + 1, ra_chunks := ra_chunks r @ [f_payload f],
         ra_bufferedBytes := ra_bufferedBytes r + length (f_payload f)\<rparr>, Inr None)"
    using assms by (simp add: push_def isControlOpcode_def accumulate_def checkSize_def Let_def)
  show "f_fin f \<Longrightarrow> text_ok r op (concat (ra_chunks r) @ f_payload f) \<Longrightarrow> \<exists>r'. push r f = (r',
      Inr (Some (MessageEvent \<lparr>m_opcode = op, m_payload = concat (ra_chunks r) @ f_payload f,
        m_fragmentCount = ra_fragmentCount r + 1\<rparr>))) \<and> ra_messageOpcode r' = None"
    using assms(2-5)
    by (simp add: push_def isControlOpcode_def accumulate_def checkSize_def Let_def concat
        validateMessage_def text_ok_def)
qed

lemma push_all_continuations:
  assumes "frame_chain CONTINUATION fs" and "reassembler_inv r" and "ra_messageOpcode r = Some op"
    and "ra_fragmentCount r + length fs \<le> ra_maxFragments r"
    and "ra_bufferedBytes r + length (payload_of fs) \<le> ra_maxMessage r"
    and "text_ok r op (concat (ra_chunks r) @ payload_of fs)"
  shows "\<exists>r'. push_all r fs = (r', [MessageEvent \<lparr>m_opcode = op,
      m_payload = concat (ra_chunks r) @ payload_of fs, m_fragmentCount = ra_fragmentCount r + length fs\<rparr>], None)"
  using assms
proof (induction fs arbitrary: r rule: induct_list012)
  case 1
  then show ?case by simp
next
  case (2 f)
  then show ?case
    using push_continuation(2) [of r op f] by fastforce
next
  case (3 f g fs)
  let ?r = "r\<lparr>ra_fragmentCount := ra_fragmentCount r + 1, ra_chunks := ra_chunks r @ [f_payload f],
         ra_bufferedBytes := ra_bufferedBytes r + length (f_payload f)\<rparr>"
  have p: "push r f = (?r, Inr None)"
    using push_continuation(1) [of r op f] 3 by simp
  have "reassembler_inv ?r"
    using push_inv [OF "3.prems"(2), of f] p by simp
  then have "\<exists>r'. push_all ?r (g # fs) = (r', [MessageEvent \<lparr>m_opcode = op,
      m_payload = concat (ra_chunks ?r) @ payload_of (g # fs),
      m_fragmentCount = ra_fragmentCount ?r + length (g # fs)\<rparr>], None)"
    using "3.prems" by (intro "3.IH"(2)) (simp_all add: text_ok_def)
  then show ?case
    using p by auto
qed

lemma push_all_chain:
  assumes "frame_chain op fs" and "op \<in> {TEXT, BINARY}" and "reassembler_inv r" and "ra_messageOpcode r = None"
    and "length fs \<le> ra_maxFragments r" and "length (payload_of fs) \<le> ra_maxMessage r"
    and "text_ok r op (payload_of fs)"
  shows "\<exists>r'. push_all r fs =
    (r', [MessageEvent \<lparr>m_opcode = op, m_payload = payload_of fs, m_fragmentCount = length fs\<rparr>], None)"
proof (cases fs rule: remdups_adj.cases)
  case 1
  with assms show ?thesis by simp
next
  case (2 f)
  with assms show ?thesis
    by (auto simp: push_def isControlOpcode_def validateMessage_def text_ok_def)
next
  case (3 f g gs)
  let ?r = "r\<lparr>ra_messageOpcode := Some op, ra_chunks := [f_payload f],
         ra_bufferedBytes := length (f_payload f), ra_fragmentCount := 1\<rparr>"
  have p: "push r f = (?r, Inr None)"
    using assms 3 by (auto simp: push_def isControlOpcode_def checkSize_def)
  have "reassembler_inv ?r"
    using push_inv [OF assms(3), of f] p by simp
  then have "\<exists>r'. push_all ?r (g # gs) = (r', [MessageEvent \<lparr>m_opcode = op,
      m_payload = concat (ra_chunks ?r) @ payload_of (g # gs),
      m_fragmentCount = ra_fragmentCount ?r + length (g # gs)\<rparr>], None)"
    using assms 3 by (intro push_all_continuations) (simp_all add: text_ok_def)
  then show ?thesis
    using p 3 by auto
qed

text \<open>What \<open>fragment\<close> writes, as the list of frames it encodes.\<close>

lemma fragment_loop_sends:
  assumes "fragment_loop op p n m keys i off = Inr ws" and "0 < n" and "off < length p"
  shows "\<exists>gs. ws = map ws_wire gs \<and>
    (\<forall>g \<in> set gs. encode (s_opcode g) (s_payload g) (s_options g) (s_key g) = Inr (ws_wire g) \<and>
       eo_mask (s_options g) = m \<and> \<not> eo_rsv1 (s_options g) \<and> length (s_payload g) \<le> length p \<and>
       s_opcode g \<in> {op, CONTINUATION}) \<and>
    frame_chain (if i = 0 then op else CONTINUATION) (map ws_reported gs) \<and>
    payload_of (map ws_reported gs) = drop off p"
  using assms
proof (induction op p n m keys i off arbitrary: ws rule: fragment_loop.induct)
  case (1 op p n m keys i off)
  let ?op = "if i = 0 then op else CONTINUATION" and ?slc = "slice off n p"
    and ?eo = "(masking m)\<lparr>eo_fin := length p \<le> off + n\<rparr>"
  from "1.prems" obtain w ws' where enc: "encode ?op ?slc ?eo (keys i) = Inr w"
    and loop: "fragment_loop op p n m keys (Suc i) (off + n) = Inr ws'" and ws: "ws = w # ws'"
    by (subst (asm) fragment_loop.simps) (auto simp: Let_def split: sum.splits)
  let ?g = "\<lparr>s_opcode = ?op, s_payload = ?slc, s_options = ?eo, s_key = keys i\<rparr>"
  have g: "encode ?op ?slc ?eo (keys i) = Inr (ws_wire ?g)" and w: "w = ws_wire ?g"
    using enc by (simp_all add: ws_wire_def)
  have r: "f_opcode (ws_reported ?g) = ?op" "f_fin (ws_reported ?g) = (length p \<le> off + n)"
    "f_payload (ws_reported ?g) = ?slc"
    by (simp_all add: ws_reported_def reported_frame_def)
  have m: "eo_mask ?eo = m" "\<not> eo_rsv1 ?eo" "length ?slc \<le> length p"
    by (simp_all add: masking_def default_encode_def slice_def)
  show ?case
  proof (cases "off + n < length p")
    case True
    with "1.IH" [OF _ refl refl enc loop] "1.prems" obtain gs where gs: "ws' = map ws_wire gs"
      "\<forall>g \<in> set gs. encode (s_opcode g) (s_payload g) (s_options g) (s_key g) = Inr (ws_wire g) \<and>
         eo_mask (s_options g) = m \<and> \<not> eo_rsv1 (s_options g) \<and> length (s_payload g) \<le> length p \<and>
         s_opcode g \<in> {op, CONTINUATION}"
      "frame_chain CONTINUATION (map ws_reported gs)" "payload_of (map ws_reported gs) = drop (off + n) p"
      by auto
    have "?slc @ drop (off + n) p = drop off p"
      by (metis add.commute append_take_drop_id drop_drop slice_def)
    moreover have "gs \<noteq> []"
      using gs(3) by auto
    then obtain h hs where "gs = h # hs"
      by (cases gs) auto
    ultimately show ?thesis
      using gs r g m w ws True by (intro exI [of _ "?g # gs"]) auto
  next
    case False
    then have "ws' = []"
      using loop by (subst (asm) fragment_loop.simps) simp
    moreover have "?slc = drop off p"
      using False by (simp add: slice_def)
    ultimately show ?thesis
      using r g m w ws False by (intro exI [of _ "[?g]"]) simp
  qed
qed

lemma fragment_sends:
  assumes "fragment op p n m keys = Inr ws"
  shows "\<exists>gs. ws = map ws_wire gs \<and>
    (\<forall>g \<in> set gs. encode (s_opcode g) (s_payload g) (s_options g) (s_key g) = Inr (ws_wire g) \<and>
       eo_mask (s_options g) = m \<and> \<not> eo_rsv1 (s_options g) \<and> length (s_payload g) \<le> length p \<and>
       s_opcode g \<in> {op, CONTINUATION}) \<and>
    frame_chain op (map ws_reported gs) \<and> payload_of (map ws_reported gs) = p"
proof (cases "p = []")
  case True
  let ?g = "\<lparr>s_opcode = op, s_payload = [], s_options = masking m, s_key = keys 0\<rparr>"
  have "ws = [ws_wire ?g]" and "encode op [] (masking m) (keys 0) = Inr (ws_wire ?g)"
    using assms True by (auto simp: fragment_def ws_wire_def split: if_splits sum.splits)
  then show ?thesis
    using True by (intro exI [of _ "[?g]"])
      (simp add: ws_reported_def reported_frame_def masking_def default_encode_def)
next
  case False
  with assms have "fragment_loop op p n m keys 0 0 = Inr ws" and "0 < n"
    by (auto simp: fragment_def split: if_splits)
  from fragment_loop_sends [OF this] False show ?thesis
    by simp
qed

text \<open>
  C15: a message sent in fragments of any size arrives whole: however the bytes of
  \<open>fragment\<close> are cut on the way, decoding and reassembling them yields exactly one message with
  the opcode and the payload that were sent, if the receiver's limits admit it.
\<close>

theorem fragment_reassemble_roundtrip:
  assumes frag: "fragment op payload n m keys = Inr ws" and op: "op \<in> {TEXT, BINARY}"
    and utf: "op = TEXT \<longrightarrow> utf8_valid payload"
    and mask: "requireMask opts \<longrightarrow> m" "forbidMask opts \<longrightarrow> \<not> m"
    and limits: "length payload \<le> maxPayload opts" "length payload < 2 ^ 64" "length payload \<le> maxMsg"
      "length ws \<le> maxFrags"
    and cut: "concat chunks = concat ws"
  shows "\<exists>c fs r. feed_chunks (new_frame_codec opts) chunks = (c, Inr fs) \<and>
    push_all (new_reassembler (Some maxMsg) (Some maxFrags) None) fs =
      (r, [MessageEvent \<lparr>m_opcode = op, m_payload = payload, m_fragmentCount = length ws\<rparr>], None)"
proof -
  obtain gs where gs: "ws = map ws_wire gs"
    "\<forall>g \<in> set gs. encode (s_opcode g) (s_payload g) (s_options g) (s_key g) = Inr (ws_wire g) \<and>
       eo_mask (s_options g) = m \<and> \<not> eo_rsv1 (s_options g) \<and> length (s_payload g) \<le> length payload \<and>
       s_opcode g \<in> {op, CONTINUATION}"
    "frame_chain op (map ws_reported gs)" "payload_of (map ws_reported gs) = payload"
    using fragment_sends [OF frag] by blast
  have "\<forall>g \<in> set gs. ws_sendable opts g"
    using gs(2) op mask limits by (fastforce simp: ws_sendable_def accepts_def)
  from feed_chunks_wires [OF this, of chunks] cut gs(1)
  obtain c where c: "feed_chunks (new_frame_codec opts) chunks = (c, Inr (map ws_reported gs))"
    by auto
  have "\<exists>r. push_all (new_reassembler (Some maxMsg) (Some maxFrags) None) (map ws_reported gs) =
      (r, [MessageEvent \<lparr>m_opcode = op, m_payload = payload_of (map ws_reported gs),
             m_fragmentCount = length (map ws_reported gs)\<rparr>], None)"
    using gs op utf limits
    by (intro push_all_chain) (simp_all add: text_ok_def)
  with c gs(1,4) show ?thesis
    by auto
qed

lemma sample_fragments:
  "fragment BINARY [1, 2, 3] 2 False keys = Inr [[0x02, 2, 1, 2], [0x80, 1, 3]]"
  by (simp add: fragment_def fragment_loop.simps encode_def Let_def masking_def default_encode_def
      header_byte0_def length_bytes_def slice_def)

theorem fragment_reassemble_roundtrip_witness:
  "\<exists>c fs r. feed_chunks (new_frame_codec sample_options) [[0x02, 2], [1, 2, 0x80], [1, 3]] = (c, Inr fs) \<and>
    push_all (new_reassembler (Some 3) (Some 2) None) fs =
      (r, [MessageEvent \<lparr>m_opcode = BINARY, m_payload = [1, 2, 3], m_fragmentCount = 2\<rparr>], None)"
  using fragment_reassemble_roundtrip [OF sample_fragments, where opts = sample_options and maxMsg = 3
      and maxFrags = 2 and chunks = "[[0x02, 2], [1, 2, 0x80], [1, 3]]"]
  by (simp add: sample_options_def del: feed_chunks.simps flip: numeral_2_eq_2)

end
