(* ===== verification/WsSession.thy ===== *)
theory WsSession
  imports WsReassembler
begin

text \<open>
  The connection endpoint (\<open>websocket/protocol/WebSocketSession.ts\<close>): codec and reassembler,
  the close handshake, automatic pongs, keepalive and the outbound queue. Calls of the transport
  and of the listeners are appended to \<open>ws_log\<close> in the order the code makes them; the clock's
  reading is an argument of every operation; a timer is a flag, and its callback is an
  operation. The random masking keys are a stream of 32-bit words. The transport and the
  listeners are taken to return normally and not to call back into the session.
\<close>

section \<open>State\<close>

datatype ws_effect =
    Transport "byte list"
  | OnMessage ws_message
  | OnPong "byte list" "int option"
  | OnClose ws_close_body
  | OnStateChange ws_session_state
  | OnError ws_protocol_error
  | OnDrop "byte list"

record ws_session =
  ws_isServer :: bool
  ws_highWater :: nat
  ws_maxQueue :: nat
  ws_pingInterval :: nat
  ws_pongTimeout :: nat
  ws_keys :: "nat \<Rightarrow> 32 word"
  ws_keyIndex :: nat
  ws_codec :: frame_codec
  ws_reassembler :: reassembler
  ws_state :: ws_session_state
  ws_queue :: "(byte list \<times> nat) list"
  ws_bufferedAmount :: nat
  ws_totalBytesSent :: nat
  ws_droppedMessages :: nat
  ws_pingTimer :: bool
  ws_pongTimer :: bool
  ws_awaitingPong :: bool
  ws_lastPingAt :: nat
  ws_closeSentCode :: "nat option"
  ws_closeReceived :: bool
  ws_log :: "ws_effect list"

record session_options =
  so_isServer :: "bool option"
  so_highWaterMark :: "nat option"
  so_maxQueueBytes :: "nat option"
  so_pingIntervalMs :: "nat option"
  so_pongTimeoutMs :: "nat option"
  so_maxMessageBytes :: "nat option"

abbreviation dflt :: "'a option \<Rightarrow> 'a \<Rightarrow> 'a" where
  "dflt x d \<equiv> case x of Some v \<Rightarrow> v | None \<Rightarrow> d"

definition new_session :: "session_options \<Rightarrow> (nat \<Rightarrow> 32 word) \<Rightarrow> ws_session" where
  "new_session options keys =
     \<lparr>ws_isServer = dflt (so_isServer options) False,
      ws_highWater = dflt (so_highWaterMark options) (1024 * 1024),
      ws_maxQueue = dflt (so_maxQueueBytes options) (4 * 1024 * 1024),
      ws_pingInterval = dflt (so_pingIntervalMs options) 0,
      ws_pongTimeout = dflt (so_pongTimeoutMs options) 10000,
      ws_keys = keys, ws_keyIndex = 0,
      ws_codec = new_frame_codec
        (default_codec_options\<lparr>requireMask := dflt (so_isServer options) False\<rparr>),
      ws_reassembler = new_reassembler (so_maxMessageBytes options) None None,
      ws_state = CONNECTING, ws_queue = [], ws_bufferedAmount = 0, ws_totalBytesSent = 0,
      ws_droppedMessages = 0, ws_pingTimer = False, ws_pongTimer = False, ws_awaitingPong = False,
      ws_lastPingAt = 0, ws_closeSentCode = None, ws_closeReceived = False, ws_log = []\<rparr>"

section \<open>Helpers\<close>

definition emit :: "ws_session \<Rightarrow> ws_effect \<Rightarrow> ws_session" where
  "emit s eff = s\<lparr>ws_log := ws_log s @ [eff]\<rparr>"

definition mask_key :: "ws_session \<Rightarrow> byte list" where
  "mask_key s = be_bytes 4 (unat (ws_keys s (ws_keyIndex s)))"

text \<open>\<open>FrameCodec.encode(op, payload, { mask: !this._isServer })\<close>; with a 4-byte key it never throws.\<close>

definition session_frame :: "ws_session \<Rightarrow> ws_opcode \<Rightarrow> byte list \<Rightarrow> byte list" where
  "session_frame s op payload =
     (case encode op payload (masking (\<not> ws_isServer s)) (mask_key s) of Inr w \<Rightarrow> w | Inl _ \<Rightarrow> [])"

definition next_key :: "ws_session \<Rightarrow> ws_session" where
  "next_key s = (if ws_isServer s then s else s\<lparr>ws_keyIndex := ws_keyIndex s + 1\<rparr>)"

definition transmit :: "ws_session \<Rightarrow> ws_opcode \<Rightarrow> byte list \<Rightarrow> ws_session" where
  "transmit s op payload = emit (next_key s) (Transport (session_frame s op payload))"

definition setState :: "ws_session \<Rightarrow> ws_session_state \<Rightarrow> ws_session" where
  "setState s st = (if ws_state s = st then s else emit (s\<lparr>ws_state := st\<rparr>) (OnStateChange st))"

definition disarmPongTimeout :: "ws_session \<Rightarrow> ws_session" where
  "disarmPongTimeout s = s\<lparr>ws_pongTimer := False\<rparr>"

definition armPongTimeout :: "ws_session \<Rightarrow> ws_session" where
  "armPongTimeout s = (disarmPongTimeout s)\<lparr>ws_pongTimer := True\<rparr>"

definition finishClose :: "ws_session \<Rightarrow> ws_session" where
  "finishClose s = setState ((disarmPongTimeout s)\<lparr>ws_pingTimer := False\<rparr>) CLOSED"

definition failConnection :: "ws_session \<Rightarrow> ws_protocol_error \<Rightarrow> ws_session" where
  "failConnection s err =
     (let s = emit s (OnError err) in
      if ws_state s \<noteq> CLOSED then finishClose (transmit s CLOSE (close_payload (closeCode err) []))
      else s)"

section \<open>Sending\<close>

fun flush_loop :: "ws_session \<Rightarrow> (byte list \<times> nat) list \<Rightarrow> ws_session" where
  "flush_loop s [] = s\<lparr>ws_queue := []\<rparr>"
| "flush_loop s ((bytes, at) # q) =
     flush_loop
       ((emit s (Transport bytes))
          \<lparr>ws_bufferedAmount := ws_bufferedAmount s - length bytes,
           ws_totalBytesSent := ws_totalBytesSent s + length bytes\<rparr>) q"

definition flush :: "ws_session \<Rightarrow> ws_session" where
  "flush s = flush_loop s (ws_queue s)"

definition enqueue :: "nat \<Rightarrow> ws_session \<Rightarrow> byte list \<Rightarrow> ws_session \<times> bool" where
  "enqueue now s bytes =
     (if ws_bufferedAmount s + length bytes > ws_maxQueue s
      then (emit (s\<lparr>ws_droppedMessages := ws_droppedMessages s + 1\<rparr>) (OnDrop bytes), False)
      else
        (flush (s\<lparr>ws_queue := ws_queue s @ [(bytes, now)],
                  ws_bufferedAmount := ws_bufferedAmount s + length bytes\<rparr>), True))"

datatype ws_data = Str "codepoint list" | Buf "byte list"

definition data_bytes :: "ws_data \<Rightarrow> byte list" where
  "data_bytes d = (case d of Str t \<Rightarrow> utf8_encode t | Buf b \<Rightarrow> b)"

definition sendMessage :: "nat \<Rightarrow> ws_session \<Rightarrow> ws_data \<Rightarrow> bool \<Rightarrow> ws_session \<times> bool" where
  "sendMessage now s payload binary =
     (if ws_state s \<noteq> OPEN then (s, False)
      else
        enqueue now (next_key s)
          (session_frame s (if binary then BINARY else TEXT) (data_bytes payload)))"

definition ping :: "nat \<Rightarrow> ws_session \<Rightarrow> byte list \<Rightarrow> ws_session" where
  "ping now s body =
     (if ws_state s \<noteq> OPEN then s
      else
        let s = transmit (s\<lparr>ws_lastPingAt := now, ws_awaitingPong := True\<rparr>) PING body in
        if ws_pongTimeout s > 0 then armPongTimeout s else s)"

text \<open>\<open>close\<close> throws when the code does not fit in 16 bits; the \<open>finally\<close> still moves the state.\<close>

definition close_session :: "ws_session \<Rightarrow> nat \<Rightarrow> codepoint list \<Rightarrow> ws_session \<times> bool" where
  "close_session s code reason =
     (if ws_state s = CLOSED \<or> ws_state s = CLOSING then (s, True)
      else
        let s = s\<lparr>ws_closeSentCode := Some code\<rparr> in
        if code > 0xffff then (setState s CLOSING, False)
        else
          let s = setState (transmit s CLOSE (close_payload code reason)) CLOSING in
          (if ws_closeReceived s then finishClose s else s, True))"

section \<open>Receiving\<close>

definition handleEvent :: "nat \<Rightarrow> ws_session \<Rightarrow> reassembler_event \<Rightarrow> ws_session" where
  "handleEvent now s ev =
     (case ev of
        MessageEvent m \<Rightarrow> (if ws_state s = OPEN then emit s (OnMessage m) else s)
      | PingEvent body \<Rightarrow>
          (if ws_state s = OPEN \<or> ws_state s = CLOSING then transmit s PONG body else s)
      | PongEvent body \<Rightarrow>
          (let rtt = (if ws_awaitingPong s then Some (int now - int (ws_lastPingAt s)) else None) in
           emit (disarmPongTimeout (s\<lparr>ws_awaitingPong := False\<rparr>)) (OnPong body rtt))
      | CloseEvent close \<Rightarrow>
          (let s = emit (s\<lparr>ws_closeReceived := True\<rparr>) (OnClose close);
               s = (if ws_state s = OPEN
                    then setState
                           (transmit (s\<lparr>ws_closeSentCode := Some (cb_code close)\<rparr>) CLOSE
                              (close_payload (cb_code close) [])) CLOSING
                    else s)
           in
           if ws_state s = CLOSING \<and> ws_closeSentCode s \<noteq> None then finishClose s else s))"

text \<open>The \<open>for\<close> over the frames: an exception of \<open>push\<close> fails the connection.\<close>

fun dispatch_frames :: "nat \<Rightarrow> ws_session \<Rightarrow> ws_frame list \<Rightarrow> ws_session" where
  "dispatch_frames now s [] = s"
| "dispatch_frames now s (frame # frames) =
     (case push (ws_reassembler s) frame of
        (r, Inl e) \<Rightarrow> failConnection (s\<lparr>ws_reassembler := r\<rparr>) e
      | (r, Inr ev) \<Rightarrow>
          (let s = s\<lparr>ws_reassembler := r\<rparr>;
               s = (case ev of None \<Rightarrow> s | Some ev \<Rightarrow> handleEvent now s ev)
           in
           if ws_state s = CLOSED then s else dispatch_frames now s frames))"

definition receiveData :: "nat \<Rightarrow> ws_session \<Rightarrow> byte list \<Rightarrow> ws_session" where
  "receiveData now s chunk =
     (if ws_state s = CLOSED then s
      else
        case feed (ws_codec s) chunk of
          (c, Inl e) \<Rightarrow> failConnection (s\<lparr>ws_codec := c\<rparr>) e
        | (c, Inr frames) \<Rightarrow> dispatch_frames now (s\<lparr>ws_codec := c\<rparr>) frames)"

section \<open>Opening, timers, the transport's end\<close>

definition scheduleNextPing :: "ws_session \<Rightarrow> ws_session" where
  "scheduleNextPing s = s\<lparr>ws_pingTimer := True\<rparr>"

text \<open>\<open>open\<close> throws (\<open>False\<close>) unless the session is connecting.\<close>

definition open_session :: "ws_session \<Rightarrow> ws_session \<times> bool" where
  "open_session s =
     (if ws_state s \<noteq> CONNECTING then (s, False)
      else
        let s = setState s OPEN in
        (if ws_pingInterval s > 0 then scheduleNextPing s else s, True))"

definition pingTimerFires :: "nat \<Rightarrow> ws_session \<Rightarrow> ws_session" where
  "pingTimerFires now s =
     (if \<not> ws_pingTimer s then s
      else
        let s = s\<lparr>ws_pingTimer := False\<rparr> in
        if ws_state s \<noteq> OPEN then s else scheduleNextPing (ping now s []))"

definition pongTimerFires :: "ws_session \<Rightarrow> ws_session" where
  "pongTimerFires s =
     (if \<not> ws_pongTimer s then s
      else
        let s = s\<lparr>ws_pongTimer := False\<rparr> in
        if ws_awaitingPong s \<and> ws_state s = OPEN then failConnection s (protocol_error PongTimeout) else s)"

definition transportEnded :: "ws_session \<Rightarrow> ws_session" where
  "transportEnded s =
     (if ws_state s = CLOSED then s
      else
        finishClose
          (if \<not> ws_closeReceived s \<and> ws_closeSentCode s = None
           then emit s (OnClose \<lparr>cb_code = close_num ABNORMAL, cb_reason = map of_char ''transport ended''\<rparr>)
           else s))"

record backpressure_stats =
  bp_bufferedAmount :: nat
  bp_queuedMessages :: nat
  bp_highWaterMark :: nat
  bp_overHighWaterMark :: bool
  bp_totalBytesSent :: nat
  bp_droppedMessages :: nat

definition getBackpressureStats :: "ws_session \<Rightarrow> backpressure_stats" where
  "getBackpressureStats s =
     \<lparr>bp_bufferedAmount = ws_bufferedAmount s, bp_queuedMessages = length (ws_queue s),
      bp_highWaterMark = ws_highWater s, bp_overHighWaterMark = (ws_bufferedAmount s \<ge> ws_highWater s),
      bp_totalBytesSent = ws_totalBytesSent s, bp_droppedMessages = ws_droppedMessages s\<rparr>"

section \<open>Runs\<close>

datatype ws_op =
    Open
  | ReceiveData "byte list"
  | SendMessage ws_data bool
  | Flush
  | Ping "byte list"
  | Close nat "codepoint list"
  | TransportEnded
  | PingTimer
  | PongTimer

text \<open>One operation at one clock reading.\<close>

fun session_step :: "ws_session \<Rightarrow> nat \<times> ws_op \<Rightarrow> ws_session" where
  "session_step s (now, Open) = fst (open_session s)"
| "session_step s (now, ReceiveData chunk) = receiveData now s chunk"
| "session_step s (now, SendMessage d binary) = fst (sendMessage now s d binary)"
| "session_step s (now, Flush) = flush s"
| "session_step s (now, Ping body) = ping now s body"
| "session_step s (now, Close code reason) = fst (close_session s code reason)"
| "session_step s (now, TransportEnded) = transportEnded s"
| "session_step s (now, PingTimer) = pingTimerFires now s"
| "session_step s (now, PongTimer) = pongTimerFires s"

definition session_run :: "ws_session \<Rightarrow> (nat \<times> ws_op) list \<Rightarrow> ws_session" where
  "session_run = foldl session_step"

section \<open>Lemmas\<close>

named_theorems session_simps \<open>what the session's helpers change\<close>

lemma helper_state [session_simps]:
  "ws_state (emit s e) = ws_state s" "ws_state (next_key s) = ws_state s"
  "ws_state (transmit s op p) = ws_state s" "ws_state (disarmPongTimeout s) = ws_state s"
  "ws_state (armPongTimeout s) = ws_state s" "ws_state (scheduleNextPing s) = ws_state s"
  "ws_state (setState s st) = st" "ws_state (finishClose s) = CLOSED"
  "ws_state (failConnection s err) = CLOSED"
  by (auto simp: emit_def next_key_def transmit_def disarmPongTimeout_def armPongTimeout_def
      scheduleNextPing_def setState_def finishClose_def failConnection_def Let_def)

text \<open>The fields no helper writes.\<close>

lemma helper_frame [session_simps]:
  "ws_queue (emit s e) = ws_queue s" "ws_bufferedAmount (emit s e) = ws_bufferedAmount s"
  "ws_reassembler (emit s e) = ws_reassembler s" "ws_closeSentCode (emit s e) = ws_closeSentCode s"
  "ws_isServer (emit s e) = ws_isServer s" "ws_pingTimer (emit s e) = ws_pingTimer s"
  "ws_pongTimer (emit s e) = ws_pongTimer s" "ws_closeReceived (emit s e) = ws_closeReceived s"
  "ws_codec (emit s e) = ws_codec s" "ws_maxQueue (emit s e) = ws_maxQueue s"
  "ws_queue (next_key s) = ws_queue s" "ws_bufferedAmount (next_key s) = ws_bufferedAmount s"
  "ws_reassembler (next_key s) = ws_reassembler s" "ws_closeSentCode (next_key s) = ws_closeSentCode s"
  "ws_isServer (next_key s) = ws_isServer s" "ws_pingTimer (next_key s) = ws_pingTimer s"
  "ws_pongTimer (next_key s) = ws_pongTimer s" "ws_closeReceived (next_key s) = ws_closeReceived s"
  "ws_codec (next_key s) = ws_codec s" "ws_maxQueue (next_key s) = ws_maxQueue s"
  "ws_log (next_key s) = ws_log s"
  by (simp_all add: emit_def next_key_def)

lemma transmit_frame [session_simps]:
  "ws_queue (transmit s op p) = ws_queue s" "ws_bufferedAmount (transmit s op p) = ws_bufferedAmount s"
  "ws_reassembler (transmit s op p) = ws_reassembler s"
  "ws_closeSentCode (transmit s op p) = ws_closeSentCode s"
  "ws_isServer (transmit s op p) = ws_isServer s" "ws_pingTimer (transmit s op p) = ws_pingTimer s"
  "ws_pongTimer (transmit s op p) = ws_pongTimer s" "ws_closeReceived (transmit s op p) = ws_closeReceived s"
  "ws_codec (transmit s op p) = ws_codec s"
  "ws_log (transmit s op p) = ws_log s @ [Transport (session_frame s op p)]"
  by (simp_all add: transmit_def session_simps emit_def)

lemma setState_frame [session_simps]:
  "ws_queue (setState s st) = ws_queue s" "ws_bufferedAmount (setState s st) = ws_bufferedAmount s"
  "ws_reassembler (setState s st) = ws_reassembler s" "ws_closeSentCode (setState s st) = ws_closeSentCode s"
  "ws_isServer (setState s st) = ws_isServer s" "ws_pingTimer (setState s st) = ws_pingTimer s"
  "ws_pongTimer (setState s st) = ws_pongTimer s" "ws_closeReceived (setState s st) = ws_closeReceived s"
  "ws_codec (setState s st) = ws_codec s"
  "ws_log (setState s st) = (if ws_state s = st then ws_log s else ws_log s @ [OnStateChange st])"
  by (auto simp: setState_def emit_def)

lemma log_emit [session_simps]: "ws_log (emit s e) = ws_log s @ [e]"
  by (simp add: emit_def)

text \<open>The session's invariant between calls.\<close>

definition session_inv :: "ws_session \<Rightarrow> bool" where
  "session_inv s \<longleftrightarrow>
     ws_queue s = [] \<and> ws_bufferedAmount s = 0 \<and>
     (ws_state s = CLOSED \<longrightarrow> \<not> ws_pingTimer s \<and> \<not> ws_pongTimer s) \<and>
     (ws_state s = CLOSING \<longrightarrow> ws_closeSentCode s \<noteq> None) \<and> reassembler_inv (ws_reassembler s)"

lemma session_inv_new [simp]: "session_inv (new_session opts keys)"
  by (simp add: session_inv_def new_session_def)

lemma session_inv_transmit [simp]: "session_inv (transmit s op p) = session_inv s"
  by (simp add: session_inv_def session_simps)

lemma session_inv_emit [simp]: "session_inv (emit s e) = session_inv s"
  by (simp add: session_inv_def session_simps)

lemma session_inv_finishClose [simp]: "session_inv s \<Longrightarrow> session_inv (finishClose s)"
  by (simp add: session_inv_def session_simps finishClose_def) (simp add: disarmPongTimeout_def)

lemma session_inv_failConnection [simp]: "session_inv s \<Longrightarrow> session_inv (failConnection s err)"
  by (simp add: failConnection_def Let_def)

lemma session_inv_disarm [simp]: "session_inv s \<Longrightarrow> session_inv (disarmPongTimeout s)"
  by (auto simp: session_inv_def disarmPongTimeout_def)

lemma session_inv_handleEvent: "session_inv s \<Longrightarrow> session_inv (handleEvent now s ev)"
  by (cases ev) (auto simp: handleEvent_def Let_def session_inv_def session_simps finishClose_def disarmPongTimeout_def)

lemma session_inv_dispatch: "session_inv s \<Longrightarrow> session_inv (dispatch_frames now s frames)"
proof (induction frames arbitrary: s)
  case (Cons f frames)
  have *: "session_inv (s\<lparr>ws_reassembler := fst (push (ws_reassembler s) f)\<rparr>)"
    using Cons.prems by (simp add: session_inv_def push_inv)
  then show ?case
    using Cons.IH session_inv_handleEvent by (auto simp: Let_def split: prod.split sum.split option.split)
qed simp

lemma session_inv_receiveData: "session_inv s \<Longrightarrow> session_inv (receiveData now s chunk)"
proof -
  assume inv: "session_inv s"
  have "session_inv (s\<lparr>ws_codec := c\<rparr>)" for c
    using inv by (simp add: session_inv_def)
  then show ?thesis
    using inv session_inv_dispatch by (auto simp: receiveData_def split: prod.split sum.split)
qed

lemma flush_empty [simp]: "ws_queue s = [] \<Longrightarrow> flush s = s\<lparr>ws_queue := []\<rparr>"
  by (simp add: flush_def)

lemma enqueue_state:
  assumes "session_inv s"
  shows "enqueue now s w =
    (if length w > ws_maxQueue s
     then (emit (s\<lparr>ws_droppedMessages := ws_droppedMessages s + 1\<rparr>) (OnDrop w), False)
     else ((emit s (Transport w))\<lparr>ws_totalBytesSent := ws_totalBytesSent s + length w\<rparr>, True))"
  using assms by (simp add: enqueue_def flush_def session_inv_def emit_def)

lemma session_inv_sendMessage: "session_inv s \<Longrightarrow> session_inv (fst (sendMessage now s d b))"
proof -
  assume inv: "session_inv s"
  then have "session_inv (next_key s)"
    by (simp add: session_inv_def session_simps)
  with inv show ?thesis
    by (simp add: sendMessage_def enqueue_state) (auto simp: session_inv_def session_simps)
qed

lemma session_inv_ping: "session_inv s \<Longrightarrow> session_inv (ping now s body)"
  by (auto simp: ping_def Let_def session_inv_def session_simps armPongTimeout_def disarmPongTimeout_def)

lemma session_inv_close: "session_inv s \<Longrightarrow> session_inv (fst (close_session s code reason))"
  by (auto simp: close_session_def Let_def session_inv_def session_simps finishClose_def disarmPongTimeout_def)

lemma session_inv_open: "session_inv s \<Longrightarrow> session_inv (fst (open_session s))"
  by (auto simp: open_session_def Let_def session_inv_def session_simps scheduleNextPing_def)

lemma session_inv_pingTimer: "session_inv s \<Longrightarrow> session_inv (pingTimerFires now s)"
  by (auto simp: pingTimerFires_def Let_def ping_def session_inv_def session_simps armPongTimeout_def
      disarmPongTimeout_def scheduleNextPing_def)

lemma session_inv_pongTimer: "session_inv s \<Longrightarrow> session_inv (pongTimerFires s)"
proof -
  assume inv: "session_inv s"
  then have "session_inv (s\<lparr>ws_pongTimer := False\<rparr>)"
    by (auto simp: session_inv_def)
  with inv show ?thesis
    by (auto simp: pongTimerFires_def Let_def)
qed

lemma session_inv_transportEnded: "session_inv s \<Longrightarrow> session_inv (transportEnded s)"
  by (auto simp: transportEnded_def)

lemma session_inv_flush: "session_inv s \<Longrightarrow> session_inv (flush s)"
  by (auto simp: session_inv_def)

lemmas session_inv_ops =
  session_inv_open session_inv_receiveData session_inv_sendMessage session_inv_flush session_inv_ping
  session_inv_close session_inv_transportEnded session_inv_pingTimer session_inv_pongTimer

lemma session_inv_step: "session_inv s \<Longrightarrow> session_inv (session_step s e)"
  by (cases "(s, e)" rule: session_step.cases) (auto simp: session_inv_ops)

section \<open>Progress\<close>

text \<open>
  What every operation does to the lifecycle and the log: the state does not go back, the log
  grows, and once a close frame has been sent only control frames are handed to the transport.
\<close>

definition is_control_wire :: "byte list \<Rightarrow> bool" where
  "is_control_wire w \<longleftrightarrow> (case w of b0 # _ \<Rightarrow> isControlOpcode (unat (b0 AND 0x0f)) | [] \<Rightarrow> True)"

definition only_control :: "ws_effect list \<Rightarrow> bool" where
  "only_control effs \<longleftrightarrow> (\<forall>w. Transport w \<in> set effs \<longrightarrow> is_control_wire w)"

definition progress :: "ws_session \<Rightarrow> ws_session \<Rightarrow> bool" where
  "progress s t \<longleftrightarrow>
     ws_state s \<le> ws_state t \<and> ws_isServer t = ws_isServer s \<and>
     (\<exists>effs. ws_log t = ws_log s @ effs \<and> (CLOSING \<le> ws_state s \<longrightarrow> only_control effs))"

lemma progress_refl [simp, intro]: "progress s s"
  by (simp add: progress_def only_control_def)

lemma progress_trans [trans]: "progress s t \<Longrightarrow> progress t u \<Longrightarrow> progress s u"
  unfolding progress_def only_control_def by (auto dest: order_trans)

lemma progress_update [simp]:
  "progress s (t\<lparr>ws_reassembler := r\<rparr>) = progress s t" "progress s (t\<lparr>ws_codec := c\<rparr>) = progress s t"
  "progress s (t\<lparr>ws_closeReceived := b\<rparr>) = progress s t" "progress s (t\<lparr>ws_closeSentCode := k\<rparr>) = progress s t"
  "progress s (t\<lparr>ws_awaitingPong := b\<rparr>) = progress s t" "progress s (t\<lparr>ws_lastPingAt := i\<rparr>) = progress s t"
  "progress s (t\<lparr>ws_pingTimer := b\<rparr>) = progress s t" "progress s (t\<lparr>ws_pongTimer := b\<rparr>) = progress s t"
  "progress s (t\<lparr>ws_totalBytesSent := i\<rparr>) = progress s t" "progress s (t\<lparr>ws_droppedMessages := i\<rparr>) = progress s t"
  "progress s (t\<lparr>ws_queue := q\<rparr>) = progress s t" "progress s (next_key t) = progress s t"
  by (simp_all add: progress_def session_simps)

lemma session_frame_succeeds:
  "encode op p (masking (\<not> ws_isServer s)) (mask_key s) = Inr (session_frame s op p)"
proof -
  have "length (mask_key s) = 4"
    by (simp add: mask_key_def)
  then obtain w where "encode op p (masking (\<not> ws_isServer s)) (mask_key s) = Inr w"
    using encode_succeeds [of "masking (\<not> ws_isServer s)" "mask_key s" op p]
    by (auto simp: masking_def default_encode_def)
  then show ?thesis
    by (simp add: session_frame_def)
qed

lemma is_control_session_frame: "is_control_wire (session_frame s op p) \<longleftrightarrow> isControlOpcode (opcode_num op)"
  using encode_shape [OF session_frame_succeeds [of op p s]]
  by (simp add: is_control_wire_def header_byte0_bits)

lemma progress_emit: "progress s t \<Longrightarrow> \<forall>w. e \<noteq> Transport w \<Longrightarrow> progress s (emit t e)"
  unfolding progress_def only_control_def by (auto simp: session_simps)

lemma progress_transmit:
  "progress s t \<Longrightarrow> isControlOpcode (opcode_num op) \<or> ws_state s < CLOSING \<Longrightarrow> progress s (transmit t op p)"
  unfolding progress_def only_control_def by (auto simp: session_simps is_control_session_frame)

lemma progress_setState: "progress s t \<Longrightarrow> ws_state t \<le> st \<Longrightarrow> progress s (setState t st)"
proof (cases "ws_state t = st")
  case False
  assume p: "progress s t" and "ws_state t \<le> st"
  then have "progress s (t\<lparr>ws_state := st\<rparr>)"
    by (auto simp: progress_def dest: order_trans)
  then show ?thesis
    using False by (simp add: setState_def progress_emit)
qed (simp add: setState_def)

lemma progress_finishClose: "progress s t \<Longrightarrow> progress s (finishClose t)"
  by (simp add: finishClose_def disarmPongTimeout_def progress_setState)

lemma progress_failConnection: "progress s t \<Longrightarrow> progress s (failConnection t e)"
  by (auto simp: failConnection_def Let_def isControlOpcode_def
      intro!: progress_emit progress_finishClose progress_transmit)

lemmas progress_intros =
  progress_emit progress_transmit progress_setState progress_finishClose progress_failConnection

lemma progress_handleEvent: "progress s t \<Longrightarrow> progress s (handleEvent now t ev)"
  by (cases ev)
    (auto simp: handleEvent_def Let_def disarmPongTimeout_def isControlOpcode_def session_simps
      intro!: progress_intros)

lemma progress_dispatch: "progress s t \<Longrightarrow> progress s (dispatch_frames now t frames)"
proof (induction frames arbitrary: t)
  case (Cons f frames)
  obtain r res where p: "push (ws_reassembler t) f = (r, res)"
    by (cases "push (ws_reassembler t) f")
  have "progress s (t\<lparr>ws_reassembler := r\<rparr>)"
    using Cons.prems by simp
  with Cons.IH show ?case
    by (cases res) (auto simp: p Let_def progress_failConnection progress_handleEvent split: option.split)
qed simp

lemma progress_receiveData: "progress s (receiveData now s chunk)"
proof (cases "feed (ws_codec s) chunk")
  case (Pair c res)
  then show ?thesis
    by (cases res) (simp_all add: receiveData_def progress_failConnection progress_dispatch)
qed

lemma progress_sendMessage: "session_inv s \<Longrightarrow> progress s (fst (sendMessage now s d b))"
proof -
  assume inv: "session_inv s"
  then have "session_inv (next_key s)"
    by (simp add: session_inv_def session_simps)
  then show ?thesis
    by (auto simp: sendMessage_def enqueue_state) (auto simp: progress_def session_simps)
qed

lemma progress_open: "progress s (fst (open_session s))"
  by (auto simp: open_session_def Let_def scheduleNextPing_def intro!: progress_setState)

lemma progress_ping: "progress s t \<Longrightarrow> progress s (ping now t body)"
  by (auto simp: ping_def Let_def armPongTimeout_def disarmPongTimeout_def isControlOpcode_def
      intro!: progress_transmit)

lemma progress_close: "progress s (fst (close_session s code reason))"
  by (auto simp: close_session_def Let_def session_simps isControlOpcode_def intro!: progress_intros)

lemma progress_pingTimer: "progress s (pingTimerFires now s)"
  by (auto simp: pingTimerFires_def Let_def scheduleNextPing_def intro!: progress_ping)

lemma progress_pongTimer: "progress s (pongTimerFires s)"
  by (auto simp: pongTimerFires_def Let_def intro!: progress_failConnection)

lemma progress_transportEnded: "progress s (transportEnded s)"
  by (auto simp: transportEnded_def intro!: progress_finishClose progress_emit)

lemma progress_flush: "session_inv s \<Longrightarrow> progress s (flush s)"
  by (simp add: session_inv_def)

lemmas progress_ops =
  progress_open progress_receiveData progress_sendMessage progress_flush progress_ping [OF progress_refl]
  progress_close progress_transportEnded progress_pingTimer progress_pongTimer

lemma progress_step: "session_inv s \<Longrightarrow> progress s (session_step s e)"
  by (cases "(s, e)" rule: session_step.cases) (auto simp: progress_ops)

interpretation ws_life: lifecycle session_step session_inv ws_state
proof
  show "session_inv s \<Longrightarrow> session_inv (session_step s e)" for s e
    by (rule session_inv_step)
  show "session_inv s \<Longrightarrow> ws_state s \<le> ws_state (session_step s e)" for s e
    using progress_step by (simp add: progress_def)
qed

section \<open>One frame between two endpoints\<close>

text \<open>An open endpoint between two frames, with the codec its constructor makes.\<close>

definition idle_open :: "ws_session \<Rightarrow> bool" where
  "idle_open s \<longleftrightarrow>
     session_inv s \<and> ws_state s = OPEN \<and> fc_pending (ws_codec s) = [] \<and>
     fc_options (ws_codec s) = default_codec_options\<lparr>requireMask := ws_isServer s\<rparr> \<and>
     ra_messageOpcode (ws_reassembler s) = None \<and>
     \<not> ws_closeReceived s \<and> ws_closeSentCode s = None"

definition receives_from :: "ws_session \<Rightarrow> ws_session \<Rightarrow> bool" where
  "receives_from b a \<longleftrightarrow>
     (ws_isServer b \<longrightarrow> \<not> ws_isServer a) \<and> fc_pending (ws_codec b) = [] \<and>
     fc_options (ws_codec b) = default_codec_options\<lparr>requireMask := ws_isServer b\<rparr>"

lemma feed_session_frame:
  assumes "receives_from b a" and "length p \<le> 16 * 1024 * 1024"
    and "op \<in> {CLOSE, PING, PONG} \<Longrightarrow> length p \<le> 125"
  shows "\<exists>c f. feed (ws_codec b) (session_frame a op p) = (c, Inr [f]) \<and> fc_pending c = [] \<and>
    fc_options c = fc_options (ws_codec b) \<and> f_opcode f = op \<and> f_payload f = p \<and> f_fin f"
proof -
  let ?g = "\<lparr>s_opcode = op, s_payload = p, s_options = masking (\<not> ws_isServer a), s_key = mask_key a\<rparr>"
  have w: "ws_wire ?g = session_frame a op p"
    by (simp add: ws_wire_def session_frame_succeeds)
  have "\<exists>w. encode op p (masking (\<not> ws_isServer a)) (mask_key a) = Inr w"
    using session_frame_succeeds by blast
  moreover have "accepts (fc_options (ws_codec b)) op (length p) (masking (\<not> ws_isServer a))"
    using assms by (auto simp: accepts_def receives_from_def default_codec_options_def masking_def
        default_encode_def MAX_CONTROL_PAYLOAD_def)
  ultimately have "ws_sendable (fc_options (ws_codec b)) ?g"
    using assms(2) by (simp add: ws_sendable_def)
  then have "ws_drain (fc_options (ws_codec b)) (fc_pending (ws_codec b) @ session_frame a op p) =
      ((), [ws_reported ?g], [], None)"
    using ws_framing.drain_encode [of "fc_options (ws_codec b)" "()" "[?g]"] assms(1)
    by (simp add: w receives_from_def)
  from feed_drain [OF this] show ?thesis
    by (auto simp: ws_reported_def reported_frame_def masking_def default_encode_def)
qed

lemma parseCloseBody_roundtrip:
  assumes "isValidCloseCode code" and "\<forall>c \<in> set reason. is_scalar c" and "take 1 reason \<noteq> [0xFEFF]"
  shows "parseCloseBody (close_payload code reason) = Inr \<lparr>cb_code = code, cb_reason = reason\<rparr>"
proof -
  have "slice 0 2 (be_bytes 2 code @ utf8_encode reason) = be_bytes 2 code"
    using slice_middle [of "[]" 0 "be_bytes 2 code" 2] by simp
  moreover have "be_val (be_bytes 2 code) = code"
    using isValidCloseCode_bound [OF assms(1)] by (intro be_val_be_bytes_small) simp
  moreover have "length (be_bytes 2 code @ utf8_encode reason) \<noteq> 1"
    by simp
  ultimately show ?thesis
    using assms by (simp add: parseCloseBody_def close_payload_def text_decode_encode del: be_bytes.simps)
qed

lemma receive_control:
  assumes "receives_from b a" and "op \<in> {CLOSE, PING, PONG}" and "length p \<le> 125" and "ws_state b \<noteq> CLOSED"
    and "handleControl (frame\<lparr>f_opcode := op, f_payload := p\<rparr>) = Inr ev"
  shows "\<exists>c. receiveData now b (session_frame a op p) = handleEvent now (b\<lparr>ws_codec := c\<rparr>) ev \<and>
    fc_pending c = [] \<and> fc_options c = fc_options (ws_codec b)"
proof -
  obtain c f where f: "feed (ws_codec b) (session_frame a op p) = (c, Inr [f])" "fc_pending c = []"
    "fc_options c = fc_options (ws_codec b)" "f_opcode f = op" "f_payload f = p"
    using feed_session_frame [of b a p op] assms by auto
  have "handleControl f = Inr ev"
    using assms(2,5) f(4,5) by (auto simp: handleControl_def)
  then have "push (ws_reassembler b) f = (ws_reassembler b, Inr (Some ev))"
    using assms(2) f(4) by (auto simp: push_def isControlOpcode_num)
  moreover have "(b\<lparr>ws_codec := c\<rparr>)\<lparr>ws_reassembler := ws_reassembler b\<rparr> = b\<lparr>ws_codec := c\<rparr>"
    by simp
  ultimately have "receiveData now b (session_frame a op p) = handleEvent now (b\<lparr>ws_codec := c\<rparr>) ev"
    using assms(4) f(1) by (simp add: receiveData_def Let_def)
  with f show ?thesis by blast
qed

lemma length_encode: "encode op p eo key = Inr w \<Longrightarrow> length w \<le> 14 + length p"
  by (auto simp: encode_def Let_def applyMask_def length_bytes_def split: if_splits)

lemma length_session_frame: "length (session_frame s op p) \<le> 14 + length p"
  using session_frame_succeeds by (rule length_encode)

lemma receive_message:
  assumes "receives_from b a" and "idle_open b" and "op \<in> {TEXT, BINARY}"
    and "length p \<le> 16 * 1024 * 1024" and "op = TEXT \<longrightarrow> utf8_valid p"
  shows "\<exists>c. receiveData now b (session_frame a op p) =
      emit (b\<lparr>ws_codec := c\<rparr>) (OnMessage \<lparr>m_opcode = op, m_payload = p, m_fragmentCount = 1\<rparr>) \<and>
    fc_pending c = [] \<and> fc_options c = fc_options (ws_codec b)"
proof -
  obtain c f where f: "feed (ws_codec b) (session_frame a op p) = (c, Inr [f])" "fc_pending c = []"
    "fc_options c = fc_options (ws_codec b)" "f_opcode f = op" "f_payload f = p" "f_fin f"
    using feed_session_frame [of b a p op] assms by auto
  have "push (ws_reassembler b) f = (ws_reassembler b,
      Inr (Some (MessageEvent \<lparr>m_opcode = op, m_payload = p, m_fragmentCount = 1\<rparr>)))"
    using assms f by (auto simp: push_def isControlOpcode_def validateMessage_def idle_open_def)
  then show ?thesis
    using assms(2) f by (intro exI [of _ c]) (simp add: receiveData_def Let_def handleEvent_def idle_open_def emit_def)
qed

lemma receives_from_peer:
  "idle_open a \<Longrightarrow> idle_open b \<Longrightarrow> ws_isServer a \<noteq> ws_isServer b \<Longrightarrow> receives_from b a"
  by (auto simp: receives_from_def idle_open_def)

lemma idle_open_receive:
  "idle_open b \<Longrightarrow> fc_pending c = [] \<Longrightarrow> fc_options c = fc_options (ws_codec b) \<Longrightarrow>
     idle_open (emit (b\<lparr>ws_codec := c\<rparr>) eff) \<and> idle_open (transmit (b\<lparr>ws_codec := c\<rparr>) op p)"
  by (auto simp: idle_open_def session_inv_def session_simps)

section \<open>Properties\<close>

lemma session_inv_run: "session_inv (session_run (new_session options keys) es)"
  unfolding session_run_def by (rule ws_life.inv_run) simp

text \<open>
  A connection's lifecycle only moves forward: over any run of operations, timers and
  received bytes the state goes from CONNECTING through OPEN and CLOSING to CLOSED and never back.
\<close>

theorem session_lifecycle_forward:
  "ws_state (session_run (new_session options keys) es) \<le>
     ws_state (session_run (new_session options keys) (es @ es'))"
  using ws_life.phase_run [OF session_inv_run, of options keys es es'] by (simp add: session_run_def)

text \<open>
  A closed session is inert: no operation, timer or received byte changes anything or makes
  it send.
\<close>

theorem closed_session_inert:
  assumes "ws_state (session_run (new_session options keys) es) = CLOSED"
  shows "session_step (session_run (new_session options keys) es) e = session_run (new_session options keys) es"
  using session_inv_run [of options keys es] assms
  by (cases "(session_run (new_session options keys) es, e)" rule: session_step.cases)
    (auto simp: open_session_def receiveData_def sendMessage_def ping_def close_session_def
      transportEnded_def pingTimerFires_def pongTimerFires_def session_inv_def)

lemma progress_run: "session_inv s \<Longrightarrow> progress s (foldl session_step s es)"
proof (induction es arbitrary: s)
  case (Cons e es)
  then show ?case
    using progress_trans [OF progress_step Cons.IH] by (simp add: session_inv_step)
qed simp

definition sample_client :: ws_session where
  "sample_client = new_session \<lparr>so_isServer = None, so_highWaterMark = None, so_maxQueueBytes = None,
     so_pingIntervalMs = None, so_pongTimeoutMs = None, so_maxMessageBytes = None\<rparr> (\<lambda>_. 0)"

definition sample_server :: ws_session where
  "sample_server = new_session \<lparr>so_isServer = Some True, so_highWaterMark = None, so_maxQueueBytes = None,
     so_pingIntervalMs = None, so_pongTimeoutMs = None, so_maxMessageBytes = None\<rparr> (\<lambda>_. 0)"

lemmas sample_run =
  session_run_def sample_client_def sample_server_def open_session_def transportEnded_def Let_def new_session_def
  session_simps setState_def emit_def

theorem closed_session_inert_witness:
  "session_step (session_run sample_client [(0, Open), (5, TransportEnded)]) (7, Ping []) =
     session_run sample_client [(0, Open), (5, TransportEnded)]"
  unfolding sample_client_def
  by (rule closed_session_inert) (simp add: sample_run)

text \<open>
  Once the session has begun to close, it hands only control frames to the transport,
  never application data (RFC 6455 section 5.5.1).
\<close>

theorem no_data_after_close:
  assumes "CLOSING \<le> ws_state (session_run (new_session options keys) es)"
  shows "\<exists>effs. ws_log (session_run (new_session options keys) (es @ es')) =
      ws_log (session_run (new_session options keys) es) @ effs \<and> only_control effs"
  using progress_run [OF session_inv_run, of options keys es es'] assms
  by (auto simp: progress_def session_run_def)

theorem no_data_after_close_witness:
  "\<exists>effs. ws_log (session_run sample_client ([(0, Open), (5, Close 1000 [])] @ [(6, SendMessage (Str []) False)])) =
     ws_log (session_run sample_client [(0, Open), (5, Close 1000 [])]) @ effs \<and> only_control effs"
  unfolding sample_client_def
  by (rule no_data_after_close) (simp add: sample_run close_session_def)

text \<open>
  The outbound queue holds nothing between operations, so the reported \<open>bufferedAmount\<close> is
  always 0 and a session with a positive high-water mark never reports being over it.
\<close>

theorem backpressure_never_reported:
  "bp_bufferedAmount (getBackpressureStats (session_run (new_session options keys) es)) = 0 \<and>
   bp_queuedMessages (getBackpressureStats (session_run (new_session options keys) es)) = 0 \<and>
   (bp_overHighWaterMark (getBackpressureStats (session_run (new_session options keys) es)) \<longleftrightarrow>
      ws_highWater (session_run (new_session options keys) es) = 0)"
  using session_inv_run [of options keys es] by (simp add: getBackpressureStats_def session_inv_def)

text \<open>
  C8: the close handshake completes: when one open endpoint closes with a valid code and a reason of Unicode scalar values that fits
  and does not begin with U+FEFF (a decoder drops it there), the peer reports exactly that code and reason and ends CLOSED;
  what it sends back is the close frame of that code without a reason, encoded as the format has it and masked as its side
  has to, and the first endpoint reports that code and no reason, and ends CLOSED.
\<close>

theorem close_handshake_completes:
  assumes a: "idle_open a" and b: "idle_open b" and ab: "ws_isServer a \<noteq> ws_isServer b"
    and code: "isValidCloseCode code"
    and reason: "\<forall>c \<in> set reason. is_scalar c" "take 1 reason \<noteq> [0xFEFF]" "length (utf8_encode reason) \<le> 123"
  shows "\<exists>a' w b' w'.
    close_session a code reason = (a', True) \<and> ws_log a' = ws_log a @ [Transport w, OnStateChange CLOSING] \<and>
    receiveData now b w = b' \<and> ws_state b' = CLOSED \<and>
    ws_log b' = ws_log b @ [OnClose \<lparr>cb_code = code, cb_reason = reason\<rparr>, Transport w',
      OnStateChange CLOSING, OnStateChange CLOSED] \<and>
    encodeClose code [] (\<not> ws_isServer b) (mask_key b) = Inr w' \<and>
    ws_state (receiveData now' a' w') = CLOSED \<and>
    ws_log (receiveData now' a' w') = ws_log a' @ [OnClose \<lparr>cb_code = code, cb_reason = []\<rparr>, OnStateChange CLOSED]"
proof -
  define a' where "a' = fst (close_session a code reason)"
  define w where "w = session_frame (a\<lparr>ws_closeSentCode := Some code\<rparr>) CLOSE (close_payload code reason)"
  have bound: "code \<le> 0xffff"
    using isValidCloseCode_bound [OF code] by simp
  have a': "close_session a code reason = (a', True)" and state: "ws_state a' = CLOSING"
    and log: "ws_log a' = ws_log a @ [Transport w, OnStateChange CLOSING]"
    and keep: "ws_codec a' = ws_codec a" "ws_isServer a' = ws_isServer a" "ws_closeSentCode a' = Some code"
    using a bound by (simp_all add: a'_def close_session_def w_def idle_open_def Let_def session_simps)
  have "receives_from b (a\<lparr>ws_closeSentCode := Some code\<rparr>)"
    using b ab by (simp add: receives_from_def idle_open_def)
  moreover have "length (close_payload code reason) \<le> 125"
    using reason(3) by (simp add: close_payload_def)
  moreover have "handleControl (undefined\<lparr>f_opcode := CLOSE, f_payload := close_payload code reason\<rparr>) =
      Inr (CloseEvent \<lparr>cb_code = code, cb_reason = reason\<rparr>)"
    using parseCloseBody_roundtrip [OF code reason(1,2)] by (simp add: handleControl_def)
  ultimately obtain c where recv: "receiveData now b w =
      handleEvent now (b\<lparr>ws_codec := c\<rparr>) (CloseEvent \<lparr>cb_code = code, cb_reason = reason\<rparr>)"
    using receive_control [of b _ CLOSE] b unfolding w_def by (fastforce simp: idle_open_def)
  define sb where "sb = (emit (b\<lparr>ws_codec := c, ws_closeReceived := True\<rparr>)
      (OnClose \<lparr>cb_code = code, cb_reason = reason\<rparr>))\<lparr>ws_closeSentCode := Some code\<rparr>"
  define w' where "w' = session_frame sb CLOSE (close_payload code [])"
  have b': "ws_state (receiveData now b w) = CLOSED"
    "ws_log (receiveData now b w) = ws_log b @ [OnClose \<lparr>cb_code = code, cb_reason = reason\<rparr>, Transport w',
      OnStateChange CLOSING, OnStateChange CLOSED]"
    using b by (simp_all add: recv handleEvent_def Let_def idle_open_def session_simps finishClose_def
        disarmPongTimeout_def w'_def sb_def)
  have "receives_from a' sb"
    using a b ab keep by (simp add: receives_from_def idle_open_def sb_def session_simps)
  moreover have "handleControl (undefined\<lparr>f_opcode := CLOSE, f_payload := close_payload code []\<rparr>) =
      Inr (CloseEvent \<lparr>cb_code = code, cb_reason = []\<rparr>)"
    using parseCloseBody_roundtrip [OF code, of "[]"] by (simp add: handleControl_def)
  moreover have "length (close_payload code []) \<le> 125"
    by (simp add: close_payload_def utf8_encode_def)
  ultimately obtain c' where "receiveData now' a' w' =
      handleEvent now' (a'\<lparr>ws_codec := c'\<rparr>) (CloseEvent \<lparr>cb_code = code, cb_reason = []\<rparr>)"
    using receive_control [of a' sb CLOSE] state unfolding w'_def by fastforce
  then have "ws_state (receiveData now' a' w') = CLOSED"
    "ws_log (receiveData now' a' w') = ws_log a' @ [OnClose \<lparr>cb_code = code, cb_reason = []\<rparr>, OnStateChange CLOSED]"
    using state keep by (simp_all add: handleEvent_def Let_def session_simps finishClose_def disarmPongTimeout_def)
  moreover have "encodeClose code [] (\<not> ws_isServer b) (mask_key b) = Inr w'"
  proof -
    have same: "ws_isServer sb = ws_isServer b" "mask_key sb = mask_key b"
      by (simp_all add: sb_def session_simps mask_key_def emit_def)
    obtain x where "encode CLOSE (close_payload code []) (masking (\<not> ws_isServer b)) (mask_key b) = Inr x"
      using encode_succeeds [of "masking (\<not> ws_isServer b)" "mask_key b" CLOSE "close_payload code []"]
      by (auto simp: masking_def mask_key_def default_encode_def)
    then show ?thesis
      by (simp add: w'_def session_frame_def same encodeClose_def)
  qed
  ultimately show ?thesis
    using a' log b' by blast
qed

lemma idle_sample: "idle_open (fst (open_session sample_client))" "idle_open (fst (open_session sample_server))"
  by (simp_all add: idle_open_def session_inv_open sample_client_def sample_server_def)
    (simp_all add: open_session_def Let_def new_session_def setState_def emit_def new_frame_codec_def new_reassembler_def)

theorem close_handshake_completes_witness:
  "\<exists>a' w b' w'.
    close_session (fst (open_session sample_client)) 1000 [0x62] = (a', True) \<and>
    ws_log a' = ws_log (fst (open_session sample_client)) @ [Transport w, OnStateChange CLOSING] \<and>
    receiveData 3 (fst (open_session sample_server)) w = b' \<and> ws_state b' = CLOSED \<and>
    ws_log b' = ws_log (fst (open_session sample_server)) @ [OnClose \<lparr>cb_code = 1000, cb_reason = [0x62]\<rparr>,
      Transport w', OnStateChange CLOSING, OnStateChange CLOSED] \<and>
    encodeClose 1000 [] (\<not> ws_isServer (fst (open_session sample_server))) (mask_key (fst (open_session sample_server))) = Inr w' \<and>
    ws_state (receiveData 4 a' w') = CLOSED \<and>
    ws_log (receiveData 4 a' w') = ws_log a' @ [OnClose \<lparr>cb_code = 1000, cb_reason = []\<rparr>, OnStateChange CLOSED]"
  using idle_sample
  by (rule close_handshake_completes)
    (simp_all add: sample_run isValidCloseCode_def is_scalar_def utf8_encode_def utf8_encode1_def)

text \<open>
  A message sent over an open connection is delivered once and unchanged: \<open>sendMessage\<close>
  hands one frame to the transport, the peer that receives it reports the same opcode and bytes,
  and both endpoints are ready for the next message.
\<close>

theorem message_delivered:
  assumes a: "idle_open a" and b: "idle_open b" and ab: "ws_isServer a \<noteq> ws_isServer b"
    and "binary \<or> utf8_valid (data_bytes d)" and "length (data_bytes d) \<le> 16 * 1024 * 1024"
    and "14 + length (data_bytes d) \<le> ws_maxQueue a"
  shows "\<exists>a' w. sendMessage now a d binary = (a', True) \<and> ws_log a' = ws_log a @ [Transport w] \<and>
    ws_log (receiveData now' b w) = ws_log b @ [OnMessage \<lparr>m_opcode = (if binary then BINARY else TEXT),
      m_payload = data_bytes d, m_fragmentCount = 1\<rparr>] \<and>
    idle_open a' \<and> idle_open (receiveData now' b w)"
proof -
  define op where "op = (if binary then BINARY else TEXT)"
  define w where "w = session_frame a op (data_bytes d)"
  define a' where "a' = (emit (next_key a) (Transport w))\<lparr>ws_totalBytesSent := ws_totalBytesSent a + length w\<rparr>"
  have "session_inv (next_key a)" and total: "ws_totalBytesSent (next_key a) = ws_totalBytesSent a"
    using a by (simp_all add: idle_open_def session_inv_def session_simps next_key_def)
  then have send: "sendMessage now a d binary = (a', True)"
    using a assms(6) length_session_frame [of a op "data_bytes d"]
    by (simp add: sendMessage_def enqueue_state session_simps w_def a'_def op_def idle_open_def)
  have "idle_open a'"
    using a by (auto simp: a'_def idle_open_def session_inv_def session_simps)
  moreover obtain c where "receiveData now' b w =
      emit (b\<lparr>ws_codec := c\<rparr>) (OnMessage \<lparr>m_opcode = op, m_payload = data_bytes d, m_fragmentCount = 1\<rparr>)"
    "fc_pending c = []" "fc_options c = fc_options (ws_codec b)"
    using receive_message [OF receives_from_peer [OF a b ab] b, of op "data_bytes d" now'] assms(4,5)
    unfolding w_def by (cases binary) (auto simp: op_def)
  ultimately show ?thesis
    using send idle_open_receive [OF b] by (auto simp: a'_def op_def session_simps)
qed

theorem message_delivered_witness:
  "\<exists>a' w. sendMessage 1 (fst (open_session sample_client)) (Str [0x62]) False = (a', True) \<and>
    ws_log a' = ws_log (fst (open_session sample_client)) @ [Transport w] \<and>
    ws_log (receiveData 2 (fst (open_session sample_server)) w) = ws_log (fst (open_session sample_server)) @
      [OnMessage \<lparr>m_opcode = TEXT, m_payload = [0x62], m_fragmentCount = 1\<rparr>]"
proof -
  have bytes: "data_bytes (Str [0x62]) = [0x62]"
    by (simp add: data_bytes_def utf8_encode_def utf8_encode1_def)
  have "utf8_valid [0x62]"
    using utf8_valid_encode [of "[0x62]"] by (simp add: utf8_encode_def utf8_encode1_def is_scalar_def)
  moreover have "ws_isServer (fst (open_session sample_client)) \<noteq> ws_isServer (fst (open_session sample_server))"
    and "20 \<le> ws_maxQueue (fst (open_session sample_client))"
    by (simp_all add: sample_run)
  ultimately show ?thesis
    using message_delivered [OF idle_sample, of False "Str [0x62]" 1 2] by (auto simp: bytes)
qed

text \<open>
  A ping comes back: the peer answers it at once with a pong carrying the same body, and
  the pong is reported with the time since the ping was sent.
\<close>

theorem ping_answered:
  assumes a: "idle_open a" and b: "idle_open b" and ab: "ws_isServer a \<noteq> ws_isServer b" and "length body \<le> 125"
  shows "\<exists>w w'. ws_log (ping now a body) = ws_log a @ [Transport w] \<and>
    ws_log (receiveData now' b w) = ws_log b @ [Transport w'] \<and>
    ws_log (receiveData now'' (ping now a body) w') =
      ws_log (ping now a body) @ [OnPong body (Some (int now'' - int now))] \<and>
    \<not> ws_pongTimer (receiveData now'' (ping now a body) w')"
proof -
  define a0 where "a0 = a\<lparr>ws_lastPingAt := now, ws_awaitingPong := True\<rparr>"
  define w where "w = session_frame a0 PING body"
  have log: "ws_log (ping now a body) = ws_log a @ [Transport w]"
    using a by (simp add: ping_def Let_def idle_open_def session_simps armPongTimeout_def disarmPongTimeout_def
        w_def a0_def)
  have from_a: "receives_from b a0" and from_b: "receives_from (ping now a body) (b\<lparr>ws_codec := c\<rparr>)" for c
    using a b ab by (auto simp: receives_from_def idle_open_def a0_def ping_def Let_def session_simps
        armPongTimeout_def disarmPongTimeout_def)
  obtain c where recv: "receiveData now' b w = handleEvent now' (b\<lparr>ws_codec := c\<rparr>) (PingEvent body)"
    using receive_control [OF from_a, of PING body _ "PingEvent body" now'] b assms(4)
    by (auto simp: w_def idle_open_def handleControl_def)
  let ?w' = "session_frame (b\<lparr>ws_codec := c\<rparr>) PONG body"
  have "ws_log (receiveData now' b w) = ws_log b @ [Transport ?w']"
    using b by (simp add: recv handleEvent_def idle_open_def session_simps)
  moreover have awaiting: "ws_state (ping now a body) = OPEN" "ws_awaitingPong (ping now a body)"
    "ws_lastPingAt (ping now a body) = now"
    using a by (simp_all add: idle_open_def ping_def Let_def session_simps armPongTimeout_def
        disarmPongTimeout_def transmit_def emit_def next_key_def)
  moreover obtain c' where "receiveData now'' (ping now a body) ?w' =
      handleEvent now'' ((ping now a body)\<lparr>ws_codec := c'\<rparr>) (PongEvent body)"
    using receive_control [OF from_b, of PONG body _ "PongEvent body" now''] assms(4) awaiting(1)
    by (auto simp: handleControl_def)
  ultimately show ?thesis
    using log by (intro exI conjI) (assumption+, simp_all add: handleEvent_def session_simps disarmPongTimeout_def
        emit_def)
qed

theorem ping_answered_witness:
  "\<exists>w w'. ws_log (ping 1 (fst (open_session sample_client)) [7]) =
      ws_log (fst (open_session sample_client)) @ [Transport w] \<and>
    ws_log (receiveData 2 (fst (open_session sample_server)) w) =
      ws_log (fst (open_session sample_server)) @ [Transport w'] \<and>
    ws_log (receiveData 5 (ping 1 (fst (open_session sample_client)) [7]) w') =
      ws_log (ping 1 (fst (open_session sample_client)) [7]) @ [OnPong [7] (Some 4)]"
  using ping_answered [OF idle_sample, of "[7]" 1 2 5] by (auto simp: sample_run)

text \<open>
  A close without a body is echoed with the reserved code 1005: the endpoint puts on the
  wire a code that its own parser, as RFC 6455 section 7.4.1 demands, rejects.
\<close>

theorem close_echo_reserved_code:
  assumes a: "idle_open a" and b: "idle_open b" and ab: "ws_isServer a \<noteq> ws_isServer b"
  shows "(\<exists>sb. ws_log (receiveData now b (session_frame a CLOSE [])) =
      ws_log b @ [OnClose \<lparr>cb_code = 1005, cb_reason = []\<rparr>,
        Transport (session_frame sb CLOSE (close_payload 1005 [])), OnStateChange CLOSING, OnStateChange CLOSED]) \<and>
    parseCloseBody (close_payload 1005 []) = Inl (WsProtocolError (InvalidCloseCode 1005) (close_num PROTOCOL_ERROR))"
proof (rule conjI)
  have "handleControl (undefined\<lparr>f_opcode := CLOSE, f_payload := []\<rparr>) =
      Inr (CloseEvent \<lparr>cb_code = 1005, cb_reason = []\<rparr>)"
    by (simp add: handleControl_def parseCloseBody_def)
  then obtain c where recv: "receiveData now b (session_frame a CLOSE []) =
      handleEvent now (b\<lparr>ws_codec := c\<rparr>) (CloseEvent \<lparr>cb_code = 1005, cb_reason = []\<rparr>)"
    using receive_control [OF receives_from_peer [OF a b ab], of CLOSE "[]"] b by (fastforce simp: idle_open_def)
  show "\<exists>sb. ws_log (receiveData now b (session_frame a CLOSE [])) =
      ws_log b @ [OnClose \<lparr>cb_code = 1005, cb_reason = []\<rparr>,
        Transport (session_frame sb CLOSE (close_payload 1005 [])), OnStateChange CLOSING, OnStateChange CLOSED]"
    using b by (intro exI) (simp add: recv handleEvent_def Let_def idle_open_def session_simps finishClose_def
        disarmPongTimeout_def)
  have "be_val (be_bytes 2 1005) = 1005"
    by (intro be_val_be_bytes_small) simp
  moreover have "length (be_bytes 2 1005) = 2"
    by simp
  ultimately show "parseCloseBody (close_payload 1005 []) =
      Inl (WsProtocolError (InvalidCloseCode 1005) (close_num PROTOCOL_ERROR))"
    by (simp add: parseCloseBody_def close_payload_def slice_def utf8_encode_def isValidCloseCode_def
        del: be_bytes.simps)
qed

theorem close_echo_reserved_code_witness:
  "\<exists>sb. ws_log (receiveData 9 (fst (open_session sample_server)) (session_frame (fst (open_session sample_client)) CLOSE [])) =
      ws_log (fst (open_session sample_server)) @ [OnClose \<lparr>cb_code = 1005, cb_reason = []\<rparr>,
        Transport (session_frame sb CLOSE (close_payload 1005 [])), OnStateChange CLOSING, OnStateChange CLOSED]"
  using close_echo_reserved_code [OF idle_sample] by (simp add: sample_run)

end
