(* ===== verification/JsJson.thy ===== *)
theory JsJson
  imports Utf8
begin

text \<open>
  What the application uses of \<open>JSON.stringify\<close> and \<open>Buffer.from(text)\<close>: JSON values, their compact
  text with the escapes of the ECMAScript standard (\<open>QuoteJSONString\<close>: control characters, quote,
  backslash and lone surrogates), and the UTF-8 bytes of a string, lone surrogates replaced.
\<close>

datatype json =
    JNull
  | JBool bool
  | JNum int
  | JStr jstring
  | JArr "json list"
  | JObj "(jstring \<times> json) list"

definition hex_digit :: "nat \<Rightarrow> 16 word" where
  "hex_digit n = word_of_nat (if n < 10 then 48 + n else 87 + n)"

definition unicode_escape :: "16 word \<Rightarrow> jstring" where
  "unicode_escape c =
     (let n = unat c in
      js (CHR 0x5C # ''u'') @ map hex_digit [n div 4096, n div 256 mod 16, n div 16 mod 16, n mod 16])"

definition high_surrogate :: "16 word \<Rightarrow> bool" where
  "high_surrogate c \<longleftrightarrow> 0xd800 \<le> c \<and> c \<le> 0xdbff"

definition low_surrogate :: "16 word \<Rightarrow> bool" where
  "low_surrogate c \<longleftrightarrow> 0xdc00 \<le> c \<and> c \<le> 0xdfff"

definition escape_unit :: "16 word \<Rightarrow> jstring" where
  "escape_unit c =
     (if c = 0x22 then [0x5c, 0x22]
      else if c = 0x5c then [0x5c, 0x5c]
      else if c = 8 then js (CHR 0x5C # ''b'')
      else if c = 12 then js (CHR 0x5C # ''f'')
      else if c = 10 then js (CHR 0x5C # ''n'')
      else if c = 13 then js (CHR 0x5C # ''r'')
      else if c = 9 then js (CHR 0x5C # ''t'')
      else if c < 0x20 \<or> high_surrogate c \<or> low_surrogate c then unicode_escape c
      else [c])"

fun escape_text :: "jstring \<Rightarrow> jstring" where
  "escape_text [] = []"
| "escape_text [c] = escape_unit c"
| "escape_text (c # d # rest) =
     (if high_surrogate c \<and> low_surrogate d then c # d # escape_text rest
      else escape_unit c @ escape_text (d # rest))"

definition quote :: "jstring \<Rightarrow> jstring" where
  "quote s = [0x22] @ escape_text s @ [0x22]"

fun commas :: "jstring list \<Rightarrow> jstring" where
  "commas [] = []"
| "commas [x] = x"
| "commas (x # y # xs) = x @ js '','' @ commas (y # xs)"

fun stringify :: "json \<Rightarrow> jstring" where
  "stringify JNull = js ''null''"
| "stringify (JBool b) = (if b then js ''true'' else js ''false'')"
| "stringify (JNum n) = (if n < 0 then js ''-'' @ js_nat (nat (- n)) else js_nat (nat n))"
| "stringify (JStr s) = quote s"
| "stringify (JArr xs) = js ''['' @ commas (map stringify xs) @ js '']''"
| "stringify (JObj kvs) = js ''{'' @ commas (map (\<lambda>(k, v). quote k @ js '':'' @ stringify v) kvs) @ js ''}''"

text \<open>UTF-16 code units to scalar values; a lone surrogate becomes U+FFFD.\<close>

fun codepoints :: "jstring \<Rightarrow> codepoint list" where
  "codepoints [] = []"
| "codepoints (c # rest) =
     (if high_surrogate c then
        (case rest of
           d # rest' \<Rightarrow>
             if low_surrogate d then (0x10000 + (unat c - 0xd800) * 1024 + (unat d - 0xdc00)) # codepoints rest'
             else 0xfffd # codepoints rest
         | [] \<Rightarrow> [0xfffd])
      else if low_surrogate c then 0xfffd # codepoints rest
      else unat c # codepoints rest)"

definition buffer_from :: "jstring \<Rightarrow> byte list" where
  "buffer_from s = utf8_encode (codepoints s)"

lemma codepoints_scalar: "\<forall>c \<in> set (codepoints s). is_scalar c"
proof (induction s rule: codepoints.induct)
  case (2 c rest)
  have high: "unat c - 0xd800 < 0x400" if "high_surrogate c"
    using that by (simp add: high_surrogate_def word_le_nat_alt) linarith
  have low: "unat d - 0xdc00 < 0x400" if "low_surrogate d" for d :: "16 word"
    using that by (simp add: low_surrogate_def word_le_nat_alt) linarith
  have bmp: "is_scalar (unat c)" if "\<not> high_surrogate c" "\<not> low_surrogate c"
    using that unsigned_less [of c, where 'a = nat] by (auto simp: is_scalar_def high_surrogate_def low_surrogate_def word_le_nat_alt)
  have pair: "is_scalar (0x10000 + h * 1024 + l)" if "h < 0x400" "l < 0x400" for h l
    using that by (simp add: is_scalar_def)
  have replaced: "is_scalar 0xfffd"
    by (simp add: is_scalar_def)
  show ?case
  proof (cases "high_surrogate c")
    case True
    show ?thesis
    proof (cases rest)
      case Nil
      with True replaced show ?thesis by simp
    next
      case (Cons d rest')
      have "is_scalar (0x10000 + (unat c - 0xd800) * 1024 + (unat d - 0xdc00))" if "low_surrogate d"
        by (rule pair [OF high [OF True] low [OF that]])
      then show ?thesis
        using "2.IH"(1,2) [OF True Cons] True Cons replaced by (cases "low_surrogate d") simp_all
    qed
  next
    case False
    then show ?thesis
      using "2.IH"(3,4) [OF False] bmp replaced by (cases "low_surrogate c") simp_all
  qed
qed simp

text \<open>The bytes of a text are well-formed UTF-8 and decode to the text's scalar values.\<close>

lemma buffer_from_decodes: "utf8_decode (buffer_from s) = Some (codepoints s)"
  unfolding buffer_from_def by (rule utf8_decode_encode [OF codepoints_scalar])

lemma codepoints_ascii: "\<forall>c \<in> set s. c < 0x80 \<Longrightarrow> codepoints s = map unat s"
proof (induction s)
  case (Cons c s)
  then have "unat c < 0x80"
    by (simp add: word_less_nat_alt)
  with Cons show ?case
    by (simp add: high_surrogate_def low_surrogate_def word_le_nat_alt)
qed simp

end
