(* ===== verification/WsRooms.thy ===== *)
theory WsRooms
  imports Interfaces JsJson
begin

text \<open>
  Rooms of the WebSocket server (\<open>websocket/server/RoomManager.ts\<close>): two indexes, members by room
  and rooms by connection, joins and leaves with their caps, and the fan-out of a message. The
  injected \<open>send\<close> may call the manager back and may act on the world outside, so it is a function on
  the pair of both; \<open>None\<close> is a send that throws.
\<close>

section \<open>State\<close>

type_synonym conn_id = jstring
type_synonym room_name = jstring

datatype room_payload = BufferPayload "byte list" | TextPayload jstring

record room_broadcast =
  rb_payload :: room_payload
  rb_binary :: "bool option"
  rb_exclude :: "conn_id jset option"

record broadcast_receipt =
  br_room :: room_name
  br_delivered :: nat
  br_excluded :: nat
  br_failed :: nat
  br_membershipSize :: nat

record room_options =
  ro_maxRoomSize :: "int option"
  ro_maxRooms :: "int option"

datatype join_rejection = ROOM_FULL | TOO_MANY_ROOMS

datatype room_error = JoinRejectedError join_rejection room_name

text \<open>The caps are \<open>None\<close> for \<open>Number.POSITIVE_INFINITY\<close>.\<close>

record room_manager =
  rm_rooms :: "(room_name, conn_id jset) jmap"
  rm_memberships :: "(conn_id, room_name jset) jmap"
  rm_maxRoomSize :: "int option"
  rm_maxRooms :: "int option"
  rm_joins :: nat
  rm_leaves :: nat
  rm_broadcasts :: nat
  rm_delivered :: nat
  rm_failedDeliveries :: nat

type_synonym 'w room_world = "room_manager \<times> 'w"
type_synonym 'w room_send = "'w room_world \<Rightarrow> conn_id \<Rightarrow> room_payload \<Rightarrow> bool \<Rightarrow> 'w room_world \<times> bool option"

definition new_room_manager :: "room_options \<Rightarrow> room_manager" where
  "new_room_manager options =
     \<lparr>rm_rooms = jmap_empty, rm_memberships = jmap_empty, rm_maxRoomSize = ro_maxRoomSize options,
      rm_maxRooms = ro_maxRooms options, rm_joins = 0, rm_leaves = 0, rm_broadcasts = 0, rm_delivered = 0,
      rm_failedDeliveries = 0\<rparr>"

definition at_cap :: "nat \<Rightarrow> int option \<Rightarrow> bool" where
  "at_cap n cap = (case cap of None \<Rightarrow> False | Some k \<Rightarrow> int n \<ge> k)"

section \<open>Queries\<close>

definition roomCount :: "room_manager \<Rightarrow> nat" where
  "roomCount m = length (rm_rooms m)"

definition roomNames :: "room_manager \<Rightarrow> room_name list" where
  "roomNames m = jmap_keys (rm_rooms m)"

definition roomSizes :: "room_manager \<Rightarrow> (room_name, nat) jmap" where
  "roomSizes m = foldl (\<lambda>out (name, members). jmap_set name (length members) out) jmap_empty (rm_rooms m)"

definition members :: "room_manager \<Rightarrow> room_name \<Rightarrow> conn_id list" where
  "members m room = (case jmap_get (rm_rooms m) room of Some ms \<Rightarrow> ms | None \<Rightarrow> [])"

definition roomsOf :: "room_manager \<Rightarrow> conn_id \<Rightarrow> room_name list" where
  "roomsOf m conn = (case jmap_get (rm_memberships m) conn of Some rs \<Rightarrow> rs | None \<Rightarrow> [])"

definition isMember :: "room_manager \<Rightarrow> room_name \<Rightarrow> conn_id \<Rightarrow> bool" where
  "isMember m room conn = (case jmap_get (rm_rooms m) room of Some ms \<Rightarrow> jset_has ms conn | None \<Rightarrow> False)"

definition memberCount :: "room_manager \<Rightarrow> room_name \<Rightarrow> nat" where
  "memberCount m room = (case jmap_get (rm_rooms m) room of Some ms \<Rightarrow> length ms | None \<Rightarrow> 0)"

definition room_counters :: "room_manager \<Rightarrow> nat \<times> nat \<times> nat \<times> nat \<times> nat" where
  "room_counters m = (rm_joins m, rm_leaves m, rm_broadcasts m, rm_delivered m, rm_failedDeliveries m)"

section \<open>Membership\<close>

text \<open>\<open>join\<close> puts a new room's empty set into the map before it checks the room's size.\<close>

definition join :: "room_name \<Rightarrow> conn_id \<Rightarrow> room_manager \<Rightarrow> room_manager \<times> (room_error + bool)" where
  "join room conn m =
     (let found = jmap_get (rm_rooms m) room in
      if (case found of Some ms \<Rightarrow> jset_has ms conn | None \<Rightarrow> False) then (m, Inr False)
      else if found = None \<and> at_cap (length (rm_rooms m)) (rm_maxRooms m)
      then (m, Inl (JoinRejectedError TOO_MANY_ROOMS room))
      else
        let ms = (case found of Some ms \<Rightarrow> ms | None \<Rightarrow> []);
            m = (if found = None then m\<lparr>rm_rooms := jmap_set room ms (rm_rooms m)\<rparr> else m)
        in
        if at_cap (length ms) (rm_maxRoomSize m) then (m, Inl (JoinRejectedError ROOM_FULL room))
        else
          let m = m\<lparr>rm_rooms := jmap_set room (jset_add conn ms) (rm_rooms m)\<rparr>;
              rs = (case jmap_get (rm_memberships m) conn of Some rs \<Rightarrow> rs | None \<Rightarrow> []);
              m = m\<lparr>rm_memberships := jmap_set conn (jset_add room rs) (rm_memberships m)\<rparr>
          in (m\<lparr>rm_joins := rm_joins m + 1\<rparr>, Inr True))"

definition leave :: "room_name \<Rightarrow> conn_id \<Rightarrow> room_manager \<Rightarrow> room_manager \<times> bool" where
  "leave room conn m =
     (case jmap_get (rm_rooms m) room of
        None \<Rightarrow> (m, False)
      | Some ms \<Rightarrow>
          if \<not> jset_has ms conn then (m, False)
          else
            let ms = jset_delete conn ms;
                m = m\<lparr>rm_rooms := (if length ms = 0 then jmap_delete room (rm_rooms m) else jmap_set room ms (rm_rooms m))\<rparr>;
                m = (case jmap_get (rm_memberships m) conn of
                       None \<Rightarrow> m
                     | Some rs \<Rightarrow>
                         let rs = jset_delete room rs in
                         m\<lparr>rm_memberships := (if length rs = 0 then jmap_delete conn (rm_memberships m)
                                              else jmap_set conn rs (rm_memberships m))\<rparr>)
            in (m\<lparr>rm_leaves := rm_leaves m + 1\<rparr>, True))"

fun leave_rooms :: "conn_id \<Rightarrow> room_name list \<Rightarrow> room_manager \<Rightarrow> room_manager \<times> room_name list" where
  "leave_rooms conn [] m = (m, [])"
| "leave_rooms conn (room # rooms) m =
     (let (m, gone) = leave room conn m;
          (m, left) = leave_rooms conn rooms m
      in (m, if gone then room # left else left))"

definition leaveAll :: "conn_id \<Rightarrow> room_manager \<Rightarrow> room_manager \<times> room_name list" where
  "leaveAll conn m =
     (case jmap_get (rm_memberships m) conn of None \<Rightarrow> (m, []) | Some rs \<Rightarrow> leave_rooms conn rs m)"

section \<open>Fan-out\<close>

definition is_excluded :: "room_broadcast \<Rightarrow> conn_id \<Rightarrow> bool" where
  "is_excluded bc conn = (case rb_exclude bc of Some ex \<Rightarrow> jset_has ex conn | None \<Rightarrow> False)"

definition send_one :: "'w room_send \<Rightarrow> room_broadcast \<Rightarrow> conn_id \<Rightarrow> 'w room_world \<Rightarrow> 'w room_world \<times> bool" where
  "send_one send bc conn w =
     (let (w, result) = send w conn (rb_payload bc) (case rb_binary bc of Some b \<Rightarrow> b | None \<Rightarrow> False)
      in (w, case result of Some ok \<Rightarrow> ok | None \<Rightarrow> False))"

text \<open>The loop over the snapshot; the counts are \<open>delivered\<close>, \<open>excluded\<close> and \<open>failed\<close>.\<close>

fun fan_out ::
  "'w room_send \<Rightarrow> room_broadcast \<Rightarrow> conn_id list \<Rightarrow> 'w room_world \<Rightarrow> nat \<times> nat \<times> nat \<Rightarrow>
     'w room_world \<times> nat \<times> nat \<times> nat" where
  "fan_out send bc [] w counts = (w, counts)"
| "fan_out send bc (conn # conns) w (d, e, f) =
     (if is_excluded bc conn then fan_out send bc conns w (d, e + 1, f)
      else
        let (w, ok) = send_one send bc conn w
        in fan_out send bc conns w (if ok then (d + 1, e, f) else (d, e, f + 1)))"

definition count_broadcast :: "nat \<Rightarrow> nat \<Rightarrow> room_manager \<Rightarrow> room_manager" where
  "count_broadcast delivered failed m =
     m\<lparr>rm_broadcasts := rm_broadcasts m + 1, rm_delivered := rm_delivered m + delivered,
       rm_failedDeliveries := rm_failedDeliveries m + failed\<rparr>"

definition broadcast ::
  "'w room_send \<Rightarrow> room_name \<Rightarrow> room_broadcast \<Rightarrow> 'w room_world \<Rightarrow> 'w room_world \<times> broadcast_receipt" where
  "broadcast send room bc w =
     (case jmap_get (rm_rooms (fst w)) room of
        None \<Rightarrow> (w, \<lparr>br_room = room, br_delivered = 0, br_excluded = 0, br_failed = 0, br_membershipSize = 0\<rparr>)
      | Some ms \<Rightarrow>
          let ((m, out), d, e, f) = fan_out send bc ms w (0, 0, 0)
          in ((count_broadcast d f m, out),
              \<lparr>br_room = room, br_delivered = d, br_excluded = e, br_failed = f, br_membershipSize = d + e + f\<rparr>))"

text \<open>\<open>broadcastMany\<close>: the counts and, first, the connections seen and the memberships passed.\<close>

type_synonym many_counts = "conn_id jset \<times> nat \<times> nat \<times> nat \<times> nat"

fun fan_out_unseen ::
  "'w room_send \<Rightarrow> room_broadcast \<Rightarrow> conn_id list \<Rightarrow> 'w room_world \<Rightarrow> many_counts \<Rightarrow> 'w room_world \<times> many_counts" where
  "fan_out_unseen send bc [] w counts = (w, counts)"
| "fan_out_unseen send bc (conn # conns) w (seen, n, d, e, f) =
     (if jset_has seen conn then fan_out_unseen send bc conns w (seen, n + 1, d, e, f)
      else if is_excluded bc conn then fan_out_unseen send bc conns w (jset_add conn seen, n + 1, d, e + 1, f)
      else
        let (w, ok) = send_one send bc conn w
        in fan_out_unseen send bc conns w
             (if ok then (jset_add conn seen, n + 1, d + 1, e, f) else (jset_add conn seen, n + 1, d, e, f + 1)))"

fun fan_out_rooms ::
  "'w room_send \<Rightarrow> room_broadcast \<Rightarrow> room_name list \<Rightarrow> 'w room_world \<Rightarrow> many_counts \<Rightarrow> 'w room_world \<times> many_counts" where
  "fan_out_rooms send bc [] w counts = (w, counts)"
| "fan_out_rooms send bc (room # rooms) w counts =
     (case jmap_get (rm_rooms (fst w)) room of
        None \<Rightarrow> fan_out_rooms send bc rooms w counts
      | Some ms \<Rightarrow>
          let (w, counts) = fan_out_unseen send bc ms w counts in fan_out_rooms send bc rooms w counts)"

definition broadcastMany ::
  "'w room_send \<Rightarrow> room_name list \<Rightarrow> room_broadcast \<Rightarrow> 'w room_world \<Rightarrow> 'w room_world \<times> broadcast_receipt" where
  "broadcastMany send rooms bc w =
     (let ((m, out), seen, n, d, e, f) = fan_out_rooms send bc rooms w ([], 0, 0, 0, 0)
      in ((count_broadcast d f m, out),
          \<lparr>br_room = commas rooms, br_delivered = d, br_excluded = e, br_failed = f, br_membershipSize = n\<rparr>))"

section \<open>The two indexes\<close>

definition member_rel :: "room_manager \<Rightarrow> (room_name \<times> conn_id) set" where
  "member_rel m = {(r, c). isMember m r c}"

text \<open>The indexes agree, hold every element once, and neither keeps an empty set.\<close>

definition rooms_ok :: "room_manager \<Rightarrow> bool" where
  "rooms_ok m \<longleftrightarrow> jmap_wf (rm_rooms m) \<and> jmap_wf (rm_memberships m)
     \<and> (\<forall>r ms. jmap_get (rm_rooms m) r = Some ms \<longrightarrow> distinct ms \<and> ms \<noteq> [])
     \<and> (\<forall>c rs. jmap_get (rm_memberships m) c = Some rs \<longrightarrow> distinct rs \<and> rs \<noteq> [])
     \<and> (\<forall>r c. r \<in> set (roomsOf m c) \<longleftrightarrow> isMember m r c)"

definition cap_positive :: "int option \<Rightarrow> bool" where
  "cap_positive cap = (case cap of None \<Rightarrow> True | Some k \<Rightarrow> 1 \<le> k)"

lemma cap_positive_0 [simp]: "cap_positive cap \<Longrightarrow> \<not> at_cap 0 cap"
  by (auto simp: cap_positive_def at_cap_def split: option.splits)

named_theorems room_defs \<open>the queries of the room manager\<close>

lemmas [room_defs] = member_rel_def isMember_def roomsOf_def jset_has_def

lemma rooms_ok_new [simp]: "rooms_ok (new_room_manager options)"
  by (simp add: rooms_ok_def new_room_manager_def room_defs)

lemma member_rel_new [simp]: "member_rel (new_room_manager options) = {}"
  by (simp add: new_room_manager_def room_defs)

lemma rooms_okD:
  assumes "rooms_ok m"
  shows "jmap_get (rm_rooms m) r = Some ms \<Longrightarrow> distinct ms \<and> ms \<noteq> []"
    and "jmap_get (rm_memberships m) c = Some rs \<Longrightarrow> distinct rs \<and> rs \<noteq> []"
    and "r \<in> set (roomsOf m c) \<longleftrightarrow> isMember m r c"
    and "jmap_wf (rm_rooms m)"
  using assms by (auto simp: rooms_ok_def)

lemma memberships_get:
  assumes "rooms_ok m"
  shows "jmap_get (rm_memberships m) c = (if roomsOf m c = [] then None else Some (roomsOf m c))"
  using rooms_okD(2) [OF assms, of c] by (auto simp: roomsOf_def split: option.splits)

lemma members_card:
  assumes "rooms_ok m"
  shows "length (members m r) = card (member_rel m `` {r})"
proof -
  have "member_rel m `` {r} = set (members m r)"
    by (cases "jmap_get (rm_rooms m) r") (simp_all add: room_defs members_def)
  moreover have "distinct (members m r)"
    using rooms_okD(1) [OF assms, of r] by (auto simp: members_def split: option.splits)
  ultimately show ?thesis
    by (simp add: distinct_card)
qed

lemma rooms_Domain:
  assumes "rooms_ok m"
  shows "jmap_get (rm_rooms m) r \<noteq> None \<longleftrightarrow> r \<in> Domain (member_rel m)"
proof
  assume "jmap_get (rm_rooms m) r \<noteq> None"
  then obtain ms where ms: "jmap_get (rm_rooms m) r = Some ms"
    by blast
  with rooms_okD(1) [OF assms ms] have "hd ms \<in> set ms"
    by simp
  with ms have "(r, hd ms) \<in> member_rel m"
    by (simp add: room_defs)
  then show "r \<in> Domain (member_rel m)"
    by blast
qed (auto simp: room_defs split: option.splits)

lemma rooms_card: "rooms_ok m \<Longrightarrow> length (rm_rooms m) = card (Domain (member_rel m))"
  using rooms_Domain [of m] by (simp only: length_jmap_dom rooms_okD(4)) simp

section \<open>What a room manager promises\<close>

text \<open>The contract: one relation of rooms and connections, and the two caps.\<close>

definition spec_join ::
  "room_options \<Rightarrow> room_name \<Rightarrow> conn_id \<Rightarrow> (room_name \<times> conn_id) set \<Rightarrow>
     (room_name \<times> conn_id) set \<times> (room_error + bool)" where
  "spec_join options r c R =
     (if (r, c) \<in> R then (R, Inr False)
      else if r \<notin> Domain R \<and> at_cap (card (Domain R)) (ro_maxRooms options)
      then (R, Inl (JoinRejectedError TOO_MANY_ROOMS r))
      else if at_cap (card (R `` {r})) (ro_maxRoomSize options) then (R, Inl (JoinRejectedError ROOM_FULL r))
      else (insert (r, c) R, Inr True))"

definition room_options_of :: "room_manager \<Rightarrow> room_options" where
  "room_options_of m = \<lparr>ro_maxRoomSize = rm_maxRoomSize m, ro_maxRooms = rm_maxRooms m\<rparr>"

lemma joined_ok:
  fixes c :: conn_id and n :: nat
  assumes ok: "rooms_ok m" and wf: "jmap_wf M"
    and others: "\<And>r'. r' \<noteq> r \<Longrightarrow> jmap_get M r' = jmap_get (rm_rooms m) r'"
  defines "m' \<equiv> m\<lparr>rm_rooms := jmap_set r (jset_add c (members m r)) M,
                  rm_memberships := jmap_set c (jset_add r (roomsOf m c)) (rm_memberships m), rm_joins := n\<rparr>"
  shows "rooms_ok m' \<and> member_rel m' = insert (r, c) (member_rel m)"
proof -
  have member: "isMember m' r' c' \<longleftrightarrow> isMember m r' c' \<or> r' = r \<and> c' = c" for r' c'
    by (cases "r' = r") (auto simp: m'_def isMember_def members_def jset_has_def others split: option.splits)
  have rooms: "set (roomsOf m' c') = (if c' = c then insert r (set (roomsOf m c)) else set (roomsOf m c'))" for c'
    by (auto simp: m'_def roomsOf_def jmap_get_set split: option.splits)
  have d: "distinct (members m r)" "distinct (roomsOf m c)"
    using rooms_okD(1,2) [OF ok] by (auto simp: members_def roomsOf_def split: option.splits)
  have one: "distinct ms \<and> ms \<noteq> []" if "jmap_get (rm_rooms m') r' = Some ms" for r' ms
    using that rooms_okD(1) [OF ok, of r' ms] d(1)
    by (cases "r' = r") (auto simp: m'_def others)
  have two: "distinct rs \<and> rs \<noteq> []" if "jmap_get (rm_memberships m') c' = Some rs" for c' rs
    using that rooms_okD(2) [OF ok, of c' rs] d(2)
    by (cases "c' = c") (auto simp: m'_def)
  have wfs: "jmap_wf (rm_rooms m')" "jmap_wf (rm_memberships m')"
    using ok wf by (simp_all add: m'_def rooms_ok_def)
  have agree: "r' \<in> set (roomsOf m' c') \<longleftrightarrow> isMember m' r' c'" for r' c'
    using rooms_okD(3) [OF ok, of r' c'] rooms_okD(3) [OF ok, of r' c] by (auto simp: member rooms)
  have "member_rel m' = insert (r, c) (member_rel m)"
    by (auto simp: member_rel_def member)
  then show ?thesis
    using one two wfs agree by (simp add: rooms_ok_def)
qed

lemma join_refines:
  assumes ok: "rooms_ok m" and cap: "cap_positive (rm_maxRoomSize m)"
  shows "rooms_ok (fst (join r c m))"
    and "(member_rel (fst (join r c m)), snd (join r c m)) = spec_join (room_options_of m) r c (member_rel m)"
proof -
  have mem: "(r, c) \<in> member_rel m \<longleftrightarrow> c \<in> set (members m r)"
    by (cases "jmap_get (rm_rooms m) r") (simp_all add: room_defs members_def)
  have card: "card (member_rel m `` {r}) = length (members m r)"
    using members_card [OF ok] by simp
  have "rooms_ok (fst (join r c m)) \<and>
      (member_rel (fst (join r c m)), snd (join r c m)) = spec_join (room_options_of m) r c (member_rel m)"
  proof (cases "jmap_get (rm_rooms m) r")
    case None
    then have out: "r \<notin> Domain (member_rel m)" and empty: "members m r = []"
      using rooms_Domain [OF ok, of r] by (simp_all add: members_def)
    have "rooms_ok (fst (join r c m)) \<and> member_rel (fst (join r c m)) = insert (r, c) (member_rel m)"
      if "\<not> at_cap (length (rm_rooms m)) (rm_maxRooms m)"
      using joined_ok [OF ok, where M = "jmap_set r [] (rm_rooms m)" and r = r and c = c and n = "rm_joins m + 1"] ok cap that None empty
      by (simp add: join_def Let_def roomsOf_def rooms_ok_def)
    then show ?thesis
      using ok cap None out mem card empty
      by (auto simp: join_def Let_def spec_join_def room_options_of_def rooms_card)
  next
    case (Some ms)
    then have inn: "r \<in> Domain (member_rel m)" and ms: "members m r = ms"
      using rooms_Domain [OF ok, of r] by (simp_all add: members_def)
    have "rooms_ok (fst (join r c m)) \<and> member_rel (fst (join r c m)) = insert (r, c) (member_rel m)"
      if "c \<notin> set ms" "\<not> at_cap (length ms) (rm_maxRoomSize m)"
      using joined_ok [OF ok, where M = "rm_rooms m" and r = r and c = c and n = "rm_joins m + 1"] ok that Some ms
      by (simp add: join_def Let_def roomsOf_def rooms_okD(4) jset_has_def)
    then show ?thesis
      using ok Some inn mem card ms
      by (auto simp: join_def Let_def spec_join_def room_options_of_def jset_has_def)
  qed
  then show "rooms_ok (fst (join r c m))"
    and "(member_rel (fst (join r c m)), snd (join r c m)) = spec_join (room_options_of m) r c (member_rel m)"
    by auto
qed

lemma left_ok:
  fixes r :: room_name and c :: conn_id and n :: nat
  assumes ok: "rooms_ok m"
  defines "ms \<equiv> jset_delete c (members m r)" and "rs \<equiv> jset_delete r (roomsOf m c)"
  defines "m' \<equiv> m\<lparr>rm_rooms := (if length ms = 0 then jmap_delete r (rm_rooms m) else jmap_set r ms (rm_rooms m)),
                  rm_memberships := (if length rs = 0 then jmap_delete c (rm_memberships m)
                                     else jmap_set c rs (rm_memberships m)), rm_leaves := n\<rparr>"
  shows "rooms_ok m' \<and> member_rel m' = member_rel m - {(r, c)}"
proof -
  have member: "isMember m' r' c' \<longleftrightarrow> isMember m r' c' \<and> \<not> (r' = r \<and> c' = c)" for r' c'
  proof (cases "r' = r")
    case True
    have "isMember m' r c' \<longleftrightarrow> c' \<in> set ms"
      by (simp add: m'_def isMember_def jset_has_def)
    moreover have "isMember m r c' \<longleftrightarrow> c' \<in> set (members m r)"
      by (simp add: isMember_def members_def jset_has_def split: option.split)
    ultimately show ?thesis
      using True by (auto simp: ms_def)
  qed (simp add: m'_def isMember_def jmap_get_delete)
  have rooms: "set (roomsOf m' c') = (if c' = c then set (roomsOf m c) - {r} else set (roomsOf m c'))" for c'
  proof (cases "c' = c")
    case True
    have "roomsOf m' c = rs"
      by (simp add: m'_def roomsOf_def)
    with True show ?thesis
      by (simp add: rs_def)
  qed (simp add: m'_def roomsOf_def jmap_get_delete)
  have d: "distinct (members m r)" "distinct (roomsOf m c)"
    using rooms_okD(1,2) [OF ok] by (auto simp: members_def roomsOf_def split: option.splits)
  have one: "distinct xs \<and> xs \<noteq> []" if "jmap_get (rm_rooms m') r' = Some xs" for r' xs
    using that rooms_okD(1) [OF ok, of r' xs] d(1)
    by (cases "r' = r") (auto simp: m'_def jmap_get_delete ms_def split: if_splits)
  have two: "distinct xs \<and> xs \<noteq> []" if "jmap_get (rm_memberships m') c' = Some xs" for c' xs
    using that rooms_okD(2) [OF ok, of c' xs] d(2)
    by (cases "c' = c") (auto simp: m'_def jmap_get_delete rs_def split: if_splits)
  have wfs: "jmap_wf (rm_rooms m')" "jmap_wf (rm_memberships m')"
    using ok by (simp_all add: m'_def rooms_ok_def)
  have agree: "r' \<in> set (roomsOf m' c') \<longleftrightarrow> isMember m' r' c'" for r' c'
    using rooms_okD(3) [OF ok, of r' c'] rooms_okD(3) [OF ok, of r' c] by (auto simp: member rooms)
  have "member_rel m' = member_rel m - {(r, c)}"
    by (auto simp: member_rel_def member)
  then show ?thesis
    using one two wfs agree by (simp add: rooms_ok_def)
qed

lemma leave_refines:
  assumes ok: "rooms_ok m"
  shows "rooms_ok (fst (leave r c m))"
    and "member_rel (fst (leave r c m)) = member_rel m - {(r, c)}"
    and "snd (leave r c m) \<longleftrightarrow> (r, c) \<in> member_rel m"
proof -
  have "rooms_ok (fst (leave r c m)) \<and> member_rel (fst (leave r c m)) = member_rel m - {(r, c)}
      \<and> (snd (leave r c m) \<longleftrightarrow> (r, c) \<in> member_rel m)"
  proof (cases "(r, c) \<in> member_rel m")
    case False
    then have "leave r c m = (m, False)"
      by (simp add: leave_def room_defs split: option.splits)
    with False ok show ?thesis by simp
  next
    case True
    then obtain ms where ms: "jmap_get (rm_rooms m) r = Some ms" "c \<in> set ms"
      by (auto simp: room_defs split: option.splits)
    have "r \<in> set (roomsOf m c)"
      using True rooms_okD(3) [OF ok, of r c] by (simp add: member_rel_def)
    then obtain rs where rs: "jmap_get (rm_memberships m) c = Some rs"
      by (cases "jmap_get (rm_memberships m) c") (auto simp: roomsOf_def)
    have sets: "members m r = ms" "roomsOf m c = rs"
      using ms rs by (simp_all add: members_def roomsOf_def)
    define m' where "m' = m\<lparr>rm_rooms := (if length (jset_delete c (members m r)) = 0 then jmap_delete r (rm_rooms m)
                                 else jmap_set r (jset_delete c (members m r)) (rm_rooms m)),
                  rm_memberships := (if length (jset_delete r (roomsOf m c)) = 0 then jmap_delete c (rm_memberships m)
                                     else jmap_set c (jset_delete r (roomsOf m c)) (rm_memberships m)),
                  rm_leaves := rm_leaves m + 1\<rparr>"
    have "leave r c m = (m', True)"
      using ms rs unfolding m'_def sets by (simp add: leave_def Let_def jset_has_def)
    moreover have "rooms_ok m' \<and> member_rel m' = member_rel m - {(r, c)}"
      unfolding m'_def by (rule left_ok [OF ok])
    ultimately show ?thesis
      using True by simp
  qed
  then show "rooms_ok (fst (leave r c m))" "member_rel (fst (leave r c m)) = member_rel m - {(r, c)}"
    "snd (leave r c m) \<longleftrightarrow> (r, c) \<in> member_rel m"
    by simp_all
qed

lemma leave_rooms_refines:
  assumes "rooms_ok m" and "distinct rs" and "\<forall>r \<in> set rs. (r, c) \<in> member_rel m"
  shows "rooms_ok (fst (leave_rooms c rs m)) \<and> snd (leave_rooms c rs m) = rs \<and>
     member_rel (fst (leave_rooms c rs m)) = member_rel m - set rs \<times> {c}"
  using assms
proof (induction rs arbitrary: m)
  case Nil
  then show ?case by simp
next
  case (Cons r rs)
  have "rooms_ok (fst (leave r c m))" "\<forall>r' \<in> set rs. (r', c) \<in> member_rel (fst (leave r c m))"
    using Cons.prems leave_refines [OF Cons.prems(1)] by auto
  from Cons.IH [OF this(1) _ this(2)] show ?case
    using Cons.prems leave_refines [OF Cons.prems(1), of r c] by (auto simp: case_prod_beta Let_def)
qed

lemma leaveAll_refines:
  assumes ok: "rooms_ok m"
  shows "rooms_ok (fst (leaveAll c m))" and "snd (leaveAll c m) = roomsOf m c"
    and "member_rel (fst (leaveAll c m)) = member_rel m - UNIV \<times> {c}"
proof -
  have rs: "r \<in> set (roomsOf m c) \<longleftrightarrow> (r, c) \<in> member_rel m" for r
    using rooms_okD(3) [OF ok] by (simp add: member_rel_def)
  have d: "distinct (roomsOf m c)"
    using rooms_okD(2) [OF ok] by (auto simp: roomsOf_def split: option.splits)
  have step: "leaveAll c m = leave_rooms c (roomsOf m c) m"
    by (simp add: leaveAll_def roomsOf_def split: option.split)
  have "member_rel m - set (roomsOf m c) \<times> {c} = member_rel m - UNIV \<times> {c}"
    by (auto simp: rs)
  then show "rooms_ok (fst (leaveAll c m))" "snd (leaveAll c m) = roomsOf m c"
    "member_rel (fst (leaveAll c m)) = member_rel m - UNIV \<times> {c}"
    using leave_rooms_refines [OF ok d] rs by (simp_all add: step)
qed

section \<open>Sequences of operations\<close>

datatype room_op = JoinOp room_name conn_id | LeaveOp room_name conn_id | LeaveAllOp conn_id

datatype room_result = JoinResult "room_error + bool" | LeaveResult bool | LeftRooms "room_name set"

fun room_step :: "room_manager \<Rightarrow> room_op \<Rightarrow> room_manager \<times> room_result" where
  "room_step m (JoinOp r c) = (let (m, res) = join r c m in (m, JoinResult res))"
| "room_step m (LeaveOp r c) = (let (m, res) = leave r c m in (m, LeaveResult res))"
| "room_step m (LeaveAllOp c) = (let (m, rs) = leaveAll c m in (m, LeftRooms (set rs)))"

fun spec_step ::
  "room_options \<Rightarrow> (room_name \<times> conn_id) set \<Rightarrow> room_op \<Rightarrow> (room_name \<times> conn_id) set \<times> room_result" where
  "spec_step options R (JoinOp r c) = (let (R, res) = spec_join options r c R in (R, JoinResult res))"
| "spec_step options R (LeaveOp r c) = (R - {(r, c)}, LeaveResult ((r, c) \<in> R))"
| "spec_step options R (LeaveAllOp c) = (R - UNIV \<times> {c}, LeftRooms {r. (r, c) \<in> R})"

fun run_with :: "('s \<Rightarrow> 'e \<Rightarrow> 's \<times> 'r) \<Rightarrow> 's \<Rightarrow> 'e list \<Rightarrow> 's \<times> 'r list" where
  "run_with step s [] = (s, [])"
| "run_with step s (e # es) = (let (s, r) = step s e; (s, rs) = run_with step s es in (s, r # rs))"

definition room_inv :: "room_options \<Rightarrow> room_manager \<Rightarrow> bool" where
  "room_inv options m \<longleftrightarrow> rooms_ok m \<and> room_options_of m = options"

lemma caps_kept [simp]:
  "room_options_of (fst (join r c m)) = room_options_of m"
  "room_options_of (fst (leave r c m)) = room_options_of m"
  by (auto simp: join_def leave_def room_options_of_def Let_def split: option.split)

lemma caps_kept_leave_rooms [simp]: "room_options_of (fst (leave_rooms c rs m)) = room_options_of m"
  by (induction rs arbitrary: m) (simp_all add: case_prod_beta Let_def)

lemma caps_kept_leaveAll [simp]: "room_options_of (fst (leaveAll c m)) = room_options_of m"
  by (simp add: leaveAll_def split: option.split)

lemma room_step_refines:
  assumes "room_inv options m" and cap: "cap_positive (ro_maxRoomSize options)"
  shows "room_inv options (fst (room_step m op)) \<and>
     spec_step options (member_rel m) op = (member_rel (fst (room_step m op)), snd (room_step m op))"
proof -
  have ok: "rooms_ok m" and opts: "room_options_of m = options"
    using assms by (simp_all add: room_inv_def)
  have cap': "cap_positive (rm_maxRoomSize m)"
    using cap opts by (auto simp: room_options_of_def)
  show ?thesis
  proof (cases op)
    case (JoinOp r c)
    show ?thesis
      using join_refines [OF ok cap', of r c] opts
      by (simp add: JoinOp room_inv_def case_prod_beta Let_def) (metis fst_conv snd_conv)
  next
    case (LeaveOp r c)
    then show ?thesis
      using leave_refines [OF ok, of r c] opts by (simp add: room_inv_def case_prod_beta Let_def)
  next
    case (LeaveAllOp c)
    have "set (roomsOf m c) = {r. (r, c) \<in> member_rel m}"
      using rooms_okD(3) [OF ok] by (auto simp: member_rel_def)
    with LeaveAllOp show ?thesis
      using leaveAll_refines [OF ok, of c] opts by (simp add: room_inv_def case_prod_beta Let_def)
  qed
qed

lemma run_rooms_refines:
  assumes "room_inv options m" and "cap_positive (ro_maxRoomSize options)"
  shows "room_inv options (fst (run_with room_step m ops)) \<and>
     run_with (spec_step options) (member_rel m) ops =
       (member_rel (fst (run_with room_step m ops)), snd (run_with room_step m ops))"
  using assms
proof (induction ops arbitrary: m)
  case (Cons op ops)
  then show ?case
    using room_step_refines [OF Cons.prems, of op] by (simp add: case_prod_beta Let_def)
qed simp

section \<open>Who is sent a copy\<close>

text \<open>
  A send that appends the connection to a log and may call the manager back (\<open>g\<close>); \<open>f\<close> is its outcome.
\<close>

definition recording ::
  "(room_manager \<Rightarrow> conn_id \<Rightarrow> room_manager) \<Rightarrow> (conn_id \<Rightarrow> bool option) \<Rightarrow> conn_id list room_send" where
  "recording g f w c payload binary = ((g (fst w) c, snd w @ [c]), f c)"

lemma send_one_recording [simp]:
  "send_one (recording g f) bc c (m, log) = ((g m c, log @ [c]), f c = Some True)"
  by (simp add: send_one_def recording_def split: option.split)

lemma fan_out_counts:
  "fan_out send bc cs w (d, e, f) = (w', d', e', f') \<Longrightarrow>
     d' + e' + f' = d + e + f + length cs \<and> e' = e + length (filter (is_excluded bc) cs)"
proof (induction cs arbitrary: w d e f)
  case (Cons c cs)
  obtain w1 ok where "send_one send bc c w = (w1, ok)"
    by fastforce
  with Cons show ?case
    by (cases "is_excluded bc c"; cases ok) fastforce+
qed simp

lemma fan_out_recording:
  "fan_out (recording g ok) bc cs (m, log) (d, e, f) = ((m', log'), d', e', f') \<Longrightarrow>
     log' = log @ filter (\<lambda>c. \<not> is_excluded bc c) cs \<and>
     d' = d + length (filter (\<lambda>c. \<not> is_excluded bc c \<and> ok c = Some True) cs)"
proof (induction cs arbitrary: m log d e f)
  case (Cons c cs)
  then show ?case
    by (cases "is_excluded bc c"; cases "ok c = Some True") fastforce+
qed simp

text \<open>What holds of the log and the counts while \<open>broadcastMany\<close> goes through the rooms.\<close>

fun many_ok :: "room_broadcast \<Rightarrow> conn_id list \<Rightarrow> many_counts \<Rightarrow> bool" where
  "many_ok bc log (seen, n, d, e, f) \<longleftrightarrow> distinct log \<and> set log = {c \<in> set seen. \<not> is_excluded bc c}
     \<and> d + f = length log \<and> distinct seen \<and> d + e + f = length seen \<and> length seen \<le> n"

lemma length_jset_add: "x \<notin> set s \<Longrightarrow> length (jset_add x s) = length s + 1"
  by (simp add: jset_add_def jset_has_def)

lemma fan_out_unseen_ok:
  "fan_out_unseen (recording g ok) bc cs (m, log) counts = ((m', log'), counts') \<Longrightarrow> many_ok bc log counts \<Longrightarrow>
     many_ok bc log' counts' \<and> set (fst counts') = set (fst counts) \<union> set cs"
proof (induction cs arbitrary: m log counts)
  case (Cons c cs)
  obtain seen n d e f where counts: "counts = (seen, n, d, e, f)"
    by (cases counts) auto
  let ?seen = "jset_add c seen"
  show ?case
  proof (cases "c \<in> set seen")
    case True
    then show ?thesis
      using Cons.prems Cons.IH [of m log "(seen, n + 1, d, e, f)"] by (auto simp: counts jset_has_def)
  next
    case fresh: False
    show ?thesis
    proof (cases "is_excluded bc c")
      case True
      then show ?thesis
        using Cons.prems fresh Cons.IH [of m log "(?seen, n + 1, d, e + 1, f)"]
        by (auto simp: counts jset_has_def length_jset_add)
    next
      case False
      define counts1 where "counts1 = (if ok c = Some True then (?seen, n + 1, d + 1, e, f) else (?seen, n + 1, d, e, f + 1))"
      have "fan_out_unseen (recording g ok) bc cs (g m c, log @ [c]) counts1 = ((m', log'), counts')"
        using Cons.prems(1) False fresh
        by (simp add: counts jset_has_def counts1_def)
      moreover have "many_ok bc (log @ [c]) counts1"
        using Cons.prems(2) False fresh by (auto simp: counts counts1_def length_jset_add)
      ultimately show ?thesis
        using Cons.IH by (auto simp: counts counts1_def split: if_splits)
    qed
  qed
qed simp

lemma fan_out_unseen_quiet:
  "fan_out_unseen (recording (\<lambda>m c. m) ok) bc cs (m, log) counts = ((m', log'), counts') \<Longrightarrow> m' = m"
proof (induction cs arbitrary: log counts)
  case (Cons c cs)
  obtain seen n d e f where "counts = (seen, n, d, e, f)"
    by (cases counts) auto
  with Cons show ?case
    by (auto split: if_splits)
qed simp

lemma fan_out_rooms_ok:
  "fan_out_rooms (recording g ok) bc rooms (m, log) counts = ((m', log'), counts') \<Longrightarrow> many_ok bc log counts \<Longrightarrow>
     many_ok bc log' counts'"
proof (induction rooms arbitrary: m log counts)
  case (Cons r rooms)
  obtain m1 log1 counts1 where one:
    "fan_out_unseen (recording g ok) bc (members m r) (m, log) counts = ((m1, log1), counts1)"
    by (metis prod.collapse)
  show ?case
    using Cons fan_out_unseen_ok [OF one Cons.prems(2)] one by (auto simp: members_def split: option.splits)
qed simp

lemma fan_out_rooms_quiet:
  "fan_out_rooms (recording (\<lambda>m c. m) ok) bc rooms (m, log) counts = ((m', log'), counts') \<Longrightarrow>
     many_ok bc log counts \<Longrightarrow>
     m' = m \<and> set (fst counts') = set (fst counts) \<union> {c. \<exists>r \<in> set rooms. isMember m r c}"
proof (induction rooms arbitrary: log counts)
  case (Cons r rooms)
  obtain m1 log1 counts1 where one:
    "fan_out_unseen (recording (\<lambda>m c. m) ok) bc (members m r) (m, log) counts = ((m1, log1), counts1)"
    by (metis prod.collapse)
  have m1: "m1 = m"
    by (rule fan_out_unseen_quiet [OF one])
  have mem: "set (members m r) = {c. isMember m r c}"
    by (cases "jmap_get (rm_rooms m) r") (simp_all add: members_def isMember_def jset_has_def)
  show ?case
  proof (cases "jmap_get (rm_rooms m) r")
    case None
    then have "\<not> isMember m r c" for c
      by (simp add: isMember_def)
    with None Cons show ?thesis by simp
  next
    case (Some ms)
    then have "fan_out_rooms (recording (\<lambda>m c. m) ok) bc rooms (m, log1) counts1 = ((m', log'), counts')"
      using Cons.prems(1) one m1 by (simp add: members_def)
    from Cons.IH [OF this] show ?thesis
      using fan_out_unseen_ok [OF one Cons.prems(2)] mem by auto
  qed
qed simp

section \<open>Properties\<close>

interpretation room_ops: invariant_machine "\<lambda>m op. fst (room_step m op)" "\<lambda>m. rooms_ok m \<and> cap_positive (rm_maxRoomSize m)"
proof
  fix m op
  assume "rooms_ok m \<and> cap_positive (rm_maxRoomSize m)"
  then show "rooms_ok (fst (room_step m op)) \<and> cap_positive (rm_maxRoomSize (fst (room_step m op)))"
    using room_step_refines [of "room_options_of m" m op]
    by (simp add: room_inv_def room_options_of_def)
qed

text \<open>
  After any joins, leaves and disconnects, both indexes hold the same memberships, \<open>roomsOf\<close> of a
  connection is exactly the rooms it is a member of, and no index keeps an empty set, so an empty room is
  gone (given a cap of at least one member).
\<close>

theorem rooms_indexes_agree:
  assumes "cap_positive (ro_maxRoomSize options)"
  shows "let m = foldl (\<lambda>m op. fst (room_step m op)) (new_room_manager options) ops in
           (r \<in> set (roomsOf m c) \<longleftrightarrow> isMember m r c) \<and> (c \<in> set (members m r) \<longleftrightarrow> isMember m r c)
           \<and> (r \<in> set (roomNames m) \<longleftrightarrow> members m r \<noteq> []) \<and> memberCount m r = length (members m r)"
proof -
  let ?m = "foldl (\<lambda>m op. fst (room_step m op)) (new_room_manager options) ops"
  have "rooms_ok (new_room_manager options) \<and> cap_positive (rm_maxRoomSize (new_room_manager options))"
    using assms by (simp add: new_room_manager_def room_defs rooms_ok_def)
  from room_ops.inv_run [OF this] have ok: "rooms_ok ?m"
    by simp
  have "r \<in> set (roomNames ?m) \<longleftrightarrow> members ?m r \<noteq> []"
    using rooms_okD(1) [OF ok, of r]
    by (cases "jmap_get (rm_rooms ?m) r") (simp_all add: roomNames_def set_jmap_keys jmap_has_def members_def)
  then show ?thesis
    using rooms_okD(3) [OF ok, of r c] by (auto simp: members_def memberCount_def isMember_def jset_has_def split: option.splits)
qed

theorem rooms_indexes_agree_witness:
  "let m = foldl (\<lambda>m op. fst (room_step m op)) (new_room_manager \<lparr>ro_maxRoomSize = Some 2, ro_maxRooms = None\<rparr>)
             [JoinOp (js ''a'') (js ''x''), LeaveAllOp (js ''x'')] in
     (js ''a'' \<in> set (roomNames m) \<longleftrightarrow> members m (js ''a'') \<noteq> [])"
  using rooms_indexes_agree [where options = "\<lparr>ro_maxRoomSize = Some 2, ro_maxRooms = None\<rparr>" and r = "js ''a''"
      and ops = "[JoinOp (js ''a'') (js ''x''), LeaveAllOp (js ''x'')]" and c = "js ''x''"]
  by (simp add: cap_positive_def Let_def)

text \<open>
  C29: with a cap on the members of a room that is absent or at least one, the room manager refines one relation
  between rooms and connections: whatever the sequence of joins, leaves and disconnects, its memberships and every
  result it returns or throws are those of the relation with the two caps. (With a cap of zero or less a refused
  join leaves an empty room behind, which the relation does not know.)
\<close>

theorem rooms_refine_relation:
  assumes "cap_positive (ro_maxRoomSize options)"
  shows "run_with (spec_step options) {} ops =
     (let (m, results) = run_with room_step (new_room_manager options) ops in (member_rel m, results))"
proof -
  have "room_inv options (new_room_manager options)"
    by (simp add: room_inv_def) (simp add: new_room_manager_def room_options_of_def)
  from run_rooms_refines [OF this assms, of ops] show ?thesis
    by (simp add: case_prod_beta)
qed

theorem rooms_refine_relation_witness:
  "snd (run_with room_step (new_room_manager \<lparr>ro_maxRoomSize = Some 1, ro_maxRooms = None\<rparr>)
         [JoinOp (js ''a'') (js ''x''), JoinOp (js ''a'') (js ''y'')]) =
     snd (run_with (spec_step \<lparr>ro_maxRoomSize = Some 1, ro_maxRooms = None\<rparr>) {}
         [JoinOp (js ''a'') (js ''x''), JoinOp (js ''a'') (js ''y'')])"
  using rooms_refine_relation [of "\<lparr>ro_maxRoomSize = Some 1, ro_maxRooms = None\<rparr>"
      "[JoinOp (js ''a'') (js ''x''), JoinOp (js ''a'') (js ''y'')]"]
  by (simp add: cap_positive_def case_prod_beta)

text \<open>
  A broadcast hands the payload, in joining order, to exactly the members the room had when it
  began, without the excluded ones, even when the sends join, leave or kick members meanwhile or throw;
  the receipt accounts for every member.
\<close>

theorem broadcast_reaches_snapshot:
  "let ((m', log), receipt) = broadcast (recording g ok) room bc (m, []) in
     log = filter (\<lambda>c. \<not> is_excluded bc c) (members m room)
     \<and> br_delivered receipt = length (filter (\<lambda>c. ok c = Some True) log)
     \<and> br_excluded receipt = length (filter (is_excluded bc) (members m room))
     \<and> br_delivered receipt + br_excluded receipt + br_failed receipt = memberCount m room
     \<and> br_membershipSize receipt = memberCount m room"
proof (cases "jmap_get (rm_rooms m) room")
  case None
  then show ?thesis
    by (simp add: broadcast_def members_def memberCount_def)
next
  case (Some ms)
  obtain m' log d e f where out: "fan_out (recording g ok) bc ms (m, []) (0, 0, 0) = ((m', log), d, e, f)"
    by (metis prod.collapse)
  have "filter (\<lambda>c. ok c = Some True) (filter (\<lambda>c. \<not> is_excluded bc c) ms) =
      filter (\<lambda>c. \<not> is_excluded bc c \<and> ok c = Some True) ms"
    by (simp add: conj_commute)
  then show ?thesis
    using Some out fan_out_counts [OF out] fan_out_recording [OF out]
    by (simp add: broadcast_def members_def memberCount_def)
qed

text \<open>
  \<open>broadcastMany\<close> sends at most one copy to a connection and none to an excluded one, whatever the
  sends do to the rooms; when they leave the rooms alone, exactly the members of the named rooms that are
  not excluded get one.
\<close>

theorem broadcast_many_once:
  "(let ((m', log), receipt) = broadcastMany (recording g ok) rooms bc (m, []) in
      distinct log \<and> list_all (\<lambda>c. \<not> is_excluded bc c) log
      \<and> br_delivered receipt + br_failed receipt = length log)
   \<and> (let ((m', log), receipt) = broadcastMany (recording (\<lambda>m c. m) ok) rooms bc (m, []) in
      set log = {c. (\<exists>r. r \<in> set rooms \<and> isMember m r c) \<and> \<not> is_excluded bc c})"
proof -
  have start: "many_ok bc [] ([], 0, 0, 0, 0)"
    by simp
  obtain m1 log1 seen1 n1 d1 e1 f1 where one:
    "fan_out_rooms (recording g ok) bc rooms (m, []) ([], 0, 0, 0, 0) = ((m1, log1), seen1, n1, d1, e1, f1)"
    by (metis prod.collapse)
  obtain m2 log2 seen2 n2 d2 e2 f2 where two:
    "fan_out_rooms (recording (\<lambda>m c. m) ok) bc rooms (m, []) ([], 0, 0, 0, 0) = ((m2, log2), seen2, n2, d2, e2, f2)"
    by (metis prod.collapse)
  have "set seen2 = {c. \<exists>r \<in> set rooms. isMember m r c}"
    using fan_out_rooms_quiet [OF two start] by simp
  then show ?thesis
    using fan_out_rooms_ok [OF one start] fan_out_rooms_ok [OF two start]
    by (auto simp: broadcastMany_def one two list_all_iff)
qed

text \<open>
  With a cap of zero members the refused join leaves its empty room behind, which counts
  against the cap on rooms.
\<close>

theorem refused_join_leaves_room:
  "let (m, result) = join room conn (new_room_manager \<lparr>ro_maxRoomSize = Some 0, ro_maxRooms = None\<rparr>) in
     result = Inl (JoinRejectedError ROOM_FULL room) \<and> roomNames m = [room] \<and> members m room = []"
  by (simp add: join_def new_room_manager_def at_cap_def roomNames_def members_def jmap_keys_def jmap_set_def
      jmap_empty_def jmap_get_def)

text \<open>
  In a receipt of \<open>broadcastMany\<close> the membership size counts a connection once per room, so it is not
  the sum of the other counts as the type's documentation says.
\<close>

theorem many_receipt_overcounts:
  "let m = foldl (\<lambda>m op. fst (room_step m op)) (new_room_manager \<lparr>ro_maxRoomSize = None, ro_maxRooms = None\<rparr>)
             [JoinOp (js ''a'') (js ''x''), JoinOp (js ''b'') (js ''x'')];
       (w, receipt) = broadcastMany (\<lambda>w c p b. (w, Some True)) [js ''a'', js ''b'']
             \<lparr>rb_payload = TextPayload [], rb_binary = None, rb_exclude = None\<rparr> (m, ())
   in br_membershipSize receipt = 2 \<and> br_delivered receipt + br_excluded receipt + br_failed receipt = 1"
  by (simp add: new_room_manager_def join_def Let_def at_cap_def jmap_get_set jset_add_def jset_has_def
      broadcastMany_def send_one_def is_excluded_def room_step.simps)

end
