(* ===== verification/WsPresence.thy ===== *)
theory WsPresence
  imports Interfaces
begin

text \<open>
  \<open>layers/websocket/server/PresenceRegistry.ts\<close>: which users are online, on which connections, and who is told. A
  subscription is known by a number, its listener by what it was handed; listeners do not call the registry back (one that
  throws is ignored).
\<close>

section \<open>The registry\<close>

type_synonym user_id = jstring
type_synonym conn = jstring
type_synonym metadata = "(jstring, jstring) jmap"

datatype presence_state = ONLINE | IDLE | OFFLINE

record connection_presence =
  cp_connId :: conn
  cp_label :: "jstring option"
  cp_connectedAt :: int
  cp_lastActivityAt :: int
  cp_idle :: bool

record presence_user =
  pu_userId :: user_id
  pu_connections :: "(conn, connection_presence) jmap"
  pu_metadata :: metadata

record user_presence =
  up_userId :: user_id
  up_state :: presence_state
  up_connections :: "(conn, connection_presence) jmap"
  up_metadata :: metadata

datatype presence_event =
    WentOnline user_id int
  | WentOffline user_id int
  | ConnectionAdded user_id conn nat
  | ConnectionRemoved user_id conn nat
  | WentIdle user_id conn
  | BecameActive user_id conn
  | MetadataChanged user_id metadata

record subscription =
  su_number :: nat
  su_userIds :: "user_id jset option"

record presence_registry =
  pr_users :: "(user_id, presence_user) jmap"
  pr_byConn :: "(conn, user_id) jmap"
  pr_subscriptions :: "subscription list"
  pr_numbers :: nat
  pr_delivered :: "(nat \<times> presence_event) list"

datatype presence_error = AlreadyRegistered conn

definition new_presence :: presence_registry where
  "new_presence = \<lparr>pr_users = jmap_empty, pr_byConn = jmap_empty, pr_subscriptions = [], pr_numbers = 0, pr_delivered = []\<rparr>"

fun event_user :: "presence_event \<Rightarrow> user_id" where
  "event_user (WentOnline u at) = u"
| "event_user (WentOffline u at) = u"
| "event_user (ConnectionAdded u c n) = u"
| "event_user (ConnectionRemoved u c n) = u"
| "event_user (WentIdle u c) = u"
| "event_user (BecameActive u c) = u"
| "event_user (MetadataChanged u m) = u"

definition in_scope :: "user_id jset option \<Rightarrow> user_id \<Rightarrow> bool" where
  "in_scope scope u \<longleftrightarrow> (case scope of None \<Rightarrow> True | Some us \<Rightarrow> jset_has us u)"

definition presence_emit :: "presence_event \<Rightarrow> presence_registry \<Rightarrow> presence_registry" where
  "presence_emit e r =
     r\<lparr>pr_delivered := foldl (\<lambda>log sub. if \<not> in_scope (su_userIds sub) (event_user e) then log else log @ [(su_number sub, e)])
         (pr_delivered r) (pr_subscriptions r)\<rparr>"

definition presence_onlineCount :: "presence_registry \<Rightarrow> nat" where
  "presence_onlineCount r = length (pr_users r)"

definition presence_connectionCount :: "presence_registry \<Rightarrow> nat" where
  "presence_connectionCount r = length (pr_byConn r)"

definition isOnline :: "user_id \<Rightarrow> presence_registry \<Rightarrow> bool" where
  "isOnline u r = jmap_has (pr_users r) u"

definition connectionsFor :: "user_id \<Rightarrow> presence_registry \<Rightarrow> nat" where
  "connectionsFor u r = (case jmap_get (pr_users r) u of Some p \<Rightarrow> length (pu_connections p) | None \<Rightarrow> 0)"

definition onlineUsers :: "presence_registry \<Rightarrow> user_id list" where
  "onlineUsers r = jmap_keys (pr_users r)"

definition present :: "presence_user \<Rightarrow> user_presence" where
  "present p =
     (let allIdle = list_all cp_idle (jmap_values (pu_connections p)) in
      \<lparr>up_userId = pu_userId p, up_state = (if allIdle \<and> length (pu_connections p) > 0 then IDLE else ONLINE),
       up_connections = pu_connections p, up_metadata = pu_metadata p\<rparr>)"

definition presence_get :: "user_id \<Rightarrow> presence_registry \<Rightarrow> user_presence option" where
  "presence_get u r = map_option present (jmap_get (pr_users r) u)"

section \<open>Connections\<close>

definition addConnection :: "int \<Rightarrow> user_id \<Rightarrow> conn \<Rightarrow> jstring option \<Rightarrow> presence_registry \<Rightarrow> presence_error + presence_registry" where
  "addConnection now u c label r =
     (if jmap_has (pr_byConn r) c then Inl (AlreadyRegistered c)
      else
        let fresh = \<lparr>cp_connId = c, cp_label = label, cp_connectedAt = now, cp_lastActivityAt = now, cp_idle = False\<rparr> in
        case jmap_get (pr_users r) u of
          None \<Rightarrow>
            (let p = \<lparr>pu_userId = u, pu_connections = jmap_set c fresh jmap_empty, pu_metadata = jmap_empty\<rparr>
             in Inr (presence_emit (WentOnline u now)
                  (r\<lparr>pr_users := jmap_set u p (pr_users r), pr_byConn := jmap_set c u (pr_byConn r)\<rparr>)))
        | Some p \<Rightarrow>
            (let p = p\<lparr>pu_connections := jmap_set c fresh (pu_connections p)\<rparr>
             in Inr (presence_emit (ConnectionAdded u c (length (pu_connections p)))
                  (r\<lparr>pr_users := jmap_set u p (pr_users r), pr_byConn := jmap_set c u (pr_byConn r)\<rparr>))))"

definition removeConnection :: "int \<Rightarrow> conn \<Rightarrow> presence_registry \<Rightarrow> presence_registry \<times> user_id option" where
  "removeConnection now c r =
     (case jmap_get (pr_byConn r) c of
        None \<Rightarrow> (r, None)
      | Some u \<Rightarrow>
          let r = r\<lparr>pr_byConn := jmap_delete c (pr_byConn r)\<rparr> in
          case jmap_get (pr_users r) u of
            None \<Rightarrow> (r, Some u)
          | Some p \<Rightarrow>
              let p = p\<lparr>pu_connections := jmap_delete c (pu_connections p)\<rparr> in
              if length (pu_connections p) = 0 then
                (presence_emit (WentOffline u now) (r\<lparr>pr_users := jmap_delete u (pr_users r)\<rparr>), Some u)
              else
                (presence_emit (ConnectionRemoved u c (length (pu_connections p))) (r\<lparr>pr_users := jmap_set u p (pr_users r)\<rparr>), Some u))"

definition put_conn :: "user_id \<Rightarrow> presence_user \<Rightarrow> connection_presence \<Rightarrow> presence_registry \<Rightarrow> presence_registry" where
  "put_conn u p c r = r\<lparr>pr_users := jmap_set u (p\<lparr>pu_connections := jmap_set (cp_connId c) c (pu_connections p)\<rparr>) (pr_users r)\<rparr>"

definition touch :: "int \<Rightarrow> conn \<Rightarrow> presence_registry \<Rightarrow> presence_registry" where
  "touch now c r =
     (case jmap_get (pr_byConn r) c of
        None \<Rightarrow> r
      | Some u \<Rightarrow>
          (case jmap_get (pr_users r) u of
             None \<Rightarrow> r
           | Some p \<Rightarrow>
               (case jmap_get (pu_connections p) c of
                  None \<Rightarrow> r
                | Some x \<Rightarrow>
                    let x = x\<lparr>cp_lastActivityAt := now\<rparr> in
                    if cp_idle x then presence_emit (BecameActive u c) (put_conn u p (x\<lparr>cp_idle := False\<rparr>) r)
                    else put_conn u p x r)))"

text \<open>
  One round of \<open>sweep\<close>. The maps keep their keys while it runs, so the loops run over what the maps held at the start; a
  connection that is looked at has not been changed before.
\<close>

definition sweep_conn :: "int \<Rightarrow> user_id \<Rightarrow> presence_registry \<times> conn list \<Rightarrow> connection_presence \<Rightarrow> presence_registry \<times> conn list" where
  "sweep_conn cutoff u s c =
     (case s of (r, marked) \<Rightarrow>
        if \<not> cp_idle c \<and> cp_lastActivityAt c \<le> cutoff then
          (case jmap_get (pr_users r) u of
             None \<Rightarrow> s
           | Some p \<Rightarrow> (presence_emit (WentIdle u (cp_connId c)) (put_conn u p (c\<lparr>cp_idle := True\<rparr>) r), marked @ [cp_connId c]))
        else s)"

definition presence_sweep :: "int \<Rightarrow> int \<Rightarrow> presence_registry \<Rightarrow> presence_registry \<times> conn list" where
  "presence_sweep now idleAfterMs r =
     foldl (\<lambda>s p. foldl (sweep_conn (now - idleAfterMs) (pu_userId p)) s (jmap_values (pu_connections p))) (r, [])
       (jmap_values (pr_users r))"

definition setUserMetadata :: "user_id \<Rightarrow> metadata \<Rightarrow> presence_registry \<Rightarrow> presence_registry" where
  "setUserMetadata u m r =
     (case jmap_get (pr_users r) u of
        None \<Rightarrow> r
      | Some p \<Rightarrow> presence_emit (MetadataChanged u m) (r\<lparr>pr_users := jmap_set u (p\<lparr>pu_metadata := m\<rparr>) (pr_users r)\<rparr>))"

definition subscribe :: "user_id list option \<Rightarrow> presence_registry \<Rightarrow> presence_registry \<times> nat" where
  "subscribe userIds r =
     (let sub = \<lparr>su_number = pr_numbers r, su_userIds = map_option (\<lambda>us. foldl (\<lambda>s u. jset_add u s) [] us) userIds\<rparr>
      in (r\<lparr>pr_subscriptions := pr_subscriptions r @ [sub], pr_numbers := pr_numbers r + 1\<rparr>, pr_numbers r))"

definition unsubscribe :: "nat \<Rightarrow> presence_registry \<Rightarrow> presence_registry" where
  "unsubscribe n r = r\<lparr>pr_subscriptions := filter (\<lambda>s. su_number s \<noteq> n) (pr_subscriptions r)\<rparr>"

section \<open>Runs\<close>

datatype presence_op =
    AddConnection int user_id conn "jstring option"
  | RemoveConnection int conn
  | Touch int conn
  | SweepIdle int int
  | SetMetadata user_id metadata
  | Subscribe "user_id list option"
  | Unsubscribe nat

definition presence_step :: "presence_registry \<Rightarrow> presence_op \<Rightarrow> presence_registry" where
  "presence_step r op =
     (case op of
        AddConnection now u c label \<Rightarrow> (case addConnection now u c label r of Inl e \<Rightarrow> r | Inr r \<Rightarrow> r)
      | RemoveConnection now c \<Rightarrow> fst (removeConnection now c r)
      | Touch now c \<Rightarrow> touch now c r
      | SweepIdle now ms \<Rightarrow> fst (presence_sweep now ms r)
      | SetMetadata u m \<Rightarrow> setUserMetadata u m r
      | Subscribe userIds \<Rightarrow> fst (subscribe userIds r)
      | Unsubscribe n \<Rightarrow> unsubscribe n r)"

text \<open>The two indexes: a user is there with the connections that name it, and with one at least.\<close>

definition owner_ok :: "presence_registry \<Rightarrow> user_id \<Rightarrow> presence_user \<Rightarrow> bool" where
  "owner_ok r u p \<longleftrightarrow> pu_userId p = u \<and> jmap_wf (pu_connections p) \<and> pu_connections p \<noteq> []
     \<and> (\<forall>c. jmap_has (pu_connections p) c \<longleftrightarrow> jmap_get (pr_byConn r) c = Some u)
     \<and> (\<forall>c x. jmap_get (pu_connections p) c = Some x \<longrightarrow> cp_connId x = c)"

definition presence_ok :: "presence_registry \<Rightarrow> bool" where
  "presence_ok r \<longleftrightarrow> jmap_wf (pr_users r) \<and> jmap_wf (pr_byConn r)
     \<and> (\<forall>u p. jmap_get (pr_users r) u = Some p \<longrightarrow> owner_ok r u p)
     \<and> (\<forall>c u. jmap_get (pr_byConn r) c = Some u \<longrightarrow> jmap_has (pr_users r) u)"

lemma emit_fields [simp]:
  "pr_users (presence_emit e r) = pr_users r" "pr_byConn (presence_emit e r) = pr_byConn r"
  "pr_subscriptions (presence_emit e r) = pr_subscriptions r" "pr_numbers (presence_emit e r) = pr_numbers r"
  by (simp_all add: presence_emit_def)

lemma presence_ok_fields: "pr_users r' = pr_users r \<Longrightarrow> pr_byConn r' = pr_byConn r \<Longrightarrow> presence_ok r' = presence_ok r"
  by (simp add: presence_ok_def owner_ok_def)

lemma presence_ok_emit [simp]: "presence_ok (presence_emit e r) = presence_ok r"
  by (rule presence_ok_fields) simp_all

lemma presence_ok_add:
  assumes ok: "presence_ok r" and add: "addConnection now u c label r = Inr r'"
  shows "presence_ok r'"
proof -
  let ?x = "\<lparr>cp_connId = c, cp_label = label, cp_connectedAt = now, cp_lastActivityAt = now, cp_idle = False\<rparr>"
  have fresh: "jmap_get (pr_byConn r) c = None"
    using add by (auto simp: addConnection_def jmap_has_def split: if_splits)
  define p where "p = (case jmap_get (pr_users r) u of
      None \<Rightarrow> \<lparr>pu_userId = u, pu_connections = jmap_set c ?x jmap_empty, pu_metadata = jmap_empty\<rparr>
    | Some p \<Rightarrow> p\<lparr>pu_connections := jmap_set c ?x (pu_connections p)\<rparr>)"
  let ?r = "r\<lparr>pr_users := jmap_set u p (pr_users r), pr_byConn := jmap_set c u (pr_byConn r)\<rparr>"
  have "presence_ok r' = presence_ok ?r"
    using add by (intro presence_ok_fields) (auto simp: addConnection_def p_def Let_def split: if_splits option.splits)
  moreover have mine: "owner_ok ?r u p"
  proof (cases "jmap_get (pr_users r) u")
    case None
    then have "jmap_get (pr_byConn r) k \<noteq> Some u" for k
      using ok by (fastforce simp: presence_ok_def jmap_has_def)
    moreover have "jmap_set c ?x jmap_empty \<noteq> []" "jmap_wf (jmap_set c ?x jmap_empty)"
      by (simp_all add: jmap_set_def jmap_empty_def jmap_wf_def jmap_keys_def)
    ultimately show ?thesis
      using None by (auto simp: owner_ok_def p_def jmap_has_def jmap_get_set)
  next
    case (Some q)
    then have q: "owner_ok r u q"
      using ok by (simp add: presence_ok_def)
    moreover have "jmap_set c ?x (pu_connections q) \<noteq> []"
      by (cases "pu_connections q") (auto simp: jmap_set_def)
    ultimately show ?thesis
      using Some by (auto simp: owner_ok_def p_def jmap_has_def jmap_get_set split: if_splits)
  qed
  moreover have "owner_ok ?r v q" if "v \<noteq> u" "jmap_get (pr_users r) v = Some q" for v q
    using ok that fresh by (auto simp: presence_ok_def owner_ok_def jmap_get_set)
  ultimately show ?thesis
    using ok by (auto simp: presence_ok_def jmap_get_set jmap_has_def split: if_splits)
qed

lemma conn_owner:
  assumes "presence_ok r" and "jmap_get (pr_byConn r) c = Some u"
  obtains p x where "jmap_get (pr_users r) u = Some p" and "owner_ok r u p" and "jmap_get (pu_connections p) c = Some x"
    and "cp_connId x = c"
proof -
  obtain p where p: "jmap_get (pr_users r) u = Some p" "owner_ok r u p"
    using assms unfolding presence_ok_def jmap_has_def by blast
  then have "jmap_has (pu_connections p) c"
    using assms(2) by (simp add: owner_ok_def)
  then obtain x where "jmap_get (pu_connections p) c = Some x"
    by (auto simp: jmap_has_def)
  then show thesis
    using that p by (auto simp: owner_ok_def)
qed

lemma presence_ok_remove:
  assumes ok: "presence_ok r"
  shows "presence_ok (fst (removeConnection now c r))"
proof (cases "jmap_get (pr_byConn r) c")
  case None
  then show ?thesis
    using ok by (simp add: removeConnection_def)
next
  case (Some u)
  obtain p x where p: "jmap_get (pr_users r) u = Some p" "owner_ok r u p" "jmap_get (pu_connections p) c = Some x"
    by (rule conn_owner [OF ok Some])
  let ?conns = "jmap_delete c (pu_connections p)"
  let ?byConn = "jmap_delete c (pr_byConn r)"
  have others: "owner_ok (r\<lparr>pr_users := us, pr_byConn := ?byConn\<rparr>) v q" if "v \<noteq> u" "jmap_get (pr_users r) v = Some q" for v q us
    using ok that Some by (auto simp: presence_ok_def owner_ok_def jmap_get_delete)
  show ?thesis
  proof (cases "?conns = []")
    case True
    let ?r = "r\<lparr>pr_users := jmap_delete u (pr_users r), pr_byConn := ?byConn\<rparr>"
    have gone: "jmap_get (pr_byConn r) k \<noteq> Some u" if "k \<noteq> c" for k
    proof
      assume "jmap_get (pr_byConn r) k = Some u"
      then have "jmap_has (pu_connections p) k"
        using p(2) by (simp add: owner_ok_def)
      then have "jmap_has ?conns k"
        using that by (simp add: jmap_has_def jmap_get_delete)
      then show False
        using True by (simp add: jmap_has_def jmap_get_def)
    qed
    have "presence_ok (fst (removeConnection now c r)) = presence_ok ?r"
      using Some p True by (intro presence_ok_fields) (simp_all add: removeConnection_def Let_def)
    moreover have "jmap_has (jmap_delete u (pr_users r)) v" if "jmap_get ?byConn k = Some v" for k v
      using that gone ok by (auto simp: presence_ok_def jmap_get_delete jmap_has_def split: if_splits)
    ultimately show ?thesis
      using ok others by (auto simp: presence_ok_def jmap_get_delete split: if_splits)
  next
    case False
    let ?p = "p\<lparr>pu_connections := ?conns\<rparr>"
    let ?r = "r\<lparr>pr_users := jmap_set u ?p (pr_users r), pr_byConn := ?byConn\<rparr>"
    have "presence_ok (fst (removeConnection now c r)) = presence_ok ?r"
      using Some p False by (intro presence_ok_fields) (simp_all add: removeConnection_def Let_def)
    moreover have "owner_ok ?r u ?p"
      using p(2) False by (auto simp: owner_ok_def jmap_has_def jmap_get_delete split: if_splits)
    ultimately show ?thesis
      using ok others by (auto simp: presence_ok_def jmap_get_delete jmap_get_set jmap_has_def split: if_splits)
  qed
qed

lemma presence_ok_put:
  assumes ok: "presence_ok r" and p: "jmap_get (pr_users r) u = Some p" and c: "jmap_get (pr_byConn r) (cp_connId c) = Some u"
  shows "presence_ok (put_conn u p c r)"
proof -
  have mine: "owner_ok r u p"
    using ok p by (simp add: presence_ok_def)
  have "jmap_set (cp_connId c) c (pu_connections p) \<noteq> []"
    by (cases "pu_connections p") (auto simp: jmap_set_def)
  then have "owner_ok (put_conn u p c r) u (p\<lparr>pu_connections := jmap_set (cp_connId c) c (pu_connections p)\<rparr>)"
    using mine c by (auto simp: owner_ok_def put_conn_def jmap_has_def jmap_get_set)
  moreover have "owner_ok (put_conn u p c r) v q" if "v \<noteq> u" "jmap_get (pr_users r) v = Some q" for v q
    using ok that by (auto simp: presence_ok_def owner_ok_def put_conn_def)
  ultimately show ?thesis
    using ok by (auto simp: presence_ok_def put_conn_def jmap_get_set jmap_has_def split: if_splits)
qed

lemma presence_ok_touch: "presence_ok r \<Longrightarrow> presence_ok (touch now c r)"
proof -
  assume ok: "presence_ok r"
  show ?thesis
  proof (cases "jmap_get (pr_byConn r) c")
    case (Some u)
    obtain p x where p: "jmap_get (pr_users r) u = Some p" "jmap_get (pu_connections p) c = Some x" "cp_connId x = c"
      by (rule conn_owner [OF ok Some])
    have put: "presence_ok (put_conn u p y r)" if "cp_connId y = c" for y
      using presence_ok_put [OF ok p(1)] Some that by simp
    show ?thesis
      using Some p put by (simp add: touch_def Let_def)
  qed (use ok in \<open>simp add: touch_def\<close>)
qed

text \<open>The connections a sweep runs over are those of the index, whatever it has marked so far.\<close>

definition listed :: "presence_registry \<Rightarrow> (user_id \<times> connection_presence) list" where
  "listed r = concat (map (\<lambda>p. map (Pair (pu_userId p)) (jmap_values (pu_connections p))) (jmap_values (pr_users r)))"

lemma sweep_listed:
  "presence_sweep now ms r = foldl (\<lambda>s (u, c). sweep_conn (now - ms) u s c) (r, []) (listed r)"
proof -
  have inner: "foldl (\<lambda>s (u, c). sweep_conn k u s c) s (map (Pair v) cs) = foldl (sweep_conn k v) s cs" for k v s cs
    by (induction cs arbitrary: s) simp_all
  have "foldl (\<lambda>s p. foldl (sweep_conn k (pu_userId p)) s (jmap_values (pu_connections p))) s ps =
      foldl (\<lambda>s (u, c). sweep_conn k u s c) s
        (concat (map (\<lambda>p. map (Pair (pu_userId p)) (jmap_values (pu_connections p))) ps))" for k s ps
    by (induction ps arbitrary: s) (simp_all add: inner)
  then show ?thesis
    by (simp add: presence_sweep_def listed_def)
qed

lemma listed_owner:
  assumes "presence_ok r" and "(u, c) \<in> set (listed r)"
  shows "jmap_get (pr_byConn r) (cp_connId c) = Some u"
proof -
  obtain p where p': "p \<in> set (jmap_values (pr_users r))" "pu_userId p = u" "c \<in> set (jmap_values (pu_connections p))"
    using assms(2) by (auto simp: listed_def)
  then obtain v where p: "(v, p) \<in> set (pr_users r)" "pu_userId p = u" "c \<in> set (jmap_values (pu_connections p))"
    by (auto simp: jmap_values_def)
  have "jmap_get (pr_users r) v = Some p"
    using assms(1) p(1) by (simp add: presence_ok_def jmap_wf_def jmap_keys_def jmap_get_iff)
  then have own: "owner_ok r u p"
    using assms(1) p(2) by (auto simp: presence_ok_def owner_ok_def)
  obtain k where "(k, c) \<in> set (pu_connections p)"
    using p(3) by (auto simp: jmap_values_def)
  then have "jmap_get (pu_connections p) k = Some c"
    using own by (simp add: owner_ok_def jmap_wf_def jmap_keys_def jmap_get_iff)
  then show ?thesis
    using own by (auto simp: owner_ok_def jmap_has_def)
qed

text \<open>What holds of a registry and is kept when a connection is written and when \<open>idle\<close> is told, is kept by a sweep.\<close>

lemma sweep_keeps:
  assumes "presence_ok r" and "I r"
    and step: "\<And>q u p c. presence_ok q \<Longrightarrow> I q \<Longrightarrow> jmap_get (pr_users q) u = Some p \<Longrightarrow> jmap_get (pr_byConn q) (cp_connId c) = Some u \<Longrightarrow>
      I (presence_emit (WentIdle u (cp_connId c)) (put_conn u p c q))"
  shows "presence_ok (fst (presence_sweep now ms r)) \<and> I (fst (presence_sweep now ms r))"
proof -
  have "presence_ok (fst s) \<and> I (fst s) \<and> pr_byConn (fst s) = pr_byConn r \<Longrightarrow> set cs \<subseteq> set (listed r) \<Longrightarrow>
      presence_ok (fst (foldl (\<lambda>s (u, c). sweep_conn k u s c) s cs)) \<and> I (fst (foldl (\<lambda>s (u, c). sweep_conn k u s c) s cs))" for s k cs
  proof (induction cs arbitrary: s)
    case (Cons uc cs)
    obtain u c where uc: "uc = (u, c)"
      by fastforce
    have owner: "jmap_get (pr_byConn (fst s)) (cp_connId c) = Some u"
      using listed_owner [OF assms(1), of u c] Cons.prems uc by simp
    obtain p where p: "jmap_get (pr_users (fst s)) u = Some p"
      using conn_owner [OF _ owner] Cons.prems(1) by blast
    have "presence_ok (fst (sweep_conn k u s c)) \<and> I (fst (sweep_conn k u s c)) \<and> pr_byConn (fst (sweep_conn k u s c)) = pr_byConn r"
    proof (cases "\<not> cp_idle c \<and> cp_lastActivityAt c \<le> k")
      case True
      let ?q = "presence_emit (WentIdle u (cp_connId c)) (put_conn u p (c\<lparr>cp_idle := True\<rparr>) (fst s))"
      have "fst (sweep_conn k u s c) = ?q"
        using True p by (simp add: sweep_conn_def case_prod_unfold)
      moreover have "presence_ok ?q" "I ?q"
        using presence_ok_put [OF _ p, of "c\<lparr>cp_idle := True\<rparr>"] step [OF _ _ p, of "c\<lparr>cp_idle := True\<rparr>"] owner Cons.prems(1)
        by simp_all
      ultimately show ?thesis
        using Cons.prems(1) by (simp add: put_conn_def)
    qed (use Cons.prems(1) in \<open>auto simp: sweep_conn_def case_prod_unfold\<close>)
    then show ?case
      using Cons.IH [of "sweep_conn k u s c"] Cons.prems(2) uc by simp
  qed simp
  from this [of "(r, [])" "listed r" "now - ms"] show ?thesis
    using assms(1,2) by (simp add: sweep_listed)
qed

lemma presence_ok_metadata: "presence_ok r \<Longrightarrow> presence_ok (setUserMetadata u m r)"
proof -
  assume ok: "presence_ok r"
  show ?thesis
  proof (cases "jmap_get (pr_users r) u")
    case (Some p)
    let ?r = "r\<lparr>pr_users := jmap_set u (p\<lparr>pu_metadata := m\<rparr>) (pr_users r)\<rparr>"
    have "presence_ok ?r"
      using ok Some by (auto simp: presence_ok_def owner_ok_def jmap_get_set jmap_has_def split: if_splits)
    then show ?thesis
      using Some by (simp add: setUserMetadata_def)
  qed (use ok in \<open>simp add: setUserMetadata_def\<close>)
qed

interpretation presence: invariant_machine presence_step presence_ok
proof
  fix r op
  assume ok: "presence_ok r"
  show "presence_ok (presence_step r op)"
  proof (cases op)
    case (AddConnection now u c label)
    then show ?thesis
      using ok presence_ok_add [OF ok] by (auto simp: presence_step_def split: sum.split)
  next
    case (SweepIdle now ms)
    then show ?thesis
      using sweep_keeps [OF ok, of "\<lambda>_. True"] by (simp add: presence_step_def)
  next
    case (Subscribe userIds)
    then show ?thesis
      using ok by (simp add: presence_step_def subscribe_def Let_def presence_ok_def owner_ok_def)
  next
    case (Unsubscribe n)
    then show ?thesis
      using ok by (simp add: presence_step_def unsubscribe_def presence_ok_def owner_ok_def)
  qed (use ok in \<open>simp_all add: presence_step_def presence_ok_remove presence_ok_touch presence_ok_metadata\<close>)
qed

lemma presence_ok_new: "presence_ok new_presence"
  by (simp add: presence_ok_def new_presence_def)

text \<open>
  After any operations the two indexes agree: a user is online exactly when some connection is registered for it, and its
  number of connections is the number of those.
\<close>

theorem presence_indexes_agree:
  "isOnline u (foldl presence_step new_presence ops) =
     (\<exists>c. jmap_get (pr_byConn (foldl presence_step new_presence ops)) c = Some u)
   \<and> connectionsFor u (foldl presence_step new_presence ops) =
     card {c. jmap_get (pr_byConn (foldl presence_step new_presence ops)) c = Some u}"
proof -
  let ?r = "foldl presence_step new_presence ops"
  have ok: "presence_ok ?r"
    by (rule presence.inv_run [OF presence_ok_new])
  show ?thesis
  proof (cases "jmap_get (pr_users ?r) u")
    case None
    then have "jmap_get (pr_byConn ?r) c \<noteq> Some u" for c
      using ok by (fastforce simp: presence_ok_def jmap_has_def)
    then show ?thesis
      using None by (simp add: isOnline_def connectionsFor_def jmap_has_def)
  next
    case (Some p)
    then have p: "owner_ok ?r u p"
      using ok by (simp add: presence_ok_def)
    then have "{c. jmap_get (pr_byConn ?r) c = Some u} = {c. jmap_get (pu_connections p) c \<noteq> None}"
      by (auto simp: owner_ok_def jmap_has_def)
    moreover have "length (pu_connections p) = card {c. jmap_get (pu_connections p) c \<noteq> None}"
      using p by (intro length_jmap_dom) (simp add: owner_ok_def)
    moreover have "pu_connections p \<noteq> []"
      using p by (simp add: owner_ok_def)
    ultimately have "connectionsFor u ?r = card {c. jmap_get (pr_byConn ?r) c = Some u}" "0 < card {c. jmap_get (pr_byConn ?r) c = Some u}"
      using Some length_greater_0_conv [of "pu_connections p"] by (simp_all add: connectionsFor_def)
    then show ?thesis
      using Some card_gt_0_iff [of "{c. jmap_get (pr_byConn ?r) c = Some u}"] by (auto simp: isOnline_def jmap_has_def)
  qed
qed

section \<open>What a subscriber knows\<close>

text \<open>A listener that keeps a set of users, by the two events on the edge.\<close>

fun track :: "user_id set \<Rightarrow> presence_event \<Rightarrow> user_id set" where
  "track us (WentOnline u at) = insert u us"
| "track us (WentOffline u at) = us - {u}"
| "track us e = us"

definition deliveries_to :: "nat \<Rightarrow> presence_registry \<Rightarrow> presence_event list" where
  "deliveries_to n r = map snd (filter (\<lambda>(k, _). k = n) (pr_delivered r))"

definition online_in :: "user_id jset option \<Rightarrow> presence_registry \<Rightarrow> user_id set" where
  "online_in scope r = {u. isOnline u r \<and> in_scope scope u}"

definition subs_ok :: "presence_registry \<Rightarrow> bool" where
  "subs_ok r \<longleftrightarrow> distinct (map su_number (pr_subscriptions r)) \<and> list_all (\<lambda>s. su_number s < pr_numbers r) (pr_subscriptions r)
     \<and> list_all (\<lambda>(k, _). k < pr_numbers r) (pr_delivered r)"

definition watching :: "nat \<Rightarrow> user_id jset option \<Rightarrow> user_id set \<Rightarrow> presence_registry \<Rightarrow> bool" where
  "watching n scope us r \<longleftrightarrow> subs_ok r \<and> \<lparr>su_number = n, su_userIds = scope\<rparr> \<in> set (pr_subscriptions r)
     \<and> foldl track us (deliveries_to n r) = online_in scope r"

lemma emit_numbers:
  "list_all (\<lambda>s. su_number s < m) subs \<Longrightarrow> list_all (\<lambda>(k, _). k < m) log \<Longrightarrow>
     list_all (\<lambda>(k, _). k < m)
       (foldl (\<lambda>log sub. if \<not> in_scope (su_userIds sub) u then log else log @ [(su_number sub, e)]) log subs)"
  by (induction subs arbitrary: log) auto

lemma subs_ok_emit: "subs_ok r \<Longrightarrow> subs_ok (presence_emit e r)"
  unfolding subs_ok_def emit_fields using emit_numbers [of "pr_numbers r" "pr_subscriptions r" "pr_delivered r" "event_user e" e]
  by (simp add: presence_emit_def)

lemma deliveries_emit:
  assumes "subs_ok r" and "\<lparr>su_number = n, su_userIds = scope\<rparr> \<in> set (pr_subscriptions r)"
  shows "deliveries_to n (presence_emit e r) = deliveries_to n r @ (if in_scope scope (event_user e) then [e] else [])"
    and "subs_ok (presence_emit e r)"
proof -
  let ?f = "\<lambda>log sub. if \<not> in_scope (su_userIds sub) (event_user e) then log else log @ [(su_number sub, e)]"
  have others: "n \<notin> su_number ` set subs \<Longrightarrow> filter (\<lambda>(k, _). k = n) (foldl ?f log subs) = filter (\<lambda>(k, _). k = n) log" for subs log
    by (induction subs arbitrary: log) (auto split: if_splits)
  have "distinct (map su_number subs) \<Longrightarrow> \<lparr>su_number = n, su_userIds = scope\<rparr> \<in> set subs \<Longrightarrow>
      map snd (filter (\<lambda>(k, _). k = n) (foldl ?f log subs)) =
        map snd (filter (\<lambda>(k, _). k = n) log) @ (if in_scope scope (event_user e) then [e] else [])" for subs log
  proof (induction subs arbitrary: log)
    case (Cons s subs)
    show ?case
    proof (cases "s = \<lparr>su_number = n, su_userIds = scope\<rparr>")
      case True
      then show ?thesis
        using Cons.prems(1) by (simp add: others)
    next
      case False
      then have mem: "\<lparr>su_number = n, su_userIds = scope\<rparr> \<in> set subs"
        using Cons.prems(2) by simp
      then have "n \<in> su_number ` set subs"
        by (metis image_eqI subscription.select_convs(1))
      then have "su_number s \<noteq> n"
        using Cons.prems(1) by auto
      then show ?thesis
        using Cons.IH [OF _ mem] Cons.prems(1) by simp
    qed
  qed simp
  then show "deliveries_to n (presence_emit e r) = deliveries_to n r @ (if in_scope scope (event_user e) then [e] else [])"
    using assms by (simp add: deliveries_to_def presence_emit_def subs_ok_def)
  show "subs_ok (presence_emit e r)"
    by (rule subs_ok_emit [OF assms(1)])
qed

text \<open>Numbers are never used twice, so a new subscription has been handed nothing.\<close>

lemma subs_ok_fields:
  "subs_ok (r\<lparr>pr_users := us\<rparr>) = subs_ok r" "subs_ok (r\<lparr>pr_byConn := cs\<rparr>) = subs_ok r"
  "subs_ok (r\<lparr>pr_users := us, pr_byConn := cs\<rparr>) = subs_ok r" "subs_ok (put_conn u p c r) = subs_ok r"
  by (simp_all add: subs_ok_def put_conn_def)

lemma subs_ok_step:
  assumes "presence_ok r" and "subs_ok r"
  shows "subs_ok (presence_step r op)"
proof (cases op)
  case (SweepIdle now ms)
  have "subs_ok (fst (presence_sweep now ms r))"
    by (rule conjunct2 [OF sweep_keeps [where I = subs_ok, OF assms]]) (simp add: subs_ok_emit subs_ok_fields)
  then show ?thesis
    by (simp add: SweepIdle presence_step_def)
next
  case (Subscribe userIds)
  then show ?thesis
    using assms(2) by (auto simp: presence_step_def subscribe_def Let_def subs_ok_def list_all_iff)
next
  case (Unsubscribe k)
  then show ?thesis
    using assms(2) by (auto simp: presence_step_def unsubscribe_def subs_ok_def list_all_iff distinct_map_filter)
qed (use assms(2) in \<open>simp_all add: presence_step_def addConnection_def removeConnection_def touch_def setUserMetadata_def Let_def
      subs_ok_emit subs_ok_fields split: option.split sum.split\<close>)

lemma subs_ok_run: "subs_ok (foldl presence_step new_presence ops)"
proof -
  have "presence_ok (foldl presence_step new_presence ops) \<and> subs_ok (foldl presence_step new_presence ops)"
    by (induction ops rule: rev_induct)
      (simp_all add: presence_ok_new presence.inv_step subs_ok_step, simp add: subs_ok_def new_presence_def)
  then show ?thesis
    by blast
qed

lemma subs_fresh: "subs_ok r \<Longrightarrow> deliveries_to (pr_numbers r) r = []"
  by (fastforce simp: subs_ok_def deliveries_to_def list_all_iff filter_empty_conv)

text \<open>Writing the users and telling of it.\<close>

lemma watching_emit:
  assumes "watching n scope us r" and "pr_subscriptions r' = pr_subscriptions r" and "pr_numbers r' = pr_numbers r"
    and "pr_delivered r' = pr_delivered r"
    and "in_scope scope (event_user e) \<Longrightarrow> track (online_in scope r) e = online_in scope r'"
    and "\<not> in_scope scope (event_user e) \<Longrightarrow> online_in scope r = online_in scope r'"
  shows "watching n scope us (presence_emit e r')"
proof -
  have r': "subs_ok r'" "\<lparr>su_number = n, su_userIds = scope\<rparr> \<in> set (pr_subscriptions r')" "deliveries_to n r' = deliveries_to n r"
    using assms(1-4) by (simp_all add: watching_def subs_ok_def deliveries_to_def)
  have "online_in scope (presence_emit e r') = online_in scope r'"
    by (simp add: online_in_def isOnline_def)
  then show ?thesis
    using deliveries_emit [OF r'(1,2), of e] r' assms(1,5,6) by (simp add: watching_def)
qed

lemma watching_quiet:
  assumes "watching n scope us r" and "pr_subscriptions r' = pr_subscriptions r" and "pr_numbers r' = pr_numbers r"
    and "pr_delivered r' = pr_delivered r" and "\<And>u. isOnline u r' = isOnline u r"
  shows "watching n scope us r'"
  using assms by (simp add: watching_def subs_ok_def deliveries_to_def online_in_def)

lemma put_conn_fields:
  "pr_subscriptions (put_conn u p c r) = pr_subscriptions r" "pr_numbers (put_conn u p c r) = pr_numbers r"
  "pr_delivered (put_conn u p c r) = pr_delivered r"
  by (simp_all add: put_conn_def)

lemma online_put: "jmap_get (pr_users r) u = Some p \<Longrightarrow> isOnline v (put_conn u p c r) = isOnline v r"
  by (auto simp: isOnline_def put_conn_def jmap_has_def jmap_get_set)

lemma watching_step:
  assumes ok: "presence_ok r" and w: "watching n scope us r" and op: "op \<noteq> Unsubscribe n"
  shows "watching n scope us (presence_step r op)"
proof (cases op)
  case (AddConnection now u c label)
  show ?thesis
  proof (cases "jmap_has (pr_byConn r) c")
    case True
    then show ?thesis
      using w AddConnection by (simp add: presence_step_def addConnection_def)
  next
    case False
    then show ?thesis
      unfolding AddConnection presence_step_def addConnection_def Let_def
      by (cases "jmap_get (pr_users r) u")
        (auto intro!: watching_emit [OF w] simp: online_in_def isOnline_def jmap_has_def jmap_get_set split: if_splits)
  qed
next
  case (RemoveConnection now c)
  show ?thesis
  proof (cases "jmap_get (pr_byConn r) c")
    case None
    then show ?thesis
      using w RemoveConnection by (simp add: presence_step_def removeConnection_def)
  next
    case (Some u)
    obtain p where p: "jmap_get (pr_users r) u = Some p"
      by (rule conn_owner [OF ok Some])
    then show ?thesis
      using Some unfolding RemoveConnection presence_step_def removeConnection_def Let_def
      by (auto intro!: watching_emit [OF w] simp: online_in_def isOnline_def jmap_has_def jmap_get_set jmap_get_delete split: if_splits)
  qed
next
  case (Touch now c)
  have put: "watching n scope us (put_conn u p x r)" if "jmap_get (pr_users r) u = Some p" for u p x
    using online_put [OF that] by (intro watching_quiet [OF w]) (simp_all add: put_conn_fields)
  have tell: "watching n scope us (presence_emit (BecameActive u c) (put_conn u p x r))" if "jmap_get (pr_users r) u = Some p" for u p x
    using online_put [OF that] by (intro watching_emit [OF w]) (simp_all add: put_conn_fields online_in_def)
  show ?thesis
    using w put tell unfolding Touch by (auto simp: presence_step_def touch_def Let_def split: option.split)
next
  case (SweepIdle now ms)
  have "watching n scope us (fst (presence_sweep now ms r))"
  proof (rule conjunct2 [OF sweep_keeps [where I = "watching n scope us", OF ok w]])
    fix q u p c
    assume q: "watching n scope us q" and p: "jmap_get (pr_users q) u = Some p"
    show "watching n scope us (presence_emit (WentIdle u (cp_connId c)) (put_conn u p c q))"
      using online_put [OF p] by (intro watching_emit [OF q]) (simp_all add: put_conn_fields online_in_def)
  qed
  then show ?thesis
    by (simp add: SweepIdle presence_step_def)
next
  case (SetMetadata u m)
  show ?thesis
  proof (cases "jmap_get (pr_users r) u")
    case (Some p)
    then show ?thesis
      unfolding SetMetadata presence_step_def setUserMetadata_def
      by (auto intro!: watching_emit [OF w] simp: online_in_def isOnline_def jmap_has_def jmap_get_set split: if_splits)
  qed (use w in \<open>simp add: SetMetadata presence_step_def setUserMetadata_def\<close>)
next
  case (Subscribe userIds)
  have "list_all (\<lambda>s. su_number s < pr_numbers r) (pr_subscriptions r)"
    using w by (simp add: watching_def subs_ok_def)
  then show ?thesis
    using w unfolding Subscribe
    by (auto simp: presence_step_def subscribe_def Let_def watching_def subs_ok_def deliveries_to_def online_in_def isOnline_def
        list_all_iff)
next
  case (Unsubscribe k)
  then show ?thesis
    using w op by (auto simp: presence_step_def unsubscribe_def watching_def subs_ok_def deliveries_to_def online_in_def isOnline_def
        list_all_iff distinct_map_filter)
qed

text \<open>
  A listener that starts with the users who are online when it subscribes and follows the online and offline events it is
  handed knows, at every later time until it unsubscribes, exactly which users of its scope are online, whatever happened before
  and after.
\<close>

theorem subscriber_knows_who_is_online:
  assumes "subscribe userIds (foldl presence_step new_presence before) = (r, n)"
    and "list_all (\<lambda>op. op \<noteq> Unsubscribe n) ops" and "scope = map_option (\<lambda>us. foldl (\<lambda>s u. jset_add u s) [] us) userIds"
  shows "foldl track (online_in scope r) (deliveries_to n (foldl presence_step r ops)) = online_in scope (foldl presence_step r ops)"
proof -
  let ?r0 = "foldl presence_step new_presence before"
  have ok0: "presence_ok ?r0"
    by (rule presence.inv_run [OF presence_ok_new])
  have "subs_ok ?r0"
    by (rule subs_ok_run)
  then have "subs_ok r"
    using subs_ok_step [OF ok0, of "Subscribe userIds"] assms(1) by (simp add: presence_step_def)
  then have "watching n scope (online_in scope r) r"
    using assms(1,3) subs_fresh [OF \<open>subs_ok ?r0\<close>] by (auto simp: subscribe_def Let_def watching_def deliveries_to_def)
  moreover have ok: "presence_ok r"
    using presence.inv_step [OF ok0, of "Subscribe userIds"] assms(1) by (simp add: presence_step_def)
  ultimately have "watching n scope (online_in scope r) (foldl presence_step r ops)"
    using assms(2)
  proof (induction ops rule: rev_induct)
    case (snoc op ops)
    then show ?case
      using watching_step presence.inv_run [OF ok] by simp
  qed simp
  then show ?thesis
    by (simp add: watching_def)
qed

theorem subscriber_knows_who_is_online_witness:
  "foldl track {} (deliveries_to 0 (foldl presence_step (fst (subscribe (Some [js ''ann'']) new_presence))
     [AddConnection 1 (js ''ann'') (js ''c1'') None, AddConnection 2 (js ''bob'') (js ''c2'') None])) = {js ''ann''}"
proof -
  let ?ops = "[AddConnection 1 (js ''ann'') (js ''c1'') None, AddConnection 2 (js ''bob'') (js ''c2'') None]"
  let ?r = "fst (subscribe (Some [js ''ann'']) new_presence)"
  have sub: "subscribe (Some [js ''ann'']) (foldl presence_step new_presence []) = (?r, 0)"
    by (simp add: subscribe_def new_presence_def Let_def)
  have "list_all (\<lambda>op. op \<noteq> Unsubscribe 0) ?ops"
    by simp
  from subscriber_knows_who_is_online [OF sub this refl]
  have "foldl track (online_in (Some [js ''ann'']) ?r) (deliveries_to 0 (foldl presence_step ?r ?ops)) =
      online_in (Some [js ''ann'']) (foldl presence_step ?r ?ops)"
    by (simp add: jset_add_def jset_has_def)
  moreover have "online_in (Some [js ''ann'']) ?r = {}"
    by (auto simp: online_in_def isOnline_def subscribe_def new_presence_def jmap_has_def Let_def)
  moreover have "online_in (Some [js ''ann'']) (foldl presence_step ?r ?ops) = {js ''ann''}"
    by (auto simp: online_in_def isOnline_def subscribe_def new_presence_def jmap_has_def Let_def presence_step_def addConnection_def
        jmap_get_set in_scope_def jset_has_def)
  ultimately show ?thesis
    by simp
qed

end
