(* ===== verification/HttpText.thy ===== *)
theory HttpText
  imports Interfaces
begin

text \<open>
  The text helpers of the HTTP parser engine: searching for a byte string, what is used of
  \<open>String.prototype.trim\<close>, \<open>split\<close> and \<open>TextDecoder\<close>, and \<open>parseHeaderBlock\<close> of
  \<open>http-parser/engine/MultipartParser.ts\<close>, which multipart parts and chunked trailers share. Lower-casing
  is a parameter.
\<close>

section \<open>Searching\<close>

text \<open>\<open>index_of\<close> is the first place where the needle stands, \<open>indexOf\<close> in the code.\<close>

fun index_of :: "'a list \<Rightarrow> 'a list \<Rightarrow> nat option" where
  "index_of needle [] = (if needle = [] then Some 0 else None)"
| "index_of needle (x # xs) =
     (if take (length needle) (x # xs) = needle then Some 0 else map_option Suc (index_of needle xs))"

definition stands_at :: "'a list \<Rightarrow> 'a list \<Rightarrow> nat \<Rightarrow> bool" where
  "stands_at needle xs i \<longleftrightarrow> i \<le> length xs \<and> take (length needle) (drop i xs) = needle"

lemma stands_at_fits: "stands_at needle xs i \<Longrightarrow> i + length needle \<le> length xs"
  using length_take [of "length needle" "drop i xs"] by (auto simp: stands_at_def min_def split: if_splits)

lemma stands_at_Cons: "stands_at needle (x # xs) i \<longleftrightarrow>
    (case i of 0 \<Rightarrow> take (length needle) (x # xs) = needle | Suc i \<Rightarrow> stands_at needle xs i)"
  by (cases i) (simp_all add: stands_at_def)

lemma index_of_Some: "index_of needle xs = Some i \<longleftrightarrow> stands_at needle xs i \<and> (\<forall>j < i. \<not> stands_at needle xs j)"
proof (induction xs arbitrary: i)
  case Nil
  then show ?case
    by (auto simp: stands_at_def)
next
  case (Cons x xs)
  then show ?case
    by (cases i) (auto simp: stands_at_Cons less_Suc_eq_0_disj split: nat.splits)
qed

lemma index_of_None: "index_of needle xs = None \<longleftrightarrow> (\<forall>i. \<not> stands_at needle xs i)"
proof
  assume none: "index_of needle xs = None"
  show "\<forall>i. \<not> stands_at needle xs i"
  proof (rule ccontr)
    assume "\<not> (\<forall>i. \<not> stands_at needle xs i)"
    then obtain i where "stands_at needle xs i" "\<forall>j < i. \<not> stands_at needle xs j"
      using exists_least_iff [of "stands_at needle xs"] by blast
    then show False
      using none index_of_Some [of needle xs i] by simp
  qed
next
  assume "\<forall>i. \<not> stands_at needle xs i"
  then show "index_of needle xs = None"
    using index_of_Some [of needle xs] by (cases "index_of needle xs") auto
qed

lemma stands_at_append_left: "i + length needle \<le> length xs \<Longrightarrow> stands_at needle (xs @ ys) i \<longleftrightarrow> stands_at needle xs i"
  by (auto simp: stands_at_def)

lemma stands_at_drop: "stands_at needle (drop n xs) i \<longleftrightarrow> (if n \<le> length xs then stands_at needle xs (n + i) else needle = [] \<and> i = 0)"
  by (auto simp: stands_at_def add.commute)

text \<open>A place found stays the first one when more bytes arrive.\<close>

lemma index_of_append: "index_of needle xs = Some i \<Longrightarrow> index_of needle (xs @ ys) = Some i"
proof -
  assume found: "index_of needle xs = Some i"
  then have fits: "i + length needle \<le> length xs"
    using index_of_Some stands_at_fits by metis
  with found show "index_of needle (xs @ ys) = Some i"
    unfolding index_of_Some by (auto simp: stands_at_append_left)
qed

lemma index_of_fits: "index_of needle xs = Some i \<Longrightarrow> i + length needle \<le> length xs"
  using index_of_Some stands_at_fits by metis

text \<open>
  What is not found does not stand before the last \<open>length needle - 1\<close> bytes, whatever follows: all before
  them can be let go.
\<close>

lemma not_found_before:
  assumes "index_of needle xs = None" and "stands_at needle (xs @ ys) i"
  shows "length xs < i + length needle"
proof (rule ccontr)
  assume "\<not> length xs < i + length needle"
  then show False
    using assms stands_at_append_left [of i needle xs ys] index_of_None [of needle xs] by simp
qed

lemma index_of_holdback:
  assumes none: "index_of needle xs = None" and keep: "length needle \<le> Suc keep" and n: "n + keep \<le> length xs"
  shows "index_of needle (drop n xs @ ys) = map_option (\<lambda>i. i - n) (index_of needle (xs @ ys))"
proof -
  have shift: "stands_at needle (drop n xs @ ys) i \<longleftrightarrow> stands_at needle (xs @ ys) (n + i)" for i
    using n stands_at_drop [of needle n "xs @ ys" i] by simp
  have early: "\<not> stands_at needle (xs @ ys) i" if "i < n" for i
    using not_found_before [OF none, of ys i] keep n that by auto
  show ?thesis
  proof (cases "index_of needle (xs @ ys)")
    case None
    then have "index_of needle (drop n xs @ ys) = None"
      using shift unfolding index_of_None by simp
    with None show ?thesis by simp
  next
    case (Some i)
    then have at: "stands_at needle (xs @ ys) i" "\<forall>j < i. \<not> stands_at needle (xs @ ys) j"
      by (simp_all add: index_of_Some)
    then have "n \<le> i"
      using early not_le_imp_less by blast
    with at shift have "index_of needle (drop n xs @ ys) = Some (i - n)"
      unfolding index_of_Some by auto
    with Some show ?thesis by simp
  qed
qed

lemma index_of_le_append: "index_of needle xs = None \<Longrightarrow> keep + n = length xs \<Longrightarrow> length needle \<le> Suc keep \<Longrightarrow>
    index_of needle (xs @ ys) = Some i \<Longrightarrow> n \<le> i"
  using not_found_before [of needle xs ys i] by (auto simp: index_of_Some)

text \<open>\<open>indexOf\<close> with a start position.\<close>

definition find_from :: "'a list \<Rightarrow> nat \<Rightarrow> 'a list \<Rightarrow> nat option" where
  "find_from needle i xs = map_option (\<lambda>k. i + k) (index_of needle (drop i xs))"

lemma stands_at_drop_ne: "needle \<noteq> [] \<Longrightarrow> stands_at needle (drop i xs) k \<longleftrightarrow> stands_at needle xs (i + k)"
  using stands_at_fits [of needle xs "i + k"] by (auto simp: stands_at_drop)

lemma find_from_Some: "needle \<noteq> [] \<Longrightarrow> find_from needle i xs = Some e \<longleftrightarrow>
    i \<le> e \<and> stands_at needle xs e \<and> (\<forall>j. i \<le> j \<and> j < e \<longrightarrow> \<not> stands_at needle xs j)"
proof -
  assume ne: "needle \<noteq> []"
  have "find_from needle i xs = Some e \<longleftrightarrow> i \<le> e \<and> index_of needle (drop i xs) = Some (e - i)"
    by (auto simp: find_from_def)
  also have "\<dots> \<longleftrightarrow> i \<le> e \<and> stands_at needle xs e \<and> (\<forall>j < e - i. \<not> stands_at needle xs (i + j))"
    using ne by (auto simp: index_of_Some stands_at_drop_ne)
  also have "\<dots> \<longleftrightarrow> i \<le> e \<and> stands_at needle xs e \<and> (\<forall>j. i \<le> j \<and> j < e \<longrightarrow> \<not> stands_at needle xs j)"
    by (auto simp: le_iff_add)
  finally show ?thesis .
qed

lemma find_from_None: "needle \<noteq> [] \<Longrightarrow> find_from needle i xs = None \<longleftrightarrow> (\<forall>j \<ge> i. \<not> stands_at needle xs j)"
  by (auto simp: find_from_def index_of_None stands_at_drop_ne le_iff_add)

lemma find_from_skip:
  assumes "needle \<noteq> []" and "i \<le> n" and "\<And>j. i \<le> j \<Longrightarrow> j < n \<Longrightarrow> \<not> stands_at needle xs j"
  shows "find_from needle i xs = find_from needle n xs"
proof (cases "find_from needle n xs")
  case None
  then have "\<forall>j \<ge> i. \<not> stands_at needle xs j"
    using assms(3) not_le_imp_less by (auto simp: find_from_None [OF assms(1)])
  then have "find_from needle i xs = None"
    by (simp add: find_from_None [OF assms(1)])
  with None show ?thesis by simp
next
  case (Some e)
  then have "find_from needle i xs = Some e"
    using assms(2,3) not_le_imp_less by (auto simp: find_from_Some [OF assms(1)])
  with Some show ?thesis by simp
qed

lemma find_from_fits: "needle \<noteq> [] \<Longrightarrow> find_from needle i xs = Some e \<Longrightarrow> i \<le> e \<and> e + length needle \<le> length xs"
  using stands_at_fits by (auto simp: find_from_Some)

lemma find_from_zero [simp]: "find_from needle 0 xs = index_of needle xs"
  by (simp add: find_from_def option.map_ident)

text \<open>A separator of two different bytes ends the line it follows.\<close>

lemma stands_at_pair: "stands_at [a, b] xs i \<longleftrightarrow> Suc i < length xs \<and> xs ! i = a \<and> xs ! Suc i = b"
proof (induction xs arbitrary: i)
  case (Cons x xs)
  then show ?case
    by (cases i; cases xs) (auto simp: stands_at_Cons)
qed (simp add: stands_at_def)

lemma index_of_pair:
  assumes "index_of [a, b] line = None" and "a \<noteq> b"
  shows "index_of [a, b] (line @ a # b # rest) = Some (length line)"
proof -
  have "\<not> stands_at [a, b] (line @ a # b # rest) j" if j: "j < length line" for j
  proof (cases "Suc j = length line")
    case True
    with assms(2) show ?thesis
      by (simp add: stands_at_pair nth_append)
  next
    case False
    with j assms(1) show ?thesis
      by (simp add: stands_at_pair nth_append index_of_None)
  qed
  then show ?thesis
    by (simp add: index_of_Some stands_at_pair nth_append)
qed

lemma index_of_absent: "a \<notin> set xs \<Longrightarrow> index_of [a, b] xs = None"
  using nth_mem [of _ xs] by (auto simp: index_of_None stands_at_pair)

lemma index_of_later: "index_of [a, b] xs = Some i \<Longrightarrow> 0 < i \<Longrightarrow> take 2 xs \<noteq> [a, b]"
  by (cases xs) (auto simp: numeral_2_eq_2 split: if_splits)

section \<open>Strings\<close>

text \<open>White space, as \<open>trim\<close> takes it: the ASCII blanks, no-break space, the Unicode spaces and the byte order mark.\<close>

definition is_space :: "16 word \<Rightarrow> bool" where
  "is_space c \<longleftrightarrow> c \<in> set [0x09, 0x0a, 0x0b, 0x0c, 0x0d, 0x20, 0xa0, 0x1680, 0x2028, 0x2029, 0x202f, 0x205f, 0x3000, 0xfeff]
     \<or> 0x2000 \<le> c \<and> c \<le> 0x200a"

definition trim :: "jstring \<Rightarrow> jstring" where
  "trim s = rev (dropWhile is_space (rev (dropWhile is_space s)))"

fun split_on :: "16 word \<Rightarrow> jstring \<Rightarrow> jstring list" where
  "split_on c [] = [[]]"
| "split_on c (x # xs) = (if x = c then [] # split_on c xs else (x # hd (split_on c xs)) # tl (split_on c xs))"

text \<open>\<open>new TextDecoder('latin1')\<close> is the encoding windows-1252.\<close>

definition cp1252_high :: "16 word list" where
  "cp1252_high = [0x20ac, 0x81, 0x201a, 0x0192, 0x201e, 0x2026, 0x2020, 0x2021, 0x02c6, 0x2030, 0x0160, 0x2039, 0x0152, 0x8d, 0x017d, 0x8f,
                  0x90, 0x2018, 0x2019, 0x201c, 0x201d, 0x2022, 0x2013, 0x2014, 0x02dc, 0x2122, 0x0161, 0x203a, 0x0153, 0x9d, 0x017e, 0x0178]"

definition text_decode_latin1 :: "byte list \<Rightarrow> jstring" where
  "text_decode_latin1 = map (\<lambda>b. if 0x80 \<le> b \<and> b < 0xa0 then cp1252_high ! unat (b - 0x80) else ucast b)"

section \<open>Header blocks\<close>

type_synonym header_map = "(jstring, jstring) jmap"

definition crlf_text :: jstring where
  "crlf_text = [0x0d, 0x0a]"

definition header_line :: "(jstring \<Rightarrow> jstring) \<Rightarrow> jstring \<Rightarrow> header_map \<Rightarrow> header_map" where
  "header_line lower line headers =
     (case line of
        [] \<Rightarrow> headers
      | c # _ \<Rightarrow>
          if (c = 0x20 \<or> c = 0x09) \<and> length headers > 0 then
            let lastKey = last (jmap_keys headers) in
            jmap_set lastKey (the (jmap_get headers lastKey) @ [0x20] @ trim line) headers
          else
            (case index_of (js '':'') line of
               None \<Rightarrow> headers
             | Some 0 \<Rightarrow> headers
             | Some colon \<Rightarrow> jmap_set (lower (trim (take colon line))) (trim (drop (colon + 1) line)) headers))"

function header_lines :: "(jstring \<Rightarrow> jstring) \<Rightarrow> jstring \<Rightarrow> header_map \<Rightarrow> header_map" where
  "header_lines lower text headers =
     (if text = [] then headers
      else
        (case index_of crlf_text text of
           None \<Rightarrow> header_line lower text headers
         | Some e \<Rightarrow> header_lines lower (drop (e + 2) text) (header_line lower (take e text) headers)))"
  by pat_completeness auto
termination
  by (relation "measure (\<lambda>(lower, text, headers). length text)") auto

declare header_lines.simps [simp del]

definition parseHeaderBlock :: "(jstring \<Rightarrow> jstring) \<Rightarrow> byte list \<Rightarrow> header_map" where
  "parseHeaderBlock lower bytes = header_lines lower (text_decode_latin1 bytes) jmap_empty"

text \<open>
  A line that continues a field is added to the field inserted last, which is not the line before it when
  that one repeats an earlier field: the continuation of the second \<open>a\<close> goes to \<open>b\<close>.
\<close>

theorem continuation_goes_astray:
  "header_lines (\<lambda>s. s) (js ''a:1'' @ crlf_text @ js ''b:2'' @ crlf_text @ js ''a:3'' @ crlf_text @ js '' x'') jmap_empty =
     [(js ''a'', js ''3''), (js ''b'', js ''2 x'')]"
  by (simp add: header_lines.simps header_line_def crlf_text_def js_def js_char_def jmap_empty_def jmap_set_def jmap_get_def
      jmap_keys_def trim_def is_space_def)

text \<open>Values are trimmed and names lower-cased, line by line.\<close>

lemma header_lines_Nil [simp]: "header_lines lower [] headers = headers"
  by (simp add: header_lines.simps)

lemma header_lines_line:
  assumes "index_of crlf_text line = None"
  shows "header_lines lower (line @ crlf_text @ rest) headers = header_lines lower rest (header_line lower line headers)"
  using assms by (subst header_lines.simps) (simp add: crlf_text_def index_of_pair)

text \<open>A block of field lines on the wire, and where it ends.\<close>

abbreviation CR :: byte where "CR \<equiv> 0x0d"
abbreviation LF :: byte where "LF \<equiv> 0x0a"

definition field_line_ok :: "byte list \<Rightarrow> bool" where
  "field_line_ok line \<longleftrightarrow> line \<noteq> [] \<and> index_of [CR, LF] line = None"

fun join_lines :: "byte list list \<Rightarrow> byte list" where
  "join_lines [] = []"
| "join_lines [line] = line"
| "join_lines (line # lines) = line @ [CR, LF] @ join_lines lines"

lemma stands_at_double: "stands_at [CR, LF, CR, LF] xs i \<longleftrightarrow> stands_at [CR, LF] xs i \<and> stands_at [CR, LF] xs (i + 2)"
proof (induction xs arbitrary: i)
  case (Cons x xs)
  show ?case
  proof (cases i)
    case 0
    then show ?thesis
      by (cases xs; cases "tl xs"; cases "tl (tl xs)") (auto simp: stands_at_pair stands_at_Cons)
  qed (simp add: Cons stands_at_Cons)
qed (simp add: stands_at_def)

text \<open>The empty line behind the last field ends the block.\<close>

lemma block_end:
  "list_all field_line_ok lines \<Longrightarrow> lines \<noteq> [] \<Longrightarrow>
     index_of [CR, LF, CR, LF] (join_lines lines @ [CR, LF, CR, LF] @ rest) = Some (length (join_lines lines))
     \<and> take 2 (join_lines lines @ [CR, LF, CR, LF] @ rest) \<noteq> [CR, LF]"
proof (induction lines rule: join_lines.induct)
  case (2 line)
  have first: "index_of [CR, LF] (line @ CR # LF # CR # LF # rest) = Some (length line)"
    using 2 by (intro index_of_pair) (simp_all add: field_line_ok_def)
  then have "index_of [CR, LF, CR, LF] (line @ CR # LF # CR # LF # rest) = Some (length line)"
    by (auto simp: index_of_Some stands_at_double) (simp add: stands_at_pair nth_append)
  moreover have "take 2 (line @ CR # LF # CR # LF # rest) \<noteq> [CR, LF]"
    using index_of_later [OF first] 2 by (simp add: field_line_ok_def)
  ultimately show ?case by simp
next
  case (3 line line' lines)
  let ?tail = "join_lines (line' # lines) @ [CR, LF, CR, LF] @ rest"
  let ?all = "line @ CR # LF # ?tail"
  have first: "index_of [CR, LF] ?all = Some (length line)"
    using 3 by (intro index_of_pair) (simp_all add: field_line_ok_def)
  have ih: "index_of [CR, LF, CR, LF] ?tail = Some (length (join_lines (line' # lines)))" "take 2 ?tail \<noteq> [CR, LF]"
    using 3 by simp_all
  have "\<not> stands_at [CR, LF, CR, LF] ?all j" if early: "j < length line + 2" for j
  proof -
    consider "j < length line" | "j = length line" | "j = Suc (length line)"
      using early by linarith
    then show ?thesis
    proof cases
      case 2
      have "\<not> stands_at [CR, LF] ?tail 0"
        using ih(2) by (simp add: stands_at_def numeral_2_eq_2)
      then have "\<not> stands_at [CR, LF] ?all (length line + 2)"
        using stands_at_drop_ne [of "[CR, LF]" "length line + 2" ?all 0] by simp
      with 2 show ?thesis by (simp add: stands_at_double)
    next
      case 3
      then show ?thesis
        by (simp add: stands_at_double stands_at_pair nth_append)
    qed (use first in \<open>simp add: index_of_Some stands_at_double\<close>)
  qed
  then have "find_from [CR, LF, CR, LF] 0 ?all = find_from [CR, LF, CR, LF] (length line + 2) ?all"
    by (intro find_from_skip) simp_all
  then have "index_of [CR, LF, CR, LF] ?all = Some (length line + 2 + length (join_lines (line' # lines)))"
    using ih(1) by (simp add: find_from_def)
  moreover have "take 2 ?all \<noteq> [CR, LF]"
    using index_of_later [OF first] 3 by (simp add: field_line_ok_def)
  ultimately show ?case by simp
qed simp

end
