(* ===== verification/NodeBuffer.thy ===== *)
theory NodeBuffer
  imports JsJson
begin

text \<open>
  The conversions of Node's \<open>Buffer\<close> that the WebSocket server uses: \<open>toString('latin1')\<close>,
  \<open>toString('utf8')\<close> with its replacement characters (the maximal-subpart rule of the WHATWG decoder),
  \<open>base64url\<close> both ways, and \<open>Number(BigInt)\<close>, with their round trips.
\<close>

section \<open>Strings\<close>

definition latin1 :: "byte list \<Rightarrow> jstring" where
  "latin1 bs = map ucast bs"

definition replacement :: codepoint where
  "replacement = 0xfffd"

fun utf8_lossy :: "nat list \<Rightarrow> codepoint list" where
  "utf8_lossy [] = []"
| "utf8_lossy (b0 # bs) =
     (if b0 < 0x80 then b0 # utf8_lossy bs
      else if in_range 0xC2 0xDF b0 then
        (case bs of
           [] \<Rightarrow> [replacement]
         | b1 # bs1 \<Rightarrow>
             if in_range 0x80 0xBF b1 then ((b0 - 0xC0) * 64 + (b1 - 0x80)) # utf8_lossy bs1
             else replacement # utf8_lossy bs)
      else if in_range 0xE0 0xEF b0 then
        (case bs of
           [] \<Rightarrow> [replacement]
         | b1 # bs1 \<Rightarrow>
             if in_range (if b0 = 0xE0 then 0xA0 else 0x80) (if b0 = 0xED then 0x9F else 0xBF) b1 then
               (case bs1 of
                  [] \<Rightarrow> [replacement]
                | b2 # bs2 \<Rightarrow>
                    if in_range 0x80 0xBF b2
                    then ((b0 - 0xE0) * 4096 + (b1 - 0x80) * 64 + (b2 - 0x80)) # utf8_lossy bs2
                    else replacement # utf8_lossy bs1)
             else replacement # utf8_lossy bs)
      else if in_range 0xF0 0xF4 b0 then
        (case bs of
           [] \<Rightarrow> [replacement]
         | b1 # bs1 \<Rightarrow>
             if in_range (if b0 = 0xF0 then 0x90 else 0x80) (if b0 = 0xF4 then 0x8F else 0xBF) b1 then
               (case bs1 of
                  [] \<Rightarrow> [replacement]
                | b2 # bs2 \<Rightarrow>
                    if in_range 0x80 0xBF b2 then
                      (case bs2 of
                         [] \<Rightarrow> [replacement]
                       | b3 # bs3 \<Rightarrow>
                           if in_range 0x80 0xBF b3
                           then ((b0 - 0xF0) * 262144 + (b1 - 0x80) * 4096 + (b2 - 0x80) * 64 + (b3 - 0x80))
                                  # utf8_lossy bs3
                           else replacement # utf8_lossy bs2)
                    else replacement # utf8_lossy bs1)
             else replacement # utf8_lossy bs)
      else replacement # utf8_lossy bs)"

declare utf8_lossy.simps(2) [simp del]

text \<open>Scalar values to UTF-16 code units.\<close>

definition units1 :: "codepoint \<Rightarrow> jstring" where
  "units1 c =
     (if c < 0x10000 then [word_of_nat c]
      else [word_of_nat (0xd800 + (c - 0x10000) div 1024), word_of_nat (0xdc00 + (c - 0x10000) mod 1024)])"

definition utf8_string :: "byte list \<Rightarrow> jstring" where
  "utf8_string bs = concat (map units1 (utf8_lossy (map unat bs)))"

text \<open>On well-formed input the replacing decoder is the strict one.\<close>

lemma utf8_lossy_strict: "utf8_decode_nat bs = Some cs \<Longrightarrow> utf8_lossy bs = cs"
proof (induction "length bs" arbitrary: bs cs rule: less_induct)
  case less
  have IH: "utf8_lossy xs = ys" if "utf8_decode_nat xs = Some ys" "length xs < length bs" for xs ys
    using less.hyps that by blast
  show ?case
  proof (cases bs)
    case Nil
    with less.prems show ?thesis by simp
  next
    case bs: (Cons b0 bs0)
    note strict = less.prems [unfolded bs utf8_decode_nat.simps(2)]
    consider "b0 < 0x80" | "\<not> b0 < 0x80" "in_range 0xC2 0xDF b0"
      | "\<not> b0 < 0x80" "\<not> in_range 0xC2 0xDF b0" "in_range 0xE0 0xEF b0"
      | "\<not> b0 < 0x80" "\<not> in_range 0xC2 0xDF b0" "\<not> in_range 0xE0 0xEF b0" "in_range 0xF0 0xF4 b0"
      | "\<not> b0 < 0x80" "\<not> in_range 0xC2 0xDF b0" "\<not> in_range 0xE0 0xEF b0" "\<not> in_range 0xF0 0xF4 b0"
      by blast
    then show ?thesis
    proof cases
      case 1
      with strict obtain cs0 where "utf8_decode_nat bs0 = Some cs0" "cs = b0 # cs0"
        by auto
      with 1 IH show ?thesis by (simp add: bs utf8_lossy.simps(2))
    next
      case 2
      with strict obtain b1 bs1 cs0 where "bs0 = b1 # bs1" "in_range 0x80 0xBF b1" "utf8_decode_nat bs1 = Some cs0"
        "cs = ((b0 - 0xC0) * 64 + (b1 - 0x80)) # cs0"
        by (simp split: list.splits if_splits) blast
      with 2 IH show ?thesis by (simp add: bs utf8_lossy.simps(2))
    next
      case 3
      with strict obtain b1 b2 bs2 cs0 where "bs0 = b1 # b2 # bs2"
        "in_range (if b0 = 0xE0 then 0xA0 else 0x80) (if b0 = 0xED then 0x9F else 0xBF) b1" "in_range 0x80 0xBF b2"
        "utf8_decode_nat bs2 = Some cs0" "cs = ((b0 - 0xE0) * 4096 + (b1 - 0x80) * 64 + (b2 - 0x80)) # cs0"
        by (auto split: list.splits if_split_asm)
      with 3 IH show ?thesis by (simp add: bs utf8_lossy.simps(2))
    next
      case 4
      with strict obtain b1 b2 b3 bs3 cs0 where "bs0 = b1 # b2 # b3 # bs3"
        "in_range (if b0 = 0xF0 then 0x90 else 0x80) (if b0 = 0xF4 then 0x8F else 0xBF) b1" "in_range 0x80 0xBF b2"
        "in_range 0x80 0xBF b3" "utf8_decode_nat bs3 = Some cs0"
        "cs = ((b0 - 0xF0) * 262144 + (b1 - 0x80) * 4096 + (b2 - 0x80) * 64 + (b3 - 0x80)) # cs0"
        by (auto split: list.splits if_split_asm)
      with 4 IH show ?thesis by (simp add: bs utf8_lossy.simps(2))
    next
      case 5
      with strict show ?thesis by simp
    qed
  qed
qed

text \<open>\<open>String.prototype.isWellFormed\<close>: no lone surrogate.\<close>

fun well_formed :: "jstring \<Rightarrow> bool" where
  "well_formed [] = True"
| "well_formed (c # rest) =
     (if high_surrogate c
      then (case rest of d # rest' \<Rightarrow> low_surrogate d \<and> well_formed rest' | [] \<Rightarrow> False)
      else \<not> low_surrogate c \<and> well_formed rest)"

lemma units1_pair:
  assumes "high_surrogate c" and "low_surrogate d"
  shows "units1 (0x10000 + (unat c - 0xd800) * 1024 + (unat d - 0xdc00)) = [c, d]"
proof -
  have c: "0xd800 \<le> unat c" and d: "0xdc00 \<le> unat d" "unat d - 0xdc00 < 1024"
    using assms by (simp_all add: high_surrogate_def low_surrogate_def word_le_nat_alt) linarith
  have "((unat c - 0xd800) * 1024 + (unat d - 0xdc00)) div 1024 = unat c - 0xd800"
    "((unat c - 0xd800) * 1024 + (unat d - 0xdc00)) mod 1024 = unat d - 0xdc00"
    using d(2) by simp_all
  with c d(1) show ?thesis
    by (simp add: units1_def add.assoc)
qed

lemma units_codepoints: "well_formed s \<Longrightarrow> concat (map units1 (codepoints s)) = s"
proof (induction s rule: well_formed.induct)
  case (2 c rest)
  have "unat c < 0x10000"
    using unsigned_less [of c, where 'a = nat] by simp
  then have one: "units1 (unat c) = [c]"
    by (simp add: units1_def)
  show ?case
  proof (cases "high_surrogate c")
    case True
    with "2.prems" obtain d rest' where rest: "rest = d # rest'" "low_surrogate d" "well_formed rest'"
      by (auto split: list.splits)
    then have "concat (map units1 (codepoints rest')) = rest'"
      using "2.IH"(1) [OF True rest(1)] by simp
    then show ?thesis
      using units1_pair [OF True rest(2)] True rest by (simp only: codepoints.simps list.map concat.simps list.case if_True) simp
  next
    case False
    with "2.prems" have "\<not> low_surrogate c" "well_formed rest"
      by simp_all
    with "2.IH"(2) [OF False] False one show ?thesis by simp
  qed
qed simp

lemma utf8_string_buffer_from: "well_formed s \<Longrightarrow> utf8_string (buffer_from s) = s"
  unfolding utf8_string_def
  using utf8_lossy_strict [OF buffer_from_decodes [of s, unfolded utf8_decode_def]] units_codepoints
  by (simp only:)

section \<open>base64url\<close>

text \<open>
  Three bytes are four sextets. The decoder takes both alphabets, stops at \<open>=\<close>, skips what is no digit,
  and drops a last sextet that completes no byte.
\<close>

fun sextets :: "nat list \<Rightarrow> nat list" where
  "sextets [] = []"
| "sextets [a] = [a div 4, a mod 4 * 16]"
| "sextets [a, b] = [a div 4, a mod 4 * 16 + b div 16, b mod 16 * 4]"
| "sextets (a # b # c # rest) = [a div 4, a mod 4 * 16 + b div 16, b mod 16 * 4 + c div 64, c mod 64] @ sextets rest"

fun unsextets :: "nat list \<Rightarrow> nat list" where
  "unsextets (w # x # y # z # rest) = [w * 4 + x div 16, x mod 16 * 16 + y div 4, y mod 4 * 64 + z] @ unsextets rest"
| "unsextets [w, x, y] = [w * 4 + x div 16, x mod 16 * 16 + y div 4]"
| "unsextets [w, x] = [w * 4 + x div 16]"
| "unsextets [w] = []"
| "unsextets [] = []"

definition url_digit :: "nat \<Rightarrow> 16 word" where
  "url_digit n =
     word_of_nat (if n < 26 then 65 + n else if n < 52 then 71 + n else if n < 62 then n - 4 else if n = 62 then 45 else 95)"

definition url_value :: "16 word \<Rightarrow> nat option" where
  "url_value c =
     (let n = unat c in
      if 65 \<le> n \<and> n \<le> 90 then Some (n - 65)
      else if 97 \<le> n \<and> n \<le> 122 then Some (n - 71)
      else if 48 \<le> n \<and> n \<le> 57 then Some (n + 4)
      else if n = 45 \<or> n = 43 then Some 62
      else if n = 95 \<or> n = 47 then Some 63
      else None)"

definition base64url_encode :: "byte list \<Rightarrow> jstring" where
  "base64url_encode bs = map url_digit (sextets (map unat bs))"

definition base64url_decode :: "jstring \<Rightarrow> byte list" where
  "base64url_decode s = map word_of_nat (unsextets (List.map_filter url_value (takeWhile (\<lambda>c. c \<noteq> 0x3d) s)))"

lemma unsextets_sextets: "\<forall>b \<in> set bs. b < 256 \<Longrightarrow> unsextets (sextets bs) = bs"
proof (induction bs rule: sextets.induct)
  case (4 a b c rest)
  have "b div 16 < 16" "c div 64 < 4"
    using 4 by auto
  then have "b div 16 div 16 = 0" "b div 16 mod 16 = b div 16" "c div 64 div 4 = 0" "c div 64 mod 4 = c div 64"
    by simp_all
  moreover have "b div 16 * 16 + b mod 16 = b" "c div 64 * 64 + c mod 64 = c"
    by simp_all
  ultimately show ?case
    using 4 by simp
qed auto

lemma sextets_range: "\<forall>b \<in> set bs. b < 256 \<Longrightarrow> \<forall>x \<in> set (sextets bs). x < 64"
  by (induction bs rule: sextets.induct) auto

lemma url_digit_value:
  assumes "n < 64"
  shows "url_value (url_digit n) = Some n \<and> url_digit n \<noteq> 0x3d"
proof -
  have "unat (url_digit n) =
      (if n < 26 then 65 + n else if n < 52 then 71 + n else if n < 62 then n - 4 else if n = 62 then 45 else 95)"
    using assms unfolding url_digit_def by (simp only: unat_of_nat) (simp add: take_bit_nat_eq_self)
  then have "url_value (url_digit n) = Some n \<and> unat (url_digit n) \<noteq> unat (0x3d :: 16 word)"
    using assms by (auto simp: url_value_def Let_def)
  then show ?thesis
    by auto
qed

lemma base64url_roundtrip: "base64url_decode (base64url_encode bs) = bs"
proof -
  have bytes: "\<forall>b \<in> set (map unat bs). b < 256"
    using unsigned_less [where 'a = nat and 'b = 8] by auto
  have digits: "\<forall>x \<in> set xs. x < 64 \<Longrightarrow>
      List.map_filter url_value (takeWhile (\<lambda>c. c \<noteq> 0x3d) (map url_digit xs)) = xs" for xs
    by (induction xs) (simp_all add: url_digit_value)
  have "base64url_decode (base64url_encode bs) = map word_of_nat (map unat bs)"
    unfolding base64url_decode_def base64url_encode_def
    by (simp only: digits [OF sextets_range [OF bytes]] unsextets_sextets [OF bytes])
  then show ?thesis
    by (simp add: map_idI)
qed

section \<open>Numbers\<close>

text \<open>
  \<open>Number\<close> of a non-negative \<open>BigInt\<close>: the nearest number of 53 significant bits, ties to even.
\<close>

fun bit_len :: "nat \<Rightarrow> nat" where
  "bit_len n = (if n = 0 then 0 else Suc (bit_len (n div 2)))"

declare bit_len.simps [simp del]

definition number_of_bigint :: "nat \<Rightarrow> nat" where
  "number_of_bigint n =
     (let e = bit_len n - 53 in
      if e = 0 then n
      else
        let q = n div 2 ^ e; r = n mod 2 ^ e; half = 2 ^ (e - 1) in
        (if half < r \<or> r = half \<and> odd q then q + 1 else q) * 2 ^ e)"

lemma bit_len_le: "n < 2 ^ k \<Longrightarrow> bit_len n \<le> k"
proof (induction k arbitrary: n)
  case 0
  then show ?case by (simp add: bit_len.simps)
next
  case (Suc k)
  then have "n div 2 < 2 ^ k"
    by auto
  then show ?case
    using Suc.IH [of "n div 2"] by (subst bit_len.simps) simp
qed

lemma number_of_bigint_exact [simp]: "n < 2 ^ 53 \<Longrightarrow> number_of_bigint n = n"
  using bit_len_le [of n 53] by (simp add: number_of_bigint_def)

end
