(* ===== verification/UrlParser.thy ===== *)
theory UrlParser
  imports HttpText NodeBuffer
begin

text \<open>
  The parser of request targets, \<open>http-parser/engine/UrlParser.ts\<close>: the splitting of a target into its
  components, percent-decoding and the query string both ways. Exceptions are results; lower-casing is a
  parameter. Its promises: a query string written by \<open>stringifyQuery\<close> is read back to the same pairs,
  inside a whole target too, and ports stay in range.
\<close>

section \<open>Data\<close>

datatype url_reason =
    BadPercent nat
  | EmptyInput
  | ExceedsMaxLength int
  | InvalidScheme jstring
  | UnterminatedIpv6
  | UnexpectedAfterIpv6 jstring
  | NonNumericPort jstring
  | PortOutOfRange nat
  | PortRequired

datatype url_error = UrlParseError jstring url_reason | URIError

record url_options =
  uo_inferDefaultPort :: "bool option"
  uo_maxLength :: "int option"
  uo_decodeComponents :: "bool option"

record url_parser =
  up_inferDefaultPort :: bool
  up_maxLength :: int
  up_decode :: bool

record parsed_url =
  pu_protocol :: jstring
  pu_host :: jstring
  pu_port :: "nat option"
  pu_path :: jstring
  pu_query :: "(jstring \<times> jstring) list"
  pu_queryMap :: "(jstring, jstring) jmap"
  pu_fragment :: jstring
  pu_username :: jstring
  pu_password :: jstring

definition new_url_parser :: "url_options \<Rightarrow> url_parser" where
  "new_url_parser options =
     \<lparr>up_inferDefaultPort = (case uo_inferDefaultPort options of Some b \<Rightarrow> b | None \<Rightarrow> True),
      up_maxLength = (case uo_maxLength options of Some n \<Rightarrow> n | None \<Rightarrow> 0),
      up_decode = (case uo_decodeComponents options of Some b \<Rightarrow> b | None \<Rightarrow> True)\<rparr>"

definition SCHEME_PORT :: "(jstring, nat) jmap" where
  "SCHEME_PORT = [(js ''http'', 80), (js ''https'', 443), (js ''ws'', 80), (js ''wss'', 443)]"

section \<open>Percent-decoding\<close>

abbreviation PERCENT :: "16 word" where "PERCENT \<equiv> 0x25"
abbreviation PLUS :: "16 word" where "PLUS \<equiv> 0x2b"

definition hex_chars :: jstring where
  "hex_chars = js ''0123456789abcdef''"

definition isHexChar :: "(jstring \<Rightarrow> jstring) \<Rightarrow> 16 word \<Rightarrow> bool" where
  "isHexChar lower c \<longleftrightarrow> index_of (lower [c]) hex_chars \<noteq> None"

text \<open>\<open>parseInt(XY, 16)\<close> for two hexadecimal digits.\<close>

definition hex_unit :: "16 word \<Rightarrow> nat" where
  "hex_unit c = (if 0x30 \<le> c \<and> c \<le> 0x39 then unat c - 0x30
                 else if 0x41 \<le> c \<and> c \<le> 0x46 then unat c - 0x41 + 10
                 else if 0x61 \<le> c \<and> c \<le> 0x66 then unat c - 0x61 + 10 else 0)"

text \<open>The bytes, or the offset of a bad escape. A unit that is not ASCII is encoded by itself.\<close>

fun pct_bytes :: "(jstring \<Rightarrow> jstring) \<Rightarrow> bool \<Rightarrow> nat \<Rightarrow> jstring \<Rightarrow> nat + byte list" where
  "pct_bytes lower plusAsSpace i [] = Inr []"
| "pct_bytes lower plusAsSpace i (c # rest) =
     (if c = PERCENT then
        (case rest of
           a # b # rest' \<Rightarrow>
             if isHexChar lower a \<and> isHexChar lower b
             then map_sum id ((#) (word_of_nat (hex_unit a * 16 + hex_unit b))) (pct_bytes lower plusAsSpace (i + 3) rest')
             else Inl i
         | _ \<Rightarrow> Inl i)
      else if plusAsSpace \<and> c = PLUS then map_sum id ((#) 0x20) (pct_bytes lower plusAsSpace (i + 1) rest)
      else map_sum id ((@) (if c < 0x80 then [ucast c] else buffer_from [c])) (pct_bytes lower plusAsSpace (i + 1) rest))"

text \<open>\<open>new TextDecoder('utf-8', { fatal: false }).decode\<close>: replacement characters, and no leading U+FEFF.\<close>

definition text_decode_lossy :: "byte list \<Rightarrow> jstring" where
  "text_decode_lossy bytes =
     concat (map units1 (case utf8_lossy (map unat bytes) of c # cs \<Rightarrow> if c = 0xFEFF then cs else c # cs | [] \<Rightarrow> []))"

definition pctDecode :: "(jstring \<Rightarrow> jstring) \<Rightarrow> bool \<Rightarrow> jstring \<Rightarrow> url_error + jstring" where
  "pctDecode lower plusAsSpace s =
     (if PERCENT \<notin> set s \<and> (\<not> plusAsSpace \<or> PLUS \<notin> set s) then Inr s
      else
        (case pct_bytes lower plusAsSpace 0 s of
           Inl i \<Rightarrow> Inl (UrlParseError s (BadPercent i))
         | Inr bytes \<Rightarrow> Inr (text_decode_lossy bytes)))"

section \<open>Query strings\<close>

definition parse_pair :: "(jstring \<Rightarrow> jstring) \<Rightarrow> jstring \<Rightarrow> url_error + jstring \<times> jstring" where
  "parse_pair lower pair =
     (case index_of (js ''='') pair of
        None \<Rightarrow> map_sum id (\<lambda>k. (k, [])) (pctDecode lower True pair)
      | Some eq \<Rightarrow>
          (case pctDecode lower True (take eq pair) of
             Inl e \<Rightarrow> Inl e
           | Inr k \<Rightarrow> map_sum id (\<lambda>v. (k, v)) (pctDecode lower True (drop (eq + 1) pair))))"

fun parse_pairs :: "(jstring \<Rightarrow> jstring) \<Rightarrow> jstring list \<Rightarrow> url_error + (jstring \<times> jstring) list" where
  "parse_pairs lower [] = Inr []"
| "parse_pairs lower (pair # pairs) =
     (if pair = [] then parse_pairs lower pairs
      else
        (case parse_pair lower pair of
           Inl e \<Rightarrow> Inl e
         | Inr kv \<Rightarrow> map_sum id ((#) kv) (parse_pairs lower pairs)))"

definition parseQuery :: "(jstring \<Rightarrow> jstring) \<Rightarrow> jstring \<Rightarrow> url_error + (jstring \<times> jstring) list" where
  "parseQuery lower qs = (if qs = [] then Inr [] else parse_pairs lower (split_on (js_char (CHR ''&'')) qs))"

text \<open>The first value of each key.\<close>

definition query_map :: "(jstring \<times> jstring) list \<Rightarrow> (jstring, jstring) jmap" where
  "query_map query = foldl (\<lambda>m (k, v). if jmap_has m k then m else jmap_set k v m) jmap_empty query"

text \<open>\<open>encodeURIComponent\<close>, which throws on a lone surrogate, and \<open>replace(/%20/g, '+')\<close>.\<close>

definition unreserved :: "nat \<Rightarrow> bool" where
  "unreserved c \<longleftrightarrow> 0x61 \<le> c \<and> c \<le> 0x7a \<or> 0x41 \<le> c \<and> c \<le> 0x5a \<or> 0x30 \<le> c \<and> c \<le> 0x39
     \<or> c \<in> set (map of_char ''-_.!~*'' @ [0x27, 0x28, 0x29])"

definition hex_upper :: "nat \<Rightarrow> 16 word" where
  "hex_upper n = word_of_nat (if n < 10 then 0x30 + n else 0x41 + (n - 10))"

definition pct_byte :: "nat \<Rightarrow> jstring" where
  "pct_byte b = [PERCENT, hex_upper (b div 16), hex_upper (b mod 16)]"

definition encode_codepoint :: "codepoint \<Rightarrow> jstring" where
  "encode_codepoint c = (if unreserved c then [word_of_nat c] else concat (map pct_byte (utf8_encode1 c)))"

definition encodeURIComponent :: "jstring \<Rightarrow> url_error + jstring" where
  "encodeURIComponent s = (if well_formed s then Inr (concat (map encode_codepoint (codepoints s))) else Inl URIError)"

fun replace_spaces :: "jstring \<Rightarrow> jstring" where
  "replace_spaces (a # b # c # s) =
     (if a = PERCENT \<and> b = 0x32 \<and> c = 0x30 then PLUS # replace_spaces s else a # replace_spaces (b # c # s))"
| "replace_spaces s = s"

definition query_enc :: "jstring \<Rightarrow> url_error + jstring" where
  "query_enc s = map_sum id replace_spaces (encodeURIComponent s)"

fun stringify_pairs :: "(jstring \<times> jstring) list \<Rightarrow> url_error + jstring list" where
  "stringify_pairs [] = Inr []"
| "stringify_pairs ((k, v) # pairs) =
     (case query_enc k of
        Inl e \<Rightarrow> Inl e
      | Inr k \<Rightarrow>
          (case query_enc v of
             Inl e \<Rightarrow> Inl e
           | Inr v \<Rightarrow> map_sum id ((#) (k @ js ''='' @ v)) (stringify_pairs pairs)))"

fun join_with :: "jstring \<Rightarrow> jstring list \<Rightarrow> jstring" where
  "join_with sep [] = []"
| "join_with sep [s] = s"
| "join_with sep (s # ss) = s @ sep @ join_with sep ss"

definition stringifyQuery :: "(jstring \<times> jstring) list \<Rightarrow> url_error + jstring" where
  "stringifyQuery pairs = map_sum id (join_with (js ''&'')) (stringify_pairs pairs)"

section \<open>Targets\<close>

definition last_index :: "16 word \<Rightarrow> jstring \<Rightarrow> nat option" where
  "last_index c s = map_option (\<lambda>k. length s - 1 - k) (index_of [c] (rev s))"

definition decimal :: "jstring \<Rightarrow> nat" where
  "decimal s = foldl (\<lambda>n c. n * 10 + (unat c - 0x30)) 0 s"

definition parsePort :: "jstring \<Rightarrow> jstring \<Rightarrow> url_error + nat option" where
  "parsePort s input =
     (if s = [] then Inr None
      else if \<not> list_all (\<lambda>c. 0x30 \<le> c \<and> c \<le> 0x39) s then Inl (UrlParseError input (NonNumericPort s))
      else
        let port = decimal s in
        if port > 65535 then Inl (UrlParseError input (PortOutOfRange port)) else Inr (Some port))"

definition default_port :: "url_parser \<Rightarrow> jstring \<Rightarrow> nat option" where
  "default_port p protocol = (if up_inferDefaultPort p then jmap_get SCHEME_PORT protocol else None)"

definition splitHostPort :: "url_parser \<Rightarrow> jstring \<Rightarrow> jstring \<Rightarrow> jstring \<Rightarrow> url_error + jstring \<times> nat option" where
  "splitHostPort p hostport input protocol =
     (if hostport = [] then Inr ([], default_port p protocol)
      else if hd hostport = js_char (CHR ''['') then
        (case index_of (js '']'') hostport of
           None \<Rightarrow> Inl (UrlParseError input UnterminatedIpv6)
         | Some close \<Rightarrow>
             let host = take (close + 1) hostport;
                 tail = drop (close + 1) hostport
             in if tail = [] then Inr (host, default_port p protocol)
                else if hd tail \<noteq> js_char (CHR '':'') then Inl (UrlParseError input (UnexpectedAfterIpv6 tail))
                else map_sum id (\<lambda>port. (host, port)) (parsePort (tl tail) input))
      else
        (case last_index (js_char (CHR '':'')) hostport of
           None \<Rightarrow> Inr (hostport, default_port p protocol)
         | Some colon \<Rightarrow> map_sum id (\<lambda>port. (take colon hostport, port)) (parsePort (drop (colon + 1) hostport) input)))"

definition scheme_ok :: "jstring \<Rightarrow> bool" where
  "scheme_ok s \<longleftrightarrow> (case s of
     [] \<Rightarrow> False
   | c # rest \<Rightarrow> 0x61 \<le> c \<and> c \<le> 0x7a \<and>
       list_all (\<lambda>c. 0x61 \<le> c \<and> c \<le> 0x7a \<or> 0x30 \<le> c \<and> c \<le> 0x39 \<or> c \<in> set (js ''+.-'')) rest)"

definition authority_end :: "jstring \<Rightarrow> nat" where
  "authority_end s =
     foldl (\<lambda>e sep. case index_of sep s of Some i \<Rightarrow> if i < e then i else e | None \<Rightarrow> e) (length s) [js ''/'', js ''?'', js ''#'']"

text \<open>The \<open>scheme://authority\<close> prefix: protocol, authority and what follows.\<close>

definition split_scheme :: "(jstring \<Rightarrow> jstring) \<Rightarrow> jstring \<Rightarrow> url_error + jstring \<times> jstring \<times> jstring" where
  "split_scheme lower input =
     (case index_of (js ''://'') input of
        None \<Rightarrow> Inr ([], [], input)
      | Some i \<Rightarrow>
          let protocol = lower (take i input) in
          if \<not> scheme_ok protocol then Inl (UrlParseError input (InvalidScheme protocol))
          else
            let rest = drop (i + 3) input; e = authority_end rest in
            Inr (protocol, take e rest, drop e rest))"

definition split_off :: "jstring \<Rightarrow> jstring \<Rightarrow> jstring \<times> jstring" where
  "split_off sep s = (case index_of sep s of Some i \<Rightarrow> (take i s, drop (i + 1) s) | None \<Rightarrow> (s, []))"

definition split_userinfo :: "jstring \<Rightarrow> jstring \<times> jstring \<times> jstring" where
  "split_userinfo authority =
     (case last_index (js_char (CHR ''@'')) authority of
        None \<Rightarrow> ([], [], authority)
      | Some i \<Rightarrow>
          let (username, password) = split_off (js '':'') (take i authority) in
          (username, password, drop (i + 1) authority))"

definition url_decoded :: "(jstring \<Rightarrow> jstring) \<Rightarrow> url_parser \<Rightarrow> jstring \<Rightarrow> url_error + jstring" where
  "url_decoded lower p s = (if up_decode p then pctDecode lower False s else Inr s)"

definition bind_url :: "url_error + 'a \<Rightarrow> ('a \<Rightarrow> url_error + 'b) \<Rightarrow> url_error + 'b" where
  "bind_url r f = (case r of Inl e \<Rightarrow> Inl e | Inr x \<Rightarrow> f x)"

definition url_parse :: "(jstring \<Rightarrow> jstring) \<Rightarrow> jstring \<Rightarrow> url_parser \<Rightarrow> url_error + parsed_url" where
  "url_parse lower input p =
     (if input = [] then Inl (UrlParseError input EmptyInput)
      else if 0 < up_maxLength p \<and> up_maxLength p < int (length input)
      then Inl (UrlParseError input (ExceedsMaxLength (up_maxLength p)))
      else if input = js ''*'' then
        Inr \<lparr>pu_protocol = [], pu_host = [], pu_port = None, pu_path = js ''*'', pu_query = [], pu_queryMap = jmap_empty,
             pu_fragment = [], pu_username = [], pu_password = []\<rparr>
      else
        bind_url (split_scheme lower input) (\<lambda>(protocol, authority, rest).
          let (rest, fragment) = split_off (js ''#'') rest;
              (rest, queryStr) = split_off (js ''?'') rest;
              path = (if rest = [] \<and> authority \<noteq> [] then js ''/'' else rest);
              (username, password, hostport) = split_userinfo authority
          in
          bind_url (splitHostPort p hostport input protocol) (\<lambda>(host, port).
          bind_url (parseQuery lower queryStr) (\<lambda>query.
          bind_url (url_decoded lower p path) (\<lambda>path.
          bind_url (url_decoded lower p fragment) (\<lambda>fragment.
          bind_url (url_decoded lower p username) (\<lambda>username.
          bind_url (url_decoded lower p password) (\<lambda>password.
            Inr \<lparr>pu_protocol = protocol, pu_host = lower host, pu_port = port, pu_path = (if path = [] then js ''/'' else path),
                 pu_query = query, pu_queryMap = query_map query,
                 pu_fragment = fragment, pu_username = username, pu_password = password\<rparr>))))))))"

definition url_parseAuthority :: "jstring \<Rightarrow> url_parser \<Rightarrow> url_error + jstring \<times> nat" where
  "url_parseAuthority input p =
     bind_url (splitHostPort p input input []) (\<lambda>(host, port).
       case port of None \<Rightarrow> Inl (UrlParseError input PortRequired) | Some port \<Rightarrow> Inr (host, port))"

section \<open>Decoding what was encoded\<close>

text \<open>Lower-casing as far as the code relies on it: on ASCII.\<close>

definition ascii_down :: "16 word \<Rightarrow> 16 word" where
  "ascii_down c = (if 0x41 \<le> c \<and> c \<le> 0x5a then c + 0x20 else c)"

definition lowers_ascii :: "(jstring \<Rightarrow> jstring) \<Rightarrow> bool" where
  "lowers_ascii lower \<longleftrightarrow> (\<forall>c < 0x80. lower [c] = [ascii_down c])"

definition decodable :: "jstring \<Rightarrow> bool" where
  "decodable s \<longleftrightarrow> well_formed s \<and> (s = [] \<or> hd s \<noteq> 0xFEFF)"

lemma codepoints_bom: "s \<noteq> [] \<Longrightarrow> hd s \<noteq> 0xFEFF \<Longrightarrow> codepoints s \<noteq> [] \<and> hd (codepoints s) \<noteq> 0xFEFF"
proof (cases s)
  case (Cons c rest)
  assume "hd s \<noteq> 0xFEFF"
  with Cons have "unat c \<noteq> 0xFEFF"
    by (simp add: word_unat_eq_iff)
  with Cons show ?thesis
    by (simp split: list.splits)
qed simp

lemma text_decode_buffer: "decodable s \<Longrightarrow> text_decode_lossy (buffer_from s) = s"
proof -
  assume ok: "decodable s"
  have units: "concat (map units1 (codepoints s)) = s"
    using ok by (simp add: decodable_def units_codepoints)
  have lossy: "utf8_lossy (map unat (buffer_from s)) = codepoints s"
    using utf8_lossy_strict [OF buffer_from_decodes [of s, unfolded utf8_decode_def]] .
  show ?thesis
  proof (cases "s = []")
    case True
    then show ?thesis
      using lossy by (simp add: text_decode_lossy_def)
  next
    case False
    then show ?thesis
      using codepoints_bom [of s] ok lossy units
      by (cases "codepoints s") (simp_all add: text_decode_lossy_def decodable_def)
  qed
qed

lemma buffer_from_ascii: "\<forall>c \<in> set s. c < 0x80 \<Longrightarrow> buffer_from s = map ucast s"
proof -
  assume ascii: "\<forall>c \<in> set s. c < 0x80"
  have "utf8_encode (map unat s) = map ucast s"
    using ascii by (induction s) (simp_all add: utf8_encode_def utf8_encode1_def word_less_nat_alt of_nat_unat)
  then show ?thesis
    using codepoints_ascii [OF ascii] by (simp add: buffer_from_def)
qed

lemma ascii_decodable: "\<forall>c \<in> set s. c < 0x80 \<Longrightarrow> decodable s"
proof -
  assume ascii: "\<forall>c \<in> set s. c < 0x80"
  have "\<not> high_surrogate c \<and> \<not> low_surrogate c \<and> c \<noteq> 0xFEFF" if "c < 0x80" for c :: "16 word"
    using that by (auto simp: high_surrogate_def low_surrogate_def word_le_nat_alt word_less_nat_alt)
  then show ?thesis
    using ascii unfolding decodable_def by (induction s) auto
qed

text \<open>Hexadecimal digits.\<close>

lemma hex_cases: "n < 16 \<Longrightarrow> list_all P [0..<16] \<Longrightarrow> P n"
  by (simp add: list_all_iff)

lemma hex_upper_facts:
  assumes "n < 16" and "lowers_ascii lower"
  shows "hex_upper n \<noteq> PERCENT \<and> hex_upper n < 0x80 \<and> unreserved (unat (hex_upper n)) \<and> hex_unit (hex_upper n) = n
    \<and> isHexChar lower (hex_upper n)"
proof -
  have low: "lower [c] = [ascii_down c]" if "c < 0x80" for c
    using assms(2) that by (simp add: lowers_ascii_def)
  show ?thesis
    by (rule hex_cases [OF assms(1)])
      (simp add: upt_rec hex_upper_def unreserved_def hex_unit_def isHexChar_def low ascii_down_def hex_chars_def js_def js_char_def)
qed

lemma hex_upper_inject: "m < 16 \<Longrightarrow> n < 16 \<Longrightarrow> hex_upper m = hex_upper n \<longleftrightarrow> m = n"
proof
  assume mn: "m < 16" "n < 16" and eq: "hex_upper m = hex_upper n"
  have "hex_unit (hex_upper k) = k" if "k < 16" for k
    by (rule hex_cases [OF that]) (simp add: upt_rec hex_upper_def hex_unit_def)
  with mn eq show "m = n" by metis
qed simp

text \<open>The encoded text, byte by byte: as it is, or escaped.\<close>

definition enc_byte :: "nat \<times> bool \<Rightarrow> jstring" where
  "enc_byte = (\<lambda>(b, plain). if plain then [word_of_nat b] else pct_byte b)"

definition enc_bytes :: "codepoint \<Rightarrow> (nat \<times> bool) list" where
  "enc_bytes c = (if unreserved c then [(c, True)] else map (\<lambda>b. (b, False)) (utf8_encode1 c))"

definition enc_ok :: "nat \<times> bool \<Rightarrow> bool" where
  "enc_ok = (\<lambda>(b, plain). b < 256 \<and> (plain \<longrightarrow> unreserved b))"

lemma unreserved_ascii: "unreserved c \<Longrightarrow> c < 0x80 \<and> c \<noteq> 0x25 \<and> c \<noteq> 0x2b \<and> c \<noteq> 0x26 \<and> c \<noteq> 0x3d \<and> c \<noteq> 0x3a \<and> c \<noteq> 0x23 \<and> c \<noteq> 0x3f"
  by (auto simp: unreserved_def)

lemma encode_codepoint_bytes: "encode_codepoint c = concat (map enc_byte (enc_bytes c))"
  by (simp add: encode_codepoint_def enc_bytes_def enc_byte_def comp_def)

lemma enc_bytes_ok: "is_scalar c \<Longrightarrow> list_all enc_ok (enc_bytes c) \<and> map fst (enc_bytes c) = utf8_encode1 c"
  using encode1_bytes [of c] unreserved_ascii [of c]
  by (auto simp: enc_bytes_def enc_ok_def list_all_iff utf8_encode1_def comp_def)

lemma replace_spaces_other: "a \<noteq> PERCENT \<Longrightarrow> replace_spaces (a # s) = a # replace_spaces s"
  by (cases s; cases "tl s") auto

lemma word16_plain: "b < 0x80 \<Longrightarrow> unat (word_of_nat b :: 16 word) = b"
  by (simp add: unat_of_nat take_bit_nat_eq_self)

lemma replace_enc_byte:
  assumes "enc_ok bp"
  shows "replace_spaces (enc_byte bp @ rest) = (if bp = (0x20, False) then [PLUS] else enc_byte bp) @ replace_spaces rest"
proof -
  obtain b plain where bp: "bp = (b, plain)" by (cases bp)
  show ?thesis
  proof (cases plain)
    case True
    then have "b < 0x80" "b \<noteq> 0x25"
      using assms unreserved_ascii [of b] by (auto simp: bp enc_ok_def)
    then have "(word_of_nat b :: 16 word) \<noteq> PERCENT"
      using word16_plain [of b] by auto
    with True show ?thesis
      by (simp add: bp enc_byte_def replace_spaces_other)
  next
    case False
    have nib: "b div 16 < 16" "b mod 16 < 16"
      using assms by (auto simp: bp enc_ok_def)
    have ascii: "lowers_ascii (map ascii_down)"
      by (simp add: lowers_ascii_def)
    have two: "hex_upper (b div 16) = 0x32 \<longleftrightarrow> b div 16 = 2" "hex_upper (b mod 16) = 0x30 \<longleftrightarrow> b mod 16 = 0"
      using hex_upper_inject [OF nib(1), of 2] hex_upper_inject [OF nib(2), of 0] by (simp_all add: hex_upper_def)
    have space: "b div 16 = 2 \<and> b mod 16 = 0 \<longleftrightarrow> b = 0x20"
      using div_mult_mod_eq [of b 16] by auto
    show ?thesis
      using False two space hex_upper_facts [OF nib(1) ascii] hex_upper_facts [OF nib(2) ascii]
      by (auto simp: bp enc_byte_def pct_byte_def replace_spaces_other)
  qed
qed

lemma replace_enc: "list_all enc_ok bps \<Longrightarrow>
    replace_spaces (concat (map enc_byte bps)) = concat (map (\<lambda>bp. if bp = (0x20, False) then [PLUS] else enc_byte bp) bps)"
  by (induction bps) (simp_all add: replace_enc_byte del: append.simps)

lemma single_append: "(@) [x] = (#) x"
  by (simp add: fun_eq_iff)

lemma encode_codepoints: "concat (map encode_codepoint cs) = concat (map enc_byte (concat (map enc_bytes cs)))"
  by (induction cs) (simp_all add: encode_codepoint_bytes)

lemma pct_enc_byte:
  assumes "enc_ok bp" and "lowers_ascii lower"
  shows "pct_bytes lower True i ((if bp = (0x20, False) then [PLUS] else enc_byte bp) @ rest) =
    map_sum id ((#) (word_of_nat (fst bp)))
      (pct_bytes lower True (i + (if snd bp \<or> bp = (0x20, False) then 1 else 3)) rest)"
proof -
  obtain b plain where bp: "bp = (b, plain)" by (cases bp)
  consider "plain" | "\<not> plain" "b = 0x20" | "\<not> plain" "b \<noteq> 0x20"
    by blast
  then show ?thesis
  proof cases
    case 1
    then have b: "b < 0x80" "b \<noteq> 0x25" "b \<noteq> 0x2b"
      using assms(1) unreserved_ascii [of b] by (auto simp: bp enc_ok_def)
    have "(word_of_nat b :: 16 word) < 0x80"
      using b word16_plain [of b] by (simp add: word_less_nat_alt)
    moreover have "(word_of_nat b :: 16 word) \<noteq> PERCENT" "(word_of_nat b :: 16 word) \<noteq> PLUS"
      using b word16_plain [of b] by auto
    moreover have "(ucast (word_of_nat b :: 16 word) :: byte) = word_of_nat b"
      using b word16_plain [of b] by (metis of_nat_unat)
    ultimately show ?thesis
      using 1 by (simp add: bp enc_byte_def single_append)
  next
    case 2
    then show ?thesis by (simp add: bp)
  next
    case 3
    have nib: "b div 16 < 16" "b mod 16 < 16"
      using assms by (auto simp: bp enc_ok_def)
    show ?thesis
      using 3 hex_upper_facts [OF nib(1) assms(2)] hex_upper_facts [OF nib(2) assms(2)]
      by (simp add: bp enc_byte_def pct_byte_def)
  qed
qed

lemma pct_enc: "list_all enc_ok bps \<Longrightarrow> lowers_ascii lower \<Longrightarrow>
    pct_bytes lower True i (replace_spaces (concat (map enc_byte bps))) = Inr (map (\<lambda>bp. word_of_nat (fst bp)) bps)"
proof (induction bps arbitrary: i)
  case (Cons bp bps)
  have "pct_bytes lower True i (replace_spaces (concat (map enc_byte (bp # bps)))) =
      pct_bytes lower True i ((if bp = (0x20, False) then [PLUS] else enc_byte bp) @ replace_spaces (concat (map enc_byte bps)))"
    using Cons.prems by (simp add: replace_enc_byte)
  then show ?case
    using Cons by (simp add: pct_enc_byte del: append.simps)
qed simp

text \<open>What an encoded text is made of.\<close>

definition url_unit :: "16 word \<Rightarrow> bool" where
  "url_unit c \<longleftrightarrow> c < 0x80 \<and> (unreserved (unat c) \<or> c = PERCENT \<or> c = PLUS)"

lemma enc_units:
  assumes "list_all enc_ok bps"
  shows "list_all url_unit (replace_spaces (concat (map enc_byte bps)))"
proof -
  have one: "list_all url_unit (if bp = (0x20, False) then [PLUS] else enc_byte bp)" if "enc_ok bp" for bp
  proof -
    obtain b plain where bp: "bp = (b, plain)" by (cases bp)
    show ?thesis
    proof (cases plain)
      case True
      then have "unreserved b" "b < 0x80"
        using that unreserved_ascii [of b] by (auto simp: bp enc_ok_def)
      with True word16_plain [of b] show ?thesis
        by (simp add: bp enc_byte_def url_unit_def word_less_nat_alt)
    next
      case False
      have nib: "b div 16 < 16" "b mod 16 < 16"
        using that by (auto simp: bp enc_ok_def)
      have "lowers_ascii (map ascii_down)"
        by (simp add: lowers_ascii_def)
      with False hex_upper_facts nib show ?thesis
        by (auto simp: bp enc_byte_def pct_byte_def url_unit_def)
    qed
  qed
  have "replace_spaces (concat (map enc_byte (bp # bps))) =
      (if bp = (0x20, False) then [PLUS] else enc_byte bp) @ replace_spaces (concat (map enc_byte bps))" if "enc_ok bp" for bp bps
    using replace_enc_byte [OF that] by (simp del: append.simps)
  with one have "enc_ok bp \<Longrightarrow> list_all url_unit (replace_spaces (concat (map enc_byte bps))) \<Longrightarrow>
      list_all url_unit (replace_spaces (concat (map enc_byte (bp # bps))))" for bp bps
    by (metis list_all_append)
  with assms show ?thesis
    by (induction bps) (simp, metis list.pred_inject(2))
qed

lemma query_enc_bytes:
  assumes "well_formed s"
  obtains bps where "query_enc s = Inr (replace_spaces (concat (map enc_byte bps)))" "list_all enc_ok bps"
    "map (\<lambda>bp. word_of_nat (fst bp)) bps = buffer_from s"
proof
  let ?bps = "concat (map enc_bytes (codepoints s))"
  have scalar: "\<forall>c \<in> set (codepoints s). is_scalar c"
    by (rule codepoints_scalar)
  show "query_enc s = Inr (replace_spaces (concat (map enc_byte ?bps)))"
    using assms by (simp add: query_enc_def encodeURIComponent_def encode_codepoints del: map_concat)
  show "list_all enc_ok ?bps"
    using scalar enc_bytes_ok by (auto simp: list_all_iff)
  have "map fst ?bps = concat (map utf8_encode1 (codepoints s))"
    using scalar enc_bytes_ok by (simp add: map_concat comp_def cong: map_cong)
  then show "map (\<lambda>bp. word_of_nat (fst bp)) ?bps = buffer_from s"
    by (simp add: buffer_from_def utf8_encode_def flip: map_map comp_def [of word_of_nat fst])
qed

text \<open>A text without escapes decodes to itself both ways.\<close>

lemma pct_plain: "\<forall>c \<in> set s. c < 0x80 \<Longrightarrow> PERCENT \<notin> set s \<Longrightarrow> \<not> sp \<or> PLUS \<notin> set s \<Longrightarrow>
    pct_bytes lower sp i s = Inr (map ucast s)"
  by (induction s arbitrary: i) auto

lemma pct_decode_slow:
  assumes "list_all url_unit s" and "pct_bytes lower True 0 s = Inr bytes"
  shows "pctDecode lower True s = Inr (text_decode_lossy bytes)"
proof (cases "PERCENT \<notin> set s \<and> PLUS \<notin> set s")
  case True
  have ascii: "\<forall>c \<in> set s. c < 0x80"
    using assms(1) by (simp add: list_all_iff url_unit_def)
  then have "bytes = buffer_from s"
    using assms(2) pct_plain [of s True lower 0] True by (simp add: buffer_from_ascii)
  with True ascii show ?thesis
    by (simp add: pctDecode_def text_decode_buffer ascii_decodable)
next
  case False
  with assms(2) show ?thesis by (auto simp: pctDecode_def)
qed

lemma pct_decode_enc:
  assumes "decodable s" and "lowers_ascii lower"
  obtains t where "query_enc s = Inr t" "list_all url_unit t" "pctDecode lower True t = Inr s"
proof -
  obtain bps where b: "query_enc s = Inr (replace_spaces (concat (map enc_byte bps)))" "list_all enc_ok bps"
      "map (\<lambda>bp. word_of_nat (fst bp)) bps = buffer_from s"
    using query_enc_bytes assms(1) unfolding decodable_def by blast
  show ?thesis
  proof
    show "query_enc s = Inr (replace_spaces (concat (map enc_byte bps)))"
      by (rule b)
    show "list_all url_unit (replace_spaces (concat (map enc_byte bps)))"
      by (rule enc_units [OF b(2)])
    then show "pctDecode lower True (replace_spaces (concat (map enc_byte bps))) = Inr s"
      using pct_decode_slow pct_enc [OF b(2) assms(2), of 0] b(3) text_decode_buffer [OF assms(1)] by metis
  qed
qed

section \<open>Query strings read back\<close>

lemma index_of_no_head: "needle \<noteq> [] \<Longrightarrow> hd needle \<notin> set xs \<Longrightarrow> index_of needle xs = None"
proof (induction xs)
  case (Cons x xs)
  then show ?case
    by (cases needle) auto
qed simp

lemma index_of_single: "c \<notin> set xs \<Longrightarrow> index_of [c] (xs @ c # ys) = Some (length xs)"
  by (induction xs) auto

lemma split_on_none: "c \<notin> set s \<Longrightarrow> split_on c s = [s]"
  by (induction s) auto

lemma split_on_sep: "c \<notin> set s \<Longrightarrow> split_on c (s @ c # rest) = s # split_on c rest"
  by (induction s) auto

lemma split_on_join: "ss \<noteq> [] \<Longrightarrow> \<forall>s \<in> set ss. c \<notin> set s \<Longrightarrow> split_on c (join_with [c] ss) = ss"
  by (induction "[c]" ss rule: join_with.induct) (simp_all add: split_on_none split_on_sep)

abbreviation AMP :: "16 word" where "AMP \<equiv> 0x26"
abbreviation EQUALS :: "16 word" where "EQUALS \<equiv> 0x3d"

lemma separators: "js ''&'' = [AMP]" "js ''='' = [EQUALS]" "js_char (CHR ''&'') = AMP"
  "js ''#'' = [0x23]" "js ''?'' = [0x3f]" "js '':'' = [0x3a]" "js ''://'' = [0x3a, 0x2f, 0x2f]"
  by (simp_all add: js_def js_char_def)

lemma url_unit_not: "url_unit c \<Longrightarrow> c \<noteq> AMP \<and> c \<noteq> EQUALS \<and> c \<noteq> 0x23 \<and> c \<noteq> 0x3f \<and> c \<noteq> 0x3a"
  using unreserved_ascii [of "unat c"] by (auto simp: url_unit_def)

definition pair_decodable :: "jstring \<times> jstring \<Rightarrow> bool" where
  "pair_decodable = (\<lambda>(k, v). decodable k \<and> decodable v)"

lemma stringify_pairs_read:
  assumes "list_all pair_decodable pairs" and "lowers_ascii lower"
  shows "\<exists>ss. stringify_pairs pairs = Inr ss \<and> length ss = length pairs \<and> parse_pairs lower ss = Inr pairs
    \<and> (\<forall>s \<in> set ss. \<forall>c \<in> set s. url_unit c \<or> c = EQUALS)"
  using assms(1)
proof (induction pairs)
  case (Cons kv pairs)
  obtain k v where kv: "kv = (k, v)" by (cases kv)
  have ok: "decodable k" "decodable v"
    using Cons.prems by (simp_all add: kv pair_decodable_def)
  obtain tk where k: "query_enc k = Inr tk" "list_all url_unit tk" "pctDecode lower True tk = Inr k"
    using pct_decode_enc [OF ok(1) assms(2)] .
  obtain tv where v: "query_enc v = Inr tv" "list_all url_unit tv" "pctDecode lower True tv = Inr v"
    using pct_decode_enc [OF ok(2) assms(2)] .
  obtain ss where ss: "stringify_pairs pairs = Inr ss" "length ss = length pairs" "parse_pairs lower ss = Inr pairs"
      "\<forall>s \<in> set ss. \<forall>c \<in> set s. url_unit c \<or> c = EQUALS"
    using Cons by auto
  have "EQUALS \<notin> set tk"
    using k(2) url_unit_not by (auto simp: list_all_iff)
  then have "parse_pair lower (tk @ EQUALS # tv) = Inr (k, v)"
    using k(3) v(3) by (simp add: parse_pair_def separators index_of_single)
  then show ?case
    using k v ss by (auto simp: kv separators list_all_iff)
qed simp

lemma join_units: "\<forall>s \<in> set ss. \<forall>c \<in> set s. P c \<Longrightarrow> \<forall>c \<in> set (join_with [d] ss). P c \<or> c = d"
  by (induction "[d]" ss rule: join_with.induct) auto

lemma stringify_read:
  assumes "list_all pair_decodable pairs" and "lowers_ascii lower"
  shows "\<exists>qs. stringifyQuery pairs = Inr qs \<and> parseQuery lower qs = Inr pairs \<and> (\<forall>c \<in> set qs. url_unit c \<or> c = EQUALS \<or> c = AMP)"
proof -
  obtain ss where ss: "stringify_pairs pairs = Inr ss" "length ss = length pairs" "parse_pairs lower ss = Inr pairs"
      "\<forall>s \<in> set ss. \<forall>c \<in> set s. url_unit c \<or> c = EQUALS"
    using stringify_pairs_read [OF assms] by blast
  have units: "\<forall>c \<in> set (join_with [AMP] ss). (url_unit c \<or> c = EQUALS) \<or> c = AMP"
    using join_units [OF ss(4)] .
  have read: "parseQuery lower (join_with [AMP] ss) = Inr pairs"
  proof (cases ss)
    case Nil
    with ss show ?thesis by (simp add: parseQuery_def)
  next
    case (Cons s ss')
    have "\<forall>s \<in> set ss. AMP \<notin> set s"
      using ss(4) url_unit_not by fastforce
    then have split: "split_on AMP (join_with [AMP] ss) = ss"
      using Cons by (intro split_on_join) simp_all
    show ?thesis
    proof (cases "join_with [AMP] ss = []")
      case True
      then have "ss = [[]]"
        using split by simp
      with ss show ?thesis
        by (simp add: parseQuery_def)
    next
      case False
      with split ss(3) show ?thesis
        by (simp add: parseQuery_def separators)
    qed
  qed
  show ?thesis
    using ss(1) read units by (auto simp: stringifyQuery_def separators)
qed

text \<open>
  The query string that \<open>stringifyQuery\<close> writes is read back by \<open>parseQuery\<close> to exactly the same pairs in
  the same order, duplicates and empty ones included, for every text without lone surrogates that does not
  begin with U+FEFF.
\<close>

theorem url_query_roundtrip:
  assumes "list_all pair_decodable pairs" and "lowers_ascii lower"
  shows "\<exists>qs. stringifyQuery pairs = Inr qs \<and> parseQuery lower qs = Inr pairs"
  using stringify_read [OF assms] by blast

theorem url_query_roundtrip_witness:
  "\<exists>qs. stringifyQuery [(js ''a b'', [0xe9]), ([], js ''+&=''), (js ''a b'', [0xd83d, 0xde00])] = Inr qs
    \<and> parseQuery (map ascii_down) qs = Inr [(js ''a b'', [0xe9]), ([], js ''+&=''), (js ''a b'', [0xd83d, 0xde00])]"
proof -
  have "list_all pair_decodable [(js ''a b'', [0xe9]), ([], js ''+&=''), (js ''a b'', [0xd83d, 0xde00])]"
    by (simp add: pair_decodable_def decodable_def js_def js_char_def high_surrogate_def low_surrogate_def)
  moreover have "lowers_ascii (map ascii_down)"
    by (simp add: lowers_ascii_def)
  ultimately show ?thesis
    by (rule url_query_roundtrip)
qed

section \<open>Whole targets\<close>

definition path_unit :: "16 word \<Rightarrow> bool" where
  "path_unit c \<longleftrightarrow> c < 0x80 \<and> unreserved (unat c) \<or> c = 0x2f"

lemma split_off_here: "c \<notin> set xs \<Longrightarrow> split_off [c] (xs @ c # ys) = (xs, ys)"
  by (simp add: split_off_def index_of_single)

lemma split_off_absent: "c \<notin> set xs \<Longrightarrow> split_off [c] xs = (xs, [])"
  by (simp add: split_off_def index_of_no_head)

text \<open>
  C32: a target made of a path and a query string written by \<open>stringifyQuery\<close> from keys and values that are
  well-formed and do not begin with U+FEFF is parsed to that path and to the same pairs, with no scheme, port,
  user or fragment, when the path begins with a slash and has slashes and unreserved characters only and the
  target is within \<open>maxLength\<close>; of \<open>toLowerCase\<close> only what it does to ASCII is relied on. A U+FEFF at the head of
  a key or value is written and lost in reading.
\<close>

theorem url_target_roundtrip:
  assumes "list_all pair_decodable pairs" and "lowers_ascii lower" and "stringifyQuery pairs = Inr qs"
    and "list_all path_unit path" and "hd path = 0x2f" and "path \<noteq> []"
    and "up_maxLength p \<le> 0 \<or> int (length (path @ js ''?'' @ qs)) \<le> up_maxLength p"
  shows "\<exists>u. url_parse lower (path @ js ''?'' @ qs) p = Inr u \<and> pu_path u = path \<and> pu_query u = pairs
    \<and> pu_queryMap u = query_map pairs \<and> pu_protocol u = [] \<and> pu_port u = None \<and> pu_fragment u = [] \<and> pu_username u = [] \<and> pu_password u = []"
proof -
  have qs: "parseQuery lower qs = Inr pairs" "\<forall>c \<in> set qs. url_unit c \<or> c = EQUALS \<or> c = AMP"
    using stringify_read [OF assms(1,2)] assms(3) by auto
  have path: "\<forall>c \<in> set path. c \<noteq> 0x3a \<and> c \<noteq> 0x23 \<and> c \<noteq> 0x3f \<and> c \<noteq> PERCENT \<and> c \<noteq> PLUS"
    using assms(4) unreserved_ascii by (fastforce simp: list_all_iff path_unit_def)
  have "0x3a \<notin> set (path @ 0x3f # qs)" "0x23 \<notin> set (path @ 0x3f # qs)"
    using path qs(2) url_unit_not by fastforce+
  then have scheme: "split_scheme lower (path @ 0x3f # qs) = Inr ([], [], path @ 0x3f # qs)"
    and fragment: "split_off [0x23] (path @ 0x3f # qs) = (path @ 0x3f # qs, [])"
    by (simp_all add: split_scheme_def separators index_of_no_head split_off_absent)
  have query: "split_off [0x3f] (path @ 0x3f # qs) = (path, qs)"
    using path by (intro split_off_here) auto
  have "path @ 0x3f # qs \<noteq> js ''*''"
    using assms(5,6) by (cases path) (auto simp: js_def js_char_def)
  moreover have "url_decoded lower p path = Inr path" "url_decoded lower p [] = Inr []"
    using path by (auto simp: url_decoded_def pctDecode_def)
  moreover have "splitHostPort p [] (path @ 0x3f # qs) [] = Inr ([], None)"
    by (simp add: splitHostPort_def default_port_def SCHEME_PORT_def jmap_get_def js_def)
  ultimately show ?thesis
    using scheme fragment query qs(1) assms(6,7)
    by (auto simp: url_parse_def bind_url_def separators split_userinfo_def last_index_def)
qed

theorem url_target_roundtrip_witness:
  "\<exists>u. url_parse (map ascii_down) (js ''/a'' @ js ''?'' @ js ''k=v+w'') (new_url_parser \<lparr>uo_inferDefaultPort = None, uo_maxLength = Some 9, uo_decodeComponents = None\<rparr>) = Inr u
    \<and> pu_path u = js ''/a'' \<and> pu_query u = [(js ''k'', js ''v w'')] \<and> pu_port u = None"
proof -
  have "stringifyQuery [(js ''k'', js ''v w'')] = Inr (js ''k=v+w'')"
    by (simp add: stringifyQuery_def query_enc_def encodeURIComponent_def js_def js_char_def high_surrogate_def low_surrogate_def
        encode_codepoint_def unreserved_def utf8_encode1_def pct_byte_def hex_upper_def)
  moreover have "list_all pair_decodable [(js ''k'', js ''v w'')]"
    by (simp add: pair_decodable_def decodable_def js_def js_char_def high_surrogate_def low_surrogate_def)
  moreover have "lowers_ascii (map ascii_down)"
    by (simp add: lowers_ascii_def)
  moreover have "list_all path_unit (js ''/a'')" "hd (js ''/a'') = 0x2f"
    by (simp_all add: js_def js_char_def path_unit_def unreserved_def)
  ultimately show ?thesis
    using url_target_roundtrip [where pairs = "[(js ''k'', js ''v w'')]" and qs = "js ''k=v+w''" and path = "js ''/a''" and lower = "map ascii_down"
        and p = "new_url_parser \<lparr>uo_inferDefaultPort = None, uo_maxLength = Some 9, uo_decodeComponents = None\<rparr>"]
    by (auto simp: new_url_parser_def js_length)
qed

text \<open>
  A target in origin form with an absolute URL anywhere in it, as in a redirect parameter, is refused: the
  text before \<open>://\<close> is taken for a scheme.
\<close>

theorem url_in_query_rejected:
  assumes "index_of (js ''://'') target = Some i" and "hd target = 0x2f" and "\<forall>s. hd (lower (0x2f # s)) = 0x2f \<and> lower (0x2f # s) \<noteq> []"
    and "up_maxLength p \<le> 0"
  shows "url_parse lower target p = Inl (UrlParseError target (InvalidScheme (lower (take i target))))"
proof -
  have ne: "target \<noteq> []"
    using assms(1) by (auto simp: js_def)
  have "0 < i"
    using assms(1,2) ne by (cases target; cases i) (auto simp: separators split: if_splits)
  then have "take i target = 0x2f # tl (take i target)"
    using ne assms(2) by (cases target; cases i) auto
  then have "lower (take i target) \<noteq> [] \<and> hd (lower (take i target)) = 0x2f"
    using assms(3) by metis
  then have "\<not> scheme_ok (lower (take i target))"
    by (cases "lower (take i target)") (simp_all add: scheme_ok_def)
  moreover have "target \<noteq> js ''*''"
    using assms(2) by (auto simp: js_def js_char_def)
  ultimately show ?thesis
    using assms(1,4) ne by (simp add: url_parse_def split_scheme_def bind_url_def Let_def)
qed

text \<open>
  A character outside the basic plane is lost when an escape stands beside it: each half is encoded alone.
\<close>

theorem astral_beside_escape_lost:
  assumes "lowers_ascii lower"
  shows "pctDecode lower False ([0xd83d, 0xde00] @ js ''%41'') = Inr [0xfffd, 0xfffd, 0x41]"
proof -
  have "isHexChar lower 0x34" "isHexChar lower 0x31"
    using assms by (simp_all add: isHexChar_def lowers_ascii_def ascii_down_def hex_chars_def js_def js_char_def)
  then show ?thesis
    by (simp add: pctDecode_def js_def js_char_def hex_unit_def buffer_from_def high_surrogate_def low_surrogate_def utf8_encode_def
        utf8_encode1_def text_decode_lossy_def utf8_lossy.simps in_range_def units1_def)
qed

text \<open>
  A byte order mark at the head of a value is written by the helper and lost when it is read back: the decoder drops it.
\<close>

theorem query_bom_lost:
  assumes "lowers_ascii lower"
  shows "stringifyQuery [(js ''k'', [0xFEFF])] = Inr (js ''k=%EF%BB%BF'')
    \<and> parseQuery lower (js ''k=%EF%BB%BF'') = Inr [(js ''k'', [])]"
proof
  show "stringifyQuery [(js ''k'', [0xFEFF])] = Inr (js ''k=%EF%BB%BF'')"
    by (simp add: stringifyQuery_def query_enc_def encodeURIComponent_def js_def js_char_def high_surrogate_def low_surrogate_def
        encode_codepoint_def unreserved_def utf8_encode1_def pct_byte_def hex_upper_def)
  have "isHexChar lower 0x45" "isHexChar lower 0x46" "isHexChar lower 0x42"
    using assms by (simp_all add: isHexChar_def lowers_ascii_def ascii_down_def hex_chars_def js_def js_char_def)
  then show "parseQuery lower (js ''k=%EF%BB%BF'') = Inr [(js ''k'', [])]"
    by (simp add: parseQuery_def parse_pair_def pctDecode_def hex_unit_def text_decode_lossy_def utf8_lossy.simps in_range_def
        units1_def js_def js_char_def Let_def)
qed

text \<open>
  Switching the decoding of components off does not switch it off for the query.
\<close>

theorem query_decoded_anyway:
  assumes "lowers_ascii lower" and "\<not> up_decode p" and "up_maxLength p \<le> 0"
  shows "\<exists>u. url_parse lower (js ''/?a=%41'') p = Inr u \<and> pu_query u = [(js ''a'', js ''A'')]"
proof -
  have "isHexChar lower 0x34" "isHexChar lower 0x31"
    using assms by (simp_all add: isHexChar_def lowers_ascii_def ascii_down_def hex_chars_def js_def js_char_def)
  then show ?thesis
    using assms(2,3)
    by (simp add: url_parse_def bind_url_def split_scheme_def split_off_def split_userinfo_def last_index_def splitHostPort_def
        default_port_def SCHEME_PORT_def jmap_get_def parseQuery_def parse_pair_def pctDecode_def hex_unit_def text_decode_lossy_def
        utf8_lossy.simps units1_def url_decoded_def js_def js_char_def Let_def)
qed

end
