(* ===== verification/HeaderNormalizer.thy ===== *)
theory HeaderNormalizer
  imports HttpText
begin

text \<open>
  The canonical form of a header block, \<open>http-parser/engine/HeaderNormalizer.ts\<close>: names in lower case,
  folded lines joined, repeated list fields merged and the others kept apart. Lower-casing is a parameter.
\<close>

section \<open>Data\<close>

datatype raw_line = Fold jstring | Field jstring jstring

record normalized_header =
  nh_name :: jstring
  nh_value :: jstring
  nh_rawName :: jstring

record normalization =
  nr_headers :: "normalized_header list"
  nr_byName :: header_map
  nr_duplicates :: "(jstring, nat) jmap"
  nr_foldedLines :: nat

record normalizer_options =
  no_mergeFields :: "jstring jset option"
  no_noMergeFields :: "jstring jset option"
  no_trimValues :: "bool option"

record normalizer =
  nm_merge :: "jstring jset"
  nm_noMerge :: "jstring jset"
  nm_trimValues :: bool

definition DEFAULT_MERGE_FIELDS :: "jstring jset" where
  "DEFAULT_MERGE_FIELDS = map js [''accept'', ''accept-encoding'', ''accept-language'', ''accept-ranges'', ''allow'', ''cache-control'',
     ''connection'', ''content-encoding'', ''expect'', ''forwarded'', ''if-match'', ''if-none-match'', ''pragma'', ''proxy-authenticate'',
     ''te'', ''trailer'', ''transfer-encoding'', ''upgrade'', ''vary'', ''via'', ''warning'', ''www-authenticate'', ''x-forwarded-for'']"

definition NEVER_MERGE :: "jstring jset" where
  "NEVER_MERGE = map js [''set-cookie'', ''authorization'', ''proxy-authorization'', ''host'', ''content-length'', ''content-type'', ''location'']"

definition add_lowered :: "(jstring \<Rightarrow> jstring) \<Rightarrow> jstring jset option \<Rightarrow> jstring jset \<Rightarrow> jstring jset" where
  "add_lowered lower names s = (case names of None \<Rightarrow> s | Some fs \<Rightarrow> foldl (\<lambda>s f. jset_add (lower f) s) s fs)"

definition new_normalizer :: "(jstring \<Rightarrow> jstring) \<Rightarrow> normalizer_options \<Rightarrow> normalizer" where
  "new_normalizer lower options =
     \<lparr>nm_merge = add_lowered lower (no_mergeFields options) DEFAULT_MERGE_FIELDS,
      nm_noMerge = add_lowered lower (no_noMergeFields options) NEVER_MERGE,
      nm_trimValues = (case no_trimValues options of Some b \<Rightarrow> b | None \<Rightarrow> True)\<rparr>"

definition shouldMerge :: "normalizer \<Rightarrow> jstring \<Rightarrow> bool" where
  "shouldMerge nm name = (if jset_has (nm_noMerge nm) name then False else jset_has (nm_merge nm) name)"

section \<open>Normalisation\<close>

definition value_of :: "normalizer \<Rightarrow> jstring \<Rightarrow> jstring" where
  "value_of nm v = (if nm_trimValues nm then trim v else v)"

definition fold_line :: "normalizer \<Rightarrow> jstring \<Rightarrow> normalization \<Rightarrow> normalization" where
  "fold_line nm line r =
     (let cont = value_of nm line in
      if nr_headers r = [] then r
      else
        let prev_header = last (nr_headers r);
            byName = (case jmap_get (nr_byName r) (nh_name prev_header) of
                        None \<Rightarrow> jmap_set (nh_name prev_header) cont (nr_byName r)
                      | Some prev \<Rightarrow> jmap_set (nh_name prev_header) (prev @ [0x20] @ cont) (nr_byName r))
        in r\<lparr>nr_headers := butlast (nr_headers r) @ [prev_header\<lparr>nh_value := nh_value prev_header @ [0x20] @ cont\<rparr>],
             nr_byName := byName, nr_foldedLines := nr_foldedLines r + 1\<rparr>)"

text \<open>\<open>findIndex\<close> and the update in place of the first header of that name.\<close>

fun set_first :: "jstring \<Rightarrow> jstring \<Rightarrow> normalized_header list \<Rightarrow> normalized_header list" where
  "set_first name v [] = []"
| "set_first name v (h # hs) = (if nh_name h = name then h\<lparr>nh_value := v\<rparr> # hs else h # set_first name v hs)"

definition field_line :: "(jstring \<Rightarrow> jstring) \<Rightarrow> normalizer \<Rightarrow> jstring \<Rightarrow> jstring \<Rightarrow> normalization \<Rightarrow> normalization" where
  "field_line lower nm rawName rawValue r =
     (let name = lower rawName;
          v = value_of nm rawValue;
          seen = (case jmap_get (nr_duplicates r) name of Some n \<Rightarrow> n | None \<Rightarrow> 0);
          r = r\<lparr>nr_duplicates := jmap_set name (seen + 1) (nr_duplicates r)\<rparr>
      in
      if seen > 0 \<and> shouldMerge nm name then
        let merged = (case jmap_get (nr_byName r) name of None \<Rightarrow> v | Some prev \<Rightarrow> prev @ js '', '' @ v)
        in r\<lparr>nr_headers := set_first name merged (nr_headers r), nr_byName := jmap_set name merged (nr_byName r)\<rparr>
      else
        r\<lparr>nr_headers := nr_headers r @ [\<lparr>nh_name = name, nh_value = v, nh_rawName = rawName\<rparr>],
          nr_byName := (if seen = 0 \<or> \<not> jmap_has (nr_byName r) name \<or> \<not> shouldMerge nm name
                        then jmap_set name v (nr_byName r) else nr_byName r)\<rparr>)"

definition normalize_line :: "(jstring \<Rightarrow> jstring) \<Rightarrow> normalizer \<Rightarrow> normalization \<Rightarrow> raw_line \<Rightarrow> normalization" where
  "normalize_line lower nm r line = (case line of Fold s \<Rightarrow> fold_line nm s r | Field k v \<Rightarrow> field_line lower nm k v r)"

definition normalize :: "(jstring \<Rightarrow> jstring) \<Rightarrow> raw_line list \<Rightarrow> normalizer \<Rightarrow> normalization" where
  "normalize lower raw nm =
     foldl (normalize_line lower nm) \<lparr>nr_headers = [], nr_byName = jmap_empty, nr_duplicates = jmap_empty, nr_foldedLines = 0\<rparr> raw"

text \<open>The lines of a raw block.\<close>

function split_crlf :: "jstring \<Rightarrow> jstring list" where
  "split_crlf s = (case index_of crlf_text s of None \<Rightarrow> [s] | Some i \<Rightarrow> take i s # split_crlf (drop (i + 2) s))"
  by pat_completeness auto
termination
proof (relation "measure length", goal_cases)
  case (2 s i)
  then show ?case
    using index_of_fits [of crlf_text s i] by (simp add: crlf_text_def)
qed simp

declare split_crlf.simps [simp del]

definition raw_line_of :: "jstring \<Rightarrow> raw_line option" where
  "raw_line_of raw =
     (case raw of
        [] \<Rightarrow> None
      | c # _ \<Rightarrow>
          if c = 0x20 \<or> c = 0x09 then Some (Fold raw)
          else
            (case index_of (js '':'') raw of
               None \<Rightarrow> None
             | Some 0 \<Rightarrow> None
             | Some colon \<Rightarrow> Some (Field (take colon raw) (drop (colon + 1) raw))))"

definition normalizeBlock :: "(jstring \<Rightarrow> jstring) \<Rightarrow> jstring \<Rightarrow> normalizer \<Rightarrow> normalization" where
  "normalizeBlock lower block nm = normalize lower (List.map_filter raw_line_of (split_crlf block)) nm"

section \<open>What a block without folds becomes\<close>

text \<open>The values a name has in the lines, and what is kept of them.\<close>

fun joined :: "jstring list \<Rightarrow> jstring" where
  "joined [] = []"
| "joined [v] = v"
| "joined (v # vs) = v @ js '', '' @ joined vs"

definition occurrences :: "(jstring \<Rightarrow> jstring) \<Rightarrow> normalizer \<Rightarrow> jstring \<Rightarrow> (jstring \<times> jstring) list \<Rightarrow> jstring list" where
  "occurrences lower nm name fs = map (\<lambda>f. value_of nm (snd f)) (filter (\<lambda>f. lower (fst f) = name) fs)"

definition kept :: "normalizer \<Rightarrow> jstring \<Rightarrow> jstring list \<Rightarrow> jstring list" where
  "kept nm name vs = (if vs = [] then [] else if shouldMerge nm name then [joined vs] else vs)"

definition header_values :: "jstring \<Rightarrow> normalization \<Rightarrow> jstring list" where
  "header_values name r = map nh_value (filter (\<lambda>h. nh_name h = name) (nr_headers r))"

definition of_values :: "'a list \<Rightarrow> 'b \<Rightarrow> 'b option" where
  "of_values vs x = (if vs = [] then None else Some x)"

definition reads_as :: "normalizer \<Rightarrow> jstring \<Rightarrow> jstring list \<Rightarrow> normalization \<Rightarrow> bool" where
  "reads_as nm name vs r \<longleftrightarrow>
     header_values name r = kept nm name vs
     \<and> jmap_get (nr_byName r) name = of_values vs (last (kept nm name vs))
     \<and> jmap_get (nr_duplicates r) name = of_values vs (length vs)"

lemma joined_snoc: "vs \<noteq> [] \<Longrightarrow> joined (vs @ [v]) = joined vs @ js '', '' @ v"
  by (induction vs rule: joined.induct) simp_all

lemma occurrences_snoc:
  "occurrences lower nm name (fs @ [(k, v)]) = occurrences lower nm name fs @ (if lower k = name then [value_of nm v] else [])"
  by (simp add: occurrences_def)

lemma set_first_values:
  "map nh_value (filter (\<lambda>h. nh_name h = name) (set_first n v hs)) =
     (if name = n then (case map nh_value (filter (\<lambda>h. nh_name h = name) hs) of [] \<Rightarrow> [] | w # ws \<Rightarrow> v # ws)
      else map nh_value (filter (\<lambda>h. nh_name h = name) hs))"
  by (induction hs) auto

lemma field_line_other:
  assumes "reads_as nm name vs r" "lower k \<noteq> name"
  shows "reads_as nm name vs (field_line lower nm k v r)"
  using assms by (auto simp: reads_as_def field_line_def header_values_def Let_def set_first_values jmap_get_set)

lemma field_line_same:
  assumes "reads_as nm name vs r" "lower k = name"
  shows "reads_as nm name (vs @ [value_of nm v]) (field_line lower nm k v r)"
proof (cases "vs = []")
  case True
  with assms show ?thesis
    by (simp add: reads_as_def field_line_def header_values_def Let_def of_values_def kept_def)
next
  case False
  then have "joined (vs @ [value_of nm v]) = joined vs @ js '', '' @ value_of nm v"
    by (rule joined_snoc)
  with False assms show ?thesis
    by (cases "shouldMerge nm name")
      (simp_all add: reads_as_def field_line_def header_values_def Let_def of_values_def kept_def set_first_values jmap_has_def)
qed

lemma normalize_reads_as:
  "reads_as nm name (occurrences lower nm name fs) (normalize lower (map (\<lambda>f. Field (fst f) (snd f)) fs) nm)"
proof (induction fs rule: rev_induct)
  case Nil
  then show ?case
    by (simp add: normalize_def reads_as_def occurrences_def header_values_def of_values_def kept_def)
next
  case (snoc f fs)
  obtain k v where f: "f = (k, v)"
    by (cases f)
  show ?case
    using field_line_other [OF snoc, of lower k v] field_line_same [OF snoc, of lower k v]
    by (cases "lower k = name") (simp_all add: f occurrences_snoc normalize_def normalize_line_def)
qed

text \<open>
  In a block without folds, every occurrence of a field is kept in order, or, where the field merges,
  all of them are in one header, separated by commas; the map by name has that merged value or the last
  occurrence, and the count of occurrences is exact.
\<close>

theorem fields_merged_or_kept:
  "let vs = occurrences lower nm name fs;
       r = normalize lower (map (\<lambda>f. Field (fst f) (snd f)) fs) nm
   in
   header_values name r = (if shouldMerge nm name \<and> vs \<noteq> [] then [joined vs] else vs)
   \<and> jmap_get (nr_byName r) name = (if vs = [] then None else Some (if shouldMerge nm name then joined vs else last vs))
   \<and> jmap_get (nr_duplicates r) name = (if vs = [] then None else Some (length vs))"
  using normalize_reads_as [of nm name lower fs] by (auto simp: reads_as_def of_values_def kept_def Let_def)

lemma add_lowered_mono: "set s \<subseteq> set (add_lowered lower names s)"
proof -
  have "set s \<subseteq> set (foldl (\<lambda>s f. jset_add (lower f) s) s fs)" for fs s
    by (induction fs arbitrary: s) (simp, fastforce)
  then show ?thesis
    by (cases names) (simp_all add: add_lowered_def)
qed

text \<open>
  However a normalizer is configured, \<open>set-cookie\<close>, \<open>host\<close>, \<open>content-length\<close> and the other fields of
  the fixed list are never merged: each of their occurrences is kept as a header of its own.
\<close>

theorem protected_fields_kept_apart:
  assumes "name \<in> set NEVER_MERGE"
  shows "header_values name (normalize lower (map (\<lambda>f. Field (fst f) (snd f)) fs) (new_normalizer lower options))
     = occurrences lower (new_normalizer lower options) name fs"
proof -
  have "\<not> shouldMerge (new_normalizer lower options) name"
    using assms add_lowered_mono [of NEVER_MERGE lower "no_noMergeFields options"]
    by (auto simp: shouldMerge_def new_normalizer_def jset_has_def)
  with normalize_reads_as [of "new_normalizer lower options" name lower fs] show ?thesis
    by (simp add: reads_as_def kept_def)
qed

lemma protected_fields_kept_apart_witness:
  "header_values (js ''host'')
     (normalize id (map (\<lambda>f. Field (fst f) (snd f)) [(js ''host'', js ''a''), (js ''accept'', js ''b''), (js ''host'', js ''c'')])
       (new_normalizer id \<lparr>no_mergeFields = Some [js ''host''], no_noMergeFields = None, no_trimValues = Some False\<rparr>))
     = [js ''a'', js ''c'']"
  using protected_fields_kept_apart [of "js ''host''" id "[(js ''host'', js ''a''), (js ''accept'', js ''b''), (js ''host'', js ''c'')]"
      "\<lparr>no_mergeFields = Some [js ''host''], no_noMergeFields = None, no_trimValues = Some False\<rparr>"]
  by (simp add: NEVER_MERGE_def occurrences_def value_of_def new_normalizer_def)

section \<open>Where the code and its comments differ\<close>

text \<open>
  A folded line continues the header that is last in the list; after a repeated list field that is not the
  line before it.
\<close>

theorem fold_joins_wrong_header:
  "map (\<lambda>h. (nh_name h, nh_value h))
     (nr_headers (normalize id [Field (js ''accept'') (js ''a''), Field (js ''host'') (js ''h''), Field (js ''accept'') (js ''b''), Fold (js '' c'')]
       (new_normalizer id \<lparr>no_mergeFields = None, no_noMergeFields = None, no_trimValues = Some False\<rparr>)))
   = [(js ''accept'', js ''a, b''), (js ''host'', js ''h'' @ 0x20 # js '' c'')]"
  by (simp add: normalize_def normalize_line_def field_line_def fold_line_def Let_def value_of_def new_normalizer_def
      add_lowered_def shouldMerge_def jset_has_def NEVER_MERGE_def DEFAULT_MERGE_FIELDS_def jmap_has_def jmap_get_set js_append [symmetric])

text \<open>
  A folded line before any header is dropped.
\<close>

theorem leading_fold_dropped:
  "normalize lower (Fold s # rest) nm = normalize lower rest nm"
  by (simp add: normalize_def normalize_line_def fold_line_def Let_def)

text \<open>
  A name that appears once is among the duplicates.
\<close>

theorem single_field_counted:
  "jmap_get (nr_duplicates (normalize lower [Field k v] nm)) (lower k) = Some 1"
  by (simp add: normalize_def normalize_line_def field_line_def Let_def)

end
