(* ===== verification/WsHandshake.thy ===== *)
theory WsHandshake
  imports UrlParser HeaderNormalizer NodeBuffer
begin

text \<open>
  \<open>layers/websocket/protocol/Handshake.ts\<close>: the opening handshake of RFC 6455 section 4 on both sides. SHA-1, the
  random bytes of the client's key and the case mappings of strings are parameters.
\<close>

section \<open>Keys\<close>

definition WS_GUID :: jstring where
  "WS_GUID = js ''258EAFA5-E914-47DA-95CA-C5AB0DC85B11''"

definition SUPPORTED_VERSION :: nat where
  "SUPPORTED_VERSION = 13"

text \<open>\<open>Buffer.toString('base64')\<close>: the plain alphabet, padded to a multiple of four.\<close>

definition base64_digit :: "nat \<Rightarrow> 16 word" where
  "base64_digit n = (if n = 62 then 0x2b else if n = 63 then 0x2f else url_digit n)"

definition base64_encode :: "byte list \<Rightarrow> jstring" where
  "base64_encode bs = map base64_digit (sextets (map unat bs)) @ replicate ((3 - length bs mod 3) mod 3) 0x3d"

definition computeAcceptKey :: "(byte list \<Rightarrow> byte list) \<Rightarrow> jstring \<Rightarrow> jstring" where
  "computeAcceptKey sha1 clientKey = base64_encode (sha1 (map ucast (clientKey @ WS_GUID)))"

definition generateClientKey :: "byte list \<Rightarrow> jstring" where
  "generateClientKey randomBytes = base64_encode randomBytes"

definition base64_alphabet :: "16 word \<Rightarrow> bool" where
  "base64_alphabet c \<longleftrightarrow> 0x41 \<le> c \<and> c \<le> 0x5a \<or> 0x61 \<le> c \<and> c \<le> 0x7a \<or> 0x30 \<le> c \<and> c \<le> 0x39 \<or> c = 0x2b \<or> c = 0x2f"

definition tryBase64Length :: "jstring \<Rightarrow> int" where
  "tryBase64Length value =
     (let trimmed = trim value;
          padding = dropWhile base64_alphabet trimmed
      in if \<not> (length padding \<le> 2 \<and> list_all (\<lambda>c. c = 0x3d) padding) \<or> length trimmed mod 4 \<noteq> 0 then - 1
         else int (length (base64url_decode trimmed)))"

section \<open>Reading a request\<close>

record handshake_request =
  hq_method :: jstring
  hq_httpVersion :: jstring
  hq_headers :: header_map
  hq_path :: jstring

datatype handshake_parse_error = EmptyHandshake | MalformedRequestLine jstring | MalformedHeaderLine jstring

definition add_field :: "jstring \<Rightarrow> jstring \<Rightarrow> header_map \<Rightarrow> header_map" where
  "add_field name v headers =
     jmap_set name (case jmap_get headers name of None \<Rightarrow> v | Some existing \<Rightarrow> existing @ js '', '' @ v) headers"

fun field_lines :: "(jstring \<Rightarrow> jstring) \<Rightarrow> jstring list \<Rightarrow> header_map \<Rightarrow> handshake_parse_error + header_map" where
  "field_lines lower [] headers = Inr headers"
| "field_lines lower (line # lines) headers =
     (if line = [] then field_lines lower lines headers
      else
        (case index_of (js '':'') line of
           None \<Rightarrow> Inl (MalformedHeaderLine line)
         | Some 0 \<Rightarrow> Inl (MalformedHeaderLine line)
         | Some colon \<Rightarrow>
             field_lines lower lines (add_field (lower (trim (take colon line))) (trim (drop (colon + 1) line)) headers)))"

definition http_version_of :: "jstring \<Rightarrow> jstring" where
  "http_version_of versionToken = (if take 5 versionToken = js ''HTTP/'' then drop 5 versionToken else js ''0.0'')"

definition parseHandshakeRequest :: "(jstring \<Rightarrow> jstring) \<Rightarrow> jstring \<Rightarrow> handshake_parse_error + handshake_request" where
  "parseHandshakeRequest lower head =
     (case split_crlf head of
        [] \<Rightarrow> Inl EmptyHandshake
      | first # rest \<Rightarrow>
          if first = [] then Inl EmptyHandshake
          else
            (case split_on 0x20 first of
               [m, path, versionToken] \<Rightarrow>
                 (case field_lines lower rest jmap_empty of
                    Inl e \<Rightarrow> Inl e
                  | Inr headers \<Rightarrow>
                      Inr \<lparr>hq_method = m, hq_httpVersion = http_version_of versionToken, hq_headers = headers, hq_path = path\<rparr>)
             | _ \<Rightarrow> Inl (MalformedRequestLine first)))"

section \<open>Validating it\<close>

datatype handshake_error =
    MethodNotGet jstring
  | VersionTooOld jstring
  | NoUpgradeHeader
  | NoConnectionUpgrade
  | MissingKey
  | KeyNotSixteenBytes int
  | UnsupportedVersion "jstring option"
  | OriginRefused "jstring option"

record handshake_options =
  ho_supportedSubprotocols :: "jstring list option"
  ho_allowedOrigins :: "jstring list option"

record handshake_validation =
  hv_valid :: bool
  hv_acceptKey :: "jstring option"
  hv_errors :: "handshake_error list"
  hv_subprotocol :: "jstring option"

definition headerHasToken :: "(jstring \<Rightarrow> jstring) \<Rightarrow> jstring option \<Rightarrow> jstring \<Rightarrow> bool" where
  "headerHasToken lower headerValue token =
     (case headerValue of
        None \<Rightarrow> False
      | Some v \<Rightarrow> lower token \<in> set (map (\<lambda>t. lower (trim t)) (split_on 0x2c v)))"

text \<open>\<open>parseInt(p, 10)\<close>: white space, a sign, digits up to the first other character; \<open>None\<close> is NaN.\<close>

definition parse_int :: "jstring \<Rightarrow> int option" where
  "parse_int p =
     (let s = dropWhile is_space p;
          negative = (take 1 s = js ''-'');
          unsigned = (if negative \<or> take 1 s = js ''+'' then drop 1 s else s);
          ds = takeWhile (\<lambda>c. 0x30 \<le> c \<and> c \<le> 0x39) unsigned
      in if ds = [] then None else Some (if negative then - int (decimal ds) else int (decimal ds)))"

text \<open>A version without a dot has no minor part: \<open>undefined\<close> is not NaN and not below 1.\<close>

definition version_too_old :: "jstring \<Rightarrow> bool" where
  "version_too_old httpVersion =
     (let parts = map parse_int (split_on 0x2e httpVersion)
      in case parts of
           [] \<Rightarrow> True
         | major # minors \<Rightarrow>
             (case major of
                None \<Rightarrow> True
              | Some major \<Rightarrow>
                  major < 1 \<or> major = 1 \<and>
                    (case minors of
                       [] \<Rightarrow> False
                     | minor # _ \<Rightarrow> (case minor of None \<Rightarrow> True | Some minor \<Rightarrow> minor < 1))))"

definition key_error :: "jstring option \<Rightarrow> handshake_error list" where
  "key_error key =
     (case key of
        None \<Rightarrow> [MissingKey]
      | Some key \<Rightarrow> if tryBase64Length key \<noteq> 16 then [KeyNotSixteenBytes (tryBase64Length key)] else [])"

definition origin_error :: "jstring list option \<Rightarrow> jstring option \<Rightarrow> handshake_error list" where
  "origin_error allowedOrigins origin =
     (case allowedOrigins of
        None \<Rightarrow> []
      | Some allowed \<Rightarrow>
          if length allowed > 0 \<and> (case origin of None \<Rightarrow> True | Some o1 \<Rightarrow> o1 \<notin> set allowed) then [OriginRefused origin] else [])"

definition negotiate :: "jstring list option \<Rightarrow> jstring option \<Rightarrow> jstring option" where
  "negotiate supported offeredRaw =
     (case (offeredRaw, supported) of
        (Some raw, Some ps) \<Rightarrow>
          if raw \<noteq> [] \<and> length ps > 0 then List.find (\<lambda>p. p \<in> set (map trim (split_on 0x2c raw))) ps else None
      | _ \<Rightarrow> None)"

definition handshake_errors ::
  "(jstring \<Rightarrow> jstring) \<Rightarrow> (jstring \<Rightarrow> jstring) \<Rightarrow> handshake_request \<Rightarrow> handshake_options \<Rightarrow> handshake_error list" where
  "handshake_errors upper lower request options =
     (let headers = hq_headers request; version = jmap_get headers (js ''sec-websocket-version'') in
      (if upper (hq_method request) \<noteq> js ''GET'' then [MethodNotGet (hq_method request)] else [])
      @ (if version_too_old (hq_httpVersion request) then [VersionTooOld (hq_httpVersion request)] else [])
      @ (if \<not> headerHasToken lower (jmap_get headers (js ''upgrade'')) (js ''websocket'') then [NoUpgradeHeader] else [])
      @ (if \<not> headerHasToken lower (jmap_get headers (js ''connection'')) (js ''upgrade'') then [NoConnectionUpgrade] else [])
      @ key_error (jmap_get headers (js ''sec-websocket-key''))
      @ (if version \<noteq> Some (js_nat SUPPORTED_VERSION) then [UnsupportedVersion version] else [])
      @ origin_error (ho_allowedOrigins options) (jmap_get headers (js ''origin'')))"

definition validateHandshake ::
  "(byte list \<Rightarrow> byte list) \<Rightarrow> (jstring \<Rightarrow> jstring) \<Rightarrow> (jstring \<Rightarrow> jstring) \<Rightarrow> handshake_request \<Rightarrow> handshake_options \<Rightarrow> handshake_validation" where
  "validateHandshake sha1 upper lower request options =
     (let errors = handshake_errors upper lower request options;
          key = jmap_get (hq_headers request) (js ''sec-websocket-key'')
      in \<lparr>hv_valid = (length errors = 0),
          hv_acceptKey =
            (case key of Some k \<Rightarrow> if length errors = 0 \<and> k \<noteq> [] then Some (computeAcceptKey sha1 k) else None | None \<Rightarrow> None),
          hv_errors = errors,
          hv_subprotocol =
            negotiate (ho_supportedSubprotocols options) (jmap_get (hq_headers request) (js ''sec-websocket-protocol''))\<rparr>)"

section \<open>Writing\<close>

definition field_line_of :: "jstring \<times> jstring \<Rightarrow> jstring" where
  "field_line_of f = fst f @ js '': '' @ snd f"

definition buildHandshakeResponse :: "jstring \<Rightarrow> jstring option \<Rightarrow> (jstring \<times> jstring) list \<Rightarrow> jstring" where
  "buildHandshakeResponse acceptKey subprotocol extraHeaders =
     join_with crlf_text
       ([js ''HTTP/1.1 101 Switching Protocols'', js ''Upgrade: websocket'', js ''Connection: Upgrade'',
         js ''Sec-WebSocket-Accept: '' @ acceptKey]
        @ (case subprotocol of Some p \<Rightarrow> if p \<noteq> [] then [js ''Sec-WebSocket-Protocol: '' @ p] else [] | None \<Rightarrow> [])
        @ map field_line_of extraHeaders)
     @ crlf_text @ crlf_text"

record client_options =
  co_host :: jstring
  co_path :: "jstring option"
  co_subprotocols :: "jstring list option"
  co_origin :: "jstring option"
  co_extraHeaders :: "(jstring \<times> jstring) list"

definition client_lines :: "client_options \<Rightarrow> jstring \<Rightarrow> jstring list" where
  "client_lines options key =
     [js ''GET '' @ (case co_path options of Some p \<Rightarrow> p | None \<Rightarrow> js ''/'') @ js '' HTTP/1.1'', js ''Host: '' @ co_host options,
      js ''Upgrade: websocket'', js ''Connection: Upgrade'', js ''Sec-WebSocket-Key: '' @ key,
      js ''Sec-WebSocket-Version: '' @ js_nat SUPPORTED_VERSION]
     @ (case co_subprotocols options of
          Some ps \<Rightarrow> if length ps > 0 then [js ''Sec-WebSocket-Protocol: '' @ join_with (js '', '') ps] else []
        | None \<Rightarrow> [])
     @ (case co_origin options of Some v \<Rightarrow> if v \<noteq> [] then [js ''Origin: '' @ v] else [] | None \<Rightarrow> [])
     @ map field_line_of (co_extraHeaders options)"

definition buildClientHandshake :: "byte list \<Rightarrow> client_options \<Rightarrow> jstring \<times> jstring" where
  "buildClientHandshake randomBytes options =
     (let key = generateClientKey randomBytes
      in (join_with crlf_text (client_lines options key) @ crlf_text @ crlf_text, key))"

definition verifyAcceptKey :: "(byte list \<Rightarrow> byte list) \<Rightarrow> jstring \<Rightarrow> jstring \<Rightarrow> bool" where
  "verifyAcceptKey sha1 sentKey acceptHeader =
     (let a = buffer_from (computeAcceptKey sha1 sentKey); b = buffer_from (trim acceptHeader)
      in length a = length b \<and> a = b)"

section \<open>Base64\<close>

lemma base64_digits:
  "list_all (\<lambda>n. base64_alphabet (base64_digit n) \<and> url_value (base64_digit n) = Some n \<and> base64_digit n \<noteq> 0x3d
     \<and> \<not> is_space (base64_digit n) \<and> base64_digit n \<noteq> 0x0d) [0..<64]"
  by code_simp

lemma base64_digit:
  assumes "n < 64"
  shows "base64_alphabet (base64_digit n)" "url_value (base64_digit n) = Some n" "base64_digit n \<noteq> 0x3d"
    "\<not> is_space (base64_digit n)" "base64_digit n \<noteq> 0x0d"
  using base64_digits assms by (simp_all add: list_all_iff)

lemma byte_sextets: "n \<in> set (sextets (map unat (bs :: byte list))) \<Longrightarrow> n < 64"
  using sextets_range [of "map unat bs"] unsigned_less [where 'a = nat and 'b = 8] by auto

lemma base64_units:
  assumes "c \<in> set (base64_encode bs)"
  shows "\<not> is_space c" and "c \<noteq> 0x0d"
proof -
  obtain n where "c = base64_digit n \<and> n < 64 \<or> c = 0x3d"
    using assms byte_sextets [of _ bs] by (auto simp: base64_encode_def split: if_splits)
  then show "\<not> is_space c" "c \<noteq> 0x0d"
    using base64_digit(4,5) by (auto simp: is_space_def [of "0x3d"])
qed

lemma base64_decode_encode: "base64url_decode (base64_encode bs) = bs"
proof -
  have "\<forall>x \<in> set xs. x < 64 \<Longrightarrow>
      List.map_filter url_value (takeWhile (\<lambda>c. c \<noteq> 0x3d) (map base64_digit xs @ replicate k 0x3d)) = xs" for xs k
    by (induction xs) (simp_all add: base64_digit takeWhile_replicate)
  then show ?thesis
    using unsextets_sextets [of "map unat bs"] byte_sextets [of _ bs] unsigned_less [where 'a = nat and 'b = 8]
    by (simp add: base64url_decode_def base64_encode_def map_idI)
qed

lemma base64_length: "length (base64_encode bs) mod 4 = 0"
proof -
  have "(length (sextets ns) + (3 - length ns mod 3) mod 3) mod 4 = 0" for ns
    by (induction ns rule: sextets.induct) simp_all
  from this [of "map unat bs"] show ?thesis
    by (simp add: base64_encode_def)
qed

lemma trim_fixed: "\<forall>c \<in> set s. \<not> is_space c \<Longrightarrow> trim s = s"
proof -
  have drop: "\<forall>c \<in> set t. \<not> is_space c \<Longrightarrow> dropWhile is_space t = t" for t
    by (cases t) simp_all
  show "\<forall>c \<in> set s. \<not> is_space c \<Longrightarrow> trim s = s"
    using drop [of s] drop [of "rev s"] by (simp add: trim_def)
qed

theorem key_length_of_encoding: "tryBase64Length (base64_encode bs) = int (length bs)"
proof -
  let ?k = "(3 - length bs mod 3) mod 3"
  have "dropWhile base64_alphabet (map base64_digit ns @ replicate k 0x3d) = replicate k 0x3d"
    if "\<forall>n \<in> set ns. n < 64" for ns k
    using that by (induction ns) (simp_all add: base64_digit base64_alphabet_def[of "0x3d"])
  then have "dropWhile base64_alphabet (base64_encode bs) = replicate ?k 0x3d"
    using byte_sextets [of _ bs] by (simp add: base64_encode_def)
  moreover have "?k \<le> 2"
    by linarith
  ultimately show ?thesis
    using base64_length [of bs] base64_units(1) [of _ bs]
    by (simp add: tryBase64Length_def trim_fixed base64_decode_encode list_all_iff)
qed

section \<open>Requests read back\<close>

lemma split_crlf_join:
  "list_all (\<lambda>l. 0x0d \<notin> set l) ls \<Longrightarrow> ls \<noteq> [] \<Longrightarrow> split_crlf (join_with crlf_text ls) = ls"
proof (induction crlf_text ls rule: join_with.induct)
  case (2 l)
  then show ?case
    by (subst split_crlf.simps) (simp add: crlf_text_def index_of_absent)
next
  case (3 l l' ls)
  then have "index_of crlf_text (l @ crlf_text @ join_with crlf_text (l' # ls)) = Some (length l)"
    using index_of_pair [OF index_of_absent, of "0x0d" l "0x0a"] by (simp add: crlf_text_def)
  then show ?case
    using 3 by (subst split_crlf.simps) (simp add: crlf_text_def)
qed simp

definition fields_of :: "(jstring \<Rightarrow> jstring) \<Rightarrow> header_map \<Rightarrow> (jstring \<times> jstring) list \<Rightarrow> header_map" where
  "fields_of lower = foldl (\<lambda>m (k, v). add_field (lower (trim k)) (trim v) m)"

lemma field_lines_of:
  "list_all (\<lambda>(k, v). k \<noteq> [] \<and> 0x3a \<notin> set k) fs \<Longrightarrow>
     field_lines lower (map field_line_of fs) m = Inr (fields_of lower m fs)"
proof (induction fs arbitrary: m)
  case (Cons f fs)
  obtain k v where f: "f = (k, v)"
    by fastforce
  have "index_of (js '':'') (field_line_of f) = Some (length k)"
    using Cons.prems f index_of_single [of "0x3a" k "0x20 # v"] by (simp add: field_line_of_def js_def js_char_def)
  moreover have "field_line_of f \<noteq> []" "take (length k) (field_line_of f) = k" "trim (drop (length k + 1) (field_line_of f)) = trim v"
    using f by (simp_all add: field_line_of_def js_def js_char_def trim_def is_space_def)
  moreover obtain j where "length k = Suc j"
    using Cons.prems f by (cases k) simp_all
  ultimately show ?case
    using Cons f by (simp add: fields_of_def)
qed (simp add: fields_of_def)

text \<open>The value a name has: those of its lines, in their order.\<close>

fun value_of_name :: "(jstring \<Rightarrow> jstring) \<Rightarrow> jstring \<Rightarrow> (jstring \<times> jstring) list \<Rightarrow> jstring option \<Rightarrow> jstring option" where
  "value_of_name lower n [] acc = acc"
| "value_of_name lower n ((k, v) # fs) acc =
     value_of_name lower n fs
       (if lower (trim k) = n then Some (case acc of None \<Rightarrow> trim v | Some e \<Rightarrow> e @ js '', '' @ trim v) else acc)"

lemma get_fields: "jmap_get (fields_of lower m fs) n = value_of_name lower n fs (jmap_get m n)"
  by (induction fs arbitrary: m) (auto simp: fields_of_def add_field_def jmap_get_set split: option.split)

lemma value_of_name_append:
  "value_of_name lower n (fs @ gs) acc = value_of_name lower n gs (value_of_name lower n fs acc)"
  by (induction lower n fs acc rule: value_of_name.induct) simp_all

lemma value_of_name_none: "list_all (\<lambda>(k, v). lower (trim k) \<noteq> n) fs \<Longrightarrow> value_of_name lower n fs acc = acc"
  by (induction lower n fs acc rule: value_of_name.induct) simp_all

section \<open>The two sides agree\<close>

text \<open>
  The case mappings as far as the handshake relies on them; what the client asks for, in the shapes RFC 6455 and RFC 7230
  give to it; and the offer of the server.
\<close>

definition case_maps :: "(jstring \<Rightarrow> jstring) \<Rightarrow> (jstring \<Rightarrow> jstring) \<Rightarrow> bool" where
  "case_maps upper lower \<longleftrightarrow> upper (js ''GET'') = js ''GET'' \<and> (\<forall>s. list_all (\<lambda>c. c < 0x80) s \<longrightarrow> lower s = map ascii_down s)"

definition token_ok :: "jstring \<Rightarrow> bool" where
  "token_ok p \<longleftrightarrow> p \<noteq> [] \<and> list_all (\<lambda>c. \<not> is_space c \<and> c \<noteq> 0x2c \<and> c \<noteq> 0x0d) p"

definition reserved_names :: "jstring list" where
  "reserved_names = [js ''upgrade'', js ''connection'', js ''sec-websocket-key'', js ''sec-websocket-version'',
     js ''sec-websocket-protocol'', js ''origin'']"

definition extra_ok :: "(jstring \<Rightarrow> jstring) \<Rightarrow> jstring \<times> jstring \<Rightarrow> bool" where
  "extra_ok lower f \<longleftrightarrow> fst f \<noteq> [] \<and> 0x3a \<notin> set (fst f) \<and> 0x0d \<notin> set (fst f) \<and> 0x0d \<notin> set (snd f)
     \<and> lower (trim (fst f)) \<notin> set reserved_names"

definition path_of :: "client_options \<Rightarrow> jstring" where
  "path_of options = (case co_path options of Some p \<Rightarrow> p | None \<Rightarrow> js ''/'')"

definition offered_by :: "client_options \<Rightarrow> jstring list" where
  "offered_by options = (case co_subprotocols options of Some ps \<Rightarrow> ps | None \<Rightarrow> [])"

definition client_ok :: "(jstring \<Rightarrow> jstring) \<Rightarrow> client_options \<Rightarrow> bool" where
  "client_ok lower options \<longleftrightarrow> list_all (\<lambda>c. c \<noteq> 0x20 \<and> c \<noteq> 0x0d) (path_of options) \<and> 0x0d \<notin> set (co_host options)
     \<and> list_all token_ok (offered_by options)
     \<and> (case co_origin options of Some v \<Rightarrow> list_all (\<lambda>c. \<not> is_space c \<and> c \<noteq> 0x0d) v | None \<Rightarrow> True)
     \<and> list_all (extra_ok lower) (co_extraHeaders options)"

definition origin_welcome :: "handshake_options \<Rightarrow> client_options \<Rightarrow> bool" where
  "origin_welcome server options \<longleftrightarrow> (case ho_allowedOrigins server of
       None \<Rightarrow> True
     | Some allowed \<Rightarrow> allowed = [] \<or> (case co_origin options of Some v \<Rightarrow> v \<noteq> [] \<and> v \<in> set allowed | None \<Rightarrow> False))"

definition client_fields :: "client_options \<Rightarrow> jstring \<Rightarrow> (jstring \<times> jstring) list" where
  "client_fields options key =
     [(js ''Host'', co_host options), (js ''Upgrade'', js ''websocket''), (js ''Connection'', js ''Upgrade''),
      (js ''Sec-WebSocket-Key'', key), (js ''Sec-WebSocket-Version'', js_nat SUPPORTED_VERSION)]
     @ (if offered_by options = [] then [] else [(js ''Sec-WebSocket-Protocol'', join_with (js '', '') (offered_by options))])
     @ (case co_origin options of Some v \<Rightarrow> if v \<noteq> [] then [(js ''Origin'', v)] else [] | None \<Rightarrow> [])
     @ co_extraHeaders options"

lemma client_lines_fields:
  "client_lines options key = (js ''GET '' @ path_of options @ js '' HTTP/1.1'') # map field_line_of (client_fields options key)"
proof -
  have js: "js ''Host: '' = js ''Host'' @ js '': ''" "js ''Upgrade: websocket'' = js ''Upgrade'' @ js '': '' @ js ''websocket''"
    "js ''Connection: Upgrade'' = js ''Connection'' @ js '': '' @ js ''Upgrade''"
    "js ''Sec-WebSocket-Key: '' = js ''Sec-WebSocket-Key'' @ js '': ''"
    "js ''Sec-WebSocket-Version: '' = js ''Sec-WebSocket-Version'' @ js '': ''"
    "js ''Sec-WebSocket-Protocol: '' = js ''Sec-WebSocket-Protocol'' @ js '': ''"
    "js ''Origin: '' = js ''Origin'' @ js '': ''"
    by (simp_all add: js_append [symmetric])
  show ?thesis
    by (cases "co_subprotocols options"; cases "co_origin options")
      (simp_all add: client_lines_def client_fields_def path_of_def offered_by_def field_line_of_def js)
qed

text \<open>The names, as the server reads them.\<close>

lemma ascii_names:
  assumes "case_maps upper lower"
  shows "lower (trim (js ''Host'')) = js ''host''" "lower (trim (js ''Upgrade'')) = js ''upgrade''"
    "lower (trim (js ''Connection'')) = js ''connection''" "lower (trim (js ''Sec-WebSocket-Key'')) = js ''sec-websocket-key''"
    "lower (trim (js ''Sec-WebSocket-Version'')) = js ''sec-websocket-version''"
    "lower (trim (js ''Sec-WebSocket-Protocol'')) = js ''sec-websocket-protocol''" "lower (trim (js ''Origin'')) = js ''origin''"
    "lower (js ''upgrade'') = js ''upgrade''" "lower (trim (js ''websocket'')) = js ''websocket''" "lower (js ''websocket'') = js ''websocket''"
proof -
  have name: "list_all (\<lambda>c. c < 0x80) (trim s) \<and> map ascii_down (trim s) = t \<Longrightarrow> lower (trim s) = t"
    "list_all (\<lambda>c. c < 0x80) s \<and> map ascii_down s = t \<Longrightarrow> lower s = t" for s t
    using assms by (simp_all add: case_maps_def)
  show "lower (trim (js ''Host'')) = js ''host''" by (rule name) code_simp
  show "lower (trim (js ''Upgrade'')) = js ''upgrade''" by (rule name) code_simp
  show "lower (trim (js ''Connection'')) = js ''connection''" by (rule name) code_simp
  show "lower (trim (js ''Sec-WebSocket-Key'')) = js ''sec-websocket-key''" by (rule name) code_simp
  show "lower (trim (js ''Sec-WebSocket-Version'')) = js ''sec-websocket-version''" by (rule name) code_simp
  show "lower (trim (js ''Sec-WebSocket-Protocol'')) = js ''sec-websocket-protocol''" by (rule name) code_simp
  show "lower (trim (js ''Origin'')) = js ''origin''" by (rule name) code_simp
  show "lower (js ''upgrade'') = js ''upgrade''" by (rule name(2)) code_simp
  show "lower (trim (js ''websocket'')) = js ''websocket''" by (rule name) code_simp
  show "lower (js ''websocket'') = js ''websocket''" by (rule name(2)) code_simp
qed

text \<open>What the server finds in the fields.\<close>

lemma client_values:
  assumes maps: "case_maps upper lower" and ok: "client_ok lower options" and key: "\<forall>c \<in> set key. \<not> is_space c"
  defines "get n \<equiv> jmap_get (fields_of lower jmap_empty (client_fields options key)) n"
  shows "get (js ''upgrade'') = Some (js ''websocket'')" "get (js ''connection'') = Some (js ''Upgrade'')"
    "get (js ''sec-websocket-key'') = Some key" "get (js ''sec-websocket-version'') = Some (js ''13'')"
    "get (js ''sec-websocket-protocol'') =
       (if offered_by options = [] then None else Some (trim (join_with (js '', '') (offered_by options))))"
    "get (js ''origin'') = (case co_origin options of Some v \<Rightarrow> if v \<noteq> [] then Some v else None | None \<Rightarrow> None)"
proof -
  have extras: "value_of_name lower n (co_extraHeaders options) acc = acc" if "n \<in> set reserved_names" for n acc
    using ok that by (intro value_of_name_none) (auto simp: client_ok_def extra_ok_def list_all_iff)
  have texts: "trim (js ''websocket'') = js ''websocket''" "trim (js ''Upgrade'') = js ''Upgrade''" "trim (js_nat SUPPORTED_VERSION) = js ''13''"
    by code_simp+
  have upgrade: "lower (js ''Upgrade'') = js ''upgrade''"
    using ascii_names(2) [OF maps] texts(2) by simp
  have split: "value_of_name lower n (if b then xs else ys) acc = (if b then value_of_name lower n xs acc else value_of_name lower n ys acc)"
    for n b xs ys acc
    by simp
  have get: "get n = value_of_name lower n (case co_origin options of Some v \<Rightarrow> if v \<noteq> [] then [(js ''Origin'', v)] else [] | None \<Rightarrow> [])
      (value_of_name lower n (if offered_by options = [] then [] else [(js ''Sec-WebSocket-Protocol'', join_with (js '', '') (offered_by options))])
        (value_of_name lower n [(js ''Host'', co_host options), (js ''Upgrade'', js ''websocket''), (js ''Connection'', js ''Upgrade''),
          (js ''Sec-WebSocket-Key'', key), (js ''Sec-WebSocket-Version'', js_nat SUPPORTED_VERSION)] None))"
    if "n \<in> set reserved_names" for n
    unfolding get_def get_fields client_fields_def value_of_name_append extras [OF that] by (simp add: jmap_get_def jmap_empty_def)
  have others: "value_of_name lower n (case co_origin options of Some v \<Rightarrow> if v \<noteq> [] then [(js ''Origin'', v)] else [] | None \<Rightarrow> []) acc = acc"
    if "n \<noteq> js ''origin''" for n acc
    using that by (cases "co_origin options") (simp_all add: split ascii_names [OF maps])
  have protos: "value_of_name lower n (if offered_by options = [] then [] else [(js ''Sec-WebSocket-Protocol'', x)]) acc = acc"
    if "n \<noteq> js ''sec-websocket-protocol''" for n x acc
    using that by (simp add: ascii_names [OF maps])
  show "get (js ''upgrade'') = Some (js ''websocket'')"
    by (subst get) (simp_all add: reserved_names_def others protos ascii_names [OF maps] texts upgrade)
  show "get (js ''connection'') = Some (js ''Upgrade'')"
    by (subst get) (simp_all add: reserved_names_def others protos ascii_names [OF maps] texts upgrade)
  show "get (js ''sec-websocket-key'') = Some key"
    by (subst get) (simp_all add: reserved_names_def others protos ascii_names [OF maps] trim_fixed [OF key])
  show "get (js ''sec-websocket-version'') = Some (js ''13'')"
    by (subst get) (simp_all add: reserved_names_def others protos ascii_names [OF maps] texts upgrade)
  show "get (js ''sec-websocket-protocol'') =
       (if offered_by options = [] then None else Some (trim (join_with (js '', '') (offered_by options))))"
    by (subst get) (simp_all add: reserved_names_def others ascii_names [OF maps])
  show "get (js ''origin'') = (case co_origin options of Some v \<Rightarrow> if v \<noteq> [] then Some v else None | None \<Rightarrow> None)"
  proof (cases "co_origin options")
    case (Some v)
    then have "trim v = v"
      using ok by (intro trim_fixed) (simp add: client_ok_def list_all_iff)
    then show ?thesis
      using Some by (subst get) (simp_all add: reserved_names_def protos ascii_names [OF maps])
  qed (subst get, simp_all add: reserved_names_def protos ascii_names [OF maps])
qed

lemma trim_space: "trim (0x20 # s) = trim s"
  by (simp add: trim_def is_space_def)

text \<open>A list of tokens, split again.\<close>

lemma split_tokens:
  assumes "list_all token_ok ps" and "ps \<noteq> []"
  shows "map trim (split_on 0x2c (trim (join_with (js '', '') ps))) = ps" and "trim (join_with (js '', '') ps) \<noteq> []"
proof -
  let ?s = "join_with (js '', '') ps"
  have tok: "p \<noteq> []" "\<forall>c \<in> set p. \<not> is_space c" "0x2c \<notin> set p" if "p \<in> set ps" for p
    using assms(1) that by (auto simp: token_ok_def list_all_iff)
  have sep: "js '', '' = [0x2c, 0x20]"
    by (simp add: js_def js_char_def)
  have ends: "s \<noteq> [] \<Longrightarrow> \<not> is_space (hd s) \<Longrightarrow> \<not> is_space (last s) \<Longrightarrow> trim s = s" for s
  proof -
    have drop: "t \<noteq> [] \<Longrightarrow> \<not> is_space (hd t) \<Longrightarrow> dropWhile is_space t = t" for t
      by (cases t) simp_all
    assume "s \<noteq> []" "\<not> is_space (hd s)" "\<not> is_space (last s)"
    then show "trim s = s"
      using drop [of s] drop [of "rev s"] by (simp add: trim_def hd_rev)
  qed
  have "?s \<noteq> [] \<and> \<not> is_space (hd ?s) \<and> \<not> is_space (last ?s)"
    using assms(2) tok
  proof (induction "js '', ''" ps rule: join_with.induct)
    case (2 s)
    then show ?case by simp
  next
    case (3 s s' ss)
    then have "join_with (js '', '') (s' # ss) \<noteq> [] \<and> \<not> is_space (last (join_with (js '', '') (s' # ss)))"
      by auto
    moreover have "s \<noteq> []" "\<not> is_space (hd s)"
      using 3(3,4) [of s] by simp_all
    ultimately show ?case
      by (simp add: sep)
  qed simp
  then have whole: "trim ?s = ?s" "?s \<noteq> []"
    using ends [of ?s] by simp_all
  then show "trim ?s \<noteq> []"
    by simp
  have "map trim (split_on 0x2c (join_with (js '', '') qs)) = qs \<and> map trim (split_on 0x2c (0x20 # join_with (js '', '') qs)) = qs"
    if "qs \<noteq> []" "set qs \<subseteq> set ps" for qs
    using that
  proof (induction "js '', ''" qs rule: join_with.induct)
    case (2 s)
    then show ?case
      using tok(2,3) [of s] by (simp add: split_on_none trim_fixed trim_space)
  next
    case (3 s s' ss)
    then show ?case
      using tok(2,3) [of s] split_on_sep [of "0x2c" s] split_on_sep [of "0x2c" "0x20 # s"] by (simp add: sep trim_fixed trim_space)
  qed simp
  then show "map trim (split_on 0x2c (trim ?s)) = ps"
    using assms(2) whole(1) by simp
qed

lemma client_lines_clean:
  assumes ok: "client_ok lower options" and key: "\<forall>c \<in> set key. c \<noteq> 0x0d"
  shows "list_all (\<lambda>l. 0x0d \<notin> set l) (client_lines options key)"
proof -
  have cr: "0x0d \<notin> set (js ''GET '')" "0x0d \<notin> set (js '' HTTP/1.1'')" "0x0d \<notin> set (js ''Host: '')" "0x0d \<notin> set (js ''Upgrade: websocket'')"
    "0x0d \<notin> set (js ''Connection: Upgrade'')" "0x0d \<notin> set (js ''Sec-WebSocket-Key: '')" "0x0d \<notin> set (js ''Sec-WebSocket-Version: '' @ js_nat SUPPORTED_VERSION)"
    "0x0d \<notin> set (js ''Sec-WebSocket-Protocol: '')" "0x0d \<notin> set (js ''Origin: '')" "0x0d \<notin> set (js '', '')" "0x0d \<notin> set (js '': '')"
    by code_simp+
  have "0x0d \<notin> set (join_with (js '', '') ps)" if "list_all token_ok ps" for ps
    using that by (induction "js '', ''" ps rule: join_with.induct) (auto simp: token_ok_def list_all_iff cr)
  moreover have "0x0d \<notin> set (field_line_of f)" if "extra_ok lower f" for f
    using that cr by (auto simp: extra_ok_def field_line_of_def)
  moreover have "0x0d \<notin> set (path_of options)"
    using ok by (auto simp: client_ok_def list_all_iff)
  ultimately show ?thesis
    using ok key cr unfolding client_lines_def path_of_def
    by (cases "co_subprotocols options"; cases "co_origin options")
      (auto simp: client_ok_def offered_by_def list_all_iff)
qed

lemma client_request_read:
  assumes maps: "case_maps upper lower" and ok: "client_ok lower options" and key: "\<forall>c \<in> set key. c \<noteq> 0x0d"
  shows "parseHandshakeRequest lower (join_with crlf_text (client_lines options key)) =
      Inr \<lparr>hq_method = js ''GET'', hq_httpVersion = js ''1.1'', hq_headers = fields_of lower jmap_empty (client_fields options key),
           hq_path = path_of options\<rparr>"
proof -
  have lines: "split_crlf (join_with crlf_text (client_lines options key)) = client_lines options key"
    by (rule split_crlf_join [OF client_lines_clean [OF ok key]]) (simp add: client_lines_fields)
  have names: "list_all (\<lambda>(k, v). k \<noteq> [] \<and> 0x3a \<notin> set k) (client_fields options key)"
  proof -
    have "0x3a \<notin> set (js ''Host'')" "0x3a \<notin> set (js ''Upgrade'')" "0x3a \<notin> set (js ''Connection'')" "0x3a \<notin> set (js ''Sec-WebSocket-Key'')"
      "0x3a \<notin> set (js ''Sec-WebSocket-Version'')" "0x3a \<notin> set (js ''Sec-WebSocket-Protocol'')" "0x3a \<notin> set (js ''Origin'')"
      by code_simp+
    then show ?thesis
      using ok by (cases "co_origin options") (auto simp: client_fields_def client_ok_def extra_ok_def list_all_iff)
  qed
  have "split_on 0x20 (js ''GET '' @ path_of options @ js '' HTTP/1.1'') = [js ''GET'', path_of options, js ''HTTP/1.1'']"
  proof -
    have "js ''GET '' = js ''GET'' @ [0x20]" "js '' HTTP/1.1'' = 0x20 # js ''HTTP/1.1''" "0x20 \<notin> set (js ''GET'')" "0x20 \<notin> set (js ''HTTP/1.1'')"
      by code_simp+
    moreover have "0x20 \<notin> set (path_of options)"
      using ok by (auto simp: client_ok_def list_all_iff)
    ultimately show ?thesis
      by (simp add: split_on_sep split_on_none)
  qed
  moreover have "http_version_of (js ''HTTP/1.1'') = js ''1.1''"
    by code_simp
  ultimately show ?thesis
    by (simp add: parseHandshakeRequest_def client_lines_fields lines [unfolded client_lines_fields] field_lines_of [OF names])
qed

text \<open>
  A request that the client builds is read and accepted by every server that does not refuse its origin, whatever further
  headers it carries; the server's accept value is the one the client expects for the key it sent, and the subprotocol chosen
  is the first of the server's that the client offered.
\<close>

theorem handshake_completes:
  assumes "length randomBytes = 16" and "case_maps upper lower" and "client_ok lower options" and "origin_welcome server options"
    and "buildClientHandshake randomBytes options = (head @ crlf_text @ crlf_text, key)"
  shows "\<exists>r. parseHandshakeRequest lower head = Inr r \<and> hq_path r = path_of options
    \<and> validateHandshake sha1 upper lower r server =
        \<lparr>hv_valid = True, hv_acceptKey = Some (computeAcceptKey sha1 key), hv_errors = [],
         hv_subprotocol = (case ho_supportedSubprotocols server of
             None \<Rightarrow> None
           | Some supported \<Rightarrow> List.find (\<lambda>p. p \<in> set (offered_by options)) supported)\<rparr>
    \<and> verifyAcceptKey sha1 key (computeAcceptKey sha1 key)"
proof -
  have head: "head = join_with crlf_text (client_lines options key)" and key: "key = base64_encode randomBytes"
    using assms(5) by (auto simp: buildClientHandshake_def generateClientKey_def Let_def)
  have units: "\<forall>c \<in> set key. \<not> is_space c" "\<forall>c \<in> set key. c \<noteq> 0x0d"
    using base64_units [of _ randomBytes] by (simp_all add: key)
  let ?r = "\<lparr>hq_method = js ''GET'', hq_httpVersion = js ''1.1'', hq_headers = fields_of lower jmap_empty (client_fields options key),
      hq_path = path_of options\<rparr>"
  have read: "parseHandshakeRequest lower head = Inr ?r"
    unfolding head by (rule client_request_read [OF assms(2,3) units(2)])
  note found = client_values [OF assms(2,3) units(1)]
  have length16: "tryBase64Length key = 16" "key \<noteq> []"
    using key_length_of_encoding [of randomBytes] assms(1) by (auto simp: key tryBase64Length_def trim_def base64url_decode_def)
  have tokens: "split_on 0x2c (js ''websocket'') = [js ''websocket'']" "split_on 0x2c (js ''Upgrade'') = [js ''Upgrade'']"
    "version_too_old (js ''1.1'') = False" "js_nat SUPPORTED_VERSION = js ''13''"
    by code_simp+
  have "origin_error (ho_allowedOrigins server) (case co_origin options of Some v \<Rightarrow> if v \<noteq> [] then Some v else None | None \<Rightarrow> None) = []"
    using assms(4) by (cases "ho_allowedOrigins server"; cases "co_origin options") (auto simp: origin_error_def origin_welcome_def)
  then have "handshake_errors upper lower ?r server = []"
    using assms(2) length16(1) ascii_names [OF assms(2)]
    by (simp add: handshake_errors_def Let_def found headerHasToken_def tokens case_maps_def key_error_def)
  moreover have "negotiate (ho_supportedSubprotocols server) (jmap_get (hq_headers ?r) (js ''sec-websocket-protocol'')) =
      (case ho_supportedSubprotocols server of None \<Rightarrow> None | Some supported \<Rightarrow> List.find (\<lambda>p. p \<in> set (offered_by options)) supported)"
  proof (cases "offered_by options = []")
    case True
    have "List.find (\<lambda>p. False) ps = None" for ps :: "jstring list"
      by (induction ps) simp_all
    then show ?thesis
      using True by (simp add: found negotiate_def split: option.split)
  next
    case False
    have "list_all token_ok (offered_by options)"
      using assms(3) by (simp add: client_ok_def)
    then show ?thesis
      using False split_tokens [of "offered_by options"] by (simp add: found negotiate_def split: option.split)
  qed
  ultimately have "validateHandshake sha1 upper lower ?r server =
      \<lparr>hv_valid = True, hv_acceptKey = Some (computeAcceptKey sha1 key), hv_errors = [],
       hv_subprotocol = (case ho_supportedSubprotocols server of
           None \<Rightarrow> None
         | Some supported \<Rightarrow> List.find (\<lambda>p. p \<in> set (offered_by options)) supported)\<rparr>"
    using length16(2) by (simp add: validateHandshake_def Let_def found)
  moreover have "verifyAcceptKey sha1 key (computeAcceptKey sha1 key)"
    by (simp add: verifyAcceptKey_def Let_def computeAcceptKey_def trim_fixed base64_units(1))
  ultimately show ?thesis
    using read by (intro exI [of _ ?r]) simp
qed

definition sample_client :: client_options where
  "sample_client = \<lparr>co_host = js ''h'', co_path = None, co_subprotocols = Some [js ''chat'', js ''superchat''], co_origin = Some (js ''o''),
     co_extraHeaders = [(js ''Cookie'', js ''a=1'')]\<rparr>"

definition sample_server :: handshake_options where
  "sample_server = \<lparr>ho_supportedSubprotocols = Some [js ''x'', js ''superchat''], ho_allowedOrigins = Some [js ''o'']\<rparr>"

theorem handshake_completes_witness:
  "\<exists>head key r. buildClientHandshake (replicate 16 7) sample_client = (head @ crlf_text @ crlf_text, key)
     \<and> parseHandshakeRequest (map ascii_down) head = Inr r
     \<and> validateHandshake (take 20) (\<lambda>s. s) (map ascii_down) r sample_server =
         \<lparr>hv_valid = True, hv_acceptKey = Some (computeAcceptKey (take 20) key), hv_errors = [], hv_subprotocol = Some (js ''superchat'')\<rparr>"
proof -
  let ?key = "generateClientKey (replicate 16 7)"
  let ?head = "join_with crlf_text (client_lines sample_client ?key)"
  have 1: "length (replicate 16 (7 :: byte)) = 16" and 2: "case_maps (\<lambda>s. s) (map ascii_down)"
    by (simp_all add: case_maps_def)
  have 3: "client_ok (map ascii_down) sample_client" and 4: "origin_welcome sample_server sample_client"
    by code_simp+
  have 5: "buildClientHandshake (replicate 16 7) sample_client = (?head @ crlf_text @ crlf_text, ?key)"
    by (simp add: buildClientHandshake_def Let_def)
  have 6: "(case ho_supportedSubprotocols sample_server of None \<Rightarrow> None
      | Some supported \<Rightarrow> List.find (\<lambda>p. p \<in> set (offered_by sample_client)) supported) = Some (js ''superchat'')"
    by code_simp
  from handshake_completes [OF 1 2 3 4 5, of "take 20", unfolded 6] show ?thesis
    using 5 by blast
qed

text \<open>
  Only the accept value of the key that was sent is taken.
\<close>

theorem accept_value_exact:
  assumes "well_formed (trim acceptHeader)" and "well_formed (computeAcceptKey sha1 key)"
  shows "verifyAcceptKey sha1 key acceptHeader = (trim acceptHeader = computeAcceptKey sha1 key)"
proof -
  have "buffer_from (trim acceptHeader) = buffer_from (computeAcceptKey sha1 key) \<longleftrightarrow> trim acceptHeader = computeAcceptKey sha1 key"
    using utf8_string_buffer_from [OF assms(1)] utf8_string_buffer_from [OF assms(2)] by metis
  then show ?thesis
    by (auto simp: verifyAcceptKey_def Let_def)
qed

text \<open>
  A request line that ends in \<open>HTTP/1\<close> passes the check of the version, which asks for 1.1: a part that is missing is neither
  NaN nor below 1.
\<close>

theorem version_without_minor_accepted:
  "http_version_of (js ''HTTP/1'') = js ''1'' \<and> \<not> version_too_old (js ''1'') \<and> version_too_old (js ''1.0'')"
  by code_simp

end
