(* ===== verification/WsResume.thy ===== *)
theory WsResume
  imports Interfaces NodeBuffer
begin

text \<open>
  Reconnection (\<open>websocket/server/ResumeBuffer.ts\<close>): the bounded log of sequenced messages and what it
  replays, and the signed resume tokens. Clock readings are arguments; a signer is the code's interface
  \<open>ResumeTokenSigner\<close>, so tokens are shown correct for every signer. \<open>HMAC-SHA256\<close> itself (Node's
  \<open>crypto\<close>) is a parameter of the signer that uses it.
\<close>

section \<open>The replay log\<close>

record buffered_message =
  bm_seq :: int
  bm_payload :: "byte list"
  bm_binary :: bool
  bm_bytes :: int
  bm_appendedAt :: int

datatype resume_result =
    Replay (re_messages: "buffered_message list") (re_nextSeq: int)
  | Gap (re_oldest: int) (re_nextSeq: int)

record resume_options =
  so_maxEntries :: "int option"
  so_maxBytes :: "int option"
  so_firstSeq :: "int option"
  so_perMessageOverhead :: "int option"

record resume_buffer =
  sb_maxEntries :: int
  sb_maxBytes :: int
  sb_overhead :: int
  sb_entries :: "buffered_message list"
  sb_bytes :: int
  sb_nextSeq :: int
  sb_appended :: nat
  sb_evicted :: nat

definition default_to :: "'a \<Rightarrow> 'a option \<Rightarrow> 'a" where
  "default_to d x = (case x of Some v \<Rightarrow> v | None \<Rightarrow> d)"

definition new_resume_buffer :: "resume_options \<Rightarrow> resume_buffer" where
  "new_resume_buffer options =
     \<lparr>sb_maxEntries = default_to 1024 (so_maxEntries options),
      sb_maxBytes = default_to (1024 * 1024) (so_maxBytes options),
      sb_overhead = default_to 14 (so_perMessageOverhead options),
      sb_entries = [], sb_bytes = 0, sb_nextSeq = default_to 1 (so_firstSeq options), sb_appended = 0, sb_evicted = 0\<rparr>"

definition oldestSeq :: "resume_buffer \<Rightarrow> int option" where
  "oldestSeq b = (case sb_entries b of [] \<Rightarrow> None | m # _ \<Rightarrow> Some (bm_seq m))"

definition resume_size :: "resume_buffer \<Rightarrow> nat \<times> int" where
  "resume_size b = (length (sb_entries b), sb_bytes b)"

text \<open>The eviction loop, on the entries, the bytes held and the evictions counted.\<close>

fun evict_over :: "int \<Rightarrow> int \<Rightarrow> buffered_message list \<Rightarrow> int \<Rightarrow> nat \<Rightarrow> buffered_message list \<times> int \<times> nat" where
  "evict_over maxEntries maxBytes [] bytes evicted = ([], bytes, evicted)"
| "evict_over maxEntries maxBytes (m # ms) bytes evicted =
     (if int (length (m # ms)) > maxEntries \<or> bytes > maxBytes
      then evict_over maxEntries maxBytes ms (bytes - bm_bytes m) (evicted + 1)
      else (m # ms, bytes, evicted))"

definition evictOverCapacity :: "resume_buffer \<Rightarrow> resume_buffer" where
  "evictOverCapacity b =
     (let (ms, bytes, evicted) = evict_over (sb_maxEntries b) (sb_maxBytes b) (sb_entries b) (sb_bytes b) (sb_evicted b)
      in b\<lparr>sb_entries := ms, sb_bytes := bytes, sb_evicted := evicted\<rparr>)"

definition resume_append :: "int \<Rightarrow> byte list \<Rightarrow> bool \<Rightarrow> resume_buffer \<Rightarrow> resume_buffer \<times> buffered_message" where
  "resume_append now payload binary b =
     (let entry = \<lparr>bm_seq = sb_nextSeq b, bm_payload = payload, bm_binary = binary,
                   bm_bytes = int (length payload) + sb_overhead b, bm_appendedAt = now\<rparr>;
          b = b\<lparr>sb_nextSeq := sb_nextSeq b + 1\<rparr>;
          b = b\<lparr>sb_entries := sb_entries b @ [entry], sb_bytes := sb_bytes b + bm_bytes entry,
                sb_appended := sb_appended b + 1\<rparr>
      in (evictOverCapacity b, entry))"

text \<open>The binary search for the first entry after \<open>lastSeq\<close>.\<close>

function first_after :: "buffered_message list \<Rightarrow> int \<Rightarrow> nat \<Rightarrow> nat \<Rightarrow> nat" where
  "first_after ms lastSeq lo hi =
     (if lo < hi then
        let mid = (lo + hi) div 2 in
        if bm_seq (ms ! mid) \<le> lastSeq then first_after ms lastSeq (mid + 1) hi else first_after ms lastSeq lo mid
      else lo)"
  by pat_completeness auto
termination
  by (relation "measure (\<lambda>(ms, lastSeq, lo, hi). hi - lo)") auto

declare first_after.simps [simp del]

definition replayAfter :: "int \<Rightarrow> resume_buffer \<Rightarrow> resume_result" where
  "replayAfter lastSeq b =
     (case oldestSeq b of
        None \<Rightarrow> Replay [] (sb_nextSeq b)
      | Some oldest \<Rightarrow>
          if lastSeq \<ge> sb_nextSeq b - 1 then Replay [] (sb_nextSeq b)
          else if lastSeq < oldest - 1 then Gap oldest (sb_nextSeq b)
          else Replay (drop (first_after (sb_entries b) lastSeq 0 (length (sb_entries b))) (sb_entries b))
                      (sb_nextSeq b))"

definition resume_clear :: "resume_buffer \<Rightarrow> resume_buffer" where
  "resume_clear b = b\<lparr>sb_entries := [], sb_bytes := 0\<rparr>"

section \<open>Tokens\<close>

record token_signer =
  sg_sign :: "jstring \<Rightarrow> byte list"
  sg_macBytes :: nat

datatype signer_secret = BufferSecret "byte list" | TextSecret jstring

definition hmac_signer :: "(byte list \<Rightarrow> byte list \<Rightarrow> byte list) \<Rightarrow> signer_secret \<Rightarrow> token_signer" where
  "hmac_signer hmac_sha256 secret =
     (let key = (case secret of TextSecret s \<Rightarrow> buffer_from s | BufferSecret b \<Rightarrow> b)
      in \<lparr>sg_sign = (\<lambda>payload. take 16 (hmac_sha256 key (buffer_from payload))), sg_macBytes = 16\<rparr>)"

definition fnv1a :: "jstring \<Rightarrow> 32 word" where
  "fnv1a payload = foldl (\<lambda>h c. (h XOR ucast c) * 0x01000193) 0x811c9dc5 payload"

definition test_signer :: token_signer where
  "test_signer = \<lparr>sg_sign = (\<lambda>payload. be_bytes 4 (unat (fnv1a payload))), sg_macBytes = 4\<rparr>"

record resume_token =
  tk_connectionId :: jstring
  tk_lastSeq :: int

datatype token_error = ConnectionIdTooLong | SeqRangeError

text \<open>The token's body: the identifier's length in one byte, the identifier, the sequence in eight.\<close>

definition token_body :: "byte list \<Rightarrow> nat \<Rightarrow> byte list" where
  "token_body ident seq = be_bytes 1 (length ident) @ ident @ be_bytes 8 seq"

text \<open>\<open>BigInt\<close> and \<open>writeBigUInt64BE\<close> throw outside the 64-bit range.\<close>

definition issue :: "token_signer \<Rightarrow> jstring \<Rightarrow> int \<Rightarrow> token_error + jstring" where
  "issue signer connectionId lastSeq =
     (let ident = buffer_from connectionId in
      if length ident > 255 then Inl ConnectionIdTooLong
      else if lastSeq < 0 \<or> lastSeq \<ge> 2 ^ 64 then Inl SeqRangeError
      else
        let body = token_body ident (nat lastSeq); mac = sg_sign signer (latin1 body)
        in Inr (base64url_encode (body @ mac)))"

definition verify :: "token_signer \<Rightarrow> jstring \<Rightarrow> resume_token option" where
  "verify signer token =
     (let raw = base64url_decode token; macLen = sg_macBytes signer in
      if length raw < 1 + 8 + macLen then None
      else
        let body = take (length raw - macLen) raw;
            mac = drop (length raw - macLen) raw;
            expected = sg_sign signer (latin1 body)
        in
        if length expected \<noteq> length mac \<or> expected \<noteq> mac then None
        else
          let idLen = unat (body ! 0) in
          if length body \<noteq> 1 + idLen + 8 then None
          else Some \<lparr>tk_connectionId = utf8_string (slice 1 idLen body),
                     tk_lastSeq = int (number_of_bigint (be_val (slice (1 + idLen) 8 body)))\<rparr>)"

section \<open>The log's invariant\<close>

text \<open>
  The history is every message the buffer returned. The entries are its end, from some point on, its
  sequence numbers are consecutive, and the byte count is exact.
\<close>

definition consecutive :: "int \<Rightarrow> buffered_message list \<Rightarrow> bool" where
  "consecutive first ms \<longleftrightarrow> (\<forall>i < length ms. bm_seq (ms ! i) = first + int i)"

definition resume_inv :: "int \<Rightarrow> resume_buffer \<Rightarrow> buffered_message list \<Rightarrow> bool" where
  "resume_inv first b history \<longleftrightarrow> (\<exists>k \<le> length history. sb_entries b = drop k history)
     \<and> consecutive first history \<and> sb_nextSeq b = first + int (length history)
     \<and> sb_bytes b = sum_list (map bm_bytes (sb_entries b))
     \<and> (\<forall>m \<in> set history. bm_bytes m = int (length (bm_payload m)) + sb_overhead b)
     \<and> (sb_entries b = [] \<or> int (length (sb_entries b)) \<le> sb_maxEntries b \<and> sb_bytes b \<le> sb_maxBytes b)"

lemma evict_over_drop:
  "evict_over maxE maxB ms bytes ev = (ms', bytes', ev') \<Longrightarrow>
     \<exists>k \<le> length ms. ms' = drop k ms \<and> bytes' = bytes - sum_list (map bm_bytes (take k ms)) \<and> ev' = ev + k
       \<and> (ms' = [] \<or> int (length ms') \<le> maxE \<and> bytes' \<le> maxB)"
proof (induction ms arbitrary: bytes ev)
  case Nil
  then show ?case by auto
next
  case (Cons m ms)
  show ?case
  proof (cases "int (length (m # ms)) > maxE \<or> bytes > maxB")
    case True
    then have "evict_over maxE maxB ms (bytes - bm_bytes m) (ev + 1) = (ms', bytes', ev')"
      using Cons.prems by (simp split: if_splits)
    from Cons.IH [OF this] obtain k where "k \<le> length ms" "ms' = drop k ms"
      "bytes' = bytes - bm_bytes m - sum_list (map bm_bytes (take k ms))" "ev' = ev + 1 + k"
      "ms' = [] \<or> int (length ms') \<le> maxE \<and> bytes' \<le> maxB"
      by blast
    then show ?thesis
      by (intro exI [of _ "Suc k"]) simp
  next
    case False
    then show ?thesis
      using Cons.prems by (intro exI [of _ 0]) auto
  qed
qed

lemma sum_list_drop: "sum_list (map f xs) - sum_list (map f (take k xs)) = sum_list (map f (drop k xs))"
  for f :: "'a \<Rightarrow> int"
proof -
  have "sum_list (map f xs) = sum_list (map f (take k xs @ drop k xs))"
    by simp
  then show ?thesis
    by (simp only: map_append sum_list_append)
qed

lemma consecutive_append: "consecutive first ms \<Longrightarrow> bm_seq m = first + int (length ms) \<Longrightarrow> consecutive first (ms @ [m])"
  by (simp add: consecutive_def nth_append less_Suc_eq)

lemma resume_append_inv:
  assumes inv: "resume_inv first b history" and app: "resume_append now payload binary b = (b', m)"
  shows "resume_inv first b' (history @ [m])"
proof -
  obtain k where k: "k \<le> length history" "sb_entries b = drop k history"
    using inv by (auto simp: resume_inv_def)
  obtain ms bytes ev where ev: "evict_over (sb_maxEntries b) (sb_maxBytes b) (sb_entries b @ [m])
      (sb_bytes b + bm_bytes m) (sb_evicted b) = (ms, bytes, ev)"
    by (metis prod.collapse)
  have b': "sb_entries b' = ms" "sb_bytes b' = bytes" "sb_nextSeq b' = sb_nextSeq b + 1" "bm_seq m = sb_nextSeq b"
    "sb_maxEntries b' = sb_maxEntries b" "sb_maxBytes b' = sb_maxBytes b" "sb_overhead b' = sb_overhead b"
    "bm_bytes m = int (length (bm_payload m)) + sb_overhead b"
    using app ev by (auto simp: resume_append_def evictOverCapacity_def Let_def split: prod.splits)
  obtain j where j: "j \<le> length (sb_entries b @ [m])" "ms = drop j (sb_entries b @ [m])"
    "bytes = sb_bytes b + bm_bytes m - sum_list (map bm_bytes (take j (sb_entries b @ [m])))"
    "ms = [] \<or> int (length ms) \<le> sb_maxEntries b \<and> bytes \<le> sb_maxBytes b"
    using evict_over_drop [OF ev] by blast
  have "sb_entries b @ [m] = drop k (history @ [m])"
    using k by simp
  then have "ms = drop (j + k) (history @ [m])" "j + k \<le> length (history @ [m])"
    using j(1,2) k by (simp_all add: add.commute)
  moreover have "bytes = sum_list (map bm_bytes ms)"
    using j(2,3) inv sum_list_drop [of bm_bytes "sb_entries b @ [m]" j] by (simp add: resume_inv_def)
  ultimately show ?thesis
    using inv b' j(4) consecutive_append [of first history m] unfolding resume_inv_def by (auto intro!: exI [of _ "j + k"])
qed

lemma resume_clear_inv: "resume_inv first b history \<Longrightarrow> resume_inv first (resume_clear b) history"
  by (auto simp: resume_inv_def resume_clear_def intro!: exI [of _ "length history"])

lemma resume_new_inv: "resume_inv (sb_nextSeq (new_resume_buffer options)) (new_resume_buffer options) []"
  by (simp add: resume_inv_def new_resume_buffer_def consecutive_def)

section \<open>The binary search\<close>

text \<open>\<open>r\<close> splits the entries into those up to \<open>l\<close> and those after it.\<close>

definition splits_at :: "buffered_message list \<Rightarrow> int \<Rightarrow> nat \<Rightarrow> bool" where
  "splits_at ms l r \<longleftrightarrow> r \<le> length ms \<and> (\<forall>i < r. bm_seq (ms ! i) \<le> l)
     \<and> (\<forall>i. r \<le> i \<longrightarrow> i < length ms \<longrightarrow> l < bm_seq (ms ! i))"

lemma first_after_splits:
  assumes "sorted (map bm_seq ms)" and "lo \<le> hi" and "hi \<le> length ms"
    and "\<And>i. i < lo \<Longrightarrow> bm_seq (ms ! i) \<le> l" and "\<And>i. hi \<le> i \<Longrightarrow> i < length ms \<Longrightarrow> l < bm_seq (ms ! i)"
  shows "splits_at ms l (first_after ms l lo hi)"
  using assms
proof (induction "hi - lo" arbitrary: lo hi rule: less_induct)
  case less
  show ?case
  proof (cases "lo < hi")
    case False
    with less.prems show ?thesis
      by (subst first_after.simps) (auto simp: splits_at_def)
  next
    case True
    define mid where "mid = (lo + hi) div 2"
    have mid: "lo \<le> mid" "mid < hi" "mid < length ms"
      using True less.prems(3) by (auto simp: mid_def)
    have mono: "bm_seq (ms ! i) \<le> bm_seq (ms ! j)" if "i \<le> j" "j < length ms" for i j
      using sorted_nth_mono [OF less.prems(1), of i j] that by simp
    show ?thesis
    proof (cases "bm_seq (ms ! mid) \<le> l")
      case low: True
      have "bm_seq (ms ! i) \<le> l" if "i < mid + 1" for i
        using mono [of i mid] low mid that by simp
      then have "splits_at ms l (first_after ms l (mid + 1) hi)"
        using less.prems mid by (intro less.hyps) auto
      with low True show ?thesis
        by (subst first_after.simps) (simp add: mid_def)
    next
      case high: False
      have "l < bm_seq (ms ! i)" if "mid \<le> i" "i < length ms" for i
        using mono [of mid i] high that by simp
      then have "splits_at ms l (first_after ms l lo mid)"
        using less.prems mid by (intro less.hyps) auto
      with high True show ?thesis
        by (subst first_after.simps) (simp add: mid_def)
    qed
  qed
qed

lemma splits_at_filter:
  assumes "splits_at ms l r"
  shows "drop r ms = filter (\<lambda>m. l < bm_seq m) ms"
proof -
  have "filter (\<lambda>m. l < bm_seq m) (take r ms) = []"
    using assms by (fastforce simp: splits_at_def filter_empty_conv in_set_conv_nth)
  moreover have "filter (\<lambda>m. l < bm_seq m) (drop r ms) = drop r ms"
    using assms by (fastforce simp: splits_at_def filter_id_conv in_set_conv_nth)
  moreover have "filter (\<lambda>m. l < bm_seq m) ms = filter (\<lambda>m. l < bm_seq m) (take r ms) @ filter (\<lambda>m. l < bm_seq m) (drop r ms)"
    by (metis append_take_drop_id filter_append)
  ultimately show ?thesis by simp
qed

lemma binary_search_is_filter:
  assumes "sorted (map bm_seq ms)"
  shows "drop (first_after ms l 0 (length ms)) ms = filter (\<lambda>m. l < bm_seq m) ms"
  by (rule splits_at_filter [OF first_after_splits]) (simp_all add: assms)

lemma consecutive_sorted: "consecutive first ms \<Longrightarrow> sorted (map bm_seq ms)"
  by (simp add: consecutive_def sorted_iff_nth_mono)

lemma consecutive_drop: "consecutive first ms \<Longrightarrow> consecutive (first + int k) (drop k ms)"
  by (simp add: consecutive_def)

section \<open>Runs\<close>

datatype resume_op = AppendOp int "byte list" bool | ClearOp

fun resume_step :: "resume_buffer \<times> buffered_message list \<Rightarrow> resume_op \<Rightarrow> resume_buffer \<times> buffered_message list" where
  "resume_step (b, history) (AppendOp now payload binary) =
     (let (b, m) = resume_append now payload binary b in (b, history @ [m]))"
| "resume_step (b, history) ClearOp = (resume_clear b, history)"

interpretation resume_log: invariant_machine resume_step "\<lambda>(b, history). resume_inv first b history" for first
proof
  fix s :: "resume_buffer \<times> buffered_message list" and op
  assume "(\<lambda>(b, history). resume_inv first b history) s"
  then show "(\<lambda>(b, history). resume_inv first b history) (resume_step s op)"
    by (cases s; cases op) (auto simp: resume_clear_inv resume_append_inv split: prod.split)
qed

lemma resume_run_inv:
  assumes "foldl resume_step (new_resume_buffer options, []) ops = (b, history)"
  shows "resume_inv (default_to 1 (so_firstSeq options)) b history"
  using resume_log.inv_run [of _ "(new_resume_buffer options, [])" ops] resume_new_inv [of options] assms
  by (simp add: new_resume_buffer_def)

section \<open>What is replayed\<close>

lemma caps_kept_append [simp]:
  "sb_maxEntries (fst (resume_append now payload binary b)) = sb_maxEntries b"
  "sb_maxBytes (fst (resume_append now payload binary b)) = sb_maxBytes b"
  "sb_overhead (fst (resume_append now payload binary b)) = sb_overhead b"
  by (simp_all add: resume_append_def evictOverCapacity_def Let_def split: prod.split)

lemma caps_kept_run:
  "foldl resume_step (b, h) ops = (b', h') \<Longrightarrow>
     sb_maxEntries b' = sb_maxEntries b \<and> sb_maxBytes b' = sb_maxBytes b \<and> sb_overhead b' = sb_overhead b"
proof (induction ops arbitrary: b h)
  case (Cons op ops)
  then show ?case
  proof (cases op)
    case (AppendOp now payload binary)
    obtain b1 m where "resume_append now payload binary b = (b1, m)"
      by fastforce
    moreover from this have "sb_maxEntries b1 = sb_maxEntries b" "sb_maxBytes b1 = sb_maxBytes b" "sb_overhead b1 = sb_overhead b"
      using caps_kept_append [of now payload binary b] by simp_all
    ultimately show ?thesis
      using Cons AppendOp by fastforce
  next
    case ClearOp
    with Cons show ?thesis by (auto simp: resume_clear_def)
  qed
qed simp

lemma replay_missed:
  assumes inv: "resume_inv first b history" and held: "sb_entries b \<noteq> []" and start: "first - 1 \<le> l"
  defines "missed \<equiv> filter (\<lambda>m. l < bm_seq m) history"
  shows "replayAfter l b = (if set missed \<subseteq> set (sb_entries b) then Replay missed (sb_nextSeq b)
                            else Gap (bm_seq (hd (sb_entries b))) (sb_nextSeq b))"
proof -
  obtain k where k: "k \<le> length history" "sb_entries b = drop k history"
    using inv by (auto simp: resume_inv_def)
  have con: "consecutive first history" and nxt: "sb_nextSeq b = first + int (length history)"
    using inv by (auto simp: resume_inv_def)
  have seq: "bm_seq (history ! i) = first + int i" if "i < length history" for i
    using con that by (simp add: consecutive_def)
  have k': "k < length history"
    using held k by auto
  then have "sb_entries b = history ! k # drop (Suc k) history"
    using k by (simp add: Cons_nth_drop_Suc)
  then have hd: "hd (sb_entries b) = history ! k" "oldestSeq b = Some (first + int k)"
    using seq [OF k'] by (simp_all add: oldestSeq_def)
  consider "l \<ge> sb_nextSeq b - 1" | "l < sb_nextSeq b - 1" "l < first + int k - 1" | "l < sb_nextSeq b - 1" "first + int k - 1 \<le> l"
    by linarith
  then show ?thesis
  proof cases
    case 1
    then have "missed = []"
      using seq nxt by (auto simp: missed_def filter_empty_conv in_set_conv_nth)
    with 1 hd show ?thesis
      by (simp add: replayAfter_def)
  next
    case 2
    define j where "j = nat (l + 1 - first)"
    have j: "j < k" "l < bm_seq (history ! j)"
      using 2 start k seq [of j] by (auto simp: j_def)
    then have "history ! j \<in> set missed"
      using k by (simp add: missed_def)
    moreover have "history ! j \<notin> set (sb_entries b)"
    proof
      assume "history ! j \<in> set (sb_entries b)"
      then obtain i where "i < length history - k" "history ! (k + i) = history ! j"
        by (auto simp: k in_set_conv_nth)
      then show False
        using seq [of "k + i"] seq [of j] j(1) k' by (simp add: less_diff_conv add.commute)
    qed
    ultimately have "\<not> set missed \<subseteq> set (sb_entries b)"
      by blast
    with 2 hd seq [OF k'] show ?thesis
      by (simp add: replayAfter_def)
  next
    case 3
    have "filter (\<lambda>m. l < bm_seq m) (take k history) = []"
      using 3(2) k seq by (auto simp: filter_empty_conv in_set_conv_nth)
    then have missed: "missed = filter (\<lambda>m. l < bm_seq m) (sb_entries b)"
      unfolding missed_def k(2) by (metis append_Nil append_take_drop_id filter_append)
    have "sorted (map bm_seq (sb_entries b))"
      unfolding k(2) by (rule consecutive_sorted [OF consecutive_drop [OF con]])
    from binary_search_is_filter [OF this] missed 3 hd show ?thesis
      by (auto simp: replayAfter_def)
  qed
qed

text \<open>
  C26: while the buffer holds anything, \<open>replayAfter\<close> replays exactly the messages sent after the
  client's last one, in order, when all of them are still held, and signals a gap with the oldest held
  sequence number otherwise, after any appends, evictions and clears.
\<close>

theorem resume_replay_exact:
  assumes "foldl resume_step (new_resume_buffer options, []) ops = (b, history)"
    and "sb_entries b \<noteq> []" and "default_to 1 (so_firstSeq options) - 1 \<le> lastSeq"
  shows "replayAfter lastSeq b =
     (let missed = filter (\<lambda>m. lastSeq < bm_seq m) history in
      if set missed \<subseteq> set (sb_entries b) then Replay missed (sb_nextSeq b)
      else Gap (bm_seq (hd (sb_entries b))) (sb_nextSeq b))"
  using replay_missed [OF resume_run_inv [OF assms(1)] assms(2,3)] by (simp add: Let_def)

definition small_options :: resume_options where
  "small_options = \<lparr>so_maxEntries = Some 2, so_maxBytes = Some 100, so_firstSeq = None, so_perMessageOverhead = Some 4\<rparr>"

theorem resume_replay_exact_witness:
  "let (b, history) = foldl resume_step (new_resume_buffer small_options, [])
                        [AppendOp 0 [1] True, AppendOp 0 [2] True, AppendOp 0 [3] True]
   in replayAfter 1 b = Replay (drop 1 history) 4 \<and> replayAfter 0 b = Gap 2 4"
proof -
  let ?ops = "[AppendOp 0 [1] True, AppendOp 0 [2] True, AppendOp 0 [3] True]"
  let ?m = "\<lambda>n p. \<lparr>bm_seq = n, bm_payload = [p], bm_binary = True, bm_bytes = 5, bm_appendedAt = 0\<rparr>"
  let ?b = "\<lparr>sb_maxEntries = 2, sb_maxBytes = 100, sb_overhead = 4, sb_entries = [?m 2 2, ?m 3 3], sb_bytes = 10,
              sb_nextSeq = 4, sb_appended = 3, sb_evicted = 1\<rparr>"
  have run: "foldl resume_step (new_resume_buffer small_options, []) ?ops = (?b, [?m 1 1, ?m 2 2, ?m 3 3])"
    by (simp add: new_resume_buffer_def small_options_def default_to_def resume_append_def evictOverCapacity_def Let_def)
  have "replayAfter 1 ?b = Replay [?m 2 2, ?m 3 3] 4" "replayAfter 0 ?b = Gap 2 4"
    using resume_replay_exact [OF run, of 1] resume_replay_exact [OF run, of 0]
    by (simp_all add: small_options_def default_to_def)
  then show ?thesis
    unfolding run by simp
qed

text \<open>
  The buffer stays within its caps after any appends, evictions and clears, its byte count is
  exact, and the sequence numbers it assigned are consecutive from the first.
\<close>

theorem resume_bounded:
  "let (b, history) = foldl resume_step (new_resume_buffer options, []) ops in
     int (length (sb_entries b)) \<le> max 0 (default_to 1024 (so_maxEntries options))
     \<and> sb_bytes b = sum_list (map bm_bytes (sb_entries b))
     \<and> sb_bytes b \<le> max 0 (default_to (1024 * 1024) (so_maxBytes options))
     \<and> map bm_seq history = map (\<lambda>i. default_to 1 (so_firstSeq options) + int i) [0..<length history]"
proof -
  obtain b history where run: "foldl resume_step (new_resume_buffer options, []) ops = (b, history)"
    by fastforce
  have caps: "sb_maxEntries b = default_to 1024 (so_maxEntries options)"
    "sb_maxBytes b = default_to (1024 * 1024) (so_maxBytes options)"
    using caps_kept_run [OF run] by (simp_all add: new_resume_buffer_def)
  have inv: "resume_inv (default_to 1 (so_firstSeq options)) b history"
    by (rule resume_run_inv [OF run])
  have "map bm_seq history = map (\<lambda>i. default_to 1 (so_firstSeq options) + int i) [0..<length history]"
    using inv by (intro nth_equalityI) (simp_all add: resume_inv_def consecutive_def)
  with inv caps show ?thesis
    unfolding run by (auto simp: resume_inv_def)
qed

text \<open>
  A message too big for the buffer empties it, and the client that misses it is told that it missed
  nothing: the replay is empty and no gap is signalled.
\<close>

theorem resume_oversize_lost:
  assumes "foldl resume_step (new_resume_buffer options, []) ops = (b, history)"
    and "0 \<le> sb_overhead b" and "sb_maxBytes b < int (length payload) + sb_overhead b"
  shows "let (b', m) = resume_append now payload binary b in
           bm_seq m = sb_nextSeq b \<and> sb_entries b' = [] \<and> replayAfter lastSeq b' = Replay [] (sb_nextSeq b + 1)"
proof -
  obtain b' m where app: "resume_append now payload binary b = (b', m)"
    by fastforce
  have inv: "resume_inv (default_to 1 (so_firstSeq options)) b' (history @ [m])"
    by (rule resume_append_inv [OF resume_run_inv [OF assms(1)] app])
  have fields: "bm_seq m = sb_nextSeq b" "sb_nextSeq b' = sb_nextSeq b + 1"
    "bm_bytes m = int (length payload) + sb_overhead b" "sb_overhead b' = sb_overhead b" "sb_maxBytes b' = sb_maxBytes b"
    using app by (auto simp: resume_append_def evictOverCapacity_def Let_def split: prod.splits)
  have "sb_entries b' = []"
  proof (rule ccontr)
    assume ne: "sb_entries b' \<noteq> []"
    then obtain k where k: "k \<le> length history" "sb_entries b' = drop k history @ [m]"
      using inv by (auto simp: resume_inv_def le_Suc_eq)
    have "0 \<le> bm_bytes x" if "x \<in> set (drop k history)" for x
      using inv that assms(2) fields(4) by (auto simp: resume_inv_def dest: in_set_dropD)
    then have "0 \<le> sum_list (map bm_bytes (drop k history))"
      by (intro sum_list_nonneg) auto
    then have "bm_bytes m \<le> sb_bytes b'"
      using inv k(2) by (simp add: resume_inv_def)
    then show False
      using inv ne fields(3,5) assms(3) by (auto simp: resume_inv_def)
  qed
  with app fields show ?thesis
    by (simp add: replayAfter_def oldestSeq_def)
qed

theorem resume_oversize_lost_witness:
  "let b = new_resume_buffer \<lparr>so_maxEntries = None, so_maxBytes = Some 2, so_firstSeq = None, so_perMessageOverhead = Some 0\<rparr>;
       (b', m) = resume_append 0 [1, 2, 3] True b
   in bm_seq m = 1 \<and> replayAfter 0 b' = Replay [] 2"
  using resume_oversize_lost [of "\<lparr>so_maxEntries = None, so_maxBytes = Some 2, so_firstSeq = None, so_perMessageOverhead = Some 0\<rparr>"
      "[]" _ _ "[1, 2, 3]" 0 True 0]
  by (auto simp: Let_def new_resume_buffer_def default_to_def case_prod_beta)

section \<open>Token round trips\<close>

lemma be_bytes_1: "be_bytes 1 n = [word_of_nat n]"
  by (simp add: numeral_eq_Suc)

lemma token_body_parts:
  assumes "length ident \<le> 255" and "seq < 2 ^ 64"
  shows "length (token_body ident seq) = 1 + length ident + 8" and "unat (token_body ident seq ! 0) = length ident"
    and "slice 1 (length ident) (token_body ident seq) = ident"
    and "be_val (slice (1 + length ident) 8 (token_body ident seq)) = seq"
proof -
  have body: "token_body ident seq = word_of_nat (length ident) # ident @ be_bytes 8 seq"
    unfolding token_body_def be_bytes_1 by simp
  show "length (token_body ident seq) = 1 + length ident + 8"
    by (simp add: body del: be_bytes.simps)
  show "unat (token_body ident seq ! 0) = length ident"
    using assms(1) by (simp add: body unat_of_nat take_bit_nat_eq_self)
  show "slice 1 (length ident) (token_body ident seq) = ident"
    by (simp add: body slice_def)
  have "slice (1 + length ident) 8 (token_body ident seq) = be_bytes 8 seq"
    by (simp add: body slice_def del: be_bytes.simps)
  then show "be_val (slice (1 + length ident) 8 (token_body ident seq)) = seq"
    using assms(2) by (simp only: be_val_be_bytes) simp
qed

text \<open>Different claims have different bodies, whatever the identifiers contain.\<close>

lemma token_body_inj:
  assumes "token_body ident seq = token_body ident' seq'" and "length ident \<le> 255" "length ident' \<le> 255"
    and "seq < 2 ^ 64" "seq' < 2 ^ 64"
  shows "ident = ident' \<and> seq = seq'"
  using token_body_parts [OF assms(2,4)] token_body_parts [OF assms(3,5)] assms(1) by metis

lemma verify_signed_body:
  assumes "length (sg_sign signer (latin1 (token_body ident seq))) = sg_macBytes signer"
    and "length ident \<le> 255" and "seq < 2 ^ 64"
  shows "verify signer (base64url_encode (token_body ident seq @ sg_sign signer (latin1 (token_body ident seq)))) =
           Some \<lparr>tk_connectionId = utf8_string ident, tk_lastSeq = int (number_of_bigint seq)\<rparr>"
proof -
  note parts = token_body_parts [OF assms(2,3)]
  let ?body = "token_body ident seq"
  have "take (length (?body @ sg_sign signer (latin1 ?body)) - sg_macBytes signer) (?body @ sg_sign signer (latin1 ?body)) = ?body"
    "drop (length (?body @ sg_sign signer (latin1 ?body)) - sg_macBytes signer) (?body @ sg_sign signer (latin1 ?body))
       = sg_sign signer (latin1 ?body)"
    using assms(1) by simp_all
  then show ?thesis
    unfolding verify_def Let_def base64url_roundtrip using parts assms(1) by simp
qed

text \<open>
  A resume token gives back the connection identifier and the sequence number it was issued for,
  for every signer whose MACs have their declared length, every identifier without lone surrogates of at
  most 255 bytes and every sequence number below 2 to the 53.
\<close>

theorem token_roundtrip:
  assumes "\<And>payload. length (sg_sign signer payload) = sg_macBytes signer"
    and "well_formed connectionId" and "length (buffer_from connectionId) \<le> 255" and "n < 2 ^ 53"
  shows "\<exists>token. issue signer connectionId (int n) = Inr token
           \<and> verify signer token = Some \<lparr>tk_connectionId = connectionId, tk_lastSeq = int n\<rparr>"
proof -
  have n: "n < 2 ^ 64"
    using assms(4) by simp
  then have "issue signer connectionId (int n) =
      Inr (base64url_encode (token_body (buffer_from connectionId) n
             @ sg_sign signer (latin1 (token_body (buffer_from connectionId) n))))"
    using assms(3) by (simp add: issue_def Let_def)
  then show ?thesis
    using verify_signed_body [OF assms(1) assms(3) n] assms(2,4) by (simp add: utf8_string_buffer_from)
qed

theorem token_roundtrip_witness:
  "\<exists>token. issue test_signer (js ''c'') 7 = Inr token
     \<and> verify test_signer token = Some \<lparr>tk_connectionId = js ''c'', tk_lastSeq = 7\<rparr>"
proof -
  have bytes: "buffer_from (js ''c'') = [99]"
    by (simp add: buffer_from_def js_def js_char_def high_surrogate_def low_surrogate_def utf8_encode_def utf8_encode1_def)
  show ?thesis
    using token_roundtrip [of test_signer "js ''c''" 7] bytes
    by (simp add: test_signer_def js_def js_char_def high_surrogate_def low_surrogate_def)
qed

text \<open>
  A token is accepted only when it carries the signer's MAC of the very claim it is read as: its
  bytes are the body naming that identifier and that sequence number, followed by the MAC of this body.
\<close>

theorem token_only_signed:
  assumes "verify signer token = Some tok"
  shows "\<exists>ident seq. base64url_decode token = token_body ident seq @ sg_sign signer (latin1 (token_body ident seq))
           \<and> tok = \<lparr>tk_connectionId = utf8_string ident, tk_lastSeq = int (number_of_bigint seq)\<rparr>"
proof -
  define raw where "raw = base64url_decode token"
  define body where "body = take (length raw - sg_macBytes signer) raw"
  define n where "n = unat (body ! 0)"
  define seq where "seq = be_val (slice (1 + n) 8 body)"
  have parts: "sg_sign signer (latin1 body) = drop (length raw - sg_macBytes signer) raw"
    "length body = 1 + n + 8"
    "tok = \<lparr>tk_connectionId = utf8_string (slice 1 n body), tk_lastSeq = int (number_of_bigint seq)\<rparr>"
    using assms unfolding verify_def Let_def raw_def [symmetric] body_def [symmetric] n_def [symmetric]
      seq_def [symmetric] by (auto split: if_splits)
  have ident: "length (slice 1 n body) = n" and tail: "length (slice (1 + n) 8 body) = 8"
    using parts(2) by (simp_all add: slice_def)
  have "body = take 1 body @ slice 1 n body @ slice (1 + n) 8 body"
    using parts(2) unfolding slice_def
    by (metis add.commute append_take_drop_id drop_drop drop_eq_Nil2 le_refl length_drop diff_add_inverse take_all_iff)
  moreover have "take 1 body = be_bytes 1 n"
    using parts(2) by (cases body) (simp_all add: n_def)
  moreover have "slice (1 + n) 8 body = be_bytes 8 seq"
    unfolding seq_def using be_bytes_be_val [of "slice (1 + n) 8 body"] tail by simp
  ultimately have "body = token_body (slice 1 n body) seq"
    using ident by (simp add: token_body_def)
  moreover have "raw = body @ sg_sign signer (latin1 body)"
    unfolding parts(1) by (simp add: body_def)
  ultimately show ?thesis
    using parts(3) raw_def by metis
qed

theorem token_only_signed_witness:
  "\<exists>ident seq. base64url_decode (base64url_encode (token_body [99] 7 @ sg_sign test_signer (latin1 (token_body [99] 7)))) =
     token_body ident seq @ sg_sign test_signer (latin1 (token_body ident seq))"
  using token_only_signed [OF verify_signed_body [of test_signer "[99]" 7]] by (auto simp: test_signer_def)

end
