(* ===== verification/WsSendQueue.thy ===== *)
theory WsSendQueue
  imports Interfaces "HOL-Library.Multiset" "HOL-Library.Sublist"
begin

text \<open>
  The outbound queue of a WebSocket connection (\<open>websocket/server/SendQueue.ts\<close>): its ring buffer, the
  three backpressure policies and the drain into the sink. The sink is a function with a state of its
  own; the calls of \<open>onDrop\<close> and \<open>onPolicyClose\<close> are logs in the record. None of them calls the queue back.
\<close>

section \<open>The ring buffer\<close>

record 'a ring =
  rg_items :: "'a option list"
  rg_head :: nat
  rg_size :: nat

definition new_ring :: "'a ring" where
  "new_ring = \<lparr>rg_items = [], rg_head = 0, rg_size = 0\<rparr>"

definition ring_push :: "'a \<Rightarrow> 'a ring \<Rightarrow> 'a ring" where
  "ring_push x r = r\<lparr>rg_items := rg_items r @ [Some x], rg_size := rg_size r + 1\<rparr>"

definition ring_peek :: "'a ring \<Rightarrow> 'a option" where
  "ring_peek r = (if rg_head r < length (rg_items r) then rg_items r ! rg_head r else None)"

definition ring_shift :: "'a ring \<Rightarrow> 'a ring \<times> 'a option" where
  "ring_shift r =
     (if rg_size r = 0 then (r, None)
      else
        let item = ring_peek r;
            r = r\<lparr>rg_items := (rg_items r)[rg_head r := None]\<rparr>;
            r = r\<lparr>rg_head := rg_head r + 1, rg_size := rg_size r - 1\<rparr>;
            r = (if rg_head r > 64 \<and> rg_head r * 2 > length (rg_items r)
                 then r\<lparr>rg_items := drop (rg_head r) (rg_items r), rg_head := 0\<rparr> else r)
        in (r, item))"

lemma ring_shift_size [simp]: "rg_size (fst (ring_shift r)) = rg_size r - 1"
  by (simp add: ring_shift_def Let_def)

function ring_clear :: "'a ring \<Rightarrow> 'a ring \<times> 'a list" where
  "ring_clear r =
     (if rg_size r > 0 then
        let (r', item) = ring_shift r; (r'', out) = ring_clear r'
        in (r'', case item of Some x \<Rightarrow> x # out | None \<Rightarrow> out)
      else (r, []))"
  by pat_completeness auto
termination
proof (relation "measure rg_size")
  fix r :: "'a ring" and x r' item
  assume "0 < rg_size r" "x = ring_shift r" "(r', item) = x"
  then show "(r', r) \<in> measure rg_size"
    using ring_shift_size [of r] by (metis fst_conv in_measure diff_less less_numeral_extra(1))
qed simp

declare ring_clear.simps [simp del]

text \<open>The live items are those from the head on; before it the slots are dead.\<close>

definition ring_inv :: "'a ring \<Rightarrow> bool" where
  "ring_inv r \<longleftrightarrow> length (rg_items r) = rg_head r + rg_size r \<and> None \<notin> set (drop (rg_head r) (rg_items r))"

definition ring_list :: "'a ring \<Rightarrow> 'a list" where
  "ring_list r = map the (drop (rg_head r) (rg_items r))"

lemma ring_list_length: "ring_inv r \<Longrightarrow> length (ring_list r) = rg_size r"
  by (simp add: ring_inv_def ring_list_def)

lemma ring_live:
  assumes "ring_inv r" and "rg_size r \<noteq> 0"
  obtains x where "rg_head r < length (rg_items r)" and "rg_items r ! rg_head r = Some x"
    and "drop (rg_head r) (rg_items r) = Some x # drop (Suc (rg_head r)) (rg_items r)"
proof -
  have h: "rg_head r < length (rg_items r)"
    using assms by (simp add: ring_inv_def)
  then have d: "drop (rg_head r) (rg_items r) = rg_items r ! rg_head r # drop (Suc (rg_head r)) (rg_items r)"
    by (rule Cons_nth_drop_Suc [symmetric])
  then have "rg_items r ! rg_head r \<noteq> None"
    using assms(1) by (metis list.set_intros(1) ring_inv_def)
  with h d that show ?thesis by auto
qed

lemma ring_shift_live:
  assumes "ring_inv r" and "rg_size r \<noteq> 0"
  shows "ring_inv (fst (ring_shift r)) \<and> ring_list r = the (snd (ring_shift r)) # ring_list (fst (ring_shift r))
     \<and> snd (ring_shift r) \<noteq> None"
proof -
  obtain x where x: "rg_head r < length (rg_items r)" "rg_items r ! rg_head r = Some x"
    "drop (rg_head r) (rg_items r) = Some x # drop (Suc (rg_head r)) (rg_items r)"
    by (rule ring_live [OF assms])
  then show ?thesis
    using assms by (simp add: ring_shift_def ring_peek_def Let_def ring_inv_def ring_list_def)
qed

lemma ring_empty_list: "ring_inv r \<Longrightarrow> rg_size r = 0 \<longleftrightarrow> ring_list r = []"
  using ring_list_length [of r] by auto

interpretation ring_queue: fifo_queue ring_inv ring_list new_ring ring_push ring_peek ring_shift rg_size
proof
  fix r :: "'a ring" and x :: 'a
  show "ring_inv (new_ring :: 'a ring)" "ring_list (new_ring :: 'a ring) = []"
    by (simp_all add: ring_inv_def ring_list_def new_ring_def)
  assume inv: "ring_inv r"
  then show "ring_inv (ring_push x r)" "ring_list (ring_push x r) = ring_list r @ [x]"
    by (auto simp: ring_inv_def ring_list_def ring_push_def)
  show "rg_size r = length (ring_list r)"
    using inv by (simp add: ring_list_length)
  show "ring_peek r = (case ring_list r of [] \<Rightarrow> None | x # _ \<Rightarrow> Some x)"
  proof (cases "rg_size r = 0")
    case True
    with inv show ?thesis
      by (simp add: ring_empty_list) (simp add: ring_inv_def ring_peek_def True)
  next
    case False
    with ring_live [OF inv False] show ?thesis
      by (metis (mono_tags, lifting) list.map(2) list.simps(5) option.sel ring_list_def ring_peek_def)
  qed
  have "ring_inv (fst (ring_shift r)) \<and> ring_list (fst (ring_shift r)) = tl (ring_list r)
      \<and> snd (ring_shift r) = (case ring_list r of [] \<Rightarrow> None | x # _ \<Rightarrow> Some x)"
  proof (cases "rg_size r = 0")
    case True
    then have "ring_shift r = (r, None)"
      by (simp add: ring_shift_def)
    with True inv show ?thesis
      by (simp add: ring_empty_list)
  next
    case False
    obtain y where "snd (ring_shift r) = Some y" "ring_list r = y # ring_list (fst (ring_shift r))"
      using ring_shift_live [OF inv False] by auto
    moreover from this have "tl (ring_list r) = ring_list (fst (ring_shift r))"
      by (metis list.sel(3))
    ultimately show ?thesis
      using ring_shift_live [OF inv False] by (metis list.simps(5))
  qed
  then show "ring_inv (fst (ring_shift r))" "ring_list (fst (ring_shift r)) = tl (ring_list r)"
    "snd (ring_shift r) = (case ring_list r of [] \<Rightarrow> None | x # _ \<Rightarrow> Some x)"
    by blast+
qed

lemma ring_clear_list: "ring_inv r \<Longrightarrow> ring_inv (fst (ring_clear r)) \<and> snd (ring_clear r) = ring_list r
    \<and> ring_list (fst (ring_clear r)) = []"
proof (induction r rule: ring_clear.induct)
  case (1 r)
  show ?case
  proof (cases "rg_size r = 0")
    case True
    then have "ring_clear r = (r, [])"
      by (simp add: ring_clear.simps)
    with "1.prems" True show ?thesis
      by (simp add: ring_empty_list)
  next
    case False
    obtain r' item where shift: "ring_shift r = (r', item)"
      by fastforce
    with ring_shift_live [OF "1.prems" False] obtain x where
      r': "ring_inv r'" "ring_list r = x # ring_list r'" "item = Some x"
      by auto
    have "ring_clear r = (fst (ring_clear r'), x # snd (ring_clear r'))"
      using False shift r'(3) by (subst ring_clear.simps) (simp add: case_prod_beta)
    with "1.IH" [OF _ shift [symmetric]] False r' show ?thesis
      by simp
  qed
qed

section \<open>The send queue\<close>

datatype backpressure_policy = DROP_NEWEST | DROP_OLDEST | CLOSE_POLICY

datatype drop_reason = CAPACITY | EVICTED | POLICY_CLOSE | CLEARED

record queued_send =
  qs_payload :: "byte list"
  qs_binary :: bool
  qs_bytes :: int
  qs_enqueuedAt :: int

type_synonym 'w send_sink = "'w \<Rightarrow> queued_send \<Rightarrow> 'w \<times> bool"

record send_queue_options =
  qo_highWaterMarkBytes :: int
  qo_maxBytes :: int
  qo_maxMessages :: "int option"
  qo_policy :: backpressure_policy
  qo_perMessageOverhead :: "int option"

text \<open>\<open>sq_maxMessages\<close> is \<open>None\<close> for \<open>Number.POSITIVE_INFINITY\<close>.\<close>

record 'w send_queue =
  sq_hwm :: int
  sq_maxBytes :: int
  sq_maxMessages :: "int option"
  sq_policy :: backpressure_policy
  sq_overhead :: int
  sq_sink :: "'w send_sink"
  sq_world :: 'w
  sq_queue :: "queued_send ring"
  sq_bufferedBytes :: int
  sq_totalEnqueued :: nat
  sq_totalSent :: nat
  sq_totalDropped :: nat
  sq_bytesSent :: int
  sq_bytesDropped :: int
  sq_closedByPolicy :: bool
  sq_drops :: "(queued_send \<times> drop_reason) list"
  sq_policyCloses :: nat

datatype send_queue_error = InvalidWaterMarks | MaxBytesBelowHighWaterMark

definition new_send_queue :: "'w send_sink \<Rightarrow> 'w \<Rightarrow> send_queue_options \<Rightarrow> send_queue_error + 'w send_queue" where
  "new_send_queue sink world options =
     (if qo_highWaterMarkBytes options < 0 \<or> qo_maxBytes options \<le> 0 then Inl InvalidWaterMarks
      else if qo_maxBytes options < qo_highWaterMarkBytes options then Inl MaxBytesBelowHighWaterMark
      else Inr \<lparr>sq_hwm = qo_highWaterMarkBytes options, sq_maxBytes = qo_maxBytes options,
                sq_maxMessages = qo_maxMessages options, sq_policy = qo_policy options,
                sq_overhead = (case qo_perMessageOverhead options of Some n \<Rightarrow> n | None \<Rightarrow> 14),
                sq_sink = sink, sq_world = world, sq_queue = new_ring, sq_bufferedBytes = 0, sq_totalEnqueued = 0,
                sq_totalSent = 0, sq_totalDropped = 0, sq_bytesSent = 0, sq_bytesDropped = 0,
                sq_closedByPolicy = False, sq_drops = [], sq_policyCloses = 0\<rparr>)"

definition overHighWaterMark :: "'w send_queue \<Rightarrow> bool" where
  "overHighWaterMark q \<longleftrightarrow> sq_bufferedBytes q \<ge> sq_hwm q"

record send_queue_stats =
  qt_bufferedBytes :: int
  qt_queuedMessages :: nat
  qt_overHighWaterMark :: bool
  qt_totalEnqueued :: nat
  qt_totalSent :: nat
  qt_totalDropped :: nat
  qt_bytesSent :: int
  qt_bytesDropped :: int
  qt_closedByPolicy :: bool

definition queue_stats :: "'w send_queue \<Rightarrow> send_queue_stats" where
  "queue_stats q =
     \<lparr>qt_bufferedBytes = sq_bufferedBytes q, qt_queuedMessages = rg_size (sq_queue q),
      qt_overHighWaterMark = overHighWaterMark q, qt_totalEnqueued = sq_totalEnqueued q,
      qt_totalSent = sq_totalSent q, qt_totalDropped = sq_totalDropped q, qt_bytesSent = sq_bytesSent q,
      qt_bytesDropped = sq_bytesDropped q, qt_closedByPolicy = sq_closedByPolicy q\<rparr>"

definition accountDrop :: "queued_send \<Rightarrow> drop_reason \<Rightarrow> 'w send_queue \<Rightarrow> 'w send_queue" where
  "accountDrop e reason q =
     q\<lparr>sq_totalDropped := sq_totalDropped q + 1, sq_bytesDropped := sq_bytesDropped q + qs_bytes e,
       sq_drops := sq_drops q @ [(e, reason)]\<rparr>"

lemma accountDrop_queue [simp]: "sq_queue (accountDrop e reason q) = sq_queue q"
  by (simp add: accountDrop_def)

definition account_drops :: "queued_send list \<Rightarrow> drop_reason \<Rightarrow> 'w send_queue \<Rightarrow> 'w send_queue" where
  "account_drops es reason q = foldl (\<lambda>q e. accountDrop e reason q) q es"

function drain :: "'w send_queue \<Rightarrow> 'w send_queue" where
  "drain q =
     (if rg_size (sq_queue q) > 0 then
        (case ring_peek (sq_queue q) of
           None \<Rightarrow> q
         | Some head \<Rightarrow>
             let (world, ok) = sq_sink q (sq_world q) head; q = q\<lparr>sq_world := world\<rparr> in
             if \<not> ok then q
             else drain (q\<lparr>sq_queue := fst (ring_shift (sq_queue q)), sq_bufferedBytes := sq_bufferedBytes q - qs_bytes head,
                           sq_totalSent := sq_totalSent q + 1, sq_bytesSent := sq_bytesSent q + qs_bytes head\<rparr>))
      else q)"
  by pat_completeness auto
termination
  by (relation "measure (\<lambda>q. rg_size (sq_queue q))") auto

declare drain.simps [simp del]

definition over_count :: "'w send_queue \<Rightarrow> bool" where
  "over_count q = (case sq_maxMessages q of None \<Rightarrow> False | Some k \<Rightarrow> int (rg_size (sq_queue q)) \<ge> k)"

definition over_bytes :: "queued_send \<Rightarrow> 'w send_queue \<Rightarrow> bool" where
  "over_bytes e q \<longleftrightarrow> sq_bufferedBytes q + qs_bytes e > sq_maxBytes q"

function evictUntilFits :: "queued_send \<Rightarrow> 'w send_queue \<Rightarrow> 'w send_queue" where
  "evictUntilFits incoming q =
     (if rg_size (sq_queue q) > 0 \<and> (over_bytes incoming q \<or> over_count q) then
        (case ring_shift (sq_queue q) of
           (r, None) \<Rightarrow> q\<lparr>sq_queue := r\<rparr>
         | (r, Some victim) \<Rightarrow>
             evictUntilFits incoming
               (accountDrop victim EVICTED (q\<lparr>sq_queue := r, sq_bufferedBytes := sq_bufferedBytes q - qs_bytes victim\<rparr>)))
      else q)"
  by pat_completeness auto
termination
proof (relation "measure (\<lambda>(incoming, q). rg_size (sq_queue q))", goal_cases)
  case 2
  then show ?case
    by (auto dest!: arg_cong [where f = "\<lambda>p. rg_size (fst p)"])
qed simp

declare evictUntilFits.simps [simp del]

definition tripClosePolicy :: "queued_send \<Rightarrow> 'w send_queue \<Rightarrow> 'w send_queue" where
  "tripClosePolicy incoming q =
     (let q = accountDrop incoming POLICY_CLOSE (q\<lparr>sq_closedByPolicy := True\<rparr>);
          (r, es) = ring_clear (sq_queue q);
          q = account_drops es POLICY_CLOSE (q\<lparr>sq_queue := r\<rparr>)
      in q\<lparr>sq_bufferedBytes := 0, sq_policyCloses := sq_policyCloses q + 1\<rparr>)"

definition makeRoomByPolicy :: "queued_send \<Rightarrow> 'w send_queue \<Rightarrow> 'w send_queue \<times> bool" where
  "makeRoomByPolicy incoming q =
     (case sq_policy q of
        DROP_NEWEST \<Rightarrow> (accountDrop incoming CAPACITY q, False)
      | DROP_OLDEST \<Rightarrow>
          let q = evictUntilFits incoming q in
          if over_bytes incoming q then (accountDrop incoming CAPACITY q, False) else (q, True)
      | CLOSE_POLICY \<Rightarrow> (tripClosePolicy incoming q, False))"

definition make_entry :: "int \<Rightarrow> byte list \<Rightarrow> bool \<Rightarrow> 'w send_queue \<Rightarrow> queued_send" where
  "make_entry now payload binary q =
     \<lparr>qs_payload = payload, qs_binary = binary, qs_bytes = int (length payload) + sq_overhead q, qs_enqueuedAt = now\<rparr>"

definition enqueue :: "int \<Rightarrow> byte list \<Rightarrow> bool \<Rightarrow> 'w send_queue \<Rightarrow> 'w send_queue \<times> bool" where
  "enqueue now payload binary q =
     (if sq_closedByPolicy q then (q, False)
      else
        let entry = make_entry now payload binary q;
            (q, ok) = (if over_count q then makeRoomByPolicy entry q else (q, True))
        in
        if \<not> ok then (q, False)
        else
          let (q, ok) = (if over_bytes entry q then makeRoomByPolicy entry q else (q, True)) in
          if \<not> ok then (q, False)
          else
            let q = q\<lparr>sq_queue := ring_push entry (sq_queue q), sq_bufferedBytes := sq_bufferedBytes q + qs_bytes entry,
                      sq_totalEnqueued := sq_totalEnqueued q + 1\<rparr>
            in (drain q, True))"

definition notifyWritable :: "'w send_queue \<Rightarrow> 'w send_queue" where
  "notifyWritable q = drain q"

definition clear_queue :: "'w send_queue \<Rightarrow> 'w send_queue" where
  "clear_queue q =
     (let (r, es) = ring_clear (sq_queue q); q = account_drops es CLEARED (q\<lparr>sq_queue := r\<rparr>)
      in q\<lparr>sq_bufferedBytes := 0\<rparr>)"

section \<open>What the loops do\<close>

definition bytes_of :: "queued_send list \<Rightarrow> int" where
  "bytes_of es = sum_list (map qs_bytes es)"

lemma bytes_of_simps [simp]:
  "bytes_of [] = 0" "bytes_of (e # es) = qs_bytes e + bytes_of es" "bytes_of (es @ fs) = bytes_of es + bytes_of fs"
  by (simp_all add: bytes_of_def)

definition pending :: "'w send_queue \<Rightarrow> queued_send list" where
  "pending q = ring_list (sq_queue q)"

text \<open>A sink that keeps a list of what it accepted, whatever it decides by.\<close>

definition logging :: "('v \<Rightarrow> queued_send \<Rightarrow> 'v \<times> bool) \<Rightarrow> (queued_send list \<times> 'v) send_sink" where
  "logging f w e = (let (v, ok) = f (snd w) e in ((if ok then fst w @ [e] else fst w, v), ok))"

lemma account_drops_spec:
  "account_drops es reason q =
     q\<lparr>sq_totalDropped := sq_totalDropped q + length es, sq_bytesDropped := sq_bytesDropped q + bytes_of es,
       sq_drops := sq_drops q @ map (\<lambda>e. (e, reason)) es\<rparr>"
  by (induction es arbitrary: q) (simp_all add: account_drops_def accountDrop_def)

lemma drain_spec:
  assumes "ring_inv (sq_queue q)" and "sq_sink q = logging f"
  shows "\<exists>moved r v. drain q =
       q\<lparr>sq_world := (fst (sq_world q) @ moved, v), sq_queue := r, sq_bufferedBytes := sq_bufferedBytes q - bytes_of moved,
         sq_totalSent := sq_totalSent q + length moved, sq_bytesSent := sq_bytesSent q + bytes_of moved\<rparr>
     \<and> ring_inv r \<and> pending q = moved @ ring_list r"
  using assms
proof (induction q rule: drain.induct)
  case (1 q)
  show ?case
  proof (cases "rg_size (sq_queue q) = 0")
    case True
    then have "drain q = q"
      by (simp add: drain.simps)
    then show ?thesis
      using "1.prems" by (intro exI [of _ "[]"] exI [of _ "sq_queue q"] exI [of _ "snd (sq_world q)"]) (simp add: pending_def)
  next
    case False
    obtain x where x: "ring_shift (sq_queue q) = (fst (ring_shift (sq_queue q)), Some x)"
      "ring_inv (fst (ring_shift (sq_queue q)))" "ring_list (sq_queue q) = x # ring_list (fst (ring_shift (sq_queue q)))"
      using ring_shift_live [OF "1.prems"(1) False] by (metis option.collapse prod.collapse)
    then have peek: "ring_peek (sq_queue q) = Some x"
      using ring_queue.peek_items [OF "1.prems"(1)] by simp
    obtain v ok where f: "f (snd (sq_world q)) x = (v, ok)"
      by fastforce
    show ?thesis
    proof (cases ok)
      case declined: False
      then have "drain q = q\<lparr>sq_world := (fst (sq_world q), v)\<rparr>"
        using False peek f "1.prems"(2) by (subst drain.simps) (simp add: logging_def)
      then show ?thesis
        using "1.prems" by (intro exI [of _ "[]"] exI [of _ "sq_queue q"] exI [of _ v]) (simp add: pending_def)
    next
      case True
      define q1 where "q1 = q\<lparr>sq_world := (fst (sq_world q) @ [x], v)\<rparr>"
      define q2 where "q2 = q1\<lparr>sq_queue := fst (ring_shift (sq_queue q1)), sq_bufferedBytes := sq_bufferedBytes q1 - qs_bytes x,
                           sq_totalSent := sq_totalSent q1 + 1, sq_bytesSent := sq_bytesSent q1 + qs_bytes x\<rparr>"
      have sink: "sq_sink q (sq_world q) x = ((fst (sq_world q) @ [x], v), True)"
        using f True "1.prems"(2) by (simp add: logging_def)
      then have step: "drain q = drain q2"
        using False peek by (subst drain.simps) (simp add: q1_def q2_def)
      have "\<exists>moved r w. drain q2 =
           q2\<lparr>sq_world := (fst (sq_world q2) @ moved, w), sq_queue := r, sq_bufferedBytes := sq_bufferedBytes q2 - bytes_of moved,
             sq_totalSent := sq_totalSent q2 + length moved, sq_bytesSent := sq_bytesSent q2 + bytes_of moved\<rparr>
         \<and> ring_inv r \<and> pending q2 = moved @ ring_list r"
        unfolding q2_def using False peek sink x "1.prems"(2)
        by (intro "1.IH" [OF _ peek sink [symmetric] refl q1_def]) (simp_all add: q1_def)
      then obtain moved r w where "drain q2 =
           q2\<lparr>sq_world := (fst (sq_world q2) @ moved, w), sq_queue := r, sq_bufferedBytes := sq_bufferedBytes q2 - bytes_of moved,
             sq_totalSent := sq_totalSent q2 + length moved, sq_bytesSent := sq_bytesSent q2 + bytes_of moved\<rparr>"
        "ring_inv r" "pending q2 = moved @ ring_list r"
        by blast
      then show ?thesis
        unfolding step using x(3)
        by (intro exI [of _ "x # moved"] exI [of _ r] exI [of _ w]) (simp add: q1_def q2_def pending_def)
    qed
  qed
qed

lemma evict_spec:
  assumes "ring_inv (sq_queue q)"
  shows "\<exists>gone r. evictUntilFits e q =
       q\<lparr>sq_queue := r, sq_bufferedBytes := sq_bufferedBytes q - bytes_of gone,
         sq_totalDropped := sq_totalDropped q + length gone, sq_bytesDropped := sq_bytesDropped q + bytes_of gone,
         sq_drops := sq_drops q @ map (\<lambda>e. (e, EVICTED)) gone\<rparr>
     \<and> ring_inv r \<and> pending q = gone @ ring_list r
     \<and> (ring_list r = [] \<or> \<not> over_bytes e (evictUntilFits e q) \<and> \<not> over_count (evictUntilFits e q))"
  using assms
proof (induction e q rule: evictUntilFits.induct)
  case (1 e q)
  show ?case
  proof (cases "rg_size (sq_queue q) > 0 \<and> (over_bytes e q \<or> over_count q)")
    case False
    then have "evictUntilFits e q = q"
      by (subst evictUntilFits.simps) auto
    then show ?thesis
      using "1.prems" False by (intro exI [of _ "[]"] exI [of _ "sq_queue q"]) (auto simp: pending_def ring_empty_list)
  next
    case True
    then obtain r x where x: "ring_shift (sq_queue q) = (r, Some x)" "ring_inv r" "ring_list (sq_queue q) = x # ring_list r"
      using ring_shift_live [OF "1.prems"] by (metis fst_conv less_numeral_extra(3) option.collapse prod.collapse snd_conv)
    define q1 where "q1 = accountDrop x EVICTED (q\<lparr>sq_queue := r, sq_bufferedBytes := sq_bufferedBytes q - qs_bytes x\<rparr>)"
    have step: "evictUntilFits e q = evictUntilFits e q1"
      using True x(1) by (subst evictUntilFits.simps) (simp add: q1_def)
    have "ring_inv (sq_queue q1)"
      using x by (simp add: q1_def)
    from "1.IH" [OF True x(1) [symmetric] refl, folded q1_def, OF this]
    obtain gone r' where "evictUntilFits e q1 =
       q1\<lparr>sq_queue := r', sq_bufferedBytes := sq_bufferedBytes q1 - bytes_of gone,
         sq_totalDropped := sq_totalDropped q1 + length gone, sq_bytesDropped := sq_bytesDropped q1 + bytes_of gone,
         sq_drops := sq_drops q1 @ map (\<lambda>e. (e, EVICTED)) gone\<rparr>" "ring_inv r'" "pending q1 = gone @ ring_list r'"
      "ring_list r' = [] \<or> \<not> over_bytes e (evictUntilFits e q1) \<and> \<not> over_count (evictUntilFits e q1)"
      by blast
    then show ?thesis
      unfolding step using x(3)
      by (intro exI [of _ "x # gone"] exI [of _ r']) (simp add: q1_def accountDrop_def pending_def)
  qed
qed

section \<open>The ledger\<close>

text \<open>
  \<open>offered\<close> is every message given to the open queue, in order. Each is sent, dropped or still queued,
  once; what was sent and what is queued keep the order; and the queue stays within its caps.
\<close>

abbreviation sent :: "(queued_send list \<times> 'v) send_queue \<Rightarrow> queued_send list" where
  "sent q \<equiv> fst (sq_world q)"

definition accounted :: "queued_send list \<Rightarrow> (queued_send list \<times> 'v) send_queue \<Rightarrow> bool" where
  "accounted offered q \<longleftrightarrow> ring_inv (sq_queue q)
     \<and> mset offered = mset (sent q) + mset (map fst (sq_drops q)) + mset (pending q)
     \<and> subseq (sent q @ pending q) offered
     \<and> sq_bufferedBytes q = bytes_of (pending q)
     \<and> sq_totalSent q = length (sent q) \<and> sq_bytesSent q = bytes_of (sent q)
     \<and> sq_totalDropped q = length (sq_drops q) \<and> sq_bytesDropped q = bytes_of (map fst (sq_drops q))"

definition within_caps :: "'w send_queue \<Rightarrow> bool" where
  "within_caps q \<longleftrightarrow> 0 \<le> sq_overhead q \<and> 0 \<le> sq_maxBytes q \<and> sq_bufferedBytes q \<le> sq_maxBytes q
     \<and> (\<forall>e \<in> set (pending q). 0 \<le> qs_bytes e)
     \<and> (case sq_maxMessages q of None \<Rightarrow> True | Some k \<Rightarrow> int (length (pending q)) \<le> max 1 k)"

definition closed_once :: "'w send_queue \<Rightarrow> bool" where
  "closed_once q \<longleftrightarrow> sq_policyCloses q = (if sq_closedByPolicy q then 1 else 0)
     \<and> (sq_closedByPolicy q \<longrightarrow> pending q = [])"

lemma within_caps_shorter:
  assumes "within_caps q" and "pending q = gone @ pending q'" and "sq_bufferedBytes q' = sq_bufferedBytes q - bytes_of gone"
    and "sq_overhead q' = sq_overhead q" "sq_maxBytes q' = sq_maxBytes q" "sq_maxMessages q' = sq_maxMessages q"
  shows "within_caps q'"
proof -
  have "0 \<le> bytes_of gone"
    unfolding bytes_of_def using assms(1,2) by (intro sum_list_nonneg) (auto simp: within_caps_def)
  with assms show ?thesis
    by (auto simp: within_caps_def split: option.splits)
qed

lemma drain_ledger:
  assumes "accounted offered q" and "sq_sink q = logging f"
  shows "accounted offered (drain q)" and "within_caps q \<Longrightarrow> within_caps (drain q)"
    and "closed_once q \<Longrightarrow> closed_once (drain q)" and "sq_sink (drain q) = logging f"
proof -
  obtain moved r v where d: "drain q =
       q\<lparr>sq_world := (sent q @ moved, v), sq_queue := r, sq_bufferedBytes := sq_bufferedBytes q - bytes_of moved,
         sq_totalSent := sq_totalSent q + length moved, sq_bytesSent := sq_bytesSent q + bytes_of moved\<rparr>"
    "ring_inv r" "pending q = moved @ ring_list r"
    using drain_spec [OF _ assms(2)] assms(1) unfolding accounted_def by blast
  then have p: "pending q = moved @ pending (drain q)"
    by (simp add: pending_def)
  then show "accounted offered (drain q)"
    using assms(1) d by (simp add: accounted_def pending_def)
  show "within_caps q \<Longrightarrow> within_caps (drain q)"
    by (rule within_caps_shorter [OF _ p]) (simp_all add: d)
  show "closed_once q \<Longrightarrow> closed_once (drain q)"
    using p by (auto simp: closed_once_def d)
  show "sq_sink (drain q) = logging f"
    by (simp add: d assms(2))
qed

lemma accountDrop_ledger:
  assumes "accounted offered q"
  shows "accounted (offered @ [e]) (accountDrop e reason q)"
  using assms by (auto simp: accounted_def accountDrop_def pending_def intro: list_emb_append2 subseq_order.trans)

lemma evict_ledger:
  assumes "accounted offered q" and "sq_sink q = logging f"
  shows "accounted offered (evictUntilFits e q)" and "within_caps q \<Longrightarrow> within_caps (evictUntilFits e q)"
    and "closed_once q \<Longrightarrow> closed_once (evictUntilFits e q)"
    and "sq_closedByPolicy (evictUntilFits e q) = sq_closedByPolicy q"
    and "sq_sink (evictUntilFits e q) = logging f" and "sq_maxMessages (evictUntilFits e q) = sq_maxMessages q"
    and "sq_maxBytes (evictUntilFits e q) = sq_maxBytes q" and "sq_overhead (evictUntilFits e q) = sq_overhead q"
    and "pending (evictUntilFits e q) = [] \<or> \<not> over_count (evictUntilFits e q)"
proof -
  obtain gone r where d: "evictUntilFits e q =
       q\<lparr>sq_queue := r, sq_bufferedBytes := sq_bufferedBytes q - bytes_of gone,
         sq_totalDropped := sq_totalDropped q + length gone, sq_bytesDropped := sq_bytesDropped q + bytes_of gone,
         sq_drops := sq_drops q @ map (\<lambda>e. (e, EVICTED)) gone\<rparr>"
    "ring_inv r" "pending q = gone @ ring_list r" "ring_list r = [] \<or> \<not> over_count (evictUntilFits e q)"
    using evict_spec [of q e] assms(1) unfolding accounted_def by blast
  then have p: "pending q = gone @ pending (evictUntilFits e q)"
    by (simp add: pending_def)
  have "subseq (sent q @ ring_list r) (sent q @ pending q)"
    by (auto simp: d(3) intro: list_emb_append_mono list_emb_append2)
  then show "accounted offered (evictUntilFits e q)"
    using assms(1) d by (auto simp: accounted_def pending_def comp_def intro: subseq_order.trans)
  show "within_caps q \<Longrightarrow> within_caps (evictUntilFits e q)"
    by (rule within_caps_shorter [OF _ p]) (simp_all add: d)
  show "closed_once q \<Longrightarrow> closed_once (evictUntilFits e q)"
    using p by (auto simp: closed_once_def d)
  show "pending (evictUntilFits e q) = [] \<or> \<not> over_count (evictUntilFits e q)"
    using d(4) by (simp add: d(1) pending_def)
  show "sq_closedByPolicy (evictUntilFits e q) = sq_closedByPolicy q" "sq_sink (evictUntilFits e q) = logging f"
    "sq_maxMessages (evictUntilFits e q) = sq_maxMessages q" "sq_maxBytes (evictUntilFits e q) = sq_maxBytes q"
    "sq_overhead (evictUntilFits e q) = sq_overhead q"
    by (simp_all add: d assms(2))
qed

lemma ring_clear_pending:
  assumes "ring_inv r"
  obtains r' where "ring_clear r = (r', ring_list r)" and "ring_inv r'" and "ring_list r' = []"
  using ring_clear_list [OF assms] by (metis prod.collapse)

lemma accountDrop_fields [simp]:
  "pending (accountDrop e reason q) = pending q" "sq_overhead (accountDrop e reason q) = sq_overhead q"
  "sq_maxBytes (accountDrop e reason q) = sq_maxBytes q" "sq_maxMessages (accountDrop e reason q) = sq_maxMessages q"
  "sq_bufferedBytes (accountDrop e reason q) = sq_bufferedBytes q" "sq_sink (accountDrop e reason q) = sq_sink q"
  "sq_closedByPolicy (accountDrop e reason q) = sq_closedByPolicy q"
  "sq_policyCloses (accountDrop e reason q) = sq_policyCloses q"
  by (simp_all add: accountDrop_def pending_def)

lemma accountDrop_caps [simp]:
  "within_caps (accountDrop e reason q) \<longleftrightarrow> within_caps q" "closed_once (accountDrop e reason q) \<longleftrightarrow> closed_once q"
  by (simp_all only: within_caps_def closed_once_def accountDrop_fields)

lemma trip_ledger:
  assumes acc: "accounted offered q" and caps: "within_caps q" and once: "closed_once q" "\<not> sq_closedByPolicy q"
  shows "accounted (offered @ [e]) (tripClosePolicy e q)" and "within_caps (tripClosePolicy e q)"
    and "closed_once (tripClosePolicy e q)" and "sq_sink (tripClosePolicy e q) = sq_sink q"
proof -
  obtain r where r: "ring_clear (sq_queue q) = (r, pending q)" "ring_inv r" "ring_list r = []"
    using acc ring_clear_pending unfolding accounted_def pending_def by metis
  have trip: "tripClosePolicy e q =
      q\<lparr>sq_queue := r, sq_bufferedBytes := 0, sq_closedByPolicy := True, sq_policyCloses := sq_policyCloses q + 1,
        sq_totalDropped := sq_totalDropped q + 1 + length (pending q),
        sq_bytesDropped := sq_bytesDropped q + qs_bytes e + bytes_of (pending q),
        sq_drops := sq_drops q @ (e, POLICY_CLOSE) # map (\<lambda>e. (e, POLICY_CLOSE)) (pending q)\<rparr>"
    by (simp add: tripClosePolicy_def Let_def account_drops_spec r(1)) (simp add: accountDrop_def)
  have "subseq (sent q) (sent q @ pending q)" "subseq offered (offered @ [e])"
    by (rule prefix_imp_subseq, simp)+
  then have "subseq (sent q) (offered @ [e])"
    using acc unfolding accounted_def by (blast intro: subseq_order.trans)
  then show "accounted (offered @ [e]) (tripClosePolicy e q)"
    using acc r by (simp add: accounted_def trip pending_def comp_def)
  show "within_caps (tripClosePolicy e q)"
    using caps r by (auto simp: within_caps_def trip pending_def split: option.splits)
  show "closed_once (tripClosePolicy e q)"
    using once r by (simp add: closed_once_def trip pending_def)
  show "sq_sink (tripClosePolicy e q) = sq_sink q"
    by (simp add: trip)
qed

definition ledger_ok :: "('v \<Rightarrow> queued_send \<Rightarrow> 'v \<times> bool) \<Rightarrow> queued_send list \<Rightarrow> (queued_send list \<times> 'v) send_queue \<Rightarrow> bool" where
  "ledger_ok f offered q \<longleftrightarrow> accounted offered q \<and> within_caps q \<and> closed_once q \<and> sq_sink q = logging f"

lemma makeRoom_refused:
  assumes "ledger_ok f offered q" and "\<not> sq_closedByPolicy q" and "makeRoomByPolicy e q = (q', False)"
  shows "ledger_ok f (offered @ [e]) q'"
proof (cases "sq_policy q")
  case DROP_NEWEST
  with assms show ?thesis
    by (auto simp: makeRoomByPolicy_def ledger_ok_def accountDrop_ledger)
next
  case DROP_OLDEST
  with assms have "q' = accountDrop e CAPACITY (evictUntilFits e q)"
    by (auto simp: makeRoomByPolicy_def Let_def split: if_splits)
  moreover have "ledger_ok f offered (evictUntilFits e q)"
    using assms(1) evict_ledger [of offered q f e] by (simp add: ledger_ok_def)
  ultimately show ?thesis
    by (simp add: ledger_ok_def accountDrop_ledger)
next
  case CLOSE_POLICY
  with assms show ?thesis
    using trip_ledger [of offered q e] by (auto simp: makeRoomByPolicy_def ledger_ok_def)
qed

lemma makeRoom_fits:
  assumes "ledger_ok f offered q" and "\<not> sq_closedByPolicy q" and "makeRoomByPolicy e q = (q', True)"
  shows "ledger_ok f offered q' \<and> \<not> sq_closedByPolicy q' \<and> \<not> over_bytes e q' \<and> (pending q' = [] \<or> \<not> over_count q')
     \<and> sq_overhead q' = sq_overhead q"
proof -
  have "q' = evictUntilFits e q" "\<not> over_bytes e q'"
    using assms(3) by (auto simp: makeRoomByPolicy_def Let_def split: backpressure_policy.splits if_splits)
  then show ?thesis
    using assms(1,2) evict_ledger [of offered q f e] by (simp add: ledger_ok_def)
qed

lemma push_ledger:
  assumes ok: "ledger_ok f offered q" and fits: "\<not> over_bytes e q" "pending q = [] \<or> \<not> over_count q"
    and e: "0 \<le> qs_bytes e" and opn: "\<not> sq_closedByPolicy q"
  shows "ledger_ok f (offered @ [e])
     (q\<lparr>sq_queue := ring_push e (sq_queue q), sq_bufferedBytes := sq_bufferedBytes q + qs_bytes e, sq_totalEnqueued := n\<rparr>)"
proof -
  have inv: "ring_inv (sq_queue q)"
    using ok by (simp add: ledger_ok_def accounted_def)
  note push = ring_queue.inv_push [OF inv, of e] ring_queue.items_push [OF inv, of e]
  have "subseq ((sent q @ pending q) @ [e]) (offered @ [e])"
    using ok by (intro list_emb_append_mono) (simp_all add: ledger_ok_def accounted_def)
  moreover have "case sq_maxMessages q of None \<Rightarrow> True | Some k \<Rightarrow> int (length (pending q)) + 1 \<le> max 1 k"
    using fits(2) ring_list_length [OF inv] by (auto simp: over_count_def pending_def split: option.splits)
  ultimately show ?thesis
    using ok push fits e opn
    by (auto simp: ledger_ok_def accounted_def within_caps_def closed_once_def pending_def over_bytes_def split: option.splits)
qed

lemma enqueue_ledger:
  assumes ok: "ledger_ok f offered q"
  shows "ledger_ok f (if sq_closedByPolicy q then offered else offered @ [make_entry now payload binary q])
           (fst (enqueue now payload binary q))"
proof (cases "sq_closedByPolicy q")
  case True
  with ok show ?thesis by (simp add: enqueue_def)
next
  case opn: False
  define e where "e = make_entry now payload binary q"
  have e: "0 \<le> qs_bytes e"
    using ok by (simp add: e_def make_entry_def ledger_ok_def within_caps_def)
  obtain q1 ok1 where one: "(if over_count q then makeRoomByPolicy e q else (q, True)) = (q1, ok1)"
    by fastforce
  obtain q2 ok2 where two: "(if over_bytes e q1 then makeRoomByPolicy e q1 else (q1, True)) = (q2, ok2)"
    by fastforce
  have enq: "fst (enqueue now payload binary q) = (if \<not> ok1 then q1 else if \<not> ok2 then q2 else
      drain (q2\<lparr>sq_queue := ring_push e (sq_queue q2), sq_bufferedBytes := sq_bufferedBytes q2 + qs_bytes e,
                sq_totalEnqueued := sq_totalEnqueued q2 + 1\<rparr>))"
    unfolding enqueue_def Let_def e_def [symmetric] one two prod.case using opn by (simp add: two split: prod.split)
  have "ledger_ok f (offered @ [e]) (fst (enqueue now payload binary q))"
  proof (cases ok1)
    case False
    then have "makeRoomByPolicy e q = (q1, False)"
      using one by (auto split: if_splits)
    from makeRoom_refused [OF ok opn this] False show ?thesis by (simp add: enq)
  next
    case True
    have q1: "ledger_ok f offered q1" "\<not> sq_closedByPolicy q1" "pending q1 = [] \<or> \<not> over_count q1"
      using makeRoom_fits [OF ok opn, of e q1] one True ok opn by (auto split: if_splits)
    show ?thesis
    proof (cases ok2)
      case False
      then have "makeRoomByPolicy e q1 = (q2, False)"
        using two by (auto split: if_splits)
      from makeRoom_refused [OF q1(1,2) this] True False show ?thesis by (simp add: enq)
    next
      case ok2: True
      have q2: "ledger_ok f offered q2" "\<not> sq_closedByPolicy q2" "pending q2 = [] \<or> \<not> over_count q2" "\<not> over_bytes e q2"
        using makeRoom_fits [OF q1(1,2), of e q2] two ok2 q1 by (auto split: if_splits)
      let ?pushed = "q2\<lparr>sq_queue := ring_push e (sq_queue q2), sq_bufferedBytes := sq_bufferedBytes q2 + qs_bytes e,
                sq_totalEnqueued := sq_totalEnqueued q2 + 1\<rparr>"
      have "ledger_ok f (offered @ [e]) ?pushed"
        by (rule push_ledger [OF q2(1,4,3) e q2(2)])
      then have "ledger_ok f (offered @ [e]) (drain ?pushed)"
        unfolding ledger_ok_def using drain_ledger [of "offered @ [e]" ?pushed f] by blast
      with True ok2 show ?thesis by (simp add: enq)
    qed
  qed
  with opn show ?thesis by (simp add: e_def)
qed

lemma drain_ledger_ok: "ledger_ok f offered q \<Longrightarrow> ledger_ok f offered (drain q)"
  unfolding ledger_ok_def using drain_ledger by blast

lemma clear_ledger_ok:
  assumes "ledger_ok f offered q"
  shows "ledger_ok f offered (clear_queue q)"
proof -
  have acc: "accounted offered q"
    using assms by (simp add: ledger_ok_def)
  then obtain r where r: "ring_clear (sq_queue q) = (r, pending q)" "ring_inv r" "ring_list r = []"
    using ring_clear_pending unfolding accounted_def pending_def by metis
  have clr: "clear_queue q =
      q\<lparr>sq_queue := r, sq_bufferedBytes := 0, sq_totalDropped := sq_totalDropped q + length (pending q),
        sq_bytesDropped := sq_bytesDropped q + bytes_of (pending q),
        sq_drops := sq_drops q @ map (\<lambda>e. (e, CLEARED)) (pending q)\<rparr>"
    by (simp add: clear_queue_def account_drops_spec r(1))
  have "subseq (sent q) (sent q @ pending q)"
    by (rule prefix_imp_subseq) simp
  then have "subseq (sent q) offered"
    using acc unfolding accounted_def by (blast intro: subseq_order.trans)
  then have "accounted offered (clear_queue q)"
    using acc r by (simp add: accounted_def clr pending_def comp_def)
  moreover have "within_caps (clear_queue q)"
    using assms r by (auto simp: ledger_ok_def within_caps_def clr pending_def split: option.splits)
  moreover have "closed_once (clear_queue q)" "sq_sink (clear_queue q) = logging f"
    using assms r by (auto simp: ledger_ok_def closed_once_def clr pending_def)
  ultimately show ?thesis
    by (simp add: ledger_ok_def)
qed

section \<open>Runs of the queue\<close>

datatype send_op = EnqueueOp int "byte list" bool | WritableOp | ClearOp

fun send_step :: "'w send_queue \<times> queued_send list \<Rightarrow> send_op \<Rightarrow> 'w send_queue \<times> queued_send list" where
  "send_step (q, offered) (EnqueueOp now payload binary) =
     (fst (enqueue now payload binary q),
      if sq_closedByPolicy q then offered else offered @ [make_entry now payload binary q])"
| "send_step (q, offered) WritableOp = (notifyWritable q, offered)"
| "send_step (q, offered) ClearOp = (clear_queue q, offered)"

interpretation send_ledger: invariant_machine send_step "\<lambda>(q, offered). ledger_ok f offered q" for f
proof
  fix s op
  assume "(\<lambda>(q, offered). ledger_ok f offered q) s"
  then show "(\<lambda>(q, offered). ledger_ok f offered q) (send_step s op)"
    using enqueue_ledger drain_ledger_ok clear_ledger_ok
    by (cases s; cases op) (fastforce simp: notifyWritable_def)+
qed

lemma new_queue_ledger:
  assumes "new_send_queue (logging f) ([], v) options = Inr q" and "0 \<le> sq_overhead q"
  shows "ledger_ok f [] q"
  using assms
  by (auto simp: new_send_queue_def ledger_ok_def accounted_def within_caps_def closed_once_def pending_def
      ring_queue.items_empty ring_queue.inv_empty split: if_splits option.splits)

lemma send_run_ledger:
  assumes "new_send_queue (logging f) ([], v) options = Inr q0" and "0 \<le> sq_overhead q0"
    and "foldl send_step (q0, []) ops = (q, offered)"
  shows "ledger_ok f offered q"
  using send_ledger.inv_run [of f "(q0, [])" ops] new_queue_ledger [OF assms(1,2)] assms(3) by simp

text \<open>A small queue whose transport accepts nothing, for the examples.\<close>

definition stalled_options :: "backpressure_policy \<Rightarrow> send_queue_options" where
  "stalled_options policy =
     \<lparr>qo_highWaterMarkBytes = 2, qo_maxBytes = 4, qo_maxMessages = None, qo_policy = policy, qo_perMessageOverhead = Some 0\<rparr>"

definition stalled_queue :: "backpressure_policy \<Rightarrow> (queued_send list \<times> unit) send_queue" where
  "stalled_queue policy =
     (case new_send_queue (logging (\<lambda>v e. (v, False))) ([], ()) (stalled_options policy) of Inr q \<Rightarrow> q)"

lemma stalled_queue_new:
  "new_send_queue (logging (\<lambda>v e. (v, False))) ([], ()) (stalled_options policy) = Inr (stalled_queue policy)"
  "sq_overhead (stalled_queue policy) = 0" "sq_maxBytes (stalled_queue policy) = 4"
  "sq_policy (stalled_queue policy) = policy" "\<not> sq_closedByPolicy (stalled_queue policy)"
  by (simp_all add: stalled_queue_def new_send_queue_def stalled_options_def)

text \<open>
  C25: every message given to the open queue is sent, dropped with a report, or still queued, exactly
  once; what was sent followed by what is queued is in the order of the calls; and the counters agree.
  This holds for every policy, every sink and every sequence of calls.
\<close>

theorem send_queue_conserves:
  assumes "new_send_queue (logging f) ([], v) options = Inr q0" and "0 \<le> sq_overhead q0"
  shows "let (q, offered) = foldl send_step (q0, []) ops in
     mset offered = mset (sent q) + mset (map fst (sq_drops q)) + mset (pending q)
     \<and> subseq (sent q @ pending q) offered
     \<and> length offered = sq_totalSent q + sq_totalDropped q + rg_size (sq_queue q)
     \<and> bytes_of offered = sq_bytesSent q + sq_bytesDropped q + sq_bufferedBytes q"
proof -
  obtain q offered where run: "foldl send_step (q0, []) ops = (q, offered)"
    by fastforce
  have acc: "accounted offered q"
    using send_run_ledger [OF assms run] by (simp add: ledger_ok_def)
  then have ms: "mset offered = mset (sent q @ map fst (sq_drops q) @ pending q)"
    by (simp add: accounted_def)
  have "length offered = length (sent q @ map fst (sq_drops q) @ pending q)"
    using mset_eq_length [OF ms] .
  moreover have "bytes_of offered = bytes_of (sent q @ map fst (sq_drops q) @ pending q)"
    unfolding bytes_of_def by (metis ms mset_map sum_mset_sum_list)
  ultimately show ?thesis
    unfolding run using acc ring_list_length [of "sq_queue q"] by (simp add: accounted_def pending_def)
qed

theorem send_queue_conserves_witness:
  "let (q, offered) = foldl send_step (stalled_queue DROP_OLDEST, [])
       [EnqueueOp 0 [1, 2, 3] True, EnqueueOp 1 [4, 5] True, WritableOp] in
     mset offered = mset (sent q) + mset (map fst (sq_drops q)) + mset (pending q)"
  using send_queue_conserves [OF stalled_queue_new(1) [of DROP_OLDEST], of "[EnqueueOp 0 [1, 2, 3] True, EnqueueOp 1 [4, 5] True, WritableOp]"]
  by (auto simp: stalled_queue_new Let_def split: prod.splits)

text \<open>
  Whatever happens, the queue holds at most \<open>maxBytes\<close> bytes and at most \<open>maxMessages\<close> messages
  (one, when that cap is below one); after the close policy fired it is empty, and it fires at most once.
\<close>

theorem send_queue_bounded:
  assumes "new_send_queue (logging f) ([], v) options = Inr q0" and "0 \<le> sq_overhead q0"
  shows "let (q, offered) = foldl send_step (q0, []) ops in
     sq_bufferedBytes q \<le> sq_maxBytes q \<and> sq_bufferedBytes q = bytes_of (pending q)
     \<and> (case sq_maxMessages q of None \<Rightarrow> True | Some k \<Rightarrow> int (rg_size (sq_queue q)) \<le> max 1 k)
     \<and> sq_policyCloses q = (if sq_closedByPolicy q then 1 else 0) \<and> (pending q = [] \<or> \<not> sq_closedByPolicy q)"
proof -
  obtain q offered where run: "foldl send_step (q0, []) ops = (q, offered)"
    by fastforce
  have "ledger_ok f offered q"
    by (rule send_run_ledger [OF assms run])
  then show ?thesis
    unfolding run using ring_list_length [of "sq_queue q"]
    by (auto simp: ledger_ok_def accounted_def within_caps_def closed_once_def pending_def split: option.splits)
qed

theorem send_queue_bounded_witness:
  "let (q, offered) = foldl send_step (stalled_queue CLOSE_POLICY, [])
       [EnqueueOp 0 [1, 2, 3] True, EnqueueOp 1 [4, 5] True, EnqueueOp 2 [6] True] in
     sq_bufferedBytes q \<le> sq_maxBytes q"
  using send_queue_bounded [OF stalled_queue_new(1) [of CLOSE_POLICY],
      of "[EnqueueOp 0 [1, 2, 3] True, EnqueueOp 1 [4, 5] True, EnqueueOp 2 [6] True]"]
  by (auto simp: stalled_queue_new Let_def split: prod.splits)

text \<open>
  Under the policy that drops the oldest, one message too big for the queue empties it: everything
  queued is evicted to make room, and then the message itself is dropped because it can never fit.
\<close>

theorem send_queue_oversize_flushes:
  assumes "new_send_queue (logging f) ([], v) options = Inr q0" and "0 \<le> sq_overhead q0"
    and "foldl send_step (q0, []) ops = (q, offered)" and "sq_policy q = DROP_OLDEST" and "\<not> sq_closedByPolicy q"
    and "sq_maxBytes q < int (length payload) + sq_overhead q"
  shows "let (q', ok) = enqueue now payload binary q in
     \<not> ok \<and> pending q' = [] \<and> map fst (sq_drops q') = map fst (sq_drops q) @ pending q @ [make_entry now payload binary q]"
proof -
  define e where "e = make_entry now payload binary q"
  have ok: "ledger_ok f offered q"
    by (rule send_run_ledger [OF assms(1-3)])
  obtain gone r where d: "evictUntilFits e q =
       q\<lparr>sq_queue := r, sq_bufferedBytes := sq_bufferedBytes q - bytes_of gone,
         sq_totalDropped := sq_totalDropped q + length gone, sq_bytesDropped := sq_bytesDropped q + bytes_of gone,
         sq_drops := sq_drops q @ map (\<lambda>e. (e, EVICTED)) gone\<rparr>"
    "ring_inv r" "pending q = gone @ ring_list r" "ring_list r = [] \<or> \<not> over_bytes e (evictUntilFits e q)"
    using evict_spec [of q e] ok unfolding ledger_ok_def accounted_def by blast
  have big: "over_bytes e p" if "ledger_ok f h p" "sq_maxBytes p = sq_maxBytes q" for h p
  proof -
    have "0 \<le> sq_bufferedBytes p"
      using that(1) unfolding ledger_ok_def accounted_def within_caps_def bytes_of_def by (auto intro!: sum_list_nonneg)
    with that(2) assms(6) show ?thesis
      by (simp add: over_bytes_def e_def make_entry_def)
  qed
  have evicted: "ledger_ok f offered (evictUntilFits e q)"
    using ok evict_ledger [of offered q f e] by (simp add: ledger_ok_def)
  have "over_bytes e (evictUntilFits e q)"
    by (rule big [OF evicted]) (simp add: d(1))
  then have room: "makeRoomByPolicy e q = (accountDrop e CAPACITY (evictUntilFits e q), False)"
    using assms(4) by (simp add: makeRoomByPolicy_def Let_def)
  have "enqueue now payload binary q = (accountDrop e CAPACITY (evictUntilFits e q), False)"
    using assms(5) room big [OF ok] by (simp add: enqueue_def e_def [symmetric] Let_def)
  moreover have "ring_list r = []"
    using d(4) \<open>over_bytes e (evictUntilFits e q)\<close> by blast
  ultimately show ?thesis
    using d by (simp add: e_def [symmetric] accountDrop_def pending_def comp_def)
qed

theorem send_queue_oversize_flushes_witness:
  "let (q', ok) = enqueue 0 [1, 2, 3, 4, 5] True (stalled_queue DROP_OLDEST) in \<not> ok \<and> pending q' = []"
  using send_queue_oversize_flushes [OF stalled_queue_new(1) [of DROP_OLDEST], of "[]", where payload = "[1, 2, 3, 4, 5]"
      and now = 0 and binary = True]
  by (simp add: stalled_queue_new Let_def split: prod.splits)

text \<open>
  The ring buffer is a first-in first-out queue: after any pushes its items are the pushed ones, they
  come out in the same order, and its compactions change neither.
\<close>

theorem ring_is_fifo:
  "let r = foldl (\<lambda>r x. ring_push x r) new_ring xs in
     ring_list r = xs \<and> snd (ring_queue.shift_many (length xs) r) = map Some xs \<and> snd (ring_clear r) = xs"
proof -
  have "ring_inv (foldl (\<lambda>r x. ring_push x r) new_ring xs)"
    using ring_queue.push_all [OF ring_queue.inv_empty] by blast
  from ring_clear_list [OF this] show ?thesis
    using ring_queue.fifo [of xs] by (simp add: Let_def)
qed

end
