(* ===== verification/Http2Framing.thy ===== *)
theory Http2Framing
  imports Interfaces
begin

text \<open>
  The HTTP/2 frame layer (\<open>network/engine/Http2Framing.ts\<close>): flow-control windows, the
  incremental decoder with its read cursor and lazy compaction, wire validation, and the
  encoders. Error values keep the error's code and stream; the wording of messages is left out.
  Codec methods return the codec they leave behind also when they throw, because some checks
  come after the state has moved.
\<close>

section \<open>Constants, frames, errors\<close>

definition HTTP2_HEADER_BYTES :: nat where "HTTP2_HEADER_BYTES = 9"
definition HTTP2_DEFAULT_MAX_FRAME :: nat where "HTTP2_DEFAULT_MAX_FRAME = 16384"
definition HTTP2_ABSOLUTE_MAX_FRAME :: nat where "HTTP2_ABSOLUTE_MAX_FRAME = 16777215"
definition HTTP2_MAX_WINDOW :: int where "HTTP2_MAX_WINDOW = 2147483647"
definition HTTP2_DEFAULT_WINDOW :: int where "HTTP2_DEFAULT_WINDOW = 65535"

lemmas h2_constants =
  HTTP2_HEADER_BYTES_def HTTP2_DEFAULT_MAX_FRAME_def HTTP2_ABSOLUTE_MAX_FRAME_def HTTP2_MAX_WINDOW_def
  HTTP2_DEFAULT_WINDOW_def

datatype h2_type =
  DATA | HEADERS | PRIORITY | RST_STREAM | SETTINGS | PUSH_PROMISE | PING_FRAME | GOAWAY | WINDOW_UPDATE | CONTINUATION_FRAME

text \<open>The code compares the numeric type octet with these codes.\<close>

fun h2_type_num :: "h2_type \<Rightarrow> nat" where
  "h2_type_num DATA = 0x0"
| "h2_type_num HEADERS = 0x1"
| "h2_type_num PRIORITY = 0x2"
| "h2_type_num RST_STREAM = 0x3"
| "h2_type_num SETTINGS = 0x4"
| "h2_type_num PUSH_PROMISE = 0x5"
| "h2_type_num PING_FRAME = 0x6"
| "h2_type_num GOAWAY = 0x7"
| "h2_type_num WINDOW_UPDATE = 0x8"
| "h2_type_num CONTINUATION_FRAME = 0x9"

definition END_STREAM :: nat where "END_STREAM = 0x1"
definition ACK :: nat where "ACK = 0x1"
definition END_HEADERS :: nat where "END_HEADERS = 0x4"
definition PADDED :: nat where "PADDED = 0x8"

definition has_flag :: "nat \<Rightarrow> nat \<Rightarrow> bool" where
  "has_flag flags flag \<longleftrightarrow> flags AND flag \<noteq> 0"

record h2_frame =
  fr_length :: nat
  fr_type :: nat
  fr_flags :: nat
  fr_streamId :: int
  fr_payload :: "byte list"

datatype h2_code = PROTOCOL_ERROR | FLOW_CONTROL_ERROR | FRAME_SIZE_ERROR

datatype h2_error =
    Http2ProtocolError h2_code int
  | RangeError

definition FrameSizeError :: "nat \<Rightarrow> nat \<Rightarrow> int \<Rightarrow> h2_error" where
  "FrameSizeError len limit streamId = Http2ProtocolError FRAME_SIZE_ERROR streamId"

definition CONNECTION_LEVEL :: "nat list" where
  "CONNECTION_LEVEL = [h2_type_num SETTINGS, h2_type_num PING_FRAME, h2_type_num GOAWAY]"

section \<open>Flow-control windows\<close>

record flow_window =
  fw_available :: int
  fw_initial :: int

definition new_flow_window :: "int \<Rightarrow> h2_error + flow_window" where
  "new_flow_window initial =
     (if initial < 0 \<or> initial > HTTP2_MAX_WINDOW then Inl RangeError
      else Inr \<lparr>fw_available = initial, fw_initial = initial\<rparr>)"

definition default_window :: flow_window where
  "default_window = \<lparr>fw_available = HTTP2_DEFAULT_WINDOW, fw_initial = HTTP2_DEFAULT_WINDOW\<rparr>"

definition exhausted :: "flow_window \<Rightarrow> bool" where
  "exhausted w \<longleftrightarrow> fw_available w \<le> 0"

definition consume :: "flow_window \<Rightarrow> int \<Rightarrow> h2_error + flow_window" where
  "consume w n =
     (if n < 0 then Inl RangeError
      else if n > fw_available w then Inl (Http2ProtocolError FLOW_CONTROL_ERROR 0)
      else Inr (w\<lparr>fw_available := fw_available w - n\<rparr>))"

text \<open>The new window, and the result's \<open>applied\<close> and \<open>available\<close>.\<close>

definition applyWindowUpdate :: "flow_window \<Rightarrow> int \<Rightarrow> int \<Rightarrow> h2_error + flow_window \<times> int \<times> int" where
  "applyWindowUpdate w increment streamId =
     (if increment \<le> 0 then Inl (Http2ProtocolError PROTOCOL_ERROR streamId)
      else
        let next = fw_available w + increment in
        if next > HTTP2_MAX_WINDOW then Inl (Http2ProtocolError FLOW_CONTROL_ERROR streamId)
        else Inr (w\<lparr>fw_available := next\<rparr>, increment, next))"

definition adjustInitial :: "flow_window \<Rightarrow> int \<Rightarrow> flow_window" where
  "adjustInitial w delta = w\<lparr>fw_available := fw_available w + delta\<rparr>"

section \<open>The codec\<close>

record h2_codec =
  h2_maxFrameSize :: nat
  h2_server :: bool
  h2_buf :: "byte list"
  h2_readIdx :: nat
  h2_continuationStream :: "int option"
  h2_connSend :: flow_window
  h2_connRecv :: flow_window
  h2_streamWindows :: "(int, flow_window) jmap"
  h2_framesDecoded :: nat
  h2_framesEncoded :: nat
  h2_bytesFed :: nat
  h2_nextStreamId :: "nat option"

definition new_h2_codec :: "nat option \<Rightarrow> bool option \<Rightarrow> h2_error + h2_codec" where
  "new_h2_codec maxFrameSize server =
     (let limit = (case maxFrameSize of Some n \<Rightarrow> n | None \<Rightarrow> HTTP2_DEFAULT_MAX_FRAME) in
      if limit > HTTP2_ABSOLUTE_MAX_FRAME then Inl RangeError
      else Inr
        \<lparr>h2_maxFrameSize = limit, h2_server = (case server of Some b \<Rightarrow> b | None \<Rightarrow> False),
         h2_buf = [], h2_readIdx = 0, h2_continuationStream = None,
         h2_connSend = default_window, h2_connRecv = default_window, h2_streamWindows = jmap_empty,
         h2_framesDecoded = 0, h2_framesEncoded = 0, h2_bytesFed = 0, h2_nextStreamId = None\<rparr>)"

definition bytesBuffered :: "h2_codec \<Rightarrow> nat" where
  "bytesBuffered c = length (h2_buf c) - h2_readIdx c"

definition inHeaderBlock :: "h2_codec \<Rightarrow> bool" where
  "inHeaderBlock c \<longleftrightarrow> h2_continuationStream c \<noteq> None"

text \<open>\<open>_streamWindow\<close>: the stream's window, and the codec in which it exists.\<close>

definition streamWindow :: "h2_codec \<Rightarrow> int \<Rightarrow> h2_codec \<times> flow_window" where
  "streamWindow c streamId =
     (case jmap_get (h2_streamWindows c) streamId of
        Some w \<Rightarrow> (c, w)
      | None \<Rightarrow>
          (c\<lparr>h2_streamWindows := jmap_set streamId default_window (h2_streamWindows c)\<rparr>, default_window))"

definition set_streamWindow :: "int \<Rightarrow> flow_window \<Rightarrow> h2_codec \<Rightarrow> h2_codec" where
  "set_streamWindow streamId w c = c\<lparr>h2_streamWindows := jmap_set streamId w (h2_streamWindows c)\<rparr>"

definition nextOutboundStreamId :: "h2_codec \<Rightarrow> h2_codec \<times> nat" where
  "nextOutboundStreamId c =
     (let id = (case h2_nextStreamId c of None \<Rightarrow> if h2_server c then 2 else 1 | Some n \<Rightarrow> n) in
      (c\<lparr>h2_nextStreamId := Some (id + 2)\<rparr>, id))"

section \<open>Wire validation\<close>

text \<open>The stream-id and header-block checks at the head of \<open>_validate\<close>.\<close>

definition check_stream :: "h2_codec \<Rightarrow> h2_frame \<Rightarrow> h2_error option" where
  "check_stream c frame =
     (let type = fr_type frame; streamId = fr_streamId frame in
      if type \<in> set CONNECTION_LEVEL \<and> streamId \<noteq> 0 then Some (Http2ProtocolError PROTOCOL_ERROR streamId)
      else if type \<notin> set CONNECTION_LEVEL \<and> type \<noteq> h2_type_num WINDOW_UPDATE \<and> streamId = 0
      then Some (Http2ProtocolError PROTOCOL_ERROR 0)
      else
        case h2_continuationStream c of
          Some s \<Rightarrow>
            if type \<noteq> h2_type_num CONTINUATION_FRAME \<or> streamId \<noteq> s
            then Some (Http2ProtocolError PROTOCOL_ERROR streamId) else None
        | None \<Rightarrow> None)"

definition padding_error :: "h2_frame \<Rightarrow> bool" where
  "padding_error frame \<longleftrightarrow>
     has_flag (fr_flags frame) PADDED \<and>
     (let padLen = (if length (fr_payload frame) > 0 then unat (fr_payload frame ! 0) else 0)
      in padLen \<ge> length (fr_payload frame))"

definition validate_headers :: "h2_codec \<Rightarrow> h2_frame \<Rightarrow> h2_codec \<times> (h2_error + unit)" where
  "validate_headers c frame =
     (if padding_error frame then (c, Inl (Http2ProtocolError PROTOCOL_ERROR (fr_streamId frame)))
      else if \<not> has_flag (fr_flags frame) END_HEADERS
      then (c\<lparr>h2_continuationStream := Some (fr_streamId frame)\<rparr>, Inr ())
      else (c, Inr ()))"

text \<open>Credit is taken from the connection first; a stream without credit throws after that.\<close>

definition validate_data :: "h2_codec \<Rightarrow> h2_frame \<Rightarrow> h2_codec \<times> (h2_error + unit)" where
  "validate_data c frame =
     (if padding_error frame then (c, Inl (Http2ProtocolError PROTOCOL_ERROR (fr_streamId frame)))
      else
        case consume (h2_connRecv c) (int (length (fr_payload frame))) of
          Inl e \<Rightarrow> (c, Inl e)
        | Inr conn \<Rightarrow>
            (let (c, w) = streamWindow (c\<lparr>h2_connRecv := conn\<rparr>) (fr_streamId frame) in
             case consume w (int (length (fr_payload frame))) of
               Inl e \<Rightarrow> (c, Inl e)
             | Inr w \<Rightarrow> (set_streamWindow (fr_streamId frame) w c, Inr ())))"

definition validate_window_update :: "h2_codec \<Rightarrow> h2_frame \<Rightarrow> h2_codec \<times> (h2_error + unit)" where
  "validate_window_update c frame =
     (let payload = fr_payload frame; streamId = fr_streamId frame in
      if length payload \<noteq> 4 then (c, Inl (Http2ProtocolError FRAME_SIZE_ERROR streamId))
      else
        let increment = int (be_val [payload ! 0 AND 0x7f, payload ! 1, payload ! 2, payload ! 3]) in
        if streamId = 0 then
          (case applyWindowUpdate (h2_connSend c) increment 0 of
             Inl e \<Rightarrow> (c, Inl e)
           | Inr (w, _) \<Rightarrow> (c\<lparr>h2_connSend := w\<rparr>, Inr ()))
        else
          (let (c, w) = streamWindow c streamId in
           case applyWindowUpdate w increment streamId of
             Inl e \<Rightarrow> (c, Inl e)
           | Inr (w, _) \<Rightarrow> (set_streamWindow streamId w c, Inr ())))"

definition validate_type :: "h2_codec \<Rightarrow> h2_frame \<Rightarrow> h2_codec \<times> (h2_error + unit)" where
  "validate_type c frame =
     (let type = fr_type frame in
      if type = h2_type_num HEADERS then validate_headers c frame
      else if type = h2_type_num CONTINUATION_FRAME then
        (if has_flag (fr_flags frame) END_HEADERS then c\<lparr>h2_continuationStream := None\<rparr> else c, Inr ())
      else if type = h2_type_num DATA then validate_data c frame
      else if type = h2_type_num WINDOW_UPDATE then validate_window_update c frame
      else if type = h2_type_num RST_STREAM then
        (c, if length (fr_payload frame) \<noteq> 4
            then Inl (Http2ProtocolError FRAME_SIZE_ERROR (fr_streamId frame)) else Inr ())
      else if type = h2_type_num PING_FRAME then
        (c, if length (fr_payload frame) \<noteq> 8 then Inl (Http2ProtocolError FRAME_SIZE_ERROR 0) else Inr ())
      else (c, Inr ()))"

definition validate_frame :: "h2_codec \<Rightarrow> h2_frame \<Rightarrow> h2_codec \<times> (h2_error + unit)" where
  "validate_frame c frame =
     (case check_stream c frame of Some e \<Rightarrow> (c, Inl e) | None \<Rightarrow> validate_type c frame)"

section \<open>Decoding\<close>

definition h2_feed :: "h2_codec \<Rightarrow> byte list \<Rightarrow> h2_codec" where
  "h2_feed c bytes = c\<lparr>h2_buf := h2_buf c @ bytes, h2_bytesFed := h2_bytesFed c + length bytes\<rparr>"

definition compact :: "h2_codec \<Rightarrow> h2_codec" where
  "compact c =
     (if h2_readIdx c \<ge> 4096 \<and> h2_readIdx c * 2 \<ge> length (h2_buf c)
      then c\<lparr>h2_buf := drop (h2_readIdx c) (h2_buf c), h2_readIdx := 0\<rparr> else c)"

text \<open>The header at the front of the bytes \<open>b\<close>, with the payload that follows it.\<close>

definition frame_at :: "byte list \<Rightarrow> h2_frame" where
  "frame_at b =
     (let len = be_val (slice 0 3 b) in
      \<lparr>fr_length = len, fr_type = unat (b ! 3), fr_flags = unat (b ! 4),
       fr_streamId = int (be_val [b ! 5 AND 0x7f, b ! 6, b ! 7, b ! 8]),
       fr_payload = slice HTTP2_HEADER_BYTES len b\<rparr>)"

definition nextFrame :: "h2_codec \<Rightarrow> h2_codec \<times> (h2_error + h2_frame option)" where
  "nextFrame c =
     (let b = drop (h2_readIdx c) (h2_buf c); frame = frame_at b in
      if bytesBuffered c < HTTP2_HEADER_BYTES then (c, Inr None)
      else if fr_length frame > h2_maxFrameSize c
      then (c, Inl (FrameSizeError (fr_length frame) (h2_maxFrameSize c) (fr_streamId frame)))
      else if bytesBuffered c < HTTP2_HEADER_BYTES + fr_length frame then (c, Inr None)
      else
        let c = compact (c\<lparr>h2_readIdx := h2_readIdx c + (HTTP2_HEADER_BYTES + fr_length frame)\<rparr>) in
        case validate_frame c frame of
          (c, Inl e) \<Rightarrow> (c, Inl e)
        | (c, Inr _) \<Rightarrow> (c\<lparr>h2_framesDecoded := h2_framesDecoded c + 1\<rparr>, Inr (Some frame)))"

section \<open>Encoding\<close>

text \<open>With the stream id in range, the \<open>& 0x7f\<close> on its first byte changes nothing.\<close>

definition h2_wire :: "h2_frame \<Rightarrow> byte list" where
  "h2_wire frame =
     be_bytes 3 (length (fr_payload frame)) @
     [word_of_nat (fr_type frame), word_of_nat (fr_flags frame)] @
     be_bytes 4 (nat (fr_streamId frame)) @ fr_payload frame"

definition h2_encode :: "h2_codec \<Rightarrow> h2_frame \<Rightarrow> h2_codec \<times> (h2_error + byte list)" where
  "h2_encode c frame =
     (let len = length (fr_payload frame) in
      if len > h2_maxFrameSize c then (c, Inl (FrameSizeError len (h2_maxFrameSize c) (fr_streamId frame)))
      else if fr_streamId frame < 0 \<or> fr_streamId frame > HTTP2_MAX_WINDOW then (c, Inl RangeError)
      else
        let out = h2_wire frame in
        if fr_type frame = h2_type_num DATA then
          (case consume (h2_connSend c) (int len) of
             Inl e \<Rightarrow> (c, Inl e)
           | Inr conn \<Rightarrow>
               (let (c, w) = streamWindow (c\<lparr>h2_connSend := conn\<rparr>) (fr_streamId frame) in
                case consume w (int len) of
                  Inl e \<Rightarrow> (c, Inl e)
                | Inr w \<Rightarrow>
                    (let c = set_streamWindow (fr_streamId frame) w c in
                     (c\<lparr>h2_framesEncoded := h2_framesEncoded c + 1\<rparr>, Inr out))))
        else (c\<lparr>h2_framesEncoded := h2_framesEncoded c + 1\<rparr>, Inr out))"

definition outgoing :: "h2_type \<Rightarrow> nat \<Rightarrow> int \<Rightarrow> byte list \<Rightarrow> h2_frame" where
  "outgoing type flags streamId payload =
     \<lparr>fr_length = length payload, fr_type = h2_type_num type, fr_flags = flags, fr_streamId = streamId,
      fr_payload = payload\<rparr>"

definition encodeSettings :: "h2_codec \<Rightarrow> (nat, nat) jmap \<Rightarrow> bool \<Rightarrow> h2_codec \<times> (h2_error + byte list)" where
  "encodeSettings c settings ack =
     (if ack then h2_encode c (outgoing SETTINGS ACK 0 [])
      else
        h2_encode c
          (outgoing SETTINGS 0 0 (concat (map (\<lambda>(id, v). be_bytes 2 id @ be_bytes 4 v) settings))))"

definition encodeWindowUpdate :: "h2_codec \<Rightarrow> int \<Rightarrow> int \<Rightarrow> h2_codec \<times> (h2_error + byte list)" where
  "encodeWindowUpdate c streamId increment =
     (if increment \<le> 0 \<or> increment > HTTP2_MAX_WINDOW then (c, Inl RangeError)
      else h2_encode c (outgoing WINDOW_UPDATE 0 streamId (be_bytes 4 (nat increment))))"

section \<open>The codec without its buffer\<close>

text \<open>
  The decoder's abstract state: the unread bytes, and the codec without its buffer. Read cursor
  and compaction do not show in it.
\<close>

definition pending_bytes :: "h2_codec \<Rightarrow> byte list" where
  "pending_bytes c = drop (h2_readIdx c) (h2_buf c)"

definition with_buffer :: "byte list \<Rightarrow> nat \<Rightarrow> nat \<Rightarrow> h2_codec \<Rightarrow> h2_codec" where
  "with_buffer b i n c = c\<lparr>h2_buf := b, h2_readIdx := i, h2_bytesFed := n\<rparr>"

definition core :: "h2_codec \<Rightarrow> h2_codec" where
  "core = with_buffer [] 0 0"

named_theorems h2_simps \<open>what the codec's operations change\<close>

lemma with_buffer_fields [h2_simps]:
  "h2_maxFrameSize (with_buffer b i n c) = h2_maxFrameSize c" "h2_server (with_buffer b i n c) = h2_server c"
  "h2_continuationStream (with_buffer b i n c) = h2_continuationStream c"
  "h2_connSend (with_buffer b i n c) = h2_connSend c" "h2_connRecv (with_buffer b i n c) = h2_connRecv c"
  "h2_streamWindows (with_buffer b i n c) = h2_streamWindows c"
  "h2_framesDecoded (with_buffer b i n c) = h2_framesDecoded c"
  "h2_buf (with_buffer b i n c) = b" "h2_readIdx (with_buffer b i n c) = i" "h2_bytesFed (with_buffer b i n c) = n"
  by (simp_all add: with_buffer_def)

lemma with_buffer_twice [simp]: "with_buffer b i n (with_buffer b' i' n' c) = with_buffer b i n c"
  by (simp add: with_buffer_def)

lemma with_buffer_same: "with_buffer (h2_buf c) (h2_readIdx c) (h2_bytesFed c) c = c"
  by (simp add: with_buffer_def)

lemma with_buffer_update [h2_simps]:
  "(with_buffer b i n c)\<lparr>h2_continuationStream := x\<rparr> = with_buffer b i n (c\<lparr>h2_continuationStream := x\<rparr>)"
  "(with_buffer b i n c)\<lparr>h2_connSend := w\<rparr> = with_buffer b i n (c\<lparr>h2_connSend := w\<rparr>)"
  "(with_buffer b i n c)\<lparr>h2_connRecv := w\<rparr> = with_buffer b i n (c\<lparr>h2_connRecv := w\<rparr>)"
  "(with_buffer b i n c)\<lparr>h2_streamWindows := ws\<rparr> = with_buffer b i n (c\<lparr>h2_streamWindows := ws\<rparr>)"
  "(with_buffer b i n c)\<lparr>h2_framesDecoded := k\<rparr> = with_buffer b i n (c\<lparr>h2_framesDecoded := k\<rparr>)"
  by (simp_all add: with_buffer_def)

lemma streamWindow_buffer [h2_simps]:
  "streamWindow (with_buffer b i n c) sid = apfst (with_buffer b i n) (streamWindow c sid)"
  by (simp add: streamWindow_def h2_simps split: option.split)

lemma set_streamWindow_buffer [h2_simps]:
  "set_streamWindow sid w (with_buffer b i n c) = with_buffer b i n (set_streamWindow sid w c)"
  by (simp add: set_streamWindow_def h2_simps)

lemma validate_frame_buffer [h2_simps]:
  "validate_frame (with_buffer b i n c) f = apfst (with_buffer b i n) (validate_frame c f)"
proof -
  have "validate_headers (with_buffer b i n c) f = apfst (with_buffer b i n) (validate_headers c f)"
    by (simp add: validate_headers_def h2_simps)
  moreover have "validate_data (with_buffer b i n c) f = apfst (with_buffer b i n) (validate_data c f)"
    by (simp add: validate_data_def h2_simps Let_def split: sum.split prod.split)
  moreover have "validate_window_update (with_buffer b i n c) f = apfst (with_buffer b i n) (validate_window_update c f)"
    by (simp add: validate_window_update_def h2_simps Let_def split: sum.split prod.split)
  moreover have "check_stream (with_buffer b i n c) f = check_stream c f"
    by (simp add: check_stream_def h2_simps Let_def)
  ultimately show ?thesis
    by (simp add: validate_frame_def validate_type_def h2_simps Let_def split: option.split)
qed

section \<open>Decoding as an incremental decoder\<close>

definition h2_attempt :: "h2_codec \<Rightarrow> byte list \<Rightarrow> (h2_codec, h2_frame, h2_error) attempt" where
  "h2_attempt s b =
     (let frame = frame_at b in
      if length b < HTTP2_HEADER_BYTES then NeedMore
      else if fr_length frame > h2_maxFrameSize s
      then Malformed (FrameSizeError (fr_length frame) (h2_maxFrameSize s) (fr_streamId frame))
      else if length b < HTTP2_HEADER_BYTES + fr_length frame then NeedMore
      else
        case validate_frame s frame of
          (s', Inl e) \<Rightarrow> Malformed e
        | (s', Inr _) \<Rightarrow>
            Decoded (s'\<lparr>h2_framesDecoded := h2_framesDecoded s' + 1\<rparr>) frame (HTTP2_HEADER_BYTES + fr_length frame))"

lemma frame_at_header:
  "9 \<le> length b \<Longrightarrow> fr_length (frame_at (b @ bs)) = fr_length (frame_at b) \<and>
     fr_streamId (frame_at (b @ bs)) = fr_streamId (frame_at b)"
  by (simp add: frame_at_def Let_def buffer_simps)

lemma frame_at_append:
  "9 + fr_length (frame_at b) \<le> length b \<Longrightarrow> frame_at (b @ bs) = frame_at b"
  by (simp add: frame_at_def Let_def buffer_simps HTTP2_HEADER_BYTES_def)

interpretation h2_decoder: incremental_decoder h2_attempt
proof
  fix s s' :: h2_codec and b bs f n e
  show "h2_attempt s b = Decoded s' f n \<Longrightarrow> 0 < n \<and> n \<le> length b"
    by (auto simp: h2_attempt_def Let_def HTTP2_HEADER_BYTES_def split: if_splits prod.splits sum.splits)
  show "h2_attempt s b = Decoded s' f n \<Longrightarrow> h2_attempt s (b @ bs) = Decoded s' f n"
    using frame_at_append [of b bs]
    by (auto simp: h2_attempt_def Let_def HTTP2_HEADER_BYTES_def split: if_splits)
  show "h2_attempt s b = Malformed e \<Longrightarrow> h2_attempt s (b @ bs) = Malformed e"
    using frame_at_append [of b bs] frame_at_header [of b bs]
    by (auto simp: h2_attempt_def Let_def HTTP2_HEADER_BYTES_def split: if_splits)
qed

lemma compact_pending [simp]: "pending_bytes (compact c) = pending_bytes c"
  by (simp add: pending_bytes_def compact_def)

lemma compact_buffer: "\<exists>b i. compact c = with_buffer b i (h2_bytesFed c) c"
proof (cases "h2_readIdx c \<ge> 4096 \<and> h2_readIdx c * 2 \<ge> length (h2_buf c)")
  case True
  then have "compact c = with_buffer (drop (h2_readIdx c) (h2_buf c)) 0 (h2_bytesFed c) c"
    by (simp add: compact_def with_buffer_def)
  then show ?thesis by blast
next
  case False
  then have "compact c = with_buffer (h2_buf c) (h2_readIdx c) (h2_bytesFed c) c"
    by (auto simp: compact_def with_buffer_def)
  then show ?thesis by blast
qed

lemma bytesBuffered_pending: "bytesBuffered c = length (pending_bytes c)"
  by (simp add: bytesBuffered_def pending_bytes_def)

text \<open>\<open>nextFrame\<close> refines the abstract decoder.\<close>

lemma nextFrame_refines:
  "case h2_attempt (core c) (pending_bytes c) of
     NeedMore \<Rightarrow> nextFrame c = (c, Inr None)
   | Malformed e \<Rightarrow> \<exists>c'. nextFrame c = (c', Inl e)
   | Decoded s f n \<Rightarrow>
       \<exists>c'. nextFrame c = (c', Inr (Some f)) \<and> core c' = s \<and> pending_bytes c' = drop n (pending_bytes c) \<and>
         h2_bytesFed c' = h2_bytesFed c"
proof -
  let ?b = "pending_bytes c" and ?f = "frame_at (pending_bytes c)"
  let ?n = "HTTP2_HEADER_BYTES + fr_length ?f"
  let ?c = "c\<lparr>h2_readIdx := h2_readIdx c + ?n\<rparr>"
  have rest: "pending_bytes ?c = drop ?n ?b"
    by (simp add: pending_bytes_def add.commute)
  obtain b i where k: "compact ?c = with_buffer b i (h2_bytesFed c) c"
    using compact_buffer [of ?c] by (auto simp: with_buffer_def)
  obtain s r where v: "validate_frame c ?f = (s, r)"
    by (cases "validate_frame c ?f")
  have "drop i b = drop ?n ?b"
    using k compact_pending [of ?c] rest by (simp add: pending_bytes_def with_buffer_def)
  then show ?thesis
    using v k
    by (auto simp: nextFrame_def h2_attempt_def Let_def bytesBuffered_pending core_def h2_simps
        simp flip: pending_bytes_def split: sum.split)
      (auto simp: pending_bytes_def h2_simps with_buffer_def)
qed

section \<open>Draining\<close>

text \<open>A caller's loop: \<open>nextFrame\<close> until it returns \<open>null\<close> or throws.\<close>

lemma nextFrame_consumes: "nextFrame c = (c', Inr (Some f)) \<Longrightarrow> bytesBuffered c' < bytesBuffered c"
  using nextFrame_refines [of c] h2_decoder.decoded_bounds [of "core c" "pending_bytes c"]
  by (auto simp: bytesBuffered_pending split: attempt.splits)

function drain_frames :: "h2_codec \<Rightarrow> h2_codec \<times> h2_frame list \<times> h2_error option" where
  "drain_frames c =
     (case nextFrame c of
        (c', Inl e) \<Rightarrow> (c', [], Some e)
      | (c', Inr None) \<Rightarrow> (c', [], None)
      | (c', Inr (Some f)) \<Rightarrow> (let (c'', fs, e) = drain_frames c' in (c'', f # fs, e)))"
  by pat_completeness auto
termination
  by (relation "measure bytesBuffered") (auto dest: nextFrame_consumes [OF sym])

declare drain_frames.simps [simp del]

text \<open>Chunks as the transport delivers them: feed one, drain, and stop at the first throw.\<close>

fun receive_chunks :: "h2_codec \<Rightarrow> byte list list \<Rightarrow> h2_codec \<times> h2_frame list \<times> h2_error option" where
  "receive_chunks c [] = (c, [], None)"
| "receive_chunks c (b # bs) =
     (case drain_frames (h2_feed c b) of
        (c', fs, Some e) \<Rightarrow> (c', fs, Some e)
      | (c', fs, None) \<Rightarrow> (let (c'', gs, e) = receive_chunks c' bs in (c'', fs @ gs, e)))"

text \<open>The loop computes the abstract decoder's run.\<close>

lemma drain_frames_refines:
  assumes "drain_with h2_attempt (core c) (pending_bytes c) = (s, fs, rest, err)"
  shows "\<exists>c'. drain_frames c = (c', fs, err) \<and>
    (err = None \<longrightarrow> core c' = s \<and> pending_bytes c' = rest \<and> h2_bytesFed c' = h2_bytesFed c)"
  using assms
proof (induction c arbitrary: fs rule: drain_frames.induct)
  case (1 c)
  note step = nextFrame_refines [of c]
  show ?case
  proof (cases "h2_attempt (core c) (pending_bytes c)")
    case NeedMore
    then show ?thesis
      using step "1.prems" by (subst drain_frames.simps) (auto simp: h2_decoder.drain_NeedMore)
  next
    case (Malformed e)
    then show ?thesis
      using step "1.prems" by (subst drain_frames.simps) (auto simp: h2_decoder.drain_Malformed)
  next
    case (Decoded s1 f n)
    then obtain c1 where c1: "nextFrame c = (c1, Inr (Some f))" "core c1 = s1"
      "pending_bytes c1 = drop n (pending_bytes c)" "h2_bytesFed c1 = h2_bytesFed c"
      using step by auto
    obtain fs1 where "drain_with h2_attempt (core c1) (pending_bytes c1) = (s, fs1, rest, err)" and "fs = f # fs1"
      using "1.prems" c1 by (auto simp: h2_decoder.drain_Decoded [OF Decoded] split: prod.splits)
    with "1.IH" [OF c1(1) [symmetric] refl refl] c1 show ?thesis
      by (subst drain_frames.simps) auto
  qed
qed

definition h2_inv :: "h2_codec \<Rightarrow> bool" where
  "h2_inv c \<longleftrightarrow> h2_readIdx c \<le> length (h2_buf c)"

definition h2_settled :: "h2_codec \<Rightarrow> bool" where
  "h2_settled c \<longleftrightarrow> h2_inv c \<and> h2_attempt (core c) (pending_bytes c) = NeedMore"

lemma core_feed [simp]: "core (h2_feed c b) = core c"
  by (simp add: core_def with_buffer_def h2_feed_def)

lemma pending_feed: "h2_inv c \<Longrightarrow> pending_bytes (h2_feed c b) = pending_bytes c @ b"
  by (simp add: h2_inv_def pending_bytes_def h2_feed_def)

lemma nextFrame_inv: "h2_inv c \<Longrightarrow> h2_inv (fst (nextFrame c))"
proof -
  assume inv: "h2_inv c"
  let ?f = "frame_at (pending_bytes c)"
  let ?c = "c\<lparr>h2_readIdx := h2_readIdx c + (HTTP2_HEADER_BYTES + fr_length ?f)\<rparr>"
  have keep: "h2_inv d \<Longrightarrow> h2_inv (compact d)" for d
    by (auto simp: h2_inv_def compact_def)
  have val: "h2_inv (fst (validate_frame d f)) = h2_inv d" for d f
    using validate_frame_buffer [of "h2_buf d" "h2_readIdx d" "h2_bytesFed d" d f]
    by (cases "validate_frame d f") (simp add: with_buffer_same, metis h2_inv_def with_buffer_fields(8,9))
  have "HTTP2_HEADER_BYTES + fr_length ?f \<le> bytesBuffered c \<Longrightarrow> h2_inv (fst (validate_frame (compact ?c) ?f))"
    using inv unfolding val by (intro keep) (simp add: h2_inv_def bytesBuffered_def)
  then show ?thesis
    using inv by (auto simp: nextFrame_def Let_def simp flip: pending_bytes_def split: prod.splits sum.splits)
      (auto simp: h2_inv_def not_less)
qed

lemma drain_frames_inv: "h2_inv c \<Longrightarrow> h2_inv (fst (drain_frames c))"
proof (induction c rule: drain_frames.induct)
  case (1 c)
  then show ?case
    using nextFrame_inv [of c]
    by (subst drain_frames.simps) (auto split: prod.splits sum.splits option.splits)
qed

lemma drain_frames_result:
  "\<exists>c' s fs rest err. drain_frames c = (c', fs, err) \<and>
     drain_with h2_attempt (core c) (pending_bytes c) = (s, fs, rest, err) \<and>
     (err = None \<longrightarrow> core c' = s \<and> pending_bytes c' = rest \<and> h2_bytesFed c' = h2_bytesFed c)"
  using drain_frames_refines [of c]
  by (cases "drain_with h2_attempt (core c) (pending_bytes c)") blast

text \<open>Two deliveries of the same bytes, one chunk or many.\<close>

lemma receive_chunks_refines:
  assumes "h2_settled c"
    and "drain_with h2_attempt (core c) (pending_bytes c @ concat chunks) = (s, fs, rest, err)"
  shows "\<exists>c'. receive_chunks c chunks = (c', fs, err) \<and>
    (err = None \<longrightarrow> core c' = s \<and> pending_bytes c' = rest \<and>
       h2_bytesFed c' = h2_bytesFed c + length (concat chunks) \<and> h2_settled c')"
  using assms
proof (induction chunks arbitrary: c fs)
  case Nil
  then show ?case
    by (auto simp: h2_settled_def h2_decoder.drain_NeedMore)
next
  case (Cons b bs)
  have inv: "h2_inv (h2_feed c b)"
    using Cons.prems(1) by (simp add: h2_settled_def h2_inv_def h2_feed_def)
  have pend: "pending_bytes (h2_feed c b) = pending_bytes c @ b"
    using Cons.prems(1) by (simp add: h2_settled_def pending_feed)
  obtain c1 s1 fs1 rest1 err1 where d: "drain_frames (h2_feed c b) = (c1, fs1, err1)"
    and "drain_with h2_attempt (core (h2_feed c b)) (pending_bytes (h2_feed c b)) = (s1, fs1, rest1, err1)"
    and ok: "err1 = None \<Longrightarrow> core c1 = s1 \<and> pending_bytes c1 = rest1 \<and> h2_bytesFed c1 = h2_bytesFed (h2_feed c b)"
    using drain_frames_result [of "h2_feed c b"] by blast
  then have dw: "drain_with h2_attempt (core c) (pending_bytes c @ b) = (s1, fs1, rest1, err1)"
    by (simp add: pend)
  show ?case
  proof (cases err1)
    case (Some e)
    then show ?thesis
      using d Cons.prems(2) h2_decoder.drain_append_error [of "core c" "pending_bytes c @ b"] dw
      by auto
  next
    case None
    have "h2_settled c1"
      using None ok drain_frames_inv [OF inv] d h2_decoder.drain_settled dw by (simp add: h2_settled_def)
    moreover obtain fs2 where "drain_with h2_attempt (core c1) (pending_bytes c1 @ concat bs) = (s, fs2, rest, err)"
      and fs: "fs = fs1 @ fs2"
      using None ok Cons.prems(2) h2_decoder.drain_append [of "core c" "pending_bytes c @ b" s1 fs1 rest1 "concat bs"] dw
      by (auto split: prod.splits)
    ultimately obtain c2 where "receive_chunks c1 bs = (c2, fs2, err)"
      "err = None \<longrightarrow> core c2 = s \<and> pending_bytes c2 = rest \<and>
         h2_bytesFed c2 = h2_bytesFed c1 + length (concat bs) \<and> h2_settled c2"
      using Cons.IH by blast
    then show ?thesis
      using None ok d fs by (auto simp: h2_feed_def)
  qed
qed

section \<open>The codec as a framing\<close>

text \<open>A frame as the peer reports it: the length is the payload's, type and flags are octets.\<close>

definition h2_seen :: "h2_frame \<Rightarrow> h2_frame" where
  "h2_seen g = g\<lparr>fr_length := length (fr_payload g), fr_type := fr_type g mod 256, fr_flags := fr_flags g mod 256\<rparr>"

definition h2_accepts :: "h2_codec \<Rightarrow> h2_frame \<Rightarrow> bool" where
  "h2_accepts s g \<longleftrightarrow>
     length (fr_payload g) \<le> h2_maxFrameSize s \<and> h2_maxFrameSize s \<le> HTTP2_ABSOLUTE_MAX_FRAME \<and>
     0 \<le> fr_streamId g \<and> fr_streamId g \<le> HTTP2_MAX_WINDOW \<and> \<not> isl (snd (validate_frame s (h2_seen g)))"

definition h2_after :: "h2_codec \<Rightarrow> h2_frame \<Rightarrow> h2_codec" where
  "h2_after s g =
     (let s' = fst (validate_frame s (h2_seen g)) in s'\<lparr>h2_framesDecoded := h2_framesDecoded s' + 1\<rparr>)"

lemma unat_octet: "unat (word_of_nat n :: byte) = n mod 256"
  by (simp add: unat_of_nat take_bit_eq_mod)

lemma and_127 [simp]: "n < 128 \<Longrightarrow> (word_of_nat n :: byte) AND 0x7f = word_of_nat n"
proof -
  assume "n < 128"
  then have "(word_of_nat n :: byte) AND Bit_Operations.mask 7 = word_of_nat n"
    by (simp only: take_bit_eq_mask [symmetric] take_bit_of_nat) (simp add: take_bit_nat_eq_self)
  then show ?thesis
    by (simp add: mask_eq_exp_minus_1)
qed

lemma be_bytes_3: "be_bytes 3 n = [word_of_nat (n div 65536), word_of_nat (n div 256), word_of_nat n]"
proof -
  have "(3 :: nat) = Suc (Suc (Suc 0))" by simp
  then show ?thesis by (simp only: be_bytes.simps) simp
qed

lemma be_bytes_4:
  "be_bytes 4 n = [word_of_nat (n div 16777216), word_of_nat (n div 65536), word_of_nat (n div 256), word_of_nat n]"
proof -
  have "(4 :: nat) = Suc (Suc (Suc (Suc 0)))" by simp
  then show ?thesis by (simp only: be_bytes.simps) simp
qed

lemma be_val_31:
  assumes "n < 2 ^ 31"
  shows "be_val [word_of_nat (n div 16777216) AND 0x7f, word_of_nat (n div 65536), word_of_nat (n div 256), word_of_nat n] = n"
proof -
  have "n div 16777216 < 128"
    using assms by (simp add: less_mult_imp_div_less)
  moreover have "be_val (be_bytes 4 n) = n"
    using assms by (intro be_val_be_bytes_small) simp
  ultimately show ?thesis
    by (simp add: be_bytes_4)
qed

lemma frame_at_wire:
  assumes "length (fr_payload g) \<le> HTTP2_ABSOLUTE_MAX_FRAME" "0 \<le> fr_streamId g" "fr_streamId g \<le> HTTP2_MAX_WINDOW"
  shows "frame_at (h2_wire g @ bs) = h2_seen g"
proof -
  let ?l = "length (fr_payload g)"
  obtain n where n: "fr_streamId g = int n"
    using assms(2) by (metis nonneg_int_cases)
  have l: "be_val (be_bytes 3 ?l) = ?l"
    using assms by (intro be_val_be_bytes_small) (simp add: HTTP2_ABSOLUTE_MAX_FRAME_def)
  have s: "be_val [word_of_nat (n div 16777216) AND 0x7f, word_of_nat (n div 65536), word_of_nat (n div 256),
      word_of_nat n] = n"
    using be_val_31 [of n] assms n by (simp add: HTTP2_MAX_WINDOW_def)
  have "slice 0 3 (h2_wire g @ bs) = be_bytes 3 ?l"
    by (simp add: slice_def h2_wire_def)
  then have len: "be_val (slice 0 3 (h2_wire g @ bs)) = ?l"
    by (simp add: l)
  have w: "h2_wire g @ bs = [word_of_nat (?l div 65536), word_of_nat (?l div 256), word_of_nat ?l,
      word_of_nat (fr_type g), word_of_nat (fr_flags g), word_of_nat (n div 16777216), word_of_nat (n div 65536),
      word_of_nat (n div 256), word_of_nat n] @ (fr_payload g @ bs)" (is "_ = ?h @ _")
    by (simp add: h2_wire_def be_bytes_4 be_bytes_3 n)
  have "slice HTTP2_HEADER_BYTES ?l (h2_wire g @ bs) = fr_payload g"
    unfolding w by (simp add: slice_def HTTP2_HEADER_BYTES_def)
  moreover have "(h2_wire g @ bs) ! 3 = word_of_nat (fr_type g)" "(h2_wire g @ bs) ! 4 = word_of_nat (fr_flags g)"
    "(h2_wire g @ bs) ! 5 = word_of_nat (n div 16777216)" "(h2_wire g @ bs) ! 6 = word_of_nat (n div 65536)"
    "(h2_wire g @ bs) ! 7 = word_of_nat (n div 256)" "(h2_wire g @ bs) ! 8 = word_of_nat n"
    unfolding w by simp_all
  ultimately show ?thesis
    by (simp add: frame_at_def Let_def len s unat_octet h2_seen_def flip: n)
qed

lemma length_h2_wire: "length (h2_wire g) = HTTP2_HEADER_BYTES + length (fr_payload g)"
  by (simp add: h2_wire_def HTTP2_HEADER_BYTES_def)

interpretation h2_framing: framing h2_attempt h2_wire h2_accepts h2_seen h2_after
proof
  fix s g bs
  assume ok: "h2_accepts s g"
  then have "frame_at (h2_wire g @ bs) = h2_seen g"
    by (intro frame_at_wire) (simp_all add: h2_accepts_def)
  moreover have "fr_length (h2_seen g) = length (fr_payload g)"
    by (simp add: h2_seen_def)
  ultimately show "h2_attempt s (h2_wire g @ bs) = Decoded (h2_after s g) (h2_seen g) (length (h2_wire g))"
    using ok by (auto simp: h2_attempt_def Let_def length_h2_wire h2_accepts_def h2_after_def isl_def
        split: prod.split sum.splits)
next
  show "h2_attempt s [] = NeedMore" for s
    by (simp add: h2_attempt_def HTTP2_HEADER_BYTES_def)
qed

text \<open>Encoding a list of frames, up to the first throw.\<close>

fun h2_encode_all :: "h2_codec \<Rightarrow> h2_frame list \<Rightarrow> h2_codec \<times> (h2_error + byte list list)" where
  "h2_encode_all c [] = (c, Inr [])"
| "h2_encode_all c (g # gs) =
     (case h2_encode c g of
        (c', Inl e) \<Rightarrow> (c', Inl e)
      | (c', Inr w) \<Rightarrow>
          (case h2_encode_all c' gs of (c'', Inl e) \<Rightarrow> (c'', Inl e) | (c'', Inr ws) \<Rightarrow> (c'', Inr (w # ws))))"

lemma h2_encode_wire: "h2_encode c g = (c', Inr w) \<Longrightarrow> w = h2_wire g"
  by (auto simp: h2_encode_def Let_def split: if_splits sum.splits prod.splits)

lemma h2_encode_all_wires: "h2_encode_all c gs = (c', Inr ws) \<Longrightarrow> ws = map h2_wire gs"
  by (induction c gs arbitrary: ws rule: h2_encode_all.induct)
    (auto dest: h2_encode_wire split: prod.splits sum.splits)

lemma h2_settled_new: "new_h2_codec mx srv = Inr c \<Longrightarrow> h2_settled c"
  by (auto simp: new_h2_codec_def h2_settled_def h2_inv_def pending_bytes_def h2_framing.attempt_nil Let_def
      split: if_splits)

lemma pending_new: "new_h2_codec mx srv = Inr c \<Longrightarrow> pending_bytes c = []"
  by (auto simp: new_h2_codec_def pending_bytes_def Let_def split: if_splits)

lemma core_new: "new_h2_codec mx srv = Inr c \<Longrightarrow> core c = c"
  by (auto simp: new_h2_codec_def core_def with_buffer_def Let_def split: if_splits)

section \<open>Traces of accepted frames\<close>

text \<open>The frames a codec returns over any sequence of \<open>feed\<close> and \<open>nextFrame\<close> calls.\<close>

inductive h2_trace :: "h2_codec \<Rightarrow> h2_frame list \<Rightarrow> h2_codec \<Rightarrow> bool" where
  trace_done: "h2_trace c [] c"
| trace_feed: "h2_trace (h2_feed c b) fs c' \<Longrightarrow> h2_trace c fs c'"
| trace_frame: "nextFrame c = (c1, Inr (Some f)) \<Longrightarrow> h2_trace c1 fs c' \<Longrightarrow> h2_trace c (f # fs) c'"

lemma trace_append: "h2_trace c fs c1 \<Longrightarrow> h2_trace c1 gs c' \<Longrightarrow> h2_trace c (fs @ gs) c'"
  by (induction rule: h2_trace.induct) (auto intro: h2_trace.intros)

lemma nextFrame_none: "nextFrame c = (c', Inr None) \<Longrightarrow> c' = c"
  by (auto simp: nextFrame_def Let_def split: if_splits prod.splits sum.splits)

lemma drain_frames_trace: "drain_frames c = (c', fs, err) \<Longrightarrow> \<exists>c1. h2_trace c fs c1 \<and> (err = None \<longrightarrow> c1 = c')"
proof (induction c arbitrary: c' fs err rule: drain_frames.induct)
  case (1 c)
  obtain c0 r where n: "nextFrame c = (c0, r)"
    by (cases "nextFrame c")
  consider e where "r = Inl e" | "r = Inr None" | f where "r = Inr (Some f)"
    by (cases r) auto
  then show ?case
  proof cases
    case 3
    obtain fs' where d: "drain_frames c0 = (c', fs', err)" and fs: "fs = f # fs'"
      using "1.prems" n 3 by (subst (asm) (1) drain_frames.simps) (auto split: prod.splits)
    then show ?thesis
      using "1.IH" [OF n [symmetric] 3 refl d] trace_frame n 3 by blast
  qed (use "1.prems" n nextFrame_none in \<open>subst (asm) drain_frames.simps, auto intro: trace_done\<close>)+
qed

lemma receive_chunks_trace:
  "receive_chunks c chunks = (c', fs, err) \<Longrightarrow> \<exists>c1. h2_trace c fs c1 \<and> (err = None \<longrightarrow> c1 = c')"
proof (induction c chunks arbitrary: fs rule: receive_chunks.induct)
  case (1 c)
  then show ?case by (auto intro: trace_done)
next
  case (2 c b bs)
  obtain c1 fs1 e1 where d: "drain_frames (h2_feed c b) = (c1, fs1, e1)"
    by (cases "drain_frames (h2_feed c b)")
  then obtain t where t: "h2_trace c fs1 t" "e1 = None \<longrightarrow> t = c1"
    using drain_frames_trace [OF d] trace_feed by blast
  show ?case
  proof (cases e1)
    case None
    then obtain fs2 where r: "receive_chunks c1 bs = (c', fs2, err)" and fs: "fs = fs1 @ fs2"
      using "2.prems" d by (auto split: prod.splits)
    then show ?thesis
      using "2.IH" [OF d [symmetric] refl None r] t None trace_append by blast
  next
    case (Some e)
    then show ?thesis
      using "2.prems" d t by auto
  qed
qed

text \<open>What one accepted frame satisfies and does to the header-block and receive state.\<close>

definition next_block :: "int option \<Rightarrow> h2_frame \<Rightarrow> int option" where
  "next_block blk f =
     (if fr_type f = h2_type_num HEADERS \<and> \<not> has_flag (fr_flags f) END_HEADERS then Some (fr_streamId f)
      else if fr_type f = h2_type_num CONTINUATION_FRAME \<and> has_flag (fr_flags f) END_HEADERS then None
      else blk)"

definition data_octets :: "h2_frame \<Rightarrow> int" where
  "data_octets f = (if fr_type f = h2_type_num DATA then int (length (fr_payload f)) else 0)"

lemma consume_Inr: "consume w n = Inr w' \<longleftrightarrow> 0 \<le> n \<and> n \<le> fw_available w \<and> w' = w\<lparr>fw_available := fw_available w - n\<rparr>"
  by (auto simp: consume_def)

lemma streamWindow_fields [h2_simps]:
  "h2_continuationStream (fst (streamWindow c sid)) = h2_continuationStream c"
  "h2_connRecv (fst (streamWindow c sid)) = h2_connRecv c" "h2_connSend (fst (streamWindow c sid)) = h2_connSend c"
  "h2_maxFrameSize (fst (streamWindow c sid)) = h2_maxFrameSize c"
  "h2_continuationStream (set_streamWindow sid w c) = h2_continuationStream c"
  "h2_connRecv (set_streamWindow sid w c) = h2_connRecv c" "h2_connSend (set_streamWindow sid w c) = h2_connSend c"
  "h2_maxFrameSize (set_streamWindow sid w c) = h2_maxFrameSize c"
  by (auto simp: streamWindow_def set_streamWindow_def split: option.split)

lemma streamWindow_same:
  "streamWindow c sid = (d, w) \<Longrightarrow>
     h2_continuationStream d = h2_continuationStream c \<and> h2_connRecv d = h2_connRecv c \<and>
     h2_connSend d = h2_connSend c \<and> h2_maxFrameSize d = h2_maxFrameSize c"
  using streamWindow_fields(1-4) [of c sid] by simp

lemma validate_data_result:
  assumes "validate_data c f = (c', Inr ())"
  shows "h2_continuationStream c' = h2_continuationStream c \<and> h2_maxFrameSize c' = h2_maxFrameSize c \<and>
    int (length (fr_payload f)) \<le> fw_available (h2_connRecv c) \<and>
    fw_available (h2_connRecv c') = fw_available (h2_connRecv c) - int (length (fr_payload f))"
  using assms
  by (auto simp: validate_data_def consume_Inr h2_simps dest: streamWindow_same split: if_splits sum.splits prod.splits)

lemma validate_window_update_result:
  "h2_continuationStream (fst (validate_window_update c f)) = h2_continuationStream c \<and>
   h2_maxFrameSize (fst (validate_window_update c f)) = h2_maxFrameSize c \<and>
   h2_connRecv (fst (validate_window_update c f)) = h2_connRecv c"
  by (auto simp: validate_window_update_def Let_def h2_simps dest: streamWindow_same split: sum.split prod.split)

lemma validate_frame_result:
  assumes "validate_frame c f = (c', Inr ())"
  shows "check_stream c f = None \<and> h2_continuationStream c' = next_block (h2_continuationStream c) f \<and>
    h2_maxFrameSize c' = h2_maxFrameSize c \<and> data_octets f \<le> max 0 (fw_available (h2_connRecv c)) \<and>
    fw_available (h2_connRecv c') = fw_available (h2_connRecv c) - data_octets f"
proof -
  have chk: "check_stream c f = None" and ty: "validate_type c f = (c', Inr ())"
    using assms by (auto simp: validate_frame_def split: option.splits)
  consider "fr_type f = h2_type_num DATA" | "fr_type f = h2_type_num WINDOW_UPDATE" |
    "fr_type f \<noteq> h2_type_num DATA" "fr_type f \<noteq> h2_type_num WINDOW_UPDATE" by blast
  then show ?thesis
  proof cases
    case 1
    then have "validate_data c f = (c', Inr ())"
      using ty by (simp add: validate_type_def)
    from validate_data_result [OF this] 1 chk show ?thesis
      by (simp add: next_block_def data_octets_def)
  next
    case 2
    then have "fst (validate_window_update c f) = c'"
      using ty by (simp add: validate_type_def)
    with validate_window_update_result [of c f] 2 chk show ?thesis
      by (simp add: next_block_def data_octets_def)
  next
    case 3
    then show ?thesis
      using ty chk
      by (auto simp: validate_type_def validate_headers_def next_block_def data_octets_def Let_def split: if_splits)
  qed
qed

lemma compact_fields [h2_simps]:
  "h2_continuationStream (compact c) = h2_continuationStream c" "h2_connRecv (compact c) = h2_connRecv c"
  "h2_maxFrameSize (compact c) = h2_maxFrameSize c" "h2_connSend (compact c) = h2_connSend c"
  "h2_streamWindows (compact c) = h2_streamWindows c"
  by (simp_all add: compact_def)

lemma check_stream_cong: "h2_continuationStream c = h2_continuationStream d \<Longrightarrow> check_stream c f = check_stream d f"
  by (simp add: check_stream_def Let_def)

lemma nextFrame_result:
  assumes "nextFrame c = (c', Inr (Some f))"
  shows "check_stream c f = None \<and> h2_continuationStream c' = next_block (h2_continuationStream c) f \<and>
    h2_maxFrameSize c' = h2_maxFrameSize c \<and> fr_length f \<le> h2_maxFrameSize c \<and>
    length (fr_payload f) = fr_length f \<and> data_octets f \<le> max 0 (fw_available (h2_connRecv c)) \<and>
    fw_available (h2_connRecv c') = fw_available (h2_connRecv c) - data_octets f"
proof -
  define d where "d = compact (c\<lparr>h2_readIdx := h2_readIdx c + (HTTP2_HEADER_BYTES + fr_length f)\<rparr>)"
  have f: "f = frame_at (pending_bytes c)" "fr_length f \<le> h2_maxFrameSize c"
    "HTTP2_HEADER_BYTES + fr_length f \<le> length (pending_bytes c)"
    using assms by (auto simp: nextFrame_def Let_def bytesBuffered_pending simp flip: pending_bytes_def
        split: if_splits prod.splits sum.splits)
  obtain c1 where v: "validate_frame d f = (c1, Inr ())" and c': "c' = c1\<lparr>h2_framesDecoded := h2_framesDecoded c1 + 1\<rparr>"
    using assms by (auto simp: nextFrame_def Let_def d_def simp flip: pending_bytes_def
        split: if_splits prod.splits sum.splits)
  have "length (fr_payload f) = fr_length f"
    using f(3) unfolding f(1) by (simp add: frame_at_def Let_def length_slice HTTP2_HEADER_BYTES_def)
  moreover have "check_stream c f = check_stream d f"
    by (rule check_stream_cong) (simp add: d_def h2_simps)
  ultimately show ?thesis
    using validate_frame_result [OF v] f(2) c' by (simp add: d_def h2_simps)
qed

section \<open>Flow-control credit\<close>

definition window_ok :: "flow_window \<Rightarrow> bool" where
  "window_ok w \<longleftrightarrow> 0 \<le> fw_available w \<and> fw_available w \<le> HTTP2_MAX_WINDOW"

definition windows_ok :: "h2_codec \<Rightarrow> bool" where
  "windows_ok c \<longleftrightarrow>
     window_ok (h2_connSend c) \<and> window_ok (h2_connRecv c) \<and>
     (\<forall>sid w. jmap_get (h2_streamWindows c) sid = Some w \<longrightarrow> window_ok w)"

lemma window_ok_default [simp]: "window_ok default_window"
  by (simp add: window_ok_def default_window_def h2_constants)

lemma window_ok_consume: "window_ok w \<Longrightarrow> consume w n = Inr w' \<Longrightarrow> window_ok w'"
  by (auto simp: window_ok_def consume_Inr)

lemma window_ok_update: "window_ok w \<Longrightarrow> applyWindowUpdate w n sid = Inr (w', r) \<Longrightarrow> window_ok w'"
  by (auto simp: window_ok_def applyWindowUpdate_def Let_def split: if_splits)

lemma windows_ok_update [simp]:
  "windows_ok (c\<lparr>h2_framesDecoded := n\<rparr>) = windows_ok c" "windows_ok (c\<lparr>h2_framesEncoded := n\<rparr>) = windows_ok c"
  "windows_ok (c\<lparr>h2_continuationStream := s\<rparr>) = windows_ok c" "windows_ok (c\<lparr>h2_readIdx := i\<rparr>) = windows_ok c"
  "windows_ok (c\<lparr>h2_nextStreamId := k\<rparr>) = windows_ok c" "windows_ok (h2_feed c b) = windows_ok c"
  "windows_ok (compact c) = windows_ok c"
  by (auto simp: windows_ok_def h2_feed_def compact_def)

lemma windows_ok_conn [intro]:
  "windows_ok c \<Longrightarrow> window_ok w \<Longrightarrow> windows_ok (c\<lparr>h2_connSend := w\<rparr>)"
  "windows_ok c \<Longrightarrow> window_ok w \<Longrightarrow> windows_ok (c\<lparr>h2_connRecv := w\<rparr>)"
  "windows_ok c \<Longrightarrow> window_ok w \<Longrightarrow> windows_ok (set_streamWindow sid w c)"
  by (auto simp: windows_ok_def set_streamWindow_def jmap_get_set split: if_splits)

lemma windows_ok_streamWindow: "windows_ok c \<Longrightarrow> streamWindow c sid = (d, w) \<Longrightarrow> windows_ok d \<and> window_ok w"
  by (auto simp: windows_ok_def streamWindow_def jmap_get_set split: option.splits if_splits)

lemma windows_okD: "windows_ok c \<Longrightarrow> window_ok (h2_connSend c)" "windows_ok c \<Longrightarrow> window_ok (h2_connRecv c)"
  by (simp_all add: windows_ok_def)

text \<open>Credit is taken from a connection window and then from the stream's: the tail both \<open>_validate\<close> and
  \<open>encode\<close> share.\<close>

lemma windows_ok_stream_consume:
  "windows_ok c \<Longrightarrow> streamWindow c sid = (d, w) \<Longrightarrow> consume w n = Inr w' \<Longrightarrow> windows_ok (set_streamWindow sid w' d)"
  using windows_ok_streamWindow window_ok_consume by blast

lemma windows_ok_validate_data: "windows_ok c \<Longrightarrow> windows_ok (fst (validate_data c f))"
proof -
  assume ok: "windows_ok c"
  show ?thesis
  proof (cases "consume (h2_connRecv c) (int (length (fr_payload f)))")
    case (Inr conn)
    then have "windows_ok (c\<lparr>h2_connRecv := conn\<rparr>)"
      using ok windows_okD(2) window_ok_consume by blast
    then show ?thesis
      using ok Inr by (auto simp: validate_data_def split: prod.split sum.split
          dest: windows_ok_streamWindow intro: windows_ok_stream_consume)
  qed (use ok in \<open>simp add: validate_data_def\<close>)
qed

lemma windows_ok_validate_window_update: "windows_ok c \<Longrightarrow> windows_ok (fst (validate_window_update c f))"
  by (auto simp: validate_window_update_def Let_def windows_okD split: sum.split prod.split
      dest: windows_ok_streamWindow window_ok_update [rotated] intro!: windows_ok_conn)

lemma windows_ok_validate_frame: "windows_ok c \<Longrightarrow> windows_ok (fst (validate_frame c f))"
  by (auto simp: validate_frame_def validate_type_def validate_headers_def Let_def windows_ok_validate_data
      windows_ok_validate_window_update split: option.split)

lemma windows_ok_nextFrame: "windows_ok c \<Longrightarrow> windows_ok (fst (nextFrame c))"
proof -
  assume ok: "windows_ok c"
  let ?f = "frame_at (pending_bytes c)"
  let ?c = "compact (c\<lparr>h2_readIdx := h2_readIdx c + (HTTP2_HEADER_BYTES + fr_length ?f)\<rparr>)"
  have "windows_ok (fst (validate_frame ?c ?f))"
    using ok by (intro windows_ok_validate_frame) simp
  then show ?thesis
    using ok by (auto simp: nextFrame_def Let_def simp flip: pending_bytes_def split: prod.splits sum.splits)
qed

lemma windows_ok_encode: "windows_ok c \<Longrightarrow> windows_ok (fst (h2_encode c f))"
proof -
  assume ok: "windows_ok c"
  show ?thesis
  proof (cases "consume (h2_connSend c) (int (length (fr_payload f)))")
    case (Inr conn)
    then have "windows_ok (c\<lparr>h2_connSend := conn\<rparr>)"
      using ok windows_okD(1) window_ok_consume by blast
    then show ?thesis
      using ok Inr by (auto simp: h2_encode_def Let_def split: prod.split sum.split
          dest: windows_ok_streamWindow intro: windows_ok_stream_consume)
  qed (use ok in \<open>simp add: h2_encode_def Let_def\<close>)
qed

text \<open>The codec's methods as a machine.\<close>

datatype h2_op =
    Feed "byte list"
  | NextFrame
  | Encode h2_frame
  | EncodeSettings "(nat, nat) jmap" bool
  | EncodeWindowUpdate int int
  | NextStreamId
  | StreamWindow int

fun h2_step :: "h2_codec \<Rightarrow> h2_op \<Rightarrow> h2_codec" where
  "h2_step c (Feed b) = h2_feed c b"
| "h2_step c NextFrame = fst (nextFrame c)"
| "h2_step c (Encode f) = fst (h2_encode c f)"
| "h2_step c (EncodeSettings m ack) = fst (encodeSettings c m ack)"
| "h2_step c (EncodeWindowUpdate sid n) = fst (encodeWindowUpdate c sid n)"
| "h2_step c NextStreamId = fst (nextOutboundStreamId c)"
| "h2_step c (StreamWindow sid) = fst (streamWindow c sid)"

lemma windows_ok_step: "windows_ok c \<Longrightarrow> windows_ok (h2_step c e)"
  using windows_ok_streamWindow
  by (cases e) (auto simp: windows_ok_nextFrame windows_ok_encode encodeSettings_def encodeWindowUpdate_def
      nextOutboundStreamId_def Let_def prod_eq_iff)

lemma recv_encode: "h2_connRecv (fst (h2_encode c f)) = h2_connRecv c"
  by (auto simp: h2_encode_def Let_def h2_simps dest: streamWindow_same split: prod.split sum.split)

lemma recv_validate_data:
  "windows_ok c \<Longrightarrow> fw_available (h2_connRecv (fst (validate_data c f))) \<le> fw_available (h2_connRecv c)"
  by (auto simp: validate_data_def consume_Inr h2_simps dest: streamWindow_same split: prod.split sum.split)

lemma recv_nextFrame: "windows_ok c \<Longrightarrow> fw_available (h2_connRecv (fst (nextFrame c))) \<le> fw_available (h2_connRecv c)"
proof -
  assume ok: "windows_ok c"
  let ?f = "frame_at (pending_bytes c)"
  let ?c = "compact (c\<lparr>h2_readIdx := h2_readIdx c + (HTTP2_HEADER_BYTES + fr_length ?f)\<rparr>)"
  have "windows_ok ?c"
    using ok by simp
  then have "fw_available (h2_connRecv (fst (validate_frame ?c ?f))) \<le> fw_available (h2_connRecv ?c)"
    using recv_validate_data validate_window_update_result [of ?c ?f]
    by (auto simp: validate_frame_def validate_type_def validate_headers_def Let_def split: option.split)
  then show ?thesis
    by (auto simp: nextFrame_def Let_def h2_simps simp flip: pending_bytes_def split: prod.splits sum.splits)
qed

interpretation h2_credit: lifecycle h2_step windows_ok "\<lambda>c. - fw_available (h2_connRecv c)"
proof
  show "windows_ok s \<Longrightarrow> windows_ok (h2_step s e)" for s e
    by (rule windows_ok_step)
  show "windows_ok s \<Longrightarrow> - fw_available (h2_connRecv s) \<le> - fw_available (h2_connRecv (h2_step s e))" for s e
    by (cases e) (auto simp: recv_nextFrame recv_encode encodeSettings_def encodeWindowUpdate_def
        nextOutboundStreamId_def Let_def h2_feed_def h2_simps)
qed

lemma windows_ok_new: "new_h2_codec mx srv = Inr c \<Longrightarrow> windows_ok c"
  by (auto simp: new_h2_codec_def windows_ok_def Let_def split: if_splits)

section \<open>Properties\<close>

text \<open>
  C6: HTTP/2 decoding does not depend on the TCP segmentation: however a byte stream is cut, the
  loop over \<open>feed\<close> and \<open>nextFrame\<close> returns the same frames and the same error, and when there is no
  error it ends in the same state with the same unread bytes, whenever the buffer was compacted.
\<close>

theorem h2_any_segmentation:
  assumes "new_h2_codec mx srv = Inr c" and "concat chunks = concat chunks'"
  shows "\<exists>c1 c2 fs err. receive_chunks c chunks = (c1, fs, err) \<and> receive_chunks c chunks' = (c2, fs, err) \<and>
    (err = None \<longrightarrow> core c1 = core c2 \<and> pending_bytes c1 = pending_bytes c2 \<and> h2_bytesFed c1 = h2_bytesFed c2)"
proof -
  obtain s fs rest err where d: "drain_with h2_attempt (core c) (pending_bytes c @ concat chunks) = (s, fs, rest, err)"
    by (cases "drain_with h2_attempt (core c) (pending_bytes c @ concat chunks)")
  with receive_chunks_refines [OF h2_settled_new [OF assms(1)] d]
    receive_chunks_refines [OF h2_settled_new [OF assms(1)], of chunks' s fs rest err] assms(2)
  show ?thesis by auto
qed

theorem h2_any_segmentation_witness:
  "\<exists>c1 c2 fs err. receive_chunks (projr (new_h2_codec None None)) [[0, 0], [0, 4, 0, 0, 0], [0, 0, 0]] = (c1, fs, err) \<and>
    receive_chunks (projr (new_h2_codec None None)) [[0, 0, 0, 4, 0, 0, 0, 0, 0, 0]] = (c2, fs, err)"
proof -
  have "new_h2_codec None None = Inr (projr (new_h2_codec None None))"
    by (simp add: new_h2_codec_def h2_constants)
  from h2_any_segmentation [OF this, of "[[0, 0], [0, 4, 0, 0, 0], [0, 0, 0]]" "[[0, 0, 0, 4, 0, 0, 0, 0, 0, 0]]"]
  show ?thesis by auto
qed

text \<open>
  Frames one codec encodes, another decodes: the receiver that accepts them returns the same
  frames in order, with type and flags reduced to octets, and keeps no byte, for every segmentation.
\<close>

theorem h2_encode_decode_roundtrip:
  assumes "h2_encode_all c gs = (c', Inr ws)" and "new_h2_codec mx srv = Inr r"
    and "chain_ok h2_accepts h2_after r gs" and "concat chunks = concat ws"
  shows "\<exists>r'. receive_chunks r chunks = (r', map h2_seen gs, None) \<and> pending_bytes r' = []"
proof -
  have "drain_with h2_attempt (core r) (pending_bytes r @ concat chunks) =
      (foldl h2_after r gs, map h2_seen gs, [], None)"
    using h2_framing.drain_encode [OF assms(3)] h2_encode_all_wires [OF assms(1)] assms(2,4)
    by (simp add: core_new pending_new)
  from receive_chunks_refines [OF h2_settled_new [OF assms(2)] this] show ?thesis
    by auto
qed

definition sample_codec :: h2_codec where
  "sample_codec = projr (new_h2_codec (Some 16384) (Some True))"

lemma sample_codec_new: "new_h2_codec (Some 16384) (Some True) = Inr sample_codec"
  by (simp add: sample_codec_def new_h2_codec_def h2_constants)

lemmas sample_codec_simps =
  sample_codec_def new_h2_codec_def h2_constants default_window_def streamWindow_def set_streamWindow_def
  consume_def Let_def outgoing_def

theorem h2_encode_decode_roundtrip_witness:
  "\<exists>r'. receive_chunks sample_codec [[0, 0, 2, 0, 1, 0], [0, 0, 1, 7], [8]] =
      (r', [outgoing DATA 1 1 [7, 8]], None) \<and> pending_bytes r' = []"
proof -
  let ?g = "outgoing DATA 1 1 [7, 8]"
  have "\<exists>c'. h2_encode_all sample_codec [?g] = (c', Inr [[0, 0, 2, 0, 1, 0, 0, 0, 1, 7, 8]])"
    by (simp add: h2_encode_def h2_wire_def be_bytes_3 be_bytes_4 sample_codec_simps)
  then obtain c' where "h2_encode_all sample_codec [?g] = (c', Inr [[0, 0, 2, 0, 1, 0, 0, 0, 1, 7, 8]])" ..
  moreover have "chain_ok h2_accepts h2_after sample_codec [?g]"
    by (simp add: h2_accepts_def validate_frame_def check_stream_def validate_type_def validate_data_def padding_error_def
        has_flag_def PADDED_def h2_seen_def CONNECTION_LEVEL_def sample_codec_simps)
  ultimately show ?thesis
    using h2_encode_decode_roundtrip [OF _ sample_codec_new, of sample_codec "[?g]" c'
        "[[0, 0, 2, 0, 1, 0, 0, 0, 1, 7, 8]]" "[[0, 0, 2, 0, 1, 0], [0, 0, 1, 7], [8]]"]
    by (simp add: h2_seen_def outgoing_def)
qed

lemma triple_eq: "r = (fst r, fst (snd r), snd (snd r))"
  by simp

text \<open>The order of header blocks, as a check over the accepted frames.\<close>

fun header_blocks_ok :: "int option \<Rightarrow> h2_frame list \<Rightarrow> bool" where
  "header_blocks_ok blk [] = True"
| "header_blocks_ok blk (f # fs) =
     ((case blk of None \<Rightarrow> True | Some s \<Rightarrow> fr_type f = h2_type_num CONTINUATION_FRAME \<and> fr_streamId f = s) \<and>
      header_blocks_ok (next_block blk f) fs)"

definition frame_placed :: "nat \<Rightarrow> h2_frame \<Rightarrow> bool" where
  "frame_placed limit f \<longleftrightarrow>
     length (fr_payload f) = fr_length f \<and> fr_length f \<le> limit \<and>
     (fr_type f \<in> set CONNECTION_LEVEL \<longrightarrow> fr_streamId f = 0) \<and>
     (fr_streamId f = 0 \<longrightarrow> fr_type f \<in> set CONNECTION_LEVEL \<or> fr_type f = h2_type_num WINDOW_UPDATE)"

lemma trace_valid:
  "h2_trace c fs c' \<Longrightarrow>
     header_blocks_ok (h2_continuationStream c) fs \<and> (\<forall>f \<in> set fs. frame_placed (h2_maxFrameSize c) f)"
proof (induction rule: h2_trace.induct)
  case (trace_frame c c1 f fs c')
  have "frame_placed (h2_maxFrameSize c) f \<and>
      (case h2_continuationStream c of None \<Rightarrow> True
       | Some s \<Rightarrow> fr_type f = h2_type_num CONTINUATION_FRAME \<and> fr_streamId f = s)"
    using nextFrame_result [OF trace_frame.hyps(1)]
    by (auto simp: frame_placed_def check_stream_def Let_def split: if_splits option.splits)
  then show ?case
    using nextFrame_result [OF trace_frame.hyps(1)] trace_frame.IH by simp
qed (simp_all add: h2_feed_def)

text \<open>
  Every frame the decoder returns is well placed: its payload has the announced length within
  the limit, connection-level frames are on stream 0 and all others but WINDOW_UPDATE are not, and
  between a HEADERS frame without END_HEADERS and the end of its block only CONTINUATION frames of
  its stream come.
\<close>

theorem h2_accepted_frames_valid:
  assumes "new_h2_codec mx srv = Inr c" and "receive_chunks c chunks = (c', fs, err)"
  shows "header_blocks_ok None fs \<and> (\<forall>f \<in> set fs. frame_placed (h2_maxFrameSize c) f)"
proof -
  have "h2_continuationStream c = None"
    using assms(1) by (auto simp: new_h2_codec_def Let_def split: if_splits)
  moreover obtain c1 where "h2_trace c fs c1"
    using receive_chunks_trace [OF assms(2)] by blast
  ultimately show ?thesis
    using trace_valid [of c fs c1] by simp
qed

theorem h2_accepted_frames_valid_witness:
  "header_blocks_ok None (fst (snd (receive_chunks sample_codec [[0, 0, 0, 1, 0, 0, 0, 0, 3]]))) \<and>
   list_all (frame_placed (h2_maxFrameSize sample_codec))
     (fst (snd (receive_chunks sample_codec [[0, 0, 0, 1, 0, 0, 0, 0, 3]])))"
  unfolding list_all_iff by (rule h2_accepted_frames_valid [OF sample_codec_new]) (rule triple_eq)

text \<open>
  C38: flow-control windows stay between 0 and 2^31-1 in every run of the codec's methods, also
  after calls that threw, and the connection's receive window is never refilled by any of them.
\<close>

theorem h2_windows_bounded:
  assumes "new_h2_codec mx srv = Inr c"
  shows "windows_ok (foldl h2_step c es) \<and>
    fw_available (h2_connRecv (foldl h2_step c (es @ es'))) \<le> fw_available (h2_connRecv (foldl h2_step c es))"
  using h2_credit.inv_run [OF windows_ok_new [OF assms], of es]
    h2_credit.phase_run [OF h2_credit.inv_run [OF windows_ok_new [OF assms]], of es es']
  by simp

theorem h2_windows_bounded_witness:
  "windows_ok (foldl h2_step sample_codec [EncodeWindowUpdate 0 5]) \<and>
   fw_available (h2_connRecv (foldl h2_step sample_codec ([EncodeWindowUpdate 0 5] @ [Feed [1], NextFrame]))) \<le>
     fw_available (h2_connRecv (foldl h2_step sample_codec [EncodeWindowUpdate 0 5]))"
  by (rule h2_windows_bounded [OF sample_codec_new])

lemma trace_data_credit:
  "h2_trace c fs c' \<Longrightarrow> 0 \<le> fw_available (h2_connRecv c) \<Longrightarrow>
     sum_list (map data_octets fs) + fw_available (h2_connRecv c') = fw_available (h2_connRecv c) \<and>
     0 \<le> fw_available (h2_connRecv c')"
proof (induction rule: h2_trace.induct)
  case (trace_frame c c1 f fs c')
  then show ?case
    using nextFrame_result [OF trace_frame.hyps(1)] by simp
qed (simp_all add: h2_feed_def)

text \<open>
  The receive credit of a connection is for its lifetime: over all chunks ever fed, a codec
  accepts at most 65535 octets of DATA payload, because no method gives credit back.
\<close>

theorem h2_recv_credit_lifetime:
  assumes "new_h2_codec mx srv = Inr c" and "receive_chunks c chunks = (c', fs, err)"
  shows "sum_list (map data_octets fs) \<le> 65535"
proof -
  have "fw_available (h2_connRecv c) = 65535"
    using assms(1) by (auto simp: new_h2_codec_def default_window_def HTTP2_DEFAULT_WINDOW_def Let_def split: if_splits)
  moreover obtain c1 where "h2_trace c fs c1"
    using receive_chunks_trace [OF assms(2)] by blast
  ultimately show ?thesis
    using trace_data_credit [of c fs c1] by simp
qed

theorem h2_recv_credit_lifetime_witness:
  "sum_list (map data_octets (fst (snd (receive_chunks sample_codec [[0, 0, 1, 0, 0], [0, 0, 0, 3, 9]])))) \<le> 65535"
  by (rule h2_recv_credit_lifetime [OF sample_codec_new]) (rule triple_eq)

text \<open>
  One window per stream serves both directions: the octets sent on a stream are missing from
  what may be received on it, so after sending DATA a peer that respects its own full window is
  refused with FLOW_CONTROL_ERROR.
\<close>

theorem h2_stream_credit_shared:
  assumes "h2_encode c g = (c', Inr w)" and "fr_type g = h2_type_num DATA"
    and "fr_type f = h2_type_num DATA" and "fr_streamId f = fr_streamId g" and "fr_streamId g \<noteq> 0"
    and "\<not> has_flag (fr_flags f) PADDED" and "h2_continuationStream c = None"
    and "int (length (fr_payload f)) \<le> fw_available (h2_connRecv c)"
    and "fw_available (snd (streamWindow c (fr_streamId g))) < int (length (fr_payload g)) + int (length (fr_payload f))"
  shows "snd (validate_frame c' f) = Inl (Http2ProtocolError FLOW_CONTROL_ERROR 0)"
proof -
  have recv: "h2_connRecv c' = h2_connRecv c"
    using recv_encode [of c g] assms(1) by simp
  have cont: "h2_continuationStream c' = None"
    using assms(1,7) by (auto simp: h2_encode_def Let_def h2_simps dest: streamWindow_same
        split: if_splits sum.splits prod.splits)
  obtain w' where w': "jmap_get (h2_streamWindows c') (fr_streamId g) = Some w'"
    "fw_available w' = fw_available (snd (streamWindow c (fr_streamId g))) - int (length (fr_payload g))"
    using assms(1,2)
    by (auto simp: h2_encode_def Let_def consume_Inr set_streamWindow_def streamWindow_def
        split: if_splits sum.splits prod.splits option.splits)
  have "check_stream c' f = None"
    using assms cont by (simp add: check_stream_def Let_def CONNECTION_LEVEL_def)
  moreover have "consume w' (int (length (fr_payload f))) = Inl (Http2ProtocolError FLOW_CONTROL_ERROR 0)"
    using w'(2) assms(9) by (simp add: consume_def)
  moreover have "jmap_get (h2_streamWindows (c'\<lparr>h2_connRecv := r\<rparr>)) (fr_streamId g) = Some w'" for r
    using w'(1) by simp
  ultimately show ?thesis
    using assms(3-6,8) recv w'(1)
    by (simp add: validate_frame_def validate_type_def validate_data_def padding_error_def consume_def
        streamWindow_def)
qed

lemma sample_stream: "streamWindow sample_codec 1 =
   (sample_codec\<lparr>h2_streamWindows := [(1, default_window)]\<rparr>, default_window)"
  by (simp add: sample_codec_simps jmap_get_def jmap_set_def jmap_empty_def)

theorem h2_stream_credit_shared_witness:
  "snd (validate_frame
     (fst (h2_encode (sample_codec\<lparr>h2_maxFrameSize := 60000\<rparr>) (outgoing DATA 0 1 (replicate 60000 0))))
     (outgoing DATA 0 1 (replicate 10000 0))) = Inl (Http2ProtocolError FLOW_CONTROL_ERROR 0)"
proof -
  let ?c = "sample_codec\<lparr>h2_maxFrameSize := 60000\<rparr>"
  have "snd (h2_encode ?c (outgoing DATA 0 1 (replicate 60000 0))) = Inr (h2_wire (outgoing DATA 0 1 (replicate 60000 0)))"
    by (simp add: h2_encode_def sample_codec_simps jmap_get_def jmap_empty_def)
  then have "h2_encode ?c (outgoing DATA 0 1 (replicate 60000 0)) =
      (fst (h2_encode ?c (outgoing DATA 0 1 (replicate 60000 0))), Inr (h2_wire (outgoing DATA 0 1 (replicate 60000 0))))"
    by (simp add: prod_eq_iff)
  then show ?thesis
    by (rule h2_stream_credit_shared)
      (simp_all add: sample_codec_simps has_flag_def jmap_get_def jmap_empty_def)
qed

fun stream_ids :: "nat \<Rightarrow> h2_codec \<Rightarrow> nat list" where
  "stream_ids 0 c = []"
| "stream_ids (Suc n) c = (let (c', id) = nextOutboundStreamId c in id # stream_ids n c')"

lemma stream_ids_from:
  "h2_nextStreamId c = Some k \<Longrightarrow> stream_ids n c = map (\<lambda>i. k + 2 * i) [0..<n]"
proof (induction n arbitrary: c k)
  case (Suc n)
  then show ?case
    by (simp add: nextOutboundStreamId_def Let_def upt_conv_Cons map_Suc_upt [symmetric] del: upt_Suc)
qed simp

text \<open>
  The ids an endpoint opens are distinct and of its side's parity: the first \<open>n\<close> calls of
  \<open>nextOutboundStreamId\<close> return 2, 4, 6, ... on a server and 1, 3, 5, ... on a client.
\<close>

theorem h2_stream_ids_parity:
  assumes "new_h2_codec mx (Some server) = Inr c"
  shows "stream_ids n c = map (\<lambda>i. (if server then 2 else 1) + 2 * i) [0..<n]"
proof -
  have c: "h2_nextStreamId c = None" "h2_server c = server"
    using assms by (auto simp: new_h2_codec_def Let_def split: if_splits)
  show ?thesis
  proof (cases n)
    case (Suc m)
    have "stream_ids m (fst (nextOutboundStreamId c)) = map (\<lambda>i. (if server then 4 else 3) + 2 * i) [0..<m]"
      by (rule stream_ids_from) (simp add: nextOutboundStreamId_def Let_def c)
    then show ?thesis
      by (simp add: Suc nextOutboundStreamId_def Let_def c upt_conv_Cons map_Suc_upt [symmetric] del: upt_Suc)
  qed simp
qed

theorem h2_stream_ids_parity_witness: "stream_ids 3 sample_codec = [2, 4, 6]"
  using h2_stream_ids_parity [OF sample_codec_new, of 3] by (simp add: upt_rec)

text \<open>What an endpoint may still send on a stream, or on the connection for id 0.\<close>

definition send_credit :: "h2_codec \<Rightarrow> int \<Rightarrow> int" where
  "send_credit c sid =
     (if sid = 0 then fw_available (h2_connSend c) else fw_available (snd (streamWindow c sid)))"

lemma send_credit_decoded [simp]: "send_credit (c\<lparr>h2_framesDecoded := k\<rparr>) sid = send_credit c sid"
  by (simp add: send_credit_def streamWindow_def split: option.split)

lemma window_update_seen:
  assumes "0 < n" "n \<le> HTTP2_MAX_WINDOW"
  shows "int (be_val (case be_bytes 4 (nat n) of [a, b, c, d] \<Rightarrow> [a AND 0x7f, b, c, d])) = n"
proof -
  obtain k where "n = int k"
    using assms(1) by (metis less_imp_le nonneg_int_cases)
  then show ?thesis
    using be_val_31 [of k] assms by (simp add: be_bytes_4 HTTP2_MAX_WINDOW_def)
qed

lemma validate_window_update_exact:
  assumes "0 < n" "n \<le> HTTP2_MAX_WINDOW" "send_credit r sid + n \<le> HTTP2_MAX_WINDOW"
    and f: "fr_payload f = be_bytes 4 (nat n)" "fr_streamId f = sid"
  shows "snd (validate_window_update r f) = Inr () \<and>
    send_credit (fst (validate_window_update r f)) sid = send_credit r sid + n"
proof -
  obtain a b c d where bs: "be_bytes 4 (nat n) = [a, b, c, d]"
    by (simp add: be_bytes_4)
  have val: "int (be_val [a AND 0x7f, b, c, d]) = n"
    using window_update_seen [OF assms(1,2)] bs by simp
  have apply': "applyWindowUpdate w n s = Inr (w\<lparr>fw_available := fw_available w + n\<rparr>, n, fw_available w + n)"
    if "fw_available w + n \<le> HTTP2_MAX_WINDOW" for w s
    using that assms(1) by (simp add: applyWindowUpdate_def Let_def)
  show ?thesis
  proof (cases "sid = 0")
    case True
    then show ?thesis
      using assms(3) f bs val apply' by (simp add: validate_window_update_def Let_def send_credit_def)
  next
    case False
    obtain r' w where sw: "streamWindow r sid = (r', w)"
      by (cases "streamWindow r sid")
    then show ?thesis
      using False assms(3) f bs val apply'
      by (simp add: validate_window_update_def Let_def send_credit_def)
        (simp add: streamWindow_def set_streamWindow_def)
  qed
qed

text \<open>
  WINDOW_UPDATE carries credit exactly: when the frame \<open>encodeWindowUpdate\<close> writes reaches a
  peer between header blocks, the peer's send credit on that stream, or on the connection for id 0,
  grows by exactly the increment, up to the 2^31-1 ceiling.
\<close>

theorem h2_window_update_exact:
  assumes enc: "encodeWindowUpdate c sid n = (c', Inr w)" and new: "new_h2_codec (Some mx) srv = Inr r" "4 \<le> mx"
    and ceiling: "65535 + n \<le> HTTP2_MAX_WINDOW"
  shows "\<exists>r' f. receive_chunks r [w] = (r', [f], None) \<and> send_credit r' sid = 65535 + n"
proof -
  let ?g = "outgoing WINDOW_UPDATE 0 sid (be_bytes 4 (nat n))"
  have n: "0 < n" "n \<le> HTTP2_MAX_WINDOW" and w: "w = h2_wire ?g"
    and sid: "0 \<le> sid" "sid \<le> HTTP2_MAX_WINDOW"
    using enc by (auto simp: encodeWindowUpdate_def h2_encode_def Let_def outgoing_def split: if_splits
        dest: h2_encode_wire)
  have r: "h2_continuationStream r = None" "h2_maxFrameSize r = mx" "mx \<le> HTTP2_ABSOLUTE_MAX_FRAME"
    "send_credit r sid = 65535"
    using new(1) by (auto simp: new_h2_codec_def Let_def send_credit_def streamWindow_def default_window_def
        HTTP2_DEFAULT_WINDOW_def split: if_splits)
  have seen: "h2_seen ?g = ?g"
    by (simp add: h2_seen_def outgoing_def)
  have "check_stream r ?g = None"
    using r(1) by (simp add: check_stream_def outgoing_def CONNECTION_LEVEL_def)
  then have v: "validate_frame r ?g = validate_window_update r ?g"
    by (simp add: validate_frame_def validate_type_def outgoing_def)
  have upd: "snd (validate_window_update r ?g) = Inr ()"
    "send_credit (fst (validate_window_update r ?g)) sid = 65535 + n"
    using validate_window_update_exact [OF n, of r sid ?g] ceiling r(4) by (simp_all add: outgoing_def)
  have "h2_accepts r ?g"
    using v upd(1) r new(2) sid by (simp add: h2_accepts_def seen) (simp add: outgoing_def)
  then have "drain_with h2_attempt (core r) (pending_bytes r @ concat [w]) = (h2_after r ?g, [?g], [], None)"
    using h2_framing.drain_encode [of r "[?g]"] w by (simp add: core_new [OF new(1)] pending_new [OF new(1)] seen)
  from receive_chunks_refines [OF h2_settled_new [OF new(1)] this] obtain r' where
    r': "receive_chunks r [w] = (r', [?g], None)" "core r' = h2_after r ?g"
    by auto
  have "send_credit r' sid = send_credit (core r') sid"
    by (simp add: send_credit_def core_def h2_simps)
  also have "\<dots> = 65535 + n"
    using upd(2) by (simp add: r'(2) h2_after_def seen v Let_def)
  finally show ?thesis
    using r'(1) by blast
qed

theorem h2_window_update_exact_witness:
  "\<exists>r' f. receive_chunks sample_codec [h2_wire (outgoing WINDOW_UPDATE 0 3 (be_bytes 4 1000))] = (r', [f], None) \<and>
     send_credit r' 3 = 66535"
proof -
  have "encodeWindowUpdate sample_codec 3 1000 =
      (fst (encodeWindowUpdate sample_codec 3 1000), Inr (h2_wire (outgoing WINDOW_UPDATE 0 3 (be_bytes 4 1000))))"
    by (simp add: encodeWindowUpdate_def h2_encode_def sample_codec_simps)
  from h2_window_update_exact [OF this sample_codec_new] show ?thesis
    by (simp add: HTTP2_MAX_WINDOW_def)
qed

end
