(* ===== verification/SagaLog.thy ===== *)
theory SagaLog
  imports Interfaces
begin

text \<open>
  The saga log (\<open>saga/engine/SagaLog.ts\<close>) and the saga types (\<open>saga/engine/types.ts\<close>): the
  append-only list of entries with its per-saga index, and the folds over one saga's history.
  The index is refined against its specification: \<open>forSaga\<close> is the sublist of a saga's entries.
\<close>

section \<open>Lifecycle\<close>

datatype saga_lifecycle = Started | Running | Compensating | Completed | Compensated | Failed

fun LEGAL_TRANSITIONS :: "saga_lifecycle \<Rightarrow> saga_lifecycle list" where
  "LEGAL_TRANSITIONS Started = [Running, Failed]"
| "LEGAL_TRANSITIONS Running = [Completed, Compensating, Failed]"
| "LEGAL_TRANSITIONS Compensating = [Compensated, Failed]"
| "LEGAL_TRANSITIONS Completed = []"
| "LEGAL_TRANSITIONS Compensated = []"
| "LEGAL_TRANSITIONS Failed = []"

definition terminal :: "saga_lifecycle \<Rightarrow> bool" where
  "terminal s \<longleftrightarrow> LEGAL_TRANSITIONS s = []"

fun lifecycle_name :: "saga_lifecycle \<Rightarrow> jstring" where
  "lifecycle_name Started = js ''started''"
| "lifecycle_name Running = js ''running''"
| "lifecycle_name Compensating = js ''compensating''"
| "lifecycle_name Completed = js ''completed''"
| "lifecycle_name Compensated = js ''compensated''"
| "lifecycle_name Failed = js ''failed''"

section \<open>Entries\<close>

datatype log_kind =
  StateEntry | StepStarted | StepSucceeded | StepFailed | StepRetrying | StepTimedOut | CompensatedStep | CompensationFailed

fun kind_name :: "log_kind \<Rightarrow> jstring" where
  "kind_name StateEntry = js ''state''"
| "kind_name StepStarted = js ''step_started''"
| "kind_name StepSucceeded = js ''step_succeeded''"
| "kind_name StepFailed = js ''step_failed''"
| "kind_name StepRetrying = js ''step_retrying''"
| "kind_name StepTimedOut = js ''step_timed_out''"
| "kind_name CompensatedStep = js ''compensated_step''"
| "kind_name CompensationFailed = js ''compensation_failed''"

record log_entry =
  le_seq :: nat
  le_sagaId :: jstring
  le_at :: nat
  le_kind :: log_kind
  le_state :: "saga_lifecycle option"
  le_step :: "jstring option"
  le_detail :: "jstring option"

record saga_log =
  sl_entries :: "log_entry list"
  sl_bySaga :: "(jstring, nat list) jmap"
  sl_seq :: nat

definition new_saga_log :: saga_log where
  "new_saga_log = \<lparr>sl_entries = [], sl_bySaga = jmap_empty, sl_seq = 0\<rparr>"

section \<open>Operations\<close>

definition log_append ::
  "saga_log \<Rightarrow> jstring \<Rightarrow> nat \<Rightarrow> log_kind \<Rightarrow> saga_lifecycle option \<Rightarrow> jstring option \<Rightarrow> jstring option \<Rightarrow>
     saga_log \<times> log_entry" where
  "log_append log sagaId at kind state step detail =
     (let e = \<lparr>le_seq = sl_seq log, le_sagaId = sagaId, le_at = at, le_kind = kind, le_state = state,
              le_step = step, le_detail = detail\<rparr>;
          idx = (case jmap_get (sl_bySaga log) sagaId of Some idx \<Rightarrow> idx | None \<Rightarrow> [])
      in
      (\<lparr>sl_entries = sl_entries log @ [e], sl_bySaga = jmap_set sagaId (idx @ [le_seq e]) (sl_bySaga log),
        sl_seq = sl_seq log + 1\<rparr>, e))"

definition forSaga :: "saga_log \<Rightarrow> jstring \<Rightarrow> log_entry list" where
  "forSaga log sagaId =
     map (\<lambda>i. sl_entries log ! i) (case jmap_get (sl_bySaga log) sagaId of Some idx \<Rightarrow> idx | None \<Rightarrow> [])"

text \<open>The backward loop of \<open>latestState\<close>, over the reversed index.\<close>

fun latest_loop :: "saga_log \<Rightarrow> nat list \<Rightarrow> saga_lifecycle option" where
  "latest_loop log [] = None"
| "latest_loop log (i # idx) =
     (let e = sl_entries log ! i in
      if le_kind e = StateEntry \<and> le_state e \<noteq> None then le_state e else latest_loop log idx)"

definition latestState :: "saga_log \<Rightarrow> jstring \<Rightarrow> saga_lifecycle option" where
  "latestState log sagaId =
     (case jmap_get (sl_bySaga log) sagaId of None \<Rightarrow> None | Some idx \<Rightarrow> latest_loop log (rev idx))"

record saga_replay =
  rp_state :: saga_lifecycle
  rp_completedSteps :: "jstring list"
  rp_compensatedSteps :: "jstring list"

text \<open>\<open>Set.add\<close>: a value already present keeps its place. An empty step name is falsy.\<close>

definition set_add :: "'a \<Rightarrow> 'a list \<Rightarrow> 'a list" where
  "set_add x xs = (if x \<in> set xs then xs else xs @ [x])"

definition add_step :: "jstring option \<Rightarrow> jstring list \<Rightarrow> jstring list" where
  "add_step step xs = (case step of Some s \<Rightarrow> if s = [] then xs else set_add s xs | None \<Rightarrow> xs)"

definition replay_entry :: "saga_replay \<Rightarrow> log_entry \<Rightarrow> saga_replay" where
  "replay_entry r e =
     (let r = (case le_state e of Some s \<Rightarrow> if le_kind e = StateEntry then r\<lparr>rp_state := s\<rparr> else r | None \<Rightarrow> r);
          r = (if le_kind e = StepSucceeded
               then r\<lparr>rp_completedSteps := add_step (le_step e) (rp_completedSteps r)\<rparr> else r)
      in
      if le_kind e = CompensatedStep
      then r\<lparr>rp_compensatedSteps := add_step (le_step e) (rp_compensatedSteps r)\<rparr> else r)"

definition replay :: "saga_log \<Rightarrow> jstring \<Rightarrow> saga_replay" where
  "replay log sagaId =
     foldl replay_entry \<lparr>rp_state = Started, rp_completedSteps = [], rp_compensatedSteps = []\<rparr> (forSaga log sagaId)"

fun join_with :: "jstring \<Rightarrow> jstring list \<Rightarrow> jstring" where
  "join_with sep [] = []"
| "join_with sep [x] = x"
| "join_with sep (x # y # xs) = x @ sep @ join_with sep (y # xs)"

definition render_entry :: "log_entry \<Rightarrow> jstring" where
  "render_entry e =
     join_with (js '' '')
       ([js ''#'' @ js_nat (le_seq e), kind_name (le_kind e)] @
        (case le_state e of Some s \<Rightarrow> [js ''state='' @ lifecycle_name s] | None \<Rightarrow> []) @
        (case le_step e of Some s \<Rightarrow> if s = [] then [] else [js ''step='' @ s] | None \<Rightarrow> []) @
        (case le_detail e of Some d \<Rightarrow> if d = [] then [] else [js ''('' @ d @ js '')''] | None \<Rightarrow> []))"

definition render :: "saga_log \<Rightarrow> jstring \<Rightarrow> jstring" where
  "render log sagaId = join_with [10] (map render_entry (forSaga log sagaId))"

section \<open>The index refines the history\<close>

text \<open>The specification: a log is its list of entries, a saga's history the sublist of its entries.\<close>

definition history :: "saga_log \<Rightarrow> jstring \<Rightarrow> log_entry list" where
  "history log sagaId = filter (\<lambda>e. le_sagaId e = sagaId) (sl_entries log)"

definition saga_log_inv :: "saga_log \<Rightarrow> bool" where
  "saga_log_inv log \<longleftrightarrow>
     sl_seq log = length (sl_entries log) \<and> map le_seq (sl_entries log) = [0..<length (sl_entries log)] \<and>
     (\<forall>sagaId idx. jmap_get (sl_bySaga log) sagaId = Some idx \<longrightarrow> idx \<noteq> []) \<and>
     (\<forall>sagaId. (case jmap_get (sl_bySaga log) sagaId of Some idx \<Rightarrow> idx | None \<Rightarrow> []) =
        map le_seq (history log sagaId))"

lemma saga_log_inv_new [simp]: "saga_log_inv new_saga_log"
  by (simp add: saga_log_inv_def new_saga_log_def history_def)

lemma saga_log_inv_append [simp]: "saga_log_inv log \<Longrightarrow> saga_log_inv (fst (log_append log i at k st sp d))"
  by (auto simp: saga_log_inv_def log_append_def Let_def jmap_get_set history_def)

lemma nth_seq:
  assumes "map le_seq es = [0..<length es]" and "e \<in> set es"
  shows "es ! le_seq e = e"
proof -
  obtain i where i: "i < length es" "e = es ! i"
    using assms(2) by (auto simp: in_set_conv_nth)
  then have "le_seq e = map le_seq es ! i"
    by simp
  also have "\<dots> = i"
    using assms(1) i(1) by simp
  finally show ?thesis
    using i(2) by simp
qed

lemma forSaga_history: "saga_log_inv log \<Longrightarrow> forSaga log sagaId = history log sagaId"
  by (auto simp: saga_log_inv_def forSaga_def history_def nth_seq intro!: map_idI)

lemma history_append:
  "history (fst (log_append log i at k st sp d)) j =
     (if j = i
      then history log i @ [\<lparr>le_seq = sl_seq log, le_sagaId = i, le_at = at, le_kind = k, le_state = st,
              le_step = sp, le_detail = d\<rparr>]
      else history log j)"
  by (simp add: history_def log_append_def Let_def)

lemma replay_history:
  "saga_log_inv log \<Longrightarrow> replay log i =
     foldl replay_entry \<lparr>rp_state = Started, rp_completedSteps = [], rp_compensatedSteps = []\<rparr> (history log i)"
  by (simp add: replay_def forSaga_history)

text \<open>\<open>latestState\<close> and \<open>replay\<close> agree on a saga that has recorded a state.\<close>

lemma latest_loop_rev:
  "latest_loop log (rev idx) =
     (case filter (\<lambda>e. le_kind e = StateEntry \<and> le_state e \<noteq> None) (map (\<lambda>i. sl_entries log ! i) idx) of
        [] \<Rightarrow> None | es \<Rightarrow> le_state (last es))"
  by (induction idx rule: rev_induct) (auto simp: Let_def split: list.split)

lemma rp_state_foldl:
  "rp_state (foldl replay_entry r es) =
     (case filter (\<lambda>e. le_kind e = StateEntry \<and> le_state e \<noteq> None) es of
        [] \<Rightarrow> rp_state r | es \<Rightarrow> the (le_state (last es)))"
  by (induction es arbitrary: r rule: rev_induct) (auto simp: replay_entry_def Let_def split: list.split option.split)

lemma latestState_replay:
  assumes "latestState log i = Some s"
  shows "rp_state (replay log i) = s"
proof -
  obtain idx where "jmap_get (sl_bySaga log) i = Some idx"
    using assms by (auto simp: latestState_def split: option.splits)
  then show ?thesis
    using assms by (auto simp: latestState_def latest_loop_rev replay_def forSaga_def rp_state_foldl split: list.splits)
qed

end
