(* ===== verification/SagaEngine.thy ===== *)
theory SagaEngine
  imports SagaLog
begin

text \<open>
  The saga orchestrator (\<open>saga/engine/SagaEngine.ts\<close>). Step actions and compensations are the
  user's code: functions from the context to an outcome. The clock is a stream of readings and
  \<open>timer_first\<close> says whether a step's timer fires before its action settles; both are arbitrary.
  Delays handed to the scheduler are recorded in \<open>sg_timers\<close>. Here one \<open>run\<close> goes from
  its call to the end of its last \<open>await\<close>, every action settles, and no other run comes in between; \<open>SagaRuns\<close> takes runs apart
  at their awaits.
\<close>

section \<open>Definitions and state\<close>

record ('c, 'o) step_context =
  cx_sagaId :: jstring
  cx_input :: 'c
  cx_outputs :: "(jstring, 'o) jmap"
  cx_step :: jstring
  cx_attempt :: nat

text \<open>A returned value, or a thrown one: whether it is a \<open>StepTimeoutError\<close>, and its message.\<close>

datatype 'o outcome = Returned 'o | Threw bool jstring

record ('c, 'o) saga_step =
  st_name :: jstring
  st_action :: "('c, 'o) step_context \<Rightarrow> 'o outcome"
  st_compensate :: "(('c, 'o) step_context \<Rightarrow> 'o option \<Rightarrow> unit outcome) option"
  st_timeoutMs :: "nat option"
  st_retries :: "nat option"
  st_backoffBaseMs :: "nat option"
  st_backoffFactor :: "nat option"

record ('c, 'o) saga_definition =
  df_name :: jstring
  df_steps :: "('c, 'o) saga_step list"

record ('c, 'o) saga_instance =
  in_id :: jstring
  in_def :: "('c, 'o) saga_definition"
  in_input :: 'c
  in_state :: saga_lifecycle
  in_outputs :: "(jstring, 'o) jmap"
  in_completedSteps :: "jstring list"

record ('c, 'o) saga_engine =
  sg_clock :: "nat \<Rightarrow> nat"
  sg_reads :: nat
  sg_timers :: "nat list"
  sg_log :: saga_log
  sg_instances :: "(jstring, ('c, 'o) saga_instance) jmap"
  sg_idSeq :: nat

datatype saga_error =
    IllegalTransitionError saga_lifecycle saga_lifecycle
  | UnknownSagaError jstring

definition new_saga_engine :: "(nat \<Rightarrow> nat) \<Rightarrow> ('c, 'o) saga_engine" where
  "new_saga_engine clock =
     \<lparr>sg_clock = clock, sg_reads = 0, sg_timers = [], sg_log = new_saga_log, sg_instances = jmap_empty, sg_idSeq = 0\<rparr>"

section \<open>Log and transitions\<close>

text \<open>\<open>this.log.append(inst.id, this.clock.now(), kind, extra)\<close>.\<close>

definition write_log ::
  "('c, 'o) saga_engine \<Rightarrow> jstring \<Rightarrow> log_kind \<Rightarrow> saga_lifecycle option \<Rightarrow> jstring option \<Rightarrow> jstring option \<Rightarrow>
     ('c, 'o) saga_engine" where
  "write_log e sid kind state step detail =
     e\<lparr>sg_log := fst (log_append (sg_log e) sid (sg_clock e (sg_reads e)) kind state step detail),
       sg_reads := sg_reads e + 1\<rparr>"

definition set_timer :: "('c, 'o) saga_engine \<Rightarrow> nat \<Rightarrow> ('c, 'o) saga_engine" where
  "set_timer e ms = e\<lparr>sg_timers := sg_timers e @ [ms]\<rparr>"

definition transition ::
  "('c, 'o) saga_engine \<Rightarrow> ('c, 'o) saga_instance \<Rightarrow> saga_lifecycle \<Rightarrow> jstring option \<Rightarrow>
     saga_error + ('c, 'o) saga_engine \<times> ('c, 'o) saga_instance" where
  "transition e i to detail =
     (let legal = LEGAL_TRANSITIONS (in_state i) in
      if to = in_state i then Inr (write_log e (in_id i) StateEntry (Some to) None detail, i)
      else if to \<notin> set legal then Inl (IllegalTransitionError (in_state i) to)
      else Inr (write_log e (in_id i) StateEntry (Some to) None detail, i\<lparr>in_state := to\<rparr>))"

definition must :: "('c, 'o) saga_engine \<Rightarrow> jstring \<Rightarrow> saga_error + ('c, 'o) saga_instance" where
  "must e sid = (case jmap_get (sg_instances e) sid of Some i \<Rightarrow> Inr i | None \<Rightarrow> Inl (UnknownSagaError sid))"

definition saga_id :: "nat \<Rightarrow> jstring" where
  "saga_id n = js ''saga-'' @ js_nat n"

text \<open>The instance is put in the map before the transition; it is a reference there.\<close>

definition start ::
  "('c, 'o) saga_engine \<Rightarrow> ('c, 'o) saga_definition \<Rightarrow> 'c \<Rightarrow> ('c, 'o) saga_engine \<times> (saga_error + jstring)" where
  "start e d input =
     (let sid = saga_id (sg_idSeq e);
          i = \<lparr>in_id = sid, in_def = d, in_input = input, in_state = Started, in_outputs = jmap_empty,
               in_completedSteps = []\<rparr>;
          e = e\<lparr>sg_idSeq := sg_idSeq e + 1, sg_instances := jmap_set sid i (sg_instances e)\<rparr>
      in
      case transition e i Started None of
        Inl err \<Rightarrow> (e, Inl err)
      | Inr (e, i) \<Rightarrow> (e\<lparr>sg_instances := jmap_set sid i (sg_instances e)\<rparr>, Inr sid))"

definition status :: "('c, 'o) saga_engine \<Rightarrow> jstring \<Rightarrow> saga_error + saga_lifecycle" where
  "status e sid = (case must e sid of Inl err \<Rightarrow> Inl err | Inr i \<Rightarrow> Inr (in_state i))"

definition saga_outputs :: "('c, 'o) saga_engine \<Rightarrow> jstring \<Rightarrow> saga_error + (jstring, 'o) jmap" where
  "saga_outputs e sid = (case must e sid of Inl err \<Rightarrow> Inl err | Inr i \<Rightarrow> Inr (in_outputs i))"

section \<open>Steps\<close>

abbreviation or_zero :: "nat option \<Rightarrow> nat" where
  "or_zero x \<equiv> case x of Some n \<Rightarrow> n | None \<Rightarrow> 0"

definition timeout_message :: "jstring \<Rightarrow> nat \<Rightarrow> jstring" where
  "timeout_message step ms = js ''Step '' @ [34] @ step @ [34] @ js '' timed out after '' @ js_nat ms @ js ''ms''"

definition make_context :: "('c, 'o) saga_instance \<Rightarrow> jstring \<Rightarrow> nat \<Rightarrow> ('c, 'o) step_context" where
  "make_context i name attempt =
     \<lparr>cx_sagaId = in_id i, cx_input = in_input i, cx_outputs = in_outputs i, cx_step = name, cx_attempt = attempt\<rparr>"

definition withTimeout ::
  "(('c, 'o) step_context \<Rightarrow> bool) \<Rightarrow> ('c, 'o) saga_engine \<Rightarrow> ('c, 'o) saga_step \<Rightarrow> ('c, 'o) step_context \<Rightarrow>
     ('c, 'o) saga_engine \<times> 'o outcome" where
  "withTimeout timer_first e step ctx =
     (let timeoutMs = or_zero (st_timeoutMs step) in
      if timeoutMs = 0 then (e, st_action step ctx)
      else
        let e = set_timer e timeoutMs in
        if timer_first ctx
        then (write_log e (cx_sagaId ctx) StepTimedOut None (Some (st_name step)) None,
              Threw True (timeout_message (st_name step) timeoutMs))
        else (e, st_action step ctx))"

definition backoff :: "('c, 'o) saga_step \<Rightarrow> nat \<Rightarrow> nat" where
  "backoff step attempt =
     or_zero (st_backoffBaseMs step) * (case st_backoffFactor step of Some f \<Rightarrow> f | None \<Rightarrow> 1) ^ attempt"

definition max_attempts :: "('c, 'o) saga_step \<Rightarrow> nat" where
  "max_attempts step = 1 + or_zero (st_retries step)"

text \<open>One attempt: the body of the \<open>for\<close> up to the \<open>return true\<close> or the end of the \<open>catch\<close>.\<close>

definition run_attempt ::
  "(('c, 'o) step_context \<Rightarrow> bool) \<Rightarrow> ('c, 'o) saga_engine \<Rightarrow> ('c, 'o) saga_instance \<Rightarrow> ('c, 'o) saga_step \<Rightarrow> nat \<Rightarrow>
     ('c, 'o) saga_engine \<times> ('c, 'o) saga_instance \<times> bool" where
  "run_attempt timer_first e i step attempt =
     (let name = st_name step;
          e = write_log e (in_id i) StepStarted None (Some name)
                (Some (js ''attempt '' @ js_nat (attempt + 1) @ js ''/'' @ js_nat (max_attempts step)))
      in
      case withTimeout timer_first e step (make_context i name attempt) of
        (e, Returned output) \<Rightarrow>
          (write_log e (in_id i) StepSucceeded None (Some name) None,
           i\<lparr>in_outputs := jmap_set name output (in_outputs i), in_completedSteps := in_completedSteps i @ [name]\<rparr>, True)
      | (e, Threw isTimeout msg) \<Rightarrow>
          (let e = write_log e (in_id i) (if isTimeout then StepTimedOut else StepFailed) None (Some name) (Some msg) in
           if attempt + 1 < max_attempts step then
             let e = (if backoff step attempt > 0 then set_timer e (backoff step attempt) else e) in
             (write_log e (in_id i) StepRetrying None (Some name) None, i, False)
           else (e, i, False)))"

fun attempts_loop ::
  "(('c, 'o) step_context \<Rightarrow> bool) \<Rightarrow> ('c, 'o) saga_engine \<Rightarrow> ('c, 'o) saga_instance \<Rightarrow> ('c, 'o) saga_step \<Rightarrow> nat list \<Rightarrow>
     ('c, 'o) saga_engine \<times> ('c, 'o) saga_instance \<times> bool" where
  "attempts_loop timer_first e i step [] = (e, i, False)"
| "attempts_loop timer_first e i step (attempt # attempts) =
     (case run_attempt timer_first e i step attempt of
        (e, i, True) \<Rightarrow> (e, i, True)
      | (e, i, False) \<Rightarrow> attempts_loop timer_first e i step attempts)"

definition runStep ::
  "(('c, 'o) step_context \<Rightarrow> bool) \<Rightarrow> ('c, 'o) saga_engine \<Rightarrow> ('c, 'o) saga_instance \<Rightarrow> ('c, 'o) saga_step \<Rightarrow>
     ('c, 'o) saga_engine \<times> ('c, 'o) saga_instance \<times> bool" where
  "runStep timer_first e i step = attempts_loop timer_first e i step [0..<max_attempts step]"

section \<open>Compensation\<close>

text \<open>The loop over the completed names, latest first. \<open>find\<close> takes the first step of that name.\<close>

fun compensate_loop ::
  "('c, 'o) saga_engine \<Rightarrow> ('c, 'o) saga_instance \<Rightarrow> jstring list \<Rightarrow>
     saga_error + ('c, 'o) saga_engine \<times> ('c, 'o) saga_instance" where
  "compensate_loop e i [] = transition e i Compensated None"
| "compensate_loop e i (name # names) =
     (case find (\<lambda>s. st_name s = name) (df_steps (in_def i)) of
        None \<Rightarrow> compensate_loop e i names
      | Some step \<Rightarrow>
          (case st_compensate step of
             None \<Rightarrow> compensate_loop e i names
           | Some undo \<Rightarrow>
               (case undo (make_context i name 0) (jmap_get (in_outputs i) name) of
                  Returned _ \<Rightarrow>
                    compensate_loop (write_log e (in_id i) CompensatedStep None (Some name) None) i names
                | Threw _ msg \<Rightarrow>
                    transition (write_log e (in_id i) CompensationFailed None (Some name) (Some msg)) i Failed None)))"

definition compensate ::
  "('c, 'o) saga_engine \<Rightarrow> ('c, 'o) saga_instance \<Rightarrow> saga_error + ('c, 'o) saga_engine \<times> ('c, 'o) saga_instance" where
  "compensate e i = compensate_loop e i (rev (in_completedSteps i))"

section \<open>Running\<close>

fun run_steps ::
  "(('c, 'o) step_context \<Rightarrow> bool) \<Rightarrow> ('c, 'o) saga_engine \<Rightarrow> ('c, 'o) saga_instance \<Rightarrow> ('c, 'o) saga_step list \<Rightarrow>
     saga_error + ('c, 'o) saga_engine \<times> ('c, 'o) saga_instance" where
  "run_steps timer_first e i [] = Inr (e, i)"
| "run_steps timer_first e i (step # steps) =
     (if in_state i \<noteq> Running then Inr (e, i)
      else
        case runStep timer_first e i step of
          (e, i, True) \<Rightarrow> run_steps timer_first e i steps
        | (e, i, False) \<Rightarrow>
            (if in_state i = Running then
               (case transition e i Compensating None of Inl err \<Rightarrow> Inl err | Inr (e, i) \<Rightarrow> compensate e i)
             else compensate e i))"

definition run_instance ::
  "(('c, 'o) step_context \<Rightarrow> bool) \<Rightarrow> ('c, 'o) saga_engine \<Rightarrow> ('c, 'o) saga_instance \<Rightarrow>
     saga_error + ('c, 'o) saga_engine \<times> ('c, 'o) saga_instance" where
  "run_instance timer_first e i =
     (case (if in_state i = Started then transition e i Running None else Inr (e, i)) of
        Inl err \<Rightarrow> Inl err
      | Inr (e, i) \<Rightarrow>
          (case run_steps timer_first e i (df_steps (in_def i)) of
             Inl err \<Rightarrow> Inl err
           | Inr (e, i) \<Rightarrow> if in_state i = Running then transition e i Completed None else Inr (e, i)))"

text \<open>The instance is mutated in place, so the map sees the state the run leaves.\<close>

definition run ::
  "(('c, 'o) step_context \<Rightarrow> bool) \<Rightarrow> ('c, 'o) saga_engine \<Rightarrow> jstring \<Rightarrow>
     saga_error + ('c, 'o) saga_engine \<times> saga_lifecycle" where
  "run timer_first e sid =
     (case must e sid of
        Inl err \<Rightarrow> Inl err
      | Inr i \<Rightarrow>
          (case run_instance timer_first e i of
             Inl err \<Rightarrow> Inl err
           | Inr (e, i) \<Rightarrow> Inr (e\<lparr>sg_instances := jmap_set sid i (sg_instances e)\<rparr>, in_state i)))"

section \<open>What the log says about an instance\<close>

abbreviation saga_history :: "('c, 'o) saga_engine \<Rightarrow> jstring \<Rightarrow> log_entry list" where
  "saga_history e \<equiv> history (sg_log e)"

definition no_replay :: saga_replay where
  "no_replay = \<lparr>rp_state = Started, rp_completedSteps = [], rp_compensatedSteps = []\<rparr>"

definition recorded :: "log_entry list \<Rightarrow> saga_replay" where
  "recorded es = foldl replay_entry no_replay es"

lemma recorded_simps [simp]:
  "recorded [] = no_replay" "recorded (es @ [x]) = replay_entry (recorded es) x"
  by (simp_all add: recorded_def)

text \<open>The set of completed names, in the order \<open>replay\<close> collects it.\<close>

definition step_set :: "jstring list \<Rightarrow> jstring list" where
  "step_set names = foldl (\<lambda>xs s. add_step (Some s) xs) [] names"

lemma step_set_snoc [simp]: "step_set (names @ [x]) = add_step (Some x) (step_set names)"
  by (simp add: step_set_def)

lemma step_set_distinct: "distinct names \<Longrightarrow> [] \<notin> set names \<Longrightarrow> step_set names = names"
proof (induction names rule: rev_induct)
  case (snoc x xs)
  then show ?case by (auto simp: add_step_def set_add_def)
qed (simp add: step_set_def)

text \<open>The states a saga's entries record, and the legality of their sequence.\<close>

definition states_of :: "log_entry list \<Rightarrow> saga_lifecycle list" where
  "states_of es = List.map_filter (\<lambda>e. if le_kind e = StateEntry then le_state e else None) es"

fun legal_path :: "saga_lifecycle \<Rightarrow> saga_lifecycle list \<Rightarrow> bool" where
  "legal_path s [] = True"
| "legal_path s (t # ts) = ((t = s \<or> t \<in> set (LEGAL_TRANSITIONS s)) \<and> legal_path t ts)"

lemma legal_path_snoc:
  "legal_path s (ts @ [t]) \<longleftrightarrow>
     legal_path s ts \<and> (t = last (s # ts) \<or> t \<in> set (LEGAL_TRANSITIONS (last (s # ts))))"
  by (induction ts arbitrary: s) auto

definition names_of :: "log_kind \<Rightarrow> log_entry list \<Rightarrow> jstring list" where
  "names_of k es = List.map_filter (\<lambda>e. if le_kind e = k then le_step e else None) es"

lemma map_filter_snoc: "List.map_filter f (xs @ ys) = List.map_filter f xs @ List.map_filter f ys"
  by (induction xs) (auto simp: List.map_filter_simps split: option.split)

lemma recorded_state: "rp_state (recorded es) = last (Started # states_of es)"
proof (induction es rule: rev_induct)
  case (snoc x xs)
  then show ?case
    by (auto simp: replay_entry_def Let_def states_of_def map_filter_snoc List.map_filter_simps split: option.split)
qed (simp add: no_replay_def states_of_def List.map_filter_simps)

section \<open>How operations move an instance\<close>

text \<open>The log and the instance say the same, and the recorded states are a legal path.\<close>

definition in_sync :: "('c, 'o) saga_engine \<Rightarrow> ('c, 'o) saga_instance \<Rightarrow> bool" where
  "in_sync e i \<longleftrightarrow>
     rp_state (recorded (saga_history e (in_id i))) = in_state i \<and>
     rp_completedSteps (recorded (saga_history e (in_id i))) = step_set (in_completedSteps i) \<and>
     legal_path Started (states_of (saga_history e (in_id i)))"

text \<open>A move of one instance: it keeps its identity, leaves all others alone, and keeps the sync.\<close>

definition moves ::
  "('c, 'o) saga_engine \<Rightarrow> ('c, 'o) saga_instance \<Rightarrow> ('c, 'o) saga_engine \<Rightarrow> ('c, 'o) saga_instance \<Rightarrow> bool" where
  "moves e i e' i' \<longleftrightarrow>
     in_id i' = in_id i \<and> in_def i' = in_def i \<and> in_input i' = in_input i \<and>
     sg_instances e' = sg_instances e \<and> sg_idSeq e' = sg_idSeq e \<and>
     (\<forall>j. j \<noteq> in_id i \<longrightarrow> saga_history e' j = saga_history e j) \<and>
     (saga_log_inv (sg_log e) \<longrightarrow> saga_log_inv (sg_log e')) \<and> (in_sync e i \<longrightarrow> in_sync e' i')"

lemma moves_refl [simp, intro]: "moves e i e i"
  by (simp add: moves_def)

lemma moves_trans [trans]: "moves e i e1 i1 \<Longrightarrow> moves e1 i1 e2 i2 \<Longrightarrow> moves e i e2 i2"
  by (simp add: moves_def)

lemma history_write_log:
  "saga_history (write_log e sid k st sp d) j =
     (if j = sid
      then saga_history e sid @ [\<lparr>le_seq = sl_seq (sg_log e), le_sagaId = sid, le_at = sg_clock e (sg_reads e),
             le_kind = k, le_state = st, le_step = sp, le_detail = d\<rparr>]
      else saga_history e j)"
  by (simp add: write_log_def history_append)

lemma write_log_fields [simp]:
  "sg_instances (write_log e sid k st sp d) = sg_instances e" "sg_idSeq (write_log e sid k st sp d) = sg_idSeq e"
  "sg_timers (write_log e sid k st sp d) = sg_timers e"
  by (simp_all add: write_log_def)

lemma saga_log_inv_write [simp]: "saga_log_inv (sg_log e) \<Longrightarrow> saga_log_inv (sg_log (write_log e sid k st sp d))"
  by (simp add: write_log_def)

lemma set_timer_fields [simp]:
  "sg_log (set_timer e ms) = sg_log e" "sg_instances (set_timer e ms) = sg_instances e"
  "sg_idSeq (set_timer e ms) = sg_idSeq e" "sg_timers (set_timer e ms) = sg_timers e @ [ms]"
  by (simp_all add: set_timer_def)

lemma moves_timer [simp]: "moves e i (set_timer e' ms) i' \<longleftrightarrow> moves e i e' i'"
  by (simp add: moves_def in_sync_def)

text \<open>An entry that records neither a state nor a success.\<close>

lemma moves_note:
  "moves e i e' i' \<Longrightarrow> k \<noteq> StepSucceeded \<Longrightarrow> moves e i (write_log e' (in_id i') k None sp d) i'"
  by (auto simp: moves_def in_sync_def history_write_log replay_entry_def Let_def states_of_def map_filter_snoc
      List.map_filter_simps)

lemma moves_success:
  "moves e i e' i' \<Longrightarrow>
     moves e i (write_log e' (in_id i') StepSucceeded None (Some name) d)
       (i'\<lparr>in_outputs := out, in_completedSteps := in_completedSteps i' @ [name]\<rparr>)"
  by (auto simp: moves_def in_sync_def history_write_log replay_entry_def Let_def states_of_def map_filter_snoc
      List.map_filter_simps)

lemma moves_transition:
  assumes "transition e i to d = Inr (e', i')"
  shows "moves e i e' i' \<and> i' = i\<lparr>in_state := to\<rparr> \<and>
    (\<forall>k. k \<noteq> StateEntry \<longrightarrow> names_of k (saga_history e' (in_id i)) = names_of k (saga_history e (in_id i))) \<and>
    sg_timers e' = sg_timers e"
proof -
  have e': "e' = write_log e (in_id i) StateEntry (Some to) None d" and i': "i' = i\<lparr>in_state := to\<rparr>"
    and legal: "to = in_state i \<or> to \<in> set (LEGAL_TRANSITIONS (in_state i))"
    using assms by (auto simp: transition_def Let_def split: if_splits)
  have "in_sync e' i'" if "in_sync e i"
    using that legal unfolding e' i' in_sync_def recorded_state
    by (auto simp: history_write_log states_of_def map_filter_snoc List.map_filter_simps legal_path_snoc
        replay_entry_def Let_def)
  then show ?thesis
    by (simp add: moves_def e' i' history_write_log names_of_def map_filter_snoc List.map_filter_simps)
qed

lemma transition_legal:
  "to = in_state i \<or> to \<in> set (LEGAL_TRANSITIONS (in_state i)) \<Longrightarrow> \<exists>e'. transition e i to d = Inr (e', i\<lparr>in_state := to\<rparr>)"
  by (auto simp: transition_def Let_def)

section \<open>Attempts\<close>

text \<open>What one attempt, one step adds to the saga's history and to the timers.\<close>

definition count_kind :: "log_kind \<Rightarrow> log_entry list \<Rightarrow> nat" where
  "count_kind k es = length (filter (\<lambda>e. le_kind e = k) es)"

lemma count_kind_simps [simp]:
  "count_kind k [] = 0" "count_kind k (xs @ ys) = count_kind k xs + count_kind k ys"
  "count_kind k (x # xs) = (if le_kind x = k then 1 else 0) + count_kind k xs"
  by (simp_all add: count_kind_def)

abbreviation saga_count :: "log_kind \<Rightarrow> ('c, 'o) saga_engine \<Rightarrow> ('c, 'o) saga_instance \<Rightarrow> nat" where
  "saga_count k e i \<equiv> count_kind k (saga_history e (in_id i))"

lemma run_attempt_moves:
  assumes "run_attempt tf e i step n = (e', i', ok)"
  shows "moves e i e' i' \<and> in_state i' = in_state i \<and>
    names_of CompensatedStep (saga_history e' (in_id i)) = names_of CompensatedStep (saga_history e (in_id i)) \<and>
    in_completedSteps i' = in_completedSteps i @ (if ok then [st_name step] else []) \<and>
    saga_count StepStarted e' i = saga_count StepStarted e i + 1 \<and> (\<not> ok \<longrightarrow> i' = i)"
proof -
  note log = history_write_log names_of_def map_filter_snoc List.map_filter_simps make_context_def
  let ?e = "write_log e (in_id i) StepStarted None (Some (st_name step))
    (Some (js ''attempt '' @ js_nat (n + 1) @ js ''/'' @ js_nat (max_attempts step)))"
  obtain e1 r where w: "withTimeout tf ?e step (make_context i (st_name step) n) = (e1, r)"
    by (cases "withTimeout tf ?e step (make_context i (st_name step) n)")
  have m0: "moves e i ?e i"
    by (rule moves_note) simp_all
  have m1: "moves e i e1 i"
    using w m0 moves_note [OF m0, of StepTimedOut]
    by (auto simp: withTimeout_def Let_def make_context_def set_timer_def [symmetric] moves_note split: if_splits)
  have h1: "names_of CompensatedStep (saga_history e1 (in_id i)) = names_of CompensatedStep (saga_history e (in_id i))"
    "saga_count StepStarted e1 i = saga_count StepStarted e i + 1"
    using w by (auto simp: withTimeout_def Let_def log split: if_splits)
  show ?thesis
  proof (cases r)
    case (Returned out)
    then show ?thesis
      using assms w h1 moves_success [OF m1] by (auto simp: run_attempt_def Let_def log)
  next
    case (Threw t msg)
    let ?k = "if t then StepTimedOut else StepFailed"
    have m2: "moves e i (write_log e1 (in_id i) ?k None (Some (st_name step)) (Some msg)) i"
      using m1 by (intro moves_note) auto
    show ?thesis
      using assms w h1 Threw m2 moves_note [of e i "set_timer (write_log e1 (in_id i) ?k None (Some (st_name step)) (Some msg)) (backoff step n)" i StepRetrying]
        moves_note [OF m2, of StepRetrying]
      by (auto simp: run_attempt_def Let_def log split: if_splits)
  qed
qed

lemma attempts_loop_moves:
  assumes "attempts_loop tf e i step ns = (e', i', ok)"
  shows "moves e i e' i' \<and> in_state i' = in_state i \<and>
    names_of CompensatedStep (saga_history e' (in_id i)) = names_of CompensatedStep (saga_history e (in_id i)) \<and>
    in_completedSteps i' = in_completedSteps i @ (if ok then [st_name step] else []) \<and>
    saga_count StepStarted e' i \<le> saga_count StepStarted e i + length ns \<and>
    (\<not> ok \<longrightarrow> i' = i \<and> saga_count StepStarted e' i = saga_count StepStarted e i + length ns)"
  using assms
proof (induction tf e i step ns rule: attempts_loop.induct)
  case (2 tf e i step n ns)
  obtain e1 i1 b where a: "run_attempt tf e i step n = (e1, i1, b)"
    by (cases "run_attempt tf e i step n")
  note r = run_attempt_moves [OF a]
  show ?case
  proof (cases b)
    case True
    then show ?thesis
      using "2.prems" a r by auto
  next
    case False
    then have "i1 = i"
      using r by blast
    then show ?thesis
      using "2.prems" "2.IH" [OF a [symmetric] refl] a r False moves_trans [of e i e1 i1 e' i'] by auto
  qed
qed simp

lemma runStep_moves:
  assumes "runStep tf e i step = (e', i', ok)"
  shows "moves e i e' i'" and "in_state i' = in_state i"
    and "names_of CompensatedStep (saga_history e' (in_id i)) = names_of CompensatedStep (saga_history e (in_id i))"
    and "in_completedSteps i' = in_completedSteps i @ (if ok then [st_name step] else [])"
    and "\<not> ok \<Longrightarrow> i' = i"
  using attempts_loop_moves [of tf e i step] assms by (auto simp: runStep_def)

section \<open>Compensation\<close>

definition has_undo :: "('c, 'o) saga_definition \<Rightarrow> jstring \<Rightarrow> bool" where
  "has_undo d name \<longleftrightarrow>
     (case find (\<lambda>s. st_name s = name) (df_steps d) of Some s \<Rightarrow> st_compensate s \<noteq> None | None \<Rightarrow> False)"

abbreviation undone :: "('c, 'o) saga_engine \<Rightarrow> ('c, 'o) saga_instance \<Rightarrow> jstring list" where
  "undone e i \<equiv> names_of CompensatedStep (saga_history e (in_id i))"

lemma compensate_loop_result:
  assumes "in_state i = Compensating"
  shows "\<exists>e' i' now. compensate_loop e i names = Inr (e', i') \<and> moves e i e' i' \<and>
    in_completedSteps i' = in_completedSteps i \<and> undone e' i = undone e i @ now \<and>
    (in_state i' = Compensated \<and> now = filter (has_undo (in_def i)) names \<or>
     in_state i' = Failed \<and> (\<exists>name rest. filter (has_undo (in_def i)) names = now @ name # rest))"
  using assms
proof (induction names arbitrary: e)
  case Nil
  then obtain e' where "transition e i Compensated None = Inr (e', i\<lparr>in_state := Compensated\<rparr>)"
    using transition_legal [of Compensated i e None] by auto
  then show ?case
    using moves_transition [of e i Compensated None] by fastforce
next
  case (Cons name names)
  note log = history_write_log names_of_def map_filter_snoc List.map_filter_simps
  show ?case
  proof (cases "has_undo (in_def i) name")
    case False
    then show ?thesis
      using Cons by (auto simp: has_undo_def split: option.splits)
  next
    case True
    then obtain step undo where s: "find (\<lambda>s. st_name s = name) (df_steps (in_def i)) = Some step"
      "st_compensate step = Some undo"
      by (auto simp: has_undo_def split: option.splits)
    show ?thesis
    proof (cases "undo (make_context i name 0) (jmap_get (in_outputs i) name)")
      case (Returned u)
      let ?e = "write_log e (in_id i) CompensatedStep None (Some name) None"
      have m: "moves e i ?e i" and u: "undone ?e i = undone e i @ [name]"
        by (rule moves_note) (simp_all add: log)
      obtain e' i' now where r: "compensate_loop ?e i names = Inr (e', i')" "moves ?e i e' i'"
        "in_completedSteps i' = in_completedSteps i" "undone e' i = undone ?e i @ now"
        "in_state i' = Compensated \<and> now = filter (has_undo (in_def i)) names \<or>
         in_state i' = Failed \<and> (\<exists>name rest. filter (has_undo (in_def i)) names = now @ name # rest)"
        using Cons.IH [OF Cons.prems, of ?e] by blast
      have "compensate_loop e i (name # names) = Inr (e', i')"
        using r(1) s Returned by simp
      moreover have "undone e' i = undone e i @ (name # now)"
        using r(4) u by simp
      ultimately show ?thesis
        using r(3,5) moves_trans [OF m r(2)] True
        by (intro exI [of _ e'] exI [of _ i'] exI [of _ "name # now"]) auto
    next
      case (Threw t msg)
      let ?e = "write_log e (in_id i) CompensationFailed None (Some name) (Some msg)"
      have m: "moves e i ?e i" and u: "undone ?e i = undone e i"
        by (rule moves_note) (simp_all add: log)
      obtain e' where tr: "transition ?e i Failed None = Inr (e', i\<lparr>in_state := Failed\<rparr>)"
        using transition_legal [of Failed i ?e None] Cons.prems by auto
      have "compensate_loop e i (name # names) = Inr (e', i\<lparr>in_state := Failed\<rparr>)"
        using tr s Threw by simp
      moreover have "moves e i e' (i\<lparr>in_state := Failed\<rparr>)" "undone e' i = undone e i"
        using moves_transition [OF tr] moves_trans [OF m] u by auto
      ultimately show ?thesis
        using True by (intro exI [of _ e'] exI [of _ "i\<lparr>in_state := Failed\<rparr>"] exI [of _ "[]"]) simp
    qed
  qed
qed

section \<open>Runs\<close>

text \<open>How a run from a started instance ends: everything done, or a prefix done and undone.\<close>

definition step_names :: "('c, 'o) saga_definition \<Rightarrow> jstring list" where
  "step_names d = map st_name (df_steps d)"

definition rolled_back :: "('c, 'o) saga_instance \<Rightarrow> jstring list \<Rightarrow> jstring list" where
  "rolled_back i completed = filter (has_undo (in_def i)) (rev completed)"

definition run_ends :: "('c, 'o) saga_instance \<Rightarrow> jstring list \<Rightarrow> ('c, 'o) saga_instance \<Rightarrow> jstring list \<Rightarrow> bool" where
  "run_ends i names i' now \<longleftrightarrow>
     (\<exists>k < length names. in_completedSteps i' = in_completedSteps i @ take k names \<and>
        (in_state i' = Compensated \<and> now = rolled_back i (in_completedSteps i') \<or>
         in_state i' = Failed \<and> (\<exists>name rest. rolled_back i (in_completedSteps i') = now @ name # rest)))"

lemma run_ends_Cons:
  assumes "run_ends i1 names i' now" and "in_def i1 = in_def i" and "in_completedSteps i1 = in_completedSteps i @ [x]"
  shows "run_ends i (x # names) i' now"
proof -
  obtain k where "k < length names" "in_completedSteps i' = in_completedSteps i1 @ take k names"
    "in_state i' = Compensated \<and> now = rolled_back i1 (in_completedSteps i') \<or>
     in_state i' = Failed \<and> (\<exists>name rest. rolled_back i1 (in_completedSteps i') = now @ name # rest)"
    using assms(1) by (auto simp: run_ends_def)
  then show ?thesis
    unfolding run_ends_def using assms(2,3) by (intro exI [of _ "Suc k"]) (simp add: rolled_back_def)
qed

lemma run_steps_result:
  assumes "in_state i = Running"
  shows "\<exists>e' i' now. run_steps tf e i steps = Inr (e', i') \<and> moves e i e' i' \<and> undone e' i = undone e i @ now \<and>
    (in_state i' = Running \<and> now = [] \<and> in_completedSteps i' = in_completedSteps i @ map st_name steps \<or>
     run_ends i (map st_name steps) i' now)"
  using assms
proof (induction steps arbitrary: e i)
  case (Cons step steps)
  obtain e1 i1 ok where s: "runStep tf e i step = (e1, i1, ok)"
    by (cases "runStep tf e i step")
  note m = runStep_moves [OF s]
  have same: "in_id i1 = in_id i" "in_def i1 = in_def i"
    using m(1) by (simp_all add: moves_def)
  show ?case
  proof (cases ok)
    case True
    obtain e' i' now where r: "run_steps tf e1 i1 steps = Inr (e', i')" "moves e1 i1 e' i'"
      "undone e' i1 = undone e1 i1 @ now"
      "in_state i' = Running \<and> now = [] \<and> in_completedSteps i' = in_completedSteps i1 @ map st_name steps \<or>
       run_ends i1 (map st_name steps) i' now"
      using Cons.IH [of i1 e1] m(2) Cons.prems by auto
    have "run_ends i1 (map st_name steps) i' now \<Longrightarrow> run_ends i (map st_name (step # steps)) i' now"
      using run_ends_Cons [of i1 "map st_name steps" i' now i "st_name step"] m(4) True same by simp
    then show ?thesis
      using r s True m(3,4) same moves_trans [OF m(1) r(2)] Cons.prems by auto
  next
    case False
    then have i1: "i1 = i"
      using m(5) by blast
    obtain e2 where t: "transition e1 i Compensating None = Inr (e2, i\<lparr>in_state := Compensating\<rparr>)"
      using transition_legal [of Compensating i e1 None] Cons.prems by auto
    note mt = moves_transition [OF t]
    let ?i = "i\<lparr>in_state := Compensating\<rparr>"
    obtain e' i' now where c: "compensate_loop e2 ?i (rev (in_completedSteps ?i)) = Inr (e', i')" "moves e2 ?i e' i'"
      "in_completedSteps i' = in_completedSteps ?i" "undone e' ?i = undone e2 ?i @ now"
      "in_state i' = Compensated \<and> now = filter (has_undo (in_def ?i)) (rev (in_completedSteps ?i)) \<or>
       in_state i' = Failed \<and> (\<exists>name rest. filter (has_undo (in_def ?i)) (rev (in_completedSteps ?i)) = now @ name # rest)"
      using compensate_loop_result [of ?i e2 "rev (in_completedSteps ?i)"] by auto
    have "run_ends i (map st_name (step # steps)) i' now"
      using c(3,5) by (auto simp: run_ends_def rolled_back_def intro!: exI [of _ 0])
    moreover have "moves e i e' i'"
      using m(1) mt c(2) i1 moves_trans by blast
    moreover have "run_steps tf e i (step # steps) = Inr (e', i')"
      using s t c(1) i1 False Cons.prems by (simp add: compensate_def)
    moreover have "undone e' i = undone e i @ now"
      using m(3) mt c(4) by simp
    ultimately show ?thesis
      by blast
  qed
qed simp

lemma run_instance_result:
  assumes "in_state i = Started" and "in_completedSteps i = []"
  shows "\<exists>e' i' now. run_instance tf e i = Inr (e', i') \<and> moves e i e' i' \<and> undone e' i = undone e i @ now \<and>
    (in_state i' = Completed \<and> now = [] \<and> in_completedSteps i' = step_names (in_def i) \<or>
     run_ends i (step_names (in_def i)) i' now)"
proof -
  obtain e1 where t: "transition e i Running None = Inr (e1, i\<lparr>in_state := Running\<rparr>)"
    using transition_legal [of Running i e None] assms by auto
  note mt = moves_transition [OF t]
  let ?i = "i\<lparr>in_state := Running\<rparr>"
  obtain e2 i2 now where r: "run_steps tf e1 ?i (df_steps (in_def i)) = Inr (e2, i2)" "moves e1 ?i e2 i2"
    "undone e2 ?i = undone e1 ?i @ now"
    "in_state i2 = Running \<and> now = [] \<and> in_completedSteps i2 = in_completedSteps ?i @ step_names (in_def i) \<or>
     run_ends ?i (step_names (in_def i)) i2 now"
    using run_steps_result [of ?i tf e1 "df_steps (in_def i)"] by (auto simp: step_names_def)
  have m: "moves e i e2 i2"
    using mt r(2) moves_trans by blast
  show ?thesis
  proof (cases "in_state i2 = Running")
    case True
    then obtain e3 where t3: "transition e2 i2 Completed None = Inr (e3, i2\<lparr>in_state := Completed\<rparr>)"
      using transition_legal [of Completed i2 e2 None] by auto
    note m3 = moves_transition [OF t3]
    have "in_id i2 = in_id i"
      using m by (simp add: moves_def)
    moreover have "\<not> run_ends ?i (step_names (in_def i)) i2 now"
      using True by (auto simp: run_ends_def)
    ultimately show ?thesis
      using t r t3 True assms moves_trans [OF m] m3 mt by (auto simp: run_instance_def)
  next
    case False
    then have "run_ends i (step_names (in_def i)) i2 now"
      using r(4) by (simp add: run_ends_def rolled_back_def)
    then show ?thesis
      using t r m False assms mt by (auto simp: run_instance_def)
  qed
qed

text \<open>A run on an instance that has ended changes nothing.\<close>

lemma run_instance_ended: "in_state i \<noteq> Started \<Longrightarrow> in_state i \<noteq> Running \<Longrightarrow> run_instance tf e i = Inr (e, i)"
  by (cases "df_steps (in_def i)") (simp_all add: run_instance_def)

section \<open>The engine's invariant\<close>

definition instance_ok :: "('c, 'o) saga_engine \<Rightarrow> ('c, 'o) saga_instance \<Rightarrow> bool" where
  "instance_ok e i \<longleftrightarrow>
     in_sync e i \<and> (in_state i = Started \<and> in_completedSteps i = [] \<and> undone e i = [] \<or> terminal (in_state i))"

definition engine_inv :: "('c, 'o) saga_engine \<Rightarrow> bool" where
  "engine_inv e \<longleftrightarrow>
     saga_log_inv (sg_log e) \<and>
     (\<forall>sid i. jmap_get (sg_instances e) sid = Some i \<longrightarrow> in_id i = sid \<and> instance_ok e i) \<and>
     (\<forall>n \<ge> sg_idSeq e. jmap_get (sg_instances e) (saga_id n) = None \<and> saga_history e (saga_id n) = []) \<and>
     (\<forall>sid. jmap_get (sg_instances e) sid \<noteq> None \<longrightarrow> (\<exists>n < sg_idSeq e. sid = saga_id n))"

lemma saga_id_eq_iff [simp]: "saga_id m = saga_id n \<longleftrightarrow> m = n"
  by (simp add: saga_id_def)

lemma instance_ok_cong:
  "saga_history e' (in_id i) = saga_history e (in_id i) \<Longrightarrow> instance_ok e' i = instance_ok e i"
  by (simp add: instance_ok_def in_sync_def)

lemma engine_inv_new [simp]: "engine_inv (new_saga_engine clock)"
  by (simp add: engine_inv_def new_saga_engine_def) (simp add: new_saga_log_def history_def)

text \<open>\<open>start\<close> never throws and adds one started instance under a fresh id.\<close>

definition fresh_instance :: "('c, 'o) saga_engine \<Rightarrow> ('c, 'o) saga_definition \<Rightarrow> 'c \<Rightarrow> ('c, 'o) saga_instance" where
  "fresh_instance e d x =
     \<lparr>in_id = saga_id (sg_idSeq e), in_def = d, in_input = x, in_state = Started, in_outputs = jmap_empty,
      in_completedSteps = []\<rparr>"

lemma start_result:
  "start e d x =
     (let sid = saga_id (sg_idSeq e);
          e1 = write_log (e\<lparr>sg_idSeq := sg_idSeq e + 1,
                 sg_instances := jmap_set sid (fresh_instance e d x) (sg_instances e)\<rparr>) sid StateEntry (Some Started) None None
      in (e1\<lparr>sg_instances := jmap_set sid (fresh_instance e d x) (sg_instances e1)\<rparr>, Inr sid))"
  by (simp add: start_def Let_def transition_def fresh_instance_def)

lemma engine_inv_start: "engine_inv e \<Longrightarrow> engine_inv (fst (start e d x))"
proof -
  assume inv: "engine_inv e"
  let ?sid = "saga_id (sg_idSeq e)" and ?i = "fresh_instance e d x"
  define e' where "e' = fst (start e d x)"
  have h: "saga_history e' j = (if j = ?sid then [\<lparr>le_seq = sl_seq (sg_log e), le_sagaId = ?sid,
      le_at = sg_clock e (sg_reads e), le_kind = StateEntry, le_state = Some Started, le_step = None, le_detail = None\<rparr>]
      else saga_history e j)" for j
    using inv by (simp add: e'_def start_result Let_def write_log_def history_append engine_inv_def)
  have g: "jmap_get (sg_instances e') j = (if j = ?sid then Some ?i else jmap_get (sg_instances e) j)" for j
    by (simp add: e'_def start_result Let_def jmap_get_set)
  have s: "sg_idSeq e' = sg_idSeq e + 1" "saga_log_inv (sg_log e')"
    using inv by (simp_all add: e'_def start_result Let_def engine_inv_def write_log_def)
  have "instance_ok e' ?i"
    by (simp add: instance_ok_def in_sync_def fresh_instance_def h replay_entry_def Let_def states_of_def
        List.map_filter_simps names_of_def recorded_def no_replay_def step_set_def)
  moreover have "instance_ok e' i" if "jmap_get (sg_instances e) j = Some i" "j \<noteq> ?sid" for i j
    using that inv instance_ok_cong [of e' i e] by (auto simp: engine_inv_def h)
  moreover have "in_id ?i = ?sid"
    by (simp add: fresh_instance_def)
  moreover have "\<exists>n < sg_idSeq e'. j = saga_id n" if "jmap_get (sg_instances e') j \<noteq> None" for j
    using that inv by (auto simp: engine_inv_def g s(1) less_Suc_eq split: if_splits)
  ultimately have "engine_inv e'"
    using inv s by (auto simp: engine_inv_def g h split: if_splits)
  then show ?thesis
    by (simp add: e'_def)
qed

lemma terminal_iff: "terminal s \<longleftrightarrow> s \<in> {Completed, Compensated, Failed}"
  by (cases s) (simp_all add: terminal_def)

lemma run_known:
  assumes inv: "engine_inv e" and i: "jmap_get (sg_instances e) sid = Some i"
  shows "\<exists>e1 i' now. run tf e sid = Inr (e1\<lparr>sg_instances := jmap_set sid i' (sg_instances e)\<rparr>, in_state i') \<and>
    moves e i e1 i' \<and> terminal (in_state i') \<and> undone e1 i = undone e i @ now \<and>
    (in_state i = Started \<longrightarrow>
       (in_state i' = Completed \<and> now = [] \<and> in_completedSteps i' = step_names (in_def i) \<or>
        run_ends i (step_names (in_def i)) i' now)) \<and>
    (terminal (in_state i) \<longrightarrow> e1 = e \<and> i' = i)"
proof -
  have ok: "instance_ok e i"
    using inv i by (simp add: engine_inv_def)
  show ?thesis
  proof (cases "in_state i = Started")
    case True
    then obtain e' i' now where r: "run_instance tf e i = Inr (e', i')" "moves e i e' i'" "undone e' i = undone e i @ now"
      "in_state i' = Completed \<and> now = [] \<and> in_completedSteps i' = step_names (in_def i) \<or>
       run_ends i (step_names (in_def i)) i' now"
      using run_instance_result [of i tf e] ok by (auto simp: instance_ok_def terminal_def)
    then have "terminal (in_state i')"
      by (auto simp: run_ends_def terminal_iff)
    moreover have "sg_instances e' = sg_instances e"
      using r(2) by (simp add: moves_def)
    moreover have "\<not> terminal (in_state i)"
      using True by (simp add: terminal_def)
    ultimately show ?thesis
      using r True i by (auto simp: run_def must_def)
  next
    case False
    then have "terminal (in_state i)"
      using ok by (simp add: instance_ok_def)
    then show ?thesis
      using run_instance_ended [of i tf e] i False by (auto simp: run_def must_def terminal_iff)
  qed
qed

datatype ('c, 'o) saga_op =
    StartSaga "('c, 'o) saga_definition" 'c
  | RunSaga "('c, 'o) step_context \<Rightarrow> bool" jstring

fun engine_step :: "('c, 'o) saga_engine \<Rightarrow> ('c, 'o) saga_op \<Rightarrow> ('c, 'o) saga_engine" where
  "engine_step e (StartSaga d x) = fst (start e d x)"
| "engine_step e (RunSaga tf sid) = (case run tf e sid of Inr (e', _) \<Rightarrow> e' | Inl _ \<Rightarrow> e)"

definition saga_reach :: "(nat \<Rightarrow> nat) \<Rightarrow> ('c, 'o) saga_op list \<Rightarrow> ('c, 'o) saga_engine" where
  "saga_reach clock ops = foldl engine_step (new_saga_engine clock) ops"

lemma engine_inv_run:
  assumes inv: "engine_inv e"
  shows "engine_inv (engine_step e (RunSaga tf sid))"
proof (cases "jmap_get (sg_instances e) sid")
  case None
  then show ?thesis
    using inv by (simp add: run_def must_def)
next
  case (Some i)
  then obtain e1 i' now where r: "run tf e sid = Inr (e1\<lparr>sg_instances := jmap_set sid i' (sg_instances e)\<rparr>, in_state i')"
    "moves e i e1 i'" "terminal (in_state i')"
    using run_known [OF inv] by blast
  have sid: "in_id i = sid" "in_sync e i"
    using inv Some by (simp_all add: engine_inv_def instance_ok_def)
  have m: "in_id i' = sid" "in_sync e1 i'" "saga_log_inv (sg_log e1)" "sg_idSeq e1 = sg_idSeq e"
    "\<And>j. j \<noteq> sid \<Longrightarrow> saga_history e1 j = saga_history e j"
    using r(2) sid inv by (auto simp: moves_def engine_inv_def)
  have known: "\<exists>n < sg_idSeq e. sid = saga_id n"
    using inv Some by (simp add: engine_inv_def)
  have "instance_ok e1 j" if "jmap_get (sg_instances e) k = Some j" "k \<noteq> sid" for j k
    using that inv m(5) instance_ok_cong [of e1 j e] by (auto simp: engine_inv_def)
  moreover have "instance_ok e1 i'"
    using m r(3) by (simp add: instance_ok_def)
  ultimately have "engine_inv (e1\<lparr>sg_instances := jmap_set sid i' (sg_instances e)\<rparr>)"
    using inv m known by (auto simp: engine_inv_def jmap_get_set instance_ok_def in_sync_def split: if_splits)
  then show ?thesis
    using r(1) by simp
qed

interpretation sagas: invariant_machine engine_step engine_inv
proof
  show "engine_inv e \<Longrightarrow> engine_inv (engine_step e ev)" for e :: "('a, 'b) saga_engine" and ev
    using engine_inv_run by (cases ev) (auto simp: engine_inv_start)
qed

lemma engine_inv_reach [simp]: "engine_inv (saga_reach clock ops)"
  unfolding saga_reach_def by (rule sagas.inv_run) simp

lemma reach_instance:
  assumes "jmap_get (sg_instances (saga_reach clock ops)) sid = Some i"
  shows "in_id i = sid" and "in_sync (saga_reach clock ops) i" and "saga_log_inv (sg_log (saga_reach clock ops))"
    and "in_state i = Started \<Longrightarrow> in_completedSteps i = [] \<and> undone (saga_reach clock ops) i = []"
proof -
  have "in_id i = sid \<and> instance_ok (saga_reach clock ops) i \<and> saga_log_inv (sg_log (saga_reach clock ops))"
    using engine_inv_reach [of clock ops] assms unfolding engine_inv_def by blast
  then show "in_id i = sid" and "in_sync (saga_reach clock ops) i" and "saga_log_inv (sg_log (saga_reach clock ops))"
    and "in_state i = Started \<Longrightarrow> in_completedSteps i = [] \<and> undone (saga_reach clock ops) i = []"
    by (auto simp: instance_ok_def terminal_def)
qed

section \<open>Properties\<close>

text \<open>
  Running a started saga always ends: whatever its actions, compensations and timers do, no
  transition is refused, \<open>run\<close> returns a terminal state, and \<open>status\<close> reports it afterwards.
\<close>

theorem saga_run_settles:
  assumes "jmap_get (sg_instances (saga_reach clock ops)) sid \<noteq> None"
  shows "\<exists>e s. run tf (saga_reach clock ops) sid = Inr (e, s) \<and> s \<in> {Completed, Compensated, Failed} \<and>
    status e sid = Inr s"
proof -
  obtain i where "jmap_get (sg_instances (saga_reach clock ops)) sid = Some i"
    using assms by blast
  from run_known [OF engine_inv_reach this, of tf] show ?thesis
    by (auto simp: status_def must_def terminal_iff)
qed

text \<open>
  C4: a saga is all or nothing: when the run of a started saga completes, every step has been done
  in order and nothing was undone; when it is compensated, a proper prefix of the steps was done and
  exactly the done steps that have a compensation were undone, latest first; when it fails, the
  undoing stopped at the compensation that threw.
\<close>

theorem saga_all_or_nothing:
  assumes "jmap_get (sg_instances (saga_reach clock ops)) sid = Some i" and "in_state i = Started"
    and "run tf (saga_reach clock ops) sid = Inr (e, s)"
  shows "\<exists>i'. jmap_get (sg_instances e) sid = Some i' \<and>
    (let undone_names = names_of CompensatedStep (forSaga (sg_log e) sid);
         steps_done = in_completedSteps i';
         to_undo = filter (has_undo (in_def i)) (rev steps_done)
     in case s of
       Completed \<Rightarrow> steps_done = step_names (in_def i) \<and> undone_names = []
     | Compensated \<Rightarrow> (\<exists>k < length (step_names (in_def i)). steps_done = take k (step_names (in_def i))) \<and>
         undone_names = to_undo
     | Failed \<Rightarrow> (\<exists>k < length (step_names (in_def i)). steps_done = take k (step_names (in_def i))) \<and>
         (\<exists>name rest. to_undo = undone_names @ name # rest)
     | _ \<Rightarrow> False)"
proof -
  let ?e = "saga_reach clock ops"
  obtain e1 i' now where r: "run tf ?e sid = Inr (e1\<lparr>sg_instances := jmap_set sid i' (sg_instances ?e)\<rparr>, in_state i')"
    "moves ?e i e1 i'" "undone e1 i = undone ?e i @ now"
    "in_state i' = Completed \<and> now = [] \<and> in_completedSteps i' = step_names (in_def i) \<or>
     run_ends i (step_names (in_def i)) i' now"
    using run_known [OF engine_inv_reach assms(1), of tf] assms(2) by blast
  have i: "in_id i = sid" "in_completedSteps i = []" "undone ?e i = []"
    using reach_instance [OF assms(1)] assms(2) by simp_all
  have "saga_log_inv (sg_log e1)"
    using r(2) reach_instance(3) [OF assms(1)] by (simp add: moves_def)
  then have u: "names_of CompensatedStep (forSaga (sg_log e1) sid) = now"
    using r(3) i by (simp add: forSaga_history)
  have e: "e = e1\<lparr>sg_instances := jmap_set sid i' (sg_instances ?e)\<rparr>" "s = in_state i'"
    using assms(3) r(1) by simp_all
  show ?thesis
    using r(4) i(2) u by (intro exI [of _ i']) (auto simp: e run_ends_def rolled_back_def Let_def)
qed

text \<open>
  Crash recovery works: at every reachable point, replaying the log of a known saga gives its
  current state and, for distinct non-empty step names, the list of its completed steps.
\<close>

theorem saga_replay_between_runs:
  assumes "jmap_get (sg_instances (saga_reach clock ops)) sid = Some i"
    and "distinct (in_completedSteps i)" and "[] \<notin> set (in_completedSteps i)"
  shows "rp_state (replay (sg_log (saga_reach clock ops)) sid) = in_state i \<and>
    rp_completedSteps (replay (sg_log (saga_reach clock ops)) sid) = in_completedSteps i"
proof -
  show ?thesis
    using reach_instance [OF assms(1)] assms(2,3) by (simp add: in_sync_def replay_history recorded_def no_replay_def step_set_distinct)
qed

text \<open>
  The lifecycle is followed: the states logged for a saga form a path of legal transitions
  from \<open>started\<close>.
\<close>

theorem saga_states_legal:
  assumes "jmap_get (sg_instances (saga_reach clock ops)) sid \<noteq> None"
  shows "legal_path Started (states_of (forSaga (sg_log (saga_reach clock ops)) sid))"
proof -
  obtain i where "jmap_get (sg_instances (saga_reach clock ops)) sid = Some i"
    using assms by blast
  from reach_instance [OF this] show ?thesis
    by (simp add: in_sync_def forSaga_history)
qed

text \<open>
  Instances are isolated: running one saga leaves the instance and the log of every other saga
  as they were.
\<close>

theorem saga_isolation:
  assumes "run tf (saga_reach clock ops) sid = Inr (e, s)" and "other \<noteq> sid"
  shows "jmap_get (sg_instances e) other = jmap_get (sg_instances (saga_reach clock ops)) other \<and>
    forSaga (sg_log e) other = forSaga (sg_log (saga_reach clock ops)) other"
proof -
  let ?e = "saga_reach clock ops"
  obtain i where i: "jmap_get (sg_instances ?e) sid = Some i"
    using assms(1) by (auto simp: run_def must_def split: option.splits)
  obtain e1 i' where r: "run tf ?e sid = Inr (e1\<lparr>sg_instances := jmap_set sid i' (sg_instances ?e)\<rparr>, in_state i')"
    "moves ?e i e1 i'"
    using run_known [OF engine_inv_reach i, of tf] by blast
  show ?thesis
    using reach_instance(1,3) [OF i] r assms by (auto simp: moves_def forSaga_history)
qed

text \<open>What a failing attempt costs: the entries it writes and the timers it sets.\<close>

definition retry_wait :: "('c, 'o) saga_step \<Rightarrow> nat \<Rightarrow> nat list" where
  "retry_wait step n = (if n + 1 < max_attempts step \<and> backoff step n > 0 then [backoff step n] else [])"

lemma attempts_loop_failing:
  assumes "\<And>ctx. \<exists>msg. st_action step ctx = Threw False msg" and "or_zero (st_timeoutMs step) = 0"
  shows "\<exists>e'. attempts_loop tf e i step ns = (e', i, False) \<and>
    saga_count StepFailed e' i = saga_count StepFailed e i + length ns \<and>
    sg_timers e' = sg_timers e @ concat (map (retry_wait step) ns)"
proof (induction ns arbitrary: e)
  case (Cons n ns)
  obtain msg where "st_action step (make_context i (st_name step) n) = Threw False msg"
    using assms(1) by blast
  then have "\<exists>e1. run_attempt tf e i step n = (e1, i, False) \<and>
      saga_count StepFailed e1 i = saga_count StepFailed e i + 1 \<and> sg_timers e1 = sg_timers e @ retry_wait step n"
    using assms(2)
    by (cases "Suc n < max_attempts step")
      (simp_all add: run_attempt_def Let_def withTimeout_def history_write_log retry_wait_def)
  then obtain e1 where a: "run_attempt tf e i step n = (e1, i, False)"
    and e1: "saga_count StepFailed e1 i = saga_count StepFailed e i + 1" "sg_timers e1 = sg_timers e @ retry_wait step n"
    by blast
  obtain e2 where "attempts_loop tf e1 i step ns = (e2, i, False)"
    "saga_count StepFailed e2 i = saga_count StepFailed e1 i + length ns"
    "sg_timers e2 = sg_timers e1 @ concat (map (retry_wait step) ns)"
    using Cons.IH by blast
  then show ?case
    using a e1 by simp
qed simp

lemma attempts_loop_timing_out:
  assumes "\<And>ctx. tf ctx" and "or_zero (st_timeoutMs step) > 0"
  shows "\<exists>e'. attempts_loop tf e i step ns = (e', i, False) \<and>
    saga_count StepTimedOut e' i = saga_count StepTimedOut e i + 2 * length ns"
proof (induction ns arbitrary: e)
  case (Cons n ns)
  have "\<exists>e1. run_attempt tf e i step n = (e1, i, False) \<and> saga_count StepTimedOut e1 i = saga_count StepTimedOut e i + 2"
    using assms
    by (cases "Suc n < max_attempts step")
      (simp_all add: run_attempt_def Let_def withTimeout_def history_write_log make_context_def)
  then obtain e1 where a: "run_attempt tf e i step n = (e1, i, False)"
    and e1: "saga_count StepTimedOut e1 i = saga_count StepTimedOut e i + 2"
    by blast
  obtain e2 where "attempts_loop tf e1 i step ns = (e2, i, False)"
    "saga_count StepTimedOut e2 i = saga_count StepTimedOut e1 i + 2 * length ns"
    using Cons.IH by blast
  then show ?case
    using a e1 by simp
qed simp

lemma retry_waits: "concat (map (retry_wait step) [0..<max_attempts step]) = filter (\<lambda>d. d > 0) (map (backoff step) [0..<or_zero (st_retries step)])"
proof -
  define r where "r = or_zero (st_retries step)"
  have m: "max_attempts step = Suc r"
    by (simp add: max_attempts_def r_def)
  have "concat (map (retry_wait step) [0..<k]) = filter (\<lambda>d. d > 0) (map (backoff step) [0..<k])" if "k \<le> r" for k
    using that by (induction k) (auto simp: retry_wait_def m)
  from this [of r] show ?thesis
    by (simp add: m retry_wait_def flip: r_def)
qed

text \<open>
  A step whose action keeps throwing is tried once and then \<open>retries\<close> more times, the waits in
  between being \<open>base * factor ^ attempt\<close>, and only then does it fail, leaving the instance as it was.
\<close>

theorem saga_retry_schedule:
  assumes "\<And>ctx. \<exists>msg. st_action step ctx = Threw False msg" and "st_timeoutMs step = None"
  shows "\<exists>e'. runStep tf e i step = (e', i, False) \<and>
    saga_count StepFailed e' i = saga_count StepFailed e i + 1 + or_zero (st_retries step) \<and>
    sg_timers e' = sg_timers e @ filter (\<lambda>d. d > 0) (map (backoff step) [0..<or_zero (st_retries step)])"
  using attempts_loop_failing [OF assms(1), where tf = tf and e = e and i = i and ns = "[0..<max_attempts step]"] assms(2)
  by (simp add: runStep_def retry_waits) (simp add: max_attempts_def)

text \<open>
  A timed-out attempt is logged twice: the timer's callback and the \<open>catch\<close> of \<open>runStep\<close> both
  append a \<open>step_timed_out\<close> entry, so \<open>n\<close> attempts that time out leave \<open>2 * n\<close> such entries.
\<close>

theorem saga_timeout_logged_twice:
  assumes "\<And>ctx. tf ctx" and "st_timeoutMs step = Some (Suc t)"
  shows "\<exists>e'. runStep tf e i step = (e', i, False) \<and>
    saga_count StepTimedOut e' i = saga_count StepTimedOut e i + 2 * (1 + or_zero (st_retries step))"
  using attempts_loop_timing_out [OF assms(1), where e = e and i = i and step = step and ns = "[0..<max_attempts step]"] assms(2)
  by (simp add: runStep_def) (simp add: max_attempts_def)

section \<open>Witnesses\<close>

text \<open>A saga of two steps, whose second step throws; the first has a compensation.\<close>

definition pay_step :: "(unit, nat) saga_step" where
  "pay_step = \<lparr>st_name = js ''pay'', st_action = (\<lambda>_. Returned 5), st_compensate = Some (\<lambda>_ _. Returned ()),
     st_timeoutMs = None, st_retries = None, st_backoffBaseMs = None, st_backoffFactor = None\<rparr>"

definition ship_step :: "(unit, nat) saga_step" where
  "ship_step = \<lparr>st_name = js ''ship'', st_action = (\<lambda>_. Threw False (js ''no stock'')), st_compensate = None,
     st_timeoutMs = None, st_retries = Some 2, st_backoffBaseMs = Some 10, st_backoffFactor = Some 3\<rparr>"

definition order_ops :: "(unit, nat) saga_op list" where
  "order_ops = [StartSaga \<lparr>df_name = js ''order'', df_steps = [pay_step, ship_step]\<rparr> (),
     StartSaga \<lparr>df_name = js ''other'', df_steps = []\<rparr> ()]"

abbreviation order_engine :: "(unit, nat) saga_engine" where
  "order_engine \<equiv> saga_reach (\<lambda>n. n) order_ops"

abbreviation order_instance :: "(unit, nat) saga_instance" where
  "order_instance \<equiv> \<lparr>in_id = saga_id 0, in_def = \<lparr>df_name = js ''order'', df_steps = [pay_step, ship_step]\<rparr>,
     in_input = (), in_state = Started, in_outputs = jmap_empty, in_completedSteps = []\<rparr>"

lemma order_instance: "jmap_get (sg_instances order_engine) (saga_id 0) = Some order_instance"
  by (simp add: saga_reach_def order_ops_def start_result Let_def jmap_get_set fresh_instance_def new_saga_engine_def)

theorem saga_run_settles_witness:
  "\<exists>e s. run (\<lambda>_. False) order_engine (saga_id 0) = Inr (e, s) \<and> s \<in> {Completed, Compensated, Failed} \<and>
     status e (saga_id 0) = Inr s"
  by (rule saga_run_settles) (simp add: order_instance)

lemma order_runs:
  "\<exists>e. run (\<lambda>_. False) order_engine (saga_id 0) = Inr (e, Compensated)"
proof -
  have "js ''ship'' \<noteq> js ''pay''"
    by simp
  then show ?thesis
    by (simp add: run_def must_def order_instance run_instance_def transition_def Let_def runStep_def max_attempts_def
        pay_step_def ship_step_def run_attempt_def withTimeout_def upt_rec compensate_def backoff_def)
qed

theorem saga_all_or_nothing_witness:
  "\<exists>e i'. run (\<lambda>_. False) order_engine (saga_id 0) = Inr (e, Compensated) \<and>
     jmap_get (sg_instances e) (saga_id 0) = Some i' \<and>
     names_of CompensatedStep (forSaga (sg_log e) (saga_id 0)) =
       filter (has_undo (in_def order_instance)) (rev (in_completedSteps i'))"
proof -
  obtain e where "run (\<lambda>_. False) order_engine (saga_id 0) = Inr (e, Compensated)"
    using order_runs by blast
  from saga_all_or_nothing [OF order_instance _ this] this show ?thesis
    by (auto simp: Let_def)
qed

theorem saga_replay_between_runs_witness:
  "rp_state (replay (sg_log order_engine) (saga_id 0)) = Started \<and>
   rp_completedSteps (replay (sg_log order_engine) (saga_id 0)) = []"
  using saga_replay_between_runs [OF order_instance] by simp

theorem saga_states_legal_witness:
  "legal_path Started (states_of (forSaga (sg_log order_engine) (saga_id 0)))"
  by (rule saga_states_legal) (simp add: order_instance)

theorem saga_isolation_witness:
  "\<exists>e. run (\<lambda>_. False) order_engine (saga_id 0) = Inr (e, Compensated) \<and>
     forSaga (sg_log e) (saga_id 1) = forSaga (sg_log order_engine) (saga_id 1)"
proof -
  obtain e where "run (\<lambda>_. False) order_engine (saga_id 0) = Inr (e, Compensated)"
    using order_runs by blast
  with saga_isolation [OF this, of "saga_id 1"] show ?thesis
    by auto
qed

theorem saga_retry_schedule_witness:
  "\<exists>e'. runStep (\<lambda>_. False) (new_saga_engine (\<lambda>n. n)) order_instance ship_step = (e', order_instance, False) \<and>
     sg_timers e' = [10, 30]"
proof -
  have "\<exists>msg. st_action ship_step ctx = Threw False msg" for ctx
    by (simp add: ship_step_def)
  from saga_retry_schedule [OF this, where tf = "\<lambda>_. False" and e = "new_saga_engine (\<lambda>n. n)" and i = order_instance] show ?thesis
    by (auto simp: ship_step_def backoff_def new_saga_engine_def upt_rec)
qed

theorem saga_timeout_logged_twice_witness:
  "\<exists>e'. runStep (\<lambda>_. True) (new_saga_engine (\<lambda>n. n)) order_instance (ship_step\<lparr>st_timeoutMs := Some 50\<rparr>) =
      (e', order_instance, False) \<and> saga_count StepTimedOut e' order_instance = 6"
proof -
  have "st_timeoutMs (ship_step\<lparr>st_timeoutMs := Some 50\<rparr>) = Some (Suc 49)"
    by simp
  from saga_timeout_logged_twice [OF _ this, where tf = "\<lambda>_. True" and e = "new_saga_engine (\<lambda>n. n)" and i = order_instance] show ?thesis
    by (auto simp: ship_step_def new_saga_engine_def new_saga_log_def history_def)
qed

end
