(* ===== verification/SagaRuns.thy ===== *)
theory SagaRuns
  imports SagaEngine
begin

text \<open>
  The runs of \<open>saga/engine/SagaEngine.ts\<close> from \<open>await\<close> to \<open>await\<close>. A run stops where it awaits an
  action, a timer or a compensation, which may settle in any way, at any time or never; between two stops other sagas are
  started and other runs go on, also of the same saga. \<open>run\<close> of \<open>SagaEngine\<close> is the run that nothing
  interrupts.
\<close>

section \<open>Where a run stops\<close>

datatype ('c, 'o) run_point =
    Acting "('c, 'o) saga_step" "('c, 'o) saga_step list" nat
  | TimedOut "('c, 'o) saga_step" "('c, 'o) saga_step list" nat
  | Waiting "('c, 'o) saga_step" "('c, 'o) saga_step list" nat
  | Undoing jstring "jstring list"
  | Ended "saga_error + saga_lifecycle"

type_synonym ('c, 'o) stop = "('c, 'o) saga_engine \<times> ('c, 'o) saga_instance \<times> ('c, 'o) run_point"

text \<open>From the end of the loop over the steps to the \<open>return\<close>.\<close>

definition finish_run :: "('c, 'o) saga_engine \<Rightarrow> ('c, 'o) saga_instance \<Rightarrow> ('c, 'o) stop" where
  "finish_run e i =
     (if in_state i = Running then
        (case transition e i Completed None of Inl err \<Rightarrow> (e, i, Ended (Inl err)) | Inr (e, i) \<Rightarrow> (e, i, Ended (Inr (in_state i))))
      else (e, i, Ended (Inr (in_state i))))"

text \<open>An attempt up to the call of the action, its timer set.\<close>

definition enter_attempt ::
  "('c, 'o) saga_engine \<Rightarrow> ('c, 'o) saga_instance \<Rightarrow> ('c, 'o) saga_step \<Rightarrow> ('c, 'o) saga_step list \<Rightarrow> nat \<Rightarrow> ('c, 'o) stop" where
  "enter_attempt e i step rest attempt =
     (let e = write_log e (in_id i) StepStarted None (Some (st_name step))
                (Some (js ''attempt '' @ js_nat (attempt + 1) @ js ''/'' @ js_nat (max_attempts step)));
          timeoutMs = or_zero (st_timeoutMs step);
          e = (if timeoutMs = 0 then e else set_timer e timeoutMs)
      in (e, i, Acting step rest attempt))"

fun enter_steps :: "('c, 'o) saga_engine \<Rightarrow> ('c, 'o) saga_instance \<Rightarrow> ('c, 'o) saga_step list \<Rightarrow> ('c, 'o) stop" where
  "enter_steps e i [] = finish_run e i"
| "enter_steps e i (step # rest) = (if in_state i \<noteq> Running then finish_run e i else enter_attempt e i step rest 0)"

text \<open>The loop of \<open>compensate\<close> up to the next compensation it calls.\<close>

fun enter_undo :: "('c, 'o) saga_engine \<Rightarrow> ('c, 'o) saga_instance \<Rightarrow> jstring list \<Rightarrow> ('c, 'o) stop" where
  "enter_undo e i [] =
     (case transition e i Compensated None of Inl err \<Rightarrow> (e, i, Ended (Inl err)) | Inr (e, i) \<Rightarrow> finish_run e i)"
| "enter_undo e i (name # names) =
     (case find (\<lambda>s. st_name s = name) (df_steps (in_def i)) of
        None \<Rightarrow> enter_undo e i names
      | Some step \<Rightarrow> (case st_compensate step of None \<Rightarrow> enter_undo e i names | Some _ \<Rightarrow> (e, i, Undoing name names)))"

definition step_refused :: "('c, 'o) saga_engine \<Rightarrow> ('c, 'o) saga_instance \<Rightarrow> ('c, 'o) stop" where
  "step_refused e i =
     (if in_state i = Running then
        (case transition e i Compensating None of
           Inl err \<Rightarrow> (e, i, Ended (Inl err))
         | Inr (e, i) \<Rightarrow> enter_undo e i (rev (in_completedSteps i)))
      else enter_undo e i (rev (in_completedSteps i)))"

definition retry_step ::
  "('c, 'o) saga_engine \<Rightarrow> ('c, 'o) saga_instance \<Rightarrow> ('c, 'o) saga_step \<Rightarrow> ('c, 'o) saga_step list \<Rightarrow> nat \<Rightarrow> ('c, 'o) stop" where
  "retry_step e i step rest attempt =
     enter_attempt (write_log e (in_id i) StepRetrying None (Some (st_name step)) None) i step rest (attempt + 1)"

definition attempt_failed ::
  "('c, 'o) saga_engine \<Rightarrow> ('c, 'o) saga_instance \<Rightarrow> ('c, 'o) saga_step \<Rightarrow> ('c, 'o) saga_step list \<Rightarrow> nat \<Rightarrow> bool \<Rightarrow> jstring \<Rightarrow>
     ('c, 'o) stop" where
  "attempt_failed e i step rest attempt isTimeout msg =
     (let e = write_log e (in_id i) (if isTimeout then StepTimedOut else StepFailed) None (Some (st_name step)) (Some msg) in
      if attempt + 1 < max_attempts step then
        if backoff step attempt > 0 then (set_timer e (backoff step attempt), i, Waiting step rest attempt)
        else retry_step e i step rest attempt
      else step_refused e i)"

section \<open>What settles\<close>

text \<open>
  What a run awaits: the outcome of the action, or its timer first, whose rejection reaches the run after the timer's callback has
  written to the log; the end of a backoff; the outcome of a compensation. \<open>None\<close>: the run does not await that.
\<close>

datatype 'o answer = ActionSettles "'o outcome" | TimerFires | Rejects | WaitOver | UndoSettles "unit outcome"

fun resume :: "('c, 'o) saga_engine \<Rightarrow> ('c, 'o) saga_instance \<Rightarrow> ('c, 'o) run_point \<Rightarrow> 'o answer \<Rightarrow> ('c, 'o) stop option" where
  "resume e i (Acting step rest attempt) (ActionSettles (Returned out)) =
     Some (enter_steps (write_log e (in_id i) StepSucceeded None (Some (st_name step)) None)
       (i\<lparr>in_outputs := jmap_set (st_name step) out (in_outputs i),
          in_completedSteps := in_completedSteps i @ [st_name step]\<rparr>) rest)"
| "resume e i (Acting step rest attempt) (ActionSettles (Threw isTimeout msg)) =
     Some (attempt_failed e i step rest attempt isTimeout msg)"
| "resume e i (Acting step rest attempt) TimerFires =
     (if or_zero (st_timeoutMs step) = 0 then None
      else Some (write_log e (in_id i) StepTimedOut None (Some (st_name step)) None, i, TimedOut step rest attempt))"
| "resume e i (TimedOut step rest attempt) Rejects =
     Some (attempt_failed e i step rest attempt True (timeout_message (st_name step) (or_zero (st_timeoutMs step))))"
| "resume e i (Waiting step rest attempt) WaitOver = Some (retry_step e i step rest attempt)"
| "resume e i (Undoing name names) (UndoSettles (Returned _)) =
     Some (enter_undo (write_log e (in_id i) CompensatedStep None (Some name) None) i names)"
| "resume e i (Undoing name names) (UndoSettles (Threw _ msg)) =
     Some (let e = write_log e (in_id i) CompensationFailed None (Some name) (Some msg) in
       case transition e i Failed None of Inl err \<Rightarrow> (e, i, Ended (Inl err)) | Inr (e, i) \<Rightarrow> finish_run e i)"
| "resume e i pt a = None"

section \<open>Runs side by side\<close>

text \<open>The instance is mutated in place: what a run leaves is what every other sees.\<close>

definition put_instance :: "jstring \<Rightarrow> ('c, 'o) saga_instance \<Rightarrow> ('c, 'o) saga_engine \<Rightarrow> ('c, 'o) saga_engine" where
  "put_instance sid i e = e\<lparr>sg_instances := jmap_set sid i (sg_instances e)\<rparr>"

definition call_run :: "('c, 'o) saga_engine \<Rightarrow> jstring \<Rightarrow> ('c, 'o) saga_engine \<times> ('c, 'o) run_point" where
  "call_run e sid =
     (case must e sid of
        Inl err \<Rightarrow> (e, Ended (Inl err))
      | Inr i \<Rightarrow>
          (case (case (if in_state i = Started then transition e i Running None else Inr (e, i)) of
                   Inl err \<Rightarrow> (e, i, Ended (Inl err))
                 | Inr (e, i) \<Rightarrow> enter_steps e i (df_steps (in_def i))) of
             (e, i, pt) \<Rightarrow> (put_instance sid i e, pt)))"

record ('c, 'o) saga_pool =
  po_engine :: "('c, 'o) saga_engine"
  po_runs :: "(jstring \<times> ('c, 'o) run_point) list"

datatype ('c, 'o) saga_event =
    StartEvent "('c, 'o) saga_definition" 'c
  | RunEvent jstring
  | AnswerEvent nat "'o answer"

definition new_pool :: "(nat \<Rightarrow> nat) \<Rightarrow> ('c, 'o) saga_pool" where
  "new_pool clock = \<lparr>po_engine = new_saga_engine clock, po_runs = []\<rparr>"

definition answer_run :: "nat \<Rightarrow> 'o answer \<Rightarrow> ('c, 'o) saga_pool \<Rightarrow> ('c, 'o) saga_pool option" where
  "answer_run k a p =
     (if k < length (po_runs p) then
        (case po_runs p ! k of (sid, pt) \<Rightarrow>
           (case jmap_get (sg_instances (po_engine p)) sid of
              None \<Rightarrow> None
            | Some i \<Rightarrow>
                (case resume (po_engine p) i pt a of
                   None \<Rightarrow> None
                 | Some (e, i, pt) \<Rightarrow> Some \<lparr>po_engine = put_instance sid i e, po_runs = (po_runs p)[k := (sid, pt)]\<rparr>)))
      else None)"

fun pool_step :: "('c, 'o) saga_pool \<Rightarrow> ('c, 'o) saga_event \<Rightarrow> ('c, 'o) saga_pool" where
  "pool_step p (StartEvent d x) = p\<lparr>po_engine := fst (start (po_engine p) d x)\<rparr>"
| "pool_step p (RunEvent sid) =
     (case call_run (po_engine p) sid of (e, pt) \<Rightarrow> \<lparr>po_engine = e, po_runs = po_runs p @ [(sid, pt)]\<rparr>)"
| "pool_step p (AnswerEvent k a) = (case answer_run k a p of None \<Rightarrow> p | Some p \<Rightarrow> p)"

section \<open>The log keeps pace\<close>

text \<open>Every stretch between two awaits moves one instance.\<close>

abbreviation stop_moves :: "('c, 'o) saga_engine \<Rightarrow> ('c, 'o) saga_instance \<Rightarrow> ('c, 'o) stop \<Rightarrow> bool" where
  "stop_moves e i r \<equiv> moves e i (fst r) (fst (snd r))"

lemma stop_transition:
  assumes "moves e i e1 i1" and "\<And>e2 i2. moves e i e2 i2 \<Longrightarrow> stop_moves e i (f e2 i2)"
  shows "stop_moves e i (case transition e1 i1 to d of Inl err \<Rightarrow> (e1, i1, Ended (Inl err)) | Inr (e, i) \<Rightarrow> f e i)"
proof (cases "transition e1 i1 to d")
  case (Inr r)
  then show ?thesis
    using moves_trans [OF assms(1)] moves_transition [of e1 i1 to d] assms(2) by (cases r) auto
qed (use assms(1) in simp)

lemma finish_moves: "moves e i e1 i1 \<Longrightarrow> stop_moves e i (finish_run e1 i1)"
  unfolding finish_run_def by (auto intro!: stop_transition)

lemma attempt_moves: "moves e i e1 i1 \<Longrightarrow> stop_moves e i (enter_attempt e1 i1 step rest n)"
  by (simp add: enter_attempt_def Let_def moves_note)

lemma steps_moves: "moves e i e1 i1 \<Longrightarrow> stop_moves e i (enter_steps e1 i1 steps)"
  by (cases steps) (simp_all add: finish_moves attempt_moves)

lemma undo_moves: "moves e i e1 i1 \<Longrightarrow> stop_moves e i (enter_undo e1 i1 names)"
proof (induction names)
  case Nil
  then show ?case
    by (simp only: enter_undo.simps) (rule stop_transition, simp_all add: finish_moves)
qed (simp split: option.split)

lemma refused_moves: "moves e i e1 i1 \<Longrightarrow> stop_moves e i (step_refused e1 i1)"
  unfolding step_refused_def by (auto intro!: stop_transition undo_moves)

lemma failed_moves: "moves e i e1 i1 \<Longrightarrow> stop_moves e i (attempt_failed e1 i1 step rest n isTimeout msg)"
  by (simp add: attempt_failed_def retry_step_def Let_def moves_note attempt_moves refused_moves)

lemma resume_moves: "resume e i pt a = Some r \<Longrightarrow> stop_moves e i r"
proof (induction e i pt a rule: resume.induct)
  case (1 e i step rest attempt out)
  then show ?case
    using steps_moves [OF moves_success [OF moves_refl]] by auto
next
  case (6 e i name names u)
  then show ?case
    using undo_moves [OF moves_note [OF moves_refl], of CompensatedStep e i "Some name" None names] by auto
next
  case (7 e i name names u msg)
  then show ?case
    by (auto simp: Let_def intro!: stop_transition finish_moves moves_note)
qed (auto simp: failed_moves retry_step_def moves_note attempt_moves split: if_splits)

definition log_agrees :: "('c, 'o) saga_engine \<Rightarrow> bool" where
  "log_agrees e \<longleftrightarrow>
     saga_log_inv (sg_log e) \<and>
     (\<forall>sid i. jmap_get (sg_instances e) sid = Some i \<longrightarrow> in_id i = sid \<and> in_sync e i) \<and>
     (\<forall>n \<ge> sg_idSeq e. jmap_get (sg_instances e) (saga_id n) = None \<and> saga_history e (saga_id n) = []) \<and>
     (\<forall>sid. jmap_get (sg_instances e) sid \<noteq> None \<longrightarrow> (\<exists>n < sg_idSeq e. sid = saga_id n))"

lemma log_agrees_put:
  assumes agrees: "log_agrees e" and i: "jmap_get (sg_instances e) sid = Some i" and m: "moves e i e' i'"
  shows "log_agrees (put_instance sid i' e')"
proof -
  have sid: "in_id i = sid" "in_sync e i" "\<exists>n < sg_idSeq e. sid = saga_id n"
    using agrees i by (simp_all add: log_agrees_def)
  have m': "in_id i' = sid" "in_sync e' i'" "saga_log_inv (sg_log e')" "sg_idSeq e' = sg_idSeq e" "sg_instances e' = sg_instances e"
    "\<And>j. j \<noteq> sid \<Longrightarrow> saga_history e' j = saga_history e j"
    using m sid agrees by (auto simp: moves_def log_agrees_def)
  have "in_sync e' j" if "jmap_get (sg_instances e) k = Some j" "k \<noteq> sid" for j k
    using that agrees m'(6) by (auto simp: log_agrees_def in_sync_def)
  then show ?thesis
    using agrees sid m' by (auto simp: log_agrees_def put_instance_def jmap_get_set in_sync_def split: if_splits)
qed

lemma log_agrees_start: "log_agrees e \<Longrightarrow> log_agrees (fst (start e d x))"
proof -
  assume agrees: "log_agrees e"
  let ?sid = "saga_id (sg_idSeq e)" and ?i = "fresh_instance e d x"
  define e' where "e' = fst (start e d x)"
  have h: "saga_history e' j = (if j = ?sid then [\<lparr>le_seq = sl_seq (sg_log e), le_sagaId = ?sid,
      le_at = sg_clock e (sg_reads e), le_kind = StateEntry, le_state = Some Started, le_step = None, le_detail = None\<rparr>]
      else saga_history e j)" for j
    using agrees by (simp add: e'_def start_result Let_def write_log_def history_append log_agrees_def)
  have g: "jmap_get (sg_instances e') j = (if j = ?sid then Some ?i else jmap_get (sg_instances e) j)" for j
    by (simp add: e'_def start_result Let_def jmap_get_set)
  have s: "sg_idSeq e' = sg_idSeq e + 1" "saga_log_inv (sg_log e')"
    using agrees by (simp_all add: e'_def start_result Let_def log_agrees_def write_log_def)
  have "in_sync e' ?i" "in_id ?i = ?sid"
    by (simp_all add: in_sync_def fresh_instance_def h replay_entry_def Let_def states_of_def List.map_filter_simps recorded_def
        no_replay_def step_set_def)
  moreover have "in_sync e' i" if "jmap_get (sg_instances e) j = Some i" "j \<noteq> ?sid" for i j
    using that agrees by (auto simp: log_agrees_def in_sync_def h)
  moreover have "\<exists>n < sg_idSeq e'. j = saga_id n" if "jmap_get (sg_instances e') j \<noteq> None" for j
    using that agrees by (auto simp: log_agrees_def g s(1) less_Suc_eq split: if_splits)
  ultimately have "log_agrees e'"
    using agrees s by (auto simp: log_agrees_def g h split: if_splits)
  then show ?thesis
    by (simp add: e'_def)
qed

text \<open>What a run that has not ended awaits can come.\<close>

fun point_ok :: "('c, 'o) run_point \<Rightarrow> bool" where
  "point_ok (Acting step rest n) \<longleftrightarrow> n < max_attempts step"
| "point_ok (TimedOut step rest n) \<longleftrightarrow> n < max_attempts step"
| "point_ok (Waiting step rest n) \<longleftrightarrow> n + 1 < max_attempts step"
| "point_ok (Undoing name names) \<longleftrightarrow> True"
| "point_ok (Ended r) \<longleftrightarrow> True"

fun run_ended :: "('c, 'o) run_point \<Rightarrow> bool" where
  "run_ended (Ended r) = True"
| "run_ended pt = False"

abbreviation stop_ok :: "('c, 'o) stop \<Rightarrow> bool" where
  "stop_ok r \<equiv> point_ok (snd (snd r))"

lemma finish_ok: "stop_ok (finish_run e i)"
  by (auto simp: finish_run_def split: sum.split)

lemma steps_ok: "stop_ok (enter_steps e i steps)"
  by (cases steps) (simp_all add: finish_ok enter_attempt_def Let_def max_attempts_def)

lemma undo_ok: "stop_ok (enter_undo e i names)"
  by (induction names) (auto simp: finish_ok split: option.split sum.split)

lemma refused_ok: "stop_ok (step_refused e i)"
  by (auto simp: step_refused_def undo_ok split: sum.split)

lemma failed_ok: "stop_ok (attempt_failed e i step rest n isTimeout msg)"
  by (simp add: attempt_failed_def retry_step_def enter_attempt_def Let_def refused_ok)

lemma resume_ok: "resume e i pt a = Some r \<Longrightarrow> point_ok pt \<Longrightarrow> stop_ok r"
  by (induction e i pt a rule: resume.induct)
    (auto simp: steps_ok failed_ok undo_ok finish_ok retry_step_def enter_attempt_def Let_def split: if_splits sum.split)

definition pool_ok :: "('c, 'o) saga_pool \<Rightarrow> bool" where
  "pool_ok p \<longleftrightarrow> log_agrees (po_engine p)
     \<and> list_all (\<lambda>(sid, pt). point_ok pt \<and> (run_ended pt \<or> jmap_has (sg_instances (po_engine p)) sid)) (po_runs p)"

lemma call_run_ok:
  assumes "log_agrees e" and "call_run e sid = (e', pt)"
  shows "log_agrees e'" and "point_ok pt" and "run_ended pt \<or> jmap_has (sg_instances e') sid"
    and "\<And>j. jmap_has (sg_instances e') j = jmap_has (sg_instances e) j"
proof -
  have "log_agrees e' \<and> point_ok pt \<and> (run_ended pt \<or> jmap_has (sg_instances e') sid)
      \<and> (\<forall>j. jmap_has (sg_instances e') j = jmap_has (sg_instances e) j)"
  proof (cases "jmap_get (sg_instances e) sid")
    case None
    then show ?thesis
      using assms by (auto simp: call_run_def must_def)
  next
    case (Some i)
    let ?r = "case (if in_state i = Started then transition e i Running None else Inr (e, i)) of
        Inl err \<Rightarrow> (e, i, Ended (Inl err)) | Inr (e, i) \<Rightarrow> enter_steps e i (df_steps (in_def i))"
    have "stop_moves e i ?r"
      using stop_transition [OF moves_refl steps_moves] steps_moves [OF moves_refl]
      by (cases "in_state i = Started") (auto)
    moreover have "stop_ok ?r"
      by (auto simp: steps_ok split: sum.split)
    moreover have "e' = put_instance sid (fst (snd ?r)) (fst ?r)" "pt = snd (snd ?r)"
      using assms(2) Some by (auto simp: call_run_def must_def case_prod_unfold)
    ultimately show ?thesis
      using log_agrees_put [OF assms(1) Some, of "fst ?r" "fst (snd ?r)"] Some
      by (auto simp: put_instance_def jmap_has_def jmap_get_set moves_def)
  qed
  then show "log_agrees e'" "point_ok pt" "run_ended pt \<or> jmap_has (sg_instances e') sid"
    "\<And>j. jmap_has (sg_instances e') j = jmap_has (sg_instances e) j"
    by blast+
qed

lemma answer_run_ok:
  assumes "pool_ok p" and "answer_run k a p = Some q"
  shows "pool_ok q"
proof -
  obtain sid pt i e i' pt' where k: "k < length (po_runs p)" "po_runs p ! k = (sid, pt)"
    and i: "jmap_get (sg_instances (po_engine p)) sid = Some i" and r: "resume (po_engine p) i pt a = Some (e, i', pt')"
    and q: "q = \<lparr>po_engine = put_instance sid i' e, po_runs = (po_runs p)[k := (sid, pt')]\<rparr>"
    using assms(2) by (auto simp: answer_run_def split: if_splits prod.splits option.splits)
  have "log_agrees (put_instance sid i' e)"
    using log_agrees_put [OF _ i] resume_moves [OF r] assms(1) by (simp add: pool_ok_def)
  moreover have "point_ok pt'"
    using resume_ok [OF r] assms(1) k by (auto simp: pool_ok_def list_all_length)
  moreover have "sg_instances e = sg_instances (po_engine p)"
    using resume_moves [OF r] by (simp add: moves_def)
  ultimately show ?thesis
    using assms(1) k(1) i by (auto simp: pool_ok_def q list_all_length nth_list_update put_instance_def jmap_has_def jmap_get_set
        split: prod.splits)
qed

interpretation pools: invariant_machine pool_step pool_ok
proof
  fix p :: "('a, 'b) saga_pool" and ev
  assume ok: "pool_ok p"
  show "pool_ok (pool_step p ev)"
  proof (cases ev)
    case (StartEvent d x)
    have "jmap_has (sg_instances (fst (start (po_engine p) d x))) sid" if "jmap_has (sg_instances (po_engine p)) sid" for sid
      using that by (auto simp: start_result Let_def jmap_has_def jmap_get_set)
    then show ?thesis
      using ok log_agrees_start [of "po_engine p" d x] StartEvent by (fastforce simp: pool_ok_def list_all_iff)
  next
    case (RunEvent sid)
    obtain e pt where c: "call_run (po_engine p) sid = (e, pt)"
      by fastforce
    then show ?thesis
      using ok RunEvent call_run_ok [OF _ c] by (auto simp: pool_ok_def list_all_iff)
  next
    case (AnswerEvent k a)
    then show ?thesis
      using ok answer_run_ok [OF ok] by (auto split: option.split)
  qed
qed

lemma pool_ok_new: "pool_ok (new_pool clock)"
proof -
  have "log_agrees (new_saga_engine clock :: ('a, 'b) saga_engine)"
    using engine_inv_new [of clock] by (auto simp: engine_inv_def log_agrees_def instance_ok_def)
  then show ?thesis
    by (simp add: pool_ok_def new_pool_def)
qed


section \<open>A run awaits finitely often\<close>

text \<open>What is left of a run: the attempts of its steps, then the compensations.\<close>

fun awaits_left :: "('c, 'o) run_point \<Rightarrow> nat \<times> nat" where
  "awaits_left (Acting step rest n) = (1, sum_list (map (\<lambda>s. 3 * max_attempts s + 1) rest) + 3 * (max_attempts step - n))"
| "awaits_left (TimedOut step rest n) = (1, sum_list (map (\<lambda>s. 3 * max_attempts s + 1) rest) + 3 * (max_attempts step - n) - 1)"
| "awaits_left (Waiting step rest n) = (1, sum_list (map (\<lambda>s. 3 * max_attempts s + 1) rest) + 3 * (max_attempts step - n) - 2)"
| "awaits_left (Undoing name names) = (0, Suc (length names))"
| "awaits_left (Ended r) = (0, 0)"

abbreviation fewer :: "((nat \<times> nat) \<times> (nat \<times> nat)) set" where
  "fewer \<equiv> less_than <*lex*> less_than"

lemma finish_left: "awaits_left (snd (snd (finish_run e i))) = (0, 0)"
  by (auto simp: finish_run_def split: sum.split)

lemma undo_left: "awaits_left (snd (snd (enter_undo e i names))) = (0, 0)
    \<or> (\<exists>n \<le> length names. awaits_left (snd (snd (enter_undo e i names))) = (0, n))"
  by (induction names) (auto simp: finish_left le_Suc_eq split: option.split sum.split)

lemma undo_phase: "fst (awaits_left (snd (snd (enter_undo e i names)))) = 0"
  using undo_left [of e i names] by auto

lemma refused_phase: "fst (awaits_left (snd (snd (step_refused e i)))) = 0"
  by (auto simp: step_refused_def undo_phase split: sum.split)

lemma steps_left:
  "awaits_left (snd (snd (enter_steps e i steps))) = (0, 0)
     \<or> (\<exists>m < sum_list (map (\<lambda>s. 3 * max_attempts s + 1) steps). awaits_left (snd (snd (enter_steps e i steps))) = (1, m))"
  by (cases steps) (auto simp: finish_left enter_attempt_def Let_def)

lemma failed_left:
  assumes "n < max_attempts step"
  shows "fst (awaits_left (snd (snd (attempt_failed e i step rest n isTimeout msg)))) = 0
    \<or> (\<exists>m. m + 2 \<le> sum_list (map (\<lambda>s. 3 * max_attempts s + 1) rest) + 3 * (max_attempts step - n)
         \<and> awaits_left (snd (snd (attempt_failed e i step rest n isTimeout msg))) = (1, m))"
  using assms by (auto simp: attempt_failed_def retry_step_def enter_attempt_def Let_def refused_phase)

lemma resume_left:
  assumes "resume e i pt a = Some r" and "point_ok pt"
  shows "(awaits_left (snd (snd r)), awaits_left pt) \<in> fewer"
  using assms
proof (induction e i pt a rule: resume.induct)
  case (1 e i step rest attempt out)
  let ?e = "write_log e (in_id i) StepSucceeded None (Some (st_name step)) None"
  let ?i = "i\<lparr>in_outputs := jmap_set (st_name step) out (in_outputs i), in_completedSteps := in_completedSteps i @ [st_name step]\<rparr>"
  show ?case
    using 1 steps_left [of ?e ?i rest] by auto
next
  case (2 e i step rest attempt isTimeout msg)
  then show ?case
    using failed_left [of attempt step e i rest isTimeout msg] by (cases "awaits_left (snd (snd r))") auto
next
  case (4 e i step rest attempt)
  then show ?case
    using failed_left [of attempt step e i rest True "timeout_message (st_name step) (or_zero (st_timeoutMs step))"]
    by (cases "awaits_left (snd (snd r))") auto
next
  case (6 e i name names u)
  then show ?case
    using undo_left [of "write_log e (in_id i) CompensatedStep None (Some name) None" i names] by auto
next
  case (7 e i name names u msg)
  then show ?case
    by (auto simp: Let_def finish_left split: sum.split)
qed (auto simp: retry_step_def enter_attempt_def Let_def split: if_splits)

text \<open>What goes down a well-founded order whenever it changes changes finitely often.\<close>

lemma finitely_often:
  assumes "wf r" and "\<And>n. f (Suc n) = f n \<or> (f (Suc n), f n) \<in> r"
  shows "finite {n. (f (Suc n), f n) \<in> r}"
proof -
  have "finite {n. k \<le> n \<and> (f (Suc n), f n) \<in> r}" for k
  proof (induction "f k" arbitrary: k rule: wf_induct_rule [OF assms(1)])
    case 1
    show ?case
    proof (cases "\<exists>n. k \<le> n \<and> (f (Suc n), f n) \<in> r")
      case True
      define m where "m = (LEAST n. k \<le> n \<and> (f (Suc n), f n) \<in> r)"
      have m: "k \<le> m" "(f (Suc m), f m) \<in> r"
        using LeastI_ex [OF True] by (simp_all add: m_def)
      have least: "n < m \<Longrightarrow> k \<le> n \<Longrightarrow> (f (Suc n), f n) \<notin> r" for n
        using not_less_Least [of n] by (auto simp: m_def)
      have same: "k \<le> n \<Longrightarrow> n \<le> m \<Longrightarrow> f n = f k" for n
      proof (induction n)
        case (Suc n)
        then show ?case
          using least [of n] assms(2) [of n] by (cases "k \<le> n") (auto simp: le_Suc_eq)
      qed simp
      have "(f (Suc m), f k) \<in> r"
        using m(2) unfolding same [OF m(1) order_refl] .
      from 1 [OF this] have "finite (insert m {n. Suc m \<le> n \<and> (f (Suc n), f n) \<in> r})"
        by simp
      moreover have "{n. k \<le> n \<and> (f (Suc n), f n) \<in> r} \<subseteq> insert m {n. Suc m \<le> n \<and> (f (Suc n), f n) \<in> r}"
      proof
        fix n
        assume n: "n \<in> {n. k \<le> n \<and> (f (Suc n), f n) \<in> r}"
        then have "\<not> n < m"
          using least [of n] by blast
        then show "n \<in> insert m {n. Suc m \<le> n \<and> (f (Suc n), f n) \<in> r}"
          using n by (cases "n = m") simp_all
      qed
      ultimately show ?thesis
        using finite_subset by blast
    next
      case False
      then have "{n. k \<le> n \<and> (f (Suc n), f n) \<in> r} = {}"
        by blast
      then show ?thesis
        by (simp only: finite.emptyI)
    qed
  qed
  from this [of 0] show ?thesis
    by simp
qed

fun pool_at :: "(nat \<Rightarrow> nat) \<Rightarrow> (nat \<Rightarrow> ('c, 'o) saga_event) \<Rightarrow> nat \<Rightarrow> ('c, 'o) saga_pool" where
  "pool_at clock evs 0 = new_pool clock"
| "pool_at clock evs (Suc n) = pool_step (pool_at clock evs n) (evs n)"

fun resumes :: "nat \<Rightarrow> ('c, 'o) saga_pool \<Rightarrow> ('c, 'o) saga_event \<Rightarrow> bool" where
  "resumes k p (AnswerEvent j a) = (j = k \<and> answer_run j a p \<noteq> None)"
| "resumes k p ev = False"

definition run_left :: "nat \<Rightarrow> ('c, 'o) saga_pool \<Rightarrow> nat \<times> nat" where
  "run_left k p = (if k < length (po_runs p) then awaits_left (snd (po_runs p ! k)) else (2, 0))"

lemma pool_at_ok: "pool_ok (pool_at clock evs n)"
  by (induction n) (simp_all add: pool_ok_new pools.inv_step)

lemma awaits_phase: "fst (awaits_left pt) < 2"
  by (cases pt) simp_all

lemma run_left_step:
  assumes ok: "pool_ok p"
  shows "resumes k p ev \<Longrightarrow> (run_left k (pool_step p ev), run_left k p) \<in> fewer"
    and "run_left k (pool_step p ev) = run_left k p \<or> (run_left k (pool_step p ev), run_left k p) \<in> fewer"
proof -
  have answered: "(run_left j q, run_left j p) \<in> fewer \<and> (\<forall>k. k \<noteq> j \<longrightarrow> run_left k q = run_left k p)"
    if a: "answer_run j a p = Some q" for j a q
  proof -
    obtain sid pt i e i' pt' where k: "j < length (po_runs p)" "po_runs p ! j = (sid, pt)" and r: "resume (po_engine p) i pt a = Some (e, i', pt')"
      and q: "q = \<lparr>po_engine = put_instance sid i' e, po_runs = (po_runs p)[j := (sid, pt')]\<rparr>"
      using a by (auto simp: answer_run_def split: if_splits prod.splits option.splits)
    have "point_ok pt"
      using ok k by (auto simp: pool_ok_def list_all_length)
    then show ?thesis
      using resume_left [OF r] k by (simp add: run_left_def q)
  qed
  show "resumes k p ev \<Longrightarrow> (run_left k (pool_step p ev), run_left k p) \<in> fewer"
    using answered by (cases ev) auto
  show "run_left k (pool_step p ev) = run_left k p \<or> (run_left k (pool_step p ev), run_left k p) \<in> fewer"
  proof (cases ev)
    case (RunEvent sid)
    obtain e pt where c: "call_run (po_engine p) sid = (e, pt)"
      by fastforce
    have "(awaits_left pt, (2, 0)) \<in> fewer"
      using awaits_phase [of pt] by (cases "awaits_left pt") simp
    moreover have "run_left k (pool_step p ev) = (if k = length (po_runs p) then awaits_left pt else run_left k p)"
      by (simp add: RunEvent c run_left_def nth_append)
    moreover have "run_left (length (po_runs p)) p = (2, 0)"
      by (simp add: run_left_def)
    ultimately show ?thesis
      by (cases "k = length (po_runs p)") simp_all
  next
    case (AnswerEvent j a)
    show ?thesis
    proof (cases "answer_run j a p")
      case (Some q)
      then have "pool_step p ev = q"
        by (simp add: AnswerEvent)
      then show ?thesis
        using answered [OF Some] by (cases "k = j") simp_all
    qed (simp add: AnswerEvent)
  qed (simp add: run_left_def)
qed

text \<open>
  C37: no run goes on forever: whatever else happens meanwhile, and however often other runs of the same saga are called, a run
  is resumed finitely often, and at every moment each run has ended or awaits an answer that can come; so only an action, a
  timer or a compensation that never settles keeps a run from returning.
\<close>

theorem saga_run_terminates:
  "finite {n. resumes k (pool_at clock evs n) (evs n)}
   \<and> list_all (\<lambda>(j, sid, pt). run_ended pt \<or> (\<exists>a. answer_run j a (pool_at clock evs n) \<noteq> None))
       (List.enumerate 0 (po_runs (pool_at clock evs n)))"
proof
  let ?f = "\<lambda>n. run_left k (pool_at clock evs n)"
  have "finite {n. (?f (Suc n), ?f n) \<in> fewer}"
  proof (rule finitely_often)
    show "?f (Suc n) = ?f n \<or> (?f (Suc n), ?f n) \<in> fewer" for n
      using run_left_step(2) [OF pool_at_ok, of k clock evs n "evs n"] by (simp only: pool_at.simps)
  qed auto
  then show "finite {n. resumes k (pool_at clock evs n) (evs n)}"
  proof (rule finite_subset [rotated])
    show "{n. resumes k (pool_at clock evs n) (evs n)} \<subseteq> {n. (?f (Suc n), ?f n) \<in> fewer}"
      using run_left_step(1) [OF pool_at_ok, of k clock evs _ "evs _"] by (simp only: pool_at.simps) blast
  qed
next
  let ?p = "pool_at clock evs n"
  have "\<exists>a. answer_run j a ?p \<noteq> None"
    if j: "j < length (po_runs ?p)" "po_runs ?p ! j = (sid, pt)" "\<not> run_ended pt" for j sid pt
  proof -
    obtain i where i: "jmap_get (sg_instances (po_engine ?p)) sid = Some i"
      using pool_at_ok [of clock evs n] j by (fastforce simp: pool_ok_def list_all_length jmap_has_def)
    have "\<exists>a. resume (po_engine ?p) i pt a \<noteq> None"
    proof (cases pt)
      case (Acting step rest m)
      then show ?thesis
        by (intro exI [of _ "ActionSettles (Threw False [])"]) simp
    next
      case (TimedOut step rest m)
      then show ?thesis
        by (intro exI [of _ Rejects]) simp
    next
      case (Waiting step rest m)
      then show ?thesis
        by (intro exI [of _ WaitOver]) simp
    next
      case (Undoing name names)
      then show ?thesis
        by (intro exI [of _ "UndoSettles (Returned ())"]) simp
    qed (use j(3) in simp)
    then obtain a e i' pt' where "resume (po_engine ?p) i pt a = Some (e, i', pt')"
      by (metis not_None_eq prod_cases3)
    then have "answer_run j a ?p \<noteq> None"
      using j(1,2) i by (simp add: answer_run_def)
    then show ?thesis
      by blast
  qed
  then have "run_ended pt \<or> (\<exists>a. answer_run j a ?p \<noteq> None)" if "(j, sid, pt) \<in> set (List.enumerate 0 (po_runs ?p))" for j sid pt
    using that by (cases "run_ended pt") (auto simp: in_set_enumerate_eq)
  then show "list_all (\<lambda>(j, sid, pt). run_ended pt \<or> (\<exists>a. answer_run j a ?p \<noteq> None)) (List.enumerate 0 (po_runs ?p))"
    unfolding list_all_iff by blast
qed

section \<open>The run that nothing interrupts\<close>

fun follow :: "('c, 'o) stop \<Rightarrow> 'o answer list \<Rightarrow> ('c, 'o) stop option" where
  "follow r [] = Some r"
| "follow (e, i, pt) (a # as) = (case resume e i pt a of None \<Rightarrow> None | Some r \<Rightarrow> follow r as)"

definition leads :: "('c, 'o) stop \<Rightarrow> ('c, 'o) stop \<Rightarrow> bool" where
  "leads r r' \<longleftrightarrow> (\<exists>as. follow r as = Some r')"

lemma leads_refl [simp]: "leads r r"
  unfolding leads_def by (rule exI [of _ "[]"]) simp

lemma leads_step: "resume e i pt a = Some r \<Longrightarrow> leads r r' \<Longrightarrow> leads (e, i, pt) r'"
proof -
  assume "resume e i pt a = Some r" "leads r r'"
  then obtain as where "follow (e, i, pt) (a # as) = Some r'"
    by (auto simp: leads_def)
  then show "leads (e, i, pt) r'"
    unfolding leads_def by blast
qed

lemma follow_append: "follow r (as @ bs) = (case follow r as of None \<Rightarrow> None | Some r \<Rightarrow> follow r bs)"
  by (induction r as rule: follow.induct) (auto split: option.split)

lemma leads_trans: "leads r r1 \<Longrightarrow> leads r1 r2 \<Longrightarrow> leads r r2"
  unfolding leads_def using follow_append by (metis option.simps(5))

lemma attempt_leads:
  "leads (enter_attempt e i step rest n)
     (case run_attempt tf e i step n of
        (e', i', ok) \<Rightarrow>
          if ok then enter_steps e' i' rest
          else if n + 1 < max_attempts step then enter_attempt e' i' step rest (n + 1) else step_refused e' i')"
proof -
  define e0 where "e0 = write_log e (in_id i) StepStarted None (Some (st_name step))
      (Some (js ''attempt '' @ js_nat (n + 1) @ js ''/'' @ js_nat (max_attempts step)))"
  define name where "name = st_name step"
  let ?t = "or_zero (st_timeoutMs step)" and ?ctx = "make_context i (st_name step) n"
  define e1 where "e1 = (if ?t = 0 then e0 else set_timer e0 ?t)"
  have enter: "enter_attempt e i step rest n = (e1, i, Acting step rest n)"
    by (simp add: enter_attempt_def Let_def e0_def e1_def)
  have run: "run_attempt tf e i step n =
      (case withTimeout tf e0 step ?ctx of
        (e, Returned out) \<Rightarrow>
          (write_log e (in_id i) StepSucceeded None (Some name) None,
           i\<lparr>in_outputs := jmap_set name out (in_outputs i), in_completedSteps := in_completedSteps i @ [name]\<rparr>, True)
      | (e, Threw isTimeout msg) \<Rightarrow>
          (let e = write_log e (in_id i) (if isTimeout then StepTimedOut else StepFailed) None (Some name) (Some msg) in
           if n + 1 < max_attempts step then
             let e = (if backoff step n > 0 then set_timer e (backoff step n) else e) in
             (write_log e (in_id i) StepRetrying None (Some name) None, i, False)
           else (e, i, False)))"
    unfolding run_attempt_def Let_def e0_def name_def by (rule refl)
  have failed: "leads (attempt_failed e2 i step rest n b msg)
      (let e3 = write_log e2 (in_id i) (if b then StepTimedOut else StepFailed) None (Some name) (Some msg) in
       if n + 1 < max_attempts step
       then enter_attempt (write_log (if backoff step n > 0 then set_timer e3 (backoff step n) else e3) (in_id i) StepRetrying None (Some name) None)
              i step rest (n + 1)
       else step_refused e3 i)" for e2 b msg
    using leads_step [of _ i "Waiting step rest n" WaitOver]
    by (auto simp: attempt_failed_def retry_step_def Let_def name_def)
  show ?thesis
  proof (cases "?t \<noteq> 0 \<and> tf ?ctx")
    case True
    let ?e2 = "write_log e1 (in_id i) StepTimedOut None (Some name) None" and ?msg = "timeout_message name ?t"
    have "resume e1 i (Acting step rest n) TimerFires = Some (?e2, i, TimedOut step rest n)"
      "resume ?e2 i (TimedOut step rest n) Rejects = Some (attempt_failed ?e2 i step rest n True ?msg)"
      using True by (simp_all add: name_def)
    then have "leads (enter_attempt e i step rest n) (attempt_failed ?e2 i step rest n True ?msg)"
      unfolding enter by (rule leads_step [OF _ leads_step [OF _ leads_refl]])
    note timed = leads_trans [OF this failed]
    have "withTimeout tf e0 step ?ctx = (?e2, Threw True ?msg)"
      using True by (simp add: withTimeout_def Let_def e1_def make_context_def name_def)
    then show ?thesis
      using timed unfolding run by (simp add: Let_def split: if_splits)
  next
    case False
    have w: "withTimeout tf e0 step ?ctx = (e1, st_action step ?ctx)"
      using False by (auto simp: withTimeout_def Let_def e1_def)
    show ?thesis
    proof (cases "st_action step ?ctx")
      case (Returned out)
      have "leads (enter_attempt e i step rest n)
          (enter_steps (write_log e1 (in_id i) StepSucceeded None (Some name) None)
             (i\<lparr>in_outputs := jmap_set name out (in_outputs i), in_completedSteps := in_completedSteps i @ [name]\<rparr>) rest)"
        unfolding enter by (rule leads_step [where a = "ActionSettles (Returned out)", OF _ leads_refl]) (simp add: name_def)
      then show ?thesis
        unfolding run w Returned by simp
    next
      case (Threw b msg)
      have "leads (enter_attempt e i step rest n) (attempt_failed e1 i step rest n b msg)"
        unfolding enter by (rule leads_step [where a = "ActionSettles (Threw b msg)", OF _ leads_refl]) simp
      from leads_trans [OF this failed] show ?thesis
        unfolding run w Threw by (simp add: Let_def split: if_splits)
    qed
  qed
qed

lemma step_leads:
  "n < max_attempts step \<Longrightarrow> attempts_loop tf e i step [n..<max_attempts step] = (e', i', ok) \<Longrightarrow>
     leads (enter_attempt e i step rest n) (if ok then enter_steps e' i' rest else step_refused e' i')"
proof (induction "max_attempts step - n" arbitrary: n e i)
  case (Suc d)
  obtain e1 i1 ok1 where one: "run_attempt tf e i step n = (e1, i1, ok1)"
    by (cases "run_attempt tf e i step n")
  have loop: "attempts_loop tf e i step [n..<max_attempts step] = (if ok1 then (e1, i1, True) else attempts_loop tf e1 i1 step [n + 1..<max_attempts step])"
    using Suc.prems(1) one by (simp add: upt_conv_Cons split: bool.split)
  note first = attempt_leads [of e i step rest n tf, unfolded one prod.case]
  show ?case
  proof (cases "ok1 \<or> \<not> n + 1 < max_attempts step")
    case True
    then have "(e', i', ok) = (e1, i1, ok1)"
      using loop Suc.prems(2) by (cases ok1) (simp_all add: upt_conv_Nil)
    then show ?thesis
      using first True by auto
  next
    case False
    then have "leads (enter_attempt e1 i1 step rest (n + 1)) (if ok then enter_steps e' i' rest else step_refused e' i')"
      using Suc loop by (intro Suc.hyps(1)) auto
    then show ?thesis
      using first False leads_trans by fastforce
  qed
qed simp

lemma undo_leads: "compensate_loop e i names = Inr (e', i') \<Longrightarrow> leads (enter_undo e i names) (finish_run e' i')"
proof (induction names arbitrary: e)
  case (Cons name names)
  show ?case
  proof (cases "find (\<lambda>s. st_name s = name) (df_steps (in_def i))")
    case (Some step)
    show ?thesis
    proof (cases "st_compensate step")
      case None
      then show ?thesis
        using Cons Some by simp
    next
      case undo: (Some undo)
      show ?thesis
      proof (cases "undo (make_context i name 0) (jmap_get (in_outputs i) name)")
        case (Returned u)
        have "leads (enter_undo (write_log e (in_id i) CompensatedStep None (Some name) None) i names) (finish_run e' i')"
          using Cons Some undo Returned by simp
        then show ?thesis
          using Some undo leads_step [of e i "Undoing name names" "UndoSettles (Returned ())"] by simp
      next
        case (Threw b msg)
        then have "resume e i (Undoing name names) (UndoSettles (Threw b msg)) = Some (finish_run e' i')"
          using Cons.prems Some undo by simp
        then have "leads (e, i, Undoing name names) (finish_run e' i')"
          using leads_step [OF _ leads_refl] by blast
        then show ?thesis
          using Some undo by simp
      qed
    qed
  qed (use Cons in simp)
qed simp

lemma steps_lead: "run_steps tf e i steps = Inr (e', i') \<Longrightarrow> leads (enter_steps e i steps) (finish_run e' i')"
proof (induction steps arbitrary: e i)
  case (Cons step steps)
  show ?case
  proof (cases "in_state i = Running")
    case True
    obtain e1 i1 ok where one: "runStep tf e i step = (e1, i1, ok)"
      by (cases "runStep tf e i step")
    have "leads (enter_attempt e i step steps 0) (if ok then enter_steps e1 i1 steps else step_refused e1 i1)"
      using one by (intro step_leads) (simp_all add: runStep_def max_attempts_def)
    moreover have "leads (if ok then enter_steps e1 i1 steps else step_refused e1 i1) (finish_run e' i')"
    proof (cases ok)
      case True
      then show ?thesis
        using Cons one \<open>in_state i = Running\<close> by simp
    next
      case False
      then show ?thesis
        using Cons.prems one \<open>in_state i = Running\<close> undo_leads
        by (auto simp: step_refused_def compensate_def split: sum.splits if_splits)
    qed
    ultimately have "leads (enter_attempt e i step steps 0) (finish_run e' i')"
      by (rule leads_trans)
    then show ?thesis
      using True by simp
  qed (use Cons.prems in simp)
qed simp

text \<open>The map of instances is not touched between two awaits.\<close>

definition with_map :: "(jstring, ('c, 'o) saga_instance) jmap \<Rightarrow> ('c, 'o) stop \<Rightarrow> ('c, 'o) stop" where
  "with_map X r = ((fst r)\<lparr>sg_instances := X\<rparr>, snd r)"

lemma with_map_basic:
  "write_log (e\<lparr>sg_instances := X\<rparr>) sid k st sp d = (write_log e sid k st sp d)\<lparr>sg_instances := X\<rparr>"
  "set_timer (e\<lparr>sg_instances := X\<rparr>) ms = (set_timer e ms)\<lparr>sg_instances := X\<rparr>"
  "transition (e\<lparr>sg_instances := X\<rparr>) i to d = map_sum id (\<lambda>(e, i). (e\<lparr>sg_instances := X\<rparr>, i)) (transition e i to d)"
  by (simp_all add: write_log_def set_timer_def transition_def Let_def)

lemma finish_map: "finish_run (e\<lparr>sg_instances := X\<rparr>) i = with_map X (finish_run e i)"
  by (auto simp: finish_run_def with_map_def with_map_basic map_sum_def split: sum.split)

lemma attempt_map: "enter_attempt (e\<lparr>sg_instances := X\<rparr>) i step rest n = with_map X (enter_attempt e i step rest n)"
  by (simp add: enter_attempt_def Let_def with_map_def with_map_basic)

lemma steps_map: "enter_steps (e\<lparr>sg_instances := X\<rparr>) i steps = with_map X (enter_steps e i steps)"
  by (cases steps) (simp_all add: finish_map attempt_map)

lemma undo_map: "enter_undo (e\<lparr>sg_instances := X\<rparr>) i names = with_map X (enter_undo e i names)"
  by (induction names) (auto simp: finish_map with_map_basic with_map_def map_sum_def split: sum.split option.split)

lemma refused_map: "step_refused (e\<lparr>sg_instances := X\<rparr>) i = with_map X (step_refused e i)"
  by (auto simp: step_refused_def undo_map with_map_basic with_map_def map_sum_def split: sum.split)

lemma failed_map:
  "attempt_failed (e\<lparr>sg_instances := X\<rparr>) i step rest n b msg = with_map X (attempt_failed e i step rest n b msg)"
  by (simp add: attempt_failed_def retry_step_def Let_def with_map_basic attempt_map refused_map) (simp add: with_map_def)

lemma resume_map: "resume (e\<lparr>sg_instances := X\<rparr>) i pt a = map_option (with_map X) (resume e i pt a)"
proof (induction e i pt a rule: resume.induct)
  case (7 e i name names u msg)
  then show ?case
    by (auto simp: Let_def finish_map with_map_basic with_map_def map_sum_def split: sum.split)
qed (simp_all add: with_map_basic steps_map failed_map undo_map retry_step_def attempt_map, simp_all add: with_map_def)

lemma put_twice: "jmap_set k v (jmap_set k w m) = jmap_set k v m"
  unfolding jmap_set_def by (induction m) auto

lemma put_with_map: "put_instance sid i' (e\<lparr>sg_instances := jmap_set sid i X\<rparr>) = e\<lparr>sg_instances := jmap_set sid i' X\<rparr>"
  by (simp add: put_instance_def put_twice)

lemma pool_follows:
  "follow (e, i, pt) as = Some (e', i', pt') \<Longrightarrow>
     foldl pool_step \<lparr>po_engine = put_instance sid i e, po_runs = [(sid, pt)]\<rparr> (map (AnswerEvent 0) as) =
       \<lparr>po_engine = put_instance sid i' e', po_runs = [(sid, pt')]\<rparr>"
proof (induction as arbitrary: e i pt)
  case (Cons a as)
  obtain e2 i2 pt2 where r: "resume e i pt a = Some (e2, i2, pt2)" "follow (e2, i2, pt2) as = Some (e', i', pt')"
    using Cons.prems by (auto split: option.splits)
  have "sg_instances e2 = sg_instances e"
    using resume_moves [OF r(1)] by (simp add: moves_def)
  moreover have "resume (put_instance sid i e) i pt a = Some (e2\<lparr>sg_instances := jmap_set sid i (sg_instances e)\<rparr>, i2, pt2)"
    unfolding put_instance_def resume_map r(1) by (simp add: with_map_def)
  ultimately have "pool_step \<lparr>po_engine = put_instance sid i e, po_runs = [(sid, pt)]\<rparr> (AnswerEvent 0 a) =
      \<lparr>po_engine = put_instance sid i2 e2, po_runs = [(sid, pt2)]\<rparr>"
    by (simp add: answer_run_def put_with_map) (simp add: put_instance_def put_twice)
  then show ?case
    using Cons.IH [OF r(2)] by simp
qed simp

text \<open>
  A run that is called on an engine with no other run under way, and whose awaits settle as the step's functions and
  the timers say, does what \<open>run\<close> says.
\<close>

theorem run_by_awaits:
  assumes "run tf e sid = Inr (e', s)"
  shows "\<exists>as. foldl pool_step \<lparr>po_engine = e, po_runs = []\<rparr> (RunEvent sid # map (AnswerEvent 0) as) =
    \<lparr>po_engine = e', po_runs = [(sid, Ended (Inr s))]\<rparr>"
proof -
  obtain i e2 i2 where i: "jmap_get (sg_instances e) sid = Some i" and r: "run_instance tf e i = Inr (e2, i2)"
    and e': "e' = put_instance sid i2 e2" "s = in_state i2"
    using assms by (auto simp: run_def must_def put_instance_def split: option.splits sum.splits)
  obtain e1 i1 where first: "(if in_state i = Started then transition e i Running None else Inr (e, i)) = Inr (e1, i1)"
    using r by (auto simp: run_instance_def split: sum.splits)
  obtain e3 i3 where steps: "run_steps tf e1 i1 (df_steps (in_def i1)) = Inr (e3, i3)"
    and last: "(if in_state i3 = Running then transition e3 i3 Completed None else Inr (e3, i3)) = Inr (e2, i2)"
    using r first by (auto simp: run_instance_def split: sum.splits)
  have "finish_run e3 i3 = (e2, i2, Ended (Inr (in_state i2)))"
    using last by (auto simp: finish_run_def split: if_splits)
  then obtain as where "follow (enter_steps e1 i1 (df_steps (in_def i1))) as = Some (e2, i2, Ended (Inr (in_state i2)))"
    using steps_lead [OF steps] by (auto simp: leads_def)
  moreover obtain e4 i4 pt where "enter_steps e1 i1 (df_steps (in_def i1)) = (e4, i4, pt)"
    by (metis prod_cases3)
  moreover from this have "call_run e sid = (put_instance sid i4 e4, pt)"
    using i first by (simp add: call_run_def must_def)
  ultimately have "foldl pool_step \<lparr>po_engine = e, po_runs = []\<rparr> (RunEvent sid # map (AnswerEvent 0) as) =
      \<lparr>po_engine = put_instance sid i2 e2, po_runs = [(sid, Ended (Inr (in_state i2)))]\<rparr>"
    using pool_follows [of e4 i4 pt as e2 i2 _ sid] by simp
  then show ?thesis
    using e' by blast
qed

section \<open>A run cut off, and one called twice\<close>




text \<open>
  A second \<open>run\<close> of a saga that is running repeats its steps: the payment is made twice.
\<close>

theorem second_run_repeats_steps:
  "map_option in_completedSteps (jmap_get (sg_instances (po_engine (foldl pool_step (new_pool (\<lambda>n. n))
     [StartEvent \<lparr>df_name = js ''order'', df_steps = [pay_step]\<rparr> (), RunEvent (saga_id 0), RunEvent (saga_id 0),
      AnswerEvent 0 (ActionSettles (Returned 5)), AnswerEvent 1 (ActionSettles (Returned 6))]))) (saga_id 0)) =
   Some [js ''pay'', js ''pay'']"
  by (simp add: new_pool_def start_result Let_def fresh_instance_def new_saga_engine_def call_run_def must_def
      jmap_get_set transition_def enter_attempt_def answer_run_def put_instance_def pay_step_def finish_run_def)

end
