(* ===== verification/EndpointBreaker.thy ===== *)
theory EndpointBreaker
  imports Interfaces
begin

text \<open>
  The endpoint circuit breaker (\<open>circuit-breaker/engine/EndpointBreaker.ts\<close>, types in
  \<open>engine/types.ts\<close>): admission, outcome recording, the failure window with its ring buffer,
  snapshots and tuning. Times are integers; every method takes one clock reading, which stands
  for all the readings the method makes. Events are appended to \<open>eb_events\<close>; listeners are taken
  to return normally. A call is an \<open>admit\<close> followed, at any later point, by the recording of its
  outcome, so concurrent calls are interleavings of these two steps.
\<close>

section \<open>State\<close>

datatype breaker_state = BClosed | BOpen | BHalfOpen

datatype breaker_event = FailureEvent | SuccessEvent | StateChangeEvent

record endpoint_breaker =
  eb_endpoint :: jstring
  eb_failureThreshold :: int
  eb_successThreshold :: int
  eb_resetTimeoutMs :: int
  eb_windowMs :: int
  eb_state :: breaker_state
  eb_consecutiveFailures :: int
  eb_consecutiveSuccesses :: int
  eb_openedAt :: int
  eb_lastStateChangeAt :: int
  eb_lastFailureAt :: int
  eb_probesInFlight :: int
  eb_failureTimes :: "int list"
  eb_failureHead :: nat
  eb_totalCalls :: int
  eb_totalFailures :: int
  eb_totalRejections :: int
  eb_events :: "breaker_event list"

record breaker_config =
  bc_failureThreshold :: "int option"
  bc_successThreshold :: "int option"
  bc_resetTimeoutMs :: "int option"
  bc_windowMs :: "int option"

abbreviation or_else :: "int option \<Rightarrow> int \<Rightarrow> int" where
  "or_else x d \<equiv> case x of Some n \<Rightarrow> n | None \<Rightarrow> d"

definition new_breaker :: "int \<Rightarrow> jstring \<Rightarrow> breaker_config \<Rightarrow> endpoint_breaker" where
  "new_breaker now endpoint config =
     \<lparr>eb_endpoint = endpoint,
      eb_failureThreshold = max 1 (or_else (bc_failureThreshold config) 5),
      eb_successThreshold = max 1 (or_else (bc_successThreshold config) 2),
      eb_resetTimeoutMs = max 0 (or_else (bc_resetTimeoutMs config) 30000),
      eb_windowMs = max 0 (or_else (bc_windowMs config) 0),
      eb_state = BClosed, eb_consecutiveFailures = 0, eb_consecutiveSuccesses = 0, eb_openedAt = 0,
      eb_lastStateChangeAt = now, eb_lastFailureAt = 0, eb_probesInFlight = 0, eb_failureTimes = [],
      eb_failureHead = 0, eb_totalCalls = 0, eb_totalFailures = 0, eb_totalRejections = 0, eb_events = []\<rparr>"

datatype breaker_error = CircuitRejectionError jstring int

section \<open>Internals\<close>

definition emit_event :: "endpoint_breaker \<Rightarrow> breaker_event \<Rightarrow> endpoint_breaker" where
  "emit_event b ev = b\<lparr>eb_events := eb_events b @ [ev]\<rparr>"

definition releaseProbe :: "endpoint_breaker \<Rightarrow> endpoint_breaker" where
  "releaseProbe b = (if eb_probesInFlight b > 0 then b\<lparr>eb_probesInFlight := eb_probesInFlight b - 1\<rparr> else b)"

definition breaker_transition :: "int \<Rightarrow> endpoint_breaker \<Rightarrow> breaker_state \<Rightarrow> endpoint_breaker" where
  "breaker_transition now b next =
     (if eb_state b = next then b
      else
        let b = b\<lparr>eb_state := next, eb_lastStateChangeAt := now\<rparr>;
            b = (if next = BOpen then b\<lparr>eb_openedAt := now, eb_probesInFlight := 0\<rparr> else b)
        in emit_event b StateChangeEvent)"

definition msUntilProbe :: "int \<Rightarrow> endpoint_breaker \<Rightarrow> int" where
  "msUntilProbe now b =
     (if eb_state b \<noteq> BOpen then 0 else max 0 (eb_resetTimeoutMs b - (now - eb_openedAt b)))"

definition maybeHalfOpen :: "int \<Rightarrow> endpoint_breaker \<Rightarrow> endpoint_breaker" where
  "maybeHalfOpen now b =
     (if eb_state b = BOpen \<and> msUntilProbe now b = 0
      then (breaker_transition now b BHalfOpen)\<lparr>eb_consecutiveSuccesses := 0\<rparr> else b)"

definition admit_call :: "int \<Rightarrow> endpoint_breaker \<Rightarrow> endpoint_breaker \<times> (breaker_error + unit)" where
  "admit_call now b0 =
     (let b = maybeHalfOpen now b0 in
      case eb_state b of
        BClosed \<Rightarrow> (b, Inr ())
      | BOpen \<Rightarrow>
          (b\<lparr>eb_totalRejections := eb_totalRejections b + 1\<rparr>,
           Inl (CircuitRejectionError (eb_endpoint b) (msUntilProbe now b)))
      | BHalfOpen \<Rightarrow>
          if eb_probesInFlight b \<ge> eb_successThreshold b
          then (b\<lparr>eb_totalRejections := eb_totalRejections b + 1\<rparr>, Inl (CircuitRejectionError (eb_endpoint b) 0))
          else (b\<lparr>eb_probesInFlight := eb_probesInFlight b + 1\<rparr>, Inr ()))"

text \<open>The failure window: the ring's live part starts at \<open>eb_failureHead\<close>.\<close>

definition clearWindow :: "endpoint_breaker \<Rightarrow> endpoint_breaker" where
  "clearWindow b = b\<lparr>eb_failureTimes := [], eb_failureHead := 0\<rparr>"

text \<open>The \<open>while\<close> that moves the head past the timestamps before the cutoff.\<close>

function advance_head :: "int list \<Rightarrow> int \<Rightarrow> nat \<Rightarrow> nat" where
  "advance_head ts cutoff head =
     (if head < length ts \<and> ts ! head < cutoff then advance_head ts cutoff (head + 1) else head)"
  by pat_completeness auto
termination
  by (relation "measure (\<lambda>(ts, cutoff, head). length ts - head)") auto

declare advance_head.simps [simp del]

definition compactWindow :: "int \<Rightarrow> endpoint_breaker \<Rightarrow> endpoint_breaker" where
  "compactWindow now b =
     (if eb_windowMs b \<le> 0 then clearWindow b
      else
        let cutoff = now - eb_windowMs b;
            b = b\<lparr>eb_failureHead := advance_head (eb_failureTimes b) cutoff (eb_failureHead b)\<rparr>
        in
        if eb_failureHead b > 64 \<and> eb_failureHead b * 2 \<ge> length (eb_failureTimes b)
        then b\<lparr>eb_failureTimes := drop (eb_failureHead b) (eb_failureTimes b), eb_failureHead := 0\<rparr>
        else b)"

definition pushFailureTime :: "int \<Rightarrow> endpoint_breaker \<Rightarrow> endpoint_breaker" where
  "pushFailureTime t b = compactWindow t (b\<lparr>eb_failureTimes := eb_failureTimes b @ [t]\<rparr>)"

definition effectiveFailures :: "int \<Rightarrow> endpoint_breaker \<Rightarrow> endpoint_breaker \<times> int" where
  "effectiveFailures now b =
     (if eb_windowMs b \<le> 0 then (b, eb_consecutiveFailures b)
      else
        let b = compactWindow now b in (b, int (length (eb_failureTimes b)) - int (eb_failureHead b)))"

section \<open>Operations\<close>

definition admit :: "int \<Rightarrow> endpoint_breaker \<Rightarrow> endpoint_breaker \<times> (breaker_error + unit)" where
  "admit now b =
     (case admit_call now b of
        (b, Inl e) \<Rightarrow> (b, Inl e)
      | (b, Inr _) \<Rightarrow> (b\<lparr>eb_totalCalls := eb_totalCalls b + 1\<rparr>, Inr ()))"

definition tryAcquireProbe :: "int \<Rightarrow> endpoint_breaker \<Rightarrow> endpoint_breaker \<times> bool" where
  "tryAcquireProbe now b = (case admit now b of (b, Inl _) \<Rightarrow> (b, False) | (b, Inr _) \<Rightarrow> (b, True))"

definition recordSuccess :: "int \<Rightarrow> endpoint_breaker \<Rightarrow> endpoint_breaker" where
  "recordSuccess now b0 =
     (let b =
        (if eb_state b0 = BHalfOpen then
           let b = releaseProbe b0;
               b = b\<lparr>eb_consecutiveSuccesses := eb_consecutiveSuccesses b + 1\<rparr>
           in
           if eb_consecutiveSuccesses b \<ge> eb_successThreshold b
           then clearWindow ((breaker_transition now b BClosed)\<lparr>eb_consecutiveFailures := 0\<rparr>)
           else b
         else b0\<lparr>eb_consecutiveFailures := 0, eb_consecutiveSuccesses := eb_consecutiveSuccesses b0 + 1\<rparr>)
      in emit_event b SuccessEvent)"

definition recordFailure :: "int \<Rightarrow> endpoint_breaker \<Rightarrow> endpoint_breaker" where
  "recordFailure now b0 =
     (let b = pushFailureTime now
            (b0\<lparr>eb_totalFailures := eb_totalFailures b0 + 1, eb_lastFailureAt := now\<rparr>);
          b =
        (if eb_state b = BHalfOpen
         then (breaker_transition now (releaseProbe b) BOpen)\<lparr>eb_consecutiveSuccesses := 0\<rparr>
         else
           let b = b\<lparr>eb_consecutiveSuccesses := 0, eb_consecutiveFailures := eb_consecutiveFailures b + 1\<rparr> in
           if eb_state b = BClosed then
             let (b, n) = effectiveFailures now b in
             if n \<ge> eb_failureThreshold b then breaker_transition now b BOpen else b
           else b)
      in emit_event b FailureEvent)"

text \<open>
  \<open>execute\<close> with the operation's outcome: the value, or the error and whether \<open>isFailure\<close> counts
  it. The outcome is recorded at a later clock reading; between the two, other calls may run.
\<close>

definition execute_call ::
  "int \<Rightarrow> int \<Rightarrow> endpoint_breaker \<Rightarrow> ('a + 'e) \<Rightarrow> ('e \<Rightarrow> bool) \<Rightarrow>
     endpoint_breaker \<times> (breaker_error + ('a + 'e))" where
  "execute_call now now' b op_result isFailure =
     (case admit now b of
        (b, Inl e) \<Rightarrow> (b, Inl e)
      | (b, Inr _) \<Rightarrow>
          (case op_result of
             Inl result \<Rightarrow> (recordSuccess now' b, Inr (Inl result))
           | Inr err \<Rightarrow>
               (if isFailure err then recordFailure now' b else recordSuccess now' b, Inr (Inr err))))"

text \<open>The getter \<open>state\<close> may itself move the breaker to half-open.\<close>

definition get_state :: "int \<Rightarrow> endpoint_breaker \<Rightarrow> endpoint_breaker \<times> breaker_state" where
  "get_state now b = (let b = maybeHalfOpen now b in (b, eb_state b))"

definition tune :: "endpoint_breaker \<Rightarrow> int option \<Rightarrow> int option \<Rightarrow> int option \<Rightarrow> endpoint_breaker" where
  "tune b failureThreshold resetTimeoutMs successThreshold =
     (let b = (case failureThreshold of Some n \<Rightarrow> b\<lparr>eb_failureThreshold := max 1 n\<rparr> | None \<Rightarrow> b);
          b = (case resetTimeoutMs of Some n \<Rightarrow> b\<lparr>eb_resetTimeoutMs := max 0 n\<rparr> | None \<Rightarrow> b)
      in case successThreshold of Some n \<Rightarrow> b\<lparr>eb_successThreshold := max 1 n\<rparr> | None \<Rightarrow> b)"

definition force_state :: "int \<Rightarrow> endpoint_breaker \<Rightarrow> breaker_state \<Rightarrow> endpoint_breaker" where
  "force_state now b state =
     breaker_transition now (if state = BOpen then b\<lparr>eb_openedAt := now\<rparr> else b) state"

record breaker_snapshot =
  bs_endpoint :: jstring
  bs_state :: breaker_state
  bs_consecutiveFailures :: int
  bs_consecutiveSuccesses :: int
  bs_totalCalls :: int
  bs_totalFailures :: int
  bs_totalRejections :: int
  bs_lastFailureAt :: int
  bs_openedAt :: int

definition take_snapshot :: "int \<Rightarrow> endpoint_breaker \<Rightarrow> endpoint_breaker \<times> breaker_snapshot" where
  "take_snapshot now b0 =
     (let (b, st) = get_state now b0 in
      (b, \<lparr>bs_endpoint = eb_endpoint b, bs_state = st, bs_consecutiveFailures = eb_consecutiveFailures b,
           bs_consecutiveSuccesses = eb_consecutiveSuccesses b, bs_totalCalls = eb_totalCalls b,
           bs_totalFailures = eb_totalFailures b, bs_totalRejections = eb_totalRejections b,
           bs_lastFailureAt = eb_lastFailureAt b, bs_openedAt = eb_openedAt b\<rparr>))"

definition restore :: "int \<Rightarrow> endpoint_breaker \<Rightarrow> breaker_snapshot \<Rightarrow> endpoint_breaker" where
  "restore now b s =
     b\<lparr>eb_state := bs_state s, eb_consecutiveFailures := bs_consecutiveFailures s,
       eb_consecutiveSuccesses := bs_consecutiveSuccesses s, eb_totalCalls := bs_totalCalls s,
       eb_totalFailures := bs_totalFailures s, eb_totalRejections := bs_totalRejections s,
       eb_lastFailureAt := bs_lastFailureAt s, eb_openedAt := bs_openedAt s, eb_lastStateChangeAt := now\<rparr>"

record breaker_stats =
  bt_state :: breaker_state
  bt_consecutiveFailures :: int
  bt_consecutiveSuccesses :: int
  bt_totalCalls :: int
  bt_totalFailures :: int
  bt_totalRejections :: int
  bt_lastFailureAt :: int
  bt_lastStateChangeAt :: int

definition breaker_stats_of :: "int \<Rightarrow> endpoint_breaker \<Rightarrow> endpoint_breaker \<times> breaker_stats" where
  "breaker_stats_of now b0 =
     (let (b, st) = get_state now b0 in
      (b, \<lparr>bt_state = st, bt_consecutiveFailures = eb_consecutiveFailures b,
           bt_consecutiveSuccesses = eb_consecutiveSuccesses b, bt_totalCalls = eb_totalCalls b,
           bt_totalFailures = eb_totalFailures b, bt_totalRejections = eb_totalRejections b,
           bt_lastFailureAt = eb_lastFailureAt b, bt_lastStateChangeAt = eb_lastStateChangeAt b\<rparr>))"

definition currentConfig :: "endpoint_breaker \<Rightarrow> int \<times> int \<times> int" where
  "currentConfig b = (eb_failureThreshold b, eb_resetTimeoutMs b, eb_successThreshold b)"

section \<open>The breaker as a machine\<close>

datatype breaker_op =
    AdmitOp
  | SuccessOp
  | FailureOp
  | StateOp
  | TuneOp "int option" "int option" "int option"
  | ForceOp breaker_state
  | RestoreOp breaker_snapshot

fun breaker_step :: "endpoint_breaker \<Rightarrow> int \<times> breaker_op \<Rightarrow> endpoint_breaker" where
  "breaker_step b (now, AdmitOp) = fst (admit now b)"
| "breaker_step b (now, SuccessOp) = recordSuccess now b"
| "breaker_step b (now, FailureOp) = recordFailure now b"
| "breaker_step b (now, StateOp) = fst (get_state now b)"
| "breaker_step b (now, TuneOp f r s) = tune b f r s"
| "breaker_step b (now, ForceOp st) = force_state now b st"
| "breaker_step b (now, RestoreOp sn) = restore now b sn"

named_theorems breaker_simps \<open>what the breaker's helpers change\<close>

lemma emit_event_fields [breaker_simps]:
  "eb_state (emit_event b ev) = eb_state b" "eb_windowMs (emit_event b ev) = eb_windowMs b"
  "eb_failureTimes (emit_event b ev) = eb_failureTimes b" "eb_failureHead (emit_event b ev) = eb_failureHead b"
  "eb_probesInFlight (emit_event b ev) = eb_probesInFlight b" "eb_openedAt (emit_event b ev) = eb_openedAt b"
  "eb_successThreshold (emit_event b ev) = eb_successThreshold b"
  "eb_failureThreshold (emit_event b ev) = eb_failureThreshold b"
  "eb_resetTimeoutMs (emit_event b ev) = eb_resetTimeoutMs b"
  "eb_consecutiveFailures (emit_event b ev) = eb_consecutiveFailures b"
  "eb_consecutiveSuccesses (emit_event b ev) = eb_consecutiveSuccesses b"
  by (simp_all add: emit_event_def)

lemma releaseProbe_fields [breaker_simps]:
  "eb_state (releaseProbe b) = eb_state b" "eb_windowMs (releaseProbe b) = eb_windowMs b"
  "eb_failureTimes (releaseProbe b) = eb_failureTimes b" "eb_failureHead (releaseProbe b) = eb_failureHead b"
  "eb_probesInFlight (releaseProbe b) = (if eb_probesInFlight b > 0 then eb_probesInFlight b - 1 else eb_probesInFlight b)"
  "eb_successThreshold (releaseProbe b) = eb_successThreshold b"
  "eb_failureThreshold (releaseProbe b) = eb_failureThreshold b"
  "eb_resetTimeoutMs (releaseProbe b) = eb_resetTimeoutMs b"
  "eb_consecutiveFailures (releaseProbe b) = eb_consecutiveFailures b"
  "eb_consecutiveSuccesses (releaseProbe b) = eb_consecutiveSuccesses b"
  by (simp_all add: releaseProbe_def)

lemma transition_fields [breaker_simps]:
  "eb_state (breaker_transition now b st) = st" "eb_windowMs (breaker_transition now b st) = eb_windowMs b"
  "eb_failureTimes (breaker_transition now b st) = eb_failureTimes b"
  "eb_failureHead (breaker_transition now b st) = eb_failureHead b"
  "eb_probesInFlight (breaker_transition now b st) =
     (if st = BOpen \<and> eb_state b \<noteq> BOpen then 0 else eb_probesInFlight b)"
  "eb_openedAt (breaker_transition now b st) = (if st = BOpen \<and> eb_state b \<noteq> BOpen then now else eb_openedAt b)"
  "eb_successThreshold (breaker_transition now b st) = eb_successThreshold b"
  "eb_failureThreshold (breaker_transition now b st) = eb_failureThreshold b"
  "eb_resetTimeoutMs (breaker_transition now b st) = eb_resetTimeoutMs b"
  "eb_consecutiveFailures (breaker_transition now b st) = eb_consecutiveFailures b"
  "eb_consecutiveSuccesses (breaker_transition now b st) = eb_consecutiveSuccesses b"
  by (auto simp: breaker_transition_def Let_def emit_event_def)

lemma compactWindow_fields [breaker_simps]:
  "eb_state (compactWindow now b) = eb_state b" "eb_windowMs (compactWindow now b) = eb_windowMs b"
  "eb_probesInFlight (compactWindow now b) = eb_probesInFlight b" "eb_openedAt (compactWindow now b) = eb_openedAt b"
  "eb_successThreshold (compactWindow now b) = eb_successThreshold b"
  "eb_failureThreshold (compactWindow now b) = eb_failureThreshold b"
  "eb_resetTimeoutMs (compactWindow now b) = eb_resetTimeoutMs b"
  "eb_consecutiveFailures (compactWindow now b) = eb_consecutiveFailures b"
  "eb_consecutiveSuccesses (compactWindow now b) = eb_consecutiveSuccesses b"
  by (auto simp: compactWindow_def clearWindow_def Let_def)

lemma effectiveFailures_fields [breaker_simps]:
  "fst (effectiveFailures now b) = (if eb_windowMs b \<le> 0 then b else compactWindow now b)"
  by (simp add: effectiveFailures_def Let_def)

lemma maybeHalfOpen_fields [breaker_simps]:
  "eb_windowMs (maybeHalfOpen now b) = eb_windowMs b"
  "eb_failureTimes (maybeHalfOpen now b) = eb_failureTimes b" "eb_failureHead (maybeHalfOpen now b) = eb_failureHead b"
  "eb_probesInFlight (maybeHalfOpen now b) = eb_probesInFlight b"
  "eb_successThreshold (maybeHalfOpen now b) = eb_successThreshold b"
  "eb_failureThreshold (maybeHalfOpen now b) = eb_failureThreshold b"
  "eb_resetTimeoutMs (maybeHalfOpen now b) = eb_resetTimeoutMs b"
  by (simp_all add: maybeHalfOpen_def breaker_simps)

section \<open>The failure window\<close>

text \<open>The ring's live part, and the list of failures it stands for.\<close>

definition live_failures :: "endpoint_breaker \<Rightarrow> int list" where
  "live_failures b = drop (eb_failureHead b) (eb_failureTimes b)"

lemma advance_head_drop:
  "head \<le> length ts \<Longrightarrow>
     head \<le> advance_head ts c head \<and> advance_head ts c head \<le> length ts \<and>
     drop (advance_head ts c head) ts = dropWhile (\<lambda>t. t < c) (drop head ts)"
proof (induction ts c head rule: advance_head.induct)
  case (1 ts c head)
  show ?case
  proof (cases "head < length ts \<and> ts ! head < c")
    case True
    then show ?thesis
      using "1.IH" by (subst (1 2 3) advance_head.simps) (auto simp: Cons_nth_drop_Suc [symmetric])
  next
    case False
    then show ?thesis
      using "1.prems" by (subst (1 2 3) advance_head.simps)
        (cases "head < length ts"; auto simp: Cons_nth_drop_Suc [symmetric])
  qed
qed

lemma dropWhile_sorted: "sorted xs \<Longrightarrow> dropWhile (\<lambda>t. t < c) xs = filter (\<lambda>t. c \<le> t) xs" for c :: int
proof (induction xs)
  case (Cons x xs)
  show ?case
  proof (cases "x < c")
    case False
    then have "\<forall>y \<in> set xs. c \<le> y"
      using Cons.prems by force
    then show ?thesis
      using False by simp
  qed (use Cons in simp)
qed simp

definition window_wf :: "endpoint_breaker \<Rightarrow> bool" where
  "window_wf b \<longleftrightarrow> eb_failureHead b \<le> length (eb_failureTimes b)"

lemma compactWindow_live:
  assumes "window_wf b" and "0 < eb_windowMs b" and "sorted (live_failures b)"
  shows "window_wf (compactWindow now b) \<and>
    live_failures (compactWindow now b) = filter (\<lambda>t. now - eb_windowMs b \<le> t) (live_failures b)"
proof -
  let ?h = "advance_head (eb_failureTimes b) (now - eb_windowMs b) (eb_failureHead b)"
  have "?h \<le> length (eb_failureTimes b)" and
    "drop ?h (eb_failureTimes b) = filter (\<lambda>t. now - eb_windowMs b \<le> t) (live_failures b)"
    using advance_head_drop [of "eb_failureHead b" "eb_failureTimes b" "now - eb_windowMs b"] assms
    by (simp_all add: window_wf_def live_failures_def dropWhile_sorted)
  then show ?thesis
    using assms(2) by (simp add: compactWindow_def Let_def window_wf_def live_failures_def)
qed

text \<open>
  The specification: all failures since a success last closed the half-open breaker, oldest first. Only then does the
  code clear its window: \<open>force\<close> and \<open>restore\<close> set a state and leave the failures where they are.
\<close>

definition closes :: "endpoint_breaker \<Rightarrow> bool" where
  "closes b \<longleftrightarrow> eb_state b = BHalfOpen \<and> eb_consecutiveSuccesses b + 1 \<ge> eb_successThreshold b"

fun failure_history :: "endpoint_breaker \<Rightarrow> int list \<Rightarrow> (int \<times> breaker_op) list \<Rightarrow> int list" where
  "failure_history b g [] = g"
| "failure_history b g ((now, op) # ops) =
     failure_history (breaker_step b (now, op))
       (case op of FailureOp \<Rightarrow> g @ [now] | SuccessOp \<Rightarrow> (if closes b then [] else g) | _ \<Rightarrow> g) ops"

definition tracks :: "int \<Rightarrow> endpoint_breaker \<Rightarrow> int list \<Rightarrow> bool" where
  "tracks now b g \<longleftrightarrow>
     window_wf b \<and> sorted g \<and> (\<forall>t \<in> set g. t \<le> now) \<and>
     (\<exists>old. g = old @ live_failures b \<and> (\<forall>t \<in> set old. t < now - eb_windowMs b))"

lemma tracks_later: "tracks now b g \<Longrightarrow> now \<le> now' \<Longrightarrow> tracks now' b g"
  unfolding tracks_def by (elim conjE exE, intro conjI exI) force+

lemma tracks_cong:
  "tracks now b g \<Longrightarrow> eb_failureTimes b' = eb_failureTimes b \<Longrightarrow> eb_failureHead b' = eb_failureHead b \<Longrightarrow>
     eb_windowMs b' = eb_windowMs b \<Longrightarrow> tracks now b' g"
  by (simp add: tracks_def window_wf_def live_failures_def)

lemma tracks_compact:
  assumes "tracks now b g" and "0 < eb_windowMs b"
  shows "tracks now (compactWindow now b) g"
proof -
  obtain old where g: "g = old @ live_failures b" "\<forall>t \<in> set old. t < now - eb_windowMs b"
    using assms by (auto simp: tracks_def)
  have "sorted (live_failures b)"
    using assms g by (simp add: tracks_def sorted_append)
  then have c: "window_wf (compactWindow now b)"
    "live_failures (compactWindow now b) = dropWhile (\<lambda>t. t < now - eb_windowMs b) (live_failures b)"
    using compactWindow_live [of b now] assms by (auto simp: tracks_def dropWhile_sorted)
  let ?old = "old @ takeWhile (\<lambda>t. t < now - eb_windowMs b) (live_failures b)"
  have "g = ?old @ live_failures (compactWindow now b)"
    using g(1) c(2) by simp
  moreover have "\<forall>t \<in> set ?old. t < now - eb_windowMs b"
    using g(2) by (auto dest: set_takeWhileD)
  ultimately show ?thesis
    using assms c(1) unfolding tracks_def compactWindow_fields by blast
qed

lemma tracks_push:
  assumes "tracks now b g" and "0 < eb_windowMs b"
  shows "tracks now (pushFailureTime now b) (g @ [now])"
proof -
  have "tracks now (b\<lparr>eb_failureTimes := eb_failureTimes b @ [now]\<rparr>) (g @ [now])"
    using assms by (auto simp: tracks_def window_wf_def live_failures_def sorted_append)
  then show ?thesis
    using assms(2) by (simp add: pushFailureTime_def tracks_compact)
qed

lemma tracks_effective:
  assumes "tracks now b g" and "0 < eb_windowMs b"
  shows "snd (effectiveFailures now b) = int (length (filter (\<lambda>t. now - eb_windowMs b \<le> t) g))"
proof -
  obtain old where g: "g = old @ live_failures b" "\<forall>t \<in> set old. t < now - eb_windowMs b"
    using assms by (auto simp: tracks_def)
  have "sorted (live_failures b)"
    using assms g by (simp add: tracks_def sorted_append)
  then have "length (live_failures (compactWindow now b)) = length (filter (\<lambda>t. now - eb_windowMs b \<le> t) (live_failures b))"
    "window_wf (compactWindow now b)"
    using compactWindow_live [of b now] assms by (auto simp: tracks_def)
  moreover have "filter (\<lambda>t. now - eb_windowMs b \<le> t) old = []"
    using g(2) by (auto simp: filter_empty_conv)
  ultimately show ?thesis
    using assms(2) g(1) by (simp add: effectiveFailures_def Let_def live_failures_def window_wf_def)
qed

lemma window_unchanged:
  "eb_failureTimes (maybeHalfOpen now b) = eb_failureTimes b" "eb_failureHead (maybeHalfOpen now b) = eb_failureHead b"
  by (simp_all add: breaker_simps)

lemma admit_call_window:
  "eb_failureTimes (fst (admit_call now b)) = eb_failureTimes b \<and>
   eb_failureHead (fst (admit_call now b)) = eb_failureHead b \<and> eb_windowMs (fst (admit_call now b)) = eb_windowMs b"
  by (simp add: admit_call_def Let_def breaker_simps split: breaker_state.split)

lemma admit_window:
  "eb_failureTimes (fst (admit now b)) = eb_failureTimes b \<and>
   eb_failureHead (fst (admit now b)) = eb_failureHead b \<and> eb_windowMs (fst (admit now b)) = eb_windowMs b"
  using admit_call_window [of now b] by (auto simp: admit_def split: prod.split sum.split)

lemma tracks_clear: "0 < eb_windowMs b \<Longrightarrow> tracks now (clearWindow b) []"
  by (simp add: tracks_def clearWindow_def window_wf_def live_failures_def)

lemma recordSuccess_tracks:
  assumes "tracks now b g" and "0 < eb_windowMs b"
  shows "tracks now (recordSuccess now b) (if closes b then [] else g)"
proof (cases "closes b")
  case True
  then show ?thesis
    using assms(2)
    by (auto simp: closes_def recordSuccess_def Let_def breaker_simps tracks_def window_wf_def live_failures_def clearWindow_def)
next
  case False
  have same: "eb_failureTimes (recordSuccess now b) = eb_failureTimes b"
    "eb_failureHead (recordSuccess now b) = eb_failureHead b" "eb_windowMs (recordSuccess now b) = eb_windowMs b"
    using False by (auto simp: recordSuccess_def Let_def closes_def breaker_simps)
  show ?thesis
    using False by (simp add: tracks_cong [OF assms(1) same])
qed

lemma recordFailure_tracks:
  assumes "tracks now b g" and "0 < eb_windowMs b"
  shows "tracks now (recordFailure now b) (g @ [now])"
proof -
  let ?b = "b\<lparr>eb_totalFailures := eb_totalFailures b + 1, eb_lastFailureAt := now\<rparr>"
  define p where "p = pushFailureTime now ?b"
  have "tracks now ?b g"
    using assms(1) by (rule tracks_cong) simp_all
  then have p: "tracks now p (g @ [now])" "0 < eb_windowMs p"
    using tracks_push [of now ?b g] assms(2) by (simp_all add: p_def pushFailureTime_def breaker_simps)
  define q where "q = p\<lparr>eb_consecutiveSuccesses := 0, eb_consecutiveFailures := eb_consecutiveFailures p + 1\<rparr>"
  have q: "tracks now q (g @ [now])" "0 < eb_windowMs q"
    using tracks_cong [OF p(1), of q] p(2) by (simp_all add: q_def)
  have e: "tracks now (fst (effectiveFailures now q)) (g @ [now])"
    using tracks_compact [OF q] q(2) by (simp add: breaker_simps)
  have "recordFailure now b =
      emit_event (if eb_state p = BHalfOpen then (breaker_transition now (releaseProbe p) BOpen)\<lparr>eb_consecutiveSuccesses := 0\<rparr>
        else if eb_state q = BClosed then
          (if snd (effectiveFailures now q) \<ge> eb_failureThreshold (fst (effectiveFailures now q))
           then breaker_transition now (fst (effectiveFailures now q)) BOpen else fst (effectiveFailures now q))
        else q) FailureEvent"
    by (simp add: recordFailure_def p_def q_def Let_def split: prod.split)
  moreover have "tracks now (emit_event x FailureEvent) (g @ [now]) = tracks now x (g @ [now])" for x
    by (simp add: tracks_def window_wf_def live_failures_def breaker_simps)
  moreover have "tracks now ((breaker_transition now (releaseProbe p) BOpen)\<lparr>eb_consecutiveSuccesses := 0\<rparr>) (g @ [now])"
    by (rule tracks_cong [OF p(1)]) (simp_all add: breaker_simps)
  moreover have "tracks now (breaker_transition now (fst (effectiveFailures now q)) BOpen) (g @ [now])"
    by (rule tracks_cong [OF e]) (simp_all add: breaker_simps)
  ultimately show ?thesis
    using p(1) q(1) e by simp
qed

lemma recordSuccess_windowMs: "eb_windowMs (recordSuccess now b) = eb_windowMs b"
  by (simp add: recordSuccess_def Let_def breaker_simps clearWindow_def)

lemma recordFailure_windowMs: "eb_windowMs (recordFailure now b) = eb_windowMs b"
  by (simp add: recordFailure_def Let_def breaker_simps pushFailureTime_def effectiveFailures_def split: prod.split)

lemma step_windowMs: "eb_windowMs (breaker_step b (now, op)) = eb_windowMs b"
  using admit_window [of now b]
  by (cases op) (auto simp: recordSuccess_windowMs recordFailure_windowMs get_state_def Let_def breaker_simps
      tune_def force_state_def restore_def split: option.split)

lemma step_tracks:
  assumes "tracks now b g" and "0 < eb_windowMs b"
  shows "tracks now (breaker_step b (now, op))
    (case op of FailureOp \<Rightarrow> g @ [now] | SuccessOp \<Rightarrow> (if closes b then [] else g) | _ \<Rightarrow> g)"
proof (cases op)
  case AdmitOp
  then show ?thesis
    using tracks_cong [OF assms(1), of "fst (admit now b)"] admit_window [of now b] by simp
qed (auto simp: recordSuccess_tracks [OF assms] recordFailure_tracks [OF assms] get_state_def Let_def breaker_simps
    tune_def force_state_def restore_def intro!: tracks_cong [OF assms(1)] split: option.split)

lemma run_tracks:
  assumes "tracks t0 b g" and "0 < eb_windowMs b" and "sorted (t0 # map fst ops)"
  shows "tracks (last (t0 # map fst ops)) (foldl breaker_step b ops) (failure_history b g ops) \<and>
    eb_windowMs (foldl breaker_step b ops) = eb_windowMs b"
  using assms
proof (induction ops arbitrary: t0 b g)
  case (Cons e ops)
  obtain now op where e: "e = (now, op)"
    by (cases e)
  have "tracks now b g"
    using Cons.prems e by (intro tracks_later [OF Cons.prems(1)]) simp
  from step_tracks [OF this Cons.prems(2), of op] show ?case
    using Cons.IH [of now "breaker_step b (now, op)"] Cons.prems e by (simp add: step_windowMs)
qed simp

section \<open>Properties\<close>

text \<open>
  C9: the ring buffer counts the rolling window: with a positive \<open>windowMs\<close> and after any sequence of calls whose
  clock does not go back, what \<open>_effectiveFailures\<close> counts is the number of failures recorded in the last
  \<open>windowMs\<close>, both ends included, since a success last closed the half-open breaker. Closing it by
  \<open>force\<close> or \<open>restore\<close> forgets no failure: those before it still count.
\<close>

theorem breaker_window_counts:
  assumes "0 < eb_windowMs (new_breaker t0 ep cfg)" and "sorted (t0 # map fst ops @ [now])"
  shows "snd (effectiveFailures now (foldl breaker_step (new_breaker t0 ep cfg) ops)) =
    int (length (filter (\<lambda>t. now - eb_windowMs (new_breaker t0 ep cfg) \<le> t)
      (failure_history (new_breaker t0 ep cfg) [] ops)))"
proof -
  let ?b = "new_breaker t0 ep cfg"
  have "tracks t0 ?b []"
    by (simp add: tracks_def new_breaker_def window_wf_def live_failures_def)
  moreover have "sorted (t0 # map fst ops)"
    using assms(2) by (simp add: sorted_append)
  ultimately have r: "tracks (last (t0 # map fst ops)) (foldl breaker_step ?b ops) (failure_history ?b [] ops)"
    "eb_windowMs (foldl breaker_step ?b ops) = eb_windowMs ?b"
    using run_tracks [of t0 ?b "[]" ops] assms(1) by blast+
  have "last (t0 # map fst ops) \<le> now"
    using assms(2) by (cases ops rule: rev_cases) (auto simp: sorted_append)
  from tracks_effective [OF tracks_later [OF r(1) this]] show ?thesis
    using assms(1) r(2) by simp
qed

definition sample_config :: breaker_config where
  "sample_config = \<lparr>bc_failureThreshold = Some 2, bc_successThreshold = Some 2, bc_resetTimeoutMs = Some 100,
     bc_windowMs = Some 50\<rparr>"

theorem breaker_window_counts_witness:
  "snd (effectiveFailures 70 (foldl breaker_step (new_breaker 0 [] sample_config)
      [(10, FailureOp), (30, SuccessOp), (60, FailureOp)])) = 1"
proof -
  let ?b = "new_breaker 0 [] sample_config"
  have "failure_history ?b [] [(10, FailureOp), (30, SuccessOp), (60, FailureOp)] = [10, 60]"
    by (simp add: closes_def new_breaker_def sample_config_def recordFailure_def recordSuccess_def Let_def pushFailureTime_def
        compactWindow_def effectiveFailures_def advance_head.simps emit_event_def)
  moreover have "eb_windowMs ?b = 50"
    by (simp add: new_breaker_def sample_config_def)
  ultimately show ?thesis
    using breaker_window_counts [of 0 "[]" sample_config "[(10, FailureOp), (30, SuccessOp), (60, FailureOp)]" 70] by simp
qed

text \<open>Counters and thresholds stay in range over every sequence of operations.\<close>

definition breaker_inv :: "endpoint_breaker \<Rightarrow> bool" where
  "breaker_inv b \<longleftrightarrow>
     1 \<le> eb_failureThreshold b \<and> 1 \<le> eb_successThreshold b \<and> 0 \<le> eb_resetTimeoutMs b \<and> 0 \<le> eb_probesInFlight b"

lemma breaker_inv_new [simp]: "breaker_inv (new_breaker t ep cfg)"
  by (simp add: breaker_inv_def new_breaker_def)

lemma admit_inv: "breaker_inv b \<Longrightarrow> breaker_inv (fst (admit now b))"
  by (auto simp: breaker_inv_def admit_def admit_call_def Let_def breaker_simps split: breaker_state.split)

lemma recordFailure_fields:
  "eb_failureThreshold (recordFailure now b) = eb_failureThreshold b \<and>
   eb_successThreshold (recordFailure now b) = eb_successThreshold b \<and>
   eb_resetTimeoutMs (recordFailure now b) = eb_resetTimeoutMs b \<and>
   (0 \<le> eb_probesInFlight b \<longrightarrow> 0 \<le> eb_probesInFlight (recordFailure now b))"
  by (simp add: recordFailure_def Let_def breaker_simps pushFailureTime_def effectiveFailures_def split: prod.split)

lemma breaker_inv_step: "breaker_inv b \<Longrightarrow> breaker_inv (breaker_step b e)"
proof -
  assume inv: "breaker_inv b"
  obtain now op where e: "e = (now, op)"
    by (cases e)
  show ?thesis
    using inv admit_inv [OF inv, of now] recordFailure_fields [of now b] unfolding e
    by (cases op) (auto simp: breaker_inv_def recordSuccess_def Let_def breaker_simps clearWindow_def
        get_state_def tune_def force_state_def restore_def split: option.split)
qed

interpretation breaker: invariant_machine breaker_step breaker_inv
  by unfold_locales (rule breaker_inv_step)

lemma admit_half_open:
  assumes "eb_state b = BHalfOpen"
  shows "eb_probesInFlight b < eb_successThreshold b \<Longrightarrow>
      admit now b = (b\<lparr>eb_probesInFlight := eb_probesInFlight b + 1, eb_totalCalls := eb_totalCalls b + 1\<rparr>, Inr ())"
    and "eb_successThreshold b \<le> eb_probesInFlight b \<Longrightarrow>
      admit now b = (b\<lparr>eb_totalRejections := eb_totalRejections b + 1\<rparr>, Inl (CircuitRejectionError (eb_endpoint b) 0))"
  using assms by (simp_all add: admit_def admit_call_def maybeHalfOpen_def)

fun admit_many :: "int \<Rightarrow> nat \<Rightarrow> endpoint_breaker \<Rightarrow> endpoint_breaker \<times> bool list" where
  "admit_many now 0 b = (b, [])"
| "admit_many now (Suc n) b =
     (let (b, ok) = tryAcquireProbe now b; (b, oks) = admit_many now n b in (b, ok # oks))"

lemma admit_many_half_open:
  "eb_state b = BHalfOpen \<Longrightarrow> eb_probesInFlight b + int n \<le> eb_successThreshold b \<Longrightarrow>
     admit_many now n b = (b\<lparr>eb_probesInFlight := eb_probesInFlight b + int n, eb_totalCalls := eb_totalCalls b + int n\<rparr>,
       replicate n True)"
proof (induction n arbitrary: b)
  case (Suc n)
  then show ?case
    by (simp add: tryAcquireProbe_def admit_half_open(1) Let_def algebra_simps)
qed simp

lemma opened_elapsed:
  assumes "eb_state b = BOpen" and "eb_openedAt b + eb_resetTimeoutMs b \<le> now"
  shows "eb_state (maybeHalfOpen now b) = BHalfOpen \<and> eb_consecutiveSuccesses (maybeHalfOpen now b) = 0"
  using assms by (simp add: maybeHalfOpen_def msUntilProbe_def breaker_simps)

lemma admit_maybe: "admit now (maybeHalfOpen now b) = admit now b"
proof -
  have "maybeHalfOpen now (maybeHalfOpen now b) = maybeHalfOpen now b"
    by (auto simp: maybeHalfOpen_def breaker_simps)
  then show ?thesis
    by (simp add: admit_def admit_call_def)
qed

lemma admit_many_maybe: "0 < n \<Longrightarrow> admit_many now n (maybeHalfOpen now b) = admit_many now n b"
  by (cases n) (simp_all add: tryAcquireProbe_def admit_maybe)

text \<open>
  The half-open budget: in any reachable state, when the timeout of an open breaker with no
  probe in flight has passed, exactly \<open>successThreshold\<close> calls in a row are admitted, all at once
  and not one after the other, and the next is rejected.
\<close>

theorem breaker_half_open_budget:
  assumes "b = foldl breaker_step (new_breaker t0 ep cfg) ops" and "eb_state b = BOpen"
    and "eb_openedAt b + eb_resetTimeoutMs b \<le> now" and "eb_probesInFlight b = 0"
  shows "snd (admit_many now (nat (eb_successThreshold b)) b) = replicate (nat (eb_successThreshold b)) True \<and>
    snd (tryAcquireProbe now (fst (admit_many now (nat (eb_successThreshold b)) b))) = False"
proof -
  have "breaker_inv b"
    using breaker.inv_run [OF breaker_inv_new] assms(1) by simp
  then have pos: "1 \<le> eb_successThreshold b"
    by (simp add: breaker_inv_def)
  let ?h = "maybeHalfOpen now b" and ?n = "nat (eb_successThreshold b)"
  have h: "eb_state ?h = BHalfOpen" "eb_probesInFlight ?h = 0" "eb_successThreshold ?h = eb_successThreshold b"
    using opened_elapsed [OF assms(2,3)] assms(4) by (simp_all add: breaker_simps)
  have "admit_many now ?n b = admit_many now ?n ?h"
    using pos by (simp add: admit_many_maybe)
  also have "\<dots> = (?h\<lparr>eb_probesInFlight := eb_successThreshold b, eb_totalCalls := eb_totalCalls ?h + int ?n\<rparr>,
      replicate ?n True)"
    using admit_many_half_open [of ?h ?n now] h pos by simp
  finally show ?thesis
    using h by (simp add: tryAcquireProbe_def admit_half_open(2))
qed

text \<open>
  While an open breaker waits, every call is refused with the time that remains, and refusing
  changes nothing but the count of rejections.
\<close>

theorem breaker_open_rejects:
  assumes "eb_state b = BOpen" and "now < eb_openedAt b + eb_resetTimeoutMs b"
  shows "admit now b = (b\<lparr>eb_totalRejections := eb_totalRejections b + 1\<rparr>,
    Inl (CircuitRejectionError (eb_endpoint b) (eb_openedAt b + eb_resetTimeoutMs b - now)))"
  using assms by (simp add: admit_def admit_call_def maybeHalfOpen_def msUntilProbe_def max_def Let_def algebra_simps)

text \<open>The changes of state one call can make, each with its cause.\<close>

definition legal_change :: "int \<Rightarrow> endpoint_breaker \<Rightarrow> breaker_op \<Rightarrow> endpoint_breaker \<Rightarrow> bool" where
  "legal_change now b op b' \<longleftrightarrow>
     (eb_state b = BClosed \<and> eb_state b' = BOpen \<and> op = FailureOp \<and> eb_openedAt b' = now) \<or>
     (eb_state b = BOpen \<and> eb_state b' = BHalfOpen \<and> op \<in> {AdmitOp, StateOp} \<and>
        eb_openedAt b + eb_resetTimeoutMs b \<le> now) \<or>
     (eb_state b = BHalfOpen \<and> eb_state b' = BClosed \<and> op = SuccessOp \<and>
        eb_consecutiveSuccesses b + 1 \<ge> eb_successThreshold b \<and> live_failures b' = []) \<or>
     (eb_state b = BHalfOpen \<and> eb_state b' = BOpen \<and> op = FailureOp \<and> eb_openedAt b' = now \<and>
        eb_probesInFlight b' = 0)"

lemma maybeHalfOpen_change:
  "eb_state (maybeHalfOpen now b) \<noteq> eb_state b \<Longrightarrow>
     eb_state b = BOpen \<and> eb_state (maybeHalfOpen now b) = BHalfOpen \<and> eb_openedAt b + eb_resetTimeoutMs b \<le> now"
  by (auto simp: maybeHalfOpen_def msUntilProbe_def breaker_simps split: if_splits)

lemma admit_state: "eb_state (fst (admit now b)) = eb_state (maybeHalfOpen now b)"
  by (simp add: admit_def admit_call_def Let_def split: breaker_state.split)

lemma recordFailure_state:
  "eb_state (recordFailure now b) \<noteq> eb_state b \<Longrightarrow>
     eb_state b \<noteq> BOpen \<and> eb_state (recordFailure now b) = BOpen \<and> eb_openedAt (recordFailure now b) = now \<and>
     eb_probesInFlight (recordFailure now b) = 0"
  by (auto simp: recordFailure_def Let_def breaker_simps pushFailureTime_def effectiveFailures_def
      split: prod.splits if_splits)

text \<open>
  The state machine: short of \<open>force\<close> and \<open>restore\<close>, a breaker changes state only from closed to
  open on a failure, from open to half-open on a call or a read of the state after the timeout, from
  half-open to closed on the success that completes the threshold, which empties the window, and
  from half-open to open on any failure, which frees all probes.
\<close>

theorem breaker_legal_changes:
  assumes "\<forall>st. op \<noteq> ForceOp st" and "\<forall>sn. op \<noteq> RestoreOp sn"
    and "eb_state (breaker_step b (now, op)) \<noteq> eb_state b"
  shows "legal_change now b op (breaker_step b (now, op))"
proof (cases op)
  case AdmitOp
  then show ?thesis
    using assms(3) maybeHalfOpen_change [of now b] by (auto simp: admit_state legal_change_def)
next
  case StateOp
  then show ?thesis
    using assms(3) maybeHalfOpen_change [of now b] by (auto simp: get_state_def Let_def legal_change_def)
next
  case FailureOp
  then show ?thesis
    using assms(3) recordFailure_state [of now b] by (cases "eb_state b") (auto simp: legal_change_def)
next
  case SuccessOp
  then show ?thesis
    using assms(3) by (auto simp: recordSuccess_def Let_def breaker_simps clearWindow_def legal_change_def
        live_failures_def split: if_splits)
next
  case (TuneOp f r s)
  then show ?thesis
    using assms(3) by (auto simp: tune_def Let_def split: option.splits)
qed (use assms in auto)

text \<open>The recovery: after the timeout, a call that is admitted and succeeds, as often as the threshold asks.\<close>

definition probe_success :: "int \<Rightarrow> endpoint_breaker \<Rightarrow> endpoint_breaker" where
  "probe_success now b = recordSuccess now (fst (admit now b))"

lemma recordSuccess_half_open:
  assumes "eb_state b = BHalfOpen"
  shows "eb_consecutiveSuccesses b + 1 < eb_successThreshold b \<Longrightarrow>
      eb_state (recordSuccess now b) = BHalfOpen \<and>
      eb_consecutiveSuccesses (recordSuccess now b) = eb_consecutiveSuccesses b + 1 \<and>
      eb_successThreshold (recordSuccess now b) = eb_successThreshold b \<and>
      eb_probesInFlight (recordSuccess now b) = eb_probesInFlight (releaseProbe b)"
    and "eb_successThreshold b \<le> eb_consecutiveSuccesses b + 1 \<Longrightarrow>
      eb_state (recordSuccess now b) = BClosed \<and> eb_consecutiveFailures (recordSuccess now b) = 0 \<and>
      live_failures (recordSuccess now b) = []"
  using assms
  by (simp_all add: recordSuccess_def Let_def breaker_simps clearWindow_def live_failures_def)

lemma probe_success_half_open:
  assumes "eb_state b = BHalfOpen" and "0 \<le> eb_probesInFlight b" and "eb_probesInFlight b < eb_successThreshold b"
  shows "eb_consecutiveSuccesses b + 1 < eb_successThreshold b \<Longrightarrow>
      eb_state (probe_success now b) = BHalfOpen \<and> eb_probesInFlight (probe_success now b) = eb_probesInFlight b \<and>
      eb_consecutiveSuccesses (probe_success now b) = eb_consecutiveSuccesses b + 1 \<and>
      eb_successThreshold (probe_success now b) = eb_successThreshold b"
    and "eb_successThreshold b \<le> eb_consecutiveSuccesses b + 1 \<Longrightarrow>
      eb_state (probe_success now b) = BClosed \<and> eb_consecutiveFailures (probe_success now b) = 0 \<and>
      live_failures (probe_success now b) = []"
proof -
  let ?b = "b\<lparr>eb_probesInFlight := eb_probesInFlight b + 1, eb_totalCalls := eb_totalCalls b + 1\<rparr>"
  have p: "probe_success now b = recordSuccess now ?b"
    using assms by (simp add: probe_success_def admit_half_open(1))
  have st: "eb_state ?b = BHalfOpen"
    using assms(1) by simp
  show "eb_consecutiveSuccesses b + 1 < eb_successThreshold b \<Longrightarrow>
      eb_state (probe_success now b) = BHalfOpen \<and> eb_probesInFlight (probe_success now b) = eb_probesInFlight b \<and>
      eb_consecutiveSuccesses (probe_success now b) = eb_consecutiveSuccesses b + 1 \<and>
      eb_successThreshold (probe_success now b) = eb_successThreshold b"
    using recordSuccess_half_open(1) [OF st, of now] assms(2) by (simp add: p releaseProbe_fields)
  show "eb_successThreshold b \<le> eb_consecutiveSuccesses b + 1 \<Longrightarrow>
      eb_state (probe_success now b) = BClosed \<and> eb_consecutiveFailures (probe_success now b) = 0 \<and>
      live_failures (probe_success now b) = []"
    using recordSuccess_half_open(2) [OF st, of now] by (simp add: p)
qed

lemma probe_successes_close:
  assumes "eb_state b = BHalfOpen" and "0 \<le> eb_probesInFlight b" and "eb_probesInFlight b < eb_successThreshold b"
    and "eb_consecutiveSuccesses b + int n = eb_successThreshold b" and "0 < n"
  shows "eb_state ((probe_success now ^^ n) b) = BClosed \<and> eb_consecutiveFailures ((probe_success now ^^ n) b) = 0 \<and>
    live_failures ((probe_success now ^^ n) b) = []"
  using assms
proof (induction n arbitrary: b)
  case (Suc n)
  show ?case
  proof (cases n)
    case 0
    then show ?thesis
      using Suc.prems probe_success_half_open(2) [OF Suc.prems(1-3), of now] by simp
  next
    case (Suc m)
    then have "eb_consecutiveSuccesses b + 1 < eb_successThreshold b"
      using Suc.prems(4) by simp
    note p = probe_success_half_open(1) [OF Suc.prems(1-3) this, of now]
    have "(probe_success now ^^ Suc n) b = (probe_success now ^^ n) (probe_success now b)"
      by (simp only: funpow_Suc_right comp_apply)
    then show ?thesis
      using Suc.IH [of "probe_success now b"] Suc.prems p Suc by simp
  qed
qed simp

lemma probe_success_maybe: "probe_success now (maybeHalfOpen now b) = probe_success now b"
  by (simp add: probe_success_def admit_maybe)

text \<open>
  C40: recovery: once the timeout of an open breaker has passed, \<open>successThreshold\<close> admitted calls
  that succeed close it, with the failure count back at zero and an empty window.
\<close>

theorem breaker_recovers:
  assumes "b = foldl breaker_step (new_breaker t0 ep cfg) ops" and "eb_state b = BOpen"
    and "eb_openedAt b + eb_resetTimeoutMs b \<le> now" and "eb_probesInFlight b < eb_successThreshold b"
  shows "eb_state ((probe_success now ^^ nat (eb_successThreshold b)) b) = BClosed \<and>
    eb_consecutiveFailures ((probe_success now ^^ nat (eb_successThreshold b)) b) = 0 \<and>
    live_failures ((probe_success now ^^ nat (eb_successThreshold b)) b) = []"
proof -
  have inv: "breaker_inv b"
    using breaker.inv_run [OF breaker_inv_new] assms(1) by simp
  let ?h = "maybeHalfOpen now b" and ?n = "nat (eb_successThreshold b)"
  have pos: "0 < ?n"
    using inv by (simp add: breaker_inv_def)
  then obtain m where "?n = Suc m"
    by (cases ?n) auto
  then have "(probe_success now ^^ ?n) b = (probe_success now ^^ ?n) ?h"
    by (simp only: funpow_Suc_right comp_apply probe_success_maybe)
  then show ?thesis
    using probe_successes_close [of ?h ?n now] opened_elapsed [OF assms(2,3)] assms(4) inv pos
    by (simp add: breaker_simps breaker_inv_def)
qed

text \<open>
  Successes of calls admitted before the breaker opened count as probes: after the timeout a
  read of the state and \<open>successThreshold\<close> such late successes close the breaker although no call
  was admitted to try the endpoint.
\<close>

theorem breaker_late_successes_close:
  assumes "eb_state b = BOpen" and "eb_openedAt b + eb_resetTimeoutMs b \<le> now" and "eb_successThreshold b = int (Suc n)"
  shows "eb_state (foldl breaker_step b ((now, StateOp) # replicate (Suc n) (now, SuccessOp))) = BClosed"
proof -
  have late: "eb_state (foldl breaker_step c (replicate (Suc k) (now, SuccessOp))) = BClosed"
    if "eb_state c = BHalfOpen" "eb_consecutiveSuccesses c + int (Suc k) = eb_successThreshold c" for c k
    using that
  proof (induction k arbitrary: c)
    case 0
    then show ?case
      using recordSuccess_half_open(2) [of c now] by simp
  next
    case (Suc k)
    then show ?case
      using recordSuccess_half_open(1) [of c now] Suc.IH [of "recordSuccess now c"] by simp
  qed
  show ?thesis
    using late [of "maybeHalfOpen now b" n] opened_elapsed [OF assms(1,2)] assms(3)
    by (simp add: get_state_def Let_def breaker_simps)
qed

section \<open>Witnesses\<close>

definition opened_ops :: "(int \<times> breaker_op) list" where
  "opened_ops = [(1, AdmitOp), (2, AdmitOp), (3, FailureOp), (4, FailureOp)]"

lemmas breaker_evals =
  opened_ops_def new_breaker_def sample_config_def admit_def admit_call_def maybeHalfOpen_def msUntilProbe_def
  recordFailure_def recordSuccess_def Let_def pushFailureTime_def compactWindow_def effectiveFailures_def
  advance_head.simps emit_event_def breaker_transition_def releaseProbe_def

lemma opened:
  "eb_state (foldl breaker_step (new_breaker 0 [] sample_config) opened_ops) = BOpen"
  "eb_openedAt (foldl breaker_step (new_breaker 0 [] sample_config) opened_ops) = 4"
  "eb_resetTimeoutMs (foldl breaker_step (new_breaker 0 [] sample_config) opened_ops) = 100"
  "eb_probesInFlight (foldl breaker_step (new_breaker 0 [] sample_config) opened_ops) = 0"
  "eb_successThreshold (foldl breaker_step (new_breaker 0 [] sample_config) opened_ops) = 2"
  by (simp_all add: breaker_evals)

abbreviation opened_breaker :: endpoint_breaker where
  "opened_breaker \<equiv> foldl breaker_step (new_breaker 0 [] sample_config) opened_ops"

theorem breaker_half_open_budget_witness:
  "snd (admit_many 200 2 opened_breaker) = [True, True] \<and>
   snd (tryAcquireProbe 200 (fst (admit_many 200 2 opened_breaker))) = False"
  using breaker_half_open_budget [OF refl opened(1), of 200]
  by (simp add: opened) (simp add: numeral_2_eq_2)

theorem breaker_open_rejects_witness:
  "snd (admit 10 opened_breaker) = Inl (CircuitRejectionError (eb_endpoint opened_breaker) 94)"
  using breaker_open_rejects [OF opened(1), of 10] by (simp add: opened)

theorem breaker_legal_changes_witness:
  "legal_change 200 opened_breaker StateOp (breaker_step opened_breaker (200, StateOp))"
  by (rule breaker_legal_changes) (simp_all add: opened get_state_def maybeHalfOpen_def msUntilProbe_def Let_def breaker_simps)

theorem breaker_recovers_witness:
  "eb_state ((probe_success 200 ^^ 2) opened_breaker) = BClosed"
  using breaker_recovers [OF refl opened(1), of 200] by (simp add: opened)

theorem breaker_late_successes_close_witness:
  "eb_state (foldl breaker_step opened_breaker [(200, StateOp), (200, SuccessOp), (200, SuccessOp)]) = BClosed"
  using breaker_late_successes_close [OF opened(1), of 200 1] by (simp add: opened)

end
