(* ===== verification/Bulkhead.thy ===== *)
theory Bulkhead
  imports Interfaces "HOL-Library.Multiset"
begin

text \<open>
  The bulkhead (\<open>circuit-breaker/engine/BulkheadSemaphore.ts\<close>): slots, tickets and a queue of waiters.
  A call of \<open>acquire\<close> is a request, numbered in order of arrival; what its promise settles to is the log
  \<open>bh_log\<close>. A ticket is the closure of \<open>_ticket\<close>, its variable \<open>live\<close> is membership in \<open>bh_live\<close>. Promise
  callbacks run after the operation that settles them, so each operation is one step.
\<close>

section \<open>State\<close>

record waiter =
  wt_request :: nat
  wt_deadline :: int
  wt_settled :: bool

datatype settlement = is_Granted: Granted nat | TimedOut | Refused

record bulkhead_options =
  bo_maxConcurrent :: int
  bo_maxQueued :: "int option"
  bo_maxWaitMs :: "int option"

record bulkhead =
  bh_name :: jstring
  bh_maxConcurrent :: int
  bh_maxQueued :: int
  bh_maxWaitMs :: int
  bh_running :: int
  bh_queue :: "waiter list"
  bh_acquired :: nat
  bh_released :: nat
  bh_rejected :: nat
  bh_timedOut :: nat
  bh_requests :: nat
  bh_tickets :: nat
  bh_live :: "nat list"
  bh_log :: "(nat \<times> settlement) list"

definition new_bulkhead :: "jstring \<Rightarrow> bulkhead_options \<Rightarrow> bulkhead" where
  "new_bulkhead name options =
     \<lparr>bh_name = name, bh_maxConcurrent = max 1 (bo_maxConcurrent options),
      bh_maxQueued = max 0 (case bo_maxQueued options of Some n \<Rightarrow> n | None \<Rightarrow> 100),
      bh_maxWaitMs = max 0 (case bo_maxWaitMs options of Some n \<Rightarrow> n | None \<Rightarrow> 5000),
      bh_running = 0, bh_queue = [], bh_acquired = 0, bh_released = 0, bh_rejected = 0, bh_timedOut = 0,
      bh_requests = 0, bh_tickets = 0, bh_live = [], bh_log = []\<rparr>"

section \<open>Operations\<close>

definition settle :: "nat \<Rightarrow> settlement \<Rightarrow> bulkhead \<Rightarrow> bulkhead" where
  "settle req outcome b = b\<lparr>bh_log := bh_log b @ [(req, outcome)]\<rparr>"

text \<open>\<open>_ticket\<close>: a fresh live ticket.\<close>

definition make_ticket :: "bulkhead \<Rightarrow> bulkhead \<times> nat" where
  "make_ticket b = (b\<lparr>bh_tickets := bh_tickets b + 1, bh_live := bh_live b @ [bh_tickets b]\<rparr>, bh_tickets b)"

text \<open>Taking a slot for a request and resolving it with a ticket.\<close>

definition grant :: "nat \<Rightarrow> bulkhead \<Rightarrow> bulkhead" where
  "grant req b =
     (let b = b\<lparr>bh_running := bh_running b + 1, bh_acquired := bh_acquired b + 1\<rparr>; (b, t) = make_ticket b
      in settle req (Granted t) b)"

definition acquire :: "int \<Rightarrow> bulkhead \<Rightarrow> bulkhead" where
  "acquire now b =
     (let req = bh_requests b; b = b\<lparr>bh_requests := req + 1\<rparr> in
      if bh_running b < bh_maxConcurrent b then grant req b
      else if int (length (bh_queue b)) \<ge> bh_maxQueued b then settle req Refused (b\<lparr>bh_rejected := bh_rejected b + 1\<rparr>)
      else b\<lparr>bh_queue := bh_queue b @ [\<lparr>wt_request = req, wt_deadline = now + bh_maxWaitMs b, wt_settled = False\<rparr>]\<rparr>)"

text \<open>The first loop of \<open>pump\<close>, from the last waiter to the first.\<close>

fun expire_loop :: "int \<Rightarrow> nat \<Rightarrow> bulkhead \<Rightarrow> bulkhead" where
  "expire_loop now 0 b = b"
| "expire_loop now (Suc i) b =
     (let w = bh_queue b ! i in
      expire_loop now i
        (if wt_settled w then b\<lparr>bh_queue := splice_out i (bh_queue b)\<rparr>
         else if now \<ge> wt_deadline w
         then settle (wt_request w) TimedOut (b\<lparr>bh_queue := splice_out i (bh_queue b), bh_timedOut := bh_timedOut b + 1\<rparr>)
         else b))"

text \<open>The second loop: free slots go to the oldest waiters.\<close>

lemma grant_queue [simp]: "bh_queue (grant req b) = bh_queue b"
  by (simp add: grant_def make_ticket_def settle_def Let_def)

function grant_loop :: "bulkhead \<Rightarrow> bulkhead" where
  "grant_loop b =
     (if bh_running b < bh_maxConcurrent b \<and> bh_queue b \<noteq> [] then
        let w = hd (bh_queue b); b = b\<lparr>bh_queue := tl (bh_queue b)\<rparr> in
        if wt_settled w then grant_loop b else grant_loop (grant (wt_request w) b)
      else b)"
  by pat_completeness auto
termination
  by (relation "measure (\<lambda>b. length (bh_queue b))") auto

declare grant_loop.simps [simp del]

definition pump :: "int \<Rightarrow> bulkhead \<Rightarrow> bulkhead" where
  "pump now b = grant_loop (expire_loop now (length (bh_queue b)) b)"

definition ticket_release :: "int \<Rightarrow> nat \<Rightarrow> bulkhead \<Rightarrow> bulkhead" where
  "ticket_release now t b =
     (if t \<notin> set (bh_live b) then b
      else
        let b = b\<lparr>bh_live := filter (\<lambda>u. u \<noteq> t) (bh_live b)\<rparr>;
            b = b\<lparr>bh_running := bh_running b - 1, bh_released := bh_released b + 1\<rparr>
        in pump now b)"

text \<open>\<open>use\<close>: the outcome of the function is passed on, and the ticket is released in any case.\<close>

definition ticket_use :: "int \<Rightarrow> nat \<Rightarrow> ('e + 'a) \<Rightarrow> bulkhead \<Rightarrow> bulkhead \<times> ('e + 'a)" where
  "ticket_use now t outcome b = (ticket_release now t b, outcome)"

record bulkhead_stats =
  st_running :: int
  st_queued :: nat
  st_acquired :: nat
  st_released :: nat
  st_rejected :: nat
  st_timedOut :: nat

definition bulkhead_stats_of :: "bulkhead \<Rightarrow> bulkhead_stats" where
  "bulkhead_stats_of b =
     \<lparr>st_running = bh_running b, st_queued = length (bh_queue b), st_acquired = bh_acquired b,
      st_released = bh_released b, st_rejected = bh_rejected b, st_timedOut = bh_timedOut b\<rparr>"

section \<open>What the loops do\<close>

abbreviation expired :: "int \<Rightarrow> waiter \<Rightarrow> bool" where
  "expired now w \<equiv> wt_deadline w \<le> now"

lemma expire_loop_spec:
  assumes "bh_queue b = ws @ kept" and "\<forall>w \<in> set ws. \<not> wt_settled w"
  shows "expire_loop now (length ws) b =
     b\<lparr>bh_queue := filter (\<lambda>w. \<not> expired now w) ws @ kept,
       bh_timedOut := bh_timedOut b + length (filter (expired now) ws),
       bh_log := bh_log b @ map (\<lambda>w. (wt_request w, TimedOut)) (rev (filter (expired now) ws))\<rparr>"
  using assms
proof (induction ws arbitrary: b kept rule: rev_induct)
  case (snoc w ws)
  let ?b = "if expired now w then settle (wt_request w) TimedOut
      (b\<lparr>bh_queue := ws @ kept, bh_timedOut := bh_timedOut b + 1\<rparr>) else b"
  have step: "expire_loop now (length (ws @ [w])) b = expire_loop now (length ws) ?b"
    using snoc.prems splice_out_append [of ws w kept] by (simp add: nth_append)
  have "bh_queue ?b = ws @ (if expired now w then kept else w # kept)"
    using snoc.prems by (simp add: settle_def)
  from snoc.IH [OF this] show ?case
    unfolding step using snoc.prems by (simp add: settle_def)
qed simp

text \<open>The grants of \<open>ws\<close>, one after the other.\<close>

definition grants :: "waiter list \<Rightarrow> bulkhead \<Rightarrow> bulkhead" where
  "grants ws b =
     b\<lparr>bh_running := bh_running b + int (length ws), bh_acquired := bh_acquired b + length ws,
       bh_tickets := bh_tickets b + length ws, bh_live := bh_live b @ [bh_tickets b ..< bh_tickets b + length ws],
       bh_log := bh_log b @ zip (map wt_request ws) (map Granted [bh_tickets b ..< bh_tickets b + length ws])\<rparr>"

lemma grants_Cons: "grants ws (grant (wt_request w) b) = grants (w # ws) b"
proof -
  have "[bh_tickets b ..< bh_tickets b + length (w # ws)] = bh_tickets b # [Suc (bh_tickets b) ..< Suc (bh_tickets b) + length ws]"
    using upt_conv_Cons [of "bh_tickets b" "bh_tickets b + length (w # ws)"] by simp
  then show ?thesis
    unfolding grants_def by (simp add: grant_def make_ticket_def settle_def Let_def del: upt_Suc)
qed

lemma grants_Nil [simp]: "grants [] b = b"
  by (simp add: grants_def)

lemma grant_loop_spec:
  assumes "\<forall>w \<in> set (bh_queue b). \<not> wt_settled w"
  shows "grant_loop b =
     (let n = nat (bh_maxConcurrent b - bh_running b) in
      grants (take n (bh_queue b)) (b\<lparr>bh_queue := drop n (bh_queue b)\<rparr>))"
  using assms
proof (induction b rule: grant_loop.induct)
  case (1 b)
  show ?case
  proof (cases "bh_running b < bh_maxConcurrent b \<and> bh_queue b \<noteq> []")
    case False
    then have "grant_loop b = b"
      by (subst grant_loop.simps) (rule if_not_P)
    with False show ?thesis
      by (auto simp: Let_def)
  next
    case True
    obtain w ws where q: "bh_queue b = w # ws"
      using True by (cases "bh_queue b") auto
    let ?b = "grant (wt_request w) (b\<lparr>bh_queue := ws\<rparr>)"
    define n where "n = nat (bh_maxConcurrent b - (bh_running b + 1))"
    have n: "nat (bh_maxConcurrent b - bh_running b) = Suc n"
      unfolding n_def using True by arith
    have step: "grant_loop b = grant_loop ?b"
      using True q "1.prems" by (subst grant_loop.simps) simp
    have fields: "bh_queue ?b = ws" "nat (bh_maxConcurrent ?b - bh_running ?b) = n"
      by (simp_all add: grant_def make_ticket_def settle_def Let_def n_def)
    have "grant_loop ?b = grants (take n ws) (?b\<lparr>bh_queue := drop n ws\<rparr>)"
      using "1.IH"(2) [OF True refl refl] "1.prems" q fields by (simp add: Let_def)
    moreover have "?b\<lparr>bh_queue := drop n ws\<rparr> = grant (wt_request w) (b\<lparr>bh_queue := drop n ws\<rparr>)"
      by (simp add: grant_def make_ticket_def settle_def Let_def)
    ultimately show ?thesis
      unfolding step by (simp add: n q Let_def grants_Cons)
  qed
qed

lemma pump_spec:
  fixes now :: int
  assumes "\<forall>w \<in> set (bh_queue b). \<not> wt_settled w"
  defines "kept \<equiv> filter (\<lambda>w. \<not> expired now w) (bh_queue b)" and "gone \<equiv> filter (expired now) (bh_queue b)"
    and "n \<equiv> nat (bh_maxConcurrent b - bh_running b)"
  shows "pump now b = grants (take n kept)
     (b\<lparr>bh_timedOut := bh_timedOut b + length gone,
        bh_log := bh_log b @ map (\<lambda>w. (wt_request w, TimedOut)) (rev gone), bh_queue := drop n kept\<rparr>)"
proof -
  have "expire_loop now (length (bh_queue b)) b =
      b\<lparr>bh_queue := kept, bh_timedOut := bh_timedOut b + length gone,
        bh_log := bh_log b @ map (\<lambda>w. (wt_request w, TimedOut)) (rev gone)\<rparr>"
    using expire_loop_spec [of b "bh_queue b" "[]" now] assms(1) by (simp add: kept_def gone_def)
  then show ?thesis
    unfolding pump_def by (subst grant_loop_spec) (use assms(1) in \<open>simp_all add: kept_def n_def Let_def\<close>)
qed

section \<open>The invariant\<close>

definition granted_requests :: "(nat \<times> settlement) list \<Rightarrow> nat list" where
  "granted_requests log = map fst (filter (\<lambda>(r, s). is_Granted s) log)"

text \<open>
  Slots are live tickets; every request is in the log once or in the queue; grants follow the order of
  arrival, with the queue next; the counters are those of the log.
\<close>

definition core_ok :: "bulkhead \<Rightarrow> bool" where
  "core_ok b \<longleftrightarrow> 1 \<le> bh_maxConcurrent b \<and> bh_running b \<le> bh_maxConcurrent b
     \<and> bh_running b = int (length (bh_live b)) \<and> distinct (bh_live b) \<and> (\<forall>t \<in> set (bh_live b). t < bh_tickets b)
     \<and> bh_acquired b = bh_released b + length (bh_live b)
     \<and> int (length (bh_queue b)) \<le> bh_maxQueued b \<and> (\<forall>w \<in> set (bh_queue b). \<not> wt_settled w)
     \<and> mset (map fst (bh_log b)) + mset (map wt_request (bh_queue b)) = mset [0 ..< bh_requests b]
     \<and> sorted_wrt (<) (granted_requests (bh_log b) @ map wt_request (bh_queue b))
     \<and> bh_acquired b = length (granted_requests (bh_log b))
     \<and> bh_timedOut b = length (filter (\<lambda>(r, s). s = TimedOut) (bh_log b))
     \<and> bh_rejected b = length (filter (\<lambda>(r, s). s = Refused) (bh_log b))"

definition busy :: "bulkhead \<Rightarrow> bool" where
  "busy b \<longleftrightarrow> (bh_queue b \<noteq> [] \<longrightarrow> bh_running b = bh_maxConcurrent b)"

lemma granted_requests_simps [simp]:
  "granted_requests (log1 @ log2) = granted_requests log1 @ granted_requests log2"
  "granted_requests (map (\<lambda>w. (f w, TimedOut)) ws) = []"
  "granted_requests [(r, Refused)] = []" "granted_requests [(r, Granted t)] = [r]"
  by (induction ws) (simp_all add: granted_requests_def)

lemma granted_requests_zip [simp]:
  "length rs = length ts \<Longrightarrow> granted_requests (zip rs (map Granted ts)) = rs"
  by (induction rs ts rule: list_induct2) (simp_all add: granted_requests_def)

lemma zip_granted_counts [simp]:
  "filter (\<lambda>(r, s). s = TimedOut) (zip rs (map Granted ts)) = []"
  "filter (\<lambda>(r, s). s = Refused) (zip rs (map Granted ts)) = []"
  by (auto simp: filter_empty_conv dest!: set_zip_rightD)

lemma timeout_counts [simp]:
  "length (filter (\<lambda>(r, s). s = TimedOut) (map (\<lambda>w. (f w, TimedOut)) ws)) = length ws"
  "filter (\<lambda>(r, s). s = Refused) (map (\<lambda>w. (f w, TimedOut)) ws) = []"
  by (induction ws) simp_all

lemma core_ok_new [simp]: "core_ok (new_bulkhead name options)" "busy (new_bulkhead name options)"
  by (simp_all add: core_ok_def busy_def new_bulkhead_def granted_requests_def)

lemma core_ok_expired:
  assumes "core_ok b"
  shows "core_ok (b\<lparr>bh_queue := filter (\<lambda>w. \<not> expired now w) (bh_queue b),
                   bh_timedOut := bh_timedOut b + length (filter (expired now) (bh_queue b)),
                   bh_log := bh_log b @ map (\<lambda>w. (wt_request w, TimedOut)) (rev (filter (expired now) (bh_queue b)))\<rparr>)"
proof -
  let ?kept = "filter (\<lambda>w. \<not> expired now w) (bh_queue b)" and ?gone = "filter (expired now) (bh_queue b)"
  have "mset (map wt_request ?gone) + mset (map wt_request ?kept) = mset (map wt_request (bh_queue b))"
    by (simp flip: image_mset_union)
  then have "mset (map fst (bh_log b)) + mset (map wt_request ?gone) + mset (map wt_request ?kept) = mset [0 ..< bh_requests b]"
    using assms by (simp add: core_ok_def add.assoc)
  moreover have "int (length ?kept) \<le> bh_maxQueued b"
    using assms length_filter_le [of "\<lambda>w. \<not> expired now w" "bh_queue b"] unfolding core_ok_def by linarith
  moreover have "sorted_wrt (<) (granted_requests (bh_log b) @ map wt_request ?kept)"
    using assms by (intro sorted_wrt_filter_tail) (simp add: core_ok_def)
  ultimately show ?thesis
    using assms by (auto simp: core_ok_def comp_def)
qed

lemma core_ok_grants:
  assumes "core_ok (b\<lparr>bh_queue := ws @ rest\<rparr>)" and "bh_running b + int (length ws) \<le> bh_maxConcurrent b"
  shows "core_ok (grants ws (b\<lparr>bh_queue := rest\<rparr>))"
proof -
  let ?new = "[bh_tickets b ..< bh_tickets b + length ws]"
  have "distinct (bh_live b @ ?new)" "\<forall>t \<in> set (bh_live b @ ?new). t < bh_tickets b + length ws"
    using assms(1) by (fastforce simp: core_ok_def)+
  then show ?thesis
    using assms by (simp add: core_ok_def grants_def add.assoc)
qed

lemma grants_fields [simp]:
  "bh_queue (grants ws b) = bh_queue b" "bh_maxConcurrent (grants ws b) = bh_maxConcurrent b"
  "bh_running (grants ws b) = bh_running b + int (length ws)"
  by (simp_all add: grants_def)

lemma pump_ok:
  assumes ok: "core_ok b"
  shows "core_ok (pump now b) \<and> busy (pump now b)"
proof -
  define kept where "kept = filter (\<lambda>w. \<not> expired now w) (bh_queue b)"
  define gone where "gone = filter (expired now) (bh_queue b)"
  define n where "n = nat (bh_maxConcurrent b - bh_running b)"
  define b1 where "b1 = b\<lparr>bh_timedOut := bh_timedOut b + length gone,
        bh_log := bh_log b @ map (\<lambda>w. (wt_request w, TimedOut)) (rev gone)\<rparr>"
  have uns: "\<forall>w \<in> set (bh_queue b). \<not> wt_settled w"
    using ok by (simp add: core_ok_def)
  have pump: "pump now b = grants (take n kept) (b1\<lparr>bh_queue := drop n kept\<rparr>)"
    using pump_spec [OF uns, of now] by (simp add: b1_def kept_def gone_def n_def)
  have "b1\<lparr>bh_queue := take n kept @ drop n kept\<rparr> =
      b\<lparr>bh_queue := kept, bh_timedOut := bh_timedOut b + length gone,
        bh_log := bh_log b @ map (\<lambda>w. (wt_request w, TimedOut)) (rev gone)\<rparr>"
    by (simp add: b1_def)
  then have "core_ok (b1\<lparr>bh_queue := take n kept @ drop n kept\<rparr>)"
    using core_ok_expired [OF ok, of now] by (simp only: kept_def gone_def)
  moreover have room: "bh_running b1 + int (length (take n kept)) \<le> bh_maxConcurrent b1"
    using ok min.cobounded2 [of "length kept" n] by (simp add: b1_def n_def core_ok_def) linarith
  ultimately have "core_ok (pump now b)"
    unfolding pump by (rule core_ok_grants)
  moreover have "busy (pump now b)"
    using ok by (auto simp: busy_def pump b1_def n_def core_ok_def)
  ultimately show ?thesis ..
qed

lemma core_ok_requested:
  assumes "core_ok b"
  shows "mset (map fst (bh_log b)) + mset (map wt_request (bh_queue b)) + {#bh_requests b#} = mset [0 ..< bh_requests b + 1]"
    and "\<forall>r \<in> set (granted_requests (bh_log b) @ map wt_request (bh_queue b)). r < bh_requests b"
proof -
  have eq: "mset (map fst (bh_log b)) + mset (map wt_request (bh_queue b)) = mset [0 ..< bh_requests b]"
    using assms by (simp add: core_ok_def)
  then show "mset (map fst (bh_log b)) + mset (map wt_request (bh_queue b)) + {#bh_requests b#} = mset [0 ..< bh_requests b + 1]"
    by simp
  have "r < bh_requests b" if "r \<in> set (map fst (bh_log b)) \<union> set (map wt_request (bh_queue b))" for r
    using that arg_cong [OF eq, of set_mset] by (metis atLeastLessThan_iff set_mset_mset set_mset_union set_upt)
  then show "\<forall>r \<in> set (granted_requests (bh_log b) @ map wt_request (bh_queue b)). r < bh_requests b"
    by (auto simp: granted_requests_def)
qed

lemma acquire_ok:
  assumes ok: "core_ok b" and busy: "busy b"
  shows "core_ok (acquire now b) \<and> busy (acquire now b)"
proof -
  note req = core_ok_requested [OF ok]
  consider (free) "bh_running b < bh_maxConcurrent b"
    | (full) "\<not> bh_running b < bh_maxConcurrent b" "int (length (bh_queue b)) \<ge> bh_maxQueued b"
    | (wait) "\<not> bh_running b < bh_maxConcurrent b" "\<not> int (length (bh_queue b)) \<ge> bh_maxQueued b"
    by blast
  then show ?thesis
  proof cases
    case free
    then have "bh_queue b = []"
      using busy by (auto simp: busy_def)
    then show ?thesis
      using free ok req
      by (auto simp: acquire_def Let_def grant_def make_ticket_def settle_def core_ok_def busy_def sorted_wrt_append)
  next
    case full
    then show ?thesis
      using ok busy req by (auto simp: acquire_def Let_def settle_def core_ok_def busy_def)
  next
    case wait
    then show ?thesis
      using ok req by (auto simp: acquire_def Let_def core_ok_def busy_def sorted_wrt_append)
  qed
qed

lemma release_ok:
  assumes ok: "core_ok b" and busy: "busy b"
  shows "core_ok (ticket_release now t b) \<and> busy (ticket_release now t b)"
proof (cases "t \<in> set (bh_live b)")
  case False
  with ok busy show ?thesis by (simp add: ticket_release_def)
next
  case True
  define b1 where "b1 = b\<lparr>bh_live := filter (\<lambda>u. u \<noteq> t) (bh_live b), bh_running := bh_running b - 1,
                          bh_released := bh_released b + 1\<rparr>"
  have "distinct (bh_live b)"
    using ok by (simp add: core_ok_def)
  then have "filter (\<lambda>u. u \<noteq> t) (bh_live b) = remove1 t (bh_live b)"
    by (simp add: distinct_remove1_removeAll removeAll_filter_not_eq eq_commute)
  then have "length (bh_live b) = Suc (length (filter (\<lambda>u. u \<noteq> t) (bh_live b)))"
    using True length_pos_if_in_set [OF True] by (simp add: length_remove1)
  then have "core_ok b1"
    using ok by (auto simp: core_ok_def b1_def)
  then show ?thesis
    using True pump_ok [of b1 now] by (simp add: ticket_release_def b1_def)
qed

section \<open>Runs\<close>

datatype bulkhead_op = AcquireOp int | ReleaseOp int nat | PumpOp int

fun bulkhead_step :: "bulkhead \<Rightarrow> bulkhead_op \<Rightarrow> bulkhead" where
  "bulkhead_step b (AcquireOp now) = acquire now b"
| "bulkhead_step b (ReleaseOp now t) = ticket_release now t b"
| "bulkhead_step b (PumpOp now) = pump now b"

interpretation bulkhead_ops: invariant_machine bulkhead_step "\<lambda>b. core_ok b \<and> busy b"
proof
  fix b op
  assume "core_ok b \<and> busy b"
  then show "core_ok (bulkhead_step b op) \<and> busy (bulkhead_step b op)"
    by (cases op) (auto simp: acquire_ok release_ok pump_ok)
qed

lemma bulkhead_run_ok: "core_ok (foldl bulkhead_step (new_bulkhead name options) ops)"
    "busy (foldl bulkhead_step (new_bulkhead name options) ops)"
  using bulkhead_ops.inv_run [of "new_bulkhead name options" ops] by simp_all

lemma maxConcurrent_kept: "bh_maxConcurrent (foldl bulkhead_step b ops) = bh_maxConcurrent b"
proof (induction ops arbitrary: b)
  case (Cons op ops)
  have expire: "bh_maxConcurrent (expire_loop now i b) = bh_maxConcurrent b" for now i b
    by (induction i arbitrary: b) (simp_all add: Let_def settle_def)
  have granted: "bh_maxConcurrent (grant_loop b) = bh_maxConcurrent b" for b
  proof (induction b rule: grant_loop.induct)
    case (1 b)
    then show ?case
      by (subst grant_loop.simps) (simp add: Let_def grant_def make_ticket_def settle_def)
  qed
  have "bh_maxConcurrent (bulkhead_step b op) = bh_maxConcurrent b"
    by (cases op) (simp_all add: acquire_def ticket_release_def pump_def Let_def settle_def grant_def make_ticket_def
        expire granted)
  with Cons show ?case by simp
qed simp

text \<open>
  C36: under any interleaving of acquires, releases and pumps at any times, the slots in use are exactly
  the live tickets and never more than the limit; no request waits while a slot is free; and every
  acquired slot is released once or still held.
\<close>

theorem bulkhead_slots:
  "let b = foldl bulkhead_step (new_bulkhead name options) ops in
     bh_running b = int (length (bh_live b)) \<and> distinct (bh_live b)
     \<and> bh_running b \<le> max 1 (bo_maxConcurrent options)
     \<and> (bh_queue b = [] \<or> bh_running b = max 1 (bo_maxConcurrent options))
     \<and> bh_acquired b = bh_released b + length (bh_live b)"
  using bulkhead_run_ok [of name options ops] maxConcurrent_kept [of "new_bulkhead name options" ops]
  by (auto simp: core_ok_def busy_def Let_def new_bulkhead_def)

text \<open>
  Every request is granted, timed out, refused or still waiting, exactly one of them; slots are
  granted in the order the requests arrived, and the waiting ones come after all those granted; the
  counters are those of the log.
\<close>

theorem bulkhead_fifo:
  "let b = foldl bulkhead_step (new_bulkhead name options) ops in
     mset (map fst (bh_log b)) + mset (map wt_request (bh_queue b)) = mset [0 ..< bh_requests b]
     \<and> sorted_wrt (<) (granted_requests (bh_log b) @ map wt_request (bh_queue b))
     \<and> bh_acquired b = length (granted_requests (bh_log b))
     \<and> bh_timedOut b = length (filter (\<lambda>(r, s). s = TimedOut) (bh_log b))
     \<and> bh_rejected b = length (filter (\<lambda>(r, s). s = Refused) (bh_log b))"
  using bulkhead_run_ok(1) [of name options ops] by (auto simp: core_ok_def Let_def)

text \<open>
  Releasing a ticket again changes nothing, also after its slot went to another request.
\<close>

theorem bulkhead_release_once:
  "let b = foldl bulkhead_step (new_bulkhead name options) ops in
     ticket_release now' t (ticket_release now t b) = ticket_release now t b"
proof -
  let ?b = "foldl bulkhead_step (new_bulkhead name options) ops"
  have ok: "core_ok ?b"
    by (rule bulkhead_run_ok)
  have "t \<notin> set (bh_live (ticket_release now t ?b))"
  proof (cases "t \<in> set (bh_live ?b)")
    case True
    define b1 where "b1 = ?b\<lparr>bh_live := filter (\<lambda>u. u \<noteq> t) (bh_live ?b), bh_running := bh_running ?b - 1,
                            bh_released := bh_released ?b + 1\<rparr>"
    have uns: "\<forall>w \<in> set (bh_queue b1). \<not> wt_settled w" and fresh: "t < bh_tickets b1"
      using ok True by (simp_all add: core_ok_def b1_def)
    have "t \<notin> set (bh_live (pump now b1))"
      using fresh unfolding pump_spec [OF uns, of now] by (simp add: grants_def) (simp add: b1_def)
    with True show ?thesis
      by (simp add: ticket_release_def b1_def)
  qed (simp add: ticket_release_def)
  then show ?thesis
    by (simp add: ticket_release_def [of now'] Let_def)
qed

text \<open>
  No timer enforces the deadline: while the running calls do not return, further requests leave
  every waiter in the queue, however late it is, and are themselves only queued or refused.
\<close>

theorem bulkhead_deadline_passive:
  assumes "foldl bulkhead_step (new_bulkhead name options) ops = b" and "bh_queue b \<noteq> []"
  shows "let b' = foldl bulkhead_step b (map AcquireOp readings) in
     take (length (bh_queue b)) (bh_queue b') = bh_queue b
     \<and> take (length (bh_log b)) (bh_log b') = bh_log b
     \<and> list_all (\<lambda>(r, s). s = Refused) (drop (length (bh_log b)) (bh_log b'))"
proof -
  have stuck: "\<exists>more refused. bh_queue (foldl bulkhead_step c (map AcquireOp readings)) = bh_queue c @ more
      \<and> bh_log (foldl bulkhead_step c (map AcquireOp readings)) = bh_log c @ refused \<and> list_all (\<lambda>(r, s). s = Refused) refused"
    if "core_ok c" "busy c" "bh_queue c \<noteq> []" for c
    using that
  proof (induction readings arbitrary: c)
    case (Cons now readings)
    let ?c = "acquire now c"
    have full: "\<not> bh_running c < bh_maxConcurrent c"
      using Cons.prems by (simp add: busy_def)
    have one: "(\<exists>w. bh_queue ?c = bh_queue c @ [w]) \<and> bh_log ?c = bh_log c \<or>
        bh_queue ?c = bh_queue c \<and> (\<exists>r. bh_log ?c = bh_log c @ [(r, Refused)])"
      using full by (auto simp: acquire_def Let_def settle_def)
    then have "bh_queue ?c \<noteq> []"
      using Cons.prems(3) by auto
    with Cons.IH [of ?c] acquire_ok [OF Cons.prems(1,2)] one show ?case
      by fastforce
  qed simp
  have "core_ok b" "busy b"
    using bulkhead_run_ok [of name options ops] assms(1) by auto
  from stuck [OF this assms(2)] show ?thesis
    by (auto simp: Let_def)
qed

theorem bulkhead_deadline_passive_witness:
  "let b = foldl bulkhead_step (new_bulkhead [] \<lparr>bo_maxConcurrent = 1, bo_maxQueued = None, bo_maxWaitMs = Some 10\<rparr>)
             [AcquireOp 0, AcquireOp 0];
       b' = foldl bulkhead_step b (map AcquireOp [1000000])
   in take 1 (bh_queue b') = [\<lparr>wt_request = 1, wt_deadline = 10, wt_settled = False\<rparr>]"
proof -
  have q: "bh_queue (foldl bulkhead_step (new_bulkhead [] \<lparr>bo_maxConcurrent = 1, bo_maxQueued = None, bo_maxWaitMs = Some 10\<rparr>)
             [AcquireOp 0, AcquireOp 0]) = [\<lparr>wt_request = 1, wt_deadline = 10, wt_settled = False\<rparr>]"
    by (simp add: new_bulkhead_def acquire_def grant_def make_ticket_def settle_def)
  then show ?thesis
    using bulkhead_deadline_passive [OF refl, of "[]" "\<lparr>bo_maxConcurrent = 1, bo_maxQueued = None, bo_maxWaitMs = Some 10\<rparr>"
      "[AcquireOp 0, AcquireOp 0]" "[1000000]"] by (simp only: Let_def) simp
qed

end
