(* ===== verification/ProbeScheduler.thy ===== *)
theory ProbeScheduler
  imports EndpointBreaker "HOL-Library.Multiset"
begin

text \<open>
  The fleet-wide bound on half-open probes (\<open>circuit-breaker/engine/ProbeScheduler.ts\<close>) on top of the
  endpoint breakers. Breakers are shared objects, so the state holds a store from references to breakers.
  Requests, tickets and the log are as in the bulkhead; one clock reading serves an operation.
\<close>

section \<open>State\<close>

type_synonym breaker_ref = nat

record queued_probe =
  qp_request :: nat
  qp_breaker :: breaker_ref
  qp_deadline :: int
  qp_settled :: bool

datatype probe_settlement =
    is_probe_granted: ProbeGranted nat
  | ProbeRejected breaker_error
  | ProbeQueueFullError int

record scheduler_options =
  so_maxConcurrent :: "int option"
  so_maxQueued :: "int option"
  so_queueTimeoutMs :: "int option"

record probe_scheduler =
  ps_maxConcurrent :: int
  ps_maxQueued :: int
  ps_queueTimeoutMs :: int
  ps_running :: int
  ps_queue :: "queued_probe list"
  ps_granted :: nat
  ps_rejectedQueueFull :: nat
  ps_rejectedTimeout :: nat
  ps_rejectedBreaker :: nat
  ps_breakers :: "breaker_ref \<Rightarrow> endpoint_breaker"
  ps_requests :: nat
  ps_tickets :: nat
  ps_live :: "(nat \<times> breaker_ref) list"
  ps_log :: "(nat \<times> probe_settlement) list"

definition new_scheduler :: "(breaker_ref \<Rightarrow> endpoint_breaker) \<Rightarrow> scheduler_options \<Rightarrow> probe_scheduler" where
  "new_scheduler breakers options =
     \<lparr>ps_maxConcurrent = max 1 (or_else (so_maxConcurrent options) 8),
      ps_maxQueued = max 1 (or_else (so_maxQueued options) 256),
      ps_queueTimeoutMs = max 0 (or_else (so_queueTimeoutMs options) 5000),
      ps_running = 0, ps_queue = [], ps_granted = 0, ps_rejectedQueueFull = 0, ps_rejectedTimeout = 0,
      ps_rejectedBreaker = 0, ps_breakers = breakers, ps_requests = 0, ps_tickets = 0, ps_live = [], ps_log = []\<rparr>"

section \<open>Operations\<close>

definition probe_settle :: "nat \<Rightarrow> probe_settlement \<Rightarrow> probe_scheduler \<Rightarrow> probe_scheduler" where
  "probe_settle req outcome s = s\<lparr>ps_log := ps_log s @ [(req, outcome)]\<rparr>"

definition set_breaker :: "breaker_ref \<Rightarrow> endpoint_breaker \<Rightarrow> probe_scheduler \<Rightarrow> probe_scheduler" where
  "set_breaker r b s = s\<lparr>ps_breakers := (ps_breakers s)(r := b)\<rparr>"

text \<open>\<open>_makeTicket\<close>: a fresh live ticket of a breaker.\<close>

definition makeTicket :: "breaker_ref \<Rightarrow> probe_scheduler \<Rightarrow> probe_scheduler \<times> nat" where
  "makeTicket r s = (s\<lparr>ps_tickets := ps_tickets s + 1, ps_live := ps_live s @ [(ps_tickets s, r)]\<rparr>, ps_tickets s)"

text \<open>With a free slot, the breaker decides: a ticket, or the rejection.\<close>

definition admit_probe :: "int \<Rightarrow> nat \<Rightarrow> breaker_ref \<Rightarrow> probe_scheduler \<Rightarrow> probe_scheduler" where
  "admit_probe now req r s =
     (let (b, ok) = tryAcquireProbe now (ps_breakers s r); s = set_breaker r b s in
      if ok then
        let s = s\<lparr>ps_running := ps_running s + 1, ps_granted := ps_granted s + 1\<rparr>; (s, t) = makeTicket r s
        in probe_settle req (ProbeGranted t) s
      else
        probe_settle req (ProbeRejected (CircuitRejectionError (eb_endpoint b) (msUntilProbe now b)))
          (s\<lparr>ps_rejectedBreaker := ps_rejectedBreaker s + 1\<rparr>))"

definition schedule :: "int \<Rightarrow> breaker_ref \<Rightarrow> probe_scheduler \<Rightarrow> probe_scheduler" where
  "schedule now r s =
     (let req = ps_requests s; s = s\<lparr>ps_requests := req + 1\<rparr> in
      if ps_running s < ps_maxConcurrent s then admit_probe now req r s
      else if int (length (ps_queue s)) \<ge> ps_maxQueued s
      then probe_settle req (ProbeQueueFullError (ps_maxQueued s)) (s\<lparr>ps_rejectedQueueFull := ps_rejectedQueueFull s + 1\<rparr>)
      else s\<lparr>ps_queue := ps_queue s
               @ [\<lparr>qp_request = req, qp_breaker = r, qp_deadline = now + ps_queueTimeoutMs s, qp_settled = False\<rparr>]\<rparr>)"

fun expire_probes :: "int \<Rightarrow> nat \<Rightarrow> probe_scheduler \<Rightarrow> probe_scheduler" where
  "expire_probes now 0 s = s"
| "expire_probes now (Suc i) s =
     (let q = ps_queue s ! i in
      expire_probes now i
        (if qp_settled q then s\<lparr>ps_queue := splice_out i (ps_queue s)\<rparr>
         else if now \<ge> qp_deadline q
         then probe_settle (qp_request q)
                (ProbeRejected (CircuitRejectionError (eb_endpoint (ps_breakers s (qp_breaker q))) 0))
                (s\<lparr>ps_queue := splice_out i (ps_queue s), ps_rejectedTimeout := ps_rejectedTimeout s + 1\<rparr>)
         else s))"

lemma admit_probe_queue [simp]: "ps_queue (admit_probe now req r s) = ps_queue s"
  by (simp add: admit_probe_def makeTicket_def probe_settle_def set_breaker_def Let_def split: prod.split)

function grant_probes :: "int \<Rightarrow> probe_scheduler \<Rightarrow> probe_scheduler" where
  "grant_probes now s =
     (if ps_running s < ps_maxConcurrent s \<and> ps_queue s \<noteq> [] then
        let q = hd (ps_queue s); s = s\<lparr>ps_queue := tl (ps_queue s)\<rparr> in
        if qp_settled q then grant_probes now s
        else grant_probes now (admit_probe now (qp_request q) (qp_breaker q) s)
      else s)"
  by pat_completeness auto
termination
  by (relation "measure (\<lambda>(now, s). length (ps_queue s))") auto

declare grant_probes.simps [simp del]

definition pump_probes :: "int \<Rightarrow> probe_scheduler \<Rightarrow> probe_scheduler" where
  "pump_probes now s = grant_probes now (expire_probes now (length (ps_queue s)) s)"

definition release_slot :: "int \<Rightarrow> probe_scheduler \<Rightarrow> probe_scheduler" where
  "release_slot now s = pump_probes now (s\<lparr>ps_running := ps_running s - 1\<rparr>)"

text \<open>A ticket's \<open>success\<close> and \<open>failure\<close>: the outcome goes to the breaker, the slot is released, once.\<close>

definition ticket_outcome :: "(int \<Rightarrow> endpoint_breaker \<Rightarrow> endpoint_breaker) \<Rightarrow> int \<Rightarrow> nat \<Rightarrow> probe_scheduler \<Rightarrow> probe_scheduler" where
  "ticket_outcome rec now t s =
     (case map_of (ps_live s) t of
        None \<Rightarrow> s
      | Some r \<Rightarrow>
          let s = s\<lparr>ps_live := filter (\<lambda>(u, _). u \<noteq> t) (ps_live s)\<rparr>;
              s = set_breaker r (rec now (ps_breakers s r)) s
          in release_slot now s)"

definition ticket_success :: "int \<Rightarrow> nat \<Rightarrow> probe_scheduler \<Rightarrow> probe_scheduler" where
  "ticket_success = ticket_outcome recordSuccess"

definition ticket_failure :: "int \<Rightarrow> nat \<Rightarrow> probe_scheduler \<Rightarrow> probe_scheduler" where
  "ticket_failure = ticket_outcome recordFailure"

text \<open>\<open>runProbe\<close> once it holds a ticket: the probe's outcome is recorded and passed on.\<close>

definition runProbe_with :: "int \<Rightarrow> nat \<Rightarrow> ('e + 'a) \<Rightarrow> probe_scheduler \<Rightarrow> probe_scheduler \<times> ('e + 'a)" where
  "runProbe_with now t outcome s =
     (case outcome of Inr v \<Rightarrow> (ticket_success now t s, Inr v) | Inl e \<Rightarrow> (ticket_failure now t s, Inl e))"

record scheduler_stats =
  sx_running :: int
  sx_queued :: nat
  sx_granted :: nat
  sx_rejectedQueueFull :: nat
  sx_rejectedTimeout :: nat
  sx_rejectedBreaker :: nat

definition scheduler_stats_of :: "probe_scheduler \<Rightarrow> scheduler_stats" where
  "scheduler_stats_of s =
     \<lparr>sx_running = ps_running s, sx_queued = length (ps_queue s), sx_granted = ps_granted s,
      sx_rejectedQueueFull = ps_rejectedQueueFull s, sx_rejectedTimeout = ps_rejectedTimeout s,
      sx_rejectedBreaker = ps_rejectedBreaker s\<rparr>"

section \<open>The invariant\<close>

definition granted_probes :: "(nat \<times> probe_settlement) list \<Rightarrow> nat list" where
  "granted_probes log = map fst (filter (\<lambda>(r, s). is_probe_granted s) log)"

lemma granted_probes_simps [simp]:
  "granted_probes (log1 @ log2) = granted_probes log1 @ granted_probes log2" "granted_probes [] = []"
  "granted_probes [(r, ProbeGranted t)] = [r]" "granted_probes [(r, ProbeRejected e)] = []"
  "granted_probes [(r, ProbeQueueFullError n)] = []"
  by (simp_all add: granted_probes_def)

text \<open>\<open>taken\<close> are the requests taken from the queue and not settled yet (one at most, inside an operation).\<close>

definition slots_ok :: "nat list \<Rightarrow> probe_scheduler \<Rightarrow> bool" where
  "slots_ok taken s \<longleftrightarrow> 1 \<le> ps_maxConcurrent s \<and> ps_running s \<le> ps_maxConcurrent s
     \<and> ps_running s = int (length (ps_live s)) \<and> distinct (map fst (ps_live s))
     \<and> (\<forall>t \<in> fst ` set (ps_live s). t < ps_tickets s) \<and> (\<forall>q \<in> set (ps_queue s). \<not> qp_settled q)
     \<and> mset (map fst (ps_log s)) + mset taken + mset (map qp_request (ps_queue s)) = mset [0 ..< ps_requests s]
     \<and> sorted_wrt (<) (granted_probes (ps_log s) @ taken @ map qp_request (ps_queue s))
     \<and> ps_granted s = length (granted_probes (ps_log s))
     \<and> ps_granted s + ps_rejectedBreaker s + ps_rejectedTimeout s + ps_rejectedQueueFull s = length (ps_log s)"

definition probes_busy :: "probe_scheduler \<Rightarrow> bool" where
  "probes_busy s \<longleftrightarrow> (ps_queue s \<noteq> [] \<longrightarrow> ps_running s = ps_maxConcurrent s)"

lemma slots_ok_new [simp]: "slots_ok [] (new_scheduler breakers options)" "probes_busy (new_scheduler breakers options)"
  by (simp_all add: slots_ok_def probes_busy_def new_scheduler_def)

lemma admit_probe_ok:
  assumes ok: "slots_ok [req] s" and room: "ps_running s < ps_maxConcurrent s"
  shows "slots_ok [] (admit_probe now req r s)"
proof -
  obtain b adm where t: "tryAcquireProbe now (ps_breakers s r) = (b, adm)"
    by fastforce
  have "sorted_wrt (<) (granted_probes (ps_log s) @ map qp_request (ps_queue s))"
    using ok by (auto simp: slots_ok_def sorted_wrt_append)
  moreover have "ps_tickets s \<notin> fst ` set (ps_live s)"
    using ok by (auto simp: slots_ok_def)
  moreover have "\<forall>x \<in> set (ps_live s). fst x < Suc (ps_tickets s)"
    using ok by (fastforce simp: slots_ok_def)
  ultimately show ?thesis
    using ok room by (cases adm) (simp_all add: admit_probe_def t set_breaker_def makeTicket_def probe_settle_def slots_ok_def)
qed

lemma grant_probes_ok:
  "slots_ok [] s \<Longrightarrow> slots_ok [] (grant_probes now s) \<and> probes_busy (grant_probes now s)"
proof (induction now s rule: grant_probes.induct)
  case (1 now s)
  show ?case
  proof (cases "ps_running s < ps_maxConcurrent s \<and> ps_queue s \<noteq> []")
    case False
    then have "grant_probes now s = s"
      by (subst grant_probes.simps) (rule if_not_P)
    with False "1.prems" show ?thesis
      by (auto simp: probes_busy_def slots_ok_def)
  next
    case True
    obtain q qs where q: "ps_queue s = q # qs" "\<not> qp_settled q"
      using True "1.prems" by (cases "ps_queue s") (auto simp: slots_ok_def)
    have taken: "slots_ok [qp_request q] (s\<lparr>ps_queue := qs\<rparr>)"
      using "1.prems" q by (simp add: slots_ok_def add.assoc)
    have "slots_ok [] (admit_probe now (qp_request q) (qp_breaker q) (s\<lparr>ps_queue := qs\<rparr>))"
      using True by (intro admit_probe_ok [OF taken]) simp
    with "1.IH"(2) [OF True refl refl] q True show ?thesis
      by (subst (1 2) grant_probes.simps) simp
  qed
qed

lemma expire_probes_ok:
  "slots_ok [] s \<Longrightarrow> i \<le> length (ps_queue s) \<Longrightarrow> slots_ok [] (expire_probes now i s)"
proof (induction i arbitrary: s)
  case (Suc i)
  define qs q rest where "qs = take i (ps_queue s)" and "q = ps_queue s ! i" and "rest = drop (Suc i) (ps_queue s)"
  have queue: "ps_queue s = qs @ q # rest" and len: "length qs = i"
    using Suc.prems(2) by (simp_all add: qs_def q_def rest_def id_take_nth_drop)
  have out: "splice_out i (ps_queue s) = qs @ rest"
    using splice_out_append [of qs q rest] by (simp add: queue len)
  have uns: "\<not> qp_settled q"
    using Suc.prems(1) by (simp add: slots_ok_def queue)
  show ?case
  proof (cases "now \<ge> qp_deadline q")
    case True
    let ?s = "probe_settle (qp_request q)
                (ProbeRejected (CircuitRejectionError (eb_endpoint (ps_breakers s (qp_breaker q))) 0))
                (s\<lparr>ps_queue := qs @ rest, ps_rejectedTimeout := ps_rejectedTimeout s + 1\<rparr>)"
    have "slots_ok [] ?s"
      using Suc.prems(1) by (auto simp: slots_ok_def queue probe_settle_def sorted_wrt_append)
    moreover have "i \<le> length (ps_queue ?s)"
      by (simp add: probe_settle_def len)
    ultimately have "slots_ok [] (expire_probes now i ?s)"
      by (rule Suc.IH)
    with True uns out show ?thesis
      by (simp add: q_def [symmetric] Let_def)
  next
    case False
    with uns Suc show ?thesis
      by (simp add: q_def [symmetric] Let_def)
  qed
qed simp

lemma pump_probes_ok: "slots_ok [] s \<Longrightarrow> slots_ok [] (pump_probes now s) \<and> probes_busy (pump_probes now s)"
  unfolding pump_probes_def by (intro grant_probes_ok expire_probes_ok) simp_all

lemma schedule_ok:
  assumes ok: "slots_ok [] s" and busy: "probes_busy s"
  shows "slots_ok [] (schedule now r s) \<and> probes_busy (schedule now r s)"
proof -
  define s1 where "s1 = s\<lparr>ps_requests := ps_requests s + 1\<rparr>"
  have eq: "mset (map fst (ps_log s)) + mset (map qp_request (ps_queue s)) = mset [0 ..< ps_requests s]"
    using ok by (simp add: slots_ok_def)
  have below: "x < ps_requests s" if "x \<in> set (map fst (ps_log s)) \<union> set (map qp_request (ps_queue s))" for x
    using that arg_cong [OF eq, of set_mset] by (metis atLeastLessThan_iff set_mset_mset set_mset_union set_upt)
  then have new: "\<forall>x \<in> set (granted_probes (ps_log s) @ map qp_request (ps_queue s)). x < ps_requests s"
    by (auto simp: granted_probes_def)
  consider (free) "ps_running s < ps_maxConcurrent s"
    | (full) "\<not> ps_running s < ps_maxConcurrent s" "int (length (ps_queue s)) \<ge> ps_maxQueued s"
    | (wait) "\<not> ps_running s < ps_maxConcurrent s" "\<not> int (length (ps_queue s)) \<ge> ps_maxQueued s"
    by blast
  then show ?thesis
  proof cases
    case free
    then have empty: "ps_queue s = []"
      using busy by (auto simp: probes_busy_def)
    then have "slots_ok [ps_requests s] s1"
      using ok new by (simp add: s1_def slots_ok_def sorted_wrt_append)
    then have "slots_ok [] (admit_probe now (ps_requests s) r s1)"
      using free by (intro admit_probe_ok) (simp_all add: s1_def)
    then show ?thesis
      using free empty by (simp add: schedule_def Let_def s1_def probes_busy_def)
  next
    case full
    then show ?thesis
      using ok busy by (auto simp: schedule_def Let_def probe_settle_def slots_ok_def probes_busy_def)
  next
    case wait
    then show ?thesis
      using ok new by (auto simp: schedule_def Let_def slots_ok_def probes_busy_def sorted_wrt_append)
  qed
qed

text \<open>Taking one ticket out of the live ones, counted by any property of the tickets.\<close>

lemma live_without:
  assumes "distinct (map fst xs)" and "map_of xs t = Some r"
  shows "length (filter P xs) = length (filter P (filter (\<lambda>(u, _). u \<noteq> t) xs)) + (if P (t, r) then 1 else 0)"
  using assms
proof (induction xs)
  case (Cons x xs)
  obtain u r' where x: "x = (u, r')"
    by fastforce
  show ?case
  proof (cases "u = t")
    case True
    then have "filter (\<lambda>(u, _). u \<noteq> t) xs = xs"
      using Cons.prems(1) by (auto simp: x filter_id_conv image_iff)
    with True Cons.prems(2) show ?thesis
      by (simp add: x)
  next
    case False
    with Cons show ?thesis
      by (auto simp: x)
  qed
qed simp

lemma release_live:
  assumes ok: "slots_ok [] s" and t: "map_of (ps_live s) t = Some r"
  shows "slots_ok [] (s\<lparr>ps_live := filter (\<lambda>(u, _). u \<noteq> t) (ps_live s), ps_running := ps_running s - 1\<rparr>)"
proof -
  have d: "distinct (map fst (ps_live s))"
    using ok by (simp add: slots_ok_def)
  have "length (ps_live s) = Suc (length (filter (\<lambda>(u, _). u \<noteq> t) (ps_live s)))"
    using live_without [OF d t, of "\<lambda>_. True"] by simp
  moreover have "distinct (map fst (filter (\<lambda>(u, _). u \<noteq> t) (ps_live s)))"
    using d by (rule distinct_map_filter)
  ultimately show ?thesis
    using ok by (auto simp: slots_ok_def)
qed

lemma ticket_outcome_ok:
  assumes ok: "slots_ok [] s" and busy: "probes_busy s"
  shows "slots_ok [] (ticket_outcome rec now t s) \<and> probes_busy (ticket_outcome rec now t s)"
proof (cases "map_of (ps_live s) t")
  case None
  with ok busy show ?thesis by (simp add: ticket_outcome_def)
next
  case (Some r)
  let ?s = "set_breaker r (rec now (ps_breakers s r)) (s\<lparr>ps_live := filter (\<lambda>(u, _). u \<noteq> t) (ps_live s)\<rparr>)"
  have "slots_ok [] (?s\<lparr>ps_running := ps_running ?s - 1\<rparr>)"
    using release_live [OF ok Some] by (simp add: slots_ok_def set_breaker_def)
  from pump_probes_ok [OF this, of now] Some show ?thesis
    by (simp add: ticket_outcome_def release_slot_def Let_def)
qed

section \<open>The breakers below\<close>

text \<open>
  What the scheduler does to a breaker: admissions and outcomes only, and never more outcomes than
  admissions, the live tickets being the outcomes still owed.
\<close>

definition call_op :: "breaker_op \<Rightarrow> bool" where
  "call_op op \<longleftrightarrow> op = AdmitOp \<or> op = SuccessOp \<or> op = FailureOp"

lemma call_op_simps [simp]: "call_op AdmitOp" "call_op SuccessOp" "call_op FailureOp"
  by (simp_all add: call_op_def)

definition admissions :: "(int \<times> breaker_op) list \<Rightarrow> nat" where
  "admissions ops = length (filter (\<lambda>(_, op). op = AdmitOp) ops)"

definition outcomes :: "(int \<times> breaker_op) list \<Rightarrow> nat" where
  "outcomes ops = length (filter (\<lambda>(_, op). op = SuccessOp \<or> op = FailureOp) ops)"

definition owed :: "breaker_ref \<Rightarrow> probe_scheduler \<Rightarrow> nat" where
  "owed r s = length (filter (\<lambda>(_, r'). r' = r) (ps_live s))"

definition played :: "endpoint_breaker \<Rightarrow> endpoint_breaker \<Rightarrow> nat \<Rightarrow> bool" where
  "played b0 b n \<longleftrightarrow> (\<exists>ops. b = foldl breaker_step b0 ops \<and> list_all (\<lambda>(_, op). call_op op) ops
     \<and> outcomes ops + n \<le> admissions ops)"

definition follows :: "(breaker_ref \<Rightarrow> endpoint_breaker) \<Rightarrow> probe_scheduler \<Rightarrow> bool" where
  "follows init s \<longleftrightarrow> (\<forall>r. played (init r) (ps_breakers s r) (owed r s))"

lemma played_admit: "played b0 b n \<Longrightarrow> played b0 (fst (admit now b)) (n + 1)"
proof -
  assume "played b0 b n"
  then obtain ops where "b = foldl breaker_step b0 ops" "list_all (\<lambda>(_, op). call_op op) ops" "outcomes ops + n \<le> admissions ops"
    unfolding played_def by blast
  then show ?thesis
    unfolding played_def by (intro exI [of _ "ops @ [(now, AdmitOp)]"]) (simp add: outcomes_def admissions_def)
qed

lemma played_outcome:
  assumes "played b0 b (n + 1)" and "op = SuccessOp \<or> op = FailureOp"
  shows "played b0 (breaker_step b (now, op)) n"
proof -
  obtain ops where "b = foldl breaker_step b0 ops" "list_all (\<lambda>(_, op). call_op op) ops" "outcomes ops + (n + 1) \<le> admissions ops"
    using assms(1) unfolding played_def by blast
  with assms(2) show ?thesis
    unfolding played_def by (intro exI [of _ "ops @ [(now, op)]"]) (auto simp: outcomes_def admissions_def)
qed

lemma played_less: "played b0 b n \<Longrightarrow> m \<le> n \<Longrightarrow> played b0 b m"
proof -
  assume "played b0 b n" and "m \<le> n"
  then obtain ops where "b = foldl breaker_step b0 ops" "list_all (\<lambda>(_, op). call_op op) ops" "outcomes ops + m \<le> admissions ops"
    unfolding played_def by fastforce
  then show "played b0 b m"
    unfolding played_def by blast
qed

lemma follows_new [simp]: "follows breakers (new_scheduler breakers options)"
  unfolding follows_def played_def
  by (auto simp: new_scheduler_def owed_def outcomes_def admissions_def intro!: exI [of _ "[]"])

lemma follows_admit_probe:
  assumes "follows init s"
  shows "follows init (admit_probe now req r s)"
proof -
  obtain b adm where t: "tryAcquireProbe now (ps_breakers s r) = (b, adm)"
    by fastforce
  then have b: "b = fst (admit now (ps_breakers s r))"
    by (auto simp: tryAcquireProbe_def split: prod.splits sum.splits)
  have "played (init r) b (owed r s + 1)"
    unfolding b using assms by (intro played_admit) (simp add: follows_def)
  moreover from this have "played (init r) b (owed r s)"
    by (rule played_less) simp
  ultimately show ?thesis
    using assms by (cases adm)
      (auto simp: follows_def admit_probe_def t set_breaker_def makeTicket_def probe_settle_def owed_def)
qed

lemma follows_cong: "ps_breakers s' = ps_breakers s \<Longrightarrow> ps_live s' = ps_live s \<Longrightarrow> follows init s' = follows init s"
  by (simp add: follows_def owed_def)

lemma follows_expire: "follows init s \<Longrightarrow> follows init (expire_probes now i s)"
proof (induction i arbitrary: s)
  case (Suc i)
  have "follows init (s\<lparr>ps_queue := q\<rparr>) = follows init s"
    "follows init (probe_settle req e (s\<lparr>ps_queue := q, ps_rejectedTimeout := n\<rparr>)) = follows init s" for q req e n
    by (rule follows_cong; simp add: probe_settle_def)+
  with Suc show ?case
    by (simp add: Let_def)
qed simp

lemma follows_grant: "follows init s \<Longrightarrow> follows init (grant_probes now s)"
proof (induction now s rule: grant_probes.induct)
  case (1 now s)
  have "follows init (s\<lparr>ps_queue := tl (ps_queue s)\<rparr>)"
    using "1.prems" by (subst follows_cong [of _ s]) simp_all
  with 1 follows_admit_probe show ?case
    by (subst grant_probes.simps) (simp add: Let_def)
qed

lemma follows_pump: "follows init s \<Longrightarrow> follows init (pump_probes now s)"
  unfolding pump_probes_def by (intro follows_grant follows_expire)

lemma follows_schedule:
  assumes "follows init s"
  shows "follows init (schedule now r s)"
proof -
  have "follows init (s\<lparr>ps_requests := n\<rparr>)" for n
    using assms by (subst follows_cong [of _ s]) simp_all
  then have "follows init (admit_probe now req r (s\<lparr>ps_requests := n\<rparr>))" for req n
    by (rule follows_admit_probe)
  moreover have "follows init (probe_settle req e (s\<lparr>ps_requests := n, ps_rejectedQueueFull := k\<rparr>))"
    "follows init (s\<lparr>ps_requests := n, ps_queue := q\<rparr>)" for req e n k q
    using assms by (subst follows_cong [of _ s]; simp add: probe_settle_def)+
  ultimately show ?thesis
    by (simp add: schedule_def Let_def)
qed

lemma follows_outcome:
  assumes "follows init s" and ok: "slots_ok [] s"
    and rec: "\<And>now b. rec now b = breaker_step b (now, op)" and op: "op = SuccessOp \<or> op = FailureOp"
  shows "follows init (ticket_outcome rec now t s)"
proof (cases "map_of (ps_live s) t")
  case None
  with assms(1) show ?thesis by (simp add: ticket_outcome_def)
next
  case (Some r)
  let ?live = "filter (\<lambda>(u, _). u \<noteq> t) (ps_live s)"
  let ?s = "set_breaker r (rec now (ps_breakers s r)) (s\<lparr>ps_live := ?live\<rparr>)"
  have d: "distinct (map fst (ps_live s))"
    using ok by (simp add: slots_ok_def)
  have owed: "owed r' s = owed r' ?s + (if r' = r then 1 else 0)" for r'
    using live_without [OF d Some, of "\<lambda>(_, x). x = r'"] by (simp add: owed_def set_breaker_def eq_commute)
  have play: "played (init r') (ps_breakers s r') (owed r' s)" for r'
    using assms(1) by (simp add: follows_def)
  have "played (init r) (ps_breakers s r) (owed r ?s + 1)"
    using play [of r] unfolding owed [of r] by simp
  then have "played (init r) (rec now (ps_breakers s r)) (owed r ?s)"
    unfolding rec by (rule played_outcome [OF _ op])
  moreover have "played (init r') (ps_breakers s r') (owed r' ?s)" if "r' \<noteq> r" for r'
    using play [of r'] that unfolding owed [of r'] by simp
  ultimately have "follows init ?s"
    by (simp add: follows_def) (simp add: set_breaker_def)
  then have "follows init (?s\<lparr>ps_running := ps_running ?s - 1\<rparr>)"
    by (subst follows_cong [of _ ?s]) simp_all
  then show ?thesis
    using Some by (simp add: ticket_outcome_def release_slot_def Let_def follows_pump)
qed

section \<open>Runs\<close>

datatype probe_op = ScheduleOp int breaker_ref | ProbeSuccessOp int nat | ProbeFailureOp int nat | PumpProbesOp int

fun probe_step :: "probe_scheduler \<Rightarrow> probe_op \<Rightarrow> probe_scheduler" where
  "probe_step s (ScheduleOp now r) = schedule now r s"
| "probe_step s (ProbeSuccessOp now t) = ticket_success now t s"
| "probe_step s (ProbeFailureOp now t) = ticket_failure now t s"
| "probe_step s (PumpProbesOp now) = pump_probes now s"

interpretation probes: invariant_machine probe_step "\<lambda>s. slots_ok [] s \<and> probes_busy s \<and> follows init s" for init
proof
  fix s op
  assume inv: "slots_ok [] s \<and> probes_busy s \<and> follows init s"
  have "follows init (ticket_success now t s)" for now t
    unfolding ticket_success_def using inv by (intro follows_outcome [where op = SuccessOp]) simp_all
  moreover have "follows init (ticket_failure now t s)" for now t
    unfolding ticket_failure_def using inv by (intro follows_outcome [where op = FailureOp]) simp_all
  ultimately show "slots_ok [] (probe_step s op) \<and> probes_busy (probe_step s op) \<and> follows init (probe_step s op)"
    using inv by (cases op) (simp_all add: schedule_ok ticket_success_def ticket_failure_def ticket_outcome_ok
        pump_probes_ok follows_schedule follows_pump)
qed

lemma maxProbes_kept: "ps_maxConcurrent (foldl probe_step s ops) = ps_maxConcurrent s"
proof (induction ops arbitrary: s)
  case (Cons op ops)
  have admit: "ps_maxConcurrent (admit_probe now req r s) = ps_maxConcurrent s" for now req r s
    by (simp add: admit_probe_def set_breaker_def makeTicket_def probe_settle_def Let_def split: prod.split)
  have expire: "ps_maxConcurrent (expire_probes now i s) = ps_maxConcurrent s" for now i s
    by (induction i arbitrary: s) (simp_all add: Let_def probe_settle_def)
  have "ps_maxConcurrent (grant_probes now s) = ps_maxConcurrent s" for now s
  proof (induction now s rule: grant_probes.induct)
    case (1 now s)
    then show ?case
      by (subst grant_probes.simps) (simp add: Let_def admit)
  qed
  then have pump: "ps_maxConcurrent (pump_probes now s) = ps_maxConcurrent s" for now s
    by (simp add: pump_probes_def expire)
  have "ps_maxConcurrent (probe_step s op) = ps_maxConcurrent s"
    by (cases op) (simp_all add: schedule_def ticket_success_def ticket_failure_def ticket_outcome_def release_slot_def
        set_breaker_def probe_settle_def Let_def admit pump split: option.split)
  with Cons show ?case by simp
qed simp

lemma probe_run_ok:
  "slots_ok [] (foldl probe_step (new_scheduler breakers options) ops)"
  "probes_busy (foldl probe_step (new_scheduler breakers options) ops)"
  "follows breakers (foldl probe_step (new_scheduler breakers options) ops)"
  using probes.inv_run [where init = breakers and s = "new_scheduler breakers options" and es = ops] by simp_all

text \<open>
  Across all breakers, the running probes are exactly the live tickets and at most the configured
  number, under any interleaving of schedules, outcomes and pumps; no probe waits while a slot is free;
  probes are granted in the order they were scheduled; and every request is settled at most once and
  counted once.
\<close>

theorem probe_fleet_bound:
  "let s = foldl probe_step (new_scheduler breakers options) ops in
     ps_running s = int (length (ps_live s)) \<and> ps_running s \<le> max 1 (or_else (so_maxConcurrent options) 8)
     \<and> (ps_queue s = [] \<or> ps_running s = max 1 (or_else (so_maxConcurrent options) 8))
     \<and> sorted_wrt (<) (granted_probes (ps_log s) @ map qp_request (ps_queue s))
     \<and> mset (map fst (ps_log s)) + mset (map qp_request (ps_queue s)) = mset [0 ..< ps_requests s]
     \<and> ps_granted s + ps_rejectedBreaker s + ps_rejectedTimeout s + ps_rejectedQueueFull s = length (ps_log s)"
  using probe_run_ok [of breakers options ops] maxProbes_kept [of "new_scheduler breakers options" ops]
  by (auto simp: slots_ok_def probes_busy_def Let_def new_scheduler_def)

text \<open>
  The scheduler keeps every breaker's protocol: what it did to a breaker is a run of admissions and
  recorded outcomes of the endpoint breaker, with no more outcomes than admissions, one being owed for
  each live ticket; so a fleet that starts in the breaker's invariant stays in it.
\<close>

theorem probe_breaker_protocol:
  "let s = foldl probe_step (new_scheduler (\<lambda>r. new_breaker t0 (endpoint r) (config r)) options) ops in
     (\<exists>calls. ps_breakers s r = foldl breaker_step (new_breaker t0 (endpoint r) (config r)) calls
        \<and> list_all (\<lambda>(_, op). call_op op) calls \<and> outcomes calls + owed r s \<le> admissions calls)
     \<and> breaker_inv (ps_breakers s r)"
proof -
  let ?s = "foldl probe_step (new_scheduler (\<lambda>r. new_breaker t0 (endpoint r) (config r)) options) ops"
  have "played (new_breaker t0 (endpoint r) (config r)) (ps_breakers ?s r) (owed r ?s)"
    using probe_run_ok(3) [of "\<lambda>r. new_breaker t0 (endpoint r) (config r)" options ops] by (simp add: follows_def)
  then obtain calls where calls: "ps_breakers ?s r = foldl breaker_step (new_breaker t0 (endpoint r) (config r)) calls"
    "list_all (\<lambda>(_, op). call_op op) calls" "outcomes calls + owed r ?s \<le> admissions calls"
    unfolding played_def by blast
  moreover have "breaker_inv (ps_breakers ?s r)"
    unfolding calls(1) by (rule breaker.inv_run [OF breaker_inv_new])
  ultimately show ?thesis
    unfolding Let_def by blast
qed

end
