(* ===== verification/FallbackChain.thy ===== *)
theory FallbackChain
  imports Interfaces
begin

text \<open>
  Ordered fallbacks (\<open>circuit-breaker/engine/FallbackChain.ts\<close>). A step acts on the world outside and ends
  in a value or an error, so it is a function on the world's state; the chain threads that state through
  the steps it runs and through no other. \<open>accept\<close> and \<open>shouldFallback\<close> are the injected predicates.
\<close>

type_synonym ('w, 'e, 'a) chain_step = "'w \<Rightarrow> 'w \<times> ('e + 'a)"

record ('a, 'e) chain_options =
  co_accept :: "('a \<Rightarrow> bool) option"
  co_shouldFallback :: "('e \<Rightarrow> bool) option"

text \<open>An error of a step, or the chain's own complaint about a value it did not accept.\<close>

datatype 'e chain_failure = StepFailed 'e | UnacceptableValue jstring

record 'e chain_attempt =
  ca_index :: nat
  ca_label :: jstring
  ca_ok :: bool
  ca_error :: "'e option"
  ca_rejectedValue :: bool

record ('a, 'e) chain_result =
  cr_value :: 'a
  cr_servedBy :: nat
  cr_attempts :: "'e chain_attempt list"

datatype 'e chain_error = PrimaryVetoed 'e | FallbackChainExhausted nat "'e chain_failure option"

definition fallback_label :: "nat \<Rightarrow> jstring" where
  "fallback_label i = (if i = 0 then js ''primary'' else js ''fallback['' @ js_nat (i - 1) @ js '']'')"

definition accepts :: "('a, 'e) chain_options \<Rightarrow> 'a \<Rightarrow> bool" where
  "accepts options v = (case co_accept options of None \<Rightarrow> True | Some p \<Rightarrow> p v)"

definition vetoes :: "('a, 'e) chain_options \<Rightarrow> 'e \<Rightarrow> bool" where
  "vetoes options e = (case co_shouldFallback options of None \<Rightarrow> False | Some p \<Rightarrow> \<not> p e)"

definition attempt_at :: "nat \<Rightarrow> bool \<Rightarrow> 'e option \<Rightarrow> bool \<Rightarrow> 'e chain_attempt" where
  "attempt_at i ok err rejected =
     \<lparr>ca_index = i, ca_label = fallback_label i, ca_ok = ok, ca_error = err, ca_rejectedValue = rejected\<rparr>"

text \<open>The loop at index \<open>i\<close>, with the attempts so far and the last error.\<close>

fun chain_loop ::
  "('a, 'e) chain_options \<Rightarrow> nat \<Rightarrow> ('w, 'e, 'a) chain_step list \<Rightarrow> 'e chain_attempt list \<Rightarrow>
     'e chain_failure option \<Rightarrow> 'w \<Rightarrow> 'w \<times> ('e chain_error + ('a, 'e) chain_result)" where
  "chain_loop options i [] attempts lastError w = (w, Inl (FallbackChainExhausted (length attempts) lastError))"
| "chain_loop options i (step # steps) attempts lastError w =
     (case step w of
        (w, Inr v) \<Rightarrow>
          if \<not> accepts options v
          then chain_loop options (i + 1) steps (attempts @ [attempt_at i False None True])
                 (Some (UnacceptableValue (fallback_label i))) w
          else (w, Inr \<lparr>cr_value = v, cr_servedBy = i, cr_attempts = attempts @ [attempt_at i True None False]\<rparr>)
      | (w, Inl e) \<Rightarrow>
          if i = 0 \<and> vetoes options e then (w, Inl (PrimaryVetoed e))
          else chain_loop options (i + 1) steps (attempts @ [attempt_at i False (Some e) False]) (Some (StepFailed e)) w)"

definition runDetailed ::
  "('a, 'e) chain_options \<Rightarrow> ('w, 'e, 'a) chain_step \<Rightarrow> ('w, 'e, 'a) chain_step list \<Rightarrow> 'w \<Rightarrow>
     'w \<times> ('e chain_error + ('a, 'e) chain_result)" where
  "runDetailed options primary fallbacks w = chain_loop options 0 (primary # fallbacks) [] None w"

definition chain_run ::
  "('a, 'e) chain_options \<Rightarrow> ('w, 'e, 'a) chain_step \<Rightarrow> ('w, 'e, 'a) chain_step list \<Rightarrow> 'w \<Rightarrow> 'w \<times> ('e chain_error + 'a)" where
  "chain_run options primary fallbacks w =
     (case runDetailed options primary fallbacks w of
        (w, Inl e) \<Rightarrow> (w, Inl e)
      | (w, Inr result) \<Rightarrow> (w, Inr (cr_value result)))"

text \<open>\<open>firstAcceptable\<close>: candidates give a value or \<open>undefined\<close>; one that throws ends the call.\<close>

fun firstAcceptable ::
  "('a, 'e) chain_options \<Rightarrow> ('w, 'e, 'a option) chain_step list \<Rightarrow> 'w \<Rightarrow> 'w \<times> ('e + 'a option)" where
  "firstAcceptable options [] w = (w, Inr None)"
| "firstAcceptable options (step # steps) w =
     (case step w of
        (w, Inl e) \<Rightarrow> (w, Inl e)
      | (w, Inr None) \<Rightarrow> firstAcceptable options steps w
      | (w, Inr (Some v)) \<Rightarrow> if accepts options v then (w, Inr (Some v)) else firstAcceptable options steps w)"

section \<open>First success wins\<close>

text \<open>The worlds and outcomes of steps run one after the other.\<close>

fun run_steps_in_order :: "('w, 'e, 'a) chain_step list \<Rightarrow> 'w \<Rightarrow> 'w \<times> ('e + 'a) list" where
  "run_steps_in_order [] w = (w, [])"
| "run_steps_in_order (step # steps) w =
     (let (w, out) = step w; (w, outs) = run_steps_in_order steps w in (w, out # outs))"

definition success :: "('a, 'e) chain_options \<Rightarrow> 'e + 'a \<Rightarrow> bool" where
  "success options out = (case out of Inr v \<Rightarrow> accepts options v | Inl e \<Rightarrow> False)"

text \<open>What a chain's outcome says of its steps, when the loop started at \<open>i\<close> with \<open>attempts\<close>.\<close>

definition chain_says ::
  "('a, 'e) chain_options \<Rightarrow> nat \<Rightarrow> ('w, 'e, 'a) chain_step list \<Rightarrow> 'e chain_attempt list \<Rightarrow> 'w \<Rightarrow>
     'w \<times> ('e chain_error + ('a, 'e) chain_result) \<Rightarrow> bool" where
  "chain_says options i steps attempts w out =
     (case out of
        (w', Inr r) \<Rightarrow>
          \<exists>k < length steps. cr_servedBy r = i + k
            \<and> (\<exists>outs. run_steps_in_order (take (k + 1) steps) w = (w', outs @ [Inr (cr_value r)])
                  \<and> length outs = k \<and> list_all (\<lambda>o'. \<not> success options o') outs)
            \<and> accepts options (cr_value r) \<and> length (cr_attempts r) = length attempts + k + 1
      | (w', Inl (FallbackChainExhausted n final)) \<Rightarrow>
          n = length attempts + length steps
            \<and> (\<exists>outs. run_steps_in_order steps w = (w', outs) \<and> list_all (\<lambda>o'. \<not> success options o') outs)
      | (w', Inl (PrimaryVetoed e)) \<Rightarrow> i = 0 \<and> vetoes options e \<and> (\<exists>step rest. steps = step # rest \<and> step w = (w', Inl e)))"

lemma chain_loop_says: "chain_says options i steps attempts w (chain_loop options i steps attempts lastError w)"
proof (induction steps arbitrary: i attempts lastError w)
  case Nil
  then show ?case by (simp add: chain_says_def)
next
  case (Cons step steps)
  obtain w1 out where step: "step w = (w1, out)"
    by fastforce
  have skip: "chain_says options i (step # steps) attempts w
      (chain_loop options (i + 1) steps (attempts @ [a]) err w1)"
    if bad: "\<not> success options out" for a err
  proof -
    have IH: "chain_says options (i + 1) steps (attempts @ [a]) w1 (chain_loop options (i + 1) steps (attempts @ [a]) err w1)"
      by (rule Cons.IH)
    obtain w' res where loop: "chain_loop options (i + 1) steps (attempts @ [a]) err w1 = (w', res)"
      by fastforce
    show ?thesis
    proof (cases res)
      case (Inr r)
      with IH loop obtain k outs where k: "k < length steps" "cr_servedBy r = i + 1 + k"
        "run_steps_in_order (take (k + 1) steps) w1 = (w', outs @ [Inr (cr_value r)])" "length outs = k"
        "list_all (\<lambda>o'. \<not> success options o') outs" "accepts options (cr_value r)"
        "length (cr_attempts r) = length attempts + 1 + k + 1"
        by (auto simp: chain_says_def)
      have "run_steps_in_order (take (k + 2) (step # steps)) w = (w', (out # outs) @ [Inr (cr_value r)])"
        using k(3) by (simp add: step)
      with k bad show ?thesis
        unfolding loop Inr chain_says_def prod.case sum.case
        by (intro exI [of _ "k + 1"] conjI exI [of _ "out # outs"]) simp_all
    next
      case (Inl e)
      with IH loop bad show ?thesis
        by (cases e) (auto simp: chain_says_def step)
    qed
  qed
  show ?case
  proof (cases out)
    case (Inl e)
    then have "\<not> success options out"
      by (simp add: success_def)
    note failed = this
    show ?thesis
    proof (cases "i = 0 \<and> vetoes options e")
      case True
      then have "chain_loop options i (step # steps) attempts lastError w = (w1, Inl (PrimaryVetoed e))"
        using Inl step by simp
      with True Inl step show ?thesis
        by (simp add: chain_says_def)
    next
      case False
      then have "chain_loop options i (step # steps) attempts lastError w =
          chain_loop options (i + 1) steps (attempts @ [attempt_at i False (Some e) False]) (Some (StepFailed e)) w1"
        using Inl step by auto
      with skip [OF failed] show ?thesis by (simp only:)
    qed
  next
    case (Inr v)
    show ?thesis
    proof (cases "accepts options v")
      case True
      with Inr step show ?thesis
        by (auto simp: chain_says_def intro!: exI [of _ 0])
    next
      case False
      then have failed: "\<not> success options out"
        by (simp add: success_def Inr)
      have "chain_loop options i (step # steps) attempts lastError w =
          chain_loop options (i + 1) steps (attempts @ [attempt_at i False None True])
            (Some (UnacceptableValue (fallback_label i))) w1"
        using False Inr step by simp
      with skip [OF failed] show ?thesis
        by (simp only:)
    qed
  qed
qed

text \<open>
  A fallback chain serves the value of the first step that ends in an acceptable value: every step
  before it was run, once and in order, and failed; no step after it was run; and the attempts recorded
  are those.
\<close>

theorem chain_first_success:
  assumes "runDetailed options primary fallbacks w = (w', Inr result)"
  shows "\<exists>outs. run_steps_in_order (take (cr_servedBy result + 1) (primary # fallbacks)) w = (w', outs @ [Inr (cr_value result)])
           \<and> length outs = cr_servedBy result \<and> list_all (\<lambda>out. \<not> success options out) outs
           \<and> accepts options (cr_value result) \<and> length (cr_attempts result) = cr_servedBy result + 1"
  using chain_loop_says [of options 0 "primary # fallbacks" "[]" w None] assms
  by (auto simp: runDetailed_def chain_says_def)

theorem chain_first_success_witness:
  "\<exists>outs. run_steps_in_order [\<lambda>w. (w + 1, Inl ()), \<lambda>w. (w + 1, Inr True)] (0 :: nat) = (2, outs @ [Inr True])"
  using chain_first_success [of "\<lparr>co_accept = None, co_shouldFallback = None\<rparr>" "\<lambda>w. (w + 1, Inl ())"
      "[\<lambda>w. (w + 1, Inr True), \<lambda>w. (w + 1, Inr False)]" 0 2]
  by (fastforce simp: runDetailed_def accepts_def vetoes_def)

text \<open>
  A chain fails only when every step was run and none gave an acceptable value, or when the
  primary's error is one that must not fall back, and then no fallback was run.
\<close>

theorem chain_failure_exhausts:
  assumes "runDetailed options primary fallbacks w = (w', Inl err)"
  shows "(case err of
            FallbackChainExhausted n final \<Rightarrow> n = length fallbacks + 1
              \<and> fst (run_steps_in_order (primary # fallbacks) w) = w'
              \<and> list_all (\<lambda>out. \<not> success options out) (snd (run_steps_in_order (primary # fallbacks) w))
          | PrimaryVetoed e \<Rightarrow> vetoes options e \<and> primary w = (w', Inl e))"
  using chain_loop_says [of options 0 "primary # fallbacks" "[]" w None] assms
  by (auto simp: runDetailed_def chain_says_def split: chain_error.splits)

theorem chain_failure_exhausts_witness:
  "fst (run_steps_in_order [\<lambda>w. (w + 1, Inl False), \<lambda>w. (w + 1, Inl True)] (0 :: nat)) = 2"
  using chain_failure_exhausts [of "\<lparr>co_accept = None, co_shouldFallback = None\<rparr> :: (unit, bool) chain_options"
      "\<lambda>w. (w + 1, Inl False)" "[\<lambda>w. (w + 1, Inl True)]" 0 2 "FallbackChainExhausted 2 (Some (StepFailed True))"]
  by (simp add: runDetailed_def accepts_def vetoes_def)

end
