(* ===== verification/BreakerRegistry.thy ===== *)
theory BreakerRegistry
  imports EndpointBreaker FallbackChain
begin

text \<open>
  The registry of breakers (\<open>circuit-breaker/engine/BreakerRegistry.ts\<close>): one endpoint breaker per key,
  made on first use from the template and the endpoint's override, guarded calls with fallbacks, the kill
  switches, metrics and snapshots. One clock reading serves an operation; a guarded call takes a second
  one for its outcome.
\<close>

section \<open>State\<close>

record registry_options =
  ry_config :: "breaker_config option"

record breaker_registry =
  br_template :: breaker_config
  br_breakers :: "(jstring, endpoint_breaker) jmap"
  br_overrides :: "(jstring, breaker_config) jmap"

definition empty_config :: breaker_config where
  "empty_config = \<lparr>bc_failureThreshold = None, bc_successThreshold = None, bc_resetTimeoutMs = None, bc_windowMs = None\<rparr>"

definition new_registry :: "registry_options \<Rightarrow> breaker_registry" where
  "new_registry options =
     \<lparr>br_template = (case ry_config options of Some c \<Rightarrow> c | None \<Rightarrow> empty_config), br_breakers = jmap_empty,
      br_overrides = jmap_empty\<rparr>"

text \<open>The object spread: a field the override has replaces the template's.\<close>

definition merge_config :: "breaker_config \<Rightarrow> breaker_config option \<Rightarrow> breaker_config" where
  "merge_config t override =
     (case override of
        None \<Rightarrow> t
      | Some c \<Rightarrow>
          let pick = (\<lambda>new old. case new of Some x \<Rightarrow> Some x | None \<Rightarrow> old) in
          \<lparr>bc_failureThreshold = pick (bc_failureThreshold c) (bc_failureThreshold t),
           bc_successThreshold = pick (bc_successThreshold c) (bc_successThreshold t),
           bc_resetTimeoutMs = pick (bc_resetTimeoutMs c) (bc_resetTimeoutMs t),
           bc_windowMs = pick (bc_windowMs c) (bc_windowMs t)\<rparr>)"

section \<open>Operations\<close>

definition get_breaker :: "int \<Rightarrow> jstring \<Rightarrow> breaker_registry \<Rightarrow> breaker_registry \<times> endpoint_breaker" where
  "get_breaker now ep reg =
     (case jmap_get (br_breakers reg) ep of
        Some b \<Rightarrow> (reg, b)
      | None \<Rightarrow>
          let b = new_breaker now ep (merge_config (br_template reg) (jmap_get (br_overrides reg) ep))
          in (reg\<lparr>br_breakers := jmap_set ep b (br_breakers reg)\<rparr>, b))"

text \<open>What an operation on a breaker object does to the map that holds it.\<close>

definition put_breaker :: "jstring \<Rightarrow> endpoint_breaker \<Rightarrow> breaker_registry \<Rightarrow> breaker_registry" where
  "put_breaker ep b reg = reg\<lparr>br_breakers := jmap_set ep b (br_breakers reg)\<rparr>"

definition has_breaker :: "jstring \<Rightarrow> breaker_registry \<Rightarrow> bool" where
  "has_breaker ep reg = jmap_has (br_breakers reg) ep"

definition override_config :: "jstring \<Rightarrow> breaker_config \<Rightarrow> breaker_registry \<Rightarrow> breaker_registry" where
  "override_config ep cfg reg =
     (let reg = reg\<lparr>br_overrides := jmap_set ep cfg (br_overrides reg)\<rparr> in
      case jmap_get (br_breakers reg) ep of
        None \<Rightarrow> reg
      | Some b \<Rightarrow> put_breaker ep (tune b (bc_failureThreshold cfg) (bc_resetTimeoutMs cfg) (bc_successThreshold cfg)) reg)"

definition remove_breaker :: "jstring \<Rightarrow> breaker_registry \<Rightarrow> breaker_registry \<times> bool" where
  "remove_breaker ep reg = (reg\<lparr>br_breakers := jmap_delete ep (br_breakers reg)\<rparr>, jmap_has (br_breakers reg) ep)"

text \<open>The errors of a guarded call: the circuit's, or the operation's own.\<close>

datatype 'e call_error = CircuitOpen breaker_error | OperationFailed 'e

text \<open>
  \<open>execute\<close>: the operation runs only when the breaker admits the call; every error of it counts as a
  failure, as \<open>isFailure\<close> is left at its default.
\<close>

definition registry_execute ::
  "int \<Rightarrow> int \<Rightarrow> jstring \<Rightarrow> ('w, 'e, 'a) chain_step \<Rightarrow> breaker_registry \<times> 'w \<Rightarrow> (breaker_registry \<times> 'w) \<times> ('e call_error + 'a)" where
  "registry_execute now now' ep op = (\<lambda>(reg, w).
     (let (reg, b) = get_breaker now ep reg in
      case admit now b of
        (b, Inl e) \<Rightarrow> ((put_breaker ep b reg, w), Inl (CircuitOpen e))
      | (b, Inr _) \<Rightarrow>
          (case op w of
             (w, Inr v) \<Rightarrow> ((put_breaker ep (recordSuccess now' b) reg, w), Inr v)
           | (w, Inl e) \<Rightarrow> ((put_breaker ep (recordFailure now' b) reg, w), Inl (OperationFailed e)))))"

text \<open>\<open>executeWithFallback\<close>: the guarded call is the chain's primary step; the fallbacks are not guarded.\<close>

definition unguarded :: "('w, 'e, 'a) chain_step \<Rightarrow> (breaker_registry \<times> 'w, 'e call_error, 'a) chain_step" where
  "unguarded f = (\<lambda>(reg, w). let (w, out) = f w in ((reg, w), case out of Inr v \<Rightarrow> Inr v | Inl e \<Rightarrow> Inl (OperationFailed e)))"

definition executeWithFallback ::
  "int \<Rightarrow> int \<Rightarrow> jstring \<Rightarrow> ('w, 'e, 'a) chain_step \<Rightarrow> ('w, 'e, 'a) chain_step list \<Rightarrow>
     ('a, 'e call_error) chain_options option \<Rightarrow> breaker_registry \<times> 'w \<Rightarrow>
     (breaker_registry \<times> 'w) \<times> ('e call_error chain_error + 'a)" where
  "executeWithFallback now now' ep op fallbacks chain s =
     (let c = (case chain of Some c \<Rightarrow> c | None \<Rightarrow> \<lparr>co_accept = None, co_shouldFallback = None\<rparr>)
      in chain_run c (registry_execute now now' ep op) (map unguarded fallbacks) s)"

definition force_all :: "int \<Rightarrow> (jstring \<Rightarrow> bool) \<Rightarrow> breaker_state \<Rightarrow> breaker_registry \<Rightarrow> breaker_registry \<times> nat" where
  "force_all now p st reg =
     (reg\<lparr>br_breakers := map (\<lambda>(ep, b). (ep, if p ep then force_state now b st else b)) (br_breakers reg)\<rparr>,
      length (filter (\<lambda>(ep, b). p ep) (br_breakers reg)))"

definition openAll :: "int \<Rightarrow> (jstring \<Rightarrow> bool) \<Rightarrow> breaker_registry \<Rightarrow> breaker_registry \<times> nat" where
  "openAll now p = force_all now p BOpen"

definition closeAll :: "int \<Rightarrow> (jstring \<Rightarrow> bool) \<Rightarrow> breaker_registry \<Rightarrow> breaker_registry \<times> nat" where
  "closeAll now p = force_all now p BClosed"

definition registry_endpoints :: "breaker_registry \<Rightarrow> jstring list" where
  "registry_endpoints reg = jmap_keys (br_breakers reg)"

definition registry_size :: "breaker_registry \<Rightarrow> nat" where
  "registry_size reg = length (br_breakers reg)"

text \<open>Reading every breaker: each reading may move the breaker to half-open.\<close>

definition read_all :: "(endpoint_breaker \<Rightarrow> endpoint_breaker \<times> 'r) \<Rightarrow> breaker_registry \<Rightarrow> breaker_registry \<times> 'r list" where
  "read_all f reg =
     (reg\<lparr>br_breakers := map (\<lambda>(ep, b). (ep, fst (f b))) (br_breakers reg)\<rparr>, map (\<lambda>(ep, b). snd (f b)) (br_breakers reg))"

record fleet_metrics =
  fm_endpoints :: nat
  fm_open :: nat
  fm_halfOpen :: nat
  fm_closed :: nat
  fm_totalCalls :: int
  fm_totalFailures :: int
  fm_totalRejections :: int
  fm_worstEndpoints :: "(jstring \<times> int \<times> breaker_state) list"

definition registry_metrics :: "int \<Rightarrow> breaker_registry \<Rightarrow> breaker_registry \<times> fleet_metrics" where
  "registry_metrics now reg =
     (let (reg, ss) = read_all (\<lambda>b. let (b, s) = breaker_stats_of now b in (b, (eb_endpoint b, s))) reg in
      (reg,
       \<lparr>fm_endpoints = length (br_breakers reg),
        fm_open = length (filter (\<lambda>(ep, s). bt_state s = BOpen) ss),
        fm_halfOpen = length (filter (\<lambda>(ep, s). bt_state s = BHalfOpen) ss),
        fm_closed = length (filter (\<lambda>(ep, s). bt_state s \<noteq> BOpen \<and> bt_state s \<noteq> BHalfOpen) ss),
        fm_totalCalls = sum_list (map (bt_totalCalls \<circ> snd) ss),
        fm_totalFailures = sum_list (map (bt_totalFailures \<circ> snd) ss),
        fm_totalRejections = sum_list (map (bt_totalRejections \<circ> snd) ss),
        fm_worstEndpoints = take 10 (sort_key (\<lambda>(ep, failures, st). - failures)
                              (map (\<lambda>(ep, s). (ep, bt_totalFailures s, bt_state s)) ss))\<rparr>))"

record registry_snapshot =
  rs_version :: nat
  rs_takenAt :: int
  rs_breakers :: "breaker_snapshot list"

definition snapshot_registry :: "int \<Rightarrow> breaker_registry \<Rightarrow> breaker_registry \<times> registry_snapshot" where
  "snapshot_registry now reg =
     (let (reg, ss) = read_all (take_snapshot now) reg in (reg, \<lparr>rs_version = 1, rs_takenAt = now, rs_breakers = ss\<rparr>))"

definition restore_one :: "int \<Rightarrow> breaker_snapshot \<Rightarrow> breaker_registry \<Rightarrow> breaker_registry" where
  "restore_one now s reg =
     (let (reg, b) = get_breaker now (bs_endpoint s) reg in put_breaker (bs_endpoint s) (restore now b s) reg)"

definition restore_registry :: "int \<Rightarrow> registry_snapshot \<Rightarrow> breaker_registry \<Rightarrow> breaker_registry \<times> nat" where
  "restore_registry now snap reg = (foldl (\<lambda>reg s. restore_one now s reg) reg (rs_breakers snap), length (rs_breakers snap))"

section \<open>The registry's invariant\<close>

definition well_kept :: "jstring \<Rightarrow> endpoint_breaker \<Rightarrow> bool" where
  "well_kept ep b \<longleftrightarrow> eb_endpoint b = ep \<and> breaker_inv b"

definition registry_ok :: "breaker_registry \<Rightarrow> bool" where
  "registry_ok reg \<longleftrightarrow> jmap_wf (br_breakers reg) \<and> (\<forall>ep b. jmap_get (br_breakers reg) ep = Some b \<longrightarrow> well_kept ep b)"

lemma registry_ok_new [simp]: "registry_ok (new_registry options)"
  by (simp add: registry_ok_def new_registry_def)

lemma endpoint_transition [simp]: "eb_endpoint (breaker_transition now b st) = eb_endpoint b"
  by (simp add: breaker_transition_def emit_event_def Let_def)

lemma endpoint_helpers [simp]:
  "eb_endpoint (emit_event b ev) = eb_endpoint b" "eb_endpoint (releaseProbe b) = eb_endpoint b"
  "eb_endpoint (maybeHalfOpen now b) = eb_endpoint b" "eb_endpoint (clearWindow b) = eb_endpoint b"
  "eb_endpoint (compactWindow now b) = eb_endpoint b"
  by (simp_all add: emit_event_def releaseProbe_def maybeHalfOpen_def clearWindow_def compactWindow_def Let_def)

lemma endpoint_step [simp]: "eb_endpoint (breaker_step b e) = eb_endpoint b"
proof -
  obtain now op where e: "e = (now, op)"
    by (cases e)
  show ?thesis
    unfolding e
    by (cases op) (simp_all add: admit_def admit_call_def recordSuccess_def recordFailure_def pushFailureTime_def
        effectiveFailures_def get_state_def tune_def force_state_def restore_def Let_def
        split: prod.split sum.split breaker_state.split option.split)
qed

lemma well_kept_step: "well_kept ep b \<Longrightarrow> well_kept ep (breaker_step b e)"
  by (simp add: well_kept_def breaker_inv_step)

lemma well_kept_ops:
  assumes "well_kept ep b"
  shows "well_kept ep (fst (admit now b))" "well_kept ep (recordSuccess now b)" "well_kept ep (recordFailure now b)"
    "well_kept ep (fst (get_state now b))" "well_kept ep (tune b f r s)" "well_kept ep (force_state now b st)"
    "well_kept ep (restore now b sn)"
  using well_kept_step [OF assms, of "(now, AdmitOp)"] well_kept_step [OF assms, of "(now, SuccessOp)"]
    well_kept_step [OF assms, of "(now, FailureOp)"] well_kept_step [OF assms, of "(now, StateOp)"]
    well_kept_step [OF assms, of "(now, TuneOp f r s)"] well_kept_step [OF assms, of "(now, ForceOp st)"]
    well_kept_step [OF assms, of "(now, RestoreOp sn)"]
  by simp_all

lemma well_kept_new [simp]: "well_kept ep (new_breaker now ep cfg)"
  by (simp add: well_kept_def) (simp add: new_breaker_def)

lemma get_breaker_lookup:
  "jmap_get (br_breakers (fst (get_breaker now ep reg))) k =
     (if k = ep then Some (snd (get_breaker now ep reg)) else jmap_get (br_breakers reg) k)"
  by (simp add: get_breaker_def Let_def jmap_get_set split: option.split)

lemma put_breaker_lookup:
  "jmap_get (br_breakers (put_breaker ep b reg)) k = (if k = ep then Some b else jmap_get (br_breakers reg) k)"
  by (simp add: put_breaker_def jmap_get_set)

lemma put_breaker_ok: "registry_ok reg \<Longrightarrow> well_kept ep b \<Longrightarrow> registry_ok (put_breaker ep b reg)"
  by (auto simp: registry_ok_def put_breaker_lookup) (simp add: put_breaker_def)

lemma get_breaker_ok:
  assumes "registry_ok reg"
  shows "registry_ok (fst (get_breaker now ep reg))" and "well_kept ep (snd (get_breaker now ep reg))"
proof -
  have "jmap_wf (br_breakers (fst (get_breaker now ep reg)))"
    using assms by (simp add: get_breaker_def registry_ok_def Let_def split: option.split)
  moreover show "well_kept ep (snd (get_breaker now ep reg))"
    using assms by (simp add: get_breaker_def registry_ok_def Let_def split: option.split)
  ultimately show "registry_ok (fst (get_breaker now ep reg))"
    using assms by (auto simp: registry_ok_def get_breaker_lookup)
qed

lemma jmap_get_map_values: "jmap_get (map (\<lambda>(k, v). (k, f k v)) m) x = map_option (f x) (jmap_get m x)"
  by (induction m) (auto simp: jmap_get_def)

lemma map_values_ok:
  assumes "registry_ok reg" and "\<And>ep b. well_kept ep b \<Longrightarrow> well_kept ep (f ep b)"
  shows "registry_ok (reg\<lparr>br_breakers := map (\<lambda>(ep, b). (ep, f ep b)) (br_breakers reg)\<rparr>)"
proof -
  have "jmap_keys (map (\<lambda>(ep, b). (ep, f ep b)) m) = jmap_keys m" for m
    by (auto simp: jmap_keys_def)
  then show ?thesis
    using assms by (auto simp: registry_ok_def jmap_get_map_values jmap_wf_def)
qed

lemma registry_execute_ok:
  assumes "registry_ok reg"
  shows "registry_ok (fst (fst (registry_execute now now' ep op (reg, w))))"
proof -
  obtain reg1 b where get: "get_breaker now ep reg = (reg1, b)"
    by fastforce
  then have ok: "registry_ok reg1" "well_kept ep b"
    using get_breaker_ok [OF assms, where now = now and ep = ep] by simp_all
  obtain b1 res where adm: "admit now b = (b1, res)"
    by fastforce
  then have b1: "well_kept ep b1"
    using well_kept_ops(1) [OF ok(2), of now] by simp
  show ?thesis
    by (auto simp: registry_execute_def get adm put_breaker_ok ok(1) b1 well_kept_ops(2,3) [OF b1]
        split: sum.splits prod.splits)
qed

lemma restore_one_lookup:
  "jmap_get (br_breakers (restore_one now s reg)) k =
     (if k = bs_endpoint s then Some (restore now (snd (get_breaker now (bs_endpoint s) reg)) s)
      else jmap_get (br_breakers reg) k)"
  by (simp add: restore_one_def case_prod_beta Let_def put_breaker_lookup get_breaker_lookup)

lemma restore_one_ok: "registry_ok reg \<Longrightarrow> registry_ok (restore_one now s reg)"
  using get_breaker_ok [where reg = reg and now = now and ep = "bs_endpoint s"]
  by (simp add: restore_one_def case_prod_beta Let_def put_breaker_ok well_kept_ops)

lemma restore_many_ok: "registry_ok reg \<Longrightarrow> registry_ok (foldl (\<lambda>reg s. restore_one now s reg) reg ss)"
  by (induction ss arbitrary: reg) (simp_all add: restore_one_ok)

datatype registry_op =
    GetOp int jstring
  | ExecuteOp int int jstring bool
  | OverrideOp jstring breaker_config
  | RemoveBreakerOp jstring
  | OpenAllOp int "jstring \<Rightarrow> bool"
  | CloseAllOp int "jstring \<Rightarrow> bool"
  | MetricsOp int
  | SnapshotOp int
  | RestoreAllOp int registry_snapshot

text \<open>\<open>ExecuteOp\<close> is a guarded call whose operation returns (\<open>True\<close>) or throws.\<close>

fun registry_step :: "breaker_registry \<Rightarrow> registry_op \<Rightarrow> breaker_registry" where
  "registry_step reg (GetOp now ep) = fst (get_breaker now ep reg)"
| "registry_step reg (ExecuteOp now now' ep good) =
     fst (fst (registry_execute now now' ep (\<lambda>w. (w, if good then Inr () else Inl ())) (reg, ())))"
| "registry_step reg (OverrideOp ep cfg) = override_config ep cfg reg"
| "registry_step reg (RemoveBreakerOp ep) = fst (remove_breaker ep reg)"
| "registry_step reg (OpenAllOp now p) = fst (openAll now p reg)"
| "registry_step reg (CloseAllOp now p) = fst (closeAll now p reg)"
| "registry_step reg (MetricsOp now) = fst (registry_metrics now reg)"
| "registry_step reg (SnapshotOp now) = fst (snapshot_registry now reg)"
| "registry_step reg (RestoreAllOp now snap) = fst (restore_registry now snap reg)"

lemma read_all_ok:
  assumes "registry_ok reg" and "\<And>ep b. well_kept ep b \<Longrightarrow> well_kept ep (fst (f b))"
  shows "registry_ok (fst (read_all f reg))"
  using map_values_ok [OF assms(1), of "\<lambda>ep b. fst (f b)"] assms(2) by (simp add: read_all_def)

lemma take_snapshot_fst: "fst (take_snapshot now b) = fst (get_state now b)"
  and breaker_stats_fst: "fst (breaker_stats_of now b) = fst (get_state now b)"
  by (simp_all add: take_snapshot_def breaker_stats_of_def case_prod_beta Let_def)

interpretation registry_ops: invariant_machine registry_step registry_ok
proof
  fix reg op
  assume ok: "registry_ok reg"
  show "registry_ok (registry_step reg op)"
  proof (cases op)
    case (OverrideOp ep cfg)
    have "registry_ok (reg\<lparr>br_overrides := o'\<rparr>)" for o'
      using ok by (simp add: registry_ok_def)
    moreover have "well_kept ep b" if "jmap_get (br_breakers reg) ep = Some b" for b
      using ok that by (simp add: registry_ok_def)
    ultimately show ?thesis
      by (auto simp: OverrideOp override_config_def Let_def put_breaker_ok well_kept_ops split: option.split)
  next
    case (RemoveBreakerOp ep)
    then show ?thesis
      using ok by (auto simp: remove_breaker_def registry_ok_def jmap_get_delete)
  next
    case (OpenAllOp now p)
    then show ?thesis
      using map_values_ok [OF ok, of "\<lambda>ep b. if p ep then force_state now b BOpen else b"]
      by (simp add: openAll_def force_all_def well_kept_ops)
  next
    case (CloseAllOp now p)
    then show ?thesis
      using map_values_ok [OF ok, of "\<lambda>ep b. if p ep then force_state now b BClosed else b"]
      by (simp add: closeAll_def force_all_def well_kept_ops)
  next
    case (MetricsOp now)
    have "registry_ok (fst (read_all (\<lambda>b. let (b, s) = breaker_stats_of now b in (b, (eb_endpoint b, s))) reg))"
      by (rule read_all_ok [OF ok]) (simp add: case_prod_beta Let_def breaker_stats_fst well_kept_ops)
    then show ?thesis
      by (simp add: MetricsOp registry_metrics_def case_prod_beta Let_def)
  next
    case (SnapshotOp now)
    have "registry_ok (fst (read_all (take_snapshot now) reg))"
      by (rule read_all_ok [OF ok]) (simp add: take_snapshot_fst well_kept_ops)
    then show ?thesis
      by (simp add: SnapshotOp snapshot_registry_def case_prod_beta Let_def)
  qed (simp_all add: ok get_breaker_ok registry_execute_ok restore_registry_def restore_many_ok)
qed

section \<open>Properties\<close>

text \<open>
  After any operations a registry holds at most one breaker for an endpoint, stored under its own
  name, and every breaker is in the endpoint breaker's invariant.
\<close>

theorem registry_breakers_kept:
  "let reg = foldl registry_step (new_registry options) ops in
     distinct (registry_endpoints reg)
     \<and> list_all (\<lambda>(ep, b). eb_endpoint b = ep \<and> breaker_inv b) (br_breakers reg)"
proof -
  let ?reg = "foldl registry_step (new_registry options) ops"
  have ok: "registry_ok ?reg"
    by (rule registry_ops.inv_run) simp
  then have d: "distinct (map fst (br_breakers ?reg))"
    by (simp add: registry_ok_def jmap_wf_def jmap_keys_def)
  have "eb_endpoint b = ep \<and> breaker_inv b" if "(ep, b) \<in> set (br_breakers ?reg)" for ep b
    using ok that jmap_get_iff [OF d] by (simp add: registry_ok_def well_kept_def)
  then show ?thesis
    using d by (auto simp: registry_endpoints_def jmap_keys_def list_all_iff)
qed

text \<open>
  When the endpoint's breaker rejects the call, \<open>executeWithFallback\<close> never runs the operation: it
  serves the first fallback's value, and the breaker's only change is the recorded rejection.
\<close>

theorem open_circuit_serves_fallback:
  assumes "jmap_get (br_breakers reg) ep = Some b" and "admit now b = (b', Inl err)" and "fallback w = (w', Inr v)"
  shows "executeWithFallback now now' ep op (fallback # fallbacks) None (reg, w) = ((put_breaker ep b' reg, w'), Inr v)"
  using assms
  by (simp add: executeWithFallback_def chain_run_def runDetailed_def registry_execute_def get_breaker_def unguarded_def
      accepts_def vetoes_def)

definition tripped :: breaker_registry where
  "tripped = fst (openAll 100 (\<lambda>ep. True) (fst (get_breaker 0 (js ''db'') (new_registry \<lparr>ry_config = None\<rparr>))))"

lemma tripped_breaker:
  "\<exists>b. jmap_get (br_breakers tripped) (js ''db'') = Some b \<and> eb_state b = BOpen \<and> eb_openedAt b = 100
     \<and> eb_resetTimeoutMs b = 30000"
  by (simp add: tripped_def openAll_def force_all_def get_breaker_def new_registry_def jmap_get_map_values
      force_state_def breaker_transition_def emit_event_def new_breaker_def merge_config_def empty_config_def Let_def)

lemma open_admit: "eb_state b = BOpen \<Longrightarrow> 0 < eb_resetTimeoutMs b - (now - eb_openedAt b) \<Longrightarrow>
    admit now b = (b\<lparr>eb_totalRejections := eb_totalRejections b + 1\<rparr>, Inl (CircuitRejectionError (eb_endpoint b) (msUntilProbe now b)))"
  by (simp add: admit_def admit_call_def maybeHalfOpen_def msUntilProbe_def)

theorem open_circuit_serves_fallback_witness:
  "snd (executeWithFallback 200 201 (js ''db'') (\<lambda>w. (w @ [''op''], Inr 3)) [\<lambda>w. (w @ [''cache''], Inr 2 :: unit + nat)] None (tripped, [])) = Inr 2"
proof -
  obtain b where b: "jmap_get (br_breakers tripped) (js ''db'') = Some b" "eb_state b = BOpen" "eb_openedAt b = 100"
    "eb_resetTimeoutMs b = 30000"
    using tripped_breaker by blast
  then have "admit 200 b = (b\<lparr>eb_totalRejections := eb_totalRejections b + 1\<rparr>, Inl (CircuitRejectionError (eb_endpoint b) (msUntilProbe 200 b)))"
    by (intro open_admit) simp_all
  from open_circuit_serves_fallback [OF b(1) this, where fallback = "\<lambda>w. (w @ [''cache''], Inr 2 :: unit + nat)" and w = "[]"
      and w' = "[''cache'']" and v = "2 :: nat" and now' = 201 and op = "\<lambda>w. (w @ [''op''], Inr 3)" and fallbacks = "[]"]
  show ?thesis
    by simp
qed

text \<open>
  The kill switch: after \<open>openAll\<close>, a guarded call to any matching endpoint that was registered is
  rejected, without running its operation, until the endpoint's reset timeout has passed.
\<close>

theorem kill_switch_rejects:
  assumes "jmap_get (br_breakers reg) ep = Some b" and "p ep" and "now' - now < eb_resetTimeoutMs b"
  shows "\<exists>reg' ms. registry_execute now' now'' ep op (fst (openAll now p reg), w) =
           ((reg', w), Inl (CircuitOpen (CircuitRejectionError (eb_endpoint b) ms))) \<and> ms = eb_resetTimeoutMs b - (now' - now)"
proof -
  define b1 where "b1 = force_state now b BOpen"
  have get: "jmap_get (br_breakers (fst (openAll now p reg))) ep = Some b1"
    using assms(1,2) by (simp add: openAll_def force_all_def jmap_get_map_values b1_def)
  have b1: "eb_state b1 = BOpen" "eb_openedAt b1 = now" "eb_resetTimeoutMs b1 = eb_resetTimeoutMs b" "eb_endpoint b1 = eb_endpoint b"
    by (simp_all add: b1_def force_state_def breaker_transition_def emit_event_def)
  then have "admit now' b1 = (b1\<lparr>eb_totalRejections := eb_totalRejections b1 + 1\<rparr>,
      Inl (CircuitRejectionError (eb_endpoint b1) (msUntilProbe now' b1)))"
    using assms(3) by (intro open_admit) simp_all
  then show ?thesis
    using get b1 assms(3) by (simp add: registry_execute_def get_breaker_def msUntilProbe_def)
qed

theorem kill_switch_rejects_witness:
  "\<exists>reg' ms. registry_execute 150 160 (js ''db'') (\<lambda>w. (Suc w, Inr ())) (fst (openAll 120 (\<lambda>ep. True) tripped), 0 :: nat) =
     ((reg', 0), Inl (CircuitOpen (CircuitRejectionError (js ''db'') ms) :: unit call_error))"
proof -
  obtain b where b: "jmap_get (br_breakers tripped) (js ''db'') = Some b" "eb_resetTimeoutMs b = 30000"
    using tripped_breaker by blast
  have "registry_ok tripped"
    unfolding tripped_def using registry_ops.inv_step [of "fst (get_breaker 0 (js ''db'') (new_registry \<lparr>ry_config = None\<rparr>))" "OpenAllOp 100 (\<lambda>ep. True)"]
      get_breaker_ok [where reg = "new_registry \<lparr>ry_config = None\<rparr>" and now = 0 and ep = "js ''db''"] by simp
  with b have "eb_endpoint b = js ''db''"
    by (simp add: registry_ok_def well_kept_def)
  then show ?thesis
    using kill_switch_rejects [OF b(1), of "\<lambda>ep. True" 150 120 160 "\<lambda>w. (Suc w, Inr ())" 0] b(2) by auto
qed

section \<open>Persistence\<close>

text \<open>The persisted part of a breaker.\<close>

definition persisted :: "endpoint_breaker \<Rightarrow> breaker_snapshot" where
  "persisted b =
     \<lparr>bs_endpoint = eb_endpoint b, bs_state = eb_state b, bs_consecutiveFailures = eb_consecutiveFailures b,
      bs_consecutiveSuccesses = eb_consecutiveSuccesses b, bs_totalCalls = eb_totalCalls b,
      bs_totalFailures = eb_totalFailures b, bs_totalRejections = eb_totalRejections b,
      bs_lastFailureAt = eb_lastFailureAt b, bs_openedAt = eb_openedAt b\<rparr>"

lemma take_snapshot_persisted: "snd (take_snapshot now b) = persisted (fst (take_snapshot now b))"
  by (simp add: take_snapshot_def get_state_def persisted_def Let_def)

lemma persisted_restore: "eb_endpoint b = bs_endpoint s \<Longrightarrow> persisted (restore now b s) = s"
  by (simp add: persisted_def restore_def)

lemma restore_many_lookup:
  assumes "registry_ok reg" and "distinct (map bs_endpoint ss)" and "s \<in> set ss"
  shows "map_option persisted (jmap_get (br_breakers (foldl (\<lambda>reg s. restore_one now s reg) reg ss)) (bs_endpoint s)) = Some s"
  using assms
proof (induction ss rule: rev_induct)
  case (snoc x ss)
  let ?reg = "foldl (\<lambda>reg s. restore_one now s reg) reg ss"
  have ok: "registry_ok ?reg"
    by (rule restore_many_ok [OF snoc.prems(1)])
  show ?case
  proof (cases "s = x")
    case True
    have "eb_endpoint (snd (get_breaker now (bs_endpoint x) ?reg)) = bs_endpoint x"
      using get_breaker_ok(2) [OF ok] by (simp add: well_kept_def)
    with True show ?thesis
      by (simp add: restore_one_lookup persisted_restore)
  next
    case False
    then have inn: "s \<in> set ss"
      using snoc.prems by simp
    then have "bs_endpoint s \<in> bs_endpoint ` set ss"
      by (rule imageI)
    then have "bs_endpoint s \<noteq> bs_endpoint x"
      using snoc.prems by auto
    with inn snoc show ?thesis
      by (simp add: restore_one_lookup)
  qed
qed simp

text \<open>
  Restoring a snapshot into any registry, a fresh one included, gives every endpoint of the snapshot
  a breaker with the state, the counters and the times it had, and reports how many.
\<close>

theorem registry_snapshot_restores:
  assumes "registry_ok reg" and "registry_ok target" and "jmap_get (br_breakers reg) ep = Some b"
  shows "let (reg', snap) = snapshot_registry now reg; (target', n) = restore_registry now' snap target in
     map_option persisted (jmap_get (br_breakers target') ep) = map_option persisted (jmap_get (br_breakers reg') ep)
     \<and> jmap_get (br_breakers reg') ep \<noteq> None \<and> n = registry_size reg"
proof -
  obtain reg' snap where s: "snapshot_registry now reg = (reg', snap)"
    by fastforce
  let ?bs = "br_breakers reg"
  have parts: "rs_breakers snap = map (\<lambda>(ep, b). snd (take_snapshot now b)) ?bs"
    "jmap_get (br_breakers reg') ep = Some (fst (take_snapshot now b))"
    using s assms(3) jmap_get_map_values [of "\<lambda>ep b. fst (take_snapshot now b)" ?bs]
    by (auto simp: snapshot_registry_def read_all_def Let_def)
  have d: "distinct (map fst ?bs)"
    using assms(1) by (simp add: registry_ok_def jmap_wf_def jmap_keys_def)
  have name: "bs_endpoint (snd (take_snapshot now c)) = e" if "(e, c) \<in> set ?bs" for e c
    using assms(1) that jmap_get_iff [OF d, of e c]
    by (simp add: registry_ok_def well_kept_def take_snapshot_def get_state_def Let_def)
  then have "map bs_endpoint (rs_breakers snap) = map fst ?bs"
    unfolding parts by (auto simp: comp_def)
  then have dist: "distinct (map bs_endpoint (rs_breakers snap))"
    using d by simp
  have inn: "(ep, b) \<in> set ?bs"
    using assms(3) jmap_get_iff [OF d] by simp
  then have "snd (take_snapshot now b) \<in> set (rs_breakers snap)"
    unfolding parts by force
  from restore_many_lookup [OF assms(2) dist this, of now'] name [OF inn] parts show ?thesis
    by (simp add: s restore_registry_def take_snapshot_persisted [symmetric] registry_size_def)
qed

theorem registry_snapshot_restores_witness:
  "let reg = fst (get_breaker 0 (js ''db'') (new_registry \<lparr>ry_config = None\<rparr>));
       (reg', snap) = snapshot_registry 5 reg; (target', n) = restore_registry 9 snap (new_registry \<lparr>ry_config = None\<rparr>)
   in map_option persisted (jmap_get (br_breakers target') (js ''db'')) =
        map_option persisted (jmap_get (br_breakers reg') (js ''db''))"
proof -
  let ?new = "new_registry \<lparr>ry_config = None\<rparr>"
  have "registry_ok (fst (get_breaker 0 (js ''db'') ?new))"
    by (rule get_breaker_ok) simp
  from registry_snapshot_restores [OF this registry_ok_new [of "\<lparr>ry_config = None\<rparr>"], of "js ''db''" "snd (get_breaker 0 (js ''db'') ?new)" 5 9]
  show ?thesis
    by (simp add: get_breaker_lookup case_prod_beta Let_def)
qed

end
