(* ===== verification/CircuitBreaker.thy ===== *)
theory CircuitBreaker
  imports Interfaces
begin

text \<open>
  The layer's circuit breaker (\<open>circuit-breaker/implementations/CircuitBreaker.ts\<close>): \<open>execute\<close> with
  its fallback on every path, the outcome counters, reset and configuration. The operation and
  the fallback are the caller's code, given by the outcome they settle with. A call first
  decides (\<open>cb_decide\<close>) and records its outcome later (\<open>cb_onSuccess\<close>, \<open>cb_onFailure\<close>).
\<close>

section \<open>State\<close>

datatype circuit_state = CClosed | COpen | CHalfOpen

record circuit_stats =
  cs_failureCount :: nat
  cs_successCount :: nat
  cs_lastFailureTime :: int
  cs_state :: circuit_state

record circuit_config =
  cc_failureThreshold :: nat
  cc_successThreshold :: nat
  cc_timeout :: int
  cc_resetTimeout :: int

record circuit_breaker =
  cb_state :: circuit_state
  cb_stats :: circuit_stats
  cb_config :: circuit_config
  cb_successCount :: nat
  cb_lastStateChange :: int

definition zero_stats :: circuit_stats where
  "zero_stats = \<lparr>cs_failureCount = 0, cs_successCount = 0, cs_lastFailureTime = 0, cs_state = CClosed\<rparr>"

definition new_circuit_breaker :: "int \<Rightarrow> circuit_breaker" where
  "new_circuit_breaker now =
     \<lparr>cb_state = CClosed, cb_stats = zero_stats,
      cb_config = \<lparr>cc_failureThreshold = 5, cc_successThreshold = 2, cc_timeout = 60000, cc_resetTimeout = 30000\<rparr>,
      cb_successCount = 0, cb_lastStateChange = now\<rparr>"

text \<open>How a promise settles: a value, a thrown \<open>Error\<close> with its message, or another thrown value.\<close>

datatype 'a settled_with = Resolved 'a | RejectedError jstring | RejectedOther

record 'a circuit_result =
  cr_success :: bool
  cr_data :: "'a option"
  cr_state :: circuit_state
  cr_error :: "jstring option"

section \<open>Operations\<close>

definition cb_shouldAttemptReset :: "int \<Rightarrow> circuit_breaker \<Rightarrow> bool" where
  "cb_shouldAttemptReset now c \<longleftrightarrow> now - cb_lastStateChange c \<ge> cc_resetTimeout (cb_config c)"

text \<open>The check at the head of \<open>execute\<close>: whether the operation is run.\<close>

definition cb_decide :: "int \<Rightarrow> circuit_breaker \<Rightarrow> circuit_breaker \<times> bool" where
  "cb_decide now c =
     (if cb_state c = COpen then
        if cb_shouldAttemptReset now c then (c\<lparr>cb_state := CHalfOpen, cb_lastStateChange := now\<rparr>, True) else (c, False)
      else (c, True))"

definition cb_onSuccess :: "circuit_breaker \<Rightarrow> circuit_breaker" where
  "cb_onSuccess c0 =
     (let c = c0\<lparr>cb_stats := (cb_stats c0)\<lparr>cs_successCount := cs_successCount (cb_stats c0) + 1\<rparr>,
                 cb_successCount := cb_successCount c0 + 1\<rparr>
      in
      if cb_state c = CHalfOpen \<and> cb_successCount c \<ge> cc_successThreshold (cb_config c)
      then c\<lparr>cb_state := CClosed, cb_successCount := 0, cb_stats := (cb_stats c)\<lparr>cs_failureCount := 0\<rparr>\<rparr>
      else c)"

definition cb_onFailure :: "int \<Rightarrow> circuit_breaker \<Rightarrow> circuit_breaker" where
  "cb_onFailure now c0 =
     (let c = c0\<lparr>cb_stats := (cb_stats c0)\<lparr>cs_failureCount := cs_failureCount (cb_stats c0) + 1,
                                          cs_lastFailureTime := now\<rparr>,
                 cb_successCount := 0\<rparr>
      in
      if cs_failureCount (cb_stats c) \<ge> cc_failureThreshold (cb_config c)
      then c\<lparr>cb_state := COpen, cb_lastStateChange := now\<rparr>
      else c)"

definition error_text :: "'a settled_with \<Rightarrow> jstring \<Rightarrow> jstring" where
  "error_text r d = (case r of RejectedError msg \<Rightarrow> msg | _ \<Rightarrow> d)"

definition ok_result :: "'a \<Rightarrow> circuit_breaker \<Rightarrow> 'a circuit_result" where
  "ok_result v c = \<lparr>cr_success = True, cr_data = Some v, cr_state = cb_state c, cr_error = None\<rparr>"

definition failed_result :: "circuit_breaker \<Rightarrow> jstring \<Rightarrow> 'a circuit_result" where
  "failed_result c msg = \<lparr>cr_success = False, cr_data = None, cr_state = cb_state c, cr_error = Some msg\<rparr>"

text \<open>
  \<open>execute(operation, fallback)\<close> at clock \<open>now\<close>, its outcome recorded at \<open>now'\<close>, no other call in
  between. \<open>fallback\<close> is what the fallback settles with, if one is given.
\<close>

definition cb_execute ::
  "int \<Rightarrow> int \<Rightarrow> circuit_breaker \<Rightarrow> 'a settled_with \<Rightarrow> 'a settled_with option \<Rightarrow> circuit_breaker \<times> 'a circuit_result" where
  "cb_execute now now' c operation fallback =
     (case cb_decide now c of
        (c, False) \<Rightarrow>
          (c, case fallback of
                Some (Resolved v) \<Rightarrow> ok_result v c
              | Some r \<Rightarrow> failed_result c (error_text r (js ''Fallback failed''))
              | None \<Rightarrow> failed_result c (js ''Circuit is open''))
      | (c, True) \<Rightarrow>
          (case operation of
             Resolved v \<Rightarrow> (let c = cb_onSuccess c in (c, ok_result v c))
           | err \<Rightarrow>
               (let c = cb_onFailure now' c in
                (c, case fallback of
                      Some (Resolved v) \<Rightarrow> ok_result v c
                    | _ \<Rightarrow> failed_result c (error_text err (js ''Operation failed''))))))"

definition cb_getStats :: "circuit_breaker \<Rightarrow> circuit_stats" where
  "cb_getStats c = cb_stats c"

definition cb_reset :: "int \<Rightarrow> circuit_breaker \<Rightarrow> circuit_breaker" where
  "cb_reset now c = c\<lparr>cb_state := CClosed, cb_stats := zero_stats, cb_successCount := 0, cb_lastStateChange := now\<rparr>"

definition cb_setConfig :: "circuit_breaker \<Rightarrow> circuit_config \<Rightarrow> circuit_breaker" where
  "cb_setConfig c config = c\<lparr>cb_config := config\<rparr>"

section \<open>The breaker as a machine of overlapping calls\<close>

datatype circuit_op = Decide | OnSuccess | OnFailure | ResetOp | SetConfig circuit_config

fun circuit_step :: "circuit_breaker \<Rightarrow> int \<times> circuit_op \<Rightarrow> circuit_breaker" where
  "circuit_step c (now, Decide) = fst (cb_decide now c)"
| "circuit_step c (now, OnSuccess) = cb_onSuccess c"
| "circuit_step c (now, OnFailure) = cb_onFailure now c"
| "circuit_step c (now, ResetOp) = cb_reset now c"
| "circuit_step c (now, SetConfig config) = cb_setConfig c config"

lemmas circuit_defs = cb_decide_def cb_onSuccess_def cb_onFailure_def cb_reset_def cb_setConfig_def Let_def zero_stats_def

text \<open>The state kept in the statistics never changes.\<close>

definition stale_state :: "circuit_breaker \<Rightarrow> bool" where
  "stale_state c \<longleftrightarrow> cs_state (cb_stats c) = CClosed"

interpretation circuit: invariant_machine circuit_step stale_state
proof
  show "stale_state c \<Longrightarrow> stale_state (circuit_step c e)" for c e
    by (cases "(c, e)" rule: circuit_step.cases) (auto simp: stale_state_def circuit_defs)
qed

section \<open>Properties\<close>

text \<open>
  Failing fast: while the circuit is open and its reset timeout has not passed, \<open>execute\<close> does
  not depend on the operation, changes nothing, and answers from the fallback or with an error.
\<close>

theorem circuit_open_fails_fast:
  assumes "cb_state c = COpen" and "now < cb_lastStateChange c + cc_resetTimeout (cb_config c)"
  shows "cb_execute now now' c operation fallback = cb_execute now now' c operation' fallback \<and>
    fst (cb_execute now now' c operation fallback) = c \<and>
    (cr_success (snd (cb_execute now now' c operation fallback)) \<longleftrightarrow> (\<exists>v. fallback = Some (Resolved v)))"
  using assms
  by (auto simp: cb_execute_def cb_decide_def cb_shouldAttemptReset_def ok_result_def failed_result_def
      split: option.split settled_with.split)

text \<open>Outcomes recorded in the closed state, as a list: \<open>True\<close> is a success.\<close>

definition record_outcome :: "circuit_breaker \<Rightarrow> int \<times> bool \<Rightarrow> circuit_breaker" where
  "record_outcome c e = (if snd e then cb_onSuccess c else cb_onFailure (fst e) c)"

definition failures_in :: "(int \<times> bool) list \<Rightarrow> nat" where
  "failures_in es = length (filter (\<lambda>e. \<not> snd e) es)"

lemma outcomes_closed:
  assumes "cb_state c = CClosed" and "cs_failureCount (cb_stats c) + failures_in es < cc_failureThreshold (cb_config c)"
  shows "cb_state (foldl record_outcome c es) = CClosed \<and>
    cs_failureCount (cb_stats (foldl record_outcome c es)) = cs_failureCount (cb_stats c) + failures_in es \<and>
    cb_config (foldl record_outcome c es) = cb_config c"
  using assms
proof (induction es arbitrary: c)
  case (Cons e es)
  then show ?case
    using Cons.IH [of "record_outcome c e"]
    by (cases "snd e") (auto simp: record_outcome_def circuit_defs failures_in_def)
qed (simp add: failures_in_def)

text \<open>
  The failure count is cumulative: successes in the closed state do not lower it, so the circuit
  stays closed while fewer than \<open>failureThreshold\<close> failures were recorded since it last closed, and
  the failure that reaches the threshold opens it, however many calls succeeded in between.
\<close>

theorem circuit_opens_at_threshold:
  assumes "cb_state c = CClosed" and "cs_failureCount (cb_stats c) = 0"
    and "failures_in es + 1 = cc_failureThreshold (cb_config c)"
  shows "cb_state (foldl record_outcome c es) = CClosed \<and>
    cb_state (foldl record_outcome c (es @ [(now, False)])) = COpen \<and>
    cb_lastStateChange (foldl record_outcome c (es @ [(now, False)])) = now"
  using outcomes_closed [of c es] assms by (simp add: record_outcome_def circuit_defs)

lemma successes_half_open:
  assumes "cb_state c = CHalfOpen" and "0 < n" and "cb_successCount c + n = cc_successThreshold (cb_config c)"
  shows "cb_state ((cb_onSuccess ^^ n) c) = CClosed \<and> cs_failureCount (cb_stats ((cb_onSuccess ^^ n) c)) = 0 \<and>
    cb_successCount ((cb_onSuccess ^^ n) c) = 0"
  using assms
proof (induction n arbitrary: c)
  case (Suc n)
  show ?case
  proof (cases n)
    case 0
    then show ?thesis
      using Suc.prems by (simp add: circuit_defs)
  next
    case (Suc m)
    then have "cb_onSuccess c = c\<lparr>cb_stats := (cb_stats c)\<lparr>cs_successCount := cs_successCount (cb_stats c) + 1\<rparr>,
        cb_successCount := cb_successCount c + 1\<rparr>"
      using Suc.prems by (simp add: cb_onSuccess_def Let_def)
    then show ?thesis
      using Suc.IH [of "cb_onSuccess c"] Suc.prems Suc by (simp add: funpow_Suc_right del: funpow.simps)
  qed
qed simp

text \<open>
  Recovery: after the reset timeout the next call is let through, and \<open>successThreshold\<close>
  successes in a row, when none was recorded while the circuit was open, close it and clear the
  failure count.
\<close>

theorem circuit_recovers:
  assumes "cb_state c = COpen" and "cb_lastStateChange c + cc_resetTimeout (cb_config c) \<le> now"
    and "cb_successCount c = 0" and "cc_successThreshold (cb_config c) = Suc n"
  shows "snd (cb_decide now c) \<and> cb_state ((cb_onSuccess ^^ Suc n) (fst (cb_decide now c))) = CClosed \<and>
    cs_failureCount (cb_stats ((cb_onSuccess ^^ Suc n) (fst (cb_decide now c)))) = 0"
  using successes_half_open [of "fst (cb_decide now c)" "Suc n"] assms
  by (simp add: cb_decide_def cb_shouldAttemptReset_def del: funpow.simps)

text \<open>
  The statistics never show the circuit's state: over every interleaving of calls, resets and
  configuration changes, \<open>getStats().state\<close> is closed, also while the circuit is open.
\<close>

theorem circuit_stats_state_stale:
  "cs_state (cb_getStats (foldl circuit_step (new_circuit_breaker t) es)) = CClosed"
proof -
  have "stale_state (new_circuit_breaker t)"
    by (simp add: stale_state_def new_circuit_breaker_def zero_stats_def)
  from circuit.inv_run [OF this, of es] show ?thesis
    by (simp add: stale_state_def cb_getStats_def)
qed

section \<open>Witnesses\<close>

definition tripped :: circuit_breaker where
  "tripped = foldl record_outcome (new_circuit_breaker 0)
     [(1, False), (2, True), (3, False), (4, False), (5, False), (6, True), (7, False)]"

lemma tripped_fields:
  "cb_state tripped = COpen" "cb_lastStateChange tripped = 7" "cb_successCount tripped = 0"
  "cb_config tripped = cb_config (new_circuit_breaker 0)"
  by (simp_all add: tripped_def record_outcome_def new_circuit_breaker_def circuit_defs)

theorem circuit_open_fails_fast_witness:
  "cb_execute 100 100 tripped (Resolved (1 :: nat)) None = cb_execute 100 100 tripped RejectedOther None"
  using circuit_open_fails_fast [OF tripped_fields(1), of 100 100 "Resolved (1 :: nat)" None RejectedOther]
  by (simp add: tripped_fields new_circuit_breaker_def)

theorem circuit_opens_at_threshold_witness:
  "cb_state (foldl record_outcome (new_circuit_breaker 0)
     ([(1, False), (2, True), (3, False), (4, False), (5, False), (6, True)] @ [(7, False)])) = COpen"
  using circuit_opens_at_threshold [of "new_circuit_breaker 0"
      "[(1, False), (2, True), (3, False), (4, False), (5, False), (6, True)]" 7]
  by (simp add: new_circuit_breaker_def zero_stats_def failures_in_def)

theorem circuit_recovers_witness:
  "snd (cb_decide 40000 tripped) \<and> cb_state ((cb_onSuccess ^^ 2) (fst (cb_decide 40000 tripped))) = CClosed"
  using circuit_recovers [OF tripped_fields(1), of 40000 1]
  by (simp add: tripped_fields new_circuit_breaker_def numeral_2_eq_2 del: funpow.simps)

end
