(* ===== verification/RouterTypes.thy ===== *)
theory RouterTypes
  imports JsPrelude
begin

text \<open>The request methods both routers share (\<open>router/types/router-types.ts\<close>).\<close>

datatype http_method = GET | POST | PUT | DELETE | PATCH | HEAD | OPTIONS | TRACE | CONNECT

fun method_name :: "http_method \<Rightarrow> jstring" where
  "method_name GET = js ''GET''"
| "method_name POST = js ''POST''"
| "method_name PUT = js ''PUT''"
| "method_name DELETE = js ''DELETE''"
| "method_name PATCH = js ''PATCH''"
| "method_name HEAD = js ''HEAD''"
| "method_name OPTIONS = js ''OPTIONS''"
| "method_name TRACE = js ''TRACE''"
| "method_name CONNECT = js ''CONNECT''"

abbreviation slash :: "16 word" where "slash \<equiv> 0x2f"
abbreviation colon :: "16 word" where "colon \<equiv> 0x3a"
abbreviation star :: "16 word" where "star \<equiv> 0x2a"

lemma method_name_no_colon: "colon \<notin> set (method_name m)"
  by (cases m) (simp_all add: js_def js_char_def)

lemma method_name_eq_iff [simp]: "method_name a = method_name b \<longleftrightarrow> a = b"
  by (cases a; cases b) simp_all

end
