(* ===== verification/RadixTrie.thy ===== *)
theory RadixTrie
  imports Interfaces RouterTypes
begin

text \<open>
  The radix-trie router (\<open>router/engine/RadixTrieRouter.ts\<close>): tokenizing, the compressed trie with
  its edge splits, registration and removal, and the scored depth-first search. The mutable tree
  is a functional one: where the code walks to a node and then writes to it, the model rebuilds
  the path to it. A path position is the rest of the path that is left to match.
\<close>

section \<open>Patterns\<close>

datatype pattern_token = Static jstring | Param jstring | Wildcard jstring

datatype router_error =
    BadPattern jstring
  | EmptyParamName jstring nat
  | WildcardNotLast jstring
  | WildcardNameConflict jstring jstring
  | RouteConflictError http_method jstring

text \<open>\<open>/[A-Za-z0-9_]/\<close>.\<close>

definition name_char :: "16 word \<Rightarrow> bool" where
  "name_char c \<longleftrightarrow>
     (0x41 \<le> c \<and> c \<le> 0x5a) \<or> (0x61 \<le> c \<and> c \<le> 0x7a) \<or> (0x30 \<le> c \<and> c \<le> 0x39) \<or> c = 0x5f"

definition flush_static :: "jstring \<Rightarrow> pattern_token list" where
  "flush_static acc = (if acc = [] then [] else [Static acc])"

text \<open>
  The \<open>while\<close> over the pattern: \<open>acc\<close> is the static text since \<open>staticStart\<close>, \<open>i\<close> the offset of the
  rest. The tokens before an error are lost with the throw.
\<close>

function tokenize_loop :: "jstring \<Rightarrow> nat \<Rightarrow> jstring \<Rightarrow> jstring \<Rightarrow> router_error + pattern_token list" where
  "tokenize_loop pattern i acc [] = Inr (flush_static acc)"
| "tokenize_loop pattern i acc (ch # rest) =
     (if ch = colon then
        let name = takeWhile name_char rest in
        if name = [] then Inl (EmptyParamName pattern i)
        else
          case tokenize_loop pattern (i + 1 + length name) [] (dropWhile name_char rest) of
            Inl e \<Rightarrow> Inl e
          | Inr ts \<Rightarrow> Inr (flush_static acc @ Param name # ts)
      else if ch = star then
        let name = takeWhile name_char rest in
        if dropWhile name_char rest \<noteq> [] then Inl (WildcardNotLast pattern)
        else Inr (flush_static acc @ [Wildcard (if name = [] then js ''wildcard'' else name)])
      else tokenize_loop pattern (i + 1) (acc @ [ch]) rest)"
  by pat_completeness auto
termination
  by (relation "measure (\<lambda>(pattern, i, acc, rest). length rest)") (auto simp: le_imp_less_Suc length_dropWhile_le)

definition tokenizePattern :: "jstring \<Rightarrow> router_error + pattern_token list" where
  "tokenizePattern pattern =
     (if pattern = [] \<or> hd pattern \<noteq> slash then Inl (BadPattern pattern) else tokenize_loop pattern 0 [] pattern)"

fun commonPrefixLength :: "jstring \<Rightarrow> jstring \<Rightarrow> nat" where
  "commonPrefixLength (a # as) (b # bs) = (if a = b then commonPrefixLength as bs + 1 else 0)"
| "commonPrefixLength _ _ = 0"

section \<open>The trie\<close>

datatype 'r trie =
  Node (t_edge: jstring) (t_static: "(16 word \<times> 'r trie) list") (t_params: "(jstring \<times> 'r trie) list")
    (t_wildcard: "(jstring \<times> 'r trie) option") (t_routes: "(http_method, 'r) jmap") (t_depth: nat)

definition new_node :: "jstring \<Rightarrow> nat \<Rightarrow> 'r trie" where
  "new_node edge depth = Node edge [] [] None jmap_empty depth"

text \<open>Field updates.\<close>

fun set_static :: "'r trie \<Rightarrow> 16 word \<Rightarrow> 'r trie \<Rightarrow> 'r trie" where
  "set_static (Node e ss ps w rs d) c child = Node e (jmap_set c child ss) ps w rs d"

fun set_param :: "'r trie \<Rightarrow> jstring \<Rightarrow> 'r trie \<Rightarrow> 'r trie" where
  "set_param (Node e ss ps w rs d) name child = Node e ss (jmap_set name child ps) w rs d"

fun set_wildcard :: "'r trie \<Rightarrow> jstring \<Rightarrow> 'r trie \<Rightarrow> 'r trie" where
  "set_wildcard (Node e ss ps w rs d) name child = Node e ss ps (Some (name, child)) rs d"

fun set_routes :: "(http_method, 'r) jmap \<Rightarrow> 'r trie \<Rightarrow> 'r trie" where
  "set_routes rs' (Node e ss ps w rs d) = Node e ss ps w rs' d"

fun set_edge :: "jstring \<Rightarrow> nat \<Rightarrow> 'r trie \<Rightarrow> 'r trie" where
  "set_edge e' d' (Node e ss ps w rs d) = Node e' ss ps w rs d'"

text \<open>
  \<open>_insert\<close>: walk the tokens, creating and splitting nodes, and apply \<open>k\<close> to the node they end at.
  A static token is consumed edge by edge as in \<open>_insertStatic\<close>; parameters are appended to the
  list of parameter edges. The tree so far is kept when a wildcard's name conflicts.
\<close>

definition split_at :: "'r trie \<Rightarrow> nat \<Rightarrow> nat \<Rightarrow> 'r trie" where
  "split_at child cpl depth =
     (let edgePrefix = take cpl (t_edge child);
          edgeSuffix = drop cpl (t_edge child);
          split = new_node edgePrefix (depth + 1)
      in set_static split (hd edgeSuffix) (set_edge edgeSuffix (t_depth split + 1) child))"

lemma size_lookup:
  "jmap_get xs k = Some n \<Longrightarrow> size n < Suc (size_list (size_prod (\<lambda>_. 0) size) xs)" for n :: "'r trie"
  by (induction xs) (auto simp: jmap_get_def split: if_splits)

function insert_at ::
  "pattern_token list \<Rightarrow> ('r trie \<Rightarrow> 'r trie \<times> router_error option) \<Rightarrow> 'r trie \<Rightarrow>
     'r trie \<times> router_error option" where
  "insert_at [] k node = k node"
| "insert_at (Static [] # ts) k node = insert_at ts k node"
| "insert_at (Static (c # cs) # ts) k node =
     (case jmap_get (t_static node) c of
        None \<Rightarrow>
          (let (leaf, err) = insert_at ts k (new_node (c # cs) (t_depth node + 1)) in (set_static node c leaf, err))
      | Some child \<Rightarrow>
          (let cpl = commonPrefixLength (t_edge child) (c # cs) in
           if cpl = length (t_edge child) then
             let (child', err) = insert_at (Static (drop cpl (c # cs)) # ts) k child in (set_static node c child', err)
           else
             let split = split_at child cpl (t_depth node) in
             if cpl < length (c # cs) then
               let tail = drop cpl (c # cs);
                   (leaf, err) = insert_at ts k (new_node tail (t_depth split + 1))
               in (set_static node c (set_static split (hd tail) leaf), err)
             else let (split', err) = insert_at ts k split in (set_static node c split', err)))"
| "insert_at (Param name # ts) k node =
     (let child = (case jmap_get (t_params node) name of
            Some n \<Rightarrow> n
          | None \<Rightarrow> new_node (colon # name) (t_depth node + 1));
          (child', err) = insert_at ts k child
      in (set_param node name child', err))"
| "insert_at (Wildcard name # ts) k node =
     (case t_wildcard node of
        Some (existing, n) \<Rightarrow>
          if existing \<noteq> name then (node, Some (WildcardNameConflict existing name))
          else let (n', err) = insert_at ts k n in (set_wildcard node name n', err)
      | None \<Rightarrow>
          (let (n', err) = insert_at ts k (new_node [star] (t_depth node + 1)) in (set_wildcard node name n', err)))"
  by pat_completeness auto
termination
proof (relation "measures [\<lambda>(ts, k, node). length ts, \<lambda>(ts, k, node). size node]", goal_cases)
  case (4 c cs ts k node child)
  then show ?case
    using size_lookup [of "t_static node" c child] by (cases node) auto
qed auto

text \<open>\<open>_locate\<close>: the node a pattern ends at, without creating anything. A wildcard's name is not compared.\<close>

function locate :: "pattern_token list \<Rightarrow> 'r trie \<Rightarrow> 'r trie option" where
  "locate [] node = Some node"
| "locate (Static [] # ts) node = locate ts node"
| "locate (Static (c # cs) # ts) node =
     (case jmap_get (t_static node) c of
        None \<Rightarrow> None
      | Some child \<Rightarrow>
          (let cpl = commonPrefixLength (t_edge child) (c # cs) in
           if cpl < length (t_edge child) then None else locate (Static (drop cpl (c # cs)) # ts) child))"
| "locate (Param name # ts) node =
     (case jmap_get (t_params node) name of None \<Rightarrow> None | Some n \<Rightarrow> locate ts n)"
| "locate (Wildcard name # ts) node =
     (case t_wildcard node of None \<Rightarrow> None | Some (_, n) \<Rightarrow> locate ts n)"
  by pat_completeness auto
termination
proof (relation "measures [\<lambda>(ts, node). length ts, \<lambda>(ts, node). size node]", goal_cases)
  case (3 c cs ts node child)
  then show ?case
    using size_lookup [of "t_static node" c child] by (cases node) auto
qed auto

section \<open>Routes\<close>

record 'v route_request =
  rq_method :: http_method
  rq_path :: jstring
  rq_params :: "(jstring, jstring) jmap"
  rq_wildcard :: "jstring option"
  rq_matchedPattern :: jstring
  rq_headers :: "(jstring, jstring) jmap"
  rq_state :: "(jstring, 'v) jmap"

datatype 'b route_body = NotFoundBody jstring | MethodNotAllowedBody jstring | HandlerBody 'b

record 'b route_result =
  rs_status :: nat
  rs_body :: "'b route_body option"
  rs_headers :: "(jstring, jstring) jmap option"
  rs_matchedPattern :: "jstring option"

type_synonym ('v, 'b) route_handler = "'v route_request \<Rightarrow> 'b route_result"
type_synonym ('v, 'b) route_middleware = "'v route_request \<Rightarrow> (unit \<Rightarrow> 'b route_result) \<Rightarrow> 'b route_result"

record ('v, 'b) engine_route =
  er_method :: http_method
  er_path :: jstring
  er_handler :: "('v, 'b) route_handler"
  er_middleware :: "('v, 'b) route_middleware list option"

record ('v, 'b) registered_route =
  rr_route :: "('v, 'b) engine_route"
  rr_pipeline :: "('v, 'b) route_handler"

type_synonym ('v, 'b) route_trie = "('v, 'b) registered_route trie"

definition composePipeline ::
  "('v, 'b) route_middleware list \<Rightarrow> ('v, 'b) route_handler \<Rightarrow> ('v, 'b) route_handler" where
  "composePipeline middleware handler = foldr (\<lambda>mw next request. mw request (\<lambda>_. next request)) middleware handler"

record ('v, 'b) radix_router =
  rt_root :: "('v, 'b) route_trie"
  rt_routeCount :: int

definition new_radix_router :: "('v, 'b) radix_router" where
  "new_radix_router = \<lparr>rt_root = new_node [] 0, rt_routeCount = 0\<rparr>"

text \<open>
  What \<open>addRoute\<close> does with the routes of the node \<open>_insert\<close> returns. The nodes \<open>_insert\<close> made stay in the
  trie when the route turns out to be registered already.
\<close>

definition register ::
  "('v, 'b) engine_route \<Rightarrow> (http_method, ('v, 'b) registered_route) jmap \<Rightarrow>
     (http_method, ('v, 'b) registered_route) jmap \<times> router_error option" where
  "register route routes =
     (if jmap_has routes (er_method route) then (routes, Some (RouteConflictError (er_method route) (er_path route)))
      else
        let pipeline = composePipeline (case er_middleware route of Some ms \<Rightarrow> ms | None \<Rightarrow> []) (er_handler route)
        in (jmap_set (er_method route) \<lparr>rr_route = route, rr_pipeline = pipeline\<rparr> routes, None))"

definition at_node ::
  "((http_method, 'r) jmap \<Rightarrow> (http_method, 'r) jmap \<times> router_error option) \<Rightarrow> 'r trie \<Rightarrow>
     'r trie \<times> router_error option" where
  "at_node f n = (case f (t_routes n) of (routes, err) \<Rightarrow> (set_routes routes n, err))"

definition addRoute ::
  "('v, 'b) radix_router \<Rightarrow> ('v, 'b) engine_route \<Rightarrow> ('v, 'b) radix_router \<times> (router_error + unit)" where
  "addRoute r route =
     (case tokenizePattern (er_path route) of
        Inl e \<Rightarrow> (r, Inl e)
      | Inr tokens \<Rightarrow>
          (case insert_at tokens (at_node (register route)) (rt_root r) of
             (root, Some e) \<Rightarrow> (r\<lparr>rt_root := root\<rparr>, Inl e)
           | (root, None) \<Rightarrow> (r\<lparr>rt_root := root, rt_routeCount := rt_routeCount r + 1\<rparr>, Inr ())))"

text \<open>Writing back along the path \<open>_locate\<close> walked, wildcard names not compared.\<close>

function update_at :: "pattern_token list \<Rightarrow> ('r trie \<Rightarrow> 'r trie) \<Rightarrow> 'r trie \<Rightarrow> 'r trie" where
  "update_at [] k node = k node"
| "update_at (Static [] # ts) k node = update_at ts k node"
| "update_at (Static (c # cs) # ts) k node =
     (case jmap_get (t_static node) c of
        None \<Rightarrow> node
      | Some child \<Rightarrow>
          (let cpl = commonPrefixLength (t_edge child) (c # cs) in
           if cpl < length (t_edge child) then node
           else set_static node c (update_at (Static (drop cpl (c # cs)) # ts) k child)))"
| "update_at (Param name # ts) k node =
     (case jmap_get (t_params node) name of None \<Rightarrow> node | Some n \<Rightarrow> set_param node name (update_at ts k n))"
| "update_at (Wildcard name # ts) k node =
     (case t_wildcard node of None \<Rightarrow> node | Some (existing, n) \<Rightarrow> set_wildcard node existing (update_at ts k n))"
  by pat_completeness auto
termination
proof (relation "measures [\<lambda>(ts, k, node). length ts, \<lambda>(ts, k, node). size node]", goal_cases)
  case (3 c cs ts k node child)
  then show ?case
    using size_lookup [of "t_static node" c child] by (cases node) auto
qed auto

definition removeRoute ::
  "('v, 'b) radix_router \<Rightarrow> http_method \<Rightarrow> jstring \<Rightarrow> ('v, 'b) radix_router \<times> (router_error + bool)" where
  "removeRoute r method pattern =
     (case tokenizePattern pattern of
        Inl e \<Rightarrow> (r, Inl e)
      | Inr tokens \<Rightarrow>
          (case locate tokens (rt_root r) of
             None \<Rightarrow> (r, Inr False)
           | Some n \<Rightarrow>
               if jmap_has (t_routes n) method
               then (r\<lparr>rt_root := update_at tokens (\<lambda>n. set_routes (jmap_delete method (t_routes n)) n) (rt_root r),
                       rt_routeCount := rt_routeCount r - 1\<rparr>, Inr True)
               else (r, Inr False)))"

section \<open>Search\<close>

definition SCORE_STATIC_CHAR :: nat where "SCORE_STATIC_CHAR = 3"
definition SCORE_PARAM :: nat where "SCORE_PARAM = 2"
definition SCORE_WILDCARD :: nat where "SCORE_WILDCARD = 1"

definition reconstructPattern :: "('v, 'b) route_trie \<Rightarrow> jstring" where
  "reconstructPattern node =
     (case jmap_values (t_routes node) of registered # _ \<Rightarrow> er_path (rr_route registered) | [] \<Rightarrow> t_edge node)"

record ('v, 'b) candidate =
  cd_node :: "('v, 'b) route_trie"
  cd_params :: "(jstring, jstring) jmap"
  cd_wildcard :: "jstring option"
  cd_score :: nat
  cd_pattern :: jstring

definition candidate_at ::
  "('v, 'b) route_trie \<Rightarrow> (jstring, jstring) jmap \<Rightarrow> jstring option \<Rightarrow> nat \<Rightarrow> ('v, 'b) candidate" where
  "candidate_at node params wildcard score =
     \<lparr>cd_node = node, cd_params = params, cd_wildcard = wildcard, cd_score = score,
      cd_pattern = reconstructPattern node\<rparr>"

definition better :: "('v, 'b) candidate option \<Rightarrow> ('v, 'b) candidate \<Rightarrow> ('v, 'b) candidate option" where
  "better best c = (case best of None \<Rightarrow> Some c | Some b \<Rightarrow> if cd_score c > cd_score b then Some c else best)"

text \<open>The wildcard branch, the same after the last character and before it.\<close>

definition visit_wildcard ::
  "jstring \<Rightarrow> ('v, 'b) route_trie \<Rightarrow> (jstring, jstring) jmap \<Rightarrow> nat \<Rightarrow> ('v, 'b) candidate option \<Rightarrow>
     ('v, 'b) candidate option" where
  "visit_wildcard rest node params score best =
     (case t_wildcard node of
        Some (_, wc) \<Rightarrow>
          if t_routes wc \<noteq> [] then better best (candidate_at wc params (Some rest) (score + SCORE_WILDCARD)) else best
      | None \<Rightarrow> best)"

lemma size_params: "(name, n) \<in> set xs \<Longrightarrow> size n < Suc (size_list (size_prod (\<lambda>_. 0) size) xs)" for n :: "'r trie"
  by (induction xs) auto

text \<open>\<open>visit\<close> with \<open>best\<close> passed along; a state's wildcard is never set before the last branch.\<close>

function visit ::
  "jstring \<Rightarrow> ('v, 'b) route_trie \<Rightarrow> (jstring, jstring) jmap \<Rightarrow> nat \<Rightarrow> ('v, 'b) candidate option \<Rightarrow>
     ('v, 'b) candidate option" where
  "visit rest node params score best =
     (case rest of
        [] \<Rightarrow>
          visit_wildcard [] node params score
            (if t_routes node \<noteq> [] then better best (candidate_at node params None score) else best)
      | c # _ \<Rightarrow>
          (let best =
             (case jmap_get (t_static node) c of
                Some child \<Rightarrow>
                  (let cpl = commonPrefixLength (t_edge child) (take (length (t_edge child)) rest) in
                   if cpl = length (t_edge child)
                   then visit (drop cpl rest) child params (score + SCORE_STATIC_CHAR * cpl) best else best)
              | None \<Rightarrow> best);
             segment = takeWhile (\<lambda>x. x \<noteq> slash) rest;
             best =
             (if segment = [] then best
              else foldl (\<lambda>best (name, n).
                       visit (drop (length segment) rest) n (jmap_set name segment params) (score + SCORE_PARAM) best)
                     best (t_params node))
           in visit_wildcard rest node params score best))"
  by pat_completeness auto
termination
proof (relation "measure (\<lambda>(rest, node, _). size node)", goal_cases)
  case (2 rest node params score best c cs child cpl)
  then show ?case
    using size_lookup [of "t_static node" c child] by (cases node) auto
next
  case (3 rest node params score best c cs best' segment best'' x name n)
  then show ?case
    using size_params [of name n "t_params node"] by (cases node) auto
qed simp

declare visit.simps [simp del]

definition findBest :: "('v, 'b) radix_router \<Rightarrow> jstring \<Rightarrow> ('v, 'b) candidate option" where
  "findBest r path = visit path (rt_root r) jmap_empty 0 None"

datatype ('v, 'b) match_result =
    Matched "('v, 'b) engine_route" nat "'v route_request"
  | NotFound
  | MethodNotAllowed "http_method list" jstring

definition match_route :: "('v, 'b) radix_router \<Rightarrow> http_method \<Rightarrow> jstring \<Rightarrow> ('v, 'b) match_result" where
  "match_route r method path =
     (case findBest r path of
        None \<Rightarrow> NotFound
      | Some best \<Rightarrow>
          (case jmap_get (t_routes (cd_node best)) method of
             None \<Rightarrow> MethodNotAllowed (jmap_keys (t_routes (cd_node best))) (cd_pattern best)
           | Some registered \<Rightarrow>
               Matched (rr_route registered) (cd_score best)
                 \<lparr>rq_method = method, rq_path = path, rq_params = cd_params best, rq_wildcard = cd_wildcard best,
                  rq_matchedPattern = er_path (rr_route registered), rq_headers = jmap_empty, rq_state = jmap_empty\<rparr>))"

fun join_comma :: "jstring list \<Rightarrow> jstring" where
  "join_comma [] = []"
| "join_comma [x] = x"
| "join_comma (x # y # xs) = x @ js '', '' @ join_comma (y # xs)"

definition dispatch ::
  "('v, 'b) radix_router \<Rightarrow> http_method \<Rightarrow> jstring \<Rightarrow> (jstring, jstring) jmap \<Rightarrow> (jstring, 'v) jmap \<Rightarrow>
     'b route_result" where
  "dispatch r method path headers state =
     (case findBest r path of
        None \<Rightarrow> \<lparr>rs_status = 404, rs_body = Some (NotFoundBody path), rs_headers = None, rs_matchedPattern = None\<rparr>
      | Some best \<Rightarrow>
          (case jmap_get (t_routes (cd_node best)) method of
             None \<Rightarrow>
               (let allowed = join_comma (map method_name (jmap_keys (t_routes (cd_node best)))) in
                \<lparr>rs_status = 405, rs_body = Some (MethodNotAllowedBody allowed),
                 rs_headers = Some (jmap_set (js ''allow'') allowed jmap_empty),
                 rs_matchedPattern = Some (cd_pattern best)\<rparr>)
           | Some registered \<Rightarrow>
               (rr_pipeline registered
                  \<lparr>rq_method = method, rq_path = path, rq_params = cd_params best, rq_wildcard = cd_wildcard best,
                   rq_matchedPattern = er_path (rr_route registered), rq_headers = headers, rq_state = state\<rparr>)
                 \<lparr>rs_matchedPattern := Some (er_path (rr_route registered))\<rparr>))"

definition allowedMethods :: "('v, 'b) radix_router \<Rightarrow> jstring \<Rightarrow> http_method list" where
  "allowedMethods r path =
     (case findBest r path of None \<Rightarrow> [] | Some best \<Rightarrow> jmap_keys (t_routes (cd_node best)))"

section \<open>Diagnostics\<close>

fun node_count :: "'r trie \<Rightarrow> nat" where
  "node_count (Node e ss ps w rs d) =
     1 + sum_list (map (\<lambda>(_, n). node_count n) ss) + sum_list (map (\<lambda>(_, n). node_count n) ps)
       + (case w of Some (_, n) \<Rightarrow> node_count n | None \<Rightarrow> 0)"

fun max_depth :: "'r trie \<Rightarrow> nat" where
  "max_depth (Node e ss ps w rs d) =
     foldl max 0
       (d # map (\<lambda>(_, n). max_depth n) ss @ map (\<lambda>(_, n). max_depth n) ps
        @ (case w of Some (_, n) \<Rightarrow> [max_depth n] | None \<Rightarrow> []))"

section \<open>The trie as a table\<close>

text \<open>A pattern as a list of symbols: its characters, parameters and wildcard, tokens forgotten.\<close>

datatype sym = Ch "16 word" | P jstring | W jstring

fun token_syms :: "pattern_token \<Rightarrow> sym list" where
  "token_syms (Static text) = map Ch text"
| "token_syms (Param name) = [P name]"
| "token_syms (Wildcard name) = [W name]"

definition syms :: "pattern_token list \<Rightarrow> sym list" where
  "syms ts = concat (map token_syms ts)"

lemma syms_simps [simp]: "syms [] = []" "syms (t # ts) = token_syms t @ syms ts"
  by (simp_all add: syms_def)

text \<open>The table a trie stands for: from patterns to the routes registered at their node.\<close>

function table :: "'r trie \<Rightarrow> sym list \<Rightarrow> (http_method, 'r) jmap" where
  "table t [] = t_routes t"
| "table t (Ch c # s) =
     (case jmap_get (t_static t) c of
        None \<Rightarrow> []
      | Some n \<Rightarrow>
          if take (length (t_edge n)) (Ch c # s) = map Ch (t_edge n) then table n (drop (length (t_edge n)) (Ch c # s))
          else [])"
| "table t (P name # s) = (case jmap_get (t_params t) name of None \<Rightarrow> [] | Some n \<Rightarrow> table n s)"
| "table t (W name # s) =
     (case t_wildcard t of None \<Rightarrow> [] | Some (m, n) \<Rightarrow> if m = name then table n s else [])"
  by pat_completeness auto
termination
proof (relation "measure (\<lambda>(t, s). size t)", goal_cases)
  case (2 t c s n)
  then show ?case
    using size_lookup [of "t_static t" c n] by (cases t) auto
next
  case (3 t name s n)
  then show ?case
    using size_lookup [of "t_params t" name n] by (cases t) auto
next
  case (4 t name s x m n)
  then show ?case by (cases t) auto
qed simp

text \<open>The table below one static edge.\<close>

definition below :: "'r trie \<Rightarrow> sym list \<Rightarrow> (http_method, 'r) jmap" where
  "below n s = (if take (length (t_edge n)) s = map Ch (t_edge n) then table n (drop (length (t_edge n)) s) else [])"

lemma table_Ch [simp]:
  "table t (Ch c # s) = (case jmap_get (t_static t) c of None \<Rightarrow> [] | Some n \<Rightarrow> below n (Ch c # s))"
  by (simp add: below_def split: option.split)

declare table.simps(2) [simp del]

lemma table_new [simp]: "table (new_node e d :: 'r trie) s = []"
  by (cases "(new_node e d :: 'r trie, s)" rule: table.cases) (auto simp: new_node_def jmap_empty_def jmap_get_def)

lemma node_updates [simp]:
  "t_edge (set_static t c n) = t_edge t" "t_static (set_static t c n) = jmap_set c n (t_static t)"
  "t_params (set_static t c n) = t_params t" "t_wildcard (set_static t c n) = t_wildcard t"
  "t_routes (set_static t c n) = t_routes t" "t_depth (set_static t c n) = t_depth t"
  "t_edge (set_param t x n) = t_edge t" "t_static (set_param t x n) = t_static t"
  "t_params (set_param t x n) = jmap_set x n (t_params t)" "t_wildcard (set_param t x n) = t_wildcard t"
  "t_routes (set_param t x n) = t_routes t"
  "t_edge (set_wildcard t x n) = t_edge t" "t_static (set_wildcard t x n) = t_static t"
  "t_params (set_wildcard t x n) = t_params t" "t_wildcard (set_wildcard t x n) = Some (x, n)"
  "t_routes (set_wildcard t x n) = t_routes t"
  "t_edge (set_routes rs t) = t_edge t" "t_static (set_routes rs t) = t_static t"
  "t_params (set_routes rs t) = t_params t" "t_wildcard (set_routes rs t) = t_wildcard t"
  "t_routes (set_routes rs t) = rs"
  "t_edge (set_edge e d t) = e" "t_static (set_edge e d t) = t_static t"
  "t_params (set_edge e d t) = t_params t" "t_wildcard (set_edge e d t) = t_wildcard t"
  "t_routes (set_edge e d t) = t_routes t"
  by (cases t; simp)+

lemma new_node_fields [simp]:
  "t_edge (new_node e d) = e" "t_static (new_node e d) = []" "t_params (new_node e d) = []"
  "t_wildcard (new_node e d) = None" "t_routes (new_node e d) = []"
  by (simp_all add: new_node_def jmap_empty_def)

lemma table_cong:
  "t_static t = t_static t' \<Longrightarrow> t_params t = t_params t' \<Longrightarrow> t_wildcard t = t_wildcard t' \<Longrightarrow> t_routes t = t_routes t' \<Longrightarrow>
     table t s = table t' s"
  by (cases "(t, s)" rule: table.cases) auto

lemma table_set_edge [simp]: "table (set_edge e d t) s = table t s"
  by (rule table_cong) simp_all

section \<open>Well-formed tries\<close>

fun wf_trie :: "'r trie \<Rightarrow> bool" where
  "wf_trie (Node e ss ps w rs d) \<longleftrightarrow>
     distinct (map fst ss) \<and> distinct (map fst ps) \<and>
     (\<forall>(c, n) \<in> set ss. t_edge n \<noteq> [] \<and> hd (t_edge n) = c \<and> wf_trie n) \<and>
     (\<forall>(name, n) \<in> set ps. wf_trie n) \<and>
     (case w of None \<Rightarrow> True | Some (name, n) \<Rightarrow> t_static n = [] \<and> t_params n = [] \<and> t_wildcard n = None)"

lemma wf_trie_iff:
  "wf_trie t \<longleftrightarrow>
     distinct (map fst (t_static t)) \<and> distinct (map fst (t_params t)) \<and>
     (\<forall>c n. jmap_get (t_static t) c = Some n \<longrightarrow> t_edge n \<noteq> [] \<and> hd (t_edge n) = c \<and> wf_trie n) \<and>
     (\<forall>name n. jmap_get (t_params t) name = Some n \<longrightarrow> wf_trie n) \<and>
     (\<forall>name n. t_wildcard t = Some (name, n) \<longrightarrow> t_static n = [] \<and> t_params n = [] \<and> t_wildcard n = None)"
  by (cases t) (auto simp: jmap_get_iff split: option.split cong: conj_cong)

lemma jmap_set_distinct: "distinct (map fst m) \<Longrightarrow> distinct (map fst (jmap_set k v m))"
  using jmap_wf_set [of m k v] by (simp add: jmap_wf_def jmap_keys_def)

lemma wf_new [simp]: "wf_trie (new_node e d)"
  by (simp add: new_node_def)

lemma wf_set_edge [simp]: "wf_trie (set_edge e d t) = wf_trie t"
  by (simp add: wf_trie_iff [of "set_edge e d t"] wf_trie_iff [of t])

lemma wf_set_routes [simp]: "wf_trie (set_routes rs t) = wf_trie t"
  by (simp add: wf_trie_iff [of "set_routes rs t"] wf_trie_iff [of t])

lemma wf_set_static:
  assumes "wf_trie t" and "wf_trie n" and "t_edge n \<noteq> []" and "hd (t_edge n) = c"
  shows "wf_trie (set_static t c n)"
  using assms(1) by (simp add: wf_trie_iff [of t] wf_trie_iff [of "set_static t c n"] jmap_set_distinct jmap_get_set assms)

lemma wf_set_param: "wf_trie t \<Longrightarrow> wf_trie n \<Longrightarrow> wf_trie (set_param t x n)"
  by (simp add: wf_trie_iff [of t] wf_trie_iff [of "set_param t x n"] jmap_set_distinct jmap_get_set)

lemma wf_set_wildcard:
  "wf_trie t \<Longrightarrow> t_static n = [] \<and> t_params n = [] \<and> t_wildcard n = None \<Longrightarrow> wf_trie (set_wildcard t x n)"
  by (simp add: wf_trie_iff [of t] wf_trie_iff [of "set_wildcard t x n"])

lemma table_set_static:
  "table (set_static t c n) s = (case s of Ch d # u \<Rightarrow> if d = c then below n s else table t s | _ \<Rightarrow> table t s)"
  by (cases "(t, s)" rule: table.cases) (auto simp: jmap_get_set)

lemma table_set_param:
  "table (set_param t x n) s = (case s of P y # u \<Rightarrow> if y = x then table n u else table t s | _ \<Rightarrow> table t s)"
  by (cases "(t, s)" rule: table.cases) (auto simp: jmap_get_set split: option.split)

lemma table_set_wildcard:
  "table (set_wildcard t x n) s = (case s of W y # u \<Rightarrow> if y = x then table n u else [] | _ \<Rightarrow> table t s)"
  by (cases "(t, s)" rule: table.cases) auto

lemma commonPrefixLength_le: "commonPrefixLength a b \<le> length a \<and> commonPrefixLength a b \<le> length b"
  by (induction a b rule: commonPrefixLength.induct) auto

lemma commonPrefixLength_take: "take (commonPrefixLength a b) a = take (commonPrefixLength a b) b"
  by (induction a b rule: commonPrefixLength.induct) auto

lemma commonPrefixLength_maximal:
  "commonPrefixLength a b < length a \<Longrightarrow> commonPrefixLength a b < length b \<Longrightarrow>
     hd (drop (commonPrefixLength a b) a) \<noteq> hd (drop (commonPrefixLength a b) b)"
  by (induction a b rule: commonPrefixLength.induct) auto

lemma commonPrefixLength_full: "commonPrefixLength a b = length a \<longleftrightarrow> take (length a) b = a"
  by (induction a b rule: commonPrefixLength.induct) auto

lemma split_syms: "s = map Ch e @ u \<longleftrightarrow> take (length e) s = map Ch e \<and> drop (length e) s = u"
  by (metis append_eq_conv_conj length_map)

section \<open>Insertion updates the table at one pattern\<close>

fun wildcard_last :: "pattern_token list \<Rightarrow> bool" where
  "wildcard_last [] = True"
| "wildcard_last (Wildcard name # ts) = (ts = [])"
| "wildcard_last (t # ts) = wildcard_last ts"

lemma table_set_routes: "table (set_routes rs n) s = (if s = [] then rs else table n s)"
  by (cases "(n, s)" rule: table.cases) auto

fun wildcard_conflict :: "router_error option \<Rightarrow> bool" where
  "wildcard_conflict (Some (WildcardNameConflict a b)) = True"
| "wildcard_conflict e = False"

text \<open>
  What an insertion does to the table: nothing when a wildcard's name conflicts, otherwise it
  applies \<open>f\<close> at one pattern and reports its error.
\<close>

definition updates ::
  "((http_method, 'r) jmap \<Rightarrow> (http_method, 'r) jmap \<times> router_error option) \<Rightarrow> sym list \<Rightarrow> 'r trie \<Rightarrow> 'r trie \<Rightarrow>
     router_error option \<Rightarrow> bool" where
  "updates f u t t' err \<longleftrightarrow>
     wf_trie t' \<and> t_edge t' = t_edge t \<and> (wildcard_conflict err \<or> err = snd (f (table t u))) \<and>
     (\<forall>s. table t' s = (if \<not> wildcard_conflict err \<and> s = u then fst (f (table t s)) else table t s))"

lemma below_syms:
  "below n s = table n u" if "s = map Ch (t_edge n) @ u"
  using that by (simp add: below_def)

lemma below_none: "\<forall>u. s \<noteq> map Ch (t_edge n) @ u \<Longrightarrow> below n s = []"
  by (auto simp: below_def split_syms)

lemma below_updates:
  assumes "updates f u n n' err"
  shows "below n' s = (if \<not> wildcard_conflict err \<and> s = map Ch (t_edge n) @ u then fst (f (below n s)) else below n s)"
  using assms by (auto simp: below_def updates_def split_syms)

text \<open>Replacing a static child by an updated one.\<close>

lemma updates_static:
  assumes wf: "wf_trie t" and upd: "updates f u n n' err" and e: "t_edge n \<noteq> []" "hd (t_edge n) = c"
    and old: "\<And>s. (case jmap_get (t_static t) c of None \<Rightarrow> [] | Some m \<Rightarrow> below m (Ch c # s)) = below n (Ch c # s)"
  shows "updates f (map Ch (t_edge n) @ u) t (set_static t c n') err"
proof -
  have "wf_trie (set_static t c n')"
    using upd e by (intro wf_set_static [OF wf]) (simp_all add: updates_def)
  moreover have "table (set_static t c n') s =
      (if \<not> wildcard_conflict err \<and> s = map Ch (t_edge n) @ u then fst (f (table t s)) else table t s)" for s
  proof (cases "\<exists>v. s = Ch c # v")
    case True
    then obtain v where s: "s = Ch c # v" by blast
    have 1: "table (set_static t c n') s = below n' s"
      by (simp add: s table_set_static)
    have 2: "table t s = below n s"
      using old [of v] by (simp add: s)
    show ?thesis
      unfolding 1 2 by (rule below_updates [OF upd])
  next
    case False
    moreover have "\<exists>v. map Ch (t_edge n) @ u = Ch c # v"
      using e by (cases "t_edge n") auto
    ultimately show ?thesis
      by (auto simp: table_set_static split: list.split sym.split)
  qed
  moreover have "table t (map Ch (t_edge n) @ u) = table n u"
  proof -
    obtain v where v: "map Ch (t_edge n) @ u = Ch c # v"
      using e by (cases "t_edge n") auto
    have "table t (map Ch (t_edge n) @ u) = below n (map Ch (t_edge n) @ u)"
      using old [of v] by (simp add: v)
    then show ?thesis
      using below_syms [of "map Ch (t_edge n) @ u" n u] by simp
  qed
  ultimately show ?thesis
    using upd by (simp add: updates_def)
qed

lemma table_split:
  assumes "cpl < length (t_edge child)"
  shows "table (split_at child cpl d) s = below (set_edge (drop cpl (t_edge child)) d' child) s"
proof -
  let ?q = "drop cpl (t_edge child)"
  obtain x q where q: "?q = x # q"
    using assms by (cases ?q) auto
  have below': "below (set_edge ?q i child) s = below (set_edge ?q d' child) s" for i
    by (simp add: below_def)
  show ?thesis
  proof (cases "\<exists>v. s = Ch x # v")
    case True
    then show ?thesis
      using below' by (auto simp: split_at_def Let_def q table_set_static)
  next
    case False
    then have "below (set_edge ?q d' child) s = []"
      by (intro below_none) (auto simp: q)
    then show ?thesis
      using False by (auto simp: split_at_def Let_def q table_set_static split: list.split sym.split)
  qed
qed

lemma below_split:
  assumes "cpl < length (t_edge child)"
  shows "below (split_at child cpl d) s = below child s"
proof -
  let ?p = "take cpl (t_edge child)" and ?q = "drop cpl (t_edge child)"
  have e: "t_edge (split_at child cpl d) = ?p"
    by (simp add: split_at_def Let_def)
  have pq: "map Ch (t_edge child) = map Ch ?p @ map Ch ?q"
    by (simp only: map_append [symmetric] append_take_drop_id)
  have split: "below (split_at child cpl d) (map Ch ?p @ v) = below (set_edge ?q 0 child) v" for v
    using below_syms [of "map Ch ?p @ v" "split_at child cpl d" v] table_split [OF assms, of d v 0] by (simp add: e)
  show ?thesis
  proof (cases "\<exists>u. s = map Ch (t_edge child) @ u")
    case True
    then obtain u where s: "s = map Ch (t_edge child) @ u" by blast
    have "below (set_edge ?q 0 child) (map Ch ?q @ u) = table child u"
      using below_syms [of "map Ch ?q @ u" "set_edge ?q 0 child" u] by simp
    then show ?thesis
      using split [of "map Ch ?q @ u"] below_syms [OF s] by (simp add: s pq)
  next
    case False
    then have none: "below child s = []"
      by (intro below_none) blast
    show ?thesis
    proof (cases "\<exists>v. s = map Ch ?p @ v")
      case True
      then obtain v where s: "s = map Ch ?p @ v" by blast
      have "below (set_edge ?q 0 child) v = []"
        using False by (intro below_none) (auto simp: s pq)
      then show ?thesis
        using split [of v] none s by simp
    next
      case False
      then show ?thesis
        using below_none [of s "split_at child cpl d"] none by (simp add: e)
    qed
  qed
qed

lemma below_new [simp]: "below (new_node e d :: 'r trie) s = []"
  by (simp add: below_def)

lemma wf_split:
  assumes "wf_trie child" and "cpl < length (t_edge child)"
  shows "wf_trie (split_at child cpl d)"
  using assms by (simp add: split_at_def Let_def wf_set_static)

lemma split_static:
  "jmap_get (t_static (split_at child cpl d)) c =
     (if c = hd (drop cpl (t_edge child)) then Some (set_edge (drop cpl (t_edge child)) (d + 2) child) else None)"
  by (simp add: split_at_def Let_def jmap_get_set new_node_def) (simp add: jmap_get_def)

lemma commonPrefixLength_pos: "e \<noteq> [] \<Longrightarrow> hd e = c \<Longrightarrow> 0 < commonPrefixLength e (c # cs)"
  by (cases e) auto

lemma updates_param:
  assumes "wf_trie t" and "updates f u n n' err"
    and "\<And>s. (case jmap_get (t_params t) name of None \<Rightarrow> [] | Some m \<Rightarrow> table m s) = table n s"
  shows "updates f (P name # u) t (set_param t name n') err"
proof -
  have "table (set_param t name n') s =
      (if \<not> wildcard_conflict err \<and> s = P name # u then fst (f (table t s)) else table t s)" for s
  proof (cases "\<exists>v. s = P name # v")
    case True
    then obtain v where s: "s = P name # v" by blast
    have 1: "table (set_param t name n') s = table n' v"
      by (simp add: s table_set_param)
    have 2: "table t s = table n v"
      using assms(3) [of v] by (simp add: s)
    show ?thesis
      unfolding 1 2 using assms(2) by (simp add: updates_def s)
  next
    case False
    then show ?thesis
      by (auto simp: table_set_param split: list.split sym.split)
  qed
  moreover have "table t (P name # u) = table n u"
    using assms(3) [of u] by simp
  ultimately show ?thesis
    using assms(1,2) by (simp add: updates_def wf_set_param)
qed

lemma updates_wildcard:
  assumes "wf_trie t" and "\<And>m n0. t_wildcard t = Some (m, n0) \<Longrightarrow> m = name"
    and leaf: "t_static n = [] \<and> t_params n = [] \<and> t_wildcard n = None"
    and "\<And>s. (case t_wildcard t of None \<Rightarrow> [] | Some (m, n0) \<Rightarrow> table n0 s) = table n s"
    and f: "f (t_routes n) = (rs, err)" "\<not> wildcard_conflict err"
  shows "updates f [W name] t (set_wildcard t name (set_routes rs n)) err"
proof -
  have "table t [W name] = t_routes n"
    using assms(2) assms(4) [of "[]"] by (auto split: option.splits)
  moreover have "table (set_wildcard t name (set_routes rs n)) s = (if s = [W name] then fst (f (table t s)) else table t s)" for s
  proof (cases "\<exists>y v. s = W y # v")
    case True
    then obtain y v where s: "s = W y # v" by blast
    show ?thesis
      using assms(2) assms(4) [of v] f by (auto simp: s table_set_wildcard table_set_routes split: option.splits)
  next
    case False
    then show ?thesis
      by (auto simp: table_set_wildcard split: list.split sym.split)
  qed
  ultimately show ?thesis
    using assms(1) leaf f by (simp add: updates_def wf_set_wildcard)
qed

lemma updates_nothing: "wf_trie t \<Longrightarrow> wildcard_conflict err \<Longrightarrow> updates f u t t err"
  by (simp add: updates_def)

lemma insert_updates:
  "wf_trie t \<Longrightarrow> wildcard_last ts \<Longrightarrow> k = at_node f \<Longrightarrow> (\<And>rs. \<not> wildcard_conflict (snd (f rs))) \<Longrightarrow>
     updates f (syms ts) t (fst (insert_at ts k t)) (snd (insert_at ts k t))"
proof (induction ts k t rule: insert_at.induct)
  case (1 k node)
  have "\<not> wildcard_conflict (snd (f (t_routes node)))"
    by (rule "1.prems")
  then show ?case
    using "1.prems"(1,3) by (cases "f (t_routes node)") (simp add: updates_def table_set_routes at_node_def)
next
  case (2 ts k node)
  then show ?case by simp
next
  case (3 c cs ts k node)
  have last: "wildcard_last ts" "k = at_node f" "\<And>rs. \<not> wildcard_conflict (snd (f rs))"
    using "3.prems"(2-4) by simp_all
  show ?case
  proof (cases "jmap_get (t_static node) c")
    case None
    let ?new = "new_node (c # cs) (t_depth node + 1)"
    obtain leaf err where l: "insert_at ts k ?new = (leaf, err)"
      by (cases "insert_at ts k ?new")
    have "updates f (syms ts) ?new leaf err"
      using "3.IH"(1) [OF None] last l by simp
    from updates_static [OF "3.prems"(1) this, of c] None show ?thesis
      using l by simp
  next
    case (Some child)
    have child: "wf_trie child" "t_edge child \<noteq> []" "hd (t_edge child) = c"
      using "3.prems"(1) Some by (simp_all add: wf_trie_iff [of node])
    define cpl where "cpl = commonPrefixLength (t_edge child) (c # cs)"
    have old: "(case jmap_get (t_static node) c of None \<Rightarrow> [] | Some m \<Rightarrow> below m (Ch c # s)) = below child (Ch c # s)" for s
      by (simp add: Some)
    show ?thesis
    proof (cases "cpl = length (t_edge child)")
      case True
      obtain child' err where d: "insert_at (Static (drop cpl (c # cs)) # ts) k child = (child', err)"
        by (cases "insert_at (Static (drop cpl (c # cs)) # ts) k child")
      have upd: "updates f (map Ch (drop cpl (c # cs)) @ syms ts) child child' err"
        using "3.IH"(2) [OF Some cpl_def True child(1)] last d by simp
      have "t_edge child @ drop cpl (c # cs) = c # cs"
        using True commonPrefixLength_full [of "t_edge child" "c # cs"] cpl_def by (metis append_take_drop_id)
      then have edge: "map Ch (t_edge child) @ map Ch (drop cpl (c # cs)) @ syms ts = map Ch (c # cs) @ syms ts"
        by (metis append_assoc map_append)
      from updates_static [OF "3.prems"(1) upd child(2,3) old]
      have "updates f (map Ch (c # cs) @ syms ts) node (set_static node c child') err"
        unfolding edge .
      then show ?thesis
        using Some True d by (simp add: cpl_def)
    next
      case False
      then have less: "cpl < length (t_edge child)"
        using commonPrefixLength_le [of "t_edge child" "c # cs"] cpl_def by simp
      let ?S = "split_at child cpl (t_depth node)"
      have S: "wf_trie ?S" "t_edge ?S = take cpl (t_edge child)"
        using wf_split [OF child(1) less] by (simp_all add: split_at_def Let_def)
      have pos: "0 < cpl"
        using commonPrefixLength_pos [OF child(2,3)] cpl_def by simp
      have edge: "t_edge ?S \<noteq> []" "hd (t_edge ?S) = c" "t_edge ?S = take cpl (c # cs)"
        using S(2) pos child(2,3) commonPrefixLength_take [of "t_edge child" "c # cs"] cpl_def
        by (cases "t_edge child"; cases cpl; simp)+
      have oldS: "(case jmap_get (t_static node) c of None \<Rightarrow> [] | Some m \<Rightarrow> below m (Ch c # s)) = below ?S (Ch c # s)" for s
        by (simp add: Some below_split [OF less])
      show ?thesis
      proof (cases "cpl < length (c # cs)")
        case True
        define tail where "tail = drop cpl (c # cs)"
        have tail: "tail \<noteq> []" "hd tail \<noteq> hd (drop cpl (t_edge child))"
          using True commonPrefixLength_maximal [of "t_edge child" "c # cs"] less cpl_def by (simp_all add: tail_def)
        let ?new = "new_node tail (t_depth ?S + 1)"
        obtain leaf err where l: "insert_at ts k ?new = (leaf, err)"
          by (cases "insert_at ts k ?new")
        have "updates f (syms ts) ?new leaf err"
          using "3.IH"(3) [OF Some cpl_def False refl True tail_def] last l by simp
        from updates_static [OF S(1) this, of "hd tail"] tail
        have "updates f (map Ch tail @ syms ts) ?S (set_static ?S (hd tail) leaf) err"
          by (simp add: split_static)
        from updates_static [OF "3.prems"(1) this edge(1,2) oldS]
        have "updates f (map Ch (c # cs) @ syms ts) node (set_static node c (set_static ?S (hd tail) leaf)) err"
          by (simp only: edge(3) tail_def append_assoc [symmetric] map_append [symmetric] append_take_drop_id)
        then show ?thesis
          using Some False True l by (simp add: Let_def tail_def flip: cpl_def)
      next
        case no: False
        obtain S' err where l: "insert_at ts k ?S = (S', err)"
          by (cases "insert_at ts k ?S")
        have "updates f (syms ts) ?S S' err"
          using "3.IH"(4) [OF Some cpl_def False refl no S(1)] last l by simp
        from updates_static [OF "3.prems"(1) this edge(1,2) oldS]
        have "updates f (map Ch (c # cs) @ syms ts) node (set_static node c S') err"
          using no edge(3) by simp
        then show ?thesis
          using Some False no l by (simp add: Let_def flip: cpl_def)
      qed
    qed
  qed
next
  case (4 name ts k node)
  let ?child = "case jmap_get (t_params node) name of Some n \<Rightarrow> n | None \<Rightarrow> new_node (colon # name) (t_depth node + 1)"
  obtain child' err where d: "insert_at ts k ?child = (child', err)"
    by (cases "insert_at ts k ?child")
  have "wf_trie ?child"
    using "4.prems"(1) by (auto simp: wf_trie_iff [of node] split: option.split)
  then have "updates f (syms ts) ?child child' err"
    using "4.IH" [OF refl] "4.prems"(2-4) d by simp
  from updates_param [OF "4.prems"(1) this] have "updates f (P name # syms ts) node (set_param node name child') err"
    by (simp split: option.split)
  then show ?case
    using d by (simp add: Let_def)
next
  case (5 name ts k node)
  then have ts: "ts = []" "k = at_node f" by simp_all
  show ?case
  proof (cases "t_wildcard node")
    case None
    let ?n = "new_node [star] (t_depth node + 1)"
    obtain rs err where f: "f (t_routes ?n) = (rs, err)"
      by (cases "f (t_routes ?n)")
    show ?thesis
      using updates_wildcard [OF "5.prems"(1), of name ?n f rs err] "5.prems"(4) [of "t_routes ?n"] f ts None
      by (simp add: at_node_def)
  next
    case (Some w)
    then obtain m n where w: "t_wildcard node = Some (m, n)"
      by (cases w) auto
    obtain rs err where f: "f (t_routes n) = (rs, err)"
      by (cases "f (t_routes n)")
    have "t_static n = [] \<and> t_params n = [] \<and> t_wildcard n = None"
      using "5.prems"(1) w by (simp add: wf_trie_iff [of node])
    then show ?thesis
      using updates_wildcard [OF "5.prems"(1), of name n f rs err] "5.prems"(4) [of "t_routes n"]
        updates_nothing [OF "5.prems"(1)] f ts w
      by (cases "m = name") (simp_all add: at_node_def)
  qed
qed

section \<open>Removal updates the table at one pattern, up to the wildcard's name\<close>

fun rename_wildcard :: "jstring \<Rightarrow> pattern_token \<Rightarrow> pattern_token" where
  "rename_wildcard w (Wildcard name) = Wildcard w"
| "rename_wildcard w t = t"

lemma update_updates:
  "wf_trie t \<Longrightarrow> wildcard_last ts \<Longrightarrow> locate ts t = Some n \<Longrightarrow>
     \<exists>w. table t (syms (map (rename_wildcard w) ts)) = t_routes n \<and>
       updates (\<lambda>rs. (f rs, None)) (syms (map (rename_wildcard w) ts)) t
         (update_at ts (\<lambda>m. set_routes (f (t_routes m)) m) t) None"
proof (induction ts t rule: locate.induct)
  case (1 node)
  then show ?case
    by (simp add: updates_def table_set_routes)
next
  case (2 ts node)
  then show ?case by simp
next
  case (3 c cs ts node)
  then obtain child where child: "jmap_get (t_static node) c = Some child"
    by (auto split: option.splits)
  define cpl where "cpl = commonPrefixLength (t_edge child) (c # cs)"
  have wf: "wf_trie child" "t_edge child \<noteq> []" "hd (t_edge child) = c"
    using "3.prems"(1) child by (simp_all add: wf_trie_iff [of node])
  have full: "cpl = length (t_edge child)" and loc: "locate (Static (drop cpl (c # cs)) # ts) child = Some n"
    using "3.prems"(3) child commonPrefixLength_le [of "t_edge child" "c # cs"]
    by (auto simp: cpl_def Let_def split: if_splits)
  have old: "(case jmap_get (t_static node) c of None \<Rightarrow> [] | Some m \<Rightarrow> below m (Ch c # s)) = below child (Ch c # s)" for s
    by (simp add: child)
  have edge: "map Ch (t_edge child) @ map Ch (drop cpl (c # cs)) = map Ch (c # cs)"
    using full commonPrefixLength_full [of "t_edge child" "c # cs"] cpl_def
    by (metis append_take_drop_id map_append)
  let ?k = "\<lambda>m. set_routes (f (t_routes m)) m"
  let ?child' = "update_at (Static (drop cpl (c # cs)) # ts) ?k child"
  obtain w where w: "table child (map Ch (drop cpl (c # cs)) @ syms (map (rename_wildcard w) ts)) = t_routes n"
      "updates (\<lambda>rs. (f rs, None)) (map Ch (drop cpl (c # cs)) @ syms (map (rename_wildcard w) ts)) child ?child' None"
    using "3.IH" [OF child cpl_def _ wf(1) _ loc] "3.prems"(2) full by auto
  have upd: "updates (\<lambda>rs. (f rs, None)) (map Ch (c # cs) @ syms (map (rename_wildcard w) ts)) node
      (set_static node c ?child') None"
    using updates_static [OF "3.prems"(1) w(2) wf(2,3) old] unfolding append_assoc [symmetric] edge .
  have "table node (map Ch (c # cs) @ syms (map (rename_wildcard w) ts)) = t_routes n"
    using below_syms [OF refl, of child "map Ch (drop cpl (c # cs)) @ syms (map (rename_wildcard w) ts)"]
    unfolding append_assoc [symmetric] edge by (simp add: child w(1))
  with upd show ?case
    using child full by (auto simp: cpl_def intro!: exI [of _ w])
next
  case (4 name ts node)
  then obtain child where child: "jmap_get (t_params node) name = Some child" "locate ts child = Some n"
    by (auto split: option.splits)
  have "wf_trie child"
    using "4.prems"(1) child by (simp add: wf_trie_iff [of node])
  then obtain w where w: "table child (syms (map (rename_wildcard w) ts)) = t_routes n"
      "updates (\<lambda>rs. (f rs, None)) (syms (map (rename_wildcard w) ts)) child
         (update_at ts (\<lambda>m. set_routes (f (t_routes m)) m) child) None"
    using "4.IH" [OF child(1)] "4.prems"(2) child(2) by auto
  then show ?case
    using updates_param [OF "4.prems"(1) w(2), of name] child by (auto intro!: exI [of _ w])
next
  case (5 name ts node)
  then have ts: "ts = []" by simp
  from "5.prems"(3) obtain m where m: "t_wildcard node = Some (m, n)"
    by (auto simp: ts split: option.splits)
  have "t_static n = [] \<and> t_params n = [] \<and> t_wildcard n = None"
    using "5.prems"(1) m by (simp add: wf_trie_iff [of node])
  then have "updates (\<lambda>rs. (f rs, None)) [W m] node (set_wildcard node m (set_routes (f (t_routes n)) n)) None"
    using m by (intro updates_wildcard [OF "5.prems"(1)]) simp_all
  then show ?case
    using m ts by (auto intro!: exI [of _ m])
qed

fun starts_static :: "pattern_token list \<Rightarrow> bool" where
  "starts_static (Static text # ts) = True"
| "starts_static ts = False"

fun separated :: "pattern_token list \<Rightarrow> bool" where
  "separated [] = True"
| "separated (Static text # ts) \<longleftrightarrow> \<not> starts_static ts \<and> separated ts"
| "separated (t # ts) = separated ts"

lemma separated_edge:
  assumes "map Ch text @ syms ts = map Ch e @ u" and "\<not> starts_static ts"
  shows "take (length e) text = e"
proof -
  have "length e \<le> length text"
  proof (rule ccontr)
    assume "\<not> length e \<le> length text"
    then obtain c es where "drop (length text) e = c # es"
      by (cases "drop (length text) e") auto
    then have "syms ts = Ch c # map Ch es @ u"
      using arg_cong [OF assms(1), of "drop (length text)"] \<open>\<not> length e \<le> length text\<close> by (simp add: drop_map)
    then show False
      using assms(2) by (cases ts rule: starts_static.cases) auto
  qed
  then have "map Ch (take (length e) text) = map Ch e"
    using arg_cong [OF assms(1), of "take (length e)"] by (simp add: take_map)
  then show ?thesis
    by (simp add: inj_map_eq_map inj_def)
qed

lemma locate_none:
  "wf_trie t \<Longrightarrow> wildcard_last ts \<Longrightarrow> separated ts \<Longrightarrow> locate ts t = None \<Longrightarrow> table t (syms ts) = []"
proof (induction ts t rule: locate.induct)
  case (3 c cs ts node)
  show ?case
  proof (cases "jmap_get (t_static node) c")
    case (Some child)
    define cpl where "cpl = commonPrefixLength (t_edge child) (c # cs)"
    have wf: "wf_trie child"
      using "3.prems"(1) Some by (simp add: wf_trie_iff [of node])
    show ?thesis
    proof (cases "cpl < length (t_edge child)")
      case True
      then have "\<not> (\<exists>u. map Ch (c # cs) @ syms ts = map Ch (t_edge child) @ u)"
        using separated_edge [of "c # cs" ts "t_edge child"] "3.prems"(3) commonPrefixLength_full [of "t_edge child" "c # cs"]
        by (auto simp: cpl_def)
      then show ?thesis
        using Some below_none [of "map Ch (c # cs) @ syms ts" child] by auto
    next
      case False
      have edge: "map Ch (t_edge child) @ map Ch (drop cpl (c # cs)) = map Ch (c # cs)"
        using False commonPrefixLength_le [of "t_edge child" "c # cs"] commonPrefixLength_full [of "t_edge child" "c # cs"] cpl_def
        by (metis append_take_drop_id map_append linorder_less_linear not_less)
      have "table child (map Ch (drop cpl (c # cs)) @ syms ts) = []"
        using "3.IH" [OF Some cpl_def False wf] "3.prems"(2-4) Some False by (simp add: cpl_def)
      then show ?thesis
        using below_syms [OF refl, of child "map Ch (drop cpl (c # cs)) @ syms ts"]
        unfolding append_assoc [symmetric] edge by (simp add: Some)
    qed
  qed simp
next
  case (4 name ts node)
  then show ?case
    by (auto simp: wf_trie_iff [of node] split: option.splits)
next
  case (5 name ts node)
  then show ?case
    by (simp split: option.splits) auto
qed simp_all

section \<open>The router as a registry\<close>

lemma starts_static_flush: "acc \<noteq> [] \<Longrightarrow> starts_static (flush_static acc @ ts)"
  by (simp add: flush_static_def)

lemma tokenize_loop_wf:
  "tokenize_loop pattern i acc rest = Inr ts \<Longrightarrow> wildcard_last ts \<and> separated ts"
proof (induction pattern i acc rest arbitrary: ts rule: tokenize_loop.induct)
  case (1 pattern i acc)
  then show ?case by (auto simp: flush_static_def)
next
  case (2 pattern i acc ch rest)
  then show ?case
    by (auto simp: flush_static_def Let_def split: if_splits sum.splits)
qed

lemma tokenizePattern_wf: "tokenizePattern pattern = Inr ts \<Longrightarrow> wildcard_last ts \<and> separated ts"
  using tokenize_loop_wf by (auto simp: tokenizePattern_def split: if_splits)

lemma register_no_wildcard: "\<not> wildcard_conflict (snd (register route rs))"
  by (simp add: register_def Let_def)

text \<open>The key of a route: its pattern's symbols and its method; no key for a pattern that does not parse.\<close>

definition pattern_syms :: "jstring \<Rightarrow> sym list option" where
  "pattern_syms pattern = (case tokenizePattern pattern of Inl e \<Rightarrow> None | Inr ts \<Rightarrow> Some (syms ts))"

definition route_key :: "('v, 'b) engine_route \<Rightarrow> sym list option \<times> http_method" where
  "route_key route = (pattern_syms (er_path route), er_method route)"

fun registered :: "('v, 'b) radix_router \<Rightarrow> sym list option \<times> http_method \<Rightarrow> ('v, 'b) registered_route option" where
  "registered r (None, m) = None"
| "registered r (Some s, m) = jmap_get (table (rt_root r) s) m"

definition registered_route :: "('v, 'b) radix_router \<Rightarrow> sym list option \<times> http_method \<Rightarrow> ('v, 'b) engine_route option" where
  "registered_route r k = map_option rr_route (registered r k)"

definition pipeline_of :: "('v, 'b) engine_route \<Rightarrow> ('v, 'b) route_handler" where
  "pipeline_of route = composePipeline (case er_middleware route of Some ms \<Rightarrow> ms | None \<Rightarrow> []) (er_handler route)"

definition router_inv :: "('v, 'b) radix_router \<Rightarrow> bool" where
  "router_inv r \<longleftrightarrow>
     wf_trie (rt_root r) \<and> (\<forall>s. jmap_wf (table (rt_root r) s)) \<and>
     finite (dom (registered r)) \<and> rt_routeCount r = int (card (dom (registered r))) \<and>
     (\<forall>s m reg. registered r (Some s, m) = Some reg \<longrightarrow>
        er_method (rr_route reg) = m \<and> rr_pipeline reg = pipeline_of (rr_route reg) \<and>
        pattern_syms (er_path (rr_route reg)) = Some s)"

lemma registered_cong: "(\<And>s. table (rt_root r) s = table (rt_root r') s) \<Longrightarrow> registered r = registered r'"
proof
  show "(\<And>s. table (rt_root r) s = table (rt_root r') s) \<Longrightarrow> registered r k = registered r' k" for k
    by (cases "(r, k)" rule: registered.cases) simp_all
qed

lemma router_inv_new [simp]: "router_inv (new_radix_router :: ('v, 'b) radix_router)"
proof -
  have "registered (new_radix_router :: ('v, 'b) radix_router) k = None" for k
    by (cases "(new_radix_router :: ('v, 'b) radix_router, k)" rule: registered.cases)
      (simp_all add: new_radix_router_def jmap_get_def)
  then have "registered (new_radix_router :: ('v, 'b) radix_router) = (\<lambda>_. None)"
    by blast
  then show ?thesis
    by (simp add: router_inv_def del: registered.simps) (simp add: new_radix_router_def jmap_wf_def jmap_keys_def)
qed

text \<open>The outcomes of \<open>addRoute\<close>.\<close>

lemma addRoute_outcome:
  assumes inv: "router_inv r" and add: "addRoute r route = (r', res)"
  shows "(case res of
      Inl e \<Rightarrow> registered r' = registered r \<and> rt_routeCount r' = rt_routeCount r \<and> wf_trie (rt_root r')
        \<and> (\<forall>s. table (rt_root r') s = table (rt_root r) s)
    | Inr _ \<Rightarrow> (\<exists>s. pattern_syms (er_path route) = Some s \<and> wf_trie (rt_root r') \<and>
        rt_routeCount r' = rt_routeCount r + 1 \<and> \<not> jmap_has (table (rt_root r) s) (er_method route) \<and>
        (\<forall>u. table (rt_root r') u =
           (if u = s then jmap_set (er_method route) \<lparr>rr_route = route, rr_pipeline = pipeline_of route\<rparr> (table (rt_root r) u)
            else table (rt_root r) u))))"
proof (cases "tokenizePattern (er_path route)")
  case (Inl e)
  then show ?thesis
    using inv add by (auto simp: addRoute_def router_inv_def)
next
  case (Inr ts)
  have wf: "wildcard_last ts" "wf_trie (rt_root r)"
    using tokenizePattern_wf [OF Inr] inv by (simp_all add: router_inv_def)
  obtain root err where ins: "insert_at ts (at_node (register route)) (rt_root r) = (root, err)"
    by (cases "insert_at ts (at_node (register route)) (rt_root r)")
  have upd: "updates (register route) (syms ts) (rt_root r) root err"
    using insert_updates [OF wf(2,1) refl, of "register route"] by (simp add: ins register_no_wildcard)
  show ?thesis
  proof (cases err)
    case None
    then have "\<not> jmap_has (table (rt_root r) (syms ts)) (er_method route)"
      using upd by (auto simp: updates_def register_def split: if_splits)
    then show ?thesis
      using add upd None by (auto simp: addRoute_def Inr ins pattern_syms_def updates_def register_def pipeline_of_def)
  next
    case (Some e)
    then have same: "table root s = table (rt_root r) s" for s
      using upd by (auto simp: updates_def register_def Let_def split: if_splits)
    have r': "r' = r\<lparr>rt_root := root\<rparr>" "res = Inl e"
      using add Some by (auto simp: addRoute_def Inr ins)
    have "registered r' = registered r"
      by (rule registered_cong) (simp add: r' same)
    then show ?thesis
      using upd by (simp add: r' same updates_def)
  qed
qed

lemma registered_update:
  assumes "\<And>u. table (rt_root r') u = (if u = s then jmap_set m reg (table (rt_root r) u) else table (rt_root r) u)"
  shows "registered r' = (registered r)((Some s, m) \<mapsto> reg)"
proof
  show "registered r' k = ((registered r)((Some s, m) \<mapsto> reg)) k" for k
    by (cases "(r, k)" rule: registered.cases) (auto simp: assms jmap_get_set)
qed

lemma addRoute_registered:
  assumes inv: "router_inv r" and add: "addRoute r route = (r', res)"
  shows "router_inv r' \<and>
     (case res of
        Inl e \<Rightarrow> registered r' = registered r
      | Inr _ \<Rightarrow> fst (route_key route) \<noteq> None \<and> registered r (route_key route) = None \<and>
          registered r' = (registered r)(route_key route \<mapsto> \<lparr>rr_route = route, rr_pipeline = pipeline_of route\<rparr>))"
proof (cases res)
  case (Inl e)
  then show ?thesis
    using addRoute_outcome [OF assms] inv by (simp add: router_inv_def del: registered.simps)
next
  case (Inr u)
  from addRoute_outcome [OF assms] obtain s where s: "pattern_syms (er_path route) = Some s" "wf_trie (rt_root r')"
    "rt_routeCount r' = rt_routeCount r + 1" "\<not> jmap_has (table (rt_root r) s) (er_method route)"
    and tab: "\<And>u. table (rt_root r') u =
        (if u = s then jmap_set (er_method route) \<lparr>rr_route = route, rr_pipeline = pipeline_of route\<rparr> (table (rt_root r) u)
         else table (rt_root r) u)"
    by (auto simp: Inr)
  have new: "registered r (Some s, er_method route) = None"
    using s(4) by (simp add: jmap_has_def)
  have reg: "registered r' = (registered r)((Some s, er_method route) \<mapsto> \<lparr>rr_route = route, rr_pipeline = pipeline_of route\<rparr>)"
    by (rule registered_update) (rule tab)
  have "(Some s, er_method route) \<notin> dom (registered r)" and fin: "finite (dom (registered r))"
    using new inv by (simp_all add: domIff router_inv_def del: registered.simps)
  then have "rt_routeCount r' = int (card (dom (registered r')))"
    using inv s(3) by (simp add: reg router_inv_def)
  moreover have "\<forall>s. jmap_wf (table (rt_root r') s)"
    using inv by (simp add: tab router_inv_def)
  ultimately have "router_inv r'"
    using inv s(1,2) fin unfolding router_inv_def reg by (simp del: registered.simps)
  then show ?thesis
    using new reg s(1) by (simp add: Inr route_key_def del: registered.simps)
qed

interpretation radix: registry router_inv registered_route route_key "\<lambda>r route. fst (addRoute r route)"
proof
  fix r :: "('v, 'b) radix_router" and route
  assume inv: "router_inv r"
  obtain r' res where add: "addRoute r route = (r', res)"
    by (cases "addRoute r route")
  note out = addRoute_registered [OF inv add]
  show "router_inv (fst (addRoute r route))"
    using out by (simp add: add)
  show "registered_route (fst (addRoute r route)) = registered_route r \<or>
      registered_route r (route_key route) = None \<and>
      registered_route (fst (addRoute r route)) = (registered_route r)(route_key route \<mapsto> route)"
    using out by (cases res) (auto simp: add registered_route_def [abs_def] fun_eq_iff)
qed

section \<open>Removal\<close>

lemma registered_delete:
  assumes "\<And>u. table (rt_root r') u = (if u = s then jmap_delete m (table (rt_root r) u) else table (rt_root r) u)"
  shows "registered r' = (registered r)((Some s, m) := None)"
proof
  show "registered r' k = ((registered r)((Some s, m) := None)) k" for k
    by (cases "(r, k)" rule: registered.cases) (auto simp: assms jmap_get_delete)
qed

definition has_wildcard :: "pattern_token list \<Rightarrow> bool" where
  "has_wildcard ts \<longleftrightarrow> (\<exists>name. Wildcard name \<in> set ts)"

lemma rename_no_wildcard: "\<not> has_wildcard ts \<Longrightarrow> map (rename_wildcard w) ts = ts"
  by (intro map_idI) (metis has_wildcard_def pattern_token.exhaust rename_wildcard.simps(2,3))

text \<open>
  Removing deletes the registration under the pattern, with the wildcard's name replaced by the
  one the trie has.
\<close>

lemma removeRoute_outcome:
  assumes inv: "router_inv r" and ts: "tokenizePattern pattern = Inr ts" and rem: "removeRoute r method pattern = (r', res)"
  shows "router_inv r' \<and>
     (res = Inr False \<and> registered r' = registered r \<and> (has_wildcard ts \<or> registered r (Some (syms ts), method) = None) \<or>
      res = Inr True \<and> (\<exists>w. registered r (Some (syms (map (rename_wildcard w) ts)), method) \<noteq> None \<and>
         registered r' = (registered r)((Some (syms (map (rename_wildcard w) ts)), method) := None)))"
proof -
  have wf: "wildcard_last ts" "separated ts" "wf_trie (rt_root r)"
    using tokenizePattern_wf [OF ts] inv by (simp_all add: router_inv_def)
  show ?thesis
  proof (cases "locate ts (rt_root r)")
    case None
    have "registered r (Some (syms ts), method) = None"
      using locate_none [OF wf(3,1,2) None] by (simp add: jmap_get_def)
    then show ?thesis
      using None rem inv by (auto simp: removeRoute_def ts simp del: registered.simps)
  next
    case (Some n)
    obtain w where n: "table (rt_root r) (syms (map (rename_wildcard w) ts)) = t_routes n"
      and upd: "updates (\<lambda>rs. (jmap_delete method rs, None)) (syms (map (rename_wildcard w) ts)) (rt_root r)
         (update_at ts (\<lambda>m. set_routes (jmap_delete method (t_routes m)) m) (rt_root r)) None"
      using update_updates [OF wf(3,1) Some] by blast
    let ?s = "syms (map (rename_wildcard w) ts)"
    show ?thesis
    proof (cases "jmap_has (t_routes n) method")
      case False
      have "has_wildcard ts \<or> registered r (Some (syms ts), method) = None"
        using n False rename_no_wildcard [of ts w] by (cases "has_wildcard ts") (simp_all add: jmap_has_def)
      then show ?thesis
        using Some False rem inv by (auto simp: removeRoute_def ts simp del: registered.simps)
    next
      case True
      have r': "rt_root r' = update_at ts (\<lambda>m. set_routes (jmap_delete method (t_routes m)) m) (rt_root r)"
          "rt_routeCount r' = rt_routeCount r - 1" "res = Inr True"
        using Some True rem by (auto simp: removeRoute_def ts)
      have tab: "table (rt_root r') u = (if u = ?s then jmap_delete method (table (rt_root r) u) else table (rt_root r) u)" for u
        using upd by (simp add: r' updates_def)
      have reg: "registered r' = (registered r)((Some ?s, method) := None)"
        by (rule registered_delete) (rule tab)
      have some: "registered r (Some ?s, method) \<noteq> None"
        using True n by (simp add: jmap_has_def)
      then have mem: "(Some ?s, method) \<in> dom (registered r)" and fin: "finite (dom (registered r))"
        using inv by (auto simp: router_inv_def simp del: registered.simps)
      have "rt_routeCount r' = int (card (dom (registered r')))"
        using inv r'(2) card_Suc_Diff1 [OF fin mem]
        by (simp add: reg router_inv_def del: registered.simps card_Diff_insert)
      moreover have "\<forall>s. jmap_wf (table (rt_root r') s)"
        using inv by (simp add: tab router_inv_def)
      moreover have "wf_trie (rt_root r')"
        using upd by (simp add: r' updates_def)
      ultimately have "router_inv r'"
        using inv fin unfolding router_inv_def reg by (simp del: registered.simps)
      then show ?thesis
        using some reg r'(3) by (auto simp del: registered.simps)
    qed
  qed
qed

section \<open>What a pattern matches\<close>

text \<open>
  The declarative reading of a pattern: a character takes itself (3 points), a parameter the rest of
  a non-empty segment (2 points), a wildcard all that is left (1 point).
\<close>

type_synonym binding = "(jstring, jstring) jmap \<times> jstring option \<times> nat"

fun gain :: "nat \<Rightarrow> binding option \<Rightarrow> binding option" where
  "gain k (Some (ps, wc, sc)) = Some (ps, wc, k + sc)"
| "gain k None = None"

fun pmatch :: "sym list \<Rightarrow> jstring \<Rightarrow> (jstring, jstring) jmap \<Rightarrow> binding option" where
  "pmatch [] rest ps = (if rest = [] then Some (ps, None, 0) else None)"
| "pmatch (Ch c # s) rest ps = (if rest \<noteq> [] \<and> hd rest = c then gain 3 (pmatch s (tl rest) ps) else None)"
| "pmatch (P name # s) rest ps =
     (let segment = takeWhile (\<lambda>x. x \<noteq> slash) rest in
      if segment = [] then None
      else gain 2 (pmatch s (drop (length segment) rest) (jmap_set name segment ps)))"
| "pmatch (W name # s) rest ps = (if s = [] then Some (ps, Some rest, 1) else None)"

text \<open>The routes a search below a node can end at, with what it has bound and scored by then.\<close>

definition hits ::
  "'r trie \<Rightarrow> jstring \<Rightarrow> (jstring, jstring) jmap \<Rightarrow> nat \<Rightarrow> ((http_method, 'r) jmap \<times> binding) set" where
  "hits node rest params score =
     {(table node s, ps, wc, sc) | s ps wc sc.
        table node s \<noteq> [] \<and> gain score (pmatch s rest params) = Some (ps, wc, sc)}"

text \<open>A search step that considered the hits \<open>C\<close> leaves the best of them and of what it started with.\<close>

definition candidate_hit :: "('v, 'b) candidate \<Rightarrow> (http_method, ('v, 'b) registered_route) jmap \<times> binding" where
  "candidate_hit c = (t_routes (cd_node c), cd_params c, cd_wildcard c, cd_score c)"

definition best_of ::
  "((http_method, ('v, 'b) registered_route) jmap \<times> binding) set \<Rightarrow> ('v, 'b) candidate option \<Rightarrow>
     ('v, 'b) candidate option \<Rightarrow> bool" where
  "best_of C best best' \<longleftrightarrow>
     (best' = best \<or> (\<exists>c. best' = Some c \<and> candidate_hit c \<in> C)) \<and>
     (\<forall>(rs, ps, wc, sc) \<in> C. \<exists>c. best' = Some c \<and> sc \<le> cd_score c) \<and>
     (\<forall>b. best = Some b \<longrightarrow> (\<exists>c. best' = Some c \<and> cd_score b \<le> cd_score c))"

lemma best_of_nothing: "best_of {} best best"
  by (simp add: best_of_def)

lemma best_of_one: "best_of {candidate_hit c} best (better best c)"
  by (auto simp: best_of_def better_def candidate_hit_def split: option.split)

lemma best_of_bound: "best_of C b b' \<Longrightarrow> (rs, ps, wc, sc) \<in> C \<Longrightarrow> \<exists>c. b' = Some c \<and> sc \<le> cd_score c"
  unfolding best_of_def by (drule conjunct2, drule conjunct1, drule (1) bspec) simp

lemma best_of_mono: "best_of C b b' \<Longrightarrow> b = Some x \<Longrightarrow> \<exists>c. b' = Some c \<and> cd_score x \<le> cd_score c"
  by (simp add: best_of_def)

lemma best_of_origin: "best_of C b b' \<Longrightarrow> b' = b \<or> (\<exists>c. b' = Some c \<and> candidate_hit c \<in> C)"
  by (simp add: best_of_def)

lemma best_of_union:
  assumes "best_of C b0 b1" and "best_of D b1 b2"
  shows "best_of (C \<union> D) b0 b2"
proof -
  have keep: "\<exists>c. b2 = Some c \<and> k \<le> cd_score c" if "\<exists>c. b1 = Some c \<and> k \<le> cd_score c" for k
  proof -
    from that obtain c1 where c1: "b1 = Some c1" "k \<le> cd_score c1" by blast
    with best_of_mono [OF assms(2)] show ?thesis by fastforce
  qed
  have "b2 = b0 \<or> (\<exists>c. b2 = Some c \<and> candidate_hit c \<in> C \<union> D)"
    using best_of_origin [OF assms(1)] best_of_origin [OF assms(2)] by auto
  moreover have "\<exists>c. b2 = Some c \<and> sc \<le> cd_score c" if "(rs, ps, wc, sc) \<in> C \<union> D" for rs ps wc sc
    using that keep [OF best_of_bound [OF assms(1)]] best_of_bound [OF assms(2)] by blast
  moreover have "\<exists>c. b2 = Some c \<and> cd_score b \<le> cd_score c" if "b0 = Some b" for b
    using keep [OF best_of_mono [OF assms(1) that]] .
  ultimately show ?thesis
    unfolding best_of_def by blast
qed

lemma best_of_foldl:
  assumes "\<And>x b. x \<in> set xs \<Longrightarrow> best_of (C x) b (f b x)"
  shows "best_of (\<Union>x \<in> set xs. C x) b (foldl f b xs)"
  using assms
proof (induction xs arbitrary: b)
  case Nil
  then show ?case by (simp add: best_of_nothing)
next
  case (Cons x xs)
  have "best_of (C x) b (f b x)"
    using Cons.prems by simp
  moreover have "best_of (\<Union>x \<in> set xs. C x) (f b x) (foldl f (f b x) xs)"
    using Cons.IH [of "f b x"] Cons.prems by simp
  ultimately have "best_of (C x \<union> (\<Union>x \<in> set xs. C x)) b (foldl f (f b x) xs)"
    by (rule best_of_union)
  then show ?case by simp
qed

lemma gain_gain [simp]: "gain a (gain b x) = gain (a + b) x"
  by (cases x rule: option.exhaust) auto

lemma gain_0 [simp]: "gain 0 x = x"
  by (cases x) auto

lemma pmatch_edge:
  "pmatch (map Ch e @ s) rest ps =
     (if take (length e) rest = e then gain (3 * length e) (pmatch s (drop (length e) rest) ps) else None)"
proof (induction e arbitrary: rest)
  case Nil
  then show ?case by simp
next
  case (Cons c e)
  then show ?case
    by (cases rest) (auto simp: algebra_simps)
qed

text \<open>The hits of a node by the kind of their first symbol.\<close>

definition end_hits :: "'r trie \<Rightarrow> jstring \<Rightarrow> (jstring, jstring) jmap \<Rightarrow> nat \<Rightarrow> ((http_method, 'r) jmap \<times> binding) set" where
  "end_hits node rest params score = (if rest = [] \<and> t_routes node \<noteq> [] then {(t_routes node, params, None, score)} else {})"

definition wildcard_hits :: "'r trie \<Rightarrow> jstring \<Rightarrow> (jstring, jstring) jmap \<Rightarrow> nat \<Rightarrow> ((http_method, 'r) jmap \<times> binding) set" where
  "wildcard_hits node rest params score =
     (case t_wildcard node of
        None \<Rightarrow> {}
      | Some (_, wc) \<Rightarrow> if t_routes wc \<noteq> [] then {(t_routes wc, params, Some rest, score + 1)} else {})"

definition static_hits :: "'r trie \<Rightarrow> jstring \<Rightarrow> (jstring, jstring) jmap \<Rightarrow> nat \<Rightarrow> ((http_method, 'r) jmap \<times> binding) set" where
  "static_hits node rest params score =
     (if rest = [] then {} else
      case jmap_get (t_static node) (hd rest) of
        None \<Rightarrow> {}
      | Some n \<Rightarrow>
          if take (length (t_edge n)) rest = t_edge n
          then hits n (drop (length (t_edge n)) rest) params (score + 3 * length (t_edge n)) else {})"

definition param_hits :: "'r trie \<Rightarrow> jstring \<Rightarrow> (jstring, jstring) jmap \<Rightarrow> nat \<Rightarrow> ((http_method, 'r) jmap \<times> binding) set" where
  "param_hits node rest params score =
     (let segment = takeWhile (\<lambda>x. x \<noteq> slash) rest in
      if segment = [] then {} else
      \<Union>(name, n) \<in> set (t_params node).
        hits n (drop (length segment) rest) (jmap_set name segment params) (score + 2))"

lemma hits_wildcard:
  "{(table node (W x # s), ps, wc, sc) | x s ps wc sc.
      table node (W x # s) \<noteq> [] \<and> gain score (pmatch (W x # s) rest params) = Some (ps, wc, sc)} =
   wildcard_hits node rest params score"
  by (auto simp: wildcard_hits_def split: option.splits if_splits)

lemma hits_param:
  assumes "wf_trie node"
  shows "{(table node (P x # s), ps, wc, sc) | x s ps wc sc.
      table node (P x # s) \<noteq> [] \<and> gain score (pmatch (P x # s) rest params) = Some (ps, wc, sc)} =
   param_hits node rest params score"
proof -
  have "jmap_get (t_params node) x = Some n \<longleftrightarrow> (x, n) \<in> set (t_params node)" for x n
    using assms by (auto simp: wf_trie_iff [of node] jmap_get_iff)
  note this [symmetric, simp]
  show ?thesis
    by (fastforce simp: param_hits_def hits_def Let_def split: option.splits if_splits)
qed

lemma hits_static:
  assumes "wf_trie node"
  shows "{(table node (Ch x # s), ps, wc, sc) | x s ps wc sc.
      table node (Ch x # s) \<noteq> [] \<and> gain score (pmatch (Ch x # s) rest params) = Some (ps, wc, sc)} =
   static_hits node rest params score" (is "?L = ?R")
proof (cases "rest = []")
  case True
  then show ?thesis by (simp add: static_hits_def)
next
  case ne: False
  show ?thesis
  proof (cases "jmap_get (t_static node) (hd rest)")
    case None
    with ne show ?thesis by (auto simp: static_hits_def)
  next
    case (Some n)
    let ?e = "t_edge n"
    have e: "?e \<noteq> []" "hd ?e = hd rest"
      using assms Some by (simp_all add: wf_trie_iff [of node])
    have head: "\<exists>x u. map Ch ?e @ s = Ch x # u" for s
      using e by (cases ?e) auto
    have "h \<in> ?L \<longleftrightarrow> (\<exists>s ps wc sc. h = (table n s, ps, wc, sc) \<and> table n s \<noteq> [] \<and>
        gain score (pmatch (map Ch ?e @ s) rest params) = Some (ps, wc, sc))" for h
    proof
      assume "h \<in> ?L"
      then obtain x u ps wc sc where h: "h = (table node (Ch x # u), ps, wc, sc)" "table node (Ch x # u) \<noteq> []"
        "gain score (pmatch (Ch x # u) rest params) = Some (ps, wc, sc)" by blast
      then have x: "x = hd rest"
        by (auto split: if_splits)
      then have b: "table node (Ch x # u) = below n (Ch x # u)"
        by (simp add: Some)
      with h(2) obtain s where s: "Ch x # u = map Ch ?e @ s"
        using below_none by metis
      with b have "table node (Ch x # u) = table n s"
        using below_syms by metis
      with h s show "\<exists>s ps wc sc. h = (table n s, ps, wc, sc) \<and> table n s \<noteq> [] \<and>
          gain score (pmatch (map Ch ?e @ s) rest params) = Some (ps, wc, sc)"
        by metis
    next
      assume "\<exists>s ps wc sc. h = (table n s, ps, wc, sc) \<and> table n s \<noteq> [] \<and>
          gain score (pmatch (map Ch ?e @ s) rest params) = Some (ps, wc, sc)"
      then obtain s ps wc sc where h: "h = (table n s, ps, wc, sc)" "table n s \<noteq> []"
        "gain score (pmatch (map Ch ?e @ s) rest params) = Some (ps, wc, sc)" by blast
      obtain x u where u: "map Ch ?e @ s = Ch x # u"
        using head [of s] by blast
      then have x: "x = hd rest"
        using e by (cases ?e) auto
      have "below n (Ch x # u) = table n s"
        using below_syms [OF refl, of n s] unfolding u .
      then have "table node (Ch x # u) = table n s"
        by (simp add: Some x)
      with h u show "h \<in> ?L"
        by (metis (mono_tags, lifting) mem_Collect_eq)
    qed
    then show ?thesis
      using ne by (auto simp: static_hits_def Some hits_def pmatch_edge)
  qed
qed

lemma hits_cases:
  assumes "wf_trie node"
  shows "hits node rest params score =
    end_hits node rest params score \<union> static_hits node rest params score \<union>
    param_hits node rest params score \<union> wildcard_hits node rest params score"
proof -
  have "hits node rest params score =
    {(table node s, ps, wc, sc) | s ps wc sc. s = [] \<and> table node s \<noteq> [] \<and> gain score (pmatch s rest params) = Some (ps, wc, sc)} \<union>
    {(table node (Ch x # s), ps, wc, sc) | x s ps wc sc.
      table node (Ch x # s) \<noteq> [] \<and> gain score (pmatch (Ch x # s) rest params) = Some (ps, wc, sc)} \<union>
    {(table node (P x # s), ps, wc, sc) | x s ps wc sc.
      table node (P x # s) \<noteq> [] \<and> gain score (pmatch (P x # s) rest params) = Some (ps, wc, sc)} \<union>
    {(table node (W x # s), ps, wc, sc) | x s ps wc sc.
      table node (W x # s) \<noteq> [] \<and> gain score (pmatch (W x # s) rest params) = Some (ps, wc, sc)}"
    unfolding hits_def
  proof (rule set_eqI, rule iffI, goal_cases)
    case (1 h)
    then obtain s ps wc sc where "h = (table node s, ps, wc, sc)" "table node s \<noteq> []"
      "gain score (pmatch s rest params) = Some (ps, wc, sc)" by blast
    then show ?case
      by (cases "(node, s)" rule: table.cases) blast+
  next
    case (2 h)
    then show ?case by blast
  qed
  also have "{(table node s, ps, wc, sc) | s ps wc sc. s = [] \<and> table node s \<noteq> [] \<and> gain score (pmatch s rest params) = Some (ps, wc, sc)} =
      end_hits node rest params score"
    by (auto simp: end_hits_def)
  finally show ?thesis
    unfolding hits_wildcard hits_param [OF assms] hits_static [OF assms] .
qed

section \<open>The search finds the best match\<close>

lemma visit_wildcard_best:
  "best_of (wildcard_hits node rest params score) best (visit_wildcard rest node params score best)"
proof (cases "t_wildcard node")
  case None
  then show ?thesis by (simp add: wildcard_hits_def visit_wildcard_def best_of_nothing)
next
  case (Some w)
  have "best_of {candidate_hit (candidate_at (snd w) params (Some rest) (score + 1))} best
      (better best (candidate_at (snd w) params (Some rest) (score + 1)))"
    by (rule best_of_one)
  then show ?thesis
    using Some by (cases w)
      (auto simp: wildcard_hits_def visit_wildcard_def best_of_nothing SCORE_WILDCARD_def candidate_hit_def candidate_at_def)
qed

lemma end_best:
  "best_of (end_hits node [] params score) best
     (if t_routes node \<noteq> [] then better best (candidate_at node params None score) else best)"
  using best_of_one [of "candidate_at node params None score" best]
  by (simp add: end_hits_def best_of_nothing candidate_hit_def candidate_at_def)

lemma commonPrefixLength_self [simp]: "commonPrefixLength e e = length e"
  by (simp add: commonPrefixLength_full)

lemma commonPrefixLength_take_full:
  "commonPrefixLength e (take (length e) rest) = length e \<longleftrightarrow> take (length e) rest = e"
  by (simp add: commonPrefixLength_full)

lemma visit_best:
  "wf_trie node \<Longrightarrow> best_of (hits node rest params score) best (visit rest node params score best)"
proof (induction rest node params score best rule: visit.induct)
  case (1 rest node params score best)
  show ?case
  proof (cases rest)
    case Nil
    have "static_hits node [] params score = {}" "param_hits node [] params score = {}"
      by (simp_all add: static_hits_def param_hits_def)
    then have "hits node [] params score = end_hits node [] params score \<union> wildcard_hits node [] params score"
      by (simp add: hits_cases [OF "1.prems"])
    moreover have "best_of (end_hits node [] params score \<union> wildcard_hits node [] params score) best
        (visit_wildcard [] node params score
          (if t_routes node \<noteq> [] then better best (candidate_at node params None score) else best))"
      by (rule best_of_union [OF end_best visit_wildcard_best])
    ultimately show ?thesis
      by (simp only: Nil visit.simps [of "[]"] list.case)
  next
    case (Cons c cs)
    define b1 where "b1 =
      (case jmap_get (t_static node) c of
         Some child \<Rightarrow>
           (let cpl = commonPrefixLength (t_edge child) (take (length (t_edge child)) rest) in
            if cpl = length (t_edge child)
            then visit (drop cpl rest) child params (score + SCORE_STATIC_CHAR * cpl) best else best)
       | None \<Rightarrow> best)"
    define segment where "segment = takeWhile (\<lambda>x. x \<noteq> slash) rest"
    define b2 where "b2 =
      (if segment = [] then b1
       else foldl (\<lambda>best (name, n).
                visit (drop (length segment) rest) n (jmap_set name segment params) (score + SCORE_PARAM) best)
              b1 (t_params node))"
    have visit: "visit rest node params score best = visit_wildcard rest node params score b2"
      unfolding b2_def b1_def segment_def by (subst visit.simps) (simp add: Cons Let_def)
    have s1: "best_of (static_hits node rest params score) best b1"
    proof (cases "jmap_get (t_static node) c")
      case None
      then show ?thesis by (simp add: static_hits_def b1_def Cons best_of_nothing)
    next
      case (Some child)
      have "wf_trie child"
        using "1.prems" Some by (simp add: wf_trie_iff [of node])
      then show ?thesis
        using "1.IH"(1) [OF Cons Some refl, folded b1_def] Some
        by (simp add: static_hits_def b1_def Cons Let_def best_of_nothing SCORE_STATIC_CHAR_def commonPrefixLength_take_full)
    qed
    have s2: "best_of (param_hits node rest params score) b1 b2"
    proof (cases "segment = []")
      case True
      then show ?thesis by (simp add: param_hits_def b2_def segment_def [symmetric] Let_def best_of_nothing)
    next
      case False
      have "best_of (hits n (drop (length segment) rest) (jmap_set name segment params) (score + 2)) b
          (visit (drop (length segment) rest) n (jmap_set name segment params) (score + SCORE_PARAM) b)"
        if "(name, n) \<in> set (t_params node)" for name n b
      proof -
        have "wf_trie n"
          using "1.prems" that by (cases node) auto
        then show ?thesis
          using "1.IH"(2) [OF Cons b1_def segment_def False that refl] by (simp add: SCORE_PARAM_def)
      qed
      then have "best_of (\<Union>x \<in> set (t_params node). case x of (name, n) \<Rightarrow>
            hits n (drop (length segment) rest) (jmap_set name segment params) (score + 2)) b1
          (foldl (\<lambda>best (name, n).
             visit (drop (length segment) rest) n (jmap_set name segment params) (score + SCORE_PARAM) best)
             b1 (t_params node))"
        by (intro best_of_foldl) (auto split: prod.split)
      then show ?thesis
        using False by (simp add: param_hits_def b2_def segment_def [symmetric] Let_def)
    qed
    have "end_hits node rest params score = {}"
      by (simp add: end_hits_def Cons)
    then have "hits node rest params score =
        static_hits node rest params score \<union> param_hits node rest params score \<union> wildcard_hits node rest params score"
      by (simp add: hits_cases [OF "1.prems"])
    then show ?thesis
      unfolding visit using best_of_union [OF best_of_union [OF s1 s2] visit_wildcard_best] by simp
  qed
qed

section \<open>Routers reached by registrations and removals\<close>

datatype ('v, 'b) router_op = Add "('v, 'b) engine_route" | Remove http_method jstring

fun router_step :: "('v, 'b) radix_router \<Rightarrow> ('v, 'b) router_op \<Rightarrow> ('v, 'b) radix_router" where
  "router_step r (Add route) = fst (addRoute r route)"
| "router_step r (Remove method pattern) = fst (removeRoute r method pattern)"

definition router_after :: "('v, 'b) router_op list \<Rightarrow> ('v, 'b) radix_router" where
  "router_after ops = foldl router_step new_radix_router ops"

lemma removeRoute_inv:
  assumes "router_inv r"
  shows "router_inv (fst (removeRoute r method pattern))"
proof (cases "tokenizePattern pattern")
  case (Inl e)
  then show ?thesis using assms by (simp add: removeRoute_def)
next
  case (Inr ts)
  show ?thesis
    using removeRoute_outcome [OF assms Inr prod.collapse [symmetric]] by blast
qed

interpretation radix_ops: invariant_machine router_step router_inv
proof
  show "router_inv r \<Longrightarrow> router_inv (router_step r e)" for r :: "('v, 'b) radix_router" and e
    by (cases e) (simp_all add: radix.inv_add removeRoute_inv)
qed

lemma router_after_inv: "router_inv (router_after ops)"
  unfolding router_after_def by (rule radix_ops.inv_run) simp

lemma findBest_best: "router_inv r \<Longrightarrow> best_of (hits (rt_root r) path jmap_empty 0) None (findBest r path)"
  unfolding findBest_def by (rule visit_best) (simp add: router_inv_def)

lemma table_registered:
  "router_inv r \<Longrightarrow> jmap_get (table (rt_root r) s) m = Some reg \<Longrightarrow>
     er_method (rr_route reg) = m \<and> pattern_syms (er_path (rr_route reg)) = Some s \<and>
     registered_route r (route_key (rr_route reg)) = Some (rr_route reg)"
  unfolding router_inv_def by (auto simp: route_key_def registered_route_def)

lemma table_nonempty:
  "table t s \<noteq> [] \<longleftrightarrow> (\<exists>m. jmap_get (table t s) m \<noteq> None)"
  by (cases "table t s") (auto simp: jmap_get_def)

lemma hits_nonempty:
  "hits node path params 0 = {} \<longleftrightarrow> \<not> (\<exists>s. table node s \<noteq> [] \<and> pmatch s path params \<noteq> None)"
proof
  assume none: "hits node path params 0 = {}"
  have "pmatch s path params = None" if "table node s \<noteq> []" for s
  proof (cases "pmatch s path params")
    case (Some b)
    then have "(table node s, b) \<in> hits node path params 0"
      using that by (cases b) (auto simp: hits_def)
    then show ?thesis by (simp add: none)
  qed
  then show "\<not> (\<exists>s. table node s \<noteq> [] \<and> pmatch s path params \<noteq> None)" by auto
next
  assume "\<not> (\<exists>s. table node s \<noteq> [] \<and> pmatch s path params \<noteq> None)"
  then show "hits node path params 0 = {}"
    unfolding hits_def gain_0 by fastforce
qed

text \<open>
  C7: Registration refines a finite map from patterns and methods to routes: an accepted route is
  new and is the one entry that changes, a refused one changes no entry.
\<close>

theorem radix_add_exact:
  "case addRoute (router_after ops) route of (r', res) \<Rightarrow>
     (case res of
        Inl e \<Rightarrow> registered_route r' = registered_route (router_after ops)
      | Inr u \<Rightarrow> registered_route (router_after ops) (route_key route) = None \<and>
          registered_route r' = (registered_route (router_after ops))(route_key route \<mapsto> route))"
proof -
  obtain r' res where add: "addRoute (router_after ops) route = (r', res)"
    by (cases "addRoute (router_after ops) route")
  show ?thesis
    using addRoute_registered [OF router_after_inv add]
    by (cases res) (auto simp: add registered_route_def [abs_def] fun_eq_iff)
qed

text \<open>
  Removing a route whose pattern has no wildcard takes exactly that entry out and reports
  whether there was one; the entry of no other pattern or method changes.
\<close>

theorem radix_remove_exact:
  assumes "tokenizePattern pattern = Inr ts" and "\<not> has_wildcard ts"
  shows "snd (removeRoute (router_after ops) method pattern) =
      Inr (registered_route (router_after ops) (Some (syms ts), method) \<noteq> None) \<and>
    registered_route (fst (removeRoute (router_after ops) method pattern)) =
      (registered_route (router_after ops))((Some (syms ts), method) := None)"
proof -
  obtain r' res where rem: "removeRoute (router_after ops) method pattern = (r', res)"
    by (cases "removeRoute (router_after ops) method pattern")
  show ?thesis
    using removeRoute_outcome [OF router_after_inv assms(1) rem] assms(2)
    by (auto simp: rem registered_route_def [abs_def] rename_no_wildcard fun_eq_iff simp del: registered.simps)
qed

text \<open>
  The route count is the number of entries, after any registrations and removals.
\<close>

theorem radix_route_count:
  "rt_routeCount (router_after ops) = int (card {k. registered_route (router_after ops) k \<noteq> None})"
  using router_after_inv [of ops] by (simp add: router_inv_def registered_route_def dom_def)

text \<open>
  C2: A match is a registered route of the method whose pattern reads the whole path, with the
  parameters, wildcard and score of that reading, and no route registered for any method scores more.
\<close>

theorem radix_match_best:
  assumes "match_route (router_after ops) method path = Matched route score req"
  shows "registered_route (router_after ops) (route_key route) = Some route \<and> er_method route = method \<and>
    (\<exists>s. pattern_syms (er_path route) = Some s \<and>
       pmatch s path jmap_empty = Some (rq_params req, rq_wildcard req, score)) \<and>
    (\<forall>s m other ps wc sc. registered_route (router_after ops) (Some s, m) = Some other \<longrightarrow>
       pmatch s path jmap_empty = Some (ps, wc, sc) \<longrightarrow> sc \<le> score)"
proof -
  let ?r = "router_after ops"
  obtain best reg where best: "findBest ?r path = Some best" "jmap_get (t_routes (cd_node best)) method = Some reg"
    and req: "route = rr_route reg" "score = cd_score best" "rq_params req = cd_params best" "rq_wildcard req = cd_wildcard best"
    using assms by (auto simp: match_route_def split: option.splits)
  note search = findBest_best [OF router_after_inv, of ops path, unfolded best(1)]
  from best_of_origin [OF search] have "candidate_hit best \<in> hits (rt_root ?r) path jmap_empty 0"
    by simp
  then obtain s where s: "t_routes (cd_node best) = table (rt_root ?r) s"
    "pmatch s path jmap_empty = Some (cd_params best, cd_wildcard best, cd_score best)"
    by (auto simp: hits_def candidate_hit_def)
  have "sc \<le> score"
    if other: "registered_route ?r (Some s', m) = Some other" "pmatch s' path jmap_empty = Some (ps, wc, sc)"
    for s' m other ps wc sc
  proof -
    have "(table (rt_root ?r) s', ps, wc, sc) \<in> hits (rt_root ?r) path jmap_empty 0"
      using other by (auto simp: hits_def registered_route_def table_nonempty intro!: exI [of _ s'])
    from best_of_bound [OF search this] show ?thesis
      by (simp add: req(2))
  qed
  with table_registered [OF router_after_inv, of ops s "method" reg] best(2) s show ?thesis
    by (simp add: req)
qed

text \<open>
  A path is not found exactly when no registered pattern, of any method, reads it.
\<close>

theorem radix_not_found_iff:
  "match_route (router_after ops) method path = NotFound \<longleftrightarrow>
     \<not> (\<exists>s m. registered_route (router_after ops) (Some s, m) \<noteq> None \<and> pmatch s path jmap_empty \<noteq> None)"
proof -
  let ?r = "router_after ops"
  note search = findBest_best [OF router_after_inv, of ops path]
  have "match_route ?r method path = NotFound \<longleftrightarrow> findBest ?r path = None"
    by (auto simp: match_route_def split: option.split)
  also have "\<dots> \<longleftrightarrow> hits (rt_root ?r) path jmap_empty 0 = {}"
  proof
    assume none: "findBest ?r path = None"
    then show "hits (rt_root ?r) path jmap_empty 0 = {}"
      using best_of_bound [OF search] by (auto simp: none)
  next
    assume "hits (rt_root ?r) path jmap_empty 0 = {}"
    then show "findBest ?r path = None"
      using best_of_origin [OF search] by auto
  qed
  also have "\<dots> \<longleftrightarrow> \<not> (\<exists>s m. registered_route ?r (Some s, m) \<noteq> None \<and> pmatch s path jmap_empty \<noteq> None)"
    unfolding hits_nonempty registered_route_def by (simp add: table_nonempty)
  finally show ?thesis .
qed

text \<open>
  The methods a path allows are exactly those it matches for, and each is listed once.
\<close>

theorem radix_allowed_exact:
  "distinct (allowedMethods (router_after ops) path) \<and>
   set (allowedMethods (router_after ops) path) =
     {m. \<exists>route score req. match_route (router_after ops) m path = Matched route score req}"
proof -
  let ?r = "router_after ops"
  have "distinct (allowedMethods ?r path)"
  proof (cases "findBest ?r path")
    case None
    then show ?thesis by (simp add: allowedMethods_def)
  next
    case (Some best)
    then have "candidate_hit best \<in> hits (rt_root ?r) path jmap_empty 0"
      using best_of_origin [OF findBest_best [OF router_after_inv, of ops path]] by simp
    then obtain s where "t_routes (cd_node best) = table (rt_root ?r) s"
      by (auto simp: hits_def candidate_hit_def)
    then show ?thesis
      using router_after_inv [of ops] Some by (simp add: allowedMethods_def router_inv_def jmap_wf_def)
  qed
  moreover have "m \<in> set (allowedMethods ?r path) \<longleftrightarrow>
      (\<exists>route score req. match_route ?r m path = Matched route score req)" for m
    by (auto simp: allowedMethods_def match_route_def set_jmap_keys jmap_has_def split: option.splits)
  ultimately show ?thesis by blast
qed

section \<open>Samples\<close>

definition sample_route :: "http_method \<Rightarrow> string \<Rightarrow> (unit, unit) engine_route" where
  "sample_route method path =
     \<lparr>er_method = method, er_path = js path,
      er_handler = (\<lambda>_. \<lparr>rs_status = 200, rs_body = None, rs_headers = None, rs_matchedPattern = None\<rparr>),
      er_middleware = None\<rparr>"

definition sample_ops :: "(unit, unit) router_op list" where
  "sample_ops = [Add (sample_route GET ''/a/bc''), Add (sample_route POST ''/a/:x''), Add (sample_route GET ''/a/bd'')]"

definition is_matched :: "http_method \<Rightarrow> string \<Rightarrow> nat \<Rightarrow> ('v, 'b) match_result \<Rightarrow> bool" where
  "is_matched method pattern score res =
     (case res of Matched route sc req \<Rightarrow> er_method route = method \<and> er_path route = js pattern \<and> sc = score | _ \<Rightarrow> False)"

theorem radix_match_best_witness:
  "\<exists>route req. match_route (router_after sample_ops) GET (js ''/a/bd'') = Matched route 15 req \<and>
     pmatch (map Ch (js ''/a/bd'')) (js ''/a/bd'') jmap_empty = Some (rq_params req, rq_wildcard req, 15)"
proof -
  have "is_matched GET ''/a/bd'' 15 (match_route (router_after sample_ops) GET (js ''/a/bd''))"
    by code_simp
  then obtain route req where match: "match_route (router_after sample_ops) GET (js ''/a/bd'') = Matched route 15 req"
    and path: "er_path route = js ''/a/bd''"
    by (auto simp: is_matched_def split: match_result.splits)
  have "pattern_syms (js ''/a/bd'') = Some (map Ch (js ''/a/bd''))"
    by code_simp
  with radix_match_best [OF match] path match show ?thesis
    by auto
qed

theorem radix_remove_exact_witness:
  "registered_route (fst (removeRoute (router_after sample_ops) POST (js ''/a/:x'')))
     (Some (syms [Static (js ''/a/''), Param (js ''x'')]), POST) = None"
proof -
  have "tokenizePattern (js ''/a/:x'') = Inr [Static (js ''/a/''), Param (js ''x'')]"
    by code_simp
  moreover have "\<not> has_wildcard [Static (js ''/a/''), Param (js ''x'')]"
    by (simp add: has_wildcard_def)
  ultimately show ?thesis
    by (simp add: radix_remove_exact)
qed

text \<open>
  A more specific pattern hides a registered route of the request's method: the sample has a
  route \<open>POST /a/:x\<close> that reads \<open>/a/bd\<close>, and the answer to \<open>POST /a/bd\<close> is 405.
\<close>

theorem radix_shadowed_method:
  "rs_status (dispatch (router_after sample_ops) POST (js ''/a/bd'') [] []) = 405 \<and>
   (\<exists>s route. registered_route (router_after sample_ops) (Some s, POST) = Some route \<and>
      pattern_syms (er_path route) = Some s \<and> pmatch s (js ''/a/bd'') jmap_empty \<noteq> None)"
proof -
  let ?s = "map Ch (js ''/a/'') @ [P (js ''x'')]"
  have "case registered_route (router_after sample_ops) (Some ?s, POST) of
      Some route \<Rightarrow> pattern_syms (er_path route) = Some ?s | None \<Rightarrow> False"
    by code_simp
  then obtain route where "registered_route (router_after sample_ops) (Some ?s, POST) = Some route"
      "pattern_syms (er_path route) = Some ?s"
    by (auto split: option.splits)
  moreover have "pmatch ?s (js ''/a/bd'') jmap_empty \<noteq> None"
    by code_simp
  moreover have "rs_status (dispatch (router_after sample_ops) POST (js ''/a/bd'') [] []) = 405"
    by code_simp
  ultimately show ?thesis
    by blast
qed

end
