(* ===== verification/ChunkedBody.thy ===== *)
theory ChunkedBody
  imports HttpText
begin

text \<open>
  The incremental decoder of chunked bodies, \<open>http-parser/engine/ChunkedDecoder.ts\<close>: its state machine
  over a byte buffer, fed by any segmentation. What a call hands to the callbacks is returned as a list of
  events, beside the decoder's next state and the error it throws. Its promises: a well-formed stream is
  decoded to its chunks and trailers however it is cut, and no more than \<open>maxTotalBytes\<close> is delivered.
\<close>

section \<open>Data\<close>

datatype chunked_state = SIZE_LINE | DATA | DATA_CRLF | TRAILERS | DONE

definition state_name :: "chunked_state \<Rightarrow> jstring" where
  "state_name s = (case s of SIZE_LINE \<Rightarrow> js ''SIZE_LINE'' | DATA \<Rightarrow> js ''DATA'' | DATA_CRLF \<Rightarrow> js ''DATA_CRLF''
                   | TRAILERS \<Rightarrow> js ''TRAILERS'' | DONE \<Rightarrow> js ''DONE'')"

text \<open>The errors, one for each message of \<open>ChunkedEncodingError\<close>.\<close>

datatype chunked_error =
    EndedMidBody chunked_state
  | ExpectedCrlf
  | SizeLineExceeded int
  | EmptySizeLine
  | InvalidSizeCharacter byte
  | SizeOverflow
  | NoHexDigits
  | ControlByteInExtensions byte
  | BodyExceeded int
  | TrailerNotAllowed jstring

datatype chunked_event = OnData "byte list" | OnTrailers header_map | OnComplete

record chunked_options =
  co_maxChunkSizeLineBytes :: "int option"
  co_maxTotalBytes :: "int option"
  co_allowedTrailers :: "jstring jset option"

record chunked =
  cd_maxSizeLine :: int
  cd_maxTotal :: int
  cd_allowedTrailers :: "jstring jset option"
  cd_buf :: "byte list"
  cd_state :: chunked_state
  cd_remaining :: nat
  cd_decoded :: nat
  cd_chunks :: nat

definition new_chunked :: "chunked_options \<Rightarrow> chunked" where
  "new_chunked options =
     \<lparr>cd_maxSizeLine = max 16 (case co_maxChunkSizeLineBytes options of Some n \<Rightarrow> n | None \<Rightarrow> 8192),
      cd_maxTotal = max 0 (case co_maxTotalBytes options of Some n \<Rightarrow> n | None \<Rightarrow> 0),
      cd_allowedTrailers = co_allowedTrailers options,
      cd_buf = [], cd_state = SIZE_LINE, cd_remaining = 0, cd_decoded = 0, cd_chunks = 0\<rparr>"

definition chunked_done :: "chunked \<Rightarrow> bool" where
  "chunked_done d \<longleftrightarrow> cd_state d = DONE"

section \<open>The state machine\<close>

abbreviation SEMI :: byte where "SEMI \<equiv> 0x3b"

definition isHex :: "byte \<Rightarrow> bool" where
  "isHex b \<longleftrightarrow> 0x30 \<le> b \<and> b \<le> 0x39 \<or> 0x41 \<le> b \<and> b \<le> 0x46 \<or> 0x61 \<le> b \<and> b \<le> 0x66"

definition hexVal :: "byte \<Rightarrow> nat" where
  "hexVal b = (if 0x30 \<le> b \<and> b \<le> 0x39 then unat b - 0x30
               else if 0x41 \<le> b \<and> b \<le> 0x46 then unat b - 0x41 + 10
               else unat b - 0x61 + 10)"

definition findCRLF :: "nat \<Rightarrow> byte list \<Rightarrow> nat option" where
  "findCRLF i buf = find_from [CR, LF] i buf"

text \<open>The digits up to \<open>;\<close>: the size and what is left of the line.\<close>

fun parse_size :: "nat \<Rightarrow> byte list \<Rightarrow> chunked_error + nat \<times> byte list" where
  "parse_size n [] = Inr (n, [])"
| "parse_size n (b # bs) =
     (if b = SEMI then Inr (n, b # bs)
      else if \<not> isHex b then Inl (InvalidSizeCharacter b)
      else if n > 0x7ffffff then Inl SizeOverflow
      else parse_size (n * 16 + hexVal b) bs)"

definition control_byte :: "byte \<Rightarrow> bool" where
  "control_byte b \<longleftrightarrow> b < 0x20 \<and> b \<noteq> 0x09"

definition readSizeLine :: "chunked \<Rightarrow> chunked \<times> (chunked_error + bool)" where
  "readSizeLine d =
     (case findCRLF 0 (cd_buf d) of
        None \<Rightarrow>
          if int (length (cd_buf d)) > cd_maxSizeLine d then (d, Inl (SizeLineExceeded (cd_maxSizeLine d)))
          else (d, Inr False)
      | Some eol \<Rightarrow>
          if eol = 0 then (d, Inl EmptySizeLine)
          else if int eol > cd_maxSizeLine d then (d, Inl (SizeLineExceeded (cd_maxSizeLine d)))
          else
            (case parse_size 0 (take eol (cd_buf d)) of
               Inl e \<Rightarrow> (d, Inl e)
             | Inr (n, tail) \<Rightarrow>
                 if length tail = eol then (d, Inl NoHexDigits)
                 else
                   (case List.find control_byte tail of
                      Some b \<Rightarrow> (d, Inl (ControlByteInExtensions b))
                    | None \<Rightarrow>
                        let d = d\<lparr>cd_buf := drop (eol + 2) (cd_buf d)\<rparr> in
                        if n = 0 then (d\<lparr>cd_state := TRAILERS\<rparr>, Inr True)
                        else (d\<lparr>cd_remaining := n, cd_chunks := cd_chunks d + 1, cd_state := DATA\<rparr>, Inr True))))"

definition emitData :: "nat \<Rightarrow> chunked \<Rightarrow> chunked \<times> chunked_event list \<times> chunked_error option" where
  "emitData n d =
     (let data = take n (cd_buf d);
          d = d\<lparr>cd_buf := drop n (cd_buf d), cd_remaining := cd_remaining d - n, cd_decoded := cd_decoded d + n\<rparr>
      in
      if 0 < cd_maxTotal d \<and> cd_maxTotal d < int (cd_decoded d) then (d, [], Some (BodyExceeded (cd_maxTotal d)))
      else (if cd_remaining d = 0 then d\<lparr>cd_state := DATA_CRLF\<rparr> else d, [OnData data], None))"

text \<open>Where the trailer block ends: the first empty line, looked for from one line end to the next.\<close>

function trailer_end :: "nat \<Rightarrow> byte list \<Rightarrow> nat option" where
  "trailer_end i buf =
     (case findCRLF i buf of
        None \<Rightarrow> None
      | Some eol \<Rightarrow>
          (case findCRLF (eol + 2) buf of
             None \<Rightarrow> None
           | Some next_eol \<Rightarrow> if next_eol = eol + 2 then Some eol else trailer_end next_eol buf))"
  by pat_completeness auto
termination
proof (relation "measure (\<lambda>(i, buf). length buf - i)", goal_cases)
  case (2 i buf eol next_eol)
  then show ?case
    using find_from_fits [of "[CR, LF]" i buf eol] find_from_fits [of "[CR, LF]" "eol + 2" buf next_eol]
    by (auto simp: findCRLF_def)
qed simp

declare trailer_end.simps [simp del]

definition complete_body :: "header_map \<Rightarrow> chunked \<Rightarrow> chunked \<times> chunked_event list" where
  "complete_body trailers d = (d\<lparr>cd_state := DONE\<rparr>, [OnTrailers trailers, OnComplete])"

definition not_allowed :: "jstring jset option \<Rightarrow> header_map \<Rightarrow> jstring option" where
  "not_allowed allowed trailers =
     (case allowed of None \<Rightarrow> None | Some names \<Rightarrow> List.find (\<lambda>name. \<not> jset_has names name) (jmap_keys trailers))"

definition readTrailers :: "(jstring \<Rightarrow> jstring) \<Rightarrow> chunked \<Rightarrow> chunked \<times> chunked_event list \<times> (chunked_error + bool)" where
  "readTrailers lower d =
     (if take 2 (cd_buf d) = [CR, LF] then
        let (d, evs) = complete_body jmap_empty (d\<lparr>cd_buf := drop 2 (cd_buf d)\<rparr>) in (d, evs, Inr True)
      else
        (case trailer_end 0 (cd_buf d) of
           None \<Rightarrow> (d, [], Inr False)
         | Some eol \<Rightarrow>
             let trailers = parseHeaderBlock lower (take eol (cd_buf d)) in
             (case not_allowed (cd_allowedTrailers d) trailers of
                Some name \<Rightarrow> (d, [], Inl (TrailerNotAllowed name))
              | None \<Rightarrow>
                  let (d, evs) = complete_body trailers (d\<lparr>cd_buf := drop (eol + 4) (cd_buf d)\<rparr>) in (d, evs, Inr True))))"

definition lift_emit :: "bool \<Rightarrow> chunked \<times> chunked_event list \<times> chunked_error option \<Rightarrow>
    chunked \<times> chunked_event list \<times> (chunked_error + bool)" where
  "lift_emit again r = (case r of (d, evs, Some e) \<Rightarrow> (d, evs, Inl e) | (d, evs, None) \<Rightarrow> (d, evs, Inr again))"

text \<open>One turn of the loop of \<open>_run\<close>; the last component is the error, or whether the loop goes on.\<close>

definition chunked_step :: "(jstring \<Rightarrow> jstring) \<Rightarrow> chunked \<Rightarrow> chunked \<times> chunked_event list \<times> (chunked_error + bool)" where
  "chunked_step lower d =
     (case cd_state d of
        SIZE_LINE \<Rightarrow> let (d, r) = readSizeLine d in (d, [], r)
      | DATA \<Rightarrow>
          let n = length (cd_buf d) in
          if n < cd_remaining d then if n > 0 then lift_emit False (emitData n d) else (d, [], Inr False)
          else lift_emit True (emitData (cd_remaining d) d)
      | DATA_CRLF \<Rightarrow>
          if length (cd_buf d) < 2 then (d, [], Inr False)
          else if cd_buf d ! 0 \<noteq> CR \<or> cd_buf d ! 1 \<noteq> LF then (d, [], Inl ExpectedCrlf)
          else (d\<lparr>cd_buf := drop 2 (cd_buf d), cd_state := SIZE_LINE\<rparr>, [], Inr True)
      | TRAILERS \<Rightarrow> readTrailers lower d
      | DONE \<Rightarrow> (d, [], Inr False))"

definition work_left :: "chunked \<Rightarrow> nat" where
  "work_left d = 2 * length (cd_buf d) + (if cd_state d = DATA then 1 else 0)"

lemma step_progress: "chunked_step lower d = (d', evs, Inr True) \<Longrightarrow> work_left d' < work_left d"
proof (cases "cd_state d")
  case SIZE_LINE
  moreover assume "chunked_step lower d = (d', evs, Inr True)"
  ultimately show ?thesis
    using index_of_fits [of "[CR, LF]" "cd_buf d"]
    by (auto simp: chunked_step_def readSizeLine_def findCRLF_def work_left_def Let_def split: option.splits sum.splits if_splits)
next
  case DATA
  moreover assume "chunked_step lower d = (d', evs, Inr True)"
  ultimately show ?thesis
    by (auto simp: chunked_step_def emitData_def lift_emit_def work_left_def Let_def split: if_splits)
next
  case DATA_CRLF
  moreover assume "chunked_step lower d = (d', evs, Inr True)"
  ultimately show ?thesis
    by (auto simp: chunked_step_def work_left_def split: if_splits)
next
  case TRAILERS
  moreover assume *: "chunked_step lower d = (d', evs, Inr True)"
  moreover have "cd_buf d \<noteq> []" if "trailer_end 0 (cd_buf d) = Some eol" for eol
    using that by (auto simp: trailer_end.simps findCRLF_def find_from_def)
  moreover have "cd_buf d \<noteq> []" if "take 2 (cd_buf d) = [CR, LF]"
    using that by auto
  ultimately show ?thesis
    by (auto simp: chunked_step_def readTrailers_def complete_body_def work_left_def Let_def split: option.splits if_splits)
next
  case DONE
  moreover assume "chunked_step lower d = (d', evs, Inr True)"
  ultimately show ?thesis
    by (simp add: chunked_step_def)
qed

function run_chunked :: "(jstring \<Rightarrow> jstring) \<Rightarrow> chunked \<Rightarrow> chunked \<times> chunked_event list \<times> chunked_error option" where
  "run_chunked lower d =
     (case chunked_step lower d of
        (d, evs, Inl e) \<Rightarrow> (d, evs, Some e)
      | (d, evs, Inr again) \<Rightarrow>
          if again then let (d, more, err) = run_chunked lower d in (d, evs @ more, err) else (d, evs, None))"
  by pat_completeness auto
termination
  by (relation "measure (\<lambda>(lower, d). work_left d)") (auto dest: step_progress [OF sym])

declare run_chunked.simps [simp del]

definition chunked_feed :: "(jstring \<Rightarrow> jstring) \<Rightarrow> byte list \<Rightarrow> chunked \<Rightarrow> chunked \<times> chunked_event list \<times> chunked_error option" where
  "chunked_feed lower chunk d =
     (if cd_state d = DONE then (d, [], None) else run_chunked lower (d\<lparr>cd_buf := cd_buf d @ chunk\<rparr>))"

definition chunked_finish :: "chunked \<Rightarrow> chunked_error option" where
  "chunked_finish d = (if cd_state d \<noteq> DONE then Some (EndedMidBody (cd_state d)) else None)"

section \<open>Searching for line ends\<close>

text \<open>The search from line end to line end finds the first empty line.\<close>

lemma trailer_end_index: "trailer_end i buf = find_from [CR, LF, CR, LF] i buf"
proof (induction i buf rule: trailer_end.induct)
  case (1 i buf)
  have none: "find_from [CR, LF, CR, LF] i buf = None" if "\<And>j. i \<le> j \<Longrightarrow> \<not> stands_at [CR, LF, CR, LF] buf j"
    using that by (simp add: find_from_None)
  show ?case
  proof (cases "findCRLF i buf")
    case None
    then have "find_from [CR, LF, CR, LF] i buf = None"
      by (intro none) (simp add: findCRLF_def find_from_None stands_at_double)
    with None show ?thesis
      by (subst trailer_end.simps) simp
  next
    case (Some eol)
    then have eol: "i \<le> eol" "stands_at [CR, LF] buf eol" "\<And>j. i \<le> j \<Longrightarrow> j < eol \<Longrightarrow> \<not> stands_at [CR, LF] buf j"
      by (simp_all add: findCRLF_def find_from_Some)
    have skip: "\<not> stands_at [CR, LF] buf (Suc eol)"
      using eol(2) by (simp add: stands_at_pair)
    have early: "\<not> stands_at [CR, LF, CR, LF] buf j" if "i \<le> j" "\<And>k. eol + 2 \<le> k \<Longrightarrow> k \<le> j + 2 \<Longrightarrow> \<not> stands_at [CR, LF] buf k" for j
      using eol(3) [of j] that skip by (cases "j < eol"; cases "j = eol"; cases "j = Suc eol") (auto simp: stands_at_double)
    show ?thesis
    proof (cases "findCRLF (eol + 2) buf")
      case None
      then have "find_from [CR, LF, CR, LF] i buf = None"
        by (intro none early) (simp_all add: findCRLF_def find_from_None)
      with Some None show ?thesis
        by (subst trailer_end.simps) simp
    next
      case next_eol: (Some n)
      then have n: "eol + 2 \<le> n" "stands_at [CR, LF] buf n" "\<And>j. eol + 2 \<le> j \<Longrightarrow> j < n \<Longrightarrow> \<not> stands_at [CR, LF] buf j"
        by (simp_all add: findCRLF_def find_from_Some)
      show ?thesis
      proof (cases "n = eol + 2")
        case True
        then have "find_from [CR, LF, CR, LF] i buf = Some eol"
          using eol n(2) by (simp add: find_from_Some stands_at_double)
        with Some next_eol True show ?thesis
          by (subst trailer_end.simps) simp
      next
        case False
        have "\<not> stands_at [CR, LF, CR, LF] buf j" if "i \<le> j" "j < n" for j
        proof -
          consider "j < eol" | "j = eol" | "j = Suc eol" | "eol + 2 \<le> j"
            by linarith
          then show ?thesis
            using eol(3) n(1,3) skip False that by cases (auto simp: stands_at_double)
        qed
        then have "find_from [CR, LF, CR, LF] i buf = find_from [CR, LF, CR, LF] n buf"
          using eol(1) n(1) by (intro find_from_skip) simp_all
        then show ?thesis
          using 1 [OF Some next_eol False] Some next_eol False by (subst trailer_end.simps) simp
      qed
    qed
  qed
qed

section \<open>Segmentation\<close>

text \<open>
  What of a call's outcome must not depend on the cuts: the body, the other events, and the state without
  the bytes behind the end of the message.
\<close>

definition body_of :: "chunked_event list \<Rightarrow> byte list" where
  "body_of evs = concat (map (\<lambda>e. case e of OnData data \<Rightarrow> data | _ \<Rightarrow> []) evs)"

definition signals_of :: "chunked_event list \<Rightarrow> chunked_event list" where
  "signals_of evs = filter (\<lambda>e. case e of OnData _ \<Rightarrow> False | _ \<Rightarrow> True) evs"

lemma event_views [simp]:
  "body_of [] = []" "signals_of [] = []"
  "body_of (xs @ ys) = body_of xs @ body_of ys" "signals_of (xs @ ys) = signals_of xs @ signals_of ys"
  "body_of [OnData data] = data" "signals_of [OnData data] = []"
  "body_of (OnData data # xs) = data @ body_of xs" "signals_of (OnData data # xs) = signals_of xs"
  by (simp_all add: body_of_def signals_of_def)

definition settle :: "chunked \<Rightarrow> chunked" where
  "settle d = (if cd_state d = DONE then d\<lparr>cd_buf := []\<rparr> else d)"

text \<open>More bytes in the buffer, and a size line one byte longer allowed.\<close>

definition more :: "byte list \<Rightarrow> chunked \<Rightarrow> chunked" where
  "more b d = d\<lparr>cd_buf := cd_buf d @ b\<rparr>"

definition relax :: "chunked \<Rightarrow> chunked" where
  "relax d = d\<lparr>cd_maxSizeLine := cd_maxSizeLine d + 1\<rparr>"

lemma more_simps [simp]:
  "cd_buf (more b d) = cd_buf d @ b" "cd_state (more b d) = cd_state d" "cd_remaining (more b d) = cd_remaining d"
  "cd_maxSizeLine (more b d) = cd_maxSizeLine d" "cd_maxTotal (more b d) = cd_maxTotal d"
  "cd_decoded (more b d) = cd_decoded d" "cd_chunks (more b d) = cd_chunks d"
  "cd_allowedTrailers (more b d) = cd_allowedTrailers d"
  by (simp_all add: more_def)

lemma relax_simps [simp]:
  "cd_buf (relax d) = cd_buf d" "cd_state (relax d) = cd_state d" "cd_remaining (relax d) = cd_remaining d"
  "cd_maxSizeLine (relax d) = cd_maxSizeLine d + 1" "cd_maxTotal (relax d) = cd_maxTotal d"
  "cd_decoded (relax d) = cd_decoded d" "cd_chunks (relax d) = cd_chunks d"
  "cd_allowedTrailers (relax d) = cd_allowedTrailers d"
  by (simp_all add: relax_def)

lemma more_Nil [simp]: "more [] d = d"
  by (simp add: more_def)

text \<open>A step that goes on is not changed by more bytes; nor by the longer size line, when it does not fail.\<close>

lemma step_relax: "chunked_step lower d = (d', evs, Inr again) \<Longrightarrow> chunked_step lower (relax d) = (relax d', evs, Inr again)"
  by (cases "cd_state d")
    (auto simp: chunked_step_def readSizeLine_def emitData_def lift_emit_def readTrailers_def complete_body_def relax_def Let_def
      split: option.splits sum.splits if_splits)

lemma step_again_more: "chunked_step lower d = (d', evs, Inr True) \<Longrightarrow> chunked_step lower (more b d) = (more b d', evs, Inr True)"
proof (cases "cd_state d")
  case SIZE_LINE
  assume step: "chunked_step lower d = (d', evs, Inr True)"
  then obtain eol where "index_of [CR, LF] (cd_buf d) = Some eol"
    using SIZE_LINE by (auto simp: chunked_step_def readSizeLine_def findCRLF_def split: option.splits if_splits)
  with step SIZE_LINE index_of_append [OF this, of b] index_of_fits [OF this] show ?thesis
    by (auto simp: chunked_step_def readSizeLine_def findCRLF_def Let_def more_def split: option.splits sum.splits if_splits)
next
  case DATA
  moreover assume "chunked_step lower d = (d', evs, Inr True)"
  ultimately show ?thesis
    by (auto simp: chunked_step_def emitData_def lift_emit_def more_def Let_def split: if_splits)
next
  case DATA_CRLF
  moreover assume "chunked_step lower d = (d', evs, Inr True)"
  ultimately show ?thesis
    by (auto simp: chunked_step_def more_def nth_append split: if_splits)
next
  case TRAILERS
  assume step: "chunked_step lower d = (d', evs, Inr True)"
  show ?thesis
  proof (cases "take 2 (cd_buf d) = [CR, LF]")
    case True
    then have "2 \<le> length (cd_buf d)"
      using length_take [of 2 "cd_buf d"] by simp
    with True step TRAILERS show ?thesis
      by (auto simp: chunked_step_def readTrailers_def complete_body_def more_def Let_def)
  next
    case False
    with step TRAILERS obtain eol where eol: "index_of [CR, LF, CR, LF] (cd_buf d) = Some eol"
      by (auto simp: chunked_step_def readTrailers_def trailer_end_index split: option.splits)
    then have "take 2 (cd_buf d @ b) = take 2 (cd_buf d)"
      using index_of_fits [OF eol] by simp
    with False step TRAILERS eol index_of_append [OF eol, of b] index_of_fits [OF eol] show ?thesis
      by (auto simp: chunked_step_def readTrailers_def trailer_end_index complete_body_def more_def Let_def split: option.splits)
  qed
next
  case DONE
  moreover assume "chunked_step lower d = (d', evs, Inr True)"
  ultimately show ?thesis
    by (simp add: chunked_step_def)
qed

text \<open>A step that waits leaves the decoder as it is, or delivers the part of a chunk that is there.\<close>

definition partial_data :: "chunked \<Rightarrow> chunked" where
  "partial_data d = d\<lparr>cd_buf := [], cd_remaining := cd_remaining d - length (cd_buf d),
                      cd_decoded := cd_decoded d + length (cd_buf d)\<rparr>"

lemma step_waits: "chunked_step lower d = (d', evs, Inr False) \<Longrightarrow>
    d' = d \<and> evs = [] \<or>
    cd_state d = DATA \<and> length (cd_buf d) < cd_remaining d \<and> d' = partial_data d \<and> evs = [OnData (cd_buf d)]"
  by (cases "cd_state d")
    (auto simp: chunked_step_def readSizeLine_def emitData_def lift_emit_def readTrailers_def partial_data_def Let_def
      split: option.splits sum.splits if_splits prod.splits)

text \<open>An error stays whatever follows, except that of a line whose end is cut off by one byte.\<close>

lemma size_line_error_more:
  assumes "readSizeLine d = (d', Inl e)" and "readSizeLine (more b d) = (w, Inr again)"
  shows "readSizeLine (relax d) = (relax d, Inr False)"
proof (cases "index_of [CR, LF] (cd_buf d)")
  case None
  have "int (length (cd_buf d)) \<le> cd_maxSizeLine d + 1"
  proof (cases "index_of [CR, LF] (cd_buf d @ b)")
    case none: None
    then show ?thesis
      using assms(2) by (simp add: readSizeLine_def findCRLF_def split: if_splits)
  next
    case (Some eol)
    then have "length (cd_buf d) < eol + 2"
      using not_found_before [OF None, of b eol] by (simp add: index_of_Some)
    moreover have "int eol \<le> cd_maxSizeLine d"
      using assms(2) Some by (simp add: readSizeLine_def findCRLF_def split: if_splits)
    ultimately show ?thesis by linarith
  qed
  with None show ?thesis
    by (simp add: readSizeLine_def findCRLF_def)
next
  case (Some eol)
  with assms index_of_append [OF Some, of b] index_of_fits [OF Some] show ?thesis
    by (auto simp: readSizeLine_def findCRLF_def Let_def split: sum.splits option.splits if_splits)
qed

lemma step_error_more:
  assumes "chunked_step lower d = (d', evs, Inl e)" and "chunked_step lower (more b d) = (w, evs', Inr again)"
  shows "chunked_step lower (relax d) = (relax d, [], Inr False)"
proof (cases "cd_state d")
  case SIZE_LINE
  then have "readSizeLine d = (d', Inl e)" "readSizeLine (more b d) = (w, Inr again)"
    using assms by (auto simp: chunked_step_def split: prod.splits)
  from size_line_error_more [OF this] SIZE_LINE show ?thesis
    by (simp add: chunked_step_def)
next
  case DATA
  then show ?thesis
    using assms by (auto simp: chunked_step_def emitData_def lift_emit_def Let_def split: if_splits)
next
  case DATA_CRLF
  then show ?thesis
    using assms by (auto simp: chunked_step_def nth_append split: if_splits)
next
  case TRAILERS
  then obtain eol where eol: "index_of [CR, LF, CR, LF] (cd_buf d) = Some eol" "take 2 (cd_buf d) \<noteq> [CR, LF]"
    using assms(1) by (auto simp: chunked_step_def readTrailers_def trailer_end_index complete_body_def split: option.splits if_splits)
  then have "take 2 (cd_buf d @ b) = take 2 (cd_buf d)"
    using index_of_fits [OF eol(1)] by simp
  with TRAILERS eol assms index_of_append [OF eol(1), of b] index_of_fits [OF eol(1)] show ?thesis
    by (auto simp: chunked_step_def readTrailers_def trailer_end_index complete_body_def Let_def split: option.splits if_splits)
next
  case DONE
  then show ?thesis
    using assms by (simp add: chunked_step_def)
qed

text \<open>The loop, one turn at a time.\<close>

lemma run_error: "chunked_step lower d = (d', evs, Inl e) \<Longrightarrow> run_chunked lower d = (d', evs, Some e)"
  by (subst run_chunked.simps) simp

lemma run_waits: "chunked_step lower d = (d', evs, Inr False) \<Longrightarrow> run_chunked lower d = (d', evs, None)"
  by (subst run_chunked.simps) simp

lemma run_again: "chunked_step lower d = (d', evs, Inr True) \<Longrightarrow>
    run_chunked lower d = (let (d', more, err) = run_chunked lower d' in (d', evs @ more, err))"
  by (subst run_chunked.simps) simp

lemma run_induct [case_names error waits again]:
  assumes "\<And>d d' evs e. chunked_step lower d = (d', evs, Inl e) \<Longrightarrow> P d"
    and "\<And>d d' evs. chunked_step lower d = (d', evs, Inr False) \<Longrightarrow> P d"
    and "\<And>d d' evs. chunked_step lower d = (d', evs, Inr True) \<Longrightarrow> P d' \<Longrightarrow> P d"
  shows "P d"
proof (induction "work_left d" arbitrary: d rule: less_induct)
  case less
  obtain d' evs r where step: "chunked_step lower d = (d', evs, r)"
    by (cases "chunked_step lower d") auto
  show ?case
  proof (cases r)
    case (Inr again)
    then show ?thesis
      using assms(2) [of d d' evs] assms(3) [of d d' evs] less [of d'] step step_progress [of lower d d' evs]
      by (cases again) auto
  qed (use assms(1) step in blast)
qed

text \<open>Delivering the part of a chunk that is there changes only where the data is cut.\<close>

lemma run_partial:
  assumes "cd_state d = DATA" and "length (cd_buf d) < cd_remaining d" and "run_chunked lower (more b d) = (w, evs, None)"
  shows "\<exists>evs'. run_chunked lower (more b (partial_data d)) = (w, evs', None)
    \<and> cd_buf d @ body_of evs' = body_of evs \<and> signals_of evs' = signals_of evs"
proof (cases "length (cd_buf d @ b) < cd_remaining d")
  case True
  then have "w = partial_data (more b d) \<and> evs = (if cd_buf d @ b = [] then [] else [OnData (cd_buf d @ b)])"
    using assms
    by (cases "cd_buf d @ b = []") (auto simp: run_chunked.simps chunked_step_def emitData_def lift_emit_def partial_data_def more_def Let_def split: if_splits)
  then show ?thesis
    using assms True
    by (cases "b = []") (auto simp: run_chunked.simps chunked_step_def emitData_def lift_emit_def partial_data_def more_def Let_def split: if_splits)
next
  case False
  define R where "R = cd_remaining d"
  define d1 where "d1 = d\<lparr>cd_buf := drop R (cd_buf d @ b), cd_remaining := 0, cd_decoded := cd_decoded d + R, cd_state := DATA_CRLF\<rparr>"
  have take_R: "take R (cd_buf d @ b) = cd_buf d @ take (R - length (cd_buf d)) b"
    and drop_R: "drop R (cd_buf d @ b) = drop (R - length (cd_buf d)) b"
    using assms(2) by (simp_all add: R_def)
  have fits: "\<not> (0 < cd_maxTotal d \<and> cd_maxTotal d < int (cd_decoded d + R))"
    using assms False by (auto simp: run_chunked.simps chunked_step_def emitData_def lift_emit_def R_def Let_def split: if_splits)
  have one: "chunked_step lower (more b d) = (d1, [OnData (take R (cd_buf d @ b))], Inr True)"
    using assms(1) False fits by (auto simp: chunked_step_def emitData_def lift_emit_def R_def d1_def more_def Let_def)
  have two: "chunked_step lower (more b (partial_data d)) = (d1, [OnData (take (R - length (cd_buf d)) b)], Inr True)"
    using assms(1,2) False fits drop_R
    by (auto simp: chunked_step_def emitData_def lift_emit_def R_def d1_def more_def partial_data_def Let_def)
  obtain ev1 where "run_chunked lower d1 = (w, ev1, None)" "evs = OnData (take R (cd_buf d @ b)) # ev1"
    using assms(3) by (auto simp: run_again [OF one] split: prod.splits)
  then show ?thesis
    using take_R by (auto simp: run_again [OF two])
qed

definition waiting :: "(jstring \<Rightarrow> jstring) \<Rightarrow> chunked \<Rightarrow> bool" where
  "waiting lower d \<longleftrightarrow> chunked_step lower (relax d) = (relax d, [], Inr False)"

lemma waiting_partial: "cd_state d = DATA \<Longrightarrow> length (cd_buf d) < cd_remaining d \<Longrightarrow> waiting lower (partial_data d)"
  by (simp add: waiting_def chunked_step_def partial_data_def)

text \<open>What a prefix of the bytes gives, when the decoder accepts all of them.\<close>

lemma run_prefix:
  "run_chunked lower (more b d) = (w, evs, None) \<Longrightarrow>
     \<exists>d1 ev1 w' ev2. run_chunked lower (relax d) = (relax d1, ev1, None) \<and> waiting lower d1
       \<and> chunked_feed lower b d1 = (w', ev2, None) \<and> settle w' = settle w
       \<and> body_of (ev1 @ ev2) = body_of evs \<and> signals_of (ev1 @ ev2) = signals_of evs"
proof (induction d arbitrary: w evs rule: run_induct [where lower = lower])
  case (error d d' evs' e)
  obtain w1 ev1 again where "chunked_step lower (more b d) = (w1, ev1, Inr again)"
    using error.prems by (cases "chunked_step lower (more b d)"; cases "snd (snd (chunked_step lower (more b d)))")
      (auto simp: run_error)
  then have waits: "chunked_step lower (relax d) = (relax d, [], Inr False)"
    by (rule step_error_more [OF error.hyps])
  moreover have "cd_state d \<noteq> DONE"
    using error.hyps by (auto simp: chunked_step_def)
  ultimately show ?case
    using error.prems by (intro exI [of _ d] exI [of _ "[]"] exI [of _ w] exI [of _ evs])
      (simp add: run_waits waiting_def chunked_feed_def more_def [symmetric])
next
  case (waits d d' evs')
  note relaxed = step_relax [OF waits.hyps]
  from step_waits [OF waits.hyps] show ?case
  proof (elim disjE conjE)
    assume eq: "d' = d" "evs' = []"
    show ?thesis
    proof (cases "cd_state d = DONE")
      case True
      then have "w = more b d" "evs = []"
        using waits.prems by (simp_all add: run_chunked.simps chunked_step_def)
      with True relaxed eq show ?thesis
        by (intro exI [of _ d] exI [of _ "[]"] exI [of _ d] exI [of _ "[]"])
          (simp add: run_waits waiting_def chunked_feed_def settle_def more_def)
    next
      case False
      with relaxed eq waits.prems show ?thesis
        by (intro exI [of _ d] exI [of _ "[]"] exI [of _ w] exI [of _ evs])
          (simp add: run_waits waiting_def chunked_feed_def more_def [symmetric])
    qed
  next
    assume p: "cd_state d = DATA" "length (cd_buf d) < cd_remaining d" "d' = partial_data d" "evs' = [OnData (cd_buf d)]"
    obtain ev2 where "run_chunked lower (more b (partial_data d)) = (w, ev2, None)"
        "cd_buf d @ body_of ev2 = body_of evs" "signals_of ev2 = signals_of evs"
      using run_partial [OF p(1,2) waits.prems] by blast
    with p relaxed show ?thesis
      by (intro exI [of _ "partial_data d"] exI [of _ "[OnData (cd_buf d)]"] exI [of _ w] exI [of _ ev2])
        (simp add: run_waits waiting_partial chunked_feed_def more_def [symmetric], simp add: partial_data_def)
  qed
next
  case (again d d' evs')
  obtain ev where "run_chunked lower (more b d') = (w, ev, None)" and evs: "evs = evs' @ ev"
    using again.prems by (auto simp: run_again [OF step_again_more [OF again.hyps]] split: prod.splits)
  from again.IH [OF this(1)] obtain d1 ev1 w' ev2 where
      run: "run_chunked lower (relax d') = (relax d1, ev1, None)" "waiting lower d1"
        "chunked_feed lower b d1 = (w', ev2, None)" "settle w' = settle w"
        "body_of (ev1 @ ev2) = body_of ev" "signals_of (ev1 @ ev2) = signals_of ev"
    by blast
  have "run_chunked lower (relax d) = (relax d1, evs' @ ev1, None)"
    by (simp add: run_again [OF step_relax [OF again.hyps]] run(1))
  with run evs show ?case
    by (intro exI [of _ d1] exI [of _ "evs' @ ev1"] exI [of _ w'] exI [of _ ev2]) simp
qed

definition feed_relaxed :: "(jstring \<Rightarrow> jstring) \<Rightarrow> byte list \<Rightarrow> chunked \<Rightarrow> chunked \<times> chunked_event list \<times> chunked_error option" where
  "feed_relaxed lower seg d =
     (let (d', evs, err) = chunked_feed lower seg (relax d) in (d'\<lparr>cd_maxSizeLine := cd_maxSizeLine d' - 1\<rparr>, evs, err))"

lemma relax_inject: "relax d = relax d' \<Longrightarrow> d = d'"
  by (metis add_diff_cancel_right' chunked.surjective chunked.update_convs(1) relax_def relax_simps(4))

lemma relax_undo [simp]: "(relax d)\<lparr>cd_maxSizeLine := cd_maxSizeLine d\<rparr> = d"
  by (simp add: relax_def)

lemma feed_cut:
  assumes "waiting lower d" and "chunked_feed lower (a @ b) d = (w, evs, None)"
  shows "\<exists>d1 ev1 w' ev2. feed_relaxed lower a d = (d1, ev1, None) \<and> waiting lower d1 \<and> chunked_feed lower b d1 = (w', ev2, None)
    \<and> settle w' = settle w \<and> body_of (ev1 @ ev2) = body_of evs \<and> signals_of (ev1 @ ev2) = signals_of evs"
proof (cases "cd_state d = DONE")
  case True
  with assms show ?thesis
    by (simp add: feed_relaxed_def chunked_feed_def)
next
  case False
  have "run_chunked lower (more b (more a d)) = (w, evs, None)"
    using False assms(2) by (simp add: chunked_feed_def more_def)
  from run_prefix [OF this] obtain d1 ev1 w' ev2 where
      run: "run_chunked lower (relax (more a d)) = (relax d1, ev1, None)" "waiting lower d1"
        "chunked_feed lower b d1 = (w', ev2, None)" "settle w' = settle w"
        "body_of (ev1 @ ev2) = body_of evs" "signals_of (ev1 @ ev2) = signals_of evs"
    by blast
  have eq: "(relax d)\<lparr>cd_buf := cd_buf d @ a\<rparr> = relax (more a d)"
    by (simp add: relax_def more_def)
  have "feed_relaxed lower a d = (d1, ev1, None)"
    unfolding feed_relaxed_def chunked_feed_def relax_simps eq using run(1) False by simp
  with run show ?thesis by blast
qed

lemma feed_pause:
  assumes "waiting lower d" and "chunked_feed lower [] d = (w, evs, None)"
  shows "w = d \<and> evs = []"
proof (cases "cd_state d = DONE")
  case False
  then have run: "run_chunked lower d = (w, evs, None)"
    using assms(2) by (simp add: chunked_feed_def)
  obtain d' evs' r where step: "chunked_step lower d = (d', evs', r)"
    by (cases "chunked_step lower d") auto
  with run obtain again where "r = Inr again"
    by (cases r) (simp_all add: run_error)
  with step have "chunked_step lower (relax d) = (relax d', evs', Inr again)"
    using step_relax by simp
  with assms(1) have "d' = d" "evs' = []" "\<not> again"
    by (simp_all add: waiting_def relax_inject)
  with run step \<open>r = Inr again\<close> show ?thesis
    by (simp add: run_waits)
qed (use assms in \<open>simp add: chunked_feed_def\<close>)

interpretation chunked_stream:
  segmented_feed "chunked_feed lower" "feed_relaxed lower" "waiting lower" settle "\<lambda>evs. (body_of evs, signals_of evs)" for lower
proof (unfold_locales, goal_cases)
  case (1 s a b s' out)
  from feed_cut [OF this] show ?case by force
next
  case (2 s s' out)
  from feed_pause [OF this] show ?case by simp
qed simp

lemma feed_all_relaxed:
  "feed_all (chunked_feed lower) segs (relax d) = (let (t, evs, err) = feed_all (feed_relaxed lower) segs d in (relax t, evs, err))"
proof (induction segs arbitrary: d)
  case (Cons seg segs)
  obtain t evs err where feed: "chunked_feed lower seg (relax d) = (t, evs, err)"
    by (cases "chunked_feed lower seg (relax d)") auto
  have "t = relax (t\<lparr>cd_maxSizeLine := cd_maxSizeLine t - 1\<rparr>)"
    by (simp add: relax_def)
  with feed Cons [of "t\<lparr>cd_maxSizeLine := cd_maxSizeLine t - 1\<rparr>"] show ?case
    by (simp add: feed_relaxed_def Let_def split: option.split prod.split)
qed simp

lemma relax_new: "co_maxChunkSizeLineBytes options = Some limit \<Longrightarrow> 16 \<le> limit \<Longrightarrow>
    new_chunked (options\<lparr>co_maxChunkSizeLineBytes := Some (limit + 1)\<rparr>) = relax (new_chunked options)"
  by (simp add: new_chunked_def relax_def)

lemma waiting_new: "waiting lower (new_chunked options)"
  by (simp add: waiting_def chunked_step_def readSizeLine_def findCRLF_def new_chunked_def relax_def)

lemma chunked_any_segmentation_from:
  assumes "co_maxChunkSizeLineBytes options = Some limit" and "16 \<le> limit"
    and "chunked_feed lower (concat segs) (new_chunked options) = (d, evs, None)"
  shows "\<exists>d' evs'. feed_all (chunked_feed lower) segs (new_chunked (options\<lparr>co_maxChunkSizeLineBytes := Some (limit + 1)\<rparr>)) = (d', evs', None)
    \<and> body_of evs' = body_of evs \<and> signals_of evs' = signals_of evs
    \<and> cd_state d' = cd_state d \<and> cd_chunks d' = cd_chunks d \<and> cd_decoded d' = cd_decoded d"
proof -
  obtain t out where t: "feed_all (feed_relaxed lower) segs (new_chunked options) = (t, out, None)" "settle t = settle d"
      "body_of out = body_of evs" "signals_of out = signals_of evs"
    using chunked_stream.any_segmentation [OF waiting_new assms(3)] by blast
  have "cd_state (settle x) = cd_state x" "cd_chunks (settle x) = cd_chunks x" "cd_decoded (settle x) = cd_decoded x" for x
    by (simp_all add: settle_def)
  with t show ?thesis
    unfolding relax_new [OF assms(1,2)] by (metis feed_all_relaxed prod.simps(2) relax_simps(2,6,7))
qed

text \<open>
  A stream that the decoder accepts when it comes at once is accepted however it is cut into segments,
  with the same body, the same trailers and the same end, by a decoder whose size line may be one byte
  longer (without that byte a cut between the CR and the LF of a line of full length is refused).
\<close>

theorem chunked_any_segmentation:
  assumes "co_maxChunkSizeLineBytes options = Some limit" and "16 \<le> limit"
    and "chunked_feed lower (concat segs) (new_chunked options) = (d, evs, None)"
  shows "\<exists>d' evs'. feed_all (chunked_feed lower) segs (new_chunked (options\<lparr>co_maxChunkSizeLineBytes := Some (limit + 1)\<rparr>)) = (d', evs', None)
    \<and> body_of evs' = body_of evs \<and> signals_of evs' = signals_of evs
    \<and> cd_state d' = cd_state d \<and> cd_chunks d' = cd_chunks d \<and> cd_decoded d' = cd_decoded d"
  using assms by (rule chunked_any_segmentation_from)

theorem chunked_any_segmentation_witness:
  "\<exists>d' evs'. feed_all (chunked_feed (\<lambda>s. s)) [[0x32, CR], [LF, 7], [8, CR]]
       (new_chunked \<lparr>co_maxChunkSizeLineBytes = Some 17, co_maxTotalBytes = None, co_allowedTrailers = None\<rparr>) = (d', evs', None)
     \<and> body_of evs' = [7, 8] \<and> cd_chunks d' = 1 \<and> cd_decoded d' = 2"
proof -
  let ?options = "\<lparr>co_maxChunkSizeLineBytes = Some 16, co_maxTotalBytes = None, co_allowedTrailers = None\<rparr>"
  let ?segs = "[[0x32, CR], [LF, 7], [8, CR]]"
  obtain d evs err where fed: "chunked_feed (\<lambda>s. s) (concat ?segs) (new_chunked ?options) = (d, evs, err)"
    by (cases "chunked_feed (\<lambda>s. s) (concat ?segs) (new_chunked ?options)") auto
  have "err = None \<and> body_of evs = [7, 8] \<and> cd_chunks d = 1 \<and> cd_decoded d = 2"
    using fed by (simp add: chunked_feed_def new_chunked_def run_chunked.simps chunked_step_def readSizeLine_def findCRLF_def
        isHex_def hexVal_def emitData_def lift_emit_def Let_def) auto
  moreover have "\<exists>d' evs'. feed_all (chunked_feed (\<lambda>s. s)) ?segs (new_chunked (?options\<lparr>co_maxChunkSizeLineBytes := Some (16 + 1)\<rparr>)) = (d', evs', None)
      \<and> body_of evs' = body_of evs \<and> signals_of evs' = signals_of evs
      \<and> cd_state d' = cd_state d \<and> cd_chunks d' = cd_chunks d \<and> cd_decoded d' = cd_decoded d"
    using fed calculation by (intro chunked_any_segmentation [of ?options 16]) simp_all
  ultimately show ?thesis
    by (simp del: feed_all.simps) metis
qed

section \<open>Well-formed streams\<close>

text \<open>
  The wire format of RFC 9112, section 7.1: chunks of hexadecimal size line, extensions and data, the last
  chunk, and the trailer lines.
\<close>

definition hex_value :: "byte list \<Rightarrow> nat" where
  "hex_value hex = foldl (\<lambda>n b. n * 16 + hexVal b) 0 hex"

definition size_line_ok :: "int \<Rightarrow> byte list \<Rightarrow> byte list \<Rightarrow> bool" where
  "size_line_ok limit hex ext \<longleftrightarrow>
     hex \<noteq> [] \<and> list_all isHex hex \<and> hex_value hex \<le> 0x7fffffff
     \<and> (ext = [] \<or> hd ext = SEMI) \<and> \<not> list_ex control_byte ext \<and> int (length (hex @ ext)) \<le> limit"

definition chunk_ok :: "int \<Rightarrow> byte list \<times> byte list \<times> byte list \<Rightarrow> bool" where
  "chunk_ok limit = (\<lambda>(hex, ext, data). size_line_ok limit hex ext \<and> data \<noteq> [] \<and> hex_value hex = length data)"

definition chunk_wire :: "byte list \<times> byte list \<times> byte list \<Rightarrow> byte list" where
  "chunk_wire = (\<lambda>(hex, ext, data). hex @ ext @ [CR, LF] @ data @ [CR, LF])"

definition trailer_wire :: "byte list list \<Rightarrow> byte list" where
  "trailer_wire lines = (if lines = [] then [CR, LF] else join_lines lines @ [CR, LF, CR, LF])"

definition trailers_read :: "(jstring \<Rightarrow> jstring) \<Rightarrow> byte list list \<Rightarrow> header_map" where
  "trailers_read lower lines = (if lines = [] then jmap_empty else parseHeaderBlock lower (join_lines lines))"

lemma hex_foldl_mono: "n \<le> foldl (\<lambda>n b. n * 16 + hexVal b) n hex"
proof (induction hex arbitrary: n)
  case (Cons b hex)
  have "n \<le> n * 16 + hexVal b" by simp
  also have "\<dots> \<le> foldl (\<lambda>n b. n * 16 + hexVal b) (n * 16 + hexVal b) hex"
    by (rule Cons)
  finally show ?case by simp
qed simp

lemma hex_not_separator: "isHex b \<Longrightarrow> b \<noteq> SEMI \<and> b \<noteq> CR"
  by (auto simp: isHex_def)

lemma parse_size_digits:
  "list_all isHex hex \<Longrightarrow> foldl (\<lambda>n b. n * 16 + hexVal b) n hex \<le> 0x7fffffff \<Longrightarrow> ext = [] \<or> hd ext = SEMI \<Longrightarrow>
     parse_size n (hex @ ext) = Inr (foldl (\<lambda>n b. n * 16 + hexVal b) n hex, ext)"
proof (induction hex arbitrary: n)
  case Nil
  then show ?case by (cases ext) auto
next
  case (Cons b hex)
  have "n * 16 + hexVal b \<le> 0x7fffffff"
    using hex_foldl_mono [of "n * 16 + hexVal b" hex] Cons.prems(2) by simp
  with Cons show ?case
    by (simp add: hex_not_separator)
qed

lemma size_line_step:
  assumes "size_line_ok (cd_maxSizeLine d) hex ext" and "cd_state d = SIZE_LINE" and "cd_buf d = hex @ ext @ CR # LF # rest"
  shows "chunked_step lower d =
    (if hex_value hex = 0 then d\<lparr>cd_buf := rest, cd_state := TRAILERS\<rparr>
     else d\<lparr>cd_buf := rest, cd_remaining := hex_value hex, cd_chunks := cd_chunks d + 1, cd_state := DATA\<rparr>, [], Inr True)"
proof -
  have ok: "hex \<noteq> []" "list_all isHex hex" "hex_value hex \<le> 0x7fffffff" "ext = [] \<or> hd ext = SEMI"
      "\<not> list_ex control_byte ext" "int (length (hex @ ext)) \<le> cd_maxSizeLine d"
    using assms(1) by (simp_all add: size_line_ok_def)
  have "CR \<notin> set (hex @ ext)"
    using ok(2,5) hex_not_separator by (auto simp: list_all_iff list_ex_iff control_byte_def)
  then have "index_of [CR, LF] (hex @ ext) = None"
    by (rule index_of_absent)
  from index_of_pair [OF this, of rest]
  have "index_of [CR, LF] (cd_buf d) = Some (length (hex @ ext))"
    using assms(3) by simp
  moreover have "List.find control_byte ext = None"
    using ok(5) by (simp add: find_None_iff list_ex_iff)
  moreover have "parse_size 0 (hex @ ext) = Inr (hex_value hex, ext)"
    using parse_size_digits [of hex 0 ext] ok by (simp add: hex_value_def)
  ultimately show ?thesis
    using assms(2,3) ok(1,6) by (simp add: chunked_step_def readSizeLine_def findCRLF_def Let_def)
qed

definition within_total :: "chunked \<Rightarrow> nat \<Rightarrow> bool" where
  "within_total d n \<longleftrightarrow> \<not> (0 < cd_maxTotal d \<and> cd_maxTotal d < int (cd_decoded d + n))"

lemma chunk_run:
  assumes "chunk_ok (cd_maxSizeLine d) chunk" and "cd_state d = SIZE_LINE" and "cd_buf d = chunk_wire chunk @ rest"
    and "within_total d (length (snd (snd chunk)))"
  shows "run_chunked lower d =
    (let (d', evs, err) = run_chunked lower (d\<lparr>cd_buf := rest, cd_remaining := 0, cd_chunks := cd_chunks d + 1,
         cd_decoded := cd_decoded d + length (snd (snd chunk))\<rparr>)
     in (d', OnData (snd (snd chunk)) # evs, err))"
proof -
  obtain hex ext data where chunk: "chunk = (hex, ext, data)"
    by (cases chunk) auto
  have ok: "size_line_ok (cd_maxSizeLine d) hex ext" "data \<noteq> []" "hex_value hex = length data"
    using assms(1) by (simp_all add: chunk chunk_ok_def)
  define d1 where "d1 = d\<lparr>cd_buf := data @ CR # LF # rest, cd_remaining := length data, cd_chunks := cd_chunks d + 1, cd_state := DATA\<rparr>"
  define d2 where "d2 = d1\<lparr>cd_buf := CR # LF # rest, cd_remaining := 0, cd_decoded := cd_decoded d + length data, cd_state := DATA_CRLF\<rparr>"
  have "cd_buf d = hex @ ext @ CR # LF # data @ CR # LF # rest"
    using assms(3) by (simp add: chunk chunk_wire_def)
  from size_line_step [OF ok(1) assms(2) this] have 1: "chunked_step lower d = (d1, [], Inr True)"
    using ok(2,3) by (simp add: d1_def)
  have 2: "chunked_step lower d1 = (d2, [OnData data], Inr True)"
    using assms(4) by (auto simp: chunked_step_def emitData_def lift_emit_def d1_def d2_def within_total_def chunk Let_def)
  have 3: "chunked_step lower d2 = (d2\<lparr>cd_buf := rest, cd_state := SIZE_LINE\<rparr>, [], Inr True)"
    by (simp add: chunked_step_def d2_def)
  have "d2\<lparr>cd_buf := rest, cd_state := SIZE_LINE\<rparr> =
      d\<lparr>cd_buf := rest, cd_remaining := 0, cd_chunks := cd_chunks d + 1, cd_decoded := cd_decoded d + length data\<rparr>"
    using assms(2) by (simp add: d1_def d2_def)
  then show ?thesis
    unfolding run_again [OF 1] run_again [OF 2] run_again [OF 3] by (simp add: chunk case_prod_beta)
qed

lemma chunks_run:
  assumes "list_all (chunk_ok (cd_maxSizeLine d)) chunks" and "cd_state d = SIZE_LINE" and "cd_remaining d = 0"
    and "cd_buf d = concat (map chunk_wire chunks) @ rest"
    and "within_total d (length (concat (map (snd \<circ> snd) chunks)))"
  shows "run_chunked lower d =
    (let (d', evs, err) = run_chunked lower (d\<lparr>cd_buf := rest, cd_chunks := cd_chunks d + length chunks,
         cd_decoded := cd_decoded d + length (concat (map (snd \<circ> snd) chunks))\<rparr>)
     in (d', map (OnData \<circ> (snd \<circ> snd)) chunks @ evs, err))"
  using assms
proof (induction chunks arbitrary: d)
  case Nil
  then show ?case by (cases d) (simp add: case_prod_beta)
next
  case (Cons chunk chunks)
  define d1 where "d1 = d\<lparr>cd_buf := concat (map chunk_wire chunks) @ rest, cd_remaining := 0,
      cd_chunks := cd_chunks d + 1, cd_decoded := cd_decoded d + length (snd (snd chunk))\<rparr>"
  have one: "run_chunked lower d = (let (d', evs, err) = run_chunked lower d1 in (d', OnData (snd (snd chunk)) # evs, err))"
    unfolding d1_def using Cons.prems by (intro chunk_run) (auto simp: within_total_def)
  have rest: "run_chunked lower d1 =
    (let (d', evs, err) = run_chunked lower (d1\<lparr>cd_buf := rest, cd_chunks := cd_chunks d1 + length chunks,
         cd_decoded := cd_decoded d1 + length (concat (map (snd \<circ> snd) chunks))\<rparr>)
     in (d', map (OnData \<circ> (snd \<circ> snd)) chunks @ evs, err))"
    using Cons.prems by (intro Cons.IH) (simp_all add: d1_def within_total_def add.assoc)
  have "d1\<lparr>cd_buf := rest, cd_chunks := cd_chunks d1 + length chunks,
         cd_decoded := cd_decoded d1 + length (concat (map (snd \<circ> snd) chunks))\<rparr> =
      d\<lparr>cd_buf := rest, cd_chunks := cd_chunks d + length (chunk # chunks),
         cd_decoded := cd_decoded d + length (concat (map (snd \<circ> snd) (chunk # chunks)))\<rparr>"
    using Cons.prems(3) by (simp add: d1_def)
  with rest show ?case
    unfolding one by (simp add: case_prod_beta Let_def comp_def)
qed

lemma trailer_run:
  assumes "list_all field_line_ok lines" and "cd_state d = TRAILERS" and "cd_buf d = trailer_wire lines"
    and "not_allowed (cd_allowedTrailers d) (trailers_read lower lines) = None"
  shows "run_chunked lower d = (d\<lparr>cd_buf := [], cd_state := DONE\<rparr>, [OnTrailers (trailers_read lower lines), OnComplete], None)"
proof -
  have "chunked_step lower d = (d\<lparr>cd_buf := [], cd_state := DONE\<rparr>, [OnTrailers (trailers_read lower lines), OnComplete], Inr True)"
    using assms block_end [of lines "[]"]
    by (cases "lines = []")
      (auto simp: chunked_step_def readTrailers_def trailer_wire_def trailers_read_def complete_body_def trailer_end_index)
  then show ?thesis
    by (simp add: run_again) (simp add: run_chunked.simps chunked_step_def)
qed

text \<open>The whole stream, fed at once.\<close>

definition chunked_wire :: "(byte list \<times> byte list \<times> byte list) list \<Rightarrow> byte list \<times> byte list \<Rightarrow> byte list list \<Rightarrow> byte list" where
  "chunked_wire chunks final_chunk lines =
     concat (map chunk_wire chunks) @ fst final_chunk @ snd final_chunk @ [CR, LF] @ trailer_wire lines"

lemma wire_run:
  assumes "list_all (chunk_ok (cd_maxSizeLine d)) chunks"
    and "size_line_ok (cd_maxSizeLine d) (fst final_chunk) (snd final_chunk)" and "hex_value (fst final_chunk) = 0"
    and "list_all field_line_ok lines" and "not_allowed (cd_allowedTrailers d) (trailers_read lower lines) = None"
    and "within_total d (length (concat (map (snd \<circ> snd) chunks)))"
    and "cd_state d = SIZE_LINE" and "cd_remaining d = 0" and "cd_buf d = []"
  shows "chunked_feed lower (chunked_wire chunks final_chunk lines) d =
    (d\<lparr>cd_state := DONE, cd_chunks := cd_chunks d + length chunks,
       cd_decoded := cd_decoded d + length (concat (map (snd \<circ> snd) chunks))\<rparr>,
     map (OnData \<circ> (snd \<circ> snd)) chunks @ [OnTrailers (trailers_read lower lines), OnComplete], None)"
proof -
  define tail where "tail = fst final_chunk @ snd final_chunk @ CR # LF # trailer_wire lines"
  define d0 where "d0 = d\<lparr>cd_buf := concat (map chunk_wire chunks) @ tail\<rparr>"
  define d1 where "d1 = d\<lparr>cd_buf := tail, cd_chunks := cd_chunks d + length chunks,
      cd_decoded := cd_decoded d + length (concat (map (snd \<circ> snd) chunks))\<rparr>"
  define d2 where "d2 = d1\<lparr>cd_buf := trailer_wire lines, cd_state := TRAILERS\<rparr>"
  have "run_chunked lower d0 = (let (d', evs, err) = run_chunked lower d1 in (d', map (OnData \<circ> (snd \<circ> snd)) chunks @ evs, err))"
    using chunks_run [of d0 chunks tail lower] assms by (simp add: d0_def d1_def within_total_def)
  moreover have "chunked_step lower d1 = (d2, [], Inr True)"
    using size_line_step [of d1 "fst final_chunk" "snd final_chunk" "trailer_wire lines" lower] assms
    by (simp add: d1_def d2_def tail_def)
  moreover have "run_chunked lower d2 = (d2\<lparr>cd_buf := [], cd_state := DONE\<rparr>, [OnTrailers (trailers_read lower lines), OnComplete], None)"
    using assms by (intro trailer_run) (simp_all add: d2_def d1_def)
  moreover have "chunked_feed lower (chunked_wire chunks final_chunk lines) d = run_chunked lower d0"
    using assms(7,9) by (simp add: chunked_feed_def d0_def chunked_wire_def tail_def)
  ultimately show ?thesis
    using assms(9) by (simp add: run_again d2_def d1_def)
qed

text \<open>
  C13: a well-formed chunked stream is decoded to its message in every segmentation: the body delivered is
  the data of the chunks, the trailers those of the trailer lines, and the decoder is done. The size lines
  must be shorter than the cap, the sizes below 2 to the 31, the data within the total cap and the trailers
  allowed.
\<close>

theorem chunked_stream_decoded:
  assumes "co_maxChunkSizeLineBytes options = Some (limit + 1)" and "16 \<le> limit"
    and "list_all (chunk_ok limit) chunks"
    and "size_line_ok limit (fst final_chunk) (snd final_chunk)" and "hex_value (fst final_chunk) = 0"
    and "list_all field_line_ok lines" and "not_allowed (co_allowedTrailers options) (trailers_read lower lines) = None"
    and "case co_maxTotalBytes options of None \<Rightarrow> True | Some n \<Rightarrow> n \<le> 0 \<or> int (length (concat (map (snd \<circ> snd) chunks))) \<le> n"
    and "concat segs = chunked_wire chunks final_chunk lines"
  shows "\<exists>d evs. feed_all (chunked_feed lower) segs (new_chunked options) = (d, evs, None)
    \<and> body_of evs = concat (map (snd \<circ> snd) chunks)
    \<and> signals_of evs = [OnTrailers (trailers_read lower lines), OnComplete]
    \<and> chunked_done d \<and> chunked_finish d = None \<and> cd_chunks d = length chunks"
proof -
  define o1 where "o1 = options\<lparr>co_maxChunkSizeLineBytes := Some limit\<rparr>"
  have options: "o1\<lparr>co_maxChunkSizeLineBytes := Some (limit + 1)\<rparr> = options"
    using assms(1) by (simp add: o1_def)
  have body: "body_of (map (OnData \<circ> f) xs @ ys) = concat (map f xs) @ body_of ys"
    and signals: "signals_of (map (OnData \<circ> f) xs @ ys) = signals_of ys"
    for f :: "byte list \<times> byte list \<times> byte list \<Rightarrow> byte list" and xs ys
    by (induction xs) simp_all
  define evs where "evs = map (OnData \<circ> (snd \<circ> snd)) chunks @ [OnTrailers (trailers_read lower lines), OnComplete]"
  have seen: "body_of evs = concat (map (snd \<circ> snd) chunks)" "signals_of evs = [OnTrailers (trailers_read lower lines), OnComplete]"
    unfolding evs_def body signals by (simp_all add: body_of_def signals_of_def)
  obtain d where "chunked_feed lower (concat segs) (new_chunked o1) = (d, evs, None)" "cd_state d = DONE" "cd_chunks d = length chunks"
    using assms wire_run [of "new_chunked o1" chunks final_chunk lines lower]
    by (auto simp: o1_def new_chunked_def within_total_def evs_def split: option.splits)
  with chunked_any_segmentation_from [of o1 limit lower segs d evs] assms(2) seen options show ?thesis
    by (auto simp: o1_def chunked_done_def chunked_finish_def)
qed

theorem chunked_stream_decoded_witness:
  "\<exists>d evs. feed_all (chunked_feed (\<lambda>s. s)) [[0x33, CR], [LF, 1, 2], [3, CR, LF, 0x30, CR], [LF, CR], [LF]]
       (new_chunked \<lparr>co_maxChunkSizeLineBytes = Some 17, co_maxTotalBytes = Some 3, co_allowedTrailers = None\<rparr>) = (d, evs, None)
    \<and> body_of evs = [1, 2, 3]
    \<and> signals_of evs = [OnTrailers jmap_empty, OnComplete]
    \<and> chunked_done d \<and> chunked_finish d = None \<and> cd_chunks d = 1"
  using chunked_stream_decoded [where options = "\<lparr>co_maxChunkSizeLineBytes = Some 17, co_maxTotalBytes = Some 3, co_allowedTrailers = None\<rparr>"
      and limit = 16 and chunks = "[([0x33], [], [1, 2, 3])]" and final_chunk = "([0x30], [])" and lines = "[]"
      and segs = "[[0x33, CR], [LF, 1, 2], [3, CR, LF, 0x30, CR], [LF, CR], [LF]]" and lower = "\<lambda>s. s"]
  by (simp add: chunk_ok_def size_line_ok_def isHex_def hexVal_def hex_value_def not_allowed_def trailers_read_def
      chunked_wire_def chunk_wire_def trailer_wire_def)

section \<open>Bounds\<close>

definition total_ok :: "chunked \<Rightarrow> chunked_event list \<Rightarrow> bool" where
  "total_ok d evs \<longleftrightarrow> (0 < cd_maxTotal d \<longrightarrow> int (cd_decoded d + length (body_of evs)) \<le> cd_maxTotal d)"

lemma signals_carry_no_body [simp]: "body_of (OnTrailers t # evs) = body_of evs" "body_of (OnComplete # evs) = body_of evs"
  by (simp_all add: body_of_def)

lemma step_total:
  assumes "chunked_step lower d = (d', evs, r)" and "total_ok d []"
  shows "cd_maxTotal d' = cd_maxTotal d \<and> total_ok d evs
    \<and> (\<not> isl r \<longrightarrow> cd_decoded d' = cd_decoded d + length (body_of evs))"
proof (cases "cd_state d")
  case DATA
  then show ?thesis
    using assms by (auto simp: chunked_step_def emitData_def lift_emit_def total_ok_def Let_def split: if_splits)
qed (use assms in \<open>auto simp: chunked_step_def readSizeLine_def readTrailers_def complete_body_def total_ok_def Let_def
      split: option.splits sum.splits if_splits\<close>)

lemma run_total:
  "run_chunked lower d = (d', evs, err) \<Longrightarrow> total_ok d [] \<Longrightarrow>
     cd_maxTotal d' = cd_maxTotal d \<and> total_ok d evs \<and> (err = None \<longrightarrow> cd_decoded d' = cd_decoded d + length (body_of evs))"
proof (induction d arbitrary: d' evs err rule: run_induct [where lower = lower])
  case (error d d1 ev1 e)
  then show ?case
    using step_total [OF error.hyps] by (auto simp: run_error [OF error.hyps])
next
  case (waits d d1 ev1)
  then show ?case
    using step_total [OF waits.hyps] by (simp add: run_waits [OF waits.hyps])
next
  case (again d d1 ev1)
  obtain ev2 where run: "run_chunked lower d1 = (d', ev2, err)" and evs: "evs = ev1 @ ev2"
    using again.prems(1) by (auto simp: run_again [OF again.hyps] split: prod.splits)
  have one: "cd_maxTotal d1 = cd_maxTotal d" "total_ok d ev1" "cd_decoded d1 = cd_decoded d + length (body_of ev1)"
    using step_total [OF again.hyps again.prems(2)] by simp_all
  then have "total_ok d1 []"
    by (simp add: total_ok_def)
  from again.IH [OF run this] one evs show ?case
    by (auto simp: total_ok_def add.assoc)
qed

lemma feed_all_total:
  "feed_all (chunked_feed lower) segs d = (d', evs, err) \<Longrightarrow> total_ok d [] \<Longrightarrow>
     total_ok d evs \<and> (err = None \<longrightarrow> cd_decoded d' = cd_decoded d + length (body_of evs))"
proof (induction segs arbitrary: d evs)
  case (Cons seg segs)
  obtain d1 ev1 err1 where feed: "chunked_feed lower seg d = (d1, ev1, err1)"
    by (cases "chunked_feed lower seg d") auto
  have one: "cd_maxTotal d1 = cd_maxTotal d \<and> total_ok d ev1 \<and> (err1 = None \<longrightarrow> cd_decoded d1 = cd_decoded d + length (body_of ev1))"
  proof (cases "cd_state d = DONE")
    case True
    with feed Cons.prems(2) show ?thesis
      by (auto simp: chunked_feed_def)
  next
    case False
    with feed have "run_chunked lower (d\<lparr>cd_buf := cd_buf d @ seg\<rparr>) = (d1, ev1, err1)"
      by (simp add: chunked_feed_def)
    from run_total [OF this] Cons.prems(2) show ?thesis
      by (simp add: total_ok_def)
  qed
  show ?case
  proof (cases err1)
    case None
    with Cons.prems feed obtain ev2 where "feed_all (chunked_feed lower) segs d1 = (d', ev2, err)" "evs = ev1 @ ev2"
      by (auto split: prod.splits)
    with Cons.IH [of d1 ev2] one None show ?thesis
      by (auto simp: total_ok_def add.assoc)
  next
    case (Some e)
    with Cons.prems feed one show ?thesis by auto
  qed
qed simp

text \<open>
  Whatever is fed and whatever sizes are declared, the decoder never delivers more than
  \<open>maxTotalBytes\<close> when that is positive, the call that fails included, and the bytes it counts are the
  bytes it delivered.
\<close>

theorem chunked_body_bounded:
  assumes "feed_all (chunked_feed lower) segs (new_chunked options) = (d, evs, err)"
  shows "(case co_maxTotalBytes options of None \<Rightarrow> True | Some n \<Rightarrow> n \<le> 0 \<or> int (length (body_of evs)) \<le> n)
    \<and> (err = None \<longrightarrow> cd_decoded d = length (body_of evs))"
proof -
  have "total_ok (new_chunked options) []"
    by (simp add: total_ok_def new_chunked_def max_def split: option.splits)
  from feed_all_total [OF assms this] show ?thesis
    by (auto simp: total_ok_def new_chunked_def max_def split: option.splits if_splits)
qed

theorem chunked_body_bounded_witness:
  "(case feed_all (chunked_feed (\<lambda>s. s)) [[0x35, CR, LF, 1, 2, 3], [4, 5, CR, LF]]
       (new_chunked \<lparr>co_maxChunkSizeLineBytes = None, co_maxTotalBytes = Some 4, co_allowedTrailers = None\<rparr>) of
      (d, evs, err) \<Rightarrow> int (length (body_of evs)) \<le> 4 \<and> err = Some (BodyExceeded 4))"
proof -
  let ?options = "\<lparr>co_maxChunkSizeLineBytes = None, co_maxTotalBytes = Some 4, co_allowedTrailers = None\<rparr>"
  obtain d evs err where fed:
      "feed_all (chunked_feed (\<lambda>s. s)) [[0x35, CR, LF, 1, 2, 3], [4, 5, CR, LF]] (new_chunked ?options) = (d, evs, err)"
    by (cases "feed_all (chunked_feed (\<lambda>s. s)) [[0x35, CR, LF, 1, 2, 3], [4, 5, CR, LF]] (new_chunked ?options)") auto
  moreover have "err = Some (BodyExceeded 4)"
    using fed by (simp add: chunked_feed_def new_chunked_def run_chunked.simps chunked_step_def readSizeLine_def findCRLF_def
        isHex_def hexVal_def emitData_def lift_emit_def Let_def)
  ultimately show ?thesis
    using chunked_body_bounded [OF fed] by simp
qed

text \<open>
  The size-line cap depends on the cut: a line of exactly the capped length is accepted when its CR LF
  comes in one segment and refused when the segment ends between the two.
\<close>

theorem chunked_cap_depends_on_cut:
  "let line = [0x31, SEMI, 0x61, 0x61, 0x61, 0x61, 0x61, 0x61, 0x61, 0x61, 0x61, 0x61, 0x61, 0x61, 0x61, 0x61];
       d = new_chunked \<lparr>co_maxChunkSizeLineBytes = Some 16, co_maxTotalBytes = None, co_allowedTrailers = None\<rparr>
   in snd (snd (feed_all (chunked_feed lower) [line @ [CR, LF]] d)) = None
      \<and> snd (snd (feed_all (chunked_feed lower) [line @ [CR], [LF]] d)) = Some (SizeLineExceeded 16)"
  by (simp add: chunked_feed_def new_chunked_def run_chunked.simps chunked_step_def readSizeLine_def findCRLF_def
      isHex_def hexVal_def control_byte_def Let_def)

end
