(* ===== verification/Multipart.thy ===== *)
theory Multipart
  imports HttpText JsJson
begin

text \<open>
  The streaming decoder of \<open>multipart/form-data\<close> bodies, \<open>http-parser/engine/MultipartParser.ts\<close>: it emits
  the bytes of a part as soon as they cannot be the start of a delimiter. What a call hands to the callbacks
  is returned as a list of events, beside the next state and the error it throws. Its promises: how the body
  is cut into segments does not matter, and a well-formed body is decoded to its parts.
\<close>

section \<open>Data\<close>

datatype multipart_state = PREAMBLE | BOUNDARY_LINE | PART_HEADERS | PART_BODY | EPILOGUE

datatype multipart_error =
    BoundaryEmpty
  | BodyTooLong int
  | EndedWithoutFinalBoundary multipart_state
  | UnexpectedAfterBoundary byte byte
  | TooManyParts int
  | PartTooLong int

record multipart_part =
  pt_headers :: header_map
  pt_name :: "jstring option"
  pt_filename :: "jstring option"
  pt_contentType :: jstring

datatype multipart_event = OnPart multipart_part | OnPartData "byte list" | OnPartEnd | OnBodyComplete

record multipart_options =
  mo_boundary :: jstring
  mo_maxPartSize :: "int option"
  mo_maxTotalSize :: "int option"
  mo_maxParts :: "int option"

record multipart =
  mp_boundary :: "byte list"
  mp_delimiter :: "byte list"
  mp_maxPartSize :: int
  mp_maxTotalSize :: int
  mp_maxParts :: int
  mp_buf :: "byte list"
  mp_state :: multipart_state
  mp_partBytes :: nat
  mp_totalBytes :: nat
  mp_partCount :: nat

abbreviation DASH :: byte where "DASH \<equiv> 0x2d"

definition new_multipart :: "multipart_options \<Rightarrow> multipart_error + multipart" where
  "new_multipart options =
     (if mo_boundary options = [] then Inl BoundaryEmpty
      else
        let raw = buffer_from (js ''--'' @ mo_boundary options);
            or_zero = (\<lambda>n. case n of Some n \<Rightarrow> n | None \<Rightarrow> 0)
        in Inr \<lparr>mp_boundary = raw, mp_delimiter = [CR, LF] @ raw,
                mp_maxPartSize = or_zero (mo_maxPartSize options), mp_maxTotalSize = or_zero (mo_maxTotalSize options),
                mp_maxParts = or_zero (mo_maxParts options),
                mp_buf = [], mp_state = PREAMBLE, mp_partBytes = 0, mp_totalBytes = 0, mp_partCount = 0\<rparr>)"

definition multipart_complete :: "multipart \<Rightarrow> bool" where
  "multipart_complete p \<longleftrightarrow> mp_state p = EPILOGUE"

section \<open>Part headers\<close>

text \<open>\<open>replace(/XY/g, r)\<close> for a pattern of two characters.\<close>

fun replace_pair :: "16 word \<Rightarrow> 16 word \<Rightarrow> jstring \<Rightarrow> jstring \<Rightarrow> jstring" where
  "replace_pair x y r (a # b # s) = (if a = x \<and> b = y then r @ replace_pair x y r s else a # replace_pair x y r (b # s))"
| "replace_pair x y r s = s"

abbreviation QUOTE :: "16 word" where "QUOTE \<equiv> 0x22"
abbreviation BACKSLASH :: "16 word" where "BACKSLASH \<equiv> 0x5c"

definition unquote :: "jstring \<Rightarrow> jstring" where
  "unquote v =
     (if length v \<ge> 2 \<and> hd v = QUOTE \<and> last v = QUOTE
      then replace_pair BACKSLASH BACKSLASH [BACKSLASH] (replace_pair BACKSLASH QUOTE [QUOTE] (butlast (tl v)))
      else v)"

definition disposition_param ::
  "(jstring \<Rightarrow> jstring) \<Rightarrow> jstring option \<times> jstring option \<Rightarrow> jstring \<Rightarrow> jstring option \<times> jstring option" where
  "disposition_param lower found seg =
     (case index_of (js ''='') seg of
        None \<Rightarrow> found
      | Some eq \<Rightarrow>
          let key = lower (trim (take eq seg));
              val = unquote (trim (drop (eq + 1) seg));
              (name, filename) = found
          in if key = js ''name'' then (Some val, filename)
             else if key = js ''filename'' \<or> key = js ''filename*'' then (name, Some val)
             else (name, filename))"

definition parseContentDisposition :: "(jstring \<Rightarrow> jstring) \<Rightarrow> jstring \<Rightarrow> jstring option \<times> jstring option" where
  "parseContentDisposition lower v = foldl (disposition_param lower) (None, None) (split_on (js_char (CHR '';'')) v)"

definition part_of :: "(jstring \<Rightarrow> jstring) \<Rightarrow> byte list \<Rightarrow> multipart_part" where
  "part_of lower headerBytes =
     (let headers = parseHeaderBlock lower headerBytes;
          disposition = (case jmap_get headers (js ''content-disposition'') of Some v \<Rightarrow> v | None \<Rightarrow> []);
          (name, filename) = parseContentDisposition lower disposition
      in \<lparr>pt_headers = headers, pt_name = name, pt_filename = filename,
          pt_contentType = (case jmap_get headers (js ''content-type'') of Some v \<Rightarrow> v | None \<Rightarrow> js ''text/plain'')\<rparr>)"

section \<open>The state machine\<close>

definition emit_part_data :: "byte list \<Rightarrow> multipart \<Rightarrow> multipart \<times> multipart_event list \<times> multipart_error option" where
  "emit_part_data bytes p =
     (if length bytes = 0 then (p, [], None)
      else
        let p = p\<lparr>mp_partBytes := mp_partBytes p + length bytes\<rparr> in
        if 0 < mp_maxPartSize p \<and> mp_maxPartSize p < int (mp_partBytes p) then (p, [], Some (PartTooLong (mp_maxPartSize p)))
        else (p, [OnPartData bytes], None))"

definition consume_bytes :: "nat \<Rightarrow> multipart \<Rightarrow> multipart" where
  "consume_bytes n p = p\<lparr>mp_buf := drop n (mp_buf p)\<rparr>"

definition preamble_step :: "multipart \<Rightarrow> multipart \<times> multipart_event list \<times> (multipart_error + bool)" where
  "preamble_step p =
     (case index_of (mp_boundary p) (mp_buf p) of
        None \<Rightarrow>
          let keep = length (mp_boundary p) in
          (if length (mp_buf p) > keep then consume_bytes (length (mp_buf p) - keep) p else p, [], Inr False)
      | Some i \<Rightarrow> ((consume_bytes (i + length (mp_boundary p)) p)\<lparr>mp_state := BOUNDARY_LINE\<rparr>, [], Inr True))"

definition boundary_step :: "multipart \<Rightarrow> multipart \<times> multipart_event list \<times> (multipart_error + bool)" where
  "boundary_step p =
     (case mp_buf p of
        a # b # _ \<Rightarrow>
          if a = DASH \<and> b = DASH then (p\<lparr>mp_state := EPILOGUE, mp_buf := []\<rparr>, [OnBodyComplete], Inr False)
          else if a = CR \<and> b = LF then ((consume_bytes 2 p)\<lparr>mp_state := PART_HEADERS\<rparr>, [], Inr True)
          else (p, [], Inl (UnexpectedAfterBoundary a b))
      | _ \<Rightarrow> (p, [], Inr False))"

definition headers_step :: "(jstring \<Rightarrow> jstring) \<Rightarrow> multipart \<Rightarrow> multipart \<times> multipart_event list \<times> (multipart_error + bool)" where
  "headers_step lower p =
     (case index_of [CR, LF, CR, LF] (mp_buf p) of
        None \<Rightarrow> (p, [], Inr False)
      | Some e \<Rightarrow>
          ((consume_bytes (e + 4) p)\<lparr>mp_state := PART_BODY, mp_partBytes := 0\<rparr>,
           [OnPart (part_of lower (take e (mp_buf p)))], Inr True))"

definition body_step :: "multipart \<Rightarrow> multipart \<times> multipart_event list \<times> (multipart_error + bool)" where
  "body_step p =
     (case index_of (mp_delimiter p) (mp_buf p) of
        Some i \<Rightarrow>
          (case emit_part_data (take i (mp_buf p)) p of
             (p, evs, Some e) \<Rightarrow> (p, evs, Inl e)
           | (p, evs, None) \<Rightarrow>
               let p = consume_bytes (i + length (mp_delimiter p)) p;
                   p = p\<lparr>mp_partCount := mp_partCount p + 1\<rparr>;
                   evs = evs @ [OnPartEnd]
               in if 0 < mp_maxParts p \<and> mp_maxParts p < int (mp_partCount p) then (p, evs, Inl (TooManyParts (mp_maxParts p)))
                  else (p\<lparr>mp_state := BOUNDARY_LINE\<rparr>, evs, Inr True))
      | None \<Rightarrow>
          let keep = length (mp_delimiter p) + 2;
              emitLen = length (mp_buf p) - keep
          in
          if length (mp_buf p) \<le> keep then (p, [], Inr False)
          else
            (case emit_part_data (take emitLen (mp_buf p)) p of
               (p, evs, Some e) \<Rightarrow> (p, evs, Inl e)
             | (p, evs, None) \<Rightarrow> (consume_bytes emitLen p, evs, Inr True)))"

definition multipart_step :: "(jstring \<Rightarrow> jstring) \<Rightarrow> multipart \<Rightarrow> multipart \<times> multipart_event list \<times> (multipart_error + bool)" where
  "multipart_step lower p =
     (case mp_state p of
        PREAMBLE \<Rightarrow> preamble_step p
      | BOUNDARY_LINE \<Rightarrow> boundary_step p
      | PART_HEADERS \<Rightarrow> headers_step lower p
      | PART_BODY \<Rightarrow> body_step p
      | EPILOGUE \<Rightarrow> (p, [], Inr False))"

lemmas multipart_step_defs = multipart_step_def preamble_step_def boundary_step_def headers_step_def body_step_def
  emit_part_data_def consume_bytes_def Let_def

definition steps_left :: "multipart \<Rightarrow> nat" where
  "steps_left p = 2 * length (mp_buf p) + (if mp_state p \<in> {PREAMBLE, PART_BODY} then 1 else 0)"

lemma multipart_progress: "multipart_step lower p = (p', evs, Inr True) \<Longrightarrow> steps_left p' < steps_left p"
  using index_of_fits [of "[CR, LF, CR, LF]" "mp_buf p"]
  by (cases "mp_state p") (auto simp: multipart_step_defs steps_left_def split: option.splits list.splits if_splits)

function run_multipart :: "(jstring \<Rightarrow> jstring) \<Rightarrow> multipart \<Rightarrow> multipart \<times> multipart_event list \<times> multipart_error option" where
  "run_multipart lower p =
     (case multipart_step lower p of
        (p, evs, Inl e) \<Rightarrow> (p, evs, Some e)
      | (p, evs, Inr again) \<Rightarrow>
          if again then let (p, more, err) = run_multipart lower p in (p, evs @ more, err) else (p, evs, None))"
  by pat_completeness auto
termination
  by (relation "measure (\<lambda>(lower, p). steps_left p)") (auto dest: multipart_progress [OF sym])

declare run_multipart.simps [simp del]

definition multipart_feed :: "(jstring \<Rightarrow> jstring) \<Rightarrow> byte list \<Rightarrow> multipart \<Rightarrow> multipart \<times> multipart_event list \<times> multipart_error option" where
  "multipart_feed lower chunk p =
     (if mp_state p = EPILOGUE then (p, [], None)
      else
        let p = p\<lparr>mp_buf := mp_buf p @ chunk, mp_totalBytes := mp_totalBytes p + length chunk\<rparr> in
        if 0 < mp_maxTotalSize p \<and> mp_maxTotalSize p < int (mp_totalBytes p) then (p, [], Some (BodyTooLong (mp_maxTotalSize p)))
        else run_multipart lower p)"

definition multipart_finish :: "multipart \<Rightarrow> multipart_error option" where
  "multipart_finish p = (if mp_state p \<noteq> EPILOGUE then Some (EndedWithoutFinalBoundary (mp_state p)) else None)"

section \<open>Segmentation\<close>

text \<open>The events with the part data taken byte by byte: what does not depend on where the data is cut.\<close>

definition atoms :: "multipart_event list \<Rightarrow> (multipart_event + byte) list" where
  "atoms evs = concat (map (\<lambda>e. case e of OnPartData bytes \<Rightarrow> map Inr bytes | _ \<Rightarrow> [Inl e]) evs)"

lemma atoms_simps [simp]:
  "atoms [] = []" "atoms (xs @ ys) = atoms xs @ atoms ys" "atoms (OnPartData bytes # xs) = map Inr bytes @ atoms xs"
  "atoms (OnPart part # xs) = Inl (OnPart part) # atoms xs" "atoms (OnPartEnd # xs) = Inl OnPartEnd # atoms xs"
  "atoms (OnBodyComplete # xs) = Inl OnBodyComplete # atoms xs"
  by (simp_all add: atoms_def)

definition more_body :: "byte list \<Rightarrow> multipart \<Rightarrow> multipart" where
  "more_body b p = p\<lparr>mp_buf := mp_buf p @ b\<rparr>"

lemma more_body_simps [simp]:
  "mp_buf (more_body b p) = mp_buf p @ b" "mp_state (more_body b p) = mp_state p"
  "mp_boundary (more_body b p) = mp_boundary p" "mp_delimiter (more_body b p) = mp_delimiter p"
  "mp_maxParts (more_body b p) = mp_maxParts p" "mp_maxPartSize (more_body b p) = mp_maxPartSize p"
  "mp_maxTotalSize (more_body b p) = mp_maxTotalSize p"
  "mp_partBytes (more_body b p) = mp_partBytes p" "mp_partCount (more_body b p) = mp_partCount p"
  by (simp_all add: more_body_def)

text \<open>The loop, one turn at a time.\<close>

lemma mrun_error: "multipart_step lower p = (p', evs, Inl e) \<Longrightarrow> run_multipart lower p = (p', evs, Some e)"
  by (subst run_multipart.simps) simp

lemma mrun_waits: "multipart_step lower p = (p', evs, Inr False) \<Longrightarrow> run_multipart lower p = (p', evs, None)"
  by (subst run_multipart.simps) simp

lemma mrun_again: "multipart_step lower p = (p', evs, Inr True) \<Longrightarrow>
    run_multipart lower p = (let (p', more, err) = run_multipart lower p' in (p', evs @ more, err))"
  by (subst run_multipart.simps) simp

lemma mrun_induct [case_names error waits again]:
  assumes "\<And>p p' evs e. multipart_step lower p = (p', evs, Inl e) \<Longrightarrow> P p"
    and "\<And>p p' evs. multipart_step lower p = (p', evs, Inr False) \<Longrightarrow> P p"
    and "\<And>p p' evs. multipart_step lower p = (p', evs, Inr True) \<Longrightarrow> P p' \<Longrightarrow> P p"
  shows "P p"
proof (induction "steps_left p" arbitrary: p rule: less_induct)
  case less
  obtain p' evs r where step: "multipart_step lower p = (p', evs, r)"
    by (cases "multipart_step lower p") auto
  show ?case
  proof (cases r)
    case (Inr again)
    then show ?thesis
      using assms(2) [of p p' evs] assms(3) [of p p' evs] less [of p'] step multipart_progress [of lower p p' evs]
      by (cases again) auto
  qed (use assms(1) step in blast)
qed

text \<open>
  The two searches let bytes go before they find what they look for: \<open>held\<close> says that a step did. All
  other steps give the same when more bytes follow.
\<close>

definition held :: "multipart \<Rightarrow> bool" where
  "held p \<longleftrightarrow> mp_state p = PREAMBLE \<and> index_of (mp_boundary p) (mp_buf p) = None
     \<or> mp_state p = PART_BODY \<and> index_of (mp_delimiter p) (mp_buf p) = None"

lemma mstep_more:
  assumes "multipart_step lower p = (p', evs, Inr True)" and "\<not> held p"
  shows "multipart_step lower (more_body b p) = (more_body b p', evs, Inr True)"
proof (cases "mp_state p")
  case PREAMBLE
  then obtain i where i: "index_of (mp_boundary p) (mp_buf p) = Some i"
    using assms(2) by (auto simp: held_def)
  show ?thesis
    using assms PREAMBLE i index_of_append [OF i, of b] index_of_fits [OF i]
    by (auto simp: multipart_step_def preamble_step_def consume_bytes_def more_body_def)
next
  case BOUNDARY_LINE
  then show ?thesis
    using assms by (auto simp: multipart_step_def boundary_step_def consume_bytes_def more_body_def split: list.splits if_splits)
next
  case PART_HEADERS
  then obtain i where i: "index_of [CR, LF, CR, LF] (mp_buf p) = Some i"
    using assms(1) by (auto simp: multipart_step_def headers_step_def split: option.splits)
  show ?thesis
    using assms PART_HEADERS i index_of_append [OF i, of b] index_of_fits [OF i]
    by (auto simp: multipart_step_def headers_step_def consume_bytes_def more_body_def)
next
  case PART_BODY
  then obtain i where i: "index_of (mp_delimiter p) (mp_buf p) = Some i"
    using assms(2) by (auto simp: held_def)
  show ?thesis
    using assms PART_BODY i index_of_append [OF i, of b] index_of_fits [OF i]
    by (auto simp: multipart_step_def body_step_def emit_part_data_def consume_bytes_def more_body_def Let_def split: if_splits)
next
  case EPILOGUE
  then show ?thesis
    using assms by (simp add: multipart_step_def)
qed

lemma mstep_error_more:
  assumes "multipart_step lower p = (p', evs, Inl e)" and "\<not> held p"
  shows "\<exists>q evs' e'. multipart_step lower (more_body b p) = (q, evs', Inl e')"
proof (cases "mp_state p")
  case PART_BODY
  then obtain i where i: "index_of (mp_delimiter p) (mp_buf p) = Some i"
    using assms(2) by (auto simp: held_def)
  show ?thesis
    using assms PART_BODY i index_of_append [OF i, of b] index_of_fits [OF i]
    by (auto simp: multipart_step_def body_step_def emit_part_data_def consume_bytes_def Let_def split: if_splits)
qed (use assms in \<open>auto simp: multipart_step_defs held_def split: option.splits list.splits if_splits\<close>)

text \<open>The step that lets the first \<open>n\<close> bytes go.\<close>

definition let_go :: "nat \<Rightarrow> multipart \<Rightarrow> multipart" where
  "let_go n p = p\<lparr>mp_buf := drop n (mp_buf p), mp_partBytes := mp_partBytes p + (if mp_state p = PART_BODY then n else 0)\<rparr>"

definition hold_back :: "multipart \<Rightarrow> nat" where
  "hold_back p = (if mp_state p = PREAMBLE then length (mp_boundary p) else length (mp_delimiter p) + 2)"

lemma held_index:
  assumes "held p" and "n + hold_back p \<le> length (mp_buf p)"
  shows "mp_state p = PREAMBLE \<Longrightarrow> index_of (mp_boundary p) (drop n (mp_buf p) @ b) = map_option (\<lambda>i. i - n) (index_of (mp_boundary p) (mp_buf p @ b))"
    and "mp_state p = PART_BODY \<Longrightarrow> index_of (mp_delimiter p) (drop n (mp_buf p) @ b) = map_option (\<lambda>i. i - n) (index_of (mp_delimiter p) (mp_buf p @ b))"
    and "mp_state p = PREAMBLE \<Longrightarrow> index_of (mp_boundary p) (mp_buf p @ b) = Some i \<Longrightarrow> n \<le> i"
    and "mp_state p = PART_BODY \<Longrightarrow> index_of (mp_delimiter p) (mp_buf p @ b) = Some i \<Longrightarrow> n \<le> i"
proof -
  show "mp_state p = PREAMBLE \<Longrightarrow> index_of (mp_boundary p) (drop n (mp_buf p) @ b) = map_option (\<lambda>i. i - n) (index_of (mp_boundary p) (mp_buf p @ b))"
    using assms index_of_holdback [of "mp_boundary p" "mp_buf p" "hold_back p" n b] by (simp add: held_def hold_back_def)
  show "mp_state p = PART_BODY \<Longrightarrow> index_of (mp_delimiter p) (drop n (mp_buf p) @ b) = map_option (\<lambda>i. i - n) (index_of (mp_delimiter p) (mp_buf p @ b))"
    using assms index_of_holdback [of "mp_delimiter p" "mp_buf p" "hold_back p" n b] by (simp add: held_def hold_back_def)
  show "n \<le> i" if "mp_state p = PREAMBLE" "index_of (mp_boundary p) (mp_buf p @ b) = Some i"
    using assms that not_found_before [of "mp_boundary p" "mp_buf p" b i] by (auto simp: held_def hold_back_def index_of_Some)
  show "n \<le> i" if "mp_state p = PART_BODY" "index_of (mp_delimiter p) (mp_buf p @ b) = Some i"
    using assms that not_found_before [of "mp_delimiter p" "mp_buf p" b i] by (auto simp: held_def hold_back_def index_of_Some)
qed

lemma let_go_let_go: "n + m \<le> length (mp_buf p) \<Longrightarrow> let_go m (let_go n p) = let_go (n + m) p"
  by (simp add: let_go_def add.commute)

lemma let_go_zero [simp]: "let_go 0 p = p"
  by (simp add: let_go_def)

lemma more_let_go: "n \<le> length (mp_buf p) \<Longrightarrow> more_body b (let_go n p) = let_go n (more_body b p)"
  by (simp add: let_go_def more_body_def)

definition part_fits :: "nat \<Rightarrow> multipart \<Rightarrow> bool" where
  "part_fits n p \<longleftrightarrow> n = 0 \<or> \<not> (0 < mp_maxPartSize p \<and> mp_maxPartSize p < int (mp_partBytes p + n))"

definition data_events :: "byte list \<Rightarrow> multipart_event list" where
  "data_events bytes = (if bytes = [] then [] else [OnPartData bytes])"

lemma atoms_data_events [simp]: "atoms (data_events bytes) = map Inr bytes"
  by (simp add: data_events_def)

lemma emit_fits: "emit_part_data bytes p =
    (if part_fits (length bytes) p then (p\<lparr>mp_partBytes := mp_partBytes p + length bytes\<rparr>, data_events bytes, None)
     else (p\<lparr>mp_partBytes := mp_partBytes p + length bytes\<rparr>, [], Some (PartTooLong (mp_maxPartSize p))))"
  by (simp add: emit_part_data_def part_fits_def data_events_def Let_def)

text \<open>A search that does not find, run to its end: in the preamble and in a part's body.\<close>

lemma preamble_none_run:
  assumes "mp_state p = PREAMBLE" and "index_of (mp_boundary p) (mp_buf p) = None" and "hold_back p \<le> length (mp_buf p)"
  shows "run_multipart lower p = (let_go (length (mp_buf p) - hold_back p) p, [], None)"
  using assms by (intro mrun_waits) (auto simp: multipart_step_def preamble_step_def hold_back_def let_go_def consume_bytes_def Let_def)

lemma body_none_waits:
  assumes "mp_state p = PART_BODY" and "index_of (mp_delimiter p) (mp_buf p) = None" and "length (mp_buf p) \<le> hold_back p"
  shows "multipart_step lower p = (p, [], Inr False)"
  using assms by (simp add: multipart_step_def body_step_def hold_back_def Let_def)

lemma body_none_step:
  assumes "mp_state p = PART_BODY" and "index_of (mp_delimiter p) (mp_buf p) = None" and "hold_back p < length (mp_buf p)"
    and "n = length (mp_buf p) - hold_back p"
  shows "multipart_step lower p =
    (if part_fits n p then (let_go n p, data_events (take n (mp_buf p)), Inr True)
     else (p\<lparr>mp_partBytes := mp_partBytes p + n\<rparr>, [], Inl (PartTooLong (mp_maxPartSize p))))"
  using assms by (simp add: multipart_step_def body_step_def hold_back_def emit_fits let_go_def consume_bytes_def Let_def)

lemma body_none_run:
  assumes "mp_state p = PART_BODY" and "index_of (mp_delimiter p) (mp_buf p) = None" and "hold_back p \<le> length (mp_buf p)"
    and "n = length (mp_buf p) - hold_back p"
  shows "run_multipart lower p =
    (if part_fits n p then (let_go n p, data_events (take n (mp_buf p)), None)
     else (p\<lparr>mp_partBytes := mp_partBytes p + n\<rparr>, [], Some (PartTooLong (mp_maxPartSize p))))"
proof (cases "length (mp_buf p) = hold_back p")
  case True
  then show ?thesis
    using body_none_waits [of p lower] assms by (simp add: mrun_waits part_fits_def data_events_def)
next
  case False
  then have less: "hold_back p < length (mp_buf p)"
    using assms(3) by simp
  have "held p"
    using assms(1,2) by (simp add: held_def)
  have "index_of (mp_delimiter p) (drop n (mp_buf p)) = None"
    using held_index(2) [OF \<open>held p\<close>, of n "[]"] assms by simp
  then have "multipart_step lower (let_go n p) = (let_go n p, [], Inr False)"
    using assms by (intro body_none_waits) (simp_all add: let_go_def hold_back_def)
  then show ?thesis
    using body_none_step [OF assms(1,2) less assms(4), of lower] by (simp add: mrun_again mrun_waits mrun_error)
qed

text \<open>Having let the first \<open>n\<close> bytes go, the loop ends where it would have, and delivers the rest.\<close>

lemma body_found_step:
  assumes "mp_state p = PART_BODY" and "index_of (mp_delimiter p) (mp_buf p) = Some i"
    and "r = p\<lparr>mp_buf := drop (i + length (mp_delimiter p)) (mp_buf p), mp_partBytes := mp_partBytes p + i,
               mp_partCount := mp_partCount p + 1\<rparr>"
  shows "multipart_step lower p =
    (if \<not> part_fits i p then (p\<lparr>mp_partBytes := mp_partBytes p + i\<rparr>, [], Inl (PartTooLong (mp_maxPartSize p)))
     else if 0 < mp_maxParts p \<and> mp_maxParts p < int (mp_partCount p + 1)
     then (r, data_events (take i (mp_buf p)) @ [OnPartEnd], Inl (TooManyParts (mp_maxParts p)))
     else (r\<lparr>mp_state := BOUNDARY_LINE\<rparr>, data_events (take i (mp_buf p)) @ [OnPartEnd], Inr True))"
  using assms index_of_fits [OF assms(2)]
  by (simp add: multipart_step_def body_step_def emit_fits consume_bytes_def Let_def)

lemma found_let_go:
  assumes "held p" and "n + hold_back p \<le> length (mp_buf p)" and "q = more_body b p" and "\<not> held q"
    and "multipart_step lower q = (w, evs, Inr again)"
  shows "again \<and> (\<exists>evs'. multipart_step lower (let_go n q) = (w, evs', Inr True)
    \<and> (if mp_state p = PART_BODY then map Inr (take n (mp_buf p)) else []) @ atoms evs' = atoms evs)"
proof (cases "mp_state p = PREAMBLE")
  case True
  then obtain i where i: "index_of (mp_boundary p) (mp_buf p @ b) = Some i"
    using assms(3,4) by (auto simp: held_def)
  have "n \<le> i"
    using held_index(3) [OF assms(1,2) True i] .
  moreover have "index_of (mp_boundary p) (drop n (mp_buf p) @ b) = Some (i - n)"
    using held_index(1) [OF assms(1,2) True] i by simp
  ultimately show ?thesis
    using True i assms(2,3,5) by (auto simp: multipart_step_def preamble_step_def let_go_def consume_bytes_def more_body_def)
next
  case False
  then have body: "mp_state p = PART_BODY"
    using assms(1) by (simp add: held_def)
  then obtain i where i: "index_of (mp_delimiter p) (mp_buf p @ b) = Some i"
    using assms(3,4) by (auto simp: held_def)
  have ni: "n \<le> i" "n \<le> length (mp_buf p)" "i \<le> length (mp_buf p @ b)"
    using held_index(4) [OF assms(1,2) body i] assms(2) index_of_fits [OF i] by simp_all
  have i': "index_of (mp_delimiter p) (drop n (mp_buf p) @ b) = Some (i - n)"
    using held_index(2) [OF assms(1,2) body] i by simp
  have data: "take n (mp_buf p) @ take (i - n) (drop n (mp_buf p) @ b) = take i (mp_buf p @ b)"
    using ni take_add [of n "i - n" "mp_buf p @ b"] by simp
  define r where "r = q\<lparr>mp_buf := drop (i + length (mp_delimiter p)) (mp_buf p @ b), mp_partBytes := mp_partBytes p + i,
      mp_partCount := mp_partCount p + 1\<rparr>"
  have q: "mp_state q = PART_BODY" "index_of (mp_delimiter q) (mp_buf q) = Some i"
      "mp_state (let_go n q) = PART_BODY" "index_of (mp_delimiter (let_go n q)) (mp_buf (let_go n q)) = Some (i - n)"
    using body i i' ni by (simp_all add: assms(3) let_go_def)
  have r: "r = q\<lparr>mp_buf := drop (i + length (mp_delimiter q)) (mp_buf q), mp_partBytes := mp_partBytes q + i,
      mp_partCount := mp_partCount q + 1\<rparr>"
    by (simp add: r_def assms(3))
  have r': "r = (let_go n q)\<lparr>mp_buf := drop (i - n + length (mp_delimiter (let_go n q))) (mp_buf (let_go n q)),
      mp_partBytes := mp_partBytes (let_go n q) + (i - n), mp_partCount := mp_partCount (let_go n q) + 1\<rparr>"
    using ni body by (simp add: r_def let_go_def assms(3) more_body_def)
  have fits: "part_fits i q" "\<not> (0 < mp_maxParts q \<and> mp_maxParts q < int (mp_partCount q + 1))"
      and out: "again" "w = r\<lparr>mp_state := BOUNDARY_LINE\<rparr>" "evs = data_events (take i (mp_buf p @ b)) @ [OnPartEnd]"
    using assms(5) body_found_step [OF q(1,2) r, of lower] by (simp_all add: assms(3) split: if_splits)
  have "part_fits (i - n) (let_go n q)" "\<not> (0 < mp_maxParts (let_go n q) \<and> mp_maxParts (let_go n q) < int (mp_partCount (let_go n q) + 1))"
    using fits ni(1) q(1) by (auto simp: part_fits_def let_go_def)
  then have "multipart_step lower (let_go n q) =
      (w, data_events (take (i - n) (drop n (mp_buf p) @ b)) @ [OnPartEnd], Inr True)"
    using body_found_step [OF q(3,4) r', of lower] out(2) ni(2) by (simp add: assms(3) let_go_def)
  then show ?thesis
    using out body data by (simp flip: map_append append_assoc)
qed

lemma run_let_go:
  assumes "held p" and "n + hold_back p \<le> length (mp_buf p)" and "run_multipart lower (more_body b p) = (w, evs, None)"
  shows "\<exists>evs'. run_multipart lower (more_body b (let_go n p)) = (w, evs', None)
    \<and> (if mp_state p = PART_BODY then map Inr (take n (mp_buf p)) else []) @ atoms evs' = atoms evs"
proof -
  define q where "q = more_body b p"
  have q: "more_body b (let_go n p) = let_go n q" "hold_back q = hold_back p" "mp_state q = mp_state p" "mp_buf q = mp_buf p @ b"
    "mp_state (let_go n q) = mp_state p" "hold_back (let_go n q) = hold_back p"
    "mp_buf (let_go n q) = drop n (mp_buf p) @ b"
    using assms(2) by (simp_all add: q_def more_body_def hold_back_def let_go_def)
  show ?thesis
  proof (cases "held q")
    case True
    define m where "m = length (mp_buf q) - hold_back q"
    define m' where "m' = length (mp_buf (let_go n q)) - hold_back (let_go n q)"
    have m: "n + m' = m" "n + m' \<le> length (mp_buf q)" "hold_back q \<le> length (mp_buf q)"
        "hold_back (let_go n q) \<le> length (mp_buf (let_go n q))"
      using assms(2) q by (simp_all add: m_def m'_def)
    have merge: "let_go m' (let_go n q) = let_go m q"
      using let_go_let_go [OF m(2)] m(1) by simp
    show ?thesis
    proof (cases "mp_state p = PREAMBLE")
      case pre: True
      then have none: "index_of (mp_boundary q) (mp_buf q) = None"
        using True q(3) by (simp add: held_def)
      then have none': "index_of (mp_boundary (let_go n q)) (mp_buf (let_go n q)) = None"
        using held_index(1) [OF assms(1,2) pre, of b] q(4,7) by (simp add: q_def let_go_def)
      have "run_multipart lower q = (let_go m q, [], None)"
        using preamble_none_run [OF _ none m(3)] pre q(3) by (simp add: m_def)
      moreover have "run_multipart lower (let_go n q) = (let_go m q, [], None)"
        using preamble_none_run [OF _ none' m(4), of lower] pre q(5) merge by (simp add: m'_def [symmetric])
      ultimately show ?thesis
        using assms(3) pre q(1) by (simp add: q_def [symmetric])
    next
      case False
      then have body: "mp_state p = PART_BODY"
        using assms(1) by (simp add: held_def)
      then have none: "index_of (mp_delimiter q) (mp_buf q) = None"
        using True q(3) by (simp add: held_def)
      then have none': "index_of (mp_delimiter (let_go n q)) (mp_buf (let_go n q)) = None"
        using held_index(2) [OF assms(1,2) body, of b] q(4,7) by (simp add: q_def let_go_def)
      have whole: "part_fits m q" "w = let_go m q" "evs = data_events (take m (mp_buf q))"
        using assms(3) body_none_run [OF _ none m(3) m_def, of lower] body q(3) by (simp_all add: q_def [symmetric] split: if_splits)
      have "part_fits m' (let_go n q)"
        using whole(1) m(1) body q(3) by (auto simp: part_fits_def let_go_def)
      then have "run_multipart lower (let_go n q) = (w, data_events (take m' (mp_buf (let_go n q))), None)"
        using body_none_run [OF _ none' m(4) m'_def, of lower] body q(5) merge whole(2) by simp
      moreover have "take n (mp_buf p) @ take m' (mp_buf (let_go n q)) = take m (mp_buf q)"
        using take_add [of n m' "mp_buf q"] m(1) assms(2) q(4,7) by simp
      ultimately show ?thesis
        using body q(1) whole(3) by (simp flip: map_append)
    qed
  next
    case False
    obtain w1 ev1 again where step: "multipart_step lower q = (w1, ev1, Inr again)"
      using assms(3) by (cases "multipart_step lower q"; cases "snd (snd (multipart_step lower q))") (auto simp: mrun_error q_def)
    from found_let_go [OF assms(1,2) q_def False this] obtain ev1' where again
        and step': "multipart_step lower (let_go n q) = (w1, ev1', Inr True)"
        and data: "(if mp_state p = PART_BODY then map Inr (take n (mp_buf p)) else []) @ atoms ev1' = atoms ev1"
      by blast
    obtain ev2 where "run_multipart lower w1 = (w, ev2, None)" "evs = ev1 @ ev2"
      using assms(3) mrun_again [of lower q w1 ev1] step \<open>again\<close> by (auto simp: q_def split: prod.splits)
    then show ?thesis
      using data by (simp add: q(1) mrun_again [OF step'] flip: append_assoc)
  qed
qed

text \<open>A parser at rest: nothing happens before more bytes come.\<close>

definition at_rest :: "(jstring \<Rightarrow> jstring) \<Rightarrow> multipart \<Rightarrow> bool" where
  "at_rest lower p \<longleftrightarrow> mp_state p = EPILOGUE \<or> run_multipart lower p = (p, [], None)"

lemma part_fits_mono: "part_fits m p \<Longrightarrow> n \<le> m \<Longrightarrow> part_fits n p"
  by (auto simp: part_fits_def)

lemma held_part_fits:
  assumes "held p" and "mp_state p = PART_BODY" and "n + hold_back p \<le> length (mp_buf p)"
    and "run_multipart lower (more_body b p) = (w, evs, None)"
  shows "part_fits n p"
proof -
  let ?q = "more_body b p"
  have same: "part_fits k ?q \<longleftrightarrow> part_fits k p" for k
    by (simp add: part_fits_def)
  show ?thesis
  proof (cases "index_of (mp_delimiter p) (mp_buf p @ b)")
    case None
    then have "part_fits (length (mp_buf ?q) - hold_back ?q) ?q"
      using body_none_run [of ?q, OF _ _ _ refl, of lower] assms(2,3,4) by (simp add: hold_back_def split: if_splits)
    then show ?thesis
      unfolding same using assms(3) by (elim part_fits_mono) (auto simp: hold_back_def)
  next
    case (Some i)
    have "part_fits i ?q"
      using body_found_step [of ?q i, OF _ _ refl, of lower] Some assms(2,4)
      by (cases "part_fits i ?q") (simp_all add: mrun_error)
    then show ?thesis
      unfolding same using held_index(4) [OF assms(1,3,2) Some] by (rule part_fits_mono)
  qed
qed

lemma held_again:
  assumes "multipart_step lower p = (p', evs, Inr True)" and "held p"
  shows "mp_state p = PART_BODY \<and> (\<exists>n. n + hold_back p = length (mp_buf p) \<and> p' = let_go n p \<and> evs = data_events (take n (mp_buf p)))"
proof -
  have body: "mp_state p = PART_BODY" "index_of (mp_delimiter p) (mp_buf p) = None"
    using assms by (auto simp: held_def multipart_step_def preamble_step_def Let_def split: option.splits)
  show ?thesis
  proof (cases "hold_back p < length (mp_buf p)")
    case True
    then show ?thesis
      using body_none_step [OF body True refl, of lower] assms(1) body(1)
      by (intro conjI exI [of _ "length (mp_buf p) - hold_back p"]) (simp_all split: if_splits)
  next
    case False
    then show ?thesis
      using body_none_waits [OF body, of lower] assms(1) by simp
  qed
qed

lemma again_not_over: "multipart_step lower p = (p', evs, Inr True) \<Longrightarrow> mp_state p' \<noteq> EPILOGUE"
  by (cases "mp_state p") (auto simp: multipart_step_defs split: option.splits list.splits if_splits)

text \<open>A step that waits: the end of the message, bytes let go in the preamble, or no change.\<close>

lemma mstep_waits:
  assumes "multipart_step lower p = (p', evs, Inr False)" and "mp_state p \<noteq> EPILOGUE"
  shows "mp_state p' = EPILOGUE \<and> (\<forall>b. multipart_step lower (more_body b p) = (p', evs, Inr False))
    \<or> evs = [] \<and> p' = p
    \<or> evs = [] \<and> held p \<and> mp_state p = PREAMBLE \<and> (\<exists>n. n + hold_back p = length (mp_buf p) \<and> p' = let_go n p)"
proof (cases "mp_state p")
  case PREAMBLE
  then have none: "index_of (mp_boundary p) (mp_buf p) = None" "evs = []"
    using assms(1) by (auto simp: multipart_step_def preamble_step_def Let_def split: option.splits)
  show ?thesis
  proof (cases "length (mp_buf p) > length (mp_boundary p)")
    case True
    then have "p' = let_go (length (mp_buf p) - hold_back p) p"
      using assms(1) PREAMBLE none by (auto simp: multipart_step_def preamble_step_def let_go_def hold_back_def consume_bytes_def Let_def)
    with True PREAMBLE none show ?thesis
      by (intro disjI2 conjI exI [of _ "length (mp_buf p) - hold_back p"]) (simp_all add: held_def hold_back_def)
  next
    case False
    then show ?thesis
      using assms(1) PREAMBLE none by (simp add: multipart_step_def preamble_step_def Let_def)
  qed
next
  case BOUNDARY_LINE
  then show ?thesis
    using assms(1) by (auto simp: multipart_step_def boundary_step_def more_body_def split: list.splits if_splits)
next
  case PART_HEADERS
  then show ?thesis
    using assms(1) by (auto simp: multipart_step_def headers_step_def split: option.splits)
next
  case PART_BODY
  show ?thesis
  proof (cases "index_of (mp_delimiter p) (mp_buf p)")
    case None
    show ?thesis
    proof (cases "length (mp_buf p) \<le> hold_back p")
      case True
      then show ?thesis
        using body_none_waits [OF PART_BODY None, of lower] assms(1) by simp
    next
      case False
      then show ?thesis
        using body_none_step [OF PART_BODY None _ refl, of lower] assms(1) by (simp split: if_splits)
    qed
  next
    case (Some i)
    show ?thesis
      using body_found_step [OF PART_BODY Some refl, of lower] assms(1) by (simp split: if_splits)
  qed
next
  case EPILOGUE
  with assms(2) show ?thesis by simp
qed

text \<open>What a prefix of the bytes gives, when the parser accepts all of them.\<close>

definition feed_at_rest :: "(jstring \<Rightarrow> jstring) \<Rightarrow> byte list \<Rightarrow> multipart \<Rightarrow> multipart \<times> multipart_event list \<times> multipart_error option" where
  "feed_at_rest lower b p = (if mp_state p = EPILOGUE then (p, [], None) else run_multipart lower (more_body b p))"

lemma mrun_prefix:
  "run_multipart lower (more_body b p) = (w, evs, None) \<Longrightarrow> mp_state p \<noteq> EPILOGUE \<Longrightarrow>
     \<exists>p1 ev1 ev2. run_multipart lower p = (p1, ev1, None) \<and> at_rest lower p1
       \<and> feed_at_rest lower b p1 = (w, ev2, None) \<and> atoms (ev1 @ ev2) = atoms evs"
proof (induction p arbitrary: w evs rule: mrun_induct [where lower = lower])
  case (error p p' evs' e)
  show ?case
  proof (cases "held p")
    case True
    then have body: "mp_state p = PART_BODY" "index_of (mp_delimiter p) (mp_buf p) = None"
      using error.hyps by (auto simp: held_def multipart_step_def preamble_step_def Let_def)
    then have long: "hold_back p < length (mp_buf p)"
      using error.hyps body_none_waits [OF body, of lower] by (cases "length (mp_buf p) \<le> hold_back p") simp_all
    have "part_fits (length (mp_buf p) - hold_back p) p"
      using long by (intro held_part_fits [OF True body(1) _ error.prems(1)]) simp
    then show ?thesis
      using body_none_step [OF body long refl, of lower] error.hyps by simp
  next
    case False
    then show ?thesis
      using mstep_error_more [OF error.hyps, of b] error.prems(1) by (auto simp: mrun_error)
  qed
next
  case (waits p p' evs')
  note run = mrun_waits [OF waits.hyps]
  from mstep_waits [OF waits.hyps waits.prems(2)] show ?case
  proof (elim disjE conjE exE)
    assume over: "mp_state p' = EPILOGUE" "\<forall>b. multipart_step lower (more_body b p) = (p', evs', Inr False)"
    then have "w = p'" "evs = evs'"
      using waits.prems(1) mrun_waits [of lower "more_body b p"] by simp_all
    with over run show ?thesis
      by (auto simp: at_rest_def feed_at_rest_def)
  next
    assume "evs' = []" "p' = p"
    with run waits.prems show ?thesis
      by (auto simp: at_rest_def feed_at_rest_def)
  next
    fix n
    assume pre: "evs' = []" "held p" "mp_state p = PREAMBLE" "n + hold_back p = length (mp_buf p)" "p' = let_go n p"
    have none: "index_of (mp_boundary p') (mp_buf p') = None"
      using held_index(1) [of p n "[]"] pre by (simp add: held_def let_go_def)
    have "mp_state p' = PREAMBLE" "length (mp_buf p') = hold_back p'"
      using pre(3,4) by (simp_all add: pre(5) let_go_def hold_back_def)
    then have "run_multipart lower p' = (p', [], None)"
      using preamble_none_run [OF _ none, of lower] by simp
    moreover obtain ev2 where "run_multipart lower (more_body b p') = (w, ev2, None)" "atoms ev2 = atoms evs"
      using run_let_go [OF pre(2) _ waits.prems(1), of n] pre by auto
    moreover have "mp_state p' \<noteq> EPILOGUE"
      using pre by (simp add: let_go_def)
    ultimately show ?thesis
      using run pre(1) by (auto simp: at_rest_def feed_at_rest_def)
  qed
next
  case (again p p' evs')
  obtain ev where whole: "run_multipart lower (more_body b p') = (w, ev, None)" "atoms (evs' @ ev) = atoms evs"
  proof (cases "held p")
    case True
    from held_again [OF again.hyps True] obtain n where n: "mp_state p = PART_BODY" "n + hold_back p = length (mp_buf p)"
        "p' = let_go n p" "evs' = data_events (take n (mp_buf p))"
      by blast
    then show ?thesis
      using run_let_go [OF True _ again.prems(1), of n] that by auto
  next
    case False
    show ?thesis
      using again.prems(1) mrun_again [OF mstep_more [OF again.hyps False]] that by (auto split: prod.splits)
  qed
  obtain p1 ev1 ev2 where "run_multipart lower p' = (p1, ev1, None)" "at_rest lower p1"
      "feed_at_rest lower b p1 = (w, ev2, None)" "atoms (ev1 @ ev2) = atoms ev"
    using again.IH [OF whole(1) again_not_over [OF again.hyps]] by blast
  with whole(2) show ?case
    by (intro exI [of _ p1] exI [of _ "evs' @ ev1"] exI [of _ ev2]) (simp add: mrun_again [OF again.hyps])
qed

text \<open>The count of all bytes only decides whether a call fails at its start.\<close>

lemma mstep_total: "multipart_step lower (p\<lparr>mp_totalBytes := t\<rparr>) =
    (let (p', evs, r) = multipart_step lower p in (p'\<lparr>mp_totalBytes := t\<rparr>, evs, r))"
proof (cases "mp_state p")
  case PART_BODY
  show ?thesis
  proof (cases "index_of (mp_delimiter p) (mp_buf p)")
    case None
    with PART_BODY show ?thesis
      by (simp add: multipart_step_def body_step_def emit_fits part_fits_def consume_bytes_def Let_def)
  next
    case (Some i)
    then show ?thesis
      using body_found_step [OF PART_BODY Some refl, of lower] PART_BODY
        body_found_step [of "p\<lparr>mp_totalBytes := t\<rparr>" i, OF _ _ refl, of lower]
      by (simp add: part_fits_def)
  qed
qed (auto simp: multipart_step_def preamble_step_def boundary_step_def headers_step_def consume_bytes_def Let_def
    split: option.splits list.splits)

lemma mrun_total: "run_multipart lower (p\<lparr>mp_totalBytes := t\<rparr>) =
    (let (p', evs, r) = run_multipart lower p in (p'\<lparr>mp_totalBytes := t\<rparr>, evs, r))"
proof (induction p rule: mrun_induct [where lower = lower])
  case (error p p' evs e)
  then show ?case
    using mstep_total [where p = p and t = t and lower = lower] by (simp add: mrun_error)
next
  case (waits p p' evs)
  then show ?case
    using mstep_total [where p = p and t = t and lower = lower] by (simp add: mrun_waits)
next
  case (again p p' evs)
  then show ?case
    using mstep_total [where p = p and t = t and lower = lower] by (simp add: mrun_again case_prod_beta Let_def)
qed

lemma mstep_max: "multipart_step lower p = (p', evs, r) \<Longrightarrow> mp_maxTotalSize p' = mp_maxTotalSize p"
  by (cases "mp_state p")
    (auto simp: multipart_step_def preamble_step_def boundary_step_def headers_step_def body_step_def emit_fits
      consume_bytes_def Let_def split: option.splits list.splits if_splits)

lemma mrun_max: "run_multipart lower p = (p', evs, r) \<Longrightarrow> mp_maxTotalSize p' = mp_maxTotalSize p"
proof (induction p arbitrary: p' evs r rule: mrun_induct [where lower = lower])
  case (error p p1 evs1 e)
  then show ?case
    using mstep_max [OF error.hyps] by (simp add: mrun_error)
next
  case (waits p p1 evs1)
  then show ?case
    using mstep_max [OF waits.hyps] by (simp add: mrun_waits)
next
  case (again p p1 evs1)
  then show ?case
    using mstep_max [OF again.hyps] by (auto simp: mrun_again [OF again.hyps] split: prod.splits)
qed

definition forget_total :: "multipart \<Rightarrow> multipart" where
  "forget_total p = p\<lparr>mp_totalBytes := 0\<rparr>"

lemma multipart_cut:
  assumes "at_rest lower p" and "multipart_feed lower (a @ b) p = (w, evs, None)"
  shows "\<exists>p1 ev1 w' ev2. multipart_feed lower a p = (p1, ev1, None) \<and> at_rest lower p1
    \<and> multipart_feed lower b p1 = (w', ev2, None) \<and> forget_total w' = forget_total w \<and> atoms (ev1 @ ev2) = atoms evs"
proof (cases "mp_state p = EPILOGUE")
  case True
  with assms show ?thesis by (simp add: multipart_feed_def)
next
  case False
  define t where "t = mp_totalBytes p + length a + length b"
  have fits: "\<not> (0 < mp_maxTotalSize p \<and> mp_maxTotalSize p < int t)"
      and run: "run_multipart lower ((more_body b (more_body a p))\<lparr>mp_totalBytes := t\<rparr>) = (w, evs, None)"
    using assms(2) False by (auto simp: multipart_feed_def more_body_def t_def Let_def add.assoc split: if_splits)
  obtain v where v: "run_multipart lower (more_body b (more_body a p)) = (v, evs, None)" "w = v\<lparr>mp_totalBytes := t\<rparr>"
    using run by (auto simp: mrun_total split: prod.splits)
  obtain p1 ev1 ev2 where one: "run_multipart lower (more_body a p) = (p1, ev1, None)" "at_rest lower p1"
      "feed_at_rest lower b p1 = (v, ev2, None)" "atoms (ev1 @ ev2) = atoms evs"
    using mrun_prefix [OF v(1)] False by auto
  have fits_a: "\<not> (0 < mp_maxTotalSize p \<and> mp_maxTotalSize p < int (mp_totalBytes p + length a))"
    using fits by (auto simp: t_def)
  define s1 where "s1 = p1\<lparr>mp_totalBytes := mp_totalBytes p + length a\<rparr>"
  have "multipart_feed lower a p = (s1, ev1, None)"
    using fits_a False one(1) by (simp add: multipart_feed_def mrun_total s1_def more_body_def [symmetric] Let_def)
  moreover have "at_rest lower s1"
    using one(2) by (auto simp: at_rest_def s1_def mrun_total)
  moreover have max: "mp_maxTotalSize p1 = mp_maxTotalSize p"
    using mrun_max [OF one(1)] by (simp add: more_body_def)
  moreover have "\<exists>w'. multipart_feed lower b s1 = (w', ev2, None) \<and> forget_total w' = forget_total w"
  proof (cases "mp_state p1 = EPILOGUE")
    case True
    with one(3) v(2) show ?thesis
      by (auto simp: feed_at_rest_def multipart_feed_def s1_def forget_total_def)
  next
    case rest: False
    have "s1\<lparr>mp_buf := mp_buf s1 @ b, mp_totalBytes := mp_totalBytes s1 + length b\<rparr> = (more_body b p1)\<lparr>mp_totalBytes := t\<rparr>"
      by (simp add: s1_def more_body_def t_def)
    then have "multipart_feed lower b s1 = (v\<lparr>mp_totalBytes := t\<rparr>, ev2, None)"
      using one(3) rest fits max by (simp add: multipart_feed_def feed_at_rest_def mrun_total Let_def s1_def more_body_def)
    then show ?thesis
      using v(2) by auto
  qed
  ultimately show ?thesis
    using one(4) by blast
qed

lemma multipart_pause:
  "at_rest lower p \<Longrightarrow> multipart_feed lower [] p = (w, evs, None) \<Longrightarrow> w = p \<and> evs = []"
  by (auto simp: at_rest_def multipart_feed_def Let_def split: if_splits)

interpretation multipart_stream: segmented_feed "multipart_feed lower" "multipart_feed lower" "at_rest lower" forget_total atoms for lower
proof (unfold_locales, goal_cases)
  case (1 s a b s' out)
  from multipart_cut [OF this] show ?case by blast
next
  case (2 s s' out)
  from multipart_pause [OF this] show ?case by simp
qed simp

lemma dashes_first: "buffer_from (js ''--'' @ b) = DASH # DASH # buffer_from b"
  by (simp add: buffer_from_def js_def js_char_def high_surrogate_def low_surrogate_def utf8_encode_def utf8_encode1_def)

lemma new_multipart_fields:
  assumes "new_multipart options = Inr p"
  shows "mp_state p = PREAMBLE" "mp_buf p = []" "mp_boundary p \<noteq> []" "mp_delimiter p = [CR, LF] @ mp_boundary p"
    "mp_partCount p = 0" "mp_totalBytes p = 0" "mp_partBytes p = 0"
  using assms by (auto simp: new_multipart_def dashes_first Let_def split: if_splits)

lemma at_rest_new:
  assumes "new_multipart options = Inr p"
  shows "at_rest lower p"
proof -
  have "run_multipart lower p = (p, [], None)"
    using new_multipart_fields [OF assms] by (intro mrun_waits) (simp add: multipart_step_def preamble_step_def)
  then show ?thesis by (simp add: at_rest_def)
qed

text \<open>
  C33: a multipart body that the parser accepts when it comes at once is accepted however it is cut into
  segments, with the same parts, the same bytes of each part and the same end, although the parser
  delivers bytes before it has seen the delimiter.
\<close>

theorem multipart_any_segmentation:
  assumes "new_multipart options = Inr p" and "multipart_feed lower (concat segs) p = (w, evs, None)"
  shows "\<exists>w' evs'. feed_all (multipart_feed lower) segs p = (w', evs', None) \<and> atoms evs' = atoms evs
    \<and> mp_state w' = mp_state w \<and> mp_partCount w' = mp_partCount w"
proof -
  obtain t out where "feed_all (multipart_feed lower) segs p = (t, out, None)" "forget_total t = forget_total w" "atoms out = atoms evs"
    using multipart_stream.any_segmentation [OF at_rest_new [OF assms(1)] assms(2)] by blast
  moreover from this(2) have "mp_state t = mp_state w" "mp_partCount t = mp_partCount w"
    by (auto simp: forget_total_def dest: arg_cong [where f = mp_state] arg_cong [where f = mp_partCount])
  ultimately show ?thesis by blast
qed

section \<open>Well-formed bodies\<close>

text \<open>
  The wire format of RFC 2046, section 5.1: a preamble, the parts, each behind the boundary on a line of its
  own, the final boundary and an epilogue.
\<close>

definition part_wire :: "multipart \<Rightarrow> byte list list \<times> byte list \<Rightarrow> byte list" where
  "part_wire p = (\<lambda>(hs, body). [CR, LF] @ join_lines hs @ [CR, LF, CR, LF] @ body @ mp_delimiter p)"

definition multipart_wire :: "multipart \<Rightarrow> byte list \<Rightarrow> (byte list list \<times> byte list) list \<Rightarrow> byte list \<Rightarrow> byte list" where
  "multipart_wire p preamble parts epilogue =
     preamble @ mp_boundary p @ concat (map (part_wire p) parts) @ [DASH, DASH] @ epilogue"

definition part_ok :: "multipart \<Rightarrow> byte list list \<times> byte list \<Rightarrow> bool" where
  "part_ok p = (\<lambda>(hs, body). hs \<noteq> [] \<and> list_all field_line_ok hs
     \<and> index_of (mp_delimiter p) body = None \<and> (mp_maxPartSize p \<le> 0 \<or> int (length body) \<le> mp_maxPartSize p))"

definition part_atoms :: "(jstring \<Rightarrow> jstring) \<Rightarrow> byte list list \<times> byte list \<Rightarrow> (multipart_event + byte) list" where
  "part_atoms lower = (\<lambda>(hs, body). Inl (OnPart (part_of lower (join_lines hs))) # map Inr body @ [Inl OnPartEnd])"

text \<open>A needle whose first byte does not come again is found where it stands first.\<close>

lemma index_of_unbordered:
  assumes "index_of (c # ns) xs = None" and "c \<notin> set ns"
  shows "index_of (c # ns) (xs @ (c # ns) @ rest) = Some (length xs)"
proof -
  have "\<not> stands_at (c # ns) (xs @ (c # ns) @ rest) j" if j: "j < length xs" for j
  proof
    assume at: "stands_at (c # ns) (xs @ (c # ns) @ rest) j"
    let ?k = "length xs - j"
    have k: "0 < ?k" "?k < length (c # ns)"
      using not_found_before [OF assms(1) at] j by simp_all
    have "(c # ns) ! ?k = take (length (c # ns)) (drop j (xs @ (c # ns) @ rest)) ! ?k"
      using at by (simp only: stands_at_def)
    also have "\<dots> = c"
      using k j by (simp add: nth_append)
    finally have "ns ! (?k - 1) = c"
      using k(1) by (simp add: nth_Cons')
    moreover have "?k - 1 < length ns"
      using k by simp
    ultimately show False
      using assms(2) nth_mem by metis
  qed
  then show ?thesis
    by (simp add: index_of_Some) (simp add: stands_at_def)
qed

text \<open>A needle without the byte that ends the text before it is found behind that text.\<close>

lemma index_of_behind:
  assumes "index_of needle xs = None \<or> xs = []" and "xs = [] \<or> last xs \<notin> set needle" and "needle \<noteq> []"
  shows "index_of needle (xs @ needle @ rest) = Some (length xs)"
proof -
  have "\<not> stands_at needle (xs @ needle @ rest) j" if j: "j < length xs" for j
  proof
    assume at: "stands_at needle (xs @ needle @ rest) j"
    let ?k = "length xs - 1 - j"
    have "xs \<noteq> []"
      using j by auto
    then have k: "?k < length needle"
      using not_found_before [OF _ at] assms(1) j by simp
    have "needle ! ?k = take (length needle) (drop j (xs @ needle @ rest)) ! ?k"
      using at by (simp only: stands_at_def)
    also have "\<dots> = last xs"
      using k j \<open>xs \<noteq> []\<close> diff_less_mono2 [of j "Suc j" "length xs"] by (simp add: nth_append last_conv_nth)
    finally show False
      using assms(2) k \<open>xs \<noteq> []\<close> nth_mem by metis
  qed
  then show ?thesis
    by (simp add: index_of_Some) (simp add: stands_at_def)
qed

text \<open>A part, run to its end.\<close>

lemma part_run:
  assumes "part_ok p (hs, body)" and "mp_state p = BOUNDARY_LINE" and "mp_buf p = part_wire p (hs, body) @ rest"
    and "mp_delimiter p = CR # ns" and "CR \<notin> set ns"
    and "\<not> (0 < mp_maxParts p \<and> mp_maxParts p < int (mp_partCount p + 1))"
  shows "\<exists>n evs. atoms evs = part_atoms lower (hs, body) \<and>
    run_multipart lower p = (let (p', more, err) = run_multipart lower
        (p\<lparr>mp_buf := rest, mp_partBytes := n, mp_partCount := mp_partCount p + 1\<rparr>) in (p', evs @ more, err))"
proof -
  have ok: "hs \<noteq> []" "list_all field_line_ok hs" "index_of (mp_delimiter p) body = None"
      "mp_maxPartSize p \<le> 0 \<or> int (length body) \<le> mp_maxPartSize p"
    using assms(1) by (simp_all add: part_ok_def)
  define p1 where "p1 = p\<lparr>mp_buf := join_lines hs @ [CR, LF, CR, LF] @ body @ mp_delimiter p @ rest, mp_state := PART_HEADERS\<rparr>"
  define p2 where "p2 = p\<lparr>mp_buf := body @ mp_delimiter p @ rest, mp_state := PART_BODY, mp_partBytes := 0\<rparr>"
  define p3 where "p3 = p2\<lparr>mp_buf := rest, mp_partBytes := length body, mp_partCount := mp_partCount p2 + 1\<rparr>"
  have 1: "multipart_step lower p = (p1, [], Inr True)"
    using assms(2,3) by (simp add: multipart_step_def boundary_step_def consume_bytes_def part_wire_def p1_def)
  have "index_of [CR, LF, CR, LF] (mp_buf p1) = Some (length (join_lines hs))"
    using block_end [OF ok(2,1), of "body @ mp_delimiter p @ rest"] by (simp add: p1_def)
  then have 2: "multipart_step lower p1 = (p2, [OnPart (part_of lower (join_lines hs))], Inr True)"
    by (simp add: multipart_step_def headers_step_def consume_bytes_def p1_def p2_def)
  have found: "index_of (mp_delimiter p2) (mp_buf p2) = Some (length body)"
    using index_of_unbordered [of CR ns body rest] ok(3) assms(4,5) by (simp add: p2_def)
  have body: "mp_state p2 = PART_BODY"
    by (simp add: p2_def)
  have r: "p3 = p2\<lparr>mp_buf := drop (length body + length (mp_delimiter p2)) (mp_buf p2),
      mp_partBytes := mp_partBytes p2 + length body, mp_partCount := mp_partCount p2 + 1\<rparr>"
    by (simp add: p3_def p2_def)
  have 3: "multipart_step lower p2 = (p3\<lparr>mp_state := BOUNDARY_LINE\<rparr>, data_events body @ [OnPartEnd], Inr True)"
    using body_found_step [OF body found r, of lower] ok(4) assms(6) by (auto simp: part_fits_def p2_def)
  have "p3\<lparr>mp_state := BOUNDARY_LINE\<rparr> = p\<lparr>mp_buf := rest, mp_partBytes := length body, mp_partCount := mp_partCount p + 1\<rparr>"
    using assms(2) by (simp add: p3_def p2_def)
  then show ?thesis
    by (intro exI [of _ "length body"] exI [of _ "OnPart (part_of lower (join_lines hs)) # data_events body @ [OnPartEnd]"])
      (simp add: mrun_again [OF 1] mrun_again [OF 2] mrun_again [OF 3] part_atoms_def case_prod_beta Let_def)
qed

lemma parts_run:
  assumes "list_all (part_ok p) parts" and "mp_state p = BOUNDARY_LINE" and "mp_buf p = concat (map (part_wire p) parts) @ rest"
    and "mp_delimiter p = CR # ns" and "CR \<notin> set ns"
    and "mp_maxParts p \<le> 0 \<or> int (mp_partCount p + length parts) \<le> mp_maxParts p"
  shows "\<exists>n evs. atoms evs = concat (map (part_atoms lower) parts) \<and>
    run_multipart lower p = (let (p', more, err) = run_multipart lower
        (p\<lparr>mp_buf := rest, mp_partBytes := n, mp_partCount := mp_partCount p + length parts\<rparr>) in (p', evs @ more, err))"
  using assms
proof (induction parts arbitrary: p)
  case Nil
  then show ?case
    by (intro exI [of _ "mp_partBytes p"] exI [of _ "[]"]) (cases p, simp add: case_prod_beta)
next
  case (Cons part parts)
  obtain hs body where part: "part = (hs, body)"
    by (cases part)
  obtain n evs where one: "atoms evs = part_atoms lower part"
    "run_multipart lower p = (let (p', more, err) = run_multipart lower
        (p\<lparr>mp_buf := concat (map (part_wire p) parts) @ rest, mp_partBytes := n, mp_partCount := mp_partCount p + 1\<rparr>) in (p', evs @ more, err))"
    using part_run [of p hs body "concat (map (part_wire p) parts) @ rest" ns lower] Cons.prems part by auto
  define p1 where "p1 = p\<lparr>mp_buf := concat (map (part_wire p) parts) @ rest, mp_partBytes := n, mp_partCount := mp_partCount p + 1\<rparr>"
  have same: "part_wire p1 = part_wire p" "part_ok p1 = part_ok p"
    by (simp_all add: part_wire_def part_ok_def p1_def)
  obtain n' evs' where rest: "atoms evs' = concat (map (part_atoms lower) parts)"
    "run_multipart lower p1 = (let (p', more, err) = run_multipart lower
        (p1\<lparr>mp_buf := rest, mp_partBytes := n', mp_partCount := mp_partCount p1 + length parts\<rparr>) in (p', evs' @ more, err))"
    using Cons.IH [of p1] Cons.prems unfolding same by (auto simp: p1_def)
  have "p1\<lparr>mp_buf := rest, mp_partBytes := n', mp_partCount := mp_partCount p1 + length parts\<rparr> =
      p\<lparr>mp_buf := rest, mp_partBytes := n', mp_partCount := mp_partCount p + length (part # parts)\<rparr>"
    by (simp add: p1_def)
  then have "run_multipart lower p = (let (p', more, err) = run_multipart lower
      (p\<lparr>mp_buf := rest, mp_partBytes := n', mp_partCount := mp_partCount p + length (part # parts)\<rparr>)
      in (p', (evs @ evs') @ more, err))"
    unfolding one(2) [folded p1_def] rest(2) by (simp add: case_prod_beta Let_def)
  then show ?case
    using one(1) rest(1) by (intro exI [of _ n'] exI [of _ "evs @ evs'"] conjI) (simp_all only:, simp)
qed

text \<open>The whole body, fed at once.\<close>

lemma wire_feed:
  assumes "new_multipart options = Inr p"
    and "preamble = [] \<or> last preamble \<notin> set (mp_boundary p)" and "index_of (mp_boundary p) preamble = None \<or> preamble = []"
    and "CR \<notin> set (mp_boundary p)" and "list_all (part_ok p) parts"
    and "mp_maxParts p \<le> 0 \<or> int (length parts) \<le> mp_maxParts p"
    and "mp_maxTotalSize p \<le> 0 \<or> int (length (multipart_wire p preamble parts epilogue)) \<le> mp_maxTotalSize p"
  shows "\<exists>w evs. multipart_feed lower (multipart_wire p preamble parts epilogue) p = (w, evs, None)
    \<and> mp_state w = EPILOGUE \<and> mp_partCount w = length parts
    \<and> atoms evs = concat (map (part_atoms lower) parts) @ [Inl OnBodyComplete]"
proof -
  note new = new_multipart_fields [OF assms(1)]
  define rest where "rest = concat (map (part_wire p) parts) @ [DASH, DASH] @ epilogue"
  define p0 where "p0 = p\<lparr>mp_buf := preamble @ mp_boundary p @ rest, mp_totalBytes := length (multipart_wire p preamble parts epilogue)\<rparr>"
  define p1 where "p1 = p0\<lparr>mp_buf := rest, mp_state := BOUNDARY_LINE\<rparr>"
  have fed: "multipart_feed lower (multipart_wire p preamble parts epilogue) p = run_multipart lower p0"
    using new assms(7) by (auto simp: multipart_feed_def p0_def multipart_wire_def rest_def Let_def)
  have "index_of (mp_boundary p0) (mp_buf p0) = Some (length preamble)"
    using index_of_behind [OF assms(3,2) new(3), of rest] by (simp add: p0_def)
  then have start: "multipart_step lower p0 = (p1, [], Inr True)"
    using new(1) by (simp add: multipart_step_def preamble_step_def consume_bytes_def p0_def p1_def)
  have delim: "mp_delimiter p1 = CR # LF # mp_boundary p" "CR \<notin> set (LF # mp_boundary p)"
    using new(4) assms(4) by (simp_all add: p0_def p1_def)
  have same: "part_wire p1 = part_wire p" "part_ok p1 = part_ok p"
    by (simp_all add: part_wire_def part_ok_def p0_def p1_def)
  obtain n evs where run: "atoms evs = concat (map (part_atoms lower) parts)"
    "run_multipart lower p1 = (let (p', more, err) = run_multipart lower
        (p1\<lparr>mp_buf := [DASH, DASH] @ epilogue, mp_partBytes := n, mp_partCount := mp_partCount p1 + length parts\<rparr>) in (p', evs @ more, err))"
    using parts_run [of p1 parts "[DASH, DASH] @ epilogue" "LF # mp_boundary p" lower] delim assms(5,6) new(5) unfolding same
    by (auto simp: p0_def p1_def rest_def)
  define p2 where "p2 = p1\<lparr>mp_buf := [DASH, DASH] @ epilogue, mp_partBytes := n, mp_partCount := mp_partCount p1 + length parts\<rparr>"
  have "run_multipart lower p2 = (p2\<lparr>mp_state := EPILOGUE, mp_buf := []\<rparr>, [OnBodyComplete], None)"
    by (intro mrun_waits) (simp add: multipart_step_def boundary_step_def p2_def p1_def)
  then have "run_multipart lower p0 = (p2\<lparr>mp_state := EPILOGUE, mp_buf := []\<rparr>, evs @ [OnBodyComplete], None)"
    by (simp add: mrun_again [OF start] run(2) p2_def)
  then show ?thesis
    using fed run(1) new(5) by (simp add: p2_def p1_def p0_def)
qed

text \<open>
  C12: a well-formed multipart body is decoded to its parts in every segmentation: for each part its headers
  once, exactly the bytes of its body in order, and its end; then the end of the message. Each part must
  have a field line and a body without the delimiter; the boundary is free of CR; the caps must fit.
\<close>

theorem multipart_decoded:
  assumes "new_multipart options = Inr p"
    and "preamble = [] \<or> last preamble \<notin> set (mp_boundary p)" and "index_of (mp_boundary p) preamble = None \<or> preamble = []"
    and "CR \<notin> set (mp_boundary p)" and "list_all (part_ok p) parts"
    and "mp_maxParts p \<le> 0 \<or> int (length parts) \<le> mp_maxParts p"
    and "mp_maxTotalSize p \<le> 0 \<or> int (length (multipart_wire p preamble parts epilogue)) \<le> mp_maxTotalSize p"
    and "concat segs = multipart_wire p preamble parts epilogue"
  shows "\<exists>w evs. feed_all (multipart_feed lower) segs p = (w, evs, None)
    \<and> multipart_complete w \<and> multipart_finish w = None \<and> mp_partCount w = length parts
    \<and> atoms evs = concat (map (part_atoms lower) parts) @ [Inl OnBodyComplete]"
proof -
  obtain w evs where "multipart_feed lower (concat segs) p = (w, evs, None)" "mp_state w = EPILOGUE" "mp_partCount w = length parts"
      "atoms evs = concat (map (part_atoms lower) parts) @ [Inl OnBodyComplete]"
    using wire_feed [OF assms(1-7), of lower] assms(8) by auto
  moreover obtain t out where "feed_all (multipart_feed lower) segs p = (t, out, None)" "forget_total t = forget_total w" "atoms out = atoms evs"
    using multipart_stream.any_segmentation [OF at_rest_new [OF assms(1)] calculation(1)] by blast
  moreover have "mp_state t = mp_state w" "mp_partCount t = mp_partCount w"
    using \<open>forget_total t = forget_total w\<close>
    by (auto simp: forget_total_def dest: arg_cong [where f = mp_state] arg_cong [where f = mp_partCount])
  ultimately show ?thesis
    by (auto simp: multipart_complete_def multipart_finish_def)
qed

definition example_parser :: multipart where
  "example_parser = \<lparr>mp_boundary = [DASH, DASH, 0x62], mp_delimiter = [CR, LF, DASH, DASH, 0x62],
     mp_maxPartSize = 0, mp_maxTotalSize = 0, mp_maxParts = 0,
     mp_buf = [], mp_state = PREAMBLE, mp_partBytes = 0, mp_totalBytes = 0, mp_partCount = 0\<rparr>"

lemma example_parser_new:
  "new_multipart \<lparr>mo_boundary = js ''b'', mo_maxPartSize = None, mo_maxTotalSize = None, mo_maxParts = None\<rparr> = Inr example_parser"
  by (simp add: new_multipart_def dashes_first example_parser_def Let_def)
    (simp add: buffer_from_def js_def js_char_def high_surrogate_def low_surrogate_def utf8_encode_def utf8_encode1_def)

theorem multipart_decoded_witness:
  "\<exists>w evs. feed_all (multipart_feed (\<lambda>s. s))
       [[DASH, DASH], [0x62, CR, LF, 0x61, 0x3a, CR], [LF, CR, LF, 1, CR], [LF, 2, CR, LF, DASH, DASH, 0x62, DASH, DASH]] example_parser = (w, evs, None)
    \<and> multipart_complete w \<and> multipart_finish w = None \<and> mp_partCount w = 1
    \<and> atoms evs = Inl (OnPart (part_of (\<lambda>s. s) [0x61, 0x3a])) # map Inr [1, CR, LF, 2] @ [Inl OnPartEnd, Inl OnBodyComplete]"
  using multipart_decoded [OF example_parser_new, where lower = "\<lambda>s. s" and preamble = "[]" and epilogue = "[]"
      and parts = "[([[0x61, 0x3a]], [1, CR, LF, 2])]"
      and segs = "[[DASH, DASH], [0x62, CR, LF, 0x61, 0x3a, CR], [LF, CR, LF, 1, CR], [LF, 2, CR, LF, DASH, DASH, 0x62, DASH, DASH]]"]
  by (simp add: example_parser_def part_ok_def field_line_ok_def multipart_wire_def part_wire_def part_atoms_def)

theorem multipart_any_segmentation_witness:
  "\<exists>w' evs'. feed_all (multipart_feed (\<lambda>s. s)) [[DASH], [DASH, 0x62, DASH], [DASH]] example_parser = (w', evs', None)
    \<and> atoms evs' = [Inl OnBodyComplete] \<and> mp_state w' = EPILOGUE \<and> mp_partCount w' = 0"
proof -
  have "\<exists>w. multipart_feed (\<lambda>s. s) (concat [[DASH], [DASH, 0x62, DASH], [DASH]]) example_parser = (w, [OnBodyComplete], None)
      \<and> mp_state w = EPILOGUE \<and> mp_partCount w = 0"
    by (simp add: example_parser_def multipart_feed_def run_multipart.simps multipart_step_def preamble_step_def boundary_step_def
        consume_bytes_def Let_def)
  then show ?thesis
    using multipart_any_segmentation [OF example_parser_new] by fastforce
qed

text \<open>
  A part without header fields, which RFC 2046 allows, is not recognised: its empty header block is only
  the line end behind the boundary's, so the parser takes the part's body and all that follows for headers,
  and the complete body ends in an error.
\<close>

theorem headerless_part_lost:
  "case multipart_feed lower ([DASH, DASH, 0x62, CR, LF] @ [CR, LF] @ [1, 2] @ [CR, LF, DASH, DASH, 0x62, DASH, DASH]) example_parser of
     (w, evs, err) \<Rightarrow> evs = [] \<and> err = None \<and> multipart_finish w = Some (EndedWithoutFinalBoundary PART_HEADERS)"
  by (simp add: example_parser_def multipart_feed_def run_multipart.simps multipart_step_def preamble_step_def boundary_step_def
      headers_step_def consume_bytes_def multipart_finish_def Let_def)

end
