(* ===== verification/BodyLimit.thy ===== *)
theory BodyLimit
  imports Interfaces
begin

text \<open>
  The byte budget of a request body, \<open>http-parser/engine/BodySizeLimiter.ts\<close>: the part of each chunk that
  is within the budget is passed on. A call returns the result, or throws in hard mode.
\<close>

datatype body_limit_error = BodyLimitExceededError nat nat | RangeError

record body_limiter =
  bl_maxBytes :: nat
  bl_hard :: bool
  bl_total :: nat
  bl_exceeded :: bool

record body_limit_result =
  br_accepted :: "byte list"
  br_totalAccepted :: nat
  br_exceeded :: bool

definition new_limiter :: "int \<Rightarrow> bool \<Rightarrow> body_limit_error + body_limiter" where
  "new_limiter maxBytes hard =
     (if maxBytes \<le> 0 then Inl RangeError
      else Inr \<lparr>bl_maxBytes = nat maxBytes, bl_hard = hard, bl_total = 0, bl_exceeded = False\<rparr>)"

definition limiter_remaining :: "body_limiter \<Rightarrow> nat" where
  "limiter_remaining l = bl_maxBytes l - bl_total l"

definition limit_feed :: "byte list \<Rightarrow> body_limiter \<Rightarrow> body_limiter \<times> (body_limit_error + body_limit_result)" where
  "limit_feed chunk l =
     (if bl_exceeded l then (l, Inr \<lparr>br_accepted = [], br_totalAccepted = bl_total l, br_exceeded = True\<rparr>)
      else
        let room = bl_maxBytes l - bl_total l in
        if length chunk \<le> room then
          let l = l\<lparr>bl_total := bl_total l + length chunk\<rparr> in
          (l, Inr \<lparr>br_accepted = chunk, br_totalAccepted = bl_total l, br_exceeded = False\<rparr>)
        else
          let accepted = take room chunk;
              l = l\<lparr>bl_total := bl_total l + length accepted, bl_exceeded := True\<rparr>
          in
          if bl_hard l then (l, Inl (BodyLimitExceededError (bl_maxBytes l) (bl_total l + (length chunk - room))))
          else (l, Inr \<lparr>br_accepted = accepted, br_totalAccepted = bl_total l, br_exceeded = True\<rparr>))"

definition limit_reset :: "body_limiter \<Rightarrow> body_limiter" where
  "limit_reset l = l\<lparr>bl_total := 0, bl_exceeded := False\<rparr>"

text \<open>What a sequence of chunks passes on, whether or not a call throws, and what is thrown.\<close>

fun limit_all :: "byte list list \<Rightarrow> body_limiter \<Rightarrow> body_limiter \<times> byte list \<times> body_limit_error list" where
  "limit_all [] l = (l, [], [])"
| "limit_all (chunk # chunks) l =
     (case limit_feed chunk l of
        (l, Inl e) \<Rightarrow> let (l, out, errs) = limit_all chunks l in (l, out, e # errs)
      | (l, Inr r) \<Rightarrow> let (l, out, errs) = limit_all chunks l in (l, br_accepted r @ out, errs))"

definition limiter_ok :: "body_limiter \<Rightarrow> bool" where
  "limiter_ok l \<longleftrightarrow> bl_total l \<le> bl_maxBytes l \<and> (bl_exceeded l \<longrightarrow> bl_total l = bl_maxBytes l)"

lemma limit_feed_ok: "limiter_ok l \<Longrightarrow> limiter_ok (fst (limit_feed chunk l))"
  by (auto simp: limit_feed_def limiter_ok_def Let_def)

interpretation limiter: invariant_machine "\<lambda>l chunk. fst (limit_feed chunk l)" limiter_ok
  by unfold_locales (rule limit_feed_ok)

lemma limit_all_spent: "bl_exceeded l \<Longrightarrow> limit_all chunks l = (l, [], [])"
  by (induction chunks) (simp_all add: limit_feed_def)

lemma limit_all_soft:
  "limiter_ok l \<Longrightarrow> \<not> bl_exceeded l \<Longrightarrow> \<not> bl_hard l \<Longrightarrow>
     (case limit_all chunks l of (l', out, errs) \<Rightarrow>
        out = take (bl_maxBytes l - bl_total l) (concat chunks) \<and> errs = []
        \<and> bl_total l' = bl_total l + length out
        \<and> (bl_exceeded l' \<longleftrightarrow> bl_maxBytes l < bl_total l + length (concat chunks)))"
proof (induction chunks arbitrary: l)
  case (Cons chunk chunks)
  let ?room = "bl_maxBytes l - bl_total l"
  show ?case
  proof (cases "length chunk \<le> ?room")
    case True
    define l1 where "l1 = l\<lparr>bl_total := bl_total l + length chunk\<rparr>"
    have "limiter_ok l1" "\<not> bl_exceeded l1" "\<not> bl_hard l1"
      using Cons.prems True by (auto simp: l1_def limiter_ok_def)
    note rest = Cons.IH [OF this]
    have feed: "limit_feed chunk l = (l1, Inr \<lparr>br_accepted = chunk, br_totalAccepted = bl_total l1, br_exceeded = False\<rparr>)"
      using True Cons.prems by (simp add: limit_feed_def l1_def)
    obtain l' out errs where all: "limit_all chunks l1 = (l', out, errs)"
      by (cases "limit_all chunks l1") auto
    have "take ?room (chunk @ concat chunks) = chunk @ take (bl_maxBytes l1 - bl_total l1) (concat chunks)"
      using True by (simp add: l1_def)
    with rest feed all show ?thesis
      by (simp add: l1_def add.assoc)
  next
    case False
    then have "limit_feed chunk l = (l\<lparr>bl_total := bl_total l + ?room, bl_exceeded := True\<rparr>,
        Inr \<lparr>br_accepted = take ?room chunk, br_totalAccepted = bl_total l + ?room, br_exceeded = True\<rparr>)"
      using Cons.prems by (simp add: limit_feed_def Let_def)
    with False show ?thesis
      by (simp add: limit_all_spent)
  qed
qed (simp add: limiter_ok_def)

text \<open>
  In soft mode the limiter passes on exactly the first \<open>maxBytes\<close> bytes of the body, however it is cut
  into chunks, never throws, and says that the limit was exceeded exactly when the body is longer.
\<close>

theorem limiter_passes_prefix:
  assumes "new_limiter maxBytes False = Inr l"
  shows "(case limit_all chunks l of (l', out, errs) \<Rightarrow>
     out = take (nat maxBytes) (concat chunks) \<and> errs = [] \<and> bl_total l' = length out
     \<and> (bl_exceeded l' \<longleftrightarrow> maxBytes < int (length (concat chunks))))"
proof -
  have l: "l = \<lparr>bl_maxBytes = nat maxBytes, bl_hard = False, bl_total = 0, bl_exceeded = False\<rparr>" "0 < maxBytes"
    using assms by (simp_all add: new_limiter_def split: if_splits)
  have "limiter_ok l" "\<not> bl_exceeded l" "\<not> bl_hard l"
    by (simp_all add: l limiter_ok_def)
  from limit_all_soft [OF this, of chunks] show ?thesis
    using l by (auto split: prod.splits)
qed

theorem limiter_passes_prefix_witness:
  "(case limit_all [[1, 2], [3, 4], [5]] \<lparr>bl_maxBytes = 3, bl_hard = False, bl_total = 0, bl_exceeded = False\<rparr> of (l', out, errs) \<Rightarrow>
     out = [1, 2, 3] \<and> errs = [] \<and> bl_exceeded l')"
  using limiter_passes_prefix [of 3 "\<lparr>bl_maxBytes = 3, bl_hard = False, bl_total = 0, bl_exceeded = False\<rparr>" "[[1, 2], [3, 4], [5]]"]
  by (simp add: new_limiter_def limit_feed_def)

text \<open>
  In hard mode the bytes of the crossing chunk that are within the budget are counted as accepted, but the
  call throws without handing them on, and the calls after it do not throw.
\<close>

theorem hard_limit_drops_prefix:
  "limit_all [[1, 2], [3]] \<lparr>bl_maxBytes = 1, bl_hard = True, bl_total = 0, bl_exceeded = False\<rparr> =
     (\<lparr>bl_maxBytes = 1, bl_hard = True, bl_total = 1, bl_exceeded = True\<rparr>, [], [BodyLimitExceededError 1 2])"
  by (simp add: limit_feed_def)

end
