(* ===== verification/ByteCodec.thy ===== *)
theory ByteCodec
  imports NodeBuffer
begin

text \<open>
  The primitives of the binary formats, \<open>serialization/engine/ByteWriter.ts\<close>: fixed-width and
  variable-length integers, doubles and strings, written to a list of bytes and read back from a cursor. A
  writer is the bytes it has written; a reader is its cursor and the bytes from the cursor on, so that a mark
  is the reader itself. A read returns the value and the next reader, or the exception.
\<close>

section \<open>Data\<close>

datatype range_message = PastEnd | VarintTooLong | BadCodePoint nat | BadArrayLength nat | BufferAllocation

datatype codec_message =
    UnknownTag byte
  | CannotEncode jstring
  | NotCompiled jstring
  | UnknownSchema jstring
  | MissingField jstring
  | WrongKind jstring jstring jstring
  | NewerVersion jstring nat nat
  | TruncatedRecord jstring

datatype codec_error = RangeError range_message | CodecError codec_message nat

type_synonym reader = "nat \<times> byte list"
type_synonym 'a read = "reader \<Rightarrow> codec_error + 'a \<times> reader"

definition new_reader :: "byte list \<Rightarrow> reader" where
  "new_reader buf = (0, buf)"

definition remaining :: "reader \<Rightarrow> nat" where
  "remaining r = length (snd r)"

definition read_bind :: "'a read \<Rightarrow> ('a \<Rightarrow> 'b read) \<Rightarrow> 'b read" where
  "read_bind f g r = (case f r of Inl e \<Rightarrow> Inl e | Inr (v, r) \<Rightarrow> g v r)"

definition read_return :: "'a \<Rightarrow> 'a read" where
  "read_return v r = Inr (v, r)"

section \<open>Numbers\<close>

text \<open>
  A number is an integral value, minus zero, a double that is not integral (by its bits), an infinity or NaN.
\<close>

datatype number = Integral int | NegativeZero | Fraction "64 word" | Infinite bool | NotANumber

definition double_sign :: "nat \<Rightarrow> bool" where
  "double_sign b \<longleftrightarrow> 2 ^ 63 \<le> b"

definition double_exponent :: "nat \<Rightarrow> nat" where
  "double_exponent b = b div 2 ^ 52 mod 2048"

definition double_fraction :: "nat \<Rightarrow> nat" where
  "double_fraction b = b mod 2 ^ 52"

definition with_sign :: "bool \<Rightarrow> nat \<Rightarrow> int" where
  "with_sign s n = (if s then - int n else int n)"

text \<open>The number of a bit pattern (\<open>getFloat64\<close>).\<close>

definition number_of_bits :: "64 word \<Rightarrow> number" where
  "number_of_bits w =
     (let b = unat w; s = double_sign b; e = double_exponent b; m = double_fraction b in
      if e = 2047 then (if m = 0 then Infinite s else NotANumber)
      else
        let mant = (if e = 0 then m else 2 ^ 52 + m) in
        if mant = 0 then (if s then NegativeZero else Integral 0)
        else if 1075 \<le> e then Integral (with_sign s (mant * 2 ^ (e - 1075)))
        else
          let k = 1075 - max 1 e in
          if mant mod 2 ^ k = 0 then Integral (with_sign s (mant div 2 ^ k)) else Fraction w)"

definition pack_double :: "bool \<Rightarrow> nat \<Rightarrow> nat \<Rightarrow> 64 word" where
  "pack_double s e m = word_of_nat ((if s then 2 ^ 63 else 0) + e * 2 ^ 52 + m)"

text \<open>The bits of a number (\<open>setFloat64\<close>); for NaN, the pattern Node writes.\<close>

definition bits_of_number :: "number \<Rightarrow> 64 word" where
  "bits_of_number x =
     (case x of
        Integral v \<Rightarrow>
          let n = nat \<bar>v\<bar>; l = bit_len n in
          if n = 0 then 0
          else pack_double (v < 0) (l + 1022) ((if l \<le> 53 then n * 2 ^ (53 - l) else n div 2 ^ (l - 53)) - 2 ^ 52)
      | NegativeZero \<Rightarrow> pack_double True 0 0
      | Fraction w \<Rightarrow> w
      | Infinite s \<Rightarrow> pack_double s 2047 0
      | NotANumber \<Rightarrow> pack_double False 2047 (2 ^ 51))"

section \<open>Writing\<close>

definition write_u8 :: "nat \<Rightarrow> byte list" where
  "write_u8 v = [word_of_nat v AND 0xff]"

definition write_u16 :: "nat \<Rightarrow> byte list" where
  "write_u16 v = write_u8 (v div 2 ^ 8) @ write_u8 v"

definition write_u32 :: "32 word \<Rightarrow> byte list" where
  "write_u32 v = map ucast [drop_bit 24 v, drop_bit 16 v, drop_bit 8 v, v]"

definition write_f64 :: "number \<Rightarrow> byte list" where
  "write_f64 x = be_bytes 8 (unat (bits_of_number x))"

fun varint :: "nat \<Rightarrow> byte list" where
  "varint x =
     (let b = word_of_nat x AND 0x7f; x' = x div 128 in
      if x' \<noteq> 0 then (b OR 0x80) # varint x' else [b])"

declare varint.simps [simp del]

text \<open>The arithmetic is that of doubles: \<open>2 * v\<close> is exact, \<open>- 2 * v - 1\<close> is rounded.\<close>

definition zigzag :: "int \<Rightarrow> nat" where
  "zigzag v = (if 0 \<le> v then nat (v * 2) else number_of_bigint (nat (- v * 2 - 1)))"

definition svarint :: "int \<Rightarrow> byte list" where
  "svarint v = varint (zigzag v)"

text \<open>\<open>codePointAt\<close> along a string: surrogates that do not pair stand for themselves.\<close>

fun code_points :: "jstring \<Rightarrow> nat list" where
  "code_points [] = []"
| "code_points (c # rest) =
     (case rest of
        [] \<Rightarrow> [unat c]
      | d # rest' \<Rightarrow>
          if high_surrogate c \<and> low_surrogate d
          then (0x10000 + (unat c - 0xd800) * 1024 + (unat d - 0xdc00)) # code_points rest'
          else unat c # code_points rest)"

definition utf8Encode :: "jstring \<Rightarrow> byte list" where
  "utf8Encode s = map word_of_nat (concat (map utf8_encode1 (code_points s)))"

definition write_str :: "jstring \<Rightarrow> byte list" where
  "write_str s = (let bytes = utf8Encode s in varint (length bytes) @ bytes)"

section \<open>Reading\<close>

definition read_u8 :: "byte read" where
  "read_u8 r = (case r of (pos, []) \<Rightarrow> Inl (RangeError PastEnd) | (pos, b # rest) \<Rightarrow> Inr (b, pos + 1, rest))"

definition read_bytes :: "nat \<Rightarrow> byte list read" where
  "read_bytes n r =
     (case r of (pos, rest) \<Rightarrow>
        if length rest < n then Inl (RangeError PastEnd) else Inr (take n rest, pos + n, drop n rest))"

definition read_u16 :: "nat read" where
  "read_u16 = read_bind read_u8 (\<lambda>a. read_bind read_u8 (\<lambda>b. read_return (unat a * 2 ^ 8 + unat b)))"

definition read_u32 :: "32 word read" where
  "read_u32 = read_bind read_u8 (\<lambda>a. read_bind read_u8 (\<lambda>b. read_bind read_u8 (\<lambda>c. read_bind read_u8 (\<lambda>d.
     read_return (push_bit 24 (ucast a) OR push_bit 16 (ucast b) OR push_bit 8 (ucast c) OR ucast d)))))"

definition read_f64 :: "number read" where
  "read_f64 = read_bind (read_bytes 8) (\<lambda>b. read_return (number_of_bits (word_of_nat (be_val b))))"

text \<open>Every partial sum is rounded to a double.\<close>

fun varint_loop :: "nat \<Rightarrow> nat \<Rightarrow> nat \<Rightarrow> byte list \<Rightarrow> codec_error + nat \<times> reader" where
  "varint_loop result shift pos [] = Inl (RangeError PastEnd)"
| "varint_loop result shift pos (b # rest) =
     (let result = number_of_bigint (result + unat (b AND 0x7f) * 2 ^ shift) in
      if b AND 0x80 = 0 then Inr (result, pos + 1, rest)
      else if shift + 7 > 56 then Inl (RangeError VarintTooLong)
      else varint_loop result (shift + 7) (pos + 1) rest)"

definition read_varint :: "nat read" where
  "read_varint r = (case r of (pos, rest) \<Rightarrow> varint_loop 0 0 pos rest)"

definition unzigzag :: "nat \<Rightarrow> int" where
  "unzigzag zz = (if even zz then int (zz div 2) else - int ((zz + 1) div 2))"

definition read_svarint :: "int read" where
  "read_svarint = read_bind read_varint (\<lambda>zz. read_return (unzigzag zz))"

text \<open>\<open>bytes[i] & 63\<close> is 0 past the end; \<open>String.fromCodePoint\<close> refuses what is above 0x10ffff.\<close>

definition low6 :: "byte list \<Rightarrow> nat \<Rightarrow> nat" where
  "low6 bs i = (if i < length bs then unat (bs ! i) mod 64 else 0)"

definition add_code_point :: "nat \<Rightarrow> codec_error + jstring \<Rightarrow> codec_error + jstring" where
  "add_code_point cp more = (if cp > 0x10ffff then Inl (RangeError (BadCodePoint cp)) else map_sum id ((@) (units1 cp)) more)"

fun utf8Decode :: "byte list \<Rightarrow> codec_error + jstring" where
  "utf8Decode [] = Inr []"
| "utf8Decode (b # bs) =
     (let b0 = unat b in
      if b0 < 0x80 then add_code_point b0 (utf8Decode bs)
      else if b0 < 0xe0 then add_code_point (b0 mod 32 * 64 + low6 bs 0) (utf8Decode (drop 1 bs))
      else if b0 < 0xf0 then add_code_point (b0 mod 16 * 4096 + low6 bs 0 * 64 + low6 bs 1) (utf8Decode (drop 2 bs))
      else add_code_point (b0 mod 8 * 262144 + low6 bs 0 * 4096 + low6 bs 1 * 64 + low6 bs 2) (utf8Decode (drop 3 bs)))"

declare utf8Decode.simps(2) [simp del]

definition read_str :: "jstring read" where
  "read_str = read_bind read_varint (\<lambda>n. read_bind (read_bytes n) (\<lambda>bytes r.
     case utf8Decode bytes of Inl e \<Rightarrow> Inl e | Inr s \<Rightarrow> Inr (s, r)))"

section \<open>Reading is local\<close>

text \<open>
  A reader that works at its cursor: the result does not depend on where the cursor stands, and more bytes
  after those it read change nothing. Only an exception of the range kind, the sign of missing bytes, may
  give way to something else when more bytes come.
\<close>

definition local_read :: "'a read \<Rightarrow> bool" where
  "local_read f \<longleftrightarrow> (\<forall>pos xs ys. case f (0, xs) of
     Inr (v, n, rest) \<Rightarrow> n \<le> length xs \<and> rest = drop n xs \<and> f (pos, xs @ ys) = Inr (v, pos + n, drop n xs @ ys)
   | Inl (CodecError m off) \<Rightarrow> f (pos, xs @ ys) = Inl (CodecError m (pos + off))
   | Inl (RangeError m) \<Rightarrow> f (pos, xs) = Inl (RangeError m))"

lemma local_readI:
  assumes "\<And>pos xs ys v n rest. f (0, xs) = Inr (v, n, rest) \<Longrightarrow>
      n \<le> length xs \<and> rest = drop n xs \<and> f (pos, xs @ ys) = Inr (v, pos + n, drop n xs @ ys)"
    and "\<And>pos xs ys m off. f (0, xs) = Inl (CodecError m off) \<Longrightarrow> f (pos, xs @ ys) = Inl (CodecError m (pos + off))"
    and "\<And>pos xs m. f (0, xs) = Inl (RangeError m) \<Longrightarrow> f (pos, xs) = Inl (RangeError m)"
  shows "local_read f"
  unfolding local_read_def
proof (intro allI)
  fix pos xs ys
  show "case f (0, xs) of
     Inr (v, n, rest) \<Rightarrow> n \<le> length xs \<and> rest = drop n xs \<and> f (pos, xs @ ys) = Inr (v, pos + n, drop n xs @ ys)
   | Inl (CodecError m off) \<Rightarrow> f (pos, xs @ ys) = Inl (CodecError m (pos + off))
   | Inl (RangeError m) \<Rightarrow> f (pos, xs) = Inl (RangeError m)"
    using assms(1) [of xs _ _ _ pos ys] assms(2) [of xs _ _ pos ys] assms(3) [of xs _ pos]
    by (simp split: sum.split codec_error.split)
qed

lemma local_read_Inr:
  "local_read f \<Longrightarrow> f (0, xs) = Inr (v, n, rest) \<Longrightarrow>
     n \<le> length xs \<and> rest = drop n xs \<and> f (pos, xs @ ys) = Inr (v, pos + n, drop n xs @ ys)"
  unfolding local_read_def by (drule spec [of _ pos], drule spec [of _ xs], drule spec [of _ ys]) simp

lemma local_read_error:
  "local_read f \<Longrightarrow> f (0, xs) = Inl (CodecError m off) \<Longrightarrow> f (pos, xs @ ys) = Inl (CodecError m (pos + off))"
  unfolding local_read_def by (drule spec [of _ pos], drule spec [of _ xs], drule spec [of _ ys]) simp

lemma local_read_range:
  "local_read f \<Longrightarrow> f (0, xs) = Inl (RangeError m) \<Longrightarrow> f (pos, xs) = Inl (RangeError m)"
  unfolding local_read_def by (drule spec [of _ pos], drule spec [of _ xs], drule spec [of _ "[]"]) simp

lemma local_read_shift:
  assumes "local_read f"
  shows "f (pos, xs) = (case f (0, xs) of
      Inl (RangeError m) \<Rightarrow> Inl (RangeError m)
    | Inl (CodecError m off) \<Rightarrow> Inl (CodecError m (pos + off))
    | Inr (v, n, rest) \<Rightarrow> Inr (v, pos + n, rest))"
  using local_read_Inr [OF assms, of xs _ _ _ pos "[]"] local_read_error [OF assms, of xs _ _ pos "[]"]
    local_read_range [OF assms, of xs _ pos]
  by (simp split: sum.split codec_error.split)

lemma local_read_back_Inr: "local_read f \<Longrightarrow> f (pos, xs) = Inr (v, n, rest) \<Longrightarrow> \<exists>k. n = pos + k \<and> f (0, xs) = Inr (v, k, rest)"
  by (subst (asm) local_read_shift) (auto split: sum.splits codec_error.splits)

lemma local_read_back_error: "local_read f \<Longrightarrow> f (pos, xs) = Inl (CodecError m off) \<Longrightarrow> \<exists>k. off = pos + k \<and> f (0, xs) = Inl (CodecError m k)"
  by (subst (asm) local_read_shift) (auto split: sum.splits codec_error.splits)

lemma local_read_back_range: "local_read f \<Longrightarrow> f (pos, xs) = Inl (RangeError m) \<Longrightarrow> f (0, xs) = Inl (RangeError m)"
  by (subst (asm) local_read_shift) (auto split: sum.splits codec_error.splits)

lemma local_read_return [simp, intro]: "local_read (read_return v)"
  by (auto simp: local_read_def read_return_def)

lemma local_read_fail [simp, intro]: "local_read (\<lambda>r. Inl (RangeError m))"
  by (simp add: local_read_def)

lemma local_read_bind [intro]:
  assumes f: "local_read f" and g: "\<And>v. local_read (g v)"
  shows "local_read (read_bind f g)"
proof (rule local_readI)
  fix pos xs ys v n rest
  assume "read_bind f g (0, xs) = Inr (v, n, rest)"
  then obtain u k r where fu: "f (0, xs) = Inr (u, k, r)" and gu: "g u (k, r) = Inr (v, n, rest)"
    by (auto simp: read_bind_def split: sum.splits)
  note k = local_read_Inr [OF f fu]
  obtain n2 where g0: "g u (0, drop k xs) = Inr (v, n2, rest)"
    using gu k [of 0 "[]"] local_read_back_Inr [OF g] by blast
  note n2 = local_read_Inr [OF g g0]
  have "n = k + n2" "rest = drop n2 (drop k xs)"
    using gu k [of 0 "[]"] n2 [of k "[]"] by simp_all
  then show "n \<le> length xs \<and> rest = drop n xs \<and> read_bind f g (pos, xs @ ys) = Inr (v, pos + n, drop n xs @ ys)"
    using k [of pos ys] n2 [of "pos + k" ys] by (auto simp: read_bind_def ac_simps)
next
  fix pos xs ys m off
  assume "read_bind f g (0, xs) = Inl (CodecError m off)"
  then consider "f (0, xs) = Inl (CodecError m off)"
    | u k r where "f (0, xs) = Inr (u, k, r)" "g u (k, r) = Inl (CodecError m off)"
    by (auto simp: read_bind_def split: sum.splits)
  then show "read_bind f g (pos, xs @ ys) = Inl (CodecError m (pos + off))"
  proof cases
    case 1
    then show ?thesis
      using local_read_error [OF f 1, of pos ys] by (simp add: read_bind_def)
  next
    case 2
    note k = local_read_Inr [OF f 2(1)]
    obtain off2 where g0: "g u (0, drop k xs) = Inl (CodecError m off2)" and "off = k + off2"
      using 2(2) k [of 0 "[]"] local_read_back_error [OF g] by blast
    then show ?thesis
      using k [of pos ys] local_read_error [OF g g0, of "pos + k" ys] \<open>off = k + off2\<close> by (simp add: read_bind_def add.assoc)
  qed
next
  fix pos xs m
  assume "read_bind f g (0, xs) = Inl (RangeError m)"
  then consider "f (0, xs) = Inl (RangeError m)"
    | u k r where "f (0, xs) = Inr (u, k, r)" "g u (k, r) = Inl (RangeError m)"
    by (auto simp: read_bind_def split: sum.splits)
  then show "read_bind f g (pos, xs) = Inl (RangeError m)"
  proof cases
    case 1
    then show ?thesis
      using local_read_range [OF f 1, of pos] by (simp add: read_bind_def)
  next
    case 2
    note k = local_read_Inr [OF f 2(1)]
    have g0: "g u (0, drop k xs) = Inl (RangeError m)"
      using 2(2) k [of 0 "[]"] local_read_back_range [OF g] by blast
    then show ?thesis
      using k [of pos "[]"] local_read_range [OF g g0, of "pos + k"] by (simp add: read_bind_def)
  qed
qed

lemma local_read_u8 [simp, intro]: "local_read read_u8"
proof (rule local_readI)
  show "read_u8 (0, xs) = Inr (v, n, rest) \<Longrightarrow> n \<le> length xs \<and> rest = drop n xs \<and> read_u8 (pos, xs @ ys) = Inr (v, pos + n, drop n xs @ ys)"
    for pos xs ys v n rest
    by (cases xs) (auto simp: read_u8_def)
  show "read_u8 (0, xs) = Inl (CodecError m off) \<Longrightarrow> read_u8 (pos, xs @ ys) = Inl (CodecError m (pos + off))" for pos xs ys m off
    by (cases xs) (auto simp: read_u8_def)
  show "read_u8 (0, xs) = Inl (RangeError m) \<Longrightarrow> read_u8 (pos, xs) = Inl (RangeError m)" for pos xs m
    by (cases xs) (auto simp: read_u8_def)
qed

lemma local_read_bytes [simp, intro]: "local_read (read_bytes n)"
  by (rule local_readI) (auto simp: read_bytes_def split: if_splits)

lemma varint_loop_local:
  "case varint_loop result shift start xs of
     Inr (v, n, rest) \<Rightarrow> \<exists>k \<le> length xs. n = start + k \<and> rest = drop k xs
        \<and> varint_loop result shift pos (xs @ ys) = Inr (v, pos + k, drop k xs @ ys)
   | Inl (RangeError m) \<Rightarrow> varint_loop result shift pos xs = Inl (RangeError m)
   | Inl (CodecError m off) \<Rightarrow> False"
proof (induction xs arbitrary: result shift start pos)
  case (Cons b xs)
  show ?case
    using Cons.IH [where result = "number_of_bigint (result + unat (b AND 0x7f) * 2 ^ shift)" and shift = "shift + 7"
        and start = "start + 1" and pos = "pos + 1"]
    by (auto simp: Let_def split: sum.splits codec_error.splits intro: exI [of _ "Suc _"])
qed simp

lemma local_read_varint [simp, intro]: "local_read read_varint"
proof (rule local_readI)
  fix pos xs ys and v n :: nat and rest :: "byte list" and m off
  note * = varint_loop_local [where result = 0 and shift = 0 and start = 0 and xs = xs and ys = ys and pos = pos]
  show "read_varint (0, xs) = Inr (v, n, rest) \<Longrightarrow> n \<le> length xs \<and> rest = drop n xs \<and> read_varint (pos, xs @ ys) = Inr (v, pos + n, drop n xs @ ys)"
    using * by (auto simp: read_varint_def)
  show "read_varint (0, xs) = Inl (CodecError m off) \<Longrightarrow> read_varint (pos, xs @ ys) = Inl (CodecError m (pos + off))"
    using * by (simp add: read_varint_def)
next
  fix pos xs m
  show "read_varint (0, xs) = Inl (RangeError m) \<Longrightarrow> read_varint (pos, xs) = Inl (RangeError m)"
    using varint_loop_local [where result = 0 and shift = 0 and start = 0 and xs = xs and ys = "[]" and pos = pos] by (simp add: read_varint_def)
qed

lemma utf8Decode_range: "utf8Decode bs \<noteq> Inl (CodecError m off)"
proof (induction bs rule: utf8Decode.induct)
  case (2 b bs)
  have add: "x \<noteq> Inl (CodecError m off) \<Longrightarrow> add_code_point cp x \<noteq> Inl (CodecError m off)" for cp and x :: "codec_error + jstring"
    by (cases x) (auto simp: add_code_point_def)
  show ?case
    using 2 by (simp add: utf8Decode.simps(2) Let_def add)
qed simp

lemma local_read_lift:
  assumes "\<And>m off. f \<noteq> Inl (CodecError m off)"
  shows "local_read (\<lambda>r. case f of Inl e \<Rightarrow> Inl e | Inr v \<Rightarrow> Inr (v, r))"
  using assms by (cases f) (auto simp: local_read_def split: codec_error.split)

lemma local_read_str [simp, intro]: "local_read read_str"
  unfolding read_str_def by (intro local_read_bind local_read_varint local_read_bytes local_read_lift utf8Decode_range)

lemma local_read_svarint [simp, intro]: "local_read read_svarint"
  unfolding read_svarint_def by (intro local_read_bind local_read_varint local_read_return)

lemma local_read_f64 [simp, intro]: "local_read read_f64"
  unfolding read_f64_def by (intro local_read_bind local_read_bytes local_read_return)

section \<open>Round trips\<close>

text \<open>\<open>reads f bs v\<close>: wherever \<open>bs\<close> stands before the cursor, \<open>f\<close> reads it and gives \<open>v\<close>.\<close>

definition reads :: "'a read \<Rightarrow> byte list \<Rightarrow> 'a \<Rightarrow> bool" where
  "reads f bs v \<longleftrightarrow> (\<forall>pos rest. f (pos, bs @ rest) = Inr (v, pos + length bs, rest))"

lemma reads_bind: "reads f bs v \<Longrightarrow> reads (g v) cs w \<Longrightarrow> reads (read_bind f g) (bs @ cs) w"
  by (simp add: reads_def read_bind_def add.assoc)

lemma reads_return: "reads (read_return v) [] v"
  by (simp add: reads_def read_return_def)

lemma reads_bind_return: "reads f bs v \<Longrightarrow> reads (read_bind f (\<lambda>x. read_return (g x))) bs (g v)"
  by (simp add: reads_def read_bind_def read_return_def)

lemma reads_u8: "reads read_u8 [b] b"
  by (simp add: reads_def read_u8_def)

lemma reads_bytes: "reads (read_bytes (length bs)) bs bs"
  by (simp add: reads_def read_bytes_def)

text \<open>Variable-length integers below \<open>2 ^ 53\<close>.\<close>

lemma varint_byte:
  fixes n :: nat
  shows "unat (word_of_nat n AND 0x7f :: byte) = n mod 128"
    and "unat (((word_of_nat n AND 0x7f :: byte) OR 0x80) AND 0x7f) = n mod 128"
    and "(word_of_nat n AND 0x7f :: byte) AND 0x80 = 0"
    and "((word_of_nat n AND 0x7f :: byte) OR 0x80) AND 0x80 \<noteq> 0"
proof -
  have "unat (word_of_nat n AND 0x7f :: byte) = n mod 256 AND 127"
    by (simp add: unsigned_and_eq unat_of_nat take_bit_eq_mod)
  also have "\<dots> = take_bit 7 (n mod 256)"
    by (simp add: take_bit_eq_mask mask_eq_exp_minus_1)
  finally show n: "unat (word_of_nat n AND 0x7f :: byte) = n mod 128"
    by (simp add: take_bit_eq_mod mod_mod_cancel)
  have "((word_of_nat n AND 0x7f :: byte) OR 0x80) AND 0x7f = word_of_nat n AND 0x7f"
    by (simp add: bit.conj_disj_distrib2 and.assoc)
  then show "unat (((word_of_nat n AND 0x7f :: byte) OR 0x80) AND 0x7f) = n mod 128"
    using n by simp
  show "(word_of_nat n AND 0x7f :: byte) AND 0x80 = 0"
    by (simp only: and.assoc) simp
  have "((word_of_nat n AND 0x7f :: byte) OR 0x80) AND 0x80 = 0x80"
    by (simp add: bit.conj_disj_distrib2 and.assoc)
  then show "((word_of_nat n AND 0x7f :: byte) OR 0x80) AND 0x80 \<noteq> 0"
    by simp
qed

lemma varint_loop_reads:
  assumes "result + x * 2 ^ shift < 2 ^ 53"
  shows "varint_loop result shift pos (varint x @ rest) = Inr (result + x * 2 ^ shift, pos + length (varint x), rest)"
  using assms
proof (induction x arbitrary: result shift pos rule: varint.induct)
  case (1 x)
  have part: "result + x mod 128 * 2 ^ shift < 2 ^ 53"
    using "1.prems" mod_less_eq_dividend [of x 128] by (meson add_left_mono mult_le_mono1 order_le_less_trans)
  show ?case
  proof (cases "x div 128 = 0")
    case True
    then have "x mod 128 = x"
      by (simp add: div_eq_0_iff)
    with True part show ?thesis
      by (simp add: varint.simps [of x] varint_byte Let_def)
  next
    case False
    have split: "x * 2 ^ shift = x mod 128 * 2 ^ shift + x div 128 * 2 ^ (shift + 7)"
      by (subst mod_mult_div_eq [of x 128, symmetric]) (simp only: power_add distrib_right mult.assoc, simp)
    have "1 * 2 ^ (shift + 7) \<le> x div 128 * (2 :: nat) ^ (shift + 7)"
      using False by (intro mult_le_mono1) simp
    also have "\<dots> < 2 ^ 53"
      using "1.prems" split by linarith
    finally have "(2 :: nat) ^ (shift + 7) < 2 ^ 53"
      by (simp only: mult_1)
    then have shift: "shift + 7 < 53"
      by (rule power_less_imp_less_exp [rotated]) simp
    have rest: "result + x mod 128 * 2 ^ shift + x div 128 * 2 ^ (shift + 7) < 2 ^ 53"
      using "1.prems" split by linarith
    have "varint_loop (result + x mod 128 * 2 ^ shift) (shift + 7) (pos + 1) (varint (x div 128) @ rest) =
        Inr (result + x mod 128 * 2 ^ shift + x div 128 * 2 ^ (shift + 7), pos + 1 + length (varint (x div 128)), rest)"
      by (rule "1.IH" [OF refl refl False rest])
    with False part shift show ?thesis
      by (simp add: varint.simps [of x] varint_byte Let_def split add.assoc)
  qed
qed

lemma reads_varint: "x < 2 ^ 53 \<Longrightarrow> reads read_varint (varint x) x"
  using varint_loop_reads [of 0 x 0] by (simp add: reads_def read_varint_def)

lemma unzigzag_zigzag: "- (2 ^ 52) \<le> v \<Longrightarrow> v < 2 ^ 52 \<Longrightarrow> unzigzag (zigzag v) = v \<and> zigzag v < 2 ^ 53"
proof (cases "0 \<le> v")
  case False
  assume "- (2 ^ 52) \<le> v"
  define n where "n = nat (- v) - 1"
  have v: "v = - int n - 1" and "n < 2 ^ 52"
    using False \<open>- (2 ^ 52) \<le> v\<close> by (auto simp: n_def nat_less_iff)
  then have "nat (- v * 2 - 1) = 2 * n + 1" "2 * n + 1 < 2 ^ 53"
    by auto
  then have "zigzag v = 2 * n + 1"
    using False by (simp add: zigzag_def)
  then show ?thesis
    using \<open>2 * n + 1 < 2 ^ 53\<close> v by (simp add: unzigzag_def)
qed (auto simp: zigzag_def unzigzag_def nat_less_iff even_nat_iff)

lemma reads_svarint: "- (2 ^ 52) \<le> v \<Longrightarrow> v < 2 ^ 52 \<Longrightarrow> reads read_svarint (svarint v) v"
  using reads_bind_return [OF reads_varint [of "zigzag v"], of unzigzag] unzigzag_zigzag [of v]
  by (simp add: read_svarint_def svarint_def)

text \<open>Strings, of any code units.\<close>

lemma unit_bounds: "high_surrogate c \<Longrightarrow> 0xd800 \<le> unat c \<and> unat c < 0xdc00" "low_surrogate d \<Longrightarrow> 0xdc00 \<le> unat d \<and> unat d < 0xe000"
  by (auto simp: high_surrogate_def low_surrogate_def word_le_nat_alt)

lemma units1_unit: "units1 (unat c) = [c]"
  using unsigned_less [of c, where 'a = nat] by (simp add: units1_def)

lemma code_points_units: "concat (map units1 (code_points s)) = s \<and> (\<forall>c \<in> set (code_points s). c \<le> 0x10ffff)"
proof (induction s rule: code_points.induct)
  case (2 c rest)
  have bmp: "unat u \<le> 0x10ffff" for u :: "16 word"
    using unsigned_less [of u, where 'a = nat] by simp
  show ?case
  proof (cases rest)
    case Nil
    then show ?thesis
      using bmp by (simp add: units1_unit)
  next
    case (Cons d rest')
    show ?thesis
    proof (cases "high_surrogate c \<and> low_surrogate d")
      case True
      define p where "p = 0x10000 + (unat c - 0xd800) * 1024 + (unat d - 0xdc00)"
      have "units1 p = [c, d]"
        unfolding p_def using True by (intro units1_pair) simp_all
      moreover have "p \<le> 0x10ffff"
      proof -
        have "unat c - 0xd800 \<le> 0x3ff" "unat d - 0xdc00 \<le> 0x3ff"
          using True unit_bounds(1) [of c] unit_bounds(2) [of d] by linarith+
        then show ?thesis
          unfolding p_def by linarith
      qed
      moreover have "code_points (c # rest) = p # code_points rest'"
        using Cons True by (simp add: p_def)
      ultimately show ?thesis
        using "2.IH"(1) [OF Cons True] Cons by simp
    next
      case False
      then show ?thesis
        using "2.IH"(2) [OF Cons False] Cons bmp by (auto simp: units1_unit)
    qed
  qed
qed simp

lemma utf8Decode_bytes:
  "p < 0x80 \<Longrightarrow> utf8Decode (word_of_nat p # bs) = add_code_point p (utf8Decode bs)"
  "p < 32 \<Longrightarrow> q < 64 \<Longrightarrow> utf8Decode (word_of_nat (0xC0 + p) # word_of_nat (0x80 + q) # bs) = add_code_point (p * 64 + q) (utf8Decode bs)"
  "p < 16 \<Longrightarrow> q < 64 \<Longrightarrow> r < 64 \<Longrightarrow> utf8Decode (word_of_nat (0xE0 + p) # word_of_nat (0x80 + q) # word_of_nat (0x80 + r) # bs) =
     add_code_point (p * 4096 + q * 64 + r) (utf8Decode bs)"
  "p < 8 \<Longrightarrow> q < 64 \<Longrightarrow> r < 64 \<Longrightarrow> t < 64 \<Longrightarrow>
     utf8Decode (word_of_nat (0xF0 + p) # word_of_nat (0x80 + q) # word_of_nat (0x80 + r) # word_of_nat (0x80 + t) # bs) =
     add_code_point (p * 262144 + q * 4096 + r * 64 + t) (utf8Decode bs)"
proof -
  have u: "unat (word_of_nat n :: byte) = n" if "n < 256" for n
    using that by (simp add: unat_of_nat take_bit_nat_eq_self)
  have at: "low6 (b # bs) 0 = unat b mod 64" "low6 (a # b # bs) (Suc 0) = unat b mod 64" "low6 (a # c # b # bs) (Suc (Suc 0)) = unat b mod 64"
    for a b c bs
    by (simp_all add: low6_def)
  have lead: "(0xC0 + p) mod 32 = p mod 32" "(0xE0 + p) mod 16 = p mod 16" "(0xF0 + p) mod 8 = p mod 8"
      "(0x80 + p) mod 64 = p mod 64" for p :: nat
    by (simp_all add: mod_add_left_eq [symmetric])
  show "p < 0x80 \<Longrightarrow> utf8Decode (word_of_nat p # bs) = add_code_point p (utf8Decode bs)"
    by (simp add: utf8Decode.simps(2) u)
  show "p < 32 \<Longrightarrow> q < 64 \<Longrightarrow> utf8Decode (word_of_nat (0xC0 + p) # word_of_nat (0x80 + q) # bs) = add_code_point (p * 64 + q) (utf8Decode bs)"
    by (simp add: utf8Decode.simps(2) u at lead del: of_nat_add)
  show "p < 16 \<Longrightarrow> q < 64 \<Longrightarrow> r < 64 \<Longrightarrow> utf8Decode (word_of_nat (0xE0 + p) # word_of_nat (0x80 + q) # word_of_nat (0x80 + r) # bs) =
     add_code_point (p * 4096 + q * 64 + r) (utf8Decode bs)"
    by (simp add: utf8Decode.simps(2) u at lead numeral_2_eq_2 del: of_nat_add)
  show "p < 8 \<Longrightarrow> q < 64 \<Longrightarrow> r < 64 \<Longrightarrow> t < 64 \<Longrightarrow>
     utf8Decode (word_of_nat (0xF0 + p) # word_of_nat (0x80 + q) # word_of_nat (0x80 + r) # word_of_nat (0x80 + t) # bs) =
     add_code_point (p * 262144 + q * 4096 + r * 64 + t) (utf8Decode bs)"
    by (simp add: utf8Decode.simps(2) u at lead numeral_2_eq_2 numeral_3_eq_3 del: of_nat_add)
qed

lemma utf8Decode_encode1:
  assumes "c \<le> 0x10ffff"
  shows "utf8Decode (map word_of_nat (utf8_encode1 c) @ bs) = add_code_point c (utf8Decode bs)"
proof -
  consider "c < 0x80" | "0x80 \<le> c" "c < 0x800" | "0x800 \<le> c" "c < 0x10000" | "0x10000 \<le> c"
    by linarith
  then show ?thesis
  proof cases
    case 1
    then show ?thesis
      by (simp add: utf8_encode1_def utf8Decode_bytes)
  next
    case 2
    then have "c div 64 < 32"
      by auto
    with 2 show ?thesis
      using utf8Decode_bytes(2) [of "c div 64" "c mod 64" bs] by (simp add: utf8_encode1_def del: of_nat_add)
  next
    case 3
    then have "c div 4096 < 16"
      by auto
    with 3 show ?thesis
      using utf8Decode_bytes(3) [of "c div 4096" "c div 64 mod 64" "c mod 64" bs] base64_digits2 [of c]
      by (simp add: utf8_encode1_def del: of_nat_add)
  next
    case 4
    then have "c div 262144 < 8"
      using assms by auto
    with 4 show ?thesis
      using utf8Decode_bytes(4) [of "c div 262144" "c div 4096 mod 64" "c div 64 mod 64" "c mod 64" bs] base64_digits3 [of c]
      by (simp add: utf8_encode1_def del: of_nat_add)
  qed
qed

lemma utf8_roundtrip: "utf8Decode (utf8Encode s) = Inr s"
proof -
  have "utf8Decode (map word_of_nat (concat (map utf8_encode1 cs))) = Inr (concat (map units1 cs))"
    if "\<forall>c \<in> set cs. c \<le> 0x10ffff" for cs
    using that by (induction cs) (simp_all add: utf8Decode_encode1 add_code_point_def)
  then show ?thesis
    using code_points_units [of s] by (simp add: utf8Encode_def)
qed

lemma reads_str:
  assumes "length (utf8Encode s) < 2 ^ 53"
  shows "reads read_str (write_str s) s"
proof -
  have "reads (read_bind (read_bytes (length (utf8Encode s))) (\<lambda>bytes r. case utf8Decode bytes of Inl e \<Rightarrow> Inl e | Inr s \<Rightarrow> Inr (s, r)))
      (utf8Encode s) s"
    using reads_bytes [of "utf8Encode s"] by (simp add: reads_def read_bind_def utf8_roundtrip)
  with reads_varint [OF assms] show ?thesis
    unfolding read_str_def write_str_def Let_def by (rule reads_bind)
qed

text \<open>Doubles.\<close>

definition double_ok :: "number \<Rightarrow> bool" where
  "double_ok x \<longleftrightarrow> (case x of
     Integral v \<Rightarrow> number_of_bigint (nat \<bar>v\<bar>) = nat \<bar>v\<bar> \<and> nat \<bar>v\<bar> < 2 ^ 1024
   | Fraction w \<Rightarrow> number_of_bits w = Fraction w
   | _ \<Rightarrow> True)"

lemma unpack_double:
  assumes "e < 2048" "m < 2 ^ 52"
  shows "double_sign (unat (pack_double s e m)) = s" "double_exponent (unat (pack_double s e m)) = e"
    "double_fraction (unat (pack_double s e m)) = m"
proof -
  define b where "b = (if s then 2 ^ 63 else 0) + e * 2 ^ 52 + m"
  have low: "e * 2 ^ 52 + m < 2 ^ 63"
  proof -
    have "e * 2 ^ 52 + m < (e + 1) * 2 ^ 52"
      using assms by simp
    also have "\<dots> \<le> 2048 * 2 ^ 52"
      using assms by (intro mult_le_mono1) simp
    finally show ?thesis by simp
  qed
  then have "b < 2 ^ 64"
    by (simp add: b_def)
  then have "unat (word_of_nat b :: 64 word) = b"
    by (simp add: unat_of_nat take_bit_nat_eq_self)
  then have b: "unat (pack_double s e m) = b"
    unfolding pack_double_def b_def .
  show "double_sign (unat (pack_double s e m)) = s"
    using low unfolding b by (auto simp: double_sign_def b_def)
  have b_split: "b = m + 2 ^ 52 * (e + (if s then 2048 else 0))"
    by (simp add: b_def)
  have "(m + 2 ^ 52 * q) div 2 ^ 52 = q" "(m + 2 ^ 52 * q) mod 2 ^ 52 = m" for q
    using assms(2) by (simp_all add: div_mult_self2)
  then have "b div 2 ^ 52 = e + (if s then 2048 else 0)" "b mod 2 ^ 52 = m"
    unfolding b_split by blast+
  then show "double_exponent (unat (pack_double s e m)) = e" "double_fraction (unat (pack_double s e m)) = m"
    unfolding b double_exponent_def double_fraction_def using assms(1) by auto
qed

lemma bit_len_bounds: "0 < n \<Longrightarrow> 0 < bit_len n \<and> 2 ^ (bit_len n - 1) \<le> n \<and> n < 2 ^ bit_len n"
proof (induction n rule: bit_len.induct)
  case (1 n)
  show ?case
  proof (cases "n div 2 = 0")
    case True
    with "1.prems" have "n = 1" by auto
    then show ?thesis
      by (simp add: bit_len.simps)
  next
    case False
    with 1 have IH: "0 < bit_len (n div 2)" "2 ^ (bit_len (n div 2) - 1) \<le> n div 2" "n div 2 < 2 ^ bit_len (n div 2)"
      by auto
    have len: "bit_len n = Suc (bit_len (n div 2))"
      using "1.prems" by (simp add: bit_len.simps [of n])
    define p where "p = (2 :: nat) ^ (bit_len (n div 2) - Suc 0)"
    have "2 ^ bit_len (n div 2) = 2 * p"
      using IH(1) unfolding p_def by (cases "bit_len (n div 2)") simp_all
    moreover have "2 * p \<le> n \<and> n < 2 * (2 * p)"
      using IH(2,3) \<open>2 ^ bit_len (n div 2) = 2 * p\<close> by (simp add: p_def [symmetric]) linarith
    ultimately show ?thesis
      by (simp add: len)
  qed
qed

lemma rounded_multiple: "number_of_bigint n = n \<Longrightarrow> 53 < bit_len n \<Longrightarrow> n div 2 ^ (bit_len n - 53) * 2 ^ (bit_len n - 53) = n"
proof -
  assume "number_of_bigint n = n" "53 < bit_len n"
  then obtain q where "n = q * 2 ^ (bit_len n - 53)"
    unfolding number_of_bigint_def Let_def by (metis zero_less_diff less_numeral_extra(3))
  then show ?thesis
    by (metis dvd_div_mult_self dvd_triv_right)
qed

lemma mantissa_bounds:
  assumes "0 < n" and "number_of_bigint n = n" and "l = bit_len n"
    and "mant = (if l \<le> 53 then n * 2 ^ (53 - l) else n div 2 ^ (l - 53))"
  shows "2 ^ 52 \<le> mant" "mant < 2 ^ 53"
proof -
  note b = bit_len_bounds [OF assms(1), folded assms(3)]
  have "2 ^ 52 \<le> mant \<and> mant < 2 ^ 53"
  proof (cases "l \<le> 53")
    case True
    have "(2 :: nat) ^ 52 = 2 ^ (l - 1) * 2 ^ (53 - l)" "(2 :: nat) ^ 53 = 2 ^ l * 2 ^ (53 - l)"
      using True b by (simp_all add: power_add [symmetric])
    moreover have "2 ^ (l - 1) * 2 ^ (53 - l) \<le> n * 2 ^ (53 - l)" "n * 2 ^ (53 - l) < 2 ^ l * 2 ^ (53 - l)"
      using b by (simp_all add: mult_le_mono1)
    ultimately show ?thesis
      using True unfolding assms(4) by (simp only: if_True)
  next
    case False
    have n: "n = mant * 2 ^ (l - 53)"
      using rounded_multiple [OF assms(2)] False assms(3,4) by simp
    have "l - 1 = 52 + (l - 53)" "l = 53 + (l - 53)"
      using False by simp_all
    then have "(2 :: nat) ^ (l - 1) = 2 ^ 52 * 2 ^ (l - 53)" "(2 :: nat) ^ l = 2 ^ 53 * 2 ^ (l - 53)"
      by (metis power_add)+
    then have "2 ^ 52 * 2 ^ (l - 53) \<le> mant * 2 ^ (l - 53)" "mant * 2 ^ (l - 53) < 2 ^ 53 * 2 ^ (l - 53)"
      using b n by simp_all
    then show ?thesis
      by simp
  qed
  then show "2 ^ 52 \<le> mant" "mant < 2 ^ 53" by simp_all
qed

lemma integral_roundtrip:
  assumes "number_of_bigint (nat \<bar>v\<bar>) = nat \<bar>v\<bar>" and "nat \<bar>v\<bar> < 2 ^ 1024"
  shows "number_of_bits (bits_of_number (Integral v)) = Integral v"
proof (cases "v = 0")
  case True
  then show ?thesis
    by (simp add: bits_of_number_def number_of_bits_def double_sign_def double_exponent_def double_fraction_def)
next
  case False
  define n where "n = nat \<bar>v\<bar>"
  define l where "l = bit_len n"
  define mant where "mant = (if l \<le> 53 then n * 2 ^ (53 - l) else n div 2 ^ (l - 53))"
  have "0 < n"
    using False by (simp add: n_def)
  note m = mantissa_bounds [OF this assms(1) [folded n_def] l_def mant_def]
  have l: "0 < l" "l \<le> 1024"
    using bit_len_bounds [OF \<open>0 < n\<close>] bit_len_le [of n 1024] assms(2) by (simp_all add: l_def n_def)
  have bits: "bits_of_number (Integral v) = pack_double (v < 0) (l + 1022) (mant - 2 ^ 52)"
    using \<open>0 < n\<close> by (simp add: bits_of_number_def Let_def n_def [symmetric] l_def [symmetric] mant_def)
  have fit: "l + 1022 < 2048" "mant - 2 ^ 52 < 2 ^ 52"
    using l m by auto
  have sign: "with_sign (v < 0) n = v"
    by (simp add: with_sign_def n_def)
  have whole: "2 ^ 52 + (mant - 2 ^ 52) = mant" "mant \<noteq> 0"
    using m by simp_all
  have number: "number_of_bits (pack_double (v < 0) (l + 1022) (mant - 2 ^ 52)) =
      (if 1075 \<le> l + 1022 then Integral (with_sign (v < 0) (mant * 2 ^ (l + 1022 - 1075)))
       else if mant mod 2 ^ (1075 - max 1 (l + 1022)) = 0 then Integral (with_sign (v < 0) (mant div 2 ^ (1075 - max 1 (l + 1022))))
       else Fraction (pack_double (v < 0) (l + 1022) (mant - 2 ^ 52)))"
    unfolding number_of_bits_def unpack_double [OF fit] Let_def using l whole by (simp del: One_nat_def)
  show ?thesis
  proof (cases "l \<le> 53")
    case True
    then have "mant = n * 2 ^ (53 - l)" "1075 - max 1 (l + 1022) = 53 - l"
      by (auto simp: mant_def)
    then show ?thesis
      using True sign unfolding bits number by (cases "l = 53") simp_all
  next
    case False
    then have "mant * 2 ^ (l + 1022 - 1075) = n"
      using rounded_multiple [of n] assms(1) by (simp add: mant_def l_def n_def)
    then show ?thesis
      using False sign unfolding bits number by simp
  qed
qed

lemma double_roundtrip: "double_ok x \<Longrightarrow> number_of_bits (bits_of_number x) = x"
proof (cases x)
  case (Integral v)
  assume "double_ok x"
  then show ?thesis
    using integral_roundtrip [of v] by (simp add: Integral double_ok_def)
next
  case NegativeZero
  then show ?thesis
    by (simp add: bits_of_number_def number_of_bits_def unpack_double)
next
  case (Infinite s)
  then show ?thesis
    by (simp add: bits_of_number_def number_of_bits_def unpack_double)
next
  case NotANumber
  then show ?thesis
    by (simp add: bits_of_number_def number_of_bits_def unpack_double)
qed (simp add: double_ok_def bits_of_number_def)

lemma reads_f64: "double_ok x \<Longrightarrow> reads read_f64 (write_f64 x) x"
proof -
  assume ok: "double_ok x"
  have "be_val (be_bytes 8 (unat w)) = unat w" for w :: "64 word"
    using unsigned_less [of w, where 'a = nat] by (intro be_val_be_bytes_small) simp
  then show ?thesis
    using reads_bytes [of "write_f64 x"] double_roundtrip [OF ok]
    by (simp add: read_f64_def write_f64_def reads_def read_bind_def read_return_def del: be_bytes.simps)
qed

text \<open>The other widths.\<close>

lemma reads_u16: "v < 2 ^ 16 \<Longrightarrow> reads read_u16 (write_u16 v) v"
proof -
  assume v: "v < 2 ^ 16"
  have "unat (word_of_nat n AND 0xff :: byte) = n mod 256" for n
  proof -
    have "(0xff :: byte) = - 1"
      by simp
    then show ?thesis
      by (simp only: and.right_neutral) (simp add: unat_of_nat take_bit_eq_mod)
  qed
  then show ?thesis
    using v by (simp add: reads_def read_u16_def write_u16_def write_u8_def read_bind_def read_return_def read_u8_def)
qed

lemma reads_u32: "reads read_u32 (write_u32 v) v"
proof -
  have "push_bit 24 (ucast (ucast (drop_bit 24 v) :: byte)) OR push_bit 16 (ucast (ucast (drop_bit 16 v) :: byte))
      OR push_bit 8 (ucast (ucast (drop_bit 8 v) :: byte)) OR ucast (ucast v :: byte) = v"
  proof (rule bit_word_eqI)
    fix n
    assume "n < LENGTH(32)"
    consider "n < 8" | "8 \<le> n" "n < 16" | "16 \<le> n" "n < 24" | "24 \<le> n"
      by linarith
    then show "bit (push_bit 24 (ucast (ucast (drop_bit 24 v) :: byte)) OR push_bit 16 (ucast (ucast (drop_bit 16 v) :: byte))
        OR push_bit 8 (ucast (ucast (drop_bit 8 v) :: byte)) OR ucast (ucast v :: byte) :: 32 word) n = bit v n"
      using \<open>n < LENGTH(32)\<close> by cases (auto simp: bit_simps)
  qed
  then show ?thesis
    by (simp add: reads_def read_u32_def write_u32_def read_bind_def read_return_def read_u8_def)
qed

end
