(* ===== verification/BinaryCodec.thy ===== *)
theory BinaryCodec
  imports ByteCodec UrlParser
begin

text \<open>
  The self-describing binary format, \<open>serialization/engine/BinaryCodec.ts\<close>: values with their tags, written
  and read back. A value is what the encoder tells apart of JavaScript's values; an object is the list of its
  own enumerable entries in the order of \<open>Object.entries\<close>. Its promise: what can be encoded is read back,
  with the conversions the format makes.
\<close>

section \<open>Values\<close>

datatype jvalue =
    Null
  | Undefined
  | Boolean bool
  | Num number
  | BigInt int
  | Text jstring
  | Blob "byte list"
  | DateOf "int option"
  | ArrayOf "jvalue list"
  | ObjectOf "(jstring \<times> jvalue) list"
  | OtherType jstring

abbreviation TAG_NULL :: byte where "TAG_NULL \<equiv> 0x00"
abbreviation TAG_UNDEF :: byte where "TAG_UNDEF \<equiv> 0x01"
abbreviation TAG_FALSE :: byte where "TAG_FALSE \<equiv> 0x02"
abbreviation TAG_TRUE :: byte where "TAG_TRUE \<equiv> 0x03"
abbreviation TAG_UINT :: byte where "TAG_UINT \<equiv> 0x10"
abbreviation TAG_SINT :: byte where "TAG_SINT \<equiv> 0x20"
abbreviation TAG_F64 :: byte where "TAG_F64 \<equiv> 0x30"
abbreviation TAG_STR :: byte where "TAG_STR \<equiv> 0x40"
abbreviation TAG_BIN :: byte where "TAG_BIN \<equiv> 0x50"
abbreviation TAG_ARR :: byte where "TAG_ARR \<equiv> 0x60"
abbreviation TAG_MAP :: byte where "TAG_MAP \<equiv> 0x70"

definition known_tags :: "byte list" where
  "known_tags = [TAG_NULL, TAG_UNDEF, TAG_FALSE, TAG_TRUE, TAG_UINT, TAG_SINT, TAG_F64, TAG_STR, TAG_BIN, TAG_ARR, TAG_MAP]"

text \<open>
  Assigning a property: array indices come first, in ascending order, then the other keys in the order of
  their first assignment; assigning \<open>__proto__\<close> makes no property.
\<close>

definition is_index :: "jstring \<Rightarrow> bool" where
  "is_index k \<longleftrightarrow> k \<noteq> [] \<and> list_all (\<lambda>c. 0x30 \<le> c \<and> c \<le> 0x39) k \<and> (hd k \<noteq> 0x30 \<or> length k = 1) \<and> decimal k < 2 ^ 32 - 1"

definition comes_before :: "jstring \<Rightarrow> jstring \<Rightarrow> bool" where
  "comes_before k k' \<longleftrightarrow> (is_index k' \<longrightarrow> is_index k \<and> decimal k < decimal k')"

definition obj_set :: "jstring \<Rightarrow> jvalue \<Rightarrow> (jstring \<times> jvalue) list \<Rightarrow> (jstring \<times> jvalue) list" where
  "obj_set k v obj =
     (if k = js ''__proto__'' then obj
      else if k \<in> set (map fst obj) then map (\<lambda>(k', v'). if k' = k then (k', v) else (k', v')) obj
      else takeWhile (\<lambda>(k', _). comes_before k' k) obj @ (k, v) # dropWhile (\<lambda>(k', _). comes_before k' k) obj)"

definition build_object :: "(jstring \<times> jvalue) list \<Rightarrow> (jstring \<times> jvalue) list" where
  "build_object kvs = foldl (\<lambda>obj (k, v). obj_set k v obj) [] kvs"

section \<open>Encoding\<close>

fun sequence_sum :: "('e + 'a) list \<Rightarrow> 'e + 'a list" where
  "sequence_sum [] = Inr []"
| "sequence_sum (x # xs) = (case x of Inl e \<Rightarrow> Inl e | Inr v \<Rightarrow> map_sum id ((#) v) (sequence_sum xs))"

definition write_number :: "number \<Rightarrow> byte list" where
  "write_number x =
     (case x of
        Integral v \<Rightarrow>
          if 0 \<le> v \<and> v \<le> 2 ^ 53 - 1 then TAG_UINT # varint (nat v)
          else if v < 0 \<and> - (2 ^ 53 - 1) \<le> v then TAG_SINT # svarint v
          else TAG_F64 # write_f64 x
      | NegativeZero \<Rightarrow> TAG_UINT # varint 0
      | _ \<Rightarrow> TAG_F64 # write_f64 x)"

text \<open>
  \<open>Number\<close> of a big integer may be infinite, and an invalid date's time is NaN: then the loop of the
  variable-length integer appends bytes until the buffer cannot grow.
\<close>

definition write_bigint :: "int \<Rightarrow> codec_error + byte list" where
  "write_bigint n =
     (let m = number_of_bigint (nat \<bar>n\<bar>) in
      if 2 ^ 1023 \<le> m then Inl (RangeError BufferAllocation) else Inr (TAG_SINT # svarint (with_sign (n < 0) m)))"

fun write_value :: "jvalue \<Rightarrow> codec_error + byte list" where
  "write_value Null = Inr [TAG_NULL]"
| "write_value Undefined = Inr [TAG_UNDEF]"
| "write_value (Boolean b) = Inr [if b then TAG_TRUE else TAG_FALSE]"
| "write_value (Num x) = Inr (write_number x)"
| "write_value (BigInt n) = write_bigint n"
| "write_value (Text s) = Inr (TAG_STR # write_str s)"
| "write_value (Blob b) = Inr (TAG_BIN # varint (length b) @ b)"
| "write_value (DateOf t) = (case t of None \<Rightarrow> Inl (RangeError BufferAllocation) | Some t \<Rightarrow> Inr (TAG_SINT # svarint t))"
| "write_value (ArrayOf vs) =
     map_sum id (\<lambda>bss. TAG_ARR # varint (length vs) @ concat bss) (sequence_sum (map write_value vs))"
| "write_value (ObjectOf kvs) =
     map_sum id (\<lambda>bss. TAG_MAP # varint (length (filter (\<lambda>(k, v). v \<noteq> Undefined) kvs)) @ concat bss)
       (sequence_sum (map (\<lambda>(k, v). if v = Undefined then Inr [] else map_sum id ((@) (write_str k)) (write_value v)) kvs))"
| "write_value (OtherType t) = Inl (CodecError (CannotEncode t) 0)"

definition encode_value :: "jvalue \<Rightarrow> codec_error + byte list" where
  "encode_value v = write_value v"

section \<open>Decoding\<close>

definition read_tag :: "byte read" where
  "read_tag r =
     (case read_u8 r of
        Inl e \<Rightarrow> Inl e
      | Inr (tag, r) \<Rightarrow> if tag \<in> set known_tags then Inr (tag, r) else Inl (CodecError (UnknownTag tag) (fst r - 1)))"

primrec read_many :: "nat \<Rightarrow> 'a read \<Rightarrow> 'a list read" where
  "read_many 0 f = read_return []"
| "read_many (Suc n) f = read_bind f (\<lambda>v. read_bind (read_many n f) (\<lambda>vs. read_return (v # vs)))"

definition read_array :: "jvalue read \<Rightarrow> jvalue read" where
  "read_array self =
     read_bind read_varint (\<lambda>n.
       if 2 ^ 32 \<le> n then (\<lambda>r. Inl (RangeError (BadArrayLength n)))
       else read_bind (read_many n self) (\<lambda>vs. read_return (ArrayOf vs)))"

definition read_entry :: "jvalue read \<Rightarrow> (jstring \<times> jvalue) read" where
  "read_entry self = read_bind read_str (\<lambda>k. read_bind self (\<lambda>v. read_return (k, v)))"

definition read_object :: "jvalue read \<Rightarrow> jvalue read" where
  "read_object self =
     read_bind read_varint (\<lambda>n. read_bind (read_many n (read_entry self)) (\<lambda>kvs. read_return (ObjectOf (build_object kvs))))"

definition read_tagged :: "jvalue read \<Rightarrow> byte \<Rightarrow> jvalue read" where
  "read_tagged self tag =
     (if tag = TAG_NULL then read_return Null
      else if tag = TAG_UNDEF then read_return Undefined
      else if tag = TAG_FALSE then read_return (Boolean False)
      else if tag = TAG_TRUE then read_return (Boolean True)
      else if tag = TAG_UINT then read_bind read_varint (\<lambda>n. read_return (Num (Integral (int n))))
      else if tag = TAG_SINT then read_bind read_svarint (\<lambda>v. read_return (Num (Integral v)))
      else if tag = TAG_F64 then read_bind read_f64 (\<lambda>x. read_return (Num x))
      else if tag = TAG_STR then read_bind read_str (\<lambda>s. read_return (Text s))
      else if tag = TAG_BIN then read_bind (read_bind read_varint read_bytes) (\<lambda>b. read_return (Blob b))
      else if tag = TAG_ARR then read_array self
      else read_object self)"

text \<open>
  Values nest at most as deep as there are bytes: the first argument bounds the depth, and \<open>readValue\<close> gives
  it one more than the bytes left.
\<close>

primrec read_value :: "nat \<Rightarrow> jvalue read" where
  "read_value 0 = (\<lambda>r. Inl (RangeError PastEnd))"
| "read_value (Suc depth) = read_bind read_tag (read_tagged (read_value depth))"

definition readValue :: "jvalue read" where
  "readValue r = read_value (remaining r + 1) r"

definition decode_value :: "byte list \<Rightarrow> codec_error + jvalue" where
  "decode_value buf = map_sum id fst (readValue (new_reader buf))"

text \<open>A value, or nothing and the reader where it was when the bytes ran out.\<close>

definition tryRead :: "reader \<Rightarrow> codec_error + jvalue option \<times> reader" where
  "tryRead r =
     (case readValue r of
        Inr (v, r') \<Rightarrow> Inr (Some v, r')
      | Inl (RangeError m) \<Rightarrow> Inr (None, r)
      | Inl (CodecError m off) \<Rightarrow> Inl (CodecError m off))"

section \<open>Reading is local, and the depth is enough\<close>

lemma local_read_tag [simp, intro]: "local_read read_tag"
proof (rule local_readI)
  show "read_tag (0, xs) = Inr (v, n, rest) \<Longrightarrow> n \<le> length xs \<and> rest = drop n xs \<and> read_tag (pos, xs @ ys) = Inr (v, pos + n, drop n xs @ ys)"
    for pos xs ys v n rest
    by (cases xs) (auto simp: read_tag_def read_u8_def split: if_splits)
  show "read_tag (0, xs) = Inl (CodecError m off) \<Longrightarrow> read_tag (pos, xs @ ys) = Inl (CodecError m (pos + off))" for pos xs ys m off
    by (cases xs) (auto simp: read_tag_def read_u8_def split: if_splits)
  show "read_tag (0, xs) = Inl (RangeError m) \<Longrightarrow> read_tag (pos, xs) = Inl (RangeError m)" for pos xs m
    by (cases xs) (auto simp: read_tag_def read_u8_def split: if_splits)
qed

lemma local_read_many: "local_read f \<Longrightarrow> local_read (read_many n f)"
  by (induction n) (simp_all add: local_read_bind)

lemma local_read_if: "(c \<Longrightarrow> local_read f) \<Longrightarrow> (\<not> c \<Longrightarrow> local_read g) \<Longrightarrow> local_read (if c then f else g)"
  by simp

lemma local_read_entry: "local_read self \<Longrightarrow> local_read (read_entry self)"
  unfolding read_entry_def by (intro local_read_bind local_read_str local_read_return)

lemma local_read_tagged: "local_read self \<Longrightarrow> local_read (read_tagged self tag)"
  unfolding read_tagged_def read_array_def read_object_def
  by (intro local_read_if local_read_bind local_read_varint local_read_svarint local_read_f64 local_read_str local_read_bytes
      local_read_many local_read_entry local_read_fail local_read_return)

lemma local_read_value: "local_read (read_value depth)"
  by (induction depth) (simp_all add: local_read_bind local_read_tagged)

definition agree :: "nat \<Rightarrow> 'a read \<Rightarrow> 'a read \<Rightarrow> bool" where
  "agree n f g \<longleftrightarrow> (\<forall>pos xs. length xs \<le> n \<longrightarrow> f (pos, xs) = g (pos, xs))"

lemma agree_same [simp, intro]: "agree n f f"
  by (simp add: agree_def)

lemma agree_bind:
  assumes "agree n f f'" and "local_read f" and "\<And>v. agree n (k v) (k' v)"
  shows "agree n (read_bind f k) (read_bind f' k')"
  unfolding agree_def
proof (intro allI impI)
  fix pos and xs :: "byte list"
  assume xs: "length xs \<le> n"
  show "read_bind f k (pos, xs) = read_bind f' k' (pos, xs)"
  proof (cases "f (pos, xs)")
    case (Inl e)
    then show ?thesis
      using assms(1) xs by (simp add: read_bind_def agree_def)
  next
    case (Inr x)
    then obtain v p rest where x: "f (pos, xs) = Inr (v, p, rest)"
      by (cases x) auto
    then obtain m where "f (0, xs) = Inr (v, m, rest)"
      using local_read_back_Inr [OF assms(2)] by blast
    from local_read_Inr [OF assms(2) this] have "length rest \<le> n"
      using xs by auto
    then show ?thesis
      using assms(1,3) xs x by (simp add: read_bind_def agree_def)
  qed
qed

lemma agree_many: "agree n f g \<Longrightarrow> local_read f \<Longrightarrow> agree n (read_many k f) (read_many k g)"
  by (induction k) (simp_all add: agree_bind local_read_many)

lemma agree_if: "(c \<Longrightarrow> agree n f f') \<Longrightarrow> (\<not> c \<Longrightarrow> agree n g g') \<Longrightarrow> agree n (if c then f else g) (if c then f' else g')"
  by simp

lemma agree_entry: "agree n f g \<Longrightarrow> local_read f \<Longrightarrow> agree n (read_entry f) (read_entry g)"
  unfolding read_entry_def by (intro agree_bind agree_same local_read_str)

lemma agree_tagged: "agree n f g \<Longrightarrow> local_read f \<Longrightarrow> agree n (read_tagged f tag) (read_tagged g tag)"
  unfolding read_tagged_def read_array_def read_object_def
  by (intro agree_if agree_bind agree_same agree_many agree_entry local_read_entry local_read_varint local_read_many)

lemma read_tag_consumes: "read_tag (pos, xs) = Inr (v, p, rest) \<Longrightarrow> Suc (length rest) = length xs"
  by (cases xs) (auto simp: read_tag_def read_u8_def split: if_splits)

lemma depth_enough: "length xs < d \<Longrightarrow> length xs < d' \<Longrightarrow> read_value d (pos, xs) = read_value d' (pos, xs)"
proof (induction d arbitrary: d' pos xs)
  case (Suc d)
  obtain e where d': "d' = Suc e"
    using Suc.prems by (cases d') auto
  show ?case
  proof (cases "read_tag (pos, xs)")
    case (Inl err)
    then show ?thesis
      by (simp add: d' read_bind_def)
  next
    case (Inr x)
    then obtain tag p rest where x: "read_tag (pos, xs) = Inr (tag, p, rest)"
      by (cases x) auto
    from read_tag_consumes [OF this] have len: "length rest < d" "length rest < e"
      using Suc.prems d' by auto
    have "agree (length rest) (read_value d) (read_value e)"
      unfolding agree_def using Suc.IH len by (metis le_less_trans)
    from agree_tagged [OF this local_read_value, of tag] x show ?thesis
      by (simp add: d' read_bind_def agree_def)
  qed
qed simp

lemma local_readValue: "local_read readValue"
proof (rule local_readI)
  fix pos and xs ys :: "byte list" and v n rest m off
  have more: "readValue (p, zs) = read_value (length (xs @ ys) + 1) (p, zs)" if "length zs \<le> length (xs @ ys)" for p zs
    using depth_enough [of zs "length (xs @ ys) + 1" "length zs + 1" p] that by (simp add: readValue_def remaining_def)
  have here: "readValue (0, xs) = read_value (length (xs @ ys) + 1) (0, xs)"
      "readValue (pos, xs @ ys) = read_value (length (xs @ ys) + 1) (pos, xs @ ys)"
    by (rule more, simp)+
  show "readValue (0, xs) = Inr (v, n, rest) \<Longrightarrow> n \<le> length xs \<and> rest = drop n xs \<and> readValue (pos, xs @ ys) = Inr (v, pos + n, drop n xs @ ys)"
    unfolding here by (rule local_read_Inr [OF local_read_value])
  show "readValue (0, xs) = Inl (CodecError m off) \<Longrightarrow> readValue (pos, xs @ ys) = Inl (CodecError m (pos + off))"
    unfolding here by (rule local_read_error [OF local_read_value])
next
  fix pos xs m
  show "readValue (0, xs) = Inl (RangeError m) \<Longrightarrow> readValue (pos, xs) = Inl (RangeError m)"
    using local_read_range [OF local_read_value, of "length xs + 1" xs m pos] by (simp add: readValue_def remaining_def)
qed

lemma readValue_consumes: "readValue (0, xs) = Inr (v, n, rest) \<Longrightarrow> 0 < n"
proof -
  assume read: "readValue (0, xs) = Inr (v, n, rest)"
  then obtain tag p rest' where "read_tag (0, xs) = Inr (tag, p, rest')"
    and rest: "read_tagged (read_value (length xs)) tag (p, rest') = Inr (v, n, rest)"
    by (auto simp: readValue_def remaining_def read_bind_def split: sum.splits)
  then have "p = 1"
    by (cases xs) (auto simp: read_tag_def read_u8_def split: if_splits)
  with local_read_back_Inr [OF local_read_tagged [OF local_read_value] rest] show ?thesis by auto
qed

section \<open>Round trip\<close>

text \<open>What the decoder makes of a value: minus zero, dates and big integers become plain integers.\<close>

definition live :: "(jstring \<times> jvalue) list \<Rightarrow> (jstring \<times> jvalue) list" where
  "live kvs = filter (\<lambda>(k, v). v \<noteq> Undefined) kvs"

fun seen_as :: "jvalue \<Rightarrow> jvalue" where
  "seen_as (Num NegativeZero) = Num (Integral 0)"
| "seen_as (BigInt n) = Num (Integral n)"
| "seen_as (DateOf (Some t)) = Num (Integral t)"
| "seen_as (ArrayOf vs) = ArrayOf (map seen_as vs)"
| "seen_as (ObjectOf kvs) = ObjectOf (live (map (\<lambda>(k, v). (k, seen_as v)) kvs))"
| "seen_as v = v"

text \<open>
  What is encoded faithfully. Integers written with a sign have at most 52 bits; the keys of an object are
  distinct, in the order the language keeps, and none is \<open>__proto__\<close>.
\<close>

definition small_int :: "int \<Rightarrow> bool" where
  "small_int v \<longleftrightarrow> - (2 ^ 52) \<le> v \<and> v < 2 ^ 52"

definition number_encodable :: "number \<Rightarrow> bool" where
  "number_encodable x \<longleftrightarrow> double_ok x \<and>
     (case x of Integral v \<Rightarrow> v < 0 \<longrightarrow> - (2 ^ 53 - 1) \<le> v \<longrightarrow> - (2 ^ 52) \<le> v | _ \<Rightarrow> True)"

definition keys_ok :: "jstring list \<Rightarrow> bool" where
  "keys_ok ks \<longleftrightarrow> distinct ks \<and> js ''__proto__'' \<notin> set ks \<and> sorted_wrt comes_before ks"

definition text_ok :: "jstring \<Rightarrow> bool" where
  "text_ok s \<longleftrightarrow> length (utf8Encode s) < 2 ^ 53"

fun encodable :: "jvalue \<Rightarrow> bool" where
  "encodable (Num x) = number_encodable x"
| "encodable (BigInt n) = small_int n"
| "encodable (Text s) = text_ok s"
| "encodable (Blob b) = (length b < 2 ^ 53)"
| "encodable (DateOf t) = (case t of None \<Rightarrow> False | Some t \<Rightarrow> small_int t)"
| "encodable (ArrayOf vs) = (length vs < 2 ^ 32 \<and> list_all encodable vs)"
| "encodable (ObjectOf kvs) = (length (live kvs) < 2 ^ 53 \<and> keys_ok (map fst (live kvs))
     \<and> list_all (\<lambda>(k, v). v = Undefined \<or> text_ok k \<and> encodable v) kvs)"
| "encodable (OtherType t) = False"
| "encodable v = True"

lemma obj_set_snoc:
  assumes "k \<noteq> js ''__proto__''" and "k \<notin> set (map fst obj)" and "\<forall>k' \<in> set (map fst obj). comes_before k' k"
  shows "obj_set k v obj = obj @ [(k, v)]"
proof -
  have all: "\<forall>x \<in> set obj. (\<lambda>(k', _). comes_before k' k) x"
    using assms(3) by auto
  then have "takeWhile (\<lambda>(k', _). comes_before k' k) obj = obj" "dropWhile (\<lambda>(k', _). comes_before k' k) obj = []"
    by (simp_all add: takeWhile_eq_all_conv dropWhile_eq_Nil_conv)
  with assms show ?thesis
    unfolding obj_set_def by (simp only: if_False append_Nil2)
qed

lemma build_object_id: "keys_ok (map fst kvs) \<Longrightarrow> build_object kvs = kvs"
proof (induction kvs rule: rev_induct)
  case (snoc kv kvs)
  obtain k v where kv: "kv = (k, v)"
    by (cases kv)
  from snoc.prems have "keys_ok (map fst kvs)" and "k \<noteq> js ''__proto__''" "k \<notin> set (map fst kvs)"
      "\<forall>k' \<in> set (map fst kvs). comes_before k' k"
    by (auto simp: keys_ok_def kv sorted_wrt_append)
  with snoc.IH obj_set_snoc [of k kvs v] show ?case
    by (simp add: build_object_def kv)
qed (simp add: build_object_def)

text \<open>\<open>writes v bs\<close>: the bytes of \<open>v\<close> are \<open>bs\<close>, and are read back wherever they stand.\<close>

definition writes :: "jvalue \<Rightarrow> byte list \<Rightarrow> bool" where
  "writes v bs \<longleftrightarrow> write_value v = Inr bs \<and> (\<forall>depth. length bs \<le> depth \<longrightarrow> reads (read_value depth) bs (seen_as v))"

lemma reads_tag: "tag \<in> set known_tags \<Longrightarrow> reads read_tag [tag] tag"
  by (simp add: reads_def read_tag_def read_u8_def)

lemma reads_tagged:
  assumes "tag \<in> set known_tags" and "\<And>depth. length bs \<le> depth \<Longrightarrow> reads (read_tagged (read_value depth) tag) bs v"
  shows "length (tag # bs) \<le> depth \<Longrightarrow> reads (read_value depth) (tag # bs) v"
proof (cases depth)
  case (Suc d)
  assume "length (tag # bs) \<le> depth"
  with Suc assms(2) [of d] have "reads (read_tagged (read_value d) tag) bs v"
    by simp
  with reads_bind [OF reads_tag [OF assms(1)], of "read_tagged (read_value d)" bs v] show ?thesis
    by (simp add: Suc)
qed simp

lemma writes_tagged:
  assumes "write_value v = Inr (tag # bs)" and "tag \<in> set known_tags"
    and "\<And>self. reads (read_tagged self tag) bs (seen_as v)"
  shows "writes v (tag # bs)"
  unfolding writes_def using assms(1) reads_tagged [OF assms(2), of bs "seen_as v"] assms(3) by blast

lemma reads_many:
  "list_all2 (reads f) bss vs \<Longrightarrow> reads (read_many (length vs) f) (concat bss) vs"
proof (induction rule: list_all2_induct)
  case (Cons bs bss v vs)
  have "reads (read_bind (read_many (length vs) f) (\<lambda>vs. read_return (v # vs))) (concat bss) (v # vs)"
    by (rule reads_bind_return [OF Cons(3)])
  with reads_bind [OF Cons(1), of "\<lambda>v. read_bind (read_many (length vs) f) (\<lambda>vs. read_return (v # vs))" "concat bss" "v # vs"]
  show ?case
    by simp
qed (simp add: reads_return)

lemma sequence_sum_Inr: "list_all2 (\<lambda>r x. r = Inr x) rs xs \<Longrightarrow> sequence_sum rs = Inr xs"
  by (induction rule: list_all2_induct) auto

lemma reads_object_tag:
  assumes "list_all2 (reads (read_entry self)) bss kvs" and "length kvs < 2 ^ 53" and "keys_ok (map fst kvs)"
  shows "reads (read_object self) (varint (length kvs) @ concat bss) (ObjectOf kvs)"
  unfolding read_object_def
  using reads_bind [OF reads_varint [OF assms(2)], of "\<lambda>n. read_bind (read_many n (read_entry self)) (\<lambda>kvs. read_return (ObjectOf (build_object kvs)))"
      "concat bss" "ObjectOf kvs"]
    reads_bind_return [OF reads_many [OF assms(1)], of "\<lambda>kvs. ObjectOf (build_object kvs)"] build_object_id [OF assms(3)]
  by simp

lemma reads_array_tag:
  assumes "list_all2 (reads self) bss vs" and "length vs < 2 ^ 32"
  shows "reads (read_array self) (varint (length vs) @ concat bss) (ArrayOf vs)"
proof -
  have "length vs < 2 ^ 53"
    using assms(2) by simp
  from reads_bind [OF reads_varint [OF this], of "\<lambda>n. if 2 ^ 32 \<le> n then (\<lambda>r. Inl (RangeError (BadArrayLength n)))
       else read_bind (read_many n self) (\<lambda>vs. read_return (ArrayOf vs))" "concat bss" "ArrayOf vs"]
    reads_bind_return [OF reads_many [OF assms(1)], of ArrayOf] assms(2)
  show ?thesis
    unfolding read_array_def by simp
qed

lemma reads_entry:
  assumes "text_ok k" and "reads self bs v"
  shows "reads (read_entry self) (write_str k @ bs) (k, v)"
  unfolding read_entry_def
  using reads_bind [OF reads_str [OF assms(1) [unfolded text_ok_def]], of "\<lambda>k. read_bind self (\<lambda>v. read_return (k, v))" bs "(k, v)"]
    reads_bind_return [OF assms(2), of "Pair k"] by simp

lemma writes_number: "number_encodable x \<Longrightarrow> writes (Num x) (write_number x)"
proof (cases x)
  case (Integral v)
  assume x: "number_encodable x"
  consider "0 \<le> v" "v \<le> 2 ^ 53 - 1" | "v < 0" "- (2 ^ 53 - 1) \<le> v" | "\<not> (0 \<le> v \<and> v \<le> 2 ^ 53 - 1)" "\<not> (v < 0 \<and> - (2 ^ 53 - 1) \<le> v)"
    by blast
  then show ?thesis
  proof cases
    case 1
    then have "nat v < 2 ^ 53" by simp
    from reads_bind_return [OF reads_varint [OF this], of "\<lambda>n. Num (Integral (int n))"] 1 show ?thesis
      using writes_tagged [of "Num x" TAG_UINT "varint (nat v)"]
      by (simp add: Integral write_number_def known_tags_def read_tagged_def)
  next
    case 2
    with x have "- (2 ^ 52) \<le> v" "v < 2 ^ 52"
      by (auto simp: number_encodable_def Integral)
    from reads_bind_return [OF reads_svarint [OF this], of "\<lambda>v. Num (Integral v)"] 2 show ?thesis
      using writes_tagged [of "Num x" TAG_SINT "svarint v"]
      by (simp add: Integral write_number_def known_tags_def read_tagged_def)
  next
    case 3
    then have "write_number x = TAG_F64 # write_f64 x"
      unfolding Integral write_number_def number.case by (simp only: if_False)
    with x reads_bind_return [OF reads_f64 [of x], of Num] show ?thesis
      using writes_tagged [of "Num x" TAG_F64 "write_f64 x"]
      by (simp add: number_encodable_def Integral known_tags_def read_tagged_def)
  qed
next
  case NegativeZero
  from reads_bind_return [OF reads_varint [of 0], of "\<lambda>n. Num (Integral (int n))"] show ?thesis
    using writes_tagged [of "Num x" TAG_UINT "varint 0"] by (simp add: NegativeZero write_number_def known_tags_def read_tagged_def)
next
  case (Fraction w)
  assume "number_encodable x"
  with Fraction reads_bind_return [OF reads_f64 [of x], of Num] show ?thesis
    using writes_tagged [of "Num x" TAG_F64 "write_f64 x"]
    by (simp add: number_encodable_def write_number_def known_tags_def read_tagged_def)
next
  case (Infinite s)
  assume "number_encodable x"
  with Infinite reads_bind_return [OF reads_f64 [of x], of Num] show ?thesis
    using writes_tagged [of "Num x" TAG_F64 "write_f64 x"]
    by (simp add: number_encodable_def write_number_def known_tags_def read_tagged_def)
next
  case NotANumber
  assume "number_encodable x"
  with NotANumber reads_bind_return [OF reads_f64 [of x], of Num] show ?thesis
    using writes_tagged [of "Num x" TAG_F64 "write_f64 x"]
    by (simp add: number_encodable_def write_number_def known_tags_def read_tagged_def)
qed

lemma writes_small_int:
  assumes "small_int v" and "write_value j = Inr (TAG_SINT # svarint v)" and "seen_as j = Num (Integral v)"
  shows "writes j (TAG_SINT # svarint v)"
  using writes_tagged [OF assms(2)] reads_bind_return [OF reads_svarint [of v], of "\<lambda>v. Num (Integral v)"] assms(1,3)
  by (simp add: known_tags_def read_tagged_def small_int_def)

lemma seen_as_Undefined [simp]: "seen_as v = Undefined \<longleftrightarrow> v = Undefined"
  by (cases v rule: seen_as.cases) auto

lemma live_seen: "live (map (\<lambda>(k, v). (k, seen_as v)) kvs) = map (\<lambda>(k, v). (k, seen_as v)) (live kvs)"
  by (induction kvs) (auto simp: live_def)

lemma writes_array:
  assumes "\<forall>v \<in> set vs. \<exists>bs. writes v bs" and "length vs < 2 ^ 32"
  shows "\<exists>bs. writes (ArrayOf vs) bs"
proof -
  obtain bss where bss: "list_all2 writes vs bss"
    using assms(1) by (induction vs) (auto simp: list_all2_Cons1)
  have "sequence_sum (map write_value vs) = Inr bss"
    using bss by (intro sequence_sum_Inr) (auto simp: list_all2_map1 writes_def elim: list_all2_mono)
  then have enc: "write_value (ArrayOf vs) = Inr (TAG_ARR # varint (length vs) @ concat bss)"
    by simp
  have "reads (read_value depth) (TAG_ARR # varint (length vs) @ concat bss) (seen_as (ArrayOf vs))"
    if "length (TAG_ARR # varint (length vs) @ concat bss) \<le> depth" for depth
  proof (rule reads_tagged [OF _ _ that])
    fix d
    assume d: "length (varint (length vs) @ concat bss) \<le> d"
    have "length bs \<le> d" if "bs \<in> set bss" for bs
      using d member_le_sum_list [of "length bs" "map length bss"] that by (simp add: length_concat)
    then have "list_all2 (reads (read_value d)) bss (map seen_as vs)"
      using bss by (auto simp: list_all2_conv_all_nth writes_def)
    from reads_array_tag [OF this] assms(2) show "reads (read_tagged (read_value d) TAG_ARR) (varint (length vs) @ concat bss) (seen_as (ArrayOf vs))"
      by (simp add: read_tagged_def)
  qed (simp add: known_tags_def)
  then show ?thesis
    using enc unfolding writes_def by blast
qed

lemma writes_object:
  assumes "\<forall>(k, v) \<in> set kvs. v \<noteq> Undefined \<longrightarrow> text_ok k \<and> (\<exists>bs. writes v bs)"
    and "length (live kvs) < 2 ^ 53" and "keys_ok (map fst (live kvs))"
  shows "\<exists>bs. writes (ObjectOf kvs) bs"
proof -
  have "\<exists>ess. sequence_sum (map (\<lambda>(k, v). if v = Undefined then Inr [] else map_sum id ((@) (write_str k)) (write_value v)) kvs) = Inr ess
    \<and> (\<exists>bss. concat ess = concat bss \<and> list_all2 (\<lambda>(k, v) es. text_ok k \<and> (\<exists>bs. es = write_str k @ bs \<and> writes v bs)) (live kvs) bss)"
    using assms(1)
  proof (induction kvs)
    case (Cons kv kvs)
    obtain k v where kv: "kv = (k, v)" by (cases kv)
    obtain ess bss where IH: "sequence_sum (map (\<lambda>(k, v). if v = Undefined then Inr [] else map_sum id ((@) (write_str k)) (write_value v)) kvs) = Inr ess"
      "concat ess = concat bss" "list_all2 (\<lambda>(k, v) es. text_ok k \<and> (\<exists>bs. es = write_str k @ bs \<and> writes v bs)) (live kvs) bss"
      using Cons by auto
    show ?case
    proof (cases "v = Undefined")
      case True
      with IH show ?thesis
        by (auto simp: kv live_def)
    next
      case False
      then obtain bs where "text_ok k" "writes v bs"
        using Cons.prems kv by auto
      moreover have "write_value v = Inr bs"
        using \<open>writes v bs\<close> by (simp add: writes_def)
      moreover have "concat ((write_str k @ bs) # ess) = concat ((write_str k @ bs) # bss)"
        using IH(2) by simp
      moreover have "list_all2 (\<lambda>(k, v) es. text_ok k \<and> (\<exists>bs. es = write_str k @ bs \<and> writes v bs)) (live (kv # kvs)) ((write_str k @ bs) # bss)"
        using IH(3) False calculation(1,2) by (simp add: live_def kv)
      ultimately show ?thesis
        using IH(1) False by (intro exI [of _ "(write_str k @ bs) # ess"] conjI exI [of _ "(write_str k @ bs) # bss"]) (simp_all add: kv)
    qed
  qed (auto simp: live_def)
  then obtain ess bss where ess: "sequence_sum (map (\<lambda>(k, v). if v = Undefined then Inr [] else map_sum id ((@) (write_str k)) (write_value v)) kvs) = Inr ess"
    "concat ess = concat bss" and bss: "list_all2 (\<lambda>(k, v) es. text_ok k \<and> (\<exists>bs. es = write_str k @ bs \<and> writes v bs)) (live kvs) bss"
    by blast
  let ?wire = "varint (length (live kvs)) @ concat bss"
  have enc: "write_value (ObjectOf kvs) = Inr (TAG_MAP # ?wire)"
    using ess by (simp add: live_def)
  have "reads (read_value depth) (TAG_MAP # ?wire) (seen_as (ObjectOf kvs))" if "length (TAG_MAP # ?wire) \<le> depth" for depth
  proof (rule reads_tagged [OF _ _ that])
    fix d
    assume d: "length ?wire \<le> d"
    have fits: "length es \<le> d" if "es \<in> set bss" for es
      using d member_le_sum_list [of "length es" "map length bss"] that by (simp add: length_concat)
    have "list_all2 (reads (read_entry (read_value d))) bss (map (\<lambda>(k, v). (k, seen_as v)) (live kvs))"
    proof (rule list_all2_all_nthI)
      show "length bss = length (map (\<lambda>(k, v). (k, seen_as v)) (live kvs))"
        using list_all2_lengthD [OF bss] by simp
      fix n
      assume n: "n < length bss"
      obtain k v where kv: "live kvs ! n = (k, v)"
        by (cases "live kvs ! n")
      obtain bs where "text_ok k" "bss ! n = write_str k @ bs" "writes v bs"
        using list_all2_nthD2 [OF bss n] by (auto simp: kv)
      moreover have "length bs \<le> d"
        using fits [OF nth_mem [OF n]] calculation(2) by simp
      ultimately show "reads (read_entry (read_value d)) (bss ! n) (map (\<lambda>(k, v). (k, seen_as v)) (live kvs) ! n)"
        using n list_all2_lengthD [OF bss] reads_entry [of k "read_value d" bs "seen_as v"] by (simp add: kv writes_def)
    qed
    from reads_object_tag [OF this] assms(2,3) show "reads (read_tagged (read_value d) TAG_MAP) ?wire (seen_as (ObjectOf kvs))"
      by (simp add: read_tagged_def live_seen) (simp add: case_prod_unfold comp_def)
  qed (simp add: known_tags_def)
  then show ?thesis
    using enc unfolding writes_def by blast
qed

lemma writes_value: "encodable v \<Longrightarrow> \<exists>bs. writes v bs"
proof (induction v)
  case (Text s)
  from Text reads_bind_return [OF reads_str [of s], of Text] show ?case
    using writes_tagged [of "Text s" TAG_STR "write_str s"] by (auto simp: known_tags_def read_tagged_def text_ok_def)
next
  case (Blob b)
  have "reads (read_bind read_varint read_bytes) (varint (length b) @ b) b"
    using reads_bind [OF reads_varint [of "length b"], of read_bytes b b] reads_bytes [of b] Blob by simp
  from reads_bind_return [OF this, of Blob] show ?case
    using writes_tagged [of "Blob b" TAG_BIN "varint (length b) @ b"] by (auto simp: known_tags_def read_tagged_def)
next
  case (Boolean b)
  then show ?case
    using writes_tagged [of "Boolean True" TAG_TRUE "[]"] writes_tagged [of "Boolean False" TAG_FALSE "[]"]
    by (cases b) (auto simp: known_tags_def read_tagged_def reads_return)
next
  case Null
  then show ?case
    using writes_tagged [of Null TAG_NULL "[]"] by (auto simp: known_tags_def read_tagged_def reads_return)
next
  case Undefined
  then show ?case
    using writes_tagged [of Undefined TAG_UNDEF "[]"] by (auto simp: known_tags_def read_tagged_def reads_return)
next
  case (Num x)
  then show ?case
    using writes_number by auto
next
  case (BigInt n)
  have "nat \<bar>n\<bar> < 2 ^ 53"
    using BigInt by (auto simp: small_int_def)
  moreover have "(2 :: nat) ^ 53 \<le> 2 ^ 1023"
    by (rule power_increasing) simp_all
  ultimately have "write_value (BigInt n) = Inr (TAG_SINT # svarint n)"
    by (simp add: write_bigint_def Let_def with_sign_def)
  with BigInt show ?case
    using writes_small_int [of n "BigInt n"] by auto
next
  case (DateOf t)
  then obtain t' where "t = Some t'" "small_int t'"
    by (auto split: option.splits)
  then show ?case
    using writes_small_int [of t' "DateOf t"] by auto
next
  case (ArrayOf vs)
  then show ?case
    by (intro writes_array) (auto simp: list_all_iff)
next
  case (ObjectOf kvs)
  then show ?case
    by (intro writes_object) (fastforce simp: list_all_iff)+
qed simp

lemma decode_wire: "writes v bs \<Longrightarrow> readValue (pos, bs @ rest) = Inr (seen_as v, pos + length bs, rest)"
  by (simp add: readValue_def remaining_def writes_def reads_def del: read_value.simps)

text \<open>
  C10: a value within the bounds below is encoded and read back, wherever its bytes stand and whatever follows
  them, as the value with the format's conversions (minus zero, dates and big integers come back as plain
  integers, properties that are \<open>undefined\<close> are left out), and the decoder stops after its bytes. The bounds:
  numbers are doubles, and a negative integer that is written with a sign is at least \<open>- (2 ^ 52)\<close>;
  big integers and the milliseconds of dates lie from \<open>- (2 ^ 52)\<close> up to \<open>2 ^ 52 - 1\<close>, and no date is invalid;
  texts, keys and blobs have fewer than \<open>2 ^ 53\<close> bytes, lists fewer than \<open>2 ^ 32\<close> elements, objects
  fewer than \<open>2 ^ 53\<close> entries; the keys of an object are
  distinct, in the language's own order (indices first), and none is \<open>__proto__\<close>; nothing in it is a function or
  a symbol. Outside them the next section shows values that are encoded and not read back.
\<close>

theorem value_roundtrip:
  assumes "encodable v"
  shows "\<exists>bs. encode_value v = Inr bs \<and> decode_value bs = Inr (seen_as v)
    \<and> readValue (pos, bs @ rest) = Inr (seen_as v, pos + length bs, rest)"
proof -
  obtain bs where bs: "writes v bs"
    using writes_value [OF assms] by blast
  with decode_wire [OF bs, of 0 "[]"] decode_wire [OF bs] show ?thesis
    by (auto simp: encode_value_def decode_value_def new_reader_def writes_def)
qed

definition sample_value :: jvalue where
  "sample_value = ObjectOf [(js ''1'', ArrayOf [Num (Integral (-5)), Null, Undefined]), (js ''gone'', Undefined),
     (js ''s'', Text [0x48, 0xd83d, 0xde00, 0xd800]), (js ''b'', Blob [1, 2]), (js ''d'', DateOf (Some 7)), (js ''z'', Num NegativeZero)]"

lemma sample_encodable: "encodable sample_value"
  by (simp add: sample_value_def number_encodable_def double_ok_def small_int_def text_ok_def utf8Encode_def live_def keys_ok_def
      comes_before_def is_index_def decimal_def js_def js_char_def utf8_encode1_def high_surrogate_def low_surrogate_def)

theorem value_roundtrip_witness:
  "\<exists>bs. encode_value sample_value = Inr bs \<and> decode_value bs = Inr (ObjectOf
     [(js ''1'', ArrayOf [Num (Integral (-5)), Null, Undefined]), (js ''s'', Text [0x48, 0xd83d, 0xde00, 0xd800]), (js ''b'', Blob [1, 2]),
      (js ''d'', Num (Integral 7)), (js ''z'', Num (Integral 0))])"
  using value_roundtrip [OF sample_encodable, of 0 "[]"] by (simp add: sample_value_def live_def) metis

section \<open>What is not encoded faithfully\<close>

text \<open>
  The code takes integers down to \<open>- (2 ^ 53 - 1)\<close> for ones it can write with a sign; twice the value less one
  is rounded, and a negative integer of more than 52 bits comes back positive.
\<close>

theorem negative_integer_flipped:
  "encode_value (Num (Integral (- (2 ^ 52) - 1))) = Inr (TAG_SINT # varint (2 ^ 53))
   \<and> map_sum id fst (readValue (0, TAG_SINT # varint (2 ^ 53))) = Inr (Num (Integral (2 ^ 52)))"
proof
  have round: "number_of_bigint 9007199254740993 = 9007199254740992"
    by (simp add: number_of_bigint_def bit_len.simps)
  show "encode_value (Num (Integral (- (2 ^ 52) - 1))) = Inr (TAG_SINT # varint (2 ^ 53))"
    by (simp add: encode_value_def write_number_def svarint_def zigzag_def round)
  have "varint (2 ^ 53) = [0x80, 0x80, 0x80, 0x80, 0x80, 0x80, 0x80, 0x10]"
    by (simp add: varint.simps)
  moreover have "number_of_bigint 9007199254740992 = 9007199254740992"
    by (simp add: number_of_bigint_def bit_len.simps)
  ultimately show "map_sum id fst (readValue (0, TAG_SINT # varint (2 ^ 53))) = Inr (Num (Integral (2 ^ 52)))"
    by (simp add: readValue_def remaining_def read_bind_def read_tag_def read_u8_def known_tags_def read_tagged_def read_svarint_def
        read_varint_def unzigzag_def read_return_def)
qed

text \<open>
  A big integer of 63 bits or more is encoded but cannot be decoded.
\<close>

theorem bigint_unreadable:
  "encode_value (BigInt (2 ^ 62)) = Inr (TAG_SINT # varint (2 ^ 63))
   \<and> decode_value (TAG_SINT # varint (2 ^ 63)) = Inl (RangeError VarintTooLong)"
proof
  have round: "number_of_bigint 4611686018427387904 = 4611686018427387904"
    by (simp add: number_of_bigint_def bit_len.simps)
  have "\<not> (2 :: nat) ^ 1023 \<le> 4611686018427387904"
  proof -
    have "(4611686018427387904 :: nat) < 2 ^ 63"
      by simp
    also have "(2 :: nat) ^ 63 \<le> 2 ^ 1023"
      by (rule power_increasing) simp_all
    finally show ?thesis by simp
  qed
  then show "encode_value (BigInt (2 ^ 62)) = Inr (TAG_SINT # varint (2 ^ 63))"
    by (simp add: encode_value_def write_bigint_def round with_sign_def svarint_def zigzag_def del: varint.simps)
  have "varint (2 ^ 63) = [0x80, 0x80, 0x80, 0x80, 0x80, 0x80, 0x80, 0x80, 0x80, 0x01]"
    by (simp add: varint.simps)
  then show "decode_value (TAG_SINT # varint (2 ^ 63)) = Inl (RangeError VarintTooLong)"
    by (simp add: decode_value_def new_reader_def readValue_def remaining_def read_bind_def read_tag_def read_u8_def known_tags_def
        read_tagged_def read_svarint_def read_varint_def read_return_def)
qed

text \<open>
  An own property named \<open>__proto__\<close> is written, but reading it back makes no property.
\<close>

theorem proto_key_lost:
  "\<exists>bs. encode_value (ObjectOf [(js ''__proto__'', Null)]) = Inr bs \<and> decode_value bs = Inr (ObjectOf [])"
proof -
  let ?k = "js ''__proto__''"
  have short: "length (utf8Encode ?k) < 2 ^ 53"
    by (simp add: utf8Encode_def js_def js_char_def high_surrogate_def utf8_encode1_def)
  have entry: "reads (read_entry (read_value d)) (write_str ?k @ [TAG_NULL]) (?k, Null)" if "0 < d" for d
  proof (rule reads_entry)
    show "reads (read_value d) [TAG_NULL] Null"
      using reads_tagged [of TAG_NULL "[]" Null d] that by (simp add: known_tags_def read_tagged_def reads_return Suc_le_eq)
  qed (use short in \<open>simp add: text_ok_def\<close>)
  let ?bs = "TAG_MAP # varint 1 @ write_str ?k @ [TAG_NULL]"
  have wire: "reads (read_value (length ?bs + 1)) ?bs (ObjectOf [])"
  proof (rule reads_tagged)
    fix d
    assume "length (varint 1 @ write_str ?k @ [TAG_NULL]) \<le> d"
    then have "reads (read_many (length [(?k, Null)]) (read_entry (read_value d))) (concat [write_str ?k @ [TAG_NULL]]) [(?k, Null)]"
      by (intro reads_many) (simp add: entry)
    from reads_bind_return [OF this, of "\<lambda>kvs. ObjectOf (build_object kvs)"]
    have "reads (read_bind (read_many 1 (read_entry (read_value d))) (\<lambda>kvs. read_return (ObjectOf (build_object kvs)))) (write_str ?k @ [TAG_NULL]) (ObjectOf [])"
      by (simp add: build_object_def obj_set_def)
    with reads_bind [OF reads_varint [of 1], of "\<lambda>n. read_bind (read_many n (read_entry (read_value d))) (\<lambda>kvs. read_return (ObjectOf (build_object kvs)))"
        "write_str ?k @ [TAG_NULL]" "ObjectOf []"]
    show "reads (read_tagged (read_value d) TAG_MAP) (varint 1 @ write_str ?k @ [TAG_NULL]) (ObjectOf [])"
      by (simp add: read_tagged_def read_object_def)
  qed (simp_all add: known_tags_def)
  have "decode_value ?bs = Inr (ObjectOf [])"
    using wire [unfolded reads_def, rule_format, of 0 "[]"] unfolding decode_value_def new_reader_def readValue_def remaining_def
    by (simp only: append_Nil2 snd_conv map_sum.simps fst_conv)
  then show ?thesis
    by (simp add: encode_value_def)
qed

end
