(* ===== verification/CodecStream.thy ===== *)
theory CodecStream
  imports BinaryCodec Interfaces
begin

text \<open>
  Decoding a stream that arrives in chunks, \<open>serialization/engine/StreamDecoder.ts\<close>: values one after the
  other, or in frames with their length. What is not yet a whole record stays pending. Its promises: the
  records do not depend on the chunks, and what was written frame by frame is delivered record by record.
\<close>

section \<open>Data\<close>

datatype stream_mode = RawMode | FrameMode

record stream_options =
  so_mode :: "stream_mode option"
  so_compactThreshold :: "int option"
  so_maxBuffer :: "int option"

record stream_decoder =
  sd_pending :: "byte list"
  sd_mode :: stream_mode
  sd_compactThreshold :: int
  sd_maxBuffer :: int

datatype stream_error = StreamOverflow int | StreamTruncated nat | Thrown codec_error

definition new_stream :: "stream_options \<Rightarrow> stream_decoder" where
  "new_stream options =
     \<lparr>sd_pending = [],
      sd_mode = (case so_mode options of Some m \<Rightarrow> m | None \<Rightarrow> FrameMode),
      sd_compactThreshold = (case so_compactThreshold options of Some n \<Rightarrow> n | None \<Rightarrow> 65536),
      sd_maxBuffer = (case so_maxBuffer options of Some n \<Rightarrow> n | None \<Rightarrow> 4 * 1024 * 1024)\<rparr>"

section \<open>Records\<close>

text \<open>A record, or nothing (\<open>INCOMPLETE\<close>) and the reader back at its mark.\<close>

definition readFrame :: "reader \<Rightarrow> codec_error + jvalue option \<times> reader" where
  "readFrame mark =
     (let attempt = (case read_varint mark of
            Inl e \<Rightarrow> Inl e
          | Inr (len, r) \<Rightarrow>
              if remaining r < len then Inr (None, mark)
              else
                (case read_bytes len r of
                   Inl e \<Rightarrow> Inl e
                 | Inr (body, r) \<Rightarrow>
                     (case decode_value body of Inl e \<Rightarrow> Inl e | Inr v \<Rightarrow> Inr (Some v, r))))
      in case attempt of
           Inl (RangeError m) \<Rightarrow> Inr (None, mark)
         | Inl (CodecError m off) \<Rightarrow> Inl (CodecError m off)
         | Inr x \<Rightarrow> Inr x)"

definition read_record :: "stream_mode \<Rightarrow> reader \<Rightarrow> codec_error + jvalue option \<times> reader" where
  "read_record mode r = (if mode = FrameMode then readFrame r else tryRead r)"

text \<open>One record of the bytes, as an attempt of an incremental decoder.\<close>

definition stream_attempt :: "stream_mode \<Rightarrow> unit \<Rightarrow> byte list \<Rightarrow> (unit, jvalue, codec_message) attempt" where
  "stream_attempt mode _ buf =
     (case read_record mode (0, buf) of
        Inl (CodecError m off) \<Rightarrow> Malformed m
      | Inl (RangeError m) \<Rightarrow> NeedMore
      | Inr (None, r) \<Rightarrow> NeedMore
      | Inr (Some v, r) \<Rightarrow> Decoded () v (fst r))"


lemma varint_consumes: "read_varint (0, xs) = Inr (v, n, rest) \<Longrightarrow> 0 < n"
proof (cases xs)
  case (Cons b bs)
  assume "read_varint (0, xs) = Inr (v, n, rest)"
  then show ?thesis
    using varint_loop_local [where result = "number_of_bigint (0 + unat (b AND 0x7f) * 2 ^ 0)" and shift = "0 + 7" and start = "0 + 1" and xs = bs]
    by (auto simp: Cons read_varint_def Let_def split: if_splits)
qed (simp add: read_varint_def)

lemma varint_range: "read_varint (pos, xs) \<noteq> Inl (CodecError m off)"
  using varint_loop_local [where result = 0 and shift = 0 and start = pos and xs = xs] by (auto simp: read_varint_def split: sum.splits codec_error.splits)

lemma readFrame_cases:
  "readFrame (pos, xs) =
     (case read_varint (0, xs) of
        Inl e \<Rightarrow> Inr (None, pos, xs)
      | Inr (len, k, rest) \<Rightarrow>
          if length rest < len then Inr (None, pos, xs)
          else
            (case decode_value (take len rest) of
               Inl (RangeError m) \<Rightarrow> Inr (None, pos, xs)
             | Inl (CodecError m off) \<Rightarrow> Inl (CodecError m off)
             | Inr v \<Rightarrow> Inr (Some v, pos + (k + len), drop (k + len) xs)))"
proof (cases "read_varint (0, xs)")
  case (Inl e)
  moreover obtain m where "e = RangeError m"
    using Inl varint_range [of 0 xs] by (cases e) auto
  ultimately show ?thesis
    using local_read_range [OF local_read_varint, of xs m pos] by (simp add: readFrame_def)
next
  case (Inr x)
  then obtain len k rest where x: "read_varint (0, xs) = Inr (len, k, rest)"
    by (cases x) auto
  from local_read_Inr [OF local_read_varint x, of pos "[]"] show ?thesis
    by (simp add: x readFrame_def remaining_def read_bytes_def add.assoc add.commute Let_def split: sum.split codec_error.split)
qed

lemma tryRead_cases:
  "tryRead (pos, xs) =
     (case readValue (0, xs) of
        Inl (RangeError m) \<Rightarrow> Inr (None, pos, xs)
      | Inl (CodecError m off) \<Rightarrow> Inl (CodecError m (pos + off))
      | Inr (v, n, rest) \<Rightarrow> Inr (Some v, pos + n, rest))"
  by (simp add: tryRead_def local_read_shift [OF local_readValue, of pos xs] split: sum.split codec_error.split)

lemma attempt_record:
  "stream_attempt mode u xs = NeedMore \<Longrightarrow> read_record mode (pos, xs) = Inr (None, pos, xs)"
  "stream_attempt mode u xs = Malformed m \<Longrightarrow> \<exists>off. read_record mode (pos, xs) = Inl (CodecError m off)"
  "stream_attempt mode u xs = Decoded s v n \<Longrightarrow> 0 < n \<and> n \<le> length xs \<and> read_record mode (pos, xs) = Inr (Some v, pos + n, drop n xs)"
proof -
  have "(stream_attempt mode u xs = NeedMore \<longrightarrow> read_record mode (pos, xs) = Inr (None, pos, xs))
    \<and> (stream_attempt mode u xs = Malformed m \<longrightarrow> (\<exists>off. read_record mode (pos, xs) = Inl (CodecError m off)))
    \<and> (stream_attempt mode u xs = Decoded s v n \<longrightarrow> 0 < n \<and> n \<le> length xs \<and> read_record mode (pos, xs) = Inr (Some v, pos + n, drop n xs))"
  proof (cases mode)
    case RawMode
    show ?thesis
      using local_read_Inr [OF local_readValue, of xs] readValue_consumes [of xs]
      by (auto simp: stream_attempt_def read_record_def RawMode tryRead_cases split: sum.splits codec_error.splits)
  next
    case FrameMode
    show ?thesis
      using local_read_Inr [OF local_read_varint, of xs] varint_consumes [of xs]
      by (fastforce simp: stream_attempt_def read_record_def FrameMode readFrame_cases not_less split: sum.splits codec_error.splits if_splits)
  qed
  then show "stream_attempt mode u xs = NeedMore \<Longrightarrow> read_record mode (pos, xs) = Inr (None, pos, xs)"
    "stream_attempt mode u xs = Malformed m \<Longrightarrow> \<exists>off. read_record mode (pos, xs) = Inl (CodecError m off)"
    "stream_attempt mode u xs = Decoded s v n \<Longrightarrow> 0 < n \<and> n \<le> length xs \<and> read_record mode (pos, xs) = Inr (Some v, pos + n, drop n xs)"
    by blast+
qed

lemma attempt_more:
  "stream_attempt mode u xs = Malformed m \<Longrightarrow> stream_attempt mode u (xs @ ys) = Malformed m"
  "stream_attempt mode u xs = Decoded s v n \<Longrightarrow> stream_attempt mode u (xs @ ys) = Decoded s v n"
proof -
  have "(stream_attempt mode u xs = Malformed m \<longrightarrow> stream_attempt mode u (xs @ ys) = Malformed m)
    \<and> (stream_attempt mode u xs = Decoded s v n \<longrightarrow> stream_attempt mode u (xs @ ys) = Decoded s v n)"
  proof (cases mode)
    case RawMode
    show ?thesis
      using local_read_Inr [OF local_readValue, of xs _ _ _ 0 ys] local_read_error [OF local_readValue, of xs _ _ 0 ys]
      by (fastforce simp: stream_attempt_def read_record_def RawMode tryRead_cases split: sum.splits codec_error.splits)
  next
    case FrameMode
    show ?thesis
      using local_read_Inr [OF local_read_varint, of xs _ _ _ 0 ys]
      by (fastforce simp: stream_attempt_def read_record_def FrameMode readFrame_cases not_less split: sum.splits codec_error.splits if_splits)
  qed
  then show "stream_attempt mode u xs = Malformed m \<Longrightarrow> stream_attempt mode u (xs @ ys) = Malformed m"
    "stream_attempt mode u xs = Decoded s v n \<Longrightarrow> stream_attempt mode u (xs @ ys) = Decoded s v n"
    by blast+
qed

interpretation records: incremental_decoder "stream_attempt mode" for mode
  using attempt_record(3) attempt_more by unfold_locales blast+

section \<open>The decoder\<close>

lemma record_consumes: "read_record mode r = Inr (Some v, r') \<Longrightarrow> remaining r' < remaining r"
proof -
  assume read: "read_record mode r = Inr (Some v, r')"
  obtain pos xs where r: "r = (pos, xs)" by (cases r)
  show ?thesis
  proof (cases "stream_attempt mode () xs")
    case NeedMore
    with read show ?thesis
      using attempt_record(1) [of mode "()" xs pos] by (simp add: r)
  next
    case (Malformed m)
    with read show ?thesis
      using attempt_record(2) [of mode "()" xs m pos] by (auto simp: r)
  next
    case (Decoded s w n)
    with read show ?thesis
      using attempt_record(3) [of mode "()" xs s w n pos] by (auto simp: r remaining_def)
  qed
qed

function read_records :: "stream_mode \<Rightarrow> reader \<Rightarrow> codec_error + jvalue list \<times> reader" where
  "read_records mode r =
     (case read_record mode r of
        Inl e \<Rightarrow> Inl e
      | Inr (None, _) \<Rightarrow> Inr ([], r)
      | Inr (Some v, r) \<Rightarrow> (case read_records mode r of Inl e \<Rightarrow> Inl e | Inr (vs, r) \<Rightarrow> Inr (v # vs, r)))"
  by pat_completeness auto
termination
  by (relation "measure (\<lambda>(mode, r). remaining r)") (auto dest: record_consumes)

declare read_records.simps [simp del]

text \<open>
  A call gives the next state, the records it returns and the exception, if it throws: then it returns none,
  and the bytes it appended stay pending.
\<close>

definition stream_feed :: "byte list \<Rightarrow> stream_decoder \<Rightarrow> stream_decoder \<times> jvalue list \<times> stream_error option" where
  "stream_feed chunk d =
     (if sd_maxBuffer d < int (length (sd_pending d) + length chunk) then (d, [], Some (StreamOverflow (sd_maxBuffer d)))
      else
        let d = d\<lparr>sd_pending := sd_pending d @ chunk\<rparr> in
        (case read_records (sd_mode d) (new_reader (sd_pending d)) of
           Inl e \<Rightarrow> (d, [], Some (Thrown e))
         | Inr (out, r) \<Rightarrow> (d\<lparr>sd_pending := snd r\<rparr>, out, None)))"

definition stream_finish :: "stream_decoder \<Rightarrow> stream_decoder \<times> jvalue list \<times> stream_error option" where
  "stream_finish d =
     (case stream_feed [] d of
        (d, out, Some e) \<Rightarrow> (d, out, Some e)
      | (d, out, None) \<Rightarrow>
          if sd_pending d \<noteq> [] then (d, [], Some (StreamTruncated (length (sd_pending d)))) else (d, out, None))"

definition encodeFrame :: "jvalue \<Rightarrow> codec_error + byte list" where
  "encodeFrame v = (case encode_value v of Inl e \<Rightarrow> Inl e | Inr body \<Rightarrow> Inr (varint (length body) @ body))"

section \<open>Segmentation\<close>

abbreviation stream_drain :: "stream_mode \<Rightarrow> byte list \<Rightarrow> unit \<times> jvalue list \<times> byte list \<times> codec_message option" where
  "stream_drain mode buf \<equiv> drain_with (stream_attempt mode) () buf"

lemma read_records_drain:
  "case stream_drain mode xs of
     (_, vs, rest, None) \<Rightarrow> \<exists>k. read_records mode (pos, xs) = Inr (vs, k, rest)
   | (_, vs, rest, Some m) \<Rightarrow> \<exists>off. read_records mode (pos, xs) = Inl (CodecError m off)"
proof (induction "()" xs arbitrary: pos rule: records.drain_induct [of mode])
  case (NeedMore buf)
  then show ?case
    using attempt_record(1) [OF NeedMore, of pos] by (simp add: records.drain_NeedMore read_records.simps)
next
  case (Malformed buf e)
  then show ?case
    using attempt_record(2) [OF Malformed, of pos] by (auto simp: records.drain_Malformed read_records.simps [of mode "(pos, buf)"])
next
  case (Decoded buf s' f n)
  then show ?case
  proof -
    obtain vs rest err where d: "stream_drain mode (drop n buf) = ((), vs, rest, err)"
      by (cases "stream_drain mode (drop n buf)") auto
    have IH: "case err of None \<Rightarrow> \<exists>k. read_records mode (pos + n, drop n buf) = Inr (vs, k, rest)
       | Some m \<Rightarrow> \<exists>off. read_records mode (pos + n, drop n buf) = Inl (CodecError m off)"
      using Decoded(2) [where pos = "pos + n"] by (simp add: d split: option.split)
    have "records.drain mode () buf = (let (s'', fs, rest, err) = records.drain mode () (drop n buf) in (s'', f # fs, rest, err))"
      using records.drain_Decoded [OF Decoded(1)] by simp
    then show ?thesis
      using attempt_record(3) [OF Decoded(1), of pos] IH
      by (cases err) (auto simp: d read_records.simps [of mode "(pos, buf)"])
  qed
qed

definition stream_settled :: "stream_decoder \<Rightarrow> bool" where
  "stream_settled d \<longleftrightarrow> stream_attempt (sd_mode d) () (sd_pending d) = NeedMore"

lemma stream_feed_drain:
  assumes "int (length (sd_pending d) + length chunk) \<le> sd_maxBuffer d"
    and "stream_drain (sd_mode d) (sd_pending d @ chunk) = (u, vs, rest, err)"
  shows "case err of
      None \<Rightarrow> stream_feed chunk d = (d\<lparr>sd_pending := rest\<rparr>, vs, None)
    | Some m \<Rightarrow> \<exists>off. stream_feed chunk d = (d\<lparr>sd_pending := sd_pending d @ chunk\<rparr>, [], Some (Thrown (CodecError m off)))"
  using read_records_drain [where mode = "sd_mode d" and xs = "sd_pending d @ chunk" and pos = 0] assms
  by (auto simp: stream_feed_def new_reader_def Let_def split: option.splits)

lemma stream_feed_accepts:
  assumes "stream_feed chunk d = (d', vs, None)"
  shows "int (length (sd_pending d) + length chunk) \<le> sd_maxBuffer d
    \<and> (\<exists>rest. stream_drain (sd_mode d) (sd_pending d @ chunk) = ((), vs, rest, None) \<and> d' = d\<lparr>sd_pending := rest\<rparr>)"
proof -
  have fits: "int (length (sd_pending d) + length chunk) \<le> sd_maxBuffer d"
    using assms by (auto simp: stream_feed_def split: if_splits)
  obtain ws rest err where drain: "stream_drain (sd_mode d) (sd_pending d @ chunk) = ((), ws, rest, err)"
    by (cases "stream_drain (sd_mode d) (sd_pending d @ chunk)") auto
  from stream_feed_drain [OF fits this] assms fits drain show ?thesis
    by (cases err) auto
qed

lemma stream_cut:
  assumes "stream_feed (a @ b) d = (d', vs, None)"
  shows "\<exists>d1 vs1 vs2. stream_feed a d = (d1, vs1, None) \<and> stream_settled d1 \<and> stream_feed b d1 = (d', vs2, None) \<and> vs1 @ vs2 = vs"
proof -
  obtain rest where fits: "int (length (sd_pending d) + length (a @ b)) \<le> sd_maxBuffer d"
      and whole: "stream_drain (sd_mode d) ((sd_pending d @ a) @ b) = ((), vs, rest, None)" and d': "d' = d\<lparr>sd_pending := rest\<rparr>"
    using stream_feed_accepts [OF assms] by auto
  obtain vs1 rest1 err where first: "stream_drain (sd_mode d) (sd_pending d @ a) = ((), vs1, rest1, err)"
    by (cases "stream_drain (sd_mode d) (sd_pending d @ a)") auto
  have "err = None"
    using first whole records.drain_append_error [of "sd_mode d" "()" "sd_pending d @ a" "()" vs1 rest1 _ b] by (cases err) auto
  with first have first: "stream_drain (sd_mode d) (sd_pending d @ a) = ((), vs1, rest1, None)"
    by simp
  have one: "stream_feed a d = (d\<lparr>sd_pending := rest1\<rparr>, vs1, None)"
    using stream_feed_drain [OF _ first] fits by simp
  obtain used where "sd_pending d @ a = used @ rest1"
    using records.drain_rest_suffix [OF first] by blast
  then have short: "length rest1 \<le> length (sd_pending d @ a)"
    by simp
  obtain vs2 where second: "stream_drain (sd_mode d) (rest1 @ b) = ((), vs2, rest, None)" and vs: "vs = vs1 @ vs2"
    using records.drain_append [OF first, of b] whole by (auto split: prod.splits)
  have "stream_feed b (d\<lparr>sd_pending := rest1\<rparr>) = (d', vs2, None)"
    using stream_feed_drain [of "d\<lparr>sd_pending := rest1\<rparr>" b "()" vs2 rest None] second short fits d' by simp
  with one vs show ?thesis
    using records.drain_settled [OF first] by (auto simp: stream_settled_def)
qed

lemma stream_pause:
  assumes "stream_settled d" and "stream_feed [] d = (d', vs, None)"
  shows "d' = d \<and> vs = []"
  using stream_feed_accepts [OF assms(2)] assms(1) by (simp add: stream_settled_def records.drain_NeedMore)

interpretation codec_stream: segmented_feed stream_feed stream_feed stream_settled "\<lambda>d. d" "\<lambda>vs. vs"
proof (unfold_locales, goal_cases)
  case (1 s a b s' out)
  then show ?case
    using stream_cut by blast
next
  case (2 s s' out)
  then show ?case
    using stream_pause by blast
qed simp

lemma stream_settled_new: "stream_settled (new_stream options)"
proof -
  have "stream_attempt mode () [] = NeedMore" for mode
    by (cases mode) (simp_all add: stream_attempt_def read_record_def readFrame_cases tryRead_cases read_varint_def readValue_def
        remaining_def read_bind_def read_tag_def read_u8_def)
  then show ?thesis
    by (simp add: stream_settled_def new_stream_def)
qed

lemma stream_refused:
  assumes "stream_feed chunk d = (d', vs, Some (Thrown (CodecError m off)))"
  shows "int (length (sd_pending d) + length chunk) \<le> sd_maxBuffer d
    \<and> (\<exists>ws rest. stream_drain (sd_mode d) (sd_pending d @ chunk) = ((), ws, rest, Some m))"
proof -
  have fits: "int (length (sd_pending d) + length chunk) \<le> sd_maxBuffer d"
    using assms by (auto simp: stream_feed_def split: if_splits)
  obtain ws rest err where drain: "stream_drain (sd_mode d) (sd_pending d @ chunk) = ((), ws, rest, err)"
    by (cases "stream_drain (sd_mode d) (sd_pending d @ chunk)") auto
  from stream_feed_drain [OF fits this] assms fits drain show ?thesis
    by (cases err) auto
qed

lemma stream_refused_segments:
  "stream_settled d \<Longrightarrow> stream_feed (concat segs) d = (d', vs, Some (Thrown (CodecError m off))) \<Longrightarrow>
     \<exists>d' vs off'. feed_all stream_feed segs d = (d', vs, Some (Thrown (CodecError m off')))"
proof (induction segs arbitrary: d d' vs off)
  case Nil
  then show ?case
    using stream_refused [OF Nil(2)] by (auto simp: stream_settled_def records.drain_NeedMore)
next
  case (Cons seg segs)
  obtain ws rest where fits: "int (length (sd_pending d) + length (seg @ concat segs)) \<le> sd_maxBuffer d"
      and whole: "stream_drain (sd_mode d) ((sd_pending d @ seg) @ concat segs) = ((), ws, rest, Some m)"
    using stream_refused [OF Cons.prems(2)] by auto
  obtain vs1 rest1 err where first: "stream_drain (sd_mode d) (sd_pending d @ seg) = ((), vs1, rest1, err)"
    by (cases "stream_drain (sd_mode d) (sd_pending d @ seg)") auto
  have seg_fits: "int (length (sd_pending d) + length seg) \<le> sd_maxBuffer d"
    using fits by simp
  show ?case
  proof (cases err)
    case (Some m')
    then have "m' = m"
      using first whole records.drain_append_error [of "sd_mode d" "()" "sd_pending d @ seg" "()" vs1 rest1 m' "concat segs"] by simp
    then show ?thesis
      using stream_feed_drain [OF seg_fits first] Some by auto
  next
    case None
    with first have first: "stream_drain (sd_mode d) (sd_pending d @ seg) = ((), vs1, rest1, None)"
      by simp
    have one: "stream_feed seg d = (d\<lparr>sd_pending := rest1\<rparr>, vs1, None)"
      using stream_feed_drain [OF seg_fits first] by simp
    obtain used where "sd_pending d @ seg = used @ rest1"
      using records.drain_rest_suffix [OF first] by blast
    then have "length rest1 \<le> length (sd_pending d @ seg)"
      by simp
    then have "int (length (sd_pending (d\<lparr>sd_pending := rest1\<rparr>)) + length (concat segs)) \<le> sd_maxBuffer (d\<lparr>sd_pending := rest1\<rparr>)"
      using fits by simp
    moreover obtain ws2 where "stream_drain (sd_mode d) (rest1 @ concat segs) = ((), ws2, rest, Some m)"
      using records.drain_append [OF first, of "concat segs"] whole by (auto split: prod.splits)
    ultimately obtain off2 where "stream_feed (concat segs) (d\<lparr>sd_pending := rest1\<rparr>) =
        ((d\<lparr>sd_pending := rest1\<rparr>)\<lparr>sd_pending := rest1 @ concat segs\<rparr>, [], Some (Thrown (CodecError m off2)))"
      using stream_feed_drain [of "d\<lparr>sd_pending := rest1\<rparr>" "concat segs" "()" ws2 rest "Some m"] by auto
    moreover have "stream_settled (d\<lparr>sd_pending := rest1\<rparr>)"
      using records.drain_settled [OF first] by (simp add: stream_settled_def)
    ultimately show ?thesis
      using Cons.IH one by fastforce
  qed
qed

text \<open>
  The records do not depend on the chunks: a stream that the decoder takes at once gives the same records
  and leaves the same bytes pending in every segmentation; one that it refuses at once for a malformed record
  is refused in every segmentation for the same reason.
\<close>

theorem stream_any_segmentation:
  "case stream_feed (concat segs) (new_stream options) of
     (d, vs, None) \<Rightarrow> feed_all stream_feed segs (new_stream options) = (d, vs, None)
   | (d, _, Some (Thrown (CodecError m off))) \<Rightarrow>
       \<exists>d' vs off'. feed_all stream_feed segs (new_stream options) = (d', vs, Some (Thrown (CodecError m off')))
   | _ \<Rightarrow> True"
  using codec_stream.any_segmentation [OF stream_settled_new, of segs options]
    stream_refused_segments [OF stream_settled_new, of segs options]
  by (auto split: prod.split option.split stream_error.split codec_error.split)

theorem stream_any_segmentation_witness:
  "feed_all stream_feed [[0x10], [5, 0x40, 1], [0x61, 0x00]] (new_stream \<lparr>so_mode = Some RawMode, so_compactThreshold = None, so_maxBuffer = Some 16\<rparr>) =
     (new_stream \<lparr>so_mode = Some RawMode, so_compactThreshold = None, so_maxBuffer = Some 16\<rparr>, [Num (Integral 5), Text [0x61], Null], None)"
proof -
  let ?options = "\<lparr>so_mode = Some RawMode, so_compactThreshold = None, so_maxBuffer = Some 16\<rparr>"
  have "stream_feed (concat [[0x10], [5, 0x40, 1], [0x61, 0x00]]) (new_stream ?options) = (new_stream ?options, [Num (Integral 5), Text [0x61], Null], None)"
    by (simp add: stream_feed_def new_stream_def new_reader_def read_records.simps read_record_def tryRead_def readValue_def remaining_def
        read_bind_def read_tag_def read_u8_def known_tags_def read_tagged_def read_varint_def read_return_def read_str_def read_bytes_def
        utf8Decode.simps add_code_point_def units1_def)
  then show ?thesis
    using stream_any_segmentation [of "[[0x10], [5, 0x40, 1], [0x61, 0x00]]" ?options] by simp
qed

section \<open>Streams of whole records\<close>

definition record_wire :: "stream_mode \<Rightarrow> jvalue \<Rightarrow> byte list" where
  "record_wire mode v =
     (case (if mode = FrameMode then encodeFrame v else encode_value v) of Inl e \<Rightarrow> [] | Inr bs \<Rightarrow> bs)"

definition record_ok :: "jvalue \<Rightarrow> bool" where
  "record_ok v \<longleftrightarrow> encodable v \<and> (case encode_value v of Inl e \<Rightarrow> False | Inr bs \<Rightarrow> length bs < 2 ^ 53)"

lemma attempt_wire:
  assumes "record_ok v"
  shows "stream_attempt mode u (record_wire mode v @ tail) = Decoded () (seen_as v) (length (record_wire mode v))"
proof -
  obtain bs where bs: "encode_value v = Inr bs" "decode_value bs = Inr (seen_as v)" and len: "length bs < 2 ^ 53"
      and raw: "readValue (0, bs @ tail) = Inr (seen_as v, length bs, tail)"
    using value_roundtrip [of v 0 tail] assms by (auto simp: record_ok_def)
  show ?thesis
  proof (cases mode)
    case RawMode
    then show ?thesis
      using bs raw by (simp add: stream_attempt_def read_record_def tryRead_cases record_wire_def)
  next
    case FrameMode
    have "read_varint (0, varint (length bs) @ bs @ tail) = Inr (length bs, length (varint (length bs)), bs @ tail)"
      using reads_varint [OF len] by (simp add: reads_def)
    with FrameMode show ?thesis
      using bs by (simp add: stream_attempt_def read_record_def readFrame_cases record_wire_def encodeFrame_def)
  qed
qed

interpretation record_frames: framing "stream_attempt mode" "record_wire mode" "\<lambda>_. record_ok" seen_as "\<lambda>s _. s" for mode
proof (unfold_locales, goal_cases)
  case (1 s g more)
  then show ?case
    by (simp add: attempt_wire)
next
  case (2 s)
  then show ?case
    using stream_settled_new [of "\<lparr>so_mode = Some mode, so_compactThreshold = None, so_maxBuffer = None\<rparr>"]
    by (simp add: stream_settled_def new_stream_def)
qed

text \<open>
  C11: values within the format's bounds (those of the codec's round trip: signed integers of 52 bits, no
  \<open>__proto__\<close> key and so on) and shorter than \<open>2 ^ 53\<close> bytes each, encoded one after the other, framed or not, and
  fed to a new decoder whose \<open>maxBuffer\<close> is at least the length of the whole stream, are delivered value by
  value however the stream is cut, nothing stays pending, and the end of the stream is accepted.
\<close>

theorem records_delivered:
  assumes "list_all record_ok vs" and "concat segs = concat (map (record_wire (sd_mode d)) vs)"
    and "d = new_stream options" and "int (length (concat segs)) \<le> sd_maxBuffer d"
  shows "feed_all stream_feed segs d = (d, map seen_as vs, None) \<and> stream_finish d = (d, [], None)"
proof -
  have pending: "sd_pending d = []"
    by (simp add: assms(3) new_stream_def)
  have unchanged: "d\<lparr>sd_pending := []\<rparr> = d"
    using pending by simp
  have "foldl (\<lambda>s _. s) () vs = ()"
    by simp
  have "stream_drain (sd_mode d) (concat segs) = ((), map seen_as vs, [], None)"
    using record_frames.drain_encode [where s = "()" and gs = vs and mode = "sd_mode d"] assms(1,2) by (simp add: list_all_iff)
  then have whole: "stream_feed (concat segs) d = (d, map seen_as vs, None)"
    using stream_feed_drain [of d "concat segs" "()" "map seen_as vs" "[]" None] assms(4) pending unchanged by simp
  have "feed_all stream_feed segs d = (d, map seen_as vs, None)"
    using codec_stream.any_segmentation [OF stream_settled_new, of segs options] whole unfolding assms(3) by auto
  moreover have "stream_feed [] d = (d, [], None)"
    using stream_feed_drain [of d "[]" "()" "[]" "[]" None] assms(4) pending unchanged
      records.drain_NeedMore [of "sd_mode d" "()" "[]"] stream_settled_new [of options] by (simp add: stream_settled_def assms(3))
  ultimately show ?thesis
    using pending by (simp add: stream_finish_def)
qed

theorem records_delivered_witness:
  "feed_all stream_feed [[2], [0x10, 5, 3, 0x40], [1, 0x61]] (new_stream \<lparr>so_mode = None, so_compactThreshold = None, so_maxBuffer = Some 7\<rparr>) =
     (new_stream \<lparr>so_mode = None, so_compactThreshold = None, so_maxBuffer = Some 7\<rparr>, [Num (Integral 5), Text [0x61]], None)"
proof -
  have plain: "utf8Encode [0x61] = [0x61]"
    by (simp add: utf8Encode_def utf8_encode1_def)
  have "record_ok (Num (Integral 5))" "record_ok (Text [0x61])"
    by (simp_all add: record_ok_def number_encodable_def double_ok_def text_ok_def encode_value_def write_number_def varint.simps
        write_str_def plain)
  moreover have "record_wire FrameMode (Num (Integral 5)) = [2, 0x10, 5]" "record_wire FrameMode (Text [0x61]) = [3, 0x40, 1, 0x61]"
    by (simp_all add: record_wire_def encodeFrame_def encode_value_def write_number_def varint.simps write_str_def plain)
  ultimately show ?thesis
    using records_delivered [where vs = "[Num (Integral 5), Text [0x61]]" and segs = "[[2], [0x10, 5, 3, 0x40], [1, 0x61]]"
        and options = "\<lparr>so_mode = None, so_compactThreshold = None, so_maxBuffer = Some 7\<rparr>", OF _ _ refl]
    by (simp add: new_stream_def)
qed

section \<open>Malformed records\<close>

text \<open>
  A frame that is complete but whose body breaks off is taken for an incomplete one: the decoder waits, and
  whatever follows it delivers no record and reports no error but that of the full buffer.
\<close>

lemma short_frame_waits: "stream_attempt FrameMode u ([1, 0x40] @ tail) = NeedMore"
  by (simp add: stream_attempt_def read_record_def readFrame_cases read_varint_def decode_value_def new_reader_def readValue_def
      remaining_def read_bind_def read_tag_def read_u8_def known_tags_def read_tagged_def read_str_def)

theorem short_frame_stalls:
  assumes "sd_mode d = FrameMode" and "sd_pending d = [1, 0x40] @ waiting"
  shows "snd (feed_all stream_feed segs d) = ([], None)
    \<or> snd (feed_all stream_feed segs d) = ([], Some (StreamOverflow (sd_maxBuffer d)))"
  using assms
proof (induction segs arbitrary: d waiting)
  case (Cons seg segs)
  have drain: "stream_drain (sd_mode d) (sd_pending d @ seg) = ((), [], sd_pending d @ seg, None)"
    using records.drain_NeedMore [OF short_frame_waits, of "()" "waiting @ seg"] Cons.prems by simp
  show ?case
  proof (cases "sd_maxBuffer d < int (length (sd_pending d) + length seg)")
    case True
    then show ?thesis
      by (simp add: stream_feed_def)
  next
    case False
    then have "stream_feed seg d = (d\<lparr>sd_pending := sd_pending d @ seg\<rparr>, [], None)"
      using stream_feed_drain [OF _ drain] by simp
    moreover have "sd_pending (d\<lparr>sd_pending := sd_pending d @ seg\<rparr>) = [1, 0x40] @ (waiting @ seg)" "sd_mode (d\<lparr>sd_pending := sd_pending d @ seg\<rparr>) = FrameMode"
      using Cons.prems by simp_all
    ultimately show ?thesis
      using Cons.IH [of "d\<lparr>sd_pending := sd_pending d @ seg\<rparr>" "waiting @ seg"] by (auto split: prod.splits)
  qed
qed simp

theorem short_frame_stalls_witness:
  "snd (feed_all stream_feed [[2, 0x10, 5]] (new_stream \<lparr>so_mode = None, so_compactThreshold = None, so_maxBuffer = Some 9\<rparr>\<lparr>sd_pending := [1, 0x40]\<rparr>)) = ([], None)"
  using short_frame_stalls [of "new_stream \<lparr>so_mode = None, so_compactThreshold = None, so_maxBuffer = Some 9\<rparr>\<lparr>sd_pending := [1, 0x40]\<rparr>" "[]" "[[2, 0x10, 5]]"]
  by (simp add: new_stream_def stream_feed_def new_reader_def read_records.simps read_record_def readFrame_cases read_varint_def decode_value_def
      readValue_def remaining_def read_bind_def read_tag_def read_u8_def known_tags_def read_tagged_def read_str_def)

text \<open>
  The records read before a malformed one in the same chunk are lost with it, and every later call throws the
  same again: the bytes stay pending.
\<close>

theorem good_records_lost:
  "let d = new_stream \<lparr>so_mode = None, so_compactThreshold = None, so_maxBuffer = None\<rparr>;
       (d', vs, err) = stream_feed [2, 0x10, 5, 1, 0xff] d
   in vs = [] \<and> err = Some (Thrown (CodecError (UnknownTag 0xff) 0)) \<and> stream_feed [] d' = (d', vs, err)"
  by (simp add: new_stream_def stream_feed_def new_reader_def read_records.simps read_record_def readFrame_def remaining_def
      read_varint_def read_bytes_def decode_value_def readValue_def read_bind_def read_tag_def read_u8_def known_tags_def read_tagged_def
      read_return_def)

end
