(* ===== verification/SchemaCodec.thy ===== *)
theory SchemaCodec
  imports BinaryCodec
begin

text \<open>
  Records of a declared shape, \<open>serialization/engine/SchemaCodec.ts\<close>: the fields in their declared order,
  without names. The object to encode is the function that reads its properties (\<open>Undefined\<close> for a missing
  one). Its promises: a record is read back by every codec whose schema starts with the same fields, and a
  record of a newer version is refused.
\<close>

section \<open>Schemas\<close>

datatype field_kind = KString | KNumber | KInteger | KBoolean | KBytes | KAny

record field_spec =
  fs_name :: jstring
  fs_kind :: field_kind
  fs_required :: "bool option"

record schema_def =
  df_name :: jstring
  df_version :: nat
  df_fields :: "field_spec list"

record compiled_field =
  cf_spec :: field_spec
  cf_index :: nat

record schema_codec =
  sc_schemas :: "(jstring, compiled_field list) jmap"
  sc_versions :: "(jstring, nat) jmap"

definition new_schema_codec :: schema_codec where
  "new_schema_codec = \<lparr>sc_schemas = jmap_empty, sc_versions = jmap_empty\<rparr>"

definition schema_compile :: "schema_def \<Rightarrow> schema_codec \<Rightarrow> schema_codec" where
  "schema_compile d c =
     c\<lparr>sc_schemas := jmap_set (df_name d) (map (\<lambda>(i, spec). \<lparr>cf_spec = spec, cf_index = i\<rparr>) (List.enumerate 0 (df_fields d))) (sc_schemas c),
       sc_versions := jmap_set (df_name d) (df_version d) (sc_versions c)\<rparr>"

definition mustSchema :: "jstring \<Rightarrow> schema_codec \<Rightarrow> codec_error + compiled_field list" where
  "mustSchema name c =
     (case jmap_get (sc_schemas c) name of None \<Rightarrow> Inl (CodecError (NotCompiled name) 0) | Some s \<Rightarrow> Inr s)"

definition versionOf :: "jstring \<Rightarrow> schema_codec \<Rightarrow> codec_error + nat" where
  "versionOf name c =
     (case jmap_get (sc_versions c) name of None \<Rightarrow> Inl (CodecError (UnknownSchema name) 0) | Some v \<Rightarrow> Inr v)"

text \<open>A compiled schema has a version: \<open>schema_compile\<close> sets both maps.\<close>

definition compiled_version :: "jstring \<Rightarrow> schema_codec \<Rightarrow> nat" where
  "compiled_version name c = the (jmap_get (sc_versions c) name)"

section \<open>Encoding\<close>

definition type_of :: "jvalue \<Rightarrow> jstring" where
  "type_of v = (case v of
     Undefined \<Rightarrow> js ''undefined'' | Boolean _ \<Rightarrow> js ''boolean'' | Num _ \<Rightarrow> js ''number'' | BigInt _ \<Rightarrow> js ''bigint''
   | Text _ \<Rightarrow> js ''string'' | OtherType t \<Rightarrow> t | _ \<Rightarrow> js ''object'')"

definition is_integer :: "number \<Rightarrow> bool" where
  "is_integer x \<longleftrightarrow> (case x of Integral _ \<Rightarrow> True | NegativeZero \<Rightarrow> True | _ \<Rightarrow> False)"

definition kind_name :: "field_kind \<Rightarrow> jstring" where
  "kind_name k = (case k of KString \<Rightarrow> js ''string'' | KNumber \<Rightarrow> js ''number'' | KInteger \<Rightarrow> js ''integer''
     | KBoolean \<Rightarrow> js ''boolean'' | KBytes \<Rightarrow> js ''bytes'' | KAny \<Rightarrow> js ''any'')"

definition kind_ok :: "field_kind \<Rightarrow> jvalue \<Rightarrow> bool" where
  "kind_ok k v \<longleftrightarrow>
     k = KAny
   \<or> k = KString \<and> (case v of Text _ \<Rightarrow> True | _ \<Rightarrow> False)
   \<or> k = KNumber \<and> (case v of Num _ \<Rightarrow> True | _ \<Rightarrow> False)
   \<or> k = KInteger \<and> (case v of Num x \<Rightarrow> is_integer x | _ \<Rightarrow> False)
   \<or> k = KBoolean \<and> (case v of Boolean _ \<Rightarrow> True | _ \<Rightarrow> False)
   \<or> k = KBytes \<and> (case v of Blob _ \<Rightarrow> True | _ \<Rightarrow> False)"

definition write_field :: "field_spec \<Rightarrow> (jstring \<Rightarrow> jvalue) \<Rightarrow> codec_error + byte list" where
  "write_field spec obj =
     (let v = obj (fs_name spec) in
      if v = Undefined \<or> v = Null then
        if fs_required spec = Some True \<and> v = Undefined then Inl (CodecError (MissingField (fs_name spec)) 0)
        else Inr [0x00]
      else if \<not> kind_ok (fs_kind spec) v then Inl (CodecError (WrongKind (fs_name spec) (kind_name (fs_kind spec)) (type_of v)) 0)
      else encode_value v)"

definition schema_encode :: "jstring \<Rightarrow> (jstring \<Rightarrow> jvalue) \<Rightarrow> schema_codec \<Rightarrow> codec_error + byte list" where
  "schema_encode name obj c =
     (case mustSchema name c of
        Inl e \<Rightarrow> Inl e
      | Inr fs \<Rightarrow>
          map_sum id (\<lambda>bss. varint (compiled_version name c) @ varint (length fs) @ concat bss)
            (sequence_sum (map (\<lambda>f. write_field (cf_spec f) obj) fs)))"

section \<open>Decoding\<close>

fun read_fields :: "jstring \<Rightarrow> compiled_field list \<Rightarrow> reader \<Rightarrow> (jstring \<times> jvalue) list \<Rightarrow> codec_error + (jstring \<times> jvalue) list" where
  "read_fields name [] r out = Inr out"
| "read_fields name (f # fs) r out =
     (case tryRead r of
        Inl e \<Rightarrow> Inl e
      | Inr (None, r) \<Rightarrow> Inl (CodecError (TruncatedRecord name) (fst r))
      | Inr (Some v, r) \<Rightarrow> read_fields name fs r (obj_set (fs_name (cf_spec f)) v out))"

definition schema_decode :: "jstring \<Rightarrow> byte list \<Rightarrow> schema_codec \<Rightarrow> codec_error + (jstring \<times> jvalue) list" where
  "schema_decode name buf c =
     (case mustSchema name c of
        Inl e \<Rightarrow> Inl e
      | Inr fs \<Rightarrow>
          (case read_varint (new_reader buf) of
             Inl e \<Rightarrow> Inl e
           | Inr (version, r) \<Rightarrow>
               (case read_varint r of
                  Inl e \<Rightarrow> Inl e
                | Inr (count, r) \<Rightarrow>
                    if compiled_version name c < version
                    then Inl (CodecError (NewerVersion name version (compiled_version name c)) (fst r))
                    else read_fields name (take (min count (length fs)) fs) r [])))"

section \<open>Reading back\<close>

text \<open>What a field of the object is read back as.\<close>

definition field_seen :: "(jstring \<Rightarrow> jvalue) \<Rightarrow> field_spec \<Rightarrow> jvalue" where
  "field_seen obj spec = (let v = obj (fs_name spec) in if v = Undefined then Null else seen_as v)"

lemma compiled_schema:
  "mustSchema (df_name d) (schema_compile d c) = Inr (map (\<lambda>(i, spec). \<lparr>cf_spec = spec, cf_index = i\<rparr>) (List.enumerate 0 (df_fields d)))"
  "compiled_version (df_name d) (schema_compile d c) = df_version d"
  by (simp_all add: mustSchema_def compiled_version_def schema_compile_def)

lemma compiled_specs:
  "map cf_spec (map (\<lambda>(i, spec). \<lparr>cf_spec = spec, cf_index = i\<rparr>) (List.enumerate n fs)) = fs"
  by (induction fs arbitrary: n) simp_all

lemma field_written:
  assumes "write_field spec obj = Inr bs" and "obj (fs_name spec) = Undefined \<or> encodable (obj (fs_name spec))"
  shows "readValue (pos, bs @ rest) = Inr (field_seen obj spec, pos + length bs, rest)"
proof (cases "obj (fs_name spec) = Undefined \<or> obj (fs_name spec) = Null")
  case True
  then have "bs = [TAG_NULL]" "field_seen obj spec = Null"
    using assms(1) by (auto simp: write_field_def field_seen_def Let_def split: if_splits)
  then show ?thesis
    by (simp add: readValue_def remaining_def read_bind_def read_tag_def read_u8_def known_tags_def read_tagged_def read_return_def)
next
  case False
  then have "encode_value (obj (fs_name spec)) = Inr bs" "field_seen obj spec = seen_as (obj (fs_name spec))"
    using assms(1) by (auto simp: write_field_def field_seen_def Let_def split: if_splits)
  then show ?thesis
    using value_roundtrip [of "obj (fs_name spec)" pos rest] assms(2) False by auto
qed

lemma fields_read:
  assumes "sequence_sum (map (\<lambda>f. write_field f obj) specs) = Inr bss"
    and "\<forall>f \<in> set specs. obj (fs_name f) = Undefined \<or> encodable (obj (fs_name f))"
    and "map (fs_name \<circ> cf_spec) fs = map fs_name (take (length fs) specs)" and "length fs \<le> length specs"
  shows "read_fields name fs (pos, concat bss @ rest) out =
     Inr (foldl (\<lambda>out (k, v). obj_set k v out) out (map (\<lambda>f. (fs_name f, field_seen obj f)) (take (length fs) specs)))"
  using assms
proof (induction fs arbitrary: specs bss pos out)
  case (Cons f fs)
  then obtain spec specs' where specs: "specs = spec # specs'"
    by (cases specs) auto
  then obtain bs bss' where bs: "write_field spec obj = Inr bs" "sequence_sum (map (\<lambda>f. write_field f obj) specs') = Inr bss'" "bss = bs # bss'"
    using Cons.prems(1) specs
    by (cases "write_field spec obj"; cases "sequence_sum (map (\<lambda>f. write_field f obj) specs')") auto
  have "tryRead (pos, bs @ concat bss' @ rest) = Inr (Some (field_seen obj spec), pos + length bs, concat bss' @ rest)"
    using field_written [OF bs(1), of pos "concat bss' @ rest"] Cons.prems(2) specs by (simp add: tryRead_def)
  with Cons.IH [OF bs(2)] Cons.prems specs bs(3) show ?case
    by simp
qed simp

text \<open>
  C31: a record whose fields are each missing or within the format's bounds (those of the codec's round trip:
  signed integers of 52 bits, no \<open>__proto__\<close> key and so on), written under one schema, is read under any schema
  of that name that is at least as new and names the same fields as far as both go: the fields they share come
  back, in order, with the format's conversions; what the reader does not know is ignored. Under the same schema
  all fields come back. The shared names are distinct, in the language's own order of keys, and none is
  \<open>__proto__\<close>; the writer's version and its number of fields are below \<open>2 ^ 53\<close>.
\<close>

theorem schema_evolution_roundtrip:
  assumes "schema_encode (df_name d) obj (schema_compile d c) = Inr bs"
    and "df_name d' = df_name d" and "df_version d \<le> df_version d'" and "df_version d < 2 ^ 53" and "length (df_fields d) < 2 ^ 53"
    and "n = min (length (df_fields d)) (length (df_fields d'))"
    and "map fs_name (take n (df_fields d')) = map fs_name (take n (df_fields d))" and "keys_ok (map fs_name (take n (df_fields d)))"
    and "list_all (\<lambda>f. obj (fs_name f) = Undefined \<or> encodable (obj (fs_name f))) (df_fields d)"
  shows "schema_decode (df_name d) (bs @ rest) (schema_compile d' c') =
     Inr (map (\<lambda>f. (fs_name f, field_seen obj f)) (take n (df_fields d)))"
proof -
  let ?fs = "map (\<lambda>(i, spec). \<lparr>cf_spec = spec, cf_index = i\<rparr>) (List.enumerate 0 (df_fields d))"
  let ?fs' = "map (\<lambda>(i, spec). \<lparr>cf_spec = spec, cf_index = i\<rparr>) (List.enumerate 0 (df_fields d'))"
  have "map (\<lambda>f. write_field (cf_spec f) obj) ?fs = map (\<lambda>f. write_field f obj) (map cf_spec ?fs)"
    by simp
  then have writes: "map (\<lambda>f. write_field (cf_spec f) obj) ?fs = map (\<lambda>f. write_field f obj) (df_fields d)"
    unfolding compiled_specs .
  obtain bss where bss: "sequence_sum (map (\<lambda>f. write_field f obj) (df_fields d)) = Inr bss"
      and bs: "bs = varint (df_version d) @ varint (length (df_fields d)) @ concat bss"
    using assms(1) unfolding schema_encode_def compiled_schema sum.case writes
    by (cases "sequence_sum (map (\<lambda>f. write_field f obj) (df_fields d))") auto
  have len: "length (take n ?fs') = n"
    by (simp add: assms(6))
  have names: "map (fs_name \<circ> cf_spec) (take n ?fs') = map fs_name (take n (df_fields d))"
    using assms(7) unfolding map_map [symmetric] take_map [symmetric] compiled_specs by simp
  have "read_fields (df_name d) (take n ?fs') (pos, concat bss @ rest) [] =
      Inr (build_object (map (\<lambda>f. (fs_name f, field_seen obj f)) (take n (df_fields d))))" for pos
    using fields_read [OF bss, where fs = "take n ?fs'" and name = "df_name d" and pos = pos and rest = rest and out = "[]"]
      assms(6,9) names by (simp add: build_object_def len list_all_iff)
  moreover have "build_object (map (\<lambda>f. (fs_name f, field_seen obj f)) (take n (df_fields d))) = map (\<lambda>f. (fs_name f, field_seen obj f)) (take n (df_fields d))"
    using assms(8) by (intro build_object_id) (simp add: comp_def)
  moreover have "read_varint (0, bs @ rest) = Inr (df_version d, length (varint (df_version d)), varint (length (df_fields d)) @ concat bss @ rest)"
    using reads_varint [OF assms(4)] by (simp add: bs reads_def)
  moreover have "read_varint (pos, varint (length (df_fields d)) @ concat bss @ rest) = Inr (length (df_fields d), pos + length (varint (length (df_fields d))), concat bss @ rest)" for pos
    using reads_varint [OF assms(5)] by (simp add: reads_def)
  ultimately show ?thesis
    unfolding schema_decode_def assms(2) [symmetric] compiled_schema
    using assms(2,3,6) by (simp add: new_reader_def)
qed

definition user_schema :: "nat \<Rightarrow> field_spec list \<Rightarrow> schema_def" where
  "user_schema version extra =
     \<lparr>df_name = js ''user'', df_version = version,
      df_fields = [\<lparr>fs_name = js ''id'', fs_kind = KInteger, fs_required = Some True\<rparr>, \<lparr>fs_name = js ''nick'', fs_kind = KString, fs_required = None\<rparr>] @ extra\<rparr>"

theorem schema_evolution_roundtrip_witness:
  "schema_decode (js ''user'') ([1, 2, 0x10, 7, 0x00] @ []) (schema_compile (user_schema 2 [\<lparr>fs_name = js ''age'', fs_kind = KNumber, fs_required = None\<rparr>]) new_schema_codec) =
     Inr [(js ''id'', Num (Integral 7)), (js ''nick'', Null)]"
proof -
  let ?obj = "\<lambda>k. if k = js ''id'' then Num (Integral 7) else Undefined"
  have "schema_encode (js ''user'') ?obj (schema_compile (user_schema 1 []) new_schema_codec) = Inr [1, 2, 0x10, 7, 0x00]"
    by (simp add: schema_encode_def mustSchema_def compiled_version_def schema_compile_def user_schema_def write_field_def Let_def
        kind_ok_def is_integer_def encode_value_def write_number_def varint.simps)
  then show ?thesis
    using schema_evolution_roundtrip [where d = "user_schema 1 []" and obj = ?obj and c = new_schema_codec and c' = new_schema_codec
        and d' = "user_schema 2 [\<lparr>fs_name = js ''age'', fs_kind = KNumber, fs_required = None\<rparr>]" and n = 2 and rest = "[]"
        and bs = "[1, 2, 0x10, 7, 0x00]"]
    by (simp add: user_schema_def field_seen_def Let_def number_encodable_def double_ok_def keys_ok_def comes_before_def is_index_def
        js_def js_char_def)
qed

text \<open>
  A record of a newer version is refused before its fields are looked at.
\<close>

theorem newer_record_refused:
  assumes "schema_encode (df_name d) obj (schema_compile d c) = Inr bs"
    and "df_name d' = df_name d" and "df_version d' < df_version d" and "df_version d < 2 ^ 53" and "length (df_fields d) < 2 ^ 53"
  shows "\<exists>off. schema_decode (df_name d) bs (schema_compile d' c') =
     Inl (CodecError (NewerVersion (df_name d) (df_version d) (df_version d')) off)"
proof -
  obtain body where bs: "bs = varint (df_version d) @ varint (length (df_fields d)) @ body"
    using assms(1) unfolding schema_encode_def compiled_schema sum.case by (auto simp: map_sum_def split: sum.splits)
  have "read_varint (0, bs) = Inr (df_version d, length (varint (df_version d)), varint (length (df_fields d)) @ body)"
    using reads_varint [OF assms(4)] by (simp add: bs reads_def)
  moreover have "read_varint (pos, varint (length (df_fields d)) @ body) = Inr (length (df_fields d), pos + length (varint (length (df_fields d))), body)" for pos
    using reads_varint [OF assms(5)] by (simp add: reads_def)
  ultimately show ?thesis
    unfolding schema_decode_def assms(2) [symmetric] compiled_schema
    using assms(2,3) by (simp add: new_reader_def)
qed

theorem newer_record_refused_witness:
  "\<exists>off. schema_decode (js ''user'') [2, 2, 0x10, 7, 0x00] (schema_compile (user_schema 1 []) new_schema_codec) =
     Inl (CodecError (NewerVersion (js ''user'') 2 1) off)"
proof -
  let ?obj = "\<lambda>k. if k = js ''id'' then Num (Integral 7) else Undefined"
  have "schema_encode (js ''user'') ?obj (schema_compile (user_schema 2 []) new_schema_codec) = Inr [2, 2, 0x10, 7, 0x00]"
    by (simp add: schema_encode_def mustSchema_def compiled_version_def schema_compile_def user_schema_def write_field_def Let_def
        kind_ok_def is_integer_def encode_value_def write_number_def varint.simps)
  then show ?thesis
    using newer_record_refused [where d = "user_schema 2 []" and obj = ?obj and c = new_schema_codec and c' = new_schema_codec
        and d' = "user_schema 1 []" and bs = "[2, 2, 0x10, 7, 0x00]"]
    by (simp add: user_schema_def)
qed

text \<open>What a schema declares, read off the declaration: the values of a kind, and the values a field may have.\<close>

inductive of_kind :: "field_kind \<Rightarrow> jvalue \<Rightarrow> bool" where
  of_any: "v \<noteq> Undefined \<Longrightarrow> of_kind KAny v"
| of_text: "of_kind KString (Text s)"
| of_number: "of_kind KNumber (Num x)"
| of_integer: "of_kind KInteger (Num (Integral n))"
| of_zero: "of_kind KInteger (Num NegativeZero)"
| of_truth: "of_kind KBoolean (Boolean b)"
| of_bytes: "of_kind KBytes (Blob bs)"

inductive fits :: "field_spec \<Rightarrow> jvalue \<Rightarrow> bool" where
  absent: "fs_required f \<noteq> Some True \<Longrightarrow> fits f Undefined"
| null: "fits f Null"
| typed: "of_kind (fs_kind f) v \<Longrightarrow> fits f v"

inductive_simps of_kind_simps: "of_kind KAny v" "of_kind KString v" "of_kind KNumber v" "of_kind KInteger v" "of_kind KBoolean v" "of_kind KBytes v"

lemma kind_ok_of_kind: "v \<noteq> Undefined \<Longrightarrow> kind_ok k v = of_kind k v"
  by (cases k) (auto simp: kind_ok_def is_integer_def of_kind_simps split: jvalue.splits number.splits)

lemma write_field_fits:
  assumes "obj (fs_name f) = Undefined \<or> encodable (obj (fs_name f))"
  shows "fits f (obj (fs_name f)) \<Longrightarrow> \<exists>bs. write_field f obj = Inr bs"
    and "\<not> fits f (obj (fs_name f)) \<Longrightarrow> write_field f obj = Inl (CodecError (if obj (fs_name f) = Undefined then MissingField (fs_name f)
       else WrongKind (fs_name f) (kind_name (fs_kind f)) (type_of (obj (fs_name f)))) 0)"
proof -
  let ?v = "obj (fs_name f)"
  have undef: "\<not> of_kind (fs_kind f) Undefined"
    by (cases "fs_kind f") (simp_all add: of_kind_simps)
  have encoded: "?v \<noteq> Undefined \<Longrightarrow> \<exists>bs. encode_value ?v = Inr bs"
    using assms writes_value [of ?v] by (auto simp: writes_def encode_value_def)
  show "fits f ?v \<Longrightarrow> \<exists>bs. write_field f obj = Inr bs"
    using undef encoded by (auto simp: write_field_def Let_def kind_ok_of_kind fits.simps)
  show "\<not> fits f ?v \<Longrightarrow> write_field f obj = Inl (CodecError (if ?v = Undefined then MissingField (fs_name f)
       else WrongKind (fs_name f) (kind_name (fs_kind f)) (type_of ?v)) 0)"
    by (auto simp: write_field_def Let_def kind_ok_of_kind fits.simps)
qed

definition first_misfit :: "(jstring \<Rightarrow> jvalue) \<Rightarrow> field_spec list \<Rightarrow> codec_error \<Rightarrow> bool" where
  "first_misfit obj fs e \<longleftrightarrow> (\<exists>before f after. fs = before @ f # after
     \<and> list_all (\<lambda>f. fits f (obj (fs_name f))) before \<and> \<not> fits f (obj (fs_name f))
     \<and> e = CodecError (if obj (fs_name f) = Undefined then MissingField (fs_name f)
         else WrongKind (fs_name f) (kind_name (fs_kind f)) (type_of (obj (fs_name f)))) 0)"

lemma first_misfit_here:
  "\<not> fits f (obj (fs_name f)) \<Longrightarrow> first_misfit obj (f # fs)
     (CodecError (if obj (fs_name f) = Undefined then MissingField (fs_name f)
       else WrongKind (fs_name f) (kind_name (fs_kind f)) (type_of (obj (fs_name f)))) 0)"
  unfolding first_misfit_def by (rule exI [of _ "[]"]) auto

lemma first_misfit_later: "fits g (obj (fs_name g)) \<Longrightarrow> first_misfit obj fs e \<Longrightarrow> first_misfit obj (g # fs) e"
  unfolding first_misfit_def
proof (elim exE conjE)
  fix pre f post
  assume "fits g (obj (fs_name g))" "fs = pre @ f # post" "list_all (\<lambda>f. fits f (obj (fs_name f))) pre" and f: "\<not> fits f (obj (fs_name f))"
    "e = CodecError (if obj (fs_name f) = Undefined then MissingField (fs_name f)
         else WrongKind (fs_name f) (kind_name (fs_kind f)) (type_of (obj (fs_name f)))) 0"
  then have "g # fs = (g # pre) @ f # post" "list_all (\<lambda>f. fits f (obj (fs_name f))) (g # pre)"
    by simp_all
  with f show "\<exists>before f after. g # fs = before @ f # after \<and> list_all (\<lambda>f. fits f (obj (fs_name f))) before
     \<and> \<not> fits f (obj (fs_name f)) \<and> e = CodecError (if obj (fs_name f) = Undefined then MissingField (fs_name f)
         else WrongKind (fs_name f) (kind_name (fs_kind f)) (type_of (obj (fs_name f)))) 0"
    by blast
qed

text \<open>
  C39: the declared types are checked exactly: when every value that a schema's fields name can be written at all (a missing one, or
  one with the properties of \<open>encodable\<close>), a record is encoded only when every field has a value of its declared kind,
  null, or, where it is not required, no value; a record that is refused is refused for the first field that has not, and the
  error names that field, and, unless its value is missing, the kind expected and the type found.
\<close>

theorem encoded_record_typed:
  assumes "list_all (\<lambda>f. obj (fs_name f) = Undefined \<or> encodable (obj (fs_name f))) (df_fields d)"
  shows "case schema_encode (df_name d) obj (schema_compile d c) of
      Inr bs \<Rightarrow> list_all (\<lambda>f. fits f (obj (fs_name f))) (df_fields d)
    | Inl e \<Rightarrow> first_misfit obj (df_fields d) e"
proof -
  let ?fs = "map (\<lambda>(i, spec). \<lparr>cf_spec = spec, cf_index = i\<rparr>) (List.enumerate 0 (df_fields d))"
  have "map (\<lambda>f. write_field (cf_spec f) obj) ?fs = map (\<lambda>f. write_field f obj) (map cf_spec ?fs)"
    by simp
  then have writes: "map (\<lambda>f. write_field (cf_spec f) obj) ?fs = map (\<lambda>f. write_field f obj) (df_fields d)"
    unfolding compiled_specs .
  have "case sequence_sum (map (\<lambda>f. write_field f obj) fs) of
      Inr bss \<Rightarrow> list_all (\<lambda>f. fits f (obj (fs_name f))) fs
    | Inl e \<Rightarrow> first_misfit obj fs e"
    if "list_all (\<lambda>f. obj (fs_name f) = Undefined \<or> encodable (obj (fs_name f))) fs" for fs
    using that
  proof (induction fs)
    case (Cons g fs)
    show ?case
    proof (cases "fits g (obj (fs_name g))")
      case True
      then obtain b where "write_field g obj = Inr b"
        using write_field_fits(1) [of obj g] Cons.prems by auto
      then show ?thesis
        using Cons True first_misfit_later [of g obj fs]
        by (cases "sequence_sum (map (\<lambda>f. write_field f obj) fs)") simp_all
    next
      case False
      then show ?thesis
        using write_field_fits(2) [of obj g] first_misfit_here [of g obj fs] Cons.prems by simp
    qed
  qed simp
  from this [OF assms] show ?thesis
    unfolding schema_encode_def compiled_schema sum.case writes by (cases "sequence_sum (map (\<lambda>f. write_field f obj) (df_fields d))") simp_all
qed

theorem encoded_record_typed_witness:
  "list_all (\<lambda>f. fits f (if fs_name f = js ''id'' then Num (Integral 7) else Undefined)) (df_fields (user_schema 1 []))"
proof -
  let ?obj = "\<lambda>k. if k = js ''id'' then Num (Integral 7) else Undefined"
  have enc: "schema_encode (df_name (user_schema 1 [])) ?obj (schema_compile (user_schema 1 []) new_schema_codec) = Inr [1, 2, 0x10, 7, 0x00]"
    by (simp add: schema_encode_def mustSchema_def compiled_version_def schema_compile_def user_schema_def write_field_def Let_def
        kind_ok_def is_integer_def encode_value_def write_number_def varint.simps)
  have "list_all (\<lambda>f. ?obj (fs_name f) = Undefined \<or> encodable (?obj (fs_name f))) (df_fields (user_schema 1 []))"
    by (simp add: user_schema_def number_encodable_def double_ok_def)
  from encoded_record_typed [OF this, of new_schema_codec, unfolded enc sum.case] show ?thesis .
qed

text \<open>
  An absent optional field is read back as null, not as a missing one.
\<close>

theorem absent_field_becomes_null:
  "schema_decode (js ''user'') [1, 2, 0x10, 7, 0x00] (schema_compile (user_schema 1 []) new_schema_codec) =
     Inr [(js ''id'', Num (Integral 7)), (js ''nick'', Null)]"
  by (simp add: schema_decode_def mustSchema_def compiled_version_def schema_compile_def user_schema_def new_reader_def read_varint_def
      tryRead_def readValue_def remaining_def read_bind_def read_tag_def read_u8_def known_tags_def read_tagged_def read_return_def
      obj_set_def comes_before_def is_index_def js_def js_char_def)

end
