(* ===== verification/Envelope.thy ===== *)
theory Envelope
  imports ByteCodec
begin

text \<open>
  The versioned envelope of a payload and its checksum, \<open>serialization/engine/Envelope.ts\<close>. Its promises: what
  was wrapped is unwrapped, the table-driven checksum is the bitwise CRC-32, and an error confined to four
  consecutive bytes of the payload is detected.
\<close>

section \<open>The checksum\<close>

definition crc_bit :: "32 word \<Rightarrow> 32 word" where
  "crc_bit c = (if c AND 1 \<noteq> 0 then 0xedb88320 XOR drop_bit 1 c else drop_bit 1 c)"

definition buildCrcTable :: "32 word list" where
  "buildCrcTable = map (\<lambda>i. (crc_bit ^^ 8) (word_of_nat i)) [0..<256]"

definition crc_byte :: "32 word \<Rightarrow> byte \<Rightarrow> 32 word" where
  "crc_byte crc b = buildCrcTable ! unat ((crc XOR ucast b) AND 0xff) XOR drop_bit 8 crc"

definition crc32 :: "byte list \<Rightarrow> 32 word" where
  "crc32 bytes = foldl crc_byte 0xffffffff bytes XOR 0xffffffff"

section \<open>The envelope\<close>

definition ENVELOPE_MAGIC :: nat where "ENVELOPE_MAGIC = 0x5343"
definition ENVELOPE_VERSION :: nat where "ENVELOPE_VERSION = 1"

datatype content_type = BINARY_CODEC | SCHEMA_CODEC | JSON_UTF8

definition content_type_id :: "content_type \<Rightarrow> nat" where
  "content_type_id t = (case t of BINARY_CODEC \<Rightarrow> 1 | SCHEMA_CODEC \<Rightarrow> 2 | JSON_UTF8 \<Rightarrow> 3)"

text \<open>The content type of an unwrapped envelope is the number that was read.\<close>

record envelope =
  ev_codecVersion :: nat
  ev_contentType :: nat
  ev_payload :: "byte list"

datatype envelope_error =
    BadMagic nat
  | UnsupportedVersion nat nat
  | TruncatedEnvelope nat nat
  | CrcMismatch "32 word" "32 word"
  | EnvelopeThrown codec_error

definition wrap :: "nat \<Rightarrow> byte list \<Rightarrow> nat \<Rightarrow> byte list" where
  "wrap contentType payload codecVersion =
     write_u16 ENVELOPE_MAGIC @ write_u8 codecVersion @ varint contentType @ write_u8 0
     @ varint (length payload) @ payload @ write_u32 (crc32 payload)"

definition env_read :: "'a read \<Rightarrow> reader \<Rightarrow> ('a \<Rightarrow> reader \<Rightarrow> envelope_error + 'b) \<Rightarrow> envelope_error + 'b" where
  "env_read f r k = (case f r of Inl e \<Rightarrow> Inl (EnvelopeThrown e) | Inr (v, r) \<Rightarrow> k v r)"

definition unwrap :: "byte list \<Rightarrow> nat \<Rightarrow> envelope_error + envelope" where
  "unwrap buf minVersion =
     env_read read_u16 (new_reader buf) (\<lambda>magic r.
       if magic \<noteq> ENVELOPE_MAGIC then Inl (BadMagic magic)
       else env_read read_u8 r (\<lambda>version r.
         let codecVersion = unat version in
         if codecVersion < minVersion \<or> ENVELOPE_VERSION < codecVersion then Inl (UnsupportedVersion codecVersion minVersion)
         else env_read read_varint r (\<lambda>contentType r. env_read read_u8 r (\<lambda>flags r. env_read read_varint r (\<lambda>len r.
           if remaining r < len + 4 then Inl (TruncatedEnvelope (len + 4) (remaining r))
           else env_read (read_bytes len) r (\<lambda>payload r. env_read read_u32 r (\<lambda>expectedCrc r.
             let actualCrc = crc32 payload in
             if expectedCrc \<noteq> actualCrc then Inl (CrcMismatch expectedCrc actualCrc)
             else Inr \<lparr>ev_codecVersion = codecVersion, ev_contentType = contentType, ev_payload = payload\<rparr>)))))))"

section \<open>The table is the bitwise division\<close>

lemma xor_cancel: "x XOR k = y XOR k \<Longrightarrow> x = y" for x y k :: "32 word"
proof -
  assume "x XOR k = y XOR k"
  then have "(x XOR k) XOR k = (y XOR k) XOR k"
    by simp
  then show ?thesis
    by (simp add: xor.assoc)
qed

lemma crc_bit_eq: "crc_bit c = (if bit c 0 then 0xedb88320 XOR drop_bit 1 c else drop_bit 1 c)"
proof -
  have "(c AND 1 \<noteq> 0) = bit c 0"
    by (simp add: bit_0 and_one_eq odd_iff_mod_2_eq_one)
  then show ?thesis
    unfolding crc_bit_def by (simp only:)
qed

lemma crc_bit_xor: "crc_bit (x XOR y) = crc_bit x XOR crc_bit y"
  by (cases "bit x 0"; cases "bit y 0") (simp_all add: crc_bit_eq bit_xor_iff ac_simps xor.left_commute del: bit_0)

lemma crc_bits_xor: "(crc_bit ^^ n) (x XOR y) = (crc_bit ^^ n) x XOR (crc_bit ^^ n) y"
  by (induction n arbitrary: x y) (simp_all add: crc_bit_xor funpow_swap1)

lemma crc_bit_zero: "crc_bit z = 0 \<Longrightarrow> z = 0"
proof -
  assume zero: "crc_bit z = 0"
  show ?thesis
  proof (cases "bit z 0")
    case True
    then have "bit (0xedb88320 XOR drop_bit 1 z) 31 = bit (0 :: 32 word) 31"
      using zero by (simp add: crc_bit_eq del: bit_0)
    moreover have "bit (0xedb88320 :: 32 word) 31"
      by (simp add: bit_numeral_rec)
    moreover have "\<not> bit z 32"
      using bit_imp_le_length by fastforce
    ultimately show ?thesis
      by (simp add: bit_simps)
  next
    case False
    then have "drop_bit 1 z = 0"
      using zero by (simp add: crc_bit_eq del: bit_0)
    show ?thesis
    proof (rule bit_word_eqI)
      fix n
      have "bit z (Suc m) = bit (drop_bit 1 z) m" for m
        by (simp add: bit_simps)
      then show "bit z n = bit 0 n"
        using False \<open>drop_bit 1 z = 0\<close> by (cases n) simp_all
    qed
  qed
qed

lemma crc_bits_inj: "(crc_bit ^^ n) x = (crc_bit ^^ n) y \<Longrightarrow> x = y"
proof (induction n arbitrary: x y)
  case (Suc n)
  then have "(crc_bit ^^ n) (crc_bit x) = (crc_bit ^^ n) (crc_bit y)"
    by (simp add: funpow_swap1)
  then have "crc_bit x = crc_bit y"
    by (rule Suc.IH)
  then have "crc_bit (x XOR y) = 0"
    by (simp add: crc_bit_xor)
  then have "x XOR y = y XOR y"
    using crc_bit_zero [of "x XOR y"] by simp
  then show ?case
    by (rule xor_cancel)
qed simp

lemma crc_bits_push:
  assumes "\<And>i. 24 \<le> i \<Longrightarrow> \<not> bit z i" and "n \<le> 8"
  shows "(crc_bit ^^ n) (push_bit n z) = z"
  using assms(2)
proof (induction n)
  case (Suc n)
  have "\<not> bit (push_bit (Suc n) z) 0"
    by (simp only: bit_push_bit_iff) simp
  moreover have "drop_bit 1 (push_bit m z) = push_bit n z" if m: "m = Suc n" for m
  proof (rule bit_word_eqI)
    fix i
    assume "i < LENGTH(32)"
    have "bit (drop_bit 1 (push_bit m z)) i \<longleftrightarrow> m \<le> Suc i \<and> Suc i < 32 \<and> bit z (Suc i - m)"
      by (auto simp: bit_simps)
    also have "\<dots> \<longleftrightarrow> n \<le> i \<and> Suc i < 32 \<and> bit z (i - n)"
      by (simp add: m)
    also have "\<dots> \<longleftrightarrow> n \<le> i \<and> i < 32 \<and> bit z (i - n)"
      using assms(1) [of "i - n"] Suc.prems by (cases "24 \<le> i - n") auto
    finally show "bit (drop_bit 1 (push_bit m z)) i = bit (push_bit n z) i"
      by (auto simp: bit_simps)
  qed
  ultimately have "crc_bit (push_bit (Suc n) z) = push_bit n z"
    by (simp only: crc_bit_eq if_False)
  with Suc show ?case
    by (simp add: funpow_swap1)
qed simp

lemma crc_byte_bits: "crc_byte c b = (crc_bit ^^ 8) (c XOR ucast b)"
proof -
  define x where "x = c XOR ucast b"
  have low: "unat (x AND 0xff) < 256"
  proof -
    have "x AND 0xff \<le> 0xff"
      by (rule word_and_le1)
    then show ?thesis
      by (simp add: word_le_nat_alt)
  qed
  have high: "drop_bit 8 x = drop_bit 8 c"
    by (rule bit_word_eqI) (auto simp: x_def bit_simps dest: bit_imp_le_length)
  have "x = (x AND mask k) XOR push_bit k (drop_bit k x)" for k
    by (rule bit_word_eqI) (auto simp: bit_simps)
  from this [of 8] have split: "x = (x AND 0xff) XOR push_bit 8 (drop_bit 8 x)"
    by (simp add: mask_eq_exp_minus_1)
  have "(crc_bit ^^ 8) (push_bit 8 (drop_bit 8 x)) = drop_bit 8 x"
    by (rule crc_bits_push) (auto simp: bit_simps dest: bit_imp_le_length)
  then have "(crc_bit ^^ 8) x = (crc_bit ^^ 8) (x AND 0xff) XOR drop_bit 8 x"
    by (subst split) (simp only: crc_bits_xor)
  moreover have "buildCrcTable ! unat (x AND 0xff) = (crc_bit ^^ 8) (x AND 0xff)"
    using low by (simp add: buildCrcTable_def)
  ultimately show ?thesis
    by (simp add: crc_byte_def x_def [symmetric] high)
qed

definition crc_bitwise :: "byte list \<Rightarrow> 32 word" where
  "crc_bitwise bytes = foldl (\<lambda>c b. (crc_bit ^^ 8) (c XOR ucast b)) 0xffffffff bytes XOR 0xffffffff"

text \<open>
  The table-driven checksum is the bitwise division by the CRC-32 polynomial, byte by byte with the low
  bit first.
\<close>

theorem crc_table_equals_bitwise: "crc32 bytes = crc_bitwise bytes"
proof -
  have "crc_byte = (\<lambda>c b. (crc_bit ^^ 8) (c XOR ucast b))"
    by (intro ext) (rule crc_byte_bits)
  then show ?thesis
    by (simp only: crc32_def crc_bitwise_def)
qed

section \<open>Errors in four consecutive bytes\<close>

definition crc_run :: "32 word \<Rightarrow> byte list \<Rightarrow> 32 word" where
  "crc_run c bytes = foldl crc_byte c bytes"

lemma crc_run_append: "crc_run c (xs @ ys) = crc_run (crc_run c xs) ys"
  by (simp add: crc_run_def)

lemma crc32_run: "crc32 bytes = crc_run 0xffffffff bytes XOR 0xffffffff"
  by (simp add: crc32_def crc_run_def)

lemma crc_run_inj: "crc_run c bytes = crc_run d bytes \<Longrightarrow> c = d"
proof (induction bytes arbitrary: c d)
  case (Cons b bytes)
  then have "crc_byte c b = crc_byte d b"
    by (simp add: crc_run_def)
  then have "c XOR ucast b = d XOR ucast b"
    unfolding crc_byte_bits by (rule crc_bits_inj)
  then show ?case
    by (rule xor_cancel)
qed (simp add: crc_run_def)

text \<open>Up to four bytes enter the register at once.\<close>

fun le_word :: "byte list \<Rightarrow> 32 word" where
  "le_word [] = 0"
| "le_word (b # bs) = ucast b XOR push_bit 8 (le_word bs)"

lemma le_word_bound: "bit (le_word bs) i \<Longrightarrow> i < 8 * length bs"
proof (induction bs arbitrary: i)
  case (Cons b bs)
  then consider "bit (ucast b :: 32 word) i" | "8 \<le> i" "bit (le_word bs) (i - 8)"
    by (auto simp: bit_simps)
  then show ?case
  proof cases
    case 1
    then have "i < 8"
      by (auto simp: bit_simps dest: bit_imp_le_length)
    then show ?thesis by simp
  next
    case 2
    with Cons.IH [of "i - 8"] show ?thesis by simp
  qed
qed simp

lemma crc_run_window: "length bs \<le> 4 \<Longrightarrow> crc_run c bs = (crc_bit ^^ (8 * length bs)) (c XOR le_word bs)"
proof (induction bs arbitrary: c)
  case (Cons b bs)
  have fits: "\<not> bit (le_word bs) i" if "24 \<le> i" for i
    using le_word_bound [of bs i] Cons.prems that by auto
  have "crc_run c (b # bs) = crc_run (crc_byte c b) bs"
    by (simp add: crc_run_def)
  also have "\<dots> = (crc_bit ^^ (8 * length bs)) ((crc_bit ^^ 8) (c XOR ucast b) XOR le_word bs)"
    using Cons by (simp add: crc_byte_bits)
  also have "(crc_bit ^^ 8) (c XOR ucast b) XOR le_word bs = (crc_bit ^^ 8) ((c XOR ucast b) XOR push_bit 8 (le_word bs))"
  proof -
    have "(crc_bit ^^ 8) (push_bit 8 (le_word bs)) = le_word bs"
      using fits by (intro crc_bits_push) auto
    then show ?thesis
      by (simp only: crc_bits_xor)
  qed
  also have "(crc_bit ^^ (8 * length bs)) \<dots> = (crc_bit ^^ (8 * length bs + 8)) (c XOR le_word (b # bs))"
    by (simp only: funpow_add comp_def le_word.simps xor.assoc)
  finally show ?case
    by (simp add: add.commute)
qed (simp add: crc_run_def)

lemma le_word_inj: "length xs = length ys \<Longrightarrow> length xs \<le> 4 \<Longrightarrow> le_word xs = le_word ys \<Longrightarrow> xs = ys"
proof (induction xs ys rule: list_induct2)
  case (Cons x xs y ys)
  have low: "ucast (le_word (b # bs)) = b" for b :: byte and bs
    by (rule bit_word_eqI) (auto simp: bit_simps)
  have high: "drop_bit 8 (le_word (b # bs)) = le_word bs" if "length bs \<le> 3" for b bs
  proof (rule bit_word_eqI)
    fix i
    assume "i < LENGTH(32)"
    have "\<not> bit b (8 + i)"
      by (auto dest: bit_imp_le_length)
    moreover have "bit (le_word bs) i \<Longrightarrow> 8 + i < 32"
      using le_word_bound [of bs i] that by auto
    ultimately show "bit (drop_bit 8 (le_word (b # bs))) i = bit (le_word bs) i"
      by (auto simp: bit_simps)
  qed
  have word: "le_word (x # xs) = le_word (y # ys)"
    by (rule Cons.prems(2))
  have "x = y"
    using arg_cong [OF word, of "ucast :: 32 word \<Rightarrow> byte"] unfolding low .
  moreover have "le_word xs = le_word ys"
  proof -
    have short: "length xs \<le> 3" "length ys \<le> 3"
      using Cons.prems(1) Cons.hyps by auto
    show ?thesis
      using arg_cong [OF word, of "drop_bit 8"] unfolding high [OF short(1)] high [OF short(2)] .
  qed
  ultimately show ?case
    using Cons by simp
qed simp

text \<open>
  Two payloads of equal length that differ only in four consecutive bytes have different checksums: every
  such error in a payload is detected.
\<close>

theorem crc_detects_window:
  assumes "length xs = length ys" and "length xs \<le> 4" and "xs \<noteq> ys"
  shows "crc32 (before @ xs @ after) \<noteq> crc32 (before @ ys @ after)"
proof
  assume "crc32 (before @ xs @ after) = crc32 (before @ ys @ after)"
  then have "crc_run 0xffffffff (before @ xs @ after) = crc_run 0xffffffff (before @ ys @ after)"
    unfolding crc32_run by (rule xor_cancel)
  then have "crc_run (crc_run (crc_run 0xffffffff before) xs) after = crc_run (crc_run (crc_run 0xffffffff before) ys) after"
    unfolding crc_run_append .
  then have "crc_run (crc_run 0xffffffff before) xs = crc_run (crc_run 0xffffffff before) ys"
    by (rule crc_run_inj)
  then have "(crc_bit ^^ (8 * length xs)) (crc_run 0xffffffff before XOR le_word xs) = (crc_bit ^^ (8 * length xs)) (crc_run 0xffffffff before XOR le_word ys)"
    using assms(1,2) crc_run_window [of xs] crc_run_window [of ys] by metis
  then have "le_word xs XOR crc_run 0xffffffff before = le_word ys XOR crc_run 0xffffffff before"
    by (subst (1 2) xor.commute) (rule crc_bits_inj)
  then have "le_word xs = le_word ys"
    by (rule xor_cancel)
  with assms le_word_inj show False
    by blast
qed

theorem crc_detects_window_witness: "crc32 ([7, 8] @ [1, 2, 3, 4] @ [9]) \<noteq> crc32 ([7, 8] @ [1, 0, 0, 5] @ [9])"
  by (rule crc_detects_window) simp_all

section \<open>Wrapping and unwrapping\<close>

lemma reads_env: "reads f bs v \<Longrightarrow> env_read f (pos, bs @ rest) k = k v (pos + length bs, rest)"
  by (simp add: env_read_def reads_def)

lemma reads_u8_byte: "v < 256 \<Longrightarrow> reads read_u8 (write_u8 v) (word_of_nat v)"
proof -
  have "(0xff :: byte) = - 1"
    by simp
  then show ?thesis
    unfolding write_u8_def by (simp only: and.right_neutral reads_u8)
qed

lemma unwrap_wire:
  assumes "minVersion \<le> version" and "version \<le> ENVELOPE_VERSION" and "contentType < 2 ^ 53" and "length payload < 2 ^ 53"
  shows "unwrap (write_u16 ENVELOPE_MAGIC @ write_u8 version @ varint contentType @ write_u8 flags @ varint (length payload) @ payload
      @ write_u32 crc @ tail) minVersion =
    (if crc \<noteq> crc32 payload then Inl (CrcMismatch crc (crc32 payload))
     else Inr \<lparr>ev_codecVersion = version, ev_contentType = contentType, ev_payload = payload\<rparr>)"
proof -
  have version: "version < 256" "unat (word_of_nat version :: byte) = version"
    using assms(2) by (simp_all add: ENVELOPE_VERSION_def unat_of_nat take_bit_nat_eq_self)
  have flags: "reads read_u8 (write_u8 flags) (word_of_nat flags AND 0xff)"
    unfolding write_u8_def by (rule reads_u8)
  have magic: "reads read_u16 (write_u16 ENVELOPE_MAGIC) ENVELOPE_MAGIC"
    by (rule reads_u16) (simp add: ENVELOPE_MAGIC_def)
  have "length (write_u32 crc) = 4"
    by (simp add: write_u32_def)
  then show ?thesis
    unfolding unwrap_def new_reader_def Let_def
    using assms(1,2) version
    by (simp add: reads_env [OF magic] reads_env [OF reads_u8_byte [OF version(1)]] reads_env [OF reads_varint [OF assms(3)]]
        reads_env [OF flags] reads_env [OF reads_varint [OF assms(4)]] reads_env [OF reads_bytes] reads_env [OF reads_u32] remaining_def
        del: append_assoc)
qed

text \<open>
  What was wrapped is unwrapped by every reader that supports its version, whatever follows it.
\<close>

theorem envelope_roundtrip:
  assumes "minVersion \<le> version" and "version \<le> ENVELOPE_VERSION" and "contentType < 2 ^ 53" and "length payload < 2 ^ 53"
  shows "unwrap (wrap contentType payload version @ tail) minVersion =
     Inr \<lparr>ev_codecVersion = version, ev_contentType = contentType, ev_payload = payload\<rparr>"
  using unwrap_wire [OF assms, of 0 "crc32 payload" tail] by (simp add: wrap_def)

theorem envelope_roundtrip_witness:
  "unwrap (wrap (content_type_id JSON_UTF8) [0x7b, 0x7d] 1 @ [0xff]) 1 =
     Inr \<lparr>ev_codecVersion = 1, ev_contentType = 3, ev_payload = [0x7b, 0x7d]\<rparr>"
  using envelope_roundtrip [of 1 1 "content_type_id JSON_UTF8" "[0x7b, 0x7d]" "[0xff]"]
  by (simp add: ENVELOPE_VERSION_def content_type_id_def)

text \<open>
  C30: an envelope whose payload was changed in up to four consecutive bytes is refused for its checksum, by
  every reader that supports its version.
\<close>

theorem damaged_envelope_refused:
  assumes "minVersion \<le> version" and "version \<le> ENVELOPE_VERSION" and "contentType < 2 ^ 53"
    and "length (before @ xs @ after) < 2 ^ 53" and "length xs = length ys" and "length xs \<le> 4" and "xs \<noteq> ys"
    and "wire = wrap contentType (before @ xs @ after) version"
    and "off = length wire - 4 - length (before @ xs @ after)"
  shows "unwrap (take off wire @ before @ ys @ after @ drop (off + length (before @ xs @ after)) wire) minVersion =
     Inl (CrcMismatch (crc32 (before @ xs @ after)) (crc32 (before @ ys @ after)))"
proof -
  let ?head = "write_u16 ENVELOPE_MAGIC @ write_u8 version @ varint contentType @ write_u8 0 @ varint (length (before @ xs @ after))"
  have wire: "wire = ?head @ (before @ xs @ after) @ write_u32 (crc32 (before @ xs @ after))"
    by (simp add: assms(8) wrap_def)
  have "length (write_u32 (crc32 (before @ xs @ after))) = 4"
    by (simp add: write_u32_def)
  then have "off = length ?head"
    unfolding assms(9) wire by simp
  then have "take off wire @ before @ ys @ after @ drop (off + length (before @ xs @ after)) wire =
      ?head @ (before @ ys @ after) @ write_u32 (crc32 (before @ xs @ after))"
    unfolding wire by simp
  moreover have "length (before @ xs @ after) = length (before @ ys @ after)"
    using assms(5) by simp
  ultimately show ?thesis
    using unwrap_wire [OF assms(1,2,3), of "before @ ys @ after" 0 "crc32 (before @ xs @ after)" "[]"] assms(4)
      crc_detects_window [OF assms(5,6,7), of before after] by simp
qed

lemma sample_wire: "wrap 1 [1, 2, 3] 1 = [0x53, 0x43, 1, 1, 0, 3, 1, 2, 3] @ write_u32 (crc32 [1, 2, 3])"
  by (simp add: wrap_def write_u16_def write_u8_def ENVELOPE_MAGIC_def varint.simps)

theorem damaged_envelope_refused_witness:
  "unwrap ([0x53, 0x43, 1, 1, 0, 3, 1, 7, 3] @ write_u32 (crc32 [1, 2, 3])) 1 = Inl (CrcMismatch (crc32 [1, 2, 3]) (crc32 [1, 7, 3]))"
proof -
  define crc where "crc = crc32 [1, 2, 3]"
  obtain a b c d where crc: "write_u32 crc = [a, b, c, d]"
    by (simp add: write_u32_def)
  have wire: "wrap 1 ([1] @ [2] @ [3]) 1 = [0x53, 0x43, 1, 1, 0, 3, 1, 2, 3, a, b, c, d]"
    using sample_wire crc unfolding crc_def by simp
  have "6 = length (wrap 1 ([1] @ [2] @ [3]) 1) - 4 - length ([1] @ [2] @ [3 :: byte])"
    unfolding wire by simp
  from damaged_envelope_refused [OF _ _ _ _ _ _ _ refl this, of 1 "[7]"]
  have "unwrap (take 6 (wrap 1 ([1] @ [2] @ [3]) 1) @ [1] @ [7] @ [3] @ drop (6 + length ([1] @ [2] @ [3 :: byte])) (wrap 1 ([1] @ [2] @ [3]) 1)) 1 =
      Inl (CrcMismatch (crc32 ([1] @ [2] @ [3])) (crc32 ([1] @ [7] @ [3])))"
    by (simp add: ENVELOPE_VERSION_def)
  then show ?thesis
    unfolding wire using crc unfolding crc_def by simp
qed

section \<open>What the checksum and the errors do not cover\<close>

text \<open>
  The checksum covers the payload alone: an envelope whose content type was changed is accepted with the other
  type.
\<close>

theorem damaged_header_accepted:
  assumes "length payload < 2 ^ 53"
  shows "unwrap ((wrap (content_type_id BINARY_CODEC) payload 1) [3 := 2]) 1 =
    Inr \<lparr>ev_codecVersion = 1, ev_contentType = content_type_id SCHEMA_CODEC, ev_payload = payload\<rparr>"
proof -
  have "(wrap (content_type_id BINARY_CODEC) payload 1) [3 := 2] = wrap (content_type_id SCHEMA_CODEC) payload 1"
    by (simp add: wrap_def content_type_id_def write_u16_def write_u8_def ENVELOPE_MAGIC_def varint.simps [of "Suc 0"] varint.simps [of 2]
        numeral_3_eq_3)
  then show ?thesis
    using unwrap_wire [of 1 1 "content_type_id SCHEMA_CODEC" payload 0 "crc32 payload" "[]"] assms
    by (simp add: wrap_def ENVELOPE_VERSION_def content_type_id_def)
qed

theorem damaged_header_accepted_witness:
  "unwrap ((wrap (content_type_id BINARY_CODEC) [5] 1) [3 := 2]) 1 = Inr \<lparr>ev_codecVersion = 1, ev_contentType = 2, ev_payload = [5]\<rparr>"
  using damaged_header_accepted [of "[5]"] by (simp add: content_type_id_def)

text \<open>
  An envelope cut short in its header throws the reader's own exception.
\<close>

theorem short_header_range_error: "unwrap [0x53] minVersion = Inl (EnvelopeThrown (RangeError PastEnd))"
  by (simp add: unwrap_def env_read_def read_u16_def read_bind_def read_u8_def new_reader_def)

end
