(* ===== verification/PriorityHeap.thy ===== *)
theory PriorityHeap
  imports JsPrelude "HOL-Library.Multiset"
begin

text \<open>
  The two array heaps of the message queue (\<open>message-queue/engine/PriorityHeap.ts\<close> and
  \<open>message-queue/engine/DelayScheduler.ts\<close>): the same sift loops under two orders, the priority heap on
  (priority, sequence number) and the delay scheduler on (due time, sequence number). The locale \<open>heap_order\<close>
  holds what both rest on: what pushing keeps, and that no operation loses an element. Sifting down looks at
  the slot of the array, not at the element on its way down, so popping does not keep the heap's order; the
  last section shows it.
\<close>

section \<open>The sift loops\<close>

text \<open>
  The loops carry the hole \<open>i\<close> through the array and write the element \<open>e\<close> there at the end;
  \<open>before\<close> is the method \<open>gt\<close> or \<open>lt\<close>.
\<close>

fun siftUp_loop :: "('e \<Rightarrow> 'e \<Rightarrow> bool) \<Rightarrow> 'e \<Rightarrow> nat \<Rightarrow> 'e list \<Rightarrow> nat \<times> 'e list" where
  "siftUp_loop before e i h =
     (if i > 0 then
        let parent = (i - 1) div 2 in
        if \<not> before e (h ! parent) then (i, h)
        else siftUp_loop before e parent (h[i := h ! parent])
      else (i, h))"

declare siftUp_loop.simps [simp del]

definition siftUp :: "('e \<Rightarrow> 'e \<Rightarrow> bool) \<Rightarrow> nat \<Rightarrow> 'e list \<Rightarrow> 'e list" where
  "siftUp before i h = (let e = h ! i; (i, h) = siftUp_loop before e i h in h[i := e])"

definition best_child :: "('e \<Rightarrow> 'e \<Rightarrow> bool) \<Rightarrow> nat \<Rightarrow> 'e list \<Rightarrow> nat" where
  "best_child before i h =
     (let n = length h;
          l = i * 2 + 1;
          r = l + 1;
          best = i;
          best = (if l < n \<and> before (h ! l) (h ! best) then l else best)
      in if r < n \<and> before (h ! r) (h ! best) then r else best)"

lemma best_child_cases:
  "best_child before i h = i \<or> best_child before i h \<in> {i * 2 + 1, i * 2 + 2} \<and> best_child before i h < length h"
  by (auto simp: best_child_def Let_def)

function siftDown_loop :: "('e \<Rightarrow> 'e \<Rightarrow> bool) \<Rightarrow> nat \<Rightarrow> 'e list \<Rightarrow> nat \<times> 'e list" where
  "siftDown_loop before i h =
     (let best = best_child before i h in
      if best = i then (i, h) else siftDown_loop before best (h[i := h ! best]))"
  by pat_completeness auto

termination
  by (relation "measure (\<lambda>(before, i, h). length h - i)") (use best_child_cases in \<open>fastforce+\<close>)

declare siftDown_loop.simps [simp del]

definition siftDown :: "('e \<Rightarrow> 'e \<Rightarrow> bool) \<Rightarrow> nat \<Rightarrow> 'e list \<Rightarrow> 'e list" where
  "siftDown before i h = (let e = h ! i; (i, h) = siftDown_loop before i h in h[i := e])"

text \<open>The steps both heaps share: append and sift up, take the root, take out the element of a place.\<close>

definition heap_push :: "('e \<Rightarrow> 'e \<Rightarrow> bool) \<Rightarrow> 'e \<Rightarrow> 'e list \<Rightarrow> 'e list" where
  "heap_push before x h = siftUp before (length h) (h @ [x])"

definition heap_pop :: "('e \<Rightarrow> 'e \<Rightarrow> bool) \<Rightarrow> 'e list \<Rightarrow> 'e list \<times> 'e option" where
  "heap_pop before h =
     (if h = [] then (h, None)
      else
        let top = h ! 0;
            final = last h;
            h = butlast h
        in (if length h > 0 then siftDown before 0 (h[0 := final]) else h, Some top))"

definition heap_remove :: "('e \<Rightarrow> 'e \<Rightarrow> bool) \<Rightarrow> ('e \<Rightarrow> bool) \<Rightarrow> 'e list \<Rightarrow> 'e list \<times> 'e option" where
  "heap_remove before p h =
     (case find p h of
        None \<Rightarrow> (h, None)
      | Some _ \<Rightarrow>
          let i = length (takeWhile (\<lambda>x. \<not> p x) h);
              removed = h ! i;
              final = last h;
              h = butlast h
          in (if i < length h then siftUp before i (siftDown before i (h[i := final])) else h, Some removed))"

section \<open>What no operation changes: the elements\<close>

lemma mset_hole_moves:
  assumes "i < length h" and "j < length h"
  shows "mset ((h[i := h ! j])[j := e]) = mset (h[i := e])"
proof -
  have "mset ((h[i := h ! j])[j := e]) = add_mset e (mset (h[i := h ! j]) - {#(h[i := h ! j]) ! j#})"
    using assms by (simp add: mset_update)
  also have "(h[i := h ! j]) ! j = h ! j"
    using assms by (cases "i = j") simp_all
  finally show ?thesis
    using assms by (simp add: mset_update)
qed

lemma length_siftUp_loop: "length (snd (siftUp_loop before e i h)) = length h"
  by (induction before e i h rule: siftUp_loop.induct) (subst siftUp_loop.simps, auto simp: Let_def)

lemma length_siftUp [simp]: "length (siftUp before i h) = length h"
  using length_siftUp_loop [of before "h ! i" i h]
  by (cases "siftUp_loop before (h ! i) i h") (simp add: siftUp_def)

lemma mset_siftUp_loop:
  assumes "i < length h" and "siftUp_loop before e i h = (j, h')"
  shows "mset (h'[j := e]) = mset (h[i := e])"
  using assms
proof (induction before e i h rule: siftUp_loop.induct)
  case (1 before e i h)
  show ?case
  proof (cases "i > 0 \<and> before e (h ! ((i - 1) div 2))")
    case True
    then have "siftUp_loop before e ((i - 1) div 2) (h[i := h ! ((i - 1) div 2)]) = (j, h')"
      using "1.prems"(2) by (subst (asm) siftUp_loop.simps) (simp add: Let_def)
    with True "1.prems"(1) 1(1) show ?thesis
      by (simp add: mset_hole_moves)
  next
    case False
    then show ?thesis
      using "1.prems"(2) by (subst (asm) siftUp_loop.simps) (auto simp: Let_def split: if_splits)
  qed
qed

lemma mset_siftUp [simp]: "i < length h \<Longrightarrow> mset (siftUp before i h) = mset h"
  using mset_siftUp_loop [of i h before "h ! i"]
  by (cases "siftUp_loop before (h ! i) i h") (simp add: siftUp_def)

lemma length_siftDown_loop: "length (snd (siftDown_loop before i h)) = length h"
  by (induction before i h rule: siftDown_loop.induct) (subst siftDown_loop.simps, auto simp: Let_def)

lemma length_siftDown [simp]: "length (siftDown before i h) = length h"
  using length_siftDown_loop [of before i h]
  by (cases "siftDown_loop before i h") (simp add: siftDown_def)

lemma mset_siftDown_loop:
  assumes "i < length h" and "siftDown_loop before i h = (j, h')"
  shows "mset (h'[j := e]) = mset (h[i := e])"
  using assms
proof (induction before i h rule: siftDown_loop.induct)
  case (1 before i h)
  let ?b = "best_child before i h"
  show ?case
  proof (cases "?b = i")
    case True
    then show ?thesis
      using "1.prems"(2) by (subst (asm) siftDown_loop.simps) (auto simp: Let_def)
  next
    case False
    then have bound: "?b < length h"
      using best_child_cases [of before i h] by blast
    have "siftDown_loop before ?b (h[i := h ! ?b]) = (j, h')"
      using False "1.prems"(2) by (subst (asm) siftDown_loop.simps) (simp add: Let_def)
    with False bound "1.prems"(1) 1(1) show ?thesis
      by (simp add: mset_hole_moves)
  qed
qed

lemma mset_siftDown [simp]: "i < length h \<Longrightarrow> mset (siftDown before i h) = mset h"
  using mset_siftDown_loop [of i h before _ _ "h ! i"]
  by (cases "siftDown_loop before i h") (simp add: siftDown_def)

lemma mset_heap_push [simp]: "mset (heap_push before x h) = add_mset x (mset h)"
  by (simp add: heap_push_def)

lemma mset_put_last:
  assumes "h \<noteq> []" and "i < length h"
  shows "mset (if i < length (butlast h) then (butlast h)[i := last h] else butlast h) = mset h - {#h ! i#}"
proof -
  have whole: "mset h = add_mset (last h) (mset (butlast h))"
    using assms(1) by (metis append_butlast_last_id mset.simps(1,2) mset_append union_mset_add_mset_right add.right_neutral)
  show ?thesis
  proof (cases "i < length (butlast h)")
    case True
    moreover from this have "h ! i \<in># mset (butlast h)"
      by (metis nth_butlast nth_mem set_mset_mset)
    ultimately show ?thesis
      by (simp add: whole mset_update nth_butlast)
  next
    case False
    then have "i = length h - 1"
      using assms by simp
    then show ?thesis
      using False assms(1) by (simp add: whole last_conv_nth)
  qed
qed

lemma mset_heap_pop:
  assumes "heap_pop before h = (h', Some x)"
  shows "mset h = add_mset x (mset h')"
proof -
  have ne: "h \<noteq> []" and x: "x = h ! 0"
    using assms by (auto simp: heap_pop_def Let_def split: if_splits)
  have "mset h' = mset (if 0 < length (butlast h) then (butlast h)[0 := last h] else butlast h)"
    using assms by (auto simp: heap_pop_def Let_def simp del: length_butlast split: if_splits)
  then have "mset h' = mset h - {#h ! 0#}"
    using mset_put_last [of h 0] ne by simp
  then show ?thesis
    using ne x by simp
qed

lemma heap_pop_None: "heap_pop before h = (h', None) \<Longrightarrow> h = [] \<and> h' = []"
  by (auto simp: heap_pop_def Let_def split: if_splits)

lemma heap_pop_front: "h \<noteq> [] \<Longrightarrow> snd (heap_pop before h) = Some (h ! 0)"
  by (simp add: heap_pop_def Let_def)

lemma length_heap_pop: "heap_pop before h = (h', Some x) \<Longrightarrow> length h = Suc (length h')"
  using mset_heap_pop [of before h h' x] by (metis size_add_mset size_mset)

lemma find_position:
  assumes "find p h = Some y"
  shows "length (takeWhile (\<lambda>x. \<not> p x) h) < length h \<and> p (h ! length (takeWhile (\<lambda>x. \<not> p x) h))"
  using assms by (induction h) (auto split: if_splits)

lemma mset_heap_remove:
  assumes "heap_remove before p h = (h', Some x)"
  shows "mset h = add_mset x (mset h') \<and> p x"
proof -
  let ?i = "length (takeWhile (\<lambda>x. \<not> p x) h)"
  from assms obtain y where "find p h = Some y"
    by (auto simp: heap_remove_def split: option.splits)
  then have i: "?i < length h" and px: "p (h ! ?i)"
    by (simp_all add: find_position)
  then have ne: "h \<noteq> []"
    by auto
  have x: "x = h ! ?i"
    using assms \<open>find p h = Some y\<close> by (auto simp: heap_remove_def Let_def split: if_splits)
  have "mset h' = mset (if ?i < length (butlast h) then (butlast h)[?i := last h] else butlast h)"
    using assms \<open>find p h = Some y\<close>
    by (auto simp: heap_remove_def Let_def simp del: length_butlast split: if_splits)
  then have "mset h' = mset h - {#h ! ?i#}"
    using mset_put_last [OF ne i] by simp
  then show ?thesis
    using i px x by simp
qed

lemma heap_remove_None: "heap_remove before p h = (h', None) \<Longrightarrow> h' = h \<and> (\<forall>x \<in> set h. \<not> p x)"
  by (auto simp: heap_remove_def Let_def find_None_iff split: option.splits if_splits)

section \<open>What pushing keeps: the order\<close>

definition heap_parent :: "nat \<Rightarrow> nat" where
  "heap_parent i = (i - 1) div 2"

definition heap_ordered :: "('e \<Rightarrow> 'e \<Rightarrow> bool) \<Rightarrow> 'e list \<Rightarrow> bool" where
  "heap_ordered before h \<longleftrightarrow> (\<forall>i \<in> {0<..<length h}. \<not> before (h ! i) (h ! heap_parent i))"

text \<open>The order of the array with the hole filled, apart from the pair of the hole and its parent.\<close>

definition ordered_but :: "('e \<Rightarrow> 'e \<Rightarrow> bool) \<Rightarrow> nat \<Rightarrow> 'e list \<Rightarrow> bool" where
  "ordered_but before i h \<longleftrightarrow>
     (\<forall>j \<in> {0<..<length h}. (j \<noteq> i \<longrightarrow> \<not> before (h ! j) (h ! heap_parent j)) \<and>
        (heap_parent j = i \<and> 0 < i \<longrightarrow> \<not> before (h ! j) (h ! heap_parent i)))"

lemma heap_parent_less [simp]: "0 < i \<Longrightarrow> heap_parent i < i"
  by (auto simp: heap_parent_def)

lemma heap_parent_bound [simp]: "0 < i \<Longrightarrow> i < n \<Longrightarrow> heap_parent i < n"
  using heap_parent_less [of i] by (rule less_trans)

lemma heap_parent_neq [simp]: "0 < i \<Longrightarrow> heap_parent i \<noteq> i" "0 < i \<Longrightarrow> i \<noteq> heap_parent i"
  by (auto simp: heap_parent_def)

text \<open>The promises of the two orders: a strict order whose incomparability is transitive.\<close>

locale heap_order =
  fixes before :: "'e \<Rightarrow> 'e \<Rightarrow> bool"
  assumes asym: "before x y \<Longrightarrow> \<not> before y x"
    and negtrans: "\<not> before x y \<Longrightarrow> \<not> before y z \<Longrightarrow> \<not> before x z"
begin

lemma irrefl [simp]: "\<not> before x x"
  using asym by blast

lemma root_first:
  assumes "heap_ordered before h" and "i < length h"
  shows "\<not> before (h ! i) (h ! 0)"
  using assms(2)
proof (induction i rule: less_induct)
  case (less i)
  show ?case
  proof (cases "i = 0")
    case False
    then have "\<not> before (h ! i) (h ! heap_parent i)"
      using assms(1) less.prems by (simp add: heap_ordered_def)
    moreover have "\<not> before (h ! heap_parent i) (h ! 0)"
      using less.IH less.prems False by (meson heap_parent_less less_trans neq0_conv)
    ultimately show ?thesis
      by (rule negtrans)
  qed simp
qed

lemma root_first_mset:
  assumes "heap_ordered before h" and "x \<in># mset h"
  shows "\<not> before x (h ! 0)"
  using assms root_first by (auto simp: in_set_conv_nth)

lemma hole_rises:
  assumes "ordered_but before i (h[i := e])" and "0 < i" and "i < length h" and "before e (h ! heap_parent i)"
  shows "ordered_but before (heap_parent i) ((h[i := h ! heap_parent i])[heap_parent i := e])"
    (is "ordered_but before ?p ?h")
  unfolding ordered_but_def
proof (intro ballI conjI impI)
  fix j
  assume j: "j \<in> {0<..<length ?h}"
  have p: "?p < i" "?p < length h"
    using assms(2,3) heap_parent_less [OF assms(2)] by auto
  have old: "k \<noteq> i \<Longrightarrow> 0 < k \<Longrightarrow> k < length h \<Longrightarrow> \<not> before (h[i := e] ! k) (h[i := e] ! heap_parent k)" for k
    using assms(1) by (simp add: ordered_but_def)
  have under: "heap_parent k = i \<Longrightarrow> 0 < k \<Longrightarrow> k < length h \<Longrightarrow> \<not> before (h[i := e] ! k) (h[i := e] ! ?p)" for k
    using assms(1,2) by (simp add: ordered_but_def)
  have entry: "?h ! k = (if k = ?p then e else if k = i then h ! ?p else h ! k)" if "k < length h" for k
    using that p assms(3) by (auto simp: nth_list_update)
  have jl: "j < length h" "0 < j" "heap_parent j < j" "heap_parent j < length h"
    using j by auto
  show "\<not> before (?h ! j) (?h ! heap_parent j)" if "j \<noteq> ?p"
  proof (cases "j = i")
    case True
    then show ?thesis
      using entry [of i] entry [of ?p] p assms(3,4) asym by auto
  next
    case ji: False
    consider (hole) "heap_parent j = i" | (sibling) "heap_parent j = ?p" "heap_parent j \<noteq> i" | (away) "heap_parent j \<noteq> i" "heap_parent j \<noteq> ?p"
      by blast
    then show ?thesis
    proof cases
      case hole
      then show ?thesis
        using under [of j] entry [of j] entry [of i] jl ji that p assms(3) by auto
    next
      case sibling
      have "\<not> before (h ! j) (h ! ?p)"
        using old [of j] ji jl sibling by simp
      moreover have "\<not> before (h ! ?p) e"
        using asym [OF assms(4)] .
      ultimately have "\<not> before (h ! j) e"
        by (rule negtrans)
      then show ?thesis
        using entry [of j] entry [of ?p] sibling jl ji that p by simp
    next
      case away
      then show ?thesis
        using old [of j] entry [of j] entry [of "heap_parent j"] jl ji that by simp
    qed
  qed
  show "\<not> before (?h ! j) (?h ! heap_parent ?p)" if child: "heap_parent j = ?p \<and> 0 < ?p"
  proof -
    have pp: "heap_parent ?p < ?p" "heap_parent ?p < length h"
      using child p heap_parent_less [of ?p] by auto
    have above: "\<not> before (h ! ?p) (h ! heap_parent ?p)"
      using old [of ?p] child p pp by simp
    have at_pp: "?h ! heap_parent ?p = h ! heap_parent ?p"
      using entry [OF pp(2)] pp p by simp
    show ?thesis
    proof (cases "j = i")
      case True
      then show ?thesis
        using above at_pp entry [of i] p assms(3) by simp
    next
      case False
      have "\<not> before (h ! j) (h ! ?p)"
        using old [of j] False jl child p by simp
      then have "\<not> before (h ! j) (h ! heap_parent ?p)"
        using above by (rule negtrans)
      moreover have "j \<noteq> ?p"
        using jl child by auto
      ultimately show ?thesis
        using at_pp entry [of j] jl False by simp
    qed
  qed
qed

lemma siftUp_loop_ordered:
  assumes "i < length h" and "ordered_but before i (h[i := e])" and "siftUp_loop before e i h = (j, h')"
  shows "heap_ordered before (h'[j := e])"
  using assms
proof (induction i arbitrary: h rule: less_induct)
  case (less i)
  let ?p = "heap_parent i"
  show ?case
  proof (cases "0 < i \<and> before e (h ! ?p)")
    case True
    then have "siftUp_loop before e ?p (h[i := h ! ?p]) = (j, h')"
      using less.prems(3) by (subst (asm) siftUp_loop.simps) (simp add: Let_def heap_parent_def)
    moreover have "?p < i" "?p < length h"
      using True less.prems(1) by simp_all
    ultimately show ?thesis
      using True less.prems less.IH [of ?p "h[i := h ! ?p]"] hole_rises [of i h e] by simp
  next
    case False
    then have jh: "j = i" "h' = h"
      using less.prems(3) by (auto simp: siftUp_loop.simps [of before e i h] Let_def heap_parent_def split: if_splits)
    have "\<not> before (h[i := e] ! i) (h[i := e] ! ?p)" if "0 < i"
      using that False less.prems(1) heap_parent_less [of i] by simp
    then show ?thesis
      using jh less.prems(2) unfolding heap_ordered_def ordered_but_def by (metis greaterThanLessThan_iff)
  qed
qed

lemma heap_push_ordered:
  assumes "heap_ordered before h"
  shows "heap_ordered before (heap_push before x h)"
proof -
  obtain j h' where loop: "siftUp_loop before x (length h) (h @ [x]) = (j, h')"
    by fastforce
  have "ordered_but before (length h) ((h @ [x])[length h := x])"
    using assms unfolding heap_ordered_def ordered_but_def
    by (auto simp: nth_append less_Suc_eq heap_parent_def)
  then have "heap_ordered before (h'[j := x])"
    using siftUp_loop_ordered [OF _ _ loop] by simp
  then show ?thesis
    using loop by (simp add: heap_push_def siftUp_def)
qed

lemma heap_pushes_ordered: "heap_ordered before h \<Longrightarrow> heap_ordered before (fold (heap_push before) xs h)"
  by (induction xs arbitrary: h) (simp_all add: heap_push_ordered)

lemma mset_pushes: "mset (fold (heap_push before) xs h) = mset xs + mset h"
  by (induction xs arbitrary: h) simp_all

text \<open>
  Sifting down compares the children with the slot of the array, which after a move still holds the element
  that moved up: below a place where the order holds it goes down one level at most.
\<close>

lemma siftDown_one_level:
  assumes "\<And>j. j < length h \<Longrightarrow> 0 < j \<Longrightarrow> heap_parent j \<noteq> i \<Longrightarrow> \<not> before (h ! j) (h ! heap_parent j)"
  shows "siftDown before i h =
     (let b = best_child before i h in if b = i then h else (h[i := h ! b])[b := h ! i])"
proof (cases "best_child before i h = i")
  case True
  then show ?thesis
    by (simp add: siftDown_def siftDown_loop.simps [of before i h])
next
  case False
  let ?b = "best_child before i h"
  have b: "?b \<in> {i * 2 + 1, i * 2 + 2}" "?b < length h"
    using False best_child_cases [of before i h] by blast+
  have below: "\<not> before (h[i := h ! ?b] ! j) (h[i := h ! ?b] ! ?b)" if "j \<in> {?b * 2 + 1, ?b * 2 + 2}" "j < length h" for j
  proof -
    have parent: "heap_parent j = ?b"
      using that(1) by (auto simp: heap_parent_def)
    then have "heap_parent j \<noteq> i" "j \<noteq> i" "0 < j"
      using False b(1) that(1) by auto
    then show ?thesis
      using assms [of j] that(2) parent False by simp
  qed
  have "best_child before ?b (h[i := h ! ?b]) = ?b"
    using below by (auto simp: best_child_def [of before ?b] Let_def)
  then show ?thesis
    using False by (simp add: siftDown_def siftDown_loop.simps [of before i h] siftDown_loop.simps [of before ?b] Let_def)
qed

text \<open>After any pushes onto an ordered heap, what comes off first is an element nothing precedes.\<close>

lemma pop_after_pushes:
  assumes "heap_ordered before h" and "xs \<noteq> [] \<or> h \<noteq> []"
  shows "\<exists>h' x. heap_pop before (fold (heap_push before) xs h) = (h', Some x) \<and>
     add_mset x (mset h') = mset xs + mset h \<and> (\<forall>y \<in># mset xs + mset h. \<not> before y x)"
proof -
  let ?g = "fold (heap_push before) xs h"
  have ne: "?g \<noteq> []"
    using assms(2) mset_pushes [of xs h] by auto
  obtain h' where pop: "heap_pop before ?g = (h', Some (?g ! 0))"
    using heap_pop_front [OF ne, of before] by (metis prod.collapse)
  show ?thesis
    using pop mset_heap_pop [OF pop] mset_pushes [of xs h] root_first_mset [OF heap_pushes_ordered [OF assms(1)], of _ xs]
    by (intro exI [of _ h'] exI [of _ "?g ! 0"]) (simp del: union_iff)
qed

end

section \<open>The priority heap\<close>

record 'e heap_entry =
  he_priority :: int
  he_seq :: nat
  he_item :: 'e

definition gt :: "'e heap_entry \<Rightarrow> 'e heap_entry \<Rightarrow> bool" where
  "gt a b = (if he_priority a \<noteq> he_priority b then he_priority a > he_priority b else he_seq a < he_seq b)"

type_synonym 'e priority_heap = "'e heap_entry list"

definition ph_size :: "'e priority_heap \<Rightarrow> nat" where
  "ph_size h = length h"

definition ph_isEmpty :: "'e priority_heap \<Rightarrow> bool" where
  "ph_isEmpty h \<longleftrightarrow> length h = 0"

definition ph_push :: "'e \<Rightarrow> int \<Rightarrow> nat \<Rightarrow> 'e priority_heap \<Rightarrow> 'e priority_heap" where
  "ph_push item priority seq h = heap_push gt \<lparr>he_priority = priority, he_seq = seq, he_item = item\<rparr> h"

definition ph_peek :: "'e priority_heap \<Rightarrow> 'e option" where
  "ph_peek h = (if length h = 0 then None else Some (he_item (h ! 0)))"

definition ph_pop :: "'e priority_heap \<Rightarrow> 'e priority_heap \<times> 'e option" where
  "ph_pop h = (let (h, top) = heap_pop gt h in (h, map_option he_item top))"

definition ph_remove :: "('e \<Rightarrow> bool) \<Rightarrow> 'e priority_heap \<Rightarrow> 'e priority_heap \<times> 'e option" where
  "ph_remove p h = (let (h, removed) = heap_remove gt (\<lambda>e. p (he_item e)) h in (h, map_option he_item removed))"

lemma ph_pop_shorter:
  assumes "ph_pop h = (h', v)" and "h \<noteq> []"
  shows "length h' < length h"
proof -
  have "heap_pop gt h = (h', Some (h ! 0))"
    using assms heap_pop_front [OF assms(2), of gt] by (cases "heap_pop gt h") (simp add: ph_pop_def)
  then show ?thesis
    using length_heap_pop by fastforce
qed

text \<open>\<open>drain\<close> empties the heap it is called on: \<open>pop\<close> is a call on the heap itself.\<close>

function ph_drain :: "'e priority_heap \<Rightarrow> 'e priority_heap \<times> 'e list" where
  "ph_drain h =
     (if length h > 0 then
        let (h', v) = ph_pop h;
            (final, out) = ph_drain h'
        in (final, (case v of Some v \<Rightarrow> v # out | None \<Rightarrow> out))
      else (h, []))"
  by pat_completeness auto

termination
proof (relation "measure length")
  fix h x and h' :: "'e priority_heap" and v
  assume "length h > 0" and "x = ph_pop h" and "(h', v) = x"
  then show "(h', h) \<in> measure length"
    using ph_pop_shorter [of h h' v] by simp
qed simp

declare ph_drain.simps [simp del]

definition ph_toArray :: "'e priority_heap \<Rightarrow> 'e list" where
  "ph_toArray h = map he_item h"

definition ph_clear :: "'e priority_heap \<Rightarrow> 'e priority_heap" where
  "ph_clear h = []"

interpretation pq: heap_order gt
  by unfold_locales (auto simp: gt_def split: if_splits)

lemma ph_push_items: "mset (ph_toArray (ph_push item priority seq h)) = add_mset item (mset (ph_toArray h))"
  by (simp add: ph_toArray_def ph_push_def)

lemma ph_pop_items:
  assumes "ph_pop h = (h', Some item)"
  shows "mset (ph_toArray h) = add_mset item (mset (ph_toArray h'))"
proof -
  obtain top where "heap_pop gt h = (h', Some top)" "he_item top = item"
    using assms by (auto simp: ph_pop_def split: prod.splits)
  from mset_heap_pop [OF this(1)] this(2) show ?thesis
    by (simp add: ph_toArray_def)
qed

lemma ph_pop_None: "ph_pop h = (h', None) \<Longrightarrow> h = [] \<and> h' = []"
  by (auto simp: ph_pop_def dest: heap_pop_None split: prod.splits)

lemma ph_remove_items:
  assumes "ph_remove p h = (h', Some item)"
  shows "mset (ph_toArray h) = add_mset item (mset (ph_toArray h')) \<and> p item"
proof -
  obtain e where "heap_remove gt (\<lambda>e. p (he_item e)) h = (h', Some e)" "he_item e = item"
    using assms by (auto simp: ph_remove_def split: prod.splits)
  from mset_heap_remove [OF this(1)] this(2) show ?thesis
    by (simp add: ph_toArray_def)
qed

lemma ph_remove_None: "ph_remove p h = (h', None) \<Longrightarrow> h' = h \<and> (\<forall>x \<in> set (ph_toArray h). \<not> p x)"
  by (auto simp: ph_remove_def ph_toArray_def dest: heap_remove_None split: prod.splits)

text \<open>
  Of the messages pushed since the heap was last empty, the first one that \<open>pop\<close> returns has the highest
  priority and among those the lowest sequence number, whatever the order of the pushes.
\<close>

theorem first_pop_is_highest:
  assumes "entries \<noteq> []"
  shows "\<exists>h top. heap_pop gt (fold (heap_push gt) entries []) = (h, Some top) \<and>
     add_mset top (mset h) = mset entries \<and> list_all (\<lambda>e. \<not> gt e top) entries"
  using pq.pop_after_pushes [of "[]" entries] assms by (simp add: heap_ordered_def list_all_iff)

text \<open>
  The second message that comes off need not be: after the first pop the heap's order is broken, and here
  priority 6 comes off before priority 7.
\<close>

definition seven_messages :: "nat priority_heap" where
  "seven_messages = fold (\<lambda>p. ph_push (nat p) p (10 - nat p)) [10, 9, 8, 7, 6, 5, 4] []"

lemmas heap_eval = seven_messages_def ph_push_def heap_push_def siftUp_def siftUp_loop.simps heap_pop_def siftDown_def
  siftDown_loop.simps best_child_def ph_pop_def gt_def Let_def

theorem priorities_come_off_out_of_order:
  "snd (ph_drain seven_messages) = [10, 9, 8, 6, 7, 5, 4]"
proof -
  have built: "seven_messages = map (\<lambda>p. \<lparr>he_priority = p, he_seq = 10 - nat p, he_item = nat p\<rparr>) [10, 9, 8, 7, 6, 5, 4]"
    by (simp add: heap_eval)
  show ?thesis
    unfolding built by (simp add: ph_drain.simps heap_eval)
qed

section \<open>The delay scheduler\<close>

record 'e delayed_entry =
  de_dueAt :: int
  de_seq :: nat
  de_item :: 'e

record 'e delay_scheduler =
  ds_heap :: "'e delayed_entry list"
  ds_seq :: nat

definition new_delay_scheduler :: "'e delay_scheduler" where
  "new_delay_scheduler = \<lparr>ds_heap = [], ds_seq = 0\<rparr>"

definition lt :: "'e delayed_entry \<Rightarrow> 'e delayed_entry \<Rightarrow> bool" where
  "lt a b = (if de_dueAt a \<noteq> de_dueAt b then de_dueAt a < de_dueAt b else de_seq a < de_seq b)"

definition ds_size :: "'e delay_scheduler \<Rightarrow> nat" where
  "ds_size s = length (ds_heap s)"

definition schedule_at :: "'e \<Rightarrow> int \<Rightarrow> 'e delay_scheduler \<Rightarrow> 'e delay_scheduler" where
  "schedule_at item dueAt s =
     s\<lparr>ds_heap := heap_push lt \<lparr>de_dueAt = dueAt, de_seq = ds_seq s, de_item = item\<rparr> (ds_heap s), ds_seq := ds_seq s + 1\<rparr>"

definition nextDueAt :: "'e delay_scheduler \<Rightarrow> int option" where
  "nextDueAt s = (if length (ds_heap s) = 0 then None else Some (de_dueAt (ds_heap s ! 0)))"

definition popMin :: "'e delayed_entry list \<Rightarrow> 'e delayed_entry list \<times> 'e delayed_entry option" where
  "popMin h = heap_pop lt h"

lemma popMin_shorter: "popMin h = (h', v) \<Longrightarrow> h \<noteq> [] \<Longrightarrow> length h' < length h"
  using length_heap_pop [of lt h h'] heap_pop_None [of lt h h'] by (cases v) (auto simp: popMin_def)

function collect_loop :: "int \<Rightarrow> 'e delayed_entry list \<Rightarrow> 'e delayed_entry list \<times> 'e list" where
  "collect_loop now h =
     (if length h > 0 \<and> de_dueAt (h ! 0) \<le> now then
        let (h', e) = popMin h;
            (final, out) = collect_loop now h'
        in (final, (case e of Some e \<Rightarrow> de_item e # out | None \<Rightarrow> out))
      else (h, []))"
  by pat_completeness auto

termination
proof (relation "measure (\<lambda>(now, h). length h)")
  fix now :: int and h x and h' :: "'e delayed_entry list" and e
  assume "length h > 0 \<and> de_dueAt (h ! 0) \<le> now" and "x = popMin h" and "(h', e) = x"
  then show "((now, h'), (now, h)) \<in> measure (\<lambda>(now, h). length h)"
    using popMin_shorter [of h h' e] by simp
qed simp

declare collect_loop.simps [simp del]

definition collectDue :: "int \<Rightarrow> 'e delay_scheduler \<Rightarrow> 'e delay_scheduler \<times> 'e list" where
  "collectDue now s = (let (h, out) = collect_loop now (ds_heap s) in (s\<lparr>ds_heap := h\<rparr>, out))"

definition ds_peek :: "'e delay_scheduler \<Rightarrow> 'e option" where
  "ds_peek s = (case ds_heap s of [] \<Rightarrow> None | e # _ \<Rightarrow> Some (de_item e))"

definition cancel :: "('e \<Rightarrow> bool) \<Rightarrow> 'e delay_scheduler \<Rightarrow> 'e delay_scheduler \<times> 'e option" where
  "cancel p s =
     (let (h, removed) = heap_remove lt (\<lambda>e. p (de_item e)) (ds_heap s) in (s\<lparr>ds_heap := h\<rparr>, map_option de_item removed))"

definition ds_clear :: "'e delay_scheduler \<Rightarrow> 'e delay_scheduler" where
  "ds_clear s = s\<lparr>ds_heap := []\<rparr>"

definition ds_items :: "'e delay_scheduler \<Rightarrow> 'e multiset" where
  "ds_items s = image_mset de_item (mset (ds_heap s))"

interpretation dq: heap_order lt
  by unfold_locales (auto simp: lt_def split: if_splits)

lemma ds_items_new [simp]: "ds_items new_delay_scheduler = {#}"
  by (simp add: ds_items_def new_delay_scheduler_def)

lemma ds_items_schedule [simp]: "ds_items (schedule_at item dueAt s) = add_mset item (ds_items s)"
  by (simp add: ds_items_def schedule_at_def)

text \<open>A pass over the due entries: who comes out was due, who stays was there, nobody is lost.\<close>

lemma collect_loop_splits:
  assumes "collect_loop now h = (h', out)"
  shows "\<exists>es. mset h = mset es + mset h' \<and> out = map de_item es \<and> (\<forall>e \<in> set es. de_dueAt e \<le> now) \<and>
     (h' = [] \<or> de_dueAt (h' ! 0) > now)"
  using assms
proof (induction now h arbitrary: h' out rule: collect_loop.induct)
  case (1 now h)
  show ?case
  proof (cases "length h > 0 \<and> de_dueAt (h ! 0) \<le> now")
    case False
    then show ?thesis
      using "1.prems" by (intro exI [of _ "[]"]) (auto simp: collect_loop.simps [of now h])
  next
    case True
    then obtain g where pop: "popMin h = (g, Some (h ! 0))"
      using heap_pop_front [of h lt] by (cases "popMin h") (auto simp: popMin_def)
    obtain out' where rest: "collect_loop now g = (h', out')" "out = de_item (h ! 0) # out'"
      using "1.prems" True pop by (auto simp: collect_loop.simps [of now h] split: prod.splits)
    obtain es where es: "mset g = mset es + mset h'" "out' = map de_item es" "\<forall>e \<in> set es. de_dueAt e \<le> now"
        "h' = [] \<or> de_dueAt (h' ! 0) > now"
      using "1.IH" [OF True refl pop [symmetric] rest(1)] pop by auto
    have "mset h = add_mset (h ! 0) (mset g)"
      using mset_heap_pop pop by (simp add: popMin_def)
    then show ?thesis
      using es rest(2) True by (intro exI [of _ "h ! 0 # es"]) simp
  qed
qed

lemma ds_items_collect: "collectDue now s = (s', out) \<Longrightarrow> ds_items s = mset out + ds_items s'"
  using collect_loop_splits [of now "ds_heap s"] by (fastforce simp: collectDue_def ds_items_def split: prod.splits)

text \<open>
  What a call of \<open>collectDue\<close> hands out was due, in whatever state the heap is; nothing is lost or
  doubled, and when everything in the scheduler is due everything is handed out.
\<close>

theorem collectDue_never_early:
  assumes "collectDue now s = (s', out)"
  shows "\<exists>es. out = map de_item es \<and> list_all (\<lambda>e. de_dueAt e \<le> now) es \<and>
     mset es + mset (ds_heap s') = mset (ds_heap s) \<and>
     (list_all (\<lambda>e. de_dueAt e \<le> now) (ds_heap s) = (ds_heap s' = [] \<and> list_all (\<lambda>e. de_dueAt e \<le> now) es))"
proof -
  obtain h' where loop: "collect_loop now (ds_heap s) = (h', out)" "ds_heap s' = h'"
    using assms by (auto simp: collectDue_def split: prod.splits)
  obtain es where es: "mset (ds_heap s) = mset es + mset h'" "out = map de_item es" "\<forall>e \<in> set es. de_dueAt e \<le> now"
      "h' = [] \<or> de_dueAt (h' ! 0) > now"
    using collect_loop_splits [OF loop(1)] by blast
  have members: "set (ds_heap s) = set es \<union> set h'"
    by (metis es(1) set_mset_mset set_mset_union)
  have "h' = []" if "\<forall>e \<in> set (ds_heap s). de_dueAt e \<le> now"
    using that es(4) members by (metis UnCI length_greater_0_conv linorder_not_le nth_mem)
  then show ?thesis
    using es loop(2) members by (intro exI [of _ es]) (auto simp: list_all_iff)
qed

text \<open>
  An item that is due can stay behind: after a pop the root need not be the earliest entry. Here the collection
  of time 2 ends at the item due at time 3, with the item due at time 2 below it.
\<close>

definition six_delays :: "nat delay_scheduler" where
  "six_delays = fold (\<lambda>t. schedule_at (nat t) t) [0, 1, 3, 2, 4, 5] new_delay_scheduler"

theorem due_item_left_behind:
  "snd (collectDue 2 six_delays) = [0, 1] \<and> map de_dueAt (ds_heap (fst (collectDue 2 six_delays))) = [3, 5, 4, 2]"
proof -
  have built: "ds_heap six_delays = map (\<lambda>(t, n). \<lparr>de_dueAt = t, de_seq = n, de_item = nat t\<rparr>)
      [(0, 0), (1, 1), (3, 2), (2, 3), (4, 4), (5, 5)]"
    by (simp add: six_delays_def schedule_at_def new_delay_scheduler_def heap_push_def siftUp_def siftUp_loop.simps lt_def)
  show ?thesis
    unfolding collectDue_def built
    by (simp add: collect_loop.simps popMin_def heap_pop_def siftDown_def siftDown_loop.simps best_child_def lt_def Let_def)
qed

end
