(* ===== verification/BrokerQueue.thy ===== *)
theory BrokerQueue
  imports PriorityHeap Interfaces
begin

text \<open>
  The at-least-once queue of \<open>message-queue/engine\<close>: consumer-group offsets (\<open>ConsumerGroups.ts\<close>), the
  broker queue with its ready heap, delayed messages, leases and dead letters (\<open>BrokerQueue.ts\<close>), and the
  facade over many queues with its pull loop (\<open>MessageQueueEngine.ts\<close>). Clock readings are arguments, one per call of the
  clock; the generator of message ids is the function of the number of calls the queue has made of it.
\<close>

section \<open>Messages and errors\<close>

record 'p message =
  em_id :: jstring
  em_payload :: 'p
  em_priority :: int
  em_seq :: nat
  em_deliverAt :: int
  em_deliveryCount :: nat
  em_enqueuedAt :: int
  em_visibleAt :: int
  em_headers :: "(jstring, jstring) jmap"

record retry_policy =
  rp_maxAttempts :: int
  rp_backoffBaseMs :: int
  rp_backoffFactor :: int
  rp_backoffMaxMs :: int
  rp_immediateRedeliveryOnNack :: bool

definition DEFAULT_RETRY_POLICY :: retry_policy where
  "DEFAULT_RETRY_POLICY =
     \<lparr>rp_maxAttempts = 3, rp_backoffBaseMs = 100, rp_backoffFactor = 2, rp_backoffMaxMs = 5000,
      rp_immediateRedeliveryOnNack = False\<rparr>"

datatype queue_error =
    BackpressureError jstring nat int
  | GroupNotJoined jstring jstring
  | UnknownQueue jstring

section \<open>Consumer groups\<close>

record group_offset =
  go_group :: jstring
  go_position :: nat
  go_committed :: nat
  go_updatedAt :: int

type_synonym consumer_groups = "(jstring, (jstring, group_offset) jmap) jmap"

definition group_get :: "jstring \<Rightarrow> jstring \<Rightarrow> consumer_groups \<Rightarrow> group_offset option" where
  "group_get queue grp cg = (case jmap_get cg queue of None \<Rightarrow> None | Some q \<Rightarrow> jmap_get q grp)"

text \<open>Writing through the offset object: the entry of the inner map is replaced.\<close>

definition group_put :: "jstring \<Rightarrow> jstring \<Rightarrow> group_offset \<Rightarrow> consumer_groups \<Rightarrow> consumer_groups" where
  "group_put queue grp off cg =
     jmap_set queue (jmap_set grp off (case jmap_get cg queue of None \<Rightarrow> jmap_empty | Some q \<Rightarrow> q)) cg"

definition group_join :: "int \<Rightarrow> jstring \<Rightarrow> jstring \<Rightarrow> nat \<Rightarrow> consumer_groups \<Rightarrow> consumer_groups \<times> group_offset" where
  "group_join now queue grp fromSeq cg =
     (let cg = (case jmap_get cg queue of None \<Rightarrow> jmap_set queue jmap_empty cg | Some _ \<Rightarrow> cg) in
      case group_get queue grp cg of
        Some off \<Rightarrow> (cg, off)
      | None \<Rightarrow>
          let off = \<lparr>go_group = grp, go_position = fromSeq, go_committed = fromSeq, go_updatedAt = now\<rparr>
          in (group_put queue grp off cg, off))"

definition mustGet :: "jstring \<Rightarrow> jstring \<Rightarrow> consumer_groups \<Rightarrow> queue_error + group_offset" where
  "mustGet queue grp cg =
     (case group_get queue grp cg of None \<Rightarrow> Inl (GroupNotJoined grp queue) | Some off \<Rightarrow> Inr off)"

definition fetchMark :: "int \<Rightarrow> jstring \<Rightarrow> jstring \<Rightarrow> nat \<Rightarrow> consumer_groups \<Rightarrow> queue_error + consumer_groups" where
  "fetchMark now queue grp seq cg =
     map_sum id (\<lambda>off. group_put queue grp (off\<lparr>go_position := seq + 1, go_updatedAt := now\<rparr>) cg) (mustGet queue grp cg)"

definition group_commit :: "int \<Rightarrow> jstring \<Rightarrow> jstring \<Rightarrow> nat \<Rightarrow> consumer_groups \<Rightarrow> queue_error + consumer_groups" where
  "group_commit now queue grp seq cg =
     map_sum id
       (\<lambda>off.
          let off = (if seq \<ge> go_committed off then off\<lparr>go_committed := seq + 1, go_updatedAt := now\<rparr> else off);
              off = (if go_position off < go_committed off then off\<lparr>go_position := go_committed off\<rparr> else off)
          in group_put queue grp off cg)
       (mustGet queue grp cg)"

definition lag :: "jstring \<Rightarrow> jstring \<Rightarrow> nat \<Rightarrow> consumer_groups \<Rightarrow> nat" where
  "lag queue grp tipSeq cg =
     (case group_get queue grp cg of None \<Rightarrow> tipSeq | Some off \<Rightarrow> nat (max 0 (int tipSeq - int (go_position off))))"

definition seekTo :: "int \<Rightarrow> jstring \<Rightarrow> jstring \<Rightarrow> nat \<Rightarrow> consumer_groups \<Rightarrow> queue_error + consumer_groups" where
  "seekTo now queue grp fromSeq cg =
     map_sum id
       (\<lambda>off. group_put queue grp
          (off\<lparr>go_position := fromSeq, go_committed := min (go_committed off) fromSeq, go_updatedAt := now\<rparr>) cg)
       (mustGet queue grp cg)"

definition groupsFor :: "jstring \<Rightarrow> consumer_groups \<Rightarrow> jstring list" where
  "groupsFor queue cg = (case jmap_get cg queue of None \<Rightarrow> [] | Some q \<Rightarrow> jmap_keys q)"

definition group_snapshot :: "jstring \<Rightarrow> consumer_groups \<Rightarrow> group_offset list" where
  "group_snapshot queue cg = (case jmap_get cg queue of None \<Rightarrow> [] | Some q \<Rightarrow> jmap_values q)"

section \<open>The queue\<close>

record 'p in_flight_entry =
  fe_message :: "'p message"
  fe_leaseExpiresAt :: int
  fe_leaseId :: nat

record 'p broker_queue =
  bq_name :: jstring
  bq_policy :: retry_policy
  bq_ready :: "'p message priority_heap"
  bq_delayed :: "'p message delay_scheduler"
  bq_inFlight :: "(jstring, 'p in_flight_entry) jmap"
  bq_deadLetter :: "'p message list"
  bq_groups :: consumer_groups
  bq_idGen :: "nat \<Rightarrow> jstring"
  bq_ids :: nat
  bq_highWatermark :: "int option"
  bq_visibilityTimeoutMs :: int
  bq_seq :: nat
  bq_leaseSeq :: nat
  bq_totalDelivered :: nat

record broker_options =
  bo_name :: "jstring option"
  bo_retryPolicy :: "retry_policy \<Rightarrow> retry_policy"
  bo_highWatermark :: "int option"
  bo_visibilityTimeoutMs :: "int option"
  bo_idGen :: "(nat \<Rightarrow> jstring) option"

definition default_idGen :: "jstring \<Rightarrow> nat \<Rightarrow> jstring" where
  "default_idGen name c = js ''msg-'' @ name @ js ''-'' @ js_nat c"

text \<open>
  \<open>bo_retryPolicy\<close> is the spread of the given fields over the defaults; \<open>None\<close> stands for the watermark
  \<open>Number.POSITIVE_INFINITY\<close>.
\<close>

definition new_broker :: "broker_options \<Rightarrow> 'p broker_queue" where
  "new_broker options =
     (let name = (case bo_name options of Some n \<Rightarrow> n | None \<Rightarrow> js ''queue'') in
      \<lparr>bq_name = name,
       bq_policy = bo_retryPolicy options DEFAULT_RETRY_POLICY,
       bq_ready = [], bq_delayed = new_delay_scheduler, bq_inFlight = jmap_empty, bq_deadLetter = [], bq_groups = jmap_empty,
       bq_idGen = (case bo_idGen options of Some gen \<Rightarrow> gen | None \<Rightarrow> default_idGen name),
       bq_ids = 0,
       bq_highWatermark = bo_highWatermark options,
       bq_visibilityTimeoutMs = (case bo_visibilityTimeoutMs options of Some t \<Rightarrow> t | None \<Rightarrow> 30000),
       bq_seq = 0, bq_leaseSeq = 0, bq_totalDelivered = 0\<rparr>)"

definition backoffFor :: "nat \<Rightarrow> 'p broker_queue \<Rightarrow> int" where
  "backoffFor deliveryCount q =
     (let p = bq_policy q;
          raw = rp_backoffBaseMs p * rp_backoffFactor p ^ (deliveryCount - 1)
      in min raw (rp_backoffMaxMs p))"

definition push_ready :: "'p message \<Rightarrow> 'p broker_queue \<Rightarrow> 'p broker_queue" where
  "push_ready msg q = q\<lparr>bq_ready := ph_push msg (em_priority msg) (em_seq msg) (bq_ready q)\<rparr>"

definition delay_until :: "'p message \<Rightarrow> int \<Rightarrow> 'p broker_queue \<Rightarrow> 'p broker_queue" where
  "delay_until msg dueAt q = q\<lparr>bq_delayed := schedule_at msg dueAt (bq_delayed q)\<rparr>"

record message_options =
  mo_priority :: "int option"
  mo_delayMs :: "int option"
  mo_headers :: "(jstring, jstring) jmap option"

text \<open>The three clock readings of \<open>enqueue\<close> are \<open>t1\<close> (for the delivery time), \<open>t2\<close> and \<open>t3\<close>.\<close>

definition enqueue_message ::
    "int \<Rightarrow> int \<Rightarrow> int \<Rightarrow> 'p \<Rightarrow> message_options \<Rightarrow> 'p broker_queue \<Rightarrow> 'p broker_queue \<times> (queue_error + 'p message)" where
  "enqueue_message t1 t2 t3 payload options q =
     (let depth = ph_size (bq_ready q) + ds_size (bq_delayed q) in
      case (case bq_highWatermark q of None \<Rightarrow> None | Some high \<Rightarrow> if int depth \<ge> high then Some high else None) of
        Some high \<Rightarrow> (q, Inl (BackpressureError (bq_name q) depth high))
      | None \<Rightarrow>
          let msg = \<lparr>em_id = bq_idGen q (bq_ids q),
                     em_payload = payload,
                     em_priority = (case mo_priority options of Some p \<Rightarrow> p | None \<Rightarrow> 0),
                     em_seq = bq_seq q,
                     em_deliverAt = t1 + (case mo_delayMs options of Some d \<Rightarrow> d | None \<Rightarrow> 0),
                     em_deliveryCount = 0,
                     em_enqueuedAt = t2,
                     em_visibleAt = 0,
                     em_headers = (case mo_headers options of Some h \<Rightarrow> h | None \<Rightarrow> jmap_empty)\<rparr>;
              q = q\<lparr>bq_ids := bq_ids q + 1, bq_seq := bq_seq q + 1\<rparr>
          in (if em_deliverAt msg > t3 then delay_until msg (em_deliverAt msg) q else push_ready msg q, Inr msg))"

definition promoteDelayed :: "int \<Rightarrow> 'p broker_queue \<Rightarrow> 'p broker_queue \<times> nat" where
  "promoteDelayed now q =
     (let (delayed, due) = collectDue now (bq_delayed q) in
      (fold push_ready due (q\<lparr>bq_delayed := delayed\<rparr>), length due))"

record 'p dequeue_lease =
  dl_message :: "'p message"
  dl_leaseId :: nat

definition dequeue_message :: "int \<Rightarrow> int \<Rightarrow> 'p broker_queue \<Rightarrow> 'p broker_queue \<times> 'p dequeue_lease option" where
  "dequeue_message t1 t2 q =
     (let (q, _) = promoteDelayed t1 q;
          (ready, msg) = ph_pop (bq_ready q);
          q = q\<lparr>bq_ready := ready\<rparr>
      in
      case msg of
        None \<Rightarrow> (q, None)
      | Some msg \<Rightarrow>
          let msg = msg\<lparr>em_deliveryCount := em_deliveryCount msg + 1\<rparr>;
              leaseId = bq_leaseSeq q;
              entry = \<lparr>fe_message = msg, fe_leaseExpiresAt = t2 + bq_visibilityTimeoutMs q, fe_leaseId = leaseId\<rparr>
          in (q\<lparr>bq_totalDelivered := bq_totalDelivered q + 1, bq_leaseSeq := bq_leaseSeq q + 1,
                bq_inFlight := jmap_set (em_id msg) entry (bq_inFlight q)\<rparr>,
              Some \<lparr>dl_message = msg, dl_leaseId = leaseId\<rparr>))"

definition lease_matches :: "nat option \<Rightarrow> 'p in_flight_entry \<Rightarrow> bool" where
  "lease_matches leaseId entry = (case leaseId of None \<Rightarrow> True | Some l \<Rightarrow> fe_leaseId entry = l)"

definition ack :: "jstring \<Rightarrow> nat option \<Rightarrow> 'p broker_queue \<Rightarrow> 'p broker_queue \<times> bool" where
  "ack mid leaseId q =
     (case jmap_get (bq_inFlight q) mid of
        None \<Rightarrow> (q, False)
      | Some entry \<Rightarrow>
          if \<not> lease_matches leaseId entry then (q, False)
          else (q\<lparr>bq_inFlight := jmap_delete mid (bq_inFlight q)\<rparr>, True))"

text \<open>The end of a failed delivery: the dead letters, the ready heap or a delay.\<close>

definition nack :: "int \<Rightarrow> jstring \<Rightarrow> nat option \<Rightarrow> 'p broker_queue \<Rightarrow> 'p broker_queue" where
  "nack now mid leaseId q =
     (case jmap_get (bq_inFlight q) mid of
        None \<Rightarrow> q
      | Some entry \<Rightarrow>
          if \<not> lease_matches leaseId entry then q
          else
            let q = q\<lparr>bq_inFlight := jmap_delete mid (bq_inFlight q)\<rparr>;
                msg = fe_message entry
            in
            if int (em_deliveryCount msg) \<ge> rp_maxAttempts (bq_policy q) then q\<lparr>bq_deadLetter := bq_deadLetter q @ [msg]\<rparr>
            else if rp_immediateRedeliveryOnNack (bq_policy q) then push_ready msg q
            else delay_until msg (now + backoffFor (em_deliveryCount msg) q) q)"

fun expire_entries :: "int \<Rightarrow> (jstring \<times> 'p in_flight_entry) list \<Rightarrow> 'p broker_queue \<Rightarrow> 'p broker_queue \<times> 'p message list" where
  "expire_entries now [] q = (q, [])"
| "expire_entries now ((mid, entry) # entries) q =
     (if fe_leaseExpiresAt entry \<le> now then
        let q = q\<lparr>bq_inFlight := jmap_delete mid (bq_inFlight q)\<rparr>;
            msg = fe_message entry
        in
        if int (em_deliveryCount msg) \<ge> rp_maxAttempts (bq_policy q)
        then expire_entries now entries (q\<lparr>bq_deadLetter := bq_deadLetter q @ [msg]\<rparr>)
        else
          let (q, expired) = expire_entries now entries (delay_until msg (now + backoffFor (em_deliveryCount msg) q) q)
          in (q, msg # expired)
      else expire_entries now entries q)"

definition requeueExpired :: "int \<Rightarrow> 'p broker_queue \<Rightarrow> 'p broker_queue \<times> 'p message list" where
  "requeueExpired now q = expire_entries now (bq_inFlight q) q"

section \<open>Groups, dead letters and depth\<close>

text \<open>The slice of JavaScript up to a bound, which counts from the end when it is negative.\<close>

definition slice_to :: "int \<Rightarrow> 'a list \<Rightarrow> 'a list" where
  "slice_to n xs = take (nat (if n \<ge> 0 then n else int (length xs) + n)) xs"

text \<open>The group's clock is its own, \<open>tg\<close>; \<open>mustGet\<close> cannot fail after the join.\<close>

fun fetch_each :: "int \<Rightarrow> jstring \<Rightarrow> 'p message list \<Rightarrow> 'p broker_queue \<Rightarrow> 'p broker_queue \<times> (queue_error + 'p message list)" where
  "fetch_each tg grp [] q = (q, Inr [])"
| "fetch_each tg grp (m # ms) q =
     (let (ready, _) = ph_remove (\<lambda>x. em_id x = em_id m) (bq_ready q);
          m = m\<lparr>em_deliveryCount := em_deliveryCount m + 1\<rparr>;
          q = q\<lparr>bq_ready := ready, bq_totalDelivered := bq_totalDelivered q + 1\<rparr>
      in
      case fetchMark tg (bq_name q) grp (em_seq m) (bq_groups q) of
        Inl e \<Rightarrow> (q, Inl e)
      | Inr groups \<Rightarrow> map_prod (\<lambda>q. q) (map_sum (\<lambda>e. e) ((#) m)) (fetch_each tg grp ms (q\<lparr>bq_groups := groups\<rparr>)))"

definition fetchForGroup :: "int \<Rightarrow> int \<Rightarrow> jstring \<Rightarrow> int \<Rightarrow> 'p broker_queue \<Rightarrow> 'p broker_queue \<times> (queue_error + 'p message list)" where
  "fetchForGroup t1 tg grp maxMessages q =
     (let (q, _) = promoteDelayed t1 q;
          (groups, off) = group_join tg (bq_name q) grp 0 (bq_groups q);
          q = q\<lparr>bq_groups := groups\<rparr>;
          candidates = sort_key em_seq (filter (\<lambda>m. em_seq m \<ge> go_position off) (ph_toArray (bq_ready q)))
      in fetch_each tg grp (slice_to maxMessages candidates) q)"

definition commitGroup :: "int \<Rightarrow> jstring \<Rightarrow> nat \<Rightarrow> 'p broker_queue \<Rightarrow> 'p broker_queue \<times> queue_error option" where
  "commitGroup tg grp seq q =
     (let (groups, _) = group_join tg (bq_name q) grp 0 (bq_groups q) in
      case group_commit tg (bq_name q) grp seq groups of
        Inl e \<Rightarrow> (q\<lparr>bq_groups := groups\<rparr>, Some e)
      | Inr groups \<Rightarrow> (q\<lparr>bq_groups := groups\<rparr>, None))"

definition requeueDeadLetter :: "jstring \<Rightarrow> 'p broker_queue \<Rightarrow> 'p broker_queue \<times> bool" where
  "requeueDeadLetter mid q =
     (case find (\<lambda>m. em_id m = mid) (bq_deadLetter q) of
        None \<Rightarrow> (q, False)
      | Some _ \<Rightarrow>
          let i = length (takeWhile (\<lambda>m. em_id m \<noteq> mid) (bq_deadLetter q));
              msg = (bq_deadLetter q ! i)\<lparr>em_deliveryCount := 0\<rparr>
          in (push_ready msg (q\<lparr>bq_deadLetter := splice_out i (bq_deadLetter q)\<rparr>), True))"

record depth_stats =
  dp_queue :: jstring
  dp_ready :: nat
  dp_delayed :: nat
  dp_inFlight :: nat
  dp_deadLettered :: nat
  dp_totalDelivered :: nat
  dp_totalDeadLettered :: nat
  dp_oldestAgeMs :: int

definition depth_of :: "int \<Rightarrow> 'p broker_queue \<Rightarrow> depth_stats" where
  "depth_of now q =
     \<lparr>dp_queue = bq_name q, dp_ready = ph_size (bq_ready q), dp_delayed = ds_size (bq_delayed q),
      dp_inFlight = length (bq_inFlight q), dp_deadLettered = length (bq_deadLetter q),
      dp_totalDelivered = bq_totalDelivered q, dp_totalDeadLettered = length (bq_deadLetter q),
      dp_oldestAgeMs = foldl (\<lambda>oldest m. max oldest (now - em_enqueuedAt m)) 0 (ph_toArray (bq_ready q))\<rparr>"

definition requireQueue :: "'p broker_queue option \<Rightarrow> jstring \<Rightarrow> queue_error + 'p broker_queue" where
  "requireQueue q name = (case q of None \<Rightarrow> Inl (UnknownQueue name) | Some q \<Rightarrow> Inr q)"

section \<open>The facade\<close>

text \<open>
  A handler changes the world and returns, throws or returns a promise; what the promise comes to is a
  later event. \<open>tick\<close> numbers the clock readings of the loop.
\<close>

record 'p queue_engine =
  qe_queues :: "(jstring, 'p broker_queue) jmap"
  qe_options :: broker_options

definition engine_queue :: "jstring \<Rightarrow> 'p queue_engine \<Rightarrow> 'p queue_engine \<times> 'p broker_queue" where
  "engine_queue name e =
     (case jmap_get (qe_queues e) name of
        Some q \<Rightarrow> (e, q)
      | None \<Rightarrow>
          let q = new_broker ((qe_options e)\<lparr>bo_name := Some name\<rparr>)
          in (e\<lparr>qe_queues := jmap_set name q (qe_queues e)\<rparr>, q))"

definition engine_names :: "'p queue_engine \<Rightarrow> jstring list" where
  "engine_names e = jmap_keys (qe_queues e)"

definition engine_depth :: "(nat \<Rightarrow> int) \<Rightarrow> 'p queue_engine \<Rightarrow> depth_stats list" where
  "engine_depth clock e = map (\<lambda>(i, q). depth_of (clock i) q) (enumerate 0 (jmap_values (qe_queues e)))"

definition totalDepth :: "(nat \<Rightarrow> int) \<Rightarrow> 'p queue_engine \<Rightarrow> nat" where
  "totalDepth clock e = foldl (\<lambda>n d. n + (dp_ready d + dp_delayed d + dp_inFlight d)) 0 (engine_depth clock e)"

datatype handler_result = Returned | Threw | PromiseReturned

fun work_loop ::
    "nat \<Rightarrow> (nat \<Rightarrow> int) \<Rightarrow> ('w \<Rightarrow> 'p message \<Rightarrow> 'w \<times> handler_result) \<Rightarrow> 'w \<Rightarrow> 'p broker_queue
      \<Rightarrow> ('w \<times> 'p broker_queue) \<times> nat \<times> nat" where
  "work_loop 0 clock handler w q = ((w, q), 0, 0)"
| "work_loop (Suc n) clock handler w q =
     (case dequeue_message (clock 0) (clock 1) q of
        (q, None) \<Rightarrow> ((w, q), 0, 0)
      | (q, Some lease) \<Rightarrow>
          let (w, r) = handler w (dl_message lease);
              q = (case r of
                     Returned \<Rightarrow> fst (ack (em_id (dl_message lease)) (Some (dl_leaseId lease)) q)
                   | PromiseReturned \<Rightarrow> q
                   | Threw \<Rightarrow> nack (clock 2) (em_id (dl_message lease)) (Some (dl_leaseId lease)) q);
              (end_state, processed, failed) = work_loop n (\<lambda>i. clock (i + 3)) handler w q
          in (end_state, if r = Threw then (processed, failed + 1) else (processed + 1, failed)))"

definition work_on ::
    "jstring \<Rightarrow> (nat \<Rightarrow> int) \<Rightarrow> ('w \<Rightarrow> 'p message \<Rightarrow> 'w \<times> handler_result) \<Rightarrow> nat \<Rightarrow> 'w \<Rightarrow> 'p queue_engine
      \<Rightarrow> ('w \<times> 'p queue_engine) \<times> nat \<times> nat" where
  "work_on queueName clock handler n w e =
     (let (e, q) = engine_queue queueName e;
          ((w, q), counts) = work_loop n clock handler w q
      in ((w, e\<lparr>qe_queues := jmap_set queueName q (qe_queues e)\<rparr>), counts))"

section \<open>Where the messages are\<close>

text \<open>
  A message as it was accepted, whatever its number of deliveries; the messages a queue holds, in all their
  places, and their ids.
\<close>

definition as_sent :: "'p message \<Rightarrow> 'p message" where
  "as_sent m = m\<lparr>em_deliveryCount := 0\<rparr>"

definition holds :: "'p broker_queue \<Rightarrow> 'p message multiset" where
  "holds q = mset (ph_toArray (bq_ready q)) + ds_items (bq_delayed q)
     + image_mset (\<lambda>(_, e). fe_message e) (mset (bq_inFlight q)) + mset (bq_deadLetter q)"

definition bag :: "'p broker_queue \<Rightarrow> 'p message multiset" where
  "bag q = image_mset as_sent (holds q)"

definition ids :: "'p broker_queue \<Rightarrow> jstring multiset" where
  "ids q = image_mset em_id (bag q)"

text \<open>No id occurs twice, every id was generated, and leases are filed under their message's id.\<close>

definition keyed :: "'p broker_queue \<Rightarrow> bool" where
  "keyed q \<longleftrightarrow> jmap_wf (bq_inFlight q) \<and> (\<forall>(mid, e) \<in> set (bq_inFlight q). em_id (fe_message e) = mid)
     \<and> (\<forall>x. count (ids q) x \<le> 1) \<and> set_mset (ids q) \<subseteq> bq_idGen q ` {..<bq_ids q}"

lemma as_sent_simps [simp]:
  "em_id (as_sent m) = em_id m"
  "as_sent (m\<lparr>em_deliveryCount := n\<rparr>) = as_sent m"
  by (simp_all add: as_sent_def)

lemma keyed_in_flight: "keyed q \<Longrightarrow> jmap_get (bq_inFlight q) mid = Some e \<Longrightarrow> em_id (fe_message e) = mid"
  by (auto simp: keyed_def jmap_get_iff jmap_wf_def jmap_keys_def)

lemma in_flight_split:
  assumes "jmap_wf m" and "jmap_get m k = Some v"
  shows "mset m = add_mset (k, v) (mset (jmap_delete k m))"
  using assms
proof (induction m)
  case (Cons kv m)
  obtain k' v' where kv: "kv = (k', v')"
    by fastforce
  show ?case
  proof (cases "k' = k")
    case True
    then have "k \<notin> fst ` set m"
      using Cons.prems(1) kv by (auto simp: jmap_wf_def jmap_keys_def)
    then show ?thesis
      using True kv Cons.prems(2) by (simp add: jmap_get_def jmap_delete_def AList.delete_id)
  next
    case False
    then show ?thesis
      using Cons kv by (simp add: jmap_get_def jmap_delete_def jmap_wf_def jmap_keys_def)
  qed
qed (simp add: jmap_get_def)

lemma jmap_set_fresh: "jmap_get m k = None \<Longrightarrow> jmap_set k v m = m @ [(k, v)]"
  by (induction m) (auto simp: jmap_get_def jmap_set_def split: if_splits)

text \<open>What each move of a message does to the bag.\<close>

named_theorems bag_simps \<open>the bag of a queue after one of its steps\<close>

lemma holds_push [bag_simps]: "holds (push_ready m q) = add_mset m (holds q)"
  by (simp add: holds_def push_ready_def ph_push_items)

lemma holds_delay [bag_simps]: "holds (delay_until m t q) = add_mset m (holds q)"
  by (simp add: holds_def delay_until_def)

lemma holds_pushes: "holds (fold push_ready ms q) = mset ms + holds q"
  by (induction ms arbitrary: q) (simp_all add: holds_push)

lemma frame_push [simp]:
  "bq_inFlight (push_ready m q) = bq_inFlight q" "bq_deadLetter (push_ready m q) = bq_deadLetter q"
  "bq_idGen (push_ready m q) = bq_idGen q" "bq_ids (push_ready m q) = bq_ids q"
  "bq_policy (push_ready m q) = bq_policy q" "bq_delayed (push_ready m q) = bq_delayed q"
  "bq_leaseSeq (push_ready m q) = bq_leaseSeq q" "bq_groups (push_ready m q) = bq_groups q"
  by (simp_all add: push_ready_def)

lemma frame_delay [simp]:
  "bq_inFlight (delay_until m t q) = bq_inFlight q" "bq_deadLetter (delay_until m t q) = bq_deadLetter q"
  "bq_idGen (delay_until m t q) = bq_idGen q" "bq_ids (delay_until m t q) = bq_ids q"
  "bq_policy (delay_until m t q) = bq_policy q" "bq_ready (delay_until m t q) = bq_ready q"
  "bq_leaseSeq (delay_until m t q) = bq_leaseSeq q" "bq_groups (delay_until m t q) = bq_groups q"
  by (simp_all add: delay_until_def)

lemma frame_pushes [simp]:
  "bq_inFlight (fold push_ready ms q) = bq_inFlight q" "bq_deadLetter (fold push_ready ms q) = bq_deadLetter q"
  "bq_idGen (fold push_ready ms q) = bq_idGen q" "bq_ids (fold push_ready ms q) = bq_ids q"
  "bq_policy (fold push_ready ms q) = bq_policy q" "bq_delayed (fold push_ready ms q) = bq_delayed q"
  "bq_leaseSeq (fold push_ready ms q) = bq_leaseSeq q" "bq_groups (fold push_ready ms q) = bq_groups q"
  by (induction ms arbitrary: q) simp_all

lemma promote_frame:
  assumes "promoteDelayed now q = (q', n)"
  shows "holds q' = holds q" and "bq_inFlight q' = bq_inFlight q" and "bq_deadLetter q' = bq_deadLetter q"
    and "bq_idGen q' = bq_idGen q" and "bq_ids q' = bq_ids q" and "bq_policy q' = bq_policy q"
    and "bq_leaseSeq q' = bq_leaseSeq q" and "bq_groups q' = bq_groups q"
proof -
  obtain delayed due where due: "collectDue now (bq_delayed q) = (delayed, due)"
    by fastforce
  then have q': "q' = fold push_ready due (q\<lparr>bq_delayed := delayed\<rparr>)"
    using assms by (simp add: promoteDelayed_def)
  have "holds q' = mset due + holds (q\<lparr>bq_delayed := delayed\<rparr>)"
    by (simp add: q' holds_pushes)
  then show "holds q' = holds q"
    using ds_items_collect [OF due] by (simp add: holds_def)
qed (use assms in \<open>auto simp: promoteDelayed_def split: prod.splits\<close>)

lemma holds_release:
  assumes "jmap_wf (bq_inFlight q)" and "jmap_get (bq_inFlight q) mid = Some e"
  shows "holds q = add_mset (fe_message e) (holds (q\<lparr>bq_inFlight := jmap_delete mid (bq_inFlight q)\<rparr>))"
  using in_flight_split [OF assms] by (simp add: holds_def)

lemma holds_lease:
  assumes "jmap_get (bq_inFlight q) mid = None"
  shows "holds (q\<lparr>bq_inFlight := jmap_set mid e (bq_inFlight q)\<rparr>) = add_mset (fe_message e) (holds q)"
  by (simp add: holds_def jmap_set_fresh [OF assms])

lemma holds_bury [bag_simps]: "holds (q\<lparr>bq_deadLetter := bq_deadLetter q @ [m]\<rparr>) = add_mset m (holds q)"
  by (simp add: holds_def)

lemma holds_pop:
  assumes "ph_pop (bq_ready q) = (ready, Some m)"
  shows "holds q = add_mset m (holds (q\<lparr>bq_ready := ready\<rparr>))"
  using ph_pop_items [OF assms] by (simp add: holds_def)

lemma in_flight_held: "jmap_get (bq_inFlight q) mid = Some e \<Longrightarrow> fe_message e \<in># holds q"
  by (auto simp: holds_def jmap_get_def dest!: map_of_SomeD intro: rev_image_eqI)

lemma holds_irrelevant [bag_simps]:
  "holds (q\<lparr>bq_totalDelivered := n\<rparr>) = holds q" "holds (q\<lparr>bq_leaseSeq := n\<rparr>) = holds q"
  "holds (q\<lparr>bq_groups := g\<rparr>) = holds q" "holds (q\<lparr>bq_ids := n\<rparr>) = holds q" "holds (q\<lparr>bq_seq := n\<rparr>) = holds q"
  by (simp_all add: holds_def)

text \<open>A message that is ready is not in flight: two holders would give its id twice.\<close>

lemma held_once:
  assumes "keyed q" and "holds q = add_mset m rest" and "m' \<in># rest"
  shows "em_id m' \<noteq> em_id m"
proof
  assume same: "em_id m' = em_id m"
  obtain rest' where "rest = add_mset m' rest'"
    using assms(3) by (metis multi_member_split)
  then have "count (ids q) (em_id m) \<ge> 2"
    using assms(2) same by (simp add: ids_def bag_def)
  moreover have "count (ids q) (em_id m) \<le> 1"
    using assms(1) by (simp add: keyed_def)
  ultimately show False
    by simp
qed

lemma ready_not_in_flight:
  assumes "keyed q" and "ph_pop (bq_ready q) = (ready, Some m)"
  shows "jmap_get (bq_inFlight q) (em_id m) = None"
proof (rule ccontr)
  assume "jmap_get (bq_inFlight q) (em_id m) \<noteq> None"
  then obtain e where e: "jmap_get (bq_inFlight q) (em_id m) = Some e"
    by blast
  then have "fe_message e \<in># holds (q\<lparr>bq_ready := ready\<rparr>)"
    using in_flight_held [of "q\<lparr>bq_ready := ready\<rparr>"] by simp
  then show False
    using held_once [OF assms(1) holds_pop [OF assms(2)]] keyed_in_flight [OF assms(1) e] by blast
qed

text \<open>
  The step of a queue: it keeps the generator, adds to the bag what it accepted and takes out what it finished.
\<close>

definition moved :: "'p broker_queue \<Rightarrow> 'p broker_queue \<Rightarrow> 'p message multiset \<Rightarrow> bool" where
  "moved q q' finished \<longleftrightarrow> keyed q' \<and> image_mset as_sent finished + bag q' = bag q \<and> bq_idGen q' = bq_idGen q
     \<and> bq_ids q' = bq_ids q"

lemma keyed_smaller:
  assumes "keyed q" and "finished + bag q' = bag q" and "bq_idGen q' = bq_idGen q" and "bq_ids q' = bq_ids q"
    and "jmap_wf (bq_inFlight q')" and "\<forall>(mid, e) \<in> set (bq_inFlight q'). em_id (fe_message e) = mid"
  shows "keyed q'"
proof -
  have "ids q = image_mset em_id finished + ids q'"
    by (simp add: ids_def flip: assms(2))
  then have fewer: "count (ids q') x \<le> count (ids q) x" "set_mset (ids q') \<subseteq> set_mset (ids q)" for x
    by auto
  have "count (ids q') x \<le> 1" for x
    using fewer(1) [of x] assms(1) by (meson keyed_def order_trans)
  moreover have "set_mset (ids q') \<subseteq> bq_idGen q' ` {..<bq_ids q'}"
    using fewer(2) assms(1,3,4) unfolding keyed_def by (metis subset_trans)
  ultimately show ?thesis
    using assms(5,6) unfolding keyed_def by blast
qed

lemma entries_after_delete:
  "\<forall>(mid, e) \<in> set m. P mid e \<Longrightarrow> \<forall>(mid, e) \<in> set (jmap_delete k m). P mid e"
  by (auto simp: jmap_delete_def AList.delete_eq)

lemma movedI:
  assumes "keyed q" and "image_mset as_sent finished + bag q' = bag q" and "bq_idGen q' = bq_idGen q" and "bq_ids q' = bq_ids q"
    and "jmap_wf (bq_inFlight q')" and "\<forall>(mid, e) \<in> set (bq_inFlight q'). em_id (fe_message e) = mid"
  shows "moved q q' finished"
  using keyed_smaller [OF assms(1-4) assms(5,6)] assms by (simp add: moved_def)

lemma moved_refl: "keyed q \<Longrightarrow> moved q q {#}"
  by (simp add: moved_def)

lemma moved_trans: "moved q q' x \<Longrightarrow> moved q' q'' y \<Longrightarrow> moved q q'' (x + y)"
  by (auto simp: moved_def ac_simps) (metis add.assoc add.commute)

lemma moved_keyed: "moved q q' x \<Longrightarrow> keyed q'"
  by (simp add: moved_def)

lemma keyed_entries:
  assumes "keyed q"
  shows "jmap_wf (bq_inFlight q)" and "\<forall>(mid, e) \<in> set (bq_inFlight q). em_id (fe_message e) = mid"
  using assms by (simp_all add: keyed_def)

lemma moved_promote:
  assumes "keyed q" and "promoteDelayed now q = (q', n)"
  shows "moved q q' {#}"
  using promote_frame [OF assms(2)] keyed_entries [OF assms(1)] by (intro movedI [OF assms(1)]) (simp_all add: bag_def)

lemma moved_dequeue:
  assumes "keyed q" and "dequeue_message t1 t2 q = (q', lease)"
  shows "moved q q' {#}"
proof -
  obtain p n where promoted: "promoteDelayed t1 q = (p, n)"
    by fastforce
  note mp = moved_promote [OF assms(1) promoted]
  note kp = moved_keyed [OF mp]
  obtain ready msg where pop: "ph_pop (bq_ready p) = (ready, msg)"
    by fastforce
  have "moved p q' {#}"
  proof (cases msg)
    case None
    then have "q' = p"
      using assms(2) promoted pop ph_pop_None [of "bq_ready p" ready] by (auto simp: dequeue_message_def)
    then show ?thesis
      using moved_refl [OF kp] by simp
  next
    case (Some m)
    let ?e = "\<lparr>fe_message = m\<lparr>em_deliveryCount := em_deliveryCount m + 1\<rparr>, fe_leaseExpiresAt = t2 + bq_visibilityTimeoutMs p,
        fe_leaseId = bq_leaseSeq p\<rparr>"
    let ?f = "jmap_set (em_id m) ?e (bq_inFlight p)"
    have q': "q' = p\<lparr>bq_ready := ready, bq_totalDelivered := bq_totalDelivered p + 1, bq_leaseSeq := bq_leaseSeq p + 1,
        bq_inFlight := ?f\<rparr>"
      using assms(2) promoted pop Some by (auto simp: dequeue_message_def Let_def)
    have fresh: "jmap_get (bq_inFlight p) (em_id m) = None"
      using ready_not_in_flight [OF kp] pop Some by blast
    have "holds p = add_mset m (holds (p\<lparr>bq_ready := ready\<rparr>))"
      using holds_pop pop Some by blast
    moreover have "holds q' = add_mset (fe_message ?e) (holds (p\<lparr>bq_ready := ready\<rparr>))"
      by (simp add: q' holds_def jmap_set_fresh [OF fresh])
    ultimately have "bag q' = bag p"
      by (simp add: bag_def)
    then show ?thesis
      using keyed_entries [OF kp] by (intro movedI [OF kp]) (auto simp: q' jmap_set_fresh [OF fresh] jmap_wf_def jmap_keys_def
          fresh [unfolded jmap_get_def map_of_eq_None_iff])
  qed
  then show ?thesis
    using moved_trans [OF mp] by fastforce
qed

text \<open>Taking an entry out of flight, with its message finished or put back.\<close>

lemma keyed_release:
  assumes "keyed q"
  shows "jmap_wf (jmap_delete mid (bq_inFlight q))"
    and "\<forall>(k, e) \<in> set (jmap_delete mid (bq_inFlight q)). em_id (fe_message e) = k"
  using keyed_entries [OF assms] by (simp, auto simp: jmap_delete_def AList.delete_eq)

lemma moved_ack:
  assumes "keyed q" and "ack mid leaseId q = (q', done)"
  shows "moved q q' (case jmap_get (bq_inFlight q) mid of Some e \<Rightarrow> if done then {#fe_message e#} else {#} | None \<Rightarrow> {#})"
proof (cases "jmap_get (bq_inFlight q) mid")
  case None
  then show ?thesis
    using assms moved_refl by (auto simp: ack_def)
next
  case (Some e)
  show ?thesis
  proof (cases "lease_matches leaseId e")
    case True
    then have "q' = q\<lparr>bq_inFlight := jmap_delete mid (bq_inFlight q)\<rparr>" "done"
      using assms(2) Some by (simp_all add: ack_def)
    then show ?thesis
      using Some holds_release [OF keyed_entries(1) [OF assms(1)] Some] keyed_release [OF assms(1), of mid]
      by (intro movedI [OF assms(1)]) (simp_all add: bag_def)
  next
    case False
    then show ?thesis
      using assms Some moved_refl by (auto simp: ack_def)
  qed
qed

text \<open>A message that was taken out of flight goes to one of three places.\<close>

lemma moved_put_back:
  assumes "keyed q" and "jmap_get (bq_inFlight q) mid = Some e"
    and "q' \<in> {p\<lparr>bq_deadLetter := bq_deadLetter p @ [fe_message e]\<rparr>, push_ready (fe_message e) p, delay_until (fe_message e) t p}"
    and "p = q\<lparr>bq_inFlight := jmap_delete mid (bq_inFlight q)\<rparr>"
  shows "moved q q' {#}"
proof -
  have "holds q' = add_mset (fe_message e) (holds p)"
    using assms(3) by (auto simp: bag_simps)
  then have "holds q' = holds q"
    using holds_release [OF keyed_entries(1) [OF assms(1)] assms(2)] by (simp add: assms(4))
  moreover have "bq_inFlight q' = jmap_delete mid (bq_inFlight q)" "bq_idGen q' = bq_idGen q" "bq_ids q' = bq_ids q"
    using assms(3) by (auto simp: assms(4))
  ultimately show ?thesis
    using keyed_release [OF assms(1), of mid] by (intro movedI [OF assms(1)]) (simp_all add: bag_def)
qed

lemma moved_nack:
  assumes "keyed q"
  shows "moved q (nack now mid leaseId q) {#}"
proof (cases "\<exists>e. jmap_get (bq_inFlight q) mid = Some e \<and> lease_matches leaseId e")
  case True
  then obtain e where e: "jmap_get (bq_inFlight q) mid = Some e" "lease_matches leaseId e"
    by blast
  show ?thesis
    by (rule moved_put_back [OF assms e(1), where t = "now + backoffFor (em_deliveryCount (fe_message e)) q", OF _ refl])
      (use e in \<open>auto simp: nack_def Let_def backoffFor_def\<close>)
next
  case False
  then show ?thesis
    using moved_refl [OF assms] by (auto simp: nack_def split: option.split)
qed

lemma moved_expire:
  assumes "keyed q" and "distinct (map fst entries)"
    and "\<forall>(mid, e) \<in> set entries. jmap_get (bq_inFlight q) mid = Some e"
    and "expire_entries now entries q = (q', expired)"
  shows "moved q q' {#}"
  using assms
proof (induction now entries q arbitrary: q' expired rule: expire_entries.induct)
  case (1 now q)
  then show ?case
    by (simp add: moved_refl)
next
  case (2 now mid e entries q)
  show ?case
  proof (cases "fe_leaseExpiresAt e \<le> now")
    case False
    then show ?thesis
      using 2 by simp
  next
    case True
    let ?p = "q\<lparr>bq_inFlight := jmap_delete mid (bq_inFlight q)\<rparr>"
    let ?m = "fe_message e"
    have e: "jmap_get (bq_inFlight q) mid = Some e"
      using "2.prems"(3) by simp
    have others: "\<forall>(k, e) \<in> set entries. jmap_get (bq_inFlight ?p) k = Some e"
      using "2.prems"(2,3) by (auto simp: jmap_get_delete rev_image_eqI)
    show ?thesis
    proof (cases "int (em_deliveryCount ?m) \<ge> rp_maxAttempts (bq_policy ?p)")
      case dead: True
      let ?d = "?p\<lparr>bq_deadLetter := bq_deadLetter ?p @ [?m]\<rparr>"
      have "moved q ?d {#}"
        by (rule moved_put_back [OF "2.prems"(1) e _ refl]) simp
      moreover have "moved ?d q' {#}"
        using 2(1) [OF True refl refl] dead "2.prems"(2,4) True others moved_keyed [OF \<open>moved q ?d {#}\<close>]
        by (simp add: Let_def)
      ultimately show ?thesis
        using moved_trans by fastforce
    next
      case retry: False
      let ?d = "delay_until ?m (now + backoffFor (em_deliveryCount ?m) ?p) ?p"
      have "moved q ?d {#}"
        by (rule moved_put_back [OF "2.prems"(1) e _ refl, where t = "now + backoffFor (em_deliveryCount ?m) ?p"]) simp
      moreover have "moved ?d q' {#}"
        using 2(2) [OF True refl refl] retry "2.prems"(2,4) True others moved_keyed [OF \<open>moved q ?d {#}\<close>]
        by (simp add: Let_def split: prod.splits)
      ultimately show ?thesis
        using moved_trans by fastforce
    qed
  qed
qed

lemma moved_requeueExpired:
  assumes "keyed q" and "requeueExpired now q = (q', expired)"
  shows "moved q q' {#}"
  using moved_expire [OF assms(1) _ _ assms(2) [unfolded requeueExpired_def]] keyed_entries [OF assms(1)]
  by (auto simp: jmap_wf_def jmap_keys_def jmap_get_def)

lemma mset_splice_out: "i < length xs \<Longrightarrow> mset xs = add_mset (xs ! i) (mset (splice_out i xs))"
  by (simp add: splice_out_def) (metis id_take_nth_drop mset.simps(2) mset_append union_mset_add_mset_right)

lemma moved_requeueDeadLetter:
  assumes "keyed q" and "requeueDeadLetter mid q = (q', done)"
  shows "moved q q' {#}"
proof (cases "find (\<lambda>m. em_id m = mid) (bq_deadLetter q)")
  case None
  then show ?thesis
    using assms moved_refl by (simp add: requeueDeadLetter_def)
next
  case (Some y)
  let ?i = "length (takeWhile (\<lambda>m. em_id m \<noteq> mid) (bq_deadLetter q))"
  let ?m = "bq_deadLetter q ! ?i"
  let ?p = "q\<lparr>bq_deadLetter := splice_out ?i (bq_deadLetter q)\<rparr>"
  have i: "?i < length (bq_deadLetter q)"
    using find_position [OF Some] by simp
  have "holds q = add_mset ?m (holds ?p)"
    using mset_splice_out [OF i] by (simp add: holds_def)
  moreover have q': "q' = push_ready (?m\<lparr>em_deliveryCount := 0\<rparr>) ?p"
    using assms(2) Some by (simp add: requeueDeadLetter_def Let_def)
  ultimately have "bag q' = bag q"
    by (simp add: bag_def holds_push)
  then show ?thesis
    using keyed_entries [OF assms(1)] by (intro movedI [OF assms(1)]) (simp_all add: q')
qed

text \<open>A member of a group is known after its join, so marking its progress does not fail.\<close>

definition joined :: "jstring \<Rightarrow> 'p broker_queue \<Rightarrow> bool" where
  "joined grp q \<longleftrightarrow> group_get (bq_name q) grp (bq_groups q) \<noteq> None"

lemma group_get_put [simp]: "group_get queue grp (group_put queue grp off cg) = Some off"
  by (simp add: group_get_def group_put_def)

lemma group_join_gets: "group_join now queue grp from_seq cg = (cg', off) \<Longrightarrow> group_get queue grp cg' = Some off"
  by (auto simp: group_join_def Let_def split: option.splits)

lemma fetchMark_ok:
  assumes "group_get queue grp cg \<noteq> None"
  shows "\<exists>cg'. fetchMark now queue grp seq cg = Inr cg' \<and> group_get queue grp cg' \<noteq> None"
  using assms by (auto simp: fetchMark_def mustGet_def split: option.splits)

lemma held_message_unique:
  assumes "keyed q" and "m \<in># holds q" and "m' \<in># holds q" and "em_id m' = em_id m"
  shows "m' = m"
proof (rule ccontr)
  assume "m' \<noteq> m"
  obtain rest where "holds q = add_mset m rest"
    using assms(2) by (metis multi_member_split)
  then show False
    using held_once [OF assms(1), of m rest m'] assms(3,4) \<open>m' \<noteq> m\<close> by simp
qed

lemma moved_fetch_each:
  assumes "keyed q" and "joined grp q" and "distinct (map em_id ms)" and "set ms \<subseteq> set (ph_toArray (bq_ready q))"
  shows "\<exists>q' out. fetch_each tg grp ms q = (q', Inr out) \<and> moved q q' (mset out)
     \<and> out = map (\<lambda>m. m\<lparr>em_deliveryCount := em_deliveryCount m + 1\<rparr>) ms"
  using assms
proof (induction ms arbitrary: q)
  case Nil
  then show ?case
    by (simp add: moved_refl)
next
  case (Cons m ms)
  have in_ready: "m \<in> set (ph_toArray (bq_ready q))"
    using Cons.prems(4) by simp
  obtain ready found where rem: "ph_remove (\<lambda>x. em_id x = em_id m) (bq_ready q) = (ready, found)"
    by fastforce
  obtain x where x: "found = Some x"
    using ph_remove_None [of _ "bq_ready q" ready] rem in_ready by (cases found) auto
  have parts: "mset (ph_toArray (bq_ready q)) = add_mset x (mset (ph_toArray ready))" "em_id x = em_id m"
    using ph_remove_items [OF rem [unfolded x]] by simp_all
  have "x \<in> set (ph_toArray (bq_ready q))"
    using parts(1) by (metis set_mset_mset union_single_eq_member)
  then have xm: "x = m"
    using held_message_unique [OF Cons.prems(1), of m x] in_ready parts(2) by (simp add: holds_def)
  let ?p = "q\<lparr>bq_ready := ready, bq_totalDelivered := bq_totalDelivered q + 1\<rparr>"
  obtain groups where groups: "fetchMark tg (bq_name q) grp (em_seq m) (bq_groups q) = Inr groups"
      "group_get (bq_name q) grp groups \<noteq> None"
    using fetchMark_ok Cons.prems(2) unfolding joined_def by meson
  let ?g = "?p\<lparr>bq_groups := groups\<rparr>"
  have "holds q = add_mset m (holds ?g)"
    using parts(1) xm by (simp add: holds_def)
  then have one: "moved q ?g {#m\<lparr>em_deliveryCount := em_deliveryCount m + 1\<rparr>#}"
    using keyed_entries [OF Cons.prems(1)] by (intro movedI [OF Cons.prems(1)]) (simp_all add: bag_def)
  have "set (ph_toArray (bq_ready q)) = insert m (set (ph_toArray ready))"
    using arg_cong [OF parts(1), of set_mset] xm by simp
  then have "set ms \<subseteq> set (ph_toArray ready)"
    using Cons.prems(3,4) by auto
  moreover have "joined grp ?g"
    using groups(2) by (simp add: joined_def)
  ultimately obtain q' out where rest: "fetch_each tg grp ms ?g = (q', Inr out)" "moved ?g q' (mset out)"
      "out = map (\<lambda>m. m\<lparr>em_deliveryCount := em_deliveryCount m + 1\<rparr>) ms"
    using Cons.IH [OF moved_keyed [OF one]] Cons.prems(3) by auto
  show ?case
    using rest moved_trans [OF one rest(2)] rem groups(1) by (simp add: Let_def)
qed

lemma ready_ids_distinct:
  assumes "keyed q"
  shows "distinct (map em_id (ph_toArray (bq_ready q)))"
proof (rule ccontr)
  assume "\<not> ?thesis"
  then obtain x where "count (mset (map em_id (ph_toArray (bq_ready q)))) x > 1"
    by (metis distinct_count_atmost_1 less_one linorder_neqE_nat not_in_iff set_mset_mset)
  moreover have "count (ids q) x \<ge> count (mset (map em_id (ph_toArray (bq_ready q)))) x"
    by (simp add: ids_def bag_def holds_def multiset.map_comp comp_def)
  ultimately show False
    using assms by (auto simp: keyed_def not_le dest: spec [of _ x])
qed

lemma moved_fetchForGroup:
  assumes "keyed q"
  shows "\<exists>q' out. fetchForGroup t1 tg grp n q = (q', Inr out) \<and> moved q q' (mset out)"
proof -
  obtain p k where promoted: "promoteDelayed t1 q = (p, k)"
    by fastforce
  note mp = moved_promote [OF assms promoted]
  obtain groups off where joins: "group_join tg (bq_name p) grp 0 (bq_groups p) = (groups, off)"
    by fastforce
  let ?g = "p\<lparr>bq_groups := groups\<rparr>"
  let ?c = "sort_key em_seq (filter (\<lambda>m. em_seq m \<ge> go_position off) (ph_toArray (bq_ready p)))"
  have mg: "moved p ?g {#}"
    using moved_keyed [OF mp] keyed_entries [OF moved_keyed [OF mp]]
    by (intro movedI) (simp_all add: bag_def holds_irrelevant)
  have "distinct (map em_id ?c)"
    using ready_ids_distinct [OF moved_keyed [OF mp]]
    by (simp add: distinct_map inj_on_def)
  then have "distinct (map em_id (slice_to n ?c))"
    by (simp add: slice_to_def flip: take_map)
  moreover have "set (slice_to n ?c) \<subseteq> set (ph_toArray (bq_ready ?g))"
    using set_take_subset by (fastforce simp: slice_to_def)
  moreover have "joined grp ?g"
    using group_join_gets [OF joins] by (simp add: joined_def)
  ultimately obtain q' out where fetched: "fetch_each tg grp (slice_to n ?c) ?g = (q', Inr out)" "moved ?g q' (mset out)"
    using moved_fetch_each [OF moved_keyed [OF mg]] by blast
  have "moved q q' (mset out)"
    using moved_trans [OF moved_trans [OF mp mg] fetched(2)] by simp
  then show ?thesis
    using fetched(1) promoted joins by (simp add: fetchForGroup_def Let_def)
qed

lemma moved_commitGroup:
  assumes "keyed q" and "commitGroup tg grp seq q = (q', e)"
  shows "moved q q' {#} \<and> e = None"
proof -
  obtain groups off where joins: "group_join tg (bq_name q) grp 0 (bq_groups q) = (groups, off)"
    by fastforce
  obtain groups' where commits: "group_commit tg (bq_name q) grp seq groups = Inr groups'"
    using group_join_gets [OF joins] by (simp add: group_commit_def mustGet_def)
  have "q' = q\<lparr>bq_groups := groups'\<rparr>" "e = None"
    using assms(2) joins commits by (simp_all add: commitGroup_def)
  then show ?thesis
    using keyed_entries [OF assms(1)] by (simp add: movedI [OF assms(1)] bag_def holds_irrelevant)
qed

section \<open>Every accepted message\<close>

datatype 'p broker_op =
    Enqueue int int int 'p message_options
  | Dequeue int int
  | Ack jstring "nat option"
  | Nack int jstring "nat option"
  | RequeueExpired int
  | FetchForGroup int int jstring int
  | CommitGroup int jstring nat
  | RequeueDeadLetter jstring
  | Promote int

text \<open>An operation, with the message it accepts and those it finishes.\<close>

definition broker_op :: "'p broker_op \<Rightarrow> 'p broker_queue \<Rightarrow> 'p broker_queue \<times> 'p message list \<times> 'p message list" where
  "broker_op op q =
     (case op of
        Enqueue t1 t2 t3 payload options \<Rightarrow>
          (case enqueue_message t1 t2 t3 payload options q of (q, Inr m) \<Rightarrow> (q, [m], []) | (q, Inl _) \<Rightarrow> (q, [], []))
      | Dequeue t1 t2 \<Rightarrow> (fst (dequeue_message t1 t2 q), [], [])
      | Ack mid leaseId \<Rightarrow>
          (let (q', done) = ack mid leaseId q in
           (q', [], if done then map fe_message (case jmap_get (bq_inFlight q) mid of Some e \<Rightarrow> [e] | None \<Rightarrow> []) else []))
      | Nack now mid leaseId \<Rightarrow> (nack now mid leaseId q, [], [])
      | RequeueExpired now \<Rightarrow> (fst (requeueExpired now q), [], [])
      | FetchForGroup t1 tg grp n \<Rightarrow>
          (case fetchForGroup t1 tg grp n q of (q, Inr ms) \<Rightarrow> (q, [], ms) | (q, Inl _) \<Rightarrow> (q, [], []))
      | CommitGroup tg grp seq \<Rightarrow> (fst (commitGroup tg grp seq q), [], [])
      | RequeueDeadLetter mid \<Rightarrow> (fst (requeueDeadLetter mid q), [], [])
      | Promote now \<Rightarrow> (fst (promoteDelayed now q), [], []))"

type_synonym 'p broker_ledger = "'p broker_queue \<times> 'p message list \<times> 'p message list"

definition broker_step :: "'p broker_ledger \<Rightarrow> 'p broker_op \<Rightarrow> 'p broker_ledger" where
  "broker_step l op =
     (case l of (q, accepted, finished) \<Rightarrow>
        (case broker_op op q of (q, new, fin) \<Rightarrow> (q, accepted @ new, finished @ fin)))"

definition ledger_inv :: "'p broker_ledger \<Rightarrow> bool" where
  "ledger_inv l \<longleftrightarrow>
     (case l of (q, accepted, finished) \<Rightarrow>
        inj (bq_idGen q) \<and> keyed q \<and> distinct (map em_id accepted)
          \<and> set (map em_id accepted) \<subseteq> bq_idGen q ` {..<bq_ids q}
          \<and> image_mset as_sent (mset accepted) = bag q + image_mset as_sent (mset finished))"

lemma enqueue_cases:
  assumes "keyed q" and "inj (bq_idGen q)" and "enqueue_message t1 t2 t3 payload options q = (q', r)"
  shows "(case r of Inl _ \<Rightarrow> q' = q | Inr m \<Rightarrow> keyed q' \<and> bag q' = add_mset (as_sent m) (bag q) \<and> bq_idGen q' = bq_idGen q
       \<and> em_id m = bq_idGen q (bq_ids q) \<and> bq_ids q' = Suc (bq_ids q))"
proof (cases r)
  case (Inl e)
  then show ?thesis
    using assms(3) by (auto simp: enqueue_message_def Let_def split: option.splits if_splits)
next
  case (Inr m)
  let ?p = "q\<lparr>bq_ids := bq_ids q + 1, bq_seq := bq_seq q + 1\<rparr>"
  have q': "q' = delay_until m (em_deliverAt m) ?p \<or> q' = push_ready m ?p" and mid: "em_id m = bq_idGen q (bq_ids q)"
    using assms(3) Inr by (auto simp: enqueue_message_def Let_def split: option.splits if_splits)
  then have "holds q' = add_mset m (holds q)"
    by (auto simp: bag_simps)
  then have more_held: "bag q' = add_mset (as_sent m) (bag q)"
    by (simp add: bag_def)
  have frame: "bq_inFlight q' = bq_inFlight q" "bq_idGen q' = bq_idGen q" "bq_ids q' = Suc (bq_ids q)"
    using q' by auto
  have new_ids: "ids q' = add_mset (em_id m) (ids q)"
    by (simp add: ids_def more_held)
  have used: "set_mset (ids q) \<subseteq> bq_idGen q ` {..<bq_ids q}"
    using assms(1) by (simp add: keyed_def)
  have "em_id m \<notin># ids q"
    using used mid assms(2) by (auto dest: injD)
  then have "count (ids q') x \<le> 1" for x
    using assms(1) by (auto simp: new_ids keyed_def not_in_iff)
  moreover have "set_mset (ids q') \<subseteq> bq_idGen q' ` {..<bq_ids q'}"
    using used by (auto simp: new_ids frame mid lessThan_Suc)
  ultimately have "keyed q'"
    using keyed_entries [OF assms(1)] unfolding keyed_def by (simp add: frame)
  then show ?thesis
    using Inr more_held frame mid by simp
qed

lemma broker_op_moves:
  assumes "keyed q" and "inj (bq_idGen q)" and "broker_op op q = (q', new, fin)"
  shows "keyed q' \<and> bq_idGen q' = bq_idGen q
     \<and> bag q + image_mset as_sent (mset new) = bag q' + image_mset as_sent (mset fin)
     \<and> map em_id new = map (bq_idGen q) [bq_ids q ..< bq_ids q'] \<and> bq_ids q \<le> bq_ids q'"
proof -
  have moves: ?thesis if "new = []" "moved q q' (mset fin)"
    using that by (simp add: moved_def add.commute)
  show ?thesis
  proof (cases op)
    case (Enqueue t1 t2 t3 payload options)
    obtain p r where "enqueue_message t1 t2 t3 payload options q = (p, r)"
      by fastforce
    then show ?thesis
      using enqueue_cases [OF assms(1,2)] assms(1,3) Enqueue by (cases r) (fastforce simp: broker_op_def)+
  next
    case (Dequeue t1 t2)
    then show ?thesis
      using assms(3) moved_dequeue [OF assms(1), of t1 t2] moves by (auto simp: broker_op_def prod_eq_iff)
  next
    case (Ack mid leaseId)
    obtain p d where "ack mid leaseId q = (p, d)"
      by fastforce
    then show ?thesis
      using assms(3) moved_ack [OF assms(1)] moves Ack
      by (fastforce simp: broker_op_def split: option.splits if_splits)
  next
    case (Nack now mid leaseId)
    then show ?thesis
      using assms(3) moved_nack [OF assms(1), of now mid leaseId] moves by (auto simp: broker_op_def)
  next
    case (RequeueExpired now)
    then show ?thesis
      using assms(3) moved_requeueExpired [OF assms(1), of now] moves by (auto simp: broker_op_def prod_eq_iff)
  next
    case (FetchForGroup t1 tg grp n)
    then show ?thesis
      using assms(3) moved_fetchForGroup [OF assms(1), of t1 tg grp n] moves by (auto simp: broker_op_def)
  next
    case (CommitGroup tg grp seq)
    then show ?thesis
      using assms(3) moved_commitGroup [OF assms(1), of tg grp seq] moves by (auto simp: broker_op_def prod_eq_iff)
  next
    case (RequeueDeadLetter mid)
    then show ?thesis
      using assms(3) moved_requeueDeadLetter [OF assms(1), of mid] moves by (auto simp: broker_op_def prod_eq_iff)
  next
    case (Promote now)
    then show ?thesis
      using assms(3) moved_promote [OF assms(1), of now] moves by (auto simp: broker_op_def prod_eq_iff)
  qed
qed

interpretation broker_ledger: invariant_machine broker_step ledger_inv
proof
  fix l :: "'a broker_ledger" and op
  assume inv: "ledger_inv l"
  obtain q accepted finished q' new fin where l: "l = (q, accepted, finished)" "broker_op op q = (q', new, fin)"
    by (metis prod_cases3)
  have before: "inj (bq_idGen q)" "keyed q" "distinct (map em_id accepted)"
      "set (map em_id accepted) \<subseteq> bq_idGen q ` {..<bq_ids q}"
      "image_mset as_sent (mset accepted) = bag q + image_mset as_sent (mset finished)"
    using inv by (simp_all add: ledger_inv_def l(1))
  note after = broker_op_moves [OF before(2,1) l(2)]
  have new_ids: "map em_id new = map (bq_idGen q) [bq_ids q ..< bq_ids q']"
    using after by blast
  have new_ones: "set (map em_id new) = bq_idGen q ` {bq_ids q ..< bq_ids q'}"
    by (simp only: new_ids set_map set_upt)
  have "bq_idGen q ` {..<bq_ids q} \<inter> bq_idGen q ` {bq_ids q ..< bq_ids q'} = {}"
    using before(1) by (auto dest: injD)
  then have "set (map em_id accepted) \<inter> set (map em_id new) = {}"
    using before(4) new_ones by blast
  moreover have "distinct (map em_id new)"
    using before(1) by (simp add: new_ids distinct_map inj_on_def inj_def)
  moreover have "set (map em_id (accepted @ new)) \<subseteq> bq_idGen q' ` {..<bq_ids q'}"
  proof -
    have gen: "bq_idGen q' = bq_idGen q" and grows: "bq_ids q \<le> bq_ids q'"
      using after by simp_all
    have "bq_idGen q ` {..<bq_ids q} \<subseteq> bq_idGen q ` {..<bq_ids q'}"
      using grows by (intro image_mono) auto
    then have old_ones: "set (map em_id accepted) \<subseteq> bq_idGen q ` {..<bq_ids q'}"
      using before(4) by (rule subset_trans [rotated])
    have "bq_idGen q ` {bq_ids q ..< bq_ids q'} \<subseteq> bq_idGen q ` {..<bq_ids q'}"
      by (intro image_mono) auto
    then show ?thesis
      unfolding gen map_append set_append new_ones by (rule Un_least [OF old_ones])
  qed
  moreover have "image_mset as_sent (mset (accepted @ new)) = bag q' + image_mset as_sent (mset (finished @ fin))"
  proof -
    have "bag q + image_mset as_sent (mset new) = bag q' + image_mset as_sent (mset fin)"
      using after by blast
    then show ?thesis
      using before(5) by (simp add: union_assoc union_lcomm)
  qed
  moreover have "keyed q'" "bq_idGen q' = bq_idGen q"
    using after by simp_all
  ultimately show "ledger_inv (broker_step l op)"
    using before(1,3) by (simp add: ledger_inv_def broker_step_def l image_Un)
qed

lemma default_idGen_inj: "inj (default_idGen name)"
  by (rule injI) (simp add: default_idGen_def)

lemma ledger_inv_new:
  "(case bo_idGen options of None \<Rightarrow> True | Some gen \<Rightarrow> inj gen) \<Longrightarrow> ledger_inv (new_broker options, [], [])"
  by (auto simp: ledger_inv_def new_broker_def keyed_def ids_def bag_def holds_def ph_toArray_def default_idGen_inj Let_def
      jmap_empty_def jmap_wf_def jmap_keys_def split: option.splits)

text \<open>
  C16: when the generator never repeats an id, as the default one does not, then after any operations the
  accepted messages are exactly those the queue still holds (ready, delayed, leased or dead-lettered) and those that
  were acknowledged or handed to a group: none is lost and none is in two places.
\<close>

theorem broker_conserves:
  assumes "case bo_idGen options of None \<Rightarrow> True | Some gen \<Rightarrow> inj gen"
    and "foldl broker_step (new_broker options, [], []) ops = (q, accepted, finished)"
  shows "mset (map as_sent accepted) = bag q + mset (map as_sent finished) \<and> distinct (map em_id accepted)"
proof -
  have "ledger_inv (q, accepted, finished)"
    using broker_ledger.inv_run [OF ledger_inv_new [OF assms(1)], of ops] assms(2) by simp
  then show ?thesis
    by (simp add: ledger_inv_def)
qed

definition sample_options :: broker_options where
  "sample_options = \<lparr>bo_name = None, bo_retryPolicy = (\<lambda>p. p), bo_highWatermark = Some 100, bo_visibilityTimeoutMs = None,
     bo_idGen = None\<rparr>"

definition sample_ops :: "nat broker_op list" where
  "sample_ops =
     [Enqueue 0 0 0 7 \<lparr>mo_priority = None, mo_delayMs = None, mo_headers = None\<rparr>,
      Enqueue 0 0 0 8 \<lparr>mo_priority = Some 2, mo_delayMs = Some 50, mo_headers = None\<rparr>,
      Dequeue 10 10, Ack (default_idGen (js ''queue'') 0) (Some 0), Dequeue 60 60]"

definition sample_ledger :: "nat broker_ledger" where
  "sample_ledger = foldl broker_step (new_broker sample_options, [], []) sample_ops"

theorem broker_conserves_witness:
  "case sample_ledger of (q, accepted, finished) \<Rightarrow>
     mset (map as_sent accepted) = bag q + mset (map as_sent finished) \<and> distinct (map em_id accepted)"
proof -
  obtain q accepted finished where l: "sample_ledger = (q, accepted, finished)"
    by (metis prod_cases3)
  then show ?thesis
    using broker_conserves [of sample_options sample_ops q accepted finished]
    by (simp add: sample_ledger_def sample_options_def)
qed

section \<open>What a lease gives\<close>

text \<open>
  Ready, leased and dead messages are past their delivery time, delayed ones are due no earlier than it; a message that will be
  delivered again has attempts left, a leased one was not delivered too often.
\<close>

definition attempts :: "'p broker_queue \<Rightarrow> int" where
  "attempts q = rp_maxAttempts (bq_policy q)"

definition timely :: "int \<Rightarrow> 'p broker_queue \<Rightarrow> bool" where
  "timely now q \<longleftrightarrow>
     (\<forall>m \<in> set (ph_toArray (bq_ready q)). em_deliverAt m \<le> now \<and> int (em_deliveryCount m) < attempts q)
     \<and> (\<forall>e \<in> set (ds_heap (bq_delayed q)).
          em_deliverAt (de_item e) \<le> max now (de_dueAt e) \<and> int (em_deliveryCount (de_item e)) < attempts q)
     \<and> (\<forall>(_, e) \<in> set (bq_inFlight q).
          em_deliverAt (fe_message e) \<le> now \<and> int (em_deliveryCount (fe_message e)) \<le> attempts q)
     \<and> (\<forall>m \<in> set (bq_deadLetter q). em_deliverAt m \<le> now)"

lemma ph_push_set [simp]: "set (ph_toArray (ph_push m p s h)) = insert m (set (ph_toArray h))"
  using arg_cong [OF ph_push_items [of m p s h], of set_mset] by simp

lemma ph_pop_set: "ph_pop h = (h', Some m) \<Longrightarrow> set (ph_toArray h) = insert m (set (ph_toArray h'))"
  using arg_cong [OF ph_pop_items, of h h' m set_mset] by simp

lemma ph_remove_subset: "ph_remove p h = (h', r) \<Longrightarrow> set (ph_toArray h') \<subseteq> set (ph_toArray h)"
  using arg_cong [OF conjunct1 [OF ph_remove_items], of p h h' _ set_mset] ph_remove_None [of p h h']
  by (cases r) auto

lemma schedule_set [simp]:
  "set (ds_heap (schedule_at m t s)) = insert \<lparr>de_dueAt = t, de_seq = ds_seq s, de_item = m\<rparr> (set (ds_heap s))"
  by (simp add: schedule_at_def) (metis mset_heap_push set_mset_add_mset_insert set_mset_mset)

lemma collectDue_sets:
  assumes "collectDue now s = (s', out)"
  shows "\<exists>es. out = map de_item es \<and> set (ds_heap s) = set es \<union> set (ds_heap s') \<and> (\<forall>e \<in> set es. de_dueAt e \<le> now)"
proof -
  obtain h' where loop: "collect_loop now (ds_heap s) = (h', out)" "ds_heap s' = h'"
    using assms by (auto simp: collectDue_def split: prod.splits)
  obtain es where es: "mset (ds_heap s) = mset es + mset h'" "out = map de_item es" "\<forall>e \<in> set es. de_dueAt e \<le> now"
    using collect_loop_splits [OF loop(1)] by blast
  moreover have "set (ds_heap s) = set es \<union> set h'"
    by (metis es(1) set_mset_mset set_mset_union)
  ultimately show ?thesis
    using loop(2) by blast
qed

lemma timely_later: "timely now q \<Longrightarrow> now \<le> t \<Longrightarrow> timely t q"
  unfolding timely_def by fastforce

lemma timely_push: "timely now q \<Longrightarrow> em_deliverAt m \<le> now \<Longrightarrow> int (em_deliveryCount m) < attempts q \<Longrightarrow> timely now (push_ready m q)"
  by (auto simp: timely_def push_ready_def attempts_def)

lemma timely_pushes:
  "timely now q \<Longrightarrow> \<forall>m \<in> set ms. em_deliverAt m \<le> now \<and> int (em_deliveryCount m) < attempts q \<Longrightarrow>
     timely now (fold push_ready ms q)"
  by (induction ms arbitrary: q) (simp_all add: timely_push, simp add: attempts_def timely_push)

lemma timely_delay:
  "timely now q \<Longrightarrow> em_deliverAt m \<le> max now t \<Longrightarrow> int (em_deliveryCount m) < attempts q \<Longrightarrow> timely now (delay_until m t q)"
  by (auto simp: timely_def delay_until_def attempts_def)

lemma timely_promote:
  assumes "timely now q" and "now \<le> t" and "promoteDelayed t q = (q', n)"
  shows "timely t q'"
proof -
  obtain delayed due where due: "collectDue t (bq_delayed q) = (delayed, due)"
    by fastforce
  obtain es where es: "due = map de_item es" "set (ds_heap (bq_delayed q)) = set es \<union> set (ds_heap delayed)"
      "\<forall>e \<in> set es. de_dueAt e \<le> t"
    using collectDue_sets [OF due] by blast
  have tq: "timely t q"
    using timely_later assms(1,2) by blast
  have "timely t (q\<lparr>bq_delayed := delayed\<rparr>)"
    using tq es(2) by (auto simp: timely_def attempts_def)
  moreover have "\<forall>m \<in> set due. em_deliverAt m \<le> t \<and> int (em_deliveryCount m) < attempts q"
  proof
    fix m
    assume "m \<in> set due"
    then obtain e where e: "e \<in> set (ds_heap (bq_delayed q))" "m = de_item e" "de_dueAt e \<le> t"
      using es by auto
    then have "em_deliverAt m \<le> max t (de_dueAt e) \<and> int (em_deliveryCount m) < attempts q"
      using tq unfolding timely_def by blast
    then show "em_deliverAt m \<le> t \<and> int (em_deliveryCount m) < attempts q"
      using e(3) by simp
  qed
  ultimately show ?thesis
    using assms(3) due timely_pushes [of t "q\<lparr>bq_delayed := delayed\<rparr>" due] by (auto simp: promoteDelayed_def attempts_def)
qed

lemma timely_release:
  "timely now q \<Longrightarrow> timely now (q\<lparr>bq_inFlight := jmap_delete mid (bq_inFlight q)\<rparr>)"
  by (auto simp: timely_def attempts_def jmap_delete_def AList.delete_eq)

lemma timely_leased:
  "timely now q \<Longrightarrow> jmap_get (bq_inFlight q) mid = Some e \<Longrightarrow>
     em_deliverAt (fe_message e) \<le> now \<and> int (em_deliveryCount (fe_message e)) \<le> attempts q"
  by (auto simp: timely_def jmap_get_def dest!: map_of_SomeD)

lemma timely_bury:
  "timely now q \<Longrightarrow> em_deliverAt m \<le> now \<Longrightarrow> timely now (q\<lparr>bq_deadLetter := bq_deadLetter q @ [m]\<rparr>)"
  by (auto simp: timely_def attempts_def)

lemma timely_lease:
  assumes "timely now q" and "em_deliverAt (fe_message e) \<le> now" and "int (em_deliveryCount (fe_message e)) \<le> attempts q"
  shows "timely now (q\<lparr>bq_totalDelivered := n, bq_leaseSeq := l, bq_inFlight := jmap_set mid e (bq_inFlight q)\<rparr>)"
proof -
  have "\<forall>(_, e) \<in> set (jmap_set mid e (bq_inFlight q)).
      em_deliverAt (fe_message e) \<le> now \<and> int (em_deliveryCount (fe_message e)) \<le> attempts q"
  proof
    fix x
    assume "x \<in> set (jmap_set mid e (bq_inFlight q))"
    then have "x = (mid, e) \<or> x \<in> set (bq_inFlight q)"
      by (rule jmap_set_members)
    then show "case x of (_, e) \<Rightarrow> em_deliverAt (fe_message e) \<le> now \<and> int (em_deliveryCount (fe_message e)) \<le> attempts q"
      using assms by (auto simp: timely_def)
  qed
  then show ?thesis
    using assms(1) by (simp add: timely_def attempts_def)
qed

lemma dequeue_gives:
  assumes "timely now q" and "now \<le> t1" and "t1 \<le> t2" and "dequeue_message t1 t2 q = (q', r)"
  shows "timely t2 q' \<and> (case r of None \<Rightarrow> True | Some lease \<Rightarrow>
     em_deliverAt (dl_message lease) \<le> t1 \<and> 0 < em_deliveryCount (dl_message lease)
       \<and> int (em_deliveryCount (dl_message lease)) \<le> attempts q)"
proof -
  obtain p n where promoted: "promoteDelayed t1 q = (p, n)"
    by fastforce
  have tp: "timely t1 p" and same: "attempts p = attempts q"
    using timely_promote [OF assms(1,2) promoted] promote_frame(6) [OF promoted] by (simp_all add: attempts_def)
  obtain ready msg where pop: "ph_pop (bq_ready p) = (ready, msg)"
    by fastforce
  show ?thesis
  proof (cases msg)
    case None
    then have "q' = p" "r = None"
      using assms(4) promoted pop ph_pop_None [of "bq_ready p" ready] by (auto simp: dequeue_message_def)
    then show ?thesis
      using timely_later [OF tp assms(3)] by simp
  next
    case (Some m)
    let ?e = "\<lparr>fe_message = m\<lparr>em_deliveryCount := em_deliveryCount m + 1\<rparr>, fe_leaseExpiresAt = t2 + bq_visibilityTimeoutMs p,
        fe_leaseId = bq_leaseSeq p\<rparr>"
    have members: "set (ph_toArray (bq_ready p)) = insert m (set (ph_toArray ready))"
      by (rule ph_pop_set [OF pop [unfolded Some]])
    then have m: "em_deliverAt m \<le> t1" "int (em_deliveryCount m) < attempts p"
      using tp by (simp_all add: timely_def)
    have "timely t1 (p\<lparr>bq_ready := ready\<rparr>)"
      using tp members by (auto simp: timely_def attempts_def)
    then have "timely t2 (p\<lparr>bq_ready := ready\<rparr>)"
      using timely_later assms(3) by blast
    moreover have "q' = p\<lparr>bq_ready := ready, bq_totalDelivered := bq_totalDelivered p + 1, bq_leaseSeq := bq_leaseSeq p + 1,
        bq_inFlight := jmap_set (em_id m) ?e (bq_inFlight p)\<rparr>"
      using assms(4) promoted pop Some by (simp add: dequeue_message_def Let_def)
    moreover have "em_deliverAt (fe_message ?e) \<le> t2" "int (em_deliveryCount (fe_message ?e)) \<le> attempts p"
      using m assms(3) by simp_all
    ultimately have "timely t2 q'"
      using timely_lease [of t2 "p\<lparr>bq_ready := ready\<rparr>" ?e] by (simp add: attempts_def)
    then show ?thesis
      using assms(4) promoted pop Some m same by (auto simp: dequeue_message_def Let_def)
  qed
qed

lemma timely_enqueue:
  assumes "timely now q" and "now \<le> t1" and "t1 \<le> t2" and "t2 \<le> t3" and "1 \<le> attempts q"
    and "enqueue_message t1 t2 t3 payload options q = (q', r)"
  shows "timely t3 q' \<and> attempts q' = attempts q"
proof (cases r)
  case (Inl e)
  then have "q' = q"
    using assms(6) by (auto simp: enqueue_message_def Let_def split: option.splits if_splits)
  then show ?thesis
    using assms(2-4) timely_later [OF assms(1), of t3] by simp
next
  case (Inr m)
  let ?p = "q\<lparr>bq_ids := bq_ids q + 1, bq_seq := bq_seq q + 1\<rparr>"
  have tp: "timely t3 ?p" and ap: "attempts ?p = attempts q"
    using timely_later [OF assms(1), of t3] assms(2-4) by (simp_all add: timely_def attempts_def)
  have "em_deliveryCount m = 0"
    and "q' = delay_until m (em_deliverAt m) ?p \<or> em_deliverAt m \<le> t3 \<and> q' = push_ready m ?p"
    using assms(6) Inr by (auto simp: enqueue_message_def Let_def split: option.splits if_splits)
  then show ?thesis
    using timely_delay [OF tp, of m "em_deliverAt m"] timely_push [OF tp, of m] ap assms(5)
    by (auto simp: attempts_def)
qed

lemma attempts_frame [simp]:
  "attempts (push_ready m q) = attempts q" "attempts (delay_until m t q) = attempts q"
  "attempts (q\<lparr>bq_inFlight := f\<rparr>) = attempts q" "attempts (q\<lparr>bq_deadLetter := d\<rparr>) = attempts q"
  "attempts (q\<lparr>bq_groups := g\<rparr>) = attempts q"
  by (simp_all add: attempts_def)

lemma timely_nack:
  assumes "timely now q"
  shows "timely now (nack now mid leaseId q) \<and> attempts (nack now mid leaseId q) = attempts q"
proof (cases "\<exists>e. jmap_get (bq_inFlight q) mid = Some e \<and> lease_matches leaseId e")
  case True
  then obtain e where e: "jmap_get (bq_inFlight q) mid = Some e" "lease_matches leaseId e"
    by blast
  let ?p = "q\<lparr>bq_inFlight := jmap_delete mid (bq_inFlight q)\<rparr>"
  note tp = timely_release [OF assms, of mid]
  note me = timely_leased [OF assms e(1)]
  have "em_deliverAt (fe_message e) \<le> max now (now + backoffFor (em_deliveryCount (fe_message e)) ?p)"
    using me by (simp add: le_max_iff_disj)
  then show ?thesis
    using e timely_bury [OF tp] timely_push [OF tp] timely_delay [OF tp] me
    by (simp add: nack_def Let_def) (simp add: attempts_def)
next
  case False
  then show ?thesis
    using assms by (auto simp: nack_def split: option.split)
qed

lemma timely_expire:
  assumes "timely now q" and "\<forall>(mid, e) \<in> set entries. em_deliverAt (fe_message e) \<le> now"
    and "expire_entries now entries q = (q', expired)"
  shows "timely now q' \<and> attempts q' = attempts q"
  using assms
proof (induction now entries q arbitrary: q' expired rule: expire_entries.induct)
  case (1 now q)
  then show ?case by simp
next
  case (2 now mid e entries q)
  let ?p = "q\<lparr>bq_inFlight := jmap_delete mid (bq_inFlight q)\<rparr>"
  let ?m = "fe_message e"
  note tp = timely_release [OF "2.prems"(1), of mid]
  have m: "em_deliverAt ?m \<le> now"
    using "2.prems"(2) by simp
  show ?case
  proof (cases "fe_leaseExpiresAt e \<le> now")
    case False
    then show ?thesis
      using 2(3) [OF False "2.prems"(1)] "2.prems"(2,3) by simp
  next
    case True
    show ?thesis
    proof (cases "int (em_deliveryCount ?m) \<ge> rp_maxAttempts (bq_policy ?p)")
      case dead: True
      then show ?thesis
        using 2(1) [OF True refl refl] "2.prems"(2,3) True timely_bury [OF tp m] by (simp add: Let_def)
    next
      case retry: False
      let ?d = "delay_until ?m (now + backoffFor (em_deliveryCount ?m) ?p) ?p"
      have "timely now ?d"
        using retry m by (intro timely_delay [OF tp]) (simp_all add: attempts_def le_max_iff_disj)
      then show ?thesis
        using 2(2) [OF True refl refl] retry "2.prems"(2,3) True by (simp add: Let_def split: prod.splits)
    qed
  qed
qed

lemma timely_fetch_each:
  assumes "timely now q" and "fetch_each tg grp ms q = (q', r)"
  shows "timely now q' \<and> attempts q' = attempts q"
  using assms
proof (induction tg grp ms q arbitrary: q' r rule: fetch_each.induct)
  case (1 tg grp q)
  then show ?case by simp
next
  case (2 tg grp m ms q)
  obtain ready found where rem: "ph_remove (\<lambda>x. em_id x = em_id m) (bq_ready q) = (ready, found)"
    by fastforce
  let ?p = "q\<lparr>bq_ready := ready, bq_totalDelivered := bq_totalDelivered q + 1\<rparr>"
  have tp: "timely now (?p\<lparr>bq_groups := g\<rparr>)" "timely now ?p" for g
    using "2.prems"(1) ph_remove_subset [OF rem] by (auto simp: timely_def attempts_def)
  show ?case
  proof (cases "fetchMark tg (bq_name q) grp (em_seq m) (bq_groups q)")
    case (Inl e)
    then show ?thesis
      using "2.prems"(2) rem tp(2) by (auto simp: Let_def attempts_def)
  next
    case (Inr groups)
    obtain q2 r2 where rest: "fetch_each tg grp ms (?p\<lparr>bq_groups := groups\<rparr>) = (q2, r2)"
      by fastforce
    have "q' = q2"
      using "2.prems"(2) rem Inr rest by (simp add: Let_def)
    then show ?thesis
      using "2.IH" [OF rem [symmetric] refl refl refl, of groups q2 r2] Inr tp(1) rest by (simp add: attempts_def)
  qed
qed

lemma timely_requeueDeadLetter:
  assumes "timely now q" and "1 \<le> attempts q"
  shows "timely now (fst (requeueDeadLetter mid q)) \<and> attempts (fst (requeueDeadLetter mid q)) = attempts q"
proof (cases "find (\<lambda>m. em_id m = mid) (bq_deadLetter q)")
  case None
  then show ?thesis
    using assms by (simp add: requeueDeadLetter_def)
next
  case (Some y)
  let ?i = "length (takeWhile (\<lambda>m. em_id m \<noteq> mid) (bq_deadLetter q))"
  let ?m = "bq_deadLetter q ! ?i"
  let ?p = "q\<lparr>bq_deadLetter := splice_out ?i (bq_deadLetter q)\<rparr>"
  have i: "?i < length (bq_deadLetter q)"
    using find_position [OF Some] by simp
  have "set (bq_deadLetter q) = insert ?m (set (splice_out ?i (bq_deadLetter q)))"
    using arg_cong [OF mset_splice_out [OF i], of set_mset] by simp
  then have "timely now ?p" and "em_deliverAt ?m \<le> now"
    using assms(1) i by (auto simp: timely_def attempts_def)
  then have "timely now (push_ready (?m\<lparr>em_deliveryCount := 0\<rparr>) ?p)"
    using assms(2) by (intro timely_push) simp_all
  then show ?thesis
    using Some by (simp add: requeueDeadLetter_def Let_def)
qed

lemma timely_groups: "timely now q \<Longrightarrow> timely now (q\<lparr>bq_groups := g\<rparr>)"
  by (simp add: timely_def)

lemma timely_drop:
  "timely now q \<Longrightarrow> timely now (fst (ack mid leaseId q)) \<and> attempts (fst (ack mid leaseId q)) = attempts q"
  using timely_release by (auto simp: ack_def split: option.split)

text \<open>The clock readings an operation makes of the queue's clock, in their order.\<close>

definition op_times :: "'p broker_op \<Rightarrow> int list" where
  "op_times op =
     (case op of
        Enqueue t1 t2 t3 _ _ \<Rightarrow> [t1, t2, t3] | Dequeue t1 t2 \<Rightarrow> [t1, t2] | Ack _ _ \<Rightarrow> [] | Nack t _ _ \<Rightarrow> [t]
      | RequeueExpired t \<Rightarrow> [t] | FetchForGroup t _ _ _ \<Rightarrow> [t] | CommitGroup _ _ _ \<Rightarrow> [] | RequeueDeadLetter _ \<Rightarrow> []
      | Promote t \<Rightarrow> [t])"

definition readings :: "'p broker_op list \<Rightarrow> int list" where
  "readings ops = concat (map op_times ops)"

lemma timely_op:
  assumes "timely now q" and "1 \<le> attempts q" and "sorted (now # op_times op)"
  shows "timely (last (now # op_times op)) (fst (broker_op op q)) \<and> attempts (fst (broker_op op q)) = attempts q"
proof (cases op)
  case (Enqueue t1 t2 t3 payload options)
  obtain p r where "enqueue_message t1 t2 t3 payload options q = (p, r)"
    by fastforce
  then show ?thesis
    using timely_enqueue [OF assms(1) _ _ _ assms(2)] assms(3) Enqueue by (cases r) (auto simp: broker_op_def op_times_def)
next
  case (Dequeue t1 t2)
  obtain p r where d: "dequeue_message t1 t2 q = (p, r)"
    by fastforce
  obtain b n where "promoteDelayed t1 q = (b, n)"
    by fastforce
  then have "attempts p = attempts q"
    using d promote_frame(6) [of t1 q b n] by (auto simp: dequeue_message_def Let_def attempts_def split: prod.splits option.splits)
  then show ?thesis
    using dequeue_gives [OF assms(1) _ _ d] assms(3) Dequeue d by (simp add: broker_op_def op_times_def)
next
  case (Ack mid leaseId)
  then show ?thesis
    using timely_drop [OF assms(1), of mid leaseId] by (cases "ack mid leaseId q") (simp add: broker_op_def op_times_def)
next
  case (Nack t mid leaseId)
  then show ?thesis
    using timely_nack [OF timely_later [OF assms(1), of t], of mid leaseId] assms(3) by (simp add: broker_op_def op_times_def)
next
  case (RequeueExpired t)
  obtain p r where e: "requeueExpired t q = (p, r)"
    by fastforce
  have tq: "timely t q"
    using timely_later [OF assms(1)] assms(3) RequeueExpired by (simp add: op_times_def)
  have "\<forall>(mid, e) \<in> set (bq_inFlight q). em_deliverAt (fe_message e) \<le> t"
    using tq by (auto simp: timely_def)
  then show ?thesis
    using timely_expire [OF tq _ e [unfolded requeueExpired_def]] RequeueExpired e by (simp add: broker_op_def op_times_def)
next
  case (FetchForGroup t1 tg grp n)
  obtain p k where promoted: "promoteDelayed t1 q = (p, k)"
    by fastforce
  have tp: "timely t1 p" "attempts p = attempts q"
    using timely_promote [OF assms(1) _ promoted] promote_frame(6) [OF promoted] assms(3) FetchForGroup
    by (simp_all add: op_times_def attempts_def)
  obtain groups off where joins: "group_join tg (bq_name p) grp 0 (bq_groups p) = (groups, off)"
    by fastforce
  let ?c = "slice_to n (sort_key em_seq (filter (\<lambda>m. em_seq m \<ge> go_position off) (ph_toArray (bq_ready p))))"
  obtain q' r where f: "fetch_each tg grp ?c (p\<lparr>bq_groups := groups\<rparr>) = (q', r)"
    by fastforce
  then have "fst (broker_op op q) = q'"
    using promoted joins FetchForGroup by (cases r) (simp_all add: broker_op_def fetchForGroup_def)
  then show ?thesis
    using timely_fetch_each [OF timely_groups [OF tp(1)] f] tp(2) FetchForGroup by (simp add: op_times_def)
next
  case (CommitGroup tg grp seq)
  then show ?thesis
    using timely_groups [OF assms(1)]
    by (simp add: broker_op_def op_times_def commitGroup_def split: prod.split sum.split)
next
  case (RequeueDeadLetter mid)
  then show ?thesis
    using timely_requeueDeadLetter [OF assms(1,2), of mid] by (simp add: broker_op_def op_times_def)
next
  case (Promote t)
  obtain p k where promoted: "promoteDelayed t q = (p, k)"
    by fastforce
  then show ?thesis
    using timely_promote [OF assms(1) _ promoted] promote_frame(6) [OF promoted] assms(3) Promote
    by (simp add: broker_op_def op_times_def attempts_def)
qed

lemma timely_ops:
  assumes "timely now q" and "1 \<le> attempts q" and "sorted (now # readings ops)"
  shows "timely (last (now # readings ops)) (fst (foldl broker_step (q, a, f) ops))
     \<and> attempts (fst (foldl broker_step (q, a, f) ops)) = attempts q"
  using assms
proof (induction ops arbitrary: now q a f)
  case Nil
  then show ?case
    by (simp add: readings_def)
next
  case (Cons op ops)
  let ?now = "last (now # op_times op)"
  have split_times: "now # readings (op # ops) = (now # op_times op) @ readings ops"
    by (simp add: readings_def)
  have times: "sorted (now # op_times op)" "sorted (?now # readings ops)"
    using Cons.prems(3) unfolding split_times by (auto simp: sorted_append)
  have step: "broker_step (q, a, f) op = (fst (broker_op op q), a @ fst (snd (broker_op op q)), f @ snd (snd (broker_op op q)))"
    by (simp add: broker_step_def split: prod.split)
  note one = timely_op [OF Cons.prems(1,2) times(1)]
  have "last (now # readings (op # ops)) = last (?now # readings ops)"
    unfolding split_times by (auto simp: last_append)
  then show ?case
    using Cons.IH [of ?now "fst (broker_op op q)"] one times(2) Cons.prems(2) by (simp add: step)
qed

text \<open>
  C27: with a retry policy that allows at least one attempt and a clock whose readings never decrease, whatever was
  done with a queue before, a lease never gives a message before its delivery time, and counts its deliveries from
  one up to the attempts that the policy allows. With no attempt allowed a message is still delivered once, and
  with a clock that goes back a message already promoted is given early.
\<close>

theorem lease_on_time_and_bounded:
  fixes q :: "'p broker_queue"
  assumes "1 \<le> rp_maxAttempts (bo_retryPolicy options DEFAULT_RETRY_POLICY)"
    and "sorted (start # readings ops @ [t1, t2])"
    and "dequeue_message t1 t2 (fst (foldl broker_step (new_broker options, [], []) ops)) = (q, Some lease)"
  shows "em_deliverAt (dl_message lease) \<le> t1 \<and> 1 \<le> em_deliveryCount (dl_message lease)
     \<and> int (em_deliveryCount (dl_message lease)) \<le> rp_maxAttempts (bo_retryPolicy options DEFAULT_RETRY_POLICY)"
proof -
  let ?q = "fst (foldl broker_step (new_broker options, [], []) ops)"
  have new: "timely start (new_broker options :: 'p broker_queue)"
      "attempts (new_broker options :: 'p broker_queue) = rp_maxAttempts (bo_retryPolicy options DEFAULT_RETRY_POLICY)"
    by (simp_all add: timely_def attempts_def new_broker_def ph_toArray_def new_delay_scheduler_def jmap_empty_def Let_def)
  have times: "sorted (start # readings ops)" "last (start # readings ops) \<le> t1" "t1 \<le> t2"
    using assms(2) by (auto simp: sorted_append)
  have "timely (last (start # readings ops)) ?q" "attempts ?q = attempts (new_broker options :: 'p broker_queue)"
    using timely_ops [OF new(1) _ times(1), of "[]" "[]"] new(2) assms(1) by simp_all
  then show ?thesis
    using dequeue_gives [OF _ times(2,3) assms(3)] new(2) by simp
qed

theorem lease_on_time_and_bounded_witness:
  "em_deliverAt (dl_message (the (snd (dequeue_message 50 50 (fst (foldl broker_step (new_broker sample_options, [], [])
     [Enqueue 0 0 0 (8 :: nat) \<lparr>mo_priority = None, mo_delayMs = Some 50, mo_headers = None\<rparr>]))))) ) \<le> 50"
proof -
  let ?m = "\<lparr>em_id = default_idGen (js ''queue'') 0, em_payload = 8 :: nat, em_priority = 0, em_seq = 0, em_deliverAt = 50,
      em_deliveryCount = 1, em_enqueuedAt = 0, em_visibleAt = 0, em_headers = jmap_empty\<rparr>"
  let ?ops = "[Enqueue 0 0 0 (8 :: nat) \<lparr>mo_priority = None, mo_delayMs = Some 50, mo_headers = None\<rparr>]"
  let ?r = "dequeue_message 50 50 (fst (foldl broker_step (new_broker sample_options, [], []) ?ops))"
  have leased: "snd ?r = Some \<lparr>dl_message = ?m, dl_leaseId = 0\<rparr>"
    by (simp add: broker_step_def broker_op_def enqueue_message_def new_broker_def sample_options_def ph_size_def ds_size_def
        new_delay_scheduler_def delay_until_def schedule_at_def heap_push_def siftUp_def siftUp_loop.simps dequeue_message_def
        promoteDelayed_def collectDue_def collect_loop.simps popMin_def heap_pop_def push_ready_def ph_push_def ph_pop_def Let_def)
  show ?thesis
    using lease_on_time_and_bounded [of sample_options 0 ?ops 50 50 "fst ?r" "\<lparr>dl_message = ?m, dl_leaseId = 0\<rparr>"] leased
    by (simp add: sample_options_def DEFAULT_RETRY_POLICY_def readings_def op_times_def prod_eq_iff)
qed

text \<open>
  An expired lease comes back only when someone calls \<open>requeueExpired\<close>: \<open>dequeue\<close> does not look at the
  leases, at no time.
\<close>

theorem expired_lease_stays:
  assumes "bq_ready q = []" and "ds_heap (bq_delayed q) = []"
  shows "snd (dequeue_message t1 t2 q) = None \<and> bq_inFlight (fst (dequeue_message t1 t2 q)) = bq_inFlight q"
  using assms by (simp add: dequeue_message_def promoteDelayed_def collectDue_def collect_loop.simps ph_pop_def heap_pop_def)

text \<open>
  Two groups do not see the same stream: what one group fetches is taken out of the heap, and the other group
  gets nothing, although its position is still at the start.
\<close>

theorem group_fetch_takes_away:
  assumes "bq_ready q = [\<lparr>he_priority = em_priority m, he_seq = em_seq m, he_item = m\<rparr>]" and "ds_heap (bq_delayed q) = []"
    and "bq_groups q = jmap_empty" and "a \<noteq> b"
  shows "\<exists>q' m'. fetchForGroup t1 tg a 1 q = (q', Inr [m']) \<and> em_id m' = em_id m \<and> snd (fetchForGroup t1 tg b 1 q') = Inr []"
  using assms
  by (simp add: fetchForGroup_def promoteDelayed_def collectDue_def collect_loop.simps group_join_def group_get_def group_put_def
      ph_toArray_def slice_to_def ph_remove_def heap_remove_def fetchMark_def mustGet_def jmap_get_set Let_def jmap_empty_def
      jmap_set_def jmap_get_def)

section \<open>The pull loop\<close>

lemma dequeue_leased:
  assumes "dequeue_message t1 t2 q = (q', Some lease)"
  shows "\<exists>e. jmap_get (bq_inFlight q') (em_id (dl_message lease)) = Some e \<and> fe_message e = dl_message lease
     \<and> fe_leaseId e = dl_leaseId lease"
  using assms by (auto simp: dequeue_message_def Let_def split: prod.splits option.splits)

lemma ack_own_lease:
  assumes "keyed q" and "dequeue_message t1 t2 q = (q', Some lease)"
  shows "moved q (fst (ack (em_id (dl_message lease)) (Some (dl_leaseId lease)) q')) {#dl_message lease#}"
proof -
  note md = moved_dequeue [OF assms]
  obtain e where e: "jmap_get (bq_inFlight q') (em_id (dl_message lease)) = Some e" "fe_message e = dl_message lease"
      "fe_leaseId e = dl_leaseId lease"
    using dequeue_leased [OF assms(2)] by blast
  then have "ack (em_id (dl_message lease)) (Some (dl_leaseId lease)) q' =
      (q'\<lparr>bq_inFlight := jmap_delete (em_id (dl_message lease)) (bq_inFlight q')\<rparr>, True)"
    by (simp add: ack_def lease_matches_def)
  from moved_trans [OF md moved_ack [OF moved_keyed [OF md] this]] this show ?thesis
    using e by simp
qed

text \<open>The messages that a run of the loop hands to the handler, with the results.\<close>

fun work_log ::
    "nat \<Rightarrow> (nat \<Rightarrow> int) \<Rightarrow> ('w \<Rightarrow> 'p message \<Rightarrow> 'w \<times> handler_result) \<Rightarrow> 'w \<Rightarrow> 'p broker_queue
      \<Rightarrow> ('p message \<times> handler_result) list" where
  "work_log 0 clock handler w q = []"
| "work_log (Suc n) clock handler w q =
     (case dequeue_message (clock 0) (clock 1) q of
        (q, None) \<Rightarrow> []
      | (q, Some lease) \<Rightarrow>
          let (w, r) = handler w (dl_message lease);
              q = (case r of
                     Returned \<Rightarrow> fst (ack (em_id (dl_message lease)) (Some (dl_leaseId lease)) q)
                   | PromiseReturned \<Rightarrow> q
                   | Threw \<Rightarrow> nack (clock 2) (em_id (dl_message lease)) (Some (dl_leaseId lease)) q)
          in (dl_message lease, r) # work_log n (\<lambda>i. clock (i + 3)) handler w q)"

definition log_with :: "handler_result \<Rightarrow> ('p message \<times> handler_result) list \<Rightarrow> 'p message list" where
  "log_with r ms = map fst (filter (\<lambda>(_, r'). r' = r) ms)"

lemma work_loop_moves:
  assumes "keyed q" and "work_loop n clock handler w q = ((w', q'), processed, failed)"
  shows "moved q q' (mset (log_with Returned (work_log n clock handler w q)))
     \<and> processed = length (log_with Returned (work_log n clock handler w q)) + length (log_with PromiseReturned (work_log n clock handler w q))
     \<and> failed = length (log_with Threw (work_log n clock handler w q))
     \<and> length (work_log n clock handler w q) \<le> n"
  using assms
proof (induction n arbitrary: clock w q w' q' processed failed)
  case 0
  then show ?case
    by (simp add: log_with_def moved_refl)
next
  case (Suc n)
  obtain p lease where d: "dequeue_message (clock 0) (clock 1) q = (p, lease)"
    by fastforce
  note md = moved_dequeue [OF Suc.prems(1) d]
  show ?case
  proof (cases lease)
    case None
    then show ?thesis
      using Suc.prems(2) d md by (simp add: log_with_def)
  next
    case (Some l)
    let ?m = "dl_message l"
    obtain v r where h: "handler w ?m = (v, r)"
      by fastforce
    let ?next = "case r of Returned \<Rightarrow> fst (ack (em_id ?m) (Some (dl_leaseId l)) p) | PromiseReturned \<Rightarrow> p
        | Threw \<Rightarrow> nack (clock 2) (em_id ?m) (Some (dl_leaseId l)) p"
    have one: "moved q ?next (if r = Returned then {#?m#} else {#})"
      using ack_own_lease [OF Suc.prems(1)] d Some md moved_trans [OF md moved_nack [OF moved_keyed [OF md]]]
      by (cases r) auto
    obtain x y processed' failed' where rest: "work_loop n (\<lambda>i. clock (i + 3)) handler v ?next = ((x, y), processed', failed')"
      by (metis prod.exhaust)
    note ih = Suc.IH [OF moved_keyed [OF one] rest]
    have out: "w' = x" "q' = y" "processed = (if r = Threw then processed' else processed' + 1)"
        "failed = (if r = Threw then failed' + 1 else failed')"
      using Suc.prems(2) d Some h rest by (auto split: if_splits)
    have logged: "work_log (Suc n) clock handler w q = (?m, r) # work_log n (\<lambda>i. clock (i + 3)) handler v ?next"
      using d Some h by simp
    have "moved q q' ((if r = Returned then {#?m#} else {#}) + mset (log_with Returned (work_log n (\<lambda>i. clock (i + 3)) handler v ?next)))"
      using moved_trans [OF one] ih out(2) by blast
    then show ?thesis
      unfolding logged using ih out(3,4) by (cases r) (simp_all add: log_with_def)
  qed
qed

text \<open>
  A run of the pull loop finishes exactly the messages whose handler returned; those whose handler threw
  or whose promise is still open stay in the queue, and the two counts are those of the messages.
\<close>

theorem work_finishes_what_returned:
  assumes "keyed q" and "work_loop n clock handler w q = ((w', q'), processed, failed)"
  shows "bag q = bag q' + mset (map as_sent (log_with Returned (work_log n clock handler w q))) \<and>
     failed = length (log_with Threw (work_log n clock handler w q)) \<and>
     processed + failed = length (work_log n clock handler w q) \<and> processed + failed \<le> n"
proof -
  note w = work_loop_moves [OF assms]
  have "length (log_with Returned ms) + length (log_with PromiseReturned ms) + length (log_with Threw ms) = length ms"
    for ms :: "('a message \<times> handler_result) list"
  proof (induction ms)
    case (Cons x ms)
    then show ?case
      by (cases x; cases "snd x") (simp_all add: log_with_def)
  qed (simp add: log_with_def)
  then show ?thesis
    using w by (simp add: moved_def add.commute)
qed

theorem work_finishes_what_returned_witness:
  "case work_loop 5 (\<lambda>_. 0) (\<lambda>w m. (w + 1 :: nat, Returned)) 0
       (fst (enqueue_message 0 0 0 (8 :: nat) \<lparr>mo_priority = None, mo_delayMs = None, mo_headers = None\<rparr> (new_broker sample_options))) of
     ((w', q'), processed, failed) \<Rightarrow> bag q' = {#} \<and> processed = 1 \<and> failed = 0"
proof -
  let ?q0 = "new_broker sample_options :: nat broker_queue"
  let ?o = "\<lparr>mo_priority = None, mo_delayMs = None, mo_headers = None\<rparr>"
  obtain q r where e: "enqueue_message 0 0 0 (8 :: nat) ?o ?q0 = (q, r)"
    by fastforce
  have "ledger_inv (?q0, [], [])"
    by (rule ledger_inv_new) (simp add: sample_options_def)
  then have new: "keyed ?q0" "inj (bq_idGen ?q0)" "bag ?q0 = {#}"
    by (simp_all add: ledger_inv_def)
  let ?m = "\<lparr>em_id = default_idGen (js ''queue'') 0, em_payload = 8 :: nat, em_priority = 0, em_seq = 0, em_deliverAt = 0,
      em_deliveryCount = 0, em_enqueuedAt = 0, em_visibleAt = 0, em_headers = jmap_empty\<rparr>"
  have r: "r = Inr ?m"
    using e by (auto simp: enqueue_message_def new_broker_def sample_options_def ph_size_def ds_size_def new_delay_scheduler_def Let_def)
  have q: "keyed q" "bag q = {#as_sent ?m#}"
    using enqueue_cases [OF new(1,2) e] r new(3) by simp_all
  obtain w' q' processed failed where run:
      "work_loop 5 (\<lambda>_. 0) (\<lambda>w m. (w + 1 :: nat, Returned)) 0 q = ((w', q'), processed, failed)"
    by (metis prod.exhaust)
  have logged: "map (as_sent \<circ> fst) (work_log 5 (\<lambda>_. 0) (\<lambda>w m. (w + 1 :: nat, Returned)) 0 q) = [as_sent ?m]
      \<and> map snd (work_log 5 (\<lambda>_. 0) (\<lambda>w m. (w + 1 :: nat, Returned)) 0 q) = [Returned]"
    using e by (auto simp: eval_nat_numeral enqueue_message_def new_broker_def sample_options_def ph_size_def ds_size_def
        new_delay_scheduler_def push_ready_def ph_push_def heap_push_def siftUp_def siftUp_loop.simps dequeue_message_def
        promoteDelayed_def collectDue_def collect_loop.simps ph_pop_def heap_pop_def ack_def lease_matches_def as_sent_def Let_def)
  show ?thesis
    using work_finishes_what_returned [OF q(1) run] q(2) logged e run
    by (auto simp: log_with_def map_eq_Cons_conv)
qed

section \<open>The awaited pull loop\<close>

text \<open>
  \<open>workAsync\<close> awaits the handler before it settles the lease. \<open>handler\<close> gives what becomes of the world, the operations on
  the queue that happen until its promise settles (its own and those of the rest of the program), and whether it resolves.
\<close>

definition meanwhile :: "'p broker_op list \<Rightarrow> 'p broker_queue \<Rightarrow> 'p broker_queue" where
  "meanwhile ops q = foldl (\<lambda>q op. fst (broker_op op q)) q ops"

fun work_async_loop ::
    "nat \<Rightarrow> (nat \<Rightarrow> int) \<Rightarrow> ('w \<Rightarrow> 'p message \<Rightarrow> 'w \<times> 'p broker_op list \<times> bool) \<Rightarrow> 'w \<Rightarrow> 'p broker_queue
      \<Rightarrow> ('w \<times> 'p broker_queue) \<times> nat \<times> nat" where
  "work_async_loop 0 clock handler w q = ((w, q), 0, 0)"
| "work_async_loop (Suc n) clock handler w q =
     (case dequeue_message (clock 0) (clock 1) q of
        (q, None) \<Rightarrow> ((w, q), 0, 0)
      | (q, Some lease) \<Rightarrow>
          let (w, ops, resolved) = handler w (dl_message lease);
              q = meanwhile ops q;
              q = (if resolved then fst (ack (em_id (dl_message lease)) (Some (dl_leaseId lease)) q)
                   else nack (clock 2) (em_id (dl_message lease)) (Some (dl_leaseId lease)) q);
              (end_state, processed, failed) = work_async_loop n (\<lambda>i. clock (i + 3)) handler w q
          in (end_state, if resolved then (processed + 1, failed) else (processed, failed + 1)))"

definition work_async_on ::
    "jstring \<Rightarrow> (nat \<Rightarrow> int) \<Rightarrow> ('w \<Rightarrow> 'p message \<Rightarrow> 'w \<times> 'p broker_op list \<times> bool) \<Rightarrow> nat \<Rightarrow> 'w \<Rightarrow> 'p queue_engine
      \<Rightarrow> ('w \<times> 'p queue_engine) \<times> nat \<times> nat" where
  "work_async_on queueName clock handler n w e =
     (let (e, q) = engine_queue queueName e;
          ((w, q), counts) = work_async_loop n clock handler w q
      in ((w, e\<lparr>qe_queues := jmap_set queueName q (qe_queues e)\<rparr>), counts))"

lemma ledger_queue: "fst (foldl broker_step (q, accepted, finished) ops) = meanwhile ops q"
  unfolding meanwhile_def
proof (induction ops arbitrary: q accepted finished)
  case (Cons op ops)
  obtain p new fin where "broker_op op q = (p, new, fin)"
    by (metis prod.exhaust)
  moreover from this have "broker_step (q, accepted, finished) op = (p, accepted @ new, finished @ fin)"
    by (simp add: broker_step_def)
  ultimately show ?case
    by (simp add: Cons.IH)
qed simp

lemma meanwhile_append: "meanwhile (ops @ ops') q = meanwhile ops' (meanwhile ops q)"
  by (simp add: meanwhile_def)

lemma work_async_meanwhile:
  "\<exists>ops. snd (fst (work_async_loop n clock handler w q)) = meanwhile ops q"
proof (induction n arbitrary: clock w q)
  case 0
  show ?case
    by (rule exI [of _ "[]"]) (simp add: meanwhile_def)
next
  case (Suc n)
  obtain p lease where d: "dequeue_message (clock 0) (clock 1) q = (p, lease)"
    by fastforce
  have deq: "meanwhile [Dequeue (clock 0) (clock 1)] q = p"
    using d by (simp add: meanwhile_def broker_op_def)
  show ?case
  proof (cases lease)
    case None
    then show ?thesis
      using d deq by (intro exI [of _ "[Dequeue (clock 0) (clock 1)]"]) simp
  next
    case (Some l)
    obtain v during resolved where h: "handler w (dl_message l) = (v, during, resolved)"
      by (metis prod.exhaust)
    let ?last = "if resolved then Ack (em_id (dl_message l)) (Some (dl_leaseId l))
        else Nack (clock 2) (em_id (dl_message l)) (Some (dl_leaseId l))"
    let ?q = "meanwhile ([Dequeue (clock 0) (clock 1)] @ during @ [?last]) q"
    obtain ops where ops: "snd (fst (work_async_loop n (\<lambda>i. clock (i + 3)) handler v ?q)) = meanwhile ops ?q"
      using Suc.IH by blast
    have settled: "?q = (if resolved then fst (ack (em_id (dl_message l)) (Some (dl_leaseId l)) (meanwhile during p))
        else nack (clock 2) (em_id (dl_message l)) (Some (dl_leaseId l)) (meanwhile during p))"
      unfolding meanwhile_append deq by (simp add: meanwhile_def broker_op_def Let_def split: prod.split)
    have "snd (fst (work_async_loop (Suc n) clock handler w q)) =
        snd (fst (work_async_loop n (\<lambda>i. clock (i + 3)) handler v ?q))"
      unfolding settled using d Some h by (simp add: Let_def split: prod.split)
    then show ?thesis
      unfolding ops meanwhile_append [symmetric] by blast
  qed
qed

text \<open>
  The awaited loop keeps every message accounted for, whatever happens to the queue while a handler is awaited:
  its run is a sequence of the queue's own operations, so the accepted messages are still exactly those the
  queue holds and those that were finished.
\<close>

theorem work_async_conserves:
  assumes "case bo_idGen options of None \<Rightarrow> True | Some gen \<Rightarrow> inj gen"
    and "q = fst (foldl broker_step (new_broker options, [], []) ops)"
    and "work_async_loop n clock handler w q = ((w', q'), processed, failed)"
  shows "\<exists>during accepted finished. foldl broker_step (new_broker options, [], []) (ops @ during) = (q', accepted, finished)
     \<and> mset (map as_sent accepted) = bag q' + mset (map as_sent finished)"
proof -
  obtain during where "q' = meanwhile during q"
    using work_async_meanwhile [of n clock handler w q] assms(3) by auto
  then have "fst (foldl broker_step (new_broker options, [], []) (ops @ during)) = q'"
    using assms(2) by (simp add: ledger_queue meanwhile_append del: foldl_append)
  then obtain accepted finished where
    run: "foldl broker_step (new_broker options, [], []) (ops @ during) = (q', accepted, finished)"
    by (metis prod.collapse)
  have "ledger_inv (q', accepted, finished)"
    using broker_ledger.inv_run [OF ledger_inv_new [OF assms(1)], of "ops @ during"] run by simp
  then have "mset (map as_sent accepted) = bag q' + mset (map as_sent finished)"
    by (simp add: ledger_inv_def)
  with run show ?thesis
    by blast
qed

theorem work_async_conserves_witness:
  "\<exists>during accepted finished. foldl broker_step (new_broker sample_options, [], []) (sample_ops @ during)
       = (snd (fst (work_async_loop 2 (\<lambda>i. 1000 * int i) (\<lambda>w m. (w, [RequeueExpired 99999], True)) (0 :: nat)
            (fst (foldl broker_step (new_broker sample_options, [], []) sample_ops)))), accepted, finished)"
proof -
  let ?q = "fst (foldl broker_step (new_broker sample_options, [], []) sample_ops)"
  let ?handler = "\<lambda>w m. (w, [RequeueExpired 99999], True)"
  have "case bo_idGen sample_options of None \<Rightarrow> True | Some gen \<Rightarrow> inj gen"
    by (simp add: sample_options_def)
  moreover obtain w' q' processed failed where
    run: "work_async_loop 2 (\<lambda>i. 1000 * int i) ?handler (0 :: nat) ?q = ((w', q'), processed, failed)"
    by (metis prod.exhaust)
  ultimately show ?thesis
    using work_async_conserves [of sample_options ?q sample_ops] by fastforce
qed

end
