(* ===== verification/DeadlockDetector.thy ===== *)
theory DeadlockDetector
  imports Interfaces
begin

text \<open>
  The wait-for graph of the unit of work (\<open>unit-of-work/engine2/DeadlockDetector.ts\<close>): transactions that wait for
  locks others hold, the search for a cycle through the transaction that starts to wait, and the choice of the victim.
  The search is shown to find a cycle exactly when there is one.
\<close>

section \<open>State\<close>

type_synonym tx = jstring

record wait_edge =
  we_from :: tx
  we_to :: tx
  we_resource :: jstring
  we_sinceMs :: int

datatype report_kind = CycleFound | TimedOut

record deadlock_report =
  dr_victim :: tx
  dr_cycle :: "tx list"
  dr_kind :: report_kind

type_synonym wait_edges = "(tx, wait_edge list) jmap"

record detector =
  dd_edges :: wait_edges
  dd_locksHeld :: "(tx, nat) jmap"
  dd_timeoutMs :: int

definition new_detector :: "int option \<Rightarrow> detector" where
  "new_detector timeoutMs =
     \<lparr>dd_edges = jmap_empty, dd_locksHeld = jmap_empty, dd_timeoutMs = (case timeoutMs of Some t \<Rightarrow> t | None \<Rightarrow> 0)\<rparr>"

definition edges_of :: "wait_edges \<Rightarrow> tx \<Rightarrow> wait_edge list" where
  "edges_of m t = (case jmap_get m t of Some es \<Rightarrow> es | None \<Rightarrow> [])"

definition locks_of :: "detector \<Rightarrow> tx \<Rightarrow> nat" where
  "locks_of d t = (case jmap_get (dd_locksHeld d) t of Some n \<Rightarrow> n | None \<Rightarrow> 0)"

definition lockAcquired :: "tx \<Rightarrow> detector \<Rightarrow> detector" where
  "lockAcquired t d = d\<lparr>dd_locksHeld := jmap_set t (locks_of d t + 1) (dd_locksHeld d)\<rparr>"

text \<open>The loop over the map replaces the value of a key it has reached, so it is a map over the entries.\<close>

definition release :: "tx \<Rightarrow> detector \<Rightarrow> detector" where
  "release t d =
     d\<lparr>dd_edges := map (\<lambda>(k, es). (k, filter (\<lambda>e. we_to e \<noteq> t) es)) (jmap_delete t (dd_edges d)),
       dd_locksHeld := jmap_delete t (dd_locksHeld d)\<rparr>"

section \<open>The search\<close>

text \<open>
  The loop of \<open>dfs\<close> over the edges of the node it is at, with the call on the next node unfolded. A search that
  fails takes its node off the stack and the path again, so both are arguments; \<open>visited\<close> is written and never read.
\<close>

definition graph_nodes :: "wait_edges \<Rightarrow> tx set" where
  "graph_nodes m = set (jmap_keys m) \<union> we_to ` (\<Union>es \<in> set (jmap_values m). set es)"

lemma finite_graph_nodes [simp]: "finite (graph_nodes m)"
  by (simp add: graph_nodes_def)

lemma edges_of_outside: "t \<notin> graph_nodes m \<Longrightarrow> edges_of m t = []"
  by (auto simp: edges_of_def graph_nodes_def jmap_get_def jmap_keys_def split: option.splits dest!: map_of_SomeD
      intro: rev_image_eqI)

function dfs_edges :: "wait_edges \<Rightarrow> tx \<Rightarrow> tx jset \<Rightarrow> tx list \<Rightarrow> wait_edge list \<Rightarrow> tx list option" where
  "dfs_edges m start stack path [] = None"
| "dfs_edges m start stack path (e # es) =
     (if we_to e = start \<and> length path > 0 then Some (path @ [we_to e])
      else if \<not> jset_has stack (we_to e) then
        (case dfs_edges m start (jset_add (we_to e) stack) (path @ [we_to e]) (edges_of m (we_to e)) of
           Some c \<Rightarrow> Some c
         | None \<Rightarrow> dfs_edges m start stack path es)
      else dfs_edges m start stack path es)"
  by pat_completeness auto

lemma fresh_nodes_shrink:
  assumes "t \<in> graph_nodes m" and "t \<notin> set stack"
  shows "card (graph_nodes m - set (jset_add t stack)) < card (graph_nodes m - set stack)"
  using assms by (intro psubset_card_mono) auto

termination dfs_edges
proof (relation "measures [\<lambda>(m, start, stack, path, es). card (graph_nodes m - set stack), \<lambda>(m, start, stack, path, es). length es]")
  fix m start stack path e es
  assume "\<not> jset_has stack (we_to (e :: wait_edge))"
  then have fresh: "we_to e \<notin> set stack"
    by (simp add: jset_has_def)
  let ?r = "measures [\<lambda>(m, start, stack, path, es). card (graph_nodes m - set stack),
      \<lambda>(m :: wait_edges, start :: tx, stack :: tx jset, path :: tx list, es). length (es :: wait_edge list)]"
  show "((m, start, jset_add (we_to e) stack, path @ [we_to e], edges_of m (we_to e)), m, start, stack, path, e # es) \<in> ?r"
  proof (cases "we_to e \<in> graph_nodes m")
    case True
    then show ?thesis
      using fresh_nodes_shrink [OF True fresh] by simp
  next
    case False
    then have "graph_nodes m - insert (we_to e) (set stack) = graph_nodes m - set stack"
      by blast
    then show ?thesis
      using edges_of_outside [OF False] by simp
  qed
qed auto

definition findCycle :: "wait_edges \<Rightarrow> tx \<Rightarrow> tx list option" where
  "findCycle m start = dfs_edges m start [start] [start] (edges_of m start)"

text \<open>\<open>None\<close> is the bound \<open>Infinity\<close>.\<close>

definition pickVictim :: "detector \<Rightarrow> tx list \<Rightarrow> tx" where
  "pickVictim d cycle =
     fst (foldl (\<lambda>(victim, best) t. case best of
                    None \<Rightarrow> (t, Some (locks_of d t))
                  | Some b \<Rightarrow> if locks_of d t < b then (t, Some (locks_of d t)) else (victim, best))
            (hd cycle, None) (butlast cycle))"

definition oldestStale :: "int \<Rightarrow> detector \<Rightarrow> wait_edge option" where
  "oldestStale now d =
     foldl (\<lambda>stale e.
         if now - we_sinceMs e > dd_timeoutMs d \<and> (case stale of None \<Rightarrow> True | Some s \<Rightarrow> we_sinceMs e < we_sinceMs s)
         then Some e else stale)
       None (concat (jmap_values (dd_edges d)))"

text \<open>The two clock readings of \<open>wait\<close> are \<open>t1\<close> for the edge and \<open>t2\<close> for the timeout.\<close>

definition add_edge :: "int \<Rightarrow> tx \<Rightarrow> tx \<Rightarrow> jstring \<Rightarrow> detector \<Rightarrow> detector" where
  "add_edge now a b resource d =
     d\<lparr>dd_edges := jmap_set a (edges_of (dd_edges d) a @ [\<lparr>we_from = a, we_to = b, we_resource = resource, we_sinceMs = now\<rparr>])
         (dd_edges d)\<rparr>"

definition wait :: "int \<Rightarrow> int \<Rightarrow> tx \<Rightarrow> tx \<Rightarrow> jstring \<Rightarrow> detector \<Rightarrow> detector \<times> deadlock_report option" where
  "wait t1 t2 a b resource d =
     (let d = add_edge t1 a b resource d in
      case findCycle (dd_edges d) a of
        Some cycle \<Rightarrow> (d, Some \<lparr>dr_victim = pickVictim d cycle, dr_cycle = cycle, dr_kind = CycleFound\<rparr>)
      | None \<Rightarrow>
          if dd_timeoutMs d > 0 then
            (case oldestStale t2 d of
               Some s \<Rightarrow> (d, Some \<lparr>dr_victim = we_from s, dr_cycle = [we_from s, we_to s], dr_kind = TimedOut\<rparr>)
             | None \<Rightarrow> (d, None))
          else (d, None))"

definition grant :: "tx \<Rightarrow> tx \<Rightarrow> jstring \<Rightarrow> detector \<Rightarrow> detector" where
  "grant a b resource d =
     (case jmap_get (dd_edges d) a of
        None \<Rightarrow> d
      | Some list \<Rightarrow>
          let kept = filter (\<lambda>e. \<not> (we_to e = b \<and> we_resource e = resource)) list in
          if length kept \<noteq> length list then d\<lparr>dd_edges := jmap_set a kept (dd_edges d)\<rparr> else d)"

definition wait_edges_list :: "detector \<Rightarrow> wait_edge list" where
  "wait_edges_list d = concat (jmap_values (dd_edges d))"

section \<open>The graph\<close>

definition waits :: "wait_edges \<Rightarrow> (tx \<times> tx) set" where
  "waits m = {(a, b). \<exists>e \<in> set (edges_of m a). we_to e = b}"

definition waits_for :: "detector \<Rightarrow> (tx \<times> tx) set" where
  "waits_for d = waits (dd_edges d)"

fun walk :: "('a \<times> 'a) set \<Rightarrow> 'a list \<Rightarrow> bool" where
  "walk r (x # y # xs) \<longleftrightarrow> (x, y) \<in> r \<and> walk r (y # xs)"
| "walk r xs \<longleftrightarrow> True"

lemma walk_snoc: "xs \<noteq> [] \<Longrightarrow> walk r (xs @ [y]) \<longleftrightarrow> walk r xs \<and> (last xs, y) \<in> r"
  by (induction xs rule: walk.induct) auto

lemma walk_Cons: "xs \<noteq> [] \<Longrightarrow> walk r (x # xs) \<longleftrightarrow> (x, hd xs) \<in> r \<and> walk r xs"
  by (cases xs) auto

lemma walk_append2: "walk r (xs @ ys) \<Longrightarrow> walk r ys"
proof (induction xs)
  case (Cons x xs)
  then show ?case
    by (cases "xs @ ys") auto
qed simp

text \<open>A way from \<open>x\<close> to \<open>s\<close> can be had without repetition and with \<open>s\<close> only at its ends.\<close>

lemma simple_way:
  assumes "(x, s) \<in> r\<^sup>+"
  shows "\<exists>p. p \<noteq> [] \<and> hd p = x \<and> distinct p \<and> walk r p \<and> (last p, s) \<in> r \<and> s \<notin> set (tl p)"
  using assms
proof (induction rule: converse_trancl_induct)
  case (base x)
  then show ?case
    by (intro exI [of _ "[x]"]) simp
next
  case (step x y)
  then obtain p where p: "p \<noteq> []" "hd p = y" "distinct p" "walk r p" "(last p, s) \<in> r" "s \<notin> set (tl p)"
    by blast
  consider "x \<in> set p" | "y = s" | "x \<notin> set p" "y \<noteq> s"
    by blast
  then show ?case
  proof cases
    case 1
    then obtain us vs where split: "p = us @ x # vs"
      by (meson split_list)
    have "walk r (x # vs)"
      using p(4) split walk_append2 by blast
    moreover have "s \<notin> set vs"
      using p(6) split by (cases us) auto
    ultimately show ?thesis
      using p(3,5) split by (intro exI [of _ "x # vs"]) auto
  next
    case 2
    then show ?thesis
      using step(1) by (intro exI [of _ "[x]"]) simp
  next
    case 3
    then show ?thesis
      using p step(1) by (intro exI [of _ "x # p"]) (cases p; auto)
  qed
qed

section \<open>The search finds a cycle exactly when there is one\<close>

lemma dfs_sound:
  assumes "dfs_edges m start stack path es = Some c" and "path \<noteq> []" and "hd path = start" and "distinct path"
    and "walk (waits m) path" and "set path = set stack" and "set es \<subseteq> set (edges_of m (last path))"
  shows "\<exists>p. c = p @ [start] \<and> p \<noteq> [] \<and> hd p = start \<and> distinct p \<and> walk (waits m) (p @ [start])"
  using assms
proof (induction m start stack path es arbitrary: c rule: dfs_edges.induct)
  case (1 m start stack path)
  then show ?case by simp
next
  case (2 m start stack path e es)
  have edge: "(last path, we_to e) \<in> waits m"
    using "2.prems"(7) by (auto simp: waits_def)
  show ?case
  proof (cases "we_to e = start")
    case True
    then have "c = path @ [start]"
      using "2.prems"(1,2) by simp
    moreover have "walk (waits m) (path @ [start])"
      using "2.prems"(2,5) edge True by (simp add: walk_snoc)
    ultimately show ?thesis
      using "2.prems"(2-4) by blast
  next
    case False
    show ?thesis
    proof (cases "jset_has stack (we_to e)")
      case True
      then show ?thesis
        using 2(3) False "2.prems" by simp
    next
      case fresh: False
      let ?inner = "dfs_edges m start (jset_add (we_to e) stack) (path @ [we_to e]) (edges_of m (we_to e))"
      show ?thesis
      proof (cases ?inner)
        case None
        then show ?thesis
          using 2(2) False fresh "2.prems" by simp
      next
        case (Some c')
        have "c' = c"
          using Some "2.prems"(1) False fresh by simp
        moreover have "we_to e \<notin> set path"
          using fresh "2.prems"(6) by (simp add: jset_has_def)
        ultimately show ?thesis
          using 2(1) [of c'] False fresh Some "2.prems" edge by (simp add: walk_snoc)
      qed
    qed
  qed
qed

lemma dfs_complete:
  assumes "dfs_edges m start stack path es = None" and "path \<noteq> []"
  shows "(\<forall>e \<in> set es. we_to e \<noteq> start) \<and>
     (\<forall>e \<in> set es. \<forall>p. p \<noteq> [] \<and> hd p = we_to e \<and> distinct p \<and> set p \<inter> set stack = {} \<and> walk (waits m) p \<longrightarrow>
        (last p, start) \<notin> waits m)"
  using assms
proof (induction m start stack path es rule: dfs_edges.induct)
  case (1 m start stack path)
  then show ?case by simp
next
  case (2 m start stack path e es)
  have ne: "we_to e \<noteq> start"
    using "2.prems" by auto
  have here: "(last p, start) \<notin> waits m"
    if p: "p \<noteq> []" "hd p = we_to e" "distinct p" "set p \<inter> set stack = {}" "walk (waits m) p" for p
  proof
    assume closes: "(last p, start) \<in> waits m"
    obtain p' where p': "p = we_to e # p'"
      using p(1,2) by (cases p) auto
    then have fresh: "\<not> jset_has stack (we_to e)"
      using p(4) by (simp add: jset_has_def)
    then have inner: "dfs_edges m start (jset_add (we_to e) stack) (path @ [we_to e]) (edges_of m (we_to e)) = None"
      using "2.prems"(1) ne by (simp split: option.splits)
    note ih = 2(1) [OF _ fresh inner, simplified]
    show False
    proof (cases "p' = []")
      case True
      then show False
        using closes p' ih ne by (auto simp: waits_def)
    next
      case False
      then obtain f where f: "f \<in> set (edges_of m (we_to e))" "hd p' = we_to f"
        using p(5) p' by (auto simp: walk_Cons waits_def)
      have "set p' \<inter> set (jset_add (we_to e) stack) = {}" "walk (waits m) p'" "distinct p'" "last p' = last p"
        using p p' False by (auto simp: walk_Cons)
      then show False
        using ih ne f False closes by fastforce
    qed
  qed
  have "dfs_edges m start stack path es = None"
    using "2.prems"(1) ne by (auto split: if_splits option.splits)
  then show ?case
    using 2 ne here by (auto split: if_splits option.splits)
qed

theorem findCycle_iff: "findCycle m start \<noteq> None \<longleftrightarrow> (start, start) \<in> (waits m)\<^sup>+"
proof
  assume "findCycle m start \<noteq> None"
  then obtain p where p: "p \<noteq> []" "hd p = start" "walk (waits m) (p @ [start])"
    using dfs_sound [of m start "[start]" "[start]" "edges_of m start"] by (fastforce simp: findCycle_def)
  have "(hd q, s) \<in> r\<^sup>+" if "walk r (q @ [s])" "q \<noteq> []" for q s and r :: "(tx \<times> tx) set"
    using that
  proof (induction q)
    case (Cons x q)
    then show ?case
      by (cases q) (auto intro: trancl_into_trancl2)
  qed simp
  then show "(start, start) \<in> (waits m)\<^sup>+"
    using p by metis
next
  assume "(start, start) \<in> (waits m)\<^sup>+"
  then obtain p where p: "p \<noteq> []" "hd p = start" "distinct p" "walk (waits m) p" "(last p, start) \<in> waits m" "start \<notin> set (tl p)"
    using simple_way by metis
  obtain p' where p': "p = start # p'"
    using p(1,2) by (cases p) auto
  show "findCycle m start \<noteq> None"
  proof
    assume "findCycle m start = None"
    then have none: "(\<forall>e \<in> set (edges_of m start). we_to e \<noteq> start)"
        "\<And>e q. e \<in> set (edges_of m start) \<Longrightarrow> q \<noteq> [] \<Longrightarrow> hd q = we_to e \<Longrightarrow> distinct q \<Longrightarrow> set q \<inter> {start} = {} \<Longrightarrow>
           walk (waits m) q \<Longrightarrow> (last q, start) \<notin> waits m"
      using dfs_complete [of m start "[start]" "[start]" "edges_of m start"] by (auto simp: findCycle_def)
    show False
    proof (cases "p' = []")
      case True
      then show False
        using p(5) p' none(1) by (auto simp: waits_def)
    next
      case False
      then obtain e where "e \<in> set (edges_of m start)" "hd p' = we_to e"
        using p(4) p' by (auto simp: walk_Cons waits_def)
      then show False
        using none(2) [of e p'] p p' False by (auto simp: walk_Cons)
    qed
  qed
qed

section \<open>What a report means\<close>

lemma wait_state [simp]: "fst (wait t1 t2 a b resource d) = add_edge t1 a b resource d"
  by (simp add: wait_def Let_def split: option.split)

lemma edges_of_set: "edges_of (jmap_set a es m) t = (if t = a then es else edges_of m t)"
  by (simp add: edges_of_def jmap_get_set)

lemma waits_add_edge: "waits_for (add_edge now a b resource d) = insert (a, b) (waits_for d)"
  by (auto simp: waits_for_def waits_def add_edge_def edges_of_set split: if_splits)

lemma edges_of_release: "edges_of (dd_edges (release t d)) a = (if a = t then [] else filter (\<lambda>e. we_to e \<noteq> t) (edges_of (dd_edges d) a))"
  by (simp add: edges_of_def release_def jmap_get_map jmap_get_delete split: option.split)

lemma waits_release: "waits_for (release t d) = {(a, b) \<in> waits_for d. a \<noteq> t \<and> b \<noteq> t}"
  by (auto simp: waits_for_def waits_def edges_of_release split: if_splits)

lemma waits_grant: "waits_for (grant a b resource d) \<subseteq> waits_for d"
proof (cases "jmap_get (dd_edges d) a")
  case (Some es)
  then show ?thesis
    by (auto simp: waits_for_def waits_def grant_def Let_def edges_of_set edges_of_def [of "dd_edges d" a] split: if_splits)
qed (simp add: grant_def)

lemma acyclic_insert_cycle:
  assumes "acyclic r" and "\<not> acyclic (insert (a, b) r)"
  shows "(a, a) \<in> (insert (a, b) r)\<^sup>+"
proof -
  have "(b, a) \<in> r\<^sup>*"
    using assms by (simp add: acyclic_insert)
  then have "(b, a) \<in> (insert (a, b) r)\<^sup>*"
    by (rule rtrancl_mono [THEN subsetD, rotated]) blast
  then show ?thesis
    by (meson insertI1 rtrancl_into_trancl2)
qed

text \<open>The victim is a member of the cycle with the fewest locks.\<close>

lemma pickVictim_minimal:
  assumes "cycle = p @ [s]" and "p \<noteq> []"
  shows "pickVictim d cycle \<in> set p \<and> (\<forall>t \<in> set p. locks_of d (pickVictim d cycle) \<le> locks_of d t)"
proof -
  let ?f = "\<lambda>(victim, best) t. case best of None \<Rightarrow> (t, Some (locks_of d t))
      | Some b \<Rightarrow> if locks_of d t < b then (t, Some (locks_of d t)) else (victim, best)"
  have go: "\<exists>v. foldl ?f (u, Some (locks_of d u)) ts = (v, Some (locks_of d v)) \<and> v \<in> insert u (set ts)
      \<and> (\<forall>t \<in> insert u (set ts). locks_of d v \<le> locks_of d t)" for u ts
  proof (induction ts arbitrary: u)
    case (Cons t ts)
    then show ?case
      by (cases "locks_of d t < locks_of d u") (use Cons.IH [of t] Cons.IH [of u] in \<open>fastforce+\<close>)
  qed simp
  obtain x ps where p: "p = x # ps"
    using assms(2) by (cases p) auto
  show ?thesis
    using go [of x ps] by (auto simp: pickVictim_def assms(1) p butlast_append)
qed

lemma wait_reports:
  assumes "wait t1 t2 a b resource d = (d', report)"
  shows "waits_for d' = insert (a, b) (waits_for d) \<and>
     ((\<exists>r. report = Some r \<and> dr_kind r = CycleFound) = ((a, a) \<in> (insert (a, b) (waits_for d))\<^sup>+)) \<and>
     (case report of None \<Rightarrow> True | Some r \<Rightarrow> dr_kind r = TimedOut \<or>
        (\<exists>p. dr_cycle r = p @ [a] \<and> p \<noteq> [] \<and> hd p = a \<and> distinct p \<and> walk (waits_for d') (dr_cycle r) \<and>
           dr_victim r \<in> set p \<and> list_all (\<lambda>t. locks_of d (dr_victim r) \<le> locks_of d t) p))"
proof -
  let ?d = "add_edge t1 a b resource d"
  have d': "d' = ?d"
    using assms by (auto simp: wait_def Let_def split: option.splits if_splits)
  have locks: "locks_of ?d = locks_of d"
    by (simp add: locks_of_def add_edge_def fun_eq_iff)
  show ?thesis
  proof (cases "findCycle (dd_edges ?d) a")
    case None
    then have "(a, a) \<notin> (insert (a, b) (waits_for d))\<^sup>+"
      using findCycle_iff [of "dd_edges ?d" a] waits_add_edge [of t1 a b resource d] by (simp add: waits_for_def)
    then show ?thesis
      using assms None d' waits_add_edge [of t1 a b resource d]
      by (auto simp: wait_def Let_def split: option.splits if_splits)
  next
    case (Some c)
    then have cyclic: "(a, a) \<in> (insert (a, b) (waits_for d))\<^sup>+"
      using findCycle_iff [of "dd_edges ?d" a] waits_add_edge [of t1 a b resource d] by (simp add: waits_for_def)
    obtain p where p: "c = p @ [a]" "p \<noteq> []" "hd p = a" "distinct p" "walk (waits_for ?d) c"
      using dfs_sound [of "dd_edges ?d" a "[a]" "[a]" "edges_of (dd_edges ?d) a" c] Some
      by (auto simp: findCycle_def waits_for_def)
    have "report = Some \<lparr>dr_victim = pickVictim ?d c, dr_cycle = c, dr_kind = CycleFound\<rparr>"
      using assms Some by (auto simp: wait_def Let_def)
    then show ?thesis
      using cyclic p pickVictim_minimal [OF p(1,2), of ?d] d' waits_add_edge [of t1 a b resource d]
      by (auto simp: list_all_iff locks)
  qed
qed

text \<open>
  C17: a wait is reported as a deadlock exactly when the wait-for graph, with its edge, has a cycle through the
  transaction that waits; the report's cycle is one, from that transaction back to it without repetition, and its victim is one
  of the cycle's transactions that hold the fewest locks.
\<close>

theorem deadlock_detected:
  assumes "wait t1 t2 a b resource d = (d', report)"
  shows "waits_for d' = insert (a, b) (waits_for d) \<and>
     ((\<exists>r. report = Some r \<and> dr_kind r = CycleFound) = ((a, a) \<in> (insert (a, b) (waits_for d))\<^sup>+)) \<and>
     (case report of None \<Rightarrow> True | Some r \<Rightarrow> dr_kind r = TimedOut \<or>
        (\<exists>p. dr_cycle r = p @ [a] \<and> p \<noteq> [] \<and> hd p = a \<and> distinct p \<and> walk (waits_for d') (dr_cycle r) \<and>
           dr_victim r \<in> set p \<and> list_all (\<lambda>t. locks_of d (dr_victim r) \<le> locks_of d t) p))"
  by (rule wait_reports [OF assms])

text \<open>The operations on a detector, with what they report.\<close>

datatype detector_op =
    LockAcquired tx
  | Release tx
  | Wait int int tx tx jstring
  | Grant tx tx jstring

fun apply_op :: "detector_op \<Rightarrow> detector \<Rightarrow> detector \<times> deadlock_report option" where
  "apply_op (LockAcquired t) d = (lockAcquired t d, None)"
| "apply_op (Release t) d = (release t d, None)"
| "apply_op (Wait t1 t2 a b resource) d = wait t1 t2 a b resource d"
| "apply_op (Grant a b resource) d = (grant a b resource d, None)"

definition cycle_reported :: "deadlock_report option \<Rightarrow> bool" where
  "cycle_reported r \<longleftrightarrow> (case r of None \<Rightarrow> False | Some r \<Rightarrow> dr_kind r = CycleFound)"

lemma cycle_reported_iff: "cycle_reported r \<longleftrightarrow> (\<exists>x. r = Some x \<and> dr_kind x = CycleFound)"
  by (cases r) (auto simp: cycle_reported_def)

text \<open>The state, and whether a cycle has been reported so far.\<close>

definition detector_step :: "detector \<times> bool \<Rightarrow> detector_op \<Rightarrow> detector \<times> bool" where
  "detector_step s op = (case apply_op op (fst s) of (d, r) \<Rightarrow> (d, snd s \<or> cycle_reported r))"

interpretation detectors: invariant_machine detector_step "\<lambda>(d, reported). reported \<or> acyclic (waits_for d)"
proof
  fix s op
  assume inv: "case s of (d, reported) \<Rightarrow> reported \<or> acyclic (waits_for d)"
  obtain d reported where s: "s = (d, reported)"
    by fastforce
  show "case detector_step s op of (d, reported) \<Rightarrow> reported \<or> acyclic (waits_for d)"
  proof (cases op)
    case (LockAcquired t)
    then show ?thesis
      using inv by (auto simp: s detector_step_def lockAcquired_def waits_for_def)
  next
    case (Release t)
    have "waits_for (release t d) \<subseteq> waits_for d"
      by (auto simp: waits_release)
    then show ?thesis
      using inv Release by (auto simp: s detector_step_def intro: acyclic_subset)
  next
    case (Wait t1 t2 a b resource)
    obtain d' r where w: "wait t1 t2 a b resource d = (d', r)"
      by fastforce
    show ?thesis
      using inv wait_reports [OF w] Wait w acyclic_insert_cycle [of "waits_for d" a b]
      by (auto simp: s detector_step_def cycle_reported_iff)
  next
    case (Grant a b resource)
    then show ?thesis
      using inv waits_grant [of a b resource d] by (auto simp: s detector_step_def intro: acyclic_subset)
  qed
qed

text \<open>
  C20: no deadlock goes unreported: as long as no cycle has been reported, whatever the operations on the detector
  were, the wait-for graph has no cycle at all.
\<close>

theorem no_silent_deadlock:
  assumes "foldl detector_step (new_detector timeoutMs, False) ops = (d, False)"
  shows "acyclic (waits_for d)"
proof -
  have "waits_for (new_detector timeoutMs) = {}"
    by (simp add: waits_for_def waits_def new_detector_def edges_of_def)
  then have "case (new_detector timeoutMs, False) of (d, reported) \<Rightarrow> reported \<or> acyclic (waits_for d)"
    by (simp add: acyclic_def)
  from detectors.inv_run [OF this, of ops] show ?thesis
    by (simp add: assms)
qed

text \<open>
  Aborting the transaction that waits makes the graph acyclic again; aborting the victim need not.
\<close>

theorem aborting_the_waiter_suffices:
  assumes "acyclic (waits_for d)" and "wait t1 t2 a b resource d = (d', r)"
  shows "acyclic (waits_for (release a d'))"
proof -
  have "waits_for d' = insert (a, b) (waits_for d)"
    using assms(2) waits_add_edge by (auto simp: wait_def Let_def split: option.splits if_splits)
  then have "waits_for (release a d') \<subseteq> waits_for d"
    by (auto simp: waits_release)
  then show ?thesis
    using assms(1) acyclic_subset by blast
qed

text \<open>
  Two ways lead back to the transaction that waits: the search reports the first cycle, and after the abort of its victim
  the second is still there, unreported, as no one on it waits anew.
\<close>

definition tx_named :: "string \<Rightarrow> tx" where
  "tx_named s = js s"

definition two_ways :: detector where
  "two_ways =
     (let t = tx_named; w = (\<lambda>a b d. fst (wait 0 0 (t a) (t b) (js ''r'') d)) in
      w ''c'' ''a'' (w ''b'' ''d'' (w ''b'' ''c'' (w ''d'' ''a'' (lockAcquired (t ''a'') (lockAcquired (t ''b'') (new_detector None)))))))"

theorem victim_leaves_deadlock:
  "\<exists>d r. wait 0 0 (tx_named ''a'') (tx_named ''b'') (js ''r'') two_ways = (d, Some r)
     \<and> dr_victim r = tx_named ''c'' \<and> \<not> acyclic (waits_for (release (dr_victim r) d))"
proof -
  let ?a = "tx_named ''a''" and ?b = "tx_named ''b''" and ?c = "tx_named ''c''" and ?d = "tx_named ''d''"
  let ?e = "\<lambda>x y. \<lparr>we_from = x, we_to = y, we_resource = js ''r'', we_sinceMs = 0\<rparr>"
  have names: "?a \<noteq> ?b" "?a \<noteq> ?c" "?a \<noteq> ?d" "?b \<noteq> ?c" "?b \<noteq> ?d" "?c \<noteq> ?d"
    by (simp_all add: tx_named_def)
  note eval = wait_def add_edge_def findCycle_def edges_of_def jmap_get_def jmap_set_def jset_has_def jset_add_def Let_def
  define d0 where "d0 = \<lparr>dd_edges = [(?d, [?e ?d ?a]), (?b, [?e ?b ?c, ?e ?b ?d]), (?c, [?e ?c ?a])],
      dd_locksHeld = [(?b, 1), (?a, 1)], dd_timeoutMs = 0\<rparr>"
  have "two_ways = d0"
    using names names [symmetric]
    by (simp add: two_ways_def d0_def add_edge_def edges_of_def jmap_get_def jmap_set_def Let_def lockAcquired_def
        locks_of_def new_detector_def jmap_empty_def)
  define d1 where "d1 = d0\<lparr>dd_edges := dd_edges d0 @ [(?a, [?e ?a ?b])]\<rparr>"
  have found: "wait 0 0 ?a ?b (js ''r'') d0 = (d1, Some \<lparr>dr_victim = ?c, dr_cycle = [?a, ?b, ?c, ?a], dr_kind = CycleFound\<rparr>)"
    using names names [symmetric]
    by (simp add: eval d0_def d1_def pickVictim_def locks_of_def)
  have "edges_of (dd_edges d1) ?a = [?e ?a ?b]" "edges_of (dd_edges d1) ?b = [?e ?b ?c, ?e ?b ?d]" "edges_of (dd_edges d1) ?d = [?e ?d ?a]"
    using names names [symmetric] by (simp_all add: d1_def d0_def edges_of_def jmap_get_def)
  then have "(?a, ?b) \<in> waits_for d1" "(?b, ?d) \<in> waits_for d1" "(?d, ?a) \<in> waits_for d1"
    by (simp_all add: waits_for_def waits_def)
  then have way: "(?a, ?b) \<in> waits_for (release ?c d1)" "(?b, ?d) \<in> waits_for (release ?c d1)" "(?d, ?a) \<in> waits_for (release ?c d1)"
    using names by (simp_all add: waits_release)
  have "(?a, ?a) \<in> (waits_for (release ?c d1))\<^sup>+"
    by (rule trancl_into_trancl [OF trancl_into_trancl [OF r_into_trancl [OF way(1)] way(2)] way(3)])
  then have "\<not> acyclic (waits_for (release ?c d1))"
    by (auto simp: acyclic_def)
  then show ?thesis
    using found \<open>two_ways = d0\<close> by auto
qed

theorem deadlock_detected_witness:
  "fst (wait 0 0 (tx_named ''a'') (tx_named ''b'') (js ''r'') two_ways) =
     add_edge 0 (tx_named ''a'') (tx_named ''b'') (js ''r'') two_ways
   \<and> waits_for (fst (wait 0 0 (tx_named ''a'') (tx_named ''b'') (js ''r'') two_ways)) =
     insert (tx_named ''a'', tx_named ''b'') (waits_for two_ways)"
  using deadlock_detected [of 0 0 "tx_named ''a''" "tx_named ''b''" "js ''r''" two_ways, OF prod.collapse [symmetric]]
  by (simp add: wait_def Let_def split: option.split)

theorem no_silent_deadlock_witness:
  "acyclic (waits_for (fst (foldl detector_step (new_detector None, False)
     [Wait 0 0 (tx_named ''a'') (tx_named ''b'') (js ''r''), Wait 1 1 (tx_named ''b'') (tx_named ''c'') (js ''s'')])))"
proof -
  let ?ops = "[Wait 0 0 (tx_named ''a'') (tx_named ''b'') (js ''r''), Wait 1 1 (tx_named ''b'') (tx_named ''c'') (js ''s'')]"
  have "snd (foldl detector_step (new_detector None, False) ?ops) = False"
    by (simp add: detector_step_def new_detector_def wait_def add_edge_def findCycle_def edges_of_def jmap_get_def jmap_set_def
        jmap_empty_def jset_has_def jset_add_def cycle_reported_def tx_named_def Let_def)
  then have "foldl detector_step (new_detector None, False) ?ops = (fst (foldl detector_step (new_detector None, False) ?ops), False)"
    by (metis prod.collapse)
  from no_silent_deadlock [OF this] show ?thesis .
qed

end
