(* ===== verification/DependencyDAG.thy ===== *)
theory DependencyDAG
  imports DeadlockDetector
begin

text \<open>
  The dependency graph of the scheduler (\<open>scheduling/engine2/DependencyDAG.ts\<close>): jobs with their dependencies, the
  refusal of cycles, execution layers by Kahn's algorithm, the critical path, and the closures in both directions.
\<close>

section \<open>State\<close>

type_synonym job_id = jstring

text \<open>An absent list of dependencies is empty and an absent duration is zero wherever they are read.\<close>

record dag_job =
  dj_jobId :: job_id
  dj_dependsOn :: "job_id list"
  dj_estDurationMs :: int

record dag =
  dg_jobs :: "(job_id, dag_job) jmap"
  dg_edges :: "(job_id, job_id jset) jmap"

datatype dag_error = CycleError "job_id list" | UnknownDependency job_id job_id | UnknownJob job_id

definition new_dag :: dag where
  "new_dag = \<lparr>dg_jobs = jmap_empty, dg_edges = jmap_empty\<rparr>"

type_synonym dag_edges = "(job_id, job_id jset) jmap"

definition out_of :: "dag_edges \<Rightarrow> job_id \<Rightarrow> job_id list" where
  "out_of es u = (case jmap_get es u of Some s \<Rightarrow> s | None \<Rightarrow> [])"

definition arrows :: "dag_edges \<Rightarrow> (job_id \<times> job_id) set" where
  "arrows es = {(u, v). v \<in> set (out_of es u)}"

section \<open>Refusing cycles\<close>

text \<open>
  The loop of \<open>dfs\<close> over successors with the call on each unfolded; \<open>seen\<close> is threaded through, the path is given
  back as it was when nothing was found. The first call on a successor of \<open>start\<close> has an empty path.
\<close>

definition arrow_nodes :: "dag_edges \<Rightarrow> job_id set" where
  "arrow_nodes es = set (jmap_keys es) \<union> (\<Union>s \<in> set (jmap_values es). set s)"

lemma finite_arrow_nodes [simp]: "finite (arrow_nodes es)"
  by (simp add: arrow_nodes_def)

lemma out_of_outside: "u \<notin> arrow_nodes es \<Longrightarrow> out_of es u = []"
  by (auto simp: out_of_def arrow_nodes_def jmap_get_def jmap_keys_def split: option.splits dest!: map_of_SomeD
      intro: rev_image_eqI)

function cycle_dfs :: "dag_edges \<Rightarrow> job_id \<Rightarrow> job_id jset \<Rightarrow> job_id list \<Rightarrow> job_id list \<Rightarrow> job_id jset \<times> job_id list option" where
  "cycle_dfs es start seen path [] = (seen, None)"
| "cycle_dfs es start seen path (m # ms) =
     (if m = start \<and> length path > 0 then (seen, Some path)
      else if jset_has seen m then cycle_dfs es start seen path ms
      else
        case cycle_dfs es start (jset_add m seen) (path @ [m]) (out_of es m) of
          (seen, Some p) \<Rightarrow> (seen, Some p)
        | (seen, None) \<Rightarrow> cycle_dfs es start seen path ms)"
  by pat_completeness auto

lemma cycle_dfs_grows:
  "cycle_dfs_dom (es, start, seen, path, ms) \<Longrightarrow> set seen \<subseteq> set (fst (cycle_dfs es start seen path ms))"
proof (induction es start seen path ms rule: cycle_dfs.pinduct)
  case (1 es start seen path)
  then show ?case
    by (simp add: cycle_dfs.psimps)
next
  case (2 es start seen path m ms)
  obtain seen2 r where inner: "cycle_dfs es start (jset_add m seen) (path @ [m]) (out_of es m) = (seen2, r)"
    by fastforce
  consider (found) "m = start \<and> length path > 0" | (skip) "\<not> (m = start \<and> length path > 0)" "jset_has seen m"
    | (down) "\<not> (m = start \<and> length path > 0)" "\<not> jset_has seen m"
    by blast
  then show ?case
  proof cases
    case found
    show ?thesis
      unfolding cycle_dfs.psimps(2) [OF 2(1)] using found by simp
  next
    case skip
    then show ?thesis
      using 2(2) by (simp add: cycle_dfs.psimps(2) [OF 2(1)])
  next
    case down
    have deep: "set (jset_add m seen) \<subseteq> set seen2"
      using 2(3) [OF down] inner by simp
    show ?thesis
    proof (cases r)
      case None
      have "set seen2 \<subseteq> set (fst (cycle_dfs es start seen2 path ms))"
        using 2(4) [OF down inner [symmetric] None] .
      then show ?thesis
        using deep None inner down by (auto simp: cycle_dfs.psimps(2) [OF 2(1)])
    next
      case (Some p)
      then show ?thesis
        using deep inner down by (auto simp: cycle_dfs.psimps(2) [OF 2(1)])
    qed
  qed
qed

termination cycle_dfs
proof (relation "measures [\<lambda>(es, start, seen, path, ms). card (arrow_nodes es - set seen), \<lambda>(es, start, seen, path, ms). length ms]",
    goal_cases)
  case 1
  then show ?case by simp
next
  case (2 es start seen path m ms)
  then show ?case by simp
next
  case (3 es start seen path m ms)
  then have fresh: "m \<notin> set seen"
    by (simp add: jset_has_def)
  show ?case
  proof (cases "m \<in> arrow_nodes es")
    case True
    then have "card (arrow_nodes es - set (jset_add m seen)) < card (arrow_nodes es - set seen)"
      using fresh by (intro psubset_card_mono) auto
    then show ?thesis
      by simp
  next
    case False
    then have "arrow_nodes es - insert m (set seen) = arrow_nodes es - set seen"
      by blast
    then show ?thesis
      using out_of_outside [OF False] by simp
  qed
next
  case (4 es start seen path m ms seen' found)
  then have "fst (cycle_dfs es start (jset_add m seen) (path @ [m]) (out_of es m)) = seen'"
      "cycle_dfs_dom (es, start, jset_add m seen, path @ [m], out_of es m)"
    by (metis fst_conv, blast)
  then have "set seen \<subseteq> set seen'"
    using cycle_dfs_grows by fastforce
  then have "card (arrow_nodes es - set seen') \<le> card (arrow_nodes es - set seen)"
    by (intro card_mono) auto
  then show ?case
    by auto
qed

definition assertAcyclic :: "dag_edges \<Rightarrow> job_id \<Rightarrow> dag_error option" where
  "assertAcyclic es start =
     (if jset_has (out_of es start) start then Some (CycleError [start, start])
      else
        case snd (cycle_dfs es start [] [] (out_of es start)) of
          None \<Rightarrow> None
        | Some path \<Rightarrow>
            let cycle = start # path;
                rep = length (takeWhile (\<lambda>x. x \<noteq> last cycle) cycle)
            in Some (CycleError (if rep > 0 then drop rep cycle else cycle)))"

text \<open>\<open>add\<close> registers the job before it looks at its dependencies, and takes nothing back when it throws.\<close>

fun add_deps :: "job_id \<Rightarrow> job_id list \<Rightarrow> dag \<Rightarrow> dag \<times> dag_error option" where
  "add_deps j [] g = (g, None)"
| "add_deps j (dep # deps) g =
     (if \<not> jmap_has (dg_jobs g) dep then (g, Some (UnknownDependency j dep))
      else add_deps j deps (g\<lparr>dg_edges := jmap_set dep (jset_add j (out_of (dg_edges g) dep)) (dg_edges g)\<rparr>))"

definition dag_add :: "dag_job \<Rightarrow> dag \<Rightarrow> dag \<times> dag_error option" where
  "dag_add job g =
     (let g = g\<lparr>dg_jobs := jmap_set (dj_jobId job) job (dg_jobs g)\<rparr> in
      case add_deps (dj_jobId job) (dj_dependsOn job) g of
        (g, Some e) \<Rightarrow> (g, Some e)
      | (g, None) \<Rightarrow> (g, assertAcyclic (dg_edges g) (dj_jobId job)))"

section \<open>The search for a cycle is exact\<close>

lemma cycle_dfs_complete:
  assumes "cycle_dfs es start seen path ms = (seen', None)"
  shows "set seen \<subseteq> set seen' \<and> set ms \<subseteq> set seen' \<and>
     (\<forall>x \<in> set seen' - set seen. start \<notin> set (out_of es x) \<and> set (out_of es x) \<subseteq> set seen') \<and>
     (path \<noteq> [] \<longrightarrow> start \<notin> set ms)"
  using assms
proof (induction es start seen path ms arbitrary: seen' rule: cycle_dfs.induct)
  case (1 es start seen path)
  then show ?case by simp
next
  case (2 es start seen path m ms)
  have not_found: "\<not> (m = start \<and> path \<noteq> [])"
    using "2.prems" by (auto split: if_splits)
  show ?case
  proof (cases "jset_has seen m")
    case True
    have guard: "\<not> (m = start \<and> 0 < length path)"
      using not_found by simp
    then have rest: "cycle_dfs es start seen path ms = (seen', None)"
      using "2.prems" True by (simp split: if_splits)
    have "m \<in> set seen"
      using True by (simp add: jset_has_def)
    then show ?thesis
      using 2(1) [OF guard True rest] not_found by auto
  next
    case fresh: False
    obtain seen2 r where inner: "cycle_dfs es start (jset_add m seen) (path @ [m]) (out_of es m) = (seen2, r)"
      by fastforce
    have none: "r = None"
      using "2.prems" not_found fresh inner by (cases r) auto
    note deep = 2(2) [OF _ fresh, of seen2]
    have rest: "cycle_dfs es start seen2 path ms = (seen', None)"
      using "2.prems" not_found fresh inner none by simp
    note wide = 2(3) [OF _ fresh inner [symmetric] none rest]
    have d: "insert m (set seen) \<subseteq> set seen2" "set (out_of es m) \<subseteq> set seen2" "start \<notin> set (out_of es m)"
        "\<And>x. x \<in> set seen2 \<Longrightarrow> x \<notin> insert m (set seen) \<Longrightarrow> start \<notin> set (out_of es x) \<and> set (out_of es x) \<subseteq> set seen2"
      using deep not_found inner none by auto
    have w: "set seen2 \<subseteq> set seen'" "set ms \<subseteq> set seen'" "path \<noteq> [] \<longrightarrow> start \<notin> set ms"
        "\<And>x. x \<in> set seen' \<Longrightarrow> x \<notin> set seen2 \<Longrightarrow> start \<notin> set (out_of es x) \<and> set (out_of es x) \<subseteq> set seen'"
      using wide not_found by auto
    have "start \<notin> set (out_of es x) \<and> set (out_of es x) \<subseteq> set seen'" if "x \<in> set seen' - set seen" for x
      using that d(2,3) d(4) [of x] w(1) w(4) [of x] by (cases "x \<in> set seen2"; cases "x = m") (simp_all, blast)
    then show ?thesis
      using d(1) w(1-3) not_found by auto
  qed
qed

lemma cycle_dfs_sound:
  assumes "cycle_dfs es start seen path ms = (seen', Some p)" and "set path \<subseteq> set seen" and "distinct path"
    and "walk (arrows es) (start # path)" and "set ms \<subseteq> set (out_of es (last (start # path)))"
    and "path = [] \<longrightarrow> start \<notin> set ms" and "start \<notin> set path"
  shows "p \<noteq> [] \<and> distinct p \<and> start \<notin> set p \<and> walk (arrows es) (start # p) \<and> (last p, start) \<in> arrows es"
  using assms
proof (induction es start seen path ms arbitrary: seen' p rule: cycle_dfs.induct)
  case (1 es start seen path)
  then show ?case by simp
next
  case (2 es start seen path m ms)
  have arrow: "(last (start # path), m) \<in> arrows es"
    using "2.prems"(5) by (simp add: arrows_def)
  consider (found) "m = start" "path \<noteq> []" | (skip) "\<not> (m = start \<and> path \<noteq> [])" "jset_has seen m"
    | (down) "\<not> (m = start \<and> path \<noteq> [])" "\<not> jset_has seen m"
    by blast
  then show ?case
  proof cases
    case found
    then show ?thesis
      using "2.prems" arrow by simp
  next
    case skip
    then show ?thesis
      using 2(1) skip "2.prems" by auto
  next
    case down
    then have m: "m \<noteq> start" "m \<notin> set path"
      using "2.prems"(2,6) by (auto simp: jset_has_def)
    have way: "walk (arrows es) (start # path @ [m])"
      using walk_snoc [of "start # path" "arrows es" m] "2.prems"(4) arrow by simp
    obtain seen2 r where inner: "cycle_dfs es start (jset_add m seen) (path @ [m]) (out_of es m) = (seen2, r)"
      by fastforce
    show ?thesis
    proof (cases r)
      case None
      then have "set seen \<subseteq> set seen2" "set path \<subseteq> set seen2"
        using "2.prems"(2) cycle_dfs_complete [of es start "jset_add m seen" "path @ [m]" "out_of es m" seen2] inner by auto
      then show ?thesis
        using 2(3) [OF _ down(2) inner [symmetric] None] down inner None "2.prems" by auto
    next
      case (Some p')
      then show ?thesis
        using 2(2) [OF _ down(2)] down inner "2.prems" m way by auto
    qed
  qed
qed

theorem assertAcyclic_iff: "assertAcyclic es start \<noteq> None \<longleftrightarrow> (start, start) \<in> (arrows es)\<^sup>+"
proof (cases "start \<in> set (out_of es start)")
  case True
  then show ?thesis
    by (auto simp: assertAcyclic_def jset_has_def arrows_def)
next
  case False
  obtain seen r where run: "cycle_dfs es start [] [] (out_of es start) = (seen, r)"
    by fastforce
  have none: "assertAcyclic es start \<noteq> None \<longleftrightarrow> r \<noteq> None"
    using False run by (simp add: assertAcyclic_def jset_has_def Let_def split: option.split)
  show ?thesis
  proof (cases r)
    case None
    have closed: "set (out_of es start) \<subseteq> set seen" "\<forall>x \<in> set seen. start \<notin> set (out_of es x) \<and> set (out_of es x) \<subseteq> set seen"
      using cycle_dfs_complete [of es start "[]" "[]" "out_of es start" seen] run None by auto
    have "z \<in> set seen \<and> z \<noteq> start" if "(start, z) \<in> (arrows es)\<^sup>+" for z
      using that
    proof (induction rule: trancl_induct)
      case (base z)
      then show ?case
        using closed False by (auto simp: arrows_def)
    next
      case (step y z)
      then show ?case
        using closed(2) by (auto simp: arrows_def)
    qed
    then show ?thesis
      using none None by blast
  next
    case (Some p)
    then have p: "p \<noteq> []" "walk (arrows es) (start # p)" "(last p, start) \<in> arrows es"
      using cycle_dfs_sound [of es start "[]" "[]" "out_of es start" seen p] run False by auto
    have "(x, last q) \<in> (arrows es)\<^sup>*" if "walk (arrows es) (x # q)" "q \<noteq> []" for x q
      using that
    proof (induction q arbitrary: x)
      case (Cons y q)
      then show ?case
        by (cases q) (auto intro: converse_rtrancl_into_rtrancl)
    qed simp
    then have "(start, last p) \<in> (arrows es)\<^sup>*"
      using p(1,2) by blast
    then show ?thesis
      using p(3) none Some by (meson option.simps(3) rtrancl_into_trancl1)
  qed
qed

text \<open>
  The error is meant to show the whole cycle; the last node of the path occurs there once, so the slice keeps that node
  alone: but for a job that depends on itself, the path names one job.
\<close>

theorem cycle_error_names_one_job:
  assumes "assertAcyclic es start = Some e" and "start \<notin> set (out_of es start)"
  shows "\<exists>x. e = CycleError [x] \<and> (x, start) \<in> arrows es \<and> x \<noteq> start"
proof -
  obtain seen r where run: "cycle_dfs es start [] [] (out_of es start) = (seen, r)"
    by fastforce
  then obtain p where r: "r = Some p"
    using assms by (auto simp: assertAcyclic_def jset_has_def split: option.splits)
  then have p: "p \<noteq> []" "distinct p" "start \<notin> set p" "(last p, start) \<in> arrows es"
    using cycle_dfs_sound [of es start "[]" "[]" "out_of es start" seen p] run assms(2) by auto
  have "p = butlast p @ [last p]"
    using p(1) by simp
  moreover have "last p \<notin> set (butlast p)"
    using p(2) calculation by (metis distinct_append disjoint_iff list.set_intros(1))
  ultimately have before: "takeWhile (\<lambda>x. x \<noteq> last p) p = butlast p"
    by (metis (mono_tags, lifting) takeWhile_tail takeWhile_append2 append_Nil2 takeWhile_eq_all_conv)
  have "start \<noteq> last p"
    using p(1,3) by auto
  moreover have "drop (length p) (start # p) = [last p]"
    using p(1) by (cases p rule: rev_cases) auto
  moreover have "Suc (length p - Suc 0) = length p"
    using p(1) by (cases p) auto
  ultimately show ?thesis
    using assms p run r by (auto simp: assertAcyclic_def jset_has_def Let_def before)
qed

text \<open>The state of a graph whose adds went through, those of a job already there among them.\<close>

definition preds :: "dag_edges \<Rightarrow> job_id \<Rightarrow> job_id set" where
  "preds es v = {u. (u, v) \<in> arrows es}"

definition job_ids :: "dag \<Rightarrow> job_id set" where
  "job_ids g = set (jmap_keys (dg_jobs g))"

definition dag_ok :: "dag \<Rightarrow> bool" where
  "dag_ok g \<longleftrightarrow> jmap_wf (dg_jobs g) \<and> jmap_wf (dg_edges g) \<and> (\<forall>(u, s) \<in> set (dg_edges g). distinct s)
     \<and> arrows (dg_edges g) \<subseteq> job_ids g \<times> job_ids g
     \<and> (\<forall>(k, j) \<in> set (dg_jobs g). dj_jobId j = k)"

definition deps_kept :: "dag \<Rightarrow> bool" where
  "deps_kept g \<longleftrightarrow> (\<forall>(k, j) \<in> set (dg_jobs g). \<forall>d \<in> set (dj_dependsOn j). (d, k) \<in> arrows (dg_edges g))"

lemma out_of_set: "out_of (jmap_set u s es) v = (if v = u then s else out_of es v)"
  by (simp add: out_of_def jmap_get_set)

lemma arrows_set: "arrows (jmap_set u (jset_add v (out_of es u)) es) = insert (u, v) (arrows es)"
  by (auto simp: arrows_def out_of_set split: if_splits)

lemma jmap_has_ids: "jmap_has (dg_jobs g) k \<longleftrightarrow> k \<in> job_ids g"
  using set_jmap_keys [of "dg_jobs g"] by (simp add: job_ids_def)

lemma distinct_out_of: "dag_ok g \<Longrightarrow> distinct (out_of (dg_edges g) u)"
  by (auto simp: dag_ok_def out_of_def jmap_get_def split: option.split dest!: map_of_SomeD)

lemma add_deps_ok:
  assumes "dag_ok g" and "j \<in> job_ids g" and "add_deps j deps g = (g', e)"
  shows "dag_ok g' \<and> dg_jobs g' = dg_jobs g \<and> arrows (dg_edges g) \<subseteq> arrows (dg_edges g') \<and>
     arrows (dg_edges g') \<subseteq> arrows (dg_edges g) \<union> UNIV \<times> {j} \<and>
     (e = None \<longrightarrow> arrows (dg_edges g') = arrows (dg_edges g) \<union> set deps \<times> {j})"
  using assms
proof (induction j deps g rule: add_deps.induct)
  case (1 j g)
  then show ?case by simp
next
  case (2 j dep deps g)
  show ?case
  proof (cases "jmap_has (dg_jobs g) dep")
    case False
    then show ?thesis
      using "2.prems" by auto
  next
    case True
    let ?e = "jmap_set dep (jset_add j (out_of (dg_edges g) dep)) (dg_edges g)"
    have "\<forall>(u, s) \<in> set ?e. distinct s"
      using "2.prems"(1) distinct_out_of [OF "2.prems"(1)] by (intro jmap_set_all) (auto simp: dag_ok_def)
    then have ok: "dag_ok (g\<lparr>dg_edges := ?e\<rparr>)"
      using "2.prems"(1,2) True by (auto simp: dag_ok_def arrows_set job_ids_def set_jmap_keys)
    have here: "j \<in> job_ids (g\<lparr>dg_edges := ?e\<rparr>)"
      using "2.prems"(2) by (simp add: job_ids_def)
    have rest: "add_deps j deps (g\<lparr>dg_edges := ?e\<rparr>) = (g', e)"
      using "2.prems"(3) True by simp
    have "\<not> \<not> jmap_has (dg_jobs g) dep"
      using True by simp
    from 2(1) [OF this ok here rest] show ?thesis
      by (auto simp: arrows_set)
  qed
qed

lemma dag_ok_register:
  assumes "dag_ok g"
  shows "dag_ok (g\<lparr>dg_jobs := jmap_set (dj_jobId job) job (dg_jobs g)\<rparr>)"
    and "job_ids (g\<lparr>dg_jobs := jmap_set (dj_jobId job) job (dg_jobs g)\<rparr>) = insert (dj_jobId job) (job_ids g)"
proof -
  show ids: "job_ids (g\<lparr>dg_jobs := jmap_set (dj_jobId job) job (dg_jobs g)\<rparr>) = insert (dj_jobId job) (job_ids g)"
    by (auto simp: job_ids_def jmap_keys_set set_jmap_keys)
  show "dag_ok (g\<lparr>dg_jobs := jmap_set (dj_jobId job) job (dg_jobs g)\<rparr>)"
    using assms ids jmap_set_all [of "\<lambda>(k, j). dj_jobId j = k" "dj_jobId job" job "dg_jobs g"]
    by (auto simp: dag_ok_def)
qed

text \<open>A new cycle goes through the job whose dependencies were added.\<close>

lemma cycle_through_target:
  assumes "acyclic r" and "\<not> acyclic (r \<union> D \<times> {j})"
  shows "(j, j) \<in> (r \<union> D \<times> {j})\<^sup>+"
proof (rule ccontr)
  let ?r = "r \<union> D \<times> {j}"
  assume none: "(j, j) \<notin> ?r\<^sup>+"
  have "(x, y) \<in> r\<^sup>+ \<or> (x, j) \<in> ?r\<^sup>+ \<and> (j, y) \<in> ?r\<^sup>*" if "(x, y) \<in> ?r\<^sup>+" for x y
    using that
  proof (induction rule: trancl_induct)
    case (base y)
    then show ?case
      by auto
  next
    case (step y z)
    consider "(y, z) \<in> r" | "z = j" "(y, j) \<in> ?r"
      using step(2) by auto
    then show ?case
    proof cases
      case 1
      then show ?thesis
        using step by (meson UnI1 rtrancl.rtrancl_into_rtrancl trancl.trancl_into_trancl)
    next
      case 2
      then show ?thesis
        using step(1,2) by (meson rtrancl.rtrancl_refl trancl.trancl_into_trancl)
    qed
  qed
  then have "acyclic ?r"
    using assms(1) none by (meson acyclic_def rtrancl_trancl_trancl)
  then show False
    using assms(2) by blast
qed

lemma dag_add_cases:
  assumes "dag_ok g" and "dag_add job g = (g', e)"
  shows "dag_ok g' \<and> job_ids g' = insert (dj_jobId job) (job_ids g) \<and> arrows (dg_edges g) \<subseteq> arrows (dg_edges g') \<and>
     dg_jobs g' = jmap_set (dj_jobId job) job (dg_jobs g) \<and>
     (e = None \<longrightarrow> arrows (dg_edges g') = arrows (dg_edges g) \<union> set (dj_dependsOn job) \<times> {dj_jobId job} \<and>
        (acyclic (arrows (dg_edges g)) \<longrightarrow> acyclic (arrows (dg_edges g'))))"
proof -
  let ?j = "dj_jobId job"
  let ?g = "g\<lparr>dg_jobs := jmap_set ?j job (dg_jobs g)\<rparr>"
  note reg = dag_ok_register [OF assms(1), of job]
  obtain h d where deps: "add_deps ?j (dj_dependsOn job) ?g = (h, d)"
    by fastforce
  have h: "dag_ok h" "dg_jobs h = dg_jobs ?g" "arrows (dg_edges g) \<subseteq> arrows (dg_edges h)"
      "d = None \<longrightarrow> arrows (dg_edges h) = arrows (dg_edges g) \<union> set (dj_dependsOn job) \<times> {?j}"
    using add_deps_ok [OF reg(1) _ deps] reg(2) by auto
  have g': "g' = h" and e: "e = (case d of None \<Rightarrow> assertAcyclic (dg_edges h) ?j | Some x \<Rightarrow> Some x)"
    using assms(2) deps by (auto simp: dag_add_def split: option.splits)
  have "acyclic (arrows (dg_edges h))" if "e = None" "acyclic (arrows (dg_edges g))"
  proof (rule ccontr)
    assume cyclic: "\<not> acyclic (arrows (dg_edges h))"
    have "d = None" "assertAcyclic (dg_edges h) ?j = None"
      using that(1) e by (auto split: option.splits)
    then show False
      using cycle_through_target [OF that(2), of "set (dj_dependsOn job)" ?j] h(4) cyclic
        assertAcyclic_iff [of "dg_edges h" ?j] by simp
  qed
  moreover have "job_ids h = insert ?j (job_ids g)"
    using reg(2) h(2) by (simp add: job_ids_def)
  ultimately show ?thesis
    using h g' e by (auto split: option.splits)
qed

end
