(* ===== verification/DagSchedule.thy ===== *)
theory DagSchedule
  imports DependencyDAG
begin

text \<open>
  The execution layers that \<open>scheduling/engine2/DependencyDAG.ts\<close> computes by Kahn's algorithm. They are shown to be
  exactly the jobs whose dependencies lie in the layers before.
\<close>

section \<open>Layers\<close>

definition inDegree :: "dag \<Rightarrow> (job_id, int) jmap" where
  "inDegree g =
     (let zeros = foldl (\<lambda>m k. jmap_set k 0 m) jmap_empty (jmap_keys (dg_jobs g)) in
      foldl (\<lambda>m outs. foldl (\<lambda>m k. jmap_set k ((case jmap_get m k of Some d \<Rightarrow> d | None \<Rightarrow> 0) + 1) m) m outs)
        zeros (jmap_values (dg_edges g)))"

text \<open>The target of every edge has an entry, so the assertion \<open>!\<close> of the code never sees a missing one.\<close>

definition relax :: "(job_id, int) jmap \<times> job_id list \<Rightarrow> job_id \<Rightarrow> (job_id, int) jmap \<times> job_id list" where
  "relax s m =
     (case jmap_get (fst s) m of
        None \<Rightarrow> s
      | Some d \<Rightarrow> let d = d - 1 in (jmap_set m d (fst s), if d = 0 then snd s @ [m] else snd s))"

definition next_frontier :: "dag_edges \<Rightarrow> job_id list \<Rightarrow> (job_id, int) jmap \<Rightarrow> (job_id, int) jmap \<times> job_id list" where
  "next_frontier es frontier inDeg = foldl (\<lambda>s u. foldl relax s (out_of es u)) (inDeg, []) frontier"

definition positives :: "(job_id, int) jmap \<Rightarrow> nat" where
  "positives m = length (filter (\<lambda>(_, d). d > 0) m)"

lemma positives_set:
  assumes "jmap_get m k = Some d" and "d' = d - 1"
  shows "positives (jmap_set k d' m) + (if d' = 0 then 1 else 0) \<le> positives m"
  using assms
proof (induction m)
  case Nil
  then show ?case
    by (simp add: jmap_get_def)
next
  case (Cons x m)
  then show ?case
    by (cases x) (auto simp: positives_def jmap_get_def jmap_set_def split: if_splits)
qed

lemma positives_relax: "positives (fst (relax s m)) + length (snd (relax s m)) \<le> positives (fst s) + length (snd s)"
  using positives_set [of "fst s" m] by (auto simp: relax_def Let_def split: option.split)

lemma positives_relaxes: "positives (fst (foldl relax s ms)) + length (snd (foldl relax s ms)) \<le> positives (fst s) + length (snd s)"
proof (induction ms arbitrary: s)
  case (Cons m ms)
  show ?case
    using order_trans [OF Cons.IH positives_relax] by simp
qed simp

lemma positives_next:
  "positives (fst (next_frontier es frontier inDeg)) + length (snd (next_frontier es frontier inDeg)) \<le> positives inDeg"
proof -
  have "positives (fst (foldl (\<lambda>s u. foldl relax s (out_of es u)) s us)) + length (snd (foldl (\<lambda>s u. foldl relax s (out_of es u)) s us))
      \<le> positives (fst s) + length (snd s)" for us s
  proof (induction us arbitrary: s)
    case (Cons u us)
    show ?case
      using order_trans [OF Cons.IH positives_relaxes] by simp
  qed simp
  from this [of "(inDeg, [])" frontier] show ?thesis
    by (simp add: next_frontier_def)
qed

function kahn :: "dag_edges \<Rightarrow> job_id list \<Rightarrow> (job_id, int) jmap \<Rightarrow> job_id list list" where
  "kahn es frontier inDeg =
     (if length frontier > 0 then
        let (inDeg', next') = next_frontier es frontier inDeg
        in frontier # kahn es next' inDeg'
      else [])"
  by pat_completeness auto

termination
proof (relation "measure (\<lambda>(es, frontier, inDeg). 2 * positives inDeg + (if frontier = [] then 0 else 1))", goal_cases)
  case 1
  then show ?case by simp
next
  case (2 es frontier inDeg x inDeg' next')
  then have "positives inDeg' + length next' \<le> positives inDeg"
    using positives_next [of es frontier inDeg] by (metis fst_conv snd_conv)
  then show ?case
    using 2(1) by (cases next') auto
qed

declare kahn.simps [simp del]

definition topoLayers :: "dag \<Rightarrow> dag_error + job_id list list" where
  "topoLayers g =
     (let inDeg = inDegree g;
          frontier = map fst (filter (\<lambda>(_, d). d = 0) inDeg);
          layers = kahn (dg_edges g) frontier inDeg
      in if sum_list (map length layers) \<noteq> length (dg_jobs g) then Inl (CycleError []) else Inr layers)"

definition topoOrder :: "dag \<Rightarrow> dag_error + job_id list" where
  "topoOrder g = map_sum (\<lambda>e. e) concat (topoLayers g)"


section \<open>Kahn's algorithm against its specification\<close>

lemma relax_all:
  assumes "distinct ms" and "\<forall>m \<in> set ms. jmap_get deg m \<noteq> None" and "foldl relax (deg, nxt) ms = (deg', nxt')"
  shows "nxt' = nxt @ filter (\<lambda>m. jmap_get deg m = Some 1) ms \<and>
     (\<forall>v. jmap_get deg' v = (if v \<in> set ms then map_option (\<lambda>d. d - 1) (jmap_get deg v) else jmap_get deg v))"
  using assms
proof (induction ms arbitrary: deg nxt)
  case Nil
  then show ?case by simp
next
  case (Cons m ms)
  obtain d where d: "jmap_get deg m = Some d"
    using Cons.prems(2) by auto
  let ?deg = "jmap_set m (d - 1) deg"
  let ?nxt = "if d - 1 = 0 then nxt @ [m] else nxt"
  have step: "relax (deg, nxt) m = (?deg, ?nxt)"
    using d by (simp add: relax_def Let_def)
  have others: "jmap_get ?deg v = jmap_get deg v" if "v \<in> set ms" for v
    using that Cons.prems(1) by (auto simp: jmap_get_set)
  have "nxt' = ?nxt @ filter (\<lambda>v. jmap_get ?deg v = Some 1) ms \<and>
     (\<forall>v. jmap_get deg' v = (if v \<in> set ms then map_option (\<lambda>d. d - 1) (jmap_get ?deg v) else jmap_get ?deg v))"
    using Cons.prems others by (intro Cons.IH) (simp_all add: step)
  moreover have "filter (\<lambda>v. jmap_get ?deg v = Some 1) ms = filter (\<lambda>v. jmap_get deg v = Some 1) ms"
    using others by (intro filter_cong) auto
  ultimately show ?case
    using d Cons.prems(1) by (auto simp: jmap_get_set)
qed

text \<open>The nodes of \<open>V\<close> whose predecessors all lie in \<open>D\<close>, and the number of those outside it.\<close>

definition ready_set :: "dag_edges \<Rightarrow> job_id set \<Rightarrow> job_id set \<Rightarrow> job_id set" where
  "ready_set es V D = {v \<in> V. preds es v \<subseteq> D}"

definition open_preds :: "dag_edges \<Rightarrow> job_id set \<Rightarrow> job_id \<Rightarrow> nat" where
  "open_preds es D v = card (preds es v - D)"

text \<open>
  The state of the algorithm after the nodes of \<open>D\<close> were consumed: the counters are the numbers of open predecessors, and
  the pending nodes are those that are ready and not consumed.
\<close>

definition kahn_inv :: "dag_edges \<Rightarrow> job_id set \<Rightarrow> job_id set \<Rightarrow> (job_id, int) jmap \<Rightarrow> job_id list \<Rightarrow> bool" where
  "kahn_inv es V D deg pending \<longleftrightarrow>
     (\<forall>v. jmap_get deg v = (if v \<in> V then Some (int (open_preds es D v)) else None)) \<and>
     D \<subseteq> ready_set es V D \<and> distinct pending \<and> set pending = ready_set es V D - D"

text \<open>A graph on a finite set of nodes, its successor lists without repetition.\<close>

definition graph_on :: "dag_edges \<Rightarrow> job_id set \<Rightarrow> bool" where
  "graph_on es V \<longleftrightarrow> finite V \<and> arrows es \<subseteq> V \<times> V \<and> (\<forall>u. distinct (out_of es u))"

lemma preds_iff: "u \<in> preds es v \<longleftrightarrow> v \<in> set (out_of es u)"
  by (simp add: preds_def arrows_def)

lemma preds_nodes: "graph_on es V \<Longrightarrow> preds es v \<subseteq> V"
  by (auto simp: graph_on_def preds_def)

lemma finite_preds: "graph_on es V \<Longrightarrow> finite (preds es v)"
  using finite_subset [OF preds_nodes [of es V v]] by (simp add: graph_on_def)

lemma open_preds_zero: "graph_on es V \<Longrightarrow> open_preds es D v = 0 \<longleftrightarrow> preds es v \<subseteq> D"
  by (simp add: open_preds_def finite_preds)

lemma open_preds_insert:
  assumes "graph_on es V" and "u \<notin> D"
  shows "open_preds es D v = open_preds es (insert u D) v + (if u \<in> preds es v then 1 else 0)"
proof (cases "u \<in> preds es v")
  case True
  have split: "preds es v - D = insert u (preds es v - insert u D)"
    using True assms(2) by blast
  have "card (preds es v - D) = Suc (card (preds es v - insert u D))"
    by (subst split, subst card_insert_disjoint) (simp_all add: finite_preds [OF assms(1)])
  then show ?thesis
    using True by (simp add: open_preds_def)
next
  case False
  then have "preds es v - D = preds es v - insert u D"
    by blast
  then show ?thesis
    using False by (simp add: open_preds_def)
qed

lemma kahn_consume:
  assumes "graph_on es V" and "kahn_inv es V D deg (u # pending)" and "foldl relax (deg, nxt) (out_of es u) = (deg', nxt')"
  shows "\<exists>new. nxt' = nxt @ new \<and> kahn_inv es V (insert u D) deg' (pending @ new)"
proof -
  let ?D = "insert u D"
  have inv: "\<And>v. jmap_get deg v = (if v \<in> V then Some (int (open_preds es D v)) else None)"
      "D \<subseteq> ready_set es V D" "distinct (u # pending)" "set (u # pending) = ready_set es V D - D"
    using assms(2) by (simp_all add: kahn_inv_def)
  have u: "u \<in> V" "u \<notin> D" "preds es u \<subseteq> D"
    using inv(4) by (auto simp: ready_set_def)
  have outs: "set (out_of es u) \<subseteq> V" "distinct (out_of es u)"
    using assms(1) by (auto simp: graph_on_def arrows_def)
  define new where "new = filter (\<lambda>m. jmap_get deg m = Some 1) (out_of es u)"
  have relaxed: "nxt' = nxt @ new"
      "\<And>v. jmap_get deg' v = (if v \<in> set (out_of es u) then map_option (\<lambda>d. d - 1) (jmap_get deg v) else jmap_get deg v)"
  proof -
    have "\<forall>m \<in> set (out_of es u). jmap_get deg m \<noteq> None"
      using inv(1) outs(1) by auto
    from relax_all [OF outs(2) this assms(3)]
    show "nxt' = nxt @ new"
      and "\<And>v. jmap_get deg' v = (if v \<in> set (out_of es u) then map_option (\<lambda>d. d - 1) (jmap_get deg v) else jmap_get deg v)"
      by (simp_all add: new_def)
  qed
  have degs: "jmap_get deg' v = (if v \<in> V then Some (int (open_preds es ?D v)) else None)" for v
    using relaxed(2) [of v] inv(1) [of v] outs(1) open_preds_insert [OF assms(1) u(2), of v] by (auto simp: preds_iff)
  have grows: "ready_set es V D \<subseteq> ready_set es V ?D"
    by (auto simp: ready_set_def)
  have new_set: "set new = {v \<in> V. u \<in> preds es v \<and> preds es v \<subseteq> ?D}"
    using inv(1) outs(1) open_preds_insert [OF assms(1) u(2)] open_preds_zero [OF assms(1), of ?D]
    by (auto simp: new_def preds_iff split: if_splits)
  have "ready_set es V ?D = ready_set es V D \<union> set new"
    by (auto simp: ready_set_def new_set)
  moreover have "set new \<inter> ready_set es V D = {}"
    using u(2) by (auto simp: new_set ready_set_def)
  ultimately have pend: "set (pending @ new) = ready_set es V ?D - ?D" "set pending \<inter> set new = {}"
    using inv(2-4) u by (auto simp: ready_set_def)
  have "distinct (pending @ new)"
    using inv(3) outs(2) pend(2) by (simp add: new_def)
  moreover have "?D \<subseteq> ready_set es V ?D"
    using inv(2) u grows by (auto simp: ready_set_def)
  ultimately show ?thesis
    using degs pend(1) relaxed(1) by (auto simp: kahn_inv_def)
qed

lemma kahn_consumes:
  assumes "graph_on es V" and "kahn_inv es V D deg (us @ nxt)"
    and "foldl (\<lambda>s u. foldl relax s (out_of es u)) (deg, nxt) us = (deg', nxt')"
  shows "kahn_inv es V (D \<union> set us) deg' nxt'"
  using assms(2,3)
proof (induction us arbitrary: D deg nxt)
  case Nil
  then show ?case by simp
next
  case (Cons u us)
  obtain deg1 nxt1 where one: "foldl relax (deg, nxt) (out_of es u) = (deg1, nxt1)"
    by fastforce
  obtain new where "nxt1 = nxt @ new" "kahn_inv es V (insert u D) deg1 ((us @ nxt) @ new)"
    using kahn_consume [OF assms(1) _ one, of D "us @ nxt"] Cons.prems(1) by auto
  then have "kahn_inv es V (insert u D \<union> set us) deg' nxt'"
    using Cons.IH [of "insert u D" deg1 nxt1] Cons.prems(2) one by simp
  then show ?case
    by simp
qed

text \<open>
  The specification of the layers: each is, as a set, all the jobs that are ready once those before it are done, and at
  the end none is.
\<close>

fun layered :: "dag_edges \<Rightarrow> job_id set \<Rightarrow> job_id set \<Rightarrow> job_id list list \<Rightarrow> bool" where
  "layered es V D [] \<longleftrightarrow> ready_set es V D \<subseteq> D"
| "layered es V D (l # ls) \<longleftrightarrow> l \<noteq> [] \<and> distinct l \<and> set l = ready_set es V D - D \<and> layered es V (D \<union> set l) ls"

lemma kahn_layered:
  assumes "graph_on es V" and "kahn_inv es V D deg frontier"
  shows "layered es V D (kahn es frontier deg)"
  using assms
proof (induction es frontier deg arbitrary: D rule: kahn.induct)
  case (1 es frontier deg)
  show ?case
  proof (cases "frontier = []")
    case True
    then show ?thesis
      using "1.prems"(2) by (auto simp: kahn.simps [of es "[]"] kahn_inv_def)
  next
    case False
    obtain deg' nxt where nf: "next_frontier es frontier deg = (deg', nxt)"
      by fastforce
    have "kahn_inv es V (D \<union> set frontier) deg' nxt"
      using kahn_consumes [OF "1.prems"(1), of D deg frontier "[]" deg' nxt] "1.prems"(2) nf by (simp add: next_frontier_def)
    then have "layered es V (D \<union> set frontier) (kahn es nxt deg')"
      using "1.IH" [OF _ nf [symmetric] refl "1.prems"(1)] False by simp
    then show ?thesis
      using False nf "1.prems"(2) by (simp add: kahn.simps [of es frontier] kahn_inv_def)
  qed
qed

section \<open>The counters at the start\<close>

definition bump :: "(job_id, int) jmap \<Rightarrow> job_id \<Rightarrow> (job_id, int) jmap" where
  "bump m k = jmap_set k ((case jmap_get m k of Some d \<Rightarrow> d | None \<Rightarrow> 0) + 1) m"

lemma inDegree_bumps:
  "inDegree g = foldl (foldl bump) (foldl (\<lambda>m k. jmap_set k 0 m) jmap_empty (jmap_keys (dg_jobs g))) (jmap_values (dg_edges g))"
  by (simp add: inDegree_def bump_def [abs_def])

lemma wf_bumps: "jmap_wf m \<Longrightarrow> jmap_wf (foldl bump m ks)"
  by (induction ks arbitrary: m) (simp_all add: bump_def)

lemma wf_all_bumps: "jmap_wf m \<Longrightarrow> jmap_wf (foldl (foldl bump) m kss)"
  by (induction kss arbitrary: m) (simp_all add: wf_bumps)

lemma wf_zeros: "jmap_wf m \<Longrightarrow> jmap_wf (foldl (\<lambda>m k. jmap_set k 0 m) m ks)"
  by (induction ks arbitrary: m) simp_all

lemma get_zeros: "jmap_get (foldl (\<lambda>m k. jmap_set k (0 :: int) m) m ks) v = (if v \<in> set ks then Some 0 else jmap_get m v)"
  by (induction ks arbitrary: m) (auto simp: jmap_get_set)

lemma get_bumps:
  "distinct ks \<Longrightarrow> jmap_get m v = Some d \<Longrightarrow> jmap_get (foldl bump m ks) v = Some (d + (if v \<in> set ks then 1 else 0))"
proof (induction ks arbitrary: m d)
  case (Cons k ks)
  have "jmap_get (bump m k) v = Some (d + (if v = k then 1 else 0))"
    using Cons.prems(2) by (auto simp: bump_def jmap_get_set)
  then show ?case
    using Cons.IH [of "bump m k"] Cons.prems(1) by auto
qed simp

lemma get_bumps_other: "v \<notin> set ks \<Longrightarrow> jmap_get (foldl bump m ks) v = jmap_get m v"
  by (induction ks arbitrary: m) (auto simp: bump_def jmap_get_set)

lemma get_all_bumps:
  assumes "\<forall>ks \<in> set kss. distinct ks" and "jmap_get m v = Some d"
  shows "jmap_get (foldl (foldl bump) m kss) v = Some (d + int (length (filter (\<lambda>ks. v \<in> set ks) kss)))"
  using assms
proof (induction kss arbitrary: m d)
  case (Cons ks kss)
  then show ?case
    using get_bumps [of ks m v d] by simp
qed simp

lemma get_all_bumps_other:
  "\<forall>ks \<in> set kss. v \<notin> set ks \<Longrightarrow> jmap_get (foldl (foldl bump) m kss) v = jmap_get m v"
  by (induction kss arbitrary: m) (simp_all add: get_bumps_other)

lemma out_of_entry:
  assumes "jmap_wf es"
  shows "(u, s) \<in> set es \<Longrightarrow> out_of es u = s" and "v \<in> set (out_of es u) \<Longrightarrow> \<exists>s. (u, s) \<in> set es \<and> v \<in> set s"
  using assms by (auto simp: out_of_def jmap_get_def jmap_wf_def jmap_keys_def split: option.splits dest!: map_of_SomeD)

lemma count_preds:
  assumes "jmap_wf es"
  shows "length (filter (\<lambda>ks. v \<in> set ks) (jmap_values es)) = card (preds es v)"
proof -
  let ?f = "filter (\<lambda>(u, s). v \<in> set s) es"
  have "preds es v = fst ` set ?f"
    using out_of_entry [OF assms] by (force simp: preds_iff)
  moreover have "distinct (map fst ?f)"
    using assms by (simp add: jmap_wf_def jmap_keys_def distinct_map_filter)
  ultimately have "card (preds es v) = length ?f"
    by (metis distinct_card length_map set_map)
  moreover have "length (filter (\<lambda>ks. v \<in> set ks) (map snd es)) = length ?f"
    by (induction es) auto
  ultimately show ?thesis
    by (simp add: jmap_values_def)
qed

lemma graph_of_dag: "dag_ok g \<Longrightarrow> graph_on (dg_edges g) (job_ids g)"
  using distinct_out_of by (simp add: graph_on_def dag_ok_def job_ids_def)

lemma inDegree_counts:
  assumes "dag_ok g"
  shows "jmap_get (inDegree g) v = (if v \<in> job_ids g then Some (int (card (preds (dg_edges g) v))) else None)"
proof -
  let ?z = "foldl (\<lambda>m k. jmap_set k (0 :: int) m) jmap_empty (jmap_keys (dg_jobs g))"
  have wf: "jmap_wf (dg_edges g)" and outs: "\<forall>ks \<in> set (jmap_values (dg_edges g)). distinct ks"
    using assms by (auto simp: dag_ok_def jmap_values_def)
  show ?thesis
  proof (cases "v \<in> job_ids g")
    case True
    then have "jmap_get ?z v = Some 0"
      by (simp add: get_zeros job_ids_def)
    from get_all_bumps [OF outs this] show ?thesis
      using True by (simp add: inDegree_bumps count_preds [OF wf])
  next
    case False
    have "v \<notin> set ks" if "ks \<in> set (jmap_values (dg_edges g))" for ks
    proof
      assume v: "v \<in> set ks"
      obtain u where "(u, ks) \<in> set (dg_edges g)"
        using \<open>ks \<in> set (jmap_values (dg_edges g))\<close> unfolding jmap_values_def by fastforce
      then have "(u, v) \<in> arrows (dg_edges g)"
        using out_of_entry(1) [OF wf] v by (simp add: arrows_def)
      then show False
        using assms False by (auto simp: dag_ok_def)
    qed
    then have "jmap_get (inDegree g) v = jmap_get ?z v"
      unfolding inDegree_bumps by (intro get_all_bumps_other) simp
    also have "\<dots> = None"
      using False by (simp add: get_zeros job_ids_def)
    finally show ?thesis
      using False by simp
  qed
qed

lemma kahn_start:
  assumes "dag_ok g"
  shows "kahn_inv (dg_edges g) (job_ids g) {} (inDegree g) (map fst (filter (\<lambda>(_, d). d = 0) (inDegree g)))"
proof -
  have wf: "jmap_wf (inDegree g)"
    unfolding inDegree_bumps by (intro wf_all_bumps wf_zeros) simp
  have "set (map fst (filter (\<lambda>(_, d). d = 0) (inDegree g))) = {v. jmap_get (inDegree g) v = Some 0}"
    using wf by (force simp: jmap_get_iff jmap_wf_def jmap_keys_def)
  also have "\<dots> = ready_set (dg_edges g) (job_ids g) {}"
    using finite_preds [OF graph_of_dag [OF assms]] by (auto simp: inDegree_counts [OF assms] ready_set_def split: if_splits)
  finally show ?thesis
    using wf by (simp add: kahn_inv_def inDegree_counts [OF assms] open_preds_def jmap_wf_def jmap_keys_def distinct_map_filter)
qed

lemma layers_layered:
  assumes "dag_ok g"
  shows "layered (dg_edges g) (job_ids g) {} (kahn (dg_edges g) (map fst (filter (\<lambda>(_, d). d = 0) (inDegree g))) (inDegree g))"
  by (rule kahn_layered [OF graph_of_dag [OF assms] kahn_start [OF assms]])

section \<open>What the layers say\<close>

lemma layered_concat:
  assumes "layered es V D ls" and "D \<subseteq> V"
  shows "distinct (concat ls) \<and> set (concat ls) \<inter> D = {} \<and> set (concat ls) \<subseteq> V \<and>
     ready_set es V (D \<union> set (concat ls)) \<subseteq> D \<union> set (concat ls)"
  using assms
proof (induction es V D ls rule: layered.induct)
  case (1 es V D)
  then show ?case by simp
next
  case (2 es V D l ls)
  let ?c = "set (concat ls)"
  have l: "l \<noteq> []" "distinct l" "set l \<inter> D = {}" "set l \<subseteq> V" "layered es V (D \<union> set l) ls"
    using "2.prems"(1) by (auto simp: ready_set_def)
  then have ih: "distinct (concat ls)" "?c \<inter> (D \<union> set l) = {}" "?c \<subseteq> V"
      "ready_set es V (D \<union> set l \<union> ?c) \<subseteq> D \<union> set l \<union> ?c"
    using "2.IH" "2.prems"(2) by auto
  have whole: "set (concat (l # ls)) = set l \<union> ?c"
    by simp
  have "distinct (concat (l # ls))"
    using l(2) ih(1,2) by auto
  then show ?case
    unfolding whole Un_assoc [symmetric] using l(3,4) ih(2-4) by blast
qed

lemma layered_no_cycle:
  assumes "layered es V D ls" and "x \<in> set (concat ls)" and "\<forall>v \<in> D. preds es v \<subseteq> D"
  shows "(x, x) \<notin> (arrows es)\<^sup>+"
  using assms
proof (induction es V D ls rule: layered.induct)
  case (1 es V D)
  then show ?case by simp
next
  case (2 es V D l ls)
  have l: "set l = ready_set es V D - D"
    using "2.prems"(1) by simp
  show ?case
  proof (cases "x \<in> set l")
    case True
    show ?thesis
    proof
      assume "(x, x) \<in> (arrows es)\<^sup>+"
      then obtain y where y: "(x, y) \<in> (arrows es)\<^sup>*" "(y, x) \<in> arrows es"
        by (meson tranclD2)
      have "y \<in> D"
        using y(2) True l by (auto simp: ready_set_def preds_def)
      have "x \<in> D"
        using y(1) \<open>y \<in> D\<close> "2.prems"(3)
        by (induction rule: converse_rtrancl_induct) (auto simp: preds_def)
      then show False
        using True l by blast
    qed
  next
    case False
    have "\<forall>v \<in> D \<union> set l. preds es v \<subseteq> D \<union> set l"
      using "2.prems"(3) l by (auto simp: ready_set_def)
    moreover have "layered es V (D \<union> set l) ls"
      using "2.prems"(1) by (metis layered.simps(2))
    moreover have "x \<in> set (concat ls)"
      using "2.prems"(2) False by auto
    ultimately show ?thesis
      using "2.IH" by blast
  qed
qed

lemma stuck_only_on_cycles:
  assumes "graph_on es V" and "acyclic (arrows es)" and "ready_set es V D \<subseteq> D" and "D \<subseteq> V"
  shows "D = V"
proof (rule ccontr)
  assume "D \<noteq> V"
  then obtain x where "x \<in> V - D"
    using assms(4) by blast
  moreover have "finite (arrows es)"
    using assms(1) finite_subset by (fastforce simp: graph_on_def)
  then have "wf (arrows es)"
    using assms(2) finite_acyclic_wf by blast
  ultimately obtain z where z: "z \<in> V - D" "\<And>y. (y, z) \<in> arrows es \<Longrightarrow> y \<notin> V - D"
    by (metis wfE_min)
  then have "preds es z \<subseteq> D"
    using preds_nodes [OF assms(1), of z] by (auto simp: preds_def)
  then show False
    using z(1) assms(3) by (auto simp: ready_set_def)
qed

lemma layers_of_dag:
  assumes "dag_ok g"
  shows "case topoLayers g of
     Inr layers \<Rightarrow> acyclic (arrows (dg_edges g)) \<and> layered (dg_edges g) (job_ids g) {} layers
       \<and> distinct (concat layers) \<and> set (concat layers) = job_ids g
   | Inl e \<Rightarrow> e = CycleError [] \<and> \<not> acyclic (arrows (dg_edges g))"
proof -
  let ?es = "dg_edges g" and ?V = "job_ids g"
  let ?ls = "kahn ?es (map fst (filter (\<lambda>(_, d). d = 0) (inDegree g))) (inDegree g)"
  note graph = graph_of_dag [OF assms]
  note lay = layers_layered [OF assms]
  note parts = layered_concat [OF lay, simplified]
  have jobs: "length (dg_jobs g) = card ?V"
    using assms by (simp add: dag_ok_def jmap_wf_def job_ids_def distinct_card) (simp add: jmap_keys_def)
  have total: "sum_list (map length ?ls) = card (set (concat ?ls))"
    using parts by (simp add: length_concat distinct_card flip: length_concat set_concat)
  have fin: "finite ?V"
    using graph by (simp add: graph_on_def)
  show ?thesis
  proof (cases "set (concat ?ls) = ?V")
    case True
    have "acyclic (arrows ?es)"
    proof (rule ccontr)
      assume "\<not> acyclic (arrows ?es)"
      then obtain x where x: "(x, x) \<in> (arrows ?es)\<^sup>+"
        by (auto simp: acyclic_def)
      then have "x \<in> ?V"
        using assms by (auto simp: dag_ok_def dest: tranclD)
      then show False
        using layered_no_cycle [OF lay, of x] x unfolding True by blast
    qed
    then show ?thesis
      using True total jobs lay parts by (simp add: topoLayers_def Let_def)
  next
    case False
    then have "card (set (concat ?ls)) < card ?V"
      using parts fin by (intro psubset_card_mono) auto
    moreover have "\<not> acyclic (arrows ?es)"
      using False stuck_only_on_cycles [OF graph, of "set (concat ?ls)"] parts by auto
    ultimately show ?thesis
      using total jobs by (simp add: topoLayers_def Let_def)
  qed
qed

end
