(* ===== verification/DagPaths.thy ===== *)
theory DagPaths
  imports DagSchedule
begin

text \<open>
  What follows from the layers of a dependency graph, and the rest of \<open>scheduling/engine2/DependencyDAG.ts\<close>: the flat order
  respects every dependency, the critical path is a heaviest chain of dependencies, \<open>downstream\<close> and \<open>upstream\<close> are the
  transitive closures.
\<close>

section \<open>Graphs whose adds went through\<close>

fun add_all :: "dag_job list \<Rightarrow> dag \<Rightarrow> dag_error + dag" where
  "add_all [] g = Inr g"
| "add_all (job # jobs) g = (case dag_add job g of (g, None) \<Rightarrow> add_all jobs g | (g, Some e) \<Rightarrow> Inl e)"

definition deps_of :: "dag \<Rightarrow> job_id \<Rightarrow> job_id list" where
  "deps_of g k = (case jmap_get (dg_jobs g) k of Some j \<Rightarrow> dj_dependsOn j | None \<Rightarrow> [])"

definition dur_of :: "dag \<Rightarrow> job_id \<Rightarrow> int" where
  "dur_of g k = (case jmap_get (dg_jobs g) k of Some j \<Rightarrow> dj_estDurationMs j | None \<Rightarrow> 0)"

definition built :: "dag \<Rightarrow> bool" where
  "built g \<longleftrightarrow> dag_ok g \<and> acyclic (arrows (dg_edges g)) \<and> (\<forall>k. \<forall>d \<in> set (deps_of g k). (d, k) \<in> arrows (dg_edges g))"

lemma built_new: "built new_dag"
  by (simp add: built_def dag_ok_def new_dag_def arrows_def out_of_def deps_of_def acyclic_def jmap_empty_def jmap_wf_def
      jmap_keys_def jmap_get_def)

lemma built_add:
  assumes "built g" and "dag_add job g = (g', None)"
  shows "built g'"
proof -
  note c = dag_add_cases [OF _ assms(2)]
  have "\<forall>k. \<forall>d \<in> set (deps_of g' k). (d, k) \<in> arrows (dg_edges g')"
    using assms(1) c by (auto simp: built_def deps_of_def jmap_get_set split: option.splits)
  then show ?thesis
    using assms(1) c by (auto simp: built_def)
qed

lemma built_add_all: "built g \<Longrightarrow> add_all jobs g = Inr g' \<Longrightarrow> built g'"
  by (induction jobs arbitrary: g) (auto split: prod.splits option.splits intro: built_add)

lemma deps_nodes:
  assumes "built g" and "d \<in> set (deps_of g k)"
  shows "d \<in> job_ids g \<and> k \<in> job_ids g"
proof -
  have "(d, k) \<in> arrows (dg_edges g)" "arrows (dg_edges g) \<subseteq> job_ids g \<times> job_ids g"
    using assms by (simp_all add: built_def dag_ok_def)
  then show ?thesis
    by blast
qed

lemma add_all_jobs:
  assumes "add_all jobs g = Inr g'" and "dag_ok g" and "jmap_get (dg_jobs g') k = Some j"
  shows "jmap_get (dg_jobs g) k = Some j \<or> j \<in> set jobs"
  using assms
proof (induction jobs arbitrary: g)
  case (Cons job jobs)
  obtain h where one: "dag_add job g = (h, None)" "add_all jobs h = Inr g'"
    using Cons.prems(1) by (auto split: prod.splits option.splits)
  note c = dag_add_cases [OF Cons.prems(2) one(1)]
  show ?case
    using Cons.IH [OF one(2) _ Cons.prems(3)] c by (auto simp: jmap_get_set split: if_splits)
qed simp

lemma durations_kept:
  assumes "add_all jobs new_dag = Inr g" and "list_all (\<lambda>j. 0 \<le> dj_estDurationMs j) jobs"
  shows "0 \<le> dur_of g k"
proof (cases "jmap_get (dg_jobs g) k")
  case (Some j)
  then have "j \<in> set jobs"
    using add_all_jobs [OF assms(1) _ Some] built_new by (simp add: built_def) (simp add: new_dag_def)
  then show ?thesis
    using Some assms(2) by (simp add: dur_of_def list_all_iff)
qed (simp add: dur_of_def)

section \<open>The flat order\<close>

lemma layered_order:
  assumes "layered es V D ls" and "concat ls = us @ v # vs"
  shows "preds es v \<subseteq> D \<union> set us"
  using assms
proof (induction es V D ls arbitrary: us rule: layered.induct)
  case (1 es V D)
  then show ?case by simp
next
  case (2 es V D l ls)
  have l: "set l = ready_set es V D - D" "layered es V (D \<union> set l) ls"
    using "2.prems"(1) by auto
  consider (here) xs where "l = us @ v # xs" | (later) us' where "us = l @ us'" "concat ls = us' @ v # vs"
    using "2.prems"(2) by (auto simp: append_eq_append_conv2 Cons_eq_append_conv append_eq_Cons_conv)
  then show ?case
  proof cases
    case here
    then have "v \<in> ready_set es V D"
      using l(1) by auto
    then show ?thesis
      by (auto simp: ready_set_def)
  next
    case later
    then show ?thesis
      using "2.IH" [OF l(2)] by auto
  qed
qed

text \<open>The order lists every job once, each after what it depends on.\<close>

definition in_order :: "dag \<Rightarrow> job_id list \<Rightarrow> bool" where
  "in_order g order \<longleftrightarrow> distinct order \<and> set order = job_ids g \<and>
     (\<forall>us v vs. order = us @ v # vs \<longrightarrow> set (deps_of g v) \<subseteq> set us)"

lemma topoOrder_in_order:
  assumes "built g"
  shows "\<exists>order. topoOrder g = Inr order \<and> in_order g order"
proof -
  have ok: "dag_ok g" and acyc: "acyclic (arrows (dg_edges g))"
    using assms by (simp_all add: built_def)
  obtain layers where l: "topoLayers g = Inr layers" "layered (dg_edges g) (job_ids g) {} layers" "distinct (concat layers)"
      "set (concat layers) = job_ids g"
  proof (cases "topoLayers g")
    case (Inl e)
    then show ?thesis
      using layers_of_dag [OF ok] acyc by simp
  next
    case (Inr layers)
    then show ?thesis
      using layers_of_dag [OF ok] that by simp
  qed
  have "set (deps_of g v) \<subseteq> set us" if "concat layers = us @ v # vs" for us v vs
    using layered_order [OF l(2) that] assms by (auto simp: built_def preds_def)
  then show ?thesis
    using l by (intro exI [of _ "concat layers"]) (simp add: topoOrder_def in_order_def)
qed

section \<open>The critical path\<close>

record critical_path =
  cp_jobs :: "job_id list"
  cp_totalMs :: int

definition latest_dep :: "(job_id, int) jmap \<Rightarrow> job_id list \<Rightarrow> int \<times> job_id option" where
  "latest_dep finish deps =
     foldl (\<lambda>(earliestStart, pred) dep.
         let f = (case jmap_get finish dep of Some f \<Rightarrow> f | None \<Rightarrow> 0)
         in if f > earliestStart then (f, Some dep) else (earliestStart, pred))
       (0, None) deps"

definition finish_step :: "dag \<Rightarrow> (job_id, int) jmap \<times> (job_id, job_id option) jmap \<Rightarrow> job_id
      \<Rightarrow> (job_id, int) jmap \<times> (job_id, job_id option) jmap" where
  "finish_step g s k =
     (case s of (finish, parent) \<Rightarrow>
        let (earliestStart, pred) = latest_dep finish (deps_of g k)
        in (jmap_set k (earliestStart + dur_of g k) finish, jmap_set k pred parent))"

definition latest_job :: "(job_id, int) jmap \<Rightarrow> int \<times> job_id option" where
  "latest_job finish = foldl (\<lambda>(best, final) (k, f). if f > best then (f, Some k) else (best, final)) (-1, None) finish"

text \<open>The walk back over the parents; \<open>None\<close> when the fuel runs out with the walk still going.\<close>

fun walk_back :: "nat \<Rightarrow> (job_id, job_id option) jmap \<Rightarrow> job_id option \<Rightarrow> job_id list \<Rightarrow> job_id list option" where
  "walk_back fuel parent None jobs = Some jobs"
| "walk_back 0 parent (Some n) jobs = None"
| "walk_back (Suc fuel) parent (Some n) jobs =
     walk_back fuel parent (case jmap_get parent n of Some p \<Rightarrow> p | None \<Rightarrow> None) (n # jobs)"

definition criticalPath :: "nat \<Rightarrow> dag \<Rightarrow> dag_error + critical_path option" where
  "criticalPath fuel g =
     map_sum (\<lambda>e. e)
       (\<lambda>order.
          let (finish, parent) = foldl (finish_step g) (jmap_empty, jmap_empty) order;
              (best, final) = latest_job finish
          in map_option (\<lambda>jobs. \<lparr>cp_jobs = jobs, cp_totalMs = max 0 best\<rparr>) (walk_back fuel parent final []))
       (topoOrder g)"

text \<open>A chain of jobs, each a dependency of the next, and its weight.\<close>

definition dep_rel :: "dag \<Rightarrow> (job_id \<times> job_id) set" where
  "dep_rel g = {(d, k). d \<in> set (deps_of g k)}"

definition chain :: "dag \<Rightarrow> job_id list \<Rightarrow> bool" where
  "chain g c \<longleftrightarrow> set c \<subseteq> job_ids g \<and> walk (dep_rel g) c"

definition weight :: "dag \<Rightarrow> job_id list \<Rightarrow> int" where
  "weight g c = sum_list (map (dur_of g) c)"

definition ft :: "(job_id, int) jmap \<Rightarrow> job_id \<Rightarrow> int" where
  "ft finish k = (case jmap_get finish k of Some f \<Rightarrow> f | None \<Rightarrow> 0)"

lemma latest_dep_spec:
  assumes "latest_dep finish deps = (s, p)"
  shows "0 \<le> s \<and> (\<forall>d \<in> set deps. ft finish d \<le> s) \<and> (case p of None \<Rightarrow> s = 0 | Some d \<Rightarrow> d \<in> set deps \<and> s = ft finish d)"
proof -
  have step: "foldl (\<lambda>(earliestStart, pred) dep.
         let f = (case jmap_get finish dep of Some f \<Rightarrow> f | None \<Rightarrow> 0)
         in if f > earliestStart then (f, Some dep) else (earliestStart, pred)) (s0, p0) deps = (s, p) \<Longrightarrow>
     s0 \<le> s \<and> (\<forall>d \<in> set deps. ft finish d \<le> s) \<and> (p = p0 \<and> s = s0 \<or> (\<exists>d \<in> set deps. p = Some d \<and> s = ft finish d))" for s0 p0
  proof (induction deps arbitrary: s0 p0)
    case (Cons d deps)
    show ?case
    proof (cases "ft finish d > s0")
      case True
      then show ?thesis
        using Cons.IH [of "ft finish d" "Some d"] Cons.prems by (fastforce simp: ft_def Let_def)
    next
      case False
      then show ?thesis
        using Cons.IH [of s0 p0] Cons.prems by (fastforce simp: ft_def Let_def)
    qed
  qed simp
  show ?thesis
    using step [OF assms [unfolded latest_dep_def]] by auto
qed

text \<open>The tables after the jobs of \<open>U\<close> were given their times.\<close>

definition timed :: "dag \<Rightarrow> job_id set \<Rightarrow> (job_id, int) jmap \<Rightarrow> (job_id, job_id option) jmap \<Rightarrow> bool" where
  "timed g U finish parent \<longleftrightarrow>
     (\<forall>k. (jmap_get finish k \<noteq> None) = (k \<in> U)) \<and> jmap_wf finish \<and>
     (\<forall>k \<in> U. dur_of g k \<le> ft finish k \<and>
        (\<forall>d \<in> set (deps_of g k). d \<in> U \<and> ft finish d + dur_of g k \<le> ft finish k) \<and>
        (case jmap_get parent k of
           None \<Rightarrow> False
         | Some None \<Rightarrow> ft finish k = dur_of g k
         | Some (Some d) \<Rightarrow> d \<in> set (deps_of g k) \<and> ft finish k = ft finish d + dur_of g k))"

lemma ft_set: "ft (jmap_set k v finish) k' = (if k' = k then v else ft finish k')"
  by (simp add: ft_def jmap_get_set)

lemma timed_step:
  assumes "timed g U finish parent" and "k \<notin> U" and "set (deps_of g k) \<subseteq> U" and "finish_step g (finish, parent) k = (finish', parent')"
  shows "timed g (insert k U) finish' parent'"
proof -
  obtain s p where l: "latest_dep finish (deps_of g k) = (s, p)"
    by fastforce
  note spec = latest_dep_spec [OF l]
  have new: "finish' = jmap_set k (s + dur_of g k) finish" "parent' = jmap_set k p parent"
    using assms(4) l by (simp_all add: finish_step_def)
  have same: "ft finish' x = ft finish x" "jmap_get parent' x = jmap_get parent x" if "x \<in> U" for x
    using that assms(2) by (auto simp: new ft_set jmap_get_set)
  have deps: "ft finish' d = ft finish d" if "d \<in> set (deps_of g x)" "x \<in> insert k U" for d x
    using that assms(1,3) same by (auto simp: timed_def)
  have at_k: "ft finish' k = s + dur_of g k" "jmap_get parent' k = Some p"
    by (simp_all add: new ft_set)
  have dom: "\<forall>x. (jmap_get finish' x \<noteq> None) = (x \<in> insert k U)" and "jmap_wf finish'"
    using assms(1) by (auto simp: timed_def new jmap_get_set)
  moreover have "dur_of g x \<le> ft finish' x \<and>
        (\<forall>d \<in> set (deps_of g x). d \<in> insert k U \<and> ft finish' d + dur_of g x \<le> ft finish' x) \<and>
        (case jmap_get parent' x of
           None \<Rightarrow> False
         | Some None \<Rightarrow> ft finish' x = dur_of g x
         | Some (Some d) \<Rightarrow> d \<in> set (deps_of g x) \<and> ft finish' x = ft finish' d + dur_of g x)"
    if x: "x \<in> insert k U" for x
  proof (cases "x = k")
    case True
    then show ?thesis
      using spec at_k deps [of _ k] assms(3) by (auto split: option.splits)
  next
    case False
    then have xU: "x \<in> U"
      using x by blast
    then have old: "dur_of g x \<le> ft finish x" "\<forall>d \<in> set (deps_of g x). d \<in> U \<and> ft finish d + dur_of g x \<le> ft finish x"
        "case jmap_get parent x of None \<Rightarrow> False | Some None \<Rightarrow> ft finish x = dur_of g x
         | Some (Some d) \<Rightarrow> d \<in> set (deps_of g x) \<and> ft finish x = ft finish d + dur_of g x"
      using assms(1) by (simp_all add: timed_def)
    then show ?thesis
      using same [OF xU] deps [OF _ x] by (auto split: option.splits)
  qed
  ultimately show ?thesis
    by (simp add: timed_def)
qed

lemma timed_all:
  assumes "timed g (set us) finish parent" and "in_order g (us @ vs)"
  shows "\<exists>finish' parent'. foldl (finish_step g) (finish, parent) vs = (finish', parent') \<and> timed g (set (us @ vs)) finish' parent'"
  using assms
proof (induction vs arbitrary: us finish parent)
  case (Cons v vs)
  obtain finish1 parent1 where one: "finish_step g (finish, parent) v = (finish1, parent1)"
    by fastforce
  have "v \<notin> set us" "set (deps_of g v) \<subseteq> set us"
    using Cons.prems(2) by (auto simp: in_order_def)
  then have "timed g (set (us @ [v])) finish1 parent1"
    using timed_step [OF Cons.prems(1) _ _ one] by simp
  then show ?case
    using Cons.IH [of "us @ [v]"] Cons.prems(2) one by simp
qed simp

lemma latest_job_spec:
  assumes "latest_job finish = (best, final)" and "\<forall>(k, f) \<in> set finish. 0 \<le> f"
  shows "(finish = [] \<longrightarrow> final = None \<and> best = - 1) \<and>
     (finish \<noteq> [] \<longrightarrow> (\<exists>k. final = Some k \<and> (k, best) \<in> set finish) \<and> (\<forall>(k, f) \<in> set finish. f \<le> best))"
proof -
  let ?f = "\<lambda>(best, final) (k, f). if f > best then (f, Some k) else (best, final)"
  have "b0 \<le> best \<and> (\<forall>(k, f) \<in> set xs. f \<le> best) \<and> (best = b0 \<and> final = e0 \<or> (\<exists>k. final = Some k \<and> (k, best) \<in> set xs))"
    if "foldl ?f (b0, e0) xs = (best, final)" for b0 e0 and xs :: "(job_id \<times> int) list"
    using that
  proof (induction xs arbitrary: b0 e0)
    case (Cons x xs)
    obtain k f where x: "x = (k, f)"
      by fastforce
    show ?case
    proof (cases "f > b0")
      case True
      then show ?thesis
        using Cons.IH [of f "Some k"] Cons.prems x by auto
    next
      case False
      then show ?thesis
        using Cons.IH [of b0 e0] Cons.prems x by auto
    qed
  qed simp
  from this [OF assms(1) [unfolded latest_job_def]] show ?thesis
    using assms(2) by (cases finish) fastforce+
qed

lemma chain_snoc: "c \<noteq> [] \<Longrightarrow> chain g (c @ [k]) \<longleftrightarrow> chain g c \<and> k \<in> job_ids g \<and> last c \<in> set (deps_of g k)"
  by (auto simp: chain_def walk_snoc dep_rel_def)

lemma chain_weight_bound:
  assumes "timed g (job_ids g) finish parent" and "chain g c" and "c \<noteq> []"
  shows "weight g c \<le> ft finish (last c)"
  using assms(2,3)
proof (induction c rule: rev_induct)
  case (snoc k c)
  show ?case
  proof (cases "c = []")
    case True
    then show ?thesis
      using assms(1) snoc.prems(1) by (simp add: timed_def chain_def weight_def)
  next
    case False
    then have "chain g c" "k \<in> job_ids g" "last c \<in> set (deps_of g k)"
      using snoc.prems(1) chain_snoc by blast+
    moreover have "ft finish (last c) + dur_of g k \<le> ft finish k"
      using assms(1) calculation by (simp add: timed_def)
    ultimately show ?thesis
      using snoc.IH False by (simp add: weight_def)
  qed
qed simp

lemma walk_back_chain:
  assumes "timed g (job_ids g) finish parent" and "in_order g (us @ k # vs)" and "length us < fuel"
  shows "\<exists>c. walk_back fuel parent (Some k) jobs = Some (c @ jobs) \<and> c \<noteq> [] \<and> last c = k \<and> chain g c \<and> weight g c = ft finish k"
  using assms(2,3)
proof (induction "length us" arbitrary: us k vs fuel jobs rule: less_induct)
  case less
  have k: "k \<in> job_ids g"
    using less.prems(1) by (auto simp: in_order_def)
  obtain n where fuel: "fuel = Suc n"
    using less.prems(2) by (cases fuel) auto
  have parent: "case jmap_get parent k of None \<Rightarrow> False | Some None \<Rightarrow> ft finish k = dur_of g k
      | Some (Some d) \<Rightarrow> d \<in> set (deps_of g k) \<and> ft finish k = ft finish d + dur_of g k"
    using assms(1) k by (simp add: timed_def)
  show ?case
  proof (cases "jmap_get parent k")
    case None
    then show ?thesis
      using parent by simp
  next
    case (Some p)
    show ?thesis
    proof (cases p)
      case None
      then show ?thesis
        using Some parent fuel k by (intro exI [of _ "[k]"]) (simp add: chain_def weight_def)
    next
      case d: (Some d)
      have dk: "d \<in> set (deps_of g k)" "ft finish k = ft finish d + dur_of g k"
        using parent Some d by simp_all
      moreover have "set (deps_of g k) \<subseteq> set us"
        using less.prems(1) unfolding in_order_def by blast
      ultimately have "d \<in> set us"
        by blast
      then obtain us1 us2 where us: "us = us1 @ d # us2"
        by (meson split_list)
      obtain c where c: "walk_back n parent (Some d) (k # jobs) = Some (c @ k # jobs)" "c \<noteq> []" "last c = d" "chain g c"
          "weight g c = ft finish d"
        using less.hyps [of us1 d "us2 @ k # vs" n "k # jobs"] less.prems us fuel by auto
      then show ?thesis
        using Some d fuel dk k by (intro exI [of _ "c @ [k]"]) (simp add: chain_snoc weight_def)
    qed
  qed
qed

text \<open>
  C18: in a graph whose adds went through, with durations that are not negative, the critical path is a chain of
  dependencies whose durations add up to its total, no chain weighs more, and the walk that collects it comes to its end.
\<close>

theorem critical_path_is_heaviest:
  assumes "add_all jobs new_dag = Inr g" and "list_all (\<lambda>j. 0 \<le> dj_estDurationMs j) jobs" and "length (dg_jobs g) < fuel"
  shows "\<exists>p. criticalPath fuel g = Inr (Some p) \<and> chain g (cp_jobs p) \<and> cp_totalMs p = weight g (cp_jobs p) \<and>
     (\<forall>c. chain g c \<longrightarrow> weight g c \<le> cp_totalMs p)"
proof -
  have built: "built g"
    using built_add_all [OF built_new assms(1)] .
  obtain order where order: "topoOrder g = Inr order" "in_order g order"
    using topoOrder_in_order [OF built] by blast
  have "timed g (set []) jmap_empty jmap_empty"
    by (simp add: timed_def)
  then obtain finish parent where tables: "foldl (finish_step g) (jmap_empty, jmap_empty) order = (finish, parent)"
      "timed g (set order) finish parent"
    using timed_all [of g "[]" jmap_empty jmap_empty order] order(2) by auto
  have nodes: "set order = job_ids g" "distinct order"
    using order(2) by (simp_all add: in_order_def)
  have t: "timed g (job_ids g) finish parent"
    using tables(2) nodes by simp
  have durations: "0 \<le> dur_of g k" for k
    using durations_kept [OF assms(1,2)] .
  have get: "jmap_get finish k = Some f \<longleftrightarrow> (k, f) \<in> set finish" for k f
    using t by (simp add: timed_def jmap_wf_def jmap_keys_def jmap_get_iff)
  have times: "f = ft finish k \<and> k \<in> job_ids g" if "(k, f) \<in> set finish" for k f
    using that t by (auto simp: ft_def timed_def simp flip: get)
  have nonneg: "\<forall>(k, f) \<in> set finish. 0 \<le> f"
    using times t durations by (fastforce simp: timed_def intro: order_trans)
  obtain best final where lj: "latest_job finish = (best, final)"
    by fastforce
  note spec = latest_job_spec [OF lj nonneg]
  show ?thesis
  proof (cases "finish = []")
    case True
    then have "job_ids g = {}"
      using t by (auto simp: timed_def jmap_get_def)
    then have only: "chain g c \<longleftrightarrow> c = []" for c
      by (auto simp: chain_def)
    show ?thesis
      using True order(1) tables(1) lj spec by (simp add: criticalPath_def only weight_def)
  next
    case False
    then obtain k where k: "final = Some k" "(k, best) \<in> set finish" "\<forall>(k, f) \<in> set finish. f \<le> best"
      using spec by blast
    have best: "best = ft finish k" "k \<in> job_ids g" "0 \<le> best"
      using times [OF k(2)] nonneg k(2) by auto
    obtain us vs where split: "order = us @ k # vs"
      using best(2) nodes by (metis split_list)
    have "card (job_ids g) = length (dg_jobs g)"
      using built by (simp add: built_def dag_ok_def job_ids_def jmap_wf_def distinct_card) (simp add: jmap_keys_def)
    then have "length order < fuel"
      using assms(3) nodes by (metis distinct_card)
    then obtain c where c: "walk_back fuel parent (Some k) [] = Some c" "c \<noteq> []" "last c = k" "chain g c" "weight g c = ft finish k"
      using walk_back_chain [OF t, of us k vs fuel "[]"] order(2) split by auto
    have "weight g d \<le> best" if "chain g d" for d
    proof (cases "d = []")
      case True
      then show ?thesis
        using best(3) by (simp add: weight_def)
    next
      case False
      have "last d \<in> job_ids g"
        using that False by (auto simp: chain_def)
      then obtain f where "(last d, f) \<in> set finish"
        using t get by (fastforce simp: timed_def)
      then have "ft finish (last d) \<le> best"
        using k(3) times by fastforce
      then show ?thesis
        using chain_weight_bound [OF t that False] by simp
    qed
    then show ?thesis
      using order(1) tables(1) lj k(1) c best by (auto simp: criticalPath_def)
  qed
qed

section \<open>Closures\<close>

function down_loop :: "dag_edges \<Rightarrow> job_id list \<Rightarrow> job_id jset \<Rightarrow> job_id jset" where
  "down_loop es stack out =
     (if length stack > 0 then
        let n = last stack;
            stack = butlast stack
        in if jset_has out n then down_loop es stack out else down_loop es (stack @ out_of es n) (jset_add n out)
      else out)"
  by pat_completeness auto

lemma fresh_card:
  assumes "finite A" and "n \<in> A" and "\<not> jset_has out n"
  shows "card (A - set (jset_add n out)) < card (A - set out)"
  using assms by (intro psubset_card_mono) (auto simp: jset_has_def)

lemma fresh_outside: "n \<notin> A \<Longrightarrow> A - set (jset_add n out) = A - set out"
  by auto

termination down_loop
proof (relation "measures [\<lambda>(es, stack, out). card (arrow_nodes es - set out), \<lambda>(es, stack, out). length stack]", goal_cases)
  case 1
  then show ?case by simp
next
  case (2 es stack out n stack')
  then show ?case by simp
next
  case (3 es stack out n stack')
  show ?case
  proof (cases "n \<in> arrow_nodes es")
    case True
    then show ?thesis
      using fresh_card [OF finite_arrow_nodes True] 3 by simp
  next
    case False
    then show ?thesis
      using fresh_outside [OF False] out_of_outside [OF False] 3 by simp
  qed
qed

declare down_loop.simps [simp del]

definition downstream :: "dag \<Rightarrow> job_id \<Rightarrow> dag_error + job_id jset" where
  "downstream g j =
     (if \<not> jmap_has (dg_jobs g) j then Inl (UnknownJob j) else Inr (down_loop (dg_edges g) (out_of (dg_edges g) j) []))"

text \<open>\<open>visit\<close> is the loop over a job's dependencies, with \<open>out\<close> threaded through.\<close>

definition dep_nodes :: "dag \<Rightarrow> job_id set" where
  "dep_nodes g = set (jmap_keys (dg_jobs g))"

function up_visit :: "dag \<Rightarrow> job_id list \<Rightarrow> job_id jset \<Rightarrow> job_id jset" where
  "up_visit g [] out = out"
| "up_visit g (dep # deps) out =
     (if jset_has out dep then up_visit g deps out
      else up_visit g deps (up_visit g (deps_of g dep) (jset_add dep out)))"
  by pat_completeness auto

lemma up_visit_grows: "up_visit_dom (g, deps, out) \<Longrightarrow> set out \<subseteq> set (up_visit g deps out)"
proof (induction g deps out rule: up_visit.pinduct)
  case (1 g out)
  then show ?case
    by (simp add: up_visit.psimps)
next
  case (2 g dep deps out)
  show ?case
  proof (cases "jset_has out dep")
    case True
    then show ?thesis
      using 2(2) by (simp add: up_visit.psimps(2) [OF 2(1)])
  next
    case False
    then show ?thesis
      using 2(3,4) by (auto simp: up_visit.psimps(2) [OF 2(1)])
  qed
qed

lemma deps_of_outside: "k \<notin> dep_nodes g \<Longrightarrow> deps_of g k = []"
  using set_jmap_keys [of "dg_jobs g"] by (auto simp: dep_nodes_def deps_of_def jmap_has_def split: option.split)

termination up_visit
proof (relation "measures [\<lambda>(g, deps, out). card (dep_nodes g - set out), \<lambda>(g, deps, out). length deps]", goal_cases)
  case 1
  then show ?case by simp
next
  case (2 g dep deps out)
  then show ?case by simp
next
  case (3 g dep deps out)
  have "finite (dep_nodes g)"
    by (simp add: dep_nodes_def)
  then show ?case
    using fresh_card [of "dep_nodes g" dep out] fresh_outside [of dep "dep_nodes g" out] deps_of_outside [of dep g] 3
    by (cases "dep \<in> dep_nodes g") auto
next
  case (4 g dep deps out)
  then have "set out \<subseteq> set (up_visit g (deps_of g dep) (jset_add dep out))"
    using up_visit_grows [OF 4(2)] by auto
  then have "card (dep_nodes g - set (up_visit g (deps_of g dep) (jset_add dep out))) \<le> card (dep_nodes g - set out)"
    by (intro card_mono) (auto simp: dep_nodes_def)
  then show ?case
    by auto
qed

definition upstream :: "dag \<Rightarrow> job_id \<Rightarrow> dag_error + job_id jset" where
  "upstream g j = (if \<not> jmap_has (dg_jobs g) j then Inl (UnknownJob j) else Inr (up_visit g (deps_of g j) []))"

definition dag_ready :: "dag \<Rightarrow> job_id jset \<Rightarrow> job_id list" where
  "dag_ready g completed =
     map fst (filter (\<lambda>(k, job). \<not> jset_has completed k \<and> list_all (jset_has completed) (dj_dependsOn job)) (dg_jobs g))"

definition dag_size :: "dag \<Rightarrow> nat" where
  "dag_size g = length (dg_jobs g)"

lemma reach_covers:
  assumes "S \<subseteq> insert n (U \<union> r\<^sup>* `` (A \<union> B))" and "r\<^sup>* `` B \<subseteq> r\<^sup>* `` {n}"
  shows "S \<subseteq> U \<union> r\<^sup>* `` insert n A"
proof -
  have "r\<^sup>* `` insert n A = r\<^sup>* `` {n} \<union> r\<^sup>* `` A" "r\<^sup>* `` (A \<union> B) = r\<^sup>* `` A \<union> r\<^sup>* `` B" "n \<in> r\<^sup>* `` {n}"
    by blast+
  then show ?thesis
    using assms by blast
qed

lemma down_loop_spec:
  "set out \<subseteq> set (down_loop es stack out) \<and> set stack \<subseteq> set (down_loop es stack out) \<and>
     (\<forall>x \<in> set (down_loop es stack out) - set out. set (out_of es x) \<subseteq> set (down_loop es stack out)) \<and>
     set (down_loop es stack out) \<subseteq> set out \<union> (arrows es)\<^sup>* `` set stack"
proof (induction es stack out rule: down_loop.induct)
  case (1 es stack out)
  show ?case
  proof (cases "stack = []")
    case True
    then show ?thesis
      by (simp add: down_loop.simps [of es "[]"])
  next
    case False
    let ?n = "last stack" and ?s = "butlast stack"
    have stack: "set stack = insert ?n (set ?s)"
      using False by (metis append_butlast_last_id list.simps(15) rotate1.simps(2) set_rotate1)
    show ?thesis
    proof (cases "jset_has out ?n")
      case True
      have eq: "down_loop es stack out = down_loop es ?s out"
        using False True by (simp add: down_loop.simps [of es stack] Let_def)
      have "?n \<in> set out"
        using True by (simp add: jset_has_def)
      then show ?thesis
        using 1(1) [OF _ refl refl True] False stack unfolding eq by auto
    next
      case fresh: False
      let ?r = "down_loop es (?s @ out_of es ?n) (jset_add ?n out)"
      have eq: "down_loop es stack out = ?r"
        using False fresh by (simp add: down_loop.simps [of es stack] Let_def)
      have ih: "insert ?n (set out) \<subseteq> set ?r" "set ?s \<subseteq> set ?r" "set (out_of es ?n) \<subseteq> set ?r"
          "\<And>x. x \<in> set ?r \<Longrightarrow> x \<notin> insert ?n (set out) \<Longrightarrow> set (out_of es x) \<subseteq> set ?r"
          "set ?r \<subseteq> insert ?n (set out) \<union> (arrows es)\<^sup>* `` (set ?s \<union> set (out_of es ?n))"
        using 1(2) [OF _ refl refl fresh] False by auto
      have "(arrows es)\<^sup>* `` set (out_of es ?n) \<subseteq> (arrows es)\<^sup>* `` {?n}"
        by (auto simp: arrows_def intro: converse_rtrancl_into_rtrancl)
      then have "set ?r \<subseteq> set out \<union> (arrows es)\<^sup>* `` set stack"
        using reach_covers [of "set ?r" ?n "set out" "arrows es" "set ?s"] ih(5) unfolding stack by simp
      moreover have "\<forall>x \<in> set ?r - set out. set (out_of es x) \<subseteq> set ?r"
        using ih(3,4) by (metis DiffE insertE)
      ultimately show ?thesis
        using ih(1,2) stack unfolding eq by auto
    qed
  qed
qed

lemma up_visit_spec:
  "set out \<subseteq> set (up_visit g deps out) \<and> set deps \<subseteq> set (up_visit g deps out) \<and>
     (\<forall>x \<in> set (up_visit g deps out) - set out. set (deps_of g x) \<subseteq> set (up_visit g deps out)) \<and>
     set (up_visit g deps out) \<subseteq> set out \<union> ((dep_rel g)\<inverse>)\<^sup>* `` set deps"
proof (induction g deps out rule: up_visit.induct)
  case (1 g out)
  then show ?case by simp
next
  case (2 g dep deps out)
  show ?case
  proof (cases "jset_has out dep")
    case True
    then have "dep \<in> set out"
      by (simp add: jset_has_def)
    then show ?thesis
      using 2(1) [OF True] True by auto
  next
    case False
    let ?m = "up_visit g (deps_of g dep) (jset_add dep out)"
    let ?r = "up_visit g deps ?m"
    have m: "insert dep (set out) \<subseteq> set ?m" "set (deps_of g dep) \<subseteq> set ?m"
        "\<And>x. x \<in> set ?m \<Longrightarrow> x \<notin> insert dep (set out) \<Longrightarrow> set (deps_of g x) \<subseteq> set ?m"
        "set ?m \<subseteq> insert dep (set out) \<union> ((dep_rel g)\<inverse>)\<^sup>* `` set (deps_of g dep)"
      using 2(2) [OF False] by auto
    have r: "set ?m \<subseteq> set ?r" "set deps \<subseteq> set ?r"
        "\<And>x. x \<in> set ?r \<Longrightarrow> x \<notin> set ?m \<Longrightarrow> set (deps_of g x) \<subseteq> set ?r"
        "set ?r \<subseteq> set ?m \<union> ((dep_rel g)\<inverse>)\<^sup>* `` set deps"
      using 2(3) [OF False] by auto
    have "((dep_rel g)\<inverse>)\<^sup>* `` set (deps_of g dep) \<subseteq> ((dep_rel g)\<inverse>)\<^sup>* `` {dep}"
      by (auto simp: dep_rel_def intro: converse_rtrancl_into_rtrancl)
    moreover have "set ?r \<subseteq> insert dep (set out \<union> ((dep_rel g)\<inverse>)\<^sup>* `` (set deps \<union> set (deps_of g dep)))"
      using m(4) r(4) by (simp add: Image_Un) blast
    ultimately have "set ?r \<subseteq> set out \<union> ((dep_rel g)\<inverse>)\<^sup>* `` set (dep # deps)"
      using reach_covers [of "set ?r" dep "set out" "(dep_rel g)\<inverse>" "set deps"] by simp
    moreover have "set (deps_of g x) \<subseteq> set ?r" if "x \<in> set ?r - set out" for x
    proof (cases "x \<in> set ?m")
      case True
      then have "set (deps_of g x) \<subseteq> set ?m"
        using that m(2) m(3) [of x] by (cases "x = dep") auto
      then show ?thesis
        using r(1) by (rule subset_trans)
    next
      case False
      then show ?thesis
        using that r(3) by blast
    qed
    ultimately show ?thesis
      using False m(1) r(1,2) by auto
  qed
qed

lemma closed_image:
  assumes "\<And>x. x \<in> R \<Longrightarrow> r `` {x} \<subseteq> R" and "r `` {j} \<subseteq> R" and "R \<subseteq> r\<^sup>* `` (r `` {j})"
  shows "R = r\<^sup>+ `` {j}"
proof
  have "(j, x) \<in> r\<^sup>+ \<Longrightarrow> x \<in> R" for x
    by (induction rule: trancl_induct) (use assms(1,2) in auto)
  then show "r\<^sup>+ `` {j} \<subseteq> R"
    by blast
  show "R \<subseteq> r\<^sup>+ `` {j}"
    using assms(3) by (auto intro: rtrancl_into_trancl2)
qed

text \<open>
  Of a known job, \<open>downstream\<close> gives exactly the jobs that depend on it through any number of edges, and
  \<open>upstream\<close> exactly those it depends on; of an unknown one both throw.
\<close>

theorem closures_are_exact:
  "(case downstream g j of Inl e \<Rightarrow> j \<notin> job_ids g \<and> e = UnknownJob j | Inr out \<Rightarrow> set out = (arrows (dg_edges g))\<^sup>+ `` {j}) \<and>
   (case upstream g j of Inl e \<Rightarrow> j \<notin> job_ids g \<and> e = UnknownJob j | Inr out \<Rightarrow> set out = ((dep_rel g)\<inverse>)\<^sup>+ `` {j})"
proof -
  let ?es = "dg_edges g"
  have one: "arrows ?es `` {x} = set (out_of ?es x)" "(dep_rel g)\<inverse> `` {x} = set (deps_of g x)" for x
    by (auto simp: arrows_def dep_rel_def)
  have "set (down_loop ?es (out_of ?es j) []) = (arrows ?es)\<^sup>+ `` {j}"
    using down_loop_spec [of "[]" ?es "out_of ?es j"] by (intro closed_image) (auto simp: one)
  moreover have "set (up_visit g (deps_of g j) []) = ((dep_rel g)\<inverse>)\<^sup>+ `` {j}"
    using up_visit_spec [of "[]" g "deps_of g j"] by (intro closed_image) (auto simp: one)
  ultimately show ?thesis
    by (simp add: downstream_def upstream_def jmap_has_ids)
qed

section \<open>Findings and examples\<close>

text \<open>
  An add that is refused leaves the job in the graph: without the dependency that is unknown, it is even runnable.
\<close>

theorem refused_job_stays:
  assumes "jmap_get (dg_jobs g) d = None" and "d \<noteq> dj_jobId job" and "dj_dependsOn job = [d]"
  shows "snd (dag_add job g) = Some (UnknownDependency (dj_jobId job) d) \<and>
     dj_jobId job \<in> job_ids (fst (dag_add job g)) \<and> dg_edges (fst (dag_add job g)) = dg_edges g"
  using assms by (simp add: dag_add_def jmap_has_def job_ids_def jmap_keys_set jmap_get_set) (auto simp: set_jmap_keys jmap_has_def)

text \<open>
  A job that closes a cycle is refused and stays too: from then on there is no order at all.
\<close>

theorem refused_cycle_blocks_order:
  assumes "dag_ok g" and "dag_add job g = (g', Some (CycleError p))"
  shows "topoLayers g' = Inl (CycleError [])"
proof -
  let ?j = "dj_jobId job"
  obtain h d where deps: "add_deps ?j (dj_dependsOn job) (g\<lparr>dg_jobs := jmap_set ?j job (dg_jobs g)\<rparr>) = (h, d)"
    by fastforce
  have "d \<noteq> Some (CycleError q)" for q
  proof -
    have "add_deps j ds g = (h, Some e) \<Longrightarrow> \<exists>x y. e = UnknownDependency x y" for j ds g h e
      by (induction j ds g rule: add_deps.induct) (auto split: if_splits)
    then show ?thesis
      using deps by fastforce
  qed
  then have "assertAcyclic (dg_edges h) ?j \<noteq> None" "g' = h"
    using assms(2) deps by (auto simp: dag_add_def split: option.splits)
  then have "(?j, ?j) \<in> (arrows (dg_edges g'))\<^sup>+"
    using assertAcyclic_iff by simp
  then have "\<not> acyclic (arrows (dg_edges g'))"
    by (auto simp: acyclic_def)
  then show ?thesis
    using layers_of_dag [of g'] dag_add_cases [OF assms] by (auto split: sum.splits)
qed

text \<open>
  Registering a job again keeps the edges of the dependencies it no longer has.
\<close>

theorem old_dependency_stays:
  assumes "dag_ok g" and "(d, dj_jobId job) \<in> arrows (dg_edges g)" and "dj_dependsOn job = []"
  shows "(d, dj_jobId job) \<in> arrows (dg_edges (fst (dag_add job g))) \<and> deps_of (fst (dag_add job g)) (dj_jobId job) = []"
  using assms by (simp add: dag_add_def deps_of_def)

definition sample_jobs :: "dag_job list" where
  "sample_jobs =
     [\<lparr>dj_jobId = js ''extract'', dj_dependsOn = [], dj_estDurationMs = 5\<rparr>,
      \<lparr>dj_jobId = js ''clean'', dj_dependsOn = [js ''extract''], dj_estDurationMs = 7\<rparr>,
      \<lparr>dj_jobId = js ''count'', dj_dependsOn = [js ''extract''], dj_estDurationMs = 1\<rparr>,
      \<lparr>dj_jobId = js ''report'', dj_dependsOn = [js ''clean'', js ''count''], dj_estDurationMs = 2\<rparr>]"

lemma add_deps_known: "set deps \<subseteq> job_ids g \<Longrightarrow> snd (add_deps j deps g) = None"
  by (induction j deps g rule: add_deps.induct) (simp_all add: jmap_has_ids job_ids_def)

lemma dag_ok_adds: "dag_ok (foldl (\<lambda>g job. fst (dag_add job g)) new_dag jobs)"
proof (induction jobs rule: rev_induct)
  case Nil
  then show ?case
    using built_new by (simp add: built_def)
next
  case (snoc job jobs)
  then show ?case
    using dag_add_cases [of "foldl (\<lambda>g job. fst (dag_add job g)) new_dag jobs" job] by (simp add: prod_eq_iff)
qed

text \<open>
  C28: after any sequence of \<open>add\<close>, accepted or refused, a job whose dependencies are all known, new or registered
  again, is accepted exactly when no cycle of the graph with its edges runs through it. Where the graph had no cycle before, that is exactly when it has none with the
  job's edges; a cycle that a refused \<open>add\<close> left behind is not looked at.
\<close>

theorem add_accepts_exactly_acyclic:
  assumes "g = foldl (\<lambda>g job. fst (dag_add job g)) new_dag jobs"
    and "set (dj_dependsOn job) \<subseteq> insert (dj_jobId job) (job_ids g)"
  shows "let after = arrows (dg_edges g) \<union> set (dj_dependsOn job) \<times> {dj_jobId job} in
     (snd (dag_add job g) = None) = ((dj_jobId job, dj_jobId job) \<notin> after\<^sup>+)
     \<and> (acyclic (arrows (dg_edges g)) \<longrightarrow> (snd (dag_add job g) = None) = acyclic after)"
proof -
  let ?j = "dj_jobId job"
  let ?g = "g\<lparr>dg_jobs := jmap_set ?j job (dg_jobs g)\<rparr>"
  have "dag_ok g"
    using dag_ok_adds assms(1) by simp
  note reg = dag_ok_register [OF this, of job]
  obtain h d where deps: "add_deps ?j (dj_dependsOn job) ?g = (h, d)"
    by fastforce
  have "d = None"
    using add_deps_known [of "dj_dependsOn job" ?g ?j] reg(2) assms(2) deps by simp
  moreover have "arrows (dg_edges h) = arrows (dg_edges g) \<union> set (dj_dependsOn job) \<times> {?j}"
    using add_deps_ok [OF reg(1) _ deps] reg(2) \<open>d = None\<close> by simp
  ultimately have "(snd (dag_add job g) = None) = ((?j, ?j) \<notin> (arrows (dg_edges g) \<union> set (dj_dependsOn job) \<times> {?j})\<^sup>+)"
    using deps assertAcyclic_iff [of "dg_edges h" ?j]
    by (cases "assertAcyclic (dg_edges h) ?j") (auto simp: dag_add_def)
  then show ?thesis
    using cycle_through_target [of "arrows (dg_edges g)" "set (dj_dependsOn job)" ?j] by (auto simp: acyclic_def Let_def)
qed

lemma sample_accepted: "\<exists>g. add_all sample_jobs new_dag = Inr g \<and> length (dg_jobs g) = 4"
  by (simp add: sample_jobs_def new_dag_def dag_add_def jmap_has_def jmap_get_def jmap_set_def jmap_empty_def assertAcyclic_def
      out_of_def jset_has_def jset_add_def)

theorem critical_path_is_heaviest_witness:
  "\<exists>g p. add_all sample_jobs new_dag = Inr g \<and> criticalPath 5 g = Inr (Some p) \<and> chain g (cp_jobs p)
     \<and> cp_totalMs p = weight g (cp_jobs p)"
proof -
  obtain g where g: "add_all sample_jobs new_dag = Inr g" "length (dg_jobs g) = 4"
    using sample_accepted by blast
  have "list_all (\<lambda>j. 0 \<le> dj_estDurationMs j) sample_jobs"
    by (simp add: sample_jobs_def)
  from critical_path_is_heaviest [OF g(1) this, of 5] g show ?thesis
    by auto
qed

text \<open>
  C19: \<open>topoLayers\<close> answers with layers exactly when the dependencies have no cycle, and then every layer holds, without
  repetition, precisely the jobs that become ready when the layers before it are done, until all the jobs are placed; with
  a cycle it throws.
\<close>

theorem layers_are_the_ready_sets:
  assumes "dag_ok g"
  shows "case topoLayers g of
     Inr layers \<Rightarrow> acyclic (arrows (dg_edges g)) \<and> layered (dg_edges g) (job_ids g) {} layers
       \<and> distinct (concat layers) \<and> set (concat layers) = job_ids g
   | Inl e \<Rightarrow> e = CycleError [] \<and> \<not> acyclic (arrows (dg_edges g))"
  by (rule layers_of_dag [OF assms])

theorem layers_are_the_ready_sets_witness:
  "\<exists>g layers. add_all sample_jobs new_dag = Inr g \<and> topoLayers g = Inr layers \<and> layered (dg_edges g) (job_ids g) {} layers"
proof -
  obtain g where g: "add_all sample_jobs new_dag = Inr g"
    using sample_accepted by blast
  have "built g"
    by (rule built_add_all [OF built_new g])
  then have "dag_ok g" "acyclic (arrows (dg_edges g))"
    by (simp_all add: built_def)
  from layers_are_the_ready_sets [OF this(1)] this(2) g show ?thesis
    by (cases "topoLayers g") auto
qed

theorem add_accepts_exactly_acyclic_witness:
  "snd (dag_add \<lparr>dj_jobId = js ''a'', dj_dependsOn = [js ''a''], dj_estDurationMs = 0\<rparr> new_dag) \<noteq> None"
proof -
  let ?job = "\<lparr>dj_jobId = js ''a'', dj_dependsOn = [js ''a''], dj_estDurationMs = 0\<rparr>"
  show ?thesis
    using add_accepts_exactly_acyclic [of new_dag "[]" ?job] by (auto simp: Let_def)
qed

end
