(* ===== verification/SlidingWindow.thy ===== *)
theory SlidingWindow
  imports Interfaces
begin

text \<open>
  The exact rate limiter of \<open>layers/rate-limiting/engine\<close>: \<open>SlidingWindowLog.ts\<close> keeps the times of the admitted requests of
  every key, \<open>QuotaBuckets.ts\<close> asks several such logs at once and takes back what was consumed when one refuses. The
  clock readings of an operation are its arguments; times are integers, as those of \<open>Date.now\<close> are.
\<close>

section \<open>The log of a key\<close>

datatype limiter_error = WindowNotPositive | NoDimensions

record window_decision =
  wd_allowed :: bool
  wd_count :: nat
  wd_remaining :: int
  wd_retryAfterMs :: "int option"
  wd_resetInMs :: int

record sliding_window_log =
  sw_windowMs :: int
  sw_maxLogSize :: int
  sw_logs :: "(jstring, int list) jmap"
  sw_totalHits :: nat
  sw_totalDenied :: nat

text \<open>\<open>wd_retryAfterMs\<close> is \<open>None\<close> for \<open>NaN\<close>: a limit of zero refuses with an empty log, whose first entry is \<open>undefined\<close>.\<close>

definition new_window_log :: "int \<Rightarrow> int option \<Rightarrow> limiter_error + sliding_window_log" where
  "new_window_log windowMs maxLogSize =
     (if windowMs \<le> 0 then Inl WindowNotPositive
      else Inr \<lparr>sw_windowMs = windowMs, sw_maxLogSize = (case maxLogSize of Some m \<Rightarrow> m | None \<Rightarrow> 0), sw_logs = jmap_empty,
        sw_totalHits = 0, sw_totalDenied = 0\<rparr>)"

definition trim_log :: "int list \<Rightarrow> int \<Rightarrow> int list" where
  "trim_log xs cutoff =
     (let first = length (takeWhile (\<lambda>t. t \<le> cutoff) xs) in if first > 0 then drop first xs else xs)"

definition resetIn :: "int list \<Rightarrow> int \<Rightarrow> sliding_window_log \<Rightarrow> int" where
  "resetIn xs now s = (if xs = [] then 0 else max 0 (last xs + sw_windowMs s - now))"

definition log_of :: "sliding_window_log \<Rightarrow> jstring \<Rightarrow> int list" where
  "log_of s key = (case jmap_get (sw_logs s) key of Some xs \<Rightarrow> xs | None \<Rightarrow> [])"

definition put_log :: "jstring \<Rightarrow> int list \<Rightarrow> sliding_window_log \<Rightarrow> sliding_window_log" where
  "put_log key xs s = s\<lparr>sw_logs := jmap_set key xs (sw_logs s)\<rparr>"

definition window_hit :: "int \<Rightarrow> jstring \<Rightarrow> int \<Rightarrow> sliding_window_log \<Rightarrow> sliding_window_log \<times> window_decision" where
  "window_hit now key limit s =
     (let xs = trim_log (log_of s key) (now - sw_windowMs s);
          s = s\<lparr>sw_totalHits := sw_totalHits s + 1\<rparr>;
          count = length xs
      in
      if int count \<ge> limit then
        (put_log key xs (s\<lparr>sw_totalDenied := sw_totalDenied s + 1\<rparr>),
         \<lparr>wd_allowed = False, wd_count = count, wd_remaining = 0,
          wd_retryAfterMs = (case xs of [] \<Rightarrow> None | oldest # _ \<Rightarrow> Some (max 1 (oldest + sw_windowMs s - now))),
          wd_resetInMs = resetIn xs now s\<rparr>)
      else
        let xs = xs @ [now];
            xs = (if sw_maxLogSize s > 0 \<and> int (length xs) > sw_maxLogSize s then drop (length xs - nat (sw_maxLogSize s)) xs
                  else xs)
        in
        (put_log key xs s,
         \<lparr>wd_allowed = True, wd_count = length xs, wd_remaining = max 0 (limit - int (length xs)), wd_retryAfterMs = Some 0,
          wd_resetInMs = resetIn xs now s\<rparr>))"

definition window_count :: "int \<Rightarrow> jstring \<Rightarrow> sliding_window_log \<Rightarrow> sliding_window_log \<times> nat" where
  "window_count now key s =
     (case jmap_get (sw_logs s) key of
        None \<Rightarrow> (s, 0)
      | Some xs \<Rightarrow>
          let xs = trim_log xs (now - sw_windowMs s)
          in (put_log key xs s, length xs))"

definition window_remaining :: "int \<Rightarrow> jstring \<Rightarrow> int \<Rightarrow> sliding_window_log \<Rightarrow> sliding_window_log \<times> int" where
  "window_remaining now key limit s = (let (s, count) = window_count now key s in (s, max 0 (limit - int count)))"

definition unhit :: "jstring \<Rightarrow> sliding_window_log \<Rightarrow> sliding_window_log \<times> bool" where
  "unhit key s =
     (case jmap_get (sw_logs s) key of
        None \<Rightarrow> (s, False)
      | Some xs \<Rightarrow> if length xs = 0 then (s, False) else (put_log key (butlast xs) s, True))"

definition window_reset :: "jstring \<Rightarrow> sliding_window_log \<Rightarrow> sliding_window_log" where
  "window_reset key s = s\<lparr>sw_logs := jmap_delete key (sw_logs s)\<rparr>"

definition window_sweep :: "int \<Rightarrow> sliding_window_log \<Rightarrow> sliding_window_log \<times> nat" where
  "window_sweep now s =
     (let trimmed = map (\<lambda>(k, xs). (k, trim_log xs (now - sw_windowMs s))) (sw_logs s)
      in (s\<lparr>sw_logs := filter (\<lambda>(_, xs). length xs \<noteq> 0) trimmed\<rparr>, length (filter (\<lambda>(_, xs). length xs = 0) trimmed)))"

definition trackedKeys :: "sliding_window_log \<Rightarrow> nat" where
  "trackedKeys s = length (sw_logs s)"

section \<open>The log is the window\<close>

lemma trim_log_dropWhile: "trim_log xs cutoff = dropWhile (\<lambda>t. t \<le> cutoff) xs"
  by (auto simp: trim_log_def Let_def dropWhile_eq_drop)

lemma trim_log_sorted: "sorted xs \<Longrightarrow> trim_log xs cutoff = filter (\<lambda>t. cutoff < t) xs"
  unfolding trim_log_dropWhile
proof (induction xs)
  case (Cons x xs)
  then show ?case
    by (cases "x \<le> cutoff") (auto intro!: filter_True [symmetric] simp: filter_id_conv)
qed simp

lemma filter_narrower:
  assumes "filter P xs = filter P ys" and "\<And>x. Q x \<Longrightarrow> P x"
  shows "filter Q xs = filter Q ys"
proof -
  have "filter Q zs = filter Q (filter P zs)" for zs
    using assms(2) by (induction zs) auto
  then show ?thesis
    using assms(1) by metis
qed

lemma log_of_put: "log_of (put_log key xs s) k = (if k = key then xs else log_of s k)"
  by (simp add: log_of_def put_log_def jmap_get_set)

lemma log_of_fields [simp]:
  "log_of (s\<lparr>sw_totalHits := n\<rparr>) = log_of s" "log_of (s\<lparr>sw_totalDenied := n\<rparr>) = log_of s"
  by (simp_all add: log_of_def fun_eq_iff)

text \<open>What is done with a limiter as time goes by: every operation comes some time after the one before.\<close>

datatype limiter_op =
    Hit nat jstring int
  | Count nat jstring
  | Remaining nat jstring int
  | Sweep nat
  | Unhit jstring
  | ResetKey jstring

type_synonym limiter_run = "sliding_window_log \<times> int \<times> (jstring \<times> int) list"

text \<open>The history is that of the admitted requests that were neither taken back nor reset.\<close>

definition take_back_last :: "jstring \<Rightarrow> (jstring \<times> int) list \<Rightarrow> (jstring \<times> int) list" where
  "take_back_last key hist =
     rev (takeWhile (\<lambda>(k, _). k \<noteq> key) (rev hist) @ tl (dropWhile (\<lambda>(k, _). k \<noteq> key) (rev hist)))"

definition limiter_step :: "limiter_run \<Rightarrow> limiter_op \<Rightarrow> limiter_run" where
  "limiter_step r op =
     (case r of (s, now, hist) \<Rightarrow>
        case op of
          Hit d key limit \<Rightarrow>
            (let (s, v) = window_hit (now + int d) key limit s
             in (s, now + int d, if wd_allowed v then hist @ [(key, now + int d)] else hist))
        | Count d key \<Rightarrow> (fst (window_count (now + int d) key s), now + int d, hist)
        | Remaining d key limit \<Rightarrow> (fst (window_remaining (now + int d) key limit s), now + int d, hist)
        | Sweep d \<Rightarrow> (fst (window_sweep (now + int d) s), now + int d, hist)
        | Unhit key \<Rightarrow> (let (s, taken) = unhit key s in (s, now, if taken then take_back_last key hist else hist))
        | ResetKey key \<Rightarrow> (window_reset key s, now, filter (\<lambda>(k, _). k \<noteq> key) hist))"

definition times_of :: "jstring \<Rightarrow> (jstring \<times> int) list \<Rightarrow> int list" where
  "times_of key hist = map snd (filter (\<lambda>(k, _). k = key) hist)"

definition limiter_inv :: "int \<Rightarrow> limiter_run \<Rightarrow> bool" where
  "limiter_inv w r \<longleftrightarrow>
     (case r of (s, now, hist) \<Rightarrow>
        sw_windowMs s = w \<and> sw_maxLogSize s \<le> 0 \<and> jmap_wf (sw_logs s) \<and>
        (\<forall>key. sorted (times_of key hist) \<and> list_all (\<lambda>t. t \<le> now) (times_of key hist) \<and>
           sorted (log_of s key) \<and> list_all (\<lambda>t. t \<le> now) (log_of s key) \<and>
           filter (\<lambda>t. now - w < t) (log_of s key) = filter (\<lambda>t. now - w < t) (times_of key hist)))"

lemma times_of_snoc: "times_of key (hist @ [(k, t)]) = times_of key hist @ (if k = key then [t] else [])"
  by (simp add: times_of_def)

lemma times_of_take_back: "times_of k (take_back_last key hist) = (if k = key then butlast (times_of k hist) else times_of k hist)"
proof (induction hist rule: rev_induct)
  case (snoc e hist)
  obtain k' t where e: "e = (k', t)"
    by fastforce
  show ?case
  proof (cases "k' = key")
    case True
    then have "take_back_last key (hist @ [e]) = hist"
      by (simp add: take_back_last_def e)
    then show ?thesis
      using True by (simp add: e times_of_snoc)
  next
    case False
    then have "take_back_last key (hist @ [e]) = take_back_last key hist @ [e]"
      by (simp add: take_back_last_def e)
    then show ?thesis
      using snoc False by (simp add: e times_of_snoc)
  qed
qed (simp add: take_back_last_def times_of_def)

lemma times_of_without: "times_of k (filter (\<lambda>(k, _). k \<noteq> key) hist) = (if k = key then [] else times_of k hist)"
  by (induction hist) (auto simp: times_of_def)

lemma filter_butlast:
  fixes xs :: "int list"
  assumes "sorted xs" and "\<And>x y. P x \<Longrightarrow> x \<le> y \<Longrightarrow> P y"
  shows "filter P (butlast xs) = butlast (filter P xs)"
proof (cases xs rule: rev_cases)
  case (snoc ys y)
  then have below: "\<forall>x \<in> set ys. x \<le> y"
    using assms(1) by (simp add: sorted_append)
  show ?thesis
  proof (cases "P y")
    case False
    then have "filter P ys = []"
      using below assms(2) by (auto simp: filter_empty_conv)
    then show ?thesis
      using snoc False by simp
  qed (simp add: snoc)
qed simp

text \<open>Trimming what has left the window, and letting time pass.\<close>

lemma limiter_inv_trim:
  assumes "limiter_inv w (s, now, hist)" and "now \<le> t"
    and "sw_windowMs s' = w" and "sw_maxLogSize s' \<le> 0" and "jmap_wf (sw_logs s')"
    and "\<And>key. log_of s' key = log_of s key \<or> log_of s' key = trim_log (log_of s key) (t - w)"
  shows "limiter_inv w (s', t, hist)"
proof -
  have key: "sorted (times_of key hist) \<and> list_all (\<lambda>x. x \<le> t) (times_of key hist) \<and>
      sorted (log_of s' key) \<and> list_all (\<lambda>x. x \<le> t) (log_of s' key) \<and>
      filter (\<lambda>x. t - w < x) (log_of s' key) = filter (\<lambda>x. t - w < x) (times_of key hist)" for key
  proof -
    have old: "sorted (log_of s key)" "list_all (\<lambda>x. x \<le> now) (log_of s key)"
        "filter (\<lambda>x. now - w < x) (log_of s key) = filter (\<lambda>x. now - w < x) (times_of key hist)"
      using assms(1) by (simp_all add: limiter_inv_def)
    have "filter (\<lambda>x. t - w < x) (log_of s key) = filter (\<lambda>x. t - w < x) (times_of key hist)"
      using filter_narrower [OF old(3), of "\<lambda>x. t - w < x"] assms(2) by simp
    moreover have "list_all (\<lambda>x. x \<le> t) (log_of s key)"
      using old(2) assms(2) by (auto simp: list_all_iff)
    moreover have "list_all (\<lambda>x. x \<le> t) (filter (\<lambda>x. t - w < x) (log_of s key))"
      using calculation(2) by (auto simp: list_all_iff)
    moreover have "sorted (times_of key hist)" "list_all (\<lambda>x. x \<le> t) (times_of key hist)"
      using assms(1,2) by (auto simp: limiter_inv_def list_all_iff intro: order_trans)
    ultimately show ?thesis
      using old(1) assms(6) [of key] sorted_wrt_filter [OF old(1), of "\<lambda>x. t - w < x"] trim_log_sorted [OF old(1), of "t - w"]
      by (elim disjE) (simp_all only: filter_filter conj_absorb)
  qed
  then show ?thesis
    using assms(3-5) by (simp add: limiter_inv_def)
qed

text \<open>The decision of a hit, against the history of the admitted requests.\<close>

definition in_window :: "int \<Rightarrow> int \<Rightarrow> jstring \<Rightarrow> (jstring \<times> int) list \<Rightarrow> nat" where
  "in_window w now key hist = length (filter (\<lambda>t. now - w < t) (times_of key hist))"

lemma trimmed_is_window:
  assumes "limiter_inv w (s, now, hist)" and "now \<le> t"
  shows "trim_log (log_of s key) (t - w) = filter (\<lambda>x. t - w < x) (times_of key hist)"
    and "sorted (trim_log (log_of s key) (t - w))" and "list_all (\<lambda>x. x \<le> now) (trim_log (log_of s key) (t - w))"
proof -
  have old: "sorted (log_of s key)" "list_all (\<lambda>x. x \<le> now) (log_of s key)"
      "filter (\<lambda>x. now - w < x) (log_of s key) = filter (\<lambda>x. now - w < x) (times_of key hist)"
    using assms(1) by (simp_all add: limiter_inv_def)
  then show "trim_log (log_of s key) (t - w) = filter (\<lambda>x. t - w < x) (times_of key hist)"
    using filter_narrower [OF old(3), of "\<lambda>x. t - w < x"] assms(2) by (simp add: trim_log_sorted)
  show "sorted (trim_log (log_of s key) (t - w))" "list_all (\<lambda>x. x \<le> now) (trim_log (log_of s key) (t - w))"
    using old(1,2) by (auto simp: trim_log_sorted list_all_iff intro: sorted_wrt_filter)
qed

lemma hit_allowed:
  assumes "limiter_inv w (s, now, hist)"
  shows "wd_allowed (snd (window_hit (now + int d) key limit s)) = (int (in_window w (now + int d) key hist) < limit)"
  using trimmed_is_window(1) [OF assms, of "now + int d" key] assms
  by (auto simp: window_hit_def Let_def in_window_def limiter_inv_def)

lemma limiter_inv_hit:
  assumes inv: "limiter_inv w (s, now, hist)"
  shows "limiter_inv w (limiter_step (s, now, hist) (Hit d key limit))"
proof -
  let ?t = "now + int d"
  let ?xs = "trim_log (log_of s key) (?t - w)"
  have s: "sw_windowMs s = w" "sw_maxLogSize s \<le> 0" "jmap_wf (sw_logs s)"
    using inv by (simp_all add: limiter_inv_def)
  show ?thesis
  proof (cases "int (length ?xs) \<ge> limit")
    case True
    let ?s = "put_log key ?xs (s\<lparr>sw_totalHits := sw_totalHits s + 1, sw_totalDenied := sw_totalDenied s + 1\<rparr>)"
    have "limiter_step (s, now, hist) (Hit d key limit) = (?s, ?t, hist)"
      using True s(1) by (simp add: limiter_step_def window_hit_def Let_def)
    moreover have "log_of ?s k = (if k = key then ?xs else log_of s k)" for k
      by (simp add: log_of_def put_log_def jmap_get_set)
    then have "limiter_inv w (?s, ?t, hist)"
      by (intro limiter_inv_trim [OF inv]) (use s in \<open>auto simp: put_log_def\<close>)
    ultimately show ?thesis
      by simp
  next
    case False
    let ?s = "put_log key (?xs @ [?t]) (s\<lparr>sw_totalHits := sw_totalHits s + 1\<rparr>)"
    have step: "limiter_step (s, now, hist) (Hit d key limit) = (?s, ?t, hist @ [(key, ?t)])"
      using False s(1,2) by (simp add: limiter_step_def window_hit_def Let_def)
    have others: "limiter_inv w (s, ?t, hist)"
      by (rule limiter_inv_trim [OF inv]) (use s in auto)
    have mine: "sorted (?xs @ [?t])" "list_all (\<lambda>x. x \<le> ?t) (?xs @ [?t])"
      using trimmed_is_window(2,3) [OF inv, of ?t key] by (auto simp: sorted_append list_all_iff)
    have "filter (\<lambda>x. ?t - w < x) (?xs @ [?t]) = filter (\<lambda>x. ?t - w < x) (times_of key (hist @ [(key, ?t)]))"
      using trimmed_is_window(1) [OF inv, of ?t key] by (simp add: times_of_def)
    moreover have "times_of k (hist @ [(key, ?t)]) = times_of k hist" if "k \<noteq> key" for k
      using that by (simp add: times_of_def)
    moreover have "sorted (times_of k (hist @ [(key, ?t)]))" "list_all (\<lambda>x. x \<le> ?t) (times_of k (hist @ [(key, ?t)]))" for k
      using others by (auto simp: limiter_inv_def times_of_snoc sorted_append list_all_iff)
    ultimately show ?thesis
      unfolding step using others mine s by (simp add: limiter_inv_def log_of_put) (simp add: put_log_def)
  qed
qed

lemma get_filter_log: "jmap_wf m \<Longrightarrow> jmap_get (filter (\<lambda>(_, xs). P xs) m) key =
    (case jmap_get m key of Some xs \<Rightarrow> if P xs then Some xs else None | None \<Rightarrow> None)"
proof (induction m)
  case (Cons e m)
  then have "jmap_get m (fst e) = None"
    by (auto simp: jmap_wf_def jmap_keys_def jmap_get_def map_of_eq_None_iff)
  then show ?case
    using Cons by (cases e) (auto simp: jmap_wf_def jmap_keys_def jmap_get_def split: option.splits)
qed (simp add: jmap_get_def)

lemma sweep_logs:
  assumes "jmap_wf (sw_logs s)"
  shows "jmap_wf (sw_logs (fst (window_sweep now s)))" and "log_of (fst (window_sweep now s)) key = trim_log (log_of s key) (now - sw_windowMs s)"
proof -
  let ?m = "map (\<lambda>(k, xs). (k, trim_log xs (now - sw_windowMs s))) (sw_logs s)"
  have keys: "map fst ?m = map fst (sw_logs s)"
    by (simp add: case_prod_unfold)
  then have wf: "jmap_wf ?m"
    using assms by (simp only: jmap_wf_def jmap_keys_def)
  then show "jmap_wf (sw_logs (fst (window_sweep now s)))"
    by (simp add: window_sweep_def Let_def jmap_wf_def jmap_keys_def distinct_map_filter)
  show "log_of (fst (window_sweep now s)) key = trim_log (log_of s key) (now - sw_windowMs s)"
    using get_filter_log [OF wf, of "\<lambda>xs. xs \<noteq> []" key]
    by (auto simp: window_sweep_def Let_def log_of_def jmap_get_map trim_log_def split: option.split)
qed

lemma limiter_inv_unhit:
  assumes inv: "limiter_inv w (s, now, hist)"
  shows "limiter_inv w (limiter_step (s, now, hist) (Unhit key))"
proof (cases "snd (unhit key s)")
  case True
  then have step: "limiter_step (s, now, hist) (Unhit key) = (put_log key (butlast (log_of s key)) s, now, take_back_last key hist)"
    by (auto simp: limiter_step_def unhit_def log_of_def split: option.splits if_splits)
  have old: "sorted (times_of k hist)" "list_all (\<lambda>x. x \<le> now) (times_of k hist)" "sorted (log_of s k)" "list_all (\<lambda>x. x \<le> now) (log_of s k)"
      "filter (\<lambda>x. now - w < x) (log_of s k) = filter (\<lambda>x. now - w < x) (times_of k hist)" for k
    using inv by (simp_all add: limiter_inv_def)
  have "filter (\<lambda>x. now - w < x) (butlast (log_of s key)) = filter (\<lambda>x. now - w < x) (butlast (times_of key hist))"
    using filter_butlast [OF old(1), of "\<lambda>x. now - w < x" key] filter_butlast [OF old(3), of "\<lambda>x. now - w < x" key] old(5) [of key] by simp
  moreover have shorter: "sorted (butlast xs) \<and> list_all P (butlast xs)" if "sorted xs" "list_all P xs" for xs :: "int list" and P
    using that by (cases xs rule: rev_cases) (simp_all add: sorted_append)
  moreover note shorter [OF old(1,2), of key] shorter [OF old(3,4), of key]
  ultimately show ?thesis
    unfolding step using inv by (simp add: limiter_inv_def log_of_put times_of_take_back) (simp add: put_log_def)
next
  case False
  then have "limiter_step (s, now, hist) (Unhit key) = (s, now, hist)"
    by (auto simp: limiter_step_def unhit_def split: option.splits if_splits)
  then show ?thesis
    using inv by simp
qed

lemma limiter_inv_reset: "limiter_inv w (s, now, hist) \<Longrightarrow> limiter_inv w (limiter_step (s, now, hist) (ResetKey key))"
  by (auto simp: limiter_inv_def limiter_step_def window_reset_def times_of_without log_of_def jmap_get_delete)

interpretation limiter: invariant_machine limiter_step "limiter_inv w" for w
proof
  fix r op
  assume "limiter_inv w r"
  moreover obtain s now hist where r: "r = (s, now, hist)"
    by (metis prod.exhaust)
  ultimately have inv: "limiter_inv w (s, now, hist)" and s: "sw_windowMs s = w" "sw_maxLogSize s \<le> 0" "jmap_wf (sw_logs s)"
    by (simp_all add: limiter_inv_def)
  have count: "limiter_inv w (fst (window_count (now + int d) key s), now + int d, hist)" for d key
    by (rule limiter_inv_trim [OF inv])
      (use s in \<open>auto simp: window_count_def Let_def log_of_put put_log_def log_of_def jmap_get_set split: option.split\<close>)
  show "limiter_inv w (limiter_step r op)"
  proof (cases op)
    case (Hit d key limit)
    then show ?thesis
      using limiter_inv_hit [OF inv] r by simp
  next
    case (Sweep d)
    have "limiter_inv w (fst (window_sweep (now + int d) s), now + int d, hist)"
      by (rule limiter_inv_trim [OF inv]) (use s sweep_logs [OF s(3)] in \<open>auto simp: window_sweep_def Let_def\<close>)
    then show ?thesis
      by (simp add: r Sweep limiter_step_def)
  qed (use count limiter_inv_unhit [OF inv] limiter_inv_reset [OF inv] in
      \<open>simp_all add: r limiter_step_def window_remaining_def case_prod_unfold Let_def\<close>)
qed

lemma limiter_inv_new: "new_window_log w m = Inr s \<Longrightarrow> (case m of None \<Rightarrow> True | Some n \<Rightarrow> n \<le> 0) \<Longrightarrow> limiter_inv w (s, now, [])"
  by (auto simp: new_window_log_def limiter_inv_def log_of_def times_of_def split: if_splits option.splits)

section \<open>Decisions\<close>

text \<open>
  C22: whatever was done with a log without a cap before - hits, counts, sweeps, requests taken back, keys reset - on a clock
  that does not go back, a hit is admitted exactly when the requests of its key that were admitted during the last window, and
  not taken back or reset since, are fewer than its limit.
\<close>

theorem window_decision_exact:
  assumes "new_window_log w maxLogSize = Inr s0" and "case maxLogSize of None \<Rightarrow> True | Some n \<Rightarrow> n \<le> 0"
    and "foldl limiter_step (s0, start, []) ops = (s, now, hist)"
  shows "wd_allowed (snd (window_hit (now + int d) key limit s)) = (int (in_window w (now + int d) key hist) < limit)"
proof -
  have "limiter_inv w (s, now, hist)"
    using limiter.inv_run [OF limiter_inv_new [OF assms(1,2)], of start ops] assms(3) by simp
  then show ?thesis
    by (rule hit_allowed)
qed

lemma admitted_in_time:
  "limiter_inv w r \<Longrightarrow> limiter_step r op = (s, now, hist) \<Longrightarrow>
     (\<forall>key P. length (filter P (times_of key hist)) \<le> length (filter P (times_of key (snd (snd r)))))
     \<or> (\<exists>key limit d. op = Hit d key limit \<and> now = fst (snd r) + int d \<and> hist = snd (snd r) @ [(key, now)]
       \<and> int (in_window w now key (snd (snd r))) < limit)"
proof -
  have "length (filter P (butlast xs)) \<le> length (filter P xs)" for P and xs :: "int list"
    by (cases xs rule: rev_cases) simp_all
  then show "limiter_inv w r \<Longrightarrow> limiter_step r op = (s, now, hist) \<Longrightarrow> ?thesis"
    by (cases r; cases op)
      (auto simp: limiter_step_def Let_def hit_allowed [symmetric] times_of_take_back times_of_without split: prod.splits if_splits)
qed

lemma length_filter_mono: "(\<And>x. P x \<Longrightarrow> Q x) \<Longrightarrow> length (filter P xs) \<le> length (filter Q xs)"
  by (induction xs) auto

lemma window_bounded:
  assumes "limiter_inv w (s0, start, [])" and "0 \<le> L" and "0 < w"
    and "foldl limiter_step (s0, start, []) ops = (s, now, hist)"
    and "list_all (\<lambda>op. case op of Hit d k limit \<Rightarrow> k = key \<longrightarrow> limit \<le> L | _ \<Rightarrow> True) ops"
  shows "int (length (filter (\<lambda>x. t - w < x \<and> x \<le> t) (times_of key hist))) \<le> L"
  using assms(4,5)
proof (induction ops arbitrary: s now hist rule: rev_induct)
  case Nil
  then show ?case
    using assms(2) by (simp add: times_of_def)
next
  case (snoc op ops)
  obtain s' now' hist' where before: "foldl limiter_step (s0, start, []) ops = (s', now', hist')"
    by (metis prod.exhaust)
  have inv: "limiter_inv w (s', now', hist')"
    using limiter.inv_run [OF assms(1), of ops] before by simp
  have ih: "int (length (filter (\<lambda>x. t - w < x \<and> x \<le> t) (times_of key hist'))) \<le> L"
    using snoc.IH [OF before] snoc.prems(2) by simp
  have step: "limiter_step (s', now', hist') op = (s, now, hist)"
    using snoc.prems(1) before by simp
  consider "\<And>P. length (filter P (times_of key hist)) \<le> length (filter P (times_of key hist'))" | k limit d where "op = Hit d k limit" "hist = hist' @ [(k, now)]" "int (in_window w now k hist') < limit"
    using admitted_in_time [OF inv step] by auto
  then show ?case
  proof cases
    case 1
    then show ?thesis
      using ih order_trans of_nat_mono by blast
  next
    case (2 k limit d)
    show ?thesis
    proof (cases "k = key \<and> now \<le> t")
      case True
      have "length (filter (\<lambda>x. t - w < x \<and> x \<le> t) (times_of key hist')) \<le> in_window w now k hist'"
        using length_filter_mono [of "\<lambda>x. t - w < x \<and> x \<le> t" "\<lambda>x. now - w < x" "times_of key hist'"] True
        by (simp add: in_window_def)
      then show ?thesis
        using 2 True snoc.prems(2) by (simp add: times_of_snoc)
    next
      case False
      then show ?thesis
        using ih 2(2) by (auto simp: times_of_snoc)
    qed
  qed
qed

text \<open>
  When no hit of a key asks for more than \<open>L\<close>, no window of the log's length, wherever it is laid over the past,
  contains more than \<open>L\<close> admitted requests of the key.
\<close>

theorem window_never_exceeded:
  assumes "new_window_log w maxLogSize = Inr s0" and "case maxLogSize of None \<Rightarrow> True | Some n \<Rightarrow> n \<le> 0" and "0 \<le> L"
    and "foldl limiter_step (s0, start, []) ops = (s, now, hist)"
    and "list_all (\<lambda>op. case op of Hit d k limit \<Rightarrow> k = key \<longrightarrow> limit \<le> L | _ \<Rightarrow> True) ops"
  shows "int (length (filter (\<lambda>x. t - w < x \<and> x \<le> t) (times_of key hist))) \<le> L"
  using window_bounded [OF limiter_inv_new [OF assms(1,2)] assms(3) _ assms(4,5)] assms(1)
  by (simp add: new_window_log_def split: if_splits)

text \<open>
  A refused request whose limit is just reached is told exactly how long to wait: asked again after that time it is
  admitted, asked any earlier it is refused.
\<close>

theorem retry_after_exact:
  assumes "new_window_log w None = Inr s0" and "foldl limiter_step (s0, start, []) ops = (s, now, hist)"
    and "window_hit now key limit s = (s', v)" and "limit = int (in_window w now key hist)" and "0 < limit"
  shows "\<not> wd_allowed v \<and> (\<exists>r. wd_retryAfterMs v = Some (int r) \<and> 0 < r \<and>
     (\<forall>d. wd_allowed (snd (window_hit (now + int d) key limit s')) = (r \<le> d)))"
proof -
  have inv: "limiter_inv w (s, now, hist)"
    using limiter.inv_run [OF limiter_inv_new [OF assms(1)], of start ops] assms(2) by simp
  have denied: "\<not> wd_allowed v"
    using hit_allowed [OF inv, of 0 key limit] assms(3,4) by simp
  then have after: "limiter_inv w (s', now, hist)"
    using limiter.inv_step [OF inv, of "Hit 0 key limit"] assms(3) by (simp add: limiter_step_def)
  let ?xs = "filter (\<lambda>x. now - w < x) (times_of key hist)"
  have xs: "trim_log (log_of s key) (now - w) = ?xs" "sorted ?xs" "list_all (\<lambda>x. x \<le> now) ?xs"
    using trimmed_is_window [OF inv, of now key] by simp_all
  have "length ?xs \<noteq> 0"
    using assms(4,5) by (simp add: in_window_def)
  then obtain oldest rest where cons: "?xs = oldest # rest"
    by (cases ?xs) simp_all
  have old: "now - w < oldest"
    using cons by (metis (mono_tags, lifting) Cons_eq_filterD)
  have "wd_retryAfterMs v = Some (max 1 (oldest + w - now))"
    using assms(3) denied inv xs(1) cons
    by (auto simp: window_hit_def Let_def limiter_inv_def split: if_splits)
  then have r: "wd_retryAfterMs v = Some (int (nat (oldest + w - now)))" "0 < nat (oldest + w - now)"
    using old by simp_all
  have "wd_allowed (snd (window_hit (now + int d) key limit s')) = (nat (oldest + w - now) \<le> d)" for d
  proof -
    have "filter (\<lambda>x. now + int d - w < x) (times_of key hist) = filter (\<lambda>x. now + int d - w < x) ?xs"
      by (rule filter_narrower [of "\<lambda>x. now - w < x"]) simp_all
    then have "wd_allowed (snd (window_hit (now + int d) key limit s')) =
        (length (filter (\<lambda>x. now + int d - w < x) (oldest # rest)) < length (oldest # rest))"
      unfolding hit_allowed [OF after] assms(4) in_window_def of_nat_less_iff by (simp only: cons)
    also have "\<dots> = (\<exists>x \<in> set (oldest # rest). \<not> now + int d - w < x)"
      by (metis (mono_tags, lifting) filter_True length_filter_less less_irrefl)
    also have "\<dots> = (oldest \<le> now + int d - w)"
      using xs(2) cons by auto
    finally show ?thesis
      by auto
  qed
  then show ?thesis
    using denied r by blast
qed

text \<open>
  The cap on a log's size: when it is smaller than a limit, the oldest entries are dropped before the limit is
  reached, and no request of that limit is ever refused.
\<close>

lemma capped_log_short:
  assumes "new_window_log w (Some m) = Inr s0" and "0 < m" and "foldl limiter_step (s0, start, []) ops = (s, now, hist)"
  shows "sw_maxLogSize s = m \<and> jmap_wf (sw_logs s) \<and> (\<forall>key. int (length (log_of s key)) \<le> m)"
  using assms(3)
proof (induction ops arbitrary: s now hist rule: rev_induct)
  case Nil
  then show ?case
    using assms(1,2) by (auto simp: new_window_log_def log_of_def split: if_splits)
next
  case (snoc op ops)
  obtain s' now' hist' where before: "foldl limiter_step (s0, start, []) ops = (s', now', hist')"
    by (metis prod.exhaust)
  note ih = snoc.IH [OF before]
  have trim: "length (trim_log xs c) \<le> length xs" for xs c
    by (simp add: trim_log_dropWhile length_dropWhile_le)
  have short: "int (length (trim_log (log_of s' k) c)) \<le> m" for k c
    using ih trim [of "log_of s' k" c] by (meson of_nat_le_iff order_trans)
  have count: "sw_maxLogSize p = m \<and> jmap_wf (sw_logs p) \<and> (\<forall>key. int (length (log_of p key)) \<le> m)"
    if "p = fst (window_count t k s')" for p t k
    using ih short [of k] that
    by (auto simp: window_count_def Let_def log_of_put put_log_def log_of_def jmap_get_set split: option.splits)
  have step: "limiter_step (s', now', hist') op = (s, now, hist)"
    using snoc.prems before by simp
  show ?case
  proof (cases op)
    case (Hit d k limit)
    then show ?thesis
      using step ih short [of k] assms(2)
      by (auto simp: limiter_step_def window_hit_def Let_def log_of_put put_log_def log_of_def jmap_get_set
          split: if_splits option.splits)
  next
    case (Sweep d)
    then have "s = fst (window_sweep (now' + int d) s')"
      using step by (auto simp: limiter_step_def)
    then show ?thesis
      using ih short sweep_logs [of s' "now' + int d"] by (simp add: window_sweep_def Let_def)
  next
    case (Unhit k)
    then have "s = s' \<or> s = put_log k (butlast (log_of s' k)) s'"
      using step by (auto simp: limiter_step_def unhit_def log_of_def split: option.splits if_splits)
    moreover have "int (length (butlast (log_of s' k))) \<le> m"
      using ih order_trans [of "int (length (butlast (log_of s' k)))" "int (length (log_of s' k))" m] by simp
    ultimately show ?thesis
      using ih by (auto simp: log_of_put) (auto simp: put_log_def)
  next
    case (ResetKey k)
    then show ?thesis
      using step ih assms(2) by (auto simp: limiter_step_def window_reset_def log_of_def jmap_get_delete)
  qed (use step count in \<open>auto simp: limiter_step_def window_remaining_def case_prod_unfold Let_def\<close>)
qed

theorem undersized_log_never_refuses:
  assumes "new_window_log w (Some m) = Inr s0" and "0 < m" and "m < limit"
    and "foldl limiter_step (s0, start, []) ops = (s, now, hist)"
  shows "wd_allowed (snd (window_hit t key limit s))"
proof -
  have "length (trim_log (log_of s key) (t - sw_windowMs s)) \<le> length (log_of s key)"
    by (simp add: trim_log_dropWhile length_dropWhile_le)
  moreover have "int (length (log_of s key)) < limit"
    using capped_log_short [OF assms(1,2,4)] assms(3) by (meson order_le_less_trans)
  ultimately have "\<not> limit \<le> int (length (trim_log (log_of s key) (t - sw_windowMs s)))"
    by simp
  then show ?thesis
    by (simp add: window_hit_def Let_def)
qed

definition two_hits :: "limiter_op list" where
  "two_hits = [Hit 5 (js ''ip'') 2, Hit 10 (js ''ip'') 2]"

lemma two_hits_run:
  obtains s0 s where "new_window_log 1000 None = Inr s0"
    and "foldl limiter_step (s0, 0, []) two_hits = (s, 15, [(js ''ip'', 5), (js ''ip'', 15)])"
  by (auto simp: two_hits_def new_window_log_def limiter_step_def window_hit_def trim_log_def log_of_def put_log_def jmap_get_def
      jmap_set_def jmap_empty_def Let_def)

theorem window_decision_exact_witness:
  "\<exists>s0 s hist. new_window_log 1000 None = Inr s0 \<and> foldl limiter_step (s0, 0, []) two_hits = (s, 15, hist)
     \<and> \<not> wd_allowed (snd (window_hit 35 (js ''ip'') 2 s)) \<and> wd_allowed (snd (window_hit 1005 (js ''ip'') 2 s))"
proof -
  obtain s0 s where run: "new_window_log 1000 None = Inr s0"
      "foldl limiter_step (s0, 0, []) two_hits = (s, 15, [(js ''ip'', 5), (js ''ip'', 15)])"
    by (rule two_hits_run)
  note exact = window_decision_exact [OF run(1) _ run(2), of _ "js ''ip''" 2]
  show ?thesis
    using run exact [of 20] exact [of 990] by (simp add: in_window_def times_of_def)
qed

theorem retry_after_exact_witness:
  "\<exists>s0 s r. new_window_log 1000 None = Inr s0 \<and> fst (foldl limiter_step (s0, 0, []) two_hits) = s
     \<and> wd_retryAfterMs (snd (window_hit 15 (js ''ip'') 2 s)) = Some (int r) \<and> 0 < r"
proof -
  obtain s0 s where run: "new_window_log 1000 None = Inr s0"
      "foldl limiter_step (s0, 0, []) two_hits = (s, 15, [(js ''ip'', 5), (js ''ip'', 15)])"
    by (rule two_hits_run)
  have "2 = int (in_window 1000 15 (js ''ip'') [(js ''ip'', 5), (js ''ip'', 15)])"
    by (simp add: in_window_def times_of_def)
  from retry_after_exact [OF run surjective_pairing this] run show ?thesis
    by auto
qed

theorem window_never_exceeded_witness:
  "\<exists>s0 s hist. new_window_log 1000 None = Inr s0 \<and> foldl limiter_step (s0, 0, []) two_hits = (s, 15, hist)
     \<and> int (length (filter (\<lambda>x. 500 - 1000 < x \<and> x \<le> 500) (times_of (js ''ip'') hist))) \<le> 2"
proof -
  obtain s0 s where run: "new_window_log 1000 None = Inr s0"
      "foldl limiter_step (s0, 0, []) two_hits = (s, 15, [(js ''ip'', 5), (js ''ip'', 15)])"
    by (rule two_hits_run)
  have "list_all (\<lambda>op. case op of Hit d k limit \<Rightarrow> k = js ''ip'' \<longrightarrow> limit \<le> 2 | _ \<Rightarrow> True) two_hits"
    by (simp add: two_hits_def)
  from window_never_exceeded [OF run(1) _ _ run(2) this, of 500] run show ?thesis
    by (simp add: times_of_def)
qed

end
