(* ===== verification/QuotaBuckets.thy ===== *)
theory QuotaBuckets
  imports SlidingWindow
begin

text \<open>
  \<open>layers/rate-limiting/engine/QuotaBuckets.ts\<close>: one request against several quotas. Every dimension has a log of its own
  for every key; a refusal takes back what the dimensions before it consumed.
\<close>

section \<open>Dimensions and buckets\<close>

record 'c quota_dimension =
  qd_name :: jstring
  qd_keyOf :: "'c \<Rightarrow> jstring option"
  qd_capacity :: int
  qd_windowMs :: int

record quota_result =
  qr_allowed :: bool
  qr_deniedBy :: "jstring option"
  qr_remaining :: "(jstring, int) jmap"
  qr_retryAfterMs :: "int option"

type_synonym quota_logs = "(jstring, sliding_window_log) jmap"

record 'c quota_buckets =
  qb_dimensions :: "'c quota_dimension list"
  qb_logs :: quota_logs

definition new_quota_buckets :: "'c quota_dimension list \<Rightarrow> limiter_error + 'c quota_buckets" where
  "new_quota_buckets dims =
     (if length dims = 0 then Inl NoDimensions else Inr \<lparr>qb_dimensions = dims, qb_logs = jmap_empty\<rparr>)"

definition dimensionNames :: "'c quota_buckets \<Rightarrow> jstring list" where
  "dimensionNames b = map qd_name (qb_dimensions b)"

definition logFor :: "jstring \<Rightarrow> int \<Rightarrow> quota_logs \<Rightarrow> limiter_error + quota_logs \<times> sliding_window_log" where
  "logFor logKey windowMs logs =
     (case jmap_get logs logKey of
        Some l \<Rightarrow> Inr (logs, l)
      | None \<Rightarrow> (case new_window_log windowMs None of Inl e \<Rightarrow> Inl e | Inr l \<Rightarrow> Inr (jmap_set logKey l logs, l)))"

text \<open>\<open>Math.max\<close> of two numbers, with \<open>None\<close> for \<open>NaN\<close>.\<close>

definition js_max :: "int option \<Rightarrow> int option \<Rightarrow> int option" where
  "js_max x y = (case x of None \<Rightarrow> None | Some x \<Rightarrow> map_option (max x) y)"

definition key_for :: "'c quota_dimension \<Rightarrow> 'c \<Rightarrow> jstring option" where
  "key_for dim ctx = (case qd_keyOf dim ctx of None \<Rightarrow> None | Some key \<Rightarrow> if key = [] then None else Some (qd_name dim @ js '':'' @ key))"

definition take_back :: "jstring list \<Rightarrow> quota_logs \<Rightarrow> quota_logs" where
  "take_back consumed logs =
     foldl (\<lambda>logs k. case jmap_get logs k of Some l \<Rightarrow> jmap_set k (fst (unhit k l)) logs | None \<Rightarrow> logs) logs consumed"

text \<open>
  The loop of \<open>check\<close>. A log is an object that \<open>consumed\<close> refers to; nothing removes it from \<open>_logs\<close> meanwhile, so its key stands
  for it. A dimension whose window is not positive makes the constructor of its log throw, in the middle of the loop.
\<close>

fun check_loop ::
    "(nat \<Rightarrow> int) \<Rightarrow> 'c \<Rightarrow> 'c quota_dimension list \<Rightarrow> jstring list \<Rightarrow> (jstring, int) jmap \<Rightarrow> int option \<Rightarrow> quota_logs
      \<Rightarrow> quota_logs \<times> (limiter_error + quota_result)" where
  "check_loop clock ctx [] consumed remaining retry logs =
     (logs, Inr \<lparr>qr_allowed = True, qr_deniedBy = None, qr_remaining = remaining, qr_retryAfterMs = Some 0\<rparr>)"
| "check_loop clock ctx (dim # dims) consumed remaining retry logs =
     (case key_for dim ctx of
        None \<Rightarrow> check_loop clock ctx dims consumed remaining retry logs
      | Some logKey \<Rightarrow>
          (case logFor logKey (qd_windowMs dim) logs of
             Inl e \<Rightarrow> (logs, Inl e)
           | Inr (logs, l) \<Rightarrow>
               let (l, decision) = window_hit (clock 0) logKey (qd_capacity dim) l;
                   logs = jmap_set logKey l logs;
                   remaining = jmap_set (qd_name dim) (wd_remaining decision) remaining;
                   retry = js_max retry (wd_retryAfterMs decision)
               in
               if \<not> wd_allowed decision then
                 (take_back consumed logs,
                  Inr \<lparr>qr_allowed = False, qr_deniedBy = Some (qd_name dim), qr_remaining = remaining, qr_retryAfterMs = retry\<rparr>)
               else check_loop (\<lambda>i. clock (i + 2)) ctx dims (consumed @ [logKey]) remaining retry logs))"

definition quota_check :: "(nat \<Rightarrow> int) \<Rightarrow> 'c \<Rightarrow> 'c quota_buckets \<Rightarrow> 'c quota_buckets \<times> (limiter_error + quota_result)" where
  "quota_check clock ctx b =
     (let (logs, r) = check_loop clock ctx (qb_dimensions b) [] jmap_empty (Some 0) (qb_logs b) in (b\<lparr>qb_logs := logs\<rparr>, r))"

fun peek_loop ::
    "(nat \<Rightarrow> int) \<Rightarrow> 'c \<Rightarrow> 'c quota_dimension list \<Rightarrow> (jstring, int) jmap \<Rightarrow> int \<Rightarrow> jstring option \<Rightarrow> quota_logs
      \<Rightarrow> quota_logs \<times> quota_result" where
  "peek_loop clock ctx [] remaining retry deniedBy logs =
     (logs, \<lparr>qr_allowed = (deniedBy = None), qr_deniedBy = deniedBy, qr_remaining = remaining, qr_retryAfterMs = Some retry\<rparr>)"
| "peek_loop clock ctx (dim # dims) remaining retry deniedBy logs =
     (case key_for dim ctx of
        None \<Rightarrow> peek_loop clock ctx dims remaining retry deniedBy logs
      | Some logKey \<Rightarrow>
          let (logs, count) = (case jmap_get logs logKey of
                 None \<Rightarrow> (logs, 0)
               | Some l \<Rightarrow> (let (l, n) = window_count (clock 0) logKey l in (jmap_set logKey l logs, n)));
              remaining = jmap_set (qd_name dim) (max 0 (qd_capacity dim - int count)) remaining
          in
          if int count \<ge> qd_capacity dim then
            peek_loop (\<lambda>i. clock (i + 1)) ctx dims remaining (max retry (qd_windowMs dim)) (Some (qd_name dim)) logs
          else peek_loop (\<lambda>i. clock (i + 1)) ctx dims remaining retry deniedBy logs)"

definition quota_peek :: "(nat \<Rightarrow> int) \<Rightarrow> 'c \<Rightarrow> 'c quota_buckets \<Rightarrow> 'c quota_buckets \<times> quota_result" where
  "quota_peek clock ctx b =
     (let (logs, r) = peek_loop clock ctx (qb_dimensions b) jmap_empty 0 None (qb_logs b) in (b\<lparr>qb_logs := logs\<rparr>, r))"

definition resetDimension :: "jstring \<Rightarrow> jstring \<Rightarrow> 'c quota_buckets \<Rightarrow> 'c quota_buckets" where
  "resetDimension dimension key b = b\<lparr>qb_logs := jmap_delete (dimension @ js '':'' @ key) (qb_logs b)\<rparr>"

fun sweep_logs_loop :: "(nat \<Rightarrow> int) \<Rightarrow> quota_logs \<Rightarrow> quota_logs \<times> nat" where
  "sweep_logs_loop clock [] = ([], 0)"
| "sweep_logs_loop clock ((k, l) # logs) =
     (let l = fst (window_sweep (clock 0) l);
          (rest, n) = sweep_logs_loop (\<lambda>i. clock (i + 1)) logs
      in if trackedKeys l = 0 then (rest, n + 1) else ((k, l) # rest, n))"

definition quota_sweep :: "(nat \<Rightarrow> int) \<Rightarrow> 'c quota_buckets \<Rightarrow> 'c quota_buckets \<times> nat" where
  "quota_sweep clock b = (let (logs, n) = sweep_logs_loop clock (qb_logs b) in (b\<lparr>qb_logs := logs\<rparr>, n))"

section \<open>A refused request consumes nothing\<close>

text \<open>What counts against a quota at a time: the entries of its log inside the window.\<close>

definition quota_used :: "int \<Rightarrow> quota_logs \<Rightarrow> jstring \<Rightarrow> int list" where
  "quota_used t logs k =
     (case jmap_get logs k of None \<Rightarrow> [] | Some l \<Rightarrow> filter (\<lambda>x. t - sw_windowMs l < x) (log_of l k))"

lemma unhit_window [simp]: "sw_windowMs (fst (unhit k l)) = sw_windowMs l" "sw_maxLogSize (fst (unhit k l)) = sw_maxLogSize l"
  by (auto simp: unhit_def put_log_def split: option.split)

lemma log_of_unhit: "log_of (fst (unhit k l)) k = butlast (log_of l k)"
  by (auto simp: unhit_def log_of_put log_of_def split: option.split) (auto simp: put_log_def)

lemma log_of_unhits:
  "sw_windowMs (((\<lambda>l. fst (unhit k l)) ^^ n) l) = sw_windowMs l
     \<and> log_of (((\<lambda>l. fst (unhit k l)) ^^ n) l) k = take (length (log_of l k) - n) (log_of l k)"
  by (induction n) (simp_all add: log_of_unhit butlast_take)

lemma get_take_back:
  "jmap_get (take_back consumed logs) k = map_option ((\<lambda>l. fst (unhit k l)) ^^ count_list consumed k) (jmap_get logs k)"
  unfolding take_back_def
proof (induction consumed arbitrary: logs)
  case Nil
  then show ?case
    by (cases "jmap_get logs k") simp_all
next
  case (Cons c consumed)
  let ?logs = "case jmap_get logs c of Some l \<Rightarrow> jmap_set c (fst (unhit c l)) logs | None \<Rightarrow> logs"
  have "jmap_get ?logs k = (if k = c then map_option (\<lambda>l. fst (unhit k l)) (jmap_get logs k) else jmap_get logs k)"
    by (auto simp: jmap_get_set split: option.split)
  then show ?case
    using Cons.IH [of ?logs] funpow_swap1 [of "\<lambda>l. fst (unhit k l)" "count_list consumed k"]
    by (cases "jmap_get logs k") auto
qed

lemma used_after:
  "quota_used t (take_back consumed logs) k =
     (case jmap_get logs k of
        None \<Rightarrow> []
      | Some l \<Rightarrow> filter (\<lambda>x. t - sw_windowMs l < x) (take (length (log_of l k) - count_list consumed k) (log_of l k)))"
  using log_of_unhits by (simp add: quota_used_def get_take_back split: option.split)

text \<open>Trimming a log does not change what is used of it, whatever is taken off its end.\<close>

lemma used_trimmed:
  assumes "now \<le> (t :: int)"
  shows "filter (\<lambda>x. t - w < x) (take (length (trim_log xs (now - w)) - n) (trim_log xs (now - w))) =
    filter (\<lambda>x. t - w < x) (take (length xs - n) xs)"
proof -
  define f where "f = length (takeWhile (\<lambda>x. x \<le> now - w) xs)"
  have trim: "trim_log xs (now - w) = drop f xs"
    by (auto simp: trim_log_def Let_def f_def)
  have "take f xs = takeWhile (\<lambda>x. x \<le> now - w) xs"
    unfolding f_def by (rule takeWhile_eq_take [symmetric])
  then have below: "x \<le> now - w" if "x \<in> set (take f xs)" for x
    using that set_takeWhileD by fastforce
  have old: "filter (\<lambda>x. t - w < x) (take f (take m xs)) = []" for m
  proof -
    have "set (take f (take m xs)) \<subseteq> set (take f xs)"
      by (metis min.commute set_take_subset take_take)
    then have "\<not> t - w < x" if "x \<in> set (take f (take m xs))" for x
      using below [of x] that assms by auto
    then show ?thesis
      by simp
  qed
  have "filter (\<lambda>x. t - w < x) (take m xs) = filter (\<lambda>x. t - w < x) (drop f (take m xs))" for m
    using old [of m] by (metis append_self_conv2 append_take_drop_id filter_append)
  moreover have "take (length xs - f - n) (drop f xs) = drop f (take (length xs - n) xs)"
    by (simp add: drop_take add.commute)
  ultimately show ?thesis
    unfolding trim by simp
qed

definition uncapped :: "quota_logs \<Rightarrow> bool" where
  "uncapped logs \<longleftrightarrow> list_all (\<lambda>(_, l). sw_maxLogSize l \<le> 0) logs"

lemma uncapped_set: "uncapped logs \<Longrightarrow> sw_maxLogSize l \<le> 0 \<Longrightarrow> uncapped (jmap_set k l logs)"
  by (induction logs) (auto simp: uncapped_def jmap_set_def)

lemma uncapped_get: "uncapped logs \<Longrightarrow> jmap_get logs k = Some l \<Longrightarrow> sw_maxLogSize l \<le> 0"
  by (auto simp: uncapped_def list_all_iff jmap_get_def dest: map_of_SomeD)

lemma hit_cap: "sw_maxLogSize (fst (window_hit now k limit l)) = sw_maxLogSize l"
    "sw_windowMs (fst (window_hit now k limit l)) = sw_windowMs l"
  by (simp_all add: window_hit_def put_log_def Let_def)

lemma hit_log:
  assumes "sw_maxLogSize l \<le> 0"
  shows "log_of (fst (window_hit now k limit l)) k =
    trim_log (log_of l k) (now - sw_windowMs l) @ (if wd_allowed (snd (window_hit now k limit l)) then [now] else [])"
  using assms by (simp add: window_hit_def log_of_put Let_def)

lemma logFor_cases:
  assumes "logFor logKey w logs = Inr (logs', l)" and "uncapped logs"
  shows "uncapped logs' \<and> sw_maxLogSize l \<le> 0 \<and> jmap_get logs' logKey = Some l
    \<and> (\<forall>k. k \<noteq> logKey \<longrightarrow> jmap_get logs' k = jmap_get logs k)
    \<and> (jmap_get logs logKey = Some l \<or> jmap_get logs logKey = None \<and> log_of l logKey = [])"
proof (cases "jmap_get logs logKey")
  case None
  then obtain "new_window_log w None = Inr l" "logs' = jmap_set logKey l logs"
    using assms(1) by (auto simp: logFor_def split: sum.splits)
  then show ?thesis
    using None uncapped_set [OF assms(2), of l logKey]
    by (auto simp: new_window_log_def log_of_def split: if_splits)
next
  case (Some x)
  then show ?thesis
    using assms uncapped_get [OF assms(2) Some] by (auto simp: logFor_def)
qed

lemma count_snoc: "count_list (xs @ [x]) k = count_list xs k + (if k = x then 1 else 0)"
  by (induction xs) auto

lemma check_loop_refused:
  assumes "check_loop clock ctx dims consumed remaining retry logs = (logs', Inr r)" and "\<not> qr_allowed r"
    and "uncapped logs" and "\<forall>i. clock i \<le> t"
  shows "quota_used t logs' k = quota_used t (take_back consumed logs) k"
  using assms
proof (induction clock ctx dims consumed remaining retry logs rule: check_loop.induct)
  case (1 clock ctx consumed remaining retry logs)
  then show ?case
    by auto
next
  case (2 clock ctx dim dims consumed remaining retry logs)
  show ?case
  proof (cases "key_for dim ctx")
    case None
    then show ?thesis
      using 2 by simp
  next
    case (Some logKey)
    obtain logs1 l where lf: "logFor logKey (qd_windowMs dim) logs = Inr (logs1, l)"
      using 2(3) Some by (cases "logFor logKey (qd_windowMs dim) logs") auto
    note l = logFor_cases [OF lf 2(5)]
    obtain l' v where hit: "window_hit (clock 0) logKey (qd_capacity dim) l = (l', v)"
      by fastforce
    let ?logs = "jmap_set logKey l' logs1"
    let ?remaining = "jmap_set (qd_name dim) (wd_remaining v) remaining"
    let ?retry = "js_max retry (wd_retryAfterMs v)"
    have l': "sw_maxLogSize l' \<le> 0" "sw_windowMs l' = sw_windowMs l"
        "log_of l' logKey = trim_log (log_of l logKey) (clock 0 - sw_windowMs l) @ (if wd_allowed v then [clock 0] else [])"
      using hit_cap [of "clock 0" logKey "qd_capacity dim" l] hit_log [of l "clock 0" logKey "qd_capacity dim"] l hit by simp_all
    have same: "quota_used t (take_back (if wd_allowed v then consumed @ [logKey] else consumed) ?logs) k =
        quota_used t (take_back consumed logs) k"
    proof (cases "k = logKey")
      case True
      let ?xs = "log_of l logKey"
      let ?trim = "trim_log ?xs (clock 0 - sw_windowMs l)"
      have "quota_used t (take_back (if wd_allowed v then consumed @ [logKey] else consumed) ?logs) k =
          filter (\<lambda>x. t - sw_windowMs l < x) (take (length ?trim - count_list consumed logKey) ?trim)"
        using True l' by (simp add: used_after count_snoc)
      also have "\<dots> = filter (\<lambda>x. t - sw_windowMs l < x) (take (length ?xs - count_list consumed logKey) ?xs)"
        by (rule used_trimmed) (use 2(6) in blast)
      also have "\<dots> = quota_used t (take_back consumed logs) k"
        using l True by (auto simp: used_after)
      finally show ?thesis .
    next
      case False
      then show ?thesis
        using l by (cases "jmap_get logs k") (simp_all add: used_after jmap_get_set count_snoc)
    qed
    have uncapped: "uncapped ?logs"
      using uncapped_set l l'(1) by blast
    show ?thesis
    proof (cases "wd_allowed v")
      case True
      have "check_loop (\<lambda>i. clock (i + 2)) ctx dims (consumed @ [logKey]) ?remaining ?retry ?logs = (logs', Inr r)"
        using 2(3) Some lf hit True by simp
      from 2(2) [OF Some lf refl refl hit [symmetric] refl refl refl _ this 2(4) uncapped]
      show ?thesis
        using True same 2(6) by simp
    next
      case False
      then have "logs' = take_back consumed ?logs"
        using 2(3) Some lf hit by simp
      then show ?thesis
        using same False by simp
    qed
  qed
qed

text \<open>The operations of the buckets keep the logs without a cap, which is how they are made.\<close>

datatype 'c quota_op = Check "nat \<Rightarrow> int" 'c | Peek "nat \<Rightarrow> int" 'c | ResetDimension jstring jstring | QuotaSweep "nat \<Rightarrow> int"

definition quota_step :: "'c quota_buckets \<Rightarrow> 'c quota_op \<Rightarrow> 'c quota_buckets" where
  "quota_step b op =
     (case op of
        Check clock ctx \<Rightarrow> fst (quota_check clock ctx b)
      | Peek clock ctx \<Rightarrow> fst (quota_peek clock ctx b)
      | ResetDimension d key \<Rightarrow> resetDimension d key b
      | QuotaSweep clock \<Rightarrow> fst (quota_sweep clock b))"

lemma take_back_uncapped: "uncapped logs \<Longrightarrow> uncapped (take_back consumed logs)"
  unfolding take_back_def
proof (induction consumed arbitrary: logs)
  case (Cons c consumed)
  have "uncapped (case jmap_get logs c of Some l \<Rightarrow> jmap_set c (fst (unhit c l)) logs | None \<Rightarrow> logs)"
    using Cons.prems uncapped_get uncapped_set by (auto split: option.split)
  then show ?case
    using Cons.IH by simp
qed simp

lemma check_loop_uncapped: "uncapped logs \<Longrightarrow> uncapped (fst (check_loop clock ctx dims consumed remaining retry logs))"
proof (induction clock ctx dims consumed remaining retry logs rule: check_loop.induct)
  case (2 clock ctx dim dims consumed remaining retry logs)
  show ?case
  proof (cases "key_for dim ctx")
    case (Some logKey)
    show ?thesis
    proof (cases "logFor logKey (qd_windowMs dim) logs")
      case (Inr p)
      obtain logs1 l where lf: "logFor logKey (qd_windowMs dim) logs = Inr (logs1, l)"
        using Inr by (cases p) simp
      obtain l' v where hit: "window_hit (clock 0) logKey (qd_capacity dim) l = (l', v)"
        by fastforce
      have "uncapped (jmap_set logKey l' logs1)"
        using logFor_cases [OF lf 2(3)] hit_cap(1) [of "clock 0" logKey "qd_capacity dim" l] hit by (simp add: uncapped_set)
      then show ?thesis
        using 2(2) [OF Some lf refl refl hit [symmetric] refl refl refl] Some lf hit
        by (simp add: Let_def take_back_uncapped)
    qed (use 2 Some in simp)
  qed (use 2 in simp)
qed simp

lemma peek_loop_uncapped: "uncapped logs \<Longrightarrow> uncapped (fst (peek_loop clock ctx dims remaining retry denied logs))"
proof (induction dims arbitrary: clock remaining retry denied logs)
  case (Cons dim dims)
  have count: "sw_maxLogSize (fst (window_count t k l)) = sw_maxLogSize l" for t k l
    by (simp add: window_count_def put_log_def Let_def split: option.split)
  show ?case
  proof (cases "key_for dim ctx")
    case (Some logKey)
    let ?p = "case jmap_get logs logKey of None \<Rightarrow> (logs, 0)
        | Some l \<Rightarrow> (let (l, n) = window_count (clock 0) logKey l in (jmap_set logKey l logs, n))"
    have "uncapped (fst ?p)"
      using Cons.prems count uncapped_get uncapped_set by (auto simp: case_prod_unfold Let_def split: option.split)
    then show ?thesis
      using Some Cons.IH by (simp add: case_prod_unfold Let_def)
  qed (use Cons in simp)
qed simp

lemma sweep_loop_uncapped: "uncapped logs \<Longrightarrow> uncapped (fst (sweep_logs_loop clock logs))"
proof (induction clock logs rule: sweep_logs_loop.induct)
  case (2 clock k l logs)
  have "sw_maxLogSize (fst (window_sweep t l)) = sw_maxLogSize l" for t
    by (simp add: window_sweep_def Let_def)
  then show ?case
    using 2 by (auto simp: uncapped_def Let_def split: prod.splits)
qed simp

lemma delete_uncapped: "uncapped logs \<Longrightarrow> uncapped (jmap_delete k logs)"
  by (auto simp: uncapped_def jmap_delete_def AList.delete_eq list_all_iff)

interpretation quotas: invariant_machine quota_step "\<lambda>b. uncapped (qb_logs b)"
  by unfold_locales
    (auto simp: quota_step_def quota_check_def quota_peek_def resetDimension_def quota_sweep_def case_prod_unfold Let_def
      check_loop_uncapped peek_loop_uncapped sweep_loop_uncapped delete_uncapped split: quota_op.split)

text \<open>
  C23: a request that one dimension refuses leaves no trace in any quota: from the time of the refusal on, every log counts
  the same requests as if it had never been asked.
\<close>

theorem refusal_consumes_nothing:
  assumes "new_quota_buckets dims = Inr b0" and "b = foldl quota_step b0 ops"
    and "quota_check clock ctx b = (b', Inr r)" and "\<not> qr_allowed r" and "\<forall>i. clock i \<le> t"
  shows "quota_used t (qb_logs b') k = quota_used t (qb_logs b) k"
proof -
  have "uncapped (qb_logs b0)"
    using assms(1) by (auto simp: new_quota_buckets_def uncapped_def jmap_empty_def split: if_splits)
  then have "uncapped (qb_logs b)"
    unfolding assms(2) by (rule quotas.inv_run)
  moreover have "check_loop clock ctx (qb_dimensions b) [] jmap_empty (Some 0) (qb_logs b) = (qb_logs b', Inr r)"
    using assms(3) by (auto simp: quota_check_def Let_def split: prod.splits)
  ultimately show ?thesis
    using check_loop_refused [OF _ assms(4) _ assms(5), of ctx _ "[]"] by (simp add: take_back_def)
qed

definition two_quotas :: "jstring quota_dimension list" where
  "two_quotas =
     [\<lparr>qd_name = js ''ip'', qd_keyOf = Some, qd_capacity = 5, qd_windowMs = 1000\<rparr>,
      \<lparr>qd_name = js ''route'', qd_keyOf = (\<lambda>_. Some (js ''all'')), qd_capacity = 1, qd_windowMs = 1000\<rparr>]"

theorem refusal_consumes_nothing_witness:
  "\<exists>b0 b' r. new_quota_buckets two_quotas = Inr b0 \<and>
     quota_check (\<lambda>_. 70) (js ''me'') (foldl quota_step b0 [Check (\<lambda>_. 50) (js ''me'')]) = (b', Inr r) \<and> qr_deniedBy r = Some (js ''route'') \<and>
     quota_used 70 (qb_logs b') (js ''ip:me'') = quota_used 70 (qb_logs (foldl quota_step b0 [Check (\<lambda>_. 50) (js ''me'')])) (js ''ip:me'')"
proof -
  let ?ctx = "js ''me''"
  obtain b0 where b0: "new_quota_buckets two_quotas = Inr b0"
    by (simp add: new_quota_buckets_def two_quotas_def)
  let ?b = "foldl quota_step b0 [Check (\<lambda>_. 50) ?ctx]"
  obtain b' res where check: "quota_check (\<lambda>_. 70) ?ctx ?b = (b', res)"
    by fastforce
  have "\<exists>r. res = Inr r \<and> \<not> qr_allowed r \<and> qr_deniedBy r = Some (js ''route'')"
    using check b0
    by (auto simp: new_quota_buckets_def two_quotas_def quota_step_def quota_check_def key_for_def logFor_def new_window_log_def
        window_hit_def trim_log_def log_of_def put_log_def resetIn_def take_back_def unhit_def jmap_get_def jmap_set_def jmap_empty_def
        js_append [symmetric] Let_def)
  then obtain r where r: "res = Inr r" "\<not> qr_allowed r" "qr_deniedBy r = Some (js ''route'')"
    by blast
  from refusal_consumes_nothing [OF b0 refl check [unfolded r(1)] r(2), of 70 "js ''ip:me''"] b0 check r show ?thesis
    by simp
qed

end
