(* ===== verification/HashRing.thy ===== *)
theory HashRing
  imports Complex_Main Interfaces
begin

text \<open>
  Consistent hashing, \<open>layers/cache/engine/ConsistentHashRing.ts\<close> with \<open>fnv1a32\<close> of \<open>types.ts\<close>: nodes are placed at many
  points of a ring of 32-bit hashes, a key belongs to the first points clockwise. Weights are rational numbers, the number
  of replicas a whole one.
\<close>

section \<open>The hash\<close>

definition fnv_step :: "32 word \<Rightarrow> 16 word \<Rightarrow> 32 word" where
  "fnv_step h c =
     (let h = h XOR ucast c
      in h + (push_bit 1 h + push_bit 4 h + push_bit 7 h + push_bit 8 h + push_bit 24 h))"

definition fnv1a32 :: "jstring \<Rightarrow> 32 word" where
  "fnv1a32 input = foldl fnv_step 0x811c9dc5 input"

section \<open>The ring\<close>

record ring_node =
  rn_id :: jstring
  rn_weight :: "rat option"

record ring_point =
  rg_hash :: "32 word"
  rg_nodeId :: jstring

record hash_ring =
  hr_replicas :: nat
  hr_points :: "ring_point list"
  hr_nodes :: "(jstring, nat) jmap"

definition new_ring_of :: "int option \<Rightarrow> hash_ring" where
  "new_ring_of replicas =
     \<lparr>hr_replicas = nat (max 1 (case replicas of Some r \<Rightarrow> r | None \<Rightarrow> 160)), hr_points = [], hr_nodes = jmap_empty\<rparr>"

text \<open>\<open>Math.round\<close> rounds a half up.\<close>

definition js_round :: "rat \<Rightarrow> int" where
  "js_round x = \<lfloor>x + 1 / 2\<rfloor>"

definition points_of :: "jstring \<Rightarrow> nat \<Rightarrow> ring_point list" where
  "points_of nid count = map (\<lambda>i. \<lparr>rg_hash = fnv1a32 (nid @ js ''#'' @ js_nat i), rg_nodeId = nid\<rparr>) [0..<count]"

definition ring_add :: "ring_node \<Rightarrow> hash_ring \<Rightarrow> hash_ring" where
  "ring_add node r =
     (let weight = nat (max 1 (js_round (case rn_weight node of Some w \<Rightarrow> w | None \<Rightarrow> 1))) in
      if jmap_has (hr_nodes r) (rn_id node) then r
      else r\<lparr>hr_nodes := jmap_set (rn_id node) weight (hr_nodes r),
             hr_points := sort_key rg_hash (hr_points r @ points_of (rn_id node) (hr_replicas r * weight))\<rparr>)"

definition ring_remove :: "jstring \<Rightarrow> hash_ring \<Rightarrow> hash_ring \<times> bool" where
  "ring_remove nodeId r =
     (if \<not> jmap_has (hr_nodes r) nodeId then (r, False)
      else (r\<lparr>hr_nodes := jmap_delete nodeId (hr_nodes r), hr_points := filter (\<lambda>p. rg_nodeId p \<noteq> nodeId) (hr_points r)\<rparr>, True))"

function search_point :: "ring_point list \<Rightarrow> 32 word \<Rightarrow> nat \<Rightarrow> nat \<Rightarrow> nat" where
  "search_point ps h lo hi =
     (if lo < hi then
        let mid = (lo + hi) div 2
        in if rg_hash (ps ! mid) < h then search_point ps h (mid + 1) hi else search_point ps h lo mid
      else lo)"
  by pat_completeness auto

termination search_point
  by (relation "measure (\<lambda>(ps, h, lo, hi). hi - lo)") auto

declare search_point.simps [simp del]

definition lowerBound :: "32 word \<Rightarrow> hash_ring \<Rightarrow> nat" where
  "lowerBound h r =
     (let lo = search_point (hr_points r) h 0 (length (hr_points r)) in if lo = length (hr_points r) then 0 else lo)"

fun walk_ring :: "ring_point list \<Rightarrow> nat \<Rightarrow> nat \<Rightarrow> int \<Rightarrow> jstring jset \<Rightarrow> jstring list \<Rightarrow> jstring list" where
  "walk_ring ps i 0 count seen out = out"
| "walk_ring ps i (Suc n) count seen out =
     (if int (length out) < count then
        let p = ps ! i;
            (seen, out) = (if \<not> jset_has seen (rg_nodeId p) then (jset_add (rg_nodeId p) seen, out @ [rg_nodeId p]) else (seen, out))
        in walk_ring ps ((i + 1) mod length ps) n count seen out
      else out)"

definition owners :: "jstring \<Rightarrow> int \<Rightarrow> hash_ring \<Rightarrow> jstring list" where
  "owners key count r =
     (if length (hr_points r) = 0 \<or> count \<le> 0 then []
      else walk_ring (hr_points r) (lowerBound (fnv1a32 key) r) (length (hr_points r)) count [] [])"

definition owner :: "jstring \<Rightarrow> hash_ring \<Rightarrow> jstring option" where
  "owner key r = (let n = owners key 1 r in if length n > 0 then Some (n ! 0) else None)"

definition distribution :: "jstring list \<Rightarrow> hash_ring \<Rightarrow> (jstring, nat) jmap" where
  "distribution sampleKeys r =
     foldl (\<lambda>counts k.
         case owner k r of
           None \<Rightarrow> counts
         | Some o' \<Rightarrow> jmap_set o' ((case jmap_get counts o' of Some n \<Rightarrow> n | None \<Rightarrow> 0) + 1) counts)
       jmap_empty sampleKeys"

definition ownership :: "jstring \<Rightarrow> hash_ring \<Rightarrow> rat" where
  "ownership nodeId r =
     (if length (hr_points r) = 0 then 0
      else of_nat (length (filter (\<lambda>p. rg_nodeId p = nodeId) (hr_points r))) / of_nat (length (hr_points r)))"

definition ring_nodeIds :: "hash_ring \<Rightarrow> jstring list" where
  "ring_nodeIds r = jmap_keys (hr_nodes r)"

definition ring_size :: "hash_ring \<Rightarrow> nat" where
  "ring_size r = length (hr_nodes r)"

section \<open>Rings that were built\<close>

datatype ring_op = AddNode ring_node | RemoveNode jstring

fun ring_step :: "hash_ring \<Rightarrow> ring_op \<Rightarrow> hash_ring" where
  "ring_step r (AddNode node) = ring_add node r"
| "ring_step r (RemoveNode nid) = fst (ring_remove nid r)"

definition ring_ok :: "hash_ring \<Rightarrow> bool" where
  "ring_ok r \<longleftrightarrow> 0 < hr_replicas r \<and> jmap_wf (hr_nodes r) \<and> sorted (map rg_hash (hr_points r)) \<and>
     rg_nodeId ` set (hr_points r) = set (ring_nodeIds r)"

lemma set_points_of: "rg_nodeId ` set (points_of nid n) = (if n = 0 then {} else {nid})"
  by (auto simp: points_of_def image_image)

lemma ring_ok_add: "ring_ok r \<Longrightarrow> ring_ok (ring_add node r)"
  by (auto simp: ring_add_def ring_ok_def Let_def ring_nodeIds_def jmap_keys_set image_Un set_points_of)

lemma ring_ok_remove: "ring_ok r \<Longrightarrow> ring_ok (fst (ring_remove nid r))"
proof -
  assume ok: "ring_ok r"
  have "rg_nodeId ` {p \<in> set (hr_points r). rg_nodeId p \<noteq> nid} = set (ring_nodeIds r) - {nid}"
    using ok by (auto simp: ring_ok_def)
  moreover have "set (jmap_keys (jmap_delete nid (hr_nodes r))) = set (jmap_keys (hr_nodes r)) - {nid}"
    by (simp add: jmap_keys_def jmap_delete_def AList.delete_eq) (auto simp: image_iff)
  moreover have "sorted (map rg_hash (filter (\<lambda>p. rg_nodeId p \<noteq> nid) (hr_points r)))"
    using ok by (simp add: ring_ok_def sorted_filter)
  ultimately show ?thesis
    using ok by (simp add: ring_remove_def ring_ok_def ring_nodeIds_def)
qed

interpretation rings: invariant_machine ring_step ring_ok
proof
  show "ring_ok r \<Longrightarrow> ring_ok (ring_step r op)" for r op
    by (cases op) (simp_all add: ring_ok_add ring_ok_remove)
qed

lemma ring_ok_new: "ring_ok (new_ring_of replicas)"
  by (auto simp: ring_ok_def new_ring_of_def ring_nodeIds_def jmap_empty_def jmap_keys_def jmap_wf_def)

section \<open>The order of preference\<close>

text \<open>
  The points clockwise from a hash, each node once: the specification of \<open>owners\<close>, by filters over the sorted points instead
  of a binary search and a walk.
\<close>

definition clockwise :: "32 word \<Rightarrow> ring_point list \<Rightarrow> ring_point list" where
  "clockwise h ps = filter (\<lambda>p. h \<le> rg_hash p) ps @ filter (\<lambda>p. rg_hash p < h) ps"

definition firsts :: "'a list \<Rightarrow> 'a list" where
  "firsts xs = foldl (\<lambda>s x. jset_add x s) [] xs"

definition preference :: "jstring \<Rightarrow> hash_ring \<Rightarrow> jstring list" where
  "preference key r = firsts (map rg_nodeId (clockwise (fnv1a32 key) (hr_points r)))"

lemma sorted_nth_hash: "sorted (map rg_hash ps) \<Longrightarrow> i \<le> j \<Longrightarrow> j < length ps \<Longrightarrow> rg_hash (ps ! i) \<le> rg_hash (ps ! j)"
  using sorted_nth_mono [of "map rg_hash ps" i j] by simp

lemma search_point_spec:
  assumes "sorted (map rg_hash ps)" and "lo \<le> hi" and "hi \<le> length ps"
    and "\<forall>i < lo. rg_hash (ps ! i) < h" and "\<forall>i. hi \<le> i \<and> i < length ps \<longrightarrow> h \<le> rg_hash (ps ! i)"
  shows "search_point ps h lo hi \<le> length ps \<and> (\<forall>i < search_point ps h lo hi. rg_hash (ps ! i) < h)
     \<and> (\<forall>i. search_point ps h lo hi \<le> i \<and> i < length ps \<longrightarrow> h \<le> rg_hash (ps ! i))"
  using assms
proof (induction ps h lo hi rule: search_point.induct)
  case (1 ps h lo hi)
  show ?case
  proof (cases "lo < hi")
    case True
    let ?mid = "(lo + hi) div 2"
    have mid: "lo \<le> ?mid" "?mid < hi" "?mid < length ps"
      using True 1(5) by auto
    show ?thesis
    proof (cases "rg_hash (ps ! ?mid) < h")
      case below: True
      have "\<forall>i < ?mid + 1. rg_hash (ps ! i) < h"
      proof (intro allI impI)
        fix i
        assume "i < ?mid + 1"
        then have "rg_hash (ps ! i) \<le> rg_hash (ps ! ?mid)"
          using sorted_nth_hash [OF 1(3)] mid(3) by simp
        then show "rg_hash (ps ! i) < h"
          using below by simp
      qed
      moreover have "search_point ps h lo hi = search_point ps h (?mid + 1) hi"
        using True below by (simp add: search_point.simps [of ps h lo hi] Let_def)
      ultimately show ?thesis
        using 1(1) [OF True refl below 1(3) _ 1(5) _ 1(7)] mid by simp
    next
      case above: False
      have "\<forall>i. ?mid \<le> i \<and> i < length ps \<longrightarrow> h \<le> rg_hash (ps ! i)"
      proof (intro allI impI)
        fix i
        assume i: "?mid \<le> i \<and> i < length ps"
        then have "rg_hash (ps ! ?mid) \<le> rg_hash (ps ! i)"
          using sorted_nth_hash [OF 1(3)] by simp
        then show "h \<le> rg_hash (ps ! i)"
          using above by simp
      qed
      moreover have "search_point ps h lo hi = search_point ps h lo ?mid"
        using True above by (simp add: search_point.simps [of ps h lo hi] Let_def)
      ultimately show ?thesis
        using 1(2) [OF True refl above 1(3) _ _ 1(6)] mid by simp
    qed
  next
    case False
    then have "search_point ps h lo hi = lo"
      by (simp only: search_point.simps [of ps h lo hi] if_False)
    moreover have "lo = hi"
      using False 1(4) by simp
    ultimately show ?thesis
      using 1(5-7) by simp
  qed
qed

text \<open>Walking clockwise from the lower bound.\<close>

lemma sorted_filter_split:
  assumes "n \<le> length ps" and "\<forall>i < n. rg_hash (ps ! i) < h" and "\<forall>i. n \<le> i \<and> i < length ps \<longrightarrow> h \<le> rg_hash (ps ! i)"
  shows "filter (\<lambda>p. rg_hash p < h) ps = take n ps \<and> filter (\<lambda>p. h \<le> rg_hash p) ps = drop n ps"
proof -
  have low: "rg_hash p < h" if "p \<in> set (take n ps)" for p
    using that assms(2) by (auto simp: in_set_conv_nth)
  have high: "h \<le> rg_hash p" if p: "p \<in> set (drop n ps)" for p
  proof -
    obtain i where "i < length (drop n ps)" "p = drop n ps ! i"
      using p by (auto simp: in_set_conv_nth)
    then show ?thesis
      using assms(3) by simp
  qed
  have "filter (\<lambda>p. rg_hash p < h) (take n ps @ drop n ps) = take n ps"
    unfolding filter_append using low high by (simp add: filter_empty_conv not_less)
  moreover have "filter (\<lambda>p. h \<le> rg_hash p) (take n ps @ drop n ps) = drop n ps"
    unfolding filter_append using low high by (simp add: filter_empty_conv not_le)
  ultimately show ?thesis
    by simp
qed

lemma clockwise_from_bound:
  assumes "sorted (map rg_hash (hr_points r))" and "hr_points r \<noteq> []"
  shows "lowerBound h r < length (hr_points r)"
    and "clockwise h (hr_points r) = drop (lowerBound h r) (hr_points r) @ take (lowerBound h r) (hr_points r)"
proof -
  let ?n = "search_point (hr_points r) h 0 (length (hr_points r))"
  have "?n \<le> length (hr_points r) \<and> (\<forall>i < ?n. rg_hash (hr_points r ! i) < h)
      \<and> (\<forall>i. ?n \<le> i \<and> i < length (hr_points r) \<longrightarrow> h \<le> rg_hash (hr_points r ! i))"
    by (rule search_point_spec [OF assms(1)]) auto
  then have n: "?n \<le> length (hr_points r)" "\<forall>i < ?n. rg_hash (hr_points r ! i) < h"
      "\<forall>i. ?n \<le> i \<and> i < length (hr_points r) \<longrightarrow> h \<le> rg_hash (hr_points r ! i)"
    by blast+
  show "lowerBound h r < length (hr_points r)"
    using n(1) assms(2) by (simp add: lowerBound_def Let_def)
  show "clockwise h (hr_points r) = drop (lowerBound h r) (hr_points r) @ take (lowerBound h r) (hr_points r)"
    using sorted_filter_split [OF n] n(1) by (simp add: clockwise_def lowerBound_def Let_def)
qed

text \<open>What the walk has gathered after some steps: the nodes of the points it has passed, until there are enough.\<close>

lemma firsts_snoc: "firsts (xs @ [x]) = jset_add x (firsts xs)"
  by (simp add: firsts_def)

lemma take_firsts_snoc:
  "int (length (firsts xs)) \<ge> count \<Longrightarrow> take (nat count) (firsts (xs @ ys)) = take (nat count) (firsts xs)"
proof (induction ys rule: rev_induct)
  case (snoc y ys)
  have "length (firsts xs) \<le> length (firsts (xs @ ys))"
    by (induction ys rule: rev_induct) (auto simp: append_assoc [symmetric] firsts_snoc jset_add_def simp del: append_assoc)
  then have "nat count \<le> length (firsts (xs @ ys))"
    using snoc.prems by linarith
  then show ?case
    using snoc by (auto simp: append_assoc [symmetric] firsts_snoc jset_add_def simp del: append_assoc)
qed simp

lemma walk_ring_firsts:
  assumes "i < length ps" and "drop k (drop j ps @ take j ps) = rest" and "i = (j + k) mod length ps" and "j < length ps"
    and "n = length rest" and "k + n = length ps" and "0 < count"
    and "out = firsts (map rg_nodeId (take k (drop j ps @ take j ps)))" and "int (length out) \<le> count"
  shows "walk_ring ps i n count out out = take (nat count) (firsts (map rg_nodeId (drop j ps @ take j ps)))"
  using assms
proof (induction n arbitrary: i k rest out)
  case 0
  then show ?case
    by simp
next
  case (Suc n)
  let ?all = "drop j ps @ take j ps"
  have k: "k < length ps" "length ?all = length ps"
    using Suc.prems by auto
  have split: "map rg_nodeId ?all = map rg_nodeId (take k ?all) @ map rg_nodeId (drop k ?all)"
    by (metis append_take_drop_id map_append)
  show ?case
  proof (cases "int (length out) < count")
    case False
    then have "walk_ring ps i (Suc n) count out out = out"
      by simp
    moreover have "take (nat count) (firsts (map rg_nodeId ?all)) = take (nat count) out"
      unfolding split Suc.prems(8) using False Suc.prems(8)
      by (intro take_firsts_snoc) (simp only: not_less)
    ultimately show ?thesis
      using False Suc.prems(9) by simp
  next
    case True
    have here: "ps ! i = ?all ! k"
      using Suc.prems(3,4) k by (auto simp: nth_append mod_if add.commute)
    then have "take (Suc k) ?all = take k ?all @ [ps ! i]"
      using take_Suc_conv_app_nth [of k ?all] k by (simp only:)
    then have out': "jset_add (rg_nodeId (ps ! i)) out = firsts (map rg_nodeId (take (Suc k) ?all))"
      unfolding Suc.prems(8) by (simp only: map_append list.map firsts_snoc)
    have "walk_ring ps i (Suc n) count out out =
        walk_ring ps ((i + 1) mod length ps) n count (jset_add (rg_nodeId (ps ! i)) out) (jset_add (rg_nodeId (ps ! i)) out)"
      using True by (simp add: jset_add_def Let_def)
    also have "\<dots> = take (nat count) (firsts (map rg_nodeId ?all))"
    proof (rule Suc.IH [of _ "Suc k" "drop (Suc k) ?all"])
      show "(i + 1) mod length ps = (j + Suc k) mod length ps"
        using Suc.prems(3) by (simp add: mod_Suc_eq)
      show "(i + 1) mod length ps < length ps"
        using k(1) by (intro mod_less_divisor) linarith
      show "int (length (jset_add (rg_nodeId (ps ! i)) out)) \<le> count"
        using True by (simp add: jset_add_def)
    qed (use Suc.prems k out' in auto)
    finally show ?thesis .
  qed
qed

lemma owners_preference:
  assumes "ring_ok r"
  shows "owners key count r = take (nat count) (preference key r)"
proof (cases "length (hr_points r) = 0 \<or> count \<le> 0")
  case True
  then show ?thesis
    by (auto simp: owners_def preference_def clockwise_def firsts_def)
next
  case False
  let ?j = "lowerBound (fnv1a32 key) r"
  have sorted: "sorted (map rg_hash (hr_points r))"
    using assms by (simp add: ring_ok_def)
  have j: "?j < length (hr_points r)"
      "clockwise (fnv1a32 key) (hr_points r) = drop ?j (hr_points r) @ take ?j (hr_points r)"
    using clockwise_from_bound [OF sorted] False by auto
  have "walk_ring (hr_points r) ?j (length (hr_points r)) count [] [] =
      take (nat count) (firsts (map rg_nodeId (drop ?j (hr_points r) @ take ?j (hr_points r))))"
    by (rule walk_ring_firsts [where k = 0, OF j(1) refl]) (use j(1) False in \<open>auto simp: firsts_def\<close>)
  then show ?thesis
    using False j(2) by (simp add: owners_def preference_def)
qed

section \<open>Who owns a key\<close>

lemma firsts_Nil [simp]: "firsts [] = []"
  by (simp add: firsts_def)

lemma set_firsts: "set (firsts xs) = set xs"
  by (induction xs rule: rev_induct) (simp_all add: firsts_snoc)

lemma distinct_firsts: "distinct (firsts xs)"
  by (induction xs rule: rev_induct) (simp_all add: firsts_snoc)

lemma firsts_filter: "firsts (filter P xs) = filter P (firsts xs)"
  by (induction xs rule: rev_induct) (auto simp: firsts_snoc jset_add_def jset_has_def set_firsts)

lemma set_clockwise: "set (clockwise h ps) = set ps"
  by (auto simp: clockwise_def)

lemma ring_reachable: "ring_ok (foldl ring_step (new_ring_of replicas) ops)"
  by (rule rings.inv_run [OF ring_ok_new])

lemma set_preference: "ring_ok r \<Longrightarrow> set (preference key r) = set (ring_nodeIds r)"
  by (simp add: preference_def set_firsts set_clockwise ring_ok_def)

text \<open>
  Whatever nodes came and went, the owners of a key are the first nodes met clockwise from the key's hash, each once,
  as many as were asked for; and the whole walk meets every node of the ring.
\<close>

theorem owners_are_first_clockwise:
  "owners key count (foldl ring_step (new_ring_of replicas) ops) =
     take (nat count) (preference key (foldl ring_step (new_ring_of replicas) ops))
   \<and> distinct (preference key (foldl ring_step (new_ring_of replicas) ops))
   \<and> set (preference key (foldl ring_step (new_ring_of replicas) ops)) = set (ring_nodeIds (foldl ring_step (new_ring_of replicas) ops))"
  using owners_preference [OF ring_reachable] set_preference [OF ring_reachable]
  by (simp add: preference_def distinct_firsts)

lemma clockwise_filter: "clockwise h (filter P ps) = filter P (clockwise h ps)"
  by (simp add: clockwise_def conj_commute)

lemma preference_filter:
  assumes "hr_points r' = filter (\<lambda>p. rg_nodeId p \<noteq> n) (hr_points r)"
  shows "preference key r' = filter (\<lambda>x. x \<noteq> n) (preference key r)"
proof -
  have maps: "map rg_nodeId (filter (\<lambda>p. rg_nodeId p \<noteq> n) ps) = filter (\<lambda>x. x \<noteq> n) (map rg_nodeId ps)" for ps
    by (simp add: filter_map comp_def)
  show ?thesis
    unfolding preference_def assms clockwise_filter maps firsts_filter ..
qed

lemma preference_remove: "preference key (fst (ring_remove n r)) = filter (\<lambda>x. x \<noteq> n) (preference key r)" if "ring_ok r"
proof (cases "jmap_has (hr_nodes r) n")
  case True
  then show ?thesis
    by (intro preference_filter) (simp add: ring_remove_def)
next
  case False
  then have "filter (\<lambda>p. rg_nodeId p \<noteq> n) (hr_points r) = hr_points r"
    using that set_jmap_keys [of "hr_nodes r"] by (auto simp: ring_ok_def ring_nodeIds_def filter_id_conv)
  then show ?thesis
    using False by (intro preference_filter) (simp add: ring_remove_def)
qed

text \<open>A new node's points are all that is new: without them the ring is the old one, equal hashes included.\<close>

lemma points_before_add:
  assumes "ring_ok r"
  shows "filter (\<lambda>p. rg_nodeId p \<noteq> rn_id node) (hr_points (ring_add node r)) = filter (\<lambda>p. rg_nodeId p \<noteq> rn_id node) (hr_points r)"
proof (cases "jmap_has (hr_nodes r) (rn_id node)")
  case False
  let ?P = "\<lambda>p. rg_nodeId p \<noteq> rn_id node"
  have "filter ?P (points_of (rn_id node) n) = []" for n
    by (simp add: points_of_def filter_empty_conv)
  moreover have "sort_key rg_hash (filter ?P (hr_points r)) = filter ?P (hr_points r)"
    using assms by (intro sort_key_id_if_sorted) (simp add: ring_ok_def sorted_filter)
  ultimately show ?thesis
    using False by (simp add: ring_add_def filter_sort Let_def)
qed (simp add: ring_add_def)

lemma preference_add:
  assumes "ring_ok r"
  shows "filter (\<lambda>x. x \<noteq> rn_id node) (preference key (ring_add node r)) = filter (\<lambda>x. x \<noteq> rn_id node) (preference key r)"
  using preference_filter [of "r\<lparr>hr_points := filter (\<lambda>p. rg_nodeId p \<noteq> rn_id node) (hr_points r)\<rparr>" "rn_id node" r key]
    preference_filter [of "r\<lparr>hr_points := filter (\<lambda>p. rg_nodeId p \<noteq> rn_id node) (hr_points r)\<rparr>" "rn_id node" "ring_add node r" key]
    points_before_add [OF assms] by simp

lemma owner_preference: "ring_ok r \<Longrightarrow> owner key r = (case preference key r of [] \<Rightarrow> None | n # _ \<Rightarrow> Some n)"
  by (auto simp: owner_def owners_preference split: list.split)

lemma take_filter_one: "distinct xs \<Longrightarrow> take m (filter (\<lambda>x. x \<noteq> n) (take (Suc m) xs)) = take m (filter (\<lambda>x. x \<noteq> n) xs)"
proof (induction xs arbitrary: m)
  case (Cons x xs)
  show ?case
  proof (cases "x = n")
    case True
    then have "filter (\<lambda>x. x \<noteq> n) xs = xs" "filter (\<lambda>x. x \<noteq> n) (take m xs) = take m xs"
      using Cons.prems set_take_subset [of m xs] by (auto simp: filter_id_conv)
    then show ?thesis
      using True by simp
  next
    case False
    then show ?thesis
      using Cons by (cases m) simp_all
  qed
qed simp

lemma owners_remove:
  assumes "ring_ok r"
  shows "owners key k (fst (ring_remove n r)) = take (nat k) (filter (\<lambda>x. x \<noteq> n) (owners key (k + 1) r))"
proof (cases "0 \<le> k")
  case True
  then have "nat (k + 1) = Suc (nat k)"
    by simp
  then show ?thesis
    using take_filter_one [of "preference key r" "nat k" n]
    by (simp add: owners_preference assms ring_ok_remove preference_remove) (simp add: preference_def distinct_firsts)
qed (simp add: owners_preference assms ring_ok_remove)

lemma owner_remove:
  assumes "ring_ok r"
  shows "owner key r \<in> {Some n, owner key (fst (ring_remove n r))}"
  using assms by (cases "preference key r") (auto simp: owner_preference ring_ok_remove preference_remove)

lemma owner_None: "ring_ok r \<Longrightarrow> (owner key r = None) = (ring_size r = 0)"
proof -
  assume ok: "ring_ok r"
  have "preference key r = [] \<longleftrightarrow> ring_nodeIds r = []"
    using set_preference [OF ok, of key] by (metis set_empty)
  then show "(owner key r = None) = (ring_size r = 0)"
    using ok by (cases "preference key r") (simp_all add: owner_preference ring_size_def ring_nodeIds_def jmap_keys_def)
qed

text \<open>
  C21: after any additions and removals a lookup gives the first nodes clockwise from the key's hash, and some node whenever there is
  one. When a node is removed, the nodes of every key are those it had, in the same order, with that node left out, so a key owned by
  another node stays where it was. When a node is added, the nodes of every key are, apart from the new one, those it had and in
  the same order, so a key stays where it was or goes to the new node.
\<close>

theorem ring_minimal_disruption:
  "let r = foldl ring_step (new_ring_of replicas) ops in
   owners key k r = take (nat k) (preference key r)
   \<and> owner key r = (case preference key r of [] \<Rightarrow> None | first # _ \<Rightarrow> Some first) \<and> (owner key r = None) = (ring_size r = 0)
   \<and> owners key k (fst (ring_remove n r)) = take (nat k) (filter (\<lambda>x. x \<noteq> n) (owners key (k + 1) r))
   \<and> owner key r \<in> {Some n, owner key (fst (ring_remove n r))}
   \<and> take (nat k) (filter (\<lambda>x. x \<noteq> rn_id node) (owners key (k + 1) (ring_add node r))) =
       take (nat k) (filter (\<lambda>x. x \<noteq> rn_id node) (owners key (k + 1) r))
   \<and> owner key (ring_add node r) \<in> {owner key r, Some (rn_id node)}"
proof -
  define r where "r = foldl ring_step (new_ring_of replicas) ops"
  have ok: "ring_ok r" and ok': "ring_ok (ring_add node r)"
    unfolding r_def using ring_reachable ring_ok_add by blast+
  have same: "preference key (fst (ring_remove (rn_id node) (ring_add node r))) = preference key (fst (ring_remove (rn_id node) r))"
    by (simp add: preference_remove ok ok' preference_add)
  then have "owners key k (fst (ring_remove (rn_id node) (ring_add node r))) = owners key k (fst (ring_remove (rn_id node) r))"
    by (simp add: owners_preference ring_ok_remove ok ok')
  moreover have "owner key (ring_add node r) \<in> {owner key r, Some (rn_id node)}"
  proof (cases "jmap_has (hr_nodes r) (rn_id node)")
    case True
    then show ?thesis
      by (simp add: ring_add_def)
  next
    case False
    then have "fst (ring_remove (rn_id node) r) = r"
      by (simp add: ring_remove_def)
    then have "owner key (fst (ring_remove (rn_id node) (ring_add node r))) = owner key r"
      using same by (simp add: owner_preference ring_ok_remove ok ok')
    then show ?thesis
      using owner_remove [OF ok', of key "rn_id node"] by auto
  qed
  ultimately show ?thesis
    using owners_preference [OF ok] owner_preference [OF ok] owner_None [OF ok] owners_remove [OF ok] owners_remove [OF ok'] owner_remove [OF ok]
    unfolding r_def [symmetric] Let_def by simp
qed

end
