(* ===== verification/BloomFilter.thy ===== *)
theory BloomFilter
  imports HashRing
begin

text \<open>
  \<open>layers/cache/engine/BloomFilter.ts\<close>: a Bloom filter with 4-bit counters, two to a byte, so that keys can be taken out
  again. The sizes that the constructor computes with floating-point logarithms are arguments.
\<close>

section \<open>The filter\<close>

record bloom_filter =
  bf_cells :: nat
  bf_hashCount :: nat
  bf_packed :: "byte list"
  bf_count :: nat

definition MAX_CELL :: int where
  "MAX_CELL = 15"

definition new_bloom :: "int \<Rightarrow> int \<Rightarrow> bloom_filter" where
  "new_bloom sizedCells sizedHashes =
     (let cells = nat (max 8 sizedCells)
      in \<lparr>bf_cells = cells, bf_hashCount = nat (max 1 sizedHashes), bf_packed = replicate ((cells + 1) div 2) 0, bf_count = 0\<rparr>)"

definition getCell :: "byte list \<Rightarrow> nat \<Rightarrow> nat" where
  "getCell packed i =
     (let b = packed ! (i div 2) in unat (if i mod 2 = 0 then b AND 0x0f else (drop_bit 4 b) AND 0x0f))"

definition setCell :: "nat \<Rightarrow> int \<Rightarrow> byte list \<Rightarrow> byte list" where
  "setCell i v packed =
     (let idx = i div 2;
          clamped = (word_of_int (min MAX_CELL (max 0 v)) :: byte)
      in if i mod 2 = 0 then packed[idx := (packed ! idx AND 0xf0) OR clamped]
         else packed[idx := (packed ! idx AND 0x0f) OR push_bit 4 clamped])"

text \<open>
  \<open>%\<close> has the sign of its left operand; \<open>| 1\<close> gives a signed 32-bit integer. The products stay far below \<open>2 ^ 53\<close>: the
  constructor allows at most twenty hash functions.
\<close>

definition js_rem :: "int \<Rightarrow> int \<Rightarrow> int" where
  "js_rem a b = sgn a * (\<bar>a\<bar> mod \<bar>b\<bar>)"

definition positions :: "jstring \<Rightarrow> bloom_filter \<Rightarrow> nat list" where
  "positions key f =
     (let h1 = uint (fnv1a32 (js ''a:'' @ key));
          h2 = sint (fnv1a32 (js ''b:'' @ key) OR 1)
      in map (\<lambda>i. nat \<bar>js_rem (h1 + int i * h2) (int (bf_cells f))\<bar>) [0..<bf_hashCount f])"

definition bloom_add :: "jstring \<Rightarrow> bloom_filter \<Rightarrow> bloom_filter" where
  "bloom_add key f =
     f\<lparr>bf_packed := foldl (\<lambda>p i. setCell i (int (getCell p i) + 1) p) (bf_packed f) (positions key f),
       bf_count := bf_count f + 1\<rparr>"

definition bloom_delete :: "jstring \<Rightarrow> bloom_filter \<Rightarrow> bloom_filter \<times> bool" where
  "bloom_delete key f =
     (let pos = positions key f in
      if list_ex (\<lambda>i. getCell (bf_packed f) i = 0) pos then (f, False)
      else (f\<lparr>bf_packed := foldl (\<lambda>p i. setCell i (int (getCell p i) - 1) p) (bf_packed f) pos, bf_count := bf_count f - 1\<rparr>, True))"

definition maybePresent :: "jstring \<Rightarrow> bloom_filter \<Rightarrow> bool" where
  "maybePresent key f \<longleftrightarrow> \<not> list_ex (\<lambda>i. getCell (bf_packed f) i = 0) (positions key f)"

definition bloom_clear :: "bloom_filter \<Rightarrow> bloom_filter" where
  "bloom_clear f = f\<lparr>bf_packed := map (\<lambda>_. 0) (bf_packed f), bf_count := 0\<rparr>"

section \<open>The packed counters\<close>

lemma bit_low: "bit (15 :: int) n \<longleftrightarrow> n < 4"
proof -
  have "(15 :: int) = mask 4"
    by (simp add: mask_eq_exp_minus_1)
  then show ?thesis
    by (simp only: bit_mask_iff) auto
qed

lemma bit_high: "bit (240 :: int) n \<longleftrightarrow> 4 \<le> n \<and> n < 8"
proof -
  have "(240 :: int) = push_bit 4 (mask 4)"
    by (simp add: mask_eq_exp_minus_1 push_bit_eq_mult)
  then show ?thesis
    by (simp only: bit_push_bit_iff bit_mask_iff) auto
qed

lemma bit_nibble: "unat (c :: byte) < 16 \<Longrightarrow> bit c n \<Longrightarrow> n < 4"
proof -
  assume "unat c < 16"
  then have "take_bit 4 c = c"
    by (intro word_unat_eq_iff [THEN iffD2]) (simp add: unsigned_take_bit_eq take_bit_nat_eq_self)
  then show "bit c n \<Longrightarrow> n < 4"
    by (metis bit_take_bit_iff)
qed

lemma nibbles:
  fixes b c :: byte
  assumes "unat c < 16"
  shows "((b AND 0xf0) OR c) AND 0x0f = c"
    and "drop_bit 4 ((b AND 0xf0) OR c) AND 0x0f = drop_bit 4 b AND 0x0f"
    and "((b AND 0x0f) OR push_bit 4 c) AND 0x0f = b AND 0x0f"
    and "drop_bit 4 ((b AND 0x0f) OR push_bit 4 c) AND 0x0f = c"
  by (auto intro!: bit_word_eqI simp: bit_low bit_high bit_and_iff bit_or_iff bit_drop_bit_eq bit_push_bit_iff
      dest: bit_nibble [OF assms])

lemma length_setCell [simp]: "length (setCell i v packed) = length packed"
  by (simp add: setCell_def Let_def)

lemma getCell_setCell:
  assumes "i div 2 < length packed"
  shows "getCell (setCell i v packed) j = (if j = i then nat (min MAX_CELL (max 0 v)) else getCell packed j)"
proof -
  let ?n = "min MAX_CELL (max 0 v)"
  let ?c = "word_of_int ?n :: byte"
  have n: "0 \<le> ?n" "?n < 256" "?n < 16"
    by (simp_all add: MAX_CELL_def)
  then have "uint ?c = ?n"
    by (simp add: uint_word_of_int_eq take_bit_int_eq_self)
  then have c: "unat ?c = nat ?n"
    by (metis nat_uint_eq)
  then have small: "unat ?c < 16"
    using n(1,3) by linarith
  show ?thesis
  proof (cases "j div 2 = i div 2")
    case False
    then show ?thesis
      using assms by (auto simp: getCell_def setCell_def Let_def)
  next
    case True
    note nib = nibbles [OF small, of "packed ! (i div 2)"]
    show ?thesis
    proof (cases "j = i")
      case same: True
      have "getCell (setCell i v packed) i =
          unat (if i mod 2 = 0 then ((packed ! (i div 2) AND 0xf0) OR ?c) AND 0x0f
            else drop_bit 4 ((packed ! (i div 2) AND 0x0f) OR push_bit 4 ?c) AND 0x0f)"
        using assms by (simp add: getCell_def setCell_def Let_def)
      also have "\<dots> = nat ?n"
        unfolding nib(1,4) using c by (simp only: if_cancel)
      finally show ?thesis
        using same by simp
    next
      case other: False
      then have parity: "j mod 2 \<noteq> i mod 2"
        using True by (metis div_mult_mod_eq)
      show ?thesis
      proof (cases "i mod 2 = 0")
        case even: True
        then have "j mod 2 = 1"
          using parity by simp
        then have "getCell (setCell i v packed) j = unat (drop_bit 4 ((packed ! (i div 2) AND 0xf0) OR ?c) AND 0x0f)"
          using assms True even by (simp add: getCell_def setCell_def Let_def)
        also have "\<dots> = getCell packed j"
          unfolding nib(2) using True \<open>j mod 2 = 1\<close> by (simp add: getCell_def)
        finally show ?thesis
          using other by simp
      next
        case odd: False
        then have "j mod 2 = 0"
          using parity by simp
        then have "getCell (setCell i v packed) j = unat (((packed ! (i div 2) AND 0x0f) OR push_bit 4 ?c) AND 0x0f)"
          using assms True odd by (simp add: getCell_def setCell_def Let_def)
        also have "\<dots> = getCell packed j"
          unfolding nib(3) using True \<open>j mod 2 = 0\<close> by (simp add: getCell_def)
        finally show ?thesis
          using other by simp
      qed
    qed
  qed
qed

lemma getCell_bound: "getCell packed i < 16"
proof -
  have "b AND 0x0f = take_bit 4 b" for b :: byte
    by (simp add: take_bit_eq_mask mask_eq_exp_minus_1)
  moreover have "unat (take_bit 4 b) < 16" for b :: byte
    using take_bit_nat_less_exp [of 4 "unat b"] by (simp add: unsigned_take_bit_eq)
  ultimately show ?thesis
    by (simp add: getCell_def Let_def)
qed

text \<open>Counting up and down over a list of cells, repetitions included, when no counter is at its end.\<close>

lemma count_up:
  assumes "\<forall>i \<in> set is. i div 2 < length packed" and "\<forall>i \<in> set is. getCell packed i + count_list is i \<le> 15"
  shows "getCell (foldl (\<lambda>p i. setCell i (int (getCell p i) + 1) p) packed is) j = getCell packed j + count_list is j"
  using assms
proof (induction "is" arbitrary: packed)
  case (Cons i "is")
  let ?p = "setCell i (int (getCell packed i) + 1) packed"
  have p: "getCell ?p k = getCell packed k + (if k = i then 1 else 0)" for k
    using Cons.prems getCell_setCell [of i packed "int (getCell packed i) + 1" k] by (auto simp: MAX_CELL_def)
  have "getCell ?p k + count_list is k \<le> 15" if "k \<in> set is" for k
    using Cons.prems(2) that unfolding p by (auto split: if_splits)
  then show ?case
    using Cons.IH [of ?p] Cons.prems(1) p [of j] by simp
qed simp

lemma count_down:
  assumes "\<forall>i \<in> set is. i div 2 < length packed" and "\<forall>i \<in> set is. count_list is i \<le> getCell packed i"
  shows "getCell (foldl (\<lambda>p i. setCell i (int (getCell p i) - 1) p) packed is) j = getCell packed j - count_list is j"
  using assms
proof (induction "is" arbitrary: packed)
  case (Cons i "is")
  let ?p = "setCell i (int (getCell packed i) - 1) packed"
  have p: "getCell ?p k = getCell packed k - (if k = i then 1 else 0)" for k
    using Cons.prems getCell_setCell [of i packed "int (getCell packed i) - 1" k] getCell_bound [of packed i]
    by (auto simp: MAX_CELL_def min_def)
  have "count_list is k \<le> getCell ?p k" if "k \<in> set is" for k
    using Cons.prems(2) that unfolding p by (auto split: if_splits)
  then show ?case
    using Cons.IH [of ?p] Cons.prems(1) p [of j] by simp
qed simp

section \<open>What the counters count\<close>

text \<open>
  The contract: the filter stands for the multiset of the keys in it, and a cell for the number of their positions that fall
  on it. The flag stays true while no counter is full and only keys that are there are taken out.
\<close>

definition cell_load :: "bloom_filter \<Rightarrow> jstring list \<Rightarrow> nat \<Rightarrow> nat" where
  "cell_load f keys i = sum_list (map (\<lambda>k. count_list (positions k f) i) keys)"

datatype bloom_op = AddKey jstring | DeleteKey jstring | ClearFilter

type_synonym bloom_run = "bloom_filter \<times> jstring list \<times> bool"

definition bloom_step :: "bloom_run \<Rightarrow> bloom_op \<Rightarrow> bloom_run" where
  "bloom_step r op =
     (case r of (f, keys, ok) \<Rightarrow>
        case op of
          AddKey k \<Rightarrow> (bloom_add k f, k # keys, ok \<and> list_all (\<lambda>i. cell_load f (k # keys) i \<le> 15) (positions k f))
        | DeleteKey k \<Rightarrow> (fst (bloom_delete k f), remove1 k keys, ok \<and> k \<in> set keys)
        | ClearFilter \<Rightarrow> (bloom_clear f, [], ok))"

definition bloom_ok :: "bloom_filter \<Rightarrow> bool" where
  "bloom_ok f \<longleftrightarrow> 0 < bf_cells f \<and> length (bf_packed f) = (bf_cells f + 1) div 2"

definition bloom_inv :: "bloom_run \<Rightarrow> bool" where
  "bloom_inv r \<longleftrightarrow>
     (case r of (f, keys, ok) \<Rightarrow>
        bloom_ok f \<and> (ok \<longrightarrow> bf_count f = length keys \<and> (\<forall>i < bf_cells f. getCell (bf_packed f) i = cell_load f keys i)))"

lemma positions_range: "bloom_ok f \<Longrightarrow> i \<in> set (positions k f) \<Longrightarrow> i < bf_cells f \<and> i div 2 < length (bf_packed f)"
proof -
  assume f: "bloom_ok f" and "i \<in> set (positions k f)"
  then obtain x where "i = nat \<bar>js_rem x (int (bf_cells f))\<bar>"
    by (auto simp: positions_def Let_def)
  moreover have "\<bar>js_rem x (int (bf_cells f))\<bar> < int (bf_cells f)"
    using f by (simp add: js_rem_def bloom_ok_def abs_mult sgn_if)
  ultimately have "i < bf_cells f"
    by linarith
  then show ?thesis
    using f by (simp add: bloom_ok_def)
qed

lemma positions_fields:
  "positions k (f\<lparr>bf_packed := p, bf_count := n\<rparr>) = positions k f" "positions k (bloom_add k' f) = positions k f"
  "positions k (fst (bloom_delete k' f)) = positions k f" "positions k (bloom_clear f) = positions k f"
  by (simp_all add: positions_def bloom_add_def bloom_delete_def bloom_clear_def Let_def)

lemma load_fields:
  "cell_load (bloom_add k' f) = cell_load f" "cell_load (fst (bloom_delete k' f)) = cell_load f" "cell_load (bloom_clear f) = cell_load f"
  by (simp_all add: cell_load_def positions_fields fun_eq_iff)

lemma load_remove: "k \<in> set keys \<Longrightarrow> cell_load f keys i = count_list (positions k f) i + cell_load f (remove1 k keys) i"
  unfolding cell_load_def by (induction keys) auto

lemma bloom_ok_ops:
  "bloom_ok f \<Longrightarrow> bloom_ok (bloom_add k f)" "bloom_ok f \<Longrightarrow> bloom_ok (fst (bloom_delete k f))"
  "bloom_ok f \<Longrightarrow> bloom_ok (bloom_clear f)" "bloom_ok (new_bloom cells hashes)"
proof -
  have fold: "length (foldl (\<lambda>p i. setCell i (g p i) p) packed is) = length packed" for g packed "is"
    by (induction "is" arbitrary: packed) simp_all
  show "bloom_ok f \<Longrightarrow> bloom_ok (bloom_add k f)" "bloom_ok f \<Longrightarrow> bloom_ok (fst (bloom_delete k f))"
    "bloom_ok f \<Longrightarrow> bloom_ok (bloom_clear f)" "bloom_ok (new_bloom cells hashes)"
    by (simp_all add: bloom_ok_def bloom_add_def bloom_delete_def bloom_clear_def new_bloom_def fold Let_def)
qed

lemma bloom_inv_add:
  assumes "bloom_inv (f, keys, ok)"
  shows "bloom_inv (bloom_step (f, keys, ok) (AddKey k))"
proof -
  have f: "bloom_ok f"
    using assms by (simp add: bloom_inv_def)
  have "getCell (bf_packed (bloom_add k f)) j = cell_load f (k # keys) j"
    if ok and small: "list_all (\<lambda>i. cell_load f (k # keys) i \<le> 15) (positions k f)" and "j < bf_cells f" for j
  proof -
    have cells: "getCell (bf_packed f) i = cell_load f keys i" if "i < bf_cells f" for i
      using assms \<open>ok\<close> that by (simp add: bloom_inv_def)
    have "\<forall>i \<in> set (positions k f). getCell (bf_packed f) i + count_list (positions k f) i \<le> 15"
      using small cells positions_range [OF f] by (auto simp: list_all_iff cell_load_def add.commute)
    then have "getCell (bf_packed (bloom_add k f)) j = getCell (bf_packed f) j + count_list (positions k f) j"
      using count_up [of "positions k f" "bf_packed f" j] positions_range [OF f] by (simp add: bloom_add_def)
    then show ?thesis
      using cells [OF that(3)] by (simp add: cell_load_def)
  qed
  then show ?thesis
    using assms bloom_ok_ops(1) [OF f] by (auto simp: bloom_step_def bloom_inv_def load_fields) (simp_all add: bloom_add_def)
qed

lemma bloom_inv_delete:
  assumes "bloom_inv (f, keys, ok)"
  shows "bloom_inv (bloom_step (f, keys, ok) (DeleteKey k))"
proof -
  have f: "bloom_ok f"
    using assms by (simp add: bloom_inv_def)
  have "bf_count (fst (bloom_delete k f)) = length (remove1 k keys)
      \<and> (\<forall>j < bf_cells f. getCell (bf_packed (fst (bloom_delete k f))) j = cell_load f (remove1 k keys) j)"
    if ok and k: "k \<in> set keys"
  proof -
    have cells: "getCell (bf_packed f) i = cell_load f keys i" if "i < bf_cells f" for i
      using assms \<open>ok\<close> that by (simp add: bloom_inv_def)
    have enough: "\<forall>i \<in> set (positions k f). count_list (positions k f) i \<le> getCell (bf_packed f) i"
      using cells positions_range [OF f] load_remove [OF k, of f] by auto
    then have "\<not> list_ex (\<lambda>i. getCell (bf_packed f) i = 0) (positions k f)"
      by (fastforce simp: list_ex_iff count_list_0_iff)
    moreover have "getCell (foldl (\<lambda>p i. setCell i (int (getCell p i) - 1) p) (bf_packed f) (positions k f)) j =
        cell_load f (remove1 k keys) j" if "j < bf_cells f" for j
      using count_down [of "positions k f" "bf_packed f" j] enough positions_range [OF f] cells [OF that] load_remove [OF k, of f j]
      by auto
    ultimately show ?thesis
      using assms \<open>ok\<close> k by (simp add: bloom_delete_def bloom_inv_def length_remove1)
  qed
  then show ?thesis
    using assms bloom_ok_ops(2) [OF f, of k] by (auto simp: bloom_step_def bloom_inv_def load_fields) (simp_all add: bloom_delete_def Let_def split: if_splits)
qed

lemma getCell_zero: "i div 2 < n \<Longrightarrow> getCell (replicate n 0) i = 0"
  by (simp add: getCell_def)

interpretation blooms: invariant_machine bloom_step bloom_inv
proof
  fix r op
  assume r: "bloom_inv r"
  obtain f keys ok where eq: "r = (f, keys, ok)"
    by (metis prod.exhaust)
  show "bloom_inv (bloom_step r op)"
  proof (cases op)
    case ClearFilter
    have f: "bloom_ok f"
      using r eq by (simp add: bloom_inv_def)
    have "bf_packed (bloom_clear f) = replicate ((bf_cells f + 1) div 2) 0"
      using f by (simp add: bloom_clear_def bloom_ok_def map_replicate_const)
    then have "getCell (bf_packed (bloom_clear f)) i = 0" if "i < bf_cells f" for i
      using that by (simp add: getCell_zero)
    then show ?thesis
      using bloom_ok_ops(3) [OF f] unfolding eq ClearFilter
      by (simp add: bloom_step_def bloom_inv_def cell_load_def) (simp add: bloom_clear_def)
  qed (use r eq bloom_inv_add bloom_inv_delete in simp_all)
qed

lemma bloom_inv_new: "bloom_inv (new_bloom cells hashes, [], True)"
  using bloom_ok_ops(4) [of cells hashes]
  by (auto simp: bloom_inv_def cell_load_def) (auto simp: new_bloom_def getCell_zero Let_def)

lemma present_iff_covered:
  assumes "bloom_inv (f, keys, True)"
  shows "maybePresent k f \<longleftrightarrow> (\<forall>i \<in> set (positions k f). \<exists>k' \<in> set keys. i \<in> set (positions k' f))"
proof -
  have f: "bloom_ok f"
    using assms by (simp add: bloom_inv_def)
  have "getCell (bf_packed f) i \<noteq> 0 \<longleftrightarrow> (\<exists>k' \<in> set keys. i \<in> set (positions k' f))" if "i \<in> set (positions k f)" for i
    using assms positions_range [OF f that] by (auto simp: bloom_inv_def cell_load_def sum_list_eq_0_iff count_list_0_iff)
  then show ?thesis
    by (auto simp: maybePresent_def list_ex_iff)
qed

text \<open>
  C24: as long as no counter is ever full and only keys that are in the filter are taken out, a key is reported exactly when
  the keys in the filter cover all its cells; so no key that is in it is ever missed.
\<close>

theorem bloom_counts_exactly:
  assumes "foldl bloom_step (new_bloom cells hashes, [], True) ops = (f, keys, True)"
  shows "(maybePresent k f \<longleftrightarrow> (\<forall>i \<in> set (positions k f). \<exists>k' \<in> set keys. i \<in> set (positions k' f)))
     \<and> list_all (\<lambda>k. maybePresent k f) keys \<and> bf_count f = length keys"
proof -
  have inv: "bloom_inv (f, keys, True)"
    using blooms.inv_run [OF bloom_inv_new, of cells hashes ops] assms by simp
  then show ?thesis
    using present_iff_covered [OF inv] by (auto simp: list_all_iff bloom_inv_def)
qed

text \<open>
  Counters stop at fifteen: a key that was put in sixteen times is gone when it was taken out fifteen times, although it is
  still in.
\<close>

lemma one_position:
  assumes "bloom_ok f" and "bf_hashCount f = 1"
  obtains i where "positions k f = [i]" and "i div 2 < length (bf_packed f)"
proof -
  obtain i where i: "positions k f = [i]"
    using assms(2) by (simp add: positions_def Let_def)
  then show thesis
    using that positions_range [OF assms(1), of i k] by simp
qed

lemma packed_add: "positions k f = [i] \<Longrightarrow> bf_packed (bloom_add k f) = setCell i (int (getCell (bf_packed f) i) + 1) (bf_packed f)"
  by (simp add: bloom_add_def)

lemma packed_delete:
  "positions k f = [i] \<Longrightarrow> getCell (bf_packed f) i \<noteq> 0 \<Longrightarrow>
     bf_packed (fst (bloom_delete k f)) = setCell i (int (getCell (bf_packed f) i) - 1) (bf_packed f)"
  by (simp add: bloom_delete_def)

lemma adds_to:
  assumes "positions k f = [i]" and "i div 2 < length (bf_packed f)"
  shows "positions k (((bloom_add k) ^^ n) f) = [i] \<and> length (bf_packed (((bloom_add k) ^^ n) f)) = length (bf_packed f)
     \<and> getCell (bf_packed (((bloom_add k) ^^ n) f)) i = (if n = 0 then getCell (bf_packed f) i else min 15 (getCell (bf_packed f) i + n))"
proof (induction n)
  case (Suc n)
  let ?f = "((bloom_add k) ^^ n) f"
  have "bf_packed (bloom_add k ?f) = setCell i (int (getCell (bf_packed ?f) i) + 1) (bf_packed ?f)"
    using Suc.IH by (intro packed_add) blast
  then show ?case
    using Suc.IH assms getCell_setCell [of i "bf_packed ?f" "int (getCell (bf_packed ?f) i) + 1" i] getCell_bound [of "bf_packed f" i]
    by (auto simp: positions_fields MAX_CELL_def min_def)
qed (use assms in simp)

lemma deletes_from:
  assumes "positions k f = [i]" and "i div 2 < length (bf_packed f)" and "n \<le> getCell (bf_packed f) i"
  shows "positions k (((\<lambda>f. fst (bloom_delete k f)) ^^ n) f) = [i]
     \<and> length (bf_packed (((\<lambda>f. fst (bloom_delete k f)) ^^ n) f)) = length (bf_packed f)
     \<and> getCell (bf_packed (((\<lambda>f. fst (bloom_delete k f)) ^^ n) f)) i = getCell (bf_packed f) i - n"
  using assms(3)
proof (induction n)
  case (Suc n)
  let ?f = "((\<lambda>f. fst (bloom_delete k f)) ^^ n) f"
  have ih: "positions k ?f = [i]" "length (bf_packed ?f) = length (bf_packed f)" "getCell (bf_packed ?f) i = getCell (bf_packed f) i - n"
    using Suc by simp_all
  have "bf_packed (fst (bloom_delete k ?f)) = setCell i (int (getCell (bf_packed ?f) i) - 1) (bf_packed ?f)"
    using ih Suc.prems by (intro packed_delete) simp_all
  then show ?case
    using ih assms(2) Suc.prems getCell_setCell [of i "bf_packed ?f" "int (getCell (bf_packed ?f) i) - 1" i] getCell_bound [of "bf_packed f" i]
    by (auto simp: positions_fields MAX_CELL_def)
qed (use assms in simp)

theorem saturated_key_vanishes:
  "\<not> maybePresent k (((\<lambda>f. fst (bloom_delete k f)) ^^ 15) (((bloom_add k) ^^ 16) (new_bloom cells 1)))"
proof -
  let ?f = "new_bloom cells 1"
  have ok: "bloom_ok ?f" "bf_hashCount ?f = 1"
    using bloom_ok_ops(4) [of cells 1] by (simp_all add: new_bloom_def Let_def)
  obtain i where i: "positions k ?f = [i]" "i div 2 < length (bf_packed ?f)"
    by (rule one_position [OF ok])
  have zero: "getCell (bf_packed ?f) i = 0"
    using i(2) by (simp add: new_bloom_def getCell_zero Let_def)
  define full where "full = ((bloom_add k) ^^ 16) ?f"
  define gone where "gone = ((\<lambda>f. fst (bloom_delete k f)) ^^ 15) full"
  have up: "positions k full = [i]" "length (bf_packed full) = length (bf_packed ?f)" "getCell (bf_packed full) i = min 15 (0 + 16)"
    using adds_to [OF i, of 16] unfolding full_def zero by (simp_all only: zero_neq_numeral [symmetric] if_False)
  have "i div 2 < length (bf_packed full)" "15 \<le> getCell (bf_packed full) i"
    using up i(2) by simp_all
  from deletes_from [OF up(1) this] have "positions k gone = [i]" "getCell (bf_packed gone) i = 0"
    unfolding gone_def [symmetric] using up(3) by simp_all
  then have "\<not> maybePresent k gone"
    by (simp add: maybePresent_def)
  then show ?thesis
    unfolding gone_def full_def .
qed

theorem bloom_counts_exactly_witness:
  "foldl bloom_step (new_bloom 8 1, [], True) [AddKey (js ''a'')] = (bloom_add (js ''a'') (new_bloom 8 1), [js ''a''], True)
     \<and> maybePresent (js ''a'') (bloom_add (js ''a'') (new_bloom 8 1))"
proof -
  let ?f = "new_bloom 8 1"
  have one: "count_list (positions (js ''a'') ?f) i \<le> 1" for i
    using count_le_length [of "positions (js ''a'') ?f" i] by (simp add: positions_def new_bloom_def Let_def)
  have "cell_load ?f [js ''a''] i \<le> 15" for i
    using order_trans [OF one, of 15] by (simp add: cell_load_def)
  then have run: "foldl bloom_step (?f, [], True) [AddKey (js ''a'')] = (bloom_add (js ''a'') ?f, [js ''a''], True)"
    by (simp add: bloom_step_def list_all_iff)
  from bloom_counts_exactly [OF run] run show ?thesis
    by simp
qed

end
