(* ===== verification/FrequencySketch.thy ===== *)
theory FrequencySketch
  imports HashRing
begin

text \<open>
  \<open>layers/cache/engine/CountMinSketch.ts\<close>: the sketch that estimates how often a key was seen, and the admission policy
  over it. The table is an array of 32-bit counters that wrap; keys are hashed by \<open>fnv1a32\<close>.
\<close>

section \<open>The sketch\<close>

record count_sketch =
  ck_width :: nat
  ck_depth :: nat
  ck_table :: "32 word list"
  ck_total :: nat

definition MAX_SAFE_INTEGER :: nat where
  "MAX_SAFE_INTEGER = 9007199254740991"

definition new_sketch :: "int \<Rightarrow> int \<Rightarrow> count_sketch" where
  "new_sketch width depth =
     (let w = nat (max 1 width);
          d = nat (max 1 depth)
      in \<lparr>ck_width = w, ck_depth = d, ck_table = replicate (w * d) 0, ck_total = 0\<rparr>)"

definition cell_of :: "count_sketch \<Rightarrow> jstring \<Rightarrow> nat \<Rightarrow> nat" where
  "cell_of s key d = d * ck_width s + unat (fnv1a32 (key @ js '':'' @ js_nat d)) mod ck_width s"

definition add_row :: "count_sketch \<Rightarrow> jstring \<Rightarrow> nat \<Rightarrow> 32 word list \<times> nat \<Rightarrow> nat \<Rightarrow> 32 word list \<times> nat" where
  "add_row s key count acc d =
     (case acc of (table, least) \<Rightarrow>
        let i = cell_of s key d;
            next' = unat (table ! i) + count
        in (table[i := word_of_nat next'], if next' < least then next' else least))"

definition sketch_add :: "jstring \<Rightarrow> nat \<Rightarrow> count_sketch \<Rightarrow> count_sketch \<times> nat" where
  "sketch_add key count s =
     (let (table, least) = foldl (add_row s key count) (ck_table s, MAX_SAFE_INTEGER) [0..<ck_depth s]
      in (s\<lparr>ck_table := table, ck_total := ck_total s + count\<rparr>, least))"

fun estimate_rows :: "count_sketch \<Rightarrow> jstring \<Rightarrow> nat list \<Rightarrow> nat \<Rightarrow> nat" where
  "estimate_rows s key [] least = least"
| "estimate_rows s key (d # ds) least =
     (let v = unat (ck_table s ! cell_of s key d);
          least = (if v < least then v else least)
      in if least = 0 then least else estimate_rows s key ds least)"

definition sketch_estimate :: "jstring \<Rightarrow> count_sketch \<Rightarrow> nat" where
  "sketch_estimate key s =
     (let least = estimate_rows s key [0..<ck_depth s] MAX_SAFE_INTEGER in if least = MAX_SAFE_INTEGER then 0 else least)"

definition halve :: "count_sketch \<Rightarrow> count_sketch" where
  "halve s = s\<lparr>ck_table := map (\<lambda>v. v div 2) (ck_table s), ck_total := ck_total s div 2\<rparr>"

definition sketch_reset :: "count_sketch \<Rightarrow> count_sketch" where
  "sketch_reset s = s\<lparr>ck_table := map (\<lambda>_. 0) (ck_table s), ck_total := 0\<rparr>"

section \<open>Admission\<close>

record tiny_lfu =
  tl_sketch :: count_sketch
  tl_resetEvery :: int
  tl_sinceReset :: nat

definition new_lfu :: "int option \<Rightarrow> int option \<Rightarrow> int option \<Rightarrow> tiny_lfu" where
  "new_lfu width depth resetEvery =
     \<lparr>tl_sketch = new_sketch (case width of Some w \<Rightarrow> w | None \<Rightarrow> 2048) (case depth of Some d \<Rightarrow> d | None \<Rightarrow> 4),
      tl_resetEvery = max 1 (case resetEvery of Some n \<Rightarrow> n | None \<Rightarrow> 100000), tl_sinceReset = 0\<rparr>"

definition lfu_age :: "tiny_lfu \<Rightarrow> tiny_lfu" where
  "lfu_age p = p\<lparr>tl_sketch := halve (tl_sketch p), tl_sinceReset := 0\<rparr>"

definition lfu_record :: "jstring \<Rightarrow> tiny_lfu \<Rightarrow> tiny_lfu" where
  "lfu_record key p =
     (let p = p\<lparr>tl_sketch := fst (sketch_add key 1 (tl_sketch p)), tl_sinceReset := tl_sinceReset p + 1\<rparr>
      in if int (tl_sinceReset p) \<ge> tl_resetEvery p then p\<lparr>tl_sketch := halve (tl_sketch p), tl_sinceReset := 0\<rparr> else p)"

definition lfu_admit :: "jstring \<Rightarrow> jstring \<Rightarrow> tiny_lfu \<Rightarrow> bool" where
  "lfu_admit candidate victim p \<longleftrightarrow> sketch_estimate candidate (tl_sketch p) \<ge> sketch_estimate victim (tl_sketch p)"

definition lfu_estimate :: "jstring \<Rightarrow> tiny_lfu \<Rightarrow> nat" where
  "lfu_estimate key p = sketch_estimate key (tl_sketch p)"

section \<open>The table\<close>

definition sketch_ok :: "count_sketch \<Rightarrow> bool" where
  "sketch_ok s \<longleftrightarrow> 0 < ck_width s \<and> 0 < ck_depth s \<and> length (ck_table s) = ck_width s * ck_depth s"

lemma cell_bound:
  assumes "sketch_ok s" and "d < ck_depth s"
  shows "cell_of s key d < length (ck_table s)" and "cell_of s key d div ck_width s = d"
proof -
  have m: "unat (fnv1a32 (key @ js '':'' @ js_nat d)) mod ck_width s < ck_width s"
    using assms(1) by (simp add: sketch_ok_def)
  then show "cell_of s key d div ck_width s = d"
    by (simp add: cell_of_def)
  have "Suc d * ck_width s \<le> ck_depth s * ck_width s"
    using assms(2) by (intro mult_le_mono1) simp
  then show "cell_of s key d < length (ck_table s)"
    using assms(1) m by (simp add: cell_of_def sketch_ok_def mult.commute)
qed

lemma add_rows_length: "length (fst (foldl (add_row s key count) acc ds)) = length (fst acc)"
  by (induction ds arbitrary: acc) (simp_all add: add_row_def Let_def split: prod.split)

text \<open>One addition: the cells of the key grow by the count, the others keep theirs, as long as nothing wraps.\<close>

lemma unat_word_small: "n < 2 ^ 32 \<Longrightarrow> unat (word_of_nat n :: 32 word) = n"
  by (simp add: unat_of_nat take_bit_nat_eq_self)

lemma add_rows_cells:
  assumes "sketch_ok s" and "distinct ds" and "set ds \<subseteq> {..<ck_depth s}" and "length (fst acc) = length (ck_table s)"
    and "\<forall>i < length (ck_table s). unat (fst acc ! i) + count < 2 ^ 32" and "i < length (ck_table s)"
  shows "unat (fst (foldl (add_row s key count) acc ds) ! i) =
    unat (fst acc ! i) + (if \<exists>d \<in> set ds. i = cell_of s key d then count else 0)"
  using assms(2-)
proof (induction ds arbitrary: i rule: rev_induct)
  case (snoc d ds)
  let ?t = "foldl (add_row s key count) acc ds"
  have ih: "unat (fst ?t ! i) = unat (fst acc ! i) + (if \<exists>d \<in> set ds. i = cell_of s key d then count else 0)"
    if "i < length (ck_table s)" for i
    using snoc.IH snoc.prems that by simp
  have d: "d < ck_depth s" "d \<notin> set ds"
    using snoc.prems by simp_all
  have fresh: "\<not> (\<exists>e \<in> set ds. cell_of s key d = cell_of s key e)"
    using cell_bound(2) [OF assms(1)] snoc.prems(1,2) by (metis d lessThan_iff set_append subset_code(1) UnCI)
  have len: "length (fst ?t) = length (ck_table s)"
    using snoc.prems(3) by (simp add: add_rows_length)
  have same: "unat (fst ?t ! cell_of s key d) = unat (fst acc ! cell_of s key d)"
    using ih [OF cell_bound(1) [OF assms(1) d(1)]] fresh by simp
  have small: "unat (fst acc ! cell_of s key d) + count < 2 ^ 32"
    using snoc.prems(4) cell_bound(1) [OF assms(1) d(1)] by blast
  have "unat (word_of_nat (unat (fst ?t ! cell_of s key d) + count) :: 32 word) = unat (fst acc ! cell_of s key d) + count"
    unfolding same by (rule unat_word_small [OF small])
  then have cell: "unat (fst (add_row s key count ?t d) ! i) =
      (if i = cell_of s key d then unat (fst acc ! i) + count else unat (fst ?t ! i))"
    using len snoc.prems(5) by (simp add: add_row_def Let_def nth_list_update case_prod_unfold)
  show ?case
  proof (cases "i = cell_of s key d")
    case True
    then show ?thesis
      using cell by simp
  next
    case False
    then show ?thesis
      using cell ih [OF snoc.prems(5)] by simp
  qed
qed simp

lemma sketch_ok_ops:
  "sketch_ok s \<Longrightarrow> sketch_ok (fst (sketch_add key count s))" "sketch_ok s \<Longrightarrow> sketch_ok (halve s)"
  "sketch_ok s \<Longrightarrow> sketch_ok (sketch_reset s)" "sketch_ok (new_sketch w d)"
  using add_rows_length [of s key count "(ck_table s, MAX_SAFE_INTEGER)"]
  by (auto simp: sketch_ok_def sketch_add_def halve_def sketch_reset_def new_sketch_def Let_def case_prod_unfold)

text \<open>The estimate is the least of the key's cells.\<close>

lemma estimate_rows_least:
  "estimate_rows s key ds least \<le> least \<and> (\<forall>d \<in> set ds. estimate_rows s key ds least \<le> unat (ck_table s ! cell_of s key d))
   \<and> (estimate_rows s key ds least = least \<or> (\<exists>d \<in> set ds. estimate_rows s key ds least = unat (ck_table s ! cell_of s key d)))"
proof (induction ds arbitrary: least)
  case (Cons d ds)
  let ?v = "unat (ck_table s ! cell_of s key d)"
  show ?case
    using Cons.IH [of ?v] Cons.IH [of least] by (auto simp: Let_def)
qed simp

lemma estimate_is_cell:
  assumes "sketch_ok s"
  shows "\<exists>d < ck_depth s. sketch_estimate key s = unat (ck_table s ! cell_of s key d)"
proof -
  let ?e = "estimate_rows s key [0..<ck_depth s] MAX_SAFE_INTEGER"
  note e = estimate_rows_least [of s key "[0..<ck_depth s]" MAX_SAFE_INTEGER]
  have "unat (ck_table s ! cell_of s key 0) < MAX_SAFE_INTEGER"
    by (rule order_less_le_trans [OF unsigned_less]) (simp add: MAX_SAFE_INTEGER_def)
  moreover have "0 \<in> set [0..<ck_depth s]"
    using assms by (simp add: sketch_ok_def)
  ultimately have "?e < MAX_SAFE_INTEGER"
    using e by (meson order_le_less_trans)
  then show ?thesis
    using e by (auto simp: sketch_estimate_def Let_def)
qed

section \<open>No key is underestimated\<close>

text \<open>
  What was really seen: a count per key, halved when the sketch ages. The flag stays true while no counter can have wrapped.
\<close>

datatype sketch_op = Seen jstring nat | Halve | Reset

type_synonym sketch_run = "count_sketch \<times> (jstring \<Rightarrow> nat) \<times> bool"

definition sketch_step :: "sketch_run \<Rightarrow> sketch_op \<Rightarrow> sketch_run" where
  "sketch_step r op =
     (case r of (s, seen, ok) \<Rightarrow>
        case op of
          Seen key n \<Rightarrow> (fst (sketch_add key n s), seen(key := seen key + n), ok \<and> ck_total s + n < 2 ^ 32)
        | Halve \<Rightarrow> (halve s, \<lambda>k. seen k div 2, ok)
        | Reset \<Rightarrow> (sketch_reset s, \<lambda>_. 0, ok))"

definition sketch_inv :: "sketch_run \<Rightarrow> bool" where
  "sketch_inv r \<longleftrightarrow>
     (case r of (s, seen, ok) \<Rightarrow>
        sketch_ok s \<and>
        (ok \<longrightarrow> ck_total s < 2 ^ 32 \<and> (\<forall>i < length (ck_table s). unat (ck_table s ! i) \<le> ck_total s) \<and>
           (\<forall>key. \<forall>d < ck_depth s. seen key \<le> unat (ck_table s ! cell_of s key d))))"

lemma cell_of_ops [simp]:
  "cell_of (fst (sketch_add k n s)) = cell_of s" "cell_of (halve s) = cell_of s" "cell_of (sketch_reset s) = cell_of s"
  by (simp_all add: cell_of_def sketch_add_def halve_def sketch_reset_def fun_eq_iff case_prod_unfold Let_def)

lemma sketch_inv_seen:
  assumes inv: "sketch_inv (s, seen, ok)"
  shows "sketch_inv (sketch_step (s, seen, ok) (Seen key n))"
proof -
  let ?s = "fst (sketch_add key n s)"
  have s: "sketch_ok s" "sketch_ok ?s" "ck_depth ?s = ck_depth s" "ck_total ?s = ck_total s + n"
    using inv sketch_ok_ops(1) by (auto simp: sketch_inv_def sketch_add_def case_prod_unfold Let_def)
  have len: "length (ck_table ?s) = length (ck_table s)"
    using add_rows_length [of s key n "(ck_table s, MAX_SAFE_INTEGER)"] by (simp add: sketch_add_def case_prod_unfold Let_def)
  have goal: "ck_total s + n < 2 ^ 32 \<and> (\<forall>i < length (ck_table s). unat (ck_table ?s ! i) \<le> ck_total s + n) \<and>
      (\<forall>k. \<forall>d < ck_depth s. (seen(key := seen key + n)) k \<le> unat (ck_table ?s ! cell_of s k d))"
    if ok: ok and small: "ck_total s + n < 2 ^ 32"
  proof -
    have bound: "unat (ck_table s ! i) \<le> ck_total s" if "i < length (ck_table s)" for i
      using inv ok that by (simp add: sketch_inv_def)
    have cells: "unat (ck_table ?s ! i) = unat (ck_table s ! i) + (if \<exists>d < ck_depth s. i = cell_of s key d then n else 0)"
      if "i < length (ck_table s)" for i
      using add_rows_cells [OF s(1), of "[0..<ck_depth s]" "(ck_table s, MAX_SAFE_INTEGER)" n i key] bound small that
      by (fastforce simp: sketch_add_def case_prod_unfold Let_def)
    have "(seen(key := seen key + n)) k \<le> unat (ck_table ?s ! cell_of s k d)" if "d < ck_depth s" for k d
    proof -
      have "seen k \<le> unat (ck_table s ! cell_of s k d)"
        using inv ok that by (simp add: sketch_inv_def)
      then show ?thesis
        using cells [OF cell_bound(1) [OF s(1) that]] that by auto
    qed
    then show ?thesis
      using small cells bound by (simp add: trans_le_add1)
  qed
  then show ?thesis
    using s len by (simp add: sketch_step_def sketch_inv_def)
qed

interpretation sketches: invariant_machine sketch_step sketch_inv
proof
  fix r op
  assume r: "sketch_inv r"
  obtain s seen ok where eq: "r = (s, seen, ok)"
    by (metis prod.exhaust)
  have half: "unat (v div 2) = unat v div 2" for v :: "32 word"
    by (simp add: unat_div)
  show "sketch_inv (sketch_step r op)"
  proof (cases op)
    case (Seen key n)
    then show ?thesis
      using sketch_inv_seen r eq by simp
  next
    case Halve
    have ok: "sketch_ok s" "sketch_ok (halve s)" "length (ck_table (halve s)) = length (ck_table s)" "ck_depth (halve s) = ck_depth s"
      using r eq sketch_ok_ops(2) by (auto simp: sketch_inv_def halve_def)
    have cell: "unat (ck_table (halve s) ! i) = unat (ck_table s ! i) div 2" if "i < length (ck_table s)" for i
      using that by (simp add: halve_def half)
    show ?thesis
      using r ok cell cell_bound(1) [OF ok(1)] unfolding eq Halve
      by (auto simp: sketch_step_def sketch_inv_def div_le_mono) (simp_all add: halve_def div_le_mono)
  next
    case Reset
    have ok: "sketch_ok s" "sketch_ok (sketch_reset s)"
      using r eq sketch_ok_ops(3) by (auto simp: sketch_inv_def)
    then show ?thesis
      unfolding eq Reset by (simp add: sketch_step_def sketch_inv_def) (simp add: sketch_reset_def)
  qed
qed

lemma estimate_bounds:
  assumes "sketch_inv (s, seen, True)"
  shows "seen key \<le> sketch_estimate key s \<and> sketch_estimate key s \<le> ck_total s"
proof -
  have ok: "sketch_ok s"
    using assms by (simp add: sketch_inv_def)
  obtain d where "d < ck_depth s" "sketch_estimate key s = unat (ck_table s ! cell_of s key d)"
    using estimate_is_cell [OF ok] by blast
  then show ?thesis
    using assms cell_bound(1) [OF ok] by (simp add: sketch_inv_def)
qed

lemma sketch_inv_new: "sketch_inv (new_sketch width depth, \<lambda>_. 0, True)"
  using sketch_ok_ops(4) [of width depth] by (simp add: sketch_inv_def) (simp add: new_sketch_def Let_def)

text \<open>
  As long as fewer than \<open>2 ^ 32\<close> occurrences count at a time, the sketch never says less than what was really seen of a
  key, aging included, and never more than the whole stream.
\<close>

theorem sketch_never_underestimates:
  assumes "foldl sketch_step (new_sketch width depth, \<lambda>_. 0, True) ops = (s, seen, True)"
  shows "seen key \<le> sketch_estimate key s \<and> sketch_estimate key s \<le> ck_total s"
  using estimate_bounds sketches.inv_run [OF sketch_inv_new, of width depth ops] assms by simp

theorem sketch_never_underestimates_witness:
  "\<exists>s seen. foldl sketch_step (new_sketch 8 2, \<lambda>_. 0, True) [Seen (js ''a'') 5, Seen (js ''b'') 2, Halve, Seen (js ''a'') 1] = (s, seen, True)
     \<and> seen (js ''a'') = 3 \<and> 3 \<le> sketch_estimate (js ''a'') s"
proof -
  let ?ops = "[Seen (js ''a'') 5, Seen (js ''b'') 2, Halve, Seen (js ''a'') 1]"
  obtain s seen ok where run: "foldl sketch_step (new_sketch 8 2, \<lambda>_. 0, True) ?ops = (s, seen, ok)"
    by (metis prod.exhaust)
  have total: "ck_total (fst (sketch_add k n x)) = ck_total x + n" for k n x
    by (simp add: sketch_add_def case_prod_unfold Let_def)
  have "ok" and "seen (js ''a'') = 3"
    using run by (auto simp: sketch_step_def total halve_def new_sketch_def Let_def)
  then show ?thesis
    using run sketch_never_underestimates [of 8 2 ?ops s seen "js ''a''"] by simp
qed

text \<open>
  The admission policy ages its sketch often enough for the counters never to wrap: what it knows of a key is never less than
  the key's aged popularity.
\<close>

definition lfu_step :: "tiny_lfu \<times> (jstring \<Rightarrow> nat) \<Rightarrow> jstring option \<Rightarrow> tiny_lfu \<times> (jstring \<Rightarrow> nat)" where
  "lfu_step r access =
     (case r of (p, seen) \<Rightarrow>
        case access of
          None \<Rightarrow> (lfu_age p, \<lambda>k. seen k div 2)
        | Some key \<Rightarrow>
            let seen = seen(key := seen key + 1)
            in (lfu_record key p, if int (tl_sinceReset p + 1) \<ge> tl_resetEvery p then \<lambda>k. seen k div 2 else seen))"

definition lfu_inv :: "tiny_lfu \<times> (jstring \<Rightarrow> nat) \<Rightarrow> bool" where
  "lfu_inv r \<longleftrightarrow>
     (case r of (p, seen) \<Rightarrow>
        sketch_inv (tl_sketch p, seen, True) \<and> tl_resetEvery p < 2 ^ 31 \<and> int (tl_sinceReset p) < tl_resetEvery p \<and>
        int (ck_total (tl_sketch p)) \<le> tl_resetEvery p + int (tl_sinceReset p))"

interpretation lfu: invariant_machine lfu_step lfu_inv
proof
  fix r access
  assume r: "lfu_inv r"
  obtain p seen where eq: "r = (p, seen)"
    by fastforce
  have inv: "sketch_inv (tl_sketch p, seen, True)" and small: "tl_resetEvery p < 2 ^ 31" "int (tl_sinceReset p) < tl_resetEvery p"
      "int (ck_total (tl_sketch p)) \<le> tl_resetEvery p + int (tl_sinceReset p)"
    using r eq by (simp_all add: lfu_inv_def)
  have halved: "sketch_inv (halve q, \<lambda>k. f k div 2, True)" if "sketch_inv (q, f, True)" for q f
    using sketches.inv_step [OF that, of Halve] by (simp add: sketch_step_def)
  have total: "ck_total (fst (sketch_add k n x)) = ck_total x + n" "ck_total (halve x) = ck_total x div 2" for k n x
    by (simp_all add: sketch_add_def halve_def case_prod_unfold Let_def)
  show "lfu_inv (lfu_step r access)"
  proof (cases access)
    case None
    then show ?thesis
      using halved [OF inv] small by (simp add: eq lfu_step_def lfu_age_def lfu_inv_def total)
  next
    case (Some key)
    let ?q = "fst (sketch_add key 1 (tl_sketch p))"
    have "ck_total (tl_sketch p) + 1 < 2 ^ 32"
      using small by simp
    then have added: "sketch_inv (?q, seen(key := seen key + 1), True)"
      using sketches.inv_step [OF inv, of "Seen key 1"] by (simp add: sketch_step_def)
    show ?thesis
    proof (cases "int (tl_sinceReset p + 1) \<ge> tl_resetEvery p")
      case True
      then show ?thesis
        using halved [OF added] small by (simp add: eq Some lfu_step_def lfu_record_def lfu_inv_def total Let_def)
    next
      case False
      then show ?thesis
        using added small by (simp add: eq Some lfu_step_def lfu_record_def lfu_inv_def total Let_def)
    qed
  qed
qed

theorem lfu_never_underestimates:
  assumes "case resetEvery of None \<Rightarrow> True | Some n \<Rightarrow> n < 2 ^ 31"
    and "foldl lfu_step (new_lfu width depth resetEvery, \<lambda>_. 0) accesses = (p, seen)"
  shows "seen key \<le> lfu_estimate key p"
proof -
  have "lfu_inv (new_lfu width depth resetEvery, \<lambda>_. 0)"
    using assms(1) sketch_inv_new by (auto simp: lfu_inv_def new_lfu_def new_sketch_def Let_def split: option.splits)
  then have "lfu_inv (p, seen)"
    using lfu.inv_run assms(2) by metis
  then show ?thesis
    using estimate_bounds by (simp add: lfu_inv_def lfu_estimate_def)
qed

theorem lfu_never_underestimates_witness:
  "1 \<le> lfu_estimate (js ''a'') (lfu_record (js ''a'') (new_lfu (Some 8) (Some 2) (Some 10)))"
proof -
  have "foldl lfu_step (new_lfu (Some 8) (Some 2) (Some 10), \<lambda>_. 0) [Some (js ''a'')] =
      (lfu_record (js ''a'') (new_lfu (Some 8) (Some 2) (Some 10)), (\<lambda>_. 0)(js ''a'' := 1))"
    by (simp add: lfu_step_def new_lfu_def)
  from lfu_never_underestimates [OF _ this, of "js ''a''"] show ?thesis
    by simp
qed

end
