(* ===== verification/HelloDomain.thy ===== *)
theory HelloDomain
  imports Interfaces JsJson
begin

text \<open>
  The domain layer of the application: message contents, hello-world messages and their factory
  (\<open>domain/value-objects/MessageContent.ts\<close>, \<open>domain/entities/HelloWorldMessage.ts\<close>,
  \<open>domain/services/HelloWorldFactory.ts\<close>), the serving policy, the requested event, the health check
  and the domain manager that keeps entities and events. The record \<open>host\<close> is the process around the
  program: its clock and random texts, indexed by the place that reads them, and its environment.
\<close>

record host =
  h_clock :: "nat \<Rightarrow> int"
  h_iso :: "int \<Rightarrow> jstring"
  h_random :: "nat \<Rightarrow> jstring"
  h_memory :: "jstring \<Rightarrow> int"
  h_nodeEnv :: "jstring option"
  h_nodeVersion :: jstring

section \<open>Message contents\<close>

definition MAX_CONTENT :: nat where "MAX_CONTENT = 1000"

definition content_create :: "jstring \<Rightarrow> jstring + jstring" where
  "content_create value =
     (if value = [] then Inl (js ''Message content cannot be empty'')
      else if length value > MAX_CONTENT
      then Inl (js ''Message content cannot exceed '' @ js_nat MAX_CONTENT @ js '' characters'')
      else Inr value)"

definition content_append :: "jstring \<Rightarrow> jstring \<Rightarrow> jstring + jstring" where
  "content_append value suffix = content_create (value @ suffix)"

definition content_truncate :: "jstring \<Rightarrow> int \<Rightarrow> jstring + jstring" where
  "content_truncate value n = content_create (take (nat n) value)"

section \<open>Messages\<close>

record audit_entry =
  au_action :: jstring
  au_value :: jstring
  au_timestamp :: int

record hello_message =
  hm_id :: jstring
  hm_createdAt :: int
  hm_updatedAt :: int
  hm_content :: jstring
  hm_language :: jstring
  hm_format :: jstring
  hm_version :: int
  hm_createdBy :: "jstring option"
  hm_updatedBy :: "jstring option"
  hm_auditTrail :: "audit_entry list"

definition js_int :: "int \<Rightarrow> jstring" where
  "js_int n = stringify (JNum n)"

definition message_create :: "host \<Rightarrow> jstring \<Rightarrow> jstring + hello_message" where
  "message_create h content =
     (case content_create content of
        Inl e \<Rightarrow> Inl e
      | Inr value \<Rightarrow> Inr
          \<lparr>hm_id = js ''hw-'' @ js_int (h_clock h 0) @ js ''-'' @ h_random h 0,
           hm_createdAt = h_clock h 1, hm_updatedAt = h_clock h 2, hm_content = value,
           hm_language = js ''en'', hm_format = js ''json'', hm_version = 1, hm_createdBy = None,
           hm_updatedBy = None, hm_auditTrail = []\<rparr>)"

definition audited :: "string \<Rightarrow> jstring \<Rightarrow> int \<Rightarrow> hello_message \<Rightarrow> audit_entry list" where
  "audited action value t m = hm_auditTrail m @ [\<lparr>au_action = js action, au_value = value, au_timestamp = t\<rparr>]"

definition withLanguage :: "host \<Rightarrow> jstring \<Rightarrow> hello_message \<Rightarrow> hello_message" where
  "withLanguage h language m =
     m\<lparr>hm_language := language, hm_auditTrail := audited ''language_change'' language (h_clock h 3) m,
       hm_updatedAt := h_clock h 4\<rparr>"

definition withFormat :: "host \<Rightarrow> jstring \<Rightarrow> hello_message \<Rightarrow> hello_message" where
  "withFormat h format m =
     m\<lparr>hm_format := format, hm_auditTrail := audited ''format_change'' format (h_clock h 5) m,
       hm_updatedAt := h_clock h 6\<rparr>"

definition withVersion :: "host \<Rightarrow> int \<Rightarrow> jstring option \<Rightarrow> hello_message \<Rightarrow> hello_message" where
  "withVersion h version updatedBy m =
     m\<lparr>hm_version := version, hm_updatedBy := updatedBy,
       hm_auditTrail := audited ''version_bump'' (js_int version) (h_clock h 7) m, hm_updatedAt := h_clock h 8\<rparr>"

definition opt_field :: "string \<Rightarrow> jstring option \<Rightarrow> (jstring \<times> json) list" where
  "opt_field name x = (case x of None \<Rightarrow> [] | Some s \<Rightarrow> [(js name, JStr s)])"

definition payload_fields :: "host \<Rightarrow> hello_message \<Rightarrow> (jstring \<times> json) list" where
  "payload_fields h m =
     [(js ''id'', JStr (hm_id m)), (js ''message'', JStr (hm_content m)), (js ''language'', JStr (hm_language m)),
      (js ''format'', JStr (hm_format m)), (js ''version'', JNum (hm_version m)),
      (js ''timestamp'', JStr (h_iso h (hm_createdAt m)))]
     @ opt_field ''createdBy'' (hm_createdBy m) @ opt_field ''updatedBy'' (hm_updatedBy m)"

definition message_toPayload :: "host \<Rightarrow> hello_message \<Rightarrow> json" where
  "message_toPayload h m = JObj (payload_fields h m)"

definition toAuditSnapshot :: "host \<Rightarrow> hello_message \<Rightarrow> json" where
  "toAuditSnapshot h m =
     JObj (payload_fields h m @
       [(js ''auditTrail'', JArr (map (\<lambda>e. JObj
           [(js ''action'', JStr (au_action e)), (js ''value'', JStr (au_value e)),
            (js ''timestamp'', JStr (h_iso h (au_timestamp e)))]) (hm_auditTrail m)))])"

section \<open>The factory\<close>

definition translation_table :: "(jstring, jstring) jmap" where
  "translation_table =
     [(js ''en'', js ''Hello World''), (js ''es'', js ''Hola Mundo''), (js ''fr'', js ''Bonjour le monde''),
      (js ''de'', js ''Hallo Welt''), (js ''it'', js ''Ciao Mondo''),
      (js ''pt'', js ''Ol'' @ [0xe1] @ js '' Mundo''),
      (js ''ru'', [0x41f, 0x440, 0x438, 0x432, 0x435, 0x442, 0x20, 0x43c, 0x438, 0x440]),
      (js ''zh'', [0x4f60, 0x597d, 0x4e16, 0x754c]),
      (js ''ja'', [0x3053, 0x3093, 0x306b, 0x3061, 0x306f, 0x4e16, 0x754c]),
      (js ''ko'', [0xc548, 0xb155, 0x20, 0xc138, 0xc0c1])]"

record hello_options =
  ho_language :: "jstring option"
  ho_format :: "jstring option"
  ho_suffix :: "jstring option"

definition or_value :: "'a option \<Rightarrow> 'a \<Rightarrow> 'a" where
  "or_value x d = (case x of Some v \<Rightarrow> v | None \<Rightarrow> d)"

definition factory_create :: "host \<Rightarrow> hello_options \<Rightarrow> jstring + hello_message" where
  "factory_create h options =
     (let language = or_value (ho_language options) (js ''en'');
          format = or_value (ho_format options) (js ''json'');
          base = (case jmap_get translation_table language of
                    Some t \<Rightarrow> t
                  | None \<Rightarrow> or_value (jmap_get translation_table (js ''en'')) (js ''Hello World''));
          content = (case ho_suffix options of None \<Rightarrow> base | Some suffix \<Rightarrow> base @ suffix) in
      case content_create content of
        Inl e \<Rightarrow> Inl e
      | Inr value \<Rightarrow> map_sum id (withFormat h format \<circ> withLanguage h language) (message_create h value))"

definition supportsLanguage :: "jstring \<Rightarrow> bool" where
  "supportsLanguage language \<longleftrightarrow> jmap_has translation_table language"

definition getSupportedLanguages :: "jstring list" where
  "getSupportedLanguages = jmap_keys translation_table"

section \<open>The policy\<close>

record message_policy =
  mp_blockedLanguages :: "jstring list"
  mp_maxDailyMessages :: nat

definition new_policy :: message_policy where
  "new_policy = \<lparr>mp_blockedLanguages = [], mp_maxDailyMessages = 1000000\<rparr>"

text \<open>\<open>None\<close> when the message may be served, otherwise the reason.\<close>

definition canServe :: "message_policy \<Rightarrow> hello_message \<Rightarrow> nat \<Rightarrow> jstring option" where
  "canServe p message dailyCount =
     (if hm_language message \<in> set (mp_blockedLanguages p)
      then Some (js ''Language '' @ hm_language message @ js '' is blocked'')
      else if dailyCount \<ge> mp_maxDailyMessages p then Some (js ''Daily message quota exceeded'')
      else None)"

definition isFormatAllowed :: "jstring \<Rightarrow> bool" where
  "isFormatAllowed format \<longleftrightarrow> format \<in> set [js ''json'', js ''xml'', js ''plain'', js ''html'']"

section \<open>Events and the domain manager\<close>

datatype event_value = EvText jstring | EvDate int

record domain_event =
  ev_eventType :: jstring
  ev_aggregateId :: jstring
  ev_occurredAt :: int
  ev_data :: "(jstring \<times> event_value) list option"

definition helloWorldRequested :: "host \<Rightarrow> jstring \<Rightarrow> jstring \<Rightarrow> jstring \<Rightarrow> jstring \<Rightarrow> domain_event" where
  "helloWorldRequested h requestId correlationId language format =
     \<lparr>ev_eventType = js ''HelloWorldRequested'', ev_aggregateId = requestId, ev_occurredAt = h_clock h 9,
      ev_data = Some
        [(js ''requestId'', EvText requestId), (js ''correlationId'', EvText correlationId),
         (js ''language'', EvText language), (js ''format'', EvText format), (js ''timestamp'', EvDate (h_clock h 9))]\<rparr>"

record 'd domain_entity =
  de_id :: jstring
  de_createdAt :: "int option"
  de_updatedAt :: "int option"
  de_data :: 'd

datatype domain_error = INVALID_ENTITY jstring | ENTITY_NOT_FOUND jstring

record 'd domain_manager =
  dm_entities :: "(jstring, 'd domain_entity) jmap"
  dm_events :: "(jstring, domain_event list) jmap"

definition new_domain_manager :: "'d domain_manager" where
  "new_domain_manager = \<lparr>dm_entities = jmap_empty, dm_events = jmap_empty\<rparr>"

definition validateEntity :: "'d domain_entity \<Rightarrow> domain_error + 'd domain_entity" where
  "validateEntity entity =
     (if de_id entity = [] then Inl (INVALID_ENTITY (js ''Entity must have an ID''))
      else if Option.is_none (de_createdAt entity)
      then Inl (INVALID_ENTITY (js ''Entity must have a createdAt timestamp''))
      else Inr entity)"

definition not_found :: "jstring \<Rightarrow> domain_error" where
  "not_found entityId = ENTITY_NOT_FOUND (js ''Entity with ID '' @ entityId @ js '' not found'')"

definition createEntity ::
  "'d domain_manager \<Rightarrow> 'd domain_entity \<Rightarrow> 'd domain_manager \<times> (domain_error + 'd domain_entity)" where
  "createEntity m entity =
     (case validateEntity entity of
        Inl e \<Rightarrow> (m, Inl e)
      | Inr _ \<Rightarrow> (m\<lparr>dm_entities := jmap_set (de_id entity) entity (dm_entities m)\<rparr>, Inr entity))"

definition updateEntity ::
  "int \<Rightarrow> 'd domain_manager \<Rightarrow> 'd domain_entity \<Rightarrow> 'd domain_manager \<times> (domain_error + 'd domain_entity)" where
  "updateEntity now m entity =
     (case validateEntity entity of
        Inl e \<Rightarrow> (m, Inl e)
      | Inr _ \<Rightarrow>
          if \<not> jmap_has (dm_entities m) (de_id entity) then (m, Inl (not_found (de_id entity)))
          else
            let entity = entity\<lparr>de_updatedAt := Some now\<rparr>
            in (m\<lparr>dm_entities := jmap_set (de_id entity) entity (dm_entities m)\<rparr>, Inr entity))"

definition deleteEntity :: "'d domain_manager \<Rightarrow> jstring \<Rightarrow> 'd domain_manager \<times> (domain_error + unit)" where
  "deleteEntity m entityId =
     (if \<not> jmap_has (dm_entities m) entityId then (m, Inl (not_found entityId))
      else (m\<lparr>dm_entities := jmap_delete entityId (dm_entities m), dm_events := jmap_delete entityId (dm_events m)\<rparr>, Inr ()))"

definition getEntity :: "'d domain_manager \<Rightarrow> jstring \<Rightarrow> domain_error + 'd domain_entity" where
  "getEntity m entityId =
     (case jmap_get (dm_entities m) entityId of None \<Rightarrow> Inl (not_found entityId) | Some e \<Rightarrow> Inr e)"

definition getUncommittedEvents :: "'d domain_manager \<Rightarrow> jstring \<Rightarrow> domain_event list" where
  "getUncommittedEvents m aggregateId = or_value (jmap_get (dm_events m) aggregateId) []"

definition publishEvent :: "'d domain_manager \<Rightarrow> domain_event \<Rightarrow> 'd domain_manager" where
  "publishEvent m event =
     m\<lparr>dm_events := jmap_set (ev_aggregateId event)
         (or_value (jmap_get (dm_events m) (ev_aggregateId event)) [] @ [event]) (dm_events m)\<rparr>"

section \<open>Health\<close>

datatype health_status = Healthy | Degraded | Unhealthy

fun health_name :: "health_status \<Rightarrow> jstring" where
  "health_name Healthy = js ''healthy''"
| "health_name Degraded = js ''degraded''"
| "health_name Unhealthy = js ''unhealthy''"

record health_component =
  hc_name :: jstring
  hc_status :: health_status
  hc_latencyMs :: int
  hc_message :: "jstring option"

record health_check =
  hk_id :: jstring
  hk_createdAt :: int
  hk_updatedAt :: int
  hk_status :: health_status
  hk_components :: "health_component list"
  hk_version :: jstring

definition aggregateStatus :: "health_component list \<Rightarrow> health_status" where
  "aggregateStatus components =
     (if \<exists>c \<in> set components. hc_status c = Unhealthy then Unhealthy
      else if \<exists>c \<in> set components. hc_status c = Degraded then Degraded
      else Healthy)"

definition health_create :: "host \<Rightarrow> health_component list \<Rightarrow> jstring \<Rightarrow> health_check" where
  "health_create h components version =
     \<lparr>hk_id = js ''health-'' @ js_int (h_clock h 10) @ js ''-'' @ h_random h 1,
      hk_createdAt = h_clock h 11, hk_updatedAt = h_clock h 12,
      hk_status = aggregateStatus components, hk_components = components, hk_version = version\<rparr>"

definition health_healthy :: "host \<Rightarrow> jstring \<Rightarrow> health_check" where
  "health_healthy h version =
     health_create h
       [\<lparr>hc_name = js ''application'', hc_status = Healthy, hc_latencyMs = 0, hc_message = None\<rparr>,
        \<lparr>hc_name = js ''layers'', hc_status = Healthy, hc_latencyMs = 0, hc_message = None\<rparr>] version"

definition isHealthy :: "health_check \<Rightarrow> bool" where
  "isHealthy k \<longleftrightarrow> hk_status k = Healthy"

definition component_json :: "health_component \<Rightarrow> json" where
  "component_json c =
     JObj ([(js ''name'', JStr (hc_name c)), (js ''status'', JStr (health_name (hc_status c))),
            (js ''latencyMs'', JNum (hc_latencyMs c))] @ opt_field ''message'' (hc_message c))"

definition health_toPayload :: "host \<Rightarrow> health_check \<Rightarrow> json" where
  "health_toPayload h k =
     JObj [(js ''id'', JStr (hk_id k)), (js ''status'', JStr (health_name (hk_status k))),
           (js ''version'', JStr (hk_version k)), (js ''components'', JArr (map component_json (hk_components k))),
           (js ''timestamp'', JStr (h_iso h (hk_createdAt k)))]"

text \<open>Health statuses in order of severity.\<close>

fun severity :: "health_status \<Rightarrow> nat" where
  "severity Healthy = 0"
| "severity Degraded = 1"
| "severity Unhealthy = 2"

instantiation health_status :: linorder
begin

definition less_eq_health_status :: "health_status \<Rightarrow> health_status \<Rightarrow> bool" where
  "a \<le> b \<longleftrightarrow> severity a \<le> severity b"

definition less_health_status :: "health_status \<Rightarrow> health_status \<Rightarrow> bool" where
  "a < b \<longleftrightarrow> severity a < severity (b :: health_status)"

instance
proof
  fix a b c :: health_status
  show "a < b \<longleftrightarrow> a \<le> b \<and> \<not> b \<le> a"
    by (auto simp: less_eq_health_status_def less_health_status_def)
  show "a \<le> a" "a \<le> b \<or> b \<le> a"
    by (auto simp: less_eq_health_status_def)
  show "a \<le> b \<Longrightarrow> b \<le> c \<Longrightarrow> a \<le> c"
    by (simp add: less_eq_health_status_def)
  show "a \<le> b \<Longrightarrow> b \<le> a \<Longrightarrow> a = b"
    by (cases a; cases b) (simp_all add: less_eq_health_status_def)
qed

end

section \<open>Properties\<close>

text \<open>
  The aggregated health is the worst status of the components, healthy when there is none.
\<close>

theorem health_is_worst:
  "hk_status (health_create h components version) = Max (insert Healthy (hc_status ` set components))"
proof -
  have top: "s \<le> Unhealthy" "Healthy \<le> s" for s :: health_status
    by (cases s; simp add: less_eq_health_status_def)+
  have deg: "s \<le> Degraded \<longleftrightarrow> s \<noteq> Unhealthy" for s
    by (cases s) (simp_all add: less_eq_health_status_def)
  have low: "s \<le> Healthy \<longleftrightarrow> s = Healthy" for s
    by (cases s) (simp_all add: less_eq_health_status_def)
  have "aggregateStatus components = Max (insert Healthy (hc_status ` set components))"
  proof (rule sym, rule Max_eqI)
    show "aggregateStatus components \<in> insert Healthy (hc_status ` set components)"
      by (auto simp: aggregateStatus_def intro: rev_image_eqI)
    show "s \<le> aggregateStatus components" if "s \<in> insert Healthy (hc_status ` set components)" for s
    proof (cases s)
      case Unhealthy
      then show ?thesis using that by (auto simp: aggregateStatus_def)
    next
      case Degraded
      then have "\<exists>c \<in> set components. hc_status c = Degraded" using that by auto metis
      with Degraded show ?thesis by (auto simp: aggregateStatus_def top deg)
    qed (simp add: top)
  qed simp
  then show ?thesis by (simp add: health_create_def)
qed

lemma getUncommittedEvents_publish:
  "getUncommittedEvents (publishEvent m e) a =
     getUncommittedEvents m a @ (if ev_aggregateId e = a then [e] else [])"
  by (auto simp: getUncommittedEvents_def publishEvent_def jmap_get_set or_value_def)

text \<open>
  Events are kept per aggregate in the order of publication: publishing any events adds to each
  aggregate exactly its own, at the end, and touches no entity.
\<close>

theorem events_in_order:
  "getUncommittedEvents (foldl publishEvent m es) a =
     getUncommittedEvents m a @ filter (\<lambda>e. ev_aggregateId e = a) es \<and>
   dm_entities (foldl publishEvent m es) = dm_entities m"
  by (induction es arbitrary: m) (simp_all add: getUncommittedEvents_publish, simp_all add: publishEvent_def)

end
