(* ===== verification/AppRouter.thy ===== *)
theory AppRouter
  imports Complex_Main Interfaces RouterTypes
begin

text \<open>
  The router of the application (\<open>router/implementations/Router.ts\<close>): a list of routes searched in
  order, with segment parameters, wildcards, a match cache, route groups, statistics and metadata.
  \<open>Date.now\<close> is an argument of the operations that read it, one reading for each call; string
  lowering and regular expressions are the record \<open>js_engine\<close>, whose \<open>regexp\<close> returns no test when
  \<open>new RegExp\<close> throws. \<open>averageMatchTime\<close> is an exact fraction where the code has a double.
\<close>

section \<open>Routes\<close>

datatype route_priority = LOW | MEDIUM | HIGH | CRITICAL

datatype route_status = ACTIVE | DISABLED | DEPRECATED

datatype parameter_type = PStringT | PNumberT | PBooleanT | PUuidT | PEmailT | PDateT | PJsonT | PArrayT

datatype middleware_order = BEFORE | AFTER | BOTH

datatype cache_strategy = NoCache | MemoryCache | RedisCache | CustomCache

datatype rate_limit_scope = GlobalScope | RouteScope | UserScope | IpScope

record 'v route_parameter =
  pm_name :: jstring
  pm_type :: parameter_type
  pm_required :: bool
  pm_pattern :: "jstring option"
  pm_defaultValue :: "'v option"
  pm_description :: "jstring option"
  pm_validator :: "('v \<Rightarrow> bool) option"

record 'v app_route =
  ar_method :: http_method
  ar_path :: jstring
  ar_handler :: jstring
  ar_middleware :: "jstring list option"
  ar_parameters :: "'v route_parameter list option"
  ar_priority :: "route_priority option"
  ar_status :: "route_status option"
  ar_cache :: "cache_strategy option"
  ar_rateLimit :: "rate_limit_scope option"
  ar_tags :: "jstring list option"
  ar_description :: "jstring option"
  ar_version :: "jstring option"
  ar_group :: "jstring option"

text \<open>A route with its mandatory fields only.\<close>

definition plain_route :: "http_method \<Rightarrow> jstring \<Rightarrow> jstring \<Rightarrow> 'v app_route" where
  "plain_route m path handler =
     \<lparr>ar_method = m, ar_path = path, ar_handler = handler, ar_middleware = None, ar_parameters = None,
      ar_priority = None, ar_status = None, ar_cache = None, ar_rateLimit = None, ar_tags = None,
      ar_description = None, ar_version = None, ar_group = None\<rparr>"

record 'v route_found =
  rf_route :: "'v app_route"
  rf_parameters :: "(jstring, jstring) jmap"
  rf_wildcard :: bool
  rf_matchedSegments :: "jstring list"
  rf_matchedPattern :: jstring
  rf_matchTime :: int

text \<open>\<open>RouteMatch\<close>: \<open>{ matched: false }\<close> or all the fields.\<close>

datatype 'v route_match = Unmatched | MatchedRoute "'v route_found"

record app_router_config =
  cf_caseSensitive :: bool
  cf_strictRouting :: bool
  cf_allowWildcards :: bool
  cf_enableCaching :: bool
  cf_cacheTTL :: int
  cf_enableMetrics :: bool
  cf_enableLogging :: bool
  cf_maxRoutes :: nat
  cf_defaultPriority :: route_priority
  cf_defaultCache :: cache_strategy

record 'v route_group =
  gr_name :: jstring
  gr_prefix :: jstring
  gr_middleware :: "jstring list option"
  gr_routes :: "'v app_route list"
  gr_priority :: "route_priority option"
  gr_cache :: "cache_strategy option"
  gr_rateLimit :: "rate_limit_scope option"

record route_statistics =
  sx_totalRoutes :: nat
  sx_activeRoutes :: nat
  sx_disabledRoutes :: nat
  sx_deprecatedRoutes :: nat
  sx_totalMatches :: nat
  sx_totalMisses :: nat
  sx_averageMatchTime :: rat
  sx_routesByMethod :: "(http_method, nat) jmap"
  sx_routesByPriority :: "(route_priority, nat) jmap"

record middleware_definition =
  mw_name :: jstring
  mw_order :: middleware_order
  mw_handler :: jstring
  mw_enabled :: bool
  mw_routes :: "jstring list option"
  mw_groups :: "jstring list option"

record 'v match_cache_entry =
  ce_key :: jstring
  ce_route :: "'v route_match"
  ce_timestamp :: int
  ce_ttl :: int

record 'v route_metadata =
  md_path :: jstring
  md_method :: http_method
  md_handler :: jstring
  md_parameters :: "'v route_parameter list"
  md_middleware :: "jstring list"
  md_tags :: "jstring list"
  md_description :: jstring
  md_version :: jstring
  md_group :: jstring
  md_createdAt :: int
  md_updatedAt :: int

record 'v app_router =
  ap_routes :: "'v app_route list"
  ap_config :: app_router_config
  ap_routeGroups :: "'v route_group list"
  ap_middleware :: "middleware_definition list"
  ap_cache :: "(jstring, 'v match_cache_entry) jmap"
  ap_statistics :: route_statistics
  ap_routeMetadata :: "(jstring, 'v route_metadata) jmap"

record js_engine =
  lower_case :: "jstring \<Rightarrow> jstring"
  regexp :: "jstring \<Rightarrow> (jstring \<Rightarrow> bool) option"

section \<open>Construction and registration\<close>

definition initStatistics :: route_statistics where
  "initStatistics =
     \<lparr>sx_totalRoutes = 0, sx_activeRoutes = 0, sx_disabledRoutes = 0, sx_deprecatedRoutes = 0,
      sx_totalMatches = 0, sx_totalMisses = 0, sx_averageMatchTime = 0,
      sx_routesByMethod = jmap_empty, sx_routesByPriority = jmap_empty\<rparr>"

definition new_app_router :: "'v app_router" where
  "new_app_router =
     \<lparr>ap_routes = [],
      ap_config =
        \<lparr>cf_caseSensitive = True, cf_strictRouting = False, cf_allowWildcards = True, cf_enableCaching = False,
         cf_cacheTTL = 60000, cf_enableMetrics = False, cf_enableLogging = False, cf_maxRoutes = 1000,
         cf_defaultPriority = MEDIUM, cf_defaultCache = NoCache\<rparr>,
      ap_routeGroups = [], ap_middleware = [], ap_cache = jmap_empty, ap_statistics = initStatistics,
      ap_routeMetadata = jmap_empty\<rparr>"

definition generateRouteKey :: "http_method \<Rightarrow> jstring \<Rightarrow> jstring" where
  "generateRouteKey m path = method_name m @ [colon] @ path"

definition count_status :: "route_status \<Rightarrow> 'v app_route list \<Rightarrow> nat" where
  "count_status st rs = length (filter (\<lambda>r. ar_status r = Some st) rs)"

definition bump :: "'k \<Rightarrow> ('k, nat) jmap \<Rightarrow> ('k, nat) jmap" where
  "bump k m = jmap_set k ((case jmap_get m k of Some n \<Rightarrow> n | None \<Rightarrow> 0) + 1) m"

definition priority_of :: "'v app_route \<Rightarrow> route_priority" where
  "priority_of r = (case ar_priority r of Some p \<Rightarrow> p | None \<Rightarrow> MEDIUM)"

definition updateStatistics :: "'v app_router \<Rightarrow> 'v app_router" where
  "updateStatistics a =
     (let rs = ap_routes a in
      a\<lparr>ap_statistics := (ap_statistics a)
          \<lparr>sx_totalRoutes := length rs, sx_activeRoutes := count_status ACTIVE rs,
           sx_disabledRoutes := count_status DISABLED rs, sx_deprecatedRoutes := count_status DEPRECATED rs,
           sx_routesByMethod := foldl (\<lambda>m r. bump (ar_method r) m) jmap_empty rs,
           sx_routesByPriority := foldl (\<lambda>m r. bump (priority_of r) m) jmap_empty rs\<rparr>\<rparr>)"

definition or_else :: "'a option \<Rightarrow> 'a \<Rightarrow> 'a" where
  "or_else x d = (case x of Some v \<Rightarrow> v | None \<Rightarrow> d)"

text \<open>\<open>clock 0\<close> and \<open>clock 1\<close> are the two readings of \<open>Date.now\<close>.\<close>

definition updateRouteMetadata :: "(nat \<Rightarrow> int) \<Rightarrow> 'v app_route \<Rightarrow> 'v app_router \<Rightarrow> 'v app_router" where
  "updateRouteMetadata clock route a =
     a\<lparr>ap_routeMetadata := jmap_set (generateRouteKey (ar_method route) (ar_path route))
         \<lparr>md_path = ar_path route, md_method = ar_method route, md_handler = ar_handler route,
          md_parameters = or_else (ar_parameters route) [], md_middleware = or_else (ar_middleware route) [],
          md_tags = or_else (ar_tags route) [], md_description = or_else (ar_description route) [],
          md_version = or_else (ar_version route) [], md_group = or_else (ar_group route) [],
          md_createdAt = clock 0, md_updatedAt = clock 1\<rparr>
         (ap_routeMetadata a)\<rparr>"

datatype app_router_error = MaxRoutesReached nat | RegexSyntaxError

text \<open>The defaults come first, so a field of the route replaces them.\<close>

definition with_defaults :: "app_router_config \<Rightarrow> 'v app_route \<Rightarrow> 'v app_route" where
  "with_defaults cfg route =
     route\<lparr>ar_priority := Some (or_else (ar_priority route) (cf_defaultPriority cfg)),
           ar_status := Some (or_else (ar_status route) ACTIVE)\<rparr>"

definition registerRoute ::
  "(nat \<Rightarrow> int) \<Rightarrow> 'v app_router \<Rightarrow> 'v app_route \<Rightarrow> 'v app_router \<times> (app_router_error + unit)" where
  "registerRoute clock a route =
     (if length (ap_routes a) \<ge> cf_maxRoutes (ap_config a)
      then (a, Inl (MaxRoutesReached (cf_maxRoutes (ap_config a))))
      else
        let r = with_defaults (ap_config a) route in
        (updateRouteMetadata clock r (updateStatistics (a\<lparr>ap_routes := ap_routes a @ [r]\<rparr>)), Inr ()))"

section \<open>Matching\<close>

fun split_on :: "16 word \<Rightarrow> jstring \<Rightarrow> jstring list" where
  "split_on d [] = [[]]"
| "split_on d (c # cs) =
     (if c = d then [] # split_on d cs
      else case split_on d cs of s # ss \<Rightarrow> (c # s) # ss | [] \<Rightarrow> [[c]])"

text \<open>The loop over the route's segments; a request segment past the end is \<open>undefined\<close>.\<close>

fun segments_match :: "jstring list \<Rightarrow> jstring list \<Rightarrow> bool" where
  "segments_match [] qs = True"
| "segments_match (r # rs) qs =
     (let q = (case qs of [] \<Rightarrow> [] | q # _ \<Rightarrow> q) in
      if r = [] \<and> q = [] then segments_match rs (tl qs)
      else if r = [star] \<or> take 1 r = [colon] then segments_match rs (tl qs)
      else if q = [] \<or> r \<noteq> q then False
      else segments_match rs (tl qs))"

text \<open>\<open>replace(/\*/g, '.*')\<close>.\<close>

definition wildcard_pattern :: "jstring \<Rightarrow> jstring" where
  "wildcard_pattern path = js ''^'' @ concat (map (\<lambda>c. if c = star then js ''.*'' else [c]) path) @ js ''$''"

definition matchPath :: "js_engine \<Rightarrow> app_router_config \<Rightarrow> jstring \<Rightarrow> jstring \<Rightarrow> app_router_error + bool" where
  "matchPath engine cfg routePath requestPath =
     (let norm = (if cf_caseSensitive cfg then (\<lambda>s. s) else lower_case engine);
          route = norm routePath;
          request = norm requestPath in
      if route = request then Inr True
      else if cf_allowWildcards cfg \<and> star \<in> set route then
        (case regexp engine (wildcard_pattern route) of None \<Rightarrow> Inl RegexSyntaxError | Some test \<Rightarrow> Inr (test request))
      else
        let rs = split_on slash route; qs = split_on slash request in
        if length rs \<noteq> length qs \<and> \<not> cf_strictRouting cfg then Inr False
        else Inr (segments_match rs qs))"

fun extract_segments :: "jstring list \<Rightarrow> jstring list \<Rightarrow> (jstring, jstring) jmap \<Rightarrow> (jstring, jstring) jmap" where
  "extract_segments [] qs ps = ps"
| "extract_segments (r # rs) qs ps =
     extract_segments rs (tl qs)
       (if take 1 r = [colon] then jmap_set (tl r) (case qs of [] \<Rightarrow> [] | q # _ \<Rightarrow> q) ps else ps)"

definition extractParameters :: "jstring \<Rightarrow> jstring \<Rightarrow> (jstring, jstring) jmap" where
  "extractParameters routePath requestPath =
     extract_segments (split_on slash routePath) (split_on slash requestPath) jmap_empty"

text \<open>\<open>find\<close> stops at the first hit; a pattern that is no regular expression throws when it is reached.\<close>

fun find_route ::
  "js_engine \<Rightarrow> app_router_config \<Rightarrow> http_method \<Rightarrow> jstring \<Rightarrow> 'v app_route list \<Rightarrow>
     app_router_error + 'v app_route option" where
  "find_route engine cfg m path [] = Inr None"
| "find_route engine cfg m path (r # rs) =
     (if ar_status r \<noteq> Some ACTIVE \<or> ar_method r \<noteq> m then find_route engine cfg m path rs
      else case matchPath engine cfg (ar_path r) path of
          Inl e \<Rightarrow> Inl e
        | Inr True \<Rightarrow> Inr (Some r)
        | Inr False \<Rightarrow> find_route engine cfg m path rs)"

definition updateAverageMatchTime :: "int \<Rightarrow> route_statistics \<Rightarrow> route_statistics" where
  "updateAverageMatchTime t st =
     (let n = sx_totalMatches st + sx_totalMisses st in
      if n > 0
      then st\<lparr>sx_averageMatchTime := (sx_averageMatchTime st * of_nat (n - 1) + of_int t) / of_nat n\<rparr>
      else st)"

text \<open>
  The readings of the clock in \<open>match\<close>: the start, the test of the cached entry, the end, and the
  new entry's timestamp.
\<close>

definition app_match ::
  "js_engine \<Rightarrow> (nat \<Rightarrow> int) \<Rightarrow> 'v app_router \<Rightarrow> http_method \<Rightarrow> jstring \<Rightarrow>
     'v app_router \<times> (app_router_error + 'v route_match)" where
  "app_match engine clock a m path =
     (let key = generateRouteKey m path;
          counted = (\<lambda>a. a\<lparr>ap_statistics := (ap_statistics a)
            \<lparr>sx_totalMatches := sx_totalMatches (ap_statistics a) + 1\<rparr>\<rparr>);
          hit = (if cf_enableCaching (ap_config a) then
                   (case jmap_get (ap_cache a) key of
                      Some cached \<Rightarrow> if clock 1 - ce_timestamp cached < ce_ttl cached then Some cached else None
                    | None \<Rightarrow> None)
                 else None) in
      case hit of
        Some cached \<Rightarrow> (counted a, Inr (ce_route cached))
      | None \<Rightarrow>
          (case find_route engine (ap_config a) m path (ap_routes a) of
             Inl e \<Rightarrow> (a, Inl e)
           | Inr None \<Rightarrow>
               (a\<lparr>ap_statistics := (ap_statistics a)\<lparr>sx_totalMisses := sx_totalMisses (ap_statistics a) + 1\<rparr>\<rparr>,
                Inr Unmatched)
           | Inr (Some r) \<Rightarrow>
               (let result = MatchedRoute
                      \<lparr>rf_route = r, rf_parameters = extractParameters (ar_path r) path,
                       rf_wildcard = (star \<in> set (ar_path r)), rf_matchedSegments = split_on slash path,
                       rf_matchedPattern = ar_path r, rf_matchTime = clock 2 - clock 0\<rparr>;
                    a' = (if cf_enableCaching (ap_config a)
                      then a\<lparr>ap_cache := jmap_set key
                             \<lparr>ce_key = key, ce_route = result, ce_timestamp = clock 3, ce_ttl = cf_cacheTTL (ap_config a)\<rparr>
                             (ap_cache a)\<rparr>
                      else a);
                    a'' = counted a' in
                (a''\<lparr>ap_statistics := updateAverageMatchTime (clock 2 - clock 0) (ap_statistics a'')\<rparr>, Inr result))))"

section \<open>Changing routes\<close>

definition app_removeRoute :: "'v app_router \<Rightarrow> http_method \<Rightarrow> jstring \<Rightarrow> 'v app_router" where
  "app_removeRoute a m path =
     (let key = generateRouteKey m path in
      updateStatistics
        (a\<lparr>ap_routes := filter (\<lambda>r. ar_method r \<noteq> m \<or> ar_path r \<noteq> path) (ap_routes a),
           ap_cache := jmap_delete key (ap_cache a),
           ap_routeMetadata := jmap_delete key (ap_routeMetadata a)\<rparr>))"

definition clearRoutes :: "'v app_router \<Rightarrow> 'v app_router" where
  "clearRoutes a =
     a\<lparr>ap_routes := [], ap_cache := jmap_empty, ap_routeMetadata := jmap_empty, ap_statistics := initStatistics\<rparr>"

definition setConfig :: "(app_router_config \<Rightarrow> app_router_config) \<Rightarrow> 'v app_router \<Rightarrow> 'v app_router" where
  "setConfig change a = a\<lparr>ap_config := change (ap_config a)\<rparr>"

text \<open>The group's name and middleware are put on each route; the routes before a refused one stay.\<close>

definition in_group :: "'v route_group \<Rightarrow> 'v app_route \<Rightarrow> 'v app_route" where
  "in_group g r =
     r\<lparr>ar_group := Some (gr_name g),
       ar_middleware := Some (or_else (gr_middleware g) [] @ or_else (ar_middleware r) [])\<rparr>"

fun register_all ::
  "(nat \<Rightarrow> int) \<Rightarrow> 'v app_router \<Rightarrow> 'v app_route list \<Rightarrow> 'v app_router \<times> (app_router_error + unit)" where
  "register_all clock a [] = (a, Inr ())"
| "register_all clock a (r # rs) =
     (case registerRoute clock a r of
        (a', Inl e) \<Rightarrow> (a', Inl e)
      | (a', Inr _) \<Rightarrow> register_all clock a' rs)"

definition registerRouteGroup ::
  "(nat \<Rightarrow> int) \<Rightarrow> 'v app_router \<Rightarrow> 'v route_group \<Rightarrow> 'v app_router \<times> (app_router_error + unit)" where
  "registerRouteGroup clock a g =
     register_all clock (a\<lparr>ap_routeGroups := ap_routeGroups a @ [g]\<rparr>) (map (in_group g) (gr_routes g))"

definition removeRouteGroup :: "'v app_router \<Rightarrow> jstring \<Rightarrow> 'v app_router" where
  "removeRouteGroup a name =
     updateStatistics
       (a\<lparr>ap_routeGroups := filter (\<lambda>g. gr_name g \<noteq> name) (ap_routeGroups a),
          ap_routes := filter (\<lambda>r. ar_group r \<noteq> Some name) (ap_routes a)\<rparr>)"

definition getRoute :: "'v app_router \<Rightarrow> http_method \<Rightarrow> jstring \<Rightarrow> 'v app_route option" where
  "getRoute a m path = find (\<lambda>r. ar_method r = m \<and> ar_path r = path) (ap_routes a)"

fun update_first :: "('a \<Rightarrow> bool) \<Rightarrow> ('a \<Rightarrow> 'a) \<Rightarrow> 'a list \<Rightarrow> 'a list" where
  "update_first p f [] = []"
| "update_first p f (x # xs) = (if p x then f x # xs else x # update_first p f xs)"

text \<open>\<open>updates\<close> is the spread of a \<open>Partial<Route>\<close>; statistics are the caller's business.\<close>

definition updateRoute ::
  "(nat \<Rightarrow> int) \<Rightarrow> 'v app_router \<Rightarrow> http_method \<Rightarrow> jstring \<Rightarrow> ('v app_route \<Rightarrow> 'v app_route) \<Rightarrow> 'v app_router" where
  "updateRoute clock a m path change =
     (case getRoute a m path of
        None \<Rightarrow> a
      | Some r \<Rightarrow>
          updateRouteMetadata clock (change r)
            (a\<lparr>ap_routes := update_first (\<lambda>r. ar_method r = m \<and> ar_path r = path) change (ap_routes a)\<rparr>))"

definition setRouteStatus ::
  "(nat \<Rightarrow> int) \<Rightarrow> 'v app_router \<Rightarrow> http_method \<Rightarrow> jstring \<Rightarrow> route_status \<Rightarrow> 'v app_router" where
  "setRouteStatus clock a m path st = updateStatistics (updateRoute clock a m path (\<lambda>r. r\<lparr>ar_status := Some st\<rparr>))"

definition setRoutePriority ::
  "(nat \<Rightarrow> int) \<Rightarrow> 'v app_router \<Rightarrow> http_method \<Rightarrow> jstring \<Rightarrow> route_priority \<Rightarrow> 'v app_router" where
  "setRoutePriority clock a m path p = updateStatistics (updateRoute clock a m path (\<lambda>r. r\<lparr>ar_priority := Some p\<rparr>))"

definition enableRoute :: "(nat \<Rightarrow> int) \<Rightarrow> 'v app_router \<Rightarrow> http_method \<Rightarrow> jstring \<Rightarrow> 'v app_router" where
  "enableRoute clock a m path = setRouteStatus clock a m path ACTIVE"

definition disableRoute :: "(nat \<Rightarrow> int) \<Rightarrow> 'v app_router \<Rightarrow> http_method \<Rightarrow> jstring \<Rightarrow> 'v app_router" where
  "disableRoute clock a m path = setRouteStatus clock a m path DISABLED"

definition registerMiddleware :: "middleware_definition \<Rightarrow> 'v app_router \<Rightarrow> 'v app_router" where
  "registerMiddleware w a = a\<lparr>ap_middleware := ap_middleware a @ [w]\<rparr>"

definition removeMiddleware :: "jstring \<Rightarrow> 'v app_router \<Rightarrow> 'v app_router" where
  "removeMiddleware name a = a\<lparr>ap_middleware := filter (\<lambda>w. mw_name w \<noteq> name) (ap_middleware a)\<rparr>"

definition enableMiddleware :: "jstring \<Rightarrow> 'v app_router \<Rightarrow> 'v app_router" where
  "enableMiddleware name a =
     a\<lparr>ap_middleware := update_first (\<lambda>w. mw_name w = name) (\<lambda>w. w\<lparr>mw_enabled := True\<rparr>) (ap_middleware a)\<rparr>"

definition disableMiddleware :: "jstring \<Rightarrow> 'v app_router \<Rightarrow> 'v app_router" where
  "disableMiddleware name a =
     a\<lparr>ap_middleware := update_first (\<lambda>w. mw_name w = name) (\<lambda>w. w\<lparr>mw_enabled := False\<rparr>) (ap_middleware a)\<rparr>"

definition resetStatistics :: "'v app_router \<Rightarrow> 'v app_router" where
  "resetStatistics a = a\<lparr>ap_statistics := initStatistics\<rparr>"

definition clearCache :: "'v app_router \<Rightarrow> 'v app_router" where
  "clearCache a = a\<lparr>ap_cache := jmap_empty\<rparr>"

section \<open>Queries\<close>

record route_filter =
  fl_method :: "http_method option"
  fl_path :: "jstring option"
  fl_pathPattern :: "jstring option"
  fl_priority :: "route_priority option"
  fl_status :: "route_status option"
  fl_tags :: "jstring list option"
  fl_group :: "jstring option"
  fl_version :: "jstring option"
  fl_limit :: "int option"

definition has_tag :: "jstring \<Rightarrow> 'v app_route \<Rightarrow> bool" where
  "has_tag tag r \<longleftrightarrow> (case ar_tags r of None \<Rightarrow> False | Some ts \<Rightarrow> tag \<in> set ts)"

text \<open>A filter on an optional text is off when it is absent or empty.\<close>

definition text_filter :: "jstring option \<Rightarrow> ('v app_route \<Rightarrow> jstring option) \<Rightarrow> 'v app_route list \<Rightarrow> 'v app_route list" where
  "text_filter x field rs =
     (case x of None \<Rightarrow> rs | Some s \<Rightarrow> if s = [] then rs else filter (\<lambda>r. field r = Some s) rs)"

text \<open>\<open>slice(0, limit)\<close>: a negative limit counts from the end.\<close>

definition limit_to :: "int option \<Rightarrow> 'a list \<Rightarrow> 'a list" where
  "limit_to l xs =
     (case l of
        None \<Rightarrow> xs
      | Some n \<Rightarrow> if 0 \<le> n then take (nat n) xs else take (nat (int (length xs) + n)) xs)"

definition getFilteredRoutes :: "js_engine \<Rightarrow> 'v app_router \<Rightarrow> route_filter \<Rightarrow> app_router_error + 'v app_route list" where
  "getFilteredRoutes engine a f =
     (let rs = ap_routes a;
          rs = (case fl_method f of None \<Rightarrow> rs | Some m \<Rightarrow> filter (\<lambda>r. ar_method r = m) rs);
          rs = text_filter (fl_path f) (\<lambda>r. Some (ar_path r)) rs;
          tested = (case fl_pathPattern f of
            None \<Rightarrow> Inr rs
          | Some p \<Rightarrow> if p = [] then Inr rs
              else (case regexp engine p of None \<Rightarrow> Inl RegexSyntaxError | Some test \<Rightarrow> Inr (filter (\<lambda>r. test (ar_path r)) rs))) in
      case tested of
        Inl e \<Rightarrow> Inl e
      | Inr rs \<Rightarrow>
          (let rs = (case fl_priority f of None \<Rightarrow> rs | Some p \<Rightarrow> filter (\<lambda>r. ar_priority r = Some p) rs);
               rs = (case fl_status f of None \<Rightarrow> rs | Some st \<Rightarrow> filter (\<lambda>r. ar_status r = Some st) rs);
               rs = (case fl_tags f of None \<Rightarrow> rs
                     | Some ts \<Rightarrow> if ts = [] then rs else filter (\<lambda>r. \<exists>t \<in> set ts. has_tag t r) rs);
               rs = text_filter (fl_group f) ar_group rs;
               rs = text_filter (fl_version f) ar_version rs
           in Inr (limit_to (fl_limit f) rs)))"

definition getRouteMetadata :: "'v app_router \<Rightarrow> http_method \<Rightarrow> jstring \<Rightarrow> 'v route_metadata option" where
  "getRouteMetadata a m path = jmap_get (ap_routeMetadata a) (generateRouteKey m path)"

definition getAllRouteMetadata :: "'v app_router \<Rightarrow> 'v route_metadata list" where
  "getAllRouteMetadata a = jmap_values (ap_routeMetadata a)"

definition getRoutesByTag :: "'v app_router \<Rightarrow> jstring \<Rightarrow> 'v app_route list" where
  "getRoutesByTag a tag = filter (has_tag tag) (ap_routes a)"

definition getRoutesByGroup :: "'v app_router \<Rightarrow> jstring \<Rightarrow> 'v app_route list" where
  "getRoutesByGroup a g = filter (\<lambda>r. ar_group r = Some g) (ap_routes a)"

definition getRoutesByMethod :: "'v app_router \<Rightarrow> http_method \<Rightarrow> 'v app_route list" where
  "getRoutesByMethod a m = filter (\<lambda>r. ar_method r = m) (ap_routes a)"

definition getRoutesByStatus :: "'v app_router \<Rightarrow> route_status \<Rightarrow> 'v app_route list" where
  "getRoutesByStatus a st = filter (\<lambda>r. ar_status r = Some st) (ap_routes a)"

definition getRoutesByPriority :: "'v app_router \<Rightarrow> route_priority \<Rightarrow> 'v app_route list" where
  "getRoutesByPriority a p = filter (\<lambda>r. ar_priority r = Some p) (ap_routes a)"

section \<open>Validation\<close>

record validation_issue =
  vi_path :: jstring
  vi_field :: jstring
  vi_message :: jstring
  vi_code :: jstring

record validation_result =
  vr_valid :: bool
  vr_errors :: "validation_issue list"
  vr_warnings :: "validation_issue list"

definition required_error :: "jstring \<Rightarrow> string \<Rightarrow> string \<Rightarrow> validation_issue" where
  "required_error path field message =
     \<lparr>vi_path = path, vi_field = js field, vi_message = js message, vi_code = js ''REQUIRED''\<rparr>"

definition validateRoute :: "'v app_route \<Rightarrow> validation_result" where
  "validateRoute route =
     (let ps = or_else (ar_parameters route) [];
          errors =
            (if ar_path route = [] then [required_error (ar_path route) ''path'' ''Path is required''] else [])
            @ (if ar_handler route = [] then [required_error (ar_path route) ''handler'' ''Handler is required''] else [])
            @ concat (map (\<lambda>p. if pm_name p = []
                then [required_error (ar_path route) ''parameter.name'' ''Parameter name is required''] else []) ps);
          warnings =
            concat (map (\<lambda>p. if pm_pattern p \<noteq> None \<and> pm_required p \<and> Option.is_none (pm_defaultValue p)
                then [\<lparr>vi_path = ar_path route, vi_field = js ''parameter'',
                       vi_message = js ''Required parameter with pattern should have default value'',
                       vi_code = js ''BEST_PRACTICE''\<rparr>] else []) ps)
      in \<lparr>vr_valid = (errors = []), vr_errors = errors, vr_warnings = warnings\<rparr>)"

definition validateAllRoutes :: "'v app_router \<Rightarrow> validation_result list" where
  "validateAllRoutes a = map validateRoute (ap_routes a)"

section \<open>Paths made of segments\<close>

definition path_of :: "jstring list \<Rightarrow> jstring" where
  "path_of segs = concat (map (\<lambda>s. slash # s) segs)"

definition no_slash :: "jstring \<Rightarrow> bool" where
  "no_slash s \<longleftrightarrow> slash \<notin> set s"

lemma split_on_ne [simp]: "split_on d s \<noteq> []"
  by (induction s) (auto split: list.split)

lemma split_on_append: "d \<notin> set s \<Longrightarrow> split_on d (s @ d # t) = s # split_on d t"
  by (induction s) auto

lemma split_on_single: "d \<notin> set s \<Longrightarrow> split_on d s = [s]"
  by (induction s) auto

lemma split_path: "\<forall>s \<in> set segs. no_slash s \<Longrightarrow> no_slash s0 \<Longrightarrow> split_on slash (s0 @ path_of segs) = s0 # segs"
proof (induction segs arbitrary: s0)
  case Nil
  then show ?case by (simp add: path_of_def no_slash_def split_on_single)
next
  case (Cons s segs)
  then have "split_on slash (s0 @ slash # (s @ path_of segs)) = s0 # split_on slash (s @ path_of segs)"
    by (intro split_on_append) (simp add: no_slash_def)
  with Cons show ?case by (simp add: path_of_def)
qed

lemma split_path_of [simp]: "\<forall>s \<in> set segs. no_slash s \<Longrightarrow> split_on slash (path_of segs) = [] # segs"
  using split_path [of segs "[]"] by (simp add: no_slash_def)

lemma path_of_inject:
  "\<forall>s \<in> set segs. no_slash s \<Longrightarrow> \<forall>s \<in> set segs'. no_slash s \<Longrightarrow> path_of segs = path_of segs' \<longleftrightarrow> segs = segs'"
  by (metis split_path_of list.inject)

text \<open>A pattern's segments: literals and named parameters, and what they read.\<close>

datatype segment = Lit jstring | Par jstring

fun segment_text :: "segment \<Rightarrow> jstring" where
  "segment_text (Lit s) = s"
| "segment_text (Par name) = colon # name"

fun segment_ok :: "segment \<Rightarrow> bool" where
  "segment_ok (Lit s) \<longleftrightarrow> no_slash s \<and> star \<notin> set s \<and> take 1 s \<noteq> [colon]"
| "segment_ok (Par name) \<longleftrightarrow> no_slash name \<and> star \<notin> set name"

fun fill :: "segment list \<Rightarrow> jstring list \<Rightarrow> jstring list" where
  "fill [] vs = []"
| "fill (Lit s # segs) vs = s # fill segs vs"
| "fill (Par name # segs) (v # vs) = v # fill segs vs"
| "fill (Par name # segs) [] = [] # fill segs []"

fun par_names :: "segment list \<Rightarrow> jstring list" where
  "par_names [] = []"
| "par_names (Lit s # segs) = par_names segs"
| "par_names (Par name # segs) = name # par_names segs"

lemma segment_text_clean: "segment_ok g \<Longrightarrow> no_slash (segment_text g) \<and> star \<notin> set (segment_text g)"
  by (cases g) (auto simp: no_slash_def)

lemma segments_match_fill:
  "\<forall>g \<in> set segs. segment_ok g \<Longrightarrow> segments_match (map segment_text segs) (fill segs vs)"
  by (induction segs vs rule: fill.induct) auto

lemma length_fill [simp]: "length (fill segs vs) = length segs"
  by (induction segs vs rule: fill.induct) auto

lemma fill_no_slash: "\<forall>g \<in> set segs. segment_ok g \<Longrightarrow> \<forall>v \<in> set vs. no_slash v \<Longrightarrow> \<forall>s \<in> set (fill segs vs). no_slash s"
  by (induction segs vs rule: fill.induct) (auto simp: no_slash_def)

lemma jmap_get_extract:
  "\<forall>g \<in> set segs. segment_ok g \<Longrightarrow> distinct (par_names segs) \<Longrightarrow> length vs = length (par_names segs) \<Longrightarrow>
     jmap_get (extract_segments (map segment_text segs) (fill segs vs) ps) x =
       (case map_of (zip (par_names segs) vs) x of Some v \<Rightarrow> Some v | None \<Rightarrow> jmap_get ps x)"
proof (induction segs vs arbitrary: ps rule: fill.induct)
  case (3 name segs v vs)
  have none: "map_of (zip (par_names segs) vs) name = None"
    using "3.prems" by (simp add: map_of_zip_is_None)
  have "jmap_get (extract_segments (map segment_text segs) (fill segs vs) (jmap_set name v ps)) x =
      (case map_of (zip (par_names segs) vs) x of Some v \<Rightarrow> Some v | None \<Rightarrow> jmap_get (jmap_set name v ps) x)"
    using "3.prems" by (intro "3.IH") simp_all
  with none show ?case
    by (cases "x = name") (simp_all split: option.split)
qed (auto simp: jmap_get_set)

lemma star_path_of: "star \<in> set (path_of segs) \<longleftrightarrow> (\<exists>s \<in> set segs. star \<in> set s)"
  by (auto simp: path_of_def)

section \<open>Statistics\<close>

datatype 'v app_router_op =
    OpRegister "nat \<Rightarrow> int" "'v app_route"
  | OpRegisterGroup "nat \<Rightarrow> int" "'v route_group"
  | OpRemove http_method jstring
  | OpRemoveGroup jstring
  | OpClear
  | OpStatus "nat \<Rightarrow> int" http_method jstring route_status
  | OpPriority "nat \<Rightarrow> int" http_method jstring route_priority
  | OpMatch "nat \<Rightarrow> int" http_method jstring
  | OpConfig "app_router_config \<Rightarrow> app_router_config"
  | OpAddMiddleware middleware_definition
  | OpRemoveMiddleware jstring
  | OpSwitchMiddleware bool jstring
  | OpClearCache

fun app_router_step :: "js_engine \<Rightarrow> 'v app_router \<Rightarrow> 'v app_router_op \<Rightarrow> 'v app_router" where
  "app_router_step engine a (OpRegister clock r) = fst (registerRoute clock a r)"
| "app_router_step engine a (OpRegisterGroup clock g) = fst (registerRouteGroup clock a g)"
| "app_router_step engine a (OpRemove m path) = app_removeRoute a m path"
| "app_router_step engine a (OpRemoveGroup name) = removeRouteGroup a name"
| "app_router_step engine a OpClear = clearRoutes a"
| "app_router_step engine a (OpStatus clock m path st) = setRouteStatus clock a m path st"
| "app_router_step engine a (OpPriority clock m path p) = setRoutePriority clock a m path p"
| "app_router_step engine a (OpMatch clock m path) = fst (app_match engine clock a m path)"
| "app_router_step engine a (OpConfig change) = setConfig change a"
| "app_router_step engine a (OpAddMiddleware w) = registerMiddleware w a"
| "app_router_step engine a (OpRemoveMiddleware name) = removeMiddleware name a"
| "app_router_step engine a (OpSwitchMiddleware on name) =
     (if on then enableMiddleware name a else disableMiddleware name a)"
| "app_router_step engine a OpClearCache = clearCache a"

text \<open>The statistics describe the routes, and every route has a status.\<close>

definition tally :: "('v app_route \<Rightarrow> 'k) \<Rightarrow> 'v app_route list \<Rightarrow> ('k, nat) jmap" where
  "tally f rs = foldl (\<lambda>m r. bump (f r) m) jmap_empty rs"

definition stats_of :: "'v app_route list \<Rightarrow> route_statistics \<Rightarrow> bool" where
  "stats_of rs st \<longleftrightarrow>
     sx_totalRoutes st = length rs \<and> sx_activeRoutes st = count_status ACTIVE rs \<and>
     sx_disabledRoutes st = count_status DISABLED rs \<and> sx_deprecatedRoutes st = count_status DEPRECATED rs \<and>
     sx_routesByMethod st = tally ar_method rs \<and> sx_routesByPriority st = tally priority_of rs"

definition app_router_inv :: "'v app_router \<Rightarrow> bool" where
  "app_router_inv a \<longleftrightarrow> stats_of (ap_routes a) (ap_statistics a) \<and> (\<forall>r \<in> set (ap_routes a). ar_status r \<noteq> None)"

lemma stats_update [simp]: "stats_of (ap_routes a) (ap_statistics (updateStatistics a))"
  by (simp add: updateStatistics_def stats_of_def tally_def Let_def)

lemma routes_updateStatistics [simp]: "ap_routes (updateStatistics a) = ap_routes a"
  by (simp add: updateStatistics_def Let_def)

lemma metadata_fields [simp]:
  "ap_routes (updateRouteMetadata clock r a) = ap_routes a"
  "ap_statistics (updateRouteMetadata clock r a) = ap_statistics a"
  "ap_cache (updateRouteMetadata clock r a) = ap_cache a"
  "ap_config (updateRouteMetadata clock r a) = ap_config a"
  by (simp_all add: updateRouteMetadata_def)

lemma app_router_inv_update:
  "(\<forall>r \<in> set (ap_routes a). ar_status r \<noteq> None) \<Longrightarrow> app_router_inv (updateStatistics a)"
  by (simp add: app_router_inv_def)

lemma app_router_inv_register: "app_router_inv a \<Longrightarrow> app_router_inv (fst (registerRoute clock a r))"
  using stats_update [of "a\<lparr>ap_routes := ap_routes a @ [with_defaults (ap_config a) r]\<rparr>"]
  by (auto simp: registerRoute_def Let_def app_router_inv_def with_defaults_def)

lemma app_router_inv_register_all: "app_router_inv a \<Longrightarrow> app_router_inv (fst (register_all clock a rs))"
proof (induction rs arbitrary: a)
  case (Cons r rs)
  then show ?case
    using app_router_inv_register [of a clock r] by (cases "registerRoute clock a r") (auto split: sum.split)
qed simp

lemma update_first_preserves:
  "(\<And>x. x \<in> set xs \<Longrightarrow> P x) \<Longrightarrow> (\<And>x. P x \<Longrightarrow> P (f x)) \<Longrightarrow> \<forall>x \<in> set (update_first p f xs). P x"
  by (induction xs) auto

lemma updateRoute_status:
  assumes "\<forall>r \<in> set (ap_routes a). ar_status r \<noteq> None" and "\<And>r. ar_status r \<noteq> None \<Longrightarrow> ar_status (change r) \<noteq> None"
  shows "\<forall>r \<in> set (ap_routes (updateRoute clock a m path change)). ar_status r \<noteq> None"
proof (cases "getRoute a m path")
  case None
  with assms(1) show ?thesis by (simp add: updateRoute_def)
next
  case (Some r)
  have "\<forall>r \<in> set (update_first (\<lambda>r. ar_method r = m \<and> ar_path r = path) change (ap_routes a)). ar_status r \<noteq> None"
    using assms by (intro update_first_preserves) blast+
  with Some show ?thesis by (simp add: updateRoute_def)
qed

lemma stats_counters [simp]:
  "stats_of rs (st\<lparr>sx_totalMatches := n\<rparr>) = stats_of rs st"
  "stats_of rs (st\<lparr>sx_totalMisses := n\<rparr>) = stats_of rs st"
  "stats_of rs (updateAverageMatchTime t st) = stats_of rs st"
  by (simp_all add: stats_of_def updateAverageMatchTime_def Let_def)

lemma app_match_fields:
  "ap_routes (fst (app_match engine clock a m path)) = ap_routes a"
  "stats_of rs (ap_statistics (fst (app_match engine clock a m path))) = stats_of rs (ap_statistics a)"
  by (auto simp: app_match_def Let_def split: option.split sum.split)

lemma app_router_inv_step: "app_router_inv a \<Longrightarrow> app_router_inv (app_router_step engine a e)"
proof (cases e)
  case (OpRegister clock r)
  then show "app_router_inv a \<Longrightarrow> ?thesis" by (simp add: app_router_inv_register)
next
  case (OpRegisterGroup clock g)
  have "app_router_inv a \<Longrightarrow> app_router_inv (a\<lparr>ap_routeGroups := gs\<rparr>)" for gs
    by (simp add: app_router_inv_def)
  with OpRegisterGroup show "app_router_inv a \<Longrightarrow> ?thesis"
    by (simp add: registerRouteGroup_def app_router_inv_register_all)
next
  case (OpStatus clock m path st)
  then show "app_router_inv a \<Longrightarrow> ?thesis"
    by (simp add: setRouteStatus_def) (intro app_router_inv_update updateRoute_status; simp add: app_router_inv_def)
next
  case (OpPriority clock m path p)
  then show "app_router_inv a \<Longrightarrow> ?thesis"
    by (simp add: setRoutePriority_def) (intro app_router_inv_update updateRoute_status; simp add: app_router_inv_def)
next
  case (OpMatch clock m path)
  then show "app_router_inv a \<Longrightarrow> ?thesis"
    by (simp add: app_router_inv_def app_match_fields)
next
  case OpClear
  then show "app_router_inv a \<Longrightarrow> ?thesis"
    by (simp add: app_router_inv_def clearRoutes_def initStatistics_def stats_of_def count_status_def tally_def)
next
  case (OpRemove m path)
  then show "app_router_inv a \<Longrightarrow> ?thesis"
    by (simp add: app_removeRoute_def Let_def) (intro app_router_inv_update; simp add: app_router_inv_def)
next
  case (OpRemoveGroup name)
  then show "app_router_inv a \<Longrightarrow> ?thesis"
    by (simp add: removeRouteGroup_def) (intro app_router_inv_update; simp add: app_router_inv_def)
qed (simp_all add: app_router_inv_def setConfig_def
    registerMiddleware_def removeMiddleware_def enableMiddleware_def disableMiddleware_def clearCache_def Let_def)

interpretation app_routers: invariant_machine "app_router_step engine" app_router_inv for engine
  by unfold_locales (rule app_router_inv_step)

definition app_router_after :: "js_engine \<Rightarrow> 'v app_router_op list \<Rightarrow> 'v app_router" where
  "app_router_after engine ops = foldl (app_router_step engine) new_app_router ops"

lemma app_router_inv_new [simp]: "app_router_inv new_app_router"
  by (simp add: app_router_inv_def new_app_router_def initStatistics_def stats_of_def count_status_def tally_def)

lemma count_status_sum:
  "\<forall>r \<in> set rs. ar_status r \<noteq> None \<Longrightarrow>
     count_status ACTIVE rs + count_status DISABLED rs + count_status DEPRECATED rs = length rs"
proof (induction rs)
  case (Cons r rs)
  then obtain st where "ar_status r = Some st" by auto
  with Cons show ?case
    by (cases st) (auto simp: count_status_def)
qed (simp add: count_status_def)

lemma tally_count: "or_else (jmap_get (tally f rs) k) 0 = length (filter (\<lambda>r. f r = k) rs)"
  by (induction rs rule: rev_induct) (auto simp: tally_def bump_def jmap_get_set or_else_def split: option.splits)

section \<open>Properties\<close>

lemma matchPath_path_of:
  assumes "\<forall>g \<in> set segs. segment_ok g" and "\<forall>v \<in> set vs. no_slash v" and "cf_caseSensitive cfg"
  shows "matchPath engine cfg (path_of (map segment_text segs)) (path_of (fill segs vs)) = Inr True"
proof -
  have clean: "\<forall>s \<in> set (map segment_text segs). no_slash s" "star \<notin> set (path_of (map segment_text segs))"
    using assms(1) segment_text_clean by (auto simp: star_path_of)
  then show ?thesis
    using fill_no_slash [OF assms(1,2)] segments_match_fill [OF assms(1), of vs] assms(3)
    by (simp add: matchPath_def Let_def)
qed

lemma find_route_append:
  "find_route engine cfg m path rs = Inr None \<Longrightarrow> find_route engine cfg m path (rs @ ss) = find_route engine cfg m path ss"
  by (induction rs) (auto split: if_splits sum.splits bool.splits)

text \<open>
  A registered route serves the instances of its pattern: the path got by filling its parameters
  with any slash-free values matches it, and the values are read back, when no earlier route takes the path.
\<close>

theorem app_route_roundtrip:
  assumes "\<forall>g \<in> set segs. segment_ok g" and "\<forall>v \<in> set vs. no_slash v" and "length vs = length (par_names segs)"
    and "distinct (par_names segs)" and "registerRoute clock a r = (a', Inr ())"
    and "ar_path r = path_of (map segment_text segs)" and "or_else (ar_status r) ACTIVE = ACTIVE"
    and "cf_caseSensitive (ap_config a)" and "\<not> cf_enableCaching (ap_config a)"
    and "find_route engine (ap_config a) (ar_method r) (path_of (fill segs vs)) (ap_routes a) = Inr None"
  shows "\<exists>f. snd (app_match engine clock' a' (ar_method r) (path_of (fill segs vs))) = Inr (MatchedRoute f) \<and>
    rf_route f = with_defaults (ap_config a) r \<and>
    jmap_get (rf_parameters f) = map_of (zip (par_names segs) vs)"
proof -
  let ?r = "with_defaults (ap_config a) r" and ?path = "path_of (fill segs vs)"
  have a': "ap_routes a' = ap_routes a @ [?r]" "ap_config a' = ap_config a"
    using assms(5) by (auto simp: registerRoute_def Let_def updateStatistics_def split: if_splits)
  have r: "ar_path ?r = ar_path r" "ar_method ?r = ar_method r" "ar_status ?r = Some ACTIVE"
    using assms(7) by (simp_all add: with_defaults_def)
  have "find_route engine (ap_config a') (ar_method r) ?path (ap_routes a') = Inr (Some ?r)"
    using matchPath_path_of [OF assms(1,2,8), of engine] find_route_append [OF assms(10), of "[?r]"] r assms(6)
    by (simp add: a')
  moreover have "jmap_get (extractParameters (ar_path r) ?path) x = map_of (zip (par_names segs) vs) x" for x
    using assms(1) segment_text_clean fill_no_slash [OF assms(1,2)] jmap_get_extract [OF assms(1,4,3), of jmap_empty x]
    by (simp add: extractParameters_def assms(6) split: option.splits)
  ultimately show ?thesis
    using assms(9) r a' by (simp add: app_match_def fun_eq_iff)
qed

text \<open>
  The statistics count the routes: after any sequence of operations other than
  \<open>updateRoute\<close> called from outside and \<open>resetStatistics\<close>, the total is the number of routes, the
  active, disabled and deprecated ones add up to it, and each method's count is its number of routes.
\<close>

theorem app_statistics_exact:
  "let a = app_router_after engine ops in
    sx_totalRoutes (ap_statistics a) = length (ap_routes a) \<and>
    sx_activeRoutes (ap_statistics a) = length (getRoutesByStatus a ACTIVE) \<and>
    sx_activeRoutes (ap_statistics a) + sx_disabledRoutes (ap_statistics a) + sx_deprecatedRoutes (ap_statistics a)
      = sx_totalRoutes (ap_statistics a) \<and>
    or_else (jmap_get (sx_routesByMethod (ap_statistics a)) m) 0 = length (getRoutesByMethod a m)"
proof -
  let ?a = "app_router_after engine ops"
  have "app_router_inv ?a"
    unfolding app_router_after_def by (rule app_routers.inv_run) simp
  then show ?thesis
    using count_status_sum [of "ap_routes ?a"] tally_count [of ar_method "ap_routes ?a" m]
    by (simp add: Let_def app_router_inv_def stats_of_def getRoutesByStatus_def getRoutesByMethod_def count_status_def)
qed

lemma generateRouteKey_inject: "generateRouteKey m path = generateRouteKey m' path' \<longleftrightarrow> m = m' \<and> path = path'"
proof
  assume eq: "generateRouteKey m path = generateRouteKey m' path'"
  have "takeWhile (\<lambda>c. c \<noteq> colon) (generateRouteKey x p) = method_name x" for x p
    using method_name_no_colon [of x] unfolding generateRouteKey_def by (subst takeWhile_append2) auto
  then have "m = m'"
    using eq by (metis method_name_eq_iff)
  with eq show "m = m' \<and> path = path'"
    by (simp add: generateRouteKey_def)
qed simp

text \<open>
  The cache is not told of route changes: with caching on, a match is repeated until its entry
  expires, although its route has since been disabled, or removed under a pattern that is not the
  request's path.
\<close>

theorem app_cache_outlives_route:
  assumes "cf_enableCaching (ap_config a)" and "jmap_get (ap_cache a) (generateRouteKey m path) = None"
    and "app_match engine clock a m path = (a1, Inr (MatchedRoute f))"
    and "clock' 1 - clock 3 < cf_cacheTTL (ap_config a)" and "ar_path (rf_route f) \<noteq> path"
  shows "snd (app_match engine clock' (disableRoute clock'' a1 m (ar_path (rf_route f))) m path) = Inr (MatchedRoute f) \<and>
    snd (app_match engine clock' (app_removeRoute a1 m (ar_path (rf_route f))) m path) = Inr (MatchedRoute f)"
proof -
  let ?key = "generateRouteKey m path"
  have cached: "jmap_get (ap_cache a1) ?key =
      Some \<lparr>ce_key = ?key, ce_route = MatchedRoute f, ce_timestamp = clock 3, ce_ttl = cf_cacheTTL (ap_config a)\<rparr>"
    and cfg: "ap_config a1 = ap_config a"
    using assms(1,2,3) by (auto simp: app_match_def Let_def split: sum.splits option.splits)
  have again: "snd (app_match engine clock' b m path) = Inr (MatchedRoute f)"
    if "ap_config b = ap_config a" "jmap_get (ap_cache b) ?key = jmap_get (ap_cache a1) ?key" for b
    using that cached assms(1,4) by (simp add: app_match_def)
  have "ap_config (disableRoute clock'' a1 m q) = ap_config a1" "ap_cache (disableRoute clock'' a1 m q) = ap_cache a1" for q
    by (simp_all add: disableRoute_def setRouteStatus_def updateRoute_def updateStatistics_def Let_def split: option.split)
  moreover have "ap_config (app_removeRoute a1 m q) = ap_config a1"
    "ap_cache (app_removeRoute a1 m q) = jmap_delete (generateRouteKey m q) (ap_cache a1)" for q
    by (simp_all add: app_removeRoute_def updateStatistics_def Let_def)
  ultimately show ?thesis
    using assms(5) cfg by (auto intro!: again simp: jmap_get_delete generateRouteKey_inject)
qed

text \<open>
  Strict routing is the lenient one: a path that extends a route's literal segments is refused
  when \<open>strictRouting\<close> is off and accepted when it is on.
\<close>

theorem app_strict_routing_inverted:
  assumes "\<forall>s \<in> set segs. segment_ok (Lit s)" and "\<forall>s \<in> set extra. no_slash s" and "extra \<noteq> []"
    and "cf_caseSensitive cfg"
  shows "matchPath engine cfg (path_of segs) (path_of (segs @ extra)) = Inr (cf_strictRouting cfg)"
proof -
  have "path_of segs \<noteq> path_of (segs @ extra)" "star \<notin> set (path_of segs)"
    using assms(1,3) by (auto simp: star_path_of) (simp add: path_of_def)
  moreover have "segments_match segs (segs @ extra)"
    using assms(1) by (induction segs) auto
  moreover have "\<forall>s \<in> set segs. no_slash s" "\<forall>s \<in> set (segs @ extra). no_slash s"
    using assms(1,2) by auto
  ultimately show ?thesis
    using assms(3,4) by (simp add: matchPath_def Let_def)
qed

section \<open>Samples\<close>

text \<open>An engine for samples: ASCII lowering, and no regular expression.\<close>

definition sample_engine :: js_engine where
  "sample_engine = \<lparr>lower_case = map (\<lambda>c. if 0x41 \<le> c \<and> c \<le> 0x5a then c + 32 else c), regexp = (\<lambda>_. None)\<rparr>"

definition user_segments :: "segment list" where
  "user_segments = [Lit (js ''users''), Par (js ''id'')]"

definition user_router :: "bool \<Rightarrow> unit app_router" where
  "user_router caching = setConfig (\<lambda>c. c\<lparr>cf_enableCaching := caching\<rparr>) new_app_router"

definition user_route :: "unit app_route" where
  "user_route = plain_route GET (path_of (map segment_text user_segments)) (js ''User'')"

lemma user_path: "path_of (fill user_segments [js ''7'']) = js ''/users/7''"
  "path_of (map segment_text user_segments) = js ''/users/:id''"
  by code_simp+

lemma user_ok: "\<forall>g \<in> set user_segments. segment_ok g" "\<forall>v \<in> set [js ''7'']. no_slash v"
  by code_simp+

lemma user_registered:
  "registerRoute (\<lambda>_. 0) (user_router c) user_route = (fst (registerRoute (\<lambda>_. 0) (user_router c) user_route), Inr ())"
  by (simp add: registerRoute_def user_router_def setConfig_def new_app_router_def Let_def)

theorem app_route_roundtrip_witness:
  "\<exists>f. snd (app_match sample_engine (\<lambda>_. 0) (fst (registerRoute (\<lambda>_. 0) (user_router False) user_route)) GET (js ''/users/7''))
       = Inr (MatchedRoute f) \<and>
     jmap_get (rf_parameters f) (js ''id'') = Some (js ''7'')"
proof -
  let ?a = "fst (registerRoute (\<lambda>_. 0) (user_router False) user_route)" and ?path = "path_of (fill user_segments [js ''7''])"
  have "\<exists>f. snd (app_match sample_engine (\<lambda>_. 0) ?a (ar_method user_route) ?path) = Inr (MatchedRoute f) \<and>
      rf_route f = with_defaults (ap_config (user_router False)) user_route \<and>
      jmap_get (rf_parameters f) = map_of (zip (par_names user_segments) [js ''7''])"
    by (rule app_route_roundtrip [OF user_ok _ _ user_registered [of False]])
      (simp_all add: user_segments_def user_route_def plain_route_def user_router_def setConfig_def new_app_router_def
        or_else_def)
  moreover have "ar_method user_route = GET"
    by (simp add: user_route_def plain_route_def)
  ultimately show ?thesis
    unfolding user_path by (auto simp: user_segments_def)
qed

theorem app_strict_routing_inverted_witness:
  "matchPath sample_engine ((ap_config new_app_router)\<lparr>cf_strictRouting := True\<rparr>) (path_of [js ''a'']) (path_of ([js ''a''] @ [js ''b''])) =
     Inr True"
proof -
  have "\<forall>s \<in> set [js ''a'']. segment_ok (Lit s)" "\<forall>s \<in> set [js ''b'']. no_slash s"
    by code_simp+
  then show ?thesis
    using app_strict_routing_inverted [of "[js ''a'']" "[js ''b'']" "(ap_config new_app_router)\<lparr>cf_strictRouting := True\<rparr>" sample_engine]
    by (simp add: new_app_router_def)
qed

theorem app_cache_outlives_route_witness:
  "\<exists>f. snd (app_match sample_engine (\<lambda>_. 5) (disableRoute (\<lambda>_. 0)
         (fst (app_match sample_engine (\<lambda>_. 0) (fst (registerRoute (\<lambda>_. 0) (user_router True) user_route)) GET (js ''/users/7'')))
         GET (js ''/users/:id'')) GET (js ''/users/7'')) = Inr (MatchedRoute f)"
proof -
  let ?a = "fst (registerRoute (\<lambda>_. 0) (user_router True) user_route)"
  let ?m = "app_match sample_engine (\<lambda>_. 0) ?a GET (js ''/users/7'')"
  have "case snd ?m of Inr (MatchedRoute f) \<Rightarrow> ar_path (rf_route f) = js ''/users/:id'' | _ \<Rightarrow> False"
    by code_simp
  then obtain f where f: "snd ?m = Inr (MatchedRoute f)" "ar_path (rf_route f) = js ''/users/:id''"
    by (auto split: sum.splits route_match.splits)
  then have m: "?m = (fst ?m, Inr (MatchedRoute f))"
    by (metis prod.collapse)
  have cfg: "cf_enableCaching (ap_config ?a)" "cf_cacheTTL (ap_config ?a) = 60000" "ap_cache ?a = jmap_empty"
    by (simp_all add: registerRoute_def user_router_def setConfig_def new_app_router_def Let_def updateStatistics_def)
  show ?thesis
    using app_cache_outlives_route [OF cfg(1) _ m, of "\<lambda>_. 5" "\<lambda>_. 0"] f(2) cfg(2,3) by auto
qed

end
