(* ===== verification/HelloApp.thy ===== *)
theory HelloApp
  imports HelloDomain AppRouter
begin

text \<open>
  The application: use cases and their registry (\<open>service/\<close>), the controller and its handlers
  (\<open>controller/\<close>), the composition root and the request pipeline (\<open>application/\<close>). Express is
  around it: a request is what Express hands to the middleware, a reply the calls made on its response.
  An \<open>async\<close> function that cannot suspend between two accesses to shared state is a plain function.
\<close>

section \<open>Use cases\<close>

record service_error =
  se_code :: jstring
  se_message :: jstring

record service_result =
  sv_success :: bool
  sv_data :: "json option"
  sv_error :: "service_error option"

record service_context =
  sc_userId :: "jstring option"
  sc_correlationId :: jstring
  sc_requestId :: jstring
  sc_timestamp :: int

record use_case_input =
  ui_language :: "jstring option"
  ui_format :: "jstring option"
  ui_requestId :: jstring
  ui_correlationId :: jstring
  ui_suffix :: "jstring option"

text \<open>The use-case objects with the state they keep.\<close>

datatype use_case =
    GetHelloWorld message_policy nat
  | GetHealthCheck jstring nat
  | GetMetrics nat int nat
  | GetVersion jstring nat

fun use_case_name :: "use_case \<Rightarrow> jstring" where
  "use_case_name (GetHelloWorld policy dailyCount) = js ''GetHelloWorld''"
| "use_case_name (GetHealthCheck version layers) = js ''GetHealthCheck''"
| "use_case_name (GetMetrics layers startTime requestCount) = js ''GetMetrics''"
| "use_case_name (GetVersion version layers) = js ''GetVersion''"

definition service_ok :: "json \<Rightarrow> service_result" where
  "service_ok result = \<lparr>sv_success = True, sv_data = Some result, sv_error = None\<rparr>"

definition service_failed :: "jstring \<Rightarrow> jstring \<Rightarrow> service_result" where
  "service_failed code message =
     \<lparr>sv_success = False, sv_data = None, sv_error = Some \<lparr>se_code = code, se_message = message\<rparr>\<rparr>"

definition hello_error :: "jstring \<Rightarrow> service_result" where
  "hello_error message = service_failed (js ''HELLO_WORLD_EXECUTION_ERROR'') message"

definition hello_result :: "host \<Rightarrow> hello_message \<Rightarrow> jstring \<Rightarrow> json" where
  "hello_result h message requestId =
     JObj [(js ''message'', JStr (hm_content message)), (js ''timestamp'', JStr (h_iso h (h_clock h 13))),
           (js ''language'', JStr (hm_language message)), (js ''format'', JStr (hm_format message)),
           (js ''requestId'', JStr requestId), (js ''supportedLanguages'', JArr (map JStr getSupportedLanguages))]"

text \<open>\<open>GetHelloWorldUseCase.execute\<close>: the domain manager, the count and the result.\<close>

definition execute_hello ::
  "host \<Rightarrow> message_policy \<Rightarrow> nat \<Rightarrow> use_case_input \<Rightarrow> 'd domain_manager \<Rightarrow>
     'd domain_manager \<times> nat \<times> service_result" where
  "execute_hello h policy dailyCount input dm =
     (let language = or_default (ui_language input) (js ''en'');
          format = or_default (ui_format input) (js ''json'') in
      if \<not> isFormatAllowed format then (dm, dailyCount, hello_error (js ''Format '' @ format @ js '' is not supported''))
      else if \<not> supportsLanguage language
      then (dm, dailyCount, hello_error (js ''Language '' @ language @ js '' is not supported''))
      else
        (case factory_create h \<lparr>ho_language = Some language, ho_format = Some format, ho_suffix = ui_suffix input\<rparr> of
           Inl e \<Rightarrow> (dm, dailyCount, hello_error e)
         | Inr message \<Rightarrow>
             (case canServe policy message dailyCount of
                Some reason \<Rightarrow>
                  (dm, dailyCount, hello_error (if reason = [] then js ''Message policy rejected request'' else reason))
              | None \<Rightarrow>
                  (publishEvent dm
                     (helloWorldRequested h (ui_requestId input) (ui_correlationId input) language format),
                   dailyCount + 1, service_ok (hello_result h message (ui_requestId input))))))"

definition execute_health :: "host \<Rightarrow> jstring \<Rightarrow> service_result" where
  "execute_health h version =
     (let health = health_healthy h version in
      service_ok (JObj
        [(js ''status'', JStr (health_name (hk_status health))), (js ''version'', JStr (hk_version health)),
         (js ''components'', JArr (map (\<lambda>c. JObj
            [(js ''name'', JStr (hc_name c)), (js ''status'', JStr (health_name (hc_status c))),
             (js ''latencyMs'', JNum (hc_latencyMs c))]) (hk_components health))),
         (js ''timestamp'', JStr (h_iso h (h_clock h 14)))]))"

definition execute_metrics :: "host \<Rightarrow> nat \<Rightarrow> int \<Rightarrow> nat \<Rightarrow> service_result" where
  "execute_metrics h layers startTime requestCount =
     service_ok (JObj
       [(js ''totalLayers'', JNum (int layers)), (js ''activeLayers'', JNum (int layers)),
        (js ''totalRequests'', JNum (int requestCount)),
        (js ''uptimeSeconds'', JNum ((h_clock h 15 - startTime) div 1000)),
        (js ''memoryUsage'', JObj (map (\<lambda>name. (js name, JNum (h_memory h (js name))))
          [''rss'', ''heapTotal'', ''heapUsed'', ''external''])),
        (js ''timestamp'', JStr (h_iso h (h_clock h 16)))])"

definition execute_version :: "host \<Rightarrow> jstring \<Rightarrow> nat \<Rightarrow> service_result" where
  "execute_version h version layers =
     service_ok (JObj
       [(js ''version'', JStr version), (js ''name'', JStr (js ''one-million-hello-world'')),
        (js ''description'', JStr (js ''A Hello World HTTP server with deep clean architecture and 85+ layers'')),
        (js ''layers'', JNum (int layers)), (js ''environment'', JStr (or_default (h_nodeEnv h) (js ''development''))),
        (js ''nodeVersion'', JStr (h_nodeVersion h)), (js ''timestamp'', JStr (h_iso h (h_clock h 17)))])"

fun use_case_execute ::
  "host \<Rightarrow> use_case \<Rightarrow> use_case_input \<Rightarrow> 'd domain_manager \<Rightarrow> 'd domain_manager \<times> use_case \<times> service_result" where
  "use_case_execute h (GetHelloWorld policy dailyCount) input dm =
     (case execute_hello h policy dailyCount input dm of
        (dm', dailyCount', result) \<Rightarrow> (dm', GetHelloWorld policy dailyCount', result))"
| "use_case_execute h (GetHealthCheck version layers) input dm =
     (dm, GetHealthCheck version layers, execute_health h version)"
| "use_case_execute h (GetMetrics layers startTime requestCount) input dm =
     (dm, GetMetrics layers startTime (requestCount + 1), execute_metrics h layers startTime (requestCount + 1))"
| "use_case_execute h (GetVersion version layers) input dm =
     (dm, GetVersion version layers, execute_version h version layers)"

section \<open>The service\<close>

text \<open>The domain manager the use cases share is part of the state.\<close>

record 'd service =
  sv_useCases :: "(jstring, use_case) jmap"
  sv_domain :: "'d domain_manager"

definition new_service :: "'d service" where
  "new_service = \<lparr>sv_useCases = jmap_empty, sv_domain = new_domain_manager\<rparr>"

definition registerUseCase :: "'d service \<Rightarrow> use_case \<Rightarrow> 'd service" where
  "registerUseCase s u = s\<lparr>sv_useCases := jmap_set (use_case_name u) u (sv_useCases s)\<rparr>"

definition getUseCase :: "'d service \<Rightarrow> jstring \<Rightarrow> use_case option" where
  "getUseCase s name = jmap_get (sv_useCases s) name"

definition clearUseCases :: "'d service \<Rightarrow> 'd service" where
  "clearUseCases s = s\<lparr>sv_useCases := jmap_empty\<rparr>"

text \<open>The use cases return their errors, so the \<open>catch\<close> of \<open>execute\<close> is never entered.\<close>

definition service_execute :: "host \<Rightarrow> 'd service \<Rightarrow> jstring \<Rightarrow> use_case_input \<Rightarrow> 'd service \<times> service_result" where
  "service_execute h s name input =
     (case getUseCase s name of
        None \<Rightarrow> (s, service_failed (js ''USE_CASE_NOT_FOUND'') (js ''Use case '' @ [0x27] @ name @ [0x27] @ js '' not found''))
      | Some u \<Rightarrow>
          (case use_case_execute h u input (sv_domain s) of
             (dm, u', result) \<Rightarrow> (\<lparr>sv_useCases = jmap_set name u' (sv_useCases s), sv_domain = dm\<rparr>, result)))"

definition service_createContext :: "host \<Rightarrow> jstring option \<Rightarrow> jstring \<Rightarrow> jstring \<Rightarrow> service_context" where
  "service_createContext h userId correlationId requestId =
     \<lparr>sc_userId = userId, sc_correlationId = correlationId, sc_requestId = requestId, sc_timestamp = h_clock h 18\<rparr>"

section \<open>The controller\<close>

record response_data =
  rd_statusCode :: nat
  rd_headers :: "(jstring, jstring) jmap"
  rd_body :: "byte list"

record controller_context =
  cx_requestId :: jstring
  cx_correlationId :: jstring
  cx_userId :: "jstring option"
  cx_parameters :: "(jstring, jstring) jmap"
  cx_headers :: "(jstring, jstring) jmap"

record controller_error =
  er_code :: nat
  er_message :: jstring
  er_details :: "json option"

record controller_result =
  ct_success :: bool
  ct_response :: "response_data option"
  ct_error :: "controller_error option"

text \<open>A handler returns, or throws an \<open>Error\<close> with a message or another value.\<close>

datatype thrown = ThrownError jstring | ThrownOther

type_synonym 's handler_function = "'s \<Rightarrow> controller_context \<Rightarrow> 's \<times> (thrown + controller_result)"

definition json_headers :: "(jstring, jstring) jmap" where
  "json_headers = jmap_set (js ''content-type'') (js ''application/json'') jmap_empty"

definition error_json :: "controller_error \<Rightarrow> json" where
  "error_json e =
     JObj ([(js ''code'', JNum (int (er_code e))), (js ''message'', JStr (er_message e))]
       @ (case er_details e of None \<Rightarrow> [] | Some d \<Rightarrow> [(js ''details'', d)]))"

definition createSuccessResponse :: "jstring \<Rightarrow> nat \<Rightarrow> controller_result" where
  "createSuccessResponse body statusCode =
     \<lparr>ct_success = True,
      ct_response = Some
        \<lparr>rd_statusCode = statusCode,
         rd_headers = jmap_set (js ''content-length'') (js_nat (length body)) json_headers,
         rd_body = buffer_from body\<rparr>,
      ct_error = None\<rparr>"

definition createErrorResponse :: "jstring \<Rightarrow> nat \<Rightarrow> json option \<Rightarrow> controller_result" where
  "createErrorResponse message statusCode details =
     (let error = \<lparr>er_code = statusCode, er_message = message, er_details = details\<rparr>;
          body = stringify (JObj [(js ''error'', error_json error)]) in
      \<lparr>ct_success = False,
       ct_response = Some
         \<lparr>rd_statusCode = statusCode,
          rd_headers = jmap_set (js ''content-length'') (js_nat (length body)) json_headers,
          rd_body = buffer_from body\<rparr>,
       ct_error = Some error\<rparr>)"

definition handle :: "'s handler_function \<Rightarrow> 's \<Rightarrow> controller_context \<Rightarrow> 's \<times> controller_result" where
  "handle handler s context =
     (case handler s context of
        (s', Inr result) \<Rightarrow> (s', result)
      | (s', Inl (ThrownError message)) \<Rightarrow> (s', createErrorResponse message 500 None)
      | (s', Inl ThrownOther) \<Rightarrow> (s', createErrorResponse (js ''Unknown error'') 500 None))"

section \<open>Requests\<close>

datatype header_value = HeaderText jstring | HeaderList "jstring list" | HeaderAbsent

text \<open>What the query parser makes of a query: texts, lists and objects, nested.\<close>

datatype query_value = QueryText jstring | QueryList "query_value list" | QueryObject "(jstring \<times> query_value) list"

text \<open>A method outside the enumeration is \<open>None\<close>: no route has it.\<close>

record express_request =
  xr_method :: "http_method option"
  xr_path :: jstring
  xr_url :: jstring
  xr_headers :: "(jstring \<times> header_value) list"
  xr_params :: "(jstring, jstring) jmap"
  xr_query :: "(jstring \<times> query_value) list"
  xr_body :: "json option"

record http_request =
  hr_method :: "http_method option"
  hr_path :: jstring
  hr_query :: "jstring option"
  hr_headers :: "(jstring, jstring) jmap"
  hr_body :: "byte list"
  hr_raw :: "byte list"

text \<open>Header names are ASCII (Node rejects others).\<close>

definition ascii_lower :: "jstring \<Rightarrow> jstring" where
  "ascii_lower s = map (\<lambda>c. if 0x41 \<le> c \<and> c \<le> 0x5a then c + 32 else c) s"

fun join_by :: "jstring \<Rightarrow> jstring list \<Rightarrow> jstring" where
  "join_by sep [] = []"
| "join_by sep [x] = x"
| "join_by sep (x # y # xs) = x @ sep @ join_by sep (y # xs)"

fun adapt_header :: "(jstring, jstring) jmap \<Rightarrow> jstring \<times> header_value \<Rightarrow> (jstring, jstring) jmap" where
  "adapt_header m (key, HeaderText v) = jmap_set (ascii_lower key) v m"
| "adapt_header m (key, HeaderList vs) = jmap_set (ascii_lower key) (join_by (js '', '') vs) m"
| "adapt_header m (key, HeaderAbsent) = m"

definition adaptRequest :: "express_request \<Rightarrow> http_request" where
  "adaptRequest req =
     (let body = (case xr_body req of None \<Rightarrow> [] | Some j \<Rightarrow> if j = JNull then [] else buffer_from (stringify j)) in
      \<lparr>hr_method = xr_method req, hr_path = xr_path req,
       hr_query = (if 0x3f \<in> set (xr_url req) then Some (split_on 0x3f (xr_url req) ! 1) else None),
       hr_headers = foldl adapt_header jmap_empty (xr_headers req), hr_body = body, hr_raw = body\<rparr>)"

text \<open>
  What \<open>join\<close> makes of an element, \<open>None\<close> where it throws: a nested list is joined itself, an object becomes
  \<open>[object Object]\<close> unless it has a \<open>toString\<close> of its own, which is never a function, so that no primitive value
  is found for it.
\<close>

fun element_text :: "query_value \<Rightarrow> jstring option" where
  "element_text (QueryText v) = Some v"
| "element_text (QueryList vs) = map_option (join_by (js '','')) (those (map element_text vs))"
| "element_text (QueryObject kvs) =
     (if js ''toString'' \<in> set (map fst kvs) then None else Some (js ''[object Object]''))"

fun normalize_entry :: "(jstring, jstring) jmap \<Rightarrow> jstring \<times> query_value \<Rightarrow> (jstring, jstring) jmap option" where
  "normalize_entry m (key, QueryText v) = Some (jmap_set key v m)"
| "normalize_entry m (key, QueryList vs) = map_option (\<lambda>v. jmap_set key v m) (element_text (QueryList vs))"
| "normalize_entry m (key, QueryObject kvs) = Some m"

definition normalizeQuery :: "(jstring \<times> query_value) list \<Rightarrow> (jstring, jstring) jmap option" where
  "normalizeQuery query = foldl (\<lambda>m entry. Option.bind m (\<lambda>m. normalize_entry m entry)) (Some jmap_empty) query"

text \<open>\<open>{ ...a, ...b }\<close>.\<close>

definition spread :: "(jstring, 'v) jmap \<Rightarrow> (jstring, 'v) jmap \<Rightarrow> (jstring, 'v) jmap" where
  "spread a b = foldl (\<lambda>m (k, v). jmap_set k v m) a b"

definition generateId :: "host \<Rightarrow> nat \<Rightarrow> jstring" where
  "generateId h place = h_random h place @ h_random h (place + 1)"

definition createContext :: "host \<Rightarrow> http_request \<Rightarrow> (jstring, jstring) jmap \<Rightarrow> controller_context" where
  "createContext h request parameters =
     \<lparr>cx_requestId = or_value (jmap_get (hr_headers request) (js ''x-request-id'')) (generateId h 2),
      cx_correlationId = or_value (jmap_get (hr_headers request) (js ''x-correlation-id'')) (generateId h 4),
      cx_userId = jmap_get (hr_headers request) (js ''x-user-id''),
      cx_parameters = parameters, cx_headers = hr_headers request\<rparr>"

section \<open>Handlers\<close>

definition service_response :: "service_result \<Rightarrow> controller_result" where
  "service_response result =
     (case (sv_success result, sv_data result) of
        (True, Some data) \<Rightarrow>
          \<lparr>ct_success = True,
           ct_response = Some \<lparr>rd_statusCode = 200, rd_headers = json_headers, rd_body = buffer_from (stringify data)\<rparr>,
           ct_error = None\<rparr>
      | _ \<Rightarrow>
          \<lparr>ct_success = False,
           ct_response = Some
             \<lparr>rd_statusCode = 500, rd_headers = json_headers,
              rd_body = buffer_from (stringify (JObj
                [(js ''error'', JStr (case sv_error result of Some e \<Rightarrow> se_message e | None \<Rightarrow> js ''Internal Server Error''))]))\<rparr>,
           ct_error = None\<rparr>)"

definition helloWorldHandler :: "host \<Rightarrow> 'd service handler_function" where
  "helloWorldHandler h s context =
     (case service_execute h s (js ''GetHelloWorld'')
        \<lparr>ui_language = Some (or_value (jmap_get (cx_parameters context) (js ''language'')) (js ''en'')),
         ui_format = Some (or_value (jmap_get (cx_parameters context) (js ''format'')) (js ''json'')),
         ui_requestId = cx_requestId context, ui_correlationId = cx_correlationId context, ui_suffix = None\<rparr> of
        (s', result) \<Rightarrow> (s', Inr (service_response result)))"

definition plain_handler :: "string \<Rightarrow> host \<Rightarrow> 'd service handler_function" where
  "plain_handler name h s context =
     (case service_execute h s (js name)
        \<lparr>ui_language = None, ui_format = None, ui_requestId = cx_requestId context,
         ui_correlationId = cx_correlationId context, ui_suffix = None\<rparr> of
        (s', result) \<Rightarrow> (s', Inr (service_response result)))"

definition healthCheckHandler :: "host \<Rightarrow> 'd service handler_function" where
  "healthCheckHandler = plain_handler ''GetHealthCheck''"

definition metricsHandler :: "host \<Rightarrow> 'd service handler_function" where
  "metricsHandler = plain_handler ''GetMetrics''"

definition versionHandler :: "host \<Rightarrow> 'd service handler_function" where
  "versionHandler = plain_handler ''GetVersion''"

section \<open>Composition\<close>

text \<open>The fields of \<open>LayerRegistry\<close>.\<close>

definition layer_names :: "string list" where
  "layer_names =
    [''apiGateway'', ''loadBalancer'', ''serviceDiscovery'', ''featureFlags'', ''configuration'', ''secrets'',
     ''audit'', ''observability'', ''edgeCache'', ''schemaRegistry'', ''identity'', ''authorization'',
     ''encryption'', ''backup'', ''migrations'', ''graphql'', ''websocket'', ''messageBus'', ''throttling'',
     ''analytics'', ''distributedTracing'', ''serviceMesh'', ''blueGreenDeploy'', ''canaryDeploy'', ''gitops'',
     ''eventSourcing'', ''cqrs'', ''readModel'', ''writeModel'', ''snapshot'', ''outbox'', ''inbox'',
     ''deadLetter'', ''workflowEngine'', ''bpmn'', ''rulesEngine'', ''policyEngine'', ''specification'',
     ''queryObject'', ''unitOfWork'', ''identityProvider'', ''sso'', ''mfa'', ''oauth2'', ''jwtValidation'',
     ''botDetection'', ''fraudDetection'', ''waf'', ''ddosProtection'', ''siem'', ''dataLake'',
     ''dataWarehouse'', ''etlPipeline'', ''streamProcessing'', ''dataQuality'', ''contractTesting'',
     ''chaosEngineering'', ''performanceTesting'', ''mutationTesting'', ''propertyTesting'', ''multiTenancy'',
     ''notification'', ''billing'', ''onboarding'', ''search'', ''reporting'', ''dataLineage'', ''governance'',
     ''recommendation'', ''mlFeatureStore'', ''anomalyDetection'', ''apiVersioning'', ''localization'',
     ''scheduling'', ''batchProcessing'', ''cdnIntegration'', ''secretsRotation'', ''costOptimization'',
     ''disasterRecovery'']"

definition getLayerCount :: nat where
  "getLayerCount = length layer_names + 25"

record 'd app =
  ax_router :: "unit app_router"
  ax_handlers :: "(jstring, host \<Rightarrow> 'd service handler_function) jmap"
  ax_service :: "'d service"

definition registerUseCases :: "int \<Rightarrow> 'd service \<Rightarrow> 'd service" where
  "registerUseCases startTime s =
     foldl registerUseCase s
       [GetHelloWorld new_policy 0, GetHealthCheck (js ''1.0.0'') getLayerCount, GetMetrics getLayerCount startTime 0,
        GetVersion (js ''1.0.0'') getLayerCount]"

definition route_with_priority :: "string \<Rightarrow> string \<Rightarrow> route_priority \<Rightarrow> unit app_route" where
  "route_with_priority path handler p = (plain_route GET (js path) (js handler))\<lparr>ar_priority := Some p\<rparr>"

definition app_routes :: "unit app_route list" where
  "app_routes =
     [route_with_priority ''/'' ''HelloWorld'' HIGH, route_with_priority ''/health'' ''HealthCheck'' MEDIUM,
      route_with_priority ''/metrics'' ''Metrics'' MEDIUM, route_with_priority ''/version'' ''Version'' MEDIUM]"

definition registerRoutes :: "(nat \<Rightarrow> int) \<Rightarrow> unit app_router \<Rightarrow> unit app_router" where
  "registerRoutes clock r = foldl (\<lambda>r route. fst (registerRoute clock r route)) r app_routes"

definition registerHandler ::
  "jstring \<Rightarrow> (host \<Rightarrow> 'd service handler_function) \<Rightarrow> (jstring, host \<Rightarrow> 'd service handler_function) jmap \<Rightarrow>
     (jstring, host \<Rightarrow> 'd service handler_function) jmap" where
  "registerHandler operation handler handlers = jmap_set operation handler handlers"

definition getHandler ::
  "(jstring, host \<Rightarrow> 'd service handler_function) jmap \<Rightarrow> jstring \<Rightarrow> (host \<Rightarrow> 'd service handler_function) option" where
  "getHandler handlers operation = jmap_get handlers operation"

definition registerHandlers :: "(jstring, host \<Rightarrow> 'd service handler_function) jmap" where
  "registerHandlers =
     registerHandler (js ''Version'') versionHandler
       (registerHandler (js ''Metrics'') metricsHandler
         (registerHandler (js ''HealthCheck'') healthCheckHandler
           (registerHandler (js ''HelloWorld'') helloWorldHandler jmap_empty)))"

definition compositionRoot :: "(nat \<Rightarrow> int) \<Rightarrow> 'd app" where
  "compositionRoot clock =
     \<lparr>ax_router = registerRoutes clock new_app_router, ax_handlers = registerHandlers,
      ax_service = registerUseCases (clock 0) new_service\<rparr>"

section \<open>The pipeline\<close>

text \<open>
  \<open>res.status(n).json(j)\<close>, or a status, headers and a body sent, or what was thrown is handed to \<open>next\<close>: no
  error handler is installed, so Express answers with its own page and status 500.
\<close>

datatype reply = ReplyJson nat json | ReplySend nat "(jstring, jstring) jmap" "byte list" | ReplyNext

definition error_reply :: "nat \<Rightarrow> jstring \<Rightarrow> reply" where
  "error_reply status message = ReplyJson status (JObj [(js ''error'', JStr message)])"

definition process :: "host \<Rightarrow> 'd app \<Rightarrow> express_request \<Rightarrow> 'd app \<times> reply" where
  "process h a req =
     (let httpRequest = adaptRequest req in
      case (case xr_method req of None \<Rightarrow> None | Some m \<Rightarrow> getRoute (ax_router a) m (xr_path req)) of
        None \<Rightarrow> (a, error_reply 404 (js ''Not Found''))
      | Some route \<Rightarrow>
          (case getHandler (ax_handlers a) (ar_handler route) of
             None \<Rightarrow> (a, error_reply 500 (js ''Handler not found''))
           | Some handler \<Rightarrow>
               (case normalizeQuery (xr_query req) of
                  None \<Rightarrow> (a, ReplyNext)
                | Some query \<Rightarrow>
                    (let context = createContext h httpRequest (spread (xr_params req) query);
                         (s', result) = handle (handler h) (ax_service a) context;
                         a' = a\<lparr>ax_service := s'\<rparr> in
                     case (ct_success result, ct_response result) of
                       (True, Some response) \<Rightarrow>
                         (a', ReplySend (rd_statusCode response) (rd_headers response) (rd_body response))
                     | (_, response) \<Rightarrow>
                         (a', error_reply (case response of Some r \<Rightarrow> rd_statusCode r | None \<Rightarrow> 500)
                            (or_default (map_option er_message (ct_error result)) (js ''Internal Server Error'')))))))"

section \<open>The running application\<close>

text \<open>The application as composed, after \<open>n\<close> greetings and \<open>k\<close> reports of the metrics.\<close>

definition running :: "(nat \<Rightarrow> int) \<Rightarrow> nat \<Rightarrow> nat \<Rightarrow> 'd domain_manager \<Rightarrow> 'd app" where
  "running clock n k dm =
     \<lparr>ax_router = registerRoutes clock new_app_router, ax_handlers = registerHandlers,
      ax_service =
        \<lparr>sv_useCases =
           [(js ''GetHelloWorld'', GetHelloWorld new_policy n),
            (js ''GetHealthCheck'', GetHealthCheck (js ''1.0.0'') getLayerCount),
            (js ''GetMetrics'', GetMetrics getLayerCount (clock 0) k),
            (js ''GetVersion'', GetVersion (js ''1.0.0'') getLayerCount)],
         sv_domain = dm\<rparr>\<rparr>"

lemma compositionRoot_running: "compositionRoot clock = running clock 0 0 new_domain_manager"
  by (simp add: compositionRoot_def running_def registerUseCases_def registerUseCase_def new_service_def
      jmap_set_def jmap_empty_def)

lemma composed_routes:
  "ap_routes (registerRoutes clock new_app_router) =
     map (\<lambda>r. r\<lparr>ar_status := Some ACTIVE\<rparr>) app_routes"
  by (simp add: registerRoutes_def app_routes_def registerRoute_def new_app_router_def Let_def updateStatistics_def
      updateRouteMetadata_def with_defaults_def route_with_priority_def plain_route_def or_else_def)

definition page_handler :: "jstring \<Rightarrow> jstring option" where
  "page_handler path =
     (if path = js ''/'' then Some (js ''HelloWorld'')
      else if path = js ''/health'' then Some (js ''HealthCheck'')
      else if path = js ''/metrics'' then Some (js ''Metrics'')
      else if path = js ''/version'' then Some (js ''Version'') else None)"

lemma running_route:
  "map_option ar_handler (getRoute (ax_router (running clock n k dm)) m path) =
     (if m = GET then page_handler path else None)"
  by (cases "m = GET")
    (auto simp: getRoute_def running_def composed_routes app_routes_def route_with_priority_def plain_route_def
      page_handler_def)

lemma handler_table:
  "getHandler registerHandlers (js ''HelloWorld'') = Some helloWorldHandler"
  "getHandler registerHandlers (js ''HealthCheck'') = Some healthCheckHandler"
  "getHandler registerHandlers (js ''Metrics'') = Some metricsHandler"
  "getHandler registerHandlers (js ''Version'') = Some versionHandler"
  by (simp_all add: getHandler_def registerHandlers_def registerHandler_def jmap_get_set)

text \<open>The context a request gets whose query can be read.\<close>

definition query_reads :: "express_request \<Rightarrow> bool" where
  "query_reads req \<longleftrightarrow> normalizeQuery (xr_query req) \<noteq> None"

definition context_of :: "host \<Rightarrow> express_request \<Rightarrow> controller_context" where
  "context_of h req = createContext h (adaptRequest req)
     (spread (xr_params req) (case normalizeQuery (xr_query req) of None \<Rightarrow> jmap_empty | Some query \<Rightarrow> query))"

definition request_page :: "express_request \<Rightarrow> jstring option" where
  "request_page req = (if xr_method req = Some GET then page_handler (xr_path req) else None)"

lemma process_not_found:
  assumes "request_page req = None"
  shows "process h (running clock n k dm) req = (running clock n k dm, error_reply 404 (js ''Not Found''))"
proof (cases "xr_method req")
  case None
  then show ?thesis by (simp add: process_def Let_def)
next
  case (Some m)
  then have "map_option ar_handler (getRoute (ax_router (running clock n k dm)) m (xr_path req)) = None"
    using assms by (simp add: running_route request_page_def split: if_splits)
  with Some show ?thesis by (simp add: process_def Let_def)
qed

lemma page_route:
  assumes "request_page req = Some name" and "getHandler registerHandlers name = Some handler"
  shows "\<exists>m route. xr_method req = Some m \<and> getRoute (ax_router (running clock n k dm)) m (xr_path req) = Some route
    \<and> getHandler (ax_handlers (running clock n k dm)) (ar_handler route) = Some handler"
  using assms running_route [of clock n k dm GET "xr_path req"]
  by (auto simp: request_page_def running_def split: if_splits)

lemma page_handled:
  "request_page req = Some name \<Longrightarrow> \<exists>handler. getHandler (ax_handlers (running clock n k dm)) name = Some handler"
  by (auto simp: request_page_def page_handler_def running_def handler_table split: if_splits)

lemma process_unreadable:
  assumes "request_page req = Some name" and "\<not> query_reads req"
  shows "process h (running clock n k dm) req = (running clock n k dm, ReplyNext)"
proof -
  obtain handler where "getHandler (ax_handlers (running clock n k dm)) name = Some handler"
    using page_handled [OF assms(1)] by blast
  then have "getHandler registerHandlers name = Some handler"
    by (simp add: running_def)
  then obtain m route where "xr_method req = Some m" "getRoute (ax_router (running clock n k dm)) m (xr_path req) = Some route"
    "getHandler (ax_handlers (running clock n k dm)) (ar_handler route) = Some handler"
    using page_route [OF assms(1)] by blast
  then show ?thesis
    using assms(2) by (simp add: process_def query_reads_def)
qed

lemma process_page:
  assumes "request_page req = Some name" and "query_reads req" and "getHandler registerHandlers name = Some handler"
    and "handler h (ax_service (running clock n k dm)) (context_of h req) = (s', Inr (service_response result))"
    and "sv_success result \<longleftrightarrow> sv_data result \<noteq> None"
  shows "process h (running clock n k dm) req =
    ((running clock n k dm)\<lparr>ax_service := s'\<rparr>,
     (case sv_data result of
        Some data \<Rightarrow> ReplySend 200 json_headers (buffer_from (stringify data))
      | None \<Rightarrow> error_reply 500 (js ''Internal Server Error'')))"
proof -
  obtain m route where m: "xr_method req = Some m" "getRoute (ax_router (running clock n k dm)) m (xr_path req) = Some route"
    and handler: "getHandler (ax_handlers (running clock n k dm)) (ar_handler route) = Some handler"
    using page_route [OF assms(1,3)] by blast
  obtain query where "normalizeQuery (xr_query req) = Some query"
    using assms(2) by (auto simp: query_reads_def)
  moreover have "handle (handler h) (ax_service (running clock n k dm)) (context_of h req) = (s', service_response result)"
    using assms(4) by (simp add: handle_def)
  ultimately show ?thesis
    using m handler assms(5)
    by (cases "sv_data result")
      (auto simp: process_def Let_def service_response_def or_default_def context_of_def split: option.split)
qed

lemma running_parts [simp]:
  "sv_domain (ax_service (running clock n k dm)) = dm"
  "getUseCase (ax_service (running clock n k dm)) (js ''GetHelloWorld'') = Some (GetHelloWorld new_policy n)"
  "getUseCase (ax_service (running clock n k dm)) (js ''GetHealthCheck'') = Some (GetHealthCheck (js ''1.0.0'') getLayerCount)"
  "getUseCase (ax_service (running clock n k dm)) (js ''GetMetrics'') = Some (GetMetrics getLayerCount (clock 0) k)"
  "getUseCase (ax_service (running clock n k dm)) (js ''GetVersion'') = Some (GetVersion (js ''1.0.0'') getLayerCount)"
  by (simp_all add: running_def getUseCase_def jmap_get_def)

lemma running_update:
  "(running clock n k dm)\<lparr>ax_service := \<lparr>sv_useCases =
     jmap_set (js ''GetHelloWorld'') (GetHelloWorld new_policy n') (sv_useCases (ax_service (running clock n k dm))),
     sv_domain = dm'\<rparr>\<rparr> = running clock n' k dm'"
  "(running clock n k dm)\<lparr>ax_service := \<lparr>sv_useCases =
     jmap_set (js ''GetMetrics'') (GetMetrics getLayerCount (clock 0) k') (sv_useCases (ax_service (running clock n k dm))),
     sv_domain = dm'\<rparr>\<rparr> = running clock n k' dm'"
  "(running clock n k dm)\<lparr>ax_service := \<lparr>sv_useCases =
     jmap_set (js ''GetHealthCheck'') (GetHealthCheck (js ''1.0.0'') getLayerCount)
       (sv_useCases (ax_service (running clock n k dm))), sv_domain = dm'\<rparr>\<rparr> = running clock n k dm'"
  "(running clock n k dm)\<lparr>ax_service := \<lparr>sv_useCases =
     jmap_set (js ''GetVersion'') (GetVersion (js ''1.0.0'') getLayerCount)
       (sv_useCases (ax_service (running clock n k dm))), sv_domain = dm'\<rparr>\<rparr> = running clock n k dm'"
  by (simp_all add: running_def jmap_set_def)

text \<open>The three pages that only read, and the counted one.\<close>

lemma process_reports:
  "request_page req = Some (js ''HealthCheck'') \<Longrightarrow> query_reads req \<Longrightarrow>
     process h (running clock n k dm) req =
       (running clock n k dm, ReplySend 200 json_headers
          (buffer_from (stringify (the (sv_data (execute_health h (js ''1.0.0'')))))))"
  "request_page req = Some (js ''Metrics'') \<Longrightarrow> query_reads req \<Longrightarrow>
     process h (running clock n k dm) req =
       (running clock n (k + 1) dm, ReplySend 200 json_headers
          (buffer_from (stringify (the (sv_data (execute_metrics h getLayerCount (clock 0) (k + 1)))))))"
  "request_page req = Some (js ''Version'') \<Longrightarrow> query_reads req \<Longrightarrow>
     process h (running clock n k dm) req =
       (running clock n k dm, ReplySend 200 json_headers
          (buffer_from (stringify (the (sv_data (execute_version h (js ''1.0.0'') getLayerCount))))))"
proof -
  show "process h (running clock n k dm) req =
       (running clock n k dm, ReplySend 200 json_headers
          (buffer_from (stringify (the (sv_data (execute_health h (js ''1.0.0'')))))))"
    if page: "request_page req = Some (js ''HealthCheck'')" "query_reads req"
    by (subst process_page [OF page handler_table(2), where result = "execute_health h (js ''1.0.0'')"])
      (simp_all add: healthCheckHandler_def plain_handler_def service_execute_def execute_health_def service_ok_def Let_def,
        simp_all add: running_def jmap_set_def)
  show "process h (running clock n k dm) req =
       (running clock n (k + 1) dm, ReplySend 200 json_headers
          (buffer_from (stringify (the (sv_data (execute_metrics h getLayerCount (clock 0) (k + 1)))))))"
    if page: "request_page req = Some (js ''Metrics'')" "query_reads req"
    by (subst process_page [OF page handler_table(3), where result = "execute_metrics h getLayerCount (clock 0) (k + 1)"])
      (simp_all add: metricsHandler_def plain_handler_def service_execute_def execute_metrics_def service_ok_def Let_def,
        simp_all add: running_def jmap_set_def)
  show "process h (running clock n k dm) req =
       (running clock n k dm, ReplySend 200 json_headers
          (buffer_from (stringify (the (sv_data (execute_version h (js ''1.0.0'') getLayerCount))))))"
    if page: "request_page req = Some (js ''Version'')" "query_reads req"
    by (subst process_page [OF page handler_table(4), where result = "execute_version h (js ''1.0.0'') getLayerCount"])
      (simp_all add: versionHandler_def plain_handler_def service_execute_def execute_version_def service_ok_def Let_def,
        simp_all add: running_def jmap_set_def)
qed

section \<open>Greetings\<close>

text \<open>The language and the format a request asks for.\<close>

definition asked :: "host \<Rightarrow> express_request \<Rightarrow> string \<Rightarrow> string \<Rightarrow> jstring" where
  "asked h req name d = or_default (jmap_get (cx_parameters (context_of h req)) (js name)) (js d)"

definition asked_language :: "host \<Rightarrow> express_request \<Rightarrow> jstring" where
  "asked_language h req = asked h req ''language'' ''en''"

definition asked_format :: "host \<Rightarrow> express_request \<Rightarrow> jstring" where
  "asked_format h req = asked h req ''format'' ''json''"

fun greetable :: "host \<times> express_request \<Rightarrow> bool" where
  "greetable (h, req) \<longleftrightarrow> query_reads req \<and>
     request_page req = Some (js ''HelloWorld'') \<and> isFormatAllowed (asked_format h req) \<and>
     supportsLanguage (asked_language h req)"

fun greeting_event :: "host \<times> express_request \<Rightarrow> domain_event" where
  "greeting_event (h, req) =
     helloWorldRequested h (cx_requestId (context_of h req)) (cx_correlationId (context_of h req))
       (asked_language h req) (asked_format h req)"

definition greeting_json :: "host \<Rightarrow> express_request \<Rightarrow> jstring \<Rightarrow> json" where
  "greeting_json h req text =
     JObj [(js ''message'', JStr text), (js ''timestamp'', JStr (h_iso h (h_clock h 13))),
           (js ''language'', JStr (asked_language h req)), (js ''format'', JStr (asked_format h req)),
           (js ''requestId'', JStr (cx_requestId (context_of h req))),
           (js ''supportedLanguages'', JArr (map (\<lambda>l. JStr (js l))
              [''en'', ''es'', ''fr'', ''de'', ''it'', ''pt'', ''ru'', ''zh'', ''ja'', ''ko'']))]"

lemma translation_content: "jmap_get translation_table language = Some t \<Longrightarrow> content_create t = Inr t"
  unfolding jmap_get_def
  by (drule map_of_SomeD) (auto simp: translation_table_def content_create_def MAX_CONTENT_def js_length)

lemma factory_translates:
  assumes "jmap_get translation_table language = Some t"
  shows "\<exists>message. factory_create h \<lparr>ho_language = Some language, ho_format = Some format, ho_suffix = None\<rparr> = Inr message \<and>
    hm_content message = t \<and> hm_language message = language \<and> hm_format message = format"
  using assms translation_content [OF assms]
  by (simp add: factory_create_def or_value_def message_create_def withLanguage_def withFormat_def)

lemma or_default_or_value: "or_default (Some (or_value x d)) d = or_default x d"
  by (cases x) (simp_all add: or_default_def or_value_def)

lemma hello_handler:
  "helloWorldHandler h s context =
     (case service_execute h s (js ''GetHelloWorld'')
        \<lparr>ui_language = Some (or_value (jmap_get (cx_parameters context) (js ''language'')) (js ''en'')),
         ui_format = Some (or_value (jmap_get (cx_parameters context) (js ''format'')) (js ''json'')),
         ui_requestId = cx_requestId context, ui_correlationId = cx_correlationId context, ui_suffix = None\<rparr> of
        (s', result) \<Rightarrow> (s', Inr (service_response result)))"
  by (rule helloWorldHandler_def)

definition hello_input :: "host \<Rightarrow> express_request \<Rightarrow> use_case_input" where
  "hello_input h req =
     \<lparr>ui_language = Some (or_value (jmap_get (cx_parameters (context_of h req)) (js ''language'')) (js ''en'')),
      ui_format = Some (or_value (jmap_get (cx_parameters (context_of h req)) (js ''format'')) (js ''json'')),
      ui_requestId = cx_requestId (context_of h req), ui_correlationId = cx_correlationId (context_of h req),
      ui_suffix = None\<rparr>"

text \<open>The hello page is the use case's result, whatever it is.\<close>

lemma process_hello:
  assumes "request_page req = Some (js ''HelloWorld'')" and "query_reads req"
    and "execute_hello h new_policy n (hello_input h req) dm = (dm', n', result)"
    and "sv_success result \<longleftrightarrow> sv_data result \<noteq> None"
  shows "process h (running clock n k dm) req =
    (running clock n' k dm',
     (case sv_data result of
        Some data \<Rightarrow> ReplySend 200 json_headers (buffer_from (stringify data))
      | None \<Rightarrow> error_reply 500 (js ''Internal Server Error'')))"
  by (subst process_page [OF assms(1,2) handler_table(1) _ assms(4)])
    (simp_all add: hello_handler service_execute_def assms(3) flip: hello_input_def,
      simp_all add: running_def jmap_set_def)

lemma execute_hello_unsupported:
  assumes "request_page req = Some (js ''HelloWorld'')" and "query_reads req" and "\<not> greetable (h, req)"
  shows "\<exists>message. execute_hello h policy n (hello_input h req) dm = (dm, n, hello_error message)"
  using assms
  by (auto simp: execute_hello_def hello_input_def or_default_or_value asked_language_def asked_format_def asked_def Let_def)

lemma execute_hello_greets:
  assumes "greetable (h, req)" and "n < 1000000"
  shows "execute_hello h new_policy n (hello_input h req) dm =
    (publishEvent dm (greeting_event (h, req)), n + 1,
     service_ok (greeting_json h req (the (jmap_get translation_table (asked_language h req)))))"
proof -
  obtain t where t: "jmap_get translation_table (asked_language h req) = Some t"
    using assms(1) by (auto simp: supportsLanguage_def jmap_has_def)
  obtain message where m: "factory_create h \<lparr>ho_language = Some (asked_language h req), ho_format = Some (asked_format h req),
      ho_suffix = None\<rparr> = Inr message"
    and fields: "hm_content message = t" "hm_language message = asked_language h req" "hm_format message = asked_format h req"
    using factory_translates [OF t] by blast
  have input: "or_default (ui_language (hello_input h req)) (js ''en'') = asked_language h req"
    "or_default (ui_format (hello_input h req)) (js ''json'') = asked_format h req"
    "ui_suffix (hello_input h req) = None" "ui_requestId (hello_input h req) = cx_requestId (context_of h req)"
    "ui_correlationId (hello_input h req) = cx_correlationId (context_of h req)"
    by (simp_all add: hello_input_def or_default_or_value asked_language_def asked_format_def asked_def)
  have "canServe new_policy message n = None"
    using assms(2) by (simp add: canServe_def new_policy_def)
  moreover have "map JStr getSupportedLanguages =
      map (\<lambda>l. JStr (js l)) [''en'', ''es'', ''fr'', ''de'', ''it'', ''pt'', ''ru'', ''zh'', ''ja'', ''ko'']"
    by (simp add: getSupportedLanguages_def translation_table_def jmap_keys_def)
  ultimately show ?thesis
    using assms(1) m fields t
    by (simp add: execute_hello_def input Let_def hello_result_def greeting_json_def)
qed

lemma execute_hello_quota:
  assumes "greetable (h, req)" and "n \<ge> 1000000"
  shows "\<exists>message. execute_hello h new_policy n (hello_input h req) dm = (dm, n, hello_error message)"
proof -
  obtain t where t: "jmap_get translation_table (asked_language h req) = Some t"
    using assms(1) by (auto simp: supportsLanguage_def jmap_has_def)
  obtain message where "factory_create h \<lparr>ho_language = Some (asked_language h req), ho_format = Some (asked_format h req),
      ho_suffix = None\<rparr> = Inr message"
    using factory_translates [OF t] by blast
  moreover have "\<exists>reason. canServe new_policy m n = Some reason" for m
    using assms(2) by (simp add: canServe_def new_policy_def)
  ultimately show ?thesis
    using assms(1)
    by (auto simp: execute_hello_def hello_input_def or_default_or_value asked_language_def asked_format_def asked_def
        Let_def split: option.split)
qed

lemma hello_error_shape: "sv_success (hello_error m) = False" "sv_data (hello_error m) = None"
  by (simp_all add: hello_error_def service_failed_def)

lemma process_hello_error:
  assumes "request_page req = Some (js ''HelloWorld'')" and "query_reads req"
    and "\<exists>message. execute_hello h new_policy n (hello_input h req) dm = (dm, n, hello_error message)"
  shows "process h (running clock n k dm) req = (running clock n k dm, error_reply 500 (js ''Internal Server Error''))"
proof -
  obtain message where eq: "execute_hello h new_policy n (hello_input h req) dm = (dm, n, hello_error message)"
    using assms(3) by blast
  show ?thesis
    using process_hello [OF assms(1,2) eq] by (simp add: hello_error_shape)
qed

section \<open>Every state the application reaches\<close>

fun app_step :: "'d app \<Rightarrow> host \<times> express_request \<Rightarrow> 'd app" where
  "app_step a (h, req) = fst (process h a req)"

definition app_after :: "(nat \<Rightarrow> int) \<Rightarrow> (host \<times> express_request) list \<Rightarrow> unit app" where
  "app_after clock reqs = foldl app_step (compositionRoot clock) reqs"

definition greetings :: "(host \<times> express_request) list \<Rightarrow> (host \<times> express_request) list" where
  "greetings reqs = take 1000000 (filter greetable reqs)"

definition reports :: "(host \<times> express_request) list \<Rightarrow> (host \<times> express_request) list" where
  "reports reqs = filter (\<lambda>(h, req). request_page req = Some (js ''Metrics'') \<and> query_reads req) reqs"

definition published :: "(host \<times> express_request) list \<Rightarrow> unit domain_manager" where
  "published reqs = foldl publishEvent new_domain_manager (map greeting_event (greetings reqs))"

lemma page_cases:
  "request_page req = None \<or> request_page req = Some (js ''HelloWorld'') \<or> request_page req = Some (js ''HealthCheck'') \<or>
   request_page req = Some (js ''Metrics'') \<or> request_page req = Some (js ''Version'')"
  by (simp add: request_page_def page_handler_def)

lemma greetings_snoc:
  "greetings (reqs @ [r]) =
     (if greetable r \<and> length (greetings reqs) < 1000000 then greetings reqs @ [r] else greetings reqs)"
  by (auto simp: greetings_def)

lemma process_hello_ok:
  assumes "greetable (h, req)" and "n < 1000000"
  shows "process h (running clock n k dm) req =
    (running clock (n + 1) k (publishEvent dm (greeting_event (h, req))),
     ReplySend 200 json_headers
       (buffer_from (stringify (greeting_json h req (the (jmap_get translation_table (asked_language h req)))))))"
  using process_hello [OF _ _ execute_hello_greets [OF assms]] assms(1) by (simp add: service_ok_def)

lemma app_after_running:
  "app_after clock reqs = running clock (length (greetings reqs)) (length (reports reqs)) (published reqs)"
proof (induction reqs rule: rev_induct)
  case Nil
  then show ?case
    by (simp add: app_after_def greetings_def reports_def published_def compositionRoot_running)
next
  case (snoc r reqs)
  obtain h req where r [simp]: "r = (h, req)" by (cases r)
  let ?n = "length (greetings reqs)"
  have step: "app_after clock (reqs @ [(h, req)]) = fst (process h (running clock ?n (length (reports reqs)) (published reqs)) req)"
    using snoc by (simp add: app_after_def r)
  consider (hello) "greetable (h, req)" "?n < 1000000" | (quota) "greetable (h, req)" "?n \<ge> 1000000"
    | (unsupported) "request_page req = Some (js ''HelloWorld'')" "query_reads req" "\<not> greetable (h, req)"
    | (unreadable) name where "request_page req = Some name" "\<not> query_reads req"
    | (other) "request_page req \<noteq> Some (js ''HelloWorld'')" "query_reads req \<or> request_page req = None"
    by (cases "greetable (h, req)"; cases "?n < 1000000"; cases "request_page req") auto
  then show ?case
  proof cases
    case hello
    then have "request_page req \<noteq> Some (js ''Metrics'')" by simp
    with hello show ?thesis
      by (simp add: step greetings_snoc published_def reports_def process_hello_ok del: greetable.simps greeting_event.simps)
  next
    case quota
    then have "process h (running clock ?n (length (reports reqs)) (published reqs)) req =
        (running clock ?n (length (reports reqs)) (published reqs), error_reply 500 (js ''Internal Server Error''))"
      by (intro process_hello_error execute_hello_quota) simp_all
    moreover have "request_page req \<noteq> Some (js ''Metrics'')" using quota by simp
    ultimately show ?thesis
      using quota by (simp add: step greetings_snoc published_def reports_def del: greetable.simps)
  next
    case unsupported
    then have "process h (running clock ?n (length (reports reqs)) (published reqs)) req =
        (running clock ?n (length (reports reqs)) (published reqs), error_reply 500 (js ''Internal Server Error''))"
      by (intro process_hello_error execute_hello_unsupported) simp_all
    with unsupported show ?thesis
      by (simp add: step greetings_snoc published_def reports_def del: greetable.simps)
  next
    case (unreadable name)
    then show ?thesis
      by (simp add: step greetings_snoc published_def reports_def process_unreadable)
  next
    case other
    then have no: "\<not> greetable (h, req)" by simp
    from other(2) show ?thesis
    proof
      assume "query_reads req"
      with page_cases [of req] other(1) show ?thesis
        by (elim disjE)
          (simp_all add: step greetings_snoc published_def no reports_def process_not_found process_reports
            del: greetable.simps)
    next
      assume "request_page req = None"
      then show ?thesis
        by (simp add: step greetings_snoc published_def no reports_def process_not_found del: greetable.simps)
    qed
  qed
qed

lemma process_outcome:
  "case process h (running clock n k dm) req of (a', reply) \<Rightarrow>
     (if request_page req = None
      then reply = error_reply 404 (js ''Not Found'') \<and> a' = running clock n k dm
      else if \<not> query_reads req then reply = ReplyNext \<and> a' = running clock n k dm
      else if request_page req = Some (js ''HelloWorld'') \<and> \<not> (greetable (h, req) \<and> n < 1000000)
      then reply = error_reply 500 (js ''Internal Server Error'') \<and> a' = running clock n k dm
      else (\<exists>body. reply = ReplySend 200 json_headers (buffer_from (stringify body))))"
proof -
  consider (hello) "greetable (h, req)" "n < 1000000"
    | (refused) "request_page req = Some (js ''HelloWorld'')" "query_reads req" "\<not> (greetable (h, req) \<and> n < 1000000)"
    | (unreadable) name where "request_page req = Some name" "\<not> query_reads req"
    | (other) "request_page req \<noteq> Some (js ''HelloWorld'')" "query_reads req \<or> request_page req = None"
    by (cases "greetable (h, req) \<and> n < 1000000"; cases "request_page req") auto
  then show ?thesis
  proof cases
    case hello
    then show ?thesis
      using process_hello_ok [OF hello, of clock k dm] by auto
  next
    case refused
    have "\<exists>message. execute_hello h new_policy n (hello_input h req) dm = (dm, n, hello_error message)"
    proof (cases "greetable (h, req)")
      case True
      with refused(3) show ?thesis by (intro execute_hello_quota) simp_all
    next
      case False
      with refused(1,2) show ?thesis by (rule execute_hello_unsupported)
    qed
    from process_hello_error [OF refused(1,2) this] refused show ?thesis
      by (simp del: greetable.simps)
  next
    case (unreadable name)
    then show ?thesis
      by (simp add: process_unreadable)
  next
    case other
    with page_cases [of req] show ?thesis
      by (elim disjE) (auto simp: process_not_found process_reports)
  qed
qed

lemma process_sends:
  assumes "snd (process h (running clock n k dm) req) = ReplySend status headers body"
  shows "\<exists>data. status = 200 \<and> headers = json_headers \<and> body = buffer_from (stringify data)"
  using process_outcome [where h = h and clock = clock and n = n and k = k and dm = dm and req = req] assms
  by (auto simp: error_reply_def split: prod.splits if_splits)

lemma metrics_fields:
  "\<exists>kvs. sv_data (execute_metrics h layers startTime m) = Some (JObj kvs) \<and>
     map_of kvs (js ''totalRequests'') = Some (JNum (int m))"
  by (simp add: execute_metrics_def service_ok_def)

section \<open>Properties\<close>

text \<open>
  C1: the greeting is served: after any requests with fewer than a million greetings, \<open>GET /\<close> with a query that
  can be read, in a supported language and an allowed format, both defaulting as documented, is answered with status
  200 and the JSON of the translation, and its event is the last of its request's events.
\<close>

theorem hello_served:
  assumes "greetable (h, req)" and "length (greetings reqs) < 1000000"
    and "jmap_get translation_table (asked_language h req) = Some t"
  shows "snd (process h (app_after clock reqs) req) =
      ReplySend 200 json_headers (buffer_from (stringify (greeting_json h req t))) \<and>
    last (getUncommittedEvents (sv_domain (ax_service (app_after clock (reqs @ [(h, req)]))))
      (cx_requestId (context_of h req))) = greeting_event (h, req)"
proof -
  have "published (reqs @ [(h, req)]) = publishEvent (published reqs) (greeting_event (h, req))"
    using assms(1,2) by (simp add: published_def greetings_snoc del: greetable.simps greeting_event.simps)
  moreover have "ev_aggregateId (greeting_event (h, req)) = cx_requestId (context_of h req)"
    by (simp add: helloWorldRequested_def)
  ultimately show ?thesis
    using process_hello_ok [OF assms(1,2), of clock "length (reports reqs)" "published reqs"] assms(3)
    by (simp add: app_after_running getUncommittedEvents_publish del: greetable.simps greeting_event.simps)
qed

text \<open>
  C5: the state is a fold of the requests: after any requests the event store holds the events of the
  first million greetable ones in order, the greeting count is their number, the metrics count is the
  number of metrics requests whose query can be read, and routes and handlers are as composed.
\<close>

theorem app_state_refined:
  "app_after clock reqs =
     \<lparr>ax_router = ax_router (compositionRoot clock), ax_handlers = ax_handlers (compositionRoot clock),
      ax_service =
        \<lparr>sv_useCases =
           [(js ''GetHelloWorld'', GetHelloWorld new_policy (min 1000000 (length (filter greetable reqs)))),
            (js ''GetHealthCheck'', GetHealthCheck (js ''1.0.0'') 104),
            (js ''GetMetrics'', GetMetrics 104 (clock 0) (length (reports reqs))),
            (js ''GetVersion'', GetVersion (js ''1.0.0'') 104)],
         sv_domain = foldl publishEvent new_domain_manager (map greeting_event (take 1000000 (filter greetable reqs)))\<rparr>\<rparr>"
proof -
  have "getLayerCount = 104"
    by (simp add: getLayerCount_def layer_names_def)
  moreover have "length (greetings reqs) = min 1000000 (length (filter greetable reqs))"
    by (simp add: greetings_def min_def)
  ultimately show ?thesis
    unfolding app_after_running running_def published_def greetings_def
    by (simp add: compositionRoot_def)
qed

text \<open>
  C34: every request that reaches the pipeline is answered, and every answer but a page changes nothing: 404 exactly
  for what is not a \<open>GET\<close> of one of the four pages; the error is handed to Express exactly when one of them is asked
  for with a query whose lists cannot be joined to text; 500 exactly for a greeting refused; 200 and a JSON body for
  every other request.
\<close>

theorem every_request_answered:
  "case process h (app_after clock reqs) req of (a', reply) \<Rightarrow>
     (if request_page req = None
      then reply = error_reply 404 (js ''Not Found'') \<and> a' = app_after clock reqs
      else if normalizeQuery (xr_query req) = None then reply = ReplyNext \<and> a' = app_after clock reqs
      else if request_page req = Some (js ''HelloWorld'') \<and> \<not> (greetable (h, req) \<and> length (greetings reqs) < 1000000)
      then reply = error_reply 500 (js ''Internal Server Error'') \<and> a' = app_after clock reqs
      else (\<exists>body. reply = ReplySend 200 json_headers (buffer_from (stringify body))))"
  using process_outcome [where h = h and clock = clock and n = "length (greetings reqs)" and k = "length (reports reqs)"
      and dm = "published reqs" and req = req]
  unfolding app_after_running query_reads_def not_not .

text \<open>
  A parameter that is a list with an object in it whose keys include \<open>toString\<close>, as in \<open>?a[0][toString]=x\<close>, takes every
  page down to Express' own error page; an object that is not in a list is ignored.
\<close>

theorem list_of_objects_throws:
  assumes "request_page req = Some name" and "xr_query req = [(key, QueryList [QueryObject [(js ''toString'', v)]])]"
  shows "process h (app_after clock reqs) req = (app_after clock reqs, ReplyNext)"
  using process_unreadable [OF assms(1)] assms(2)
  by (simp add: app_after_running query_reads_def normalizeQuery_def)

text \<open>
  The daily quota is for the lifetime of the process: once a million greetings were served, every
  later greeting is refused with 500, whatever is requested in between and however much time passes.
\<close>

theorem hello_quota_forever:
  assumes "length (filter greetable reqs) \<ge> 1000000" and "greetable (h, req)"
  shows "snd (process h (app_after clock (reqs @ later)) req) = error_reply 500 (js ''Internal Server Error'')"
proof -
  have "length (greetings (reqs @ later)) = 1000000"
    using assms(1) by (simp add: greetings_def)
  then show ?thesis
    using assms(2) unfolding app_after_running
    by (subst process_hello_error) (auto intro!: execute_hello_quota simp del: buffer_from_def)
qed

text \<open>
  The request count of the metrics page counts the metrics page: it is the number of metrics
  requests so far and this one, however many greetings, health checks and unknown pages were served.
\<close>

theorem metrics_count_themselves:
  assumes "request_page req = Some (js ''Metrics'')" and "query_reads req"
  shows "\<exists>kvs. snd (process h (app_after clock reqs) req) = ReplySend 200 json_headers (buffer_from (stringify (JObj kvs))) \<and>
    map_of kvs (js ''totalRequests'') = Some (JNum (int (length (reports reqs)) + 1))"
proof -
  obtain kvs where "sv_data (execute_metrics h getLayerCount (clock 0) (length (reports reqs) + 1)) = Some (JObj kvs)"
    "map_of kvs (js ''totalRequests'') = Some (JNum (int (length (reports reqs) + 1)))"
    using metrics_fields by blast
  then show ?thesis
    using process_reports(2) [OF assms, of h clock "length (greetings reqs)" "length (reports reqs)" "published reqs"]
    by (auto simp: app_after_running simp del: stringify.simps intro!: exI [of _ kvs])
qed

text \<open>
  The reply's bytes are the text's UTF-8: what a served page sends decodes to the scalar values of its JSON text.
\<close>

theorem page_bytes_decode:
  assumes "snd (process h (app_after clock reqs) req) = ReplySend status headers body"
  shows "\<exists>data. utf8_decode body = Some (codepoints (stringify data)) \<and> status = 200 \<and>
    jmap_get headers (js ''content-type'') = Some (js ''application/json'')"
  using process_sends [OF assms [unfolded app_after_running]] by (auto simp: buffer_from_decodes json_headers_def)

section \<open>Samples\<close>

definition sample_host :: host where
  "sample_host =
     \<lparr>h_clock = (\<lambda>_. 0), h_iso = (\<lambda>_. js ''1970-01-01T00:00:00.000Z''), h_random = (\<lambda>_. js ''abc''),
      h_memory = (\<lambda>_. 1), h_nodeEnv = None, h_nodeVersion = js ''v22.0.0''\<rparr>"

definition get_page :: "string \<Rightarrow> (jstring \<times> query_value) list \<Rightarrow> express_request" where
  "get_page path query =
     \<lparr>xr_method = Some GET, xr_path = js path, xr_url = js path, xr_headers = [], xr_params = [], xr_query = query,
      xr_body = None\<rparr>"

abbreviation spanish :: "host \<times> express_request" where
  "spanish \<equiv> (sample_host, get_page ''/'' [(js ''language'', QueryText (js ''es''))])"

lemma spanish_greetable: "greetable spanish"
  by code_simp

lemma spanish_text: "jmap_get translation_table (asked_language sample_host (snd spanish)) = Some (js ''Hola Mundo'')"
  by code_simp

theorem hello_served_witness:
  "snd (process sample_host (app_after (\<lambda>_. 0) []) (snd spanish)) =
     ReplySend 200 json_headers (buffer_from (stringify (greeting_json sample_host (snd spanish) (js ''Hola Mundo''))))"
  using hello_served [OF spanish_greetable, of "[]" "js ''Hola Mundo''" "\<lambda>_. 0"] spanish_text
  by (simp add: greetings_def)

theorem hello_quota_forever_witness:
  "snd (process sample_host (app_after (\<lambda>_. 0) (replicate 1000000 spanish @ [(sample_host, get_page ''/health'' [])])) (snd spanish)) =
     error_reply 500 (js ''Internal Server Error'')"
  using hello_quota_forever [OF _ spanish_greetable, of "replicate 1000000 spanish"] spanish_greetable
  by (simp add: filter_replicate del: greetable.simps replicate.simps)

theorem metrics_count_themselves_witness:
  "\<exists>kvs. snd (process sample_host (app_after (\<lambda>_. 0) [spanish]) (get_page ''/metrics'' [])) =
      ReplySend 200 json_headers (buffer_from (stringify (JObj kvs))) \<and>
    map_of kvs (js ''totalRequests'') = Some (JNum 1)"
proof -
  have page: "request_page (get_page ''/metrics'' []) = Some (js ''Metrics'')" "query_reads (get_page ''/metrics'' [])"
    by (simp_all add: request_page_def page_handler_def get_page_def query_reads_def normalizeQuery_def)
  have "request_page (snd spanish) = Some (js ''HelloWorld'')"
    by (simp add: request_page_def page_handler_def get_page_def)
  then have "length (reports [spanish]) = 0"
    by (simp add: reports_def)
  then show ?thesis
    using metrics_count_themselves [OF page, of sample_host "\<lambda>_. 0" "[spanish]"] by simp
qed

theorem page_bytes_decode_witness:
  "\<exists>data. utf8_decode (buffer_from (stringify (greeting_json sample_host (snd spanish) (js ''Hola Mundo'')))) =
     Some (codepoints (stringify data))"
proof -
  have "snd (process sample_host (app_after (\<lambda>_. 0) []) (snd spanish)) =
     ReplySend 200 json_headers (buffer_from (stringify (greeting_json sample_host (snd spanish) (js ''Hola Mundo''))))"
    using process_hello_ok [OF spanish_greetable, of 0 "\<lambda>_. 0" 0 "new_domain_manager :: unit domain_manager"] spanish_text
    by (simp add: app_after_def compositionRoot_running)
  from page_bytes_decode [OF this] show ?thesis by blast
qed

end
