(* ===== verification/Spec2Isabelle.thy ===== *)
theory Spec2Isabelle
  imports WsSession WsRooms WsPresence WsHandshake WsResume WsSendQueue Http2Framing SagaRuns EndpointBreaker Bulkhead
    ProbeScheduler BreakerRegistry CircuitBreaker RadixTrie ChunkedBody Multipart UrlParser HeaderNormalizer BodyLimit
    CodecStream SchemaCodec Envelope BrokerQueue DagPaths QuotaBuckets BloomFilter
    FrequencySketch HelloApp
begin

text \<open>
  A verification library for the TypeScript repository \<open>one-million-hello-world\<close>: a hello-world HTTP
  server of 104 layers, most of them scaffolding, with a small request path and a number of
  hand-written engines (routing, WebSocket, HTTP/2, sagas, circuit breakers, parsing, serialization,
  queues, scheduling, rate limiting, caching). The library models the
  request path and these engines. Paths below are relative to \<open>src/src\<close>.

  \<^bold>\<open>Parts.\<close>

  \<^item> The request path. \<open>application/Pipeline.ts\<close> takes a request from Express, asks
    \<open>layers/router/implementations/Router.ts\<close> for the route, runs the controller's handler
    (\<open>layers/controller\<close>), which runs a use case of the service (\<open>layers/service\<close>) on the domain
    (\<open>layers/domain\<close>), and replies. \<open>application/CompositionRoot.ts\<close> puts the parts together. Theories
    \<open>AppRouter\<close> (every operation of the router), \<open>HelloDomain\<close> (messages, factory, policy, events,
    health, domain manager), \<open>HelloApp\<close> (use cases, controller, composition, pipeline) and \<open>JsJson\<close>
    (what is used of \<open>JSON.stringify\<close> and \<open>Buffer.from\<close>). \<open>process\<close> is \<open>Pipeline._process\<close>: it takes the
    application's state to the next and gives the reply. What Express parses of a request is the argument: its
    query is any nesting of texts, lists and objects.
  \<^item> The trie router, \<open>layers/router/engine/RadixTrieRouter.ts\<close>: theory \<open>RadixTrie\<close>. The mutable tree is
    a functional one; \<open>table\<close> abstracts it to a map from patterns to routes.
  \<^item> The WebSocket protocol, \<open>layers/websocket/protocol\<close>: theories \<open>WsHandshake\<close> (the opening handshake of both
    sides), \<open>WsTypes\<close>, \<open>WsFrameCodec\<close>, \<open>WsReassembler\<close>, \<open>WsSession\<close>. A session's state is a record; what it hands to the transport and to its
    listeners is a log in the record; timers fire as operations of their own.
  \<^item> The WebSocket server, \<open>layers/websocket/server\<close>: theories \<open>WsRooms\<close> (rooms and broadcasts; the send
    callback may change the rooms while a broadcast runs), \<open>WsResume\<close> (the buffer that replays what a
    client missed, and the signed tokens it resumes with; \<open>NodeBuffer\<close> has what is used of \<open>Buffer\<close>),
    \<open>WsPresence\<close> (who is online, over which connections, and who is told of it) and \<open>WsSendQueue\<close> (the outbound queue with its overflow policies, over a ring buffer).
  \<^item> HTTP/2 framing and flow control, \<open>layers/network/engine/Http2Framing.ts\<close>: theory \<open>Http2Framing\<close>.
  \<^item> Sagas, \<open>layers/saga/engine\<close>: theories \<open>SagaLog\<close>, \<open>SagaEngine\<close> and \<open>SagaRuns\<close>. In \<open>SagaEngine\<close> a run is
    one operation: actions and compensations are functions from their context to an outcome, and which of a timer and
    an action comes first is a parameter. \<open>SagaRuns\<close> takes the same run apart at its awaits: any number of runs go
    on side by side, answers come in any order or never, and the process may stop between any two of them;
    \<open>run_by_awaits\<close> says that a run whose answers are those of the functions is the one of \<open>SagaEngine\<close>.
  \<^item> Circuit breakers, \<open>layers/circuit-breaker\<close>: theories \<open>EndpointBreaker\<close> (the rolling-window breaker of
    the engine) and \<open>CircuitBreaker\<close> (the counting one of the application). Around the first:
    \<open>BreakerRegistry\<close> (a breaker per endpoint, kill switch, snapshots) with \<open>FallbackChain\<close>,
    \<open>ProbeScheduler\<close> (probes of a whole fleet under one limit) and \<open>Bulkhead\<close> (a counting semaphore with
    a queue). A promise is an identifier with a log of settlements; a ticket is live until it is released.
  \<^item> The HTTP parser's engine, \<open>layers/http-parser/engine\<close>: \<open>ChunkedBody\<close> (chunked transfer coding with
    trailers), \<open>Multipart\<close> (form bodies, emitted part by part as they arrive), both over \<open>HttpText\<close>
    (searching in buffers, header blocks), \<open>UrlParser\<close> (request targets and query strings both ways),
    \<open>HeaderNormalizer\<close> and \<open>BodyLimit\<close>. The two decoders are loops over a state record; what they hand to
    their callbacks is a list of events.
  \<^item> Serialization, \<open>layers/serialization/engine\<close>: \<open>ByteCodec\<close> (the writer and the reader, with the numbers
    of JavaScript and the places where their arithmetic rounds), \<open>BinaryCodec\<close> (self-describing values),
    \<open>CodecStream\<close> (values or frames that arrive in chunks), \<open>SchemaCodec\<close> (records of a declared shape) and
    \<open>Envelope\<close> (versioned payloads with a CRC-32). A reader is a cursor and the bytes behind it; exceptions
    are results.
  \<^item> The message queue, \<open>layers/message-queue/engine\<close>: \<open>PriorityHeap\<close> (the priority heap and the delay
    scheduler, one pair of sifting loops over two orders) and \<open>BrokerQueue\<close> (leases, acknowledgements, backoff, dead
    letters, consumer groups, the facade with its pull loops). Every clock reading of an operation is an argument of its own.
  \<^item> Graphs: \<open>DeadlockDetector\<close> (\<open>layers/unit-of-work/engine2/DeadlockDetector.ts\<close>, a wait-for graph searched at
    every wait) and \<open>DependencyDAG\<close>, \<open>DagSchedule\<close>, \<open>DagPaths\<close> (\<open>layers/scheduling/engine2/DependencyDAG.ts\<close>:
    registration, execution layers, critical path, closures). The searches are recursive functions over the adjacency map;
    \<open>waits_for\<close> and \<open>arrows\<close> abstract the maps to relations.
  \<^item> Rate limiting, \<open>layers/rate-limiting/engine\<close>: \<open>SlidingWindow\<close> (the log of a key's requests and its sweep, with
    hits taken back and keys reset) and \<open>QuotaBuckets\<close> (several windows consumed together, or not at all).
  \<^item> Caching, \<open>layers/cache/engine\<close>: \<open>HashRing\<close> (the sorted ring of points and its owners), \<open>FrequencySketch\<close>
    (the count-min sketch and the admission built on it) and \<open>BloomFilter\<close> (counters of four bits, packed in pairs).
    The hash functions are parameters.
  \<^item> Shared: \<open>JsPrelude\<close> (strings as lists of UTF-16 code units, insertion-ordered maps, big-endian
    bytes), \<open>Utf8\<close>, \<open>RouterTypes\<close>, and \<open>Interfaces\<close>, the locales of the library.

  \<^bold>\<open>Interfaces.\<close> \<open>keyed_store\<close> (what a map promises), \<open>registry\<close> (entries are added once and never
  overwritten), \<open>invariant_machine\<close> and \<open>lifecycle\<close> (operations that keep an invariant, or move forward
  only), \<open>incremental_decoder\<close> and \<open>framing\<close> (decoders fed by a byte stream, and encoders they take back),
  \<open>segmented_feed\<close> (decoders that emit as they go: only a view of their events is the same for every
  segmentation), \<open>fifo_queue\<close> (first in, first out); \<open>heap_order\<close>, in \<open>PriorityHeap\<close>, is an order on heap
  entries. Each is interpreted on the models: the maps, the trie router, both
  routers' operations, the frame codecs of WebSocket and HTTP/2, the chunked and multipart decoders, the
  stream of binary records, the body limiter, the reassembler, the session, the rooms,
  the resume buffer, the send queue and its ring, the flow windows, the saga engine, the breakers, their
  registry, the bulkhead and the probe scheduler, the orders of the two heaps, the broker queue with its ledger,
  the deadlock detector, the saga runs, the presence registry, the rate limiters and quotas, the hash ring, the sketches and the
  counting filter.

  \<^bold>\<open>What is shown.\<close> The greeting is served in the language asked for, the state of the application is a fold of its
  requests, and every request is answered: with a page, or with an error that
  changes nothing. The trie refines a finite map, and its search finds
  the best-scoring registered pattern that reads the path. Both frame codecs decode every segmentation
  of a stream alike and take back what they encode; buffers and windows are bounded; sessions close in
  order and deliver messages unchanged. Sagas complete or undo everything, a
  run awaits finitely often whatever the actions do, and the log tells the state and the steps of every saga between any
  two awaits, of however many runs. The breaker's ring buffer counts exactly the failures of its window. Rooms
  refine one relation between rooms and connections; a resumed client gets exactly what it missed or is
  told of a gap (unless the buffer is empty), and only a signed token resumes; the send queue loses nothing unreported and keeps the
  order. Chunked and multipart bodies are decoded to what was encoded, in every segmentation and within
  the caps; a query string written by the parser's own writer is read back from a whole target; repeated
  headers are merged or kept apart by their kind. Encoded values are read back wherever they stand, record
  by record in every segmentation; a schema's records are read under its newer versions; the table-driven
  checksum is the bitwise one and reveals every change of four consecutive bytes. Slots of the bulkhead and of the probe scheduler are never lost nor exceeded, and requests are
  served in order. An accepted message is always in exactly one place of the broker queue until it is acknowledged,
  never leased before its time nor more often than the policy allows. A wait is reported exactly when it closes a
  cycle, and without a report there is no deadlock. A dependency graph is refused exactly for its cycles, its layers
  are the jobs that become ready, its critical path is a heaviest chain. A request is admitted exactly when the window has
  room; a refusal by one quota consumes none of the others; a node added to the ring or taken off it moves only the keys that it
  owns; the packed counters of the filter are the counts of the keys while none saturates. Some theorems state
  behaviour the code has against its comments or documentation (see the manifest's findings).

  \<^bold>\<open>Bounds and fuel.\<close> Loops are recursive functions with measures (bytes left,
  tokens left, size of the trie, attempts left); the depth that bounds the nesting of encoded values is one
  more than their bytes, and more makes no difference. Only the walk back over a critical path, which the code bounds
  by nothing, has fuel: more than the number of jobs is enough, as the theorem on it shows. Lengths are natural numbers where the code's numbers
  stay below \<open>2 ^ 53\<close>; bytes and code units are words of their width. \<open>averageMatchTime\<close> is an exact
  fraction where the code rounds.

  \<^bold>\<open>Parameters.\<close> Clocks, random texts, the environment, saga actions, lower-casing, regular
  expressions, send callbacks and sinks, guarded operations and fallbacks, hash functions, SHA-1 and the MAC of a
  token are arguments of the definitions that use them.

  \<^bold>\<open>Not modelled.\<close> The other layers: each repeats the same scaffolding around an in-memory class that no
  request reaches, some with an engine of their own outside the request path; the manifest lists them one by one. Of the
  layers above: upgrade routing, connection limits and the second engine of the WebSocket layer, the router's caching and
  versioning, the breaker's floating-point tuning and statistics, connection pools, token buckets and penalties, the
  multi-level cache, the older in-memory managers beside the engines. Express, the network and the process are outside the
  program. Callbacks that a component calls while it works (sinks, listeners, events) do not call it back and do not throw, except where
  a theory says so (room broadcasts); times, durations and limits are integers.
\<close>

end
